(* ===== verification/Lno_Prelude.thy ===== *)
theory Lno_Prelude
  imports Main "HOL-Library.Word" "HOL-Library.Monad_Syntax" "HOL-Library.Multiset"
    "HOL-Library.Char_ord" "HOL-Library.List_Lexorder"
begin

unbundle bit_operations_syntax

text \<open>
  Shared vocabulary of the development: the C integer types as words, byte
  memories with checked little-endian loads and stores (a failed check is
  \<open>None\<close>, an access outside the object), the byte-order macros of
  \<^verbatim>\<open>bpf_endian.h\<close>, C strings, and the generic lemmas that the component
  theories use.  The fact collections are \<open>mem_simps\<close> (rewriting of loads and
  stores), \<open>mem_some\<close> (when an access succeeds) and \<open>mem_len\<close> (stores keep
  the size of an object).
\<close>

section \<open>Types\<close>

type_synonym u8 = "8 word"
type_synonym u16 = "16 word"
type_synonym u32 = "32 word"
type_synonym u64 = "64 word"
type_synonym bytes = "u8 list"

named_theorems mem_simps
named_theorems mem_some
named_theorems mem_len

section \<open>Error numbers\<close>

definition EPERM :: int where "EPERM = 1"
definition ENOENT :: int where "ENOENT = 2"
definition EINTR :: int where "EINTR = 4"
definition E2BIG :: int where "E2BIG = 7"
definition EAGAIN :: int where "EAGAIN = 11"
definition ENOMEM :: int where "ENOMEM = 12"
definition EACCES :: int where "EACCES = 13"
definition EEXIST :: int where "EEXIST = 17"
definition EINVAL :: int where "EINVAL = 22"

lemmas errno_defs = EPERM_def ENOENT_def E2BIG_def ENOMEM_def EACCES_def EEXIST_def EINVAL_def

section \<open>Byte order: the macros of bpf\_endian.h\<close>

text \<open>
  \<^verbatim>\<open>___bpf_mvb(x, b, n, m)\<close> isolates byte \<open>n\<close> of a \<open>b\<close>-bit value and puts it at
  byte \<open>m\<close>.  The programs are built for \<^verbatim>\<open>bpfel\<close>, a little-endian target, so
  \<^verbatim>\<open>bpf_htons\<close> and \<^verbatim>\<open>bpf_htonl\<close> are the swaps.
\<close>

definition bpf_mvb :: "'a::len word \<Rightarrow> nat \<Rightarrow> nat \<Rightarrow> nat \<Rightarrow> 'a word" where
  "bpf_mvb x b n m = push_bit (m * 8) (drop_bit (b - 8) (push_bit (b - (n + 1) * 8) x))"

definition bpf_swab16 :: "u16 \<Rightarrow> u16" where
  "bpf_swab16 x = bpf_mvb x 16 0 1 OR bpf_mvb x 16 1 0"

definition bpf_swab32 :: "u32 \<Rightarrow> u32" where
  "bpf_swab32 x = bpf_mvb x 32 0 3 OR bpf_mvb x 32 1 2 OR bpf_mvb x 32 2 1 OR bpf_mvb x 32 3 0"

definition bpf_htons :: "u16 \<Rightarrow> u16" where "bpf_htons x = bpf_swab16 x"

definition bpf_htonl :: "u32 \<Rightarrow> u32" where "bpf_htonl x = bpf_swab32 x"

section \<open>Byte memories\<close>

definition load8 :: "bytes \<Rightarrow> nat \<Rightarrow> u8 option" where
  "load8 m a = (if a < length m then Some (m ! a) else None)"

definition load16 :: "bytes \<Rightarrow> nat \<Rightarrow> u16 option" where
  "load16 m a = (if a + 2 \<le> length m
     then Some (ucast (m ! a) OR push_bit 8 (ucast (m ! (a + 1)))) else None)"

definition load32 :: "bytes \<Rightarrow> nat \<Rightarrow> u32 option" where
  "load32 m a = (if a + 4 \<le> length m
     then Some (ucast (m ! a) OR push_bit 8 (ucast (m ! (a + 1)))
       OR push_bit 16 (ucast (m ! (a + 2))) OR push_bit 24 (ucast (m ! (a + 3)))) else None)"

definition store8 :: "bytes \<Rightarrow> nat \<Rightarrow> u8 \<Rightarrow> bytes option" where
  "store8 m a v = (if a < length m then Some (m[a := v]) else None)"

definition store16 :: "bytes \<Rightarrow> nat \<Rightarrow> u16 \<Rightarrow> bytes option" where
  "store16 m a v = (if a + 2 \<le> length m
     then Some (m[a := ucast v, a + 1 := ucast (drop_bit 8 v)]) else None)"

definition store32 :: "bytes \<Rightarrow> nat \<Rightarrow> u32 \<Rightarrow> bytes option" where
  "store32 m a v = (if a + 4 \<le> length m
     then Some (m[a := ucast v, a + 1 := ucast (drop_bit 8 v),
       a + 2 := ucast (drop_bit 16 v), a + 3 := ucast (drop_bit 24 v)]) else None)"

text \<open>\<^verbatim>\<open>__builtin_memcpy\<close> of \<open>n\<close> bytes from the start of \<open>src\<close> to \<open>dst + a\<close>.\<close>

definition memcpy :: "bytes \<Rightarrow> nat \<Rightarrow> bytes \<Rightarrow> nat \<Rightarrow> bytes option" where
  "memcpy dst a src n = (if a + n \<le> length dst \<and> n \<le> length src
     then Some (take a dst @ take n src @ drop (a + n) dst) else None)"

definition load_bytes :: "bytes \<Rightarrow> nat \<Rightarrow> nat \<Rightarrow> bytes option" where
  "load_bytes m a n = (if a + n \<le> length m then Some (take n (drop a m)) else None)"

text \<open>The bytes of a word in memory.\<close>

definition le_bytes :: "u32 \<Rightarrow> bytes" where
  "le_bytes w = [ucast w, ucast (drop_bit 8 w), ucast (drop_bit 16 w), ucast (drop_bit 24 w)]"

lemma load8_eq_Some [mem_some]: "load8 m a = Some v \<longleftrightarrow> a < length m \<and> v = m ! a"
  by (auto simp: load8_def)

lemma load8_in [mem_simps]: "a < length m \<Longrightarrow> load8 m a = Some (m ! a)"
  by (simp add: load8_def)

lemma load16_in [mem_simps]:
  "a + 2 \<le> length m \<Longrightarrow> load16 m a = Some (ucast (m ! a) OR push_bit 8 (ucast (m ! (a + 1))))"
  by (simp add: load16_def)

lemma load32_in [mem_simps]:
  "a + 4 \<le> length m \<Longrightarrow> load32 m a = Some (ucast (m ! a) OR push_bit 8 (ucast (m ! (a + 1)))
       OR push_bit 16 (ucast (m ! (a + 2))) OR push_bit 24 (ucast (m ! (a + 3))))"
  by (simp add: load32_def)

lemma store8_in [mem_simps]: "a < length m \<Longrightarrow> store8 m a v = Some (m[a := v])"
  by (simp add: store8_def)

lemma store16_in [mem_simps]:
  "a + 2 \<le> length m \<Longrightarrow> store16 m a v = Some (m[a := ucast v, a + 1 := ucast (drop_bit 8 v)])"
  by (simp add: store16_def)

lemma store32_in [mem_simps]:
  "a + 4 \<le> length m \<Longrightarrow> store32 m a v = Some (m[a := ucast v, a + 1 := ucast (drop_bit 8 v),
       a + 2 := ucast (drop_bit 16 v), a + 3 := ucast (drop_bit 24 v)])"
  by (simp add: store32_def)

lemma memcpy_in [mem_simps]:
  "a + n \<le> length dst \<Longrightarrow> n \<le> length src \<Longrightarrow>
     memcpy dst a src n = Some (take a dst @ take n src @ drop (a + n) dst)"
  by (simp add: memcpy_def)

lemma store8_length [mem_len]: "store8 m a v = Some m' \<Longrightarrow> length m' = length m"
  by (auto simp: store8_def split: if_splits)

lemma store16_length [mem_len]: "store16 m a v = Some m' \<Longrightarrow> length m' = length m"
  by (auto simp: store16_def split: if_splits)

lemma store32_length [mem_len]: "store32 m a v = Some m' \<Longrightarrow> length m' = length m"
  by (auto simp: store32_def split: if_splits)

lemma memcpy_length [mem_len]: "memcpy m a s n = Some m' \<Longrightarrow> length m' = length m"
  by (auto simp: memcpy_def split: if_splits)

text \<open>A value written is the value read back.\<close>

lemma word16_bytes: "(ucast (ucast v :: u8) :: u16) OR push_bit 8 (ucast (ucast (drop_bit 8 v) :: u8)) = v"
  by (rule bit_word_eqI) (auto simp: bit_simps)

lemma word32_bytes:
  "(ucast (ucast v :: u8) :: u32) OR push_bit 8 (ucast (ucast (drop_bit 8 v) :: u8))
     OR push_bit 16 (ucast (ucast (drop_bit 16 v) :: u8))
     OR push_bit 24 (ucast (ucast (drop_bit 24 v) :: u8)) = v"
proof (rule bit_word_eqI, goal_cases)
  case (1 n)
  then consider "n < 8" | "8 \<le> n" "n < 16" | "16 \<le> n" "n < 24" | "24 \<le> n" by linarith
  then show ?case using 1 by cases (auto simp: bit_simps)
qed

lemma load16_store16: "store16 m a v = Some m' \<Longrightarrow> load16 m' a = Some v"
  by (auto simp: store16_def load16_def word16_bytes split: if_splits)

lemma load32_store32: "store32 m a v = Some m' \<Longrightarrow> load32 m' a = Some v"
  by (auto simp: store32_def load32_def word32_bytes split: if_splits)

section \<open>Words as numbers\<close>

lemma unat_lt: "unat (x :: 'a::len word) < 2 ^ LENGTH('a)"
  by (rule unsigned_less)

lemma unat_u8: "unat (x :: u8) < 256"
  using unat_lt [of x] by simp

lemma unat_u16: "unat (x :: u16) < 65536"
  using unat_lt [of x] by simp

lemma unat_u32: "unat (x :: u32) < 4294967296"
  using unat_lt [of x] by simp

lemma unat_of_nat_u32: "n < 2 ^ 32 \<Longrightarrow> unat (of_nat n :: u32) = n"
  by (simp add: unsigned_of_nat take_bit_nat_eq_self)

lemma unat_ucast_mod: "unat (ucast (x :: 'a::len word) :: 'b::len word) = unat x mod 2 ^ LENGTH('b)"
  by (simp add: unsigned_ucast_eq take_bit_eq_mod)

lemma unat_ucast_up: "LENGTH('a) \<le> LENGTH('b) \<Longrightarrow> unat (ucast (x :: 'a::len word) :: 'b::len word) = unat x"
  unfolding unat_ucast_mod
  by (rule mod_less, rule less_le_trans [OF unat_lt]) (simp add: power_increasing)

lemma unat_drop_bit_div: "unat (drop_bit n (x :: 'a::len word)) = unat x div 2 ^ n"
  unfolding unat_drop_bit_eq by (rule drop_bit_eq_div)

lemma unat_and_FFFF: "unat (x AND 0xFFFF :: u32) = unat x mod 65536"
proof -
  have "x AND 0xFFFF = take_bit 16 x" by (simp add: take_bit_eq_mask mask_eq_exp_minus_1)
  then show ?thesis using unsigned_take_bit_eq [of 16 x, where ?'a = nat]
    by (simp only: take_bit_eq_mod [of 16 "unat x"]) simp
qed

lemma unat_complement: "unat (NOT x :: 'a::len word) = 2 ^ LENGTH('a) - 1 - unat x"
proof -
  have "NOT x = - 1 - x" by (simp add: not_eq_complement)
  moreover have "unat (- 1 - x) = unat (- 1 :: 'a word) - unat x" by (rule unat_sub) simp
  ultimately show ?thesis by (simp add: unsigned_minus_1_eq_mask mask_eq_exp_minus_1)
qed

lemma unat_le16: "unat ((ucast (a :: u8) :: u16) OR push_bit 8 (ucast (b :: u8))) = unat a + 256 * unat b"
proof -
  have "(ucast a :: u16) OR push_bit 8 (ucast b) = ucast a + push_bit 8 (ucast b)"
    by (rule disjunctive_add [symmetric]) (auto simp: bit_simps dest: bit_imp_le_length)
  moreover have "push_bit 8 (ucast b :: u16) = 256 * ucast b" by (simp add: push_bit_eq_mult)
  ultimately show ?thesis
    using unat_u8 [of a] unat_u8 [of b] by (simp add: unat_word_ariths unat_ucast_up)
qed

section \<open>Byte swaps\<close>

lemma swab16_alt: "bpf_swab16 x = push_bit 8 x OR drop_bit 8 x"
  by (rule bit_word_eqI) (auto simp: bpf_swab16_def bpf_mvb_def bit_simps)

lemma swab16_bytes:
  "bpf_swab16 (ucast (a :: u8) OR push_bit 8 (ucast (b :: u8))) = ucast b OR push_bit 8 (ucast a)"
  by (rule bit_word_eqI) (auto simp: swab16_alt bit_simps dest: bit_imp_le_length)

lemma swab16_swab16: "bpf_swab16 (bpf_swab16 x) = x"
  by (rule bit_word_eqI) (auto simp: swab16_alt bit_simps)

lemma swab32_swab32: "bpf_swab32 (bpf_swab32 x) = x"
  by (rule bit_word_eqI) (auto simp: bpf_swab32_def bpf_mvb_def bit_simps dest: bit_imp_le_length)

section \<open>Bytes of words, and loads that see the same bytes\<close>

lemma le16_eq_iff: "(ucast (a :: u8) OR push_bit 8 (ucast (b :: u8)) = (v :: u16)) \<longleftrightarrow> a = ucast v \<and> b = ucast (drop_bit 8 v)"
proof
  assume v: "ucast a OR push_bit 8 (ucast b) = v"
  show "a = ucast v \<and> b = ucast (drop_bit 8 v)"
  proof -
    have nb: "\<not> bit a (8 + n)" for n by (auto dest: bit_imp_le_length)
    show ?thesis unfolding v [symmetric]
      by (auto intro!: bit_word_eqI simp: bit_simps nb)
  qed
qed (auto simp: word16_bytes)

lemma swab32_byte:
  "(ucast (bpf_swab32 v) :: u8) = ucast (drop_bit 24 v)"
  "(ucast (drop_bit 8 (bpf_swab32 v)) :: u8) = ucast (drop_bit 16 v)"
  "(ucast (drop_bit 16 (bpf_swab32 v)) :: u8) = ucast (drop_bit 8 v)"
  "(ucast (drop_bit 24 (bpf_swab32 v)) :: u8) = ucast v"
  by (rule bit_word_eqI; auto simp: bpf_swab32_def bpf_mvb_def bit_simps dest: bit_imp_le_length)+

lemma swab16_byte:
  "(ucast (bpf_swab16 v) :: u8) = ucast (drop_bit 8 v)"
  "(ucast (drop_bit 8 (bpf_swab16 v)) :: u8) = ucast v"
  by (rule bit_word_eqI; auto simp: bpf_swab16_def bpf_mvb_def bit_simps dest: bit_imp_le_length)+

lemma load16_cong:
  "length p = length q \<or> (a + 2 \<le> length p \<and> a + 2 \<le> length q) \<Longrightarrow>
   (\<And>j. a \<le> j \<Longrightarrow> j < a + 2 \<Longrightarrow> p ! j = q ! j) \<Longrightarrow> load16 p a = load16 q a"
  by (auto simp: load16_def)

lemma load32_cong:
  "length p = length q \<or> (a + 4 \<le> length p \<and> a + 4 \<le> length q) \<Longrightarrow>
   (\<And>j. a \<le> j \<Longrightarrow> j < a + 4 \<Longrightarrow> p ! j = q ! j) \<Longrightarrow> load32 p a = load32 q a"
  by (auto simp: load32_def)

end
