(* ===== verification/Bpf_Maps.thy ===== *)
theory Bpf_Maps
  imports Lno_Prelude "HOL-Library.AList"
begin

text \<open>
  BPF maps as the programs see them.  The map code is in the kernel, not in the
  repository, so a map is a parameter: a handle of any type \<open>'m\<close> and a record of
  the operations on it.  The locales state what
  \<^verbatim>\<open>libbpf/include/uapi/linux/bpf.h\<close> documents for the commands
  BPF\_MAP\_LOOKUP\_ELEM, UPDATE\_ELEM, DELETE\_ELEM and GET\_NEXT\_KEY and for the
  helpers of the same names: \<open>bpf_map\<close> for every map, \<open>bpf_hash\<close> for hash maps,
  \<open>bpf_iter\<close> for hash maps that are walked with get-next-key, \<open>bpf_array\<close> for
  arrays.  Reference maps \<open>hash_ops\<close> and \<open>array_ops\<close> that follow the same text show
  that the laws can hold together; the witnesses run on them.

  The one function of the repository that belongs to the maps themselves,
  \<open>bpf_map_lookup_or_try_init\<close>, is modelled here and its contract proved once.
\<close>

section \<open>Operations\<close>

definition BPF_ANY :: nat where "BPF_ANY = 0"
definition BPF_NOEXIST :: nat where "BPF_NOEXIST = 1"
definition BPF_EXIST :: nat where "BPF_EXIST = 2"

lemmas flag_defs = BPF_ANY_def BPF_NOEXIST_def BPF_EXIST_def

text \<open>
  \<open>op_store m k v\<close> is a write of \<open>v\<close> through the pointer that a lookup of \<open>k\<close> returned;
  \<open>op_next m k\<close> is get-next-key, with \<open>None\<close> for the error ENOENT.
\<close>

record ('m, 'k, 'v) map_ops =
  op_lookup :: "'m \<Rightarrow> 'k \<Rightarrow> 'v option"
  op_update :: "'m \<Rightarrow> 'k \<Rightarrow> 'v \<Rightarrow> nat \<Rightarrow> int \<times> 'm"
  op_delete :: "'m \<Rightarrow> 'k \<Rightarrow> int \<times> 'm"
  op_store :: "'m \<Rightarrow> 'k \<Rightarrow> 'v \<Rightarrow> 'm"
  op_next :: "'m \<Rightarrow> 'k \<Rightarrow> 'k option"

text \<open>
  \<^verbatim>\<open>bpf_map_lookup_or_try_init\<close> of \<^verbatim>\<open>tcprtt.bpf.c\<close> (and, word for word, of the two
  copies of \<^verbatim>\<open>tcpconnect\<close>).  The pointer it returns is \<open>Some v\<close>, the value stored under
  \<open>k\<close> in the new map; \<open>None\<close> is the null pointer.
\<close>

definition bpf_map_lookup_or_try_init ::
    "('m, 'k, 'v) map_ops \<Rightarrow> 'm \<Rightarrow> 'k \<Rightarrow> 'v \<Rightarrow> 'm \<times> 'v option" where
  "bpf_map_lookup_or_try_init ops m k init =
     (case op_lookup ops m k of
        Some val \<Rightarrow> (m, Some val)
      | None \<Rightarrow>
          (let (err, m') = op_update ops m k init BPF_NOEXIST
           in if err \<noteq> 0 \<and> err \<noteq> - EEXIST then (m', None)
              else (m', op_lookup ops m' k)))"

section \<open>The documented laws\<close>

locale bpf_map =
  fixes ops :: "('m, 'k, 'v) map_ops"
  assumes update_ok: "op_update ops m k v f = (0, m') \<Longrightarrow>
      op_lookup ops m' = (op_lookup ops m)(k \<mapsto> v)"
    and update_fail: "op_update ops m k v f = (e, m') \<Longrightarrow> e \<noteq> 0 \<Longrightarrow>
      e < 0 \<and> op_lookup ops m' = op_lookup ops m"
    and store_ok: "op_lookup ops m k = Some w \<Longrightarrow>
      op_lookup ops (op_store ops m k v) = (op_lookup ops m)(k \<mapsto> v)"

locale bpf_hash = bpf_map +
  assumes update_noexist: "op_lookup ops m k \<noteq> None \<Longrightarrow>
      fst (op_update ops m k v BPF_NOEXIST) = - EEXIST"
    and delete_ok: "op_lookup ops m k \<noteq> None \<Longrightarrow> op_delete ops m k = (e, m') \<Longrightarrow>
      e = 0 \<and> op_lookup ops m' = (op_lookup ops m)(k := None)"
    and delete_fail: "op_lookup ops m k = None \<Longrightarrow> op_delete ops m k = (e, m') \<Longrightarrow>
      e = - ENOENT \<and> op_lookup ops m' = op_lookup ops m"
begin

lemma try_init_Some:
  assumes "bpf_map_lookup_or_try_init ops m k init = (m', Some v)"
  shows "op_lookup ops m' = (op_lookup ops m)(k \<mapsto> v) \<and>
    v = (case op_lookup ops m k of Some w \<Rightarrow> w | None \<Rightarrow> init)"
proof (cases "op_lookup ops m k")
  case (Some w)
  with assms show ?thesis by (auto simp: bpf_map_lookup_or_try_init_def)
next
  case None
  obtain e m1 where u: "op_update ops m k init BPF_NOEXIST = (e, m1)" by fastforce
  with assms None have m1: "m1 = m'" "op_lookup ops m' k = Some v"
    by (auto simp: bpf_map_lookup_or_try_init_def split: if_splits)
  have "e = 0" using update_fail [OF u] m1 None by force
  with u have "op_lookup ops m1 = (op_lookup ops m)(k \<mapsto> init)" by (auto dest: update_ok)
  with m1 None show ?thesis by auto
qed

lemma try_init_None:
  assumes "bpf_map_lookup_or_try_init ops m k init = (m', None)"
  shows "op_lookup ops m' = op_lookup ops m \<and> op_lookup ops m k = None"
proof (cases "op_lookup ops m k")
  case (Some w)
  with assms show ?thesis by (auto simp: bpf_map_lookup_or_try_init_def)
next
  case None
  obtain e m1 where u: "op_update ops m k init BPF_NOEXIST = (e, m1)" by fastforce
  with assms None have m1: "m1 = m'" "e = 0 \<Longrightarrow> op_lookup ops m' k = None"
    by (auto simp: bpf_map_lookup_or_try_init_def split: if_splits)
  have "e \<noteq> 0" using u m1 by (auto dest: update_ok)
  with update_fail [OF u] m1 None show ?thesis by auto
qed

end

text \<open>
  The first element of \<open>xs\<close> after \<open>k\<close>, the first element of all when \<open>k\<close> is not there:
  the three cases that the text of BPF\_MAP\_GET\_NEXT\_KEY lists.
\<close>

fun after :: "'k list \<Rightarrow> 'k \<Rightarrow> 'k option" where
  "after [] k = None"
| "after (x # xs) k = (if x = k then (case xs of [] \<Rightarrow> None | y # _ \<Rightarrow> Some y) else after xs k)"

definition key_after :: "'k list \<Rightarrow> 'k \<Rightarrow> 'k option" where
  "key_after xs k = (if k \<in> set xs then after xs k else (case xs of [] \<Rightarrow> None | y # _ \<Rightarrow> Some y))"

text \<open>A hash map with room for \<open>max_entries\<close> keys: an insertion fails only when it is full.\<close>

locale bpf_room = bpf_hash +
  fixes max_entries :: nat
  assumes room: "op_lookup ops m k = None \<Longrightarrow> finite (dom (op_lookup ops m)) \<Longrightarrow>
      card (dom (op_lookup ops m)) < max_entries \<Longrightarrow> f \<noteq> BPF_EXIST \<Longrightarrow> fst (op_update ops m k v f) = 0"
begin

lemma try_init_room:
  assumes "finite (dom (op_lookup ops m))"
    and "card (insert k (dom (op_lookup ops m))) \<le> max_entries"
  shows "\<exists>m' v. bpf_map_lookup_or_try_init ops m k init = (m', Some v)"
proof (cases "op_lookup ops m k")
  case None
  then have "card (dom (op_lookup ops m)) < max_entries" using assms by (simp add: domIff)
  then obtain m1 where u: "op_update ops m k init BPF_NOEXIST = (0, m1)"
    using room [OF None assms(1), of BPF_NOEXIST init] by (simp add: flag_defs) (metis prod.collapse)
  then show ?thesis using None update_ok [OF u] by (simp add: bpf_map_lookup_or_try_init_def)
qed (simp add: bpf_map_lookup_or_try_init_def)

end

lemma key_after_fresh: "k \<notin> set xs \<Longrightarrow> key_after xs k = (case xs of [] \<Rightarrow> None | y # _ \<Rightarrow> Some y)"
  by (simp add: key_after_def)

lemma after_mid: "k \<notin> set pre \<Longrightarrow> after (pre @ k # suf) k = (case suf of [] \<Rightarrow> None | y # _ \<Rightarrow> Some y)"
  by (induction pre) auto

lemma key_after_mid:
  "k \<notin> set pre \<Longrightarrow> key_after (pre @ k # suf) k = (case suf of [] \<Rightarrow> None | y # _ \<Rightarrow> Some y)"
  by (simp add: key_after_def after_mid)

locale bpf_iter = bpf_hash +
  fixes keys :: "'m \<Rightarrow> 'k list"
  assumes keys_distinct: "distinct (keys m)"
    and keys_dom: "set (keys m) = dom (op_lookup ops m)"
    and next_ok: "op_next ops m k = key_after (keys m) k"
begin

text \<open>A walk that has seen \<open>pre\<close> (or starts at a key that is not in the map) goes on with the first key of the rest.\<close>

lemma next_suffix:
  assumes "keys m = pre @ suf" and "if pre = [] then k \<notin> set (keys m) else k = last pre"
  shows "op_next ops m k = (case suf of [] \<Rightarrow> None | y # _ \<Rightarrow> Some y)"
proof (cases "pre = []")
  case True
  then show ?thesis using assms by (simp add: next_ok key_after_fresh)
next
  case False
  then obtain p where p: "pre = p @ [k]" using assms(2) by (metis append_butlast_last_id)
  have "k \<notin> set p" using keys_distinct [of m] assms(1) p by simp
  then show ?thesis using assms(1) p by (simp add: next_ok key_after_mid)
qed

end

locale bpf_array = bpf_map +
  fixes idx :: "'k \<Rightarrow> nat" and max_entries :: nat
  assumes array_lookup: "op_lookup ops m k \<noteq> None \<longleftrightarrow> idx k < max_entries"
    and array_update: "idx k < max_entries \<Longrightarrow> fst (op_update ops m k v BPF_ANY) = 0"

section \<open>Reference maps\<close>

text \<open>A hash map with \<open>cap\<close> entries at most, as an association list.\<close>

definition hash_update :: "nat \<Rightarrow> ('k \<times> 'v) list \<Rightarrow> 'k \<Rightarrow> 'v \<Rightarrow> nat \<Rightarrow> int \<times> ('k \<times> 'v) list" where
  "hash_update cap m k v f =
     (if map_of m k \<noteq> None then (if f = BPF_NOEXIST then (- EEXIST, m) else (0, AList.update k v m))
      else if f = BPF_EXIST then (- ENOENT, m)
      else if cap \<le> length (remdups (map fst m)) then (- E2BIG, m)
      else (0, AList.update k v m))"

definition hash_delete :: "('k \<times> 'v) list \<Rightarrow> 'k \<Rightarrow> int \<times> ('k \<times> 'v) list" where
  "hash_delete m k = (if map_of m k = None then (- ENOENT, m) else (0, AList.delete k m))"

definition hash_ops :: "nat \<Rightarrow> (('k \<times> 'v) list, 'k, 'v) map_ops" where
  "hash_ops cap = \<lparr>op_lookup = map_of, op_update = hash_update cap, op_delete = hash_delete,
     op_store = (\<lambda>m k v. AList.update k v m),
     op_next = (\<lambda>m k. key_after (remdups (map fst m)) k)\<rparr>"

lemmas hash_ops_defs = hash_ops_def hash_update_def hash_delete_def errno_defs flag_defs

interpretation hash_ref: bpf_iter "hash_ops cap" "\<lambda>m. remdups (map fst m)"
proof (unfold_locales, goal_cases)
  case (1 m k v f m')
  then show ?case by (auto simp: hash_ops_defs update_conv' split: if_splits)
next
  case (2 m k v f e m')
  then show ?case by (auto simp: hash_ops_defs split: if_splits)
next
  case (5 m k e m')
  then show ?case by (auto simp: hash_ops_defs delete_conv' split: if_splits)
next
  case (8 m)
  then show ?case by (auto simp: hash_ops_def dom_map_of_conv_image_fst)
qed (auto simp: hash_ops_defs update_conv' split: if_splits)

interpretation hash_ref_room: bpf_room "hash_ops cap" cap
proof
  fix m :: "('a \<times> 'b) list" and k v and f :: nat
  assume a: "op_lookup (hash_ops cap) m k = None" "card (dom (op_lookup (hash_ops cap) m)) < cap" "f \<noteq> BPF_EXIST"
  have "card (dom (map_of m)) = length (remdups (map fst m))"
    by (simp add: dom_map_of_conv_image_fst length_remdups_card_conv)
  then show "fst (op_update (hash_ops cap) m k v f) = 0"
    using a by (simp add: hash_ops_defs)
qed

text \<open>An array: every index below \<open>n\<close> is present.\<close>

definition array_put :: "nat \<Rightarrow> (nat \<Rightarrow> 'v) \<Rightarrow> u32 \<Rightarrow> 'v \<Rightarrow> nat \<Rightarrow> int \<times> (nat \<Rightarrow> 'v)" where
  "array_put n m k v f =
     (if n \<le> unat k then (- E2BIG, m) else if f = BPF_NOEXIST then (- EEXIST, m)
      else (0, m(unat k := v)))"

definition array_ops :: "nat \<Rightarrow> (nat \<Rightarrow> 'v, u32, 'v) map_ops" where
  "array_ops n = \<lparr>op_lookup = (\<lambda>m k. if unat k < n then Some (m (unat k)) else None),
     op_update = array_put n, op_delete = (\<lambda>m k. (- EINVAL, m)),
     op_store = (\<lambda>m k v. m(unat k := v)),
     op_next = (\<lambda>m k. if unat k + 1 < n then Some (k + 1) else None)\<rparr>"

lemmas array_ops_defs = array_ops_def array_put_def errno_defs flag_defs

interpretation array_ref: bpf_array "array_ops n" unat n
  by unfold_locales (auto simp: array_ops_defs word_unat_eq_iff split: if_splits intro!: ext)

end
