(* ===== verification/Dns_Cache.thy ===== *)
theory Dns_Cache
  imports Bpf_Maps
begin

text \<open>
  The XDP program of \<^verbatim>\<open>plugin/ciliumebpf/dnsExpress/dnsExpress.c\<close>: it answers DNS
  A queries from a BPF hash map without the packet reaching the network stack.

  A packet is a byte list and a pointer into it is an offset from \<^verbatim>\<open>ctx->data\<close>, so
  \<^verbatim>\<open>p + n > data_end\<close> reads \<open>length pkt < p + n\<close>.  Every access goes through the
  checked loads and stores of the prelude: \<open>None\<close> is an access outside the object.
  The static \<open>dns_buffer\<close> is passed in and out.  Outside code is a parameter: the
  map \<open>xdns_a_records\<close> (\<open>ops\<close> and its handle) and the helper
  \<^verbatim>\<open>bpf_xdp_adjust_tail\<close> (\<open>adjust_tail\<close>, from a packet and a delta to an error code
  and the packet after the call).  The blocks under DEBUG print only and EDNS is
  not defined by the build: neither is part of the model.
\<close>

section \<open>Data\<close>

definition MAX_DNS_NAME_LENGTH :: nat where "MAX_DNS_NAME_LENGTH = 256"

record dns_query =
  record_type :: u16
  qclass :: u16
  qname :: bytes

record a_record =
  ip_addr :: u32
  ttl :: u32

datatype xdp_action = XDP_PASS | XDP_TX

text \<open>Sizes and offsets of \<^verbatim>\<open>struct ethhdr\<close>, \<^verbatim>\<open>iphdr\<close>, \<^verbatim>\<open>udphdr\<close>, \<^verbatim>\<open>dns_hdr\<close>.\<close>

definition eth_len :: nat where "eth_len = 14"
definition ip_len :: nat where "ip_len = 20"
definition udp_len :: nat where "udp_len = 8"
definition dns_len :: nat where "dns_len = 12"
definition response_len :: nat where "response_len = 12"
definition in_addr_len :: nat where "in_addr_len = 4"

lemmas hdr_sizes = eth_len_def ip_len_def udp_len_def dns_len_def response_len_def in_addr_len_def

section \<open>Operations\<close>

text \<open>
  The loop of \<^verbatim>\<open>parse_query\<close> over \<open>i\<close>, with the cursor, the number of name bytes
  copied so far and the query that is being filled.
\<close>

function parse_query_loop :: "bytes \<Rightarrow> nat \<Rightarrow> nat \<Rightarrow> nat \<Rightarrow> dns_query \<Rightarrow> (int \<times> dns_query) option" where
  "parse_query_loop pkt i cursor namepos q =
     (if i < MAX_DNS_NAME_LENGTH then
        if length pkt < cursor + 1 then Some (- 1, q)
        else (case load8 pkt cursor of
            None \<Rightarrow> None
          | Some c \<Rightarrow>
              if c = 0 then
                if length pkt < cursor + 5 then Some (int namepos + 1 + 2 + 2, q)
                else do {
                  t \<leftarrow> load16 pkt (cursor + 1);
                  k \<leftarrow> load16 pkt (cursor + 3);
                  Some (int namepos + 1 + 2 + 2, q\<lparr>record_type := bpf_htons t, qclass := bpf_htons k\<rparr>)
                }
              else (case store8 (qname q) namepos c of
                  None \<Rightarrow> None
                | Some nm \<Rightarrow> parse_query_loop pkt (i + 1) (cursor + 1) (namepos + 1) (q\<lparr>qname := nm\<rparr>)))
      else Some (- 1, q))"
  by pat_completeness auto
termination
  by (relation "measure (\<lambda>(pkt, i, cursor, namepos, q). MAX_DNS_NAME_LENGTH - i)") auto

definition parse_query :: "bytes \<Rightarrow> nat \<Rightarrow> (int \<times> dns_query) option" where
  "parse_query pkt query_start =
     parse_query_loop pkt 0 query_start 0
       \<lparr>record_type = 0, qclass = 0, qname = replicate MAX_DNS_NAME_LENGTH 0\<rparr>"

definition match_a_records :: "('m, dns_query, a_record) map_ops \<Rightarrow> 'm \<Rightarrow> dns_query \<Rightarrow> a_record option" where
  "match_a_records ops m q =
     (case op_lookup ops m q of
        Some record \<Rightarrow> Some \<lparr>ip_addr = ip_addr record, ttl = ttl record\<rparr>
      | None \<Rightarrow> None)"

text \<open>
  Byte 2 of the header holds rd, tc, aa, opcode and, in its top bit, qr; the top bit
  of byte 3 is ra; \<^verbatim>\<open>ans_count\<close> is at offset 6.
\<close>

definition modify_dns_header_response :: "bytes \<Rightarrow> nat \<Rightarrow> bytes option" where
  "modify_dns_header_response pkt h = do {
     b2 \<leftarrow> load8 pkt (h + 2);
     pkt \<leftarrow> store8 pkt (h + 2) (b2 OR 0x80);
     b3 \<leftarrow> load8 pkt (h + 3);
     pkt \<leftarrow> store8 pkt (h + 3) (b3 OR 0x80);
     store16 pkt (h + 6) (bpf_htons 1)
   }"

definition create_query_response :: "a_record \<Rightarrow> bytes \<Rightarrow> nat \<Rightarrow> nat \<Rightarrow> (bytes \<times> nat) option" where
  "create_query_response a buf base buf_size = do {
     buf \<leftarrow> store16 buf base (bpf_htons 0xc00c);
     buf \<leftarrow> store16 buf (base + 2) (bpf_htons 0x0001);
     buf \<leftarrow> store16 buf (base + 4) (bpf_htons 0x0001);
     buf \<leftarrow> store32 buf (base + 6) (bpf_htonl (ttl a));
     buf \<leftarrow> store16 buf (base + 10) (bpf_htons (of_nat in_addr_len));
     let buf_size = buf_size + response_len;
     buf \<leftarrow> store32 buf (base + buf_size) (ip_addr a);
     Some (buf, buf_size + in_addr_len)
   }"

fun copy_loop :: "bytes \<Rightarrow> nat \<Rightarrow> bytes \<Rightarrow> nat \<Rightarrow> nat \<Rightarrow> bytes option" where
  "copy_loop cdst dst csrc i 0 = Some cdst"
| "copy_loop cdst dst csrc i (Suc k) = do {
     b \<leftarrow> load8 csrc i;
     cdst \<leftarrow> store8 cdst (dst + i) b;
     copy_loop cdst dst csrc (i + 1) k
   }"

definition copy_to_pkt_buf :: "bytes \<Rightarrow> nat \<Rightarrow> bytes \<Rightarrow> nat \<Rightarrow> bytes option" where
  "copy_to_pkt_buf pkt dst src n =
     (if dst + n \<le> length pkt then
        if n = 16 then memcpy pkt dst src 16
        else if n = 27 then memcpy pkt dst src 27
        else copy_loop pkt dst src 0 n
      else Some pkt)"

fun swap_mac_loop :: "bytes \<Rightarrow> nat \<Rightarrow> nat \<Rightarrow> nat \<Rightarrow> nat \<Rightarrow> bytes option" where
  "swap_mac_loop pkt src_mac dst_mac i 0 = Some pkt"
| "swap_mac_loop pkt src_mac dst_mac i (Suc k) = do {
     tmp_src \<leftarrow> load8 pkt (src_mac + i);
     d \<leftarrow> load8 pkt (dst_mac + i);
     pkt \<leftarrow> store8 pkt (src_mac + i) d;
     pkt \<leftarrow> store8 pkt (dst_mac + i) tmp_src;
     swap_mac_loop pkt src_mac dst_mac (i + 1) k
   }"

definition swap_mac :: "bytes \<Rightarrow> nat \<Rightarrow> nat \<Rightarrow> bytes option" where
  "swap_mac pkt src_mac dst_mac = swap_mac_loop pkt src_mac dst_mac 0 6"

function checksum_loop :: "bytes \<Rightarrow> nat \<Rightarrow> nat \<Rightarrow> nat \<Rightarrow> nat \<Rightarrow> u32 \<Rightarrow> u32 option" where
  "checksum_loop pkt data len checksum_location i accumulator =
     (if i < len then
        (case (if data + i = checksum_location then Some 0 else load16 pkt (data + i)) of
           None \<Rightarrow> None
         | Some val \<Rightarrow>
             checksum_loop pkt data len checksum_location (i + 2) (accumulator + ucast val))
      else Some accumulator)"
  by pat_completeness auto
termination
  by (relation "measure (\<lambda>(pkt, data, len, cl, i, acc). len - i)") auto

definition fold_accumulator :: "u32 \<Rightarrow> u16" where
  "fold_accumulator accumulator =
     (let overflow = (ucast (drop_bit 16 accumulator) :: u16);
          accumulator = accumulator AND 0x00FFFF;
          accumulator = accumulator + ucast overflow;
          accumulator = accumulator + drop_bit 16 accumulator;
          accumulator = accumulator AND 0x00FFFF
      in ucast (accumulator XOR 0xFFFF))"

definition update_ip_checksum :: "bytes \<Rightarrow> nat \<Rightarrow> nat \<Rightarrow> nat \<Rightarrow> bytes option" where
  "update_ip_checksum pkt data len checksum_location = do {
     accumulator \<leftarrow> checksum_loop pkt data len checksum_location 0 0;
     store16 pkt checksum_location (fold_accumulator accumulator)
   }"

text \<open>
  The part of \<^verbatim>\<open>xdp_dns\<close> after a successful \<^verbatim>\<open>bpf_xdp_adjust_tail\<close>: copy the answer,
  check the boundary again, set the lengths, swap the addresses and the ports, clear
  the UDP checksum and recompute the IP checksum.
\<close>

definition emit_response :: "bytes \<Rightarrow> bytes \<Rightarrow> nat \<Rightarrow> nat \<Rightarrow> (xdp_action \<times> bytes) option" where
  "emit_response pkt buf query_length buf_size = do {
     pkt \<leftarrow> copy_to_pkt_buf pkt (eth_len + ip_len + udp_len + dns_len + query_length) buf buf_size;
     let ip = eth_len;
     let udp = eth_len + ip_len;
     if length pkt < eth_len + ip_len + udp_len then Some (XDP_PASS, pkt)
     else do {
       let iplen = (of_nat (length pkt - eth_len) :: u16);
       let udplen = (of_nat (length pkt - eth_len - ip_len) :: u16);
       pkt \<leftarrow> store16 pkt (ip + 2) (bpf_htons iplen);
       pkt \<leftarrow> store16 pkt (udp + 4) (bpf_htons udplen);
       pkt \<leftarrow> swap_mac pkt 6 0;
       src_ip \<leftarrow> load32 pkt (ip + 12);
       daddr \<leftarrow> load32 pkt (ip + 16);
       pkt \<leftarrow> store32 pkt (ip + 12) daddr;
       pkt \<leftarrow> store32 pkt (ip + 16) src_ip;
       pkt \<leftarrow> store16 pkt (udp + 6) 0;
       tmp_src \<leftarrow> load16 pkt udp;
       dest \<leftarrow> load16 pkt (udp + 2);
       pkt \<leftarrow> store16 pkt udp dest;
       pkt \<leftarrow> store16 pkt (udp + 2) tmp_src;
       pkt \<leftarrow> update_ip_checksum pkt ip ip_len (ip + 10);
       Some (XDP_TX, pkt)
     }
   }"

text \<open>The part of \<^verbatim>\<open>xdp_dns\<close> for a packet with a full DNS header at \<open>h\<close>.\<close>

definition answer_query ::
    "('m, dns_query, a_record) map_ops \<Rightarrow> (bytes \<Rightarrow> int \<Rightarrow> int \<times> bytes) \<Rightarrow> 'm \<Rightarrow> bytes \<Rightarrow> bytes \<Rightarrow> nat \<Rightarrow>
      (xdp_action \<times> bytes \<times> bytes) option" where
  "answer_query ops adjust_tail m dns_buffer pkt h = do {
     (query_length, q) \<leftarrow> parse_query pkt (h + dns_len);
     if query_length < 1 then Some (XDP_PASS, pkt, dns_buffer)
     else (case match_a_records ops m q of
         None \<Rightarrow> Some (XDP_PASS, pkt, dns_buffer)
       | Some a \<Rightarrow> do {
           pkt \<leftarrow> modify_dns_header_response pkt h;
           (dns_buffer, buf_size) \<leftarrow> create_query_response a dns_buffer 0 0;
           let answer_start = int (h + dns_len) + query_length;
           let tailadjust = answer_start + int buf_size - int (length pkt);
           let (err, pkt') = adjust_tail pkt tailadjust;
           if err \<noteq> 0 then Some (XDP_PASS, pkt', dns_buffer)
           else do {
             (action, pkt) \<leftarrow> emit_response pkt' dns_buffer (nat query_length) buf_size;
             Some (action, pkt, dns_buffer)
           }
         })
   }"

definition xdp_dns ::
    "('m, dns_query, a_record) map_ops \<Rightarrow> (bytes \<Rightarrow> int \<Rightarrow> int \<times> bytes) \<Rightarrow> 'm \<Rightarrow> bytes \<Rightarrow> bytes \<Rightarrow>
      (xdp_action \<times> bytes \<times> bytes) option" where
  "xdp_dns ops adjust_tail m dns_buffer pkt =
     (if length pkt < eth_len + ip_len then Some (XDP_PASS, pkt, dns_buffer)
      else do {
        h_proto \<leftarrow> load16 pkt 12;
        if h_proto \<noteq> bpf_htons 0x0800 then Some (XDP_PASS, pkt, dns_buffer)
        else do {
          protocol \<leftarrow> load8 pkt (eth_len + 9);
          if protocol \<noteq> 17 then Some (XDP_PASS, pkt, dns_buffer)
          else if length pkt < eth_len + ip_len + udp_len then Some (XDP_PASS, pkt, dns_buffer)
          else do {
            dest \<leftarrow> load16 pkt (eth_len + ip_len + 2);
            if dest \<noteq> bpf_htons 53 then Some (XDP_PASS, pkt, dns_buffer)
            else if length pkt < eth_len + ip_len + udp_len + dns_len
            then Some (XDP_PASS, pkt, dns_buffer)
            else do {
              flags \<leftarrow> load8 pkt (eth_len + ip_len + udp_len + 2);
              if drop_bit 7 flags = 0 \<and> drop_bit 3 flags AND 0xF = 0
              then answer_query ops adjust_tail m dns_buffer pkt (eth_len + ip_len + udp_len)
              else Some (XDP_PASS, pkt, dns_buffer)
            }
          }
        }
      })"

declare parse_query_loop.simps [simp del] checksum_loop.simps [simp del]

end
