(* ===== verification/Dns_Checksum.thy ===== *)
theory Dns_Checksum
  imports Dns_Cache
begin

text \<open>
  \<open>update_ip_checksum\<close> of the DNS program against RFC 1071.  The reference adds
  the 16-bit words of a header in one's complement, with the end-around carry at
  every addition (\<open>oc_add\<close>, \<open>oc_sum\<close>); a header is accepted by a receiver when
  that sum is all ones (\<open>ip_checksum_ok\<close>).  The code adds in 32 bits and folds
  the carries twice at the end; \<open>oc_norm\<close> is the value both agree on.
\<close>

section \<open>The reference\<close>

fun words16 :: "bytes \<Rightarrow> nat list" where
  "words16 (a # b # xs) = (unat a + 256 * unat b) # words16 xs"
| "words16 _ = []"

definition oc_add :: "nat \<Rightarrow> nat \<Rightarrow> nat" where
  "oc_add a b = (if 65535 < a + b then a + b - 65535 else a + b)"

definition oc_sum :: "nat list \<Rightarrow> nat" where
  "oc_sum ws = foldl oc_add 0 ws"

definition ip_checksum_ok :: "bytes \<Rightarrow> bool" where
  "ip_checksum_ok hdr \<longleftrightarrow> oc_sum (words16 hdr) = 65535"

definition oc_norm :: "nat \<Rightarrow> nat" where
  "oc_norm s = (if s = 0 then 0 else if s mod 65535 = 0 then 65535 else s mod 65535)"

section \<open>Folding carries\<close>

lemma oc_norm_unique:
  assumes "x \<le> 65535" and "x mod 65535 = s mod 65535" and "x = 0 \<longleftrightarrow> s = 0"
  shows "oc_norm s = x"
proof (cases "x = 65535")
  case True
  with assms show ?thesis by (simp add: oc_norm_def)
next
  case False
  with assms(1) have "x mod 65535 = x" by simp
  with assms show ?thesis by (auto simp: oc_norm_def)
qed

lemma oc_norm_props:
  "oc_norm s \<le> 65535" "oc_norm s mod 65535 = s mod 65535" "oc_norm s = 0 \<longleftrightarrow> s = 0"
  by (auto simp: oc_norm_def intro: less_imp_le)

lemma oc_add_norm: "b \<le> 65535 \<Longrightarrow> oc_add (oc_norm s) b = oc_norm (s + b)"
proof -
  assume b: "b \<le> 65535"
  let ?x = "oc_norm s + b"
  have "?x mod 65535 = (s + b) mod 65535" by (metis oc_norm_props(2) mod_add_left_eq)
  moreover have "(?x - 65535) mod 65535 = ?x mod 65535" if "65535 < ?x"
    using that by (simp add: le_mod_geq)
  ultimately show ?thesis
    using b oc_norm_props(1,3) [of s]
    by (intro oc_norm_unique [symmetric]) (auto simp: oc_add_def)
qed

lemma words16_bound: "w \<in> set (words16 xs) \<Longrightarrow> w \<le> 65535"
proof (induction xs rule: words16.induct)
  case (1 a b xs)
  then show ?case using unat_u8 [of a] unat_u8 [of b] by auto
qed auto

lemma foldl_oc_add:
  "(\<And>w. w \<in> set ws \<Longrightarrow> w \<le> 65535) \<Longrightarrow> foldl oc_add (oc_norm s) ws = oc_norm (s + sum_list ws)"
  by (induction ws arbitrary: s) (auto simp: oc_add_norm add.assoc)

lemma oc_sum_words16: "oc_sum (words16 xs) = oc_norm (sum_list (words16 xs))"
  using foldl_oc_add [of "words16 xs" 0] words16_bound by (auto simp: oc_sum_def oc_norm_def)

lemma fold_twice_norm:
  fixes lo hi :: nat
  assumes "lo < 65536" "hi < 65536"
  shows "(lo + hi + (lo + hi) div 65536) mod 65536 = oc_norm (65536 * hi + lo)"
proof -
  have m: "(65536 * hi + lo) mod 65535 = (lo + hi) mod 65535"
  proof -
    have "65536 * hi + lo = 65535 * hi + (lo + hi)" by simp
    then show ?thesis by (metis mod_mult_self4)
  qed
  show ?thesis
  proof (cases "lo + hi < 65536")
    case True
    then have "oc_norm (65536 * hi + lo) = lo + hi" using m by (intro oc_norm_unique) auto
    then show ?thesis using True by simp
  next
    case False
    then have "oc_norm (65536 * hi + lo) = lo + hi - 65535"
      using m assms by (intro oc_norm_unique) (auto simp: le_mod_geq)
    moreover have "(lo + hi) div 65536 = 1" using False assms by simp
    moreover have "(lo + hi + 1) mod 65536 = lo + hi + 1 - 65536" using False assms by (simp add: mod_if)
    ultimately show ?thesis using False by simp
  qed
qed


lemma unat_fold_accumulator: "unat (fold_accumulator acc) = 65535 - oc_norm (unat acc)"
proof -
  define lo hi where "lo = unat acc mod 65536" and "hi = unat acc div 65536"
  have acc: "unat acc = 65536 * hi + lo" and b: "lo < 65536" "hi < 65536"
    using unat_u32 [of acc] by (auto simp: lo_def hi_def)
  define a1 where "a1 = (acc AND 0x00FFFF) + ucast (ucast (drop_bit 16 acc) :: u16)"
  define a2 where "a2 = (a1 + drop_bit 16 a1) AND 0xFFFF"
  have h: "unat (ucast (drop_bit 16 acc) :: u16) = hi"
    using b by (simp add: hi_def unat_ucast_mod unat_drop_bit_div)
  have a1: "unat a1 = lo + hi"
    using b by (simp add: a1_def unat_word_ariths unat_ucast_up h unat_and_FFFF lo_def)
  have "unat (drop_bit 16 a1) = (lo + hi) div 65536"
    by (simp add: unat_drop_bit_div a1)
  then have a2: "unat a2 = oc_norm (unat acc)"
    using b fold_twice_norm [OF b] by (simp add: a2_def unat_and_FFFF unat_word_ariths a1 acc)
  have fa: "fold_accumulator acc = ucast (a2 XOR 0xFFFF)"
    by (simp add: fold_accumulator_def Let_def a1_def a2_def)
  have "bit (0xFFFF :: u32) n" if "n < 16" for n
  proof -
    have "(0xFFFF :: u32) = mask 16" by (simp add: mask_eq_exp_minus_1)
    then have "bit (0xFFFF :: u32) n = bit (mask 16 :: u32) n" by (rule arg_cong)
    then show ?thesis using that by (simp add: bit_mask_iff)
  qed
  then have "(ucast (a2 XOR 0xFFFF) :: u16) = NOT (ucast a2)"
    by (intro bit_word_eqI) (simp add: bit_simps)
  then have "unat (fold_accumulator acc) = 65535 - unat (ucast a2 :: u16)"
    using fa by (simp add: unat_complement)
  moreover have "unat (ucast a2 :: u16) = unat a2"
    using oc_norm_props(1) [of "unat acc"] a2 by (simp add: unat_ucast_mod)
  ultimately show ?thesis using a2 by simp
qed

section \<open>The loop and the stored checksum\<close>

text \<open>The loop adds the header words with the checksum field read as zero.\<close>

lemma words16_step:
  "a + 2 \<le> length m \<Longrightarrow> words16 (drop a m) = (unat (m ! a) + 256 * unat (m ! (a + 1))) # words16 (drop (a + 2) m)"
proof -
  assume a: "a + 2 \<le> length m"
  then have "drop a m = m ! a # m ! (a + 1) # drop (a + 2) m"
    by (simp add: Cons_nth_drop_Suc)
  then show ?thesis by simp
qed

lemma checksum_loop_sum:
  assumes "data + len \<le> length pkt" and "i = 2 * j" and "len = 2 * n" and "j \<le> n"
    and "cl = data + 2 * c" and "c < n" and "unat acc + 65536 * (n - j) < 2 ^ 32"
  shows "\<exists>acc'. checksum_loop pkt data len cl i acc = Some acc' \<and>
    unat acc' = unat acc + sum_list (words16 (drop i (take len (drop data (pkt[cl := 0, cl + 1 := 0])))))"
  using assms
proof (induction "n - j" arbitrary: i j acc)
  case 0
  then show ?case by (subst checksum_loop.simps) simp
next
  case (Suc d)
  let ?z = "pkt[cl := 0, cl + 1 := 0]"
  let ?h = "take len (drop data ?z)"
  define v where "v = (if data + i = cl then 0 else ucast (pkt ! (data + i)) OR push_bit 8 (ucast (pkt ! (data + i + 1))) :: u16)"
  have lt: "i < len" "data + i + 2 \<le> length pkt" using Suc by auto
  have vh: "unat v = unat (?h ! i) + 256 * unat (?h ! (i + 1))"
  proof (cases "data + i = cl")
    case True
    then show ?thesis using lt Suc.prems by (simp add: v_def nth_list_update)
  next
    case False
    have n: "data + i \<noteq> cl + 1" "data + i + 1 \<noteq> cl" "data + i + 1 \<noteq> cl + 1"
      using False Suc.prems(2,5) by presburger+
    then show ?thesis using False lt Suc.prems by (simp add: v_def unat_le16)
  qed
  have "length ?h = len" using Suc.prems by simp
  then have w: "sum_list (words16 (drop i ?h)) = unat v + sum_list (words16 (drop (i + 2) ?h))"
    using lt Suc.prems vh by (subst words16_step) simp_all
  let ?a = "acc + ucast v :: u32"
  have "unat v < 65536" by (rule unat_u16)
  moreover have "unat acc + 65536 < 2 ^ 32" using Suc by (cases "n - j") auto
  ultimately have a: "unat ?a = unat acc + unat v"
    by (simp add: unat_word_ariths unat_ucast_up)
  have "n - j = Suc (n - Suc j)" using Suc by simp
  then have bd: "unat ?a + 65536 * (n - Suc j) < 2 ^ 32"
    using \<open>unat v < 65536\<close> a Suc.prems(7) by simp
  have "\<exists>acc'. checksum_loop pkt data len cl (i + 2) ?a = Some acc' \<and>
    unat acc' = unat ?a + sum_list (words16 (drop (i + 2) ?h))"
    by (rule Suc.hyps(1) [of "Suc j"]) (use Suc bd in auto)
  moreover have "checksum_loop pkt data len cl i acc = checksum_loop pkt data len cl (i + 2) ?a"
    using lt by (subst checksum_loop.simps) (simp add: mem_simps v_def)
  ultimately show ?case using a w by auto
qed

lemma words16_update:
  "Suc (2 * c) < length h \<Longrightarrow>
     words16 (h[2 * c := lo, Suc (2 * c) := hi]) = (words16 h)[c := unat lo + 256 * unat hi]"
proof (induction h arbitrary: c rule: words16.induct)
  case (1 a b xs)
  then show ?case by (cases c) auto
qed auto

lemma words16_length: "length (words16 h) = length h div 2"
  by (induction h rule: words16.induct) auto

lemma words16_nth: "2 * c + 1 < length h \<Longrightarrow> words16 h ! c = unat (h ! (2 * c)) + 256 * unat (h ! (2 * c + 1))"
proof (induction h arbitrary: c rule: words16.induct)
  case (1 a b xs)
  then show ?case by (cases c) auto
qed auto

lemma slice_update:
  "data \<le> a \<Longrightarrow> take len (drop data (m[a := x])) = (take len (drop data m))[a - data := x]"
  by (simp add: drop_update_swap take_update_swap)

lemma oc_norm_complement: "oc_norm (s + (65535 - oc_norm s)) = 65535"
proof -
  have "(s + (65535 - oc_norm s)) mod 65535 = (oc_norm s + (65535 - oc_norm s)) mod 65535"
    by (metis oc_norm_props(2) mod_add_left_eq)
  then show ?thesis using oc_norm_props(1,3) [of s] by (intro oc_norm_unique) auto
qed

lemma update_ip_checksum_valid:
  assumes "data + 2 * n \<le> length pkt" and "c < n" and "n \<le> 30000"
  shows "\<exists>pkt'. update_ip_checksum pkt data (2 * n) (data + 2 * c) = Some pkt' \<and>
    (\<exists>x y. pkt' = pkt[data + 2 * c := x, data + 2 * c + 1 := y]) \<and>
    ip_checksum_ok (take (2 * n) (drop data pkt'))"
proof -
  let ?cl = "data + 2 * c" and ?len = "2 * n"
  let ?z = "take ?len (drop data (pkt[?cl := 0, ?cl + 1 := 0]))"
  obtain acc where acc: "checksum_loop pkt data ?len ?cl 0 0 = Some acc"
    "unat acc = sum_list (words16 ?z)"
    using checksum_loop_sum [of data ?len pkt 0 0 n ?cl c 0] assms by auto
  define chk where "chk = fold_accumulator acc"
  let ?p = "pkt[?cl := ucast chk, ?cl + 1 := ucast (drop_bit 8 chk)]"
  have st: "update_ip_checksum pkt data ?len ?cl = Some ?p"
    using acc(1) assms by (simp add: update_ip_checksum_def chk_def mem_simps)
  have len: "2 * c + 1 < length (take ?len (drop data pkt))" using assms by simp
  have chk: "unat (ucast chk :: u8) + 256 * unat (ucast (drop_bit 8 chk) :: u8) = unat chk"
    using unat_le16 [of "ucast chk" "ucast (drop_bit 8 chk)"] by (simp add: word16_bytes)
  have z: "words16 ?z = (words16 (take ?len (drop data pkt)))[c := 0]"
    using len by (simp add: slice_update words16_update)
  have p: "words16 (take ?len (drop data ?p)) = (words16 ?z)[c := unat chk]"
    using len by (simp add: slice_update words16_update chk z)
  define w where "w = words16 ?z"
  have sw: "unat acc = sum_list w" unfolding w_def by (rule acc(2))
  have "w ! c = 0" "c < length w" unfolding w_def z using len by (auto simp: words16_length)
  then have "sum_list (w[c := unat chk]) = sum_list w + unat chk" by (simp add: sum_list_update)
  then have "oc_sum (words16 (take ?len (drop data ?p))) = 65535"
    unfolding oc_sum_words16 unfolding p w_def [symmetric]
    by (simp add: sw chk_def unat_fold_accumulator oc_norm_complement)
  with st show ?thesis unfolding ip_checksum_ok_def by blast
qed

end
