(* ===== verification/Dns_Reply.thy ===== *)
theory Dns_Reply
  imports Dns_Checksum
begin

text \<open>
  What the XDP DNS program does to a packet.  \<open>query_spec\<close> describes the result of
  \<open>parse_query\<close> without a loop, \<open>is_dns_query\<close> the packets that reach the map,
  \<open>dns_reply\<close> the answer that is sent back.  The helper \<^verbatim>\<open>bpf_xdp_adjust_tail\<close> is
  used through the locale \<open>xdp_tail\<close>.
\<close>

section \<open>Parsing the question\<close>

definition be16 :: "u8 \<Rightarrow> u8 \<Rightarrow> u16" where
  "be16 a b = ucast b OR push_bit 8 (ucast a)"

definition query_name :: "bytes \<Rightarrow> nat \<Rightarrow> bytes" where
  "query_name pkt start = takeWhile (\<lambda>b. b \<noteq> 0) (take MAX_DNS_NAME_LENGTH (drop start pkt))"

definition query_spec :: "bytes \<Rightarrow> nat \<Rightarrow> int \<times> dns_query" where
  "query_spec pkt start =
     (let nm = query_name pkt start; z = start + length nm;
          padded = nm @ replicate (MAX_DNS_NAME_LENGTH - length nm) 0
      in if length nm < MAX_DNS_NAME_LENGTH \<and> z < length pkt
         then (int (length nm) + 5,
               if z + 5 \<le> length pkt
               then \<lparr>record_type = be16 (pkt ! (z + 1)) (pkt ! (z + 2)),
                     qclass = be16 (pkt ! (z + 3)) (pkt ! (z + 4)), qname = padded\<rparr>
               else \<lparr>record_type = 0, qclass = 0, qname = padded\<rparr>)
         else (- 1, \<lparr>record_type = 0, qclass = 0, qname = padded\<rparr>))"

lemma parse_query_loop_spec:
  fixes pkt :: bytes and cursor :: nat
  assumes "length pre = i" and "i \<le> MAX_DNS_NAME_LENGTH"
  defines "nm \<equiv> takeWhile (\<lambda>b. b \<noteq> 0) (take (MAX_DNS_NAME_LENGTH - i) (drop cursor pkt))"
  defines "z \<equiv> cursor + length nm"
  defines "padded \<equiv> pre @ nm @ replicate (MAX_DNS_NAME_LENGTH - i - length nm) 0"
  shows "parse_query_loop pkt i cursor i
       \<lparr>record_type = 0, qclass = 0, qname = pre @ replicate (MAX_DNS_NAME_LENGTH - i) 0\<rparr> =
     Some (if i + length nm < MAX_DNS_NAME_LENGTH \<and> z < length pkt
         then (int (i + length nm) + 5,
               if z + 5 \<le> length pkt
               then \<lparr>record_type = be16 (pkt ! (z + 1)) (pkt ! (z + 2)),
                     qclass = be16 (pkt ! (z + 3)) (pkt ! (z + 4)), qname = padded\<rparr>
               else \<lparr>record_type = 0, qclass = 0, qname = padded\<rparr>)
         else (- 1, \<lparr>record_type = 0, qclass = 0, qname = padded\<rparr>))"
  unfolding padded_def z_def nm_def using assms(1,2)
proof (induction "MAX_DNS_NAME_LENGTH - i" arbitrary: i pre cursor)
  case 0
  then show ?case by (simp add: parse_query_loop.simps)
next
  case (Suc d)
  show ?case
  proof (cases "cursor < length pkt")
    case False
    then show ?thesis using Suc by (simp add: parse_query_loop.simps)
  next
    case True
    let ?c = "pkt ! cursor"
    have d: "MAX_DNS_NAME_LENGTH - i = Suc d" "MAX_DNS_NAME_LENGTH - Suc i = d" "i < MAX_DNS_NAME_LENGTH"
      using Suc(2) by auto
    have dr: "take (MAX_DNS_NAME_LENGTH - i) (drop cursor pkt) =
        ?c # take (MAX_DNS_NAME_LENGTH - Suc i) (drop (Suc cursor) pkt)"
      using True by (simp add: d Cons_nth_drop_Suc [symmetric])
    show ?thesis
    proof (cases "?c = 0")
      case z: True
      then show ?thesis using True Suc.prems d dr
        by (simp add: parse_query_loop.simps mem_simps bpf_htons_def swab16_bytes be16_def add.commute)
    next
      case nz: False
      have ev: "parse_query_loop pkt i cursor i
          \<lparr>record_type = 0, qclass = 0, qname = pre @ replicate (MAX_DNS_NAME_LENGTH - i) 0\<rparr> =
        parse_query_loop pkt (Suc i) (Suc cursor) (Suc i)
          \<lparr>record_type = 0, qclass = 0, qname = (pre @ [?c]) @ replicate (MAX_DNS_NAME_LENGTH - Suc i) 0\<rparr>"
        using nz True Suc.prems d
        by (subst parse_query_loop.simps) (simp add: mem_simps list_update_append)
      show ?thesis unfolding ev dr using nz Suc.prems d
        by (subst Suc.hyps(1)) auto
    qed
  qed
qed

lemma parse_query_spec: "parse_query pkt start = Some (query_spec pkt start)"
  using parse_query_loop_spec [of "[]" 0 pkt start]
  by (simp add: parse_query_def query_spec_def query_name_def Let_def)

section \<open>Copies and swaps\<close>

lemma swap_mac_eq:
  assumes "12 \<le> length pkt"
  shows "swap_mac pkt 6 0 = Some (take 6 (drop 6 pkt) @ take 6 pkt @ drop 12 pkt)"
proof -
  obtain a0 a1 a2 a3 a4 a5 b0 b1 b2 b3 b4 b5 rest where
    p: "pkt = a0 # a1 # a2 # a3 # a4 # a5 # b0 # b1 # b2 # b3 # b4 # b5 # rest"
    using assms by (auto simp: numeral_eq_Suc Suc_le_length_iff)
  show ?thesis unfolding swap_mac_def p
    by (simp add: numeral_eq_Suc mem_simps)
qed

lemma copy_loop_memcpy:
  "i + k \<le> length src \<Longrightarrow> dst + i + k \<le> length m \<Longrightarrow>
    copy_loop m dst src i k = Some (take (dst + i) m @ take k (drop i src) @ drop (dst + i + k) m)"
proof (induction k arbitrary: m i)
  case 0
  then show ?case by simp
next
  case (Suc k)
  let ?m = "m[dst + i := src ! i]"
  have "copy_loop m dst src i (Suc k) = copy_loop ?m dst src (i + 1) k"
    using Suc.prems by (simp add: mem_simps)
  also have "\<dots> = Some (take (dst + (i + 1)) ?m @ take k (drop (i + 1) src) @ drop (dst + (i + 1) + k) ?m)"
    using Suc.prems by (intro Suc.IH) auto
  also have "take (dst + (i + 1)) ?m = take (dst + i) m @ [src ! i]"
    using Suc.prems by (simp add: take_Suc_conv_app_nth)
  also have "take (Suc k) (drop i src) = src ! i # take k (drop (i + 1) src)"
    using Suc.prems by (simp add: Cons_nth_drop_Suc [symmetric])
  ultimately show ?case by simp
qed

lemma copy_to_pkt_buf_eq:
  assumes "n \<le> length src"
  shows "copy_to_pkt_buf pkt dst src n =
    Some (if dst + n \<le> length pkt then take dst pkt @ take n src @ drop (dst + n) pkt else pkt)"
  using assms by (auto simp: copy_to_pkt_buf_def mem_simps copy_loop_memcpy)

section \<open>The reply headers\<close>

definition be32_bytes :: "u32 \<Rightarrow> bytes" where
  "be32_bytes v = [ucast (drop_bit 24 v), ucast (drop_bit 16 v), ucast (drop_bit 8 v), ucast v]"

definition le32_bytes :: "u32 \<Rightarrow> bytes" where
  "le32_bytes v = [ucast v, ucast (drop_bit 8 v), ucast (drop_bit 16 v), ucast (drop_bit 24 v)]"

definition response_bytes :: "a_record \<Rightarrow> bytes" where
  "response_bytes a = [0xc0, 0x0c, 0, 1, 0, 1] @ be32_bytes (ttl a) @ [0, 4] @ le32_bytes (ip_addr a)"

definition udp_reply :: "bytes \<Rightarrow> bytes \<Rightarrow> bool" where
  "udp_reply p q \<longleftrightarrow> length q = length p \<and>
     take 6 q = take 6 (drop 6 p) \<and> take 6 (drop 6 q) = take 6 p \<and>
     take 4 (drop 12 q) = take 4 (drop 12 p) \<and> take 6 (drop 18 q) = take 6 (drop 18 p) \<and>
     load16 q 16 = Some (bpf_htons (of_nat (length p - 14))) \<and>
     load32 q 26 = load32 p 30 \<and> load32 q 30 = load32 p 26 \<and>
     load16 q 34 = load16 p 36 \<and> load16 q 36 = load16 p 34 \<and>
     load16 q 38 = Some (bpf_htons (of_nat (length p - 34))) \<and> load16 q 40 = Some 0 \<and>
     ip_checksum_ok (take 20 (drop 14 q)) \<and> drop 42 q = drop 42 p"

lemma swap_mac_nth:
  assumes "12 \<le> length pkt"
  shows "\<exists>p. swap_mac pkt 6 0 = Some p \<and> length p = length pkt \<and>
    (\<forall>j < length pkt. p ! j = (if j < 6 then pkt ! (j + 6) else if j < 12 then pkt ! (j - 6) else pkt ! j))"
proof -
  have "min (length pkt - 6) 6 = 6" "min (length pkt) 6 = 6" using assms by auto
  then show ?thesis using assms by (auto simp: swap_mac_eq nth_append add.commute)
qed

lemma emit_response_tx:
  assumes "42 \<le> length p" and "copy_to_pkt_buf pkt (54 + ql) buf bs = Some p"
  shows "\<exists>q. emit_response pkt buf ql bs = Some (XDP_TX, q) \<and> udp_reply p q"
proof -
  let ?iplen = "bpf_htons (of_nat (length p - 14))" and ?udplen = "bpf_htons (of_nat (length p - 34))"
  let ?q1 = "p[16 := ucast ?iplen, 17 := ucast (drop_bit 8 ?iplen), 38 := ucast ?udplen,
      39 := ucast (drop_bit 8 ?udplen)]"
  obtain q2 where q2: "swap_mac ?q1 6 0 = Some q2" "length q2 = length p"
    "\<And>j. j < length p \<Longrightarrow> q2 ! j = (if j < 6 then ?q1 ! (j + 6) else if j < 12 then ?q1 ! (j - 6) else ?q1 ! j)"
    using swap_mac_nth [of ?q1] assms by auto
  obtain src dst where ips: "load32 q2 26 = Some src" "load32 q2 30 = Some dst"
    using assms q2 by (simp add: mem_simps)
  have ips': "load32 p 26 = Some src" "load32 p 30 = Some dst"
    using ips assms q2 by (simp_all add: mem_simps)
  obtain sp dp where ports: "load16 q2 34 = Some sp" "load16 q2 36 = Some dp"
    using assms q2 by (simp add: mem_simps)
  have ports': "load16 p 34 = Some sp" "load16 p 36 = Some dp"
    using ports assms q2 by (simp_all add: mem_simps)
  let ?q3 = "q2[26 := ucast dst, 27 := ucast (drop_bit 8 dst), 28 := ucast (drop_bit 16 dst),
     29 := ucast (drop_bit 24 dst), 30 := ucast src, 31 := ucast (drop_bit 8 src),
     32 := ucast (drop_bit 16 src), 33 := ucast (drop_bit 24 src), 40 := 0, 41 := 0,
     34 := ucast dp, 35 := ucast (drop_bit 8 dp), 36 := ucast sp, 37 := ucast (drop_bit 8 sp)]"
  obtain q x y where q: "update_ip_checksum ?q3 14 20 24 = Some q" "q = ?q3[24 := x, 25 := y]"
    "ip_checksum_ok (take 20 (drop 14 q))"
    using update_ip_checksum_valid [of 14 10 ?q3 5] assms q2 by auto
  have "emit_response pkt buf ql bs = Some (XDP_TX, q)"
    using assms q2 q ips ports
    by (simp add: emit_response_def hdr_sizes mem_simps)
  moreover have "udp_reply p q"
    unfolding udp_reply_def
  proof (intro conjI)
    have lq: "length q = length p" using q2 q by simp
    show "length q = length p" by (rule lq)
    show "take 6 q = take 6 (drop 6 p)" "take 6 (drop 6 q) = take 6 p"
      "take 4 (drop 12 q) = take 4 (drop 12 p)" "take 6 (drop 18 q) = take 6 (drop 18 p)"
      using assms(1) q2(2,3) lq by (auto intro!: nth_equalityI simp: q(2) add.commute)
    show "drop 42 q = drop 42 p"
      using assms(1) q2(2,3) lq by (auto intro!: nth_equalityI simp: q(2))
    show "load16 q 16 = Some ?iplen" "load16 q 38 = Some ?udplen" "load16 q 40 = Some 0"
      using assms(1) q2(2,3) by (simp_all add: q(2) mem_simps word16_bytes)
    show "load32 q 26 = load32 p 30" "load32 q 30 = load32 p 26"
      "load16 q 34 = load16 p 36" "load16 q 36 = load16 p 34"
      unfolding ips' ports' using assms(1) q2(2,3)
      by (simp_all add: q(2) mem_simps word16_bytes word32_bytes)
    show "ip_checksum_ok (take 20 (drop 14 q))" by (rule q(3))
  qed
  ultimately show ?thesis by blast
qed

section \<open>The program as a decision\<close>

lemma create_query_response_eq:
  assumes "16 \<le> length buf"
  shows "create_query_response a buf 0 0 = Some (response_bytes a @ drop 16 buf, 16)"
proof -
  have "length (response_bytes a) = 16" by (simp add: response_bytes_def be32_bytes_def le32_bytes_def)
  have "buf = map ((!) buf) [0..<16] @ drop 16 buf"
    using assms by (intro nth_equalityI) (auto simp: nth_append)
  also have "[0..<16] = [0::nat,1,2,3,4,5,6,7,8,9,10,11,12,13,14,15]" by (simp add: upt_rec)
  finally obtain b where b: "buf = map b [0::nat,1,2,3,4,5,6,7,8,9,10,11,12,13,14,15] @ drop 16 buf" by blast
  show ?thesis
    by (subst b) (simp add: create_query_response_def mem_simps hdr_sizes bpf_htons_def bpf_htonl_def
      swab32_byte swab16_byte response_bytes_def be32_bytes_def le32_bytes_def)
qed

definition mark_response :: "bytes \<Rightarrow> nat \<Rightarrow> bytes" where
  "mark_response pkt h = pkt[h + 2 := pkt ! (h + 2) OR 0x80, h + 3 := pkt ! (h + 3) OR 0x80,
     h + 6 := 0, h + 7 := 1]"

lemma mark_length: "length (mark_response pkt h) = length pkt"
  by (simp add: mark_response_def)

lemma a_record_eta: "\<lparr>ip_addr = ip_addr r, ttl = ttl r\<rparr> = (r :: a_record)"
  by simp

lemma modify_dns_header_response_eq:
  "h + 8 \<le> length pkt \<Longrightarrow> modify_dns_header_response pkt h = Some (mark_response pkt h)"
  by (simp add: modify_dns_header_response_def mark_response_def mem_simps bpf_htons_def swab16_byte add.commute)

definition is_dns_query :: "bytes \<Rightarrow> bool" where
  "is_dns_query pkt \<longleftrightarrow> 54 \<le> length pkt \<and> pkt ! 12 = 8 \<and> pkt ! 13 = 0 \<and> pkt ! 23 = 17 \<and>
     pkt ! 36 = 0 \<and> pkt ! 37 = 53 \<and> drop_bit 7 (pkt ! 44) = 0 \<and> drop_bit 3 (pkt ! 44) AND 0xF = 0"

lemma xdp_dns_gate:
  "xdp_dns ops adj m buf pkt =
     (if is_dns_query pkt then answer_query ops adj m buf pkt 42 else Some (XDP_PASS, pkt, buf))"
proof -
  have e: "bpf_htons 0x0800 = 8" "bpf_htons 53 = 0x3500"
    by (simp_all add: bpf_htons_def bpf_swab16_def bpf_mvb_def)
  have z: "(13568 :: u8) = 0" by simp
  have f: "(ucast (a :: u8) OR push_bit 8 (ucast (b :: u8)) = (8 :: u16)) \<longleftrightarrow> a = 8 \<and> b = 0"
    "(ucast a OR push_bit 8 (ucast b) = (0x3500 :: u16)) \<longleftrightarrow> a = 0 \<and> b = 53" for a b
    by (simp_all add: le16_eq_iff z)
  show ?thesis
    by (auto simp: xdp_dns_def is_dns_query_def hdr_sizes mem_simps e f)
qed

definition answer_spec where
  "answer_spec ops adj m buf pkt =
     (let (ql, q) = query_spec pkt 54
      in if ql < 1 then Some (XDP_PASS, pkt, buf)
         else case op_lookup ops m q of
           None \<Rightarrow> Some (XDP_PASS, pkt, buf)
         | Some a \<Rightarrow>
             (let (e, p) = adj (mark_response pkt 42) (70 + ql - int (length pkt));
                  buf' = response_bytes a @ drop 16 buf
              in if e \<noteq> 0 then Some (XDP_PASS, p, buf')
                 else do { (act, p') \<leftarrow> emit_response p buf' (nat ql) 16; Some (act, p', buf') }))"

lemma answer_query_eq:
  "54 \<le> length pkt \<Longrightarrow> 16 \<le> length buf \<Longrightarrow> answer_query ops adj m buf pkt 42 = answer_spec ops adj m buf pkt"
  by (simp add: answer_query_def answer_spec_def parse_query_spec hdr_sizes match_a_records_def
      modify_dns_header_response_eq create_query_response_eq mark_length Let_def algebra_simps
      split_beta a_record_eta split: option.split)

section \<open>Growing and shrinking the packet\<close>

locale xdp_tail =
  fixes adjust_tail :: "bytes \<Rightarrow> int \<Rightarrow> int \<times> bytes"
  assumes adjust_ok: "adjust_tail p d = (0, p') \<Longrightarrow>
      int (length p') = int (length p) + d \<and>
      take (min (length p) (length p')) p' = take (min (length p) (length p')) p"
    and adjust_fail: "adjust_tail p d = (e, p') \<Longrightarrow> e \<noteq> 0 \<Longrightarrow> e < 0 \<and> p' = p"
begin

lemma adjust_nth:
  "adjust_tail p d = (0, p') \<Longrightarrow> j < length p \<Longrightarrow> j < length p' \<Longrightarrow> p' ! j = p ! j"
  using adjust_ok [of p d p'] by (metis min_less_iff_conj nth_take)

end

definition tail_ref :: "nat \<Rightarrow> bytes \<Rightarrow> int \<Rightarrow> int \<times> bytes" where
  "tail_ref room p d =
     (if int (length p) + d < 14 \<or> int room < int (length p) + d then (- EINVAL, p)
      else if d \<le> 0 then (0, take (nat (int (length p) + d)) p)
      else (0, p @ replicate (nat d) 0))"

interpretation tail_ref: xdp_tail "tail_ref room"
  by unfold_locales (auto simp: tail_ref_def errno_defs split: if_splits)

definition dns_reply :: "bytes \<Rightarrow> nat \<Rightarrow> a_record \<Rightarrow> bytes \<Rightarrow> bool" where
  "dns_reply pkt n a out \<longleftrightarrow> length out = 70 + n \<and>
     take 6 out = take 6 (drop 6 pkt) \<and> take 6 (drop 6 out) = take 6 pkt \<and>
     take 4 (drop 12 out) = take 4 (drop 12 pkt) \<and> take 6 (drop 18 out) = take 6 (drop 18 pkt) \<and>
     load16 out 16 = Some (bpf_htons (of_nat (56 + n))) \<and>
     load32 out 26 = load32 pkt 30 \<and> load32 out 30 = load32 pkt 26 \<and>
     load16 out 34 = load16 pkt 36 \<and> load16 out 36 = load16 pkt 34 \<and>
     load16 out 38 = Some (bpf_htons (of_nat (36 + n))) \<and> load16 out 40 = Some 0 \<and>
     ip_checksum_ok (take 20 (drop 14 out)) \<and>
     take 2 (drop 42 out) = take 2 (drop 42 pkt) \<and>
     out ! 44 = pkt ! 44 OR 0x80 \<and> out ! 45 = pkt ! 45 OR 0x80 \<and>
     take 2 (drop 46 out) = take 2 (drop 46 pkt) \<and> load16 out 48 = Some (bpf_htons 1) \<and>
     take 4 (drop 50 out) = take 4 (drop 50 pkt) \<and>
     take (min n (length pkt - 54)) (drop 54 out) = take (min n (length pkt - 54)) (drop 54 pkt) \<and>
     drop (54 + n) out = response_bytes a"

lemma response_length [simp]: "length (response_bytes a) = 16"
  by (simp add: response_bytes_def be32_bytes_def le32_bytes_def)

lemma query_spec_cases:
  obtains (bad) q where "query_spec pkt start = (- 1, q)"
  | (ok) n q where "query_spec pkt start = (int n, q)" "5 \<le> n" "n < 261" "start + n < length pkt + 5"
proof (cases "length (query_name pkt start) < MAX_DNS_NAME_LENGTH \<and> start + length (query_name pkt start) < length pkt")
  case True
  then obtain q where "query_spec pkt start = (int (length (query_name pkt start) + 5), q)"
    by (auto simp: query_spec_def Let_def)
  with True show thesis
    by (intro ok [of "length (query_name pkt start) + 5" q]) (auto simp: MAX_DNS_NAME_LENGTH_def)
next
  case False
  then show thesis by (intro bad) (auto simp: query_spec_def Let_def)
qed

lemma reply_correct:
  assumes "xdp_tail adj" and pkt: "54 \<le> length pkt" and n: "5 \<le> n"
    and adj: "adj (mark_response pkt 42) (70 + int n - int (length pkt)) = (0, p2)"
    and buf: "16 \<le> length buf"
  shows "\<exists>out. emit_response p2 (response_bytes a @ drop 16 buf) n 16 = Some (XDP_TX, out) \<and> dns_reply pkt n a out"
proof -
  let ?p1 = "mark_response pkt 42"
  have l2: "length p2 = 70 + n"
    using xdp_tail.adjust_ok [OF assms(1) adj] by (simp add: mark_length)
  have nth2: "p2 ! j = ?p1 ! j" if "j < length pkt" "j < 70 + n" for j
    using xdp_tail.adjust_nth [OF assms(1) adj] that l2 by (simp add: mark_length)
  define p3 where "p3 = take (54 + n) p2 @ response_bytes a"
  have c: "copy_to_pkt_buf p2 (54 + n) (response_bytes a @ drop 16 buf) 16 = Some p3"
    using l2 buf by (simp add: copy_to_pkt_buf_eq p3_def)
  have l3: "length p3 = 70 + n" by (simp add: p3_def l2)
  have nth3: "p3 ! j = ?p1 ! j" if "j < length pkt" "j < 54 + n" for j
    using nth2 that l2 by (simp add: p3_def nth_append)
  obtain out where out: "emit_response p2 (response_bytes a @ drop 16 buf) n 16 = Some (XDP_TX, out)"
    and r: "udp_reply p3 out"
    using emit_response_tx [OF _ c] l3 by auto
  have lo: "length out = 70 + n" using r l3 by (simp add: udp_reply_def)
  have "out ! j = p3 ! j" if "42 \<le> j" "j < 70 + n" for j
  proof -
    have "drop 42 out ! (j - 42) = drop 42 p3 ! (j - 42)" using r by (simp add: udp_reply_def)
    then show ?thesis using that lo l3 by simp
  qed
  then have dns: "out ! j = ?p1 ! j" if "42 \<le> j" "j < 54 + n" "j < length pkt" for j
    using that nth3 by simp
  have p1: "?p1 ! j = pkt ! j" if "j \<noteq> 44" "j \<noteq> 45" "j \<noteq> 48" "j \<noteq> 49" for j
    using that by (simp add: mark_response_def)
  have e3: "p3 ! j = pkt ! j" if "j < 44" for j using that pkt n nth3 p1 by simp
  have "dns_reply pkt n a out"
    unfolding dns_reply_def
  proof (intro conjI)
    show "length out = 70 + n" by (rule lo)
    show "take 6 out = take 6 (drop 6 pkt)" "take 6 (drop 6 out) = take 6 pkt"
      "take 4 (drop 12 out) = take 4 (drop 12 pkt)" "take 6 (drop 18 out) = take 6 (drop 18 pkt)"
      using r pkt l3 e3 by (auto simp: udp_reply_def intro!: nth_equalityI)
    show "load32 out 26 = load32 pkt 30" "load32 out 30 = load32 pkt 26"
      "load16 out 34 = load16 pkt 36" "load16 out 36 = load16 pkt 34"
      using r pkt l3 e3 load16_cong [of p3 pkt] load32_cong [of p3 pkt] by (auto simp: udp_reply_def)
    show "load16 out 16 = Some (bpf_htons (of_nat (56 + n)))"
      "load16 out 38 = Some (bpf_htons (of_nat (36 + n)))" "load16 out 40 = Some 0"
      "ip_checksum_ok (take 20 (drop 14 out))"
      using r l3 by (auto simp: udp_reply_def)
    show "take 2 (drop 42 out) = take 2 (drop 42 pkt)" "take 2 (drop 46 out) = take 2 (drop 46 pkt)"
      "take 4 (drop 50 out) = take 4 (drop 50 pkt)"
      "take (min n (length pkt - 54)) (drop 54 out) = take (min n (length pkt - 54)) (drop 54 pkt)"
      using pkt n lo dns p1 by (auto intro!: nth_equalityI)
    show "out ! 44 = pkt ! 44 OR 0x80" "out ! 45 = pkt ! 45 OR 0x80"
      using pkt n dns by (auto simp: mark_response_def)
    show "load16 out 48 = Some (bpf_htons 1)"
      using pkt n dns lo by (simp add: mem_simps mark_response_def bpf_htons_def bpf_swab16_def bpf_mvb_def)
    have "drop (54 + n) out = drop (12 + n) (drop 42 out)" by (simp add: add.commute)
    also have "drop 42 out = drop 42 p3" using r by (simp add: udp_reply_def)
    finally show "drop (54 + n) out = response_bytes a" using l2 by (simp add: p3_def)
  qed
  with out show ?thesis by blast
qed

section \<open>Properties\<close>

text \<open>A DNS query for \<^verbatim>\<open>www.lno\<close>, type A, class IN, used by the witnesses.\<close>

definition sample_query :: bytes where
  "sample_query =
     [2, 0, 0, 0, 0, 1, 2, 0, 0, 0, 0, 2, 8, 0] @
     [0x45, 0, 0, 0x37, 0, 1, 0, 0, 64, 17, 0, 0, 10, 0, 0, 1, 10, 0, 0, 53] @
     [0x30, 0x39, 0, 53, 0, 0x23, 0, 0] @
     [0x12, 0x34, 1, 0, 0, 1, 0, 0, 0, 0, 0, 0] @
     [3, 119, 119, 119, 3, 108, 110, 111, 0, 0, 1, 0, 1]"

definition sample_map :: "(dns_query \<times> a_record) list" where
  "sample_map = [(snd (query_spec sample_query 54), \<lparr>ip_addr = 0x0100007f, ttl = 60\<rparr>)]"

lemma sample_facts:
  "is_dns_query sample_query" "query_spec sample_query 54 = (13, snd (query_spec sample_query 54))"
  "length sample_query = 67"
  by (simp_all add: is_dns_query_def sample_query_def query_spec_def query_name_def
      MAX_DNS_NAME_LENGTH_def Let_def)

lemma emit_response_total:
  assumes "16 \<le> length buf"
  shows "\<exists>action out. emit_response p (response_bytes a @ drop 16 buf) n 16 = Some (action, out)"
proof -
  let ?buf = "response_bytes a @ drop 16 buf"
  obtain p3 where c: "copy_to_pkt_buf p (54 + n) ?buf 16 = Some p3"
    using assms by (simp add: copy_to_pkt_buf_eq)
  show ?thesis
  proof (cases "42 \<le> length p3")
    case True
    then show ?thesis using emit_response_tx [OF True c] by auto
  next
    case False
    then show ?thesis using c by (simp add: emit_response_def hdr_sizes)
  qed
qed

lemma answer_spec_total:
  assumes "16 \<le> length buf"
  shows "\<exists>action out buf'. answer_spec ops adj m buf pkt = Some (action, out, buf') \<and> length buf' = length buf"
proof -
  obtain ql q where ql: "query_spec pkt 54 = (ql, q)" by fastforce
  show ?thesis
  proof (cases "op_lookup ops m q")
    case None
    then show ?thesis using ql by (simp add: answer_spec_def)
  next
    case (Some a)
    obtain e p where "adj (mark_response pkt 42) (70 + ql - int (length pkt)) = (e, p)" by fastforce
    moreover obtain action out where
      "emit_response p (response_bytes a @ drop 16 buf) (nat ql) 16 = Some (action, out)"
      using emit_response_total [OF assms] by blast
    ultimately show ?thesis using Some ql assms by (simp add: answer_spec_def Let_def)
  qed
qed

lemma xdp_dns_hit:
  assumes "xdp_tail adjust_tail" and "16 \<le> length dns_buffer" and "is_dns_query pkt"
    and "query_spec pkt 54 = (int n, q)" and "op_lookup ops m q = Some a"
    and "fst (adjust_tail (mark_response pkt 42) (70 + int n - int (length pkt))) = 0"
  shows "\<exists>out. xdp_dns ops adjust_tail m dns_buffer pkt =
      Some (XDP_TX, out, response_bytes a @ drop 16 dns_buffer) \<and> dns_reply pkt n a out"
proof -
  have l: "54 \<le> length pkt" using assms(3) by (simp add: is_dns_query_def)
  have n: "5 \<le> n" using assms(4) by (cases pkt "54::nat" rule: query_spec_cases) auto
  obtain p2 where p2: "adjust_tail (mark_response pkt 42) (70 + int n - int (length pkt)) = (0, p2)"
    using assms(6) by (metis prod.collapse)
  obtain out where "emit_response p2 (response_bytes a @ drop 16 dns_buffer) n 16 = Some (XDP_TX, out)"
    "dns_reply pkt n a out"
    using reply_correct [OF assms(1) l n p2 assms(2)] by blast
  then show ?thesis using assms l n p2
    by (auto simp: xdp_dns_gate answer_query_eq answer_spec_def)
qed

lemma sample_hit:
  "\<exists>out. xdp_dns (hash_ops 65536) (tail_ref 1500) sample_map (replicate 512 0) sample_query =
      Some (XDP_TX, out, response_bytes \<lparr>ip_addr = 0x0100007f, ttl = 60\<rparr> @ drop 16 (replicate 512 0)) \<and>
    dns_reply sample_query 13 \<lparr>ip_addr = 0x0100007f, ttl = 60\<rparr> out"
  using sample_facts
  by (intro xdp_dns_hit [where q = "snd (query_spec sample_query 54)"] tail_ref.xdp_tail_axioms)
    (simp_all add: sample_map_def hash_ops_def tail_ref_def mark_length)

lemma sample_no_room:
  "\<exists>buf. xdp_dns (hash_ops 65536) (tail_ref 70) sample_map (replicate 512 0) sample_query =
     Some (XDP_PASS, mark_response sample_query 42, buf)"
proof -
  obtain q where q: "query_spec sample_query 54 = (13, q)" using sample_facts(2) by blast
  then have m: "sample_map = [(q, \<lparr>ip_addr = 0x0100007f, ttl = 60\<rparr>)]" by (simp add: sample_map_def)
  have "answer_spec (hash_ops 65536) (tail_ref 70) sample_map (replicate 512 0) sample_query =
    Some (XDP_PASS, mark_response sample_query 42,
      response_bytes \<lparr>ip_addr = 0x0100007f, ttl = 60\<rparr> @ drop 16 (replicate 512 0))"
    unfolding m
    by (simp add: answer_spec_def q sample_facts(3) Let_def mark_length tail_ref_def hash_ops_def errno_defs)
  then show ?thesis using sample_facts by (simp add: xdp_dns_gate answer_query_eq)
qed

text \<open>
  C1. Memory safety of the XDP DNS program: whatever the packet, the map and the
  tail helper do, every load and store of \<open>xdp_dns\<close> is inside the packet, the key
  buffer or the 512-byte static buffer, so the run always ends with a verdict.
\<close>

theorem xdp_dns_safe:
  assumes "length dns_buffer = 512"
  shows "\<exists>action out dns_buffer'. xdp_dns ops adjust_tail m dns_buffer pkt = Some (action, out, dns_buffer') \<and>
    length dns_buffer' = 512"
proof (cases "is_dns_query pkt")
  case False
  then show ?thesis using assms by (simp add: xdp_dns_gate)
next
  case True
  then have l: "54 \<le> length pkt" by (simp add: is_dns_query_def)
  show ?thesis using l assms True answer_spec_total [of dns_buffer ops adjust_tail m pkt]
    by (simp add: xdp_dns_gate answer_query_eq)
qed

theorem xdp_dns_safe_witness:
  "\<exists>action out buf. xdp_dns (hash_ops 65536) (tail_ref 1500) sample_map (replicate 512 0) sample_query
     = Some (action, out, buf) \<and> length buf = 512"
  by (rule xdp_dns_safe) simp

text \<open>
  C2. A cached name is answered: for a standard query whose key is in the map, and
  when the tail can be adjusted, \<open>xdp_dns\<close> returns XDP\_TX and the packet sent is the
  reply \<open>dns_reply\<close> describes: addresses, ports and MACs exchanged, lengths and IP
  checksum right, UDP checksum cleared, transaction id and question kept, QR and RA
  set, one answer record with the cached address and TTL in network byte order.
\<close>

theorem xdp_dns_answers:
  assumes "xdp_tail adjust_tail" and "16 \<le> length dns_buffer" and "is_dns_query pkt"
    and "query_spec pkt 54 = (int n, q)" and "op_lookup ops m q = Some a"
    and "fst (adjust_tail (mark_response pkt 42) (70 + int n - int (length pkt))) = 0"
  shows "\<exists>out. xdp_dns ops adjust_tail m dns_buffer pkt =
      Some (XDP_TX, out, response_bytes a @ drop 16 dns_buffer) \<and> dns_reply pkt n a out"
  using assms by (rule xdp_dns_hit)

theorem xdp_dns_answers_witness:
  "\<exists>out. xdp_dns (hash_ops 65536) (tail_ref 1500) sample_map (replicate 512 0) sample_query =
      Some (XDP_TX, out, response_bytes \<lparr>ip_addr = 0x0100007f, ttl = 60\<rparr> @ drop 16 (replicate 512 0)) \<and>
    dns_reply sample_query 13 \<lparr>ip_addr = 0x0100007f, ttl = 60\<rparr> out"
  using sample_facts
  by (intro xdp_dns_answers [where q = "snd (query_spec sample_query 54)"] tail_ref.xdp_tail_axioms)
    (simp_all add: sample_map_def hash_ops_def tail_ref_def mark_length)

text \<open>
  C3. Only cached names are answered: when \<open>xdp_dns\<close> returns XDP\_TX the packet was a
  standard query, its key was in the map, and what is sent is the reply for the
  record stored there.
\<close>

theorem xdp_dns_tx_only_hits:
  assumes "xdp_tail adjust_tail" and "16 \<le> length dns_buffer"
    and "xdp_dns ops adjust_tail m dns_buffer pkt = Some (XDP_TX, out, dns_buffer')"
  shows "\<exists>n q a. is_dns_query pkt \<and> query_spec pkt 54 = (int n, q) \<and>
    op_lookup ops m q = Some a \<and> dns_reply pkt n a out"
proof -
  have g: "is_dns_query pkt" using assms(3) by (auto simp: xdp_dns_gate split: if_splits)
  then have l: "54 \<le> length pkt" by (simp add: is_dns_query_def)
  have ans: "answer_spec ops adjust_tail m dns_buffer pkt = Some (XDP_TX, out, dns_buffer')"
    using assms g l by (simp add: xdp_dns_gate answer_query_eq)
  then show ?thesis
  proof (cases pkt "54::nat" rule: query_spec_cases)
    case (ok n q)
    with ans obtain a p2 where a: "op_lookup ops m q = Some a"
      "adjust_tail (mark_response pkt 42) (70 + int n - int (length pkt)) = (0, p2)"
      "emit_response p2 (response_bytes a @ drop 16 dns_buffer) n 16 = Some (XDP_TX, out)"
      by (auto simp: answer_spec_def Let_def split: option.splits prod.splits if_splits bind_splits)
    moreover have "dns_reply pkt n a out"
      using reply_correct [OF assms(1) l ok(2) a(2) assms(2), of a] a(3) by auto
    ultimately show ?thesis using ok g by blast
  qed (auto simp: answer_spec_def)
qed

theorem xdp_dns_tx_only_hits_witness:
  "\<exists>out n q a. is_dns_query sample_query \<and> query_spec sample_query 54 = (int n, q) \<and>
      op_lookup (hash_ops 65536) sample_map q = Some a \<and> dns_reply sample_query n a out"
proof -
  obtain out buf where "xdp_dns (hash_ops 65536) (tail_ref 1500) sample_map (replicate 512 0) sample_query =
      Some (XDP_TX, out, buf)"
    using sample_hit by blast
  from xdp_dns_tx_only_hits [OF tail_ref.xdp_tail_axioms _ this] show ?thesis by simp blast
qed

text \<open>
  C4. When \<open>xdp_dns\<close> hands a packet to the network stack (XDP\_PASS), the packet is
  the one received, with one exception: if the name was cached and
  \<^verbatim>\<open>bpf_xdp_adjust_tail\<close> failed, the packet passed on has already been turned into a
  response header (QR and RA set, one answer announced) with no answer in it.
\<close>

theorem xdp_dns_pass:
  assumes "xdp_tail adjust_tail" and "16 \<le> length dns_buffer"
    and "xdp_dns ops adjust_tail m dns_buffer pkt = Some (XDP_PASS, out, dns_buffer')"
  shows "out = pkt \<or>
    (is_dns_query pkt \<and> out = mark_response pkt 42 \<and>
     (\<exists>n q a. query_spec pkt 54 = (int n, q) \<and> op_lookup ops m q = Some a \<and>
       fst (adjust_tail (mark_response pkt 42) (70 + int n - int (length pkt))) < 0))"
proof (cases "is_dns_query pkt")
  case False
  then show ?thesis using assms(3) by (simp add: xdp_dns_gate)
next
  case g: True
  then have l: "54 \<le> length pkt" by (simp add: is_dns_query_def)
  have ans: "answer_spec ops adjust_tail m dns_buffer pkt = Some (XDP_PASS, out, dns_buffer')"
    using assms g l by (simp add: xdp_dns_gate answer_query_eq)
  show ?thesis
  proof (cases pkt "54::nat" rule: query_spec_cases)
    case (bad q)
    then show ?thesis using ans by (simp add: answer_spec_def)
  next
    case (ok n q)
    obtain e p where ep: "adjust_tail (mark_response pkt 42) (70 + int n - int (length pkt)) = (e, p)"
      by fastforce
    show ?thesis
    proof (cases "op_lookup ops m q")
      case None
      then show ?thesis using ans ok by (simp add: answer_spec_def)
    next
      case (Some a)
      have "e \<noteq> 0"
        using reply_correct [OF assms(1) l ok(2) _ assms(2), of p a] ep ans ok Some
        by (auto simp: answer_spec_def)
      then have "e < 0 \<and> p = mark_response pkt 42" by (rule xdp_tail.adjust_fail [OF assms(1) ep])
      then show ?thesis using ans ok Some ep g by (auto simp: answer_spec_def)
    qed
  qed
qed

theorem xdp_dns_pass_witness:
  "mark_response sample_query 42 \<noteq> sample_query \<and>
   (\<exists>buf. xdp_dns (hash_ops 65536) (tail_ref 70) sample_map (replicate 512 0) sample_query =
     Some (XDP_PASS, mark_response sample_query 42, buf)) \<and>
   (\<exists>n q a. query_spec sample_query 54 = (int n, q) \<and> op_lookup (hash_ops 65536) sample_map q = Some a \<and>
       fst (tail_ref 70 (mark_response sample_query 42) (70 + int n - int (length sample_query))) < 0)"
proof -
  have ne: "mark_response sample_query 42 \<noteq> sample_query"
    by (simp add: mark_response_def sample_query_def)
  obtain buf where r: "xdp_dns (hash_ops 65536) (tail_ref 70) sample_map (replicate 512 0) sample_query =
     Some (XDP_PASS, mark_response sample_query 42, buf)"
    using sample_no_room by blast
  have "16 \<le> length (replicate 512 (0 :: u8))" by simp
  from xdp_dns_pass [OF tail_ref.xdp_tail_axioms this r] ne r show ?thesis by blast
qed

text \<open>
  \<open>parse_query\<close> in closed form: the name is the run of non-zero bytes at the start
  of the question (256 at most), copied into the zero-filled key; type and class are
  the two big-endian words behind the terminator when they are inside the packet and 0
  otherwise; the result is the length of the question, or -1 when no terminator is
  found in the packet or within 256 bytes.
\<close>

theorem parse_query_correct: "parse_query pkt query_start = Some (query_spec pkt query_start)"
  by (rule parse_query_spec)

text \<open>
  C6. \<open>update_ip_checksum\<close> writes only the checksum field and leaves a header that
  RFC 1071 verification accepts, for any header of an even number of bytes with the
  field at an even offset.
\<close>

theorem update_ip_checksum_correct:
  assumes "data + 2 * n \<le> length pkt" and "c < n" and "n \<le> 30000"
  shows "\<exists>pkt'. update_ip_checksum pkt data (2 * n) (data + 2 * c) = Some pkt' \<and>
    (\<exists>x y. pkt' = pkt[data + 2 * c := x, data + 2 * c + 1 := y]) \<and>
    ip_checksum_ok (take (2 * n) (drop data pkt'))"
  using assms by (rule update_ip_checksum_valid)

theorem update_ip_checksum_correct_witness:
  "\<exists>pkt'. update_ip_checksum sample_query 14 (2 * 10) (14 + 2 * 5) = Some pkt' \<and>
    (\<exists>x y. pkt' = sample_query[14 + 2 * 5 := x, 14 + 2 * 5 + 1 := y]) \<and>
    ip_checksum_ok (take (2 * 10) (drop 14 pkt'))"
  by (rule update_ip_checksum_correct) (simp_all add: sample_facts)

end
