(* ===== verification/C_Lib.thy ===== *)
theory C_Lib
  imports Lno_Prelude
begin

text \<open>
  What the user-space tools use of C and its library: \<^verbatim>\<open>int\<close> and \<^verbatim>\<open>size_t\<close>
  arithmetic, heap blocks that \<^verbatim>\<open>realloc\<close> grows, NUL-terminated strings inside a
  block, \<^verbatim>\<open>strcmp\<close> and \<^verbatim>\<open>qsort\<close>, and the binary search that
  \<^verbatim>\<open>trace_helpers.c\<close> has in two places.

  A result \<open>None\<close> of a function of this and the tool theories is undefined behaviour:
  an access outside a block or to an uninitialised cell, or a signed overflow.
  The fact collection \<open>c_simps\<close> has the conversions on values in range.
\<close>

named_theorems c_simps

section \<open>Integers\<close>

definition c_int :: "int \<Rightarrow> int option" where
  "c_int x = (if - (2 ^ 31) \<le> x \<and> x < 2 ^ 31 then Some x else None)"

definition size_t :: "int \<Rightarrow> int" where
  "size_t x = x mod 2 ^ 64"

definition to_int :: "int \<Rightarrow> int" where
  "to_int x = (x + 2 ^ 31) mod 2 ^ 32 - 2 ^ 31"

lemma c_int_in [c_simps]: "- (2 ^ 31) \<le> x \<Longrightarrow> x < 2 ^ 31 \<Longrightarrow> c_int x = Some x"
  by (simp add: c_int_def)

lemma c_int_Some: "c_int x = Some y \<longleftrightarrow> y = x \<and> - (2 ^ 31) \<le> x \<and> x < 2 ^ 31"
  by (auto simp: c_int_def)

lemma size_t_in [c_simps]: "0 \<le> x \<Longrightarrow> x < 2 ^ 64 \<Longrightarrow> size_t x = x"
  by (simp add: size_t_def)

lemma size_t_bounds: "0 \<le> size_t x" "size_t x < 2 ^ 64"
  by (simp_all add: size_t_def)

lemma to_int_in [c_simps]: "- (2 ^ 31) \<le> x \<Longrightarrow> x < 2 ^ 31 \<Longrightarrow> to_int x = x"
  by (simp add: to_int_def)

section \<open>Heap blocks\<close>

text \<open>
  A block is the list of its cells, \<open>None\<close> an uninitialised cell; the null pointer is
  the block with no cell.  \<open>ok\<close> says whether the allocation succeeds.
\<close>

type_synonym 'a block = "'a option list"

definition realloc :: "bool \<Rightarrow> 'a block \<Rightarrow> nat \<Rightarrow> 'a block option" where
  "realloc ok b n = (if ok then Some (take n b @ replicate (n - length b) None) else None)"

definition block_get :: "'a block \<Rightarrow> int \<Rightarrow> 'a option" where
  "block_get b i = (if 0 \<le> i \<and> i < int (length b) then b ! nat i else None)"

definition block_put :: "'a block \<Rightarrow> int \<Rightarrow> 'a \<Rightarrow> 'a block option" where
  "block_put b i x = (if 0 \<le> i \<and> i < int (length b) then Some (b[nat i := Some x]) else None)"

definition block_write :: "'a block \<Rightarrow> int \<Rightarrow> 'a list \<Rightarrow> 'a block option" where
  "block_write b i xs = (if 0 \<le> i \<and> i + int (length xs) \<le> int (length b)
     then Some (take (nat i) b @ map Some xs @ drop (nat i + length xs) b) else None)"

text \<open>\<open>holds b xs\<close>: the first cells of the block are \<open>xs\<close>.\<close>

definition holds :: "'a block \<Rightarrow> 'a list \<Rightarrow> bool" where
  "holds b xs \<longleftrightarrow> length xs \<le> length b \<and> take (length xs) b = map Some xs"

lemma holds_Nil [simp]: "holds b []"
  by (simp add: holds_def)

lemma holds_realloc:
  assumes "holds b xs" and "length xs \<le> n" and "realloc ok b n = Some b'"
  shows "holds b' xs" and "length b' = n"
proof -
  have b': "b' = take n b @ replicate (n - length b) None" using assms(3) by (auto simp: realloc_def split: if_splits)
  then show "length b' = n" by simp
  have "take (length xs) b' = take (length xs) b" using assms by (simp add: b' holds_def min_def)
  then show "holds b' xs" using assms \<open>length b' = n\<close> by (simp add: holds_def)
qed

lemma holds_write:
  assumes "holds b xs" and "length xs + length ys \<le> length b"
  shows "\<exists>b'. block_write b (int (length xs)) ys = Some b' \<and> holds b' (xs @ ys) \<and> length b' = length b"
proof -
  have 1: "block_write b (int (length xs)) ys =
      Some (map Some xs @ map Some ys @ drop (length xs + length ys) b)"
    using assms by (simp add: block_write_def holds_def)
  show ?thesis unfolding 1 using assms by (simp add: holds_def)
qed

lemma holds_put:
  assumes "holds b xs" and "length xs < length b"
  shows "\<exists>b'. block_put b (int (length xs)) y = Some b' \<and> holds b' (xs @ [y]) \<and> length b' = length b"
  using assms by (simp add: block_put_def holds_def take_Suc_conv_app_nth)

lemma holds_get:
  assumes "holds b xs" and "i < length xs"
  shows "block_get b (int i) = Some (xs ! i)"
proof -
  have "take (length xs) b ! i = map Some xs ! i" using assms(1) by (simp add: holds_def)
  then show ?thesis using assms by (simp add: block_get_def holds_def)
qed

lemma holds_split: "holds b xs \<longleftrightarrow> (\<exists>r. b = map Some xs @ r)"
proof
  assume h: "holds b xs"
  have "b = take (length xs) b @ drop (length xs) b" by simp
  then show "\<exists>r. b = map Some xs @ r" using h unfolding holds_def by metis
qed (auto simp: holds_def)

text \<open>
  Room for one more element in a growing array with \<open>sz\<close> elements and \<open>cap\<close> cells, as the
  symbol tables of \<^verbatim>\<open>trace_helpers.c\<close> make it; \<open>Some None\<close> is a failed \<^verbatim>\<open>realloc\<close>.
\<close>

definition vec_reserve :: "bool \<Rightarrow> 'a block \<Rightarrow> int \<Rightarrow> int \<Rightarrow> ('a block \<times> int) option option" where
  "vec_reserve ok b sz cap = do {
     need \<leftarrow> c_int (sz + 1);
     if need > cap then do {
       c4 \<leftarrow> c_int (cap * 4);
       let new_cap = size_t (c4 div 3);
       let new_cap = (if new_cap < 1024 then 1024 else new_cap);
       Some (map_option (\<lambda>tmp. (tmp, to_int new_cap)) (realloc ok b (nat new_cap)))
     } else Some (Some (b, cap))
   }"

lemma vec_reserve_ok:
  assumes h: "holds b xs" and sz: "sz = int (length xs)" and cap: "cap = int (length b)" and n: "sz + 1 \<le> 2 ^ 29"
    and lim: "cap < 2 ^ 31"
  shows "\<exists>r. vec_reserve ok b sz cap = Some r \<and> (r = None \<longrightarrow> \<not> ok) \<and>
    (\<forall>b' cap'. r = Some (b', cap') \<longrightarrow> holds b' xs \<and> cap' = int (length b') \<and> sz < cap' \<and> cap' < 2 ^ 31)"
proof -
  have le: "sz \<le> cap" and nn: "0 \<le> sz" using h sz cap by (simp_all add: holds_def)
  have s: "c_int (sz + 1) = Some (sz + 1)" using nn n by (simp add: c_simps)
  show ?thesis
  proof (cases "sz + 1 > cap")
    case grow: True
    define c where "c = max 1024 (cap * 4 div 3)"
    have c: "sz + 1 \<le> c" "1024 \<le> c" "c < 2 ^ 31" "cap * 4 div 3 < 2 ^ 31" "0 \<le> cap * 4 div 3"
      using grow le nn n by (auto simp: c_def)
    have step: "c_int (cap * 4) = Some (cap * 4)" "size_t (cap * 4 div 3) = cap * 4 div 3" "to_int c = c"
      using grow le nn n c by (simp_all add: c_simps)
    have m: "(if a < 1024 then 1024 else a) = max 1024 (a :: int)" for a by auto
    have g: "vec_reserve ok b sz cap = Some (map_option (\<lambda>tmp. (tmp, c)) (realloc ok b (nat c)))"
      using grow by (simp add: vec_reserve_def s step Let_def m c_def [symmetric])
    have "length xs \<le> nat c" using sz c by simp
    then have k: "holds b' xs \<and> length b' = nat c" if "realloc ok b (nat c) = Some b'" for b'
      using holds_realloc [OF h _ that] by simp
    show ?thesis
    proof (cases "realloc ok b (nat c)")
      case None
      then show ?thesis using g by (simp add: realloc_def split: if_splits)
    next
      case (Some b')
      then show ?thesis using g k [OF Some] c(1-3) by simp
    qed
  next
    case False
    then show ?thesis using h cap lim by (simp add: vec_reserve_def s)
  qed
qed

section \<open>Strings\<close>

text \<open>
  A C string is the list of its characters before the NUL.  \<open>cstr b i\<close> reads the string
  at offset \<open>i\<close> of a block of characters.
\<close>

definition NUL :: char where "NUL = CHR 0x00"

definition is_cstr :: "string \<Rightarrow> bool" where "is_cstr s \<longleftrightarrow> NUL \<notin> set s"

fun cstr_of :: "char block \<Rightarrow> string option" where
  "cstr_of [] = None"
| "cstr_of (None # b) = None"
| "cstr_of (Some c # b) = (if c = NUL then Some [] else map_option (Cons c) (cstr_of b))"

definition cstr :: "char block \<Rightarrow> nat \<Rightarrow> string option" where
  "cstr b i = cstr_of (drop i b)"

fun strcmp :: "string \<Rightarrow> string \<Rightarrow> int" where
  "strcmp [] [] = 0"
| "strcmp [] (d # t) = - 1"
| "strcmp (c # s) [] = 1"
| "strcmp (c # s) (d # t) = (if c = d then strcmp s t else if c < d then - 1 else 1)"

text \<open>
  \<^verbatim>\<open>strtol\<close> and \<^verbatim>\<open>strtoul\<close> in base 10: the number, whether \<^verbatim>\<open>errno\<close> is set (ERANGE) and the
  rest of the string, where \<^verbatim>\<open>end\<close> points; without any digit the rest is the whole string.
\<close>

definition c_isspace :: "char \<Rightarrow> bool" where
  "c_isspace c = (of_char c = (32 :: nat) \<or> (9 :: nat) \<le> of_char c \<and> of_char c \<le> (13 :: nat))"

definition c_isdigit :: "char \<Rightarrow> bool" where
  "c_isdigit c = ((48 :: nat) \<le> of_char c \<and> of_char c \<le> (57 :: nat))"

fun digits_value :: "nat \<Rightarrow> string \<Rightarrow> nat" where
  "digits_value n [] = n"
| "digits_value n (c # s) = (if c_isdigit c then digits_value (n * 10 + (of_char c - 48)) s else n)"

definition strto_parts :: "string \<Rightarrow> bool \<times> string" where
  "strto_parts s = (case dropWhile c_isspace s of
      [] \<Rightarrow> (False, [])
    | c # r \<Rightarrow> if c = CHR ''-'' then (True, r) else if c = CHR ''+'' then (False, r) else (False, c # r))"

definition strto_end :: "string \<Rightarrow> string \<Rightarrow> string" where
  "strto_end s ds = (if ds = [] \<or> \<not> c_isdigit (hd ds) then s else dropWhile c_isdigit ds)"

definition strtol :: "string \<Rightarrow> int \<times> bool \<times> string" where
  "strtol s =
     (let (neg, ds) = strto_parts s; n = int (digits_value 0 ds); v = (if neg then - n else n)
      in if v \<ge> 2 ^ 63 then (2 ^ 63 - 1, True, strto_end s ds)
         else if v < - (2 ^ 63) then (- (2 ^ 63), True, strto_end s ds)
         else (v, False, strto_end s ds))"

definition strtoul :: "string \<Rightarrow> u64 \<times> bool \<times> string" where
  "strtoul s =
     (let (neg, ds) = strto_parts s; n = digits_value 0 ds
      in if n \<ge> 2 ^ 64 then (- 1, True, strto_end s ds)
         else (if neg then - of_nat n else of_nat n, False, strto_end s ds))"

text \<open>Decimal digits of a number, as \<^verbatim>\<open>%d\<close> prints them.\<close>

fun dec :: "nat \<Rightarrow> string" where
  "dec n = (if n < 10 then [char_of (48 + n)] else dec (n div 10) @ [char_of (48 + n mod 10)])"

declare dec.simps [simp del]

lemma c_isdigit_char: "d < 10 \<Longrightarrow> c_isdigit (char_of (48 + d :: nat))"
  by (simp add: c_isdigit_def of_char_of)

lemma of_char_digit: "d < 10 \<Longrightarrow> of_char (char_of (48 + d :: nat)) = 48 + d"
  by (simp add: of_char_of)

lemma digits_value_app:
  "\<forall>c \<in> set s. c_isdigit c \<Longrightarrow> digits_value n (s @ r) = digits_value (digits_value n s) r"
  by (induction s arbitrary: n) auto

lemma dec_digits: "\<forall>c \<in> set (dec n). c_isdigit c"
  by (induction n rule: dec.induct) (subst dec.simps, auto simp: c_isdigit_char)

lemma dec_nonempty: "dec n \<noteq> []"
  by (subst dec.simps) simp

lemma digits_value_dec: "digits_value 0 (dec n) = n"
proof (induction n rule: dec.induct)
  case (1 n)
  show ?case
  proof (cases "n < 10")
    case True
    then show ?thesis by (simp add: dec.simps [of n] c_isdigit_char of_char_digit)
  next
    case False
    then show ?thesis using 1 by (simp add: dec.simps [of n] digits_value_app [OF dec_digits] c_isdigit_char of_char_digit)
  qed
qed

lemma strtol_dec:
  assumes "n < 2 ^ 63" and "r = [] \<or> \<not> c_isdigit (hd r)"
  shows "strtol (dec n @ r) = (int n, False, r)"
proof -
  obtain c ds where d: "dec n = c # ds" using dec_nonempty by (cases "dec n") auto
  then have c: "c_isdigit c" using dec_digits [of n] by auto
  then have ns: "\<not> c_isspace c" "c \<noteq> CHR ''-''" "c \<noteq> CHR ''+''" by (auto simp: c_isdigit_def c_isspace_def)
  have p: "strto_parts (dec n @ r) = (False, dec n @ r)" using ns by (simp add: strto_parts_def d)
  have v: "digits_value 0 (dec n @ r) = n"
    using assms(2) by (cases r) (simp_all add: digits_value_app [OF dec_digits] digits_value_dec)
  have "dropWhile c_isdigit (dec n @ r) = r"
    using assms(2) dec_digits [of n] by (cases r) (auto simp: dropWhile_append2)
  then have "strto_end (dec n @ r) (dec n @ r) = r" using c by (simp add: strto_end_def d)
  then show ?thesis using assms(1) by (simp add: strtol_def p v)
qed

lemma cstr_of_app: "is_cstr s \<Longrightarrow> cstr_of (map Some s @ Some NUL # b) = Some s"
  by (induction s) (auto simp: is_cstr_def)

lemma cstr_holds:
  assumes "holds b (xs @ s @ NUL # ys)" and "is_cstr s"
  shows "cstr b (length xs) = Some s"
proof -
  obtain r where "b = map Some (xs @ s @ NUL # ys) @ r" using assms(1) by (auto simp: holds_split)
  then show ?thesis using assms(2) by (simp add: cstr_def cstr_of_app)
qed

lemma strcmp_le: "strcmp s t \<le> 0 \<longleftrightarrow> s \<le> t"
  by (induction s t rule: strcmp.induct) auto

lemma strcmp_eq [simp]: "strcmp s t = 0 \<longleftrightarrow> s = t"
  by (induction s t rule: strcmp.induct) auto

section \<open>qsort\<close>

text \<open>
  \<^verbatim>\<open>qsort\<close> leaves a permutation that is ordered by the comparison function; which one
  is not specified when elements compare equal.  Insertion sort stands for it and the
  lemmas below are all that is used of it; \<open>qsort_unique\<close> shows that for a comparison
  function without ties every conforming \<^verbatim>\<open>qsort\<close> gives this result.
\<close>

fun qsort_insert :: "('a \<Rightarrow> 'a \<Rightarrow> int) \<Rightarrow> 'a \<Rightarrow> 'a list \<Rightarrow> 'a list" where
  "qsort_insert cmp x [] = [x]"
| "qsort_insert cmp x (y # ys) = (if cmp x y \<le> 0 then x # y # ys else y # qsort_insert cmp x ys)"

definition qsort :: "('a \<Rightarrow> 'a \<Rightarrow> int) \<Rightarrow> 'a list \<Rightarrow> 'a list" where
  "qsort cmp xs = foldr (qsort_insert cmp) xs []"

lemma mset_qsort_insert [simp]: "mset (qsort_insert cmp x xs) = add_mset x (mset xs)"
  by (induction xs) auto

lemma mset_qsort [simp]: "mset (qsort cmp xs) = mset xs"
  by (induction xs) (simp_all add: qsort_def)

lemma set_qsort [simp]: "set (qsort cmp xs) = set xs"
  using mset_qsort by (metis set_mset_mset)

lemma length_qsort [simp]: "length (qsort cmp xs) = length xs"
  using mset_qsort by (metis size_mset)

locale cmp_order =
  fixes cmp :: "'a \<Rightarrow> 'a \<Rightarrow> int"
  assumes cmp_total: "cmp x y \<le> 0 \<or> cmp y x \<le> 0"
    and cmp_trans: "cmp x y \<le> 0 \<Longrightarrow> cmp y z \<le> 0 \<Longrightarrow> cmp x z \<le> 0"
begin

lemma insert_ordered:
  "sorted_wrt (\<lambda>x y. cmp x y \<le> 0) xs \<Longrightarrow> sorted_wrt (\<lambda>x y. cmp x y \<le> 0) (qsort_insert cmp x xs)"
proof (induction xs)
  case (Cons y ys)
  have "z \<in> set (qsort_insert cmp x ys) \<Longrightarrow> z = x \<or> z \<in> set ys" for z
    by (metis insert_iff mset_qsort_insert set_mset_add_mset_insert set_mset_mset)
  then have "\<forall>z \<in> set (qsort_insert cmp x ys). cmp y z \<le> 0" if "\<not> cmp x y \<le> 0"
    using Cons.prems cmp_total [of x y] that by fastforce
  with Cons show ?case by (auto intro: cmp_trans)
qed simp

lemma qsort_ordered: "sorted_wrt (\<lambda>x y. cmp x y \<le> 0) (qsort cmp xs)"
  by (induction xs) (simp_all add: qsort_def insert_ordered)

end

locale cmp_strict = cmp_order +
  assumes cmp_antisym: "cmp x y \<le> 0 \<Longrightarrow> cmp y x \<le> 0 \<Longrightarrow> x = y"
begin

lemma ordered_unique:
  "mset xs = mset ys \<Longrightarrow> sorted_wrt (\<lambda>x y. cmp x y \<le> 0) xs \<Longrightarrow> sorted_wrt (\<lambda>x y. cmp x y \<le> 0) ys \<Longrightarrow> xs = ys"
proof (induction xs arbitrary: ys)
  case (Cons x xs)
  then obtain y zs where ys: "ys = y # zs" by (cases ys) auto
  have "y \<in> set (x # xs)" "x \<in> set (y # zs)"
    using Cons.prems(1) unfolding ys by (metis list.set_intros(1) mset_eq_setD)+
  then have "x = y" using Cons.prems(2,3) cmp_antisym unfolding ys by auto
  then show ?case using Cons unfolding ys by simp
qed simp

lemma qsort_unique:
  "mset ys = mset xs \<Longrightarrow> sorted_wrt (\<lambda>x y. cmp x y \<le> 0) ys \<Longrightarrow> ys = qsort cmp xs"
  by (rule ordered_unique [OF _ _ qsort_ordered]) simp_all

end

section \<open>Binary search for the last entry at or below an address\<close>

text \<open>
  The \<^verbatim>\<open>while (start < end)\<close> loop that \<^verbatim>\<open>ksyms__map_addr\<close> and \<^verbatim>\<open>dso__find_sym\<close> share
  and the test behind it, over the reads of the table and the address field of its
  entries.  The result is the index of the entry the code returns a pointer to.
\<close>

function search_loop :: "('a \<Rightarrow> u64) \<Rightarrow> (int \<Rightarrow> 'a option) \<Rightarrow> u64 \<Rightarrow> int \<Rightarrow> int \<Rightarrow> (int \<times> int) option" where
  "search_loop key get addr start end =
     (if start < end then
        (let mid = start + (end - start + 1) div 2
         in case get mid of
              None \<Rightarrow> None
            | Some x \<Rightarrow>
                if key x \<le> addr then search_loop key get addr mid end
                else search_loop key get addr start (mid - 1))
      else Some (start, end))"
  by pat_completeness auto
termination
  by (relation "measure (\<lambda>(key, get, addr, start, end). nat (end - start))") (auto split: option.splits)

declare search_loop.simps [simp del]

definition search_le :: "('a \<Rightarrow> u64) \<Rightarrow> (int \<Rightarrow> 'a option) \<Rightarrow> int \<Rightarrow> u64 \<Rightarrow> int option option" where
  "search_le key get sz addr = do {
     (start, end) \<leftarrow> search_loop key get addr 0 (sz - 1);
     if start = end then do {
       x \<leftarrow> get start;
       Some (if key x \<le> addr then Some start else None)
     } else Some None
   }"

definition reads :: "(int \<Rightarrow> 'a option) \<Rightarrow> 'a list \<Rightarrow> bool" where
  "reads get xs \<longleftrightarrow> (\<forall>i < length xs. get (int i) = Some (xs ! i))"

lemma reads_nat: "reads get xs \<Longrightarrow> 0 \<le> i \<Longrightarrow> i < int (length xs) \<Longrightarrow> get i = Some (xs ! nat i)"
  unfolding reads_def by (metis int_nat_eq nat_less_iff)

lemma holds_reads: "holds b xs \<Longrightarrow> reads (block_get b) xs"
  by (simp add: reads_def holds_get)

text \<open>
  The loop keeps: the entry at \<open>start\<close>, when it is not the first, is at or below the
  address and everything after \<open>end\<close> is above it.
\<close>

lemma search_loop_spec:
  assumes "reads get xs" and "sorted (map key xs)" and "0 \<le> start" and "start \<le> end"
    and "end < int (length xs)"
    and "\<forall>j < length xs. end < int j \<longrightarrow> addr < key (xs ! j)"
    and "0 < start \<longrightarrow> key (xs ! nat start) \<le> addr"
  shows "\<exists>i. search_loop key get addr start end = Some (i, i) \<and> 0 \<le> i \<and> i < int (length xs) \<and>
    (\<forall>j < length xs. i < int j \<longrightarrow> addr < key (xs ! j)) \<and> (0 < i \<longrightarrow> key (xs ! nat i) \<le> addr)"
  using assms
proof (induction key get addr start "end" rule: search_loop.induct)
  case (1 key get addr start "end")
  show ?case
  proof (cases "start < end")
    case False
    then show ?thesis using 1(3-) by (subst search_loop.simps) auto
  next
    case True
    define mid where "mid = start + (end - start + 1) div 2"
    have m: "start < mid" "mid \<le> end" "0 \<le> mid" "mid < int (length xs)"
      using True 1(5-7) by (auto simp: mid_def)
    have g: "get mid = Some (xs ! nat mid)" using reads_nat [OF 1(3)] m by simp
    show ?thesis
    proof (cases "key (xs ! nat mid) \<le> addr")
      case le: True
      have "search_loop key get addr start end = search_loop key get addr mid end"
        using True m le by (subst search_loop.simps) (simp add: mid_def [symmetric] g)
      then show ?thesis using 1(1) [OF True mid_def g le] m 1(3-) le by simp
    next
      case gt: False
      have "search_loop key get addr start end = search_loop key get addr start (mid - 1)"
        using True m gt by (subst search_loop.simps) (simp add: mid_def [symmetric] g)
      moreover have "addr < key (xs ! j)" if "j < length xs" "mid - 1 < int j" for j
      proof -
        have "key (xs ! nat mid) \<le> key (xs ! j)"
          using sorted_nth_mono [OF 1(4), of "nat mid" j] that m by simp
        then show ?thesis using gt by simp
      qed
      ultimately show ?thesis using 1(2) [OF True mid_def g gt] m 1(3-) by simp
    qed
  qed
qed

text \<open>What the search promises: the last entry whose address is not above the given one.\<close>

definition last_le :: "('a \<Rightarrow> u64) \<Rightarrow> 'a list \<Rightarrow> u64 \<Rightarrow> 'a option" where
  "last_le key xs addr = (case filter (\<lambda>x. key x \<le> addr) xs of [] \<Rightarrow> None | ys \<Rightarrow> Some (last ys))"

lemma filter_prefix:
  assumes "sorted (map key xs)" and "i < length xs" and "key (xs ! i) \<le> (addr :: u64)"
    and "\<forall>j < length xs. i < j \<longrightarrow> addr < key (xs ! j)"
  shows "filter (\<lambda>x. key x \<le> addr) xs = take (Suc i) xs"
proof -
  have "filter (\<lambda>x. key x \<le> addr) (take (Suc i) xs) = take (Suc i) xs"
  proof (rule filter_True, rule ballI)
    fix x assume "x \<in> set (take (Suc i) xs)"
    then obtain j where "j \<le> i" "x = xs ! j" using assms(2) by (auto simp: in_set_conv_nth less_Suc_eq_le)
    then show "key x \<le> addr"
      using sorted_nth_mono [OF assms(1), of j i] assms(2,3) by (auto intro: order_trans)
  qed
  moreover have "filter (\<lambda>x. key x \<le> addr) (drop (Suc i) xs) = []"
    using assms(4) by (auto simp: filter_empty_conv in_set_conv_nth not_le)
  ultimately show ?thesis by (metis append.right_neutral append_take_drop_id filter_append)
qed

lemma search_le_correct:
  assumes "reads get xs" and "sorted (map key xs)"
  shows "\<exists>r. search_le key get (int (length xs)) addr = Some r \<and>
    map_option (\<lambda>i. xs ! nat i) r = last_le key xs addr \<and>
    (\<forall>i. r = Some i \<longrightarrow> 0 \<le> i \<and> i < int (length xs))"
proof (cases "xs = []")
  case True
  then show ?thesis by (simp add: search_le_def search_loop.simps last_le_def)
next
  case False
  then have len: "1 \<le> int (length xs)" by (cases xs) auto
  obtain i where i: "search_loop key get addr 0 (int (length xs) - 1) = Some (i, i)" "0 \<le> i" "i < int (length xs)"
    "\<forall>j < length xs. i < int j \<longrightarrow> addr < key (xs ! j)" "0 < i \<longrightarrow> key (xs ! nat i) \<le> addr"
    using search_loop_spec [OF assms, of 0 "int (length xs) - 1" addr] len False by auto
  have s: "search_le key get (int (length xs)) addr = Some (if key (xs ! nat i) \<le> addr then Some i else None)"
    using i reads_nat [OF assms(1)] by (simp add: search_le_def)
  show ?thesis
  proof (cases "key (xs ! nat i) \<le> addr")
    case True
    have "filter (\<lambda>x. key x \<le> addr) xs = take (Suc (nat i)) xs"
      by (rule filter_prefix [OF assms(2) _ True]) (use i in auto)
    moreover have "last (take (Suc (nat i)) xs) = xs ! nat i"
      using i by (simp add: take_Suc_conv_app_nth)
    ultimately show ?thesis using s True i False by (auto simp: last_le_def split: list.splits)
  next
    case gt: False
    with i have "i = 0" by force
    then have "filter (\<lambda>x. key x \<le> addr) xs = []"
      using i gt by (auto simp: filter_empty_conv in_set_conv_nth not_le)
    then show ?thesis using s gt by (simp add: last_le_def)
  qed
qed

lemma last_le_None: "last_le key xs addr = None \<longleftrightarrow> (\<forall>x \<in> set xs. addr < key x)"
proof -
  have "last_le key xs addr = None \<longleftrightarrow> filter (\<lambda>x. key x \<le> addr) xs = []"
    by (auto simp: last_le_def split: list.splits)
  then show ?thesis by (auto simp: filter_empty_conv not_le)
qed

lemma last_le_Some:
  assumes "sorted (map key xs)" and "last_le key xs addr = Some x"
  shows "x \<in> set xs \<and> key x \<le> addr \<and> (\<forall>y \<in> set xs. key y \<le> addr \<longrightarrow> key y \<le> key x)"
proof -
  let ?ys = "filter (\<lambda>x. key x \<le> addr) xs"
  have y: "?ys \<noteq> []" "x = last ?ys" using assms(2) by (auto simp: last_le_def split: list.splits)
  then have x: "x \<in> set ?ys" using last_in_set by blast
  have "sorted (map key ?ys)" using assms(1) by (rule sorted_filter)
  have "key y \<le> key x" if y': "y \<in> set ?ys" for y
  proof -
    obtain zs where zs: "?ys = zs @ [x]" using y by (metis append_butlast_last_id)
    show ?thesis using \<open>sorted (map key ?ys)\<close> y' unfolding zs by (auto simp: sorted_append)
  qed
  then show ?thesis using x by auto
qed

text \<open>
  The interface of a table that is looked up by address: \<open>table xs t\<close> says that \<open>t\<close>
  holds the entries \<open>xs\<close> in order, and the lookup is the search above on its reads.
\<close>

locale addr_table =
  fixes table :: "'a list \<Rightarrow> 't \<Rightarrow> bool" and key :: "'a \<Rightarrow> u64" and get :: "'t \<Rightarrow> int \<Rightarrow> 'a option"
    and lookup :: "'t \<Rightarrow> u64 \<Rightarrow> int option option"
  assumes table_sorted: "table xs t \<Longrightarrow> sorted (map key xs)"
    and table_reads: "table xs t \<Longrightarrow> reads (get t) xs"
    and table_lookup: "table xs t \<Longrightarrow> lookup t addr = search_le key (get t) (int (length xs)) addr"
begin

lemma lookup_nearest:
  assumes "table xs t"
  obtains (none) "lookup t addr = Some None" "\<forall>x \<in> set xs. addr < key x"
  | (found) i x where "lookup t addr = Some (Some i)" "get t i = Some x" "x \<in> set xs" "key x \<le> addr"
      "\<forall>y \<in> set xs. key y \<le> addr \<longrightarrow> key y \<le> key x"
proof -
  obtain r where r: "lookup t addr = Some r" "map_option (\<lambda>i. xs ! nat i) r = last_le key xs addr"
    "\<forall>i. r = Some i \<longrightarrow> 0 \<le> i \<and> i < int (length xs)"
    using search_le_correct [OF table_reads table_sorted] assms table_lookup [OF assms] by metis
  show ?thesis
  proof (cases r)
    case None
    then show ?thesis using r none last_le_None by (metis option.simps(8))
  next
    case (Some i)
    then have "get t i = Some (xs ! nat i)" using r reads_nat [OF table_reads [OF assms]] by simp
    moreover have "last_le key xs addr = Some (xs ! nat i)" using r Some by simp
    ultimately show ?thesis using found r(1) Some last_le_Some [OF table_sorted [OF assms]] by metis
  qed
qed

end

end
