(* ===== verification/Dns_Ctl.thy ===== *)
theory Dns_Ctl
  imports Dns_Reply C_Lib
begin

text \<open>
  The control program of the DNS cache (\<^verbatim>\<open>plugin/libbpf-test/okk/dnscache.c\<close>): it adds, removes and lists the
  records of the pinned map that the XDP program answers from.

  The conversions between dotted names and names with length octets, \<^verbatim>\<open>inet_aton\<close> and the map are not
  part of the file and are parameters.  A result \<open>None\<close> is a write outside the buffer of the name.
\<close>

section \<open>Operations\<close>

definition A_RECORD_TYPE :: u16 where "A_RECORD_TYPE = 1"
definition DNS_CLASS_IN :: u16 where "DNS_CLASS_IN = 1"
definition EXIT_FAILURE :: int where "EXIT_FAILURE = 1"

datatype ctl_line = Permission_denied | No_maps | Map_error int | Record_line string u32 int | Invalid_ip |
  Not_a_type string | Added | Removed | Not_found | Usage

record ctl_env =
  obj_fd :: int
  obj_errno :: int
  ce_inet_aton :: "string \<Rightarrow> u32 option"
  to_octets :: "string \<Rightarrow> bytes"
  to_dots :: "bytes \<Rightarrow> string"
  stack_key :: dns_query

definition get_map_fd :: "ctl_env \<Rightarrow> int \<times> ctl_line list" where
  "get_map_fd env =
     (let fd = obj_fd env
      in if fd < 0 then
           (fd, if obj_errno env = EACCES then [Permission_denied]
                else if obj_errno env = ENOENT then [No_maps]
                else [Map_error (obj_errno env)])
         else (fd, []))"

text \<open>The loop of \<^verbatim>\<open>list\<close>; the first key is an uninitialised variable.\<close>

partial_function (option) list_loop ::
    "ctl_env \<Rightarrow> ('m, dns_query, a_record) map_ops \<Rightarrow> 'm \<Rightarrow> dns_query \<Rightarrow> ctl_line list \<Rightarrow> ctl_line list option" where
  "list_loop env ops m key acc =
     (case op_next ops m key of
        None \<Rightarrow> Some acc
      | Some nk \<Rightarrow>
          (case op_lookup ops m nk of
             None \<Rightarrow> list_loop env ops m nk acc
           | Some v \<Rightarrow> list_loop env ops m nk (acc @ [Record_line (to_dots env (qname nk)) (ip_addr v) (sint (ttl v))])))"

definition ctl_key :: "ctl_env \<Rightarrow> string \<Rightarrow> dns_query option" where
  "ctl_key env name =
     (let w = to_octets env name
      in if MAX_DNS_NAME_LENGTH < length w then None
         else Some \<lparr>record_type = A_RECORD_TYPE, qclass = DNS_CLASS_IN, qname = w @ replicate (MAX_DNS_NAME_LENGTH - length w) 0\<rparr>)"

definition ctl_ttl :: "string list \<Rightarrow> u32" where
  "ctl_ttl argv = (if length argv = 5 then 0 else of_int (to_int (fst (strtol (argv ! 5)))))"

text \<open>The branch for \<^verbatim>\<open>add\<close> and \<^verbatim>\<open>remove\<close>, with five or six arguments; the last component tells that \<^verbatim>\<open>main\<close> returns at once.\<close>

definition ctl_modify ::
    "ctl_env \<Rightarrow> ('m, dns_query, a_record) map_ops \<Rightarrow> 'm \<Rightarrow> string list \<Rightarrow> (int \<times> ctl_line list \<times> 'm \<times> bool) option" where
  "ctl_modify env ops m argv =
     (if \<not> (strcmp (argv ! 2) ''a'' = 0 \<or> strcmp (argv ! 2) ''A'' = 0) then Some (EINVAL, [Not_a_type (argv ! 2)], m, True)
      else (case ce_inet_aton env (argv ! 4) of
          None \<Rightarrow> Some (EINVAL, [Invalid_ip], m, True)
        | Some addr \<Rightarrow> do {
            dns \<leftarrow> ctl_key env (argv ! 3);
            if strcmp (argv ! 1) ''add'' = 0 then
              Some (0, [Added], snd (op_update ops m dns \<lparr>ip_addr = addr, ttl = ctl_ttl argv\<rparr> BPF_ANY), False)
            else
              (case op_delete ops m dns of
                 (e, m) \<Rightarrow> if e = 0 then Some (0, [Removed], m, False) else Some (ENOENT, [Not_found], m, False))
          }))"

definition ctl_main ::
    "ctl_env \<Rightarrow> ('m, dns_query, a_record) map_ops \<Rightarrow> 'm \<Rightarrow> string list \<Rightarrow> (int \<times> ctl_line list \<times> 'm) option" where
  "ctl_main env ops m argv =
     (case get_map_fd env of
        (fd, errs) \<Rightarrow>
          if fd < 0 then Some (EXIT_FAILURE, errs, m)
          else do {
            (ret, lines, m, now) \<leftarrow>
              (if length argv = 2 then
                 (if strcmp (argv ! 1) ''list'' = 0
                  then map_option (\<lambda>ls. (0, ls, m, False)) (list_loop env ops m (stack_key env) [])
                  else Some (EINVAL, [], m, False))
               else if length argv = 5 \<or> length argv = 6 then
                 (if strcmp (argv ! 1) ''add'' = 0 \<or> strcmp (argv ! 1) ''remove'' = 0
                  then ctl_modify env ops m argv else Some (EINVAL, [], m, False))
               else Some (EINVAL, [], m, False));
            Some (ret, if ret \<noteq> 0 \<and> \<not> now then lines @ [Usage] else lines, m)
          })"

section \<open>Listing\<close>

lemma list_loop_suffix:
  assumes it: "bpf_iter ops keys" and "keys m = pre @ suf" and "if pre = [] then key \<notin> set (keys m) else key = last pre"
  shows "list_loop env ops m key acc =
    Some (acc @ map (\<lambda>k. Record_line (to_dots env (qname k)) (ip_addr (the (op_lookup ops m k))) (sint (ttl (the (op_lookup ops m k))))) suf)"
  using assms(2,3)
proof (induction suf arbitrary: pre key acc)
  case Nil
  then show ?case using bpf_iter.next_suffix [OF it Nil] by (subst list_loop.simps) simp
next
  case (Cons k suf)
  have nx: "op_next ops m key = Some k" using bpf_iter.next_suffix [OF it Cons.prems] by simp
  have "k \<in> dom (op_lookup ops m)" using Cons.prems bpf_iter.keys_dom [OF it, of m] by auto
  then obtain v where v: "op_lookup ops m k = Some v" by blast
  show ?case using Cons.IH [of "pre @ [k]" k] Cons.prems nx v by (subst list_loop.simps) simp
qed

lemma ctl_list:
  assumes "bpf_iter ops keys" and "0 \<le> obj_fd env" and "stack_key env \<notin> set (keys m)"
  shows "ctl_main env ops m [prog, ''list''] = Some (0,
    map (\<lambda>k. Record_line (to_dots env (qname k)) (ip_addr (the (op_lookup ops m k))) (sint (ttl (the (op_lookup ops m k))))) (keys m), m)"
  using list_loop_suffix [OF assms(1), of m "[]" "keys m" "stack_key env" env "[]"] assms(2,3)
  by (simp add: ctl_main_def get_map_fd_def)

section \<open>Properties\<close>

text \<open>
  A name is a list of labels.  On the wire each label follows its length octet and the root label, a zero, ends the
  name (RFC 1035, 3.1); the user writes the labels with dots between them.
\<close>

definition wire_name :: "string list \<Rightarrow> bytes" where
  "wire_name labels = concat (map (\<lambda>l. of_nat (length l) # map (\<lambda>c. of_nat (of_char c)) l) labels)"

fun dotted :: "string list \<Rightarrow> string" where
  "dotted [] = []"
| "dotted [l] = l"
| "dotted (l # ls) = l @ CHR ''.'' # dotted ls"

definition labels_ok :: "string list \<Rightarrow> bool" where
  "labels_ok labels \<longleftrightarrow> labels \<noteq> [] \<and> (\<forall>l \<in> set labels. l \<noteq> [] \<and> length l < 64 \<and> CHR ''.'' \<notin> set l \<and> CHR 0x00 \<notin> set l) \<and>
     length (wire_name labels) < 256"

text \<open>The key of the address record of a name, and the DNS packets with the question for it: type A, class IN.\<close>

definition a_query :: "string list \<Rightarrow> dns_query" where
  "a_query labels = \<lparr>record_type = 1, qclass = 1, qname = wire_name labels @ replicate (256 - length (wire_name labels)) 0\<rparr>"

definition asks_for :: "string list \<Rightarrow> bytes \<Rightarrow> bool" where
  "asks_for labels pkt \<longleftrightarrow> is_dns_query pkt \<and>
     take (length (wire_name labels) + 5) (drop 54 pkt) = wire_name labels @ [0, 0, 1, 0, 1]"

lemma wire_name_nonzero:
  assumes "labels_ok labels"
  shows "\<forall>b \<in> set (wire_name labels). b \<noteq> 0"
proof -
  have c: "(of_nat (of_char c) :: u8) \<noteq> 0" if "c \<noteq> CHR 0x00" for c
  proof
    assume "(of_nat (of_char c) :: u8) = 0"
    then have "(of_char c :: nat) mod 256 = 0" by (simp add: word_of_nat_eq_0_iff dvd_eq_mod_eq_0)
    then have "(of_char c :: nat) = of_char (CHR 0x00)" by (simp add: mod_less)
    then show False using that by (simp only: of_char_eq_iff)
  qed
  have l: "(of_nat n :: u8) \<noteq> 0" if "0 < n" "n < 64" for n
    using that by (simp add: word_of_nat_eq_0_iff dvd_eq_mod_eq_0)
  have "b \<noteq> 0" if "s \<in> set labels" and "b \<in> set (of_nat (length s) # map (\<lambda>c. of_nat (of_char c)) s)" for s and b :: u8
  proof -
    have s: "0 < length s" "length s < 64" "CHR 0x00 \<notin> set s" using that(1) assms by (auto simp: labels_ok_def)
    from that(2) consider "b = of_nat (length s)" | ch where "ch \<in> set s" "b = of_nat (of_char ch)" by auto
    then show ?thesis using c l [OF s(1,2)] s(3) by cases metis+
  qed
  then show ?thesis by (simp only: wire_name_def set_concat set_map) blast
qed

lemma asks_for_query:
  assumes "labels_ok labels" and "asks_for labels pkt"
  shows "query_spec pkt 54 = (int (length (wire_name labels) + 5), a_query labels)"
proof -
  let ?w = "wire_name labels"
  have q: "take (length ?w + 5) (drop 54 pkt) = ?w @ [0, 0, 1, 0, 1]" using assms(2) by (simp add: asks_for_def)
  define rest where "rest = drop (length ?w + 5) (drop 54 pkt)"
  have d: "drop 54 pkt = ?w @ [0, 0, 1, 0, 1] @ rest" using q append_take_drop_id [of "length ?w + 5" "drop 54 pkt"] by (simp add: rest_def)
  have len: "length ?w < 256" using assms(1) by (simp add: labels_ok_def)
  have l: "length pkt = 54 + (length ?w + 5 + length rest)" using arg_cong [OF d, of length] by simp
  have "take 256 (drop 54 pkt) = ?w @ 0 # take (255 - length ?w) ([0, 1, 0, 1] @ rest)"
    using len by (simp add: d take_Cons')
  then have nm: "query_name pkt 54 = ?w"
    using wire_name_nonzero [OF assms(1)] by (simp add: query_name_def MAX_DNS_NAME_LENGTH_def takeWhile_append)
  have at: "pkt ! (54 + length ?w + i) = ([0, 0, 1, 0, 1] @ rest) ! i" for i
    using arg_cong [OF d, of "\<lambda>xs. xs ! (length ?w + i)"] l by (simp add: nth_append add.assoc)
  have "pkt ! (54 + length ?w + 1) = 0" "pkt ! (54 + length ?w + 2) = 1" "pkt ! (54 + length ?w + 3) = 0" "pkt ! (54 + length ?w + 4) = 1"
    unfolding at by simp_all
  moreover have "be16 0 1 = 1" by (simp add: be16_def)
  ultimately show ?thesis
    using len l by (simp add: query_spec_def nm Let_def MAX_DNS_NAME_LENGTH_def a_query_def del: add_numeral_left)
qed

lemma ctl_key_name:
  assumes "labels_ok labels" and "to_octets env (dotted labels) = wire_name labels"
  shows "ctl_key env (dotted labels) = Some (a_query labels)"
  using assms by (simp add: ctl_key_def labels_ok_def a_query_def MAX_DNS_NAME_LENGTH_def A_RECORD_TYPE_def DNS_CLASS_IN_def Let_def)

text \<open>A converter as the control program expects it: the labels are what stands between the dots.\<close>

fun split_dots :: "string \<Rightarrow> string list" where
  "split_dots [] = [[]]"
| "split_dots (c # s) = (if c = CHR ''.'' then [] # split_dots s else (c # hd (split_dots s)) # tl (split_dots s))"

lemma split_dots_label: "CHR ''.'' \<notin> set l \<Longrightarrow> split_dots (l @ s) = (l @ hd (split_dots s)) # tl (split_dots s)"
proof (induction l)
  case Nil
  have "split_dots s \<noteq> []" by (cases s) simp_all
  then show ?case by simp
qed auto

lemma split_dots_dotted:
  "labels \<noteq> [] \<Longrightarrow> \<forall>l \<in> set labels. CHR ''.'' \<notin> set l \<Longrightarrow> split_dots (dotted labels) = labels"
proof (induction labels rule: dotted.induct)
  case (2 l)
  then show ?case using split_dots_label [of l "[]"] by simp
next
  case (3 l l' ls)
  then show ?case using split_dots_label [of l "CHR ''.'' # dotted (l' # ls)"] by simp
qed simp

text \<open>
  C38. What the control program adds, the XDP program answers.  After \<^verbatim>\<open>add A name ip ttl\<close>, for a name of labels
  of 1 to 63 characters, a time to live in decimal below \<open>2 ^ 31\<close>, a conversion of the name that gives its form on the
  wire, and a map that takes the entry, the program reports success; every query for the address of the
  name (its length-prefixed labels, type A, class IN) is answered with that address and time to live, and all other
  records stay as they were.
\<close>

theorem ctl_add_then_answer:
  assumes "bpf_hash ops" and "xdp_tail adjust_tail" and "0 \<le> obj_fd env" and "ce_inet_aton env ip = Some addr"
    and "labels_ok labels" and "to_octets env (dotted labels) = wire_name labels" and "asks_for labels pkt"
    and "secs < 2 ^ 31" and "a = \<lparr>ip_addr = addr, ttl = of_nat secs\<rparr>" and "n = length (wire_name labels) + 5"
    and "fst (op_update ops m (a_query labels) a BPF_ANY) = 0" and "16 \<le> length dns_buffer"
    and "fst (adjust_tail (mark_response pkt 42) (70 + int n - int (length pkt))) = 0"
  shows "\<exists>m' out buf. ctl_main env ops m [prog, ''add'', ''A'', dotted labels, ip, dec secs] = Some (0, [Added], m') \<and>
    xdp_dns ops adjust_tail m' dns_buffer pkt = Some (XDP_TX, out, buf) \<and> dns_reply pkt n a out \<and>
    (\<forall>k. k \<noteq> a_query labels \<longrightarrow> op_lookup ops m' k = op_lookup ops m k)"
proof -
  let ?q = "a_query labels"
  have q: "is_dns_query pkt" "query_spec pkt 54 = (int n, ?q)"
    using asks_for_query [OF assms(5,7)] assms(7,10) by (simp_all add: asks_for_def)
  obtain m' where u: "op_update ops m ?q a BPF_ANY = (0, m')" using assms(11) by (metis prod.collapse)
  have "bpf_map ops" using assms(1) by (simp add: bpf_hash_def)
  then have l: "op_lookup ops m' = (op_lookup ops m)(?q \<mapsto> a)" using bpf_map.update_ok u by metis
  have "fst (strtol (dec secs)) = int secs" using strtol_dec [of secs "[]"] assms(8) by simp
  then have "ctl_ttl [prog, ''add'', ''A'', dotted labels, ip, dec secs] = of_nat secs"
    using assms(8) by (simp add: ctl_ttl_def to_int_def)
  then have "ctl_main env ops m [prog, ''add'', ''A'', dotted labels, ip, dec secs] = Some (0, [Added], m')"
    using assms(3,4,9) ctl_key_name [OF assms(5,6)] u by (simp add: ctl_main_def get_map_fd_def ctl_modify_def)
  moreover have "\<exists>out. xdp_dns ops adjust_tail m' dns_buffer pkt = Some (XDP_TX, out, response_bytes a @ drop 16 dns_buffer) \<and>
      dns_reply pkt n a out"
    by (rule xdp_dns_hit [OF assms(2,12) q _ assms(13)]) (simp add: l)
  ultimately show ?thesis using l by auto
qed

definition demo_labels :: "string list" where
  "demo_labels = [''www'', ''lno'']"

definition demo_ctl :: ctl_env where
  "demo_ctl = \<lparr>obj_fd = 3, obj_errno = 0, ce_inet_aton = (\<lambda>_. Some 0x0100007f), to_octets = wire_name \<circ> split_dots,
     to_dots = (\<lambda>_. ''www.lno''), stack_key = \<lparr>record_type = 0, qclass = 0, qname = []\<rparr>\<rparr>"

lemma demo_facts:
  "labels_ok demo_labels" "to_octets demo_ctl (dotted demo_labels) = wire_name demo_labels" "asks_for demo_labels sample_query"
  "dotted demo_labels = ''www.lno''" "length (wire_name demo_labels) = 8" "sample_map = [(a_query demo_labels, \<lparr>ip_addr = 0x0100007f, ttl = 60\<rparr>)]"
proof -
  have w: "wire_name demo_labels = [3, 119, 119, 119, 3, 108, 110, 111]" by (simp add: wire_name_def demo_labels_def)
  then show ok: "labels_ok demo_labels" by (simp add: labels_ok_def) (simp add: demo_labels_def)
  then show "to_octets demo_ctl (dotted demo_labels) = wire_name demo_labels"
    by (simp add: demo_ctl_def labels_ok_def split_dots_dotted)
  show a: "asks_for demo_labels sample_query" using sample_facts(1) by (simp add: asks_for_def w) (simp add: sample_query_def)
  show "dotted demo_labels = ''www.lno''" "length (wire_name demo_labels) = 8" by (simp_all add: w) (simp add: demo_labels_def)
  show "sample_map = [(a_query demo_labels, \<lparr>ip_addr = 0x0100007f, ttl = 60\<rparr>)]"
    by (simp add: sample_map_def asks_for_query [OF ok a])
qed

theorem ctl_add_then_answer_witness:
  "\<exists>m' out buf. ctl_main demo_ctl (hash_ops 65536) [] [''dnscache'', ''add'', ''A'', ''www.lno'', ''127.0.0.1'', dec 60] = Some (0, [Added], m') \<and>
    xdp_dns (hash_ops 65536) (tail_ref 1500) m' (replicate 512 0) sample_query = Some (XDP_TX, out, buf) \<and>
    dns_reply sample_query 13 \<lparr>ip_addr = 0x0100007f, ttl = 60\<rparr> out"
  using ctl_add_then_answer [OF hash_ref.bpf_hash_axioms tail_ref.xdp_tail_axioms _ _ demo_facts(1-3) _ refl refl,
      of "''127.0.0.1''" "0x0100007f" 60 65536 "[]" "replicate 512 0" 1500 "''dnscache''"] sample_facts(3)
  by (fastforce simp: demo_facts(4,5) demo_ctl_def hash_ops_defs mark_length tail_ref_def)

text \<open>
  C39. What the control program removes is no longer answered.  For a name and a conversion as for adding,
  \<^verbatim>\<open>remove A name ip\<close> returns 0 when the record of the name was in the map and ENOENT, with the usage text, when it was
  not; afterwards the map has no record of the name, all other records are as before, and a query for the
  address of the name is passed to the stack unchanged.
\<close>

theorem ctl_remove_then_pass:
  assumes "bpf_hash ops" and "0 \<le> obj_fd env" and "ce_inet_aton env ip = Some addr"
    and "labels_ok labels" and "to_octets env (dotted labels) = wire_name labels" and "asks_for labels pkt" and "16 \<le> length dns_buffer"
  shows "\<exists>m'. ctl_main env ops m [prog, ''remove'', ''A'', dotted labels, ip] =
      Some (if op_lookup ops m (a_query labels) \<noteq> None then (0, [Removed], m') else (ENOENT, [Not_found, Usage], m')) \<and>
    op_lookup ops m' = (op_lookup ops m)(a_query labels := None) \<and>
    xdp_dns ops adjust_tail m' dns_buffer pkt = Some (XDP_PASS, pkt, dns_buffer)"
proof -
  let ?q = "a_query labels"
  have q: "is_dns_query pkt" "query_spec pkt 54 = (int (length (wire_name labels) + 5), ?q)"
    using asks_for_query [OF assms(4,6)] assms(6) by (simp_all add: asks_for_def)
  obtain e m' where d: "op_delete ops m ?q = (e, m')" by fastforce
  have main: "ctl_main env ops m [prog, ''remove'', ''A'', dotted labels, ip] =
      Some (if e = 0 then (0, [Removed], m') else (ENOENT, [Not_found, Usage], m'))"
    using assms(2,3) ctl_key_name [OF assms(4,5)] d by (simp add: ctl_main_def get_map_fd_def ctl_modify_def ENOENT_def)
  have l: "op_lookup ops m' = (op_lookup ops m)(?q := None) \<and> (e = 0 \<longleftrightarrow> op_lookup ops m ?q \<noteq> None)"
  proof (cases "op_lookup ops m ?q")
    case None
    then show ?thesis using bpf_hash.delete_fail [OF assms(1) None d] by (auto simp: ENOENT_def fun_upd_idem)
  next
    case (Some v)
    then show ?thesis using bpf_hash.delete_ok [OF assms(1) _ d] by simp
  qed
  have "54 \<le> length pkt" using q(1) by (simp add: is_dns_query_def)
  then have p: "xdp_dns ops adjust_tail m' dns_buffer pkt = Some (XDP_PASS, pkt, dns_buffer)"
    using q l assms(7) by (simp add: xdp_dns_gate answer_query_eq answer_spec_def)
  show ?thesis using main l p by (intro exI [of _ m']) simp
qed

theorem ctl_remove_then_pass_witness:
  "\<exists>m'. ctl_main demo_ctl (hash_ops 65536) sample_map [''dnscache'', ''remove'', ''A'', ''www.lno'', ''127.0.0.1''] = Some (0, [Removed], m') \<and>
    xdp_dns (hash_ops 65536) (tail_ref 1500) m' (replicate 512 0) sample_query = Some (XDP_PASS, sample_query, replicate 512 0)"
  using ctl_remove_then_pass [OF hash_ref.bpf_hash_axioms _ _ demo_facts(1-3), of "''127.0.0.1''" "0x0100007f" "replicate 512 0" 65536 sample_map
      "''dnscache''" "tail_ref 1500"]
  by (auto simp: demo_facts(4,6) demo_ctl_def hash_ops_def)

end
