(* ===== verification/Ksyms.thy ===== *)
theory Ksyms
  imports C_Lib
begin

text \<open>
  The kernel symbol table of \<^verbatim>\<open>plugin/libbpf-test/trace_helpers.c\<close>: a growing array
  of symbols and a growing block of their names, filled from \<^verbatim>\<open>/proc/kallsyms\<close>,
  sorted once and searched by address or by name.

  While the table is filled a symbol's name is an offset into \<open>strs\<close>; once the block
  no longer moves the offsets become pointers, here the strings they point to.  The
  file is the list of results of \<^verbatim>\<open>fscanf\<close> (return value, address, name) up to end of
  file, and \<open>alloc\<close> says for each iteration whether the two \<^verbatim>\<open>realloc\<close> calls succeed.
\<close>

section \<open>Data\<close>

record 'n ksym =
  ksym_name :: 'n
  ksym_addr :: u64

record 'n ksyms =
  k_syms :: "'n ksym block"
  k_syms_sz :: int
  k_syms_cap :: int
  k_strs :: "char block"
  k_strs_sz :: int
  k_strs_cap :: int

section \<open>Operations\<close>

text \<open>The two growth steps of \<^verbatim>\<open>ksyms__add_symbol\<close>; \<open>Some None\<close> is a failed \<^verbatim>\<open>realloc\<close>.\<close>

definition grow_strs :: "bool \<Rightarrow> int \<Rightarrow> nat ksyms \<Rightarrow> nat ksyms option option" where
  "grow_strs ok name_len ks =
     (if size_t (k_strs_sz ks + name_len) > size_t (k_strs_cap ks) then do {
        c4 \<leftarrow> c_int (k_strs_cap ks * 4);
        let new_cap = size_t (c4 div 3);
        let new_cap = (if new_cap < size_t (k_strs_sz ks + name_len)
                       then size_t (k_strs_sz ks + name_len) else new_cap);
        let new_cap = (if new_cap < 1024 then 1024 else new_cap);
        Some (map_option (\<lambda>tmp. ks\<lparr>k_strs := tmp, k_strs_cap := to_int new_cap\<rparr>)
                (realloc ok (k_strs ks) (nat new_cap)))
      } else Some (Some ks))"

definition grow_syms :: "bool \<Rightarrow> nat ksyms \<Rightarrow> nat ksyms option option" where
  "grow_syms ok ks =
     map_option (map_option (\<lambda>(tmp, new_cap). ks\<lparr>k_syms := tmp, k_syms_cap := new_cap\<rparr>))
       (vec_reserve ok (k_syms ks) (k_syms_sz ks) (k_syms_cap ks))"

definition ksyms__add_symbol :: "bool \<times> bool \<Rightarrow> nat ksyms \<Rightarrow> string \<Rightarrow> u64 \<Rightarrow> (int \<times> nat ksyms) option" where
  "ksyms__add_symbol ok ks name addr = do {
     let name_len = size_t (int (length name) + 1);
     g \<leftarrow> grow_strs (fst ok) name_len ks;
     case g of None \<Rightarrow> Some (- 1, ks) | Some ks \<Rightarrow> do {
       g \<leftarrow> grow_syms (snd ok) ks;
       case g of None \<Rightarrow> Some (- 1, ks) | Some ks \<Rightarrow> do {
         syms \<leftarrow> block_put (k_syms ks) (k_syms_sz ks)
           \<lparr>ksym_name = nat (k_strs_sz ks), ksym_addr = addr\<rparr>;
         strs \<leftarrow> block_write (k_strs ks) (k_strs_sz ks) (name @ [NUL]);
         syms_sz \<leftarrow> c_int (k_syms_sz ks + 1);
         Some (0, ks\<lparr>k_syms := syms, k_strs := strs,
           k_strs_sz := to_int (size_t (k_strs_sz ks + name_len)), k_syms_sz := syms_sz\<rparr>)
       }
     }
   }"

definition ksym_cmp :: "string ksym \<Rightarrow> string ksym \<Rightarrow> int" where
  "ksym_cmp s1 s2 =
     (if ksym_addr s1 = ksym_addr s2 then strcmp (ksym_name s1) (ksym_name s2)
      else if ksym_addr s1 < ksym_addr s2 then - 1 else 1)"

text \<open>
  The reading loop of \<^verbatim>\<open>ksyms__load\<close>: \<open>Some None\<close> is \<^verbatim>\<open>goto err_out\<close>.  \<^verbatim>\<open>sym_name\<close> has 256
  bytes and \<^verbatim>\<open>%s\<close> has no width, so a longer name is written outside it.
\<close>

fun ksyms__load_loop :: "(nat \<Rightarrow> bool \<times> bool) \<Rightarrow> nat \<Rightarrow> (int \<times> u64 \<times> string) list \<Rightarrow> nat ksyms \<Rightarrow> nat ksyms option option" where
  "ksyms__load_loop alloc i [] ks = Some (Some ks)"
| "ksyms__load_loop alloc i ((ret, sym_addr, sym_name) # f) ks =
     (if ret \<noteq> 3 then Some None
      else if 256 \<le> length sym_name then None
      else do {
        (err, ks) \<leftarrow> ksyms__add_symbol (alloc i) ks sym_name sym_addr;
        if err \<noteq> 0 then Some None else ksyms__load_loop alloc (i + 1) f ks
      })"

text \<open>The loop that turns offsets into pointers, over the symbols from \<open>i\<close> on.\<close>

fun adjust_names :: "nat ksyms \<Rightarrow> nat \<Rightarrow> nat \<Rightarrow> string ksym list option" where
  "adjust_names ks i 0 = Some []"
| "adjust_names ks i (Suc n) = do {
     s \<leftarrow> block_get (k_syms ks) (int i);
     name \<leftarrow> cstr (k_strs ks) (ksym_name s);
     rest \<leftarrow> adjust_names ks (i + 1) n;
     Some (\<lparr>ksym_name = name, ksym_addr = ksym_addr s\<rparr> # rest)
   }"

definition ksyms__load :: "bool \<Rightarrow> bool \<Rightarrow> (nat \<Rightarrow> bool \<times> bool) \<Rightarrow> (int \<times> u64 \<times> string) list \<Rightarrow> string ksyms option option" where
  "ksyms__load fopen_ok calloc_ok alloc f =
     (if \<not> fopen_ok \<or> \<not> calloc_ok then Some None
      else do {
        r \<leftarrow> ksyms__load_loop alloc 0 f
          \<lparr>k_syms = [], k_syms_sz = 0, k_syms_cap = 0, k_strs = [], k_strs_sz = 0, k_strs_cap = 0\<rparr>;
        case r of None \<Rightarrow> Some None | Some ks \<Rightarrow> do {
          syms \<leftarrow> adjust_names ks 0 (nat (k_syms_sz ks));
          Some (Some \<lparr>k_syms = map Some (qsort ksym_cmp syms) @
              replicate (length (k_syms ks) - length syms) None,
            k_syms_sz = k_syms_sz ks, k_syms_cap = k_syms_cap ks,
            k_strs = k_strs ks, k_strs_sz = k_strs_sz ks, k_strs_cap = k_strs_cap ks\<rparr>)
        }
      })"

definition ksyms__map_addr :: "string ksyms \<Rightarrow> u64 \<Rightarrow> int option option" where
  "ksyms__map_addr ks addr = search_le ksym_addr (block_get (k_syms ks)) (k_syms_sz ks) addr"

fun get_symbol_loop :: "string ksyms \<Rightarrow> string \<Rightarrow> nat \<Rightarrow> nat \<Rightarrow> int option option" where
  "get_symbol_loop ks name i 0 = Some None"
| "get_symbol_loop ks name i (Suc n) = do {
     s \<leftarrow> block_get (k_syms ks) (int i);
     if strcmp (ksym_name s) name = 0 then Some (Some (int i)) else get_symbol_loop ks name (i + 1) n
   }"

definition ksyms__get_symbol :: "string ksyms \<Rightarrow> string \<Rightarrow> int option option" where
  "ksyms__get_symbol ks name = get_symbol_loop ks name 0 (nat (k_syms_sz ks))"

section \<open>The table while it is filled\<close>

text \<open>
  \<open>filling xs ks\<close>: the table holds the symbols \<open>xs\<close> in this order, their names one
  after the other in \<open>strs\<close>, sizes and capacities are those of the blocks.
\<close>

definition name_bytes :: "(string \<times> u64) list \<Rightarrow> string" where
  "name_bytes xs = concat (map (\<lambda>(n, a). n @ [NUL]) xs)"

fun offsets :: "nat \<Rightarrow> (string \<times> u64) list \<Rightarrow> nat ksym list" where
  "offsets p [] = []"
| "offsets p ((n, a) # xs) = \<lparr>ksym_name = p, ksym_addr = a\<rparr> # offsets (p + length n + 1) xs"

definition filling :: "(string \<times> u64) list \<Rightarrow> nat ksyms \<Rightarrow> bool" where
  "filling xs ks \<longleftrightarrow>
     k_syms_sz ks = int (length xs) \<and> k_strs_sz ks = int (length (name_bytes xs)) \<and>
     k_syms_cap ks = int (length (k_syms ks)) \<and> k_strs_cap ks = int (length (k_strs ks)) \<and>
     k_syms_cap ks < 2 ^ 31 \<and> k_strs_cap ks < 2 ^ 31 \<and>
     holds (k_strs ks) (name_bytes xs) \<and> holds (k_syms ks) (offsets 0 xs)"

lemma length_offsets [simp]: "length (offsets p xs) = length xs"
  by (induction xs arbitrary: p) auto

lemma name_bytes_snoc [simp]: "name_bytes (xs @ [(n, a)]) = name_bytes xs @ n @ [NUL]"
  by (simp add: name_bytes_def)

lemma name_bytes_Cons [simp]: "name_bytes ((n, a) # xs) = n @ NUL # name_bytes xs"
  by (simp add: name_bytes_def)

lemma name_bytes_Nil [simp]: "name_bytes [] = []"
  by (simp add: name_bytes_def)

lemma offsets_snoc:
  "offsets p (xs @ [(n, a)]) = offsets p xs @ [\<lparr>ksym_name = p + length (name_bytes xs), ksym_addr = a\<rparr>]"
  by (induction xs arbitrary: p) auto

lemma offsets_nth:
  "offsets p (xs @ (n, a) # ys) ! length xs = \<lparr>ksym_name = p + length (name_bytes xs), ksym_addr = a\<rparr>"
  by (induction xs arbitrary: p) auto

lemma filling_empty: "filling [] \<lparr>k_syms = [], k_syms_sz = 0, k_syms_cap = 0,
    k_strs = [], k_strs_sz = 0, k_strs_cap = 0\<rparr>"
  by (simp add: filling_def)

lemma fillingD:
  assumes "filling xs ks"
  shows "0 \<le> k_strs_sz ks" "k_strs_sz ks \<le> k_strs_cap ks" "k_strs_cap ks < 2 ^ 31"
    "0 \<le> k_syms_sz ks" "k_syms_sz ks \<le> k_syms_cap ks" "k_syms_cap ks < 2 ^ 31"
  using assms by (auto simp: filling_def holds_def)

lemma max_cap:
  "(if (if a < b then b else a) < 1024 then 1024 else if a < b then b else a) = max 1024 (max a (b::int))"
  by auto

lemma grow_strs_ok:
  assumes f: "filling xs ks" and n: "0 \<le> n" "k_strs_sz ks + n \<le> 2 ^ 29"
  shows "\<exists>r. grow_strs ok n ks = Some r \<and> (r = None \<longrightarrow> \<not> ok) \<and>
    (\<forall>ks'. r = Some ks' \<longrightarrow> filling xs ks' \<and> k_strs_sz ks + n \<le> k_strs_cap ks' \<and>
       k_syms_sz ks' = k_syms_sz ks \<and> k_strs_sz ks' = k_strs_sz ks)"
proof -
  let ?need = "k_strs_sz ks + n" and ?cap = "k_strs_cap ks"
  note 0 = fillingD [OF f]
  have s: "size_t ?need = ?need" "size_t ?cap = ?cap" using 0 n by (simp_all add: c_simps)
  show ?thesis
  proof (cases "?need > ?cap")
    case grow: True
    define c where "c = max 1024 (max (?cap * 4 div 3) ?need)"
    have c: "?need \<le> c" "1024 \<le> c" "c < 2 ^ 31" "?cap * 4 div 3 < 2 ^ 31" "0 \<le> ?cap * 4 div 3"
      using grow 0 n by (auto simp: c_def)
    have step: "c_int (?cap * 4) = Some (?cap * 4)" "size_t (?cap * 4 div 3) = ?cap * 4 div 3" "to_int c = c"
      using grow 0 n c by (simp_all add: c_simps)
    have g: "grow_strs ok n ks = Some (map_option (\<lambda>tmp. ks\<lparr>k_strs := tmp, k_strs_cap := c\<rparr>)
        (realloc ok (k_strs ks) (nat c)))"
      using grow by (simp add: grow_strs_def s step Let_def max_cap c_def [symmetric] split del: if_split cong: if_cong)
    have "filling xs (ks\<lparr>k_strs := b, k_strs_cap := c\<rparr>)" if b: "realloc ok (k_strs ks) (nat c) = Some b" for b
    proof -
      have "length (name_bytes xs) \<le> nat c" using f c n by (simp add: filling_def)
      with holds_realloc [OF _ this b] f c show ?thesis by (simp add: filling_def)
    qed
    then show ?thesis using g c by (auto simp: realloc_def)
  next
    case False
    then show ?thesis using f s by (simp add: grow_strs_def)
  qed
qed

lemma grow_syms_ok:
  assumes f: "filling xs ks" and n: "k_syms_sz ks + 1 \<le> 2 ^ 29"
  shows "\<exists>r. grow_syms ok ks = Some r \<and> (r = None \<longrightarrow> \<not> ok) \<and>
    (\<forall>ks'. r = Some ks' \<longrightarrow> filling xs ks' \<and> k_syms_sz ks < k_syms_cap ks' \<and>
       k_syms_sz ks' = k_syms_sz ks \<and> k_strs_sz ks' = k_strs_sz ks \<and> k_strs_cap ks' = k_strs_cap ks)"
proof -
  obtain r where "vec_reserve ok (k_syms ks) (k_syms_sz ks) (k_syms_cap ks) = Some r" "r = None \<longrightarrow> \<not> ok"
    "\<forall>b' cap'. r = Some (b', cap') \<longrightarrow> holds b' (offsets 0 xs) \<and> cap' = int (length b') \<and> k_syms_sz ks < cap' \<and> cap' < 2 ^ 31"
    using vec_reserve_ok [of "k_syms ks" "offsets 0 xs" "k_syms_sz ks" "k_syms_cap ks" ok] f n
    by (auto simp: filling_def)
  then show ?thesis using f by (cases r) (auto simp: grow_syms_def filling_def)
qed

lemma add_symbol_ok:
  assumes f: "filling xs ks" and n: "int (length (name_bytes xs)) + int (length name) + 1 \<le> 2 ^ 29"
    and m: "int (length xs) + 1 \<le> 2 ^ 29"
  shows "\<exists>err ks'. ksyms__add_symbol ok ks name addr = Some (err, ks') \<and> (ok = (True, True) \<longrightarrow> err = 0) \<and>
    (err = 0 \<longrightarrow> filling (xs @ [(name, addr)]) ks')"
proof -
  have sz: "k_strs_sz ks = int (length (name_bytes xs))" "k_syms_sz ks = int (length xs)"
    using f by (simp_all add: filling_def)
  have nl: "size_t (int (length name) + 1) = int (length name) + 1" using n by (simp add: c_simps)
  obtain r1 where r1: "grow_strs (fst ok) (int (length name) + 1) ks = Some r1" "r1 = None \<longrightarrow> \<not> fst ok"
    "\<forall>ks'. r1 = Some ks' \<longrightarrow> filling xs ks' \<and> int (length (name_bytes xs)) + int (length name) + 1 \<le> k_strs_cap ks'
       \<and> k_syms_sz ks' = int (length xs)"
    using grow_strs_ok [OF f, of "int (length name) + 1" "fst ok"] n sz by (auto simp: add.assoc)
  show ?thesis
  proof (cases r1)
    case None
    then show ?thesis using r1 nl by (auto simp: ksyms__add_symbol_def)
  next
    case (Some k1)
    with r1 have k1: "filling xs k1" "int (length (name_bytes xs)) + int (length name) + 1 \<le> k_strs_cap k1"
      by auto
    obtain r2 where r2: "grow_syms (snd ok) k1 = Some r2" "r2 = None \<longrightarrow> \<not> snd ok"
      "\<forall>ks'. r2 = Some ks' \<longrightarrow> filling xs ks' \<and> int (length xs) < k_syms_cap ks' \<and> k_strs_cap ks' = k_strs_cap k1"
      using grow_syms_ok [OF k1(1), of "snd ok"] m k1(1) by (auto simp: filling_def)
    show ?thesis
    proof (cases r2)
      case None
      then show ?thesis using r1 r2 nl Some by (auto simp: ksyms__add_symbol_def)
    next
      case S2: (Some k2)
      with r2 k1 have k2: "filling xs k2" "int (length xs) < k_syms_cap k2"
        "int (length (name_bytes xs)) + int (length name) + 1 \<le> k_strs_cap k2" by auto
      then have h: "holds (k_syms k2) (offsets 0 xs)" "holds (k_strs k2) (name_bytes xs)"
        "k_syms_sz k2 = int (length xs)" "k_strs_sz k2 = int (length (name_bytes xs))"
        "k_syms_cap k2 = int (length (k_syms k2))" "k_strs_cap k2 = int (length (k_strs k2))"
        "k_syms_cap k2 < 2 ^ 31" "k_strs_cap k2 < 2 ^ 31"
        by (simp_all add: filling_def)
      obtain sb where sb: "block_put (k_syms k2) (int (length xs))
          \<lparr>ksym_name = length (name_bytes xs), ksym_addr = addr\<rparr> = Some sb"
        "holds sb (offsets 0 (xs @ [(name, addr)]))" "length sb = length (k_syms k2)"
        using holds_put [OF h(1), of "\<lparr>ksym_name = length (name_bytes xs), ksym_addr = addr\<rparr>"] k2(2) h
        by (auto simp: offsets_snoc)
      obtain tb where tb: "block_write (k_strs k2) (int (length (name_bytes xs))) (name @ [NUL]) = Some tb"
        "holds tb (name_bytes xs @ name @ [NUL])" "length tb = length (k_strs k2)"
        using holds_write [OF h(2), of "name @ [NUL]"] k2(3) h by (auto simp: add.assoc)
      show ?thesis
        using r1 r2 Some S2 nl sb tb h n m
        by (simp add: ksyms__add_symbol_def filling_def c_simps algebra_simps)
    qed
  qed
qed

section \<open>Loading\<close>

definition file_ok :: "(int \<times> u64 \<times> string) list \<Rightarrow> bool" where
  "file_ok f \<longleftrightarrow> (\<forall>e \<in> set f. is_cstr (snd (snd e)) \<and> length (snd (snd e)) < 256) \<and> length f \<le> 2 ^ 21"

definition file_syms :: "(int \<times> u64 \<times> string) list \<Rightarrow> (string \<times> u64) list" where
  "file_syms f = map (\<lambda>e. (snd (snd e), fst (snd e))) f"

lemma length_name_bytes:
  "\<forall>x \<in> set xs. length (fst x) < 256 \<Longrightarrow> length (name_bytes xs) \<le> 256 * length xs"
proof (induction xs)
  case (Cons x xs)
  obtain n a where [simp]: "x = (n, a)" by fastforce
  have "length n < 256" using Cons.prems by auto
  moreover have "length (name_bytes xs) \<le> 256 * length xs" using Cons by auto
  ultimately show ?case by simp
qed simp

lemma load_loop_ok:
  assumes "filling xs ks" and "\<forall>x \<in> set xs. length (fst x) < 256" and "\<forall>e \<in> set f. length (snd (snd e)) < 256"
    and "length xs + length f \<le> 2 ^ 21"
  shows "\<exists>r. ksyms__load_loop alloc i f ks = Some r \<and>
    (\<forall>ks'. r = Some ks' \<longrightarrow> filling (xs @ file_syms f) ks' \<and> (\<forall>e \<in> set f. fst e = 3)) \<and>
    (r = None \<longrightarrow> (\<exists>j. alloc j \<noteq> (True, True)) \<or> (\<exists>e \<in> set f. fst e \<noteq> 3))"
  using assms
proof (induction f arbitrary: xs ks i)
  case Nil
  then show ?case by (simp add: file_syms_def)
next
  case (Cons e f)
  obtain ret a n where e: "e = (ret, a, n)" using prod_cases3 by blast
  have l: "length (name_bytes xs) \<le> 256 * length xs" by (rule length_name_bytes) fact
  have n: "length n < 256" using Cons.prems(3) e by auto
  obtain err ks' where s: "ksyms__add_symbol (alloc i) ks n a = Some (err, ks')"
    "alloc i = (True, True) \<longrightarrow> err = 0" "err = 0 \<longrightarrow> filling (xs @ [(n, a)]) ks'"
    using add_symbol_ok [OF Cons.prems(1), of n "alloc i" a] l n Cons.prems(4) by auto
  show ?case
  proof (cases "ret = 3 \<and> err = 0")
    case True
    then have "filling (xs @ [(n, a)]) ks'" using s by simp
    from Cons.IH [OF this, of "i + 1"] Cons.prems(2-) n e
    obtain r where r: "ksyms__load_loop alloc (i + 1) f ks' = Some r"
      "\<forall>k. r = Some k \<longrightarrow> filling ((xs @ [(n, a)]) @ file_syms f) k \<and> (\<forall>e \<in> set f. fst e = 3)"
      "r = None \<longrightarrow> (\<exists>j. alloc j \<noteq> (True, True)) \<or> (\<exists>e \<in> set f. fst e \<noteq> 3)"
      by auto
    show ?thesis using r True s n by (auto simp: e file_syms_def)
  next
    case False
    then show ?thesis using s n e by auto
  qed
qed

lemma adjust_names_ok:
  assumes "holds (k_strs ks) (name_bytes (xs @ ys))" and "holds (k_syms ks) (offsets 0 (xs @ ys))"
    and "\<forall>y \<in> set ys. is_cstr (fst y)"
  shows "adjust_names ks (length xs) (length ys) = Some (map (\<lambda>(n, a). \<lparr>ksym_name = n, ksym_addr = a\<rparr>) ys)"
  using assms
proof (induction ys arbitrary: xs)
  case (Cons y ys)
  obtain n a where y: "y = (n, a)" by fastforce
  have nb: "name_bytes (xs @ y # ys) = name_bytes xs @ n @ NUL # name_bytes ys"
    by (simp add: name_bytes_def y)
  have c: "cstr (k_strs ks) (length (name_bytes xs)) = Some n"
    by (rule cstr_holds) (use Cons.prems nb y in auto)
  have "offsets 0 (xs @ y # ys) ! length xs = \<lparr>ksym_name = length (name_bytes xs), ksym_addr = a\<rparr>"
    using offsets_nth by (simp add: y)
  then have "block_get (k_syms ks) (int (length xs)) = Some \<lparr>ksym_name = length (name_bytes xs), ksym_addr = a\<rparr>"
    using holds_get [OF Cons.prems(2), of "length xs"] by simp
  moreover have "adjust_names ks (Suc (length xs)) (length ys) =
      Some (map (\<lambda>(n, a). \<lparr>ksym_name = n, ksym_addr = a\<rparr>) ys)"
    using Cons.IH [of "xs @ [y]"] Cons.prems by auto
  ultimately show ?case using c by (simp add: y)
qed simp

text \<open>The comparison function is a total order without ties.\<close>

lemma ksym_cmp_le: "ksym_cmp s t \<le> 0 \<longleftrightarrow>
    ksym_addr s < ksym_addr t \<or> ksym_addr s = ksym_addr t \<and> ksym_name s \<le> ksym_name t"
  by (auto simp: ksym_cmp_def strcmp_le)

interpretation ksym_order: cmp_strict ksym_cmp
  by unfold_locales (auto simp: ksym_cmp_le intro: ksym.equality)

lemma ksym_sorted_addr: "sorted_wrt (\<lambda>x y. ksym_cmp x y \<le> 0) xs \<Longrightarrow> sorted (map ksym_addr xs)"
  by (auto simp: sorted_wrt_map ksym_cmp_le elim!: sorted_wrt_mono_rel [rotated])

text \<open>A finished table: \<open>table xs ks\<close> when its entries are \<open>xs\<close>, in order.\<close>

definition ksyms_table :: "string ksym list \<Rightarrow> string ksyms \<Rightarrow> bool" where
  "ksyms_table xs ks \<longleftrightarrow> k_syms_sz ks = int (length xs) \<and> holds (k_syms ks) xs \<and>
     sorted_wrt (\<lambda>x y. ksym_cmp x y \<le> 0) xs"

definition file_entries :: "(int \<times> u64 \<times> string) list \<Rightarrow> string ksym list" where
  "file_entries f = map (\<lambda>e. \<lparr>ksym_name = snd (snd e), ksym_addr = fst (snd e)\<rparr>) f"

lemma ksyms__load_cases:
  assumes "file_ok f"
  shows "\<exists>r. ksyms__load fopen_ok calloc_ok alloc f = Some r \<and>
    (\<forall>ks. r = Some ks \<longrightarrow> (\<forall>e \<in> set f. fst e = 3) \<and> ksyms_table (qsort ksym_cmp (file_entries f)) ks) \<and>
    (r = None \<longrightarrow> \<not> fopen_ok \<or> \<not> calloc_ok \<or> (\<exists>j. alloc j \<noteq> (True, True)) \<or> (\<exists>e \<in> set f. fst e \<noteq> 3))"
proof (cases "fopen_ok \<and> calloc_ok")
  case False
  then show ?thesis by (auto simp: ksyms__load_def)
next
  case True
  obtain r where r: "ksyms__load_loop alloc 0 f \<lparr>k_syms = [], k_syms_sz = 0, k_syms_cap = 0,
        k_strs = [], k_strs_sz = 0, k_strs_cap = 0\<rparr> = Some r"
    "\<forall>ks'. r = Some ks' \<longrightarrow> filling (file_syms f) ks' \<and> (\<forall>e \<in> set f. fst e = 3)"
    "r = None \<longrightarrow> (\<exists>j. alloc j \<noteq> (True, True)) \<or> (\<exists>e \<in> set f. fst e \<noteq> 3)"
    using load_loop_ok [OF filling_empty, of f alloc 0] assms by (auto simp: file_ok_def)
  show ?thesis
  proof (cases r)
    case None
    then show ?thesis using r True by (simp add: ksyms__load_def)
  next
    case (Some ks)
    with r have f: "filling (file_syms f) ks" "\<forall>e \<in> set f. fst e = 3" by auto
    have e: "map (\<lambda>(n, a). \<lparr>ksym_name = n, ksym_addr = a\<rparr>) (file_syms f) = file_entries f"
      by (simp add: file_syms_def file_entries_def)
    have "\<forall>y \<in> set (file_syms f). is_cstr (fst y)"
      using assms by (auto simp: file_ok_def file_syms_def)
    then have "adjust_names ks 0 (length (file_syms f)) = Some (file_entries f)"
      using adjust_names_ok [of ks "[]" "file_syms f"] f(1) by (simp add: filling_def e)
    then have "ksyms__load fopen_ok calloc_ok alloc f = Some (Some
        \<lparr>k_syms = map Some (qsort ksym_cmp (file_entries f)) @
              replicate (length (k_syms ks) - length (file_entries f)) None,
            k_syms_sz = k_syms_sz ks, k_syms_cap = k_syms_cap ks,
            k_strs = k_strs ks, k_strs_sz = k_strs_sz ks, k_strs_cap = k_strs_cap ks\<rparr>)"
      using True r Some f by (simp add: ksyms__load_def filling_def)
    then show ?thesis using f ksym_order.qsort_ordered
      by (auto simp: ksyms_table_def filling_def file_syms_def file_entries_def holds_split)
  qed
qed

section \<open>Lookups\<close>

interpretation ksyms_addr: addr_table ksyms_table ksym_addr "\<lambda>ks. block_get (k_syms ks)" ksyms__map_addr
  by unfold_locales (auto simp: ksyms_table_def ksyms__map_addr_def holds_reads intro: ksym_sorted_addr)

lemma get_symbol_loop_ok:
  assumes "reads (block_get (k_syms ks)) xs" and "i + n = length xs"
    and "\<forall>j < i. ksym_name (xs ! j) \<noteq> name"
  shows "get_symbol_loop ks name i n = Some (if \<exists>x \<in> set xs. ksym_name x = name
    then Some (int (LEAST j. j < length xs \<and> ksym_name (xs ! j) = name)) else None)"
  using assms
proof (induction ks name i n rule: get_symbol_loop.induct)
  case (1 ks name i)
  then have "\<not> (\<exists>x \<in> set xs. ksym_name x = name)" by (auto simp: in_set_conv_nth)
  then show ?case by simp
next
  case (2 ks name i n)
  have i: "i < length xs" using 2(3) by simp
  then have g: "block_get (k_syms ks) (int i) = Some (xs ! i)" using 2(2) by (simp add: reads_def)
  show ?case
  proof (cases "ksym_name (xs ! i) = name")
    case True
    then have "(LEAST j. j < length xs \<and> ksym_name (xs ! j) = name) = i"
      using i 2(4) by (intro Least_equality) (auto simp: not_less [symmetric])
    moreover have "\<exists>x \<in> set xs. ksym_name x = name" using True i by auto
    ultimately show ?thesis using g True by simp
  next
    case False
    have "get_symbol_loop ks name (i + 1) n = Some (if \<exists>x \<in> set xs. ksym_name x = name
        then Some (int (LEAST j. j < length xs \<and> ksym_name (xs ! j) = name)) else None)"
    proof (rule 2(1) [OF g])
      show "\<forall>j < i + 1. ksym_name (xs ! j) \<noteq> name" using 2(4) False by (auto simp: less_Suc_eq)
    qed (use False 2(2,3) in auto)
    then show ?thesis using g False by simp
  qed
qed

lemma get_symbol_first:
  assumes "ksyms_table xs ks"
  obtains (none) "ksyms__get_symbol ks name = Some None" "\<forall>x \<in> set xs. ksym_name x \<noteq> name"
  | (found) i x where "ksyms__get_symbol ks name = Some (Some i)" "block_get (k_syms ks) i = Some x"
      "x \<in> set xs" "ksym_name x = name" "\<forall>y \<in> set xs. ksym_name y = name \<longrightarrow> ksym_addr x \<le> ksym_addr y"
proof (cases "\<exists>x \<in> set xs. ksym_name x = name")
  case False
  then show ?thesis
    using none get_symbol_loop_ok [OF ksyms_addr.table_reads [OF assms], of 0 "length xs" name] assms
    by (auto simp: ksyms__get_symbol_def ksyms_table_def)
next
  case True
  define i where "i = (LEAST j. j < length xs \<and> ksym_name (xs ! j) = name)"
  obtain j0 where "j0 < length xs" "ksym_name (xs ! j0) = name" using True by (auto simp: in_set_conv_nth)
  then have i: "i < length xs" "ksym_name (xs ! i) = name"
    unfolding i_def by (metis (mono_tags, lifting) LeastI)+
  have "ksym_addr (xs ! i) \<le> ksym_addr y" if y: "y \<in> set xs" "ksym_name y = name" for y
  proof -
    obtain j where j: "j < length xs" "y = xs ! j" using y(1) by (auto simp: in_set_conv_nth)
    then have "i \<le> j" unfolding i_def using y by (intro Least_le) simp
    then show ?thesis using sorted_nth_mono [OF ksyms_addr.table_sorted [OF assms], of i j] j by simp
  qed
  moreover have "ksyms__get_symbol ks name = Some (Some (int i))"
    using get_symbol_loop_ok [OF ksyms_addr.table_reads [OF assms], of 0 "length xs" name] assms True
    by (simp add: ksyms__get_symbol_def ksyms_table_def i_def)
  moreover have "block_get (k_syms ks) (int i) = Some (xs ! i)"
    using i holds_get assms by (auto simp: ksyms_table_def)
  ultimately show ?thesis using found i by simp
qed

section \<open>Properties\<close>

definition sample_kallsyms :: "(int \<times> u64 \<times> string) list" where
  "sample_kallsyms = [(3, 0x3000, ''tcp_close''), (3, 0x1000, ''ip_rcv''), (3, 0x2000, ''tcp_v4_rcv'')]"

lemma sample_kallsyms_ok: "file_ok sample_kallsyms" "\<forall>e \<in> set sample_kallsyms. fst e = 3"
  by (simp_all add: file_ok_def sample_kallsyms_def is_cstr_def NUL_def)

lemma sample_kallsyms_loads:
  "\<exists>ks. ksyms__load True True (\<lambda>i. (True, True)) sample_kallsyms = Some (Some ks)"
proof -
  obtain r where r: "ksyms__load True True (\<lambda>i. (True, True)) sample_kallsyms = Some r"
    "r = None \<longrightarrow> (\<exists>e \<in> set sample_kallsyms. fst e \<noteq> 3)"
    using ksyms__load_cases [OF sample_kallsyms_ok(1), of True True "\<lambda>i. (True, True)"] by auto
  then have "r \<noteq> None" using sample_kallsyms_ok(2) by blast
  then show ?thesis using r by auto
qed

text \<open>
  C7. \<open>ksyms__load\<close> is memory safe and correct: on a file of at most \<open>2^21\<close> lines with
  names shorter than the 256-byte buffer it never overruns a block or overflows an
  \<^verbatim>\<open>int\<close>, whatever allocations fail.  It returns a table when the file can be opened,
  every line parses and no allocation fails, and never when a line does not parse;
  the table holds exactly the symbols of the file, ordered by address and, for equal
  addresses, by name.
\<close>

theorem ksyms__load_correct:
  assumes "file_ok f"
  shows "\<exists>r. ksyms__load fopen_ok calloc_ok alloc f = Some r \<and>
    (fopen_ok \<and> calloc_ok \<and> (\<forall>j. alloc j = (True, True)) \<and> (\<forall>e \<in> set f. fst e = 3) \<longrightarrow> r \<noteq> None) \<and>
    (\<forall>ks. r = Some ks \<longrightarrow> (\<forall>e \<in> set f. fst e = 3) \<and>
      (\<exists>xs. mset xs = mset (file_entries f) \<and> sorted_wrt (\<lambda>x y. ksym_cmp x y \<le> 0) xs \<and>
        k_syms_sz ks = int (length f) \<and> (\<forall>i < length f. block_get (k_syms ks) (int i) = Some (xs ! i))))"
proof -
  from ksyms__load_cases [OF assms, where fopen_ok = fopen_ok and calloc_ok = calloc_ok and alloc = alloc]
  obtain r where r: "ksyms__load fopen_ok calloc_ok alloc f = Some r"
    "\<forall>ks. r = Some ks \<longrightarrow> (\<forall>e \<in> set f. fst e = 3) \<and> ksyms_table (qsort ksym_cmp (file_entries f)) ks"
    "r = None \<longrightarrow> \<not> fopen_ok \<or> \<not> calloc_ok \<or> (\<exists>j. alloc j \<noteq> (True, True)) \<or> (\<exists>e \<in> set f. fst e \<noteq> 3)"
    by (elim exE conjE)
  have "\<exists>xs. mset xs = mset (file_entries f) \<and> sorted_wrt (\<lambda>x y. ksym_cmp x y \<le> 0) xs \<and>
        k_syms_sz ks = int (length f) \<and> (\<forall>i < length f. block_get (k_syms ks) (int i) = Some (xs ! i))"
    if "r = Some ks" for ks
  proof -
    have "length (file_entries f) = length f" by (simp add: file_entries_def)
    then show ?thesis using that r(2) holds_get [of "k_syms ks" "qsort ksym_cmp (file_entries f)"]
      by (intro exI [of _ "qsort ksym_cmp (file_entries f)"]) (auto simp: ksyms_table_def)
  qed
  with r show ?thesis by blast
qed

theorem ksyms__load_correct_witness:
  "\<exists>r ks xs. ksyms__load True True (\<lambda>i. (True, True)) sample_kallsyms = Some r \<and> r = Some ks \<and>
    mset xs = mset (file_entries sample_kallsyms) \<and> sorted_wrt (\<lambda>x y. ksym_cmp x y \<le> 0) xs \<and>
    k_syms_sz ks = 3 \<and> block_get (k_syms ks) 0 = Some (xs ! 0)"
proof -
  have l: "length sample_kallsyms = 3" by (simp add: sample_kallsyms_def)
  show ?thesis
    using ksyms__load_correct [OF sample_kallsyms_ok(1), of True True "\<lambda>i. (True, True)"] sample_kallsyms_ok(2)
    unfolding l by force
qed

text \<open>
  C8. On a loaded table \<open>ksyms__map_addr\<close> finds the symbol that contains an address:
  the one of the file with the largest address not above it, and null exactly when
  every symbol of the file is above it.
\<close>

theorem ksyms__map_addr_nearest:
  assumes "file_ok f" and "ksyms__load fopen_ok calloc_ok alloc f = Some (Some ks)"
  shows "(ksyms__map_addr ks addr = Some None \<and> (\<forall>e \<in> set f. addr < fst (snd e))) \<or>
    (\<exists>i x. ksyms__map_addr ks addr = Some (Some i) \<and> block_get (k_syms ks) i = Some x \<and>
       x \<in> set (file_entries f) \<and> ksym_addr x \<le> addr \<and>
       (\<forall>e \<in> set f. fst (snd e) \<le> addr \<longrightarrow> fst (snd e) \<le> ksym_addr x))"
proof -
  have "ksyms_table (qsort ksym_cmp (file_entries f)) ks"
    using ksyms__load_cases [OF assms(1), where fopen_ok = fopen_ok and calloc_ok = calloc_ok and alloc = alloc] assms(2) by simp
  then show ?thesis
  proof (cases rule: ksyms_addr.lookup_nearest [where addr = addr])
    case none
    then show ?thesis by (auto simp: file_entries_def)
  next
    case (found i x)
    then show ?thesis by (intro disjI2 exI [of _ i] exI [of _ x]) (auto simp: file_entries_def)
  qed
qed

theorem ksyms__map_addr_nearest_witness:
  "\<exists>ks i x. ksyms__load True True (\<lambda>i. (True, True)) sample_kallsyms = Some (Some ks) \<and>
    ksyms__map_addr ks 0x2fff = Some (Some i) \<and> block_get (k_syms ks) i = Some x \<and> ksym_name x = ''tcp_v4_rcv''"
proof -
  obtain ks where ks: "ksyms__load True True (\<lambda>i. (True, True)) sample_kallsyms = Some (Some ks)"
    using sample_kallsyms_loads by blast
  show ?thesis
    using ksyms__map_addr_nearest [OF sample_kallsyms_ok(1) ks, of "0x2fff"] ks
    by (auto simp: sample_kallsyms_def file_entries_def)
qed

text \<open>
  On a loaded table \<open>ksyms__get_symbol\<close> finds a symbol of the given name, the one
  with the lowest address when there are several, and null exactly when the file has
  no symbol of that name.
\<close>

theorem ksyms__get_symbol_correct:
  assumes "file_ok f" and "ksyms__load fopen_ok calloc_ok alloc f = Some (Some ks)"
  shows "(ksyms__get_symbol ks name = Some None \<and> (\<forall>e \<in> set f. snd (snd e) \<noteq> name)) \<or>
    (\<exists>i x. ksyms__get_symbol ks name = Some (Some i) \<and> block_get (k_syms ks) i = Some x \<and>
       x \<in> set (file_entries f) \<and> ksym_name x = name \<and>
       (\<forall>e \<in> set f. snd (snd e) = name \<longrightarrow> ksym_addr x \<le> fst (snd e)))"
proof -
  have "ksyms_table (qsort ksym_cmp (file_entries f)) ks"
    using ksyms__load_cases [OF assms(1), where fopen_ok = fopen_ok and calloc_ok = calloc_ok and alloc = alloc] assms(2) by simp
  then show ?thesis
  proof (cases rule: get_symbol_first [where name = name])
    case none
    then show ?thesis by (auto simp: file_entries_def)
  next
    case (found i x)
    then show ?thesis by (intro disjI2 exI [of _ i] exI [of _ x]) (auto simp: file_entries_def)
  qed
qed

theorem ksyms__get_symbol_correct_witness:
  "\<exists>ks i x. ksyms__load True True (\<lambda>i. (True, True)) sample_kallsyms = Some (Some ks) \<and>
    ksyms__get_symbol ks ''ip_rcv'' = Some (Some i) \<and> block_get (k_syms ks) i = Some x \<and> ksym_addr x = 0x1000"
proof -
  obtain ks where ks: "ksyms__load True True (\<lambda>i. (True, True)) sample_kallsyms = Some (Some ks)"
    using sample_kallsyms_loads by blast
  show ?thesis
    using ksyms__get_symbol_correct [OF sample_kallsyms_ok(1) ks, of "''ip_rcv''"] ks
    by (auto simp: sample_kallsyms_def file_entries_def)
qed

end
