(* ===== verification/Hist.thy ===== *)
theory Hist
  imports C_Lib
begin

text \<open>
  The histogram printers of \<^verbatim>\<open>plugin/libbpf-test/trace_helpers.c\<close>.  What they print is
  the value of the functions: a heading and one row per slot, with the numbers and field
  widths that are passed to \<^verbatim>\<open>printf\<close> and the bar that \<^verbatim>\<open>print_stars\<close> draws.  \<open>None\<close> is a
  division by zero, a shift by the width of the type or a read outside \<open>vals\<close>.
\<close>

section \<open>Operations\<close>

definition c_min :: "u32 \<Rightarrow> u32 \<Rightarrow> u32" where
  "c_min x y = (if x < y then x else y)"

text \<open>\<open>width\<close> is converted to \<^verbatim>\<open>unsigned int\<close>, so the product wraps at 32 bits.\<close>

definition print_stars :: "u32 \<Rightarrow> u32 \<Rightarrow> int \<Rightarrow> string option" where
  "print_stars val val_max width =
     (if val_max = 0 then None
      else
        let num_stars = to_int (uint (c_min val val_max * of_int width div val_max));
            num_spaces = width - num_stars;
            need_plus = val > val_max
        in Some (replicate (nat num_stars) CHR ''*'' @ replicate (nat num_spaces) CHR '' '' @
             (if need_plus then ''+'' else '''')))"

text \<open>The first loop of the two printers: last and first non-zero slot, largest count.\<close>

fun scan_vals :: "u32 list \<Rightarrow> nat \<Rightarrow> nat \<Rightarrow> int \<times> int \<times> u32 \<Rightarrow> (int \<times> int \<times> u32) option" where
  "scan_vals vals i 0 acc = Some acc"
| "scan_vals vals i (Suc n) (idx_min, idx_max, val_max) =
     (if i < length vals then
        let val = vals ! i;
            idx_max = (if val > 0 then int i else idx_max);
            idx_min = (if val > 0 \<and> idx_min < 0 then int i else idx_min);
            val_max = (if val > val_max then val else val_max)
        in scan_vals vals (i + 1) n (idx_min, idx_max, val_max)
      else None)"

record log2_row =
  row_width :: int
  row_low :: u64
  row_high :: u64
  row_val :: u32
  row_bar :: string

definition log2_bounds :: "nat \<Rightarrow> (u64 \<times> u64) option" where
  "log2_bounds i =
     (if 64 \<le> i + 1 then None
      else
        let low = drop_bit 1 (push_bit (i + 1) 1);
            high = push_bit (i + 1) 1 - 1;
            low = (if low = high then low - 1 else low)
        in Some (low, high))"

fun log2_rows :: "u32 list \<Rightarrow> int \<Rightarrow> u32 \<Rightarrow> int \<Rightarrow> nat \<Rightarrow> nat \<Rightarrow> log2_row list option" where
  "log2_rows vals idx_max val_max stars i 0 = Some []"
| "log2_rows vals idx_max val_max stars i (Suc n) =
     (if i < length vals then do {
        (low, high) \<leftarrow> log2_bounds i;
        let val = vals ! i;
        let width = (if idx_max \<le> 32 then 10 else 20);
        bar \<leftarrow> print_stars val val_max stars;
        rest \<leftarrow> log2_rows vals idx_max val_max stars (i + 1) n;
        Some (\<lparr>row_width = width, row_low = low, row_high = high, row_val = val, row_bar = bar\<rparr> # rest)
      } else None)"

text \<open>The heading is the two field widths; no output is \<open>None\<close> inside the result.\<close>

definition print_log2_hist :: "u32 list \<Rightarrow> nat \<Rightarrow> ((int \<times> int) \<times> log2_row list) option option" where
  "print_log2_hist vals vals_size = do {
     (_, idx_max, val_max) \<leftarrow> scan_vals vals 0 vals_size (- 1, - 1, 0);
     if idx_max < 0 then Some None
     else do {
       let stars_max = 40;
       let head = (if idx_max \<le> 32 then 5 else 15, if idx_max \<le> 32 then 19 else 29);
       let stars = (if idx_max \<le> 32 then stars_max else stars_max div 2);
       rows \<leftarrow> log2_rows vals idx_max val_max stars 0 (nat (idx_max + 1));
       Some (Some (head, rows))
     }
   }"

fun linear_rows :: "u32 list \<Rightarrow> u32 \<Rightarrow> u32 \<Rightarrow> u32 \<Rightarrow> nat \<Rightarrow> nat \<Rightarrow> (u32 \<times> u32 \<times> string) list option" where
  "linear_rows vals base step val_max i 0 = Some []"
| "linear_rows vals base step val_max i (Suc n) =
     (if i < length vals then do {
        let val = vals ! i;
        bar \<leftarrow> print_stars val val_max 40;
        rest \<leftarrow> linear_rows vals base step val_max (i + 1) n;
        Some ((base + of_nat i * step, val, bar) # rest)
      } else None)"

definition print_linear_hist :: "u32 list \<Rightarrow> nat \<Rightarrow> u32 \<Rightarrow> u32 \<Rightarrow> (u32 \<times> u32 \<times> string) list option option" where
  "print_linear_hist vals vals_size base step = do {
     (idx_min, idx_max, val_max) \<leftarrow> scan_vals vals 0 vals_size (- 1, - 1, 0);
     if idx_max < 0 then Some None
     else map_option Some (linear_rows vals base step val_max (nat idx_min) (nat (idx_max - idx_min + 1)))
   }"

section \<open>The bar\<close>

definition bar_spec :: "u32 \<Rightarrow> u32 \<Rightarrow> nat \<Rightarrow> string" where
  "bar_spec val val_max w =
     (let s = min (unat val) (unat val_max) * w div unat val_max
      in replicate s CHR ''*'' @ replicate (w - s) CHR '' '' @ (if val_max < val then ''+'' else ''''))"

lemma print_stars_spec:
  assumes "0 < val_max" and "unat val_max * w < 2 ^ 32" and "w < 2 ^ 31"
  shows "print_stars val val_max (int w) = Some (bar_spec val val_max w)"
proof -
  let ?m = "c_min val val_max"
  have m: "unat ?m = min (unat val) (unat val_max)" by (simp add: c_min_def word_less_nat_alt min_def)
  have le: "unat ?m * w \<le> unat val_max * w" using m by simp
  have w: "unat (of_nat w :: u32) = w" using assms(3) by (simp add: unat_of_nat take_bit_eq_mod)
  have p: "unat (?m * of_nat w) = unat ?m * w"
    using le_less_trans [OF le assms(2)] w unat_mult_lem [of ?m "of_nat w"] by simp
  have v: "0 < unat val_max" using assms(1) by (simp add: word_less_nat_alt)
  define s where "s = min (unat val) (unat val_max) * w div unat val_max"
  have "unat (?m * of_nat w div val_max) = s" by (simp add: unat_div p m s_def)
  then have u: "uint (?m * of_nat w div val_max) = int s" unfolding unat_eq_nat_uint by auto
  have "s \<le> unat val_max * w div unat val_max" unfolding s_def by (rule div_le_mono) simp
  then have s: "s \<le> w" using v by simp
  have t: "to_int (int s) = int s" using s assms(3) by (simp add: to_int_in)
  have "nat (int w - int s) = w - s" using s by simp
  then show ?thesis
    using assms(1) by (simp add: print_stars_def bar_spec_def Let_def u t s_def [symmetric])
qed

lemma bar_length: "0 < val_max \<Longrightarrow> length (bar_spec val val_max w) = (if val_max < val then w + 1 else w)"
proof -
  assume "0 < val_max"
  then have v: "0 < unat val_max" by (simp add: word_less_nat_alt)
  have "min (unat val) (unat val_max) * w div unat val_max \<le> unat val_max * w div unat val_max"
    by (rule div_le_mono) simp
  with v show ?thesis by (simp add: bar_spec_def Let_def)
qed

section \<open>The scan\<close>

definition last_used :: "u32 list \<Rightarrow> int" where
  "last_used vs = (if \<forall>v \<in> set vs. v = 0 then - 1 else int (Max {i. i < length vs \<and> vs ! i \<noteq> 0}))"

lemma last_used_snoc: "last_used (vs @ [v]) = (if 0 < v then int (length vs) else last_used vs)"
proof -
  have e: "{i. i < length (vs @ [v]) \<and> (vs @ [v]) ! i \<noteq> 0} =
      {i. i < length vs \<and> vs ! i \<noteq> 0} \<union> (if v = 0 then {} else {length vs})"
    by (auto simp: nth_append less_Suc_eq)
  show ?thesis
  proof (cases "v = 0")
    case True
    then show ?thesis unfolding last_used_def e by simp
  next
    case False
    have "Max ({i. i < length vs \<and> vs ! i \<noteq> 0} \<union> {length vs}) = length vs"
      by (rule Max_eqI) auto
    then show ?thesis using False unfolding last_used_def e by (simp add: word_neq_0_conv [symmetric])
  qed
qed

lemma scan_vals_spec:
  assumes "i + n \<le> length vals" and "idx_max = last_used (take i vals)" and "val_max = fold max (take i vals) 0"
  shows "\<exists>m. scan_vals vals i n (idx_min, idx_max, val_max) =
    Some (m, last_used (take (i + n) vals), fold max (take (i + n) vals) 0)"
  using assms
proof (induction n arbitrary: i idx_min idx_max val_max)
  case (Suc n)
  have i: "i < length vals" using Suc.prems(1) by simp
  have t: "take (Suc i) vals = take i vals @ [vals ! i]" using i by (simp add: take_Suc_conv_app_nth)
  have "(if vals ! i > val_max then vals ! i else val_max) = fold max (take (Suc i) vals) 0"
    using Suc.prems(3) by (auto simp add: t max.absorb1 max.absorb2)
  moreover have "(if vals ! i > 0 then int i else idx_max) = last_used (take (Suc i) vals)"
    using Suc.prems(2) i by (simp add: t last_used_snoc)
  ultimately show ?case
    using Suc.IH [of "Suc i"] Suc.prems(1) i by (simp add: Let_def)
qed simp

section \<open>The rows\<close>

lemma unat_push_bit_1:
  assumes "i < 64"
  shows "unat (push_bit i (1 :: u64)) = 2 ^ i"
proof -
  have "(2 :: nat) ^ i < 2 ^ 64" using assms by (intro power_strict_increasing) auto
  moreover have "push_bit i 1 = (of_nat (2 ^ i) :: u64)" by (simp add: push_bit_eq_mult)
  ultimately show ?thesis by (simp only: unat_of_nat take_bit_eq_mod) simp
qed

lemma log2_bounds_spec:
  assumes "i < 63"
  shows "\<exists>low high. log2_bounds i = Some (low, high) \<and> unat low = (if i = 0 then 0 else 2 ^ i) \<and>
    unat high = 2 ^ (i + 1) - 1"
proof -
  define P :: u64 where "P = push_bit (i + 1) 1"
  have p: "unat P = 2 ^ (i + 1)" using assms unfolding P_def by (intro unat_push_bit_1) simp
  then have "P \<noteq> 0" by auto
  then have h: "unat (P - 1) = 2 ^ (i + 1) - 1" by (simp add: unat_minus_one p)
  have l: "unat (drop_bit 1 P) = 2 ^ i" by (simp add: unat_drop_bit_div p)
  have eq: "drop_bit 1 P = P - 1 \<longleftrightarrow> i = 0"
  proof -
    have "(2 :: nat) ^ i = 2 ^ (i + 1) - 1 \<longleftrightarrow> i = 0"
    proof (cases i)
      case (Suc n)
      have x: "0 < x \<Longrightarrow> 2 * x \<noteq> 2 * (2 * x) - 1" for x :: nat by arith
      show ?thesis unfolding Suc using x [of "2 ^ n"] by simp
    qed simp
    then show ?thesis by (simp only: word_unat_eq_iff h l)
  qed
  have lb: "log2_bounds i = Some (if drop_bit 1 P = P - 1 then drop_bit 1 P - 1 else drop_bit 1 P, P - 1)"
    using assms by (simp add: log2_bounds_def Let_def P_def)
  have "drop_bit 1 P = 1" if "i = 0"
    using l that by (metis power_0 unat_1 word_unat_eq_iff)
  then show ?thesis using lb eq h l by auto
qed

definition log2_row_ok :: "u32 list \<Rightarrow> u32 \<Rightarrow> nat \<Rightarrow> nat \<Rightarrow> log2_row \<Rightarrow> bool" where
  "log2_row_ok vals val_max stars i r \<longleftrightarrow>
     row_val r = vals ! i \<and> unat (row_low r) = (if i = 0 then 0 else 2 ^ i) \<and>
     unat (row_high r) = 2 ^ (i + 1) - 1 \<and> row_bar r = bar_spec (vals ! i) val_max stars"

lemma log2_rows_spec:
  assumes "i + n \<le> length vals" and "i + n \<le> 63" and "0 < val_max" and "unat val_max * stars < 2 ^ 32" and "stars < 2 ^ 31"
  shows "\<exists>rows. log2_rows vals idx_max val_max (int stars) i n = Some rows \<and> length rows = n \<and>
    (\<forall>j < n. log2_row_ok vals val_max stars (i + j) (rows ! j))"
  using assms(1,2)
proof (induction n arbitrary: i)
  case (Suc n)
  obtain low high where b: "log2_bounds i = Some (low, high)" "unat low = (if i = 0 then 0 else 2 ^ i)"
    "unat high = 2 ^ (i + 1) - 1"
    using log2_bounds_spec [of i] Suc.prems by auto
  obtain rows where r: "log2_rows vals idx_max val_max (int stars) (Suc i) n = Some rows" "length rows = n"
    "\<forall>j < n. log2_row_ok vals val_max stars (Suc i + j) (rows ! j)"
    using Suc.IH [of "Suc i"] Suc.prems by auto
  let ?r = "\<lparr>row_width = if idx_max \<le> 32 then 10 else 20, row_low = low, row_high = high,
    row_val = vals ! i, row_bar = bar_spec (vals ! i) val_max stars\<rparr>"
  have "log2_rows vals idx_max val_max (int stars) i (Suc n) = Some (?r # rows)"
    using b(1) r Suc.prems print_stars_spec [OF assms(3-5)] by (simp add: Let_def)
  moreover have "log2_row_ok vals val_max stars (i + j) ((?r # rows) ! j)" if "j < Suc n" for j
    using that r(3) b by (cases j) (auto simp: log2_row_ok_def)
  ultimately show ?case using r by (intro exI [of _ "?r # rows"]) simp
qed simp

lemma last_used_bound: "last_used vs < int (length vs)"
proof (cases "\<forall>v \<in> set vs. v = 0")
  case False
  then have "{i. i < length vs \<and> vs ! i \<noteq> 0} \<noteq> {}" by (auto simp: in_set_conv_nth)
  then have "Max {i. i < length vs \<and> vs ! i \<noteq> 0} \<in> {i. i < length vs \<and> vs ! i \<noteq> 0}" by (intro Max_in) auto
  then show ?thesis using False unfolding last_used_def by auto
qed (simp add: last_used_def)

lemma last_used_after:
  assumes "last_used vs < int i" and "i < length vs"
  shows "vs ! i = 0"
proof (rule ccontr)
  assume a: "vs ! i \<noteq> 0"
  then have "i \<le> Max {i. i < length vs \<and> vs ! i \<noteq> 0}" using assms(2) by (intro Max_ge) auto
  moreover have "vs ! i \<in> set vs" using assms(2) by simp
  then have "\<not> (\<forall>v \<in> set vs. v = 0)" using a by blast
  ultimately show False using assms(1) unfolding last_used_def by (simp only: if_False)
qed

lemma last_used_neg: "last_used vs < 0 \<longleftrightarrow> (\<forall>v \<in> set vs. v = 0)"
  by (simp add: last_used_def)

lemma fold_max_pos:
  assumes "v \<in> set vs" and "v \<noteq> (0 :: u32)"
  shows "0 < fold max vs 0"
proof -
  have "Max (set (0 # vs)) = fold max vs 0" by (rule Max.set_eq_fold)
  moreover have "v \<le> Max (set (0 # vs))" using assms(1) by (intro Max_ge) auto
  ultimately show ?thesis using assms(2) by (metis order.strict_trans2 word_neq_0_conv)
qed

lemma print_log2_hist_spec:
  assumes "n \<le> length vals" and "n \<le> 33" and "unat (fold max (take n vals) 0) * 40 < 2 ^ 32"
  shows "(\<forall>v \<in> set (take n vals). v = 0) \<and> print_log2_hist vals n = Some None \<or>
    (\<exists>v \<in> set (take n vals). v \<noteq> 0) \<and>
    (\<exists>rows. print_log2_hist vals n = Some (Some ((5, 19), rows)) \<and> int (length rows) = last_used (take n vals) + 1 \<and>
      (\<forall>j < length rows. log2_row_ok vals (fold max (take n vals) 0) 40 j (rows ! j)))"
proof -
  let ?l = "last_used (take n vals)" and ?m = "fold max (take n vals) (0 :: u32)"
  obtain m where sc: "scan_vals vals 0 n (- 1, - 1, 0) = Some (m, ?l, ?m)"
    using scan_vals_spec [of 0 n vals "- 1" 0 "- 1"] assms(1) by (auto simp: last_used_def)
  show ?thesis
  proof (cases "?l < 0")
    case True
    then show ?thesis using sc by (auto simp: print_log2_hist_def last_used_neg)
  next
    case False
    then obtain v where v: "v \<in> set (take n vals)" "v \<noteq> 0" by (auto simp: last_used_neg)
    have l: "?l < int n" using last_used_bound [of "take n vals"] assms(1) by simp
    then have n: "nat (?l + 1) \<le> length vals" "nat (?l + 1) \<le> 63" using assms(1,2) by auto
    obtain rows where r: "log2_rows vals ?l ?m (int 40) 0 (nat (?l + 1)) = Some rows" "length rows = nat (?l + 1)"
      "\<forall>j < nat (?l + 1). log2_row_ok vals ?m 40 (0 + j) (rows ! j)"
      using log2_rows_spec [of 0 "nat (?l + 1)" vals ?m 40 ?l] n assms(3) fold_max_pos [OF v] by auto
    have "print_log2_hist vals n = Some (Some ((5, 19), rows))"
      using sc r(1) False l assms(2) by (simp add: print_log2_hist_def)
    then show ?thesis using r v False by auto
  qed
qed

lemma log2_rows_total:
  "i + n \<le> length vals \<Longrightarrow> i + n \<le> 63 \<Longrightarrow> val_max \<noteq> 0 \<Longrightarrow>
   \<exists>rows. log2_rows vals idx_max val_max stars i n = Some rows"
proof (induction n arbitrary: i)
  case (Suc n)
  obtain rows where "log2_rows vals idx_max val_max stars (Suc i) n = Some rows"
    using Suc.IH [of "Suc i"] Suc.prems by auto
  moreover obtain low high where "log2_bounds i = Some (low, high)"
    using log2_bounds_spec [of i] Suc.prems by auto
  ultimately show ?case using Suc.prems by (simp add: print_stars_def Let_def)
qed simp

lemma print_log2_hist_total:
  assumes "n \<le> length vals" and "n \<le> 63"
  shows "\<exists>out. print_log2_hist vals n = Some out"
proof -
  let ?l = "last_used (take n vals)" and ?m = "fold max (take n vals) (0 :: u32)"
  obtain m where sc: "scan_vals vals 0 n (- 1, - 1, 0) = Some (m, ?l, ?m)"
    using scan_vals_spec [of 0 n vals "- 1" 0 "- 1"] assms(1) by (auto simp: last_used_def)
  show ?thesis
  proof (cases "?l < 0")
    case True
    then show ?thesis using sc by (simp add: print_log2_hist_def)
  next
    case False
    then obtain v where v: "v \<in> set (take n vals)" "v \<noteq> 0" by (auto simp: last_used_neg)
    have l: "?l < int n" using last_used_bound [of "take n vals"] assms(1) by simp
    then have n: "0 + nat (?l + 1) \<le> length vals" "0 + nat (?l + 1) \<le> 63" using assms by auto
    have "?m \<noteq> 0" using fold_max_pos [OF v] by auto
    then obtain rows where "log2_rows vals ?l ?m (if ?l \<le> 32 then 40 else 40 div 2) 0 (nat (?l + 1)) = Some rows"
      using log2_rows_total [OF n] by blast
    then show ?thesis using sc False by (simp add: print_log2_hist_def Let_def)
  qed
qed

lemma linear_rows_spec:
  assumes "i + n \<le> length vals" and "0 < val_max" and "unat val_max * 40 < 2 ^ 32"
  shows "linear_rows vals base step val_max i n =
    Some (map (\<lambda>j. (base + of_nat j * step, vals ! j, bar_spec (vals ! j) val_max 40)) [i..<i + n])"
  using assms(1)
proof (induction n arbitrary: i)
  case (Suc n)
  have "print_stars (vals ! i) val_max 40 = Some (bar_spec (vals ! i) val_max 40)"
    using print_stars_spec [OF assms(2,3), of "vals ! i"] by simp
  then show ?case using Suc.IH [of "Suc i"] Suc.prems
    by (simp add: Let_def upt_rec [of i])
qed simp

section \<open>Properties\<close>

text \<open>
  \<open>print_log2_hist\<close> prints nothing for an empty histogram; otherwise one row for
  every slot up to the last used one and no used slot is left out.  Row \<open>i\<close> shows the
  count of slot \<open>i\<close> and the range from \<open>2^i\<close> (0 for the first row) to \<open>2^(i+1) - 1\<close>, so
  the ranges of consecutive rows meet, and a bar of exactly 40 columns with
  \<open>\<lfloor>40 * count / largest count\<rfloor>\<close> stars.  The hypothesis on the largest count excludes
  the wrap-around of the product in \<open>print_stars\<close>.
\<close>

theorem print_log2_hist_correct:
  assumes "vals_size \<le> length vals" and "vals_size \<le> 33"
    and "unat (fold max (take vals_size vals) 0) * 40 < 2 ^ 32"
  shows "(\<forall>i < vals_size. vals ! i = 0) \<and> print_log2_hist vals vals_size = Some None \<or>
    (\<exists>rows. print_log2_hist vals vals_size = Some (Some ((5, 19), rows)) \<and> rows \<noteq> [] \<and> length rows \<le> vals_size \<and>
      (\<forall>i. length rows \<le> i \<and> i < vals_size \<longrightarrow> vals ! i = 0) \<and>
      (\<forall>i < length rows. log2_row_ok vals (fold max (take vals_size vals) 0) 40 i (rows ! i) \<and>
         length (row_bar (rows ! i)) = 40))"
proof -
  let ?vs = "take vals_size vals"
  let ?m = "fold max ?vs (0 :: u32)"
  consider (empty) "\<forall>v \<in> set ?vs. v = 0" "print_log2_hist vals vals_size = Some None"
    | (rows) v rows where "v \<in> set ?vs" "v \<noteq> 0" "print_log2_hist vals vals_size = Some (Some ((5, 19), rows))"
        "int (length rows) = last_used ?vs + 1" "\<forall>j < length rows. log2_row_ok vals ?m 40 j (rows ! j)"
    using print_log2_hist_spec [OF assms] by blast
  then show ?thesis
  proof cases
    case empty
    then have "take vals_size vals ! i = 0" if "i < vals_size" for i
      using assms(1) that by (simp add: all_set_conv_all_nth)
    then have "\<forall>i < vals_size. vals ! i = 0" by simp
    then show ?thesis using empty by simp
  next
    case rows
    have b: "last_used ?vs < int vals_size" "0 \<le> last_used ?vs"
      using last_used_bound [of ?vs] assms(1) rows(1,2) last_used_neg [of ?vs] by auto
    have "vals ! i = 0" if "length rows \<le> i" "i < vals_size" for i
      using last_used_after [of ?vs i] that rows(4) assms(1) by simp
    moreover have "length (row_bar (rows ! i)) = 40" if "i < length rows" for i
    proof -
      have i: "i < vals_size" using that rows(4) b by linarith
      have "vals ! i \<in> set (0 # ?vs)" using i assms(1) by (auto simp: in_set_conv_nth)
      then have "vals ! i \<le> ?m" using Max.set_eq_fold [of 0 ?vs] Max_ge [of "set (0 # ?vs)"] by simp
      then show ?thesis
        using rows(5) that bar_length [OF fold_max_pos [OF rows(1,2)], of "vals ! i" 40]
        by (auto simp: log2_row_ok_def)
    qed
    ultimately show ?thesis using rows b by auto
  qed
qed

theorem print_log2_hist_correct_witness:
  "\<exists>rows. print_log2_hist [0, 2, 4, 0] 4 = Some (Some ((5, 19), rows)) \<and>
    log2_row_ok [0, 2, 4, 0] 4 40 0 (rows ! 0) \<and> length rows \<le> 4"
proof -
  have m: "fold max (take 4 [0, 2, 4, 0]) 0 = (4 :: u32)" by (simp add: max_def)
  have n: "\<not> (\<forall>i < 4. [0, 2, 4, 0] ! i = (0 :: u32))" by (rule notI, drule spec [of _ 1]) simp
  show ?thesis
    using print_log2_hist_correct [of 4 "[0, 2, 4, 0]"] n unfolding m by auto
qed

text \<open>
  The 32-bit product in \<open>print_stars\<close> wraps: from a largest count of 107374183 on,
  the bar of that very count, which should fill all 40 columns, is not full.
\<close>

theorem print_stars_overflow:
  assumes "107374183 \<le> val_max"
  shows "\<exists>n < 40. print_stars val_max val_max 40 = Some (replicate n CHR ''*'' @ replicate (40 - n) CHR '' '')"
proof -
  let ?v = "unat val_max"
  have v: "107374183 \<le> ?v" using assms by (simp add: word_le_nat_alt)
  define n where "n = ?v * 40 mod 2 ^ 32 div ?v"
  have "?v * 40 mod 2 ^ 32 < ?v * 40" using v by (intro less_le_trans [OF mod_less_divisor]) auto
  then have n: "n < 40" using v unfolding n_def by (simp add: div_less_iff_less_mult mult.commute)
  have "unat (val_max * 40 div val_max) = n" by (simp add: unat_div unat_word_ariths(2) n_def)
  then have "uint (val_max * 40 div val_max) = int n" unfolding unat_eq_nat_uint by auto
  moreover have "val_max \<noteq> 0" using v by auto
  ultimately have "print_stars val_max val_max 40 = Some (replicate n CHR ''*'' @ replicate (40 - n) CHR '' '')"
    using n by (simp add: print_stars_def c_min_def Let_def to_int_in nat_diff_distrib)
  then show ?thesis using n by blast
qed

theorem print_stars_overflow_witness:
  "\<exists>n < 40. print_stars 107374183 107374183 40 = Some (replicate n CHR ''*'' @ replicate (40 - n) CHR '' '')"
  by (rule print_stars_overflow) simp

end
