(* ===== verification/Tcprtt.thy ===== *)
theory Tcprtt
  imports Bpf_Maps Hist
begin

text \<open>
  The TCP round-trip-time tool: the BPF program of \<^verbatim>\<open>plugin/libbpf-test/tcprtt.bpf.c\<close>,
  which counts smoothed round-trip times in power-of-two slots of a hash map, and the
  user-space side of \<^verbatim>\<open>tcprtt.c\<close>, which sets its filters from the command line and
  prints and clears the map once per interval.

  The map \<^verbatim>\<open>hists\<close> is a parameter with the laws of \<open>bpf_hash\<close> (for the counting) and
  \<open>bpf_iter\<close> (for the walk of \<^verbatim>\<open>print_map\<close>).  A socket is the record of the fields the
  program reads.
\<close>

section \<open>The BPF program\<close>

definition MAX_SLOTS :: nat where "MAX_SLOTS = 27"

record hist =
  latency :: u64
  cnt :: u64
  slots :: "u32 list"

definition hist_zero :: hist where
  "hist_zero = \<lparr>latency = 0, cnt = 0, slots = replicate MAX_SLOTS 0\<rparr>"

record targs =
  targ_laddr_hist :: bool
  targ_raddr_hist :: bool
  targ_show_ext :: bool
  targ_sport :: u16
  targ_dport :: u16
  targ_saddr :: u32
  targ_daddr :: u32
  targ_ms :: bool

record tcp_sock =
  inet_sport :: u16
  skc_dport :: u16
  inet_saddr :: u32
  skc_daddr :: u32
  srtt_us :: u32

definition log2 :: "u32 \<Rightarrow> u64" where
  "log2 v =
     (let r = push_bit 4 (of_bool (v > 0xFFFF)) :: u32; v = drop_bit (unat r) v;
          shift = push_bit 3 (of_bool (v > 0xFF)) :: u32; v = drop_bit (unat shift) v; r = r OR shift;
          shift = push_bit 2 (of_bool (v > 0xF)) :: u32; v = drop_bit (unat shift) v; r = r OR shift;
          shift = push_bit 1 (of_bool (v > 0x3)) :: u32; v = drop_bit (unat shift) v; r = r OR shift;
          r = r OR drop_bit 1 v
      in ucast r)"

definition log2l :: "u64 \<Rightarrow> u64" where
  "log2l v =
     (let hi = (ucast (drop_bit 32 v) :: u32)
      in if hi \<noteq> 0 then log2 hi + 32 else log2 (ucast v))"

text \<open>The value of a socket and its slot, as \<^verbatim>\<open>tcp_rcv\<close> computes them.\<close>

definition srtt_of :: "targs \<Rightarrow> tcp_sock \<Rightarrow> u32" where
  "srtt_of t sk = (let srtt = drop_bit 3 (srtt_us sk) in if targ_ms t then srtt div 1000 else srtt)"

definition slot_of :: "u32 \<Rightarrow> nat" where
  "slot_of srtt = (let slot = log2l (ucast srtt) in
     unat (if slot \<ge> of_nat MAX_SLOTS then of_nat MAX_SLOTS - 1 else slot))"

definition key_of :: "targs \<Rightarrow> tcp_sock \<Rightarrow> u64" where
  "key_of t sk =
     (if targ_laddr_hist t then ucast (inet_saddr sk)
      else if targ_raddr_hist t then ucast (skc_daddr sk) else 0)"

definition tcp_rcv :: "(('m, u64, hist) map_ops) \<Rightarrow> targs \<Rightarrow> 'm \<Rightarrow> tcp_sock \<Rightarrow> 'm option" where
  "tcp_rcv ops t m sk =
     (if targ_sport t \<noteq> 0 \<and> targ_sport t \<noteq> inet_sport sk then Some m
      else if targ_dport t \<noteq> 0 \<and> targ_dport t \<noteq> skc_dport sk then Some m
      else if targ_saddr t \<noteq> 0 \<and> targ_saddr t \<noteq> inet_saddr sk then Some m
      else if targ_daddr t \<noteq> 0 \<and> targ_daddr t \<noteq> skc_daddr sk then Some m
      else
        let key = key_of t sk
        in case bpf_map_lookup_or_try_init ops m key hist_zero of
             (m, None) \<Rightarrow> Some m
           | (m, Some h) \<Rightarrow>
               let srtt = srtt_of t sk; slot = slot_of srtt
               in if slot < length (slots h) then
                    let h = h\<lparr>slots := (slots h)[slot := slots h ! slot + 1]\<rparr>;
                        h = (if targ_show_ext t
                             then h\<lparr>latency := latency h + ucast srtt, cnt := cnt h + 1\<rparr> else h)
                    in Some (op_store ops m key h)
                  else None)"

section \<open>The user-space side\<close>

record env =
  lport :: u16
  rport :: u16
  laddr :: u32
  raddr :: u32
  milliseconds :: bool
  duration :: int
  interval :: int
  timestamp :: bool
  laddr_hist :: bool
  raddr_hist :: bool
  extended :: bool
  verbose :: bool

definition env_init :: env where
  "env_init = \<lparr>lport = 0, rport = 0, laddr = 0, raddr = 0, milliseconds = False, duration = 0,
     interval = 99999999, timestamp = False, laddr_hist = False, raddr_hist = False,
     extended = False, verbose = False\<rparr>"

text \<open>
  \<^verbatim>\<open>parse_arg\<close>: \<open>Inl\<close> is an exit of the process (\<^verbatim>\<open>argp_usage\<close>, \<^verbatim>\<open>argp_state_help\<close>), \<open>Inr\<close> the
  return value and the new environment.  \<^verbatim>\<open>inet_aton\<close> is a parameter: its
  return value (non-zero for a valid address) and the address it stores.
\<close>

datatype arg_exit = Usage | Help

definition ARGP_ERR_UNKNOWN :: int where "ARGP_ERR_UNKNOWN = 7"

definition parse_arg ::
    "(string \<Rightarrow> int \<times> u32) \<Rightarrow> char \<Rightarrow> string \<Rightarrow> env \<Rightarrow>
      arg_exit + int \<times> env" where
  "parse_arg inet_aton key arg e =
     (if key = CHR ''h'' then Inl Help
      else if key = CHR ''v'' then Inr (0, e\<lparr>verbose := True\<rparr>)
      else if key = CHR ''i'' then
        (let (v, errno, _) = strtol arg; e = e\<lparr>interval := v\<rparr>
         in if errno \<or> interval e \<le> 0 then Inl Usage else Inr (0, e))
      else if key = CHR ''d'' then
        (let (v, errno, _) = strtol arg; e = e\<lparr>duration := v\<rparr>
         in if errno \<or> duration e \<le> 0 then Inl Usage else Inr (0, e))
      else if key = CHR ''T'' then Inr (0, e\<lparr>timestamp := True\<rparr>)
      else if key = CHR ''m'' then Inr (0, e\<lparr>milliseconds := True\<rparr>)
      else if key = CHR ''p'' then
        (let (v, errno, _) = strtoul arg; e = e\<lparr>lport := ucast v\<rparr>
         in if errno then Inl Usage else Inr (0, e\<lparr>lport := bpf_htons (lport e)\<rparr>))
      else if key = CHR ''P'' then
        (let (v, errno, _) = strtoul arg; e = e\<lparr>rport := ucast v\<rparr>
         in if errno then Inl Usage else Inr (0, e\<lparr>rport := bpf_htons (rport e)\<rparr>))
      else if key = CHR ''a'' then
        (let (r, s_addr) = inet_aton arg
         in if r < 0 then Inl Usage else Inr (0, e\<lparr>laddr := bpf_htonl s_addr\<rparr>))
      else if key = CHR ''A'' then
        (let (r, s_addr) = inet_aton arg
         in if r < 0 then Inl Usage else Inr (0, e\<lparr>raddr := bpf_htonl s_addr\<rparr>))
      else if key = CHR ''b'' then Inr (0, e\<lparr>laddr_hist := True\<rparr>)
      else if key = CHR ''B'' then Inr (0, e\<lparr>raddr_hist := True\<rparr>)
      else if key = CHR ''e'' then Inr (0, e\<lparr>extended := True\<rparr>)
      else Inr (ARGP_ERR_UNKNOWN, e))"

text \<open>The assignments of \<^verbatim>\<open>main\<close> to the read-only data of the BPF object.\<close>

definition rodata_of :: "env \<Rightarrow> targs" where
  "rodata_of e = \<lparr>targ_laddr_hist = laddr_hist e, targ_raddr_hist = raddr_hist e,
     targ_show_ext = extended e, targ_sport = lport e, targ_dport = rport e,
     targ_saddr = laddr e, targ_daddr = raddr e, targ_ms = milliseconds e\<rparr>"

text \<open>
  What \<^verbatim>\<open>print_map\<close> prints for a key: which address is named, the average, the histogram.
  \<open>lookup_key\<close> starts at -1.  The loops are given as partial functions on options: not
  ending is \<open>None\<close>, as is the division by \<^verbatim>\<open>hist.cnt\<close> when it is 0.

  The BPF program goes on changing the map meanwhile: \<open>ev n\<close> is what it does before the system call number \<open>n\<close> of
  \<^verbatim>\<open>print_map\<close>, the calls being \<^verbatim>\<open>bpf_map_get_next_key\<close>, \<^verbatim>\<open>bpf_map_lookup_elem\<close> and \<^verbatim>\<open>bpf_map_delete_elem\<close> in the order in
  which they are made.
\<close>

datatype addr_label = Local_Address u32 | Remote_Addres u32 | All_Addresses

definition label_of :: "env \<Rightarrow> u64 \<Rightarrow> addr_label" where
  "label_of e k = (if laddr_hist e then Local_Address (ucast k)
     else if raddr_hist e then Remote_Addres (ucast k) else All_Addresses)"

type_synonym hist_out = "addr_label \<times> u64 option \<times> ((int \<times> int) \<times> log2_row list) option"

definition print_entry :: "env \<Rightarrow> u64 \<Rightarrow> hist \<Rightarrow> hist_out option" where
  "print_entry e k h = do {
     avg \<leftarrow> (if extended e then (if cnt h = 0 then None else Some (Some (latency h div cnt h))) else Some None);
     out \<leftarrow> print_log2_hist (slots h) MAX_SLOTS;
     Some (label_of e k, avg, out)
   }"

partial_function (option) print_loop ::
    "('m, u64, hist) map_ops \<Rightarrow> env \<Rightarrow> (nat \<Rightarrow> 'm \<Rightarrow> 'm option) \<Rightarrow> nat \<Rightarrow> 'm \<Rightarrow> u64 \<Rightarrow> hist_out list \<Rightarrow> (int \<times> hist_out list \<times> nat \<times> 'm) option" where
  "print_loop ops e ev n m lookup_key acc = Option.bind (ev n m) (\<lambda>m.
     case op_next ops m lookup_key of
       None \<Rightarrow> Some (0, acc, Suc n, m)
     | Some next_key \<Rightarrow> Option.bind (ev (Suc n) m) (\<lambda>m.
         case op_lookup ops m next_key of
           None \<Rightarrow> Some (- 1, acc, Suc (Suc n), m)
         | Some h \<Rightarrow> Option.bind (print_entry e next_key h) (\<lambda>out.
             print_loop ops e ev (Suc (Suc n)) m next_key (acc @ [out]))))"

partial_function (option) clear_loop ::
    "('m, u64, hist) map_ops \<Rightarrow> (nat \<Rightarrow> 'm \<Rightarrow> 'm option) \<Rightarrow> nat \<Rightarrow> 'm \<Rightarrow> u64 \<Rightarrow> (int \<times> 'm) option" where
  "clear_loop ops ev n m lookup_key = Option.bind (ev n m) (\<lambda>m.
     case op_next ops m lookup_key of
       None \<Rightarrow> Some (0, m)
     | Some next_key \<Rightarrow> Option.bind (ev (Suc n) m) (\<lambda>m.
         case op_delete ops m next_key of
           (err, m) \<Rightarrow> if err < 0 then Some (- 1, m) else clear_loop ops ev (Suc (Suc n)) m next_key))"

definition print_map :: "('m, u64, hist) map_ops \<Rightarrow> env \<Rightarrow> (nat \<Rightarrow> 'm \<Rightarrow> 'm option) \<Rightarrow> 'm \<Rightarrow> (int \<times> hist_out list \<times> 'm) option" where
  "print_map ops e ev m = do {
     (r, out, n, m) \<leftarrow> print_loop ops e ev 0 m (- 1) [];
     if r \<noteq> 0 then Some (r, out, m)
     else do {
       (r, m) \<leftarrow> clear_loop ops ev n m (- 1);
       Some (r, out, m)
     }
   }"

text \<open>
  \<^verbatim>\<open>main\<close>.  The command line is the list of options in order; \<open>host\<close> has the results of
  the calls before the loop and the first clock value; a poll is one round of the loop: the events in the kernel during the
  \<^verbatim>\<open>sleep\<close>, those before each of the system calls of \<^verbatim>\<open>print_map\<close> (none before the calls behind the end of this list), the
  clock afterwards and whether SIGINT has come.
  \<^verbatim>\<open>tcp_rcv\<close> sees the events when it was not disabled; the object has no program
  \<^verbatim>\<open>tcp_rcv_kprobe\<close>.  \<open>Running\<close> is a run that has not ended after the given polls.
\<close>

definition NSEC_PER_SEC :: u64 where "NSEC_PER_SEC = 1000000000"

record host =
  h_rlimit_err :: int
  h_open :: bool
  h_fentry :: bool
  h_load_err :: int
  h_attach_err :: int
  h_now :: u64

record poll =
  p_events :: "tcp_sock list"
  p_during :: "tcp_sock list list"
  p_now :: u64
  p_exiting :: bool

datatype run = Exited int | Running

fun argp_parse :: "(string \<Rightarrow> int \<times> u32) \<Rightarrow> (char \<times> string) list \<Rightarrow> env \<Rightarrow> arg_exit + int \<times> env" where
  "argp_parse inet_aton [] e = Inr (0, e)"
| "argp_parse inet_aton ((key, arg) # args) e =
     (case parse_arg inet_aton key arg e of
        Inl x \<Rightarrow> Inl x
      | Inr (err, e) \<Rightarrow> if err \<noteq> 0 then Inr (err, e) else argp_parse inet_aton args e)"

text \<open>A run of the program on a sequence of events.\<close>

fun tcp_rcv_all :: "('m, u64, hist) map_ops \<Rightarrow> targs \<Rightarrow> 'm \<Rightarrow> tcp_sock list \<Rightarrow> 'm option" where
  "tcp_rcv_all ops t m [] = Some m"
| "tcp_rcv_all ops t m (sk # sks) = Option.bind (tcp_rcv ops t m sk) (\<lambda>m. tcp_rcv_all ops t m sks)"

definition during :: "('m, u64, hist) map_ops \<Rightarrow> targs \<Rightarrow> tcp_sock list list \<Rightarrow> nat \<Rightarrow> 'm \<Rightarrow> 'm option" where
  "during ops t evs n m = (if n < length evs then tcp_rcv_all ops t m (evs ! n) else Some m)"

fun poll_loop ::
    "('m, u64, hist) map_ops \<Rightarrow> env \<Rightarrow> targs \<Rightarrow> bool \<Rightarrow> u64 \<Rightarrow> 'm \<Rightarrow> poll list \<Rightarrow>
      (run \<times> hist_out list list \<times> 'm) option" where
  "poll_loop ops e t attached time_end m [] = Some (Running, [], m)"
| "poll_loop ops e t attached time_end m (p # ps) = do {
     m \<leftarrow> (if attached then tcp_rcv_all ops t m (p_events p) else Some m);
     (err, out, m) \<leftarrow> print_map ops e (if attached then during ops t (p_during p) else (\<lambda>_. Some)) m;
     if err \<noteq> 0 then Some (Exited 1, [out], m)
     else if duration e \<noteq> 0 \<and> p_now p > time_end then Some (Exited 0, [out], m)
     else if p_exiting p then Some (Exited 0, [out], m)
     else do {
       (r, outs, m) \<leftarrow> poll_loop ops e t attached time_end m ps;
       Some (r, out # outs, m)
     }
   }"

definition tcprtt_main ::
    "(string \<Rightarrow> int \<times> u32) \<Rightarrow> ('m, u64, hist) map_ops \<Rightarrow> host \<Rightarrow> (char \<times> string) list \<Rightarrow> 'm \<Rightarrow> poll list \<Rightarrow>
      (run \<times> hist_out list list \<times> 'm) option" where
  "tcprtt_main inet_aton ops h args m ps =
     (case argp_parse inet_aton args env_init of
        Inl Usage \<Rightarrow> Some (Exited 64, [], m)
      | Inl Help \<Rightarrow> Some (Exited 0, [], m)
      | Inr (err, e) \<Rightarrow>
          if err \<noteq> 0 then Some (Exited err, [], m)
          else if h_rlimit_err h \<noteq> 0 then Some (Exited 1, [], m)
          else if \<not> h_open h then Some (Exited 1, [], m)
          else
            let t = rodata_of e; attached = \<not> h_fentry h
            in if h_load_err h \<noteq> 0 then Some (Exited 1, [], m)
               else if h_attach_err h \<noteq> 0 then Some (Exited 1, [], m)
               else
                 let time_end = (if duration e \<noteq> 0 then h_now h + of_int (duration e) * NSEC_PER_SEC else 0)
                 in poll_loop ops e t attached time_end m ps)"

section \<open>Slots\<close>

text \<open>The shift that a test of \<^verbatim>\<open>log2\<close> selects.\<close>

definition sh :: "nat \<Rightarrow> u32 \<Rightarrow> nat" where
  "sh s x = (if x > 2 ^ s - 1 then s else 0)"

lemma sh_unat:
  assumes "s < 32"
  shows "sh s x = (if 2 ^ s \<le> unat x then s else 0)"
proof -
  have p: "unat (2 ^ s :: u32) = 2 ^ s"
  proof -
    have "(2 :: nat) ^ s < 2 ^ 32" using assms by (intro power_strict_increasing) auto
    moreover have "2 ^ s = (of_nat (2 ^ s) :: u32)" by simp
    ultimately show ?thesis by (simp only: unat_of_nat take_bit_eq_mod) simp
  qed
  then have "unat (2 ^ s - 1 :: u32) = 2 ^ s - 1"
    by (subst unat_minus_one) (auto simp: unat_eq_zero [symmetric])
  moreover have "2 ^ s - 1 < k \<longleftrightarrow> 2 ^ s \<le> k" for k :: nat
    using zero_less_power [of "2 :: nat" s] by linarith
  ultimately show ?thesis unfolding sh_def word_less_nat_alt by (simp only:)
qed

lemma sh_step:
  assumes "s < 32" and "unat x = n div 2 ^ r" and "0 < unat x" and "unat x < 2 ^ (s + s)"
  shows "unat (drop_bit (sh s x) x) = n div 2 ^ (r + sh s x)" "0 < unat (drop_bit (sh s x) x)"
    "unat (drop_bit (sh s x) x) < 2 ^ s"
proof -
  show "unat (drop_bit (sh s x) x) = n div 2 ^ (r + sh s x)"
    by (simp add: unat_drop_bit_div assms(2) div_mult2_eq power_add)
  have "0 < unat x div 2 ^ s" if "2 ^ s \<le> unat x" using that by (simp add: div_greater_zero_iff)
  then show "0 < unat (drop_bit (sh s x) x)" using assms(3) by (simp add: unat_drop_bit_div sh_unat [OF assms(1)])
  have "unat x div 2 ^ s < 2 ^ s" using assms(4) by (simp add: div_less_iff_less_mult power_add)
  then show "unat (drop_bit (sh s x) x) < 2 ^ s" by (simp add: unat_drop_bit_div sh_unat [OF assms(1)])
qed

lemma log2_alt:
  assumes "v1 = drop_bit (sh 16 v) v" "v2 = drop_bit (sh 8 v1) v1" "v3 = drop_bit (sh 4 v2) v2"
    "v4 = drop_bit (sh 2 v3) v3" "drop_bit 1 v4 = 0 \<or> drop_bit 1 v4 = 1"
  shows "unat (log2 v) = sh 16 v + sh 8 v1 + sh 4 v2 + sh 2 v3 + unat (drop_bit 1 v4)"
proof -
  have u: "unat (push_bit 4 (of_bool (v > 0xFFFF)) :: u32) = sh 16 v"
    "\<And>w :: u32. unat (push_bit 3 (of_bool (w > 0xFF)) :: u32) = sh 8 w"
    "\<And>w :: u32. unat (push_bit 2 (of_bool (w > 0xF)) :: u32) = sh 4 w"
    "\<And>w :: u32. unat (push_bit 1 (of_bool (w > 0x3)) :: u32) = sh 2 w"
    by (simp_all add: sh_def)
  have l: "log2 v = ucast (push_bit 4 (of_bool (v > 0xFFFF)) OR push_bit 3 (of_bool (v1 > 0xFF)) OR
     push_bit 2 (of_bool (v2 > 0xF)) OR push_bit 1 (of_bool (v3 > 0x3)) OR drop_bit 1 v4 :: u32)"
    unfolding log2_def Let_def u assms(1-4) by (simp only: or.assoc)
  show ?thesis unfolding l using assms(5)
    by (cases "v > 0xFFFF"; cases "v1 > 0xFF"; cases "v2 > 0xF"; cases "v3 > 0x3") (auto simp: sh_def)
qed

lemma log2_floor:
  assumes "v \<noteq> 0"
  shows "2 ^ unat (log2 v) \<le> unat v" "unat v < 2 ^ (unat (log2 v) + 1)"
proof -
  define v1 where "v1 = drop_bit (sh 16 v) v"
  define v2 where "v2 = drop_bit (sh 8 v1) v1"
  define v3 where "v3 = drop_bit (sh 4 v2) v2"
  define v4 where "v4 = drop_bit (sh 2 v3) v3"
  have v: "unat v < 2 ^ (16 + 16)" "0 < unat v" "unat v = unat v div 2 ^ 0"
    using assms unat_lt [of v] by (auto simp: unat_gt_0)
  note s1 = sh_step [OF _ v(3,2,1), folded v1_def, simplified]
  have 2: "unat v1 < 2 ^ (8 + 8)" using s1 by simp
  note s2 = sh_step [OF _ s1(1,2) 2, folded v2_def, simplified]
  have 3: "unat v2 < 2 ^ (4 + 4)" using s2 by simp
  note s3 = sh_step [OF _ s2(1,2) 3, folded v3_def, simplified]
  have 4: "unat v3 < 2 ^ (2 + 2)" using s3 by simp
  note s4 = sh_step [OF _ s3(1,2) 4, folded v4_def, simplified]
  define R where "R = sh 16 v + sh 8 v1 + sh 4 v2 + sh 2 v3"
  have d: "unat v4 = unat v div 2 ^ R" "0 < unat v4" "unat v4 < 4" using s4 by (simp_all add: R_def add.assoc)
  define b where "b = unat v4 div 2"
  have b: "unat (drop_bit 1 v4) = b" by (simp add: unat_drop_bit_div b_def)
  have "b = 0 \<or> b = 1" using d by (auto simp: b_def)
  then have "drop_bit 1 v4 = 0 \<or> drop_bit 1 v4 = 1" using b by (metis unat_0 unat_1 word_unat_eq_iff)
  then have L: "unat (log2 v) = R + b"
    using log2_alt [OF v1_def v2_def v3_def v4_def] b by (simp add: R_def)
  have "unat v4 div 2 ^ b = 1" using \<open>b = 0 \<or> b = 1\<close> d b_def by auto
  then have one: "unat v div 2 ^ (R + b) = 1" by (simp add: d(1) power_add div_mult2_eq)
  have p: "0 < (2 :: nat) ^ (R + b)" by simp
  have "2 ^ (R + b) \<le> unat v" using one p by (metis div_less not_less zero_neq_one)
  then show "2 ^ unat (log2 v) \<le> unat v" by (simp only: L)
  have "unat v < 2 ^ (R + b) * 2" using one p by (metis dividend_less_times_div mult.commute mult_2 mult.right_neutral)
  then show "unat v < 2 ^ (unat (log2 v) + 1)" by (simp add: L mult.commute)
qed
lemma log2_0 [simp]: "log2 0 = 0"
  by (simp add: log2_def)

lemma log2_less: "unat (log2 v) < 32"
proof (cases "v = 0")
  case False
  have "(2 :: nat) ^ unat (log2 v) < 2 ^ 32"
    using log2_floor(1) [OF False] unat_lt [of v] by simp
  then show ?thesis by (rule power_less_imp_less_exp [rotated]) simp
qed simp

lemma log2l_floor:
  assumes "v \<noteq> 0"
  shows "2 ^ unat (log2l v) \<le> unat v" "unat v < 2 ^ (unat (log2l v) + 1)"
proof -
  define hi where "hi = (ucast (drop_bit 32 v) :: u32)"
  have h: "unat hi = unat v div 2 ^ 32"
    using unat_lt [of v] by (simp add: hi_def unat_ucast_mod unat_drop_bit_div div_less_iff_less_mult)
  have "2 ^ unat (log2l v) \<le> unat v \<and> unat v < 2 ^ (unat (log2l v) + 1)"
  proof (cases "hi = 0")
    case True
    then have small: "unat v < 2 ^ 32" using h by (simp add: div_eq_0_iff)
    then have "unat (ucast v :: u32) = unat v" by (simp add: unat_ucast_mod)
    moreover from this have "(ucast v :: u32) \<noteq> 0" using assms by (metis unat_0 unat_eq_zero)
    ultimately show ?thesis using log2_floor [of "ucast v"] True by (simp add: log2l_def hi_def [symmetric])
  next
    case False
    have "unat (log2 hi + 32) = unat (log2 hi) + 32"
      using log2_less [of hi] by (subst unat_add_lem [THEN iffD1]) auto
    then have L: "unat (log2l v) = unat (log2 hi) + 32" using False by (simp add: log2l_def hi_def [symmetric])
    have d: "unat v = unat hi * 4294967296 + unat v mod 4294967296" unfolding h by simp
    have m: "unat v mod 4294967296 < 4294967296" by simp
    define p where "p = (2 :: nat) ^ unat (log2 hi)"
    have "p \<le> unat hi" "unat hi + 1 \<le> p * 2" using log2_floor [OF False] by (simp_all add: p_def)
    then have "p * 4294967296 \<le> unat v" "unat v < p * 2 * 4294967296" using d m by linarith+
    then show ?thesis by (simp add: L power_add p_def)
  qed
  then show "2 ^ unat (log2l v) \<le> unat v" "unat v < 2 ^ (unat (log2l v) + 1)" by auto
qed

lemma slot_of_spec:
  "slot_of srtt < 27"
  "slot_of srtt = 26 \<longrightarrow> 2 ^ 26 \<le> unat srtt"
  "0 < slot_of srtt \<longrightarrow> 2 ^ slot_of srtt \<le> unat srtt"
  "slot_of srtt < 26 \<longrightarrow> unat srtt < 2 ^ (slot_of srtt + 1)"
proof -
  let ?v = "ucast srtt :: u64"
  have v: "unat ?v = unat srtt" by (rule unat_ucast_up) simp
  have s: "slot_of srtt = min 26 (unat (log2l ?v))"
    by (auto simp: slot_of_def MAX_SLOTS_def Let_def word_le_nat_alt min_def)
  have "(unat srtt = 0 \<and> unat (log2l ?v) = 0) \<or>
      (2 ^ unat (log2l ?v) \<le> unat srtt \<and> unat srtt < 2 ^ (unat (log2l ?v) + 1))"
  proof (cases "srtt = 0")
    case True
    then show ?thesis by (simp add: log2l_def)
  next
    case False
    then have "?v \<noteq> 0" using v by (metis unat_0 unat_eq_zero)
    then show ?thesis using log2l_floor [of ?v] v by simp
  qed
  note * = this
  have mono: "2 ^ 26 \<le> (2 :: nat) ^ unat (log2l ?v)" if "26 \<le> unat (log2l ?v)"
    using that by (intro power_increasing) auto
  show "slot_of srtt < 27" by (simp add: s)
  show "slot_of srtt = 26 \<longrightarrow> 2 ^ 26 \<le> unat srtt"
    using * mono by (auto simp: s min_def split: if_splits)
  then show "0 < slot_of srtt \<longrightarrow> 2 ^ slot_of srtt \<le> unat srtt"
    using * by (auto simp: s min_def split: if_splits)
  show "slot_of srtt < 26 \<longrightarrow> unat srtt < 2 ^ (slot_of srtt + 1)"
    using * by (auto simp: s min_def split: if_splits)
qed

section \<open>Counting\<close>

text \<open>The abstract aggregator: which events count, and what one event does to a histogram.\<close>

definition passes :: "targs \<Rightarrow> tcp_sock \<Rightarrow> bool" where
  "passes t sk \<longleftrightarrow> (targ_sport t = 0 \<or> targ_sport t = inet_sport sk) \<and>
     (targ_dport t = 0 \<or> targ_dport t = skc_dport sk) \<and>
     (targ_saddr t = 0 \<or> targ_saddr t = inet_saddr sk) \<and>
     (targ_daddr t = 0 \<or> targ_daddr t = skc_daddr sk)"

definition count_rtt :: "targs \<Rightarrow> tcp_sock \<Rightarrow> hist \<Rightarrow> hist" where
  "count_rtt t sk h =
     (let srtt = srtt_of t sk; s = slot_of srtt; h = h\<lparr>slots := (slots h)[s := slots h ! s + 1]\<rparr>
      in if targ_show_ext t then h\<lparr>latency := latency h + ucast srtt, cnt := cnt h + 1\<rparr> else h)"

definition hists_ok :: "('m, u64, hist) map_ops \<Rightarrow> 'm \<Rightarrow> bool" where
  "hists_ok ops m \<longleftrightarrow> (\<forall>k h. op_lookup ops m k = Some h \<longrightarrow> length (slots h) = MAX_SLOTS)"

lemma tcp_rcv_cases:
  assumes "bpf_hash ops" and "hists_ok ops m"
  obtains (filtered) "\<not> passes t sk" "tcp_rcv ops t m sk = Some m"
  | (full) m' where "passes t sk" "bpf_map_lookup_or_try_init ops m (key_of t sk) hist_zero = (m', None)"
      "tcp_rcv ops t m sk = Some m'" "op_lookup ops m' = op_lookup ops m"
  | (counted) m' where "passes t sk" "tcp_rcv ops t m sk = Some m'"
      "op_lookup ops m' = (op_lookup ops m)(key_of t sk \<mapsto> count_rtt t sk
         (case op_lookup ops m (key_of t sk) of Some h \<Rightarrow> h | None \<Rightarrow> hist_zero))"
proof (cases "passes t sk")
  case False
  then show ?thesis using filtered by (auto simp: passes_def tcp_rcv_def)
next
  case True
  let ?k = "key_of t sk"
  have e: "tcp_rcv ops t m sk = (case bpf_map_lookup_or_try_init ops m ?k hist_zero of
      (m, None) \<Rightarrow> Some m
    | (m, Some h) \<Rightarrow> if slot_of (srtt_of t sk) < length (slots h)
        then Some (op_store ops m ?k (count_rtt t sk h)) else None)"
    using True by (auto simp: tcp_rcv_def passes_def count_rtt_def Let_def split: prod.splits option.splits)
  obtain m1 r where i: "bpf_map_lookup_or_try_init ops m ?k hist_zero = (m1, r)" by fastforce
  show ?thesis
  proof (cases r)
    case None
    then show ?thesis using full True e i bpf_hash.try_init_None [OF assms(1)] by auto
  next
    case (Some h)
    then have h: "op_lookup ops m1 = (op_lookup ops m)(?k \<mapsto> h)"
      "h = (case op_lookup ops m ?k of Some w \<Rightarrow> w | None \<Rightarrow> hist_zero)"
      using bpf_hash.try_init_Some [OF assms(1)] i by auto
    have "length (slots h) = 27"
      using h(2) assms(2) by (auto simp: hists_ok_def hist_zero_def MAX_SLOTS_def split: option.splits)
    then have c: "tcp_rcv ops t m sk = Some (op_store ops m1 ?k (count_rtt t sk h))"
      using e i Some slot_of_spec(1) by simp
    have "op_lookup ops (op_store ops m1 ?k (count_rtt t sk h)) = (op_lookup ops m1)(?k \<mapsto> count_rtt t sk h)"
      by (rule bpf_map.store_ok [OF bpf_hash.axioms(1) [OF assms(1)]]) (simp add: h)
    then show ?thesis using counted [OF True c] h by simp
  qed
qed

lemma count_rtt_slots [simp]: "length (slots (count_rtt t sk h)) = length (slots h)"
  by (simp add: count_rtt_def Let_def)

lemma tcp_rcv_hists_ok:
  assumes "bpf_hash ops" and "hists_ok ops m"
  shows "\<exists>m'. tcp_rcv ops t m sk = Some m' \<and> hists_ok ops m'"
  using assms
proof (cases rule: tcp_rcv_cases [where t = t and sk = sk])
  case (counted m')
  then show ?thesis using assms(2)
    by (auto simp: hists_ok_def hist_zero_def split: option.splits)
qed (use assms(2) in \<open>auto simp: hists_ok_def\<close>)

text \<open>What the map should hold: per key, the histogram of the events that pass and have that key.\<close>

definition events_of :: "targs \<Rightarrow> u64 \<Rightarrow> tcp_sock list \<Rightarrow> tcp_sock list" where
  "events_of t k sks = filter (\<lambda>sk. passes t sk \<and> key_of t sk = k) sks"

definition hist_of :: "targs \<Rightarrow> tcp_sock list \<Rightarrow> hist" where
  "hist_of t es = fold (count_rtt t) es hist_zero"

definition rtt_map :: "targs \<Rightarrow> tcp_sock list \<Rightarrow> u64 \<Rightarrow> hist option" where
  "rtt_map t sks k = (case events_of t k sks of [] \<Rightarrow> None | es \<Rightarrow> Some (hist_of t es))"

definition used_keys :: "targs \<Rightarrow> tcp_sock list \<Rightarrow> u64 set" where
  "used_keys t sks = key_of t ` {sk \<in> set sks. passes t sk}"

lemma rtt_map_dom: "dom (rtt_map t sks) = used_keys t sks"
proof -
  have "rtt_map t sks k \<noteq> None \<longleftrightarrow> events_of t k sks \<noteq> []" for k by (auto simp: rtt_map_def split: list.splits)
  then show ?thesis by (auto simp: dom_def used_keys_def events_of_def filter_empty_conv)
qed

lemma rtt_map_snoc:
  "rtt_map t (sks @ [sk]) = (if passes t sk then (rtt_map t sks)(key_of t sk \<mapsto> count_rtt t sk
     (case rtt_map t sks (key_of t sk) of Some h \<Rightarrow> h | None \<Rightarrow> hist_zero)) else rtt_map t sks)"
  by (rule ext) (auto simp: rtt_map_def events_of_def hist_of_def split: list.splits)

lemma tcp_rcv_all_snoc:
  "tcp_rcv_all ops t m (sks @ [sk]) = Option.bind (tcp_rcv_all ops t m sks) (\<lambda>m. tcp_rcv ops t m sk)"
proof (induction sks arbitrary: m)
  case Nil
  show ?case by (cases "tcp_rcv ops t m sk") auto
next
  case (Cons a sks)
  then show ?case by (cases "tcp_rcv ops t m a") auto
qed

lemma slots_hist_of:
  assumes "s < MAX_SLOTS"
  shows "length (slots (hist_of t es)) = MAX_SLOTS"
    "slots (hist_of t es) ! s = of_nat (length (filter (\<lambda>sk. slot_of (srtt_of t sk) = s) es))"
    "targ_show_ext t \<Longrightarrow> cnt (hist_of t es) = of_nat (length es)"
    "targ_show_ext t \<Longrightarrow> latency (hist_of t es) = (\<Sum>sk\<leftarrow>es. ucast (srtt_of t sk))"
  using assms
  by (induction es rule: rev_induct)
    (auto simp: hist_of_def hist_zero_def count_rtt_def Let_def nth_list_update)

lemma tcp_rcv_all_correct:
  assumes "bpf_room ops max_entries" and "op_lookup ops m = Map.empty"
    and "card (used_keys t sks) \<le> max_entries"
  shows "\<exists>m'. tcp_rcv_all ops t m sks = Some m' \<and> op_lookup ops m' = rtt_map t sks"
  using assms(3)
proof (induction sks rule: rev_induct)
  case Nil
  then show ?case using assms(2) by (auto simp: rtt_map_def events_of_def)
next
  case (snoc sk sks)
  have h: "bpf_hash ops" using assms(1) by (rule bpf_room.axioms)
  have fin: "finite (used_keys t (sks @ [sk]))" by (simp add: used_keys_def)
  have "used_keys t sks \<subseteq> used_keys t (sks @ [sk])" by (auto simp: used_keys_def)
  then have "card (used_keys t sks) \<le> max_entries" using card_mono [OF fin] snoc.prems by (meson order_trans)
  then obtain m1 where m1: "tcp_rcv_all ops t m sks = Some m1" "op_lookup ops m1 = rtt_map t sks"
    using snoc.IH by auto
  have ok: "hists_ok ops m1"
    using m1(2) slots_hist_of(1) [of 0] by (auto simp: hists_ok_def rtt_map_def MAX_SLOTS_def split: list.splits)
  from h ok show ?case
  proof (cases rule: tcp_rcv_cases [where t = t and sk = sk])
    case filtered
    then show ?thesis using m1 by (simp add: tcp_rcv_all_snoc rtt_map_snoc)
  next
    case (full m')
    have "insert (key_of t sk) (dom (op_lookup ops m1)) \<subseteq> used_keys t (sks @ [sk])"
      using full(1) by (auto simp: m1(2) rtt_map_dom used_keys_def)
    then have "card (insert (key_of t sk) (dom (op_lookup ops m1))) \<le> max_entries"
      using card_mono [OF fin] snoc.prems by (meson order_trans)
    then show ?thesis
      using bpf_room.try_init_room [OF assms(1), of m1 "key_of t sk" hist_zero] full(2)
      by (simp add: m1(2) rtt_map_dom used_keys_def)
  next
    case (counted m')
    then show ?thesis using m1 by (simp add: tcp_rcv_all_snoc rtt_map_snoc fun_upd_def)
  qed
qed

section \<open>Printing and clearing\<close>

lemma print_entry_total:
  assumes "length (slots h) = MAX_SLOTS" and "extended e \<longrightarrow> cnt h \<noteq> 0"
  shows "\<exists>out. print_entry e k h = Some out"
  using print_log2_hist_total [of MAX_SLOTS "slots h"] assms by (auto simp: print_entry_def MAX_SLOTS_def)

definition printable :: "env \<Rightarrow> ('m, u64, hist) map_ops \<Rightarrow> 'm \<Rightarrow> bool" where
  "printable e ops m \<longleftrightarrow> hists_ok ops m \<and>
     (extended e \<longrightarrow> (\<forall>k h. op_lookup ops m k = Some h \<longrightarrow> cnt h \<noteq> 0)) \<and> op_lookup ops m (- 1) = None"

definition entry_out :: "env \<Rightarrow> ('m, u64, hist) map_ops \<Rightarrow> 'm \<Rightarrow> u64 \<Rightarrow> hist_out" where
  "entry_out e ops m k = the (print_entry e k (the (op_lookup ops m k)))"

text \<open>\<open>silent_from ev n\<close>: from the call \<open>n\<close> on nothing happens to the map.\<close>

definition silent_from :: "(nat \<Rightarrow> 'm \<Rightarrow> 'm option) \<Rightarrow> nat \<Rightarrow> bool" where
  "silent_from ev n \<longleftrightarrow> (\<forall>i \<ge> n. \<forall>m. ev i m = Some m)"

lemma silent_fromD: "silent_from ev n \<Longrightarrow> n \<le> i \<Longrightarrow> ev i m = Some m" by (simp add: silent_from_def)

lemma print_loop_suffix:
  assumes "bpf_iter ops keys" and "printable e ops m" and "keys m = pre @ suf"
    and "if pre = [] then lookup_key \<notin> set (keys m) else lookup_key = last pre" and "silent_from ev n"
  shows "\<exists>n' \<ge> n. print_loop ops e ev n m lookup_key acc = Some (0, acc @ map (entry_out e ops m) suf, n', m)"
proof -
  have dom: "set (keys m) = dom (op_lookup ops m)" using assms(1) by (rule bpf_iter.keys_dom)
  show ?thesis using assms(3-5)
  proof (induction suf arbitrary: pre lookup_key acc n)
    case Nil
    then show ?case using bpf_iter.next_suffix [OF assms(1) Nil(1,2)] silent_fromD [OF Nil(3)]
      by (subst print_loop.simps) (auto intro: exI [of _ "Suc n"])
  next
    case (Cons k suf)
    have nx: "op_next ops m lookup_key = Some k" using bpf_iter.next_suffix [OF assms(1) Cons.prems(1,2)] by simp
    have "k \<in> dom (op_lookup ops m)" using dom Cons.prems by auto
    then obtain h where h: "op_lookup ops m k = Some h" by auto
    moreover obtain out where "print_entry e k h = Some out"
      using print_entry_total [of h e k] assms(2) h by (auto simp: printable_def hists_ok_def)
    moreover have "silent_from ev (Suc (Suc n))" using Cons.prems(3) by (simp add: silent_from_def)
    ultimately show ?case
      using nx Cons.IH [of "pre @ [k]" k "Suc (Suc n)" "acc @ [out]"] Cons.prems silent_fromD [OF Cons.prems(3)]
      by (subst print_loop.simps) (auto simp: entry_out_def intro: le_trans [of n "Suc (Suc n)"])
  qed
qed

lemma after_in: "after xs k = Some y \<Longrightarrow> y \<in> set xs"
  by (induction xs) (auto split: if_splits list.splits)

lemma key_after_in: "key_after xs k = Some y \<Longrightarrow> y \<in> set xs"
  by (auto simp: key_after_def dest: after_in split: if_splits list.splits)

lemma delete_next:
  assumes "bpf_iter ops keys" and "op_next ops m lookup_key = Some k" and "dom (op_lookup ops m) \<subseteq> dom (op_lookup ops m1)"
  obtains m2 where "op_delete ops m1 k = (0, m2)" "op_lookup ops m2 = (op_lookup ops m1)(k := None)" "length (keys m2) < length (keys m1)"
proof -
  note dom = bpf_iter.keys_dom [OF assms(1)] and d = bpf_iter.keys_distinct [OF assms(1)]
  have "k \<in> set (keys m)" using assms(2) bpf_iter.next_ok [OF assms(1)] key_after_in by metis
  then have "op_lookup ops m1 k \<noteq> None" using assms(3) dom [of m] by auto
  moreover obtain err m2 where del: "op_delete ops m1 k = (err, m2)" by fastforce
  ultimately have m2: "err = 0" "op_lookup ops m2 = (op_lookup ops m1)(k := None)"
    using bpf_hash.delete_ok [OF bpf_iter.axioms(1) [OF assms(1)]] by blast+
  have k2: "set (keys m2) = set (keys m1) - {k}" using dom [of m1] dom [of m2] m2(2) by auto
  have "k \<in> set (keys m1)" using dom [of m1] \<open>op_lookup ops m1 k \<noteq> None\<close> by auto
  then have "length (keys m2) < length (keys m1)" using k2 d [of m1] d [of m2] by (metis card_Diff1_less distinct_card finite_set)
  then show ?thesis using that del m2 by simp
qed

lemma clear_loop_empties:
  assumes "bpf_iter ops keys" and "lookup_key \<notin> set (keys m)" and "silent_from ev n"
  shows "\<exists>m'. clear_loop ops ev n m lookup_key = Some (0, m') \<and> op_lookup ops m' = Map.empty"
  using assms(2,3)
proof (induction "length (keys m)" arbitrary: m lookup_key n rule: less_induct)
  case less
  note dom = bpf_iter.keys_dom [OF assms(1)] and si = silent_fromD [OF less.prems(2)]
  have nx: "op_next ops m lookup_key = (case keys m of [] \<Rightarrow> None | y # _ \<Rightarrow> Some y)"
    using bpf_iter.next_ok [OF assms(1)] key_after_fresh [OF less.prems(1)] by simp
  show ?case
  proof (cases "keys m")
    case Nil
    then have "op_lookup ops m = Map.empty" using dom [of m] by (metis dom_eq_empty_conv list.set(1))
    then show ?thesis using nx Nil si by (subst clear_loop.simps) simp
  next
    case (Cons k ks)
    then have nk: "op_next ops m lookup_key = Some k" using nx by simp
    obtain m1 where m1: "op_delete ops m k = (0, m1)" "op_lookup ops m1 = (op_lookup ops m)(k := None)" "length (keys m1) < length (keys m)"
      by (rule delete_next [OF assms(1) nk order_refl])
    have "k \<notin> set (keys m1)" using dom [of m1] m1(2) by auto
    moreover have "silent_from ev (Suc (Suc n))" using less.prems(2) by (simp add: silent_from_def)
    ultimately obtain m' where "clear_loop ops ev (Suc (Suc n)) m1 k = Some (0, m')" "op_lookup ops m' = Map.empty"
      using less.hyps [OF m1(3), of k "Suc (Suc n)"] by auto
    then show ?thesis using nk m1 si by (subst clear_loop.simps) simp
  qed
qed

lemma print_map_spec:
  assumes "bpf_iter ops keys" and "printable e ops m" and "silent_from ev 0"
  shows "\<exists>m'. print_map ops e ev m = Some (0, map (entry_out e ops m) (keys m), m') \<and> op_lookup ops m' = Map.empty"
proof -
  have k: "- 1 \<notin> set (keys m)"
    using assms(2) bpf_iter.keys_dom [OF assms(1)] by (auto simp: printable_def)
  then obtain n where p: "print_loop ops e ev 0 m (- 1) [] = Some (0, map (entry_out e ops m) (keys m), n, m)"
    using print_loop_suffix [OF assms(1,2), of "[]" "keys m" "- 1" ev 0 "[]"] assms(3) by auto
  have "silent_from ev n" using assms(3) by (simp add: silent_from_def)
  then obtain m' where "clear_loop ops ev n m (- 1) = Some (0, m')" "op_lookup ops m' = Map.empty"
    using clear_loop_empties [OF assms(1) k] by blast
  then show ?thesis using p by (simp add: print_map_def)
qed

text \<open>
  While the program goes on counting: what it does keeps an invariant \<open>good\<close>, which makes the map printable, removes no key, and stops
  before some call \<open>b\<close>.
\<close>

definition tame :: "('m, u64, hist) map_ops \<Rightarrow> env \<Rightarrow> (nat \<Rightarrow> 'm \<Rightarrow> 'm option) \<Rightarrow> nat \<Rightarrow> (nat \<Rightarrow> 'm \<Rightarrow> bool) \<Rightarrow> bool" where
  "tame ops e ev b good \<longleftrightarrow> silent_from ev b \<and>
     (\<forall>n m. good n m \<longrightarrow> printable e ops m \<and>
       (\<exists>m'. ev n m = Some m' \<and> good (Suc n) m' \<and> dom (op_lookup ops m) \<subseteq> dom (op_lookup ops m')) \<and>
       (\<forall>k m'. op_lookup ops m' = (op_lookup ops m)(k := None) \<longrightarrow> good n m'))"

lemma tameD:
  assumes "tame ops e ev b good" and "good n m"
  obtains m' where "ev n m = Some m'" "good (Suc n) m'" "dom (op_lookup ops m) \<subseteq> dom (op_lookup ops m')"
  using assms unfolding tame_def by blast

lemma print_loop_total:
  assumes "bpf_iter ops keys" and t: "tame ops e ev b good" and "good n m"
  shows "\<exists>out n' m'. print_loop ops e ev n m lookup_key acc = Some (0, out, n', m') \<and> good n' m'"
  using assms(3)
proof (induction "b - n" arbitrary: n m lookup_key acc rule: less_induct)
  case less
  show ?case
  proof (cases "n < b")
    case True
    obtain m1 where m1: "ev n m = Some m1" "good (Suc n) m1" by (rule tameD [OF t less.prems])
    show ?thesis
    proof (cases "op_next ops m1 lookup_key")
      case None
      then show ?thesis using m1 by (subst print_loop.simps) auto
    next
      case (Some k)
      obtain m2 where m2: "ev (Suc n) m1 = Some m2" "good (Suc (Suc n)) m2" "dom (op_lookup ops m1) \<subseteq> dom (op_lookup ops m2)"
        by (rule tameD [OF t m1(2)])
      have "k \<in> set (keys m1)" using Some bpf_iter.next_ok [OF assms(1)] key_after_in by metis
      then obtain h where h: "op_lookup ops m2 k = Some h" using m2(3) bpf_iter.keys_dom [OF assms(1), of m1] by auto
      have "printable e ops m2" using t m2(2) by (auto simp: tame_def)
      then obtain out where out: "print_entry e k h = Some out"
        using print_entry_total [of h e k] h by (auto simp: printable_def hists_ok_def)
      have "b - Suc (Suc n) < b - n" using True by simp
      from less.hyps [OF this m2(2), of k "acc @ [out]"] show ?thesis using m1 m2 Some h out by (subst print_loop.simps) simp
    qed
  next
    case False
    then have si: "silent_from ev n" using t by (auto simp: tame_def silent_from_def)
    have pr: "printable e ops m" using t less.prems by (auto simp: tame_def)
    obtain pre suf where ps: "keys m = pre @ suf" "if pre = [] then lookup_key \<notin> set (keys m) else lookup_key = last pre"
    proof (cases "lookup_key \<in> set (keys m)")
      case True
      then obtain xs ys where "keys m = xs @ lookup_key # ys" using split_list by metis
      then show ?thesis using that [of "xs @ [lookup_key]" ys] by simp
    qed (use that [of "[]" "keys m"] in simp)
    have mono: "good i m" if "n \<le> i" for i using that
    proof (induction i rule: dec_induct)
      case (step i)
      obtain m' where "ev i m = Some m'" "good (Suc i) m'" by (rule tameD [OF t step.IH])
      then show ?case using silent_fromD [OF si step(1)] by simp
    qed (rule less.prems)
    show ?thesis using print_loop_suffix [OF assms(1) pr ps si, of acc] mono by blast
  qed
qed

lemma clear_loop_total:
  assumes "bpf_iter ops keys" and t: "tame ops e ev b good" and "good n m"
  shows "\<exists>n' m'. clear_loop ops ev n m lookup_key = Some (0, m') \<and> good n' m'"
  using assms(3)
proof (induction "(b - n, length (keys m))" arbitrary: n m lookup_key rule: wf_induct_rule [OF wf_lex_prod [OF wf_less_than wf_less_than]])
  case (1 n m lookup_key)
  obtain m1 where m1: "ev n m = Some m1" "good (Suc n) m1" by (rule tameD [OF t "1.prems"])
  show ?case
  proof (cases "op_next ops m1 lookup_key")
    case None
    then show ?thesis using m1 by (subst clear_loop.simps) auto
  next
    case (Some k)
    obtain m2 where m2: "ev (Suc n) m1 = Some m2" "good (Suc (Suc n)) m2" "dom (op_lookup ops m1) \<subseteq> dom (op_lookup ops m2)"
      by (rule tameD [OF t m1(2)])
    obtain m3 where m3: "op_delete ops m2 k = (0, m3)" "op_lookup ops m3 = (op_lookup ops m2)(k := None)" "length (keys m3) < length (keys m2)"
      by (rule delete_next [OF assms(1) Some m2(3)])
    have i3: "good (Suc (Suc n)) m3" using t m2(2) m3(2) by (auto simp: tame_def)
    have "((b - Suc (Suc n), length (keys m3)), (b - n, length (keys m))) \<in> less_than <*lex*> less_than"
    proof (cases "n < b")
      case False
      then have "silent_from ev n" using t by (auto simp: tame_def silent_from_def)
      then have "m1 = m" "m2 = m1" using silent_fromD [of ev n] m1(1) m2(1) by (metis le_refl option.inject, metis le_SucI le_refl option.inject)
      then show ?thesis using False m3(3) by simp
    next
      case True
      then have "b - Suc (Suc n) < b - n" by linarith
      then show ?thesis by simp
    qed
    from "1.hyps" [OF this i3, of k] show ?thesis using m1 m2 m3 Some by (subst clear_loop.simps) auto
  qed
qed

lemma print_map_total:
  assumes "bpf_iter ops keys" and "tame ops e ev b good" and "good 0 m"
  shows "\<exists>out n m'. print_map ops e ev m = Some (0, out, m') \<and> good n m'"
proof -
  obtain out n m1 where 1: "print_loop ops e ev 0 m (- 1) [] = Some (0, out, n, m1)" "good n m1"
    using print_loop_total [OF assms, of "- 1" "[]"] by blast
  obtain n' m2 where "clear_loop ops ev n m1 (- 1) = Some (0, m2)" "good n' m2" using clear_loop_total [OF assms(1,2) 1(2)] by blast
  then show ?thesis using 1(1) by (auto simp: print_map_def)
qed

section \<open>A whole run\<close>

lemma key_of_not_max: "key_of t sk \<noteq> - 1"
proof -
  have "unat (key_of t sk) < 2 ^ 32"
    using unat_lt [of "inet_saddr sk"] unat_lt [of "skc_daddr sk"] by (auto simp: key_of_def unat_ucast_up)
  moreover have "unat (- 1 :: u64) = 2 ^ 64 - 1" by (simp add: unsigned_minus_1_eq_mask mask_eq_exp_minus_1)
  ultimately show ?thesis by auto
qed

lemma cnt_hist_of:
  assumes "targ_show_ext t" and "es \<noteq> []" and "length es < 2 ^ 64"
  shows "cnt (hist_of t es) \<noteq> 0"
proof -
  have "cnt (hist_of t es) = of_nat (length es)" using slots_hist_of(3) [of 0 t es] assms(1) by (simp add: MAX_SLOTS_def)
  then have "unat (cnt (hist_of t es)) = length es" using assms(3) by (simp add: unat_of_nat take_bit_eq_mod)
  then show ?thesis using assms(2) by auto
qed

text \<open>The events of a poll, and the polls that are not disturbed: no event that counts comes while the map is printed and cleared.\<close>

definition poll_count :: "poll \<Rightarrow> nat" where "poll_count p = length (p_events p) + length (concat (p_during p))"

definition undisturbed :: "targs \<Rightarrow> poll \<Rightarrow> bool" where
  "undisturbed t p \<longleftrightarrow> (\<forall>sk \<in> set (concat (p_during p)). \<not> passes t sk)"

definition poll_ok :: "nat \<Rightarrow> targs \<Rightarrow> poll \<Rightarrow> bool" where
  "poll_ok max_entries t p \<longleftrightarrow> card (used_keys t (p_events p)) \<le> max_entries"

text \<open>What a poll should report: per key with an event, the histogram of the events of this poll.\<close>

definition reports :: "env \<Rightarrow> targs \<Rightarrow> poll \<Rightarrow> hist_out list \<Rightarrow> bool" where
  "reports e t p out \<longleftrightarrow> (\<exists>ks. distinct ks \<and> set ks = used_keys t (p_events p) \<and>
     list_all2 (\<lambda>k r. print_entry e k (hist_of t (events_of t k (p_events p))) = Some r) ks out)"

lemma rtt_map_Some: "rtt_map t sks k = Some h \<longleftrightarrow> events_of t k sks \<noteq> [] \<and> h = hist_of t (events_of t k sks)"
  by (auto simp: rtt_map_def split: list.splits)

lemma during_undisturbed:
  assumes "undisturbed t p"
  shows "silent_from (during ops t (p_during p)) 0"
proof -
  have "tcp_rcv ops t m sk = Some m" if "\<not> passes t sk" for m sk using that by (auto simp: passes_def tcp_rcv_def)
  then have "tcp_rcv_all ops t m es = Some m" if "\<forall>sk \<in> set es. \<not> passes t sk" for m es using that by (induction es) simp_all
  moreover have "\<forall>sk \<in> set (p_during p ! i). \<not> passes t sk" if "i < length (p_during p)" for i
    using assms nth_mem [OF that] by (auto simp: undisturbed_def)
  ultimately show ?thesis by (simp add: silent_from_def during_def)
qed

lemma poll_step:
  assumes "bpf_room ops max_entries" and "bpf_iter ops keys" and "op_lookup ops m = Map.empty"
    and "t = rodata_of e" and "poll_ok max_entries t p" and "poll_count p < 2 ^ 64" and "undisturbed t p"
  shows "\<exists>m1 out m2. tcp_rcv_all ops t m (p_events p) = Some m1 \<and> print_map ops e (during ops t (p_during p)) m1 = Some (0, out, m2) \<and>
    op_lookup ops m2 = Map.empty \<and> reports e t p out"
proof -
  let ?es = "p_events p"
  obtain m1 where m1: "tcp_rcv_all ops t m ?es = Some m1" "op_lookup ops m1 = rtt_map t ?es"
    using tcp_rcv_all_correct [OF assms(1,3)] assms(5) by (auto simp: poll_ok_def)
  have len: "length (slots (hist_of t es)) = MAX_SLOTS" for es
    by (rule slots_hist_of(1) [of 0]) (simp add: MAX_SLOTS_def)
  have "length (events_of t k ?es) < 2 ^ 64" for k
    using assms(6) length_filter_le [of "\<lambda>sk. passes t sk \<and> key_of t sk = k" ?es] unfolding poll_count_def events_of_def by linarith
  moreover have "targ_show_ext t = extended e" by (simp add: assms(4) rodata_of_def)
  ultimately have cnt: "extended e \<longrightarrow> events_of t k ?es \<noteq> [] \<longrightarrow> cnt (hist_of t (events_of t k ?es)) \<noteq> 0" for k
    using cnt_hist_of by blast
  have "rtt_map t ?es (- 1) = None"
    using key_of_not_max by (auto simp: rtt_map_def events_of_def filter_empty_conv split: list.splits)
  then have pr: "printable e ops m1"
    using m1(2) len cnt by (auto simp: printable_def hists_ok_def rtt_map_Some)
  obtain m2 where m2: "print_map ops e (during ops t (p_during p)) m1 = Some (0, map (entry_out e ops m1) (keys m1), m2)"
    "op_lookup ops m2 = Map.empty" using print_map_spec [OF assms(2) pr during_undisturbed [OF assms(7)]] by blast
  have ks: "set (keys m1) = used_keys t ?es" using bpf_iter.keys_dom [OF assms(2), of m1] m1(2) rtt_map_dom by simp
  have en: "print_entry e k (hist_of t (events_of t k ?es)) = Some (entry_out e ops m1 k)" if k: "k \<in> set (keys m1)" for k
  proof -
    have "rtt_map t ?es k \<noteq> None" using k ks rtt_map_dom [of t ?es] by (auto simp: domIff)
    then have l: "op_lookup ops m1 k = Some (hist_of t (events_of t k ?es))" "events_of t k ?es \<noteq> []"
      using m1(2) rtt_map_Some by auto
    then show ?thesis using print_entry_total [of "hist_of t (events_of t k ?es)" e k] len cnt
      by (auto simp: entry_out_def)
  qed
  have "reports e t p (map (entry_out e ops m1) (keys m1))"
    unfolding reports_def using ks bpf_iter.keys_distinct [OF assms(2)] en [OF nth_mem]
    by (intro exI [of _ "keys m1"]) (simp add: list_all2_conv_all_nth)
  then show ?thesis using m1 m2 by blast
qed

text \<open>The map after at most \<open>c\<close> events: histograms of the right shape, whose counts are between 1 and \<open>c\<close>.\<close>

definition counted :: "('m, u64, hist) map_ops \<Rightarrow> targs \<Rightarrow> nat \<Rightarrow> 'm \<Rightarrow> bool" where
  "counted ops t c m \<longleftrightarrow> hists_ok ops m \<and> op_lookup ops m (- 1) = None \<and>
     (\<forall>k h. op_lookup ops m k = Some h \<longrightarrow> targ_show_ext t \<longrightarrow> (\<exists>j. 1 \<le> j \<and> j \<le> c \<and> cnt h = of_nat j))"

lemma counted_mono: "counted ops t c m \<Longrightarrow> c \<le> d \<Longrightarrow> counted ops t d m"
  unfolding counted_def by (meson order_trans)

lemma counted_delete: "counted ops t c m \<Longrightarrow> op_lookup ops m' = (op_lookup ops m)(k := None) \<Longrightarrow> counted ops t c m'"
  unfolding counted_def hists_ok_def by (auto split: if_splits)

lemma counted_printable:
  assumes "counted ops (rodata_of e) c m" and "c < 2 ^ 64"
  shows "printable e ops m"
proof -
  have "(of_nat j :: u64) \<noteq> 0" if "1 \<le> j" "j \<le> c" for j
  proof -
    have "unat (of_nat j :: u64) = j" using that(2) assms(2) by (simp add: unat_of_nat take_bit_eq_mod)
    then show ?thesis using that(1) by auto
  qed
  moreover have "targ_show_ext (rodata_of e) = extended e" by (simp add: rodata_of_def)
  ultimately show ?thesis using assms(1) unfolding counted_def printable_def by metis
qed

lemma tcp_rcv_counted:
  assumes "bpf_hash ops" and "counted ops t c m"
  shows "\<exists>m'. tcp_rcv ops t m sk = Some m' \<and> counted ops t (Suc c) m' \<and> dom (op_lookup ops m) \<subseteq> dom (op_lookup ops m')"
proof -
  have ok: "hists_ok ops m" using assms(2) by (simp add: counted_def)
  from assms(1) ok show ?thesis
  proof (cases rule: tcp_rcv_cases [where t = t and sk = sk])
    case filtered
    then show ?thesis using counted_mono [OF assms(2)] by simp
  next
    case (full m')
    then show ?thesis using counted_mono [OF assms(2), of "Suc c"] by (simp add: counted_def hists_ok_def)
  next
    case (counted m')
    let ?h = "case op_lookup ops m (key_of t sk) of Some h \<Rightarrow> h | None \<Rightarrow> hist_zero"
    have "\<exists>j \<le> c. cnt ?h = of_nat j" if "targ_show_ext t"
      using assms(2) that by (cases "op_lookup ops m (key_of t sk)") (auto simp: counted_def hist_zero_def)
    then have "\<exists>j. 1 \<le> j \<and> j \<le> Suc c \<and> cnt (count_rtt t sk ?h) = of_nat j" if x: "targ_show_ext t"
    proof -
      obtain j where "j \<le> c" "cnt ?h = of_nat j" using \<open>targ_show_ext t \<Longrightarrow> \<exists>j \<le> c. cnt ?h = of_nat j\<close> x by blast
      then show ?thesis using x by (intro exI [of _ "Suc j"]) (simp add: count_rtt_def Let_def)
    qed
    moreover have "length (slots (count_rtt t sk ?h)) = MAX_SLOTS"
      using ok by (auto simp: hists_ok_def hist_zero_def split: option.splits)
    moreover have "counted ops t (Suc c) m" by (rule counted_mono [OF assms(2)]) simp
    ultimately have "counted ops t (Suc c) m'"
      using counted(3) key_of_not_max [of t sk] unfolding counted_def hists_ok_def by auto
    then show ?thesis using counted(2,3) by auto
  qed
qed

lemma tcp_rcv_all_counted:
  assumes "bpf_hash ops" and "counted ops t c m"
  shows "\<exists>m'. tcp_rcv_all ops t m es = Some m' \<and> counted ops t (c + length es) m' \<and> dom (op_lookup ops m) \<subseteq> dom (op_lookup ops m')"
  using assms(2)
proof (induction es arbitrary: c m)
  case (Cons sk es)
  obtain m1 where m1: "tcp_rcv ops t m sk = Some m1" "counted ops t (Suc c) m1" "dom (op_lookup ops m) \<subseteq> dom (op_lookup ops m1)"
    using tcp_rcv_counted [OF assms(1) Cons.prems] by blast
  then show ?case using Cons.IH [OF m1(2)] by fastforce
qed auto

lemma during_tame:
  assumes "bpf_hash ops" and "t = rodata_of e" and "c + length (concat evs) < 2 ^ 64"
  shows "tame ops e (during ops t evs) (length evs) (\<lambda>n. counted ops t (c + length (concat (take n evs))))"
  unfolding tame_def
proof (intro conjI allI impI)
  show "silent_from (during ops t evs) (length evs)" by (simp add: silent_from_def during_def)
next
  fix n m assume m: "counted ops t (c + length (concat (take n evs))) m"
  have "length (concat (take n evs)) \<le> length (concat evs)" by (metis append_take_drop_id concat_append le_add1 length_append)
  then show "printable e ops m" using assms(3) by (intro counted_printable [OF m [unfolded assms(2)]]) simp
  show "\<exists>m'. during ops t evs n m = Some m' \<and> counted ops t (c + length (concat (take (Suc n) evs))) m' \<and> dom (op_lookup ops m) \<subseteq> dom (op_lookup ops m')"
  proof (cases "n < length evs")
    case True
    then have "length (concat (take (Suc n) evs)) = length (concat (take n evs)) + length (evs ! n)" by (simp add: take_Suc_conv_app_nth)
    then show ?thesis using tcp_rcv_all_counted [OF assms(1) m, of "evs ! n"] True by (simp add: during_def add.assoc)
  qed (use m in \<open>simp add: during_def\<close>)
  show "counted ops t (c + length (concat (take n evs))) m'" if "op_lookup ops m' = (op_lookup ops m)(k := None)" for k m'
    by (rule counted_delete [OF m that])
qed

lemma poll_step_any:
  assumes "bpf_hash ops" and "bpf_iter ops keys" and "t = rodata_of e" and "counted ops t c m" and "c + poll_count p < 2 ^ 64"
  shows "\<exists>m1 out m2. tcp_rcv_all ops t m (p_events p) = Some m1 \<and> print_map ops e (during ops t (p_during p)) m1 = Some (0, out, m2) \<and>
    counted ops t (c + poll_count p) m2"
proof -
  let ?c = "c + length (p_events p)"
  obtain m1 where m1: "tcp_rcv_all ops t m (p_events p) = Some m1" "counted ops t ?c m1"
    using tcp_rcv_all_counted [OF assms(1,4)] by blast
  have t: "tame ops e (during ops t (p_during p)) (length (p_during p)) (\<lambda>n. counted ops t (?c + length (concat (take n (p_during p)))))"
    by (rule during_tame [OF assms(1,3)]) (use assms(5) in \<open>simp add: poll_count_def add.assoc\<close>)
  obtain out n m2 where "print_map ops e (during ops t (p_during p)) m1 = Some (0, out, m2)" "counted ops t (?c + length (concat (take n (p_during p)))) m2"
    using print_map_total [OF assms(2) t, of m1] m1(2) by auto
  moreover have "length (concat (take n (p_during p))) \<le> length (concat (p_during p))" by (metis append_take_drop_id concat_append le_add1 length_append)
  ultimately show ?thesis using m1(1) counted_mono [of ops t "?c + length (concat (take n (p_during p)))" m2 "c + poll_count p"] by (auto simp: poll_count_def)
qed

lemma poll_loop_reports:
  assumes "bpf_room ops max_entries" and "bpf_iter ops keys" and "t = rodata_of e" and "\<forall>p \<in> set ps. poll_ok max_entries t p"
    and "counted ops t c m" and "c + (\<Sum>p\<leftarrow>ps. poll_count p) < 2 ^ 64"
  shows "\<exists>r outs m'. poll_loop ops e t True time_end m ps = Some (r, outs, m') \<and> length outs \<le> length ps \<and>
    (op_lookup ops m = Map.empty \<longrightarrow> (\<forall>i < length outs. (\<forall>j \<le> i. undisturbed t (ps ! j)) \<longrightarrow> reports e t (ps ! i) (outs ! i))) \<and>
    (r = Running \<longrightarrow> length outs = length ps) \<and> (r \<noteq> Running \<longrightarrow> r = Exited 0)"
  using assms(4-6)
proof (induction ps arbitrary: m c)
  case (Cons p ps)
  have h: "bpf_hash ops" using assms(1) by (rule bpf_room.axioms)
  have c: "c + poll_count p < 2 ^ 64" "c + poll_count p + (\<Sum>p\<leftarrow>ps. poll_count p) < 2 ^ 64" using Cons.prems(3) by simp_all
  obtain m1 out m2 where s: "tcp_rcv_all ops t m (p_events p) = Some m1" "print_map ops e (during ops t (p_during p)) m1 = Some (0, out, m2)"
    "counted ops t (c + poll_count p) m2"
    using poll_step_any [OF h assms(2,3) Cons.prems(2) c(1)] by blast
  have ex: "op_lookup ops m2 = Map.empty \<and> reports e t p out" if "op_lookup ops m = Map.empty" "undisturbed t p"
    using poll_step [OF assms(1,2) that(1) assms(3) _ _ that(2)] Cons.prems(1) c(1) s(1,2) by auto
  show ?case
  proof (cases "duration e \<noteq> 0 \<and> p_now p > time_end \<or> p_exiting p")
    case True
    then have "poll_loop ops e t True time_end m (p # ps) = Some (Exited 0, [out], m2)" using s by auto
    then show ?thesis using ex by simp
  next
    case False
    obtain r outs m' where IH: "poll_loop ops e t True time_end m2 ps = Some (r, outs, m')" "length outs \<le> length ps"
      "op_lookup ops m2 = Map.empty \<longrightarrow> (\<forall>i < length outs. (\<forall>j \<le> i. undisturbed t (ps ! j)) \<longrightarrow> reports e t (ps ! i) (outs ! i))"
      "r = Running \<longrightarrow> length outs = length ps" "r \<noteq> Running \<longrightarrow> r = Exited 0"
      using Cons.IH [OF _ s(3) c(2)] Cons.prems(1) by auto
    have run: "poll_loop ops e t True time_end m (p # ps) = Some (r, out # outs, m')" using s IH(1) False by auto
    have "reports e t ((p # ps) ! i) ((out # outs) ! i)"
      if "op_lookup ops m = Map.empty" "i < length (out # outs)" "\<forall>j \<le> i. undisturbed t ((p # ps) ! j)" for i
    proof (cases i)
      case 0
      then show ?thesis using ex that by simp
    next
      case (Suc l)
      have u: "undisturbed t p" "\<forall>j \<le> l. undisturbed t (ps ! j)" using that(3) Suc by (metis le0 nth_Cons_0, metis Suc_le_mono nth_Cons_Suc)
      then show ?thesis using ex [OF that(1)] IH(3) that(2) Suc by simp
    qed
    then show ?thesis using run IH by (intro exI [of _ r] exI [of _ "out # outs"] exI [of _ m']) simp
  qed
qed simp

lemma print_map_empty:
  assumes "bpf_iter ops keys" and "op_lookup ops m = Map.empty"
  shows "\<exists>m'. print_map ops e (\<lambda>_. Some) m = Some (0, [], m') \<and> op_lookup ops m' = Map.empty"
proof -
  have "printable e ops m" using assms(2) by (simp add: printable_def hists_ok_def)
  moreover have "keys m = []" using bpf_iter.keys_dom [OF assms(1), of m] assms(2) by simp
  ultimately show ?thesis using print_map_spec [OF assms(1), of e m "\<lambda>_. Some"] by (simp add: silent_from_def)
qed

lemma poll_loop_detached:
  assumes "bpf_iter ops keys" and "op_lookup ops m = Map.empty"
  shows "\<exists>r outs m'. poll_loop ops e t False time_end m ps = Some (r, outs, m') \<and> (\<forall>out \<in> set outs. out = [])"
  using assms(2)
proof (induction ps arbitrary: m)
  case (Cons p ps)
  obtain m2 where s: "print_map ops e (\<lambda>_. Some) m = Some (0, [], m2)" "op_lookup ops m2 = Map.empty"
    using print_map_empty [OF assms(1) Cons.prems, of e] by blast
  then show ?case using Cons.IH [OF s(2)] by auto
qed simp

section \<open>Properties\<close>

definition sample_sock :: tcp_sock where
  "sample_sock = \<lparr>inet_sport = 0x5000, skc_dport = 0xbb01, inet_saddr = 0x0100007f,
     skc_daddr = 0x08080808, srtt_us = 1600\<rparr>"

lemma swab32_0: "bpf_swab32 0 = 0"
  by (simp add: bpf_swab32_def bpf_mvb_def)

text \<open>
  The slot of a round-trip time is the integer part of its binary logarithm, cut
  at the last slot: \<open>log2l\<close> is exact for every 64-bit value, and in a slot below the
  last one are exactly the values of its power-of-two range.
\<close>

theorem slot_of_correct:
  "(v \<noteq> 0 \<longrightarrow> 2 ^ unat (log2l v) \<le> unat v \<and> unat v < 2 ^ (unat (log2l v) + 1)) \<and>
   slot_of srtt < MAX_SLOTS \<and>
   (s < 26 \<longrightarrow> (slot_of srtt = s \<longleftrightarrow> (if s = 0 then 0 else 2 ^ s) \<le> unat srtt \<and> unat srtt < 2 ^ (s + 1)))"
proof -
  note sp = slot_of_spec [of srtt]
  have up: "slot_of srtt = s" if "s < 26" "(if s = 0 then 0 else 2 ^ s) \<le> unat srtt" "unat srtt < 2 ^ (s + 1)"
  proof (rule ccontr)
    assume ne: "slot_of srtt \<noteq> s"
    show False
    proof (cases "slot_of srtt < s")
      case True
      then have "(2 :: nat) ^ (slot_of srtt + 1) \<le> 2 ^ s" by (intro power_increasing) auto
      then show False using True sp(4) that by (simp split: if_splits)
    next
      case False
      with ne have "(2 :: nat) ^ (s + 1) \<le> 2 ^ slot_of srtt" by (intro power_increasing) auto
      then show False using False ne sp(3) that(3) by auto
    qed
  qed
  show ?thesis using log2l_floor [of v] sp up by (auto simp: MAX_SLOTS_def)
qed

theorem slot_of_correct_witness:
  "slot_of 200 = 7 \<and> slot_of 200 < MAX_SLOTS"
  using slot_of_correct [of 1 200 7] by simp



text \<open>
  \<open>print_map\<close> terminates, prints the histogram of every key exactly once, in the
  order of the map's walk, and leaves the map empty, when no event comes meanwhile,
  the start key -1 is not in the map and, with the extension, no count is 0.
\<close>

theorem print_map_correct:
  assumes "bpf_iter ops keys" and "hists_ok ops m" and "op_lookup ops m (- 1) = None"
    and "extended e \<longrightarrow> (\<forall>k h. op_lookup ops m k = Some h \<longrightarrow> cnt h \<noteq> 0)" and "silent_from ev 0"
  shows "\<exists>out m'. print_map ops e ev m = Some (0, out, m') \<and> op_lookup ops m' = Map.empty \<and>
    list_all2 (\<lambda>k r. \<exists>h. op_lookup ops m k = Some h \<and> print_entry e k h = Some r) (keys m) out"
proof -
  have p: "printable e ops m" using assms by (simp add: printable_def)
  obtain m' where m': "print_map ops e ev m = Some (0, map (entry_out e ops m) (keys m), m')" "op_lookup ops m' = Map.empty"
    using print_map_spec [OF assms(1) p assms(5)] by blast
  have "\<exists>h. op_lookup ops m k = Some h \<and> print_entry e k h = Some (entry_out e ops m k)"
    if k: "k \<in> set (keys m)" for k
  proof -
    obtain h where "op_lookup ops m k = Some h"
      using k bpf_iter.keys_dom [OF assms(1), of m] by auto
    then show ?thesis using print_entry_total [of h e k] assms(2,4)
      by (auto simp: entry_out_def hists_ok_def)
  qed
  then show ?thesis using m' by (auto simp: list_all2_conv_all_nth)
qed

theorem print_map_correct_witness:
  "\<exists>r m'. print_map (hash_ops 10240) env_init (\<lambda>_. Some) [(0, hist_zero)] = Some (0, [r], m') \<and>
    print_entry env_init 0 hist_zero = Some r"
proof -
  have "\<exists>out m'. print_map (hash_ops 10240) env_init (\<lambda>_. Some) [(0, hist_zero)] = Some (0, out, m') \<and>
      op_lookup (hash_ops 10240) m' = Map.empty \<and>
      list_all2 (\<lambda>k r. \<exists>h. op_lookup (hash_ops 10240) [(0, hist_zero)] k = Some h \<and> print_entry env_init k h = Some r)
        (remdups (map fst [(0, hist_zero)])) out"
    by (rule print_map_correct [OF hash_ref.bpf_iter_axioms])
      (auto simp: hists_ok_def hash_ops_def hist_zero_def env_init_def silent_from_def split: if_splits)
  then show ?thesis by (auto simp: list_all2_Cons1 hash_ops_def)
qed

text \<open>
  The average divides by zero when \<open>print_map\<close> meets an entry that the BPF program
  has just created and not yet counted in: with the extension on, the run on a map
  whose first entry is the initial histogram has no defined result.
\<close>

theorem print_map_fresh_entry:
  assumes "bpf_iter ops keys" and "keys m = k # ks" and "op_lookup ops m (- 1) = None"
    and "bpf_map_lookup_or_try_init ops m0 k hist_zero = (m, Some hist_zero)" and "extended e" and "silent_from ev 0"
  shows "print_map ops e ev m = None"
proof -
  have "op_lookup ops m k = Some hist_zero"
    using bpf_hash.try_init_Some [OF bpf_iter.axioms(1) [OF assms(1)] assms(4)] by simp
  moreover have "- 1 \<notin> set (keys m)" using bpf_iter.keys_dom [OF assms(1), of m] assms(3) by auto
  then have "op_next ops m (- 1) = Some k"
    using bpf_iter.next_ok [OF assms(1)] key_after_fresh [of "- 1" "keys m"] assms(2) by simp
  ultimately have "print_loop ops e ev 0 m (- 1) [] = None"
    using assms(5) silent_fromD [OF assms(6)] by (subst print_loop.simps) (simp add: print_entry_def hist_zero_def)
  then show ?thesis by (simp add: print_map_def)
qed

theorem print_map_fresh_entry_witness:
  "print_map (hash_ops 10240) (env_init\<lparr>extended := True\<rparr>) (\<lambda>_. Some) [(0, hist_zero)] = None"
  by (rule print_map_fresh_entry [OF hash_ref.bpf_iter_axioms, where k = 0 and ks = "[]" and ?m0.0 = "[]"])
    (simp_all add: bpf_map_lookup_or_try_init_def hash_ops_defs silent_from_def)

text \<open>
  What comes between the lookup of a key and its deletion is lost: here an event before the fourth call, the search for a key
  to delete.  The report is the one without the event, and the map is empty afterwards.
\<close>

lemma set_singleton: "distinct xs \<Longrightarrow> set xs = {k} \<Longrightarrow> xs = [k]"
  by (cases xs; cases "tl xs") auto

lemma print_map_loses_event:
  assumes "bpf_iter ops keys" and "op_lookup ops m = [k \<mapsto> h]" and "k \<noteq> - 1" and "print_entry e k h = Some out"
    and "tcp_rcv ops t m sk = Some m1" and "op_lookup ops m1 = [k \<mapsto> h1]"
  shows "\<exists>m'. print_map ops e (during ops t [[], [], [], [sk]]) m = Some (0, [out], m') \<and> op_lookup ops m' = Map.empty"
proof -
  note dom = bpf_iter.keys_dom [OF assms(1)]
  have one: "keys m = [k]" if "op_lookup ops m = [k \<mapsto> h]" for m h
    using bpf_iter.keys_distinct [OF assms(1), of m] dom [of m] that by (intro set_singleton) simp_all
  have nx: "op_next ops m (- 1) = Some k" "op_next ops m k = None" "op_next ops m1 (- 1) = Some k"
    using bpf_iter.next_ok [OF assms(1)] one [OF assms(2)] one [OF assms(6)] assms(3) by (simp_all add: key_after_def)
  let ?ev = "during ops t [[], [], [], [sk]]"
  have ev: "?ev 0 m = Some m" "?ev 1 m = Some m" "?ev 2 m = Some m" "?ev 3 m = Some m1" "\<And>n m. 4 \<le> n \<Longrightarrow> ?ev n m = Some m"
    using assms(5) by (simp_all add: during_def numeral_eq_Suc)
  have p1: "print_loop ops e ?ev 2 m k [out] = Some (0, [out], 3, m)" using ev(3) nx(2) by (subst print_loop.simps) (simp add: numeral_eq_Suc)
  have "print_loop ops e ?ev 0 m (- 1) [] = Some (0, [out], 3, m)"
    using ev(1,2) nx(1) assms(2,4) p1 by (subst print_loop.simps) (simp add: numeral_eq_Suc)
  moreover obtain m2 where m2: "op_delete ops m1 k = (0, m2)" "op_lookup ops m2 = (op_lookup ops m1)(k := None)"
    by (rule delete_next [OF assms(1) nx(3) order_refl])
  have "keys m2 = []" using dom [of m2] m2(2) assms(6) by simp
  then have "clear_loop ops ?ev 5 m2 k = Some (0, m2)"
    using ev(5) bpf_iter.next_ok [OF assms(1)] by (subst clear_loop.simps) (simp add: key_after_def)
  then have "clear_loop ops ?ev 3 m (- 1) = Some (0, m2)" using ev(4,5) nx(3) m2(1) by (subst clear_loop.simps) (simp add: numeral_eq_Suc)
  ultimately show ?thesis using m2(2) assms(6) by (simp add: print_map_def)
qed

text \<open>
  The address options do not do what they say.  \<open>inet_aton\<close> reports an invalid
  address by 0, never by a negative value, so \<open>parse_arg\<close> accepts every argument; and
  it stores the address with its bytes swapped once more, so that the filter drops
  the events of exactly the local address that was asked for (unless the address reads
  the same in both byte orders).
\<close>

theorem laddr_option:
  assumes "inet_aton arg = (r, a)" and "0 \<le> r"
  shows "parse_arg inet_aton CHR ''a'' arg e = Inr (0, e\<lparr>laddr := bpf_htonl a\<rparr>) \<and>
    (bpf_swab32 a \<noteq> a \<and> inet_saddr sk = a \<longrightarrow>
      tcp_rcv ops (rodata_of (e\<lparr>laddr := bpf_htonl a\<rparr>)) m sk = Some m)"
proof -
  have "bpf_swab32 a \<noteq> 0" if "bpf_swab32 a \<noteq> a"
    using that swab32_swab32 [of a] by (metis swab32_swab32 swab32_0)
  then show ?thesis using assms by (auto simp: parse_arg_def rodata_of_def tcp_rcv_def bpf_htonl_def)
qed

theorem laddr_option_witness:
  "parse_arg (\<lambda>s. (1, 0x0100007f)) CHR ''a'' ''127.0.0.1'' env_init = Inr (0, env_init\<lparr>laddr := 0x7f000001\<rparr>) \<and>
   tcp_rcv (hash_ops 10240) (rodata_of (env_init\<lparr>laddr := 0x7f000001\<rparr>)) [] sample_sock = Some []"
proof -
  have b: "bpf_htonl 0x0100007f = 0x7f000001"
    by (simp add: bpf_htonl_def bpf_swab32_def bpf_mvb_def)
  show ?thesis
    using laddr_option [of "\<lambda>s. (1, 0x0100007f)" "''127.0.0.1''" 1 "0x0100007f" env_init sample_sock "hash_ops 10240" "[]"] b
    by (simp add: sample_sock_def bpf_htonl_def)
qed


text \<open>One poll with one event, and another event that the filter on the local port drops while the report is made.\<close>

definition demo_rtt_env :: env where "demo_rtt_env = env_init\<lparr>lport := 0x5000\<rparr>"

definition demo_poll :: poll where
  "demo_poll = \<lparr>p_events = [sample_sock], p_during = [[sample_sock\<lparr>inet_sport := 1\<rparr>]], p_now = 5, p_exiting = True\<rparr>"


text \<open>
  On a kernel where \<^verbatim>\<open>fentry_exists\<close> finds the hook, \<open>main\<close> disables \<^verbatim>\<open>tcp_rcv\<close>, the
  only program of the object (the two branches of the test are exchanged): whatever
  happens in the kernel, the tool reports nothing.
\<close>

theorem tcprtt_main_fentry:
  assumes "bpf_iter ops keys" and "op_lookup ops m = Map.empty" and "h_fentry h"
  shows "\<exists>r outs m'. tcprtt_main inet_aton ops h args m ps = Some (r, outs, m') \<and> (\<forall>out \<in> set outs. out = [])"
proof -
  have "\<exists>r outs m'. poll_loop ops e t False time_end m ps = Some (r, outs, m') \<and> (\<forall>out \<in> set outs. out = [])"
    for e t time_end using assms(1,2) by (rule poll_loop_detached)
  then show ?thesis using assms(3)
    by (auto simp: tcprtt_main_def Let_def split: sum.splits arg_exit.splits)
qed

theorem tcprtt_main_fentry_witness:
  "\<exists>r outs m'. tcprtt_main (\<lambda>s. (0, 0)) (hash_ops 10240)
      \<lparr>h_rlimit_err = 0, h_open = True, h_fentry = True, h_load_err = 0, h_attach_err = 0, h_now = 0\<rparr> [] []
      [demo_poll] = Some (r, outs, m') \<and> list_all (\<lambda>out. out = []) outs"
proof -
  have "\<exists>r outs m'. tcprtt_main (\<lambda>s. (0, 0)) (hash_ops 10240)
      \<lparr>h_rlimit_err = 0, h_open = True, h_fentry = True, h_load_err = 0, h_attach_err = 0, h_now = 0\<rparr> [] []
      [demo_poll] = Some (r, outs, m') \<and> (\<forall>out \<in> set outs. out = [])"
    by (rule tcprtt_main_fentry [OF hash_ref.bpf_iter_axioms]) (simp_all add: hash_ops_def)
  then show ?thesis by (simp add: list_all_iff)
qed

end
