(* ===== verification/Tcpconnect.thy ===== *)
theory Tcpconnect
  imports Bpf_Maps C_Lib
begin

text \<open>
  The connection tracer: the BPF programs of \<^verbatim>\<open>plugin/libbpf-test/okk/tcpconnect.bpf.c\<close>
  (\<^verbatim>\<open>plugin/libbpfgo/tcpconnect/simple.bpf.c\<close> is a copy) and the user-space side of
  \<^verbatim>\<open>tcpconnect.c\<close>.

  The kprobe on entry remembers the socket of a thread in the map \<^verbatim>\<open>sockets\<close>; the
  kretprobe takes it out again and counts or reports the connection.  The probes of
  different threads interleave in any order: a run is a list of steps.  A socket is a
  pointer; its fields are read when the kretprobe runs, from the kernel memory at that
  moment.  The perf buffer is the list of the events put into it.
\<close>

section \<open>The BPF programs\<close>

record connect_rodata =
  filter_ports :: "int list"
  filter_ports_len :: int
  filter_uid :: u32
  filter_pid :: u32
  do_count :: bool

record bpf_ctx =
  ctx_pid_tgid :: u64
  ctx_uid_gid :: u64
  ctx_ktime_ns :: u64
  ctx_comm :: bytes

record conn_sock =
  skc_rcv_saddr :: u32
  skc_daddr :: u32
  skc_v6_rcv_saddr :: bytes
  skc_v6_daddr :: bytes
  skc_dport :: u16

record ipv4_flow_key =
  v4_saddr :: u32
  v4_daddr :: u32
  v4_dport :: u16

record ipv6_flow_key =
  v6_saddr :: bytes
  v6_daddr :: bytes
  v6_dport :: u16

text \<open>The two unions of \<^verbatim>\<open>struct event\<close> hold an IPv4 or an IPv6 address, as \<^verbatim>\<open>af\<close> says.\<close>

datatype ip_union = Addr_v4 u32 | Addr_v6 bytes

definition AF_INET :: u32 where "AF_INET = 2"
definition AF_INET6 :: u32 where "AF_INET6 = 10"

record event =
  ev_saddr :: ip_union
  ev_daddr :: ip_union
  ev_task :: bytes
  ev_ts_us :: u64
  ev_af :: u32
  ev_pid :: u32
  ev_uid :: u32
  ev_dport :: u16

record ('s, 'c4, 'c6) connect_maps =
  sockets :: 's
  ipv4_count :: 'c4
  ipv6_count :: 'c6
  events :: "event list"

record ('s, 'c4, 'c6) connect_ops =
  sockets_ops :: "('s, u32, u64) map_ops"
  ipv4_ops :: "('c4, ipv4_flow_key, u64) map_ops"
  ipv6_ops :: "('c6, ipv6_flow_key, u64) map_ops"

fun filter_port_loop :: "connect_rodata \<Rightarrow> u16 \<Rightarrow> nat \<Rightarrow> nat \<Rightarrow> bool option" where
  "filter_port_loop ro port i 0 = Some True"
| "filter_port_loop ro port i (Suc n) =
     (if i < length (filter_ports ro) then
        if uint port = filter_ports ro ! i then Some False else filter_port_loop ro port (i + 1) n
      else None)"

definition filter_port :: "connect_rodata \<Rightarrow> u16 \<Rightarrow> bool option" where
  "filter_port ro port =
     (if filter_ports_len ro = 0 then Some False
      else filter_port_loop ro port 0 (nat (filter_ports_len ro)))"

definition pid_of :: "bpf_ctx \<Rightarrow> u32" where "pid_of c = ucast (drop_bit 32 (ctx_pid_tgid c))"
definition tid_of :: "bpf_ctx \<Rightarrow> u32" where "tid_of c = ucast (ctx_pid_tgid c)"
definition uid_of :: "bpf_ctx \<Rightarrow> u32" where "uid_of c = ucast (ctx_uid_gid c)"

definition enter_tcp_connect ::
    "('s, 'c4, 'c6) connect_ops \<Rightarrow> connect_rodata \<Rightarrow> ('s, 'c4, 'c6) connect_maps \<Rightarrow> bpf_ctx \<Rightarrow> u64 \<Rightarrow>
      ('s, 'c4, 'c6) connect_maps" where
  "enter_tcp_connect ops ro st c sk =
     (let pid = pid_of c; tid = tid_of c
      in if filter_pid ro \<noteq> 0 \<and> pid \<noteq> filter_pid ro then st
         else let uid = uid_of c
           in if filter_uid ro \<noteq> - 1 \<and> uid \<noteq> filter_uid ro then st
              else st\<lparr>sockets := snd (op_update (sockets_ops ops) (sockets st) tid sk 0)\<rparr>)"

definition count_v4 ::
    "('s, 'c4, 'c6) connect_ops \<Rightarrow> ('s, 'c4, 'c6) connect_maps \<Rightarrow> conn_sock \<Rightarrow> u16 \<Rightarrow> ('s, 'c4, 'c6) connect_maps" where
  "count_v4 ops st sk dport =
     (let key = \<lparr>v4_saddr = skc_rcv_saddr sk, v4_daddr = skc_daddr sk, v4_dport = dport\<rparr>
      in case bpf_map_lookup_or_try_init (ipv4_ops ops) (ipv4_count st) key 0 of
           (m, None) \<Rightarrow> st\<lparr>ipv4_count := m\<rparr>
         | (m, Some val) \<Rightarrow> st\<lparr>ipv4_count := op_store (ipv4_ops ops) m key (val + 1)\<rparr>)"

definition count_v6 ::
    "('s, 'c4, 'c6) connect_ops \<Rightarrow> ('s, 'c4, 'c6) connect_maps \<Rightarrow> conn_sock \<Rightarrow> u16 \<Rightarrow> ('s, 'c4, 'c6) connect_maps" where
  "count_v6 ops st sk dport =
     (let key = \<lparr>v6_saddr = skc_v6_rcv_saddr sk, v6_daddr = skc_v6_daddr sk, v6_dport = dport\<rparr>
      in case bpf_map_lookup_or_try_init (ipv6_ops ops) (ipv6_count st) key 0 of
           (m, None) \<Rightarrow> st\<lparr>ipv6_count := m\<rparr>
         | (m, Some val) \<Rightarrow> st\<lparr>ipv6_count := op_store (ipv6_ops ops) m key (val + 1)\<rparr>)"

definition trace_v4 ::
    "('s, 'c4, 'c6) connect_maps \<Rightarrow> bpf_ctx \<Rightarrow> u32 \<Rightarrow> conn_sock \<Rightarrow> u16 \<Rightarrow> ('s, 'c4, 'c6) connect_maps" where
  "trace_v4 st c pid sk dport =
     (let ev = \<lparr>ev_saddr = Addr_v4 (skc_rcv_saddr sk), ev_daddr = Addr_v4 (skc_daddr sk),
        ev_task = ctx_comm c, ev_ts_us = ctx_ktime_ns c div 1000, ev_af = AF_INET, ev_pid = pid,
        ev_uid = uid_of c, ev_dport = dport\<rparr>
      in st\<lparr>events := events st @ [ev]\<rparr>)"

definition trace_v6 ::
    "('s, 'c4, 'c6) connect_maps \<Rightarrow> bpf_ctx \<Rightarrow> u32 \<Rightarrow> conn_sock \<Rightarrow> u16 \<Rightarrow> ('s, 'c4, 'c6) connect_maps" where
  "trace_v6 st c pid sk dport =
     (let ev = \<lparr>ev_saddr = Addr_v6 (skc_v6_rcv_saddr sk), ev_daddr = Addr_v6 (skc_v6_daddr sk),
        ev_task = ctx_comm c, ev_ts_us = ctx_ktime_ns c div 1000, ev_af = AF_INET6, ev_pid = pid,
        ev_uid = uid_of c, ev_dport = dport\<rparr>
      in st\<lparr>events := events st @ [ev]\<rparr>)"

text \<open>\<open>mem\<close> is the kernel memory that \<^verbatim>\<open>BPF_CORE_READ_INTO\<close> reads through the pointer.\<close>

definition exit_tcp_connect ::
    "('s, 'c4, 'c6) connect_ops \<Rightarrow> connect_rodata \<Rightarrow> ('s, 'c4, 'c6) connect_maps \<Rightarrow> bpf_ctx \<Rightarrow>
      (u64 \<Rightarrow> conn_sock) \<Rightarrow> int \<Rightarrow> int \<Rightarrow> ('s, 'c4, 'c6) connect_maps option" where
  "exit_tcp_connect ops ro st c mem ret ip_ver =
     (let pid = pid_of c; tid = tid_of c;
          finish = (\<lambda>st. st\<lparr>sockets := snd (op_delete (sockets_ops ops) (sockets st) tid)\<rparr>)
      in case op_lookup (sockets_ops ops) (sockets st) tid of
           None \<Rightarrow> Some st
         | Some skp \<Rightarrow>
             if ret \<noteq> 0 then Some (finish st)
             else let sk = mem skp; dport = skc_dport sk
               in case filter_port ro dport of
                    None \<Rightarrow> None
                  | Some True \<Rightarrow> Some (finish st)
                  | Some False \<Rightarrow>
                      Some (finish
                        (if do_count ro
                         then (if ip_ver = 4 then count_v4 ops st sk dport else count_v6 ops st sk dport)
                         else (if ip_ver = 4 then trace_v4 st c pid sk dport else trace_v6 st c pid sk dport))))"

text \<open>The four probes: entry and return of \<^verbatim>\<open>tcp_v4_connect\<close> (4) and \<^verbatim>\<open>tcp_v6_connect\<close> (6).\<close>

datatype probe_step =
    Enter bpf_ctx u64
  | Exit bpf_ctx "u64 \<Rightarrow> conn_sock" int int

fun probe :: "('s, 'c4, 'c6) connect_ops \<Rightarrow> connect_rodata \<Rightarrow> ('s, 'c4, 'c6) connect_maps \<Rightarrow> probe_step \<Rightarrow>
    ('s, 'c4, 'c6) connect_maps option" where
  "probe ops ro st (Enter c sk) = Some (enter_tcp_connect ops ro st c sk)"
| "probe ops ro st (Exit c mem ret ip_ver) = exit_tcp_connect ops ro st c mem ret ip_ver"

fun probes :: "('s, 'c4, 'c6) connect_ops \<Rightarrow> connect_rodata \<Rightarrow> ('s, 'c4, 'c6) connect_maps \<Rightarrow> probe_step list \<Rightarrow>
    ('s, 'c4, 'c6) connect_maps option" where
  "probes ops ro st [] = Some st"
| "probes ops ro st (p # ps) = Option.bind (probe ops ro st p) (\<lambda>st. probes ops ro st ps)"

section \<open>The user-space side\<close>

definition get_int :: "string \<Rightarrow> int \<Rightarrow> int \<Rightarrow> int option" where
  "get_int arg mn mx =
     (let (val, errno, end) = strtol arg
      in if errno then None else if end = arg \<or> val < mn \<or> val > mx then None else Some val)"

text \<open>
  The loop of \<^verbatim>\<open>get_ints\<close>: \<open>argp\<close> is the rest of \<open>arg\<close>, \<open>ret\<close> the numbers so far.  The test
  \<^verbatim>\<open>end == arg\<close> compares with the start of the whole argument: it can hold in the first
  round only.  \<^verbatim>\<open>end + 1\<close> skips one character, whatever it is.
\<close>

function get_ints_loop :: "nat \<Rightarrow> string \<Rightarrow> int list \<Rightarrow> int \<Rightarrow> int \<Rightarrow> bool \<Rightarrow> int list option" where
  "get_ints_loop max_size argp ret mn mx first =
     (if length ret < max_size then
        (let (val, errno, end) = strtol argp
         in if errno then None
            else if first \<and> end = argp \<or> val < mn \<or> val > mx then None
            else if end = [] then Some (ret @ [val])
            else get_ints_loop max_size (tl end) (ret @ [val]) mn mx False)
      else Some ret)"
  by pat_completeness auto
termination
  by (relation "measure (\<lambda>(max_size, argp, ret, mn, mx, first). max_size - length ret)") auto

declare get_ints_loop.simps [simp del]

definition get_ints :: "string \<Rightarrow> nat \<Rightarrow> int \<Rightarrow> int \<Rightarrow> int list option" where
  "get_ints arg sz mn mx = get_ints_loop sz arg [] mn mx True"

definition get_uint :: "string \<Rightarrow> u32 \<Rightarrow> u32 \<Rightarrow> u32 option" where
  "get_uint arg mn mx =
     (let (v, errno, end) = strtoul arg; val = sint v
      in if errno then None else if end = arg \<or> val < uint mn \<or> val > uint mx then None
         else Some (of_int val))"

record connect_env =
  c_verbose :: bool
  c_count :: bool
  c_print_timestamp :: bool
  c_print_uid :: bool
  c_pid :: int
  c_uid :: u32
  c_nports :: int
  c_ports :: "int list"

definition connect_env_init :: connect_env where
  "connect_env_init = \<lparr>c_verbose = False, c_count = False, c_print_timestamp = False, c_print_uid = False,
     c_pid = 0, c_uid = - 1, c_nports = 0, c_ports = replicate 64 0\<rparr>"

text \<open>\<^verbatim>\<open>parse_arg\<close>: \<open>None\<close> is an exit of the process through \<^verbatim>\<open>argp_usage\<close> or the help.\<close>

definition connect_parse_arg :: "char \<Rightarrow> string \<Rightarrow> connect_env \<Rightarrow> (int \<times> connect_env) option" where
  "connect_parse_arg key arg e =
     (if key = CHR ''h'' then None
      else if key = CHR ''v'' then Some (0, e\<lparr>c_verbose := True\<rparr>)
      else if key = CHR ''c'' then Some (0, e\<lparr>c_count := True\<rparr>)
      else if key = CHR ''t'' then Some (0, e\<lparr>c_print_timestamp := True\<rparr>)
      else if key = CHR ''U'' then Some (0, e\<lparr>c_print_uid := True\<rparr>)
      else if key = CHR ''p'' then
        (case get_int arg 1 (2 ^ 31 - 1) of None \<Rightarrow> None | Some v \<Rightarrow> Some (0, e\<lparr>c_pid := v\<rparr>))
      else if key = CHR ''u'' then
        (case get_uint arg 0 (- 2) of None \<Rightarrow> None | Some v \<Rightarrow> Some (0, e\<lparr>c_uid := v\<rparr>))
      else if key = CHR ''P'' then
        (case get_ints arg 64 1 65535 of
           None \<Rightarrow> None
         | Some vs \<Rightarrow> Some (0, e\<lparr>c_ports := vs @ drop (length vs) (c_ports e), c_nports := int (length vs)\<rparr>))
      else if key = CHR ''C'' then Some (0, e)
      else if key = CHR ''M'' then Some (0, e)
      else Some (7, e))"

text \<open>The assignments of \<^verbatim>\<open>main\<close> to the read-only data; \<^verbatim>\<open>filter_ports\<close> starts as 64 zeros.\<close>

definition connect_rodata_of :: "connect_env \<Rightarrow> connect_rodata" where
  "connect_rodata_of e =
     \<lparr>filter_ports = (if c_nports e > 0
        then map (\<lambda>p. uint (bpf_htons (of_int p))) (take (nat (c_nports e)) (c_ports e)) @
          drop (nat (c_nports e)) (replicate 64 0)
        else replicate 64 0),
      filter_ports_len = (if c_nports e > 0 then c_nports e else 0),
      filter_uid = (if c_uid e \<noteq> - 1 then c_uid e else - 1),
      filter_pid = (if c_pid e \<noteq> 0 then of_int (c_pid e) else 0),
      do_count = c_count e\<rparr>"

text \<open>
  \<^verbatim>\<open>handle_event\<close>: the line it prints (time since the first event in microseconds, uid,
  pid, task, version, addresses, port), the static \<^verbatim>\<open>start_ts\<close> passed in and out.
\<close>

record event_line =
  line_time :: "u64 option"
  line_uid :: "u32 option"
  line_pid :: u32
  line_task :: bytes
  line_ver :: int
  line_src :: ip_union
  line_dst :: ip_union
  line_port :: u16

definition handle_event :: "connect_env \<Rightarrow> u64 \<Rightarrow> event \<Rightarrow> event_line option \<times> u64" where
  "handle_event e start_ts ev =
     (if ev_af ev \<noteq> AF_INET \<and> ev_af ev \<noteq> AF_INET6 then (None, start_ts)
      else
        let start_ts = (if c_print_timestamp e \<and> start_ts = 0 then ev_ts_us ev else start_ts)
        in (Some \<lparr>line_time = (if c_print_timestamp e then Some (ev_ts_us ev - start_ts) else None),
               line_uid = (if c_print_uid e then Some (ev_uid ev) else None),
               line_pid = ev_pid ev, line_task = take 12 (ev_task ev),
               line_ver = (if ev_af ev = AF_INET then 4 else 6),
               line_src = ev_saddr ev, line_dst = ev_daddr ev,
               line_port = bpf_htons (ev_dport ev)\<rparr>, start_ts))"

text \<open>
  \<^verbatim>\<open>print_count_ipv4\<close>: the arrays \<^verbatim>\<open>keys\<close> and \<^verbatim>\<open>counts\<close> are static and nothing fills them
  from the map.
\<close>

definition print_count_ipv4 :: "'m \<Rightarrow> (u32 \<times> u32 \<times> u16 \<times> u64) list" where
  "print_count_ipv4 map_fd =
     (let keys = replicate 8192 \<lparr>v4_saddr = 0, v4_daddr = 0, v4_dport = 0\<rparr>; counts = replicate 8192 0
      in map (\<lambda>i. (v4_saddr (keys ! i), v4_daddr (keys ! i), bpf_htons (v4_dport (keys ! i)), counts ! i)) [0..<8192])"

definition print_count_ipv6 :: "'m \<Rightarrow> (bytes \<times> bytes \<times> u16 \<times> u64) list" where
  "print_count_ipv6 map_fd =
     (let keys = replicate 8192 \<lparr>v6_saddr = replicate 16 0, v6_daddr = replicate 16 0, v6_dport = 0\<rparr>;
          counts = replicate 8192 0
      in map (\<lambda>i. (v6_saddr (keys ! i), v6_daddr (keys ! i), bpf_htons (v6_dport (keys ! i)), counts ! i)) [0..<8192])"

section \<open>The port filter\<close>

definition rodata_ok :: "connect_rodata \<Rightarrow> bool" where
  "rodata_ok ro \<longleftrightarrow> 0 \<le> filter_ports_len ro \<and> filter_ports_len ro \<le> int (length (filter_ports ro))"

definition port_wanted :: "connect_rodata \<Rightarrow> u16 \<Rightarrow> bool" where
  "port_wanted ro port \<longleftrightarrow> filter_ports_len ro = 0 \<or>
     uint port \<in> set (take (nat (filter_ports_len ro)) (filter_ports ro))"

lemma filter_port_loop_spec:
  "i + n \<le> length (filter_ports ro) \<Longrightarrow>
   filter_port_loop ro port i n = Some (uint port \<notin> set (take n (drop i (filter_ports ro))))"
proof (induction ro port i n rule: filter_port_loop.induct)
  case (2 ro port i n)
  then have i: "i < length (filter_ports ro)" by simp
  then have "take (Suc n) (drop i (filter_ports ro)) = filter_ports ro ! i # take n (drop (Suc i) (filter_ports ro))"
    by (simp add: Cons_nth_drop_Suc [symmetric])
  then show ?case using 2 i by auto
qed simp

lemma filter_port_spec: "rodata_ok ro \<Longrightarrow> filter_port ro port = Some (\<not> port_wanted ro port)"
  by (auto simp: filter_port_def rodata_ok_def port_wanted_def filter_port_loop_spec)

section \<open>Interleavings\<close>

text \<open>
  A connection is an entry and the return that ends it.  \<open>connections p ps\<close> are those a
  run completes, in the order of their returns, \<open>p\<close> being the entries that are open at
  its start; \<open>well_nested\<close>: a thread does not enter again before it has returned.
\<close>

record connection =
  con_enter :: bpf_ctx
  con_sk :: u64
  con_exit :: bpf_ctx
  con_mem :: "u64 \<Rightarrow> conn_sock"
  con_ret :: int
  con_ver :: int

fun connections :: "(u32 \<rightharpoonup> bpf_ctx \<times> u64) \<Rightarrow> probe_step list \<Rightarrow> connection list" where
  "connections p [] = []"
| "connections p (Enter c sk # ps) = connections (p(tid_of c \<mapsto> (c, sk))) ps"
| "connections p (Exit c mem ret v # ps) =
     (case p (tid_of c) of
        None \<Rightarrow> connections p ps
      | Some (c0, sk) \<Rightarrow>
          \<lparr>con_enter = c0, con_sk = sk, con_exit = c, con_mem = mem, con_ret = ret, con_ver = v\<rparr> #
          connections (p(tid_of c := None)) ps)"

fun well_nested :: "(u32 \<rightharpoonup> bpf_ctx \<times> u64) \<Rightarrow> probe_step list \<Rightarrow> bool" where
  "well_nested p [] = True"
| "well_nested p (Enter c sk # ps) \<longleftrightarrow> p (tid_of c) = None \<and> well_nested (p(tid_of c \<mapsto> (c, sk))) ps"
| "well_nested p (Exit c mem ret v # ps) \<longleftrightarrow> well_nested (p(tid_of c := None)) ps"

fun step_tid :: "probe_step \<Rightarrow> u32" where
  "step_tid (Enter c sk) = tid_of c"
| "step_tid (Exit c mem ret v) = tid_of c"

definition admitted :: "connect_rodata \<Rightarrow> bpf_ctx \<Rightarrow> bool" where
  "admitted ro c \<longleftrightarrow> (filter_pid ro = 0 \<or> pid_of c = filter_pid ro) \<and> (filter_uid ro = - 1 \<or> uid_of c = filter_uid ro)"

definition con_sock :: "connection \<Rightarrow> conn_sock" where
  "con_sock cn = con_mem cn (con_sk cn)"

definition reported :: "connect_rodata \<Rightarrow> connection \<Rightarrow> bool" where
  "reported ro cn \<longleftrightarrow> admitted ro (con_enter cn) \<and> con_ret cn = 0 \<and> port_wanted ro (skc_dport (con_sock cn))"

text \<open>What one reported connection does to counts and events.\<close>

definition report ::
    "('s, 'c4, 'c6) connect_ops \<Rightarrow> connect_rodata \<Rightarrow> connection \<Rightarrow> ('s, 'c4, 'c6) connect_maps \<Rightarrow> ('s, 'c4, 'c6) connect_maps" where
  "report ops ro cn st =
     (let sk = con_sock cn; dport = skc_dport sk; c = con_exit cn
      in if do_count ro
         then (if con_ver cn = 4 then count_v4 ops st sk dport else count_v6 ops st sk dport)
         else (if con_ver cn = 4 then trace_v4 st c (pid_of c) sk dport else trace_v6 st c (pid_of c) sk dport))"

lemma report_sockets: "report ops ro cn (st\<lparr>sockets := x\<rparr>) = (report ops ro cn st)\<lparr>sockets := x\<rparr>"
  by (simp add: report_def count_v4_def count_v6_def trace_v4_def trace_v6_def Let_def
      split: prod.splits option.splits)

lemma sockets_report [simp]: "sockets (report ops ro cn st) = sockets st"
  by (simp add: report_def count_v4_def count_v6_def trace_v4_def trace_v6_def Let_def
      split: prod.splits option.splits)

lemma fold_report_sockets:
  "fold (report ops ro) cns (st\<lparr>sockets := x\<rparr>) = (fold (report ops ro) cns st)\<lparr>sockets := x\<rparr>"
  by (induction cns arbitrary: st) (simp_all add: report_sockets)

lemma exit_tcp_connect_eq:
  assumes "rodata_ok ro" and "op_lookup (sockets_ops ops) (sockets st) (tid_of c) = Some sk"
    and "cn = \<lparr>con_enter = c0, con_sk = sk, con_exit = c, con_mem = mem, con_ret = ret, con_ver = v\<rparr>"
  shows "exit_tcp_connect ops ro st c mem ret v =
    Some ((if ret = 0 \<and> port_wanted ro (skc_dport (con_sock cn)) then report ops ro cn st else st)
       \<lparr>sockets := snd (op_delete (sockets_ops ops) (sockets st) (tid_of c))\<rparr>)"
proof -
  have s: "sockets (report ops ro cn st) = sockets st" by simp
  have r: "report ops ro cn st = (if do_count ro
      then (if v = 4 then count_v4 ops st (mem sk) (skc_dport (mem sk)) else count_v6 ops st (mem sk) (skc_dport (mem sk)))
      else (if v = 4 then trace_v4 st c (pid_of c) (mem sk) (skc_dport (mem sk))
            else trace_v6 st c (pid_of c) (mem sk) (skc_dport (mem sk))))"
    by (simp add: report_def con_sock_def assms(3) Let_def)
  have w: "con_sock cn = mem sk" by (simp add: con_sock_def assms(3))
  show ?thesis
    unfolding exit_tcp_connect_def Let_def assms(2) option.case filter_port_spec [OF assms(1)] w r [symmetric]
    by (simp add: s)
qed

text \<open>\<open>follows\<close>: the map of sockets has exactly the open entries that passed the pid and uid filters.\<close>

definition follows :: "connect_rodata \<Rightarrow> (u32 \<rightharpoonup> bpf_ctx \<times> u64) \<Rightarrow> (u32 \<rightharpoonup> u64) \<Rightarrow> bool" where
  "follows ro p s \<longleftrightarrow> (\<forall>t. s t = (case p t of Some (c, sk) \<Rightarrow> if admitted ro c then Some sk else None | None \<Rightarrow> None))"

lemma follows_dom: "follows ro p s \<Longrightarrow> dom s \<subseteq> dom p"
  by (auto simp: follows_def dom_def split: option.splits prod.splits)

lemma enter_follows:
  assumes "bpf_room (sockets_ops ops) max_entries" and "follows ro p (op_lookup (sockets_ops ops) (sockets st))"
    and "p (tid_of c) = None" and "insert (tid_of c) (dom p) \<subseteq> T" and "finite T" and "card T \<le> max_entries"
  shows "\<exists>s. enter_tcp_connect ops ro st c sk = st\<lparr>sockets := s\<rparr> \<and>
    follows ro (p(tid_of c \<mapsto> (c, sk))) (op_lookup (sockets_ops ops) s)"
proof (cases "admitted ro c")
  case False
  then have "enter_tcp_connect ops ro st c sk = st\<lparr>sockets := sockets st\<rparr>"
    by (auto simp: enter_tcp_connect_def admitted_def Let_def)
  moreover have "follows ro (p(tid_of c \<mapsto> (c, sk))) (op_lookup (sockets_ops ops) (sockets st))"
    using assms(2,3) False by (simp add: follows_def)
  ultimately show ?thesis by blast
next
  case True
  let ?l = "op_lookup (sockets_ops ops)"
  have "dom (?l (sockets st)) \<subseteq> T - {tid_of c}"
    using follows_dom [OF assms(2)] assms(3,4) by auto
  moreover have "card (T - {tid_of c}) < card T" using assms(4,5) by (intro card_Diff1_less) auto
  ultimately have d: "finite (dom (?l (sockets st)))" "card (dom (?l (sockets st))) < max_entries"
    using assms(5,6) by (auto intro: finite_subset dest: card_mono [rotated])
  have none: "?l (sockets st) (tid_of c) = None" using assms(2,3) by (simp add: follows_def)
  obtain e s where u: "op_update (sockets_ops ops) (sockets st) (tid_of c) sk 0 = (e, s)" by fastforce
  have "e = 0" using bpf_room.room [OF assms(1) none d, of 0 sk] u by (simp add: flag_defs)
  then have "?l s = (?l (sockets st))(tid_of c \<mapsto> sk)"
    using bpf_map.update_ok [OF bpf_hash.axioms(1) [OF bpf_room.axioms(1) [OF assms(1)]]] u by blast
  then have "follows ro (p(tid_of c \<mapsto> (c, sk))) (?l s)" using assms(2) True by (simp add: follows_def)
  moreover have "enter_tcp_connect ops ro st c sk = st\<lparr>sockets := s\<rparr>"
    using True u by (auto simp: enter_tcp_connect_def admitted_def Let_def)
  ultimately show ?thesis by blast
qed

lemma exit_follows:
  assumes "bpf_hash (sockets_ops ops)" and "rodata_ok ro"
    and "follows ro p (op_lookup (sockets_ops ops) (sockets st))"
  shows "\<exists>s. exit_tcp_connect ops ro st c mem ret v = Some ((case p (tid_of c) of
        None \<Rightarrow> st
      | Some (c0, sk) \<Rightarrow> (let cn = \<lparr>con_enter = c0, con_sk = sk, con_exit = c, con_mem = mem, con_ret = ret, con_ver = v\<rparr>
          in if reported ro cn then report ops ro cn st else st))\<lparr>sockets := s\<rparr>) \<and>
    follows ro (p(tid_of c := None)) (op_lookup (sockets_ops ops) s)"
proof (cases "op_lookup (sockets_ops ops) (sockets st) (tid_of c)")
  case None
  then have "exit_tcp_connect ops ro st c mem ret v = Some (st\<lparr>sockets := sockets st\<rparr>)"
    by (simp add: exit_tcp_connect_def Let_def)
  moreover have "follows ro (p(tid_of c := None)) (op_lookup (sockets_ops ops) (sockets st))"
    using assms(3) None by (simp add: follows_def)
  moreover have "\<not> admitted ro c0" if "p (tid_of c) = Some (c0, sk)" for c0 sk
    using None assms(3) that by (auto simp: follows_def split: if_splits)
  ultimately show ?thesis
    by (intro exI [of _ "sockets st"]) (auto simp: reported_def Let_def split: option.splits)
next
  case (Some sk)
  then obtain c0 where p: "p (tid_of c) = Some (c0, sk)" "admitted ro c0"
    using assms(3) by (auto simp: follows_def split: option.splits prod.splits if_splits)
  define s where "s = snd (op_delete (sockets_ops ops) (sockets st) (tid_of c))"
  obtain e where "op_delete (sockets_ops ops) (sockets st) (tid_of c) = (e, s)" by (metis prod.collapse s_def)
  then have "op_lookup (sockets_ops ops) s = (op_lookup (sockets_ops ops) (sockets st))(tid_of c := None)"
    using bpf_hash.delete_ok [OF assms(1)] Some by (metis option.distinct(1))
  then have f: "follows ro (p(tid_of c := None)) (op_lookup (sockets_ops ops) s)" using assms(3) by (simp add: follows_def)
  define cn where "cn = \<lparr>con_enter = c0, con_sk = sk, con_exit = c, con_mem = mem, con_ret = ret, con_ver = v\<rparr>"
  have "exit_tcp_connect ops ro st c mem ret v =
      Some ((if reported ro cn then report ops ro cn st else st)\<lparr>sockets := s\<rparr>)"
    using exit_tcp_connect_eq [OF assms(2) Some cn_def] p(2) by (simp add: reported_def cn_def s_def)
  then show ?thesis using f p by (auto simp: cn_def Let_def)
qed

lemma probes_sequential:
  assumes "bpf_room (sockets_ops ops) max_entries" and "rodata_ok ro" and "finite T" and "card T \<le> max_entries"
    and "follows ro p (op_lookup (sockets_ops ops) (sockets st))" and "well_nested p ps"
    and "dom p \<union> step_tid ` set ps \<subseteq> T"
  shows "\<exists>s. probes ops ro st ps = Some ((fold (report ops ro) (filter (reported ro) (connections p ps)) st)\<lparr>sockets := s\<rparr>)"
  using assms(5-7)
proof (induction ps arbitrary: p st)
  case Nil
  show ?case by (intro exI [of _ "sockets st"]) simp
next
  case (Cons a ps)
  show ?case
  proof (cases a)
    case (Enter c sk)
    obtain s where s: "enter_tcp_connect ops ro st c sk = st\<lparr>sockets := s\<rparr>"
      "follows ro (p(tid_of c \<mapsto> (c, sk))) (op_lookup (sockets_ops ops) s)"
      using enter_follows [OF assms(1) Cons.prems(1), of c T sk] Cons.prems(2,3) assms(3,4) Enter by auto
    define q where "q = p(tid_of c \<mapsto> (c, sk))"
    have q: "well_nested q ps" "dom q \<union> step_tid ` set ps \<subseteq> T" using Cons.prems Enter by (simp_all add: q_def)
    have "\<exists>s'. probes ops ro (st\<lparr>sockets := s\<rparr>) ps =
      Some ((fold (report ops ro) (filter (reported ro) (connections q ps)) (st\<lparr>sockets := s\<rparr>))\<lparr>sockets := s'\<rparr>)"
      using Cons.IH [of q "st\<lparr>sockets := s\<rparr>"] s(2) q by (simp add: q_def [symmetric])
    then show ?thesis using s(1) Enter by (simp add: fold_report_sockets q_def)
  next
    case (Exit c mem ret v)
    define cn where "cn = (\<lambda>c0 sk. \<lparr>con_enter = c0, con_sk = sk, con_exit = c, con_mem = mem, con_ret = ret, con_ver = v\<rparr>)"
    define st1 where "st1 = (case p (tid_of c) of None \<Rightarrow> st
      | Some (c0, sk) \<Rightarrow> if reported ro (cn c0 sk) then report ops ro (cn c0 sk) st else st)"
    obtain s where s: "exit_tcp_connect ops ro st c mem ret v = Some (st1\<lparr>sockets := s\<rparr>)"
      "follows ro (p(tid_of c := None)) (op_lookup (sockets_ops ops) s)"
      using exit_follows [OF bpf_room.axioms(1) [OF assms(1)] assms(2) Cons.prems(1), of c mem ret v]
      unfolding st1_def cn_def Let_def by blast
    have pn: "connections (p(tid_of c := None)) ps = connections p ps" if "p (tid_of c) = None"
      using that by (simp add: fun_upd_idem)
    define q where "q = p(tid_of c := None)"
    have q: "well_nested q ps" "dom q \<union> step_tid ` set ps \<subseteq> T" using Cons.prems Exit by (auto simp: q_def)
    have "\<exists>s'. probes ops ro (st1\<lparr>sockets := s\<rparr>) ps =
      Some ((fold (report ops ro) (filter (reported ro) (connections q ps)) (st1\<lparr>sockets := s\<rparr>))\<lparr>sockets := s'\<rparr>)"
      using Cons.IH [of q "st1\<lparr>sockets := s\<rparr>"] s(2) q by (simp add: q_def [symmetric])
    then obtain s' where "probes ops ro st (a # ps) =
      Some ((fold (report ops ro) (filter (reported ro) (connections (p(tid_of c := None)) ps)) st1)\<lparr>sockets := s'\<rparr>)"
      using s(1) Exit by (auto simp: fold_report_sockets q_def)
    moreover have "fold (report ops ro) (filter (reported ro) (connections (p(tid_of c := None)) ps)) st1 =
      fold (report ops ro) (filter (reported ro) (connections p (a # ps))) st"
      using pn by (auto simp: Exit st1_def cn_def split: option.splits)
    ultimately show ?thesis by auto
  qed
qed

section \<open>Events and counts\<close>

definition event_of :: "connection \<Rightarrow> event" where
  "event_of cn =
     (let sk = con_sock cn; c = con_exit cn; v4 = (con_ver cn = 4)
      in \<lparr>ev_saddr = (if v4 then Addr_v4 (skc_rcv_saddr sk) else Addr_v6 (skc_v6_rcv_saddr sk)),
          ev_daddr = (if v4 then Addr_v4 (skc_daddr sk) else Addr_v6 (skc_v6_daddr sk)),
          ev_task = ctx_comm c, ev_ts_us = ctx_ktime_ns c div 1000,
          ev_af = (if v4 then AF_INET else AF_INET6), ev_pid = pid_of c, ev_uid = uid_of c,
          ev_dport = skc_dport sk\<rparr>)"

lemma fold_report_events:
  "\<not> do_count ro \<Longrightarrow> fold (report ops ro) cns st = st\<lparr>events := events st @ map event_of cns\<rparr>"
  by (induction cns arbitrary: st) (auto simp: report_def trace_v4_def trace_v6_def event_of_def Let_def)

lemma probes_events:
  assumes "bpf_room (sockets_ops ops) max_entries" and "rodata_ok ro" and "\<not> do_count ro"
    and "op_lookup (sockets_ops ops) (sockets st) = Map.empty" and "well_nested Map.empty ps"
    and "card (step_tid ` set ps) \<le> max_entries"
  shows "\<exists>st'. probes ops ro st ps = Some st' \<and>
    events st' = events st @ map event_of (filter (reported ro) (connections Map.empty ps))"
proof -
  have "follows ro Map.empty (op_lookup (sockets_ops ops) (sockets st))" using assms(4) by (simp add: follows_def)
  then show ?thesis
    using probes_sequential [OF assms(1,2), of "step_tid ` set ps" Map.empty st ps] assms(3-)
    by (auto simp: fold_report_events)
qed

definition flow4 :: "connection \<Rightarrow> ipv4_flow_key" where
  "flow4 cn = (let sk = con_sock cn in \<lparr>v4_saddr = skc_rcv_saddr sk, v4_daddr = skc_daddr sk, v4_dport = skc_dport sk\<rparr>)"

text \<open>Number of IPv4 connections with a flow key, as the map of counts should have it.\<close>

definition count_map :: "connection list \<Rightarrow> ipv4_flow_key \<rightharpoonup> u64" where
  "count_map cns k =
     (let n = length (filter (\<lambda>cn. con_ver cn = 4 \<and> flow4 cn = k) cns) in if n = 0 then None else Some (of_nat n))"

definition flows4 :: "connection list \<Rightarrow> ipv4_flow_key set" where
  "flows4 cns = flow4 ` {cn \<in> set cns. con_ver cn = 4}"

lemma count_map_snoc:
  "count_map (cns @ [cn]) = (if con_ver cn = 4
     then (count_map cns)(flow4 cn \<mapsto> (case count_map cns (flow4 cn) of Some v \<Rightarrow> v | None \<Rightarrow> 0) + 1) else count_map cns)"
  by (rule ext) (auto simp: count_map_def Let_def)

lemma count_map_dom: "dom (count_map cns) = flows4 cns"
proof -
  have "count_map cns k \<noteq> None \<longleftrightarrow> (\<exists>cn \<in> set cns. con_ver cn = 4 \<and> flow4 cn = k)" for k
    by (auto simp: count_map_def Let_def filter_empty_conv)
  then show ?thesis by (auto simp: dom_def flows4_def)
qed

lemma count_v4_room:
  assumes "bpf_room (ipv4_ops ops) max_entries" and "finite (dom (op_lookup (ipv4_ops ops) (ipv4_count st)))"
    and "card (insert k (dom (op_lookup (ipv4_ops ops) (ipv4_count st)))) \<le> max_entries"
    and "k = \<lparr>v4_saddr = skc_rcv_saddr sk, v4_daddr = skc_daddr sk, v4_dport = dport\<rparr>"
  shows "op_lookup (ipv4_ops ops) (ipv4_count (count_v4 ops st sk dport)) =
    (op_lookup (ipv4_ops ops) (ipv4_count st))
      (k \<mapsto> (case op_lookup (ipv4_ops ops) (ipv4_count st) k of Some v \<Rightarrow> v | None \<Rightarrow> 0) + 1)"
proof -
  let ?l = "op_lookup (ipv4_ops ops)"
  have h: "bpf_hash (ipv4_ops ops)" using assms(1) by (rule bpf_room.axioms)
  obtain m v where i: "bpf_map_lookup_or_try_init (ipv4_ops ops) (ipv4_count st) k 0 = (m, Some v)"
    using bpf_room.try_init_room [OF assms(1-3)] by blast
  then have m: "?l m = (?l (ipv4_count st))(k \<mapsto> v)" "v = (case ?l (ipv4_count st) k of Some w \<Rightarrow> w | None \<Rightarrow> 0)"
    using bpf_hash.try_init_Some [OF h i] by simp_all
  have "?l (op_store (ipv4_ops ops) m k (v + 1)) = (?l m)(k \<mapsto> v + 1)"
    by (rule bpf_map.store_ok [OF bpf_hash.axioms(1) [OF h]]) (simp add: m)
  then show ?thesis using i m by (simp add: count_v4_def assms(4) [symmetric])
qed

lemma fold_report_counts:
  assumes "bpf_room (ipv4_ops ops) max_entries" and "do_count ro"
    and "op_lookup (ipv4_ops ops) (ipv4_count st) = Map.empty" and "card (flows4 cns) \<le> max_entries"
  shows "op_lookup (ipv4_ops ops) (ipv4_count (fold (report ops ro) cns st)) = count_map cns"
  using assms(4)
proof (induction cns rule: rev_induct)
  case Nil
  then show ?case using assms(3) by (auto simp: count_map_def)
next
  case (snoc cn cns)
  let ?st = "fold (report ops ro) cns st"
  have fin: "finite (flows4 (cns @ [cn]))" by (simp add: flows4_def)
  have "flows4 cns \<subseteq> flows4 (cns @ [cn])" by (auto simp: flows4_def)
  then have "card (flows4 cns) \<le> max_entries" using card_mono [OF fin] snoc.prems by (meson order_trans)
  with snoc.IH have l: "op_lookup (ipv4_ops ops) (ipv4_count ?st) = count_map cns" by simp
  show ?case
  proof (cases "con_ver cn = 4")
    case False
    then have "ipv4_count (report ops ro cn ?st) = ipv4_count ?st"
      using assms(2) by (simp add: report_def count_v6_def Let_def split: prod.splits option.splits)
    then show ?thesis using l False by (simp add: count_map_snoc)
  next
    case True
    have "insert (flow4 cn) (dom (op_lookup (ipv4_ops ops) (ipv4_count ?st))) = flows4 (cns @ [cn])"
      using True unfolding l count_map_dom by (auto simp: flows4_def)
    then have "op_lookup (ipv4_ops ops) (ipv4_count (count_v4 ops ?st (con_sock cn) (skc_dport (con_sock cn)))) =
      (count_map cns)(flow4 cn \<mapsto> (case count_map cns (flow4 cn) of Some v \<Rightarrow> v | None \<Rightarrow> 0) + 1)"
      using count_v4_room [OF assms(1), of ?st "flow4 cn" "con_sock cn"] snoc.prems l
      by (simp add: flow4_def Let_def count_map_dom flows4_def)
    moreover have "report ops ro cn x = count_v4 ops x (con_sock cn) (skc_dport (con_sock cn))" for x
      using True assms(2) by (simp add: report_def Let_def)
    ultimately show ?thesis using True by (simp add: count_map_snoc fun_upd_def)
  qed
qed

section \<open>The port option\<close>

fun port_list :: "nat list \<Rightarrow> string" where
  "port_list [] = []"
| "port_list [p] = dec p"
| "port_list (p # q # ps) = dec p @ CHR '','' # port_list (q # ps)"

definition env_ok :: "connect_env \<Rightarrow> bool" where
  "env_ok e \<longleftrightarrow> length (c_ports e) = 64 \<and> 0 \<le> c_nports e \<and> c_nports e \<le> 64"

lemma get_ints_loop_bounds:
  "get_ints_loop n argp ret mn mx first = Some vs \<Longrightarrow> length ret \<le> n \<Longrightarrow>
   length vs \<le> n \<and> (\<exists>ws. vs = ret @ ws \<and> (\<forall>w \<in> set ws. mn \<le> w \<and> w \<le> mx))"
proof (induction n argp ret mn mx first rule: get_ints_loop.induct)
  case (1 n argp ret mn mx first)
  show ?case
  proof (cases "length ret < n")
    case False
    then show ?thesis using 1(2,3) by (subst (asm) get_ints_loop.simps) simp
  next
    case True
    obtain val err rest where st: "strtol argp = (val, err, rest)" by (metis prod_cases3)
    have v: "\<not> err" "mn \<le> val" "val \<le> mx" "\<not> (first \<and> rest = argp)"
      using 1(2) True st by (subst (asm) get_ints_loop.simps; auto split: if_splits)+
    show ?thesis
    proof (cases "rest = []")
      case nil: True
      then have "vs = ret @ [val]" using 1(2) True st v by (subst (asm) get_ints_loop.simps) (simp split: if_splits)
      then show ?thesis using True v by simp
    next
      case more: False
      then have "get_ints_loop n (tl rest) (ret @ [val]) mn mx False = Some vs"
        using 1(2) True st v by (subst (asm) get_ints_loop.simps) (auto split: if_splits)
      then have "length vs \<le> n \<and> (\<exists>ws. vs = (ret @ [val]) @ ws \<and> (\<forall>w \<in> set ws. mn \<le> w \<and> w \<le> mx))"
        using 1(1) [OF True st [symmetric] refl refl v(1) _ more] v more True by simp
      then show ?thesis using v by auto
    qed
  qed
qed

lemma get_ints_bounds:
  "get_ints arg n mn mx = Some vs \<Longrightarrow> length vs \<le> n \<and> (\<forall>v \<in> set vs. mn \<le> v \<and> v \<le> mx)"
  using get_ints_loop_bounds [of n arg "[]" mn mx True vs] by (auto simp: get_ints_def)

lemma strtol_dec_comma: "p < 2 ^ 63 \<Longrightarrow> strtol (dec p @ CHR '','' # r) = (int p, False, CHR '','' # r)"
  by (rule strtol_dec) (auto simp: c_isdigit_def)

lemma dec_neq_comma: "dec p @ CHR '','' # r \<noteq> CHR '','' # r"
  using dec_nonempty [of p] by (metis append_self_conv2)

lemma get_ints_loop_list:
  assumes "\<forall>p \<in> set ps. mn \<le> int p \<and> int p \<le> mx" and "mx < 2 ^ 63" and "ps \<noteq> []" and "length ret + length ps \<le> n"
  shows "get_ints_loop n (port_list ps) ret mn mx first = Some (ret @ map int ps)"
  using assms(1,3,4)
proof (induction ps arbitrary: ret first rule: port_list.induct)
  case (2 p)
  have "strtol (dec p) = (int p, False, [])" using strtol_dec [of p "[]"] 2 assms(2) by simp
  then show ?case using 2 dec_nonempty [of p] by (subst get_ints_loop.simps) auto
next
  case (3 p q ps)
  have "p < 2 ^ 63" using 3(2) assms(2) by auto
  then have "get_ints_loop n (port_list (p # q # ps)) ret mn mx first =
      get_ints_loop n (port_list (q # ps)) (ret @ [int p]) mn mx False"
    using 3(2-) strtol_dec_comma [of p] dec_neq_comma [of p] by (subst get_ints_loop.simps) auto
  then show ?case using 3(1) [of "ret @ [int p]" False] 3(2-) by simp
qed simp

lemma get_ints_list:
  assumes "\<forall>p \<in> set ps. 0 < p \<and> p < 65536" and "ps \<noteq> []" and "length ps \<le> 64"
  shows "get_ints (port_list ps) 64 1 65535 = Some (map int ps)"
  using get_ints_loop_list [of ps 1 65535 "[]" 64 True] assms by (force simp: get_ints_def)

lemma connect_parse_arg_ok:
  "env_ok e \<Longrightarrow> connect_parse_arg key arg e = Some (err, e') \<Longrightarrow> env_ok e'"
  using get_ints_bounds [of arg 64 1 65535]
  by (auto simp: connect_parse_arg_def env_ok_def split: if_splits option.splits)

lemma rodata_of_env_ok: "env_ok e \<Longrightarrow> rodata_ok (connect_rodata_of e)"
  by (auto simp: env_ok_def rodata_ok_def connect_rodata_of_def)

section \<open>Properties\<close>

definition connect_hash_ops :: "((u32 \<times> u64) list, (ipv4_flow_key \<times> u64) list, (ipv6_flow_key \<times> u64) list) connect_ops" where
  "connect_hash_ops = \<lparr>sockets_ops = hash_ops 8192, ipv4_ops = hash_ops 8192, ipv6_ops = hash_ops 8192\<rparr>"

definition connect_empty :: "((u32 \<times> u64) list, (ipv4_flow_key \<times> u64) list, (ipv6_flow_key \<times> u64) list) connect_maps" where
  "connect_empty = \<lparr>sockets = [], ipv4_count = [], ipv6_count = [], events = []\<rparr>"

definition sample_ctx :: "u64 \<Rightarrow> bpf_ctx" where
  "sample_ctx t = \<lparr>ctx_pid_tgid = t, ctx_uid_gid = 1000, ctx_ktime_ns = 5000, ctx_comm = replicate 16 0\<rparr>"

definition sample_conn :: "u64 \<Rightarrow> conn_sock" where
  "sample_conn p = \<lparr>skc_rcv_saddr = 0x0100007f, skc_daddr = 0x08080808, skc_v6_rcv_saddr = replicate 16 0,
     skc_v6_daddr = replicate 16 0, skc_dport = 0x5000\<rparr>"

text \<open>Two threads whose connections overlap; the second one fails.\<close>

definition sample_steps :: "probe_step list" where
  "sample_steps = [Enter (sample_ctx 7) 100, Enter (sample_ctx 8) 200,
     Exit (sample_ctx 7) sample_conn 0 4, Exit (sample_ctx 8) sample_conn (- 111) 4]"

lemma sample_steps_facts:
  "well_nested Map.empty sample_steps" "card (step_tid ` set sample_steps) \<le> 8192"
proof -
  show "well_nested Map.empty sample_steps" by (simp add: sample_steps_def sample_ctx_def tid_of_def)
  have "card (step_tid ` set sample_steps) \<le> card (set sample_steps)" by (rule card_image_le) simp
  also have "\<dots> \<le> length sample_steps" by (rule card_length)
  finally show "card (step_tid ` set sample_steps) \<le> 8192" by (simp add: sample_steps_def)
qed

lemma sample_maps:
  "bpf_room (sockets_ops connect_hash_ops) 8192" "bpf_room (ipv4_ops connect_hash_ops) 8192"
  "op_lookup (sockets_ops connect_hash_ops) (sockets connect_empty) = Map.empty"
  "op_lookup (ipv4_ops connect_hash_ops) (ipv4_count connect_empty) = Map.empty"
  by (simp_all add: connect_hash_ops_def hash_ref_room.bpf_room_axioms connect_empty_def)
    (simp_all add: hash_ops_def)

lemma sample_env_ok: "env_ok connect_env_init" "env_ok (connect_env_init\<lparr>c_count := b\<rparr>)"
  by (simp_all add: env_ok_def connect_env_init_def)

lemma sample_con:
  "filter (reported (connect_rodata_of connect_env_init)) (connections Map.empty sample_steps) =
   [\<lparr>con_enter = sample_ctx 7, con_sk = 100, con_exit = sample_ctx 7, con_mem = sample_conn, con_ret = 0, con_ver = 4\<rparr>]"
  by (simp add: sample_steps_def sample_ctx_def tid_of_def reported_def admitted_def port_wanted_def
      connect_rodata_of_def connect_env_init_def)

text \<open>
  C20. Tracing is exact under every interleaving: threads may enter and return in any
  order, and as long as a thread does not enter twice before it returns and the threads
  fit the map of sockets, the events in the perf buffer are exactly one event per
  successful connection that passes the pid, uid and port filters, in the order of the
  returns, with the addresses and the port of the socket at that moment.
\<close>

theorem tcpconnect_events:
  assumes "bpf_room (sockets_ops ops) max_entries" and "rodata_ok ro" and "\<not> do_count ro"
    and "op_lookup (sockets_ops ops) (sockets st) = Map.empty" and "well_nested Map.empty ps"
    and "card (step_tid ` set ps) \<le> max_entries"
  shows "\<exists>st'. probes ops ro st ps = Some st' \<and>
    events st' = events st @ map event_of (filter (reported ro) (connections Map.empty ps))"
  using assms by (rule probes_events)

theorem tcpconnect_events_witness:
  "\<exists>st' ev. probes connect_hash_ops (connect_rodata_of connect_env_init) connect_empty sample_steps = Some st' \<and>
    events st' = [ev] \<and> ev_daddr ev = Addr_v4 0x08080808"
proof -
  have "\<exists>st'. probes connect_hash_ops (connect_rodata_of connect_env_init) connect_empty sample_steps = Some st' \<and>
    events st' = events connect_empty @ map event_of
      (filter (reported (connect_rodata_of connect_env_init)) (connections Map.empty sample_steps))"
    by (rule tcpconnect_events [OF sample_maps(1) rodata_of_env_ok [OF sample_env_ok(1)] _ sample_maps(3) sample_steps_facts])
      (simp add: connect_rodata_of_def connect_env_init_def)
  then show ?thesis
    unfolding sample_con by (auto simp: connect_empty_def event_of_def con_sock_def sample_conn_def Let_def)
qed

text \<open>
  C21. Counting is exact under every interleaving: with \<open>do_count\<close>, every flow key of an
  IPv4 connection that is to be reported has its number of connections in the map (as a
  64-bit number), every other key is absent.
\<close>

theorem tcpconnect_counts:
  assumes "bpf_room (sockets_ops ops) max_entries" and "bpf_room (ipv4_ops ops) max_entries"
    and "rodata_ok ro" and "do_count ro"
    and "op_lookup (sockets_ops ops) (sockets st) = Map.empty"
    and "op_lookup (ipv4_ops ops) (ipv4_count st) = Map.empty" and "well_nested Map.empty ps"
    and "card (step_tid ` set ps) \<le> max_entries"
    and "card (flows4 (filter (reported ro) (connections Map.empty ps))) \<le> max_entries"
  shows "\<exists>st'. probes ops ro st ps = Some st' \<and>
    op_lookup (ipv4_ops ops) (ipv4_count st') k =
      (let n = length (filter (\<lambda>cn. reported ro cn \<and> con_ver cn = 4 \<and> flow4 cn = k) (connections Map.empty ps))
       in if n = 0 then None else Some (of_nat n))"
proof -
  have "follows ro Map.empty (op_lookup (sockets_ops ops) (sockets st))" using assms(5) by (simp add: follows_def)
  then obtain s where "probes ops ro st ps = Some ((fold (report ops ro)
      (filter (reported ro) (connections Map.empty ps)) st)\<lparr>sockets := s\<rparr>)"
    using probes_sequential [OF assms(1,3), of "step_tid ` set ps" Map.empty st ps] assms(7,8) by auto
  moreover have "filter (\<lambda>cn. con_ver cn = 4 \<and> flow4 cn = k) (filter (reported ro) cs) =
      filter (\<lambda>cn. reported ro cn \<and> con_ver cn = 4 \<and> flow4 cn = k) cs" for cs
    by (induction cs) auto
  ultimately show ?thesis
    using fold_report_counts [OF assms(2,4,6,9)] by (simp add: count_map_def)
qed

theorem tcpconnect_counts_witness:
  "\<exists>st'. probes connect_hash_ops (connect_rodata_of (connect_env_init\<lparr>c_count := True\<rparr>)) connect_empty sample_steps = Some st' \<and>
    op_lookup (ipv4_ops connect_hash_ops) (ipv4_count st') \<lparr>v4_saddr = 0x0100007f, v4_daddr = 0x08080808, v4_dport = 0x5000\<rparr> = Some 1"
proof -
  let ?ro = "connect_rodata_of (connect_env_init\<lparr>c_count := True\<rparr>)"
  let ?k = "\<lparr>v4_saddr = 0x0100007f, v4_daddr = 0x08080808, v4_dport = 0x5000\<rparr>"
  let ?cn = "\<lparr>con_enter = sample_ctx 7, con_sk = 100, con_exit = sample_ctx 7, con_mem = sample_conn, con_ret = 0, con_ver = 4\<rparr>"
  have c: "filter (reported ?ro) (connections Map.empty sample_steps) = [?cn]"
    by (simp add: sample_steps_def sample_ctx_def tid_of_def reported_def admitted_def port_wanted_def
        connect_rodata_of_def connect_env_init_def)
  have d: "do_count ?ro" by (simp add: connect_rodata_of_def)
  have f4: "card (flows4 [?cn]) \<le> 8192"
    unfolding flows4_def by (rule order_trans [OF card_image_le]) (auto intro: order_trans [OF card_mono [of "{?cn}"]])
  have f: "flow4 ?cn = ?k" by (simp add: flow4_def con_sock_def sample_conn_def)
  have "filter (\<lambda>cn. reported ?ro cn \<and> con_ver cn = 4 \<and> flow4 cn = ?k) (connections Map.empty sample_steps) =
      filter (\<lambda>cn. con_ver cn = 4 \<and> flow4 cn = ?k) [?cn]"
    unfolding c [symmetric] by (simp add: filter_filter conj_commute conj_left_commute)
  then have n: "filter (\<lambda>cn. reported ?ro cn \<and> con_ver cn = 4 \<and> flow4 cn = ?k) (connections Map.empty sample_steps) = [?cn]"
    using f by simp
  have "\<exists>st'. probes connect_hash_ops ?ro connect_empty sample_steps = Some st' \<and>
    op_lookup (ipv4_ops connect_hash_ops) (ipv4_count st') ?k =
      (let n = length (filter (\<lambda>cn. reported ?ro cn \<and> con_ver cn = 4 \<and> flow4 cn = ?k) (connections Map.empty sample_steps))
       in if n = 0 then None else Some (of_nat n))"
    by (rule tcpconnect_counts [OF sample_maps(1,2) rodata_of_env_ok [OF sample_env_ok(2)] d sample_maps(3,4) sample_steps_facts])
      (unfold c, rule f4)
  then show ?thesis unfolding n by simp
qed

text \<open>
  The port option reaches the filter: the argument that lists 1 to 64 ports between
  1 and 65535, separated by commas, is accepted, the environment stays well formed
  (so the BPF program never reads outside \<open>filter_ports\<close>), and a connection passes the
  port filter exactly when its port is one of the list.
\<close>

theorem port_option_filters:
  assumes "env_ok e" and "ps \<noteq> []" and "length ps \<le> 64" and "\<forall>p \<in> set ps. 0 < p \<and> p < 65536"
  shows "\<exists>e'. connect_parse_arg CHR ''P'' (port_list ps) e = Some (0, e') \<and> env_ok e' \<and>
    rodata_ok (connect_rodata_of e') \<and>
    (\<forall>q < 65536. filter_port (connect_rodata_of e') (bpf_htons (of_nat q)) = Some (q \<notin> set ps))"
proof -
  define e' where "e' = e\<lparr>c_ports := map int ps @ drop (length ps) (c_ports e), c_nports := int (length ps)\<rparr>"
  have p: "connect_parse_arg CHR ''P'' (port_list ps) e = Some (0, e')"
    using get_ints_list [OF assms(4,2,3)] by (simp add: connect_parse_arg_def e'_def)
  then have ok: "env_ok e'" by (rule connect_parse_arg_ok [OF assms(1)])
  have fp: "take (nat (filter_ports_len (connect_rodata_of e'))) (filter_ports (connect_rodata_of e')) =
      map (\<lambda>p. uint (bpf_htons (of_nat p))) ps"
    using assms(2) by (simp add: connect_rodata_of_def e'_def)
  have inj: "uint (bpf_htons (of_nat q)) = uint (bpf_htons (of_nat p)) \<longleftrightarrow> q = p" if "q < 65536" "p < 65536" for p q
  proof -
    have "uint (bpf_htons (of_nat q)) = uint (bpf_htons (of_nat p)) \<longleftrightarrow> (of_nat q :: u16) = of_nat p"
      by (metis bpf_htons_def swab16_swab16 word_uint_eq_iff)
    also have "\<dots> \<longleftrightarrow> q = p" using that by (simp add: word_unat_eq_iff unat_of_nat take_bit_eq_mod)
    finally show ?thesis .
  qed
  have "port_wanted (connect_rodata_of e') (bpf_htons (of_nat q)) \<longleftrightarrow> q \<in> set ps" if "q < 65536" for q
    using fp inj that assms(2,4) by (auto simp: port_wanted_def connect_rodata_of_def e'_def)
  then show ?thesis using p ok rodata_of_env_ok [OF ok] filter_port_spec by auto
qed

theorem port_option_filters_witness:
  "\<exists>e'. connect_parse_arg CHR ''P'' ''80,443'' connect_env_init = Some (0, e') \<and>
    filter_port (connect_rodata_of e') (bpf_htons 443) = Some False \<and>
    filter_port (connect_rodata_of e') (bpf_htons 22) = Some True"
proof -
  have l: "port_list [80, 443] = ''80,443''" by code_simp
  have "env_ok connect_env_init" by (simp add: env_ok_def connect_env_init_def)
  then obtain e' where e': "connect_parse_arg CHR ''P'' (port_list [80, 443]) connect_env_init = Some (0, e')"
    "\<forall>q < 65536. filter_port (connect_rodata_of e') (bpf_htons (of_nat q)) = Some (q \<notin> set [80, 443])"
    using port_option_filters [of connect_env_init "[80, 443]"] by auto
  show ?thesis using e'(1) e'(2) [rule_format, of 443] e'(2) [rule_format, of 22] unfolding l by simp
qed

end
