(* ===== verification/Tcpconnect_Tool.thy ===== *)
theory Tcpconnect_Tool
  imports Tcpconnect "HOL-Library.Sublist"
begin

text \<open>
  The output and \<^verbatim>\<open>main\<close> of the tcpconnect tool (\<^verbatim>\<open>plugin/libbpf-test/okk/tcpconnect.c\<close>), composed with its BPF programs.
  The perf buffer is a parameter: the list of what each \<^verbatim>\<open>perf_buffer__poll\<close> delivers and returns.  The calls of the
  skeleton and of \<^verbatim>\<open>signal\<close> are given by their results.
\<close>

section \<open>Operations\<close>

datatype perf_item = Sample event | Lost u64 int

text \<open>\<open>pp_exiting\<close> is the flag of the signal handler when the loop tests it before the poll.\<close>

record perf_poll =
  pp_exiting :: bool
  pp_items :: "perf_item list"
  pp_ret :: int
  pp_errno :: int

datatype tool_line =
    Events_header bool bool
  | Event_line event_line
  | Broken_event u32
  | Lost_events u64 int
  | Open_failed int
  | Poll_failed int
  | Count_header
  | Count_v4 "(u32 \<times> u32 \<times> u16 \<times> u64) list"
  | Count_v6 "(bytes \<times> bytes \<times> u16 \<times> u64) list"
  | Warning string

definition print_events_header :: "connect_env \<Rightarrow> tool_line" where
  "print_events_header e = Events_header (c_print_timestamp e) (c_print_uid e)"

definition handle_lost_events :: "u64 \<Rightarrow> int \<Rightarrow> tool_line" where
  "handle_lost_events lost_cnt cpu = Lost_events lost_cnt cpu"

text \<open>The callbacks that one poll makes; \<open>start_ts\<close> is the static variable of \<^verbatim>\<open>handle_event\<close>.\<close>

fun perf_callbacks :: "connect_env \<Rightarrow> u64 \<Rightarrow> perf_item list \<Rightarrow> tool_line list \<times> u64" where
  "perf_callbacks e start_ts [] = ([], start_ts)"
| "perf_callbacks e start_ts (Sample ev # is) =
     (case handle_event e start_ts ev of
        (l, ts) \<Rightarrow> (case perf_callbacks e ts is of
          (ls, ts) \<Rightarrow> ((case l of None \<Rightarrow> Broken_event (ev_af ev) | Some l \<Rightarrow> Event_line l) # ls, ts)))"
| "perf_callbacks e start_ts (Lost n cpu # is) =
     (case perf_callbacks e start_ts is of (ls, ts) \<Rightarrow> (handle_lost_events n cpu # ls, ts))"

text \<open>The loop of \<^verbatim>\<open>print_events\<close>; the flag tells whether it has ended within the polls given.\<close>

fun events_loop :: "connect_env \<Rightarrow> u64 \<Rightarrow> perf_poll list \<Rightarrow> bool \<times> tool_line list" where
  "events_loop e start_ts [] = (False, [])"
| "events_loop e start_ts (p # ps) =
     (if pp_exiting p then (True, [])
      else (case perf_callbacks e start_ts (pp_items p) of
          (ls, ts) \<Rightarrow>
            if pp_ret p < 0 \<and> pp_errno p \<noteq> EINTR then (True, ls @ [Poll_failed (pp_errno p)])
            else (case events_loop e ts ps of (fin, rest) \<Rightarrow> (fin, ls @ rest))))"

definition print_events :: "connect_env \<Rightarrow> int \<Rightarrow> perf_poll list \<Rightarrow> bool \<times> tool_line list" where
  "print_events e open_err polls =
     (if open_err \<noteq> 0 then (True, [Open_failed open_err])
      else (case events_loop e 0 polls of (fin, ls) \<Rightarrow> (fin, print_events_header e # ls)))"

text \<open>\<open>signals\<close>: the values of the flag before each \<^verbatim>\<open>pause\<close>.\<close>

fun print_count :: "'m4 \<Rightarrow> 'm6 \<Rightarrow> bool list \<Rightarrow> bool \<times> tool_line list" where
  "print_count m4 m6 [] = (False, [])"
| "print_count m4 m6 (exiting # signals) =
     (if exiting then (True, [Count_header, Count_v4 (print_count_ipv4 m4), Count_v6 (print_count_ipv6 m6)])
      else print_count m4 m6 signals)"

record connect_host =
  ch_open :: bool
  ch_load_err :: int
  ch_attach_err :: int
  ch_signal_ok :: bool
  ch_perf_err :: int

text \<open>\<open>Inl\<close> is an exit of the process: with status 0 after the help (option \<open>h\<close>), with status 64 through \<^verbatim>\<open>argp_usage\<close>.\<close>

fun connect_argp :: "(char \<times> string) list \<Rightarrow> connect_env \<Rightarrow> int + int \<times> connect_env" where
  "connect_argp [] e = Inr (0, e)"
| "connect_argp ((key, arg) # args) e =
     (case connect_parse_arg key arg e of
        None \<Rightarrow> Inl (if key = CHR ''h'' then 0 else 64)
      | Some (err, e) \<Rightarrow> if err \<noteq> 0 then Inr (err, e) else connect_argp args e)"

text \<open>The exit status, \<open>None\<close> while the tool runs, and what is printed.\<close>

definition connect_main ::
    "connect_host \<Rightarrow> (char \<times> string) list \<Rightarrow> 'm4 \<Rightarrow> 'm6 \<Rightarrow> perf_poll list \<Rightarrow> int option \<times> tool_line list" where
  "connect_main h args m4 m6 polls =
     (case connect_argp args connect_env_init of
        Inl status \<Rightarrow> (Some status, [])
      | Inr (err, e) \<Rightarrow>
          if err \<noteq> 0 then (Some err, [])
          else if \<not> ch_open h then (Some 1, [Warning ''open''])
          else if ch_load_err h \<noteq> 0 then (Some 1, [Warning ''load''])
          else if ch_attach_err h \<noteq> 0 then (Some 1, [Warning ''attach''])
          else if \<not> ch_signal_ok h then (Some 1, [Warning ''signal''])
          else
            (case (if c_count e then print_count m4 m6 (map pp_exiting polls) else print_events e (ch_perf_err h) polls) of
               (fin, ls) \<Rightarrow> (if fin then Some 0 else None, ls)))"

section \<open>Lines\<close>

text \<open>The line of a connection, when the first event came at \<open>t0\<close>.\<close>

definition line_of :: "connect_env \<Rightarrow> u64 \<Rightarrow> connection \<Rightarrow> event_line" where
  "line_of e t0 cn =
     (let sk = con_sock cn; c = con_exit cn
      in \<lparr>line_time = (if c_print_timestamp e then Some (ctx_ktime_ns c div 1000 - t0) else None),
          line_uid = (if c_print_uid e then Some (uid_of c) else None), line_pid = pid_of c, line_task = take 12 (ctx_comm c),
          line_ver = (if con_ver cn = 4 then 4 else 6),
          line_src = (if con_ver cn = 4 then Addr_v4 (skc_rcv_saddr sk) else Addr_v6 (skc_v6_rcv_saddr sk)),
          line_dst = (if con_ver cn = 4 then Addr_v4 (skc_daddr sk) else Addr_v6 (skc_v6_daddr sk)),
          line_port = bpf_htons (skc_dport sk)\<rparr>)"

lemma handle_event_of:
  "handle_event e ts (event_of cn) =
     (let t0 = (if c_print_timestamp e \<and> ts = 0 then ctx_ktime_ns (con_exit cn) div 1000 else ts) in (Some (line_of e t0 cn), t0))"
  by (simp add: handle_event_def event_of_def line_of_def AF_INET_def AF_INET6_def Let_def)

lemma perf_callbacks_append:
  "perf_callbacks e ts (xs @ ys) =
     (case perf_callbacks e ts xs of (ls, ts) \<Rightarrow> (case perf_callbacks e ts ys of (ls', ts) \<Rightarrow> (ls @ ls', ts)))"
  by (induction e ts xs rule: perf_callbacks.induct) (auto split: prod.splits option.splits)

lemma line_of_no_time: "\<not> c_print_timestamp e \<Longrightarrow> line_of e t cn = line_of e t' cn"
  by (simp add: line_of_def)

text \<open>
  The perf buffer has one ring per CPU, and \<open>perf_buffer__poll\<close> reads the rings in any order.  A delivery is the
  list of the records the polls read: the CPU, and either the number of a written event or a count of lost events.
  The ring of a CPU keeps the order of what is written on it; when it is full events are lost, and a record with
  their number may follow later or, at the end, not at all.
\<close>

inductive lossy :: "'a list \<Rightarrow> ('a + u64) list \<Rightarrow> bool" where
  unread: "lossy xs []"
| sample: "lossy xs ys \<Longrightarrow> lossy (x # xs) (Inl x # ys)"
| lost: "ds \<noteq> [] \<Longrightarrow> unat n = length ds \<Longrightarrow> lossy xs ys \<Longrightarrow> lossy (ds @ xs) (Inr n # ys)"

type_synonym delivery = "(int \<times> (nat + u64)) list"

definition of_cpu :: "int \<Rightarrow> delivery \<Rightarrow> (nat + u64) list" where
  "of_cpu c ds = map snd (filter (\<lambda>d. fst d = c) ds)"

fun lost_of :: "('a + u64) list \<Rightarrow> nat" where
  "lost_of [] = 0"
| "lost_of (Inl x # ys) = lost_of ys"
| "lost_of (Inr n # ys) = unat n + lost_of ys"

fun samples_of :: "('a + u64) list \<Rightarrow> 'a list" where
  "samples_of [] = []"
| "samples_of (Inl x # ys) = x # samples_of ys"
| "samples_of (Inr n # ys) = samples_of ys"

text \<open>The numbers below \<open>n\<close> of the events that are written on CPU \<open>c\<close>.\<close>

definition written_on :: "(nat \<Rightarrow> int) \<Rightarrow> int \<Rightarrow> nat \<Rightarrow> nat list" where
  "written_on cpu c n = filter (\<lambda>i. cpu i = c) [0..<n]"

definition perf_delivers :: "(nat \<Rightarrow> int) \<Rightarrow> nat \<Rightarrow> delivery \<Rightarrow> bool" where
  "perf_delivers cpu n ds \<longleftrightarrow> (\<forall>c. lossy (written_on cpu c n) (of_cpu c ds))"

fun item_of :: "event list \<Rightarrow> int \<times> (nat + u64) \<Rightarrow> perf_item" where
  "item_of evs (c, Inl i) = Sample (evs ! i)"
| "item_of evs (c, Inr n) = Lost n c"

text \<open>The line of a record, and the time of the first connection that is delivered.\<close>

fun shown :: "connect_env \<Rightarrow> u64 \<Rightarrow> connection list \<Rightarrow> int \<times> (nat + u64) \<Rightarrow> tool_line" where
  "shown e t0 cns (c, Inl i) = Event_line (line_of e t0 (cns ! i))"
| "shown e t0 cns (c, Inr n) = Lost_events n c"

definition us_of :: "connection \<Rightarrow> u64" where
  "us_of cn = ctx_ktime_ns (con_exit cn) div 1000"

definition first_time :: "connection list \<Rightarrow> delivery \<Rightarrow> u64" where
  "first_time cns ds = (case samples_of (map snd ds) of [] \<Rightarrow> 0 | i # is \<Rightarrow> us_of (cns ! i))"

lemma set_samples_of: "set (samples_of ys) = {x. Inl x \<in> set ys}"
  by (induction ys rule: samples_of.induct) auto

lemma lossy_samples: "lossy xs ys \<Longrightarrow> subseq (samples_of ys) xs"
  by (induction rule: lossy.induct) auto

lemma lossy_count: "lossy xs ys \<Longrightarrow> length (samples_of ys) + lost_of ys \<le> length xs"
  by (induction rule: lossy.induct) auto

lemma subseq_facts: "subseq xs ys \<Longrightarrow> set xs \<subseteq> set ys \<and> (distinct ys \<longrightarrow> distinct xs)"
  by (induction rule: list_emb.induct) auto

lemma of_cpu_Cons: "of_cpu c (d # ds) = (if fst d = c then snd d # of_cpu c ds else of_cpu c ds)"
  by (simp add: of_cpu_def)

lemma in_of_cpu: "(c, x) \<in> set ds \<Longrightarrow> x \<in> set (of_cpu c ds)"
  by (force simp: of_cpu_def)

lemma perf_delivers_facts:
  assumes "perf_delivers cpu n ds"
  shows "(c, Inl i) \<in> set ds \<Longrightarrow> cpu i = c \<and> i < n" and "distinct (samples_of (of_cpu c ds))"
proof -
  have w: "set (samples_of (of_cpu c ds)) \<subseteq> set (written_on cpu c n) \<and> (distinct (written_on cpu c n) \<longrightarrow> distinct (samples_of (of_cpu c ds)))"
    using assms by (intro subseq_facts lossy_samples) (simp add: perf_delivers_def)
  then show "distinct (samples_of (of_cpu c ds))" by (simp add: written_on_def)
  show "(c, Inl i) \<in> set ds \<Longrightarrow> cpu i = c \<and> i < n" using w by (auto simp: written_on_def set_samples_of dest: in_of_cpu)
qed

lemma distinct_samples_of:
  assumes "\<forall>c. distinct (samples_of (of_cpu c ds))" and "\<forall>c i. (c, Inl i) \<in> set ds \<longrightarrow> cpu i = c"
  shows "distinct (samples_of (map snd ds))"
  using assms
proof (induction ds)
  case (Cons d ds)
  obtain c x where d: "d = (c, x)" by (cases d)
  have "distinct (samples_of (of_cpu c' ds))" for c'
    using Cons.prems(1) [rule_format, of c'] by (cases x) (auto simp: of_cpu_Cons d split: if_splits)
  then have "distinct (samples_of (map snd ds))" using Cons by simp
  moreover have "(c', Inl i) \<notin> set ds" if x: "x = Inl i" for i c'
  proof
    assume "(c', Inl i) \<in> set ds"
    moreover from this have "c' = c" using Cons.prems(2) by (metis d x list.set_intros)
    ultimately have "Inl i \<in> set (of_cpu c ds)" using in_of_cpu by blast
    then show False using Cons.prems(1) [rule_format, of c] by (simp add: d x of_cpu_Cons set_samples_of)
  qed
  ultimately show ?case by (cases x) (auto simp: d set_samples_of)
qed simp

lemma perf_callbacks_started:
  assumes "c_print_timestamp e \<longrightarrow> ts \<noteq> 0" and "\<forall>c i. (c, Inl i) \<in> set ds \<longrightarrow> i < length cns"
  shows "perf_callbacks e ts (map (item_of (map event_of cns)) ds) = (map (shown e ts cns) ds, ts)"
  using assms(2)
proof (induction ds)
  case (Cons d ds)
  obtain c x where "d = (c, x)" by (cases d)
  with Cons assms(1) show ?case by (cases x) (auto simp: handle_event_of handle_lost_events_def Let_def)
qed simp

lemma perf_callbacks_events:
  assumes "\<forall>cn \<in> set cns. us_of cn \<noteq> 0" and "\<forall>c i. (c, Inl i) \<in> set ds \<longrightarrow> i < length cns"
  shows "fst (perf_callbacks e 0 (map (item_of (map event_of cns)) ds)) = map (shown e (first_time cns ds) cns) ds"
  using assms(2)
proof (induction ds)
  case (Cons d ds)
  obtain c x where d: "d = (c, x)" by (cases d)
  show ?case
  proof (cases x)
    case (Inl i)
    then have i: "i < length cns" using Cons.prems d by auto
    let ?s = "if c_print_timestamp e then us_of (cns ! i) else 0"
    have st: "perf_callbacks e ?s (map (item_of (map event_of cns)) ds) = (map (shown e ?s cns) ds, ?s)"
      by (rule perf_callbacks_started) (use assms(1) Cons.prems i in auto)
    have "line_of e ?s = line_of e (us_of (cns ! i))" using line_of_no_time [of e ?s _ "us_of (cns ! i)"] by auto
    then have sh: "shown e ?s cns y = shown e (us_of (cns ! i)) cns y" for y by (cases "(e, ?s, cns, y)" rule: shown.cases) auto
    have "handle_event e 0 (event_of (cns ! i)) = (Some (line_of e ?s (cns ! i)), ?s)"
      by (simp add: handle_event_of us_of_def Let_def)
    then show ?thesis using st sh [of d] by (simp add: d Inl i first_time_def sh)
  next
    case (Inr n)
    then have "fst (perf_callbacks e 0 (map (item_of (map event_of cns)) ds)) = map (shown e (first_time cns ds) cns) ds"
      using Cons by simp
    moreover have "first_time cns (d # ds) = first_time cns ds" by (simp add: first_time_def d Inr)
    ultimately show ?thesis by (auto simp: d Inr handle_lost_events_def split: prod.splits)
  qed
qed simp

lemma events_loop_ok:
  assumes "\<forall>p \<in> set ps. \<not> pp_exiting p \<and> (0 \<le> pp_ret p \<or> pp_errno p = EINTR)" and "pp_exiting q"
  shows "events_loop e ts (ps @ q # qs) = (True, fst (perf_callbacks e ts (concat (map pp_items ps))))"
  using assms by (induction ps arbitrary: ts) (auto simp: perf_callbacks_append split: prod.splits)

lemma connect_argp_ok: "connect_argp args e = Inr (0, e') \<Longrightarrow> env_ok e \<Longrightarrow> env_ok e'"
  by (induction args e rule: connect_argp.induct) (auto dest: connect_parse_arg_ok split: option.splits if_splits)

section \<open>Properties\<close>

definition ready :: "connect_host \<Rightarrow> bool" where
  "ready h \<longleftrightarrow> ch_open h \<and> ch_load_err h = 0 \<and> ch_attach_err h = 0 \<and> ch_signal_ok h \<and> ch_perf_err h = 0"

text \<open>
  C37. From a connection to its line: with options that ask for events, a kernel in which the probes run in any
  interleaving, and a perf buffer with a ring per CPU that may lose events, the tool prints its heading and
  then one line per record that the polls deliver, and ends with status 0 when it is interrupted.  A sample
  gives the line of its connection, with the addresses, the port and the time since the first connection that is
  delivered; a loss gives the warning with its count.  No two lines are of the same connection; the
  lines of a CPU are in the order of the returns there, each of a successful connection that passes the filters of
  the options, and with the losses reported for it they are at most as many as these connections.
\<close>

theorem tcpconnect_prints_connections:
  assumes "connect_argp args connect_env_init = Inr (0, e)" and "\<not> c_count e" and "ready h"
    and "bpf_room (sockets_ops ops) max_entries" and "op_lookup (sockets_ops ops) (sockets st) = Map.empty" and "events st = []"
    and "well_nested Map.empty ps" and "card (step_tid ` set ps) \<le> max_entries"
    and "probes ops (connect_rodata_of e) st ps = Some st'"
    and "concat (map pp_items polls) = map (item_of (events st')) ds" and "perf_delivers cpu (length (events st')) ds"
    and "\<forall>p \<in> set polls. \<not> pp_exiting p \<and> (0 \<le> pp_ret p \<or> pp_errno p = EINTR)" and "pp_exiting q"
    and "\<forall>cn \<in> set (connections Map.empty ps). us_of cn \<noteq> 0"
  shows "let cns = filter (reported (connect_rodata_of e)) (connections Map.empty ps)
    in connect_main h args m4 m6 (polls @ [q]) = (Some 0, print_events_header e # map (shown e (first_time cns ds) cns) ds) \<and>
      distinct (samples_of (map snd ds)) \<and>
      (\<forall>c. subseq (samples_of (of_cpu c ds)) (written_on cpu c (length cns)) \<and>
        length (samples_of (of_cpu c ds)) + lost_of (of_cpu c ds) \<le> length (written_on cpu c (length cns)))"
proof -
  let ?ro = "connect_rodata_of e"
  let ?cns = "filter (reported ?ro) (connections Map.empty ps)"
  have "env_ok e" using connect_argp_ok [OF assms(1) sample_env_ok(1)] .
  then have ro: "rodata_ok ?ro" "\<not> do_count ?ro" using rodata_of_env_ok [of e] assms(2) by (simp, simp add: connect_rodata_of_def)
  have ev: "events st' = map event_of ?cns"
    using probes_events [OF assms(4) ro assms(5,7,8)] assms(6,9) by simp
  then have pd: "perf_delivers cpu (length ?cns) ds" using assms(11) by simp
  note facts = perf_delivers_facts [OF pd]
  have "fst (perf_callbacks e 0 (map (item_of (map event_of ?cns)) ds)) = map (shown e (first_time ?cns ds) ?cns) ds"
    by (rule perf_callbacks_events) (use assms(14) facts(1) in auto)
  then have "events_loop e 0 (polls @ [q]) = (True, map (shown e (first_time ?cns ds) ?cns) ds)"
    using events_loop_ok [OF assms(12,13), of e 0 "[]"] by (simp add: assms(10) ev)
  then have "connect_main h args m4 m6 (polls @ [q]) = (Some 0, print_events_header e # map (shown e (first_time ?cns ds) ?cns) ds)"
    using assms(1-3) by (simp add: connect_main_def print_events_def ready_def)
  moreover have "distinct (samples_of (map snd ds))" by (rule distinct_samples_of [of _ cpu]) (use facts in auto)
  moreover have "lossy (written_on cpu c (length ?cns)) (of_cpu c ds)" for c using pd by (simp add: perf_delivers_def)
  note lossy_samples [OF this] lossy_count [OF this]
  ultimately show ?thesis by (simp add: Let_def)
qed

definition three_steps :: "probe_step list" where
  "three_steps = concat (map (\<lambda>t. [Enter (sample_ctx t) 100, Exit (sample_ctx t) sample_conn 0 4]) [7, 8, 9])"

definition sample_of :: "u64 \<Rightarrow> connection" where
  "sample_of t = \<lparr>con_enter = sample_ctx t, con_sk = 100, con_exit = sample_ctx t, con_mem = sample_conn, con_ret = 0, con_ver = 4\<rparr>"

lemma three_steps_facts:
  "well_nested Map.empty three_steps" "card (step_tid ` set three_steps) \<le> 8192"
  "connections Map.empty three_steps = map sample_of [7, 8, 9]"
  "filter (reported (connect_rodata_of connect_env_init)) (connections Map.empty three_steps) = map sample_of [7, 8, 9]"
proof -
  show "well_nested Map.empty three_steps" by (simp add: three_steps_def sample_ctx_def tid_of_def)
  have "card (step_tid ` set three_steps) \<le> card (set three_steps)" by (rule card_image_le) simp
  also have "\<dots> \<le> length three_steps" by (rule card_length)
  finally show "card (step_tid ` set three_steps) \<le> 8192" by (simp add: three_steps_def)
  show c: "connections Map.empty three_steps = map sample_of [7, 8, 9]"
    by (simp add: three_steps_def sample_of_def sample_ctx_def tid_of_def)
  show "filter (reported (connect_rodata_of connect_env_init)) (connections Map.empty three_steps) = map sample_of [7, 8, 9]"
    unfolding c by (simp add: sample_of_def sample_ctx_def reported_def admitted_def port_wanted_def connect_rodata_of_def connect_env_init_def)
qed

text \<open>Of three connections the first is reported by CPU 1, after CPU 0 has lost the second and reported the third.\<close>

definition three_cpu :: "nat \<Rightarrow> int" where
  "three_cpu i = (if i = 0 then 1 else 0)"

definition three_delivered :: delivery where
  "three_delivered = [(0, Inr 1), (0, Inl 2), (1, Inl 0)]"

lemma three_delivers: "perf_delivers three_cpu 3 three_delivered"
proof -
  have "lossy ([1 :: nat] @ [2]) [Inr (1 :: u64), Inl 2]" "lossy [0 :: nat] [Inl 0]"
    by (intro lossy.intros; simp)+
  then show ?thesis
    by (auto simp: perf_delivers_def written_on_def of_cpu_def three_cpu_def three_delivered_def numeral_3_eq_3 numeral_2_eq_2 upt_rec lossy.unread)
qed

theorem tcpconnect_prints_connections_witness:
  "connect_main \<lparr>ch_open = True, ch_load_err = 0, ch_attach_err = 0, ch_signal_ok = True, ch_perf_err = 0\<rparr> [] () ()
      [\<lparr>pp_exiting = False, pp_items = [Lost 1 0, Sample (event_of (sample_of 9))], pp_ret = 1, pp_errno = 0\<rparr>,
       \<lparr>pp_exiting = False, pp_items = [Sample (event_of (sample_of 7))], pp_ret = 1, pp_errno = 0\<rparr>,
       \<lparr>pp_exiting = True, pp_items = [], pp_ret = 0, pp_errno = 0\<rparr>] =
    (Some 0, [Events_header False False, Lost_events 1 0, Event_line (line_of connect_env_init 5 (sample_of 9)),
       Event_line (line_of connect_env_init 5 (sample_of 7))])"
proof -
  let ?h = "\<lparr>ch_open = True, ch_load_err = 0, ch_attach_err = 0, ch_signal_ok = True, ch_perf_err = 0\<rparr>"
  let ?ps = "[\<lparr>pp_exiting = False, pp_items = [Lost 1 0, Sample (event_of (sample_of 9))], pp_ret = 1, pp_errno = 0\<rparr>,
    \<lparr>pp_exiting = False, pp_items = [Sample (event_of (sample_of 7))], pp_ret = 1, pp_errno = 0\<rparr>]"
  let ?q = "\<lparr>pp_exiting = True, pp_items = [], pp_ret = 0, pp_errno = 0\<rparr>"
  obtain st' where st': "probes connect_hash_ops (connect_rodata_of connect_env_init) connect_empty three_steps = Some st'"
      "events st' = map event_of (map sample_of [7, 8, 9])"
    using probes_events [OF sample_maps(1) rodata_of_env_ok [OF sample_env_ok(1)] _ sample_maps(3) three_steps_facts(1,2)] three_steps_facts(4)
    by (auto simp: connect_empty_def connect_rodata_of_def connect_env_init_def)
  have t: "\<forall>cn \<in> set (connections Map.empty three_steps). us_of cn \<noteq> 0" and u: "us_of (sample_of 9) = 5"
    by (simp_all add: three_steps_facts sample_of_def sample_ctx_def us_of_def)
  have i: "concat (map pp_items ?ps) = map (item_of (events st')) three_delivered"
    by (simp add: st' three_delivered_def)
  have "connect_main ?h [] () () (?ps @ [?q]) =
      (Some 0, print_events_header connect_env_init # map (shown connect_env_init (first_time (map sample_of [7, 8, 9]) three_delivered) (map sample_of [7, 8, 9])) three_delivered)"
    using tcpconnect_prints_connections [OF _ _ _ sample_maps(1,3) _ three_steps_facts(1,2) st'(1) i, of "[]" ?h three_cpu ?q "()" "()"]
      st'(2) three_delivers t three_steps_facts(4)
    by (simp add: connect_env_init_def ready_def connect_empty_def Let_def numeral_3_eq_3)
  then show ?thesis by (simp add: print_events_header_def connect_env_init_def first_time_def three_delivered_def u)
qed

end
