(* ===== verification/Sys_Files.thy ===== *)
theory Sys_Files
  imports C_Lib
begin

text \<open>
  The helpers of \<^verbatim>\<open>plugin/libbpf-test/trace_helpers.c\<close> that read files of the kernel: the
  table of partitions, and the questions whether a kernel module is loaded, whether a
  function can be probed and whether it has BTF.

  A file that is read with \<^verbatim>\<open>fgets\<close> is its text, cut into the chunks that \<^verbatim>\<open>fgets\<close> returns;
  a file that is read with \<^verbatim>\<open>fscanf\<close> is the list of the results of the calls.  \<open>None\<close> is a
  write outside a buffer or a read through a null pointer.
\<close>

section \<open>fgets and sscanf\<close>

definition newline :: char where "newline = CHR 0x0A"

text \<open>\<^verbatim>\<open>fgets\<close> with a buffer of \<open>n + 1\<close> bytes: it stops behind a newline or when \<open>n\<close> are read.\<close>

fun chunks_from :: "nat \<Rightarrow> string \<Rightarrow> string \<Rightarrow> string list" where
  "chunks_from n acc [] = (if acc = [] then [] else [acc])"
| "chunks_from n acc (c # s) =
     (let acc = acc @ [c]
      in if c = newline \<or> n \<le> length acc then acc # chunks_from n [] s else chunks_from n acc s)"

definition chunks :: "nat \<Rightarrow> string \<Rightarrow> string list" where
  "chunks n s = chunks_from n [] s"

text \<open>The conversions \<^verbatim>\<open>%u\<close> (and \<^verbatim>\<open>%llu\<close>) and \<^verbatim>\<open>%s\<close>.\<close>

definition scan_u :: "string \<Rightarrow> (u64 \<times> string) option" where
  "scan_u s = (let (v, _, rest) = strtoul s in if rest = s then None else Some (v, rest))"

definition scan_s :: "string \<Rightarrow> string option" where
  "scan_s s = (case dropWhile c_isspace s of [] \<Rightarrow> None | t \<Rightarrow> Some (takeWhile (\<lambda>c. \<not> c_isspace c) t))"

section \<open>Partitions\<close>

record partition =
  part_name :: "string option"
  part_dev :: u32

definition MINORBITS :: nat where "MINORBITS = 20"

definition MKDEV :: "u32 \<Rightarrow> u32 \<Rightarrow> u32" where
  "MKDEV ma mi = push_bit MINORBITS ma OR mi"

text \<open>\<open>ok\<close>: whether \<^verbatim>\<open>realloc\<close> and \<^verbatim>\<open>strdup\<close> succeed; a failed \<^verbatim>\<open>strdup\<close> leaves a null name.\<close>

definition partitions__add_partition :: "bool \<times> bool \<Rightarrow> partition list \<Rightarrow> string \<Rightarrow> u32 \<Rightarrow> int \<times> partition list" where
  "partitions__add_partition ok items name dev =
     (if \<not> fst ok then (- 1, items)
      else (0, items @ [\<lparr>part_name = (if snd ok then Some name else None), part_dev = dev\<rparr>]))"

definition scan_partition :: "string \<Rightarrow> (u32 \<times> u32 \<times> string) option" where
  "scan_partition buf = do {
     (devmaj, r) \<leftarrow> scan_u buf;
     (devmin, r) \<leftarrow> scan_u r;
     (nop, r) \<leftarrow> scan_u r;
     name \<leftarrow> scan_s r;
     Some (ucast devmaj, ucast devmin, name)
   }"

definition DISK_NAME_LEN :: nat where "DISK_NAME_LEN = 32"

fun partitions__load_loop ::
    "(nat \<Rightarrow> bool \<times> bool) \<Rightarrow> nat \<Rightarrow> string list \<Rightarrow> partition list \<Rightarrow> partition list option option" where
  "partitions__load_loop alloc i [] items = Some (Some items)"
| "partitions__load_loop alloc i (buf # f) items =
     (if hd buf \<noteq> CHR '' '' \<or> hd buf = newline then partitions__load_loop alloc (i + 1) f items
      else (case scan_partition buf of
          None \<Rightarrow> Some None
        | Some (devmaj, devmin, name) \<Rightarrow>
            if DISK_NAME_LEN \<le> length name then None
            else (case partitions__add_partition (alloc i) items name (MKDEV devmaj devmin) of
                (err, items) \<Rightarrow> if err \<noteq> 0 then Some None else partitions__load_loop alloc (i + 1) f items)))"

definition partitions__load :: "bool \<Rightarrow> bool \<Rightarrow> (nat \<Rightarrow> bool \<times> bool) \<Rightarrow> string \<Rightarrow> partition list option option" where
  "partitions__load fopen_ok calloc_ok alloc text =
     (if \<not> fopen_ok \<or> \<not> calloc_ok then Some None
      else partitions__load_loop alloc 0 (chunks 63 text) [])"

fun partitions__get_by_dev :: "partition list \<Rightarrow> u32 \<Rightarrow> partition option" where
  "partitions__get_by_dev [] dev = None"
| "partitions__get_by_dev (p # items) dev =
     (if part_dev p = dev then Some p else partitions__get_by_dev items dev)"

fun partitions__get_by_name :: "partition list \<Rightarrow> string \<Rightarrow> partition option option" where
  "partitions__get_by_name [] name = Some None"
| "partitions__get_by_name (p # items) name =
     (case part_name p of
        None \<Rightarrow> None
      | Some n \<Rightarrow> if strcmp n name = 0 then Some (Some p) else partitions__get_by_name items name)"

section \<open>Modules, probes and BTF\<close>

fun module_loop :: "string list \<Rightarrow> string \<Rightarrow> bool" where
  "module_loop [] name = False"
| "module_loop (buf # f) name =
     (case scan_s buf of
        None \<Rightarrow> False
      | Some w \<Rightarrow> if strcmp w name = 0 then True else module_loop f name)"

definition is_kernel_module :: "bool \<Rightarrow> string \<Rightarrow> string \<Rightarrow> bool" where
  "is_kernel_module fopen_ok text name = (if \<not> fopen_ok then False else module_loop (chunks 63 text) name)"

text \<open>
  \<^verbatim>\<open>kprobe_exists\<close>: a file is \<open>None\<close> when it cannot be opened, otherwise the list of the
  return values of \<^verbatim>\<open>fscanf\<close> and the names read.
\<close>

fun symbol_loop :: "(int \<times> string) list \<Rightarrow> string \<Rightarrow> bool" where
  "symbol_loop [] name = False"
| "symbol_loop ((ret, sym_name) # f) name =
     (if ret \<noteq> 1 then False else if strcmp name sym_name = 0 then True else symbol_loop f name)"

definition kprobe_exists :: "(int \<times> string) list option \<Rightarrow> (int \<times> string) list option \<Rightarrow> string \<Rightarrow> bool" where
  "kprobe_exists available_filter_functions kallsyms name =
     (case available_filter_functions of
        Some f \<Rightarrow> symbol_loop f name
      | None \<Rightarrow> (case kallsyms of None \<Rightarrow> False | Some f \<Rightarrow> symbol_loop f name))"

text \<open>\<open>readable\<close> is \<^verbatim>\<open>access(path, R_OK) == 0\<close>; the path is cut to the 79 characters of the buffer.\<close>

definition vmlinux_btf_exists :: "(string \<Rightarrow> bool) \<Rightarrow> bool" where
  "vmlinux_btf_exists readable = readable ''/sys/kernel/btf/vmlinux''"

definition module_btf_exists :: "(string \<Rightarrow> bool) \<Rightarrow> string option \<Rightarrow> bool" where
  "module_btf_exists readable m =
     (case m of None \<Rightarrow> False | Some md \<Rightarrow> readable (take 79 (''/sys/kernel/btf/'' @ md)))"

text \<open>
  \<^verbatim>\<open>fentry_exists\<close> over a parsed BTF object: the names of the enumerators of
  \<^verbatim>\<open>bpf_attach_type\<close> (\<open>None\<close> when there is no such enum) and the id of a function,
  negative when it has none.  \<open>vmlinux\<close> and \<open>split\<close> are the results of the two parses.
\<close>

record btf_view =
  btf_attach_types :: "string list option"
  btf_func_id :: "string \<Rightarrow> int"

definition fentry_exists ::
    "(string \<Rightarrow> bool) \<Rightarrow> btf_view option \<Rightarrow> (string \<Rightarrow> btf_view option) \<Rightarrow> string \<Rightarrow> string option \<Rightarrow> bool" where
  "fentry_exists readable vmlinux split name m =
     (case vmlinux of
        None \<Rightarrow> False
      | Some base \<Rightarrow>
          let btf = (if module_btf_exists readable m
                     then (case split (take 79 (''/sys/kernel/btf/'' @ the m)) of None \<Rightarrow> base | Some b \<Rightarrow> b)
                     else base)
          in case btf_attach_types btf of
               None \<Rightarrow> False
             | Some es \<Rightarrow> (if ''BPF_TRACE_FENTRY'' \<in> set es then btf_func_id btf name else - 1) > 0)"

definition get_ktime_ns :: "u64 \<Rightarrow> u64 \<Rightarrow> u64" where
  "get_ktime_ns tv_sec tv_nsec = tv_sec * 1000000000 + tv_nsec"

section \<open>Lines and chunks\<close>

lemma chunks_from_line:
  assumes "newline \<notin> set w" and "length acc + length w < n"
  shows "chunks_from n acc (w @ newline # s) = (acc @ w @ [newline]) # chunks_from n [] s"
  using assms by (induction w arbitrary: acc) (auto simp: Let_def)

lemma chunks_lines:
  assumes "\<forall>w \<in> set ws. newline \<notin> set w \<and> length w < n"
  shows "chunks n (concat (map (\<lambda>w. w @ [newline]) ws)) = map (\<lambda>w. w @ [newline]) ws"
  using assms unfolding chunks_def by (induction ws) (auto simp: chunks_from_line)

lemma c_isspace_newline [simp]: "c_isspace newline"
  by (simp add: c_isspace_def newline_def)

lemma c_isspace_blank [simp]: "c_isspace CHR '' ''"
  by (simp add: c_isspace_def)

lemma scan_s_simps: "scan_s [] = None"
  "scan_s (c # w) = (if c_isspace c then scan_s w else Some (takeWhile (\<lambda>c. \<not> c_isspace c) (c # w)))"
  by (simp_all add: scan_s_def)

lemma scan_s_newline: "scan_s (w @ [newline]) = scan_s w"
proof (induction w)
  case (Cons c w)
  have "takeWhile (\<lambda>c. \<not> c_isspace c) (t @ [newline]) = takeWhile (\<lambda>c. \<not> c_isspace c) t" for t
    by (induction t) auto
  then show ?case using Cons by (simp add: scan_s_simps)
qed (simp add: scan_s_simps)

lemma module_loop_spec:
  assumes "\<forall>w \<in> set ws. scan_s w \<noteq> None"
  shows "module_loop ws name \<longleftrightarrow> (\<exists>w \<in> set ws. scan_s w = Some name)"
  using assms by (induction ws) (auto split: option.splits)

section \<open>Reading a line of the partition table\<close>

lemma strtoul_dec:
  assumes "n < 2 ^ 64" and "r = [] \<or> \<not> c_isdigit (hd r)"
  shows "strtoul (replicate k CHR '' '' @ dec n @ r) = (of_nat n, False, r)"
proof -
  obtain c ds where d: "dec n = c # ds" using dec_nonempty by (cases "dec n") auto
  then have c: "c_isdigit c" using dec_digits [of n] by auto
  then have ns: "\<not> c_isspace c" "c \<noteq> CHR ''-''" "c \<noteq> CHR ''+''" by (auto simp: c_isdigit_def c_isspace_def)
  have "dropWhile c_isspace (replicate k CHR '' '' @ dec n @ r) = dec n @ r"
    using ns by (induction k) (simp_all add: d)
  then have p: "strto_parts (replicate k CHR '' '' @ dec n @ r) = (False, dec n @ r)"
    using ns by (simp add: strto_parts_def d)
  have v: "digits_value 0 (dec n @ r) = n"
    using assms(2) by (cases r) (simp_all add: digits_value_app [OF dec_digits] digits_value_dec)
  have "dropWhile c_isdigit (dec n @ r) = r"
    using assms(2) dec_digits [of n] by (cases r) (auto simp: dropWhile_append2)
  then have "strto_end x (dec n @ r) = r" for x using c by (simp add: strto_end_def d)
  then show ?thesis using assms(1) by (simp add: strtoul_def p v)
qed

lemma scan_u_dec:
  assumes "n < 2 ^ 64" and "r = [] \<or> \<not> c_isdigit (hd r)"
  shows "scan_u (replicate k CHR '' '' @ dec n @ r) = Some (of_nat n, r)"
  using strtoul_dec [OF assms, of k] dec_nonempty [of n] by (simp add: scan_u_def)

text \<open>The line that the kernel prints for a partition: \<^verbatim>\<open>"%4d  %7d %10llu %s\n"\<close>.\<close>

definition pad :: "nat \<Rightarrow> string \<Rightarrow> string" where
  "pad k s = replicate (k - length s) CHR '' '' @ s"

definition part_line :: "nat \<times> nat \<times> nat \<times> string \<Rightarrow> string" where
  "part_line = (\<lambda>(ma, mi, blocks, name).
     pad 4 (dec ma) @ ''  '' @ pad 7 (dec mi) @ '' '' @ pad 10 (dec blocks) @ '' '' @ name)"

definition part_ok :: "nat \<times> nat \<times> nat \<times> string \<Rightarrow> bool" where
  "part_ok = (\<lambda>(ma, mi, blocks, name). ma < 1000 \<and> mi < 2 ^ 20 \<and> blocks < 2 ^ 64 \<and> name \<noteq> [] \<and>
     (\<forall>c \<in> set name. \<not> c_isspace c) \<and> length name < 32 \<and> length (part_line (ma, mi, blocks, name)) < 63)"

lemma scan_u_pad:
  assumes "n < 2 ^ 64" and "r = [] \<or> \<not> c_isdigit (hd r)"
  shows "scan_u (replicate j CHR '' '' @ pad k (dec n) @ r) = Some (of_nat n, r)"
  using scan_u_dec [OF assms, of "j + (k - length (dec n))"] by (simp add: pad_def replicate_add)

lemma scan_part_line:
  assumes "part_ok (ma, mi, blocks, name)"
  shows "scan_partition (part_line (ma, mi, blocks, name) @ [newline]) = Some (of_nat ma, of_nat mi, name)"
proof -
  have b: "ma < 2 ^ 64" "mi < 2 ^ 64" "blocks < 2 ^ 64" using assms by (auto simp: part_ok_def)
  have sp: "\<not> c_isdigit CHR '' ''" by (simp add: c_isdigit_def)
  define r3 where "r3 = '' '' @ name @ [newline]"
  define r2 where "r2 = '' '' @ pad 10 (dec blocks) @ r3"
  define r1 where "r1 = ''  '' @ pad 7 (dec mi) @ r2"
  have l: "part_line (ma, mi, blocks, name) @ [newline] = replicate 0 CHR '' '' @ pad 4 (dec ma) @ r1"
    by (simp add: part_line_def r1_def r2_def r3_def)
  have 1: "scan_u (replicate 0 CHR '' '' @ pad 4 (dec ma) @ r1) = Some (of_nat ma, r1)"
    by (rule scan_u_pad [OF b(1)]) (simp add: r1_def sp)
  have "r1 = replicate 2 CHR '' '' @ pad 7 (dec mi) @ r2" by (simp add: r1_def numeral_2_eq_2)
  then have 2: "scan_u r1 = Some (of_nat mi, r2)" using scan_u_pad [OF b(2), of r2 2] sp by (simp add: r2_def)
  have "r2 = replicate 1 CHR '' '' @ pad 10 (dec blocks) @ r3" by (simp add: r2_def)
  then have 3: "scan_u r2 = Some (of_nat blocks, r3)" using scan_u_pad [OF b(3), of r3 1] sp by (simp add: r3_def)
  have n: "name \<noteq> []" "\<forall>c \<in> set name. \<not> c_isspace c" using assms by (auto simp: part_ok_def)
  have "dropWhile c_isspace r3 = name @ [newline]" using n by (cases name) (simp_all add: r3_def)
  then have 4: "scan_s r3 = Some name" using n by (cases name) (auto simp: scan_s_def takeWhile_append2)
  have u: "(ucast (of_nat k :: u64) :: u32) = of_nat k" for k
    by (simp add: word_unat_eq_iff unat_ucast_mod unat_of_nat take_bit_eq_mod mod_mod_cancel)
  show ?thesis unfolding l scan_partition_def by (simp add: 1 [simplified] 2 3 4 u)
qed

lemma part_line_hd: "part_ok p \<Longrightarrow> part_line p \<noteq> [] \<and> hd (part_line p) = CHR '' ''"
proof -
  assume ok: "part_ok p"
  obtain ma mi b n where p: "p = (ma, mi, b, n)" by (metis prod_cases4)
  have "ma < 1000" using ok by (simp add: part_ok_def p)
  then have "length (dec ma) < 4" by (simp add: dec.simps [of ma] dec.simps [of "ma div 10"] dec.simps [of "ma div 10 div 10"])
  then show ?thesis by (auto simp: p part_line_def pad_def)
qed

lemma no_newline_part_line: "part_ok p \<Longrightarrow> newline \<notin> set (part_line p)"
proof -
  assume ok: "part_ok p"
  obtain ma mi b n where p: "p = (ma, mi, b, n)" by (metis prod_cases4)
  have "newline \<notin> set n" using ok c_isspace_newline by (auto simp: part_ok_def p)
  moreover have "newline \<notin> set (dec k)" for k
    using dec_digits [of k] by (auto simp: c_isdigit_def newline_def)
  moreover have "newline \<noteq> CHR '' ''" by (simp add: newline_def)
  ultimately show ?thesis by (auto simp: p part_line_def pad_def)
qed

definition part_item :: "nat \<times> nat \<times> nat \<times> string \<Rightarrow> partition" where
  "part_item = (\<lambda>(ma, mi, blocks, name). \<lparr>part_name = Some name, part_dev = MKDEV (of_nat ma) (of_nat mi)\<rparr>)"

lemma load_loop_lines:
  assumes "\<forall>p \<in> set ps. part_ok p"
  shows "partitions__load_loop (\<lambda>i. (True, True)) i (map (\<lambda>w. w @ [newline]) (map part_line ps)) items =
    Some (Some (items @ map part_item ps))"
  using assms
proof (induction ps arbitrary: i items)
  case (Cons p ps)
  obtain ma mi b n where p: "p = (ma, mi, b, n)" by (metis prod_cases4)
  have ok: "part_ok (ma, mi, b, n)" using Cons.prems by (simp add: p)
  have "hd (part_line p @ [newline]) = CHR '' ''" using part_line_hd [of p] ok by (simp add: p)
  moreover have "length n < 32" using ok by (simp add: part_ok_def)
  moreover have "CHR '' '' \<noteq> newline" by (simp add: newline_def)
  ultimately show ?case
    using Cons scan_part_line [OF ok]
    by (simp add: p partitions__add_partition_def DISK_NAME_LEN_def part_item_def)
qed simp

lemma unat_MKDEV:
  assumes "ma < 4096" and "mi < 2 ^ 20"
  shows "unat (MKDEV (of_nat ma) (of_nat mi)) = ma * 2 ^ 20 + mi"
proof -
  have u: "unat (of_nat ma :: u32) = ma" "unat (of_nat mi :: u32) = mi"
    using assms by (simp_all add: unat_of_nat take_bit_eq_mod)
  have z: "push_bit 20 (of_nat ma :: u32) AND of_nat mi = 0"
  proof (rule bit_word_eqI)
    fix n assume "n < LENGTH(32)"
    have "\<not> bit (of_nat mi :: u32) n" if "20 \<le> n"
    proof -
      have "mi < 2 ^ n" using assms(2) that power_increasing [of 20 n "2 :: nat"] by linarith
      then have "\<not> bit mi n" by (simp add: bit_iff_odd)
      then show ?thesis by (simp add: bit_of_nat_iff)
    qed
    then show "bit (push_bit 20 (of_nat ma :: u32) AND of_nat mi) n = bit (0 :: u32) n"
      by (auto simp: bit_simps)
  qed
  have "MKDEV (of_nat ma) (of_nat mi) = push_bit 20 (of_nat ma) + of_nat mi"
    using disjunctive_add_eq_or [OF z] by (simp add: MKDEV_def MINORBITS_def)
  also have "\<dots> = of_nat (ma * 2 ^ 20 + mi)" by (simp add: push_bit_eq_mult)
  finally have "unat (MKDEV (of_nat ma) (of_nat mi)) = (ma * 2 ^ 20 + mi) mod 2 ^ 32"
    by (simp only: unat_of_nat take_bit_eq_mod) simp
  moreover have "ma * 2 ^ 20 + mi < 2 ^ 32" using assms by simp
  ultimately show ?thesis by simp
qed

lemma MKDEV_inj:
  assumes "ma < 4096" "mi < 2 ^ 20" "ma' < 4096" "mi' < 2 ^ 20"
    and "MKDEV (of_nat ma) (of_nat mi) = MKDEV (of_nat ma') (of_nat mi')"
  shows "ma = ma' \<and> mi = mi'"
proof -
  have "ma * 2 ^ 20 + mi = ma' * 2 ^ 20 + mi'"
    using unat_MKDEV [OF assms(1,2)] unat_MKDEV [OF assms(3,4)] assms(5) by simp
  then have "(ma * 2 ^ 20 + mi) div 2 ^ 20 = (ma' * 2 ^ 20 + mi') div 2 ^ 20"
    "(ma * 2 ^ 20 + mi) mod 2 ^ 20 = (ma' * 2 ^ 20 + mi') mod 2 ^ 20" by (simp_all only:)
  then show ?thesis using assms(2,4) by simp
qed

lemma get_by_dev_map:
  assumes "inj_on (\<lambda>p. part_dev (g p)) (set ps)" and "p \<in> set ps"
  shows "partitions__get_by_dev (map g ps) (part_dev (g p)) = Some (g p)"
  using assms by (induction ps) (auto simp: inj_on_def)

section \<open>Properties\<close>

text \<open>
  C23. The table of partitions round trips: from the text that the kernel prints (a
  heading, an empty line and one line per partition) \<open>partitions__load\<close> reads exactly the
  partitions, and \<open>partitions__get_by_dev\<close> with the number that \<open>MKDEV\<close> makes of major and
  minor finds the partition of that pair.  Major numbers of four digits are excluded:
  their lines start without a blank and are skipped as if they were headings.
\<close>

theorem partitions_roundtrip:
  assumes "\<forall>p \<in> set ps. part_ok p" and "distinct (map (\<lambda>(ma, mi, b, n). (ma, mi)) ps)"
    and "(ma, mi, b, n) \<in> set ps"
    and "text = concat (map (\<lambda>w. w @ [newline]) (''major minor  #blocks  name'' # [] # map part_line ps))"
  shows "\<exists>items. partitions__load True True (\<lambda>i. (True, True)) text = Some (Some items) \<and>
    length items = length ps \<and>
    partitions__get_by_dev items (MKDEV (of_nat ma) (of_nat mi)) = Some \<lparr>part_name = Some n, part_dev = MKDEV (of_nat ma) (of_nat mi)\<rparr>"
proof -
  have "chunks 63 text = map (\<lambda>w. w @ [newline]) (''major minor  #blocks  name'' # [] # map part_line ps)"
    unfolding assms(4)
  proof (rule chunks_lines, safe)
    fix w assume w: "w \<in> set (''major minor  #blocks  name'' # [] # map part_line ps)"
    then show "length w < 63" using assms(1) by (auto simp: part_ok_def)
    assume "newline \<in> set w"
    then show False using w assms(1) no_newline_part_line by (auto simp: newline_def)
  qed
  then have "partitions__load True True (\<lambda>i. (True, True)) text = Some (Some (map part_item ps))"
    using load_loop_lines [OF assms(1), of "Suc (Suc 0)" "[]"] by (simp add: partitions__load_def newline_def)
  moreover have "partitions__get_by_dev (map part_item ps) (part_dev (part_item (ma, mi, b, n))) = Some (part_item (ma, mi, b, n))"
  proof (rule get_by_dev_map [OF inj_onI assms(3)])
    fix p q assume pq: "p \<in> set ps" "q \<in> set ps" "part_dev (part_item p) = part_dev (part_item q)"
    obtain ma mi b n ma' mi' b' n' where e: "p = (ma, mi, b, n)" "q = (ma', mi', b', n')" by (metis prod_cases4)
    have "part_ok p" "part_ok q" using pq assms(1) by auto
    then have "ma = ma' \<and> mi = mi'" using MKDEV_inj [of ma mi ma' mi'] pq(3) by (simp add: e part_ok_def part_item_def)
    moreover have "inj_on (\<lambda>(ma, mi, b, n). (ma, mi)) (set ps)" using assms(2) by (simp add: distinct_map)
    ultimately show "p = q" using pq(1,2) by (auto simp: e inj_on_def)
  qed
  ultimately show ?thesis by (simp add: part_item_def)
qed

theorem partitions_roundtrip_witness:
  "\<exists>items. partitions__load True True (\<lambda>i. (True, True))
      (concat (map (\<lambda>w. w @ [newline]) (''major minor  #blocks  name'' # [] #
        map part_line [(8, 0, 500, ''sda''), (8, 1, 400, ''sda1'')]))) = Some (Some items) \<and>
    partitions__get_by_dev items (MKDEV 8 1) = Some \<lparr>part_name = Some ''sda1'', part_dev = MKDEV 8 1\<rparr>"
proof -
  have ok: "\<forall>p \<in> set [(8, 0, 500, ''sda''), (8, 1, 400, ''sda1'')]. part_ok p"
  proof -
    have "dec 8 = ''8''" "dec 0 = ''0''" "dec 1 = ''1''" "dec 500 = ''500''" "dec 400 = ''400''" by code_simp+
    then show ?thesis by (simp add: part_ok_def part_line_def pad_def c_isspace_def)
  qed
  have d: "distinct (map (\<lambda>(ma, mi, b, n). (ma, mi)) [(8 :: nat, 0 :: nat, 500 :: nat, ''sda''), (8, 1, 400, ''sda1'')])" by simp
  have m: "(8, 1, 400, ''sda1'') \<in> set [(8, 0, 500, ''sda''), (8, 1, 400, ''sda1'')]" by simp
  have e: "(of_nat 8 :: u32) = 8" "(of_nat 1 :: u32) = 1" by simp_all
  from partitions_roundtrip [OF ok d m refl, unfolded e] show ?thesis by blast
qed

text \<open>
  When every line of the list of modules is shorter than the buffer and no line is
  blank, \<open>is_kernel_module\<close> says exactly whether the first word of some line is the name.
\<close>

theorem is_kernel_module_correct:
  assumes "\<forall>w \<in> set ws. newline \<notin> set w \<and> length w < 63 \<and> scan_s w \<noteq> None"
  shows "is_kernel_module True (concat (map (\<lambda>w. w @ [newline]) ws)) name \<longleftrightarrow> (\<exists>w \<in> set ws. scan_s w = Some name)"
proof -
  have c: "chunks 63 (concat (map (\<lambda>w. w @ [newline]) ws)) = map (\<lambda>w. w @ [newline]) ws"
    by (rule chunks_lines) (use assms in auto)
  have "\<forall>w \<in> set (map (\<lambda>w. w @ [newline]) ws). scan_s w \<noteq> None" using assms by (auto simp: scan_s_newline)
  from module_loop_spec [OF this, of name] show ?thesis
    by (simp add: is_kernel_module_def c scan_s_newline)
qed

theorem is_kernel_module_correct_witness:
  "is_kernel_module True (concat (map (\<lambda>w. w @ [newline]) [''xfs 16384 2'', ''nf_nat 49152 1''])) ''nf_nat'' \<and>
   \<not> is_kernel_module True (concat (map (\<lambda>w. w @ [newline]) [''xfs 16384 2'', ''nf_nat 49152 1''])) ''nat''"
proof -
  have ok: "\<forall>w \<in> set [''xfs 16384 2'', ''nf_nat 49152 1'']. newline \<notin> set w \<and> length w < 63 \<and> scan_s w \<noteq> None"
    by code_simp
  have "scan_s ''xfs 16384 2'' = Some ''xfs''" "scan_s ''nf_nat 49152 1'' = Some ''nf_nat''" by code_simp+
  then show ?thesis
    using is_kernel_module_correct [OF ok, of "''nf_nat''"] is_kernel_module_correct [OF ok, of "''nat''"] by simp
qed

text \<open>
  A line of exactly 63 characters ends the search: its newline comes alone in the
  next chunk, which has no word, and the loop stops, so no module listed after such a
  line is found.
\<close>

theorem is_kernel_module_long_line:
  assumes "length w = 63" and "newline \<notin> set w" and "scan_s w = Some first" and "first \<noteq> name"
  shows "\<not> is_kernel_module True (w @ newline # rest) name"
proof -
  have fr: "chunks_from 63 acc (v @ s) = (acc @ v) # chunks_from 63 [] s"
    if "newline \<notin> set v" "length acc + length v = 63" "v \<noteq> []" for acc v s
    using that
  proof (induction v arbitrary: acc)
    case (Cons c v)
    show ?case
    proof (cases "v = []")
      case False
      then have "1 \<le> length v" by (cases v) auto
      then have "length acc + 1 < 63" using Cons.prems(2) by simp
      then have "chunks_from 63 acc ((c # v) @ s) = chunks_from 63 (acc @ [c]) (v @ s)"
        using Cons.prems by (auto simp: Let_def)
      then show ?thesis using Cons.IH [of "acc @ [c]"] Cons.prems False by simp
    qed (use Cons.prems in \<open>simp add: Let_def\<close>)
  qed simp
  have "chunks 63 (w @ newline # rest) = w # [newline] # chunks_from 63 [] rest"
    using fr [of w "[]" "newline # rest"] assms(1,2) by (cases w) (auto simp: chunks_def)
  moreover have "scan_s [newline] = None" by (simp add: scan_s_simps)
  ultimately show ?thesis using assms(3,4) by (simp add: is_kernel_module_def)
qed

theorem is_kernel_module_long_line_witness:
  "\<not> is_kernel_module True ((''x_tables'' @ replicate 55 CHR '' '') @ newline # ''xfs 16384 2'') ''xfs''"
proof (rule is_kernel_module_long_line)
  show "scan_s (''x_tables'' @ replicate 55 CHR '' '') = Some ''x_tables''" by code_simp
qed (simp_all add: newline_def)

end
