(* ===== verification/Hashmap.thy ===== *)
theory Hashmap
  imports C_Lib
begin

text \<open>
  The hash table of libbpf (\<^verbatim>\<open>libbpf/src/hashmap.c\<close> and \<^verbatim>\<open>hashmap.h\<close>), which holds the
  symbol names of the tracing tools.

  A bucket is the list of its entries, first entry first; \<open>buckets = None\<close> is the null
  pointer of an empty table.  The hash and the comparison function are arguments of the
  operations, as the context they read may change between calls.  \<open>ok\<close> gives the
  results of the allocations (\<^verbatim>\<open>calloc\<close> of the buckets, \<^verbatim>\<open>malloc\<close> of the entry); a result \<open>None\<close>
  is an access outside the array of buckets or a shift by 64.
\<close>

section \<open>Operations\<close>

record ('k, 'v) hashmap =
  buckets :: "('k \<times> 'v) list list option"
  cap :: nat
  cap_bits :: nat
  sz :: nat

datatype hashmap_insert_strategy = HASHMAP_ADD | HASHMAP_SET | HASHMAP_UPDATE | HASHMAP_APPEND

definition hash_bits :: "u64 \<Rightarrow> nat \<Rightarrow> nat" where
  "hash_bits h bits = (if bits = 0 then 0 else unat (drop_bit (64 - bits) (h * 11400714819323198485)))"

definition str_hash :: "string \<Rightarrow> u64" where
  "str_hash s = fold (\<lambda>c h. h * 31 + scast (of_char c :: u8)) s 0"

definition HASHMAP_MIN_CAP_BITS :: nat where "HASHMAP_MIN_CAP_BITS = 2"

definition hashmap_add_entry :: "('k \<times> 'v) list list \<Rightarrow> nat \<Rightarrow> 'k \<times> 'v \<Rightarrow> ('k \<times> 'v) list list option" where
  "hashmap_add_entry bs h e = (if h < length bs then Some (bs[h := e # bs ! h]) else None)"

definition hashmap__init :: "('k, 'v) hashmap" where
  "hashmap__init = \<lparr>buckets = None, cap = 0, cap_bits = 0, sz = 0\<rparr>"

definition hashmap__clear :: "('k, 'v) hashmap \<Rightarrow> ('k, 'v) hashmap" where
  "hashmap__clear m = m\<lparr>buckets := None, cap := 0, cap_bits := 0, sz := 0\<rparr>"

definition hashmap_needs_to_grow :: "('k, 'v) hashmap \<Rightarrow> bool" where
  "hashmap_needs_to_grow m \<longleftrightarrow> cap m = 0 \<or> (sz m + 1) * 4 mod 2 ^ 64 div 3 > cap m"

text \<open>\<^verbatim>\<open>hashmap__for_each_entry_safe\<close> visits the buckets in order, each from its first entry on.\<close>

fun regrow :: "('k \<Rightarrow> u64) \<Rightarrow> nat \<Rightarrow> ('k \<times> 'v) list \<Rightarrow> ('k \<times> 'v) list list \<Rightarrow> ('k \<times> 'v) list list option" where
  "regrow hash_fn bits [] new_buckets = Some new_buckets"
| "regrow hash_fn bits (cur # es) new_buckets =
     Option.bind (hashmap_add_entry new_buckets (hash_bits (hash_fn (fst cur)) bits) cur) (regrow hash_fn bits es)"

definition entries :: "('k, 'v) hashmap \<Rightarrow> ('k \<times> 'v) list" where
  "entries m = (case buckets m of None \<Rightarrow> [] | Some bs \<Rightarrow> concat bs)"

definition hashmap_grow :: "('k \<Rightarrow> u64) \<Rightarrow> bool \<Rightarrow> ('k, 'v) hashmap \<Rightarrow> (int \<times> ('k, 'v) hashmap) option" where
  "hashmap_grow hash_fn ok m =
     (let new_cap_bits = cap_bits m + 1;
          new_cap_bits = (if new_cap_bits < HASHMAP_MIN_CAP_BITS then HASHMAP_MIN_CAP_BITS else new_cap_bits)
      in if 64 \<le> new_cap_bits then None
         else if \<not> ok then Some (- ENOMEM, m)
         else do {
           bs \<leftarrow> regrow hash_fn new_cap_bits (entries m) (replicate (2 ^ new_cap_bits) []);
           Some (0, m\<lparr>cap := 2 ^ new_cap_bits, cap_bits := new_cap_bits, buckets := Some bs\<rparr>)
         })"

text \<open>
  \<^verbatim>\<open>hashmap_find_entry\<close>: \<open>Some None\<close> is not found, otherwise the entries before the one
  found, the entry and those behind it.
\<close>

fun find_chain :: "('k \<Rightarrow> bool) \<Rightarrow> ('k \<times> 'v) list \<Rightarrow> (('k \<times> 'v) list \<times> ('k \<times> 'v) \<times> ('k \<times> 'v) list) option" where
  "find_chain eq [] = None"
| "find_chain eq (e # es) =
     (if eq (fst e) then Some ([], e, es)
      else (case find_chain eq es of None \<Rightarrow> None | Some (pre, x, suf) \<Rightarrow> Some (e # pre, x, suf)))"

definition hashmap_find_entry ::
    "('k \<Rightarrow> 'k \<Rightarrow> bool) \<Rightarrow> ('k, 'v) hashmap \<Rightarrow> 'k \<Rightarrow> nat \<Rightarrow>
      (('k \<times> 'v) list \<times> ('k \<times> 'v) \<times> ('k \<times> 'v) list) option option" where
  "hashmap_find_entry equal_fn m key h =
     (case buckets m of
        None \<Rightarrow> Some None
      | Some bs \<Rightarrow> if h < length bs then Some (find_chain (\<lambda>k. equal_fn k key) (bs ! h)) else None)"

definition set_bucket :: "('k, 'v) hashmap \<Rightarrow> nat \<Rightarrow> ('k \<times> 'v) list \<Rightarrow> ('k, 'v) hashmap" where
  "set_bucket m h es = m\<lparr>buckets := map_option (\<lambda>bs. bs[h := es]) (buckets m)\<rparr>"

text \<open>The part of \<^verbatim>\<open>hashmap__insert\<close> that makes a new entry.\<close>

definition hashmap_insert_new ::
    "('k \<Rightarrow> u64) \<Rightarrow> bool \<times> bool \<Rightarrow> ('k, 'v) hashmap \<Rightarrow> 'k \<Rightarrow> 'v \<Rightarrow>
      (int \<times> ('k \<times> 'v) option \<times> ('k, 'v) hashmap) option" where
  "hashmap_insert_new hash_fn ok m key value = do {
     (err, m) \<leftarrow> (if hashmap_needs_to_grow m then hashmap_grow hash_fn (fst ok) m else Some (0, m));
     if err \<noteq> 0 then Some (err, None, m)
     else if \<not> snd ok then Some (- ENOMEM, None, m)
     else (case buckets m of
         None \<Rightarrow> None
       | Some bs \<Rightarrow> do {
           bs \<leftarrow> hashmap_add_entry bs (hash_bits (hash_fn key) (cap_bits m)) (key, value);
           Some (0, None, m\<lparr>buckets := Some bs, sz := sz m + 1\<rparr>)
         })
   }"

text \<open>\<^verbatim>\<open>hashmap__insert\<close>: the error code, the old entry for \<^verbatim>\<open>old_key\<close> and \<^verbatim>\<open>old_value\<close>, the table.\<close>

definition hashmap__insert ::
    "('k \<Rightarrow> u64) \<Rightarrow> ('k \<Rightarrow> 'k \<Rightarrow> bool) \<Rightarrow> bool \<times> bool \<Rightarrow> ('k, 'v) hashmap \<Rightarrow> 'k \<Rightarrow> 'v \<Rightarrow> hashmap_insert_strategy \<Rightarrow>
      (int \<times> ('k \<times> 'v) option \<times> ('k, 'v) hashmap) option" where
  "hashmap__insert hash_fn equal_fn ok m key value strategy = do {
     let h = hash_bits (hash_fn key) (cap_bits m);
     found \<leftarrow> (if strategy \<noteq> HASHMAP_APPEND then hashmap_find_entry equal_fn m key h else Some None);
     case found of
       Some (pre, e, suf) \<Rightarrow>
         if strategy = HASHMAP_SET \<or> strategy = HASHMAP_UPDATE
         then Some (0, Some e, set_bucket m h (pre @ (key, value) # suf))
         else Some (- EEXIST, Some e, m)
     | None \<Rightarrow>
         if strategy = HASHMAP_UPDATE then Some (- ENOENT, None, m)
         else hashmap_insert_new hash_fn ok m key value
   }"

definition hashmap__find :: "('k \<Rightarrow> u64) \<Rightarrow> ('k \<Rightarrow> 'k \<Rightarrow> bool) \<Rightarrow> ('k, 'v) hashmap \<Rightarrow> 'k \<Rightarrow> 'v option option" where
  "hashmap__find hash_fn equal_fn m key =
     (case hashmap_find_entry equal_fn m key (hash_bits (hash_fn key) (cap_bits m)) of
        None \<Rightarrow> None
      | Some None \<Rightarrow> Some None
      | Some (Some (pre, e, suf)) \<Rightarrow> Some (Some (snd e)))"

definition hashmap__delete ::
    "('k \<Rightarrow> u64) \<Rightarrow> ('k \<Rightarrow> 'k \<Rightarrow> bool) \<Rightarrow> ('k, 'v) hashmap \<Rightarrow> 'k \<Rightarrow> (('k \<times> 'v) option \<times> ('k, 'v) hashmap) option" where
  "hashmap__delete hash_fn equal_fn m key =
     (let h = hash_bits (hash_fn key) (cap_bits m)
      in case hashmap_find_entry equal_fn m key h of
           None \<Rightarrow> None
         | Some None \<Rightarrow> Some (None, m)
         | Some (Some (pre, e, suf)) \<Rightarrow> Some (Some e, (set_bucket m h (pre @ suf))\<lparr>sz := sz m - 1\<rparr>))"

section \<open>Invariant\<close>

text \<open>Every entry is in the bucket of its hash; \<open>sz\<close> is the number of entries.\<close>

definition bucket_ok :: "('k \<Rightarrow> u64) \<Rightarrow> nat \<Rightarrow> ('k \<times> 'v) list list \<Rightarrow> bool" where
  "bucket_ok hash_fn bits bs \<longleftrightarrow> length bs = 2 ^ bits \<and> 2 \<le> bits \<and> bits < 64 \<and>
     (\<forall>i < length bs. \<forall>e \<in> set (bs ! i). hash_bits (hash_fn (fst e)) bits = i)"

definition hashmap_ok :: "('k \<Rightarrow> u64) \<Rightarrow> ('k, 'v) hashmap \<Rightarrow> bool" where
  "hashmap_ok hash_fn m \<longleftrightarrow> sz m = length (entries m) \<and>
     (case buckets m of None \<Rightarrow> cap m = 0 \<and> cap_bits m = 0 | Some bs \<Rightarrow> cap m = length bs \<and> bucket_ok hash_fn (cap_bits m) bs)"

lemma hash_bits_less: "bits < 64 \<Longrightarrow> hash_bits h bits < 2 ^ bits"
proof (cases "bits = 0")
  case False
  assume b: "bits < 64"
  have "unat (h * 11400714819323198485) < 2 ^ (bits + (64 - bits))" using unat_lt [of "h * 11400714819323198485"] b by simp
  then have "unat (h * 11400714819323198485) div 2 ^ (64 - bits) < 2 ^ bits"
    by (simp add: div_less_iff_less_mult power_add)
  then show ?thesis using False by (simp add: hash_bits_def unat_drop_bit_div)
qed (simp add: hash_bits_def)

lemma hashmap_ok_init: "hashmap_ok hash_fn hashmap__init"
  by (simp add: hashmap_ok_def hashmap__init_def entries_def)

lemma bucket_ok_entry:
  assumes "bucket_ok hash_fn bits bs" and "e \<in> set (concat bs)"
  shows "e \<in> set (bs ! hash_bits (hash_fn (fst e)) bits)"
proof -
  obtain b where b: "b \<in> set bs" "e \<in> set b" using assms(2) by auto
  then obtain i where i: "i < length bs" "bs ! i = b" by (auto simp: in_set_conv_nth)
  then have "hash_bits (hash_fn (fst e)) bits = i" using assms(1) b(2) by (auto simp: bucket_ok_def)
  then show ?thesis using i b(2) by simp
qed

lemma mset_concat_update:
  "h < length bs \<Longrightarrow> mset (concat (bs[h := es])) + mset (bs ! h) = mset (concat bs) + mset es"
proof (induction bs arbitrary: h)
  case (Cons b bs)
  then show ?case by (cases h) (auto simp: ac_simps)
qed simp

lemma regrow_ok:
  assumes "bits < 64" and "2 \<le> bits" and "bucket_ok hash_fn bits nb"
  shows "\<exists>bs. regrow hash_fn bits es nb = Some bs \<and> bucket_ok hash_fn bits bs \<and>
    mset (concat bs) = mset (concat nb) + mset es"
  using assms(3)
proof (induction es arbitrary: nb)
  case (Cons e es)
  let ?h = "hash_bits (hash_fn (fst e)) bits"
  have h: "?h < length nb" using Cons.prems hash_bits_less [OF assms(1)] by (simp add: bucket_ok_def)
  have ok: "bucket_ok hash_fn bits (nb[?h := e # nb ! ?h])"
    using Cons.prems h by (auto simp: bucket_ok_def nth_list_update)
  obtain bs where bs: "regrow hash_fn bits es (nb[?h := e # nb ! ?h]) = Some bs" "bucket_ok hash_fn bits bs"
    "mset (concat bs) = mset (concat (nb[?h := e # nb ! ?h])) + mset es"
    using Cons.IH [OF ok] by blast
  have "mset (concat (nb[?h := e # nb ! ?h])) = mset (concat nb) + {#e#}"
    using mset_concat_update [OF h, of "e # nb ! ?h"] by simp
  then show ?case using bs h by (simp add: hashmap_add_entry_def)
qed simp

lemma hashmap_grow_ok:
  assumes "hashmap_ok hash_fn m" and "cap_bits m < 63"
  shows "\<exists>err m'. hashmap_grow hash_fn ok m = Some (err, m') \<and> hashmap_ok hash_fn m' \<and>
    mset (entries m') = mset (entries m) \<and> (err \<noteq> 0 \<longrightarrow> \<not> ok \<and> m' = m \<and> err = - ENOMEM) \<and> (err = 0 \<longrightarrow> buckets m' \<noteq> None)"
proof (cases ok)
  case False
  then show ?thesis using assms by (simp add: hashmap_grow_def Let_def HASHMAP_MIN_CAP_BITS_def ENOMEM_def)
next
  case True
  define nb where "nb = (if cap_bits m + 1 < 2 then 2 else cap_bits m + 1)"
  have nb: "nb < 64" "2 \<le> nb" using assms(2) by (auto simp: nb_def)
  have "bucket_ok hash_fn nb (replicate (2 ^ nb) [])" using nb by (simp add: bucket_ok_def)
  then obtain bs where bs: "regrow hash_fn nb (entries m) (replicate (2 ^ nb) []) = Some bs" "bucket_ok hash_fn nb bs"
    "mset (concat bs) = mset (entries m)"
    using regrow_ok [OF nb] by fastforce
  have "hashmap_grow hash_fn ok m = Some (0, m\<lparr>cap := 2 ^ nb, cap_bits := nb, buckets := Some bs\<rparr>)"
    unfolding hashmap_grow_def Let_def HASHMAP_MIN_CAP_BITS_def nb_def [symmetric]
    using True bs(1) nb(1) by simp
  moreover have "length (concat bs) = length (entries m)" using bs(3) by (metis size_mset)
  ultimately show ?thesis using assms(1) bs by (simp add: hashmap_ok_def entries_def [of "_\<lparr>buckets := _\<rparr>"] bucket_ok_def)
qed

section \<open>The table as a map\<close>

lemma find_chain_None: "find_chain p es = None \<longleftrightarrow> (\<forall>e \<in> set es. \<not> p (fst e))"
  by (induction es) (auto split: option.splits)

lemma find_chain_Some: "find_chain p es = Some (pre, e, suf) \<Longrightarrow> es = pre @ e # suf \<and> p (fst e)"
  by (induction es arbitrary: pre) (auto split: option.splits if_splits)

lemma set_bucket_ok:
  assumes "hashmap_ok hash_fn m" and "buckets m = Some bs" and "h < length bs"
    and "\<forall>e \<in> set es. hash_bits (hash_fn (fst e)) (cap_bits m) = h"
  shows "mset (entries (set_bucket m h es)) + mset (bs ! h) = mset (entries m) + mset es"
    "bucket_ok hash_fn (cap_bits m) (bs[h := es])"
  using assms mset_concat_update [OF assms(3)]
  by (auto simp: set_bucket_def entries_def hashmap_ok_def bucket_ok_def nth_list_update)

locale hashmap_fns =
  fixes hash_fn :: "'k \<Rightarrow> u64" and equal_fn :: "'k \<Rightarrow> 'k \<Rightarrow> bool"
  assumes equal_refl: "equal_fn x x"
    and equal_sym: "equal_fn x y \<Longrightarrow> equal_fn y x"
    and equal_trans: "equal_fn x y \<Longrightarrow> equal_fn y z \<Longrightarrow> equal_fn x z"
    and equal_hash: "equal_fn x y \<Longrightarrow> hash_fn x = hash_fn y"
begin

definition sel :: "'k \<Rightarrow> ('k \<times> 'v) multiset \<Rightarrow> ('k \<times> 'v) multiset" where
  "sel k M = filter_mset (\<lambda>e. equal_fn (fst e) k) M"

definition uniq :: "('k \<times> 'v) multiset \<Rightarrow> bool" where
  "uniq M \<longleftrightarrow> (\<forall>k. size (sel k M) \<le> 1)"

definition inv :: "('k, 'v) hashmap \<Rightarrow> bool" where
  "inv m \<longleftrightarrow> hashmap_ok hash_fn m \<and> uniq (mset (entries m))"

definition lookup :: "('k, 'v) hashmap \<Rightarrow> 'k \<Rightarrow> 'v option" where
  "lookup m k = map_option snd (find (\<lambda>e. equal_fn (fst e) k) (entries m))"

lemma equal_cong: "equal_fn x y \<Longrightarrow> equal_fn x z \<longleftrightarrow> equal_fn y z"
  using equal_sym equal_trans by blast

lemma sel_add [simp]: "sel k (add_mset e M) = (if equal_fn (fst e) k then add_mset e (sel k M) else sel k M)"
  by (simp add: sel_def)

lemma sel_empty [simp]: "sel k {#} = {#}"
  by (simp add: sel_def)

lemma sel_empty_iff: "sel k (mset es) = {#} \<longleftrightarrow> (\<forall>e \<in> set es. \<not> equal_fn (fst e) k)"
  by (induction es) auto

lemma sel_equal_empty: "sel k (mset es) = {#} \<Longrightarrow> equal_fn k k' \<Longrightarrow> sel k' (mset es) = {#}"
  unfolding sel_empty_iff using equal_sym equal_trans by blast

lemma lookup_none: "sel k (mset (entries m)) = {#} \<Longrightarrow> lookup m k = None"
  unfolding sel_empty_iff lookup_def by (auto simp: find_None_iff)

lemma lookup_some:
  assumes "sel k (mset (entries m)) = {#x#}"
  shows "lookup m k = Some (snd x)"
proof (cases "find (\<lambda>e. equal_fn (fst e) k) (entries m)")
  case None
  then have "sel k (mset (entries m)) = {#}" unfolding sel_empty_iff by (auto simp: find_None_iff)
  then show ?thesis using assms by simp
next
  case (Some y)
  then have "y \<in># sel k (mset (entries m))" by (auto simp: sel_def find_Some_iff)
  then show ?thesis using Some assms by (simp add: lookup_def)
qed

lemma uniq_sel: "uniq M \<Longrightarrow> sel k M = {#} \<or> (\<exists>x. sel k M = {#x#})"
  unfolding uniq_def by (metis le_Suc_eq One_nat_def le_zero_eq size_1_singleton_mset size_eq_0_iff_empty)

lemma lookup_cong:
  assumes "uniq (mset (entries m))" and "sel k (mset (entries m')) = sel k (mset (entries m))"
  shows "lookup m' k = lookup m k"
proof -
  consider "sel k (mset (entries m)) = {#}" | x where "sel k (mset (entries m)) = {#x#}" using uniq_sel [OF assms(1)] by blast
  then show ?thesis by cases (simp_all add: lookup_none lookup_some assms(2))
qed

text \<open>The chain of a key has every entry of that key.\<close>

lemma find_entry_cases:
  assumes "inv m"
  obtains (none) "hashmap_find_entry equal_fn m k (hash_bits (hash_fn k) (cap_bits m)) = Some None"
      "sel k (mset (entries m)) = {#}" "lookup m k = None"
  | (found) bs pre e suf where "hashmap_find_entry equal_fn m k (hash_bits (hash_fn k) (cap_bits m)) = Some (Some (pre, e, suf))"
      "equal_fn (fst e) k" "lookup m k = Some (snd e)" "buckets m = Some bs" "hash_bits (hash_fn k) (cap_bits m) < length bs"
      "bs ! hash_bits (hash_fn k) (cap_bits m) = pre @ e # suf" "e \<in> set (entries m)"
proof (cases "buckets m")
  case None
  then have e: "entries m = []" by (simp add: entries_def)
  show ?thesis by (rule none) (simp_all add: hashmap_find_entry_def None e lookup_def)
next
  case (Some bs)
  let ?h = "hash_bits (hash_fn k) (cap_bits m)"
  have en: "entries m = concat bs" using Some by (simp add: entries_def)
  have b: "bucket_ok hash_fn (cap_bits m) bs" using assms Some by (simp add: inv_def hashmap_ok_def)
  then have h: "?h < length bs" using hash_bits_less by (simp add: bucket_ok_def)
  have f: "hashmap_find_entry equal_fn m k ?h = Some (find_chain (\<lambda>k'. equal_fn k' k) (bs ! ?h))"
    using Some h by (simp add: hashmap_find_entry_def)
  show ?thesis
  proof (cases "find_chain (\<lambda>k'. equal_fn k' k) (bs ! ?h)")
    case N: None
    have "\<not> equal_fn (fst e) k" if e: "e \<in> set (entries m)" for e
    proof
      assume q: "equal_fn (fst e) k"
      have "e \<in> set (bs ! ?h)" using bucket_ok_entry [OF b, of e] e en equal_hash [OF q] by simp
      then show False using N q by (simp add: find_chain_None)
    qed
    then have s: "sel k (mset (entries m)) = {#}" by (simp add: sel_empty_iff)
    show ?thesis by (rule none) (use f N s lookup_none in simp_all)
  next
    case S: (Some r)
    obtain pre e suf where r: "r = (pre, e, suf)" by (metis prod_cases3)
    then have e: "bs ! ?h = pre @ e # suf" "equal_fn (fst e) k" using find_chain_Some S by fastforce+
    have "e \<in> set (bs ! ?h)" using e by simp
    then have m: "e \<in> set (entries m)" using nth_mem [OF h] unfolding en set_concat by blast
    then have "e \<in># sel k (mset (entries m))" using e(2) by (simp add: sel_def)
    then have "sel k (mset (entries m)) = {#e#}" using uniq_sel [of "mset (entries m)" k] assms by (auto simp: inv_def)
    then have "lookup m k = Some (snd e)" by (rule lookup_some)
    then show ?thesis using found [OF _ e(2) _ Some h e(1) m] f S r by simp
  qed
qed

theorem find_lookup: "inv m \<Longrightarrow> hashmap__find hash_fn equal_fn m k = Some (lookup m k)"
  by (erule find_entry_cases [where k = k]) (simp_all add: hashmap__find_def)

text \<open>Replacing the entry found, and unlinking it.\<close>

lemma set_bucket_inv:
  assumes "inv m" and "buckets m = Some bs" and h: "h < length bs" and "bs ! h = pre @ e # suf"
    and "mset es = mset (pre @ suf) + X" and "\<forall>x \<in># X. hash_fn (fst x) = hash_fn (fst e)"
  shows "hashmap_ok hash_fn ((set_bucket m h es)\<lparr>sz := sz m - 1 + size X\<rparr>)"
    "\<exists>N. mset (entries m) = add_mset e N \<and> mset (entries (set_bucket m h es)) = N + X"
proof -
  have ok: "hashmap_ok hash_fn m" using assms(1) by (simp add: inv_def)
  then have bk: "bucket_ok hash_fn (cap_bits m) bs" using assms(2) by (simp add: hashmap_ok_def)
  then have hs: "\<forall>x \<in> set (pre @ e # suf). hash_bits (hash_fn (fst x)) (cap_bits m) = h"
    using h assms(4) unfolding bucket_ok_def by metis
  have "set_mset (mset es) = set (pre @ suf) \<union> set_mset X" using assms(5) by simp
  then have es: "\<forall>x \<in> set es. hash_bits (hash_fn (fst x)) (cap_bits m) = h" using hs assms(6) by auto
  note sb = set_bucket_ok [OF ok assms(2) h es]
  have en: "e \<in># mset (entries m)" using h assms(2,4) nth_mem [OF h] by (force simp: entries_def)
  then obtain N where N: "mset (entries m) = add_mset e N" by (metis multi_member_split)
  have eq: "mset (entries (set_bucket m h es)) = N + X"
    using sb(1) assms(4,5) N by (simp add: ac_simps)
  then show "\<exists>N. mset (entries m) = add_mset e N \<and> mset (entries (set_bucket m h es)) = N + X" using N by blast
  have l: "length (entries m) = Suc (size N)" "length (entries (set_bucket m h es)) = size N + size X"
    using N eq by (metis size_mset size_add_mset, metis size_mset size_union)
  have "entries ((set_bucket m h es)\<lparr>sz := q\<rparr>) = entries (set_bucket m h es)" for q by (simp add: entries_def)
  then show "hashmap_ok hash_fn ((set_bucket m h es)\<lparr>sz := sz m - 1 + size X\<rparr>)"
    using ok sb(2) l assms(2) by (simp add: hashmap_ok_def set_bucket_def)
qed

lemma uniq_replace:
  assumes "uniq (add_mset e N)" and "equal_fn (fst e) k"
  shows "uniq (add_mset (k, v) N)" "sel k N = {#}"
proof -
  have q: "equal_fn (fst e) k' \<longleftrightarrow> equal_fn k k'" for k' using equal_cong [OF assms(2)] .
  have "size (sel k' (add_mset e N)) \<le> 1" for k' using assms(1) by (simp add: uniq_def)
  then have "size (sel k' (add_mset (k, v) N)) \<le> 1" for k' using q [of k'] by (metis (no_types, lifting) fst_conv sel_add size_add_mset)
  then show "uniq (add_mset (k, v) N)" by (simp add: uniq_def)
  have "size (sel k (add_mset e N)) \<le> 1" using assms(1) by (simp add: uniq_def)
  then show "sel k N = {#}" using assms(2) by simp
qed

lemma sz_lookup [simp]: "lookup (m\<lparr>sz := n\<rparr>) = lookup m" "entries (m\<lparr>sz := n\<rparr>) = entries m"
  by (simp_all add: lookup_def entries_def fun_eq_iff)

theorem delete_lookup:
  assumes "inv m"
  shows "\<exists>old m'. hashmap__delete hash_fn equal_fn m k = Some (old, m') \<and> inv m' \<and> map_option snd old = lookup m k \<and>
    (\<forall>k'. lookup m' k' = (if equal_fn k k' then None else lookup m k'))"
  using assms
proof (cases rule: find_entry_cases [where k = k])
  case none
  have "lookup m k' = None" if "equal_fn k k'" for k'
    using sel_equal_empty [OF none(2) that] by (rule lookup_none)
  then show ?thesis using none assms by (simp add: hashmap__delete_def)
next
  case (found bs pre e suf)
  let ?h = "hash_bits (hash_fn k) (cap_bits m)"
  let ?m' = "(set_bucket m ?h (pre @ suf))\<lparr>sz := sz m - 1\<rparr>"
  note sb = set_bucket_inv [OF assms found(4-6), of "pre @ suf" "{#}"]
  obtain N where N: "mset (entries m) = add_mset e N" "mset (entries ?m') = N" using sb(2) by auto
  have un: "uniq (add_mset e N)" using assms N by (simp add: inv_def)
  have q: "equal_fn (fst e) k' \<longleftrightarrow> equal_fn k k'" for k' using equal_cong [OF found(2)] .
  have "uniq N" unfolding uniq_def
  proof
    fix k' have "size (sel k' (add_mset e N)) \<le> 1" using un by (simp add: uniq_def)
    then show "size (sel k' N) \<le> 1" by (simp split: if_splits)
  qed
  then have "inv ?m'" using sb(1) N(2) by (simp add: inv_def)
  moreover have "lookup ?m' k' = (if equal_fn k k' then None else lookup m k')" for k'
  proof (cases "equal_fn k k'")
    case True
    have "sel k' N = {#}" using uniq_replace(2) [OF un, of k'] q True by simp
    then show ?thesis using True N(2) lookup_none [of k' ?m'] by simp
  next
    case False
    then have "sel k' (mset (entries ?m')) = sel k' (mset (entries m))" using N q by simp
    then show ?thesis using False assms lookup_cong [of m k' ?m'] by (simp add: inv_def)
  qed
  ultimately show ?thesis using found(1,3) by (cases e) (simp add: hashmap__delete_def)
qed

text \<open>
  A new entry goes into the bucket of its hash, after growing the table when it is full; the
  allocations can fail.
\<close>

lemma grow_or_same:
  assumes "hashmap_ok hash_fn m" and "sz m < 2 ^ 60"
  shows "\<exists>err m1. (if hashmap_needs_to_grow m then hashmap_grow hash_fn ok m else Some (0, m)) = Some (err, m1) \<and>
    hashmap_ok hash_fn m1 \<and> mset (entries m1) = mset (entries m) \<and>
    (err \<noteq> 0 \<longrightarrow> \<not> ok \<and> m1 = m \<and> err = - ENOMEM) \<and> (err = 0 \<longrightarrow> buckets m1 \<noteq> None)"
proof (cases "hashmap_needs_to_grow m")
  case True
  have "cap_bits m < 63"
  proof (cases "buckets m")
    case None
    then show ?thesis using assms(1) by (simp add: hashmap_ok_def)
  next
    case (Some bs)
    then have c: "cap m = 2 ^ cap_bits m" using assms(1) by (simp add: hashmap_ok_def bucket_ok_def)
    have "(sz m + 1) * 4 < 2 ^ 64" using assms(2) by simp
    then have "cap m < (sz m + 1) * 4 div 3" using True c by (simp add: hashmap_needs_to_grow_def)
    then have "2 ^ cap_bits m < (2 :: nat) ^ 63" using c assms(2) by simp
    then show ?thesis by (rule power_less_imp_less_exp [rotated]) simp
  qed
  then show ?thesis using hashmap_grow_ok [OF assms(1)] True by simp
next
  case False
  then have "buckets m \<noteq> None" using assms(1) by (cases "buckets m") (simp_all add: hashmap_needs_to_grow_def hashmap_ok_def)
  then show ?thesis using False assms(1) by simp
qed

lemma add_entry_ok:
  assumes "hashmap_ok hash_fn m" and "buckets m = Some bs"
  shows "\<exists>bs'. hashmap_add_entry bs (hash_bits (hash_fn k) (cap_bits m)) (k, v) = Some bs' \<and>
    hashmap_ok hash_fn (m\<lparr>buckets := Some bs', sz := sz m + 1\<rparr>) \<and> mset (concat bs') = add_mset (k, v) (mset (entries m))"
proof -
  let ?h = "hash_bits (hash_fn k) (cap_bits m)"
  have b: "bucket_ok hash_fn (cap_bits m) bs" "cap m = length bs" "sz m = length (concat bs)"
    using assms by (simp_all add: hashmap_ok_def entries_def)
  then have h: "?h < length bs" using hash_bits_less by (simp add: bucket_ok_def)
  have m: "mset (concat (bs[?h := (k, v) # bs ! ?h])) = add_mset (k, v) (mset (concat bs))"
    using mset_concat_update [OF h, of "(k, v) # bs ! ?h"] by simp
  then have "length (concat (bs[?h := (k, v) # bs ! ?h])) = Suc (length (concat bs))" by (metis size_mset size_add_mset)
  moreover have "bucket_ok hash_fn (cap_bits m) (bs[?h := (k, v) # bs ! ?h])"
    using b(1) h by (auto simp: bucket_ok_def nth_list_update)
  ultimately show ?thesis using h m b assms(2) by (simp add: hashmap_add_entry_def hashmap_ok_def entries_def)
qed

lemma insert_new:
  assumes "inv m" and "sz m < 2 ^ 60" and "sel k (mset (entries m)) = {#}"
  shows "\<exists>err m'. hashmap_insert_new hash_fn ok m k v = Some (err, None, m') \<and> inv m' \<and> (err = 0 \<or> err = - ENOMEM \<and> ok \<noteq> (True, True)) \<and>
    mset (entries m') = (if err = 0 then add_mset (k, v) (mset (entries m)) else mset (entries m)) \<and>
    (\<forall>k'. lookup m' k' = (if err = 0 \<and> equal_fn k k' then Some v else lookup m k'))"
proof -
  have ok: "hashmap_ok hash_fn m" and un: "uniq (mset (entries m))" using assms(1) by (simp_all add: inv_def)
  obtain err m1 where m1: "(if hashmap_needs_to_grow m then hashmap_grow hash_fn (fst ok) m else Some (0, m)) = Some (err, m1)"
    "hashmap_ok hash_fn m1" "mset (entries m1) = mset (entries m)"
    "err \<noteq> 0 \<longrightarrow> \<not> fst ok \<and> m1 = m \<and> err = - ENOMEM" "err = 0 \<longrightarrow> buckets m1 \<noteq> None"
    using grow_or_same [OF ok assms(2), of "fst ok"] by blast
  have l1: "lookup m1 k' = lookup m k'" for k' using lookup_cong [OF un, of k' m1] m1(3) by simp
  have i1: "inv m1" using m1(2,3) un by (simp add: inv_def)
  consider "err \<noteq> 0" | "err = 0" "\<not> snd ok" | bs where "err = 0" "snd ok" "buckets m1 = Some bs"
    by (cases "buckets m1") (use m1(5) in auto)
  then show ?thesis
  proof cases
    case 1
    then have "hashmap_insert_new hash_fn ok m k v = Some (err, None, m)" "err = - ENOMEM" "ok \<noteq> (True, True)"
      using m1(1,4) by (auto simp: hashmap_insert_new_def)
    then show ?thesis using 1 assms(1) by (intro exI [of _ err] exI [of _ m]) simp
  next
    case 2
    then have "hashmap_insert_new hash_fn ok m k v = Some (- ENOMEM, None, m1)" "ok \<noteq> (True, True)"
      using m1(1) by (auto simp: hashmap_insert_new_def)
    then show ?thesis using i1 l1 m1(3) by (intro exI [of _ "- ENOMEM"] exI [of _ m1]) (simp add: ENOMEM_def)
  next
    case 3
    obtain bs' where b: "hashmap_add_entry bs (hash_bits (hash_fn k) (cap_bits m1)) (k, v) = Some bs'"
      "hashmap_ok hash_fn (m1\<lparr>buckets := Some bs', sz := sz m1 + 1\<rparr>)" "mset (concat bs') = add_mset (k, v) (mset (entries m1))"
      using add_entry_ok [OF m1(2) 3(3)] by blast
    let ?m' = "m1\<lparr>buckets := Some bs', sz := sz m1 + 1\<rparr>"
    have e: "mset (entries ?m') = add_mset (k, v) (mset (entries m))" using b(3) m1(3) by (simp add: entries_def [of "_\<lparr>buckets := _\<rparr>"])
    have "size (sel k' (add_mset (k, v) (mset (entries m)))) \<le> 1" for k'
      using sel_equal_empty [OF assms(3), of k'] un by (simp add: uniq_def)
    then have i: "inv ?m'" unfolding inv_def uniq_def e using b(2) by blast
    have "lookup ?m' k' = (if equal_fn k k' then Some v else lookup m k')" for k'
    proof (cases "equal_fn k k'")
      case True
      then show ?thesis using sel_equal_empty [OF assms(3)] lookup_some [of k' ?m' "(k, v)"] e by simp
    next
      case False
      then show ?thesis using lookup_cong [OF un, of k' ?m'] e by simp
    qed
    then show ?thesis using m1(1) 3 b(1) i e by (simp add: hashmap_insert_new_def)
  qed
qed

text \<open>
  \<^verbatim>\<open>hashmap__insert\<close> with the strategies other than \<^verbatim>\<open>HASHMAP_APPEND\<close>: the result is decided by
  whether the key is present, and a failed insertion leaves the map as it is.
\<close>

theorem insert_lookup:
  assumes "inv m" and "sz m < 2 ^ 60" and "st \<noteq> HASHMAP_APPEND"
  shows "\<exists>err old m'. hashmap__insert hash_fn equal_fn ok m k v st = Some (err, old, m') \<and> inv m' \<and>
    map_option snd old = lookup m k \<and>
    (if lookup m k \<noteq> None then err = (if st = HASHMAP_ADD then - EEXIST else 0)
     else if st = HASHMAP_UPDATE then err = - ENOENT else err = 0 \<or> err = - ENOMEM \<and> ok \<noteq> (True, True)) \<and>
    (\<forall>k'. lookup m' k' = (if err = 0 \<and> equal_fn k k' then Some v else lookup m k'))"
  using assms(1)
proof (cases rule: find_entry_cases [where k = k])
  case none
  show ?thesis
  proof (cases "st = HASHMAP_UPDATE")
    case True
    then show ?thesis using none assms(1) by (simp add: hashmap__insert_def ENOENT_def)
  next
    case False
    obtain err m' where n: "hashmap_insert_new hash_fn ok m k v = Some (err, None, m')" "inv m'"
      "err = 0 \<or> err = - ENOMEM \<and> ok \<noteq> (True, True)"
      "\<forall>k'. lookup m' k' = (if err = 0 \<and> equal_fn k k' then Some v else lookup m k')"
      using insert_new [OF assms(1,2) none(2), where ok = ok and v = v] by (elim exE conjE) (rule that)
    then show ?thesis using False none(1,3) assms(3)
      by (intro exI [of _ err] exI [of _ None] exI [of _ m']) (simp add: hashmap__insert_def)
  qed
next
  case (found bs pre e suf)
  let ?h = "hash_bits (hash_fn k) (cap_bits m)"
  show ?thesis
  proof (cases "st = HASHMAP_ADD")
    case True
    then show ?thesis using found(1,3) assms(1) by (cases e) (simp add: hashmap__insert_def EEXIST_def)
  next
    case False
    then have st: "st = HASHMAP_SET \<or> st = HASHMAP_UPDATE" using assms(3) by (cases st) auto
    let ?m' = "set_bucket m ?h (pre @ (k, v) # suf)"
    have hk: "hash_fn k = hash_fn (fst e)" using equal_hash [OF found(2)] by simp
    note sb = set_bucket_inv [OF assms(1) found(4-6), of "pre @ (k, v) # suf" "{#(k, v)#}"]
    obtain N where N: "mset (entries m) = add_mset e N" "mset (entries ?m') = add_mset (k, v) N" using sb(2) hk by auto
    have un: "uniq (add_mset e N)" using assms(1) N by (simp add: inv_def)
    note rep = uniq_replace [OF un found(2)]
    have "sz m \<noteq> 0" using assms(1) found(7) by (auto simp: inv_def hashmap_ok_def)
    then have "?m'\<lparr>sz := sz m - 1 + size {#(k, v)#}\<rparr> = ?m'" by (simp add: set_bucket_def)
    then have "hashmap_ok hash_fn ?m'" using sb(1) hk by simp
    then have i: "inv ?m'" using rep(1) N(2) by (simp add: inv_def)
    have q: "equal_fn (fst e) k' \<longleftrightarrow> equal_fn k k'" for k' using equal_cong [OF found(2)] .
    have "lookup ?m' k' = (if equal_fn k k' then Some v else lookup m k')" for k'
    proof (cases "equal_fn k k'")
      case True
      then have "sel k' N = {#}" using uniq_replace(2) [OF un, of k'] q by simp
      then show ?thesis using True N(2) lookup_some [of k' ?m' "(k, v)"] by simp
    next
      case False
      then have "sel k' (mset (entries ?m')) = sel k' (mset (entries m))" using N q by simp
      then show ?thesis using False assms(1) lookup_cong [of m k' ?m'] by (simp add: inv_def)
    qed
    then show ?thesis using found(1,3) st i by (cases e) (auto simp: hashmap__insert_def)
  qed
qed

text \<open>\<^verbatim>\<open>hashmap__add\<close>, with the entries of the table.\<close>

lemma add_cases:
  assumes "inv m" and "sz m < 2 ^ 60"
  obtains (dup) e where "hashmap__insert hash_fn equal_fn ok m k v HASHMAP_ADD = Some (- EEXIST, Some e, m)"
      "e \<in> set (entries m)" "equal_fn (fst e) k"
  | (new) err m' where "hashmap__insert hash_fn equal_fn ok m k v HASHMAP_ADD = Some (err, None, m')" "inv m'"
      "\<forall>e \<in> set (entries m). \<not> equal_fn (fst e) k" "err = 0 \<or> err = - ENOMEM \<and> ok \<noteq> (True, True)"
      "mset (entries m') = (if err = 0 then add_mset (k, v) (mset (entries m)) else mset (entries m))"
  using assms(1)
proof (cases rule: find_entry_cases [where k = k])
  case none
  obtain err m' where n: "hashmap_insert_new hash_fn ok m k v = Some (err, None, m')" "inv m'"
    "err = 0 \<or> err = - ENOMEM \<and> ok \<noteq> (True, True)"
    "mset (entries m') = (if err = 0 then add_mset (k, v) (mset (entries m)) else mset (entries m))"
    using insert_new [OF assms none(2), where ok = ok and v = v] by (elim exE conjE) (rule that)
  then show ?thesis using that(2) [of err m'] none(1,2) by (simp add: hashmap__insert_def sel_empty_iff)
next
  case (found bs pre e suf)
  then show ?thesis using that(1) [of e] by (cases e) (simp add: hashmap__insert_def)
qed

text \<open>Uniqueness and the invariant depend only on the keys that are in the table.\<close>

lemma uniq_iff: "uniq M \<longleftrightarrow> (\<forall>e \<in># M. size (sel (fst e) M) \<le> 1)"
proof
  assume a: "\<forall>e \<in># M. size (sel (fst e) M) \<le> 1"
  show "uniq M" unfolding uniq_def
  proof
    fix k show "size (sel k M) \<le> 1"
    proof (cases "\<exists>e. e \<in># M \<and> equal_fn (fst e) k")
      case True
      then obtain e where e: "e \<in># M" "equal_fn (fst e) k" by blast
      have "sel k M = sel (fst e) M" unfolding sel_def
        by (rule filter_mset_cong) (use e(2) equal_sym equal_trans in blast)+
      then show ?thesis using a e(1) by simp
    next
      case False
      then have "sel k M = {#}" unfolding sel_def by auto
      then show ?thesis by simp
    qed
  qed
qed (simp add: uniq_def)

end

lemma inv_cong:
  assumes "hashmap_fns hash_fn equal_fn" and "hashmap_fns hash_fn' equal_fn'"
    and "\<forall>e \<in> set (entries m). hash_fn' (fst e) = hash_fn (fst e)"
    and "\<forall>e \<in> set (entries m). \<forall>e' \<in> set (entries m). equal_fn' (fst e) (fst e') = equal_fn (fst e) (fst e')"
    and "hashmap_fns.inv hash_fn equal_fn m"
  shows "hashmap_fns.inv hash_fn' equal_fn' m"
proof -
  have ok: "hashmap_ok hash_fn m" and un: "hashmap_fns.uniq equal_fn (mset (entries m))"
    using assms(5) unfolding hashmap_fns.inv_def [OF assms(1)] by simp_all
  have s: "hashmap_fns.sel equal_fn' (fst e) (mset (entries m)) = hashmap_fns.sel equal_fn (fst e) (mset (entries m))"
    if "e \<in> set (entries m)" for e
    unfolding hashmap_fns.sel_def [OF assms(1)] hashmap_fns.sel_def [OF assms(2)]
    by (rule filter_mset_cong) (use assms(4) that in auto)
  have "hashmap_fns.uniq equal_fn' (mset (entries m))"
    using un s unfolding hashmap_fns.uniq_iff [OF assms(1)] hashmap_fns.uniq_iff [OF assms(2)] by simp
  moreover have "hashmap_ok hash_fn' m"
  proof (cases "buckets m")
    case None
    then show ?thesis using ok by (simp add: hashmap_ok_def)
  next
    case (Some bs)
    then have "hash_fn' (fst e) = hash_fn (fst e)" if "i < length bs" "e \<in> set (bs ! i)" for i e
      using assms(3) that nth_mem [OF that(1)] by (auto simp: entries_def)
    then show ?thesis using ok Some by (simp add: hashmap_ok_def bucket_ok_def)
  qed
  ultimately show ?thesis unfolding hashmap_fns.inv_def [OF assms(2)] by simp
qed

text \<open>
  With \<^verbatim>\<open>HASHMAP_APPEND\<close>, \<^verbatim>\<open>hashmap__find\<close> returns the entry inserted last only until the
  table grows: \<^verbatim>\<open>hashmap_grow\<close> pushes the entries of a chain in chain order, so it reverses it.
  Three values are appended under one key; after the fourth insertion, of another key, the
  oldest of them is found.
\<close>

definition append_all :: "(nat \<times> nat) list \<Rightarrow> (nat, nat) hashmap option" where
  "append_all kvs = fold (\<lambda>kv r. Option.bind r (\<lambda>m.
     map_option (\<lambda>(err, old, m). m) (hashmap__insert (\<lambda>_. 0) (=) (True, True) m (fst kv) (snd kv) HASHMAP_APPEND)))
     kvs (Some hashmap__init)"

lemma hash_bits_0 [simp]: "hash_bits 0 bits = 0"
  by (simp add: hash_bits_def)

lemma replicate_4: "replicate 4 x = [x, x, x, x]" and replicate_8: "replicate 8 x = [x, x, x, x, x, x, x, x]"
  by (simp_all add: eval_nat_numeral)

lemmas append_eval = append_all_def hashmap__insert_def hashmap_insert_new_def hashmap_needs_to_grow_def hashmap_grow_def
  hashmap__init_def HASHMAP_MIN_CAP_BITS_def hashmap_add_entry_def entries_def hashmap__find_def hashmap_find_entry_def
  replicate_4 replicate_8

lemma append_find_before_grow:
  "Option.bind (append_all [(7, 1), (7, 2), (7, 3)]) (\<lambda>m. hashmap__find (\<lambda>_. 0) (=) m 7) = Some (Some 3)"
  by (simp add: append_eval)

lemma append_find_after_grow:
  "Option.bind (append_all [(7, 1), (7, 2), (7, 3), (8, 4)]) (\<lambda>m. hashmap__find (\<lambda>_. 0) (=) m 7) = Some (Some 1)"
  by (simp add: append_eval)

end
