(* ===== verification/Strset.thy ===== *)
theory Strset
  imports Hashmap
begin

text \<open>
  The set of strings of libbpf (\<^verbatim>\<open>libbpf/src/strset.c\<close>) and the string section of a BTF
  object (\<^verbatim>\<open>libbpf/src/btf.c\<close>), in which the tracing tools keep symbol names.

  The strings lie one behind the other in a growing block of bytes, each with its NUL,
  and are known by their offset; a hash table with offsets as keys finds the offset of a
  string that is there already.  Hash and comparison read the block, so a write to it
  must leave the strings of the table alone; \<open>strset_ok\<close> is the invariant.
  \<open>ok\<close> numbers the allocations of an operation and gives their results.
\<close>

section \<open>Growing memory\<close>

definition reallocarray_fails :: "bool \<Rightarrow> nat \<Rightarrow> nat \<Rightarrow> bool" where
  "reallocarray_fails ok nmemb elem_sz \<longleftrightarrow> 2 ^ 64 \<le> nmemb * elem_sz \<or> \<not> ok"

text \<open>\<^verbatim>\<open>libbpf_add_mem\<close>: the memory and its capacity, or null; the result points to cell \<open>cur_cnt\<close>.\<close>

definition libbpf_add_mem :: "bool \<Rightarrow> 'a \<Rightarrow> 'a list \<Rightarrow> nat \<Rightarrow> nat \<Rightarrow> nat \<Rightarrow> nat \<Rightarrow> nat \<Rightarrow> ('a list \<times> nat) option" where
  "libbpf_add_mem ok zero data cap_cnt elem_sz cur_cnt max_cnt add_cnt =
     (let need = (cur_cnt + add_cnt) mod 2 ^ 64
      in if need \<le> cap_cnt then Some (data, cap_cnt)
         else if need > max_cnt then None
         else
           let new_cnt = (cap_cnt + cap_cnt div 4) mod 2 ^ 64;
               new_cnt = (if new_cnt < 16 then 16 else new_cnt);
               new_cnt = (if new_cnt > max_cnt then max_cnt else new_cnt);
               new_cnt = (if new_cnt < need then need else new_cnt)
           in if reallocarray_fails ok new_cnt elem_sz then None
              else Some (take new_cnt data @ replicate (new_cnt - cap_cnt) zero, new_cnt))"

definition libbpf_ensure_mem :: "bool \<Rightarrow> 'a \<Rightarrow> 'a list \<Rightarrow> nat \<Rightarrow> nat \<Rightarrow> nat \<Rightarrow> int \<times> 'a list \<times> nat" where
  "libbpf_ensure_mem ok zero data cap_cnt elem_sz need_cnt =
     (if need_cnt \<le> cap_cnt then (0, data, cap_cnt)
      else (case libbpf_add_mem ok zero data cap_cnt elem_sz cap_cnt (2 ^ 64 - 1) (need_cnt - cap_cnt) of
          None \<Rightarrow> (- ENOMEM, data, cap_cnt)
        | Some (data, cap_cnt) \<Rightarrow> (0, data, cap_cnt)))"

lemma libbpf_add_mem_Some:
  assumes "libbpf_add_mem ok zero data cap_cnt elem_sz cur_cnt max_cnt add_cnt = Some (data', cap')"
    and "cap_cnt = length data" and "cur_cnt + add_cnt < 2 ^ 64"
  shows "\<exists>n. data' = data @ replicate n zero \<and> cap' = length data' \<and> cur_cnt + add_cnt \<le> cap' \<and>
    (cap' \<le> max_cnt \<or> cap' = cap_cnt)"
proof (cases "cur_cnt + add_cnt \<le> cap_cnt")
  case True
  then show ?thesis using assms by (auto simp: libbpf_add_mem_def)
next
  case False
  then obtain n where n: "data' = take n data @ replicate (n - cap_cnt) zero" "cap' = n" "cur_cnt + add_cnt \<le> n" "n \<le> max_cnt"
    using assms(1,3) by (auto simp: libbpf_add_mem_def Let_def split: if_splits)
  then show ?thesis using False assms(2) by (intro exI [of _ "n - cap_cnt"]) auto
qed

lemma libbpf_add_mem_None:
  assumes "libbpf_add_mem ok zero data cap_cnt 1 cur_cnt max_cnt add_cnt = None"
    and "cur_cnt + add_cnt < 2 ^ 64" and "max_cnt < 2 ^ 64"
  shows "\<not> ok \<or> max_cnt < cur_cnt + add_cnt"
  using assms by (auto simp: libbpf_add_mem_def Let_def reallocarray_fails_def split: if_splits)

section \<open>The st of strings\<close>

record strset =
  strs_data :: string
  strs_data_len :: nat
  strs_data_cap :: nat
  strs_data_max_len :: nat
  strs_hash :: "(nat, nat) hashmap"

type_synonym allocs = "nat \<Rightarrow> bool"

text \<open>The C string at an offset of the block.\<close>

definition str_at :: "string \<Rightarrow> nat \<Rightarrow> string" where
  "str_at d k = takeWhile (\<lambda>c. c \<noteq> NUL) (drop k d)"

definition strset_hash_fn :: "string \<Rightarrow> nat \<Rightarrow> u64" where
  "strset_hash_fn d key = str_hash (str_at d key)"

definition strset_equal_fn :: "string \<Rightarrow> nat \<Rightarrow> nat \<Rightarrow> bool" where
  "strset_equal_fn d key1 key2 \<longleftrightarrow> strcmp (str_at d key1) (str_at d key2) = 0"

text \<open>
  The loop of \<^verbatim>\<open>strset__new\<close> over the initial data: it reads a string without end, an access
  behind the block, when the data does not end in a NUL.
\<close>

function strset_index :: "allocs \<Rightarrow> string \<Rightarrow> nat \<Rightarrow> (nat, nat) hashmap \<Rightarrow> (int + (nat, nat) hashmap) option" where
  "strset_index ok d off h =
     (if off < length d then
        if NUL \<notin> set (drop off d) then None
        else (case hashmap__insert (strset_hash_fn d) (strset_equal_fn d) (ok (8 + 2 * off), ok (9 + 2 * off)) h off off HASHMAP_ADD of
            None \<Rightarrow> None
          | Some (err, old, h) \<Rightarrow>
              if err \<noteq> - EEXIST \<and> err \<noteq> 0 then Some (Inl err)
              else strset_index ok d (off + length (str_at d off) + 1) h)
      else Some (Inr h))"
  by pat_completeness auto
termination
  by (relation "measure (\<lambda>(ok, d, off, h). length d - off)") auto

declare strset_index.simps [simp del]

definition strset__new :: "allocs \<Rightarrow> nat \<Rightarrow> string option \<Rightarrow> (int + strset) option" where
  "strset__new ok max_data_sz init_data =
     (if \<not> ok 2 then Some (Inl (- ENOMEM))
      else if \<not> ok 3 then Some (Inl (- ENOMEM))
      else
        let st = \<lparr>strs_data = [], strs_data_len = 0, strs_data_cap = 0, strs_data_max_len = max_data_sz,
                   strs_hash = hashmap__init\<rparr>
        in case init_data of
             None \<Rightarrow> Some (Inr st)
           | Some d \<Rightarrow>
               if \<not> ok 4 then Some (Inl (- ENOMEM))
               else do {
                 r \<leftarrow> strset_index ok d 0 (strs_hash st);
                 Some (map_sum id (\<lambda>h. st\<lparr>strs_data := d, strs_data_len := length d, strs_data_cap := length d, strs_hash := h\<rparr>) r)
               })"

definition strset__data_size :: "strset \<Rightarrow> nat" where
  "strset__data_size st = strs_data_len st"

definition strset_add_str_mem :: "bool \<Rightarrow> strset \<Rightarrow> nat \<Rightarrow> strset option" where
  "strset_add_str_mem ok st add_sz =
     map_option (\<lambda>(d, cap). st\<lparr>strs_data := d, strs_data_cap := cap\<rparr>)
       (libbpf_add_mem ok NUL (strs_data st) (strs_data_cap st) 1 (strs_data_len st) (strs_data_max_len st) add_sz)"

text \<open>\<^verbatim>\<open>memcpy\<close> of a string with its NUL to the unused part of the block.\<close>

definition write_str :: "strset \<Rightarrow> string \<Rightarrow> strset option" where
  "write_str st s =
     (let off = strs_data_len st
      in if off + length s + 1 \<le> length (strs_data st)
         then Some (st\<lparr>strs_data := take off (strs_data st) @ s @ NUL # drop (off + length s + 1) (strs_data st)\<rparr>)
         else None)"

definition strset__find_str :: "allocs \<Rightarrow> strset \<Rightarrow> string \<Rightarrow> (int \<times> strset) option" where
  "strset__find_str ok st s =
     (case strset_add_str_mem (ok 5) st (length s + 1) of
        None \<Rightarrow> Some (- ENOMEM, st)
      | Some st \<Rightarrow> do {
          st \<leftarrow> write_str st s;
          r \<leftarrow> hashmap__find (strset_hash_fn (strs_data st)) (strset_equal_fn (strs_data st)) (strs_hash st) (strs_data_len st);
          case r of
            Some old_off \<Rightarrow> Some (to_int (int old_off), st)
          | None \<Rightarrow> Some (- ENOENT, st)
        })"

definition strset__add_str :: "allocs \<Rightarrow> strset \<Rightarrow> string \<Rightarrow> (int \<times> strset) option" where
  "strset__add_str ok st s =
     (case strset_add_str_mem (ok 5) st (length s + 1) of
        None \<Rightarrow> Some (- ENOMEM, st)
      | Some st \<Rightarrow> do {
          let new_off = strs_data_len st;
          st \<leftarrow> write_str st s;
          (err, old, h) \<leftarrow> hashmap__insert (strset_hash_fn (strs_data st)) (strset_equal_fn (strs_data st)) (ok 6, ok 7)
            (strs_hash st) new_off new_off HASHMAP_ADD;
          let st = st\<lparr>strs_hash := h\<rparr>;
          if err = - EEXIST then map_option (\<lambda>(old_off, v). (to_int (int old_off), st)) old
          else if err \<noteq> 0 then Some (err, st)
          else Some (to_int (int new_off), st\<lparr>strs_data_len := strs_data_len st + (length s + 1)\<rparr>)
        })"

section \<open>The string section of a BTF object\<close>

text \<open>
  Of \<^verbatim>\<open>struct btf\<close> the fields that the strings concern.  \<open>btf_strs\<close> is the raw string data of an
  object that has not been modified (\<open>Inl\<close>, \<^verbatim>\<open>strs_data\<close>), or the set of strings (\<open>Inr\<close>, \<^verbatim>\<open>strs_set\<close>).
\<close>

datatype btf = Btf (base_btf: "btf option") (start_str_off: nat) (hdr_str_len: nat) (btf_strs: "string + strset")

definition BTF_MAX_STR_OFFSET :: nat where "BTF_MAX_STR_OFFSET = 2147483647"

definition btf_new_empty :: "bool \<times> bool \<Rightarrow> btf option \<Rightarrow> btf option" where
  "btf_new_empty ok base =
     (if \<not> fst ok then None
      else
        let start = (case base of None \<Rightarrow> 0 | Some b \<Rightarrow> hdr_str_len b);
            raw = (case base of None \<Rightarrow> [NUL] | Some b \<Rightarrow> [])
        in if \<not> snd ok then None else Some (Btf base start (case base of None \<Rightarrow> 1 | Some b \<Rightarrow> 0) (Inl raw)))"

definition btf__new_empty :: "bool \<times> bool \<Rightarrow> btf option" where
  "btf__new_empty ok = btf_new_empty ok None"

definition btf_is_modifiable :: "btf \<Rightarrow> bool" where
  "btf_is_modifiable b \<longleftrightarrow> (case btf_strs b of Inl raw \<Rightarrow> False | Inr st \<Rightarrow> True)"

definition btf_strs_data :: "btf \<Rightarrow> string" where
  "btf_strs_data b = (case btf_strs b of Inl raw \<Rightarrow> raw | Inr st \<Rightarrow> strs_data st)"

text \<open>\<^verbatim>\<open>Some None\<close> is the null pointer, with \<^verbatim>\<open>errno\<close> EINVAL; reading without a base object is a null access.\<close>

fun btf__str_by_offset :: "btf \<Rightarrow> nat \<Rightarrow> string option option" where
  "btf__str_by_offset (Btf base start len strs) offset =
     (if offset < start then (case base of None \<Rightarrow> None | Some b \<Rightarrow> btf__str_by_offset b offset)
      else if offset - start < len then Some (Some (str_at (btf_strs_data (Btf base start len strs)) (offset - start)))
      else Some None)"

definition btf__name_by_offset :: "btf \<Rightarrow> nat \<Rightarrow> string option option" where
  "btf__name_by_offset b offset = btf__str_by_offset b offset"

fun btf_ensure_modifiable :: "allocs \<Rightarrow> btf \<Rightarrow> (int \<times> btf) option" where
  "btf_ensure_modifiable ok (Btf base start len (Inr st)) = Some (0, Btf base start len (Inr st))"
| "btf_ensure_modifiable ok (Btf base start len (Inl raw)) =
     (if \<not> ok 0 \<or> \<not> ok 1 then Some (- ENOMEM, Btf base start len (Inl raw))
      else do {
        r \<leftarrow> strset__new ok BTF_MAX_STR_OFFSET (Some (take len raw));
        case r of
          Inl err \<Rightarrow> Some (err, Btf base start len (Inl raw))
        | Inr st \<Rightarrow> Some (0, Btf base start len (Inr st))
      })"

text \<open>The base object and this one have allocations of their own.\<close>

definition self_allocs :: "allocs \<Rightarrow> allocs" where "self_allocs ok = (\<lambda>n. ok (2 * n))"
definition base_allocs :: "allocs \<Rightarrow> allocs" where "base_allocs ok = (\<lambda>n. ok (2 * n + 1))"

definition btf_own_find_str :: "allocs \<Rightarrow> btf \<Rightarrow> string \<Rightarrow> (int \<times> btf) option" where
  "btf_own_find_str ok b s = do {
     (err, b) \<leftarrow> btf_ensure_modifiable (self_allocs ok) b;
     if err \<noteq> 0 then Some (- ENOMEM, b)
     else (case btf_strs b of
         Inl raw \<Rightarrow> None
       | Inr st \<Rightarrow> do {
           (off, st) \<leftarrow> strset__find_str (self_allocs ok) st s;
           let b = Btf (base_btf b) (start_str_off b) (hdr_str_len b) (Inr st);
           if off < 0 then Some (off, b) else Some (to_int (int (start_str_off b) + off), b)
         })
   }"

fun btf__find_str :: "allocs \<Rightarrow> btf \<Rightarrow> string \<Rightarrow> (int \<times> btf) option" where
  "btf__find_str ok (Btf None start len strs) s = btf_own_find_str ok (Btf None start len strs) s"
| "btf__find_str ok (Btf (Some base) start len strs) s =
     (case btf__find_str (base_allocs ok) base s of
        None \<Rightarrow> None
      | Some (off, base) \<Rightarrow>
          if off \<noteq> - ENOENT then Some (off, Btf (Some base) start len strs)
          else btf_own_find_str ok (Btf (Some base) start len strs) s)"

definition btf_own_add_str :: "allocs \<Rightarrow> btf \<Rightarrow> string \<Rightarrow> (int \<times> btf) option" where
  "btf_own_add_str ok b s = do {
     (err, b) \<leftarrow> btf_ensure_modifiable (self_allocs ok) b;
     if err \<noteq> 0 then Some (- ENOMEM, b)
     else (case btf_strs b of
         Inl raw \<Rightarrow> None
       | Inr st \<Rightarrow> do {
           (off, st) \<leftarrow> strset__add_str (self_allocs ok) st s;
           if off < 0 then Some (off, Btf (base_btf b) (start_str_off b) (hdr_str_len b) (Inr st))
           else Some (to_int (int (start_str_off b) + off),
                  Btf (base_btf b) (start_str_off b) (strset__data_size st) (Inr st))
         })
   }"

definition btf__add_str :: "allocs \<Rightarrow> btf \<Rightarrow> string \<Rightarrow> (int \<times> btf) option" where
  "btf__add_str ok b s =
     (case base_btf b of
        None \<Rightarrow> btf_own_add_str ok b s
      | Some base \<Rightarrow> do {
          (off, base) \<leftarrow> btf__find_str (base_allocs ok) base s;
          let b = Btf (Some base) (start_str_off b) (hdr_str_len b) (btf_strs b);
          if off \<noteq> - ENOENT then Some (off, b) else btf_own_add_str ok b s
        })"

section \<open>Invariant\<close>

lemma strset_equal_iff: "strset_equal_fn d j k \<longleftrightarrow> str_at d j = str_at d k"
  by (simp add: strset_equal_fn_def)

interpretation strs: hashmap_fns "strset_hash_fn d" "strset_equal_fn d" for d
  by unfold_locales (auto simp: strset_equal_iff strset_hash_fn_def)

text \<open>\<open>keys_ok d len h\<close>: the table \<open>h\<close> indexes strings that start in the first \<open>len\<close> bytes of \<open>d\<close>.\<close>

definition keys_ok :: "string \<Rightarrow> nat \<Rightarrow> (nat, nat) hashmap \<Rightarrow> bool" where
  "keys_ok d len h \<longleftrightarrow> strs.inv d h \<and> (\<forall>e \<in> set (entries h). snd e = fst e \<and> fst e < len) \<and> sz h \<le> len"

definition strset_ok :: "strset \<Rightarrow> bool" where
  "strset_ok st \<longleftrightarrow> strs_data_cap st = length (strs_data st) \<and> strs_data_len st \<le> strs_data_cap st \<and>
     strs_data_cap st \<le> strs_data_max_len st \<and> strs_data_max_len st < 2 ^ 31 \<and>
     (strs_data_len st = 0 \<or> strs_data st ! (strs_data_len st - 1) = NUL) \<and>
     keys_ok (strs_data st) (strs_data_len st) (strs_hash st)"

text \<open>The string \<open>s\<close> is in the set, with offset \<open>k\<close>.\<close>

definition indexed :: "string \<Rightarrow> (nat, nat) hashmap \<Rightarrow> nat \<Rightarrow> string \<Rightarrow> bool" where
  "indexed d h k s \<longleftrightarrow> (k, k) \<in> set (entries h) \<and> str_at d k = s"

lemma str_at_cong:
  assumes "take len d = take len d'" and "k < len" and "len \<le> length d" and "d ! (len - 1) = NUL"
  shows "str_at d' k = str_at d k"
proof -
  have "str_at e k = takeWhile (\<lambda>c. c \<noteq> NUL) (drop k (take len d))" if "take len e = take len d" for e
  proof -
    have "e = take len d @ drop len e" using that by (metis append_take_drop_id)
    then have "drop k e = drop k (take len d) @ drop len e" using assms(2,3) by (metis drop_append diff_is_0_eq drop0 length_take min.absorb2 less_imp_le)
    moreover have "NUL \<in> set (drop k (take len d))"
    proof -
      have "drop k (take len d) ! (len - 1 - k) = NUL" "len - 1 - k < length (drop k (take len d))" using assms(2-4) by simp_all
      then show ?thesis by (metis nth_mem)
    qed
    ultimately show ?thesis
      using takeWhile_append1 [of NUL "drop k (take len d)" "\<lambda>c. c \<noteq> NUL" "drop len e"] by (simp add: str_at_def)
  qed
  then show ?thesis using assms(1) by simp
qed

lemma str_at_written: "is_cstr s \<Longrightarrow> str_at (xs @ s @ NUL # ys) (length xs) = s"
  by (simp add: str_at_def is_cstr_def takeWhile_tail) (metis takeWhile_eq_all_conv)

lemma indexed_unique:
  assumes "keys_ok d len h" and "indexed d h k s" and "indexed d h k' s"
  shows "k = k'"
proof -
  have "size (strs.sel d k (mset (entries h))) \<le> 1" using assms(1) by (simp add: keys_ok_def strs.inv_def strs.uniq_def)
  moreover have "(k, k) \<in># strs.sel d k (mset (entries h))" "(k', k') \<in># strs.sel d k (mset (entries h))"
    using assms(2,3) by (simp_all add: indexed_def strs.sel_def strset_equal_iff)
  ultimately show ?thesis by (metis One_nat_def add_mset_eq_single insert_DiffM le_Suc_eq le_zero_eq multi_member_skip
    size_1_singleton_mset size_eq_0_iff_empty empty_not_add_mset prod.inject union_single_eq_member)
qed

lemma keys_ok_write:
  assumes "keys_ok d len h" and "take len d = take len d'" and "len \<le> length d" and "len = 0 \<or> d ! (len - 1) = NUL"
  shows "keys_ok d' len h" "indexed d h k s \<Longrightarrow> indexed d' h k s"
proof -
  have e: "str_at d' (fst e) = str_at d (fst e)" if "e \<in> set (entries h)" for e
    using assms that by (intro str_at_cong [of len]) (auto simp: keys_ok_def)
  show "keys_ok d' len h" unfolding keys_ok_def
  proof (intro conjI)
    show "strs.inv d' h"
      by (rule inv_cong [OF strs.hashmap_fns_axioms [of d] strs.hashmap_fns_axioms [of d']])
        (use e assms(1) in \<open>simp_all add: strset_hash_fn_def strset_equal_iff keys_ok_def\<close>)
  qed (use assms(1) in \<open>auto simp: keys_ok_def\<close>)
  show "indexed d h k s \<Longrightarrow> indexed d' h k s" using e by (auto simp: indexed_def)
qed

lemma keys_ok_mono: "keys_ok d len h \<Longrightarrow> len \<le> len' \<Longrightarrow> keys_ok d len' h"
  by (auto simp: keys_ok_def)

text \<open>\<^verbatim>\<open>hashmap__add\<close> of the offset of a string.\<close>

lemma add_key:
  assumes "keys_ok d len h" and "len \<le> off" and "off < 2 ^ 31"
  obtains (dup) k where "hashmap__insert (strset_hash_fn d) (strset_equal_fn d) ok h off off HASHMAP_ADD = Some (- EEXIST, Some (k, k), h)"
      "indexed d h k (str_at d off)" "k < len"
  | (new) h' where "hashmap__insert (strset_hash_fn d) (strset_equal_fn d) ok h off off HASHMAP_ADD = Some (0, None, h')"
      "keys_ok d (Suc off) h'" "indexed d h' off (str_at d off)" "\<And>k s. indexed d h k s \<Longrightarrow> indexed d h' k s"
      "\<And>k. \<not> indexed d h k (str_at d off)"
  | (fail) h' where "hashmap__insert (strset_hash_fn d) (strset_equal_fn d) ok h off off HASHMAP_ADD = Some (- ENOMEM, None, h')"
      "keys_ok d len h'" "\<And>k s. indexed d h k s \<longleftrightarrow> indexed d h' k s" "\<And>k. \<not> indexed d h k (str_at d off)" "ok \<noteq> (True, True)"
proof -
  have inv: "strs.inv d h" and ke: "\<forall>e \<in> set (entries h). snd e = fst e \<and> fst e < len" and sz: "sz h \<le> len"
    using assms(1) by (simp_all add: keys_ok_def)
  have szb: "sz h < 2 ^ 60" using sz assms(2,3) by simp
  show ?thesis
  proof (rule strs.add_cases [OF inv szb, where ok = ok and k = off and v = off])
    fix e assume ins: "hashmap__insert (strset_hash_fn d) (strset_equal_fn d) ok h off off HASHMAP_ADD = Some (- EEXIST, Some e, h)"
      and e: "e \<in> set (entries h)" and q: "strset_equal_fn d (fst e) off"
    obtain k where k: "e = (k, k)" using ke e by (cases e) auto
    show ?thesis by (rule dup [of k]) (use ins e q k ke in \<open>auto simp: indexed_def strset_equal_iff\<close>)
  next
    fix err h' assume ins: "hashmap__insert (strset_hash_fn d) (strset_equal_fn d) ok h off off HASHMAP_ADD = Some (err, None, h')"
      and inv': "strs.inv d h'" and no: "\<forall>e \<in> set (entries h). \<not> strset_equal_fn d (fst e) off"
      and err: "err = 0 \<or> err = - ENOMEM \<and> ok \<noteq> (True, True)"
      and m: "mset (entries h') = (if err = 0 then add_mset (off, off) (mset (entries h)) else mset (entries h))"
    have no': "\<not> indexed d h k (str_at d off)" for k using no by (auto simp: indexed_def strset_equal_iff)
    have szs: "sz h = length (entries h)" "sz h' = length (entries h')"
      using inv inv' by (simp_all add: strs.inv_def hashmap_ok_def)
    show ?thesis
    proof (cases "err = 0")
      case True
      have sets: "set (entries h') = insert (off, off) (set (entries h))" using arg_cong [OF m, of set_mset] True by simp
      have "length (entries h') = Suc (length (entries h))" using arg_cong [OF m, of size] True by simp
      then have "keys_ok d (Suc off) h'" using inv' ke sz szs sets assms(2) by (auto simp: keys_ok_def)
      then show ?thesis using new [of h'] ins True sets no' by (simp add: indexed_def)
    next
      case False
      then have sets: "set (entries h') = set (entries h)" using arg_cong [OF m, of set_mset] by simp
      have "length (entries h') = length (entries h)" using arg_cong [OF m, of size] False by simp
      then have "keys_ok d len h'" using inv' ke sz szs sets by (auto simp: keys_ok_def)
      then show ?thesis using fail [of h'] ins False err sets no' by (simp add: indexed_def)
    qed
  qed
qed

section \<open>Adding and finding strings\<close>

text \<open>\<open>known st k s\<close>: the set has the string \<open>s\<close>, at offset \<open>k\<close>.\<close>

definition known :: "strset \<Rightarrow> nat \<Rightarrow> string \<Rightarrow> bool" where
  "known st k s \<longleftrightarrow> indexed (strs_data st) (strs_hash st) k s"

definition c_string :: "string \<Rightarrow> bool" where
  "c_string s \<longleftrightarrow> is_cstr s \<and> length s < 2 ^ 62"

lemma known_less: "strset_ok st \<Longrightarrow> known st k s \<Longrightarrow> k < strs_data_len st \<and> str_at (strs_data st) k = s \<and> k < 2 ^ 31"
  by (fastforce simp: strset_ok_def known_def indexed_def keys_ok_def)

lemma known_unique: "strset_ok st \<Longrightarrow> known st k s \<Longrightarrow> known st k' s \<Longrightarrow> k = k'"
  using indexed_unique by (auto simp: strset_ok_def known_def)

text \<open>
  Both operations first write the string behind the used part of the block; this leaves
  the set as it is.
\<close>

lemma write_behind:
  assumes ok: "strset_ok st" and s: "c_string s"
  obtains (null) "strset_add_str_mem mem st (length s + 1) = None" "\<not> mem \<or> strs_data_max_len st < strs_data_len st + length s + 1"
  | (room) st1 st2 where "strset_add_str_mem mem st (length s + 1) = Some st1" "strs_data_len st1 = strs_data_len st"
      "strs_hash st1 = strs_hash st" "write_str st1 s = Some st2" "strset_ok st2"
      "strs_data_len st2 = strs_data_len st" "strs_hash st2 = strs_hash st" "strs_data_max_len st2 = strs_data_max_len st"
      "take (strs_data_len st) (strs_data st2) = take (strs_data_len st) (strs_data st)"
      "str_at (strs_data st2) (strs_data_len st) = s" "strs_data_len st + length s + 1 \<le> length (strs_data st2)"
      "strs_data st2 ! (strs_data_len st + length s) = NUL" "\<And>k t. known st k t \<Longrightarrow> known st2 k t"
proof (cases "libbpf_add_mem mem NUL (strs_data st) (strs_data_cap st) 1 (strs_data_len st) (strs_data_max_len st) (length s + 1)")
  case None
  have "strs_data_len st + (length s + 1) < 2 ^ 64" "strs_data_max_len st < 2 ^ 64"
    using ok s by (auto simp: strset_ok_def c_string_def)
  then show ?thesis using null libbpf_add_mem_None [OF None] None by (simp add: strset_add_str_mem_def)
next
  case (Some r)
  let ?l = "strs_data_len st" and ?d = "strs_data st"
  obtain d1 c1 where r: "r = (d1, c1)" by (cases r)
  have lt: "?l + (length s + 1) < 2 ^ 64" using ok s by (auto simp: strset_ok_def c_string_def)
  obtain n where n: "d1 = ?d @ replicate n NUL" "c1 = length d1" "?l + (length s + 1) \<le> c1" "c1 \<le> strs_data_max_len st \<or> c1 = strs_data_cap st"
    using libbpf_add_mem_Some [OF Some [unfolded r] _ lt] ok by (auto simp: strset_ok_def)
  have l: "?l \<le> length ?d" using ok by (simp add: strset_ok_def)
  define d2 where "d2 = take ?l d1 @ s @ NUL # drop (?l + length s + 1) d1"
  define st1 where "st1 = st\<lparr>strs_data := d1, strs_data_cap := c1\<rparr>"
  define st2 where "st2 = st1\<lparr>strs_data := d2\<rparr>"
  have len2: "length d2 = c1" "length (take ?l d1) = ?l" using n l by (simp_all add: d2_def)
  have t: "take ?l ?d = take ?l d2" using n l by (simp add: d2_def)
  have at: "str_at d2 ?l = s" using str_at_written [of s "take ?l d1"] s len2(2) by (simp add: d2_def c_string_def)
  have nul: "d2 ! (?l + length s) = NUL" using len2(2) by (simp add: d2_def nth_append)
  have lst: "?l = 0 \<or> ?d ! (?l - 1) = NUL" and keys: "keys_ok ?d ?l (strs_hash st)" using ok by (auto simp: strset_ok_def)
  have "?l = 0 \<or> d2 ! (?l - 1) = ?d ! (?l - 1)" using t l by (metis diff_less less_numeral_extra(1) neq0_conv nth_take)
  then have lst2: "?l = 0 \<or> d2 ! (?l - 1) = NUL" using lst by auto
  have k2: "keys_ok d2 ?l (strs_hash st)" by (rule keys_ok_write(1) [OF keys t l lst])
  have kn: "known st2 k u" if "known st k u" for k u
    using keys_ok_write(2) [OF keys t l lst, of k u] that by (simp add: known_def st1_def st2_def)
  have ok2: "strset_ok st2"
    using ok n len2(1) lst2 k2 by (auto simp: strset_ok_def st1_def st2_def)
  show ?thesis
  proof (rule room [of st1 st2])
    show "strset_add_str_mem mem st (length s + 1) = Some st1" using Some r by (simp add: strset_add_str_mem_def st1_def)
    show "write_str st1 s = Some st2" using n(2,3) by (simp add: write_str_def Let_def st1_def st2_def d2_def)
  qed (use ok2 kn t at nul n(3) len2(1) in \<open>simp_all add: st1_def st2_def\<close>)
qed

lemma to_int_small: "k < 2 ^ 31 \<Longrightarrow> to_int (int k) = int k"
  by (simp add: to_int_in)

lemma strset_add_cases:
  assumes ok: "strset_ok st" and s: "c_string s"
  obtains (dup) k st' where "strset__add_str al st s = Some (int k, st')" "known st k s" "strs_data_len st' = strs_data_len st"
      "strset_ok st'" "\<And>k t. known st k t \<Longrightarrow> known st' k t" "strs_data_max_len st' = strs_data_max_len st"
  | (new) st' where "strset__add_str al st s = Some (int (strs_data_len st), st')" "\<And>k. \<not> known st k s"
      "strs_data_len st' = strs_data_len st + length s + 1" "known st' (strs_data_len st) s"
      "strset_ok st'" "\<And>k t. known st k t \<Longrightarrow> known st' k t" "strs_data_max_len st' = strs_data_max_len st"
  | (fail) st' where "strset__add_str al st s = Some (- ENOMEM, st')" "strs_data_len st' = strs_data_len st"
      "strset_ok st'" "\<And>k t. known st k t \<Longrightarrow> known st' k t" "strs_data_max_len st' = strs_data_max_len st"
      "\<not> (al 5 \<and> al 6 \<and> al 7) \<or> strs_data_max_len st < strs_data_len st + length s + 1"
proof (rule write_behind [OF ok s, of "al 5"])
  assume "strset_add_str_mem (al 5) st (length s + 1) = None" "\<not> al 5 \<or> strs_data_max_len st < strs_data_len st + length s + 1"
  then show ?thesis using fail [of st] ok by (auto simp: strset__add_str_def)
next
  fix st1 st2
  assume r: "strset_add_str_mem (al 5) st (length s + 1) = Some st1" "strs_data_len st1 = strs_data_len st"
      "strs_hash st1 = strs_hash st" "write_str st1 s = Some st2" and ok2: "strset_ok st2" and
      eq: "strs_data_len st2 = strs_data_len st" "strs_hash st2 = strs_hash st" "strs_data_max_len st2 = strs_data_max_len st" and
      t: "take (strs_data_len st) (strs_data st2) = take (strs_data_len st) (strs_data st)" and
      at: "str_at (strs_data st2) (strs_data_len st) = s" and sp: "strs_data_len st + length s + 1 \<le> length (strs_data st2)"
      and nul: "strs_data st2 ! (strs_data_len st + length s) = NUL" and kn: "\<And>k t. known st k t \<Longrightarrow> known st2 k t"
  let ?l = "strs_data_len st" and ?d = "strs_data st2"
  have keys: "keys_ok ?d ?l (strs_hash st)" using ok2 eq by (simp add: strset_ok_def)
  have ind: "indexed ?d (strs_hash st) k t \<longleftrightarrow> known st k t" for k t
  proof
    assume i: "indexed ?d (strs_hash st) k t"
    then have "k < ?l" using keys by (auto simp: indexed_def keys_ok_def)
    then have "str_at ?d k = str_at (strs_data st) k"
      using t ok by (intro str_at_cong [of ?l]) (auto simp: strset_ok_def)
    then show "known st k t" using i by (simp add: known_def indexed_def)
  qed (use kn eq in \<open>simp add: known_def\<close>)
  have l31: "?l < 2 ^ 31" using ok by (simp add: strset_ok_def)
  show ?thesis
  proof (rule add_key [OF keys order_refl l31, of "(al 6, al 7)"])
    fix k assume ins: "hashmap__insert (strset_hash_fn ?d) (strset_equal_fn ?d) (al 6, al 7) (strs_hash st) ?l ?l HASHMAP_ADD =
        Some (- EEXIST, Some (k, k), strs_hash st)" and i: "indexed ?d (strs_hash st) k (str_at ?d ?l)" and "k < ?l"
    then have "to_int (int k) = int k" using l31 by (intro to_int_small) simp
    moreover have "st2\<lparr>strs_hash := strs_hash st\<rparr> = st2" using eq by simp
    ultimately have "strset__add_str al st s = Some (int k, st2)" using r ins eq by (simp add: strset__add_str_def)
    then show ?thesis using dup [of k st2] i at ind ok2 kn eq by simp
  next
    fix h' assume ins: "hashmap__insert (strset_hash_fn ?d) (strset_equal_fn ?d) (al 6, al 7) (strs_hash st) ?l ?l HASHMAP_ADD =
        Some (0, None, h')" and k': "keys_ok ?d (Suc ?l) h'" and i: "indexed ?d h' ?l (str_at ?d ?l)"
      and keep: "\<And>k s. indexed ?d (strs_hash st) k s \<Longrightarrow> indexed ?d h' k s" and no: "\<And>k. \<not> indexed ?d (strs_hash st) k (str_at ?d ?l)"
    let ?st' = "st2\<lparr>strs_hash := h', strs_data_len := ?l + (length s + 1)\<rparr>"
    have "to_int (int ?l) = int ?l" using l31 by (rule to_int_small)
    then have a: "strset__add_str al st s = Some (int ?l, ?st')" using r ins eq by (simp add: strset__add_str_def Let_def EEXIST_def)
    have "keys_ok ?d (?l + (length s + 1)) h'" by (rule keys_ok_mono [OF k']) simp
    then have "strset_ok ?st'" using ok2 eq nul sp by (simp add: strset_ok_def)
    then show ?thesis using new [OF a] no i keep ind at eq by (simp add: known_def)
  next
    fix h' assume ins: "hashmap__insert (strset_hash_fn ?d) (strset_equal_fn ?d) (al 6, al 7) (strs_hash st) ?l ?l HASHMAP_ADD =
        Some (- ENOMEM, None, h')" and k': "keys_ok ?d ?l h'" and keep: "\<And>k s. indexed ?d (strs_hash st) k s \<longleftrightarrow> indexed ?d h' k s"
      and "(al 6, al 7) \<noteq> (True, True)"
    let ?st' = "st2\<lparr>strs_hash := h'\<rparr>"
    have a: "strset__add_str al st s = Some (- ENOMEM, ?st')" using r ins eq by (simp add: strset__add_str_def Let_def EEXIST_def ENOMEM_def)
    have "strset_ok ?st'" using ok2 eq k' by (simp add: strset_ok_def)
    then show ?thesis using fail [OF a] keep ind eq \<open>(al 6, al 7) \<noteq> (True, True)\<close> by (simp add: known_def)
  qed
qed

lemma strset_find_cases:
  assumes ok: "strset_ok st" and s: "c_string s"
  obtains (found) k st' where "strset__find_str al st s = Some (int k, st')" "known st k s" "strset_ok st'"
      "strs_data_len st' = strs_data_len st" "\<And>k t. known st k t \<Longrightarrow> known st' k t" "strs_data_max_len st' = strs_data_max_len st"
  | (none) st' where "strset__find_str al st s = Some (- ENOENT, st')" "\<And>k. \<not> known st k s" "strset_ok st'"
      "strs_data_len st' = strs_data_len st" "\<And>k t. known st k t \<Longrightarrow> known st' k t" "strs_data_max_len st' = strs_data_max_len st"
  | (fail) "strset__find_str al st s = Some (- ENOMEM, st)" "\<not> al 5 \<or> strs_data_max_len st < strs_data_len st + length s + 1"
proof (rule write_behind [OF ok s, of "al 5"])
  assume "strset_add_str_mem (al 5) st (length s + 1) = None" "\<not> al 5 \<or> strs_data_max_len st < strs_data_len st + length s + 1"
  then show ?thesis using fail by (auto simp: strset__find_str_def)
next
  fix st1 st2
  assume r: "strset_add_str_mem (al 5) st (length s + 1) = Some st1" "strs_data_len st1 = strs_data_len st"
      "strs_hash st1 = strs_hash st" "write_str st1 s = Some st2" and ok2: "strset_ok st2" and
      eq: "strs_data_len st2 = strs_data_len st" "strs_hash st2 = strs_hash st" "strs_data_max_len st2 = strs_data_max_len st" and
      t: "take (strs_data_len st) (strs_data st2) = take (strs_data_len st) (strs_data st)" and
      at: "str_at (strs_data st2) (strs_data_len st) = s" and kn: "\<And>k t. known st k t \<Longrightarrow> known st2 k t"
  let ?l = "strs_data_len st" and ?d = "strs_data st2"
  have keys: "keys_ok ?d ?l (strs_hash st)" using ok2 eq by (simp add: strset_ok_def)
  then have inv: "strs.inv ?d (strs_hash st)" by (simp add: keys_ok_def)
  show ?thesis
  proof (rule strs.find_entry_cases [OF inv, of ?l])
    assume f: "hashmap_find_entry (strset_equal_fn ?d) (strs_hash st) ?l (hash_bits (strset_hash_fn ?d ?l) (cap_bits (strs_hash st))) = Some None"
      and "strs.sel ?d ?l (mset (entries (strs_hash st))) = {#}"
    then have no: "\<not> indexed ?d (strs_hash st) k s" for k using at by (auto simp: strs.sel_empty_iff indexed_def strset_equal_iff)
    have "\<not> known st k s" for k using no kn eq by (metis known_def)
    then show ?thesis using none [of st2] f r eq ok2 kn by (simp add: strset__find_str_def hashmap__find_def)
  next
    fix bs pre e suf
    assume f: "hashmap_find_entry (strset_equal_fn ?d) (strs_hash st) ?l (hash_bits (strset_hash_fn ?d ?l) (cap_bits (strs_hash st))) =
        Some (Some (pre, e, suf))" and q: "strset_equal_fn ?d (fst e) ?l" and e: "e \<in> set (entries (strs_hash st))"
    obtain k where k: "e = (k, k)" "k < ?l" using keys e by (cases e) (auto simp: keys_ok_def)
    then have "str_at (strs_data st) k = str_at ?d k"
      using t ok by (intro str_at_cong [of ?l, symmetric]) (auto simp: strset_ok_def)
    then have "known st k s" using q e k at by (simp add: known_def indexed_def strset_equal_iff)
    moreover have "to_int (int k) = int k" using k ok by (intro to_int_small) (simp add: strset_ok_def)
    ultimately show ?thesis using found [of k st2] f k r eq ok2 kn by (simp add: strset__find_str_def hashmap__find_def)
  qed
qed

section \<open>Building the index of given data\<close>

definition str_table :: "string list \<Rightarrow> string" where
  "str_table ss = concat (map (\<lambda>s. s @ [NUL]) ss)"

lemma str_table_simps [simp]: "str_table [] = []" "str_table (s # ss) = s @ NUL # str_table ss"
  by (simp_all add: str_table_def)

lemma strset_index_ok:
  assumes "\<forall>s \<in> set ss. is_cstr s" and "length d < 2 ^ 31" and "d = pre @ str_table ss" and "keys_ok d (length pre) h"
  shows "strset_index al d (length pre) h = Some (Inl (- ENOMEM)) \<and> (\<exists>n. \<not> al n) \<or>
    (\<exists>h'. strset_index al d (length pre) h = Some (Inr h') \<and> keys_ok d (length d) h' \<and>
      (\<forall>k s. indexed d h k s \<longrightarrow> indexed d h' k s) \<and> (\<forall>s \<in> set ss. \<exists>k. indexed d h' k s))"
  using assms
proof (induction ss arbitrary: pre h)
  case Nil
  then show ?case by (simp add: strset_index.simps [of _ pre])
next
  case (Cons s ss)
  let ?off = "length pre"
  have cs: "is_cstr s" and lt: "?off < length d" "?off < 2 ^ 31" using Cons.prems(1-3) by auto
  have at: "str_at d ?off = s" using str_at_written [OF cs] Cons.prems(3) by simp
  have nul: "NUL \<in> set (drop ?off d)" using Cons.prems(3) by simp
  have d': "d = (pre @ s @ [NUL]) @ str_table ss" "length (pre @ s @ [NUL]) = ?off + length s + 1" using Cons.prems(3) by simp_all
  note IH = Cons.IH [OF _ Cons.prems(2) d'(1), unfolded d'(2)]
  let ?ins = "hashmap__insert (strset_hash_fn d) (strset_equal_fn d) (al (8 + 2 * ?off), al (9 + 2 * ?off)) h ?off ?off HASHMAP_ADD"
  have unf: "strset_index al d ?off h = (case ?ins of None \<Rightarrow> None | Some (err, old, h) \<Rightarrow>
      if err \<noteq> - EEXIST \<and> err \<noteq> 0 then Some (Inl err) else strset_index al d (?off + length s + 1) h)"
    by (subst strset_index.simps, subst at) (use lt(1) nul in simp)
  show ?case
  proof (rule add_key [OF Cons.prems(4) order_refl lt(2), of "(al (8 + 2 * ?off), al (9 + 2 * ?off))"])
    fix k assume i: "?ins = Some (- EEXIST, Some (k, k), h)" "indexed d h k (str_at d ?off)"
    have k: "keys_ok d (?off + length s + 1) h" by (rule keys_ok_mono [OF Cons.prems(4)]) simp
    have u: "strset_index al d ?off h = strset_index al d (?off + length s + 1) h" using unf i by simp
    show ?thesis unfolding u using IH [OF _ k] Cons.prems(1) i(2) at by fastforce
  next
    fix h' assume i: "?ins = Some (0, None, h')" "keys_ok d (Suc ?off) h'" "indexed d h' ?off (str_at d ?off)"
      "\<And>k s. indexed d h k s \<Longrightarrow> indexed d h' k s"
    have k: "keys_ok d (?off + length s + 1) h'" by (rule keys_ok_mono [OF i(2)]) simp
    have u: "strset_index al d ?off h = strset_index al d (?off + length s + 1) h'" using unf i(1) by simp
    show ?thesis unfolding u using IH [OF _ k] Cons.prems(1) i(3,4) at by fastforce
  next
    fix h' assume "?ins = Some (- ENOMEM, None, h')" "(al (8 + 2 * ?off), al (9 + 2 * ?off)) \<noteq> (True, True)"
    then show ?thesis using unf by (auto simp: EEXIST_def ENOMEM_def)
  qed
qed

lemma str_table_last: "ss \<noteq> [] \<Longrightarrow> str_table ss ! (length (str_table ss) - 1) = NUL"
proof -
  assume "ss \<noteq> []"
  then obtain r s where "ss = r @ [s]" by (metis append_butlast_last_id)
  then have "str_table ss = (str_table r @ s) @ [NUL]" by (simp add: str_table_def)
  then show ?thesis by (metis nth_append_length length_append_singleton diff_Suc_1)
qed

lemma keys_ok_init: "keys_ok d 0 hashmap__init"
  by (simp add: keys_ok_def strs.inv_def hashmap_ok_def strs.uniq_def entries_def hashmap__init_def)

lemma strset_new_cases:
  assumes "\<forall>s \<in> set ss. is_cstr s" and "length (str_table ss) \<le> max_sz" and "max_sz < 2 ^ 31"
  obtains (fail) "strset__new al max_sz (Some (str_table ss)) = Some (Inl (- ENOMEM))" "\<exists>n. \<not> al n"
  | (built) st where "strset__new al max_sz (Some (str_table ss)) = Some (Inr st)" "strset_ok st"
      "strs_data st = str_table ss" "strs_data_len st = length (str_table ss)" "strs_data_max_len st = max_sz"
      "\<forall>s \<in> set ss. \<exists>k. known st k s"
proof (cases "al 2 \<and> al 3 \<and> al 4")
  case False
  then have "strset__new al max_sz (Some (str_table ss)) = Some (Inl (- ENOMEM))" by (auto simp: strset__new_def Let_def)
  then show ?thesis using fail False by blast
next
  case True
  let ?d = "str_table ss"
  have lt: "length ?d < 2 ^ 31" using assms by simp
  have e: "strset__new al max_sz (Some ?d) = Option.bind (strset_index al ?d 0 hashmap__init) (\<lambda>r. Some (map_sum id
      (\<lambda>h. \<lparr>strs_data = ?d, strs_data_len = length ?d, strs_data_cap = length ?d, strs_data_max_len = max_sz, strs_hash = h\<rparr>) r))"
    using True by (simp add: strset__new_def Let_def)
  consider "strset_index al ?d 0 hashmap__init = Some (Inl (- ENOMEM))" "\<exists>n. \<not> al n"
    | h where "strset_index al ?d 0 hashmap__init = Some (Inr h)" "keys_ok ?d (length ?d) h" "\<forall>s \<in> set ss. \<exists>k. indexed ?d h k s"
    using strset_index_ok [OF assms(1) lt, of "[]" hashmap__init al] keys_ok_init by auto
  then show ?thesis
  proof cases
    case 1
    then show ?thesis using fail e by simp
  next
    case (2 h)
    let ?st = "\<lparr>strs_data = ?d, strs_data_len = length ?d, strs_data_cap = length ?d, strs_data_max_len = max_sz, strs_hash = h\<rparr>"
    have "length ?d = 0 \<or> ?d ! (length ?d - 1) = NUL" using str_table_last by (cases "ss = []") auto
    then have "strset_ok ?st" using 2 assms(2,3) by (simp add: strset_ok_def)
    then show ?thesis using built [of ?st] e 2 by (simp add: known_def)
  qed
qed

section \<open>The interface of a store of strings\<close>

text \<open>
  What the symbol tables rely on: adding a string keeps every string the store has at its
  offset, the offset that is returned names the string, and a string has one offset.
\<close>

locale str_store =
  fixes inv :: "'s \<Rightarrow> bool" and add :: "'a \<Rightarrow> 's \<Rightarrow> string \<Rightarrow> (int \<times> 's) option"
    and knows :: "'s \<Rightarrow> nat \<Rightarrow> string \<Rightarrow> bool" and name :: "'s \<Rightarrow> nat \<Rightarrow> string option option"
  assumes add_ok: "inv st \<Longrightarrow> c_string s \<Longrightarrow> \<exists>off st'. add al st s = Some (off, st') \<and> inv st' \<and>
      (\<forall>k t. knows st k t \<longrightarrow> knows st' k t) \<and> (off < 0 \<or> knows st' (nat off) s)"
    and knows_name: "inv st \<Longrightarrow> knows st k s \<Longrightarrow> name st k = Some (Some s)"
    and knows_unique: "inv st \<Longrightarrow> knows st k s \<Longrightarrow> knows st k' s \<Longrightarrow> k = k'"
begin

fun add_all :: "('a \<times> string) list \<Rightarrow> 's \<Rightarrow> (int list \<times> 's) option" where
  "add_all [] st = Some ([], st)"
| "add_all (x # xs) st = do {
     (off, st) \<leftarrow> add (fst x) st (snd x);
     (offs, st) \<leftarrow> add_all xs st;
     Some (off # offs, st)
   }"

lemma knows_inj: "inv st \<Longrightarrow> knows st k s \<Longrightarrow> knows st k t \<Longrightarrow> s = t"
  by (metis knows_name option.inject)

lemma add_all_knows:
  assumes "inv st" and "\<forall>x \<in> set xs. c_string (snd x)"
  shows "\<exists>offs st'. add_all xs st = Some (offs, st') \<and> inv st' \<and> (\<forall>k t. knows st k t \<longrightarrow> knows st' k t) \<and>
    list_all2 (\<lambda>x off. off < 0 \<or> knows st' (nat off) (snd x)) xs offs"
  using assms
proof (induction xs arbitrary: st)
  case (Cons x xs)
  obtain off st1 where 1: "add (fst x) st (snd x) = Some (off, st1)" "inv st1" "\<forall>k t. knows st k t \<longrightarrow> knows st1 k t"
    "off < 0 \<or> knows st1 (nat off) (snd x)"
    using add_ok [of st "snd x" "fst x"] Cons.prems by auto
  obtain offs st2 where 2: "add_all xs st1 = Some (offs, st2)" "inv st2" "\<forall>k t. knows st1 k t \<longrightarrow> knows st2 k t"
    "list_all2 (\<lambda>x off. off < 0 \<or> knows st2 (nat off) (snd x)) xs offs"
    using Cons.IH [OF 1(2)] Cons.prems(2) by auto
  show ?case using 1 2 by auto
qed simp

lemma add_all_names:
  assumes "inv st" and "\<forall>x \<in> set xs. c_string (snd x)"
  shows "\<exists>offs st'. add_all xs st = Some (offs, st') \<and> length offs = length xs \<and>
    (\<forall>i < length xs. 0 \<le> offs ! i \<longrightarrow> name st' (nat (offs ! i)) = Some (Some (snd (xs ! i)))) \<and>
    (\<forall>i < length xs. \<forall>j < length xs. 0 \<le> offs ! i \<longrightarrow> 0 \<le> offs ! j \<longrightarrow> (offs ! i = offs ! j \<longleftrightarrow> snd (xs ! i) = snd (xs ! j)))"
proof -
  obtain offs st' where r: "add_all xs st = Some (offs, st')" "inv st'"
    "list_all2 (\<lambda>x off. off < 0 \<or> knows st' (nat off) (snd x)) xs offs"
    using add_all_knows [OF assms] by auto
  have l: "length offs = length xs" using r(3) by (simp add: list_all2_lengthD)
  have k: "knows st' (nat (offs ! i)) (snd (xs ! i))" if "i < length xs" "0 \<le> offs ! i" for i
    using list_all2_nthD [OF r(3) that(1)] that(2) by auto
  have "offs ! i = offs ! j \<longleftrightarrow> snd (xs ! i) = snd (xs ! j)"
    if b: "i < length xs" "j < length xs" "0 \<le> offs ! i" "0 \<le> offs ! j" for i j
  proof
    assume "offs ! i = offs ! j"
    then show "snd (xs ! i) = snd (xs ! j)" using k [OF b(1,3)] k [OF b(2,4)] knows_inj [OF r(2)] by simp
  next
    assume "snd (xs ! i) = snd (xs ! j)"
    then have "nat (offs ! i) = nat (offs ! j)" using k [OF b(1,3)] k [OF b(2,4)] knows_unique [OF r(2)] by metis
    then show "offs ! i = offs ! j" using b(3,4) by simp
  qed
  then show ?thesis using r(1) l k knows_name [OF r(2)] by blast
qed

end

text \<open>A store with a limit: adding fails only without memory or beyond the limit.\<close>

locale str_store_room = str_store inv add knows name
  for inv :: "'s \<Rightarrow> bool" and add :: "'a \<Rightarrow> 's \<Rightarrow> string \<Rightarrow> (int \<times> 's) option" and knows and name +
  fixes mem_ok :: "'a \<Rightarrow> bool" and used :: "'s \<Rightarrow> nat" and limit :: nat
  assumes add_used: "inv st \<Longrightarrow> c_string s \<Longrightarrow> add al st s = Some (off, st') \<Longrightarrow> used st' \<le> used st + length s + 1"
    and add_fails: "inv st \<Longrightarrow> c_string s \<Longrightarrow> add al st s = Some (off, st') \<Longrightarrow> off < 0 \<Longrightarrow>
      \<not> mem_ok al \<or> limit < used st + length s + 1"
begin

lemma add_room:
  assumes "inv st" and "c_string s"
  shows "\<exists>off st'. add al st s = Some (off, st') \<and> inv st' \<and> (\<forall>k t. knows st k t \<longrightarrow> knows st' k t) \<and>
    used st' \<le> used st + length s + 1 \<and> (if off < 0 then \<not> mem_ok al \<or> limit < used st + length s + 1 else knows st' (nat off) s)"
proof -
  obtain off st' where r: "add al st s = Some (off, st')" "inv st'" "\<forall>k t. knows st k t \<longrightarrow> knows st' k t"
    "off < 0 \<or> knows st' (nat off) s"
    using add_ok [OF assms, of al] by (elim exE conjE) (rule that)
  then show ?thesis using add_used [OF assms r(1)] add_fails [OF assms r(1)] by auto
qed

end

section \<open>The string section as a store\<close>

definition btf_ok :: "btf \<Rightarrow> bool" where
  "btf_ok b \<longleftrightarrow> base_btf b = None \<and> start_str_off b = 0 \<and>
     (case btf_strs b of
        Inl raw \<Rightarrow> raw = [NUL] \<and> hdr_str_len b = 1
      | Inr st \<Rightarrow> strset_ok st \<and> strs_data_max_len st = BTF_MAX_STR_OFFSET \<and> hdr_str_len b = strs_data_len st \<and> known st 0 [])"

definition btf_knows :: "btf \<Rightarrow> nat \<Rightarrow> string \<Rightarrow> bool" where
  "btf_knows b k s \<longleftrightarrow> (case btf_strs b of Inl raw \<Rightarrow> k = 0 \<and> s = [] | Inr st \<Rightarrow> known st k s)"

lemma btf__new_empty_ok: "btf__new_empty ok = Some b \<Longrightarrow> btf_ok b"
  by (auto simp: btf__new_empty_def btf_new_empty_def btf_ok_def split: if_splits)

lemma str_at_0: "str_at [NUL] k = []"
  by (cases k) (simp_all add: str_at_def)

lemma btf_ensure_modifiable_cases:
  assumes "btf_ok b"
  obtains (fail) err where "btf_ensure_modifiable al b = Some (err, b)" "err \<noteq> 0" "\<exists>n. \<not> al n"
  | (modifiable) st b' where "btf_ensure_modifiable al b = Some (0, b')" "btf_strs b' = Inr st" "btf_ok b'" "strset_ok st"
      "strs_data_max_len st = BTF_MAX_STR_OFFSET" "known st 0 []" "\<And>k s. btf_knows b k s \<Longrightarrow> known st k s" "strs_data_len st = hdr_str_len b"
proof (cases b)
  case (Btf base start len strs)
  show ?thesis
  proof (cases strs)
    case (Inr st)
    then show ?thesis using modifiable [of b st] assms Btf by (simp add: btf_ok_def btf_knows_def)
  next
    case (Inl raw)
    then have b: "b = Btf None 0 1 (Inl [NUL])" using assms Btf by (simp add: btf_ok_def)
    have t: "[NUL] = str_table [[]]" by simp
    have bounds: "\<forall>s \<in> set [[] :: string]. is_cstr s" "length (str_table [[]]) \<le> BTF_MAX_STR_OFFSET" "BTF_MAX_STR_OFFSET < 2 ^ 31"
      by (simp_all add: is_cstr_def BTF_MAX_STR_OFFSET_def)
    show ?thesis
    proof (cases "al 0 \<and> al 1")
      case False
      then show ?thesis using fail [of "- ENOMEM"] b by (auto simp: ENOMEM_def)
    next
      case True
      show ?thesis
      proof (rule strset_new_cases [OF bounds, of al])
        assume "strset__new al BTF_MAX_STR_OFFSET (Some (str_table [[]])) = Some (Inl (- ENOMEM))" "\<exists>n. \<not> al n"
        then show ?thesis using fail [of "- ENOMEM"] b True by (simp add: ENOMEM_def)
      next
        fix st assume n: "strset__new al BTF_MAX_STR_OFFSET (Some (str_table [[]])) = Some (Inr st)" "strset_ok st"
          "strs_data st = str_table [[]]" "strs_data_len st = length (str_table [[]])" "strs_data_max_len st = BTF_MAX_STR_OFFSET"
          "\<forall>s \<in> set [[]]. \<exists>k. known st k s"
        then obtain k where k: "known st k []" by auto
        then have "k = 0" using known_less [OF n(2) k] n(4) by simp
        then show ?thesis using modifiable [of "Btf None 0 1 (Inr st)" st] n k b True by (simp add: btf_ok_def btf_knows_def)
      qed
    qed
  qed
qed

lemma btf__add_str_ok:
  assumes b: "btf_ok b" and s: "c_string s"
  shows "\<exists>off b'. btf__add_str al b s = Some (off, b') \<and> btf_ok b' \<and> (\<forall>k t. btf_knows b k t \<longrightarrow> btf_knows b' k t) \<and>
    hdr_str_len b' \<le> hdr_str_len b + length s + 1 \<and>
    (if off < 0 then (\<exists>n. \<not> al n) \<or> BTF_MAX_STR_OFFSET < hdr_str_len b + length s + 1 else btf_knows b' (nat off) s)"
proof -
  have own: "btf__add_str al b s = btf_own_add_str al b s" using b by (simp add: btf__add_str_def btf_ok_def)
  show ?thesis
  proof (rule btf_ensure_modifiable_cases [OF b, of "self_allocs al"])
    fix err assume "btf_ensure_modifiable (self_allocs al) b = Some (err, b)" "err \<noteq> 0" "\<exists>n. \<not> self_allocs al n"
    then show ?thesis using own b by (auto simp: btf_own_add_str_def ENOMEM_def self_allocs_def)
  next
    fix st b' assume m: "btf_ensure_modifiable (self_allocs al) b = Some (0, b')" "btf_strs b' = Inr st" "btf_ok b'" "strset_ok st"
      "strs_data_max_len st = BTF_MAX_STR_OFFSET" "known st 0 []" "\<And>k s. btf_knows b k s \<Longrightarrow> known st k s" "strs_data_len st = hdr_str_len b"
    have b': "base_btf b' = None" "start_str_off b' = 0" "hdr_str_len b' = strs_data_len st" using m(2,3) by (simp_all add: btf_ok_def)
    have t: "to_int (int k) = int k" if "known st' k u" "strset_ok st'" for k u st'
      using known_less [OF that(2,1)] to_int_small by simp
    show ?thesis
    proof (rule strset_add_cases [OF m(4) s, of "self_allocs al"])
      fix k st' assume a: "strset__add_str (self_allocs al) st s = Some (int k, st')" "known st k s" "strs_data_len st' = strs_data_len st"
        "strset_ok st'" "\<And>k t. known st k t \<Longrightarrow> known st' k t" "strs_data_max_len st' = strs_data_max_len st"
      then show ?thesis using own m b' t [OF a(2) m(4)]
        by (simp add: btf_own_add_str_def btf_ok_def btf_knows_def [of "Btf _ _ _ _"] strset__data_size_def)
    next
      fix st' assume a: "strset__add_str (self_allocs al) st s = Some (int (strs_data_len st), st')"
        "strs_data_len st' = strs_data_len st + length s + 1" "known st' (strs_data_len st) s" "strset_ok st'" "\<And>k t. known st k t \<Longrightarrow> known st' k t" "strs_data_max_len st' = strs_data_max_len st"
      then show ?thesis using own m b' t [OF a(3,4)]
        by (simp add: btf_own_add_str_def btf_ok_def btf_knows_def [of "Btf _ _ _ _"] strset__data_size_def)
    next
      fix st' assume a: "strset__add_str (self_allocs al) st s = Some (- ENOMEM, st')" "strs_data_len st' = strs_data_len st"
        "strset_ok st'" "\<And>k t. known st k t \<Longrightarrow> known st' k t" "strs_data_max_len st' = strs_data_max_len st"
        "\<not> (self_allocs al 5 \<and> self_allocs al 6 \<and> self_allocs al 7) \<or> strs_data_max_len st < strs_data_len st + length s + 1"
      then have "(\<exists>n. \<not> al n) \<or> BTF_MAX_STR_OFFSET < hdr_str_len b + length s + 1" using m(5,8) by (auto simp: self_allocs_def)
      then show ?thesis using a(1-5) own m b'
        by (simp add: btf_own_add_str_def btf_ok_def btf_knows_def [of "Btf _ _ _ _"] ENOMEM_def)
    qed
  qed
qed

lemma btf_knows_name:
  assumes "btf_ok b" and "btf_knows b k s"
  shows "btf__name_by_offset b k = Some (Some s)"
proof (cases b)
  case (Btf base start len strs)
  show ?thesis
  proof (cases strs)
    case (Inl raw)
    then show ?thesis using assms Btf by (simp add: btf__name_by_offset_def btf_ok_def btf_knows_def btf_strs_data_def str_at_0)
  next
    case (Inr st)
    then have "strset_ok st" "known st k s" using assms Btf by (simp_all add: btf_ok_def btf_knows_def)
    from known_less [OF this] show ?thesis using assms Btf Inr by (simp add: btf__name_by_offset_def btf_ok_def btf_strs_data_def)
  qed
qed

interpretation btf_store: str_store_room btf_ok btf__add_str btf_knows btf__name_by_offset
  "\<lambda>al. \<forall>n. al n" hdr_str_len BTF_MAX_STR_OFFSET
proof
  fix st k s k' assume "btf_ok st" "btf_knows st k s" "btf_knows st k' s"
  then show "k = k'" using known_unique by (auto simp: btf_ok_def btf_knows_def split: sum.splits)
next
  fix st s al assume "btf_ok st" "c_string s"
  from btf__add_str_ok [OF this, of al] show "\<exists>off st'. btf__add_str al st s = Some (off, st') \<and> btf_ok st' \<and>
      (\<forall>k t. btf_knows st k t \<longrightarrow> btf_knows st' k t) \<and> (off < 0 \<or> btf_knows st' (nat off) s)" by (auto split: if_splits)
next
  fix st s al off st' assume "btf_ok st" "c_string s" "btf__add_str al st s = Some (off, st')"
  with btf__add_str_ok [OF this(1,2), of al] show "hdr_str_len st' \<le> hdr_str_len st + length s + 1" by auto
next
  fix st s al off st' assume "btf_ok st" "c_string s" "btf__add_str al st s = Some (off, st')" "off < 0"
  with btf__add_str_ok [OF this(1,2), of al]
  show "\<not> (\<forall>n. al n) \<or> BTF_MAX_STR_OFFSET < hdr_str_len st + length s + 1" by auto
qed (rule btf_knows_name)

section \<open>Properties\<close>

text \<open>
  C26. \<open>hashmap__insert\<close> implements insertion into a map, for the hash and comparison functions
  of the string set and every strategy but \<^verbatim>\<open>HASHMAP_APPEND\<close>: it never leaves the array of buckets,
  keeps the invariant of the table also when it grows or an allocation fails, returns the code
  that the strategy and the presence of the key ask for, and afterwards \<open>hashmap__find\<close> gives the
  new value for the key and what it gave before for every other key.
\<close>

theorem hashmap__insert_correct:
  assumes "strs.inv d m" and "sz m < 2 ^ 60" and "strategy \<noteq> HASHMAP_APPEND"
  shows "\<exists>err old m' r. hashmap__insert (strset_hash_fn d) (strset_equal_fn d) ok m key value strategy = Some (err, old, m') \<and>
    strs.inv d m' \<and> hashmap__find (strset_hash_fn d) (strset_equal_fn d) m key = Some r \<and> map_option snd old = r \<and>
    (if r \<noteq> None then err = (if strategy = HASHMAP_ADD then - EEXIST else 0)
     else if strategy = HASHMAP_UPDATE then err = - ENOENT else err = 0 \<or> err = - ENOMEM \<and> ok \<noteq> (True, True)) \<and>
    (\<forall>k. hashmap__find (strset_hash_fn d) (strset_equal_fn d) m' k =
      (if err = 0 \<and> strset_equal_fn d key k then Some (Some value) else hashmap__find (strset_hash_fn d) (strset_equal_fn d) m k))"
proof -
  obtain err old m' where i: "hashmap__insert (strset_hash_fn d) (strset_equal_fn d) ok m key value strategy = Some (err, old, m')"
    "strs.inv d m'" "map_option snd old = strs.lookup d m key"
    "if strs.lookup d m key \<noteq> None then err = (if strategy = HASHMAP_ADD then - EEXIST else 0)
     else if strategy = HASHMAP_UPDATE then err = - ENOENT else err = 0 \<or> err = - ENOMEM \<and> ok \<noteq> (True, True)"
    "\<forall>k. strs.lookup d m' k = (if err = 0 \<and> strset_equal_fn d key k then Some value else strs.lookup d m k)"
    using strs.insert_lookup [OF assms, where ok = ok and k = key and v = "value"] by (elim exE conjE) (rule that)
  have "hashmap__find (strset_hash_fn d) (strset_equal_fn d) m' k =
      (if err = 0 \<and> strset_equal_fn d key k then Some (Some value) else hashmap__find (strset_hash_fn d) (strset_equal_fn d) m k)" for k
    using i(5) strs.find_lookup [OF assms(1), of k] strs.find_lookup [OF i(2), of k] by simp
  then show ?thesis using i strs.find_lookup [OF assms(1), of key]
    by (intro exI [of _ err] exI [of _ old] exI [of _ m'] exI [of _ "strs.lookup d m key"]) simp
qed

theorem hashmap__insert_correct_witness:
  "\<exists>err old m' r. hashmap__insert (strset_hash_fn ''ab'') (strset_equal_fn ''ab'') (True, True) hashmap__init 0 (5 :: nat) HASHMAP_SET =
      Some (err, old, m') \<and> hashmap__find (strset_hash_fn ''ab'') (strset_equal_fn ''ab'') m' 0 = Some r \<and> r = Some 5"
proof -
  have i: "strs.inv ''ab'' (hashmap__init :: (nat, nat) hashmap)" "sz (hashmap__init :: (nat, nat) hashmap) < 2 ^ 60" "HASHMAP_SET \<noteq> HASHMAP_APPEND"
    using keys_ok_init [of "''ab''"] by (simp_all add: keys_ok_def hashmap__init_def)
  have "hashmap__find (strset_hash_fn ''ab'') (strset_equal_fn ''ab'') (hashmap__init :: (nat, nat) hashmap) 0 = Some None"
    by (simp add: hashmap__find_def hashmap_find_entry_def hashmap__init_def)
  then show ?thesis using hashmap__insert_correct [OF i, of "(True, True)" 0 5] by (auto simp: strset_equal_iff)
qed

text \<open>
  C27. \<open>strset__add_str\<close> keeps the invariant of the set and never accesses memory outside its block,
  whatever allocations fail.  It returns the offset at which the string now is: the one it has
  when it is in the set already, with nothing added, else the end of the data; or \<^verbatim>\<open>-ENOMEM\<close>, and
  this only when an allocation fails or the limit of the data is reached.  Every string that
  was in the set stays at its offset.  The offset is 0 for the first string of a set that was empty, where the comment on
  the function promises a positive one.
\<close>

theorem strset__add_str_correct:
  assumes "strset_ok st" and "c_string s"
  shows "\<exists>off st'. strset__add_str al st s = Some (off, st') \<and> strset_ok st' \<and> (\<forall>k t. known st k t \<longrightarrow> known st' k t) \<and>
    (if off = - ENOMEM then (\<not> (al 5 \<and> al 6 \<and> al 7) \<or> strs_data_max_len st < strs_data_len st + length s + 1) \<and>
       strs_data_len st' = strs_data_len st
     else known st' (nat off) s \<and> str_at (strs_data st') (nat off) = s \<and>
       (if known st (nat off) s then strs_data_len st' = strs_data_len st
        else off = int (strs_data_len st) \<and> strs_data_len st' = strs_data_len st + length s + 1 \<and> (\<forall>k. \<not> known st k s)))"
proof -
  have en: "int k \<noteq> - ENOMEM" for k by (simp add: ENOMEM_def)
  show ?thesis
  proof (rule strset_add_cases [OF assms, of al])
    fix k st' assume "strset__add_str al st s = Some (int k, st')" "known st k s" "strs_data_len st' = strs_data_len st"
      "strset_ok st'" "\<And>k t. known st k t \<Longrightarrow> known st' k t"
    then show ?thesis using en known_less [of st' k s] by simp
  next
    fix st' assume "strset__add_str al st s = Some (int (strs_data_len st), st')" "\<And>k. \<not> known st k s"
      "strs_data_len st' = strs_data_len st + length s + 1" "known st' (strs_data_len st) s"
      "strset_ok st'" "\<And>k t. known st k t \<Longrightarrow> known st' k t"
    then show ?thesis using en known_less [of st' "strs_data_len st" s] by simp
  qed auto
qed

definition empty_strset :: strset where
  "empty_strset = \<lparr>strs_data = [], strs_data_len = 0, strs_data_cap = 0, strs_data_max_len = 100, strs_hash = hashmap__init\<rparr>"

theorem strset__add_str_correct_witness:
  "\<exists>off st'. strset__add_str (\<lambda>_. True) empty_strset ''ok'' = Some (off, st') \<and> off = 0 \<and> str_at (strs_data st') 0 = ''ok''"
proof -
  have "strset_ok empty_strset" "c_string ''ok''"
    using keys_ok_init by (simp_all add: strset_ok_def empty_strset_def c_string_def is_cstr_def NUL_def)
  moreover have "\<not> known empty_strset k s" for k s by (simp add: known_def indexed_def empty_strset_def entries_def hashmap__init_def)
  ultimately show ?thesis
    using strset__add_str_correct [of empty_strset "''ok''" "\<lambda>_. True"] by (auto simp: empty_strset_def split: if_splits)
qed

text \<open>
  The string section of a new BTF object is a set of strings: whatever names are added to it,
  with whatever allocation failures, each offset returned reads back as its name after all of
  them, and two offsets are equal exactly when the names are.
\<close>

theorem btf_strings_roundtrip:
  assumes "btf__new_empty ok = Some b" and "\<forall>x \<in> set xs. c_string (snd x)"
  shows "\<exists>offs b'. btf_store.add_all xs b = Some (offs, b') \<and> length offs = length xs \<and>
    (\<forall>i < length xs. 0 \<le> offs ! i \<longrightarrow> btf__name_by_offset b' (nat (offs ! i)) = Some (Some (snd (xs ! i)))) \<and>
    (\<forall>i < length xs. \<forall>j < length xs. 0 \<le> offs ! i \<longrightarrow> 0 \<le> offs ! j \<longrightarrow> (offs ! i = offs ! j \<longleftrightarrow> snd (xs ! i) = snd (xs ! j)))"
  by (rule btf_store.add_all_names [OF btf__new_empty_ok [OF assms(1)] assms(2)])

theorem btf_strings_roundtrip_witness:
  "\<exists>b offs b'. btf__new_empty (True, True) = Some b \<and>
    btf_store.add_all [(\<lambda>_. True, ''main''), (\<lambda>_. True, ''main'')] b = Some (offs, b') \<and> length offs = 2 \<and>
    (0 \<le> offs ! 0 \<longrightarrow> 0 \<le> offs ! 1 \<longrightarrow> offs ! 0 = offs ! 1)"
proof -
  obtain b where b: "btf__new_empty (True, True) = Some b" by (simp add: btf__new_empty_def btf_new_empty_def)
  have "\<forall>x \<in> set [(\<lambda>_ :: nat. True, ''main''), (\<lambda>_. True, ''main'')]. c_string (snd x)"
    by (simp add: c_string_def is_cstr_def NUL_def)
  from btf_strings_roundtrip [OF b this] show ?thesis using b by fastforce
qed

end
