(* ===== verification/Syms.thy ===== *)
theory Syms
  imports Strset
begin

text \<open>
  The user-space symbol tables of \<^verbatim>\<open>plugin/libbpf-test/trace_helpers.c\<close>: the mappings of a process
  are read from its \<^verbatim>\<open>maps\<close> file, the symbols of each mapped object are loaded from its ELF file on
  the first lookup, and an address is looked up in two steps, object and symbol.

  libelf and the files are given as data: \<open>elf\<close> is what the calls of libelf return for a file, a
  \<^verbatim>\<open>maps\<close> file is the list of the results of \<^verbatim>\<open>fscanf\<close>.  \<open>d_freed\<close> marks an object whose fields have been
  released; using it afterwards is undefined, as every result \<open>None\<close>.
\<close>

section \<open>ELF files\<close>

record elf_sym =
  st_name :: nat
  st_value :: u64
  st_size :: u64

record elf_data =
  d_size :: nat
  d_getsym :: "int \<Rightarrow> elf_sym option"

record elf_shdr =
  sh_name :: nat
  sh_type :: nat
  sh_addr :: u64
  sh_offset :: u64
  sh_link :: nat
  sh_entsize :: nat

record elf_scn =
  scn_shdr :: "elf_shdr option"
  scn_data :: "elf_data list"

record elf =
  elf_e_type :: "int option"
  elf_shstrndx :: "nat option"
  elf_scns :: "elf_scn list"
  elf_strptr :: "nat \<Rightarrow> nat \<Rightarrow> string option"

definition ET_EXEC :: int where "ET_EXEC = 2"
definition ET_DYN :: int where "ET_DYN = 3"
definition SHT_SYMTAB :: nat where "SHT_SYMTAB = 2"
definition SHT_DYNSYM :: nat where "SHT_DYNSYM = 11"

section \<open>State\<close>

record load_range =
  range_start :: u64
  range_end :: u64
  range_file_off :: u64

datatype elf_type = EXEC | DYN | PERF_MAP | VDSO | UNKNOWN

text \<open>While the table is built, the name of a symbol is an offset into the strings.\<close>

datatype sym_name = Offset int | Name "string option"

record sym =
  sym_name :: sym_name
  sym_start :: u64
  sym_size :: u64

record dso =
  d_name :: "string option"
  d_ranges :: "load_range list"
  d_sh_addr :: u64
  d_sh_offset :: u64
  d_type :: elf_type
  d_syms :: "sym block"
  d_syms_sz :: int
  d_syms_cap :: int
  d_btf :: "btf option"
  d_freed :: bool

record map_entry =
  start_addr :: u64
  end_addr :: u64
  file_off :: u64
  dev_major :: u64
  dev_minor :: u64
  inode :: u64

text \<open>\<^verbatim>\<open>struct syms\<close> is the list of its objects.\<close>

type_synonym syms = "dso list"

section \<open>Mappings\<close>

definition starts_with :: "string \<Rightarrow> string \<Rightarrow> bool" where
  "starts_with s pre \<longleftrightarrow> take (length pre) s = pre"

definition is_file_backed :: "string \<Rightarrow> bool" where
  "is_file_backed mapname \<longleftrightarrow> mapname \<noteq> [] \<and> \<not> (starts_with mapname ''//anon'' \<or> starts_with mapname ''/dev/zero'' \<or>
     starts_with mapname ''/anon_hugepage'' \<or> starts_with mapname ''[stack'' \<or> starts_with mapname ''/SYSV'' \<or>
     starts_with mapname ''[heap]'' \<or> starts_with mapname ''[vsyscall]'')"

definition is_perf_map :: "string \<Rightarrow> bool" where "is_perf_map path = False"

definition is_vdso :: "string \<Rightarrow> bool" where "is_vdso path \<longleftrightarrow> strcmp path ''[vdso]'' = 0"

definition get_elf_type :: "(string \<Rightarrow> elf option) \<Rightarrow> string \<Rightarrow> int" where
  "get_elf_type open_elf path =
     (if is_vdso path then - 1
      else (case open_elf path of
          None \<Rightarrow> - 1
        | Some e \<Rightarrow> (case elf_e_type e of None \<Rightarrow> - 1 | Some t \<Rightarrow> t)))"

fun text_scn_loop :: "elf \<Rightarrow> nat \<Rightarrow> elf_scn list \<Rightarrow> (u64 \<times> u64) option" where
  "text_scn_loop e stridx [] = None"
| "text_scn_loop e stridx (section # rest) =
     (case scn_shdr section of
        None \<Rightarrow> text_scn_loop e stridx rest
      | Some header \<Rightarrow>
          (case elf_strptr e stridx (sh_name header) of
             Some name \<Rightarrow>
               if strcmp name ''.text'' = 0 then Some (sh_addr header, sh_offset header)
               else text_scn_loop e stridx rest
           | None \<Rightarrow> text_scn_loop e stridx rest))"

text \<open>\<open>None\<close> is the negative result.\<close>

definition get_elf_text_scn_info :: "(string \<Rightarrow> elf option) \<Rightarrow> string \<Rightarrow> (u64 \<times> u64) option" where
  "get_elf_text_scn_info open_elf path = do {
     e \<leftarrow> open_elf path;
     stridx \<leftarrow> elf_shstrndx e;
     text_scn_loop e stridx (elf_scns e)
   }"

text \<open>The search for an object of that name: \<open>Some (length dsos)\<close> when there is none.\<close>

fun find_dso_by_name :: "dso list \<Rightarrow> string \<Rightarrow> nat option" where
  "find_dso_by_name [] name = Some 0"
| "find_dso_by_name (d # ds) name =
     (if d_freed d then None
      else (case d_name d of
          None \<Rightarrow> None
        | Some n \<Rightarrow> if strcmp n name = 0 then Some 0 else map_option Suc (find_dso_by_name ds name)))"

definition new_dso :: "bool \<Rightarrow> bool \<times> bool \<Rightarrow> string \<Rightarrow> dso" where
  "new_dso strdup_ok bok name =
     \<lparr>d_name = (if strdup_ok then Some name else None), d_ranges = [], d_sh_addr = 0, d_sh_offset = 0, d_type = EXEC,
      d_syms = [], d_syms_sz = 0, d_syms_cap = 0, d_btf = btf__new_empty bok, d_freed = False\<rparr>"

text \<open>The type of an object, and for a shared object where its text is.\<close>

definition set_dso_type :: "(string \<Rightarrow> elf option) \<Rightarrow> string \<Rightarrow> dso \<Rightarrow> int \<times> dso" where
  "set_dso_type open_elf name d =
     (let type = get_elf_type open_elf name
      in if type = ET_EXEC then (0, d\<lparr>d_type := EXEC\<rparr>)
         else if type = ET_DYN then
           (case get_elf_text_scn_info open_elf name of
              None \<Rightarrow> (- 1, d\<lparr>d_type := DYN\<rparr>)
            | Some (addr, offset) \<Rightarrow> (0, d\<lparr>d_type := DYN, d_sh_addr := addr, d_sh_offset := offset\<rparr>))
         else if is_perf_map name then (0, d\<lparr>d_type := PERF_MAP\<rparr>)
         else if is_vdso name then (0, d\<lparr>d_type := VDSO\<rparr>)
         else (0, d\<lparr>d_type := UNKNOWN\<rparr>))"

record add_allocs =
  ok_dsos :: bool
  ok_strdup :: bool
  ok_btf :: "bool \<times> bool"
  ok_ranges :: bool

definition syms__add_dso :: "(string \<Rightarrow> elf option) \<Rightarrow> add_allocs \<Rightarrow> syms \<Rightarrow> map_entry \<Rightarrow> string \<Rightarrow> (int \<times> syms) option" where
  "syms__add_dso open_elf ok dsos m name = do {
     i \<leftarrow> find_dso_by_name dsos name;
     if i = length dsos \<and> \<not> ok_dsos ok then Some (- 1, dsos)
     else do {
       let dsos = (if i = length dsos then dsos @ [new_dso (ok_strdup ok) (ok_btf ok) name] else dsos);
       if \<not> ok_ranges ok then Some (- 1, dsos)
       else do {
         let d = dsos ! i;
         let d = d\<lparr>d_ranges := d_ranges d @ [\<lparr>range_start = start_addr m, range_end = end_addr m, range_file_off = file_off m\<rparr>]\<rparr>;
         let (err, d) = set_dso_type open_elf name d;
         Some (err, dsos[i := d])
       }
     }
   }"

text \<open>\<^verbatim>\<open>syms__find_dso\<close>: the index of the object and the offset.\<close>

fun find_range :: "dso \<Rightarrow> load_range list \<Rightarrow> u64 \<Rightarrow> u64 option" where
  "find_range d [] addr = None"
| "find_range d (r # rs) addr =
     (if addr \<le> range_start r \<or> addr \<ge> range_end r then find_range d rs addr
      else if d_type d = DYN \<or> d_type d = VDSO
      then Some (addr - range_start r + range_file_off r + (d_sh_addr d - d_sh_offset d))
      else Some addr)"

fun find_dso_loop :: "nat \<Rightarrow> dso list \<Rightarrow> u64 \<Rightarrow> (nat \<times> u64) option option" where
  "find_dso_loop i [] addr = Some None"
| "find_dso_loop i (d # ds) addr =
     (if d_freed d then None
      else (case find_range d (d_ranges d) addr of
          Some offset \<Rightarrow> Some (Some (i, offset))
        | None \<Rightarrow> find_dso_loop (i + 1) ds addr))"

definition syms__find_dso :: "syms \<Rightarrow> u64 \<Rightarrow> (nat \<times> u64) option option" where
  "syms__find_dso dsos addr = find_dso_loop 0 dsos addr"

section \<open>Loading the symbols of an object\<close>

definition dso__load_sym_table_from_perf_map :: "dso \<Rightarrow> int" where
  "dso__load_sym_table_from_perf_map d = - 1"

definition dso__add_sym :: "allocs \<times> bool \<Rightarrow> dso \<Rightarrow> string \<Rightarrow> u64 \<Rightarrow> u64 \<Rightarrow> (int \<times> dso) option" where
  "dso__add_sym ok d name start sym_sz = do {
     b \<leftarrow> d_btf d;
     (off, b) \<leftarrow> btf__add_str (fst ok) b name;
     let d = d\<lparr>d_btf := Some b\<rparr>;
     if off < 0 then Some (off, d)
     else do {
       r \<leftarrow> vec_reserve (snd ok) (d_syms d) (d_syms_sz d) (d_syms_cap d);
       case r of
         None \<Rightarrow> Some (- 1, d)
       | Some (tmp, new_cap) \<Rightarrow> do {
           tmp \<leftarrow> block_put tmp (d_syms_sz d) \<lparr>sym_name = Offset off, sym_start = start, sym_size = sym_sz\<rparr>;
           Some (0, d\<lparr>d_syms := tmp, d_syms_cap := new_cap, d_syms_sz := d_syms_sz d + 1\<rparr>)
         }
     }
   }"

definition sym_string :: "sym \<Rightarrow> string" where
  "sym_string s = (case sym_name s of Name (Some n) \<Rightarrow> n | _ \<Rightarrow> [])"

definition sym_cmp :: "sym \<Rightarrow> sym \<Rightarrow> int" where
  "sym_cmp s1 s2 =
     (if sym_start s1 = sym_start s2 then strcmp (sym_string s1) (sym_string s2)
      else if sym_start s1 < sym_start s2 then - 1 else 1)"

text \<open>The allocations are numbered by section, data buffer and symbol.\<close>

type_synonym load_allocs = "nat \<Rightarrow> nat \<Rightarrow> nat \<Rightarrow> allocs \<times> bool"

fun add_syms_loop :: "(nat \<Rightarrow> allocs \<times> bool) \<Rightarrow> elf \<Rightarrow> nat \<Rightarrow> elf_data \<Rightarrow> nat \<Rightarrow> nat \<Rightarrow> dso \<Rightarrow> (int \<times> dso) option" where
  "add_syms_loop ok e stridx data i 0 d = Some (0, d)"
| "add_syms_loop ok e stridx data i (Suc n) d =
     (case d_getsym data (to_int (int i)) of
        None \<Rightarrow> add_syms_loop ok e stridx data (i + 1) n d
      | Some es \<Rightarrow>
          (case elf_strptr e stridx (st_name es) of
             None \<Rightarrow> add_syms_loop ok e stridx data (i + 1) n d
           | Some name \<Rightarrow>
               if name = [] then add_syms_loop ok e stridx data (i + 1) n d
               else if st_value es = 0 then add_syms_loop ok e stridx data (i + 1) n d
               else (case dso__add_sym (ok i) d name (st_value es) (st_size es) of
                   None \<Rightarrow> None
                 | Some (err, d) \<Rightarrow>
                     if err \<noteq> 0 then Some (- 1, d) else add_syms_loop ok e stridx data (i + 1) n d)))"

fun dso__add_syms :: "(nat \<Rightarrow> nat \<Rightarrow> allocs \<times> bool) \<Rightarrow> elf \<Rightarrow> nat \<Rightarrow> nat \<Rightarrow> nat \<Rightarrow> elf_data list \<Rightarrow> dso \<Rightarrow> (int \<times> dso) option" where
  "dso__add_syms ok e stridx symsize k [] d = Some (0, d)"
| "dso__add_syms ok e stridx symsize k (data # rest) d =
     (if symsize = 0 then None
      else if d_size data mod symsize \<noteq> 0 then Some (- 1, d)
      else (case add_syms_loop (ok k) e stridx data 0 (d_size data div symsize) d of
          None \<Rightarrow> None
        | Some (err, d) \<Rightarrow> if err \<noteq> 0 then Some (- 1, d) else dso__add_syms ok e stridx symsize (k + 1) rest d))"

definition dso__free_fields :: "dso \<Rightarrow> dso" where
  "dso__free_fields d = d\<lparr>d_freed := True\<rparr>"

fun load_sections :: "load_allocs \<Rightarrow> elf \<Rightarrow> nat \<Rightarrow> elf_scn list \<Rightarrow> dso \<Rightarrow> (int \<times> dso) option" where
  "load_sections ok e j [] d = Some (0, d)"
| "load_sections ok e j (section # rest) d =
     (case scn_shdr section of
        None \<Rightarrow> load_sections ok e (j + 1) rest d
      | Some header \<Rightarrow>
          if sh_type header \<noteq> SHT_SYMTAB \<and> sh_type header \<noteq> SHT_DYNSYM then load_sections ok e (j + 1) rest d
          else (case dso__add_syms (ok j) e (sh_link header) (sh_entsize header) 0 (scn_data section) d of
              None \<Rightarrow> None
            | Some (err, d) \<Rightarrow> if err \<noteq> 0 then Some (- 1, d) else load_sections ok e (j + 1) rest d))"

text \<open>\<^verbatim>\<open>dso->syms[i].name = btf__name_by_offset(...)\<close> for every symbol; the offset is passed as a \<^verbatim>\<open>__u32\<close>.\<close>

fun dso_adjust_names :: "btf \<Rightarrow> sym block \<Rightarrow> nat \<Rightarrow> nat \<Rightarrow> sym list option" where
  "dso_adjust_names b syms i 0 = Some []"
| "dso_adjust_names b syms i (Suc n) = do {
     s \<leftarrow> block_get syms (int i);
     name \<leftarrow> (case sym_name s of Offset off \<Rightarrow> btf__name_by_offset b (nat (off mod 2 ^ 32)) | Name p \<Rightarrow> None);
     rest \<leftarrow> dso_adjust_names b syms (i + 1) n;
     Some (s\<lparr>sym_name := Name name\<rparr> # rest)
   }"

text \<open>\<open>e\<close>: the opened file, \<open>None\<close> when that fails.  \<^verbatim>\<open>qsort\<close> would read a null name.\<close>

definition dso__load_sym_table_from_elf :: "load_allocs \<Rightarrow> elf option \<Rightarrow> dso \<Rightarrow> (int \<times> dso) option" where
  "dso__load_sym_table_from_elf ok e d =
     (case e of
        None \<Rightarrow> Some (- 1, d)
      | Some e \<Rightarrow> do {
          (err, d) \<leftarrow> load_sections ok e 0 (elf_scns e) d;
          if err \<noteq> 0 then Some (- 1, dso__free_fields d)
          else do {
            syms \<leftarrow> (if d_syms_sz d = 0 then Some [] else do {
              b \<leftarrow> d_btf d;
              dso_adjust_names b (d_syms d) 0 (nat (d_syms_sz d))
            });
            if \<exists>s \<in> set syms. sym_name s = Name None then None
            else Some (0, d\<lparr>d_syms := map Some (qsort sym_cmp syms) @ drop (length syms) (d_syms d)\<rparr>)
          }
        })"

section \<open>The image of the vdso\<close>

text \<open>One call of \<^verbatim>\<open>fscanf\<close> on the maps of this process: its result and what it has read.\<close>

record vdso_scan =
  vs_ret :: int
  vs_start :: u64
  vs_end :: u64
  vs_buf :: string

text \<open>
  The loop; the end of the list is the end of the file.  \<open>Some None\<close> is \<^verbatim>\<open>goto err_out\<close>, otherwise
  the addresses the variables have after the loop, \<open>None\<close> when nothing has been read.
\<close>

fun vdso_loop :: "vdso_scan list \<Rightarrow> (u64 \<times> u64) option \<Rightarrow> (u64 \<times> u64) option option" where
  "vdso_loop [] cur = Some cur"
| "vdso_loop (s # f) cur =
     (if vs_ret s \<noteq> 3 then None
      else
        let name = dropWhile c_isspace (vs_buf s); cur = Some (vs_start s, vs_end s)
        in if \<not> is_file_backed name then vdso_loop f cur
           else if is_vdso name then Some cur
           else vdso_loop f cur)"

record vdso_env =
  ve_maps :: "vdso_scan list option"
  ve_malloc :: bool
  ve_read :: "u64 \<Rightarrow> u64 \<Rightarrow> bytes option"
  ve_fd :: int
  ve_write :: bool

text \<open>
  The result is the file descriptor and the content of the file; \<open>ve_read\<close> is \<^verbatim>\<open>memcpy\<close> from an
  address of the process.
\<close>

definition create_tmp_vdso_image :: "vdso_env \<Rightarrow> (int \<times> bytes) option" where
  "create_tmp_vdso_image v =
     (case ve_maps v of
        None \<Rightarrow> Some (- 1, [])
      | Some f \<Rightarrow>
          (case vdso_loop f None of
             None \<Rightarrow> Some (- 1, [])
           | Some None \<Rightarrow> None
           | Some (Some (start, end)) \<Rightarrow>
               let sz' = end - start
               in if \<not> ve_malloc v then Some (- 1, [])
                  else do {
                    image \<leftarrow> ve_read v start sz';
                    if ve_fd v < 0 then Some (ve_fd v, [])
                    else if \<not> ve_write v then Some (- 1, [])
                    else Some (ve_fd v, image)
                  }))"

definition dso__load_sym_table_from_vdso_image ::
    "vdso_env \<Rightarrow> (bytes \<Rightarrow> elf option) \<Rightarrow> (string \<Rightarrow> elf option) \<Rightarrow> load_allocs \<Rightarrow> dso \<Rightarrow> (int \<times> dso) option" where
  "dso__load_sym_table_from_vdso_image v open_elf_by_fd open_elf ok d = do {
     (fd, image) \<leftarrow> create_tmp_vdso_image v;
     if fd < 0 then Some (- 1, d)
     else if fd > 0 then dso__load_sym_table_from_elf ok (open_elf_by_fd image) d
     else do {
       name \<leftarrow> d_name d;
       dso__load_sym_table_from_elf ok (open_elf name) d
     }
   }"

section \<open>Lookup\<close>

record elf_env =
  env_open :: "string \<Rightarrow> elf option"
  env_open_fd :: "bytes \<Rightarrow> elf option"
  env_vdso :: vdso_env

definition dso__load_sym_table :: "elf_env \<Rightarrow> load_allocs \<Rightarrow> dso \<Rightarrow> (int \<times> dso) option" where
  "dso__load_sym_table env ok d =
     (if d_type d = UNKNOWN then Some (- 1, d)
      else if d_type d = PERF_MAP then Some (dso__load_sym_table_from_perf_map d, d)
      else if d_type d = EXEC \<or> d_type d = DYN then do {
        name \<leftarrow> d_name d;
        dso__load_sym_table_from_elf ok (env_open env name) d
      }
      else if d_type d = VDSO then dso__load_sym_table_from_vdso_image (env_vdso env) (env_open_fd env) (env_open env) ok d
      else Some (- 1, d))"

text \<open>The index of the symbol, \<open>Some None\<close> for null, and the object, which a first lookup loads.\<close>

definition dso_search :: "dso \<Rightarrow> u64 \<Rightarrow> int option option" where
  "dso_search d offset = search_le sym_start (block_get (d_syms d)) (d_syms_sz d) offset"

definition dso__find_sym :: "elf_env \<Rightarrow> load_allocs \<Rightarrow> dso \<Rightarrow> u64 \<Rightarrow> (int option \<times> dso) option" where
  "dso__find_sym env ok d offset = do {
     _ \<leftarrow> (if d_freed d then None else Some ());
     (err, d) \<leftarrow> (if d_syms d = [] then dso__load_sym_table env ok d else Some (0, d));
     if err \<noteq> 0 then Some (None, d)
     else do {
       r \<leftarrow> dso_search d offset;
       Some (r, d)
     }
   }"

definition syms__map_addr :: "elf_env \<Rightarrow> load_allocs \<Rightarrow> syms \<Rightarrow> u64 \<Rightarrow> (sym option \<times> syms) option" where
  "syms__map_addr env ok dsos addr = do {
     r \<leftarrow> syms__find_dso dsos addr;
     case r of
       None \<Rightarrow> Some (None, dsos)
     | Some (i, offset) \<Rightarrow> do {
         (s, d) \<leftarrow> dso__find_sym env ok (dsos ! i) offset;
         case s of
           None \<Rightarrow> Some (None, dsos[i := d])
         | Some k \<Rightarrow> do {
             sy \<leftarrow> block_get (d_syms d) k;
             Some (Some sy, dsos[i := d])
           }
       }
   }"

section \<open>Reading the mappings of a process\<close>

record map_scan =
  ms_ret :: int
  ms_map :: map_entry
  ms_perm :: string
  ms_buf :: string

definition PATH_MAX :: nat where "PATH_MAX = 4096"

fun load_file_loop :: "(string \<Rightarrow> elf option) \<Rightarrow> (nat \<Rightarrow> add_allocs) \<Rightarrow> nat \<Rightarrow> map_scan list \<Rightarrow> syms \<Rightarrow> syms option option" where
  "load_file_loop open_elf ok i [] dsos = Some (Some dsos)"
| "load_file_loop open_elf ok i (s # f) dsos =
     (if ms_ret s \<noteq> 8 then Some None
      else if PATH_MAX \<le> length (ms_buf s) then None
      else if \<not> (2 < length (ms_perm s) \<and> ms_perm s ! 2 = CHR ''x'') then load_file_loop open_elf ok (i + 1) f dsos
      else
        let name = dropWhile c_isspace (ms_buf s)
        in if \<not> is_file_backed name then load_file_loop open_elf ok (i + 1) f dsos
           else (case syms__add_dso open_elf (ok i) dsos (ms_map s) name of
               None \<Rightarrow> None
             | Some (err, dsos) \<Rightarrow> if err \<noteq> 0 then Some None else load_file_loop open_elf ok (i + 1) f dsos))"

definition syms__load_file :: "(string \<Rightarrow> elf option) \<Rightarrow> bool \<Rightarrow> (nat \<Rightarrow> add_allocs) \<Rightarrow> map_scan list option \<Rightarrow> syms option option" where
  "syms__load_file open_elf calloc_ok ok f =
     (case f of
        None \<Rightarrow> Some None
      | Some f \<Rightarrow> if \<not> calloc_ok then Some None else load_file_loop open_elf ok 0 f [])"

text \<open>\<open>files\<close> gives the content of a path.\<close>

definition syms__load_pid ::
    "(string \<Rightarrow> elf option) \<Rightarrow> bool \<Rightarrow> (nat \<Rightarrow> add_allocs) \<Rightarrow> (string \<Rightarrow> map_scan list option) \<Rightarrow> nat \<Rightarrow> syms option option" where
  "syms__load_pid open_elf calloc_ok ok files tgid =
     syms__load_file open_elf calloc_ok ok (files (''/proc/'' @ dec tgid @ ''/maps''))"

section \<open>The cache of symbol tables\<close>

text \<open>
  A cache is the list of its entries, the result of the load and the process; \<open>load\<close> is
  \<^verbatim>\<open>syms__load_pid\<close> at the time of the call, \<open>ok\<close> whether \<^verbatim>\<open>realloc\<close> succeeds.
\<close>

definition syms_cache__new :: "bool \<Rightarrow> int \<Rightarrow> ('s option \<times> int) list option" where
  "syms_cache__new ok nr = (if \<not> ok then None else Some [])"

fun cache_find :: "('s option \<times> int) list \<Rightarrow> int \<Rightarrow> 's option option" where
  "cache_find [] tgid = None"
| "cache_find (e # es) tgid = (if snd e = tgid then Some (fst e) else cache_find es tgid)"

definition syms_cache__get_syms ::
    "bool \<Rightarrow> (int \<Rightarrow> 's option option) \<Rightarrow> ('s option \<times> int) list \<Rightarrow> int \<Rightarrow> ('s option \<times> ('s option \<times> int) list) option" where
  "syms_cache__get_syms ok load cache tgid =
     (case cache_find cache tgid of
        Some s \<Rightarrow> Some (s, cache)
      | None \<Rightarrow>
          if \<not> ok then Some (None, cache)
          else do {
            s \<leftarrow> load tgid;
            Some (s, cache @ [(s, tgid)])
          })"

section \<open>What loading an object does\<close>

text \<open>
  The symbols of a file, as name, address and size, in the order of the file: those with a
  name and an address, from the symbol tables.
\<close>

type_synonym elf_entry = "string \<times> u64 \<times> u64"

definition sym_entry :: "elf \<Rightarrow> nat \<Rightarrow> elf_data \<Rightarrow> nat \<Rightarrow> elf_entry option" where
  "sym_entry e stridx data i = do {
     es \<leftarrow> d_getsym data (int i);
     name \<leftarrow> elf_strptr e stridx (st_name es);
     if name = [] \<or> st_value es = 0 then None else Some (name, st_value es, st_size es)
   }"

definition data_entries :: "elf \<Rightarrow> nat \<Rightarrow> nat \<Rightarrow> elf_data \<Rightarrow> elf_entry list" where
  "data_entries e stridx symsize data = List.map_filter (sym_entry e stridx data) [0..<d_size data div symsize]"

definition is_symtab :: "elf_shdr \<Rightarrow> bool" where
  "is_symtab h \<longleftrightarrow> sh_type h = SHT_SYMTAB \<or> sh_type h = SHT_DYNSYM"

definition scn_entries :: "elf \<Rightarrow> elf_scn \<Rightarrow> elf_entry list" where
  "scn_entries e scn = (case scn_shdr scn of
      Some h \<Rightarrow> if is_symtab h then concat (map (data_entries e (sh_link h) (sh_entsize h)) (scn_data scn)) else []
    | None \<Rightarrow> [])"

definition elf_entries :: "elf \<Rightarrow> elf_entry list" where
  "elf_entries e = concat (map (scn_entries e) (elf_scns e))"

text \<open>Whole entries in every symbol table, and names that are C strings.\<close>

definition data_ok :: "nat \<Rightarrow> elf_data \<Rightarrow> bool" where
  "data_ok symsize data \<longleftrightarrow> d_size data mod symsize = 0 \<and> d_size data div symsize < 2 ^ 31"

definition elf_ok :: "elf \<Rightarrow> bool" where
  "elf_ok e \<longleftrightarrow> (\<forall>j k n. elf_strptr e j k = Some n \<longrightarrow> c_string n) \<and>
     (\<forall>scn \<in> set (elf_scns e). \<forall>h. scn_shdr scn = Some h \<longrightarrow> is_symtab h \<longrightarrow>
        sh_entsize h \<noteq> 0 \<and> (\<forall>data \<in> set (scn_data scn). data_ok (sh_entsize h) data))"

definition weight :: "elf_entry list \<Rightarrow> nat" where
  "weight xs = sum_list (map (\<lambda>x. length (fst x) + 1) xs)"

definition sym_holds :: "btf \<Rightarrow> elf_entry \<Rightarrow> sym \<Rightarrow> bool" where
  "sym_holds b x s \<longleftrightarrow> (\<exists>k. s = \<lparr>sym_name = Offset (int k), sym_start = fst (snd x), sym_size = snd (snd x)\<rparr> \<and>
     btf_knows b k (fst x) \<and> k < 2 ^ 31)"

definition building :: "dso \<Rightarrow> elf_entry list \<Rightarrow> bool" where
  "building d xs \<longleftrightarrow> \<not> d_freed d \<and> d_syms_sz d = int (length xs) \<and> d_syms_cap d = int (length (d_syms d)) \<and>
     d_syms_cap d < 2 ^ 31 \<and>
     (\<exists>b ss. d_btf d = Some b \<and> btf_ok b \<and> hdr_str_len b \<le> 1 + weight xs \<and> holds (d_syms d) ss \<and> list_all2 (sym_holds b) xs ss)"

definition same_id :: "dso \<Rightarrow> dso \<Rightarrow> bool" where
  "same_id d d' \<longleftrightarrow> d_name d' = d_name d \<and> d_ranges d' = d_ranges d \<and> d_type d' = d_type d \<and>
     d_sh_addr d' = d_sh_addr d \<and> d_sh_offset d' = d_sh_offset d"

text \<open>
  \<open>grows fail d xs ys r\<close>: the step \<open>r\<close> from \<open>d\<close>, which has the symbols \<open>xs\<close>, adds \<open>ys\<close>, or stops
  because an allocation fails (\<open>fail\<close>) or the strings do not fit.
\<close>

definition grows :: "bool \<Rightarrow> dso \<Rightarrow> elf_entry list \<Rightarrow> elf_entry list \<Rightarrow> (int \<times> dso) option \<Rightarrow> bool" where
  "grows fail d xs ys r \<longleftrightarrow> (\<exists>err d'. r = Some (err, d') \<and> same_id d d' \<and>
     (if err = 0 then building d' (xs @ ys) else fail \<or> BTF_MAX_STR_OFFSET < 1 + weight (xs @ ys)))"

lemma weight_simps [simp]: "weight [] = 0" "weight (x # xs) = length (fst x) + 1 + weight xs" "weight (xs @ ys) = weight xs + weight ys"
  by (simp_all add: weight_def)

lemma same_id_refl [simp]: "same_id d d"
  by (simp add: same_id_def)

lemma same_id_trans: "same_id d d' \<Longrightarrow> same_id d' d'' \<Longrightarrow> same_id d d''"
  by (simp add: same_id_def)

lemma grows_nil: "building d xs \<Longrightarrow> grows fail d xs [] (Some (0, d))"
  by (simp add: grows_def)

lemma grows_then:
  assumes "grows fail d xs ys r" and "\<And>d'. building d' (xs @ ys) \<Longrightarrow> grows fail d' (xs @ ys) zs (f d')"
  shows "grows fail d xs (ys @ zs) (case r of None \<Rightarrow> None | Some (err, d) \<Rightarrow> if err \<noteq> 0 then Some (- 1, d) else f d)"
proof -
  obtain err d' where r: "r = Some (err, d')" "same_id d d'"
    "if err = 0 then building d' (xs @ ys) else fail \<or> BTF_MAX_STR_OFFSET < 1 + weight (xs @ ys)"
    using assms(1) by (auto simp: grows_def)
  show ?thesis
  proof (cases "err = 0")
    case True
    then show ?thesis using assms(2) [of d'] r same_id_trans by (fastforce simp: grows_def)
  next
    case False
    then show ?thesis using r by (auto simp: grows_def)
  qed
qed

lemma sym_holds_mono: "sym_holds b x s \<Longrightarrow> (\<And>k t. btf_knows b k t \<Longrightarrow> btf_knows b' k t) \<Longrightarrow> sym_holds b' x s"
  by (auto simp: sym_holds_def)

lemma btf_knows_small: "btf_ok b \<Longrightarrow> btf_knows b k s \<Longrightarrow> k < 2 ^ 31"
  using known_less by (fastforce simp: btf_ok_def btf_knows_def split: sum.splits)

lemma dso__add_sym_grows:
  assumes b: "building d xs" and n: "c_string n" and l: "length xs < 2 ^ 29"
  shows "grows (\<not> ((\<forall>i. fst ok i) \<and> snd ok)) d xs [(n, a, z)] (dso__add_sym ok d n a z)"
proof -
  obtain bt ss where bt: "d_btf d = Some bt" "btf_ok bt" "hdr_str_len bt \<le> 1 + weight xs" "holds (d_syms d) ss" "list_all2 (sym_holds bt) xs ss"
    and f: "\<not> d_freed d" "d_syms_sz d = int (length xs)" "d_syms_cap d = int (length (d_syms d))" "d_syms_cap d < 2 ^ 31"
    using b by (auto simp: building_def)
  obtain off bt' where a: "btf__add_str (fst ok) bt n = Some (off, bt')" "btf_ok bt'" "\<forall>k t. btf_knows bt k t \<longrightarrow> btf_knows bt' k t"
    "hdr_str_len bt' \<le> hdr_str_len bt + length n + 1"
    "if off < 0 then \<not> (\<forall>i. fst ok i) \<or> BTF_MAX_STR_OFFSET < hdr_str_len bt + length n + 1 else btf_knows bt' (nat off) n"
    using btf_store.add_room [OF bt(2) n, of "fst ok"] by (elim exE conjE) (rule that)
  show ?thesis
  proof (cases "off < 0")
    case True
    then have "dso__add_sym ok d n a z = Some (off, d\<lparr>d_btf := Some bt'\<rparr>)" using bt(1) a(1) by (simp add: dso__add_sym_def)
    moreover have "(\<not> (\<forall>i. fst ok i)) \<or> BTF_MAX_STR_OFFSET < 1 + weight (xs @ [(n, a, z)])" using a(5) True bt(3) by auto
    ultimately show ?thesis using True by (auto simp: grows_def same_id_def)
  next
    case False
    have kn: "btf_knows bt' (nat off) n" using a(5) False by simp
    have len: "length ss = length xs" using bt(5) by (simp add: list_all2_lengthD)
    obtain r where r: "vec_reserve (snd ok) (d_syms d) (d_syms_sz d) (d_syms_cap d) = Some r" "r = None \<longrightarrow> \<not> snd ok"
      "\<forall>b' cap'. r = Some (b', cap') \<longrightarrow> holds b' ss \<and> cap' = int (length b') \<and> d_syms_sz d < cap' \<and> cap' < 2 ^ 31"
      using vec_reserve_ok [OF bt(4), of "d_syms_sz d" "d_syms_cap d" "snd ok"] f len l by auto
    show ?thesis
    proof (cases r)
      case None
      then have "dso__add_sym ok d n a z = Some (- 1, d\<lparr>d_btf := Some bt'\<rparr>)" using bt(1) a(1) False r by (simp add: dso__add_sym_def)
      then show ?thesis using None r(2) by (auto simp: grows_def same_id_def)
    next
      case (Some bc)
      obtain blk cp where bc: "r = Some (blk, cp)" using Some by (cases bc) auto
      then have h: "holds blk ss" "cp = int (length blk)" "int (length ss) < cp" "cp < 2 ^ 31" using r(3) f(2) len by auto
      let ?s = "\<lparr>sym_name = Offset off, sym_start = a, sym_size = z\<rparr>"
      obtain blk' where p: "block_put blk (int (length ss)) ?s = Some blk'" "holds blk' (ss @ [?s])" "length blk' = length blk"
        using holds_put [OF h(1), of ?s] h(2,3) by auto
      let ?d' = "d\<lparr>d_btf := Some bt', d_syms := blk', d_syms_cap := cp, d_syms_sz := d_syms_sz d + 1\<rparr>"
      have add: "dso__add_sym ok d n a z = Some (0, ?d')"
        using bt(1) a(1) False r(1) bc p(1) f(2) len by (simp add: dso__add_sym_def)
      have s: "sym_holds bt' (n, a, z) ?s" using kn btf_knows_small [OF a(2) kn] False
        by (auto simp: sym_holds_def intro!: exI [of _ "nat off"])
      have m: "list_all2 (sym_holds bt') xs ss" using list_all2_mono [OF bt(5)] sym_holds_mono a(3) by blast
      have "list_all2 (sym_holds bt') (xs @ [(n, a, z)]) (ss @ [?s])" using m s by (simp add: list_all2_appendI)
      moreover have "hdr_str_len bt' \<le> 1 + weight (xs @ [(n, a, z)])" using a(4) bt(3) by simp
      ultimately have "building ?d' (xs @ [(n, a, z)])"
        unfolding building_def using a(2) p(2,3) h(2,4) f by (intro conjI exI [of _ bt'] exI [of _ "ss @ [?s]"]) simp_all
      then show ?thesis using add by (auto simp: grows_def same_id_def)
    qed
  qed
qed

lemma grows_mono: "grows fail d xs ys r \<Longrightarrow> (fail \<Longrightarrow> fail') \<Longrightarrow> grows fail' d xs ys r"
  unfolding grows_def by (elim exE conjE) (auto split: if_splits)

definition allocs_fail :: "load_allocs \<Rightarrow> bool" where
  "allocs_fail ok \<longleftrightarrow> (\<exists>j k i. \<not> ((\<forall>n. fst (ok j k i) n) \<and> snd (ok j k i)))"

lemma map_filter_Cons: "List.map_filter f (x # xs) = (case f x of None \<Rightarrow> List.map_filter f xs | Some y \<Rightarrow> y # List.map_filter f xs)"
  by (simp add: List.map_filter_def split: option.splits)

lemma add_syms_loop_grows:
  assumes "\<forall>j k n. elf_strptr e j k = Some n \<longrightarrow> c_string n" and "building d xs" and "i + n < 2 ^ 31"
    and "length (xs @ List.map_filter (sym_entry e stridx data) [i..<i + n]) \<le> 2 ^ 29"
  shows "grows (allocs_fail ok) d xs (List.map_filter (sym_entry e stridx data) [i..<i + n])
    (add_syms_loop (ok j k) e stridx data i n d)"
  using assms(2-4)
proof (induction n arbitrary: i d xs)
  case 0
  then show ?case by (simp add: grows_nil List.map_filter_def)
next
  case (Suc n)
  let ?rest = "List.map_filter (sym_entry e stridx data) [i + 1..<i + 1 + n]"
  have up: "[i..<i + Suc n] = i # [i + 1..<i + 1 + n]" by (simp add: upt_rec)
  have ti: "to_int (int i) = int i" using Suc.prems(2) by (intro to_int_small) simp
  show ?case
  proof (cases "sym_entry e stridx data i")
    case None
    then have l: "List.map_filter (sym_entry e stridx data) [i..<i + Suc n] = ?rest" unfolding up map_filter_Cons by simp
    have "add_syms_loop (ok j k) e stridx data i (Suc n) d = add_syms_loop (ok j k) e stridx data (i + 1) n d"
      using None ti by (auto simp: sym_entry_def bind_eq_None_conv split: option.splits if_splits)
    then show ?thesis unfolding l using Suc.IH [OF Suc.prems(1), of "i + 1"] Suc.prems(2,3) l by simp
  next
    case (Some x)
    then obtain es where es: "d_getsym data (int i) = Some es" "elf_strptr e stridx (st_name es) = Some (fst x)" "fst x \<noteq> []"
      "st_value es \<noteq> 0" "x = (fst x, st_value es, st_size es)"
      by (auto simp: sym_entry_def bind_eq_Some_conv split: if_splits)
    have l: "List.map_filter (sym_entry e stridx data) [i..<i + Suc n] = [x] @ ?rest" using Some unfolding up map_filter_Cons by simp
    have cs: "c_string (fst x)" using assms(1) es(2) by blast
    have len: "length xs < 2 ^ 29" using Suc.prems(3) l by simp
    have "grows (allocs_fail ok) d xs [x] (dso__add_sym (ok j k i) d (fst x) (st_value es) (st_size es))"
      using dso__add_sym_grows [OF Suc.prems(1) cs len, of "ok j k i" "st_value es" "st_size es"] es(5)
      by (auto elim!: grows_mono simp: allocs_fail_def)
    moreover have "grows (allocs_fail ok) d' (xs @ [x]) ?rest (add_syms_loop (ok j k) e stridx data (i + 1) n d')"
      if "building d' (xs @ [x])" for d'
      using Suc.IH [OF that, of "i + 1"] Suc.prems(2,3) l by simp
    ultimately have "grows (allocs_fail ok) d xs ([x] @ ?rest)
        (case dso__add_sym (ok j k i) d (fst x) (st_value es) (st_size es) of None \<Rightarrow> None
         | Some (err, d) \<Rightarrow> if err \<noteq> 0 then Some (- 1, d) else add_syms_loop (ok j k) e stridx data (i + 1) n d)"
      by (rule grows_then)
    then show ?thesis unfolding l using es ti by simp
  qed
qed

lemma dso__add_syms_grows:
  assumes "\<forall>j k n. elf_strptr e j k = Some n \<longrightarrow> c_string n" and "symsize \<noteq> 0" and "\<forall>data \<in> set ds. data_ok symsize data"
    and "building d xs" and "length (xs @ concat (map (data_entries e stridx symsize) ds)) \<le> 2 ^ 29"
  shows "grows (allocs_fail ok) d xs (concat (map (data_entries e stridx symsize) ds)) (dso__add_syms (ok j) e stridx symsize k ds d)"
  using assms(3-5)
proof (induction ds arbitrary: k d xs)
  case Nil
  then show ?case by (simp add: grows_nil)
next
  case (Cons data ds)
  have ok: "d_size data mod symsize = 0" "d_size data div symsize < 2 ^ 31" using Cons.prems(1) by (simp_all add: data_ok_def)
  have "grows (allocs_fail ok) d xs (data_entries e stridx symsize data)
      (add_syms_loop (ok j k) e stridx data 0 (d_size data div symsize) d)"
    using add_syms_loop_grows [OF assms(1) Cons.prems(2), of 0 "d_size data div symsize" stridx data ok j k] ok(2) Cons.prems(3)
    by (simp add: data_entries_def)
  moreover have "grows (allocs_fail ok) d' (xs @ data_entries e stridx symsize data) (concat (map (data_entries e stridx symsize) ds))
      (dso__add_syms (ok j) e stridx symsize (k + 1) ds d')" if "building d' (xs @ data_entries e stridx symsize data)" for d'
    using Cons.IH [OF _ that] Cons.prems(1,3) by simp
  ultimately show ?case using grows_then [of "allocs_fail ok" d xs "data_entries e stridx symsize data"
      "add_syms_loop (ok j k) e stridx data 0 (d_size data div symsize) d" _ "dso__add_syms (ok j) e stridx symsize (k + 1) ds"]
    assms(2) ok(1) by simp
qed

lemma load_sections_grows:
  assumes "\<forall>j k n. elf_strptr e j k = Some n \<longrightarrow> c_string n"
    and "\<forall>scn \<in> set scns. \<forall>h. scn_shdr scn = Some h \<longrightarrow> is_symtab h \<longrightarrow> sh_entsize h \<noteq> 0 \<and> (\<forall>data \<in> set (scn_data scn). data_ok (sh_entsize h) data)"
    and "building d xs" and "length (xs @ concat (map (scn_entries e) scns)) \<le> 2 ^ 29"
  shows "grows (allocs_fail ok) d xs (concat (map (scn_entries e) scns)) (load_sections ok e j scns d)"
  using assms(2-4)
proof (induction scns arbitrary: j d xs)
  case Nil
  then show ?case by (simp add: grows_nil)
next
  case (Cons scn scns)
  have IH: "grows (allocs_fail ok) d' ys (concat (map (scn_entries e) scns)) (load_sections ok e (j + 1) scns d')"
    if "building d' ys" "length (ys @ concat (map (scn_entries e) scns)) \<le> 2 ^ 29" for d' ys
    using Cons.IH [OF _ that] Cons.prems(1) by simp
  show ?case
  proof (cases "\<exists>h. scn_shdr scn = Some h \<and> is_symtab h")
    case False
    then have "scn_entries e scn = []" by (auto simp: scn_entries_def split: option.splits)
    moreover have "load_sections ok e j (scn # scns) d = load_sections ok e (j + 1) scns d"
      using False by (auto simp: is_symtab_def split: option.splits)
    ultimately show ?thesis using IH Cons.prems(2,3) by simp
  next
    case True
    then obtain h where h: "scn_shdr scn = Some h" "is_symtab h" by blast
    let ?ys = "scn_entries e scn"
    have ys: "?ys = concat (map (data_entries e (sh_link h) (sh_entsize h)) (scn_data scn))" using h by (simp add: scn_entries_def)
    have "grows (allocs_fail ok) d xs ?ys (dso__add_syms (ok j) e (sh_link h) (sh_entsize h) 0 (scn_data scn) d)"
      unfolding ys by (rule dso__add_syms_grows [OF assms(1) _ _ Cons.prems(2)])
        (use Cons.prems(1,3) h ys in auto)
    from grows_then [OF this, where f = "load_sections ok e (j + 1) scns", OF IH]
    show ?thesis using Cons.prems(3) h by (simp add: is_symtab_def) metis
  qed
qed

section \<open>The finished table\<close>

definition entry_sym :: "elf_entry \<Rightarrow> sym" where
  "entry_sym x = \<lparr>sym_name = Name (Some (fst x)), sym_start = fst (snd x), sym_size = snd (snd x)\<rparr>"

definition elf_table :: "elf \<Rightarrow> sym list" where
  "elf_table e = qsort sym_cmp (map entry_sym (elf_entries e))"

definition dso_table :: "sym list \<Rightarrow> dso \<Rightarrow> bool" where
  "dso_table xs d \<longleftrightarrow> holds (d_syms d) xs \<and> d_syms_sz d = int (length xs) \<and> sorted (map sym_start xs)"

lemma sym_cmp_le: "sym_cmp x y \<le> 0 \<longleftrightarrow> sym_start x < sym_start y \<or> sym_start x = sym_start y \<and> sym_string x \<le> sym_string y"
  by (auto simp: sym_cmp_def strcmp_le)

interpretation sym_order: cmp_order sym_cmp
  by unfold_locales (auto simp: sym_cmp_le)

interpretation dso_addr: addr_table dso_table sym_start "\<lambda>d. block_get (d_syms d)" dso_search
  by unfold_locales (auto simp: dso_table_def dso_search_def holds_reads)

lemma elf_table_sorted: "sorted (map sym_start (elf_table e))"
  using sym_order.qsort_ordered [of "map entry_sym (elf_entries e)"]
  by (auto simp: elf_table_def sorted_wrt_map sym_cmp_le elim!: sorted_wrt_mono_rel [rotated])

lemma dso_adjust_names_ok:
  assumes "holds blk ss" and "list_all2 (sym_holds b) xs ss" and "btf_ok b" and "i + n = length ss"
  shows "dso_adjust_names b blk i n = Some (map entry_sym (drop i xs))"
  using assms(4)
proof (induction n arbitrary: i)
  case 0
  then show ?case using assms(2) by (simp add: list_all2_lengthD)
next
  case (Suc n)
  have l: "length xs = length ss" "i < length ss" using assms(2) Suc.prems by (simp_all add: list_all2_lengthD)
  have g: "block_get blk (int i) = Some (ss ! i)" by (rule holds_get [OF assms(1) l(2)])
  obtain k where k: "ss ! i = \<lparr>sym_name = Offset (int k), sym_start = fst (snd (xs ! i)), sym_size = snd (snd (xs ! i))\<rparr>"
    "btf_knows b k (fst (xs ! i))" "k < 2 ^ 31"
    using list_all2_nthD [OF assms(2), of i] l by (auto simp: sym_holds_def)
  have "nat (int k mod 2 ^ 32) = k" using k(3) by simp
  then have "btf__name_by_offset b (nat (int k mod 2 ^ 32)) = Some (Some (fst (xs ! i)))"
    using btf_store.knows_name [OF assms(3) k(2)] by simp
  moreover have "drop i xs = xs ! i # drop (i + 1) xs" using l by (simp add: Cons_nth_drop_Suc)
  ultimately show ?case using Suc.IH [of "i + 1"] Suc.prems g k(1) by (simp add: entry_sym_def)
qed

definition elf_fits :: "elf \<Rightarrow> bool" where
  "elf_fits e \<longleftrightarrow> elf_ok e \<and> length (elf_entries e) \<le> 2 ^ 29 \<and> 1 + weight (elf_entries e) \<le> BTF_MAX_STR_OFFSET"

lemma load_elf_ok:
  assumes b: "building d []" and e: "elf_fits e"
  obtains (fail) d' where "dso__load_sym_table_from_elf ok (Some e) d = Some (- 1, d')" "d_freed d'" "allocs_fail ok"
  | (loaded) d' where "dso__load_sym_table_from_elf ok (Some e) d = Some (0, d')" "same_id d d'" "\<not> d_freed d'" "dso_table (elf_table e) d'"
      "elf_entries e = [] \<Longrightarrow> building d' []"
proof -
  have ok: "\<forall>j k n. elf_strptr e j k = Some n \<longrightarrow> c_string n" "\<forall>scn \<in> set (elf_scns e). \<forall>h. scn_shdr scn = Some h \<longrightarrow>
      is_symtab h \<longrightarrow> sh_entsize h \<noteq> 0 \<and> (\<forall>data \<in> set (scn_data scn). data_ok (sh_entsize h) data)"
    using e unfolding elf_fits_def elf_ok_def by blast+
  have "grows (allocs_fail ok) d [] (elf_entries e) (load_sections ok e 0 (elf_scns e) d)"
    unfolding elf_entries_def by (rule load_sections_grows [OF ok b]) (use e in \<open>simp add: elf_fits_def elf_entries_def\<close>)
  then obtain err d1 where r: "load_sections ok e 0 (elf_scns e) d = Some (err, d1)" "same_id d d1"
    "if err = 0 then building d1 (elf_entries e) else allocs_fail ok \<or> BTF_MAX_STR_OFFSET < 1 + weight (elf_entries e)"
    unfolding grows_def append_Nil by (elim exE conjE) (rule that)
  show ?thesis
  proof (cases "err = 0")
    case False
    then have "allocs_fail ok" using r(3) e by (auto simp: elf_fits_def)
    then show ?thesis using fail [of "dso__free_fields d1"] r(1) False
      by (simp add: dso__load_sym_table_from_elf_def dso__free_fields_def)
  next
    case True
    have bd: "building d1 (elf_entries e)" using r(3) True by simp
    then obtain bt ss where bt: "d_btf d1 = Some bt" "btf_ok bt" "holds (d_syms d1) ss" "list_all2 (sym_holds bt) (elf_entries e) ss"
      and f: "\<not> d_freed d1" "d_syms_sz d1 = int (length (elf_entries e))"
      by (auto simp: building_def)
    have len: "length ss = length (elf_entries e)" using bt(4) by (simp add: list_all2_lengthD)
    let ?xs = "map entry_sym (elf_entries e)"
    have adj: "(if d_syms_sz d1 = 0 then Some [] else do {
              b \<leftarrow> d_btf d1; dso_adjust_names b (d_syms d1) 0 (nat (d_syms_sz d1)) }) = Some ?xs"
      using dso_adjust_names_ok [OF bt(3,4,2), of 0 "length ss"] len f(2) bt(1) by simp
    let ?d' = "d1\<lparr>d_syms := map Some (elf_table e) @ drop (length ?xs) (d_syms d1)\<rparr>"
    have load: "dso__load_sym_table_from_elf ok (Some e) d = Some (0, ?d')"
      using r(1) True adj by (auto simp: dso__load_sym_table_from_elf_def elf_table_def entry_sym_def)
    have "length (elf_table e) = length (elf_entries e)" by (simp add: elf_table_def)
    then have "dso_table (elf_table e) ?d'" using f(2) elf_table_sorted by (auto simp: dso_table_def holds_split)
    moreover have "building ?d' []" if "elf_entries e = []" using bd that by (simp add: building_def elf_table_def qsort_def)
    ultimately show ?thesis using loaded [OF load] r(2) f(1) by (simp add: same_id_def)
  qed
qed

section \<open>Lookups over the objects of a process\<close>

text \<open>The file from which the symbols of an object come.\<close>

definition dso_elf :: "elf_env \<Rightarrow> dso \<Rightarrow> elf option" where
  "dso_elf env d = (case d_type d of
      EXEC \<Rightarrow> env_open env (the (d_name d))
    | DYN \<Rightarrow> env_open env (the (d_name d))
    | VDSO \<Rightarrow> (case create_tmp_vdso_image (env_vdso env) of
          Some (fd, im) \<Rightarrow> if fd < 0 then None else if fd > 0 then env_open_fd env im else env_open env (the (d_name d))
        | None \<Rightarrow> None)
    | _ \<Rightarrow> None)"

definition env_ok :: "elf_env \<Rightarrow> bool" where
  "env_ok env \<longleftrightarrow> create_tmp_vdso_image (env_vdso env) \<noteq> None \<and> (\<forall>n e. env_open env n = Some e \<longrightarrow> elf_fits e) \<and>
     (\<forall>im e. env_open_fd env im = Some e \<longrightarrow> elf_fits e)"

text \<open>
  The invariant of an object: its symbols are not loaded yet, or they are exactly those of its
  file, in order.
\<close>

definition dso_inv :: "elf_env \<Rightarrow> dso \<Rightarrow> bool" where
  "dso_inv env d \<longleftrightarrow> \<not> d_freed d \<and> d_name d \<noteq> None \<and>
     (d_syms d = [] \<and> building d [] \<or> d_syms d \<noteq> [] \<and> (\<exists>e. dso_elf env d = Some e \<and> dso_table (elf_table e) d))"

definition syms_inv :: "elf_env \<Rightarrow> syms \<Rightarrow> bool" where
  "syms_inv env dsos \<longleftrightarrow> (\<forall>d \<in> set dsos. dso_inv env d)"

lemma dso_elf_same: "same_id d d' \<Longrightarrow> dso_elf env d' = dso_elf env d"
  by (cases d, cases d') (simp add: same_id_def dso_elf_def split: elf_type.splits option.splits)

lemma dso_elf_fits: "env_ok env \<Longrightarrow> dso_elf env d = Some e \<Longrightarrow> elf_fits e"
  by (auto simp: env_ok_def dso_elf_def split: elf_type.splits option.splits if_splits)

text \<open>\<^verbatim>\<open>dso__load_sym_table\<close> loads that file.\<close>

lemma load_sym_table_elf:
  assumes "env_ok env" and "d_name d \<noteq> None"
  shows "dso__load_sym_table env ok d = (case dso_elf env d of None \<Rightarrow> Some (- 1, d) | Some e \<Rightarrow> dso__load_sym_table_from_elf ok (Some e) d)"
proof -
  have n: "dso__load_sym_table_from_elf ok f d = (case f of None \<Rightarrow> Some (- 1, d) | Some e \<Rightarrow> dso__load_sym_table_from_elf ok (Some e) d)" for f
    by (cases f) (simp_all add: dso__load_sym_table_from_elf_def)
  obtain nm where nm: "d_name d = Some nm" using assms(2) by blast
  obtain fd im where v: "create_tmp_vdso_image (env_vdso env) = Some (fd, im)" using assms(1) by (auto simp: env_ok_def)
  show ?thesis
    using n [of "env_open env nm"] n [of "env_open_fd env im"] nm v
    by (cases "d_type d")
      (auto simp: dso__load_sym_table_def dso_elf_def dso__load_sym_table_from_perf_map_def dso__load_sym_table_from_vdso_image_def)
qed

text \<open>The index \<open>r\<close> stands for the symbol \<open>v\<close> of the table.\<close>

definition sym_result :: "dso \<Rightarrow> int option \<Rightarrow> sym option \<Rightarrow> bool" where
  "sym_result d r v \<longleftrightarrow> (r = None \<longleftrightarrow> v = None) \<and> (\<forall>k. r = Some k \<longrightarrow> block_get (d_syms d) k = v)"

lemma dso_search_table:
  assumes "dso_table (elf_table e) d"
  shows "\<exists>r. dso_search d offset = Some r \<and>
    sym_result d r (last_le sym_start (elf_table e) offset)"
proof -
  have rd: "reads (block_get (d_syms d)) (elf_table e)" and sz: "d_syms_sz d = int (length (elf_table e))"
    and so: "sorted (map sym_start (elf_table e))"
    using assms by (simp_all add: dso_table_def holds_reads)
  obtain r where r: "dso_search d offset = Some r" "map_option (\<lambda>i. elf_table e ! nat i) r = last_le sym_start (elf_table e) offset"
    "\<forall>i. r = Some i \<longrightarrow> 0 \<le> i \<and> i < int (length (elf_table e))"
    using search_le_correct [OF rd so, of offset] sz by (auto simp: dso_search_def)
  then have "sym_result d r (last_le sym_start (elf_table e) offset)"
    using reads_nat [OF rd] unfolding r(2) [symmetric] by (cases r) (auto simp: sym_result_def)
  then show ?thesis using r(1) by blast
qed

lemma dso__find_sym_ok:
  assumes env: "env_ok env" and d: "dso_inv env d" and al: "\<not> allocs_fail ok"
  shows "\<exists>r d'. dso__find_sym env ok d offset = Some (r, d') \<and> dso_inv env d' \<and> same_id d d' \<and>
    sym_result d' r (Option.bind (dso_elf env d) (\<lambda>e. last_le sym_start (elf_table e) offset))"
proof -
  have f: "\<not> d_freed d" and nm: "d_name d \<noteq> None" using d by (simp_all add: dso_inv_def)
  show ?thesis
  proof (cases "d_syms d = []")
    case False
    then obtain e where e: "dso_elf env d = Some e" "dso_table (elf_table e) d" using d by (auto simp: dso_inv_def)
    obtain r where r: "dso_search d offset = Some r" "sym_result d r (last_le sym_start (elf_table e) offset)"
      using dso_search_table [OF e(2)] by blast
    then show ?thesis using False f d e(1) by (intro exI [of _ r] exI [of _ d]) (simp add: dso__find_sym_def)
  next
    case True
    then have b: "building d []" using d by (simp add: dso_inv_def)
    show ?thesis
    proof (cases "dso_elf env d")
      case None
      then show ?thesis using True f d load_sym_table_elf [OF env nm]
        by (intro exI [of _ None] exI [of _ d]) (simp add: dso__find_sym_def sym_result_def)
    next
      case (Some e)
      show ?thesis
      proof (rule load_elf_ok [OF b dso_elf_fits [OF env Some], of ok])
        fix d' assume "allocs_fail ok"
        then show ?thesis using al by simp
      next
        fix d' assume l: "dso__load_sym_table_from_elf ok (Some e) d = Some (0, d')" "same_id d d'" "\<not> d_freed d'"
          "dso_table (elf_table e) d'" "elf_entries e = [] \<Longrightarrow> building d' []"
        have "elf_entries e = []" if "d_syms d' = []"
          using l(4) that by (simp add: dso_table_def holds_def elf_table_def)
        then have i: "dso_inv env d'"
          using l nm Some dso_elf_same [OF l(2)] by (cases "d_syms d' = []") (auto simp: dso_inv_def same_id_def)
        obtain r where r: "dso_search d' offset = Some r" "sym_result d' r (last_le sym_start (elf_table e) offset)"
          using dso_search_table [OF l(4)] by blast
        then show ?thesis using True f i l(1,2) Some load_sym_table_elf [OF env nm, of ok]
          by (intro exI [of _ r] exI [of _ d']) (simp add: dso__find_sym_def)
      qed
    qed
  qed
qed

text \<open>\<^verbatim>\<open>syms__find_dso\<close> never meets a released object, and what it returns depends on the mappings only.\<close>

lemma find_range_same: "same_id d d' \<Longrightarrow> find_range d' rs addr = find_range d rs addr"
  by (induction rs) (auto simp: same_id_def)

lemma find_dso_loop_ok:
  assumes "\<forall>d \<in> set ds. \<not> d_freed d"
  shows "\<exists>r. find_dso_loop i ds addr = Some r \<and> (case r of
      None \<Rightarrow> \<forall>d \<in> set ds. find_range d (d_ranges d) addr = None
    | Some (j, offset) \<Rightarrow> i \<le> j \<and> j < i + length ds \<and> find_range (ds ! (j - i)) (d_ranges (ds ! (j - i))) addr = Some offset \<and>
        (\<forall>k < j - i. find_range (ds ! k) (d_ranges (ds ! k)) addr = None))"
  using assms
proof (induction ds arbitrary: i)
  case (Cons d ds)
  show ?case
  proof (cases "find_range d (d_ranges d) addr")
    case (Some offset)
    then show ?thesis using Cons.prems by simp
  next
    case None
    obtain r where r: "find_dso_loop (i + 1) ds addr = Some r" "case r of
        None \<Rightarrow> \<forall>d \<in> set ds. find_range d (d_ranges d) addr = None
      | Some (j, offset) \<Rightarrow> i + 1 \<le> j \<and> j < i + 1 + length ds \<and>
          find_range (ds ! (j - (i + 1))) (d_ranges (ds ! (j - (i + 1)))) addr = Some offset \<and>
          (\<forall>k < j - (i + 1). find_range (ds ! k) (d_ranges (ds ! k)) addr = None)"
      using Cons.IH [of "i + 1"] Cons.prems by auto
    show ?thesis
    proof (cases r)
      case N: None
      then show ?thesis using r None Cons.prems by simp
    next
      case (Some jo)
      obtain j offset where jo: "jo = (j, offset)" by (cases jo)
      have j: "i + 1 \<le> j" "j < i + 1 + length ds" "find_range (ds ! (j - (i + 1))) (d_ranges (ds ! (j - (i + 1)))) addr = Some offset"
        "\<forall>k < j - (i + 1). find_range (ds ! k) (d_ranges (ds ! k)) addr = None"
        using r(2) Some jo by simp_all
      have s: "j - i = Suc (j - (i + 1))" using j(1) by simp
      have "find_range ((d # ds) ! k) (d_ranges ((d # ds) ! k)) addr = None" if "k < j - i" for k
        using that j(4) None s by (cases k) auto
      then show ?thesis using r(1) Some jo None Cons.prems j s by simp
    qed
  qed
qed simp

text \<open>The specification of a lookup: the first mapping that has the address, the nearest symbol in its file.\<close>

definition map_addr_spec :: "elf_env \<Rightarrow> syms \<Rightarrow> u64 \<Rightarrow> sym option" where
  "map_addr_spec env dsos addr =
     (case find (\<lambda>d. find_range d (d_ranges d) addr \<noteq> None) dsos of
        None \<Rightarrow> None
      | Some d \<Rightarrow> do {
          offset \<leftarrow> find_range d (d_ranges d) addr;
          e \<leftarrow> dso_elf env d;
          last_le sym_start (elf_table e) offset
        })"

lemma find_nth:
  "j < length ds \<Longrightarrow> P (ds ! j) \<Longrightarrow> \<forall>k < j. \<not> P (ds ! k) \<Longrightarrow> find P ds = Some (ds ! j)"
  by (auto simp: find_Some_iff)

lemma map_addr_spec_same:
  assumes "list_all2 same_id ds ds'"
  shows "map_addr_spec env ds' addr = map_addr_spec env ds addr"
  using assms
proof (induction ds ds' rule: list_all2_induct)
  case (Cons d ds d' ds')
  have "d_ranges d' = d_ranges d" using Cons(1) by (simp add: same_id_def)
  then show ?case using Cons find_range_same [OF Cons(1)] dso_elf_same [OF Cons(1)] by (simp add: map_addr_spec_def)
qed (simp add: map_addr_spec_def)

lemma list_all2_same_update: "i < length ds \<Longrightarrow> same_id (ds ! i) d \<Longrightarrow> list_all2 same_id ds (ds[i := d])"
  by (auto simp: list_all2_conv_all_nth nth_list_update)

section \<open>Properties\<close>

text \<open>
  C29. Looking an address up is a pure function of the mappings and the files: with the memory it
  needs, \<open>syms__map_addr\<close> returns the symbol of the specification, the one nearest below the
  address in the file of the first mapping that has the address.  Loading the symbols on the
  first lookup is not observable: the invariant is kept and every later lookup has the same
  specification.
\<close>

theorem syms__map_addr_refines:
  assumes "env_ok env" and "syms_inv env dsos" and "\<not> allocs_fail ok"
  shows "\<exists>dsos'. syms__map_addr env ok dsos addr = Some (map_addr_spec env dsos addr, dsos') \<and> syms_inv env dsos' \<and>
    (\<forall>a. map_addr_spec env dsos' a = map_addr_spec env dsos a)"
proof -
  have nf: "\<forall>d \<in> set dsos. \<not> d_freed d" using assms(2) by (simp add: syms_inv_def dso_inv_def)
  obtain r where r: "find_dso_loop 0 dsos addr = Some r" "case r of
      None \<Rightarrow> \<forall>d \<in> set dsos. find_range d (d_ranges d) addr = None
    | Some (j, offset) \<Rightarrow> 0 \<le> j \<and> j < 0 + length dsos \<and> find_range (dsos ! (j - 0)) (d_ranges (dsos ! (j - 0))) addr = Some offset \<and>
        (\<forall>k < j - 0. find_range (dsos ! k) (d_ranges (dsos ! k)) addr = None)"
    using find_dso_loop_ok [OF nf, of 0 addr] by blast
  show ?thesis
  proof (cases r)
    case None
    then have "find (\<lambda>d. find_range d (d_ranges d) addr \<noteq> None) dsos = None" using r(2) by (simp add: find_None_iff)
    then show ?thesis using r(1) None assms(2) by (simp add: syms__map_addr_def syms__find_dso_def map_addr_spec_def)
  next
    case (Some jo)
    obtain j offset where jo: "jo = (j, offset)" by (cases jo)
    have j: "j < length dsos" "find_range (dsos ! j) (d_ranges (dsos ! j)) addr = Some offset"
      "\<forall>k < j. find_range (dsos ! k) (d_ranges (dsos ! k)) addr = None"
      using r(2) Some jo by simp_all
    let ?d = "dsos ! j"
    have "find (\<lambda>d. find_range d (d_ranges d) addr \<noteq> None) dsos = Some ?d" by (rule find_nth) (use j in simp_all)
    then have spec: "map_addr_spec env dsos addr = Option.bind (dso_elf env ?d) (\<lambda>e. last_le sym_start (elf_table e) offset)"
      using j(2) by (simp add: map_addr_spec_def)
    have "dso_inv env ?d" using assms(2) j(1) by (simp add: syms_inv_def)
    then obtain k d' where k: "dso__find_sym env ok ?d offset = Some (k, d')" "dso_inv env d'" "same_id ?d d'"
      "sym_result d' k (map_addr_spec env dsos addr)"
      using dso__find_sym_ok [OF assms(1) _ assms(3)] spec by metis
    have "syms__map_addr env ok dsos addr = Some (map_addr_spec env dsos addr, dsos[j := d'])"
      using r(1) Some jo k(1,4) by (cases k) (auto simp: syms__map_addr_def syms__find_dso_def sym_result_def)
    moreover have "syms_inv env (dsos[j := d'])"
      using assms(2) k(2) set_update_subset_insert [of dsos j d'] by (auto simp: syms_inv_def)
    ultimately show ?thesis using map_addr_spec_same [OF list_all2_same_update [OF j(1) k(3)]] by blast
  qed
qed

definition demo_elf :: elf where
  "demo_elf = \<lparr>elf_e_type = Some ET_EXEC, elf_shstrndx = Some 0,
     elf_scns = [\<lparr>scn_shdr = Some \<lparr>sh_name = 0, sh_type = SHT_SYMTAB, sh_addr = 0, sh_offset = 0, sh_link = 1, sh_entsize = 24\<rparr>,
       scn_data = [\<lparr>d_size = 24, d_getsym = (\<lambda>_. Some \<lparr>st_name = 1, st_value = 0x1000, st_size = 16\<rparr>)\<rparr>]\<rparr>],
     elf_strptr = (\<lambda>_ _. Some ''main'')\<rparr>"

definition demo_env :: elf_env where
  "demo_env = \<lparr>env_open = (\<lambda>_. Some demo_elf), env_open_fd = (\<lambda>_. None),
     env_vdso = \<lparr>ve_maps = None, ve_malloc = True, ve_read = (\<lambda>_ _. None), ve_fd = 3, ve_write = True\<rparr>\<rparr>"

definition demo_dso :: dso where
  "demo_dso = (new_dso True (True, True) ''/bin/a'')\<lparr>d_ranges := [\<lparr>range_start = 0x800, range_end = 0x2000, range_file_off = 0\<rparr>]\<rparr>"

lemma demo_entries: "elf_entries demo_elf = [(''main'', 0x1000, 16)]"
  by (simp add: elf_entries_def demo_elf_def scn_entries_def is_symtab_def data_entries_def List.map_filter_def sym_entry_def)

lemma demo_elf_fits: "elf_fits demo_elf"
  unfolding elf_fits_def demo_entries
  by (auto simp: elf_ok_def demo_elf_def c_string_def is_cstr_def NUL_def data_ok_def BTF_MAX_STR_OFFSET_def)

lemma building_new:
  assumes "btf__new_empty bok = Some b"
  shows "building ((new_dso sok bok n)\<lparr>d_ranges := rs\<rparr>) []"
proof -
  have "hdr_str_len b = 1" using assms by (auto simp: btf__new_empty_def btf_new_empty_def split: if_splits)
  then show ?thesis using assms btf__new_empty_ok [OF assms] by (simp add: building_def new_dso_def)
qed

lemma demo_inv: "env_ok demo_env" "syms_inv demo_env [demo_dso]" "\<not> allocs_fail (\<lambda>_ _ _. (\<lambda>_. True, True))"
proof -
  have "btf__new_empty (True, True) \<noteq> None" by (simp add: btf__new_empty_def btf_new_empty_def)
  then have "building demo_dso []" using building_new unfolding demo_dso_def by blast
  then show "syms_inv demo_env [demo_dso]" by (simp add: syms_inv_def dso_inv_def demo_dso_def new_dso_def)
qed (auto simp: env_ok_def demo_env_def create_tmp_vdso_image_def demo_elf_fits allocs_fail_def)

theorem syms__map_addr_refines_witness:
  "\<exists>dsos'. syms__map_addr demo_env (\<lambda>_ _ _. (\<lambda>_. True, True)) [demo_dso] 0x1004 =
     Some (Some \<lparr>sym_name = Name (Some ''main''), sym_start = 0x1000, sym_size = 16\<rparr>, dsos')"
proof -
  have e: "dso_elf demo_env demo_dso = Some demo_elf" by (simp add: dso_elf_def demo_env_def demo_dso_def new_dso_def)
  have "map_addr_spec demo_env [demo_dso] 0x1004 = Some (entry_sym (''main'', 0x1000, 16))"
    by (simp add: map_addr_spec_def e elf_table_def demo_entries last_le_def qsort_def entry_sym_def)
      (simp add: demo_dso_def new_dso_def)
  then show ?thesis using syms__map_addr_refines [OF demo_inv, of "0x1004"] by (auto simp: entry_sym_def)
qed

text \<open>A mapping that has the address, as the code tests it: strictly behind its start.\<close>

definition inside :: "u64 \<Rightarrow> load_range \<Rightarrow> bool" where
  "inside addr r \<longleftrightarrow> range_start r < addr \<and> addr < range_end r"

lemma find_range_find:
  "find_range d rs addr = map_option (\<lambda>r. if d_type d = DYN \<or> d_type d = VDSO
     then addr - range_start r + range_file_off r + (d_sh_addr d - d_sh_offset d) else addr) (find (inside addr) rs)"
  by (induction rs) (auto simp: inside_def)

lemma find_unique:
  assumes "x \<in> set xs" and "P x" and "\<forall>y \<in> set xs. P y \<longrightarrow> y = x"
  shows "find P xs = Some x"
proof (cases "find P xs")
  case None
  then show ?thesis using assms(1,2) by (simp add: find_None_iff)
next
  case (Some y)
  then have "y \<in> set xs" "P y" by (auto simp: find_Some_iff)
  then show ?thesis using assms(3) Some by simp
qed

text \<open>
  C30. Translating a run-time address inverts loading: when a shared object is mapped with \<^verbatim>\<open>r\<close>, the
  code at the ELF address \<open>v\<close> is at file offset \<open>v - sh_addr + sh_offset\<close> and runs at the start of the
  mapping plus that offset less the file offset of the mapping; the lookup of this address
  by \<open>syms__find_dso\<close> returns the object and \<open>v\<close>, in 64-bit arithmetic with wrap-around, when the address is behind
  the start of the mapping and no other mapping has it.
\<close>

theorem syms__find_dso_roundtrip:
  assumes "\<forall>d \<in> set dsos. \<not> d_freed d" and "j < length dsos" and "d_type (dsos ! j) = DYN" and "r \<in> set (d_ranges (dsos ! j))"
    and "a = range_start r + (v - d_sh_addr (dsos ! j) + d_sh_offset (dsos ! j)) - range_file_off r" and "inside a r"
    and "\<forall>i < length dsos. \<forall>r' \<in> set (d_ranges (dsos ! i)). inside a r' \<longrightarrow> i = j \<and> r' = r"
  shows "syms__find_dso dsos a = Some (Some (j, v))"
proof -
  have f: "find (inside a) (d_ranges (dsos ! j)) = Some r"
    by (rule find_unique) (use assms(2,4,6,7) in blast)+
  have "find_range (dsos ! j) (d_ranges (dsos ! j)) a = Some v"
    unfolding find_range_find f using assms(3,5) by simp
  moreover have other: "find_range (dsos ! k) (d_ranges (dsos ! k)) a = None" if "k < length dsos" "k \<noteq> j" for k
    using assms(7) that by (auto simp: find_range_find find_None_iff)
  ultimately have only: "k = j \<and> off = v" if "find_range (dsos ! k) (d_ranges (dsos ! k)) a = Some off" "k < length dsos" for k off
    using that by (cases "k = j") auto
  obtain q where q: "find_dso_loop 0 dsos a = Some q" "case q of
      None \<Rightarrow> \<forall>d \<in> set dsos. find_range d (d_ranges d) a = None
    | Some (i, offset) \<Rightarrow> 0 \<le> i \<and> i < 0 + length dsos \<and> find_range (dsos ! (i - 0)) (d_ranges (dsos ! (i - 0))) a = Some offset \<and>
        (\<forall>k < i - 0. find_range (dsos ! k) (d_ranges (dsos ! k)) a = None)"
    using find_dso_loop_ok [OF assms(1), of 0 a] by blast
  have "q = Some (j, v)"
  proof (cases q)
    case None
    then show ?thesis using q(2) assms(2) \<open>find_range (dsos ! j) (d_ranges (dsos ! j)) a = Some v\<close> by auto
  next
    case (Some io)
    then show ?thesis using q(2) only [of "fst io" "snd io"] by (cases io) auto
  qed
  then show ?thesis using q(1) by (simp add: syms__find_dso_def)
qed

definition demo_lib :: dso where
  "demo_lib = demo_dso\<lparr>d_type := DYN, d_sh_addr := 0x500, d_sh_offset := 0x400,
     d_ranges := [\<lparr>range_start = 0x7000, range_end = 0x9000, range_file_off = 0x400\<rparr>]\<rparr>"

theorem syms__find_dso_roundtrip_witness: "syms__find_dso [demo_lib] 0x7100 = Some (Some (0, 0x600))"
  by (rule syms__find_dso_roundtrip [where r = "\<lparr>range_start = 0x7000, range_end = 0x9000, range_file_off = 0x400\<rparr>"])
    (simp_all add: demo_lib_def demo_dso_def new_dso_def inside_def)

text \<open>
  The first byte of a mapping is never found: for the start of a mapping, an address in the
  mapping, \<open>syms__find_dso\<close> finds nothing when no other mapping has the address, because the
  comparison with the start is not strict.
\<close>

theorem syms__find_dso_start:
  assumes "\<forall>d \<in> set dsos. \<not> d_freed d" and "d \<in> set dsos" and "r \<in> set (d_ranges d)" and "range_start r < range_end r"
    and "\<forall>d' \<in> set dsos. \<forall>r' \<in> set (d_ranges d'). r' = r \<or> \<not> inside (range_start r) r'"
  shows "syms__find_dso dsos (range_start r) = Some None"
proof -
  have n: "\<forall>d \<in> set dsos. find_range d (d_ranges d) (range_start r) = None"
    using assms(5) by (auto simp: find_range_find find_None_iff inside_def)
  have "find_dso_loop i ds addr = Some None" if "\<forall>d \<in> set ds. \<not> d_freed d \<and> find_range d (d_ranges d) addr = None" for i ds addr
    using that by (induction ds arbitrary: i) auto
  then show ?thesis using n assms(1) by (simp add: syms__find_dso_def)
qed

theorem syms__find_dso_start_witness: "syms__find_dso [demo_lib] 0x7000 = Some None"
  using syms__find_dso_start [of "[demo_lib]" demo_lib "\<lparr>range_start = 0x7000, range_end = 0x9000, range_file_off = 0x400\<rparr>"]
  by (simp add: demo_lib_def demo_dso_def new_dso_def inside_def)

text \<open>
  C32. An object whose symbol table cannot be read is used after it has been released: when the data
  of the first symbol section is no multiple of the entry size, the first lookup frees the name, the
  ranges, the symbols and the strings of the object and returns null, but the object stays in
  the list, and every later lookup that reaches it reads the freed memory.
\<close>

theorem dso__find_sym_after_free:
  assumes "env_open env name = Some e" and "elf_scns e = scn # rest" and "scn_shdr scn = Some h" and "is_symtab h"
    and "scn_data scn = data # datas" and "sh_entsize h \<noteq> 0" and "d_size data mod sh_entsize h \<noteq> 0"
    and "\<not> d_freed d" and "d_name d = Some name" and "d_type d = EXEC \<or> d_type d = DYN" and "d_syms d = []"
  shows "\<exists>d'. dso__find_sym env ok d offset = Some (None, d') \<and> d_freed d' \<and>
    (\<forall>ok' offset'. dso__find_sym env ok' d' offset' = None) \<and>
    (\<forall>dsos i ok' addr. i < length dsos \<longrightarrow> dsos ! i = d' \<longrightarrow>
       (\<forall>k < i. find_range (dsos ! k) (d_ranges (dsos ! k)) addr = None) \<longrightarrow> syms__map_addr env ok' dsos addr = None)"
proof -
  have "load_sections ok e 0 (scn # rest) d = Some (- 1, d)"
    using assms(3-7) by (auto simp: is_symtab_def)
  then have "dso__load_sym_table env ok d = Some (- 1, dso__free_fields d)"
    using assms(1,2,9,10) by (auto simp: dso__load_sym_table_def dso__load_sym_table_from_elf_def)
  then have "dso__find_sym env ok d offset = Some (None, dso__free_fields d)" using assms(8,11) by (simp add: dso__find_sym_def)
  moreover have "find_dso_loop j dsos addr = None"
    if "i < length dsos" "d_freed (dsos ! i)" "\<forall>k < i. find_range (dsos ! k) (d_ranges (dsos ! k)) addr = None" for i j dsos addr
    using that
  proof (induction dsos arbitrary: i j)
    case (Cons d0 ds)
    show ?case
    proof (cases i)
      case (Suc i')
      then have "find_range d0 (d_ranges d0) addr = None" using Cons.prems(3) by force
      then show ?thesis using Cons.IH [of i' "j + 1"] Cons.prems Suc by force
    qed (use Cons.prems in simp)
  qed simp
  ultimately show ?thesis by (intro exI [of _ "dso__free_fields d"])
    (auto simp: dso__free_fields_def dso__find_sym_def syms__map_addr_def syms__find_dso_def)
qed

definition bad_elf :: elf where
  "bad_elf = demo_elf\<lparr>elf_scns := [\<lparr>scn_shdr = Some \<lparr>sh_name = 0, sh_type = SHT_SYMTAB, sh_addr = 0, sh_offset = 0, sh_link = 1, sh_entsize = 24\<rparr>,
       scn_data = [\<lparr>d_size = 25, d_getsym = (\<lambda>_. None)\<rparr>]\<rparr>]\<rparr>"

theorem dso__find_sym_after_free_witness:
  "\<exists>d'. dso__find_sym (demo_env\<lparr>env_open := (\<lambda>_. Some bad_elf)\<rparr>) (\<lambda>_ _ _. (\<lambda>_. True, True)) demo_dso 0x1000 = Some (None, d') \<and> d_freed d'"
proof -
  let ?env = "demo_env\<lparr>env_open := (\<lambda>_. Some bad_elf)\<rparr>"
  have "env_open ?env ''/bin/a'' = Some bad_elf" by simp
  note f = dso__find_sym_after_free [OF this, where d = demo_dso and ok = "\<lambda>_ _ _. (\<lambda>_. True, True)" and offset = "0x1000"]
  have e: "elf_scns bad_elf = [\<lparr>scn_shdr = Some \<lparr>sh_name = 0, sh_type = SHT_SYMTAB, sh_addr = 0, sh_offset = 0, sh_link = 1, sh_entsize = 24\<rparr>,
       scn_data = [\<lparr>d_size = 25, d_getsym = (\<lambda>_. None)\<rparr>]\<rparr>]" by (simp add: bad_elf_def)
  have d: "\<not> d_freed demo_dso" "d_name demo_dso = Some ''/bin/a''" "d_type demo_dso = EXEC" "d_syms demo_dso = []"
    by (simp_all add: demo_dso_def new_dso_def)
  show ?thesis using f [OF e] d by (fastforce simp: is_symtab_def)
qed

section \<open>From the maps file to the objects\<close>

text \<open>The executable, file-backed mappings of a maps file, with their names.\<close>

definition map_name :: "map_scan \<Rightarrow> string" where
  "map_name s = dropWhile c_isspace (ms_buf s)"

definition wanted :: "map_scan \<Rightarrow> bool" where
  "wanted s \<longleftrightarrow> 2 < length (ms_perm s) \<and> ms_perm s ! 2 = CHR ''x'' \<and> is_file_backed (map_name s)"

definition range_of :: "map_scan \<Rightarrow> load_range" where
  "range_of s = \<lparr>range_start = start_addr (ms_map s), range_end = end_addr (ms_map s), range_file_off = file_off (ms_map s)\<rparr>"

text \<open>One object per name, with all mappings of that name in the order of the file, nothing loaded.\<close>

definition grouped :: "map_scan list \<Rightarrow> syms \<Rightarrow> bool" where
  "grouped f dsos \<longleftrightarrow> distinct (map d_name dsos) \<and> d_name ` set dsos = (Some \<circ> map_name) ` set f \<and>
     (\<forall>d \<in> set dsos. d_ranges d = map range_of (filter (\<lambda>s. Some (map_name s) = d_name d) f) \<and>
        d_syms d = [] \<and> building d [])"

lemma building_fields: "building d xs \<Longrightarrow> building (d\<lparr>d_ranges := rs\<rparr>) xs" "building d xs \<Longrightarrow> building (d\<lparr>d_type := t\<rparr>) xs"
  "building d xs \<Longrightarrow> building (d\<lparr>d_sh_addr := a\<rparr>) xs" "building d xs \<Longrightarrow> building (d\<lparr>d_sh_offset := a\<rparr>) xs"
  by (simp_all add: building_def)

lemma set_dso_type_keeps:
  assumes "building d []" and "set_dso_type open_elf n d = (err, d')"
  shows "building d' [] \<and> d_name d' = d_name d \<and> d_ranges d' = d_ranges d \<and> d_syms d' = d_syms d"
  using assms by (auto simp: set_dso_type_def Let_def building_fields split: if_splits option.splits)

lemma find_dso_by_name_ok:
  assumes "\<forall>d \<in> set dsos. \<not> d_freed d \<and> d_name d \<noteq> None"
  shows "\<exists>i. find_dso_by_name dsos n = Some i \<and> i \<le> length dsos \<and> (\<forall>k < i. d_name (dsos ! k) \<noteq> Some n) \<and>
    (i < length dsos \<longrightarrow> d_name (dsos ! i) = Some n)"
  using assms
proof (induction dsos)
  case (Cons d ds)
  then obtain i where i: "find_dso_by_name ds n = Some i" "i \<le> length ds" "\<forall>k < i. d_name (ds ! k) \<noteq> Some n"
    "i < length ds \<longrightarrow> d_name (ds ! i) = Some n" by auto
  obtain m where m: "d_name d = Some m" "\<not> d_freed d" using Cons.prems by auto
  show ?case
  proof (cases "m = n")
    case False
    have "d_name ((d # ds) ! k) \<noteq> Some n" if "k < Suc i" for k using that i(3) m(1) False by (cases k) auto
    then show ?thesis using i m False by simp
  qed (use m in simp)
qed simp

lemma grouped_add:
  assumes g: "grouped f dsos" and ok: "ok_dsos ok \<and> ok_strdup ok \<and> ok_btf ok = (True, True) \<and> ok_ranges ok"
    and ty: "\<And>d. fst (set_dso_type open_elf (map_name s) d) = 0"
  shows "\<exists>dsos'. syms__add_dso open_elf ok dsos (ms_map s) (map_name s) = Some (0, dsos') \<and> grouped (f @ [s]) dsos'"
proof -
  let ?n = "map_name s"
  have no: "\<forall>d \<in> set dsos. \<not> d_freed d \<and> d_name d \<noteq> None"
    using g unfolding grouped_def building_def by (metis comp_apply imageE image_eqI option.distinct(1))
  obtain i where i: "find_dso_by_name dsos ?n = Some i" "i \<le> length dsos" "\<forall>k < i. d_name (dsos ! k) \<noteq> Some ?n"
    "i < length dsos \<longrightarrow> d_name (dsos ! i) = Some ?n" using find_dso_by_name_ok [OF no] by blast
  show ?thesis
  proof (cases "i = length dsos")
    case True
    define d where "d = (new_dso True (True, True) ?n)\<lparr>d_ranges := [range_of s]\<rparr>"
    obtain d' where d': "set_dso_type open_elf ?n d = (0, d')" using ty [of d] by (metis prod.collapse)
    have "(new_dso True (True, True) ?n)\<lparr>d_ranges := d_ranges (new_dso True (True, True) ?n) @ [range_of s]\<rparr> = d"
      by (simp add: d_def new_dso_def)
    then have add: "syms__add_dso open_elf ok dsos (ms_map s) ?n = Some (0, dsos @ [d'])"
      using i(1) True ok d' by (simp add: syms__add_dso_def range_of_def [symmetric])
    have "building d []" using building_new by (simp add: d_def btf__new_empty_def btf_new_empty_def)
    from set_dso_type_keeps [OF this d'] have d'f: "building d' []" "d_name d' = Some ?n" "d_ranges d' = [range_of s]" "d_syms d' = []"
      by (simp_all add: d_def new_dso_def)
    have nn: "Some ?n \<notin> d_name ` set dsos" using i(3) True by (auto simp: in_set_conv_nth)
    then have "Some ?n \<notin> (Some \<circ> map_name) ` set f" using g by (simp add: grouped_def)
    then have "\<forall>t \<in> set f. map_name t \<noteq> ?n" by (metis comp_apply image_eqI)
    then have "filter (\<lambda>t. Some (map_name t) = Some ?n) f = []" by simp
    then have "grouped (f @ [s]) (dsos @ [d'])" using g d'f nn by (auto simp: grouped_def)
    then show ?thesis using add by blast
  next
    case False
    then have il: "i < length dsos" using i(2) by simp
    define d where "d = (dsos ! i)\<lparr>d_ranges := d_ranges (dsos ! i) @ [range_of s]\<rparr>"
    obtain d' where d': "set_dso_type open_elf ?n d = (0, d')" using ty [of d] by (metis prod.collapse)
    have add: "syms__add_dso open_elf ok dsos (ms_map s) ?n = Some (0, dsos[i := d'])"
      using i(1) False ok d' by (simp add: syms__add_dso_def range_of_def [symmetric] d_def)
    have mem: "dsos ! i \<in> set dsos" and nm: "d_name (dsos ! i) = Some ?n" using il i(4) by simp_all
    have "building d []" using g mem building_fields(1) unfolding d_def grouped_def by blast
    from set_dso_type_keeps [OF this d'] have d'f: "building d' []" "d_name d' = Some ?n" "d_syms d' = []"
      "d_ranges d' = map range_of (filter (\<lambda>t. Some (map_name t) = Some ?n) (f @ [s]))"
      using g mem nm by (simp_all add: d_def grouped_def)
    have names: "map d_name (dsos[i := d']) = map d_name dsos" using d'f(2) nm by (metis list_update_id map_update)
    have other: "d_name x \<noteq> Some ?n" if x: "x \<in> set (dsos[i := d'])" "x \<noteq> d'" for x
    proof -
      obtain k where k: "k < length dsos" "x = dsos ! k" "k \<noteq> i" using x il by (auto simp: in_set_conv_nth nth_list_update split: if_splits)
      have "distinct (map d_name dsos)" using g by (simp add: grouped_def)
      then have "d_name (dsos ! k) \<noteq> d_name (dsos ! i)" using k il by (simp add: distinct_conv_nth)
      then show ?thesis using k(2) nm by simp
    qed
    have "grouped (f @ [s]) (dsos[i := d'])"
      unfolding grouped_def
    proof (intro conjI ballI)
      show "distinct (map d_name (dsos[i := d']))" using g names by (simp add: grouped_def)
      have "d_name ` set (dsos[i := d']) = d_name ` set dsos" using names by (metis image_set)
      moreover have "d_name ` set dsos = (Some \<circ> map_name) ` set f" using g by (simp add: grouped_def)
      moreover have "Some ?n \<in> d_name ` set dsos" using nm mem by (metis image_eqI)
      ultimately show "d_name ` set (dsos[i := d']) = (Some \<circ> map_name) ` set (f @ [s])" by (simp add: insert_absorb)
      fix x assume x: "x \<in> set (dsos[i := d'])"
      have old: "x \<in> set dsos" if "x \<noteq> d'" using x that set_update_subset_insert [of dsos i d'] by blast
      show "d_ranges x = map range_of (filter (\<lambda>t. Some (map_name t) = d_name x) (f @ [s]))"
        using d'f(2,4) other [OF x] old g by (cases "x = d'") (auto simp: grouped_def)
      show "d_syms x = []" "building x []" using d'f(1,3) old g by (cases "x = d'"; auto simp: grouped_def)+
    qed
    then show ?thesis using add by blast
  qed
qed

text \<open>
  C33. Reading the maps file: when every line is read in full, no name overruns the buffer, memory
  suffices and the text section of every shared object is found, \<open>syms__load_file\<close> returns one object
  per name of an executable file-backed mapping, with exactly the mappings of that name in
  the order of the file, and establishes the invariant under which addresses are looked up.
\<close>

theorem syms__load_file_correct:
  assumes "\<forall>s \<in> set f. ms_ret s = 8 \<and> length (ms_buf s) < PATH_MAX"
    and "\<forall>i. ok_dsos (ok i) \<and> ok_strdup (ok i) \<and> ok_btf (ok i) = (True, True) \<and> ok_ranges (ok i)"
    and "\<forall>n d. fst (set_dso_type open_elf n d) = 0"
  shows "\<exists>dsos. syms__load_file open_elf True ok (Some f) = Some (Some dsos) \<and> grouped (filter wanted f) dsos \<and> syms_inv env dsos"
proof -
  have "\<exists>dsos'. load_file_loop open_elf ok i f dsos = Some (Some dsos') \<and> grouped (g @ filter wanted f) dsos'"
    if "grouped g dsos" for i g dsos
    using assms(1) that
  proof (induction f arbitrary: i g dsos)
    case (Cons s f)
    have s: "ms_ret s = 8" "length (ms_buf s) < PATH_MAX" using Cons.prems(1) by simp_all
    show ?case
    proof (cases "wanted s")
      case False
      then have "load_file_loop open_elf ok i (s # f) dsos = load_file_loop open_elf ok (i + 1) f dsos"
        using s by (auto simp: wanted_def map_name_def Let_def)
      then show ?thesis using Cons.IH [of g dsos "i + 1"] Cons.prems False by simp
    next
      case True
      obtain dsos' where a: "syms__add_dso open_elf (ok i) dsos (ms_map s) (map_name s) = Some (0, dsos')" "grouped (g @ [s]) dsos'"
        using grouped_add [OF Cons.prems(2), of "ok i" open_elf s] assms(2,3) by blast
      have "load_file_loop open_elf ok i (s # f) dsos = load_file_loop open_elf ok (i + 1) f dsos'"
        using s True a(1) by (simp add: wanted_def map_name_def [symmetric])
      then show ?thesis using Cons.IH [OF _ a(2), of "i + 1"] Cons.prems True by simp
    qed
  qed simp
  moreover have "grouped [] []" by (simp add: grouped_def)
  ultimately obtain dsos where l: "load_file_loop open_elf ok 0 f [] = Some (Some dsos)" "grouped ([] @ filter wanted f) dsos"
    by blast
  have "d_name d \<noteq> None" if "d \<in> set dsos" for d
    using l(2) that unfolding grouped_def by (metis comp_apply imageE image_eqI option.distinct(1))
  then have "syms_inv env dsos" using l(2) by (simp add: grouped_def syms_inv_def dso_inv_def building_def)
  then show ?thesis using l by (auto simp: syms__load_file_def)
qed

definition demo_map :: map_scan where
  "demo_map = \<lparr>ms_ret = 8, ms_map = \<lparr>start_addr = 0x1000, end_addr = 0x2000, file_off = 0, dev_major = 8, dev_minor = 1, inode = 5\<rparr>,
     ms_perm = ''r-xp'', ms_buf = ''   /bin/a''\<rparr>"

theorem syms__load_file_correct_witness:
  "\<exists>dsos. syms__load_file (\<lambda>_. Some demo_elf) True (\<lambda>_. \<lparr>ok_dsos = True, ok_strdup = True, ok_btf = (True, True), ok_ranges = True\<rparr>)
     (Some [demo_map]) = Some (Some dsos) \<and> d_name ` set dsos = {Some ''/bin/a''}"
proof -
  have "is_file_backed ''/bin/a''" by (simp add: is_file_backed_def starts_with_def)
  then have w: "filter wanted [demo_map] = [demo_map]" "map_name demo_map = ''/bin/a''"
    by (simp_all add: wanted_def map_name_def demo_map_def c_isspace_def)
  have t: "fst (set_dso_type (\<lambda>_. Some demo_elf) n d) = 0" for n d
    by (auto simp: set_dso_type_def Let_def get_elf_type_def demo_elf_def is_perf_map_def ET_EXEC_def ET_DYN_def)
  show ?thesis
    using syms__load_file_correct [of "[demo_map]" "\<lambda>_. \<lparr>ok_dsos = True, ok_strdup = True, ok_btf = (True, True), ok_ranges = True\<rparr>"
        "\<lambda>_. Some demo_elf" undefined] t w by (auto simp: demo_map_def PATH_MAX_def grouped_def)
qed

section \<open>The cache\<close>

text \<open>A process is loaded once: what the first call returned is what every later call returns.\<close>

lemma cache_find_append: "cache_find (c @ [(s, t)]) t' = (case cache_find c t' of None \<Rightarrow> if t = t' then Some s else None | Some x \<Rightarrow> Some x)"
  by (induction c) auto

lemma syms_cache_stable:
  assumes "syms_cache__get_syms ok load c t = Some (s, c')" and "ok \<or> cache_find c t \<noteq> None"
  shows "syms_cache__get_syms ok' load' c' t = Some (s, c')"
  using assms by (auto simp: syms_cache__get_syms_def cache_find_append bind_eq_Some_conv split: option.splits if_splits)

end
