(* ===== verification/Map_Helpers.thy ===== *)
theory Map_Helpers
  imports Bpf_Maps
begin

text \<open>
  Dumping a hash map into arrays (\<^verbatim>\<open>plugin/libbpf-test/map_helpers.c\<close>), with the batch system call when
  the kernel has it and key by key.

  The arrays are the lists of what has been written to them.  \<open>lookup_batch\<close> is the library
  call: from the map, the position (\<open>None\<close> for a null pointer) and the number of entries asked for it
  gives the error number (0 for success), the entries and the next position.  \<open>fails i\<close> is the error number with which the
  system call number \<open>i\<close> of the dump by keys fails, if it does so for another reason than the contents of the map.
\<close>

section \<open>Operations\<close>

text \<open>The first loop of \<^verbatim>\<open>dump_hash_iter\<close> collects keys, at most \<open>count\<close>: the error number, the number of the next system call, and the keys.\<close>

definition next_key :: "('m, 'k, 'v) map_ops \<Rightarrow> (nat \<Rightarrow> int option) \<Rightarrow> nat \<Rightarrow> 'm \<Rightarrow> 'k \<Rightarrow> int + 'k" where
  "next_key ops fails i m key = (case fails i of
       Some e \<Rightarrow> Inl e
     | None \<Rightarrow> (case op_next ops m key of None \<Rightarrow> Inl ENOENT | Some nk \<Rightarrow> Inr nk))"

fun iter_keys :: "('m, 'k, 'v) map_ops \<Rightarrow> (nat \<Rightarrow> int option) \<Rightarrow> nat \<Rightarrow> 'm \<Rightarrow> 'k \<Rightarrow> nat \<Rightarrow> int \<times> nat \<times> 'k list" where
  "iter_keys ops fails i m key 0 = (0, i, [])"
| "iter_keys ops fails i m key (Suc n) =
     (case next_key ops fails i m key of
        Inl e \<Rightarrow> (if e \<noteq> ENOENT then e else 0, Suc i, [])
      | Inr nk \<Rightarrow> (case iter_keys ops fails (Suc i) m nk n of (err, j, ks) \<Rightarrow> (err, j, nk # ks)))"

text \<open>The second loop reads the values: the error number and the values.\<close>

fun iter_values :: "('m, 'k, 'v) map_ops \<Rightarrow> (nat \<Rightarrow> int option) \<Rightarrow> nat \<Rightarrow> 'm \<Rightarrow> 'k list \<Rightarrow> int \<times> 'v list" where
  "iter_values ops fails i m [] = (0, [])"
| "iter_values ops fails i m (k # ks) =
     (case fails i of
        Some e \<Rightarrow> (e, [])
      | None \<Rightarrow> (case op_lookup ops m k of
            None \<Rightarrow> (ENOENT, [])
          | Some v \<Rightarrow> (case iter_values ops fails (Suc i) m ks of (err, vs) \<Rightarrow> (err, v # vs))))"

text \<open>The result, \<^verbatim>\<open>errno\<close>, \<^verbatim>\<open>*count\<close> afterwards, the keys and the values; a failed dump leaves \<^verbatim>\<open>*count\<close>.\<close>

definition dump_hash_iter :: "('m, 'k, 'v) map_ops \<Rightarrow> (nat \<Rightarrow> int option) \<Rightarrow> 'm \<Rightarrow> nat \<Rightarrow> 'k \<Rightarrow> int \<times> int \<times> nat \<times> 'k list \<times> 'v list" where
  "dump_hash_iter ops fails m cnt invalid_key =
     (case iter_keys ops fails 0 m invalid_key cnt of (err, i, ks) \<Rightarrow>
        if err \<noteq> 0 then (- 1, err, cnt, ks, [])
        else (case iter_values ops fails i m ks of (err, vs) \<Rightarrow>
          if err \<noteq> 0 then (- 1, err, cnt, ks, vs) else (0, 0, length ks, ks, vs)))"

type_synonym ('m, 'k, 'v, 'c) batch = "'m \<Rightarrow> 'c option \<Rightarrow> nat \<Rightarrow> int \<times> ('k \<times> 'v) list \<times> 'c"

partial_function (option) batch_loop ::
    "('m, 'k, 'v, 'c) batch \<Rightarrow> 'm \<Rightarrow> nat \<Rightarrow> 'c option \<Rightarrow> ('k \<times> 'v) list \<Rightarrow> (int \<times> ('k \<times> 'v) list) option" where
  "batch_loop lookup_batch m cnt pos es =
     (if length es < cnt then
        (case lookup_batch m pos (cnt - length es) of
           (err, new, out) \<Rightarrow>
             if err \<noteq> 0 \<and> err \<noteq> ENOENT then Some (err, es)
             else if err \<noteq> 0 then Some (0, es @ new)
             else batch_loop lookup_batch m cnt (Some out) (es @ new))
      else Some (0, es))"

text \<open>
  The error number, 0 for success, \<^verbatim>\<open>*count\<close> afterwards and the entries written.  The first call does not pass a null pointer but
  the address of \<^verbatim>\<open>in\<close>, which is null: \<open>start\<close> is the position that the kernel reads there.
\<close>

definition dump_hash_batch :: "('m, 'k, 'v, 'c) batch \<Rightarrow> 'c \<Rightarrow> 'm \<Rightarrow> nat \<Rightarrow> (int \<times> nat \<times> ('k \<times> 'v) list) option" where
  "dump_hash_batch lookup_batch start m cnt = do {
     (err, es) \<leftarrow> batch_loop lookup_batch m cnt (Some start) [];
     Some (if err \<noteq> 0 then (err, cnt, es) else (0, length es, es))
   }"

record ('k, 'v) dump =
  dump_ret :: int
  dump_errno :: int
  dump_count :: nat
  dump_keys :: "'k list"
  dump_values :: "'v list"
  dump_batch_ops :: bool

text \<open>
  \<open>args_ok\<close>: no argument that is tested is null or zero.  \<open>batch_map_ops\<close> is the static variable, part
  of the result.  The dump by keys overwrites what the batch has written.
\<close>

definition dump_hash ::
    "('m, 'k, 'v) map_ops \<Rightarrow> (nat \<Rightarrow> int option) \<Rightarrow> ('m, 'k, 'v, 'c) batch \<Rightarrow> 'c \<Rightarrow> bool \<Rightarrow> bool \<Rightarrow> 'm \<Rightarrow> nat \<Rightarrow> 'k option \<Rightarrow> ('k, 'v) dump option" where
  "dump_hash ops fails lookup_batch start batch_map_ops args_ok m cnt invalid_key =
     (if \<not> args_ok then Some \<lparr>dump_ret = - 1, dump_errno = EINVAL, dump_count = cnt, dump_keys = [], dump_values = [], dump_batch_ops = batch_map_ops\<rparr>
      else do {
        (err, cnt, es) \<leftarrow> (if batch_map_ops then dump_hash_batch lookup_batch start m cnt else Some (0, cnt, []));
        if err \<noteq> 0 \<and> err \<noteq> EINVAL
        then Some \<lparr>dump_ret = - 1, dump_errno = err, dump_count = cnt, dump_keys = map fst es, dump_values = map snd es,
               dump_batch_ops = batch_map_ops\<rparr>
        else (case invalid_key of
            None \<Rightarrow> Some \<lparr>dump_ret = - 1, dump_errno = EINVAL, dump_count = cnt, dump_keys = map fst es, dump_values = map snd es,
              dump_batch_ops = batch_map_ops\<rparr>
          | Some ik \<Rightarrow>
              (case dump_hash_iter ops fails m cnt ik of
                 (r, err, cnt, ks, vs) \<Rightarrow>
                   Some \<lparr>dump_ret = r, dump_errno = err, dump_count = cnt, dump_keys = ks, dump_values = vs,
                     dump_batch_ops = batch_map_ops\<rparr>))
      })"

section \<open>The key-by-key dump\<close>

definition ENOSPC :: int where "ENOSPC = 28"

text \<open>The batch call reports that there is not enough room.\<close>

definition no_room :: "('m, 'k, 'v, 'c) batch \<Rightarrow> 'm \<Rightarrow> bool" where "no_room lookup_batch m \<longleftrightarrow> (\<exists>pos n out. lookup_batch m pos n = (ENOSPC, [], out))"

text \<open>What \<open>fails\<close> gives are error numbers, and not the one for the end of the keys.\<close>

definition real_errors :: "(nat \<Rightarrow> int option) \<Rightarrow> bool" where
  "real_errors fails \<longleftrightarrow> (\<forall>i. fails i \<noteq> Some 0 \<and> fails i \<noteq> Some ENOENT)"

text \<open>
  The documented behaviour of the batch call: consecutive parts of an enumeration of the entries, ENOENT at its end, and ENOSPC
  when there is not enough room for the next part.
\<close>

locale bpf_batch = bpf_iter +
  fixes lookup_batch :: "('m, 'k, 'v, 'c) batch" and order :: "'m \<Rightarrow> ('k \<times> 'v) list" and place :: "'c \<Rightarrow> nat"
  assumes order_dom: "distinct (order m) \<and> set (order m) = {(k, v). op_lookup ops m k = Some v}"
    and batch_none: "lookup_batch m pos n = (err, new, out) \<Longrightarrow>
      (let p = (case pos of None \<Rightarrow> 0 | Some c \<Rightarrow> place c)
       in p \<le> length (order m) \<longrightarrow> 0 < n \<longrightarrow>
          err = 0 \<and> new \<noteq> [] \<and> length new \<le> n \<and> (\<exists>rest. drop p (order m) = new @ rest) \<and> place out = p + length new \<or>
          err = ENOENT \<and> new = drop p (order m) \<and> length new \<le> n \<or>
          err = ENOSPC \<and> new = [])"
begin

lemma batch_loop_ok:
  assumes "p = (case pos of None \<Rightarrow> 0 | Some c \<Rightarrow> place c)" and "p \<le> length (order m)" and "es = take p (order m)" and "p \<le> cnt"
  shows "batch_loop lookup_batch m cnt pos es = Some (0, take cnt (order m)) \<or>
    no_room lookup_batch m \<and> (\<exists>es'. batch_loop lookup_batch m cnt pos es = Some (ENOSPC, es'))"
  using assms
proof (induction "cnt - p" arbitrary: pos p es rule: less_induct)
  case less
  have le: "length es = p" using less.prems by simp
  show ?case
  proof (cases "p < cnt")
    case False
    then show ?thesis using less.prems le by (subst batch_loop.simps) simp
  next
    case True
    obtain err new out where l: "lookup_batch m pos (cnt - p) = (err, new, out)" by (metis prod_cases3)
    consider (part) "err = 0" "new \<noteq> []" "length new \<le> cnt - p" "\<exists>rest. drop p (order m) = new @ rest" "place out = p + length new"
      | (last) "err = ENOENT" "new = drop p (order m)" "length new \<le> cnt - p" | (none) "err = ENOSPC" "new = []"
      using batch_none [OF l] less.prems(1,2) True by (auto simp: Let_def)
    then show ?thesis
    proof cases
      case part
      then obtain rest where rest: "drop p (order m) = new @ rest" by blast
      have ln: "0 < length new" "p + length new \<le> cnt" using part True by auto
      have "length (order m) - p = length new + length rest" using arg_cong [OF rest, of length] by simp
      then have bd: "p + length new \<le> length (order m)" using less.prems(2) by simp
      have app: "es @ new = take (p + length new) (order m)" using rest less.prems(3) by (simp add: take_add)
      have step: "batch_loop lookup_batch m cnt pos es = batch_loop lookup_batch m cnt (Some out) (es @ new)"
        using True le l part(1) by (subst batch_loop.simps) simp
      show ?thesis unfolding step
      proof (rule less.hyps [of "p + length new"])
        show "cnt - (p + length new) < cnt - p" using ln True by linarith
        show "p + length new = (case Some out of None \<Rightarrow> 0 | Some c \<Rightarrow> place c)" using part by simp
      qed (use ln bd app in simp_all)
    next
      case last
      then have "length (order m) \<le> cnt" using less.prems(2,4) by auto
      then have "es @ new = take cnt (order m)" using last less.prems(3) by simp
      then show ?thesis using True le l last by (subst batch_loop.simps) (simp add: ENOENT_def)
    next
      case none
      then have "batch_loop lookup_batch m cnt pos es = Some (ENOSPC, es)"
        using True le l by (subst batch_loop.simps) (simp add: ENOENT_def ENOSPC_def)
      then show ?thesis using l none by (auto simp: no_room_def)
    qed
  qed
qed

lemma order_length: "length (order m) = length (keys m)"
proof -
  have "set (order m) = (\<lambda>k. (k, the (op_lookup ops m k))) ` set (keys m)"
    using order_dom [of m] keys_dom [of m] by (auto simp: dom_def image_iff)
  moreover have "card ((\<lambda>k. (k, the (op_lookup ops m k))) ` set (keys m)) = card (set (keys m))" by (rule card_image) (simp add: inj_on_def)
  ultimately show ?thesis using order_dom [of m] keys_distinct [of m] by (metis distinct_card)
qed

end

context bpf_iter
begin

lemma iter_keys_suffix:
  assumes "keys m = pre @ suf" and "if pre = [] then key \<notin> set (keys m) else key = last pre" and "real_errors fails"
  shows "(\<exists>j. iter_keys ops fails i m key n = (0, j, take n suf)) \<or> (\<exists>j e a ks. fails a = Some e \<and> e \<noteq> 0 \<and> iter_keys ops fails i m key n = (e, j, ks))"
  using assms
proof (induction n arbitrary: pre suf key i)
  case (Suc n)
  note nx = next_suffix [OF Suc.prems(1,2)]
  show ?case
  proof (cases "fails i")
    case (Some e)
    then have "e \<noteq> 0" "e \<noteq> ENOENT" using Suc.prems(3) by (auto simp: real_errors_def)
    then show ?thesis using Some by (intro disjI2 exI [of _ "Suc i"] exI [of _ e] exI [of _ i]) (simp add: next_key_def)
  next
    case None
    show ?thesis
    proof (cases suf)
      case (Cons y ys)
      have st: "iter_keys ops fails i m key (Suc n) = (case iter_keys ops fails (Suc i) m y n of (err, j, ks) \<Rightarrow> (err, j, y # ks))"
        using nx None Cons by (simp add: next_key_def)
      show ?thesis unfolding st Cons using Suc.IH [of "pre @ [y]" ys y "Suc i"] Suc.prems(1,3) Cons by fastforce
    qed (use nx None in \<open>simp add: next_key_def\<close>)
  qed
qed simp

lemma iter_values_ok:
  assumes "set ks \<subseteq> set (keys m)" and "real_errors fails"
  shows "iter_values ops fails i m ks = (0, map (the \<circ> op_lookup ops m) ks) \<or> (\<exists>e a vs. fails a = Some e \<and> e \<noteq> 0 \<and> iter_values ops fails i m ks = (e, vs))"
  using assms(1)
proof (induction ks arbitrary: i)
  case (Cons k ks)
  then obtain v where v: "op_lookup ops m k = Some v" using keys_dom [of m] by auto
  show ?case
  proof (cases "fails i")
    case (Some e)
    then have "e \<noteq> 0" using assms(2) by (auto simp: real_errors_def)
    then show ?thesis using Some by auto
  next
    case None
    then show ?thesis using Cons.IH [of "Suc i"] Cons.prems v by auto
  qed
qed simp

lemma dump_hash_iter_ok:
  assumes "ik \<notin> set (keys m)" and "real_errors fails"
  shows "dump_hash_iter ops fails m cnt ik =
      (0, 0, min cnt (length (keys m)), take cnt (keys m), map (the \<circ> op_lookup ops m) (take cnt (keys m))) \<or>
    (\<exists>e a ks vs. fails a = Some e \<and> dump_hash_iter ops fails m cnt ik = (- 1, e, cnt, ks, vs))"
proof -
  from iter_keys_suffix [of m "[]" "keys m" ik fails 0 cnt] assms
  consider (ok) j where "iter_keys ops fails 0 m ik cnt = (0, j, take cnt (keys m))"
    | (bad) j e a ks where "fails a = Some e" "e \<noteq> 0" "iter_keys ops fails 0 m ik cnt = (e, j, ks)" by auto
  then show ?thesis
  proof cases
    case ok
    then show ?thesis using iter_values_ok [of "take cnt (keys m)" m fails j] set_take_subset [of cnt "keys m"] assms(2)
      by (auto simp: dump_hash_iter_def min.commute)
  qed (auto simp: dump_hash_iter_def)
qed

end

section \<open>A reference batch call\<close>

text \<open>It has no room when fewer than \<open>least\<close> entries are asked for and there are as many.\<close>

definition batch_ref :: "nat \<Rightarrow> (('k \<times> 'v) list, 'k, 'v, nat) batch" where
  "batch_ref least m pos n =
     (let es = map (\<lambda>k. (k, the (map_of m k))) (remdups (map fst m)); p = (case pos of None \<Rightarrow> 0 | Some c \<Rightarrow> c)
      in if length es - p \<le> n then (ENOENT, drop p es, length es)
         else if n < least then (ENOSPC, [], p) else (0, take n (drop p es), p + n))"

interpretation batch_hash: bpf_batch "hash_ops cap" "\<lambda>m. remdups (map fst m)" "batch_ref least"
  "\<lambda>m. map (\<lambda>k. (k, the (map_of m k))) (remdups (map fst m))" "\<lambda>c. c" for cap least
proof (unfold_locales, goal_cases)
  case (1 m)
  have "distinct (map (\<lambda>k. (k, the (map_of m k))) (remdups (map fst m)))" by (simp add: distinct_map inj_on_def)
  moreover have "set (map (\<lambda>k. (k, the (map_of m k))) (remdups (map fst m))) = {(k, v). map_of m k = Some v}"
  proof -
    have "set (map fst m) = dom (map_of m)" by (simp add: dom_map_of_conv_image_fst)
    then show ?thesis by (auto simp: dom_def image_iff)
  qed
  ultimately show ?case by (simp add: hash_ops_def)
next
  case (2 m pos n err new out)
  let ?es = "map (\<lambda>k. (k, the (map_of m k))) (remdups (map fst m))"
  define p where "p = (case pos of None \<Rightarrow> 0 | Some c \<Rightarrow> c)"
  have b: "batch_ref least m pos n = (if length ?es - p \<le> n then (ENOENT, drop p ?es, length ?es)
      else if n < least then (ENOSPC, [], p) else (0, take n (drop p ?es), p + n))"
    by (simp add: batch_ref_def Let_def p_def)
  show ?case
  proof (cases "length ?es - p \<le> n \<or> n < least")
    case True
    then show ?thesis using 2 b by (auto simp: p_def Let_def split: if_splits)
  next
    case False
    then have r: "err = 0" "new = take n (drop p ?es)" "out = p + n" "length new = n" using 2 b by auto
    have "drop p ?es = new @ drop n (drop p ?es)" unfolding r(2) by (rule append_take_drop_id [symmetric])
    then have "\<exists>rest. drop p ?es = new @ rest" by blast
    then show ?thesis using r(1,3,4) by (auto simp: p_def Let_def)
  qed
qed

section \<open>Properties\<close>



text \<open>The static variable never changes: the assignment stands behind a return.\<close>

lemma dump_hash_batch_ops:
  assumes "dump_hash ops fails lookup_batch start batch_map_ops args_ok m cnt ik = Some d"
  shows "dump_batch_ops d = batch_map_ops"
proof (cases "if batch_map_ops then dump_hash_batch lookup_batch start m cnt else Some (0, cnt, [])")
  case None
  then show ?thesis using assms by (auto simp: dump_hash_def split: if_splits)
next
  case (Some r)
  obtain err cnt' es where r: "r = (err, cnt', es)" by (metis prod_cases3)
  show ?thesis using assms unfolding dump_hash_def Some r
    by (auto split: option.split_asm prod.split_asm if_split_asm)
qed

text \<open>
  Without an invalid key the dump fails with EINVAL although the batch operation has just read
  the map: the entries are in the arrays and \<^verbatim>\<open>*count\<close> is their number, but the code behind a
  successful batch does not return, it goes on to the dump key by key, which needs the invalid key.
\<close>

theorem dump_hash_needs_invalid_key:
  assumes "bpf_batch ops keys lookup_batch order place" and "place start = 0" and "\<not> no_room lookup_batch m"
  shows "dump_hash ops fails lookup_batch start True True m cnt None = Some \<lparr>dump_ret = - 1, dump_errno = EINVAL,
    dump_count = min cnt (length (keys m)), dump_keys = map fst (take cnt (order m)), dump_values = map snd (take cnt (order m)),
    dump_batch_ops = True\<rparr>"
proof -
  have "batch_loop lookup_batch m cnt (Some start) [] = Some (0, take cnt (order m))"
    using bpf_batch.batch_loop_ok [OF assms(1), of 0 "Some start" m "[]" cnt] assms(2,3) by auto
  then show ?thesis
    using bpf_batch.order_length [OF assms(1), of m] by (simp add: dump_hash_def dump_hash_batch_def min.commute)
qed

theorem dump_hash_needs_invalid_key_witness:
  "\<exists>d. dump_hash (hash_ops 8) (\<lambda>_. None) (batch_ref 0) 0 True True [(1 :: nat, ''a'')] 5 None = Some d \<and> dump_ret d = - 1 \<and> dump_keys d = [1]"
proof -
  have "\<not> no_room (batch_ref 0) [(1 :: nat, ''a'')]" by (auto simp: no_room_def batch_ref_def Let_def ENOENT_def ENOSPC_def split: if_splits)
  then show ?thesis
    using dump_hash_needs_invalid_key [OF batch_hash.bpf_batch_axioms, of 0 0 "[(1 :: nat, ''a'')]" 8 "\<lambda>_. None" 5] by simp
qed

end
