(* ===== verification/Layer.thy ===== *)
theory Layer
  imports Bpf_Maps
begin

text \<open>
  The BPF programs that follow a packet through the layers of the network stack
  (\<^verbatim>\<open>plugin/ciliumebpf/layer/layer.c\<close>; \<^verbatim>\<open>tr_package/tr_package.c\<close> is the same file): ten kprobes that note times in an
  array and send a message per packet to a ring buffer.

  A message is the memory that \<^verbatim>\<open>bpf_ringbuf_reserve\<close> returns: a cell is \<open>None\<close> until it is
  written.  The registers with the arguments of the probed function and the contents of kernel memory, which say what is read
  through the pointer in a register, come with the run of a probe; a failed read fills its destination with zeros.
\<close>

section \<open>State\<close>

record skb_message =
  m_time :: "u64 option"
  m_len :: "u32 option"
  m_data_len :: "u32 option"
  m_transport_header :: "u16 option"
  m_network_header :: "u16 option"
  m_mac_header :: "u16 option"
  m_name :: "u8 option list"

record ('p, 't) layer_maps =
  events :: "skb_message list"
  pidfor_user :: 'p
  current_time :: 't

text \<open>The results of reading the fields of a \<^verbatim>\<open>struct sk_buff\<close>; \<open>None\<close> is a read that fails.\<close>

record sk_buff =
  s_len :: "u32 option"
  s_data_len :: "u32 option"
  s_mac_header :: "u16 option"
  s_network_header :: "u16 option"
  s_transport_header :: "u16 option"

text \<open>
  What a probe finds: the process, the clock, the registers with the first two arguments of the probed function
  (\<^verbatim>\<open>PT_REGS_PARM1\<close> and \<^verbatim>\<open>PT_REGS_PARM2\<close>), what reading a packet at an address gives, and whether the ring buffer has room.
\<close>

record layer_ctx =
  pid_tgid :: u64
  ktime :: u64
  parm1 :: u64
  parm2 :: u64
  kmem :: "u64 \<Rightarrow> sk_buff"
  reserve_ok :: bool

record ('p, 't) layer_ops =
  pid_ops :: "('p, u32, u32) map_ops"
  time_ops :: "('t, u32, u64) map_ops"

section \<open>Operations\<close>

definition reserved :: skb_message where
  "reserved = \<lparr>m_time = None, m_len = None, m_data_len = None, m_transport_header = None, m_network_header = None,
     m_mac_header = None, m_name = replicate 30 None\<rparr>"

definition probe_read :: "'a::zero option \<Rightarrow> 'a" where
  "probe_read r = (case r of None \<Rightarrow> 0 | Some x \<Rightarrow> x)"

definition write_name :: "bytes \<Rightarrow> skb_message \<Rightarrow> skb_message" where
  "write_name bs msg = msg\<lparr>m_name := map Some bs @ drop (length bs) (m_name msg)\<rparr>"

text \<open>A string constant in an array of \<open>n\<close> characters.\<close>

definition char_array :: "nat \<Rightarrow> string \<Rightarrow> bytes" where
  "char_array n s = map of_char s @ replicate (n - length s) 0"

definition le_bytes8 :: "u64 \<Rightarrow> bytes" where
  "le_bytes8 v = map (\<lambda>i. ucast (drop_bit (8 * i) v)) [0..<8]"

text \<open>The five reads of packet fields that every reporting probe makes, through the pointer \<open>skb\<close>.\<close>

definition read_skb :: "layer_ctx \<Rightarrow> u64 \<Rightarrow> skb_message \<Rightarrow> skb_message" where
  "read_skb c skb msg = msg\<lparr>m_len := Some (probe_read (s_len (kmem c skb))), m_data_len := Some (probe_read (s_data_len (kmem c skb))),
     m_mac_header := Some (probe_read (s_mac_header (kmem c skb))), m_network_header := Some (probe_read (s_network_header (kmem c skb))),
     m_transport_header := Some (probe_read (s_transport_header (kmem c skb)))\<rparr>"

text \<open>The test of the process at the start of a reporting probe: whether it goes on.\<close>

definition pid_passes :: "('p, 't) layer_ops \<Rightarrow> ('p, 't) layer_maps \<Rightarrow> layer_ctx \<Rightarrow> bool" where
  "pid_passes ops st c =
     (let pid = (ucast (drop_bit 32 (pid_tgid c)) :: u32)
      in case op_lookup (pid_ops ops) (pidfor_user st) 0 of
           None \<Rightarrow> False
         | Some test_pid \<Rightarrow> \<not> (test_pid \<noteq> 0 \<and> pid \<noteq> test_pid))"

definition set_time :: "('p, 't) layer_ops \<Rightarrow> u32 \<Rightarrow> u64 \<Rightarrow> ('p, 't) layer_maps \<Rightarrow> ('p, 't) layer_maps" where
  "set_time ops key t st = st\<lparr>current_time := snd (op_update (time_ops ops) (current_time st) key t BPF_ANY)\<rparr>"

definition submit :: "skb_message \<Rightarrow> ('p, 't) layer_maps \<Rightarrow> ('p, 't) layer_maps" where
  "submit msg st = st\<lparr>events := events st @ [msg]\<rparr>"

definition kprobe_tcp_transmit_skb :: "('p, 't) layer_ops \<Rightarrow> ('p, 't) layer_maps \<Rightarrow> layer_ctx \<Rightarrow> ('p, 't) layer_maps" where
  "kprobe_tcp_transmit_skb ops st c = set_time ops 0 (ktime c) st"

definition kprobe_ip_queue_xmit :: "('p, 't) layer_ops \<Rightarrow> ('p, 't) layer_maps \<Rightarrow> layer_ctx \<Rightarrow> ('p, 't) layer_maps" where
  "kprobe_ip_queue_xmit ops st c = (let skb = parm2 c in
      if \<not> pid_passes ops st c then st
      else if \<not> reserve_ok c then st
      else
        let current = op_lookup (time_ops ops) (current_time st) 0;
            msg = write_name (le_bytes8 (probe_read current)) reserved;
            msg = read_skb c skb msg;
            msg = write_name (char_array 30 ''T _tcp_transmit_skb'') msg
        in set_time ops 0 (ktime c) (submit msg st))"

definition kprobe_ip_local_out :: "('p, 't) layer_ops \<Rightarrow> ('p, 't) layer_maps \<Rightarrow> layer_ctx \<Rightarrow> ('p, 't) layer_maps" where
  "kprobe_ip_local_out ops st c = (let skb = parm2 c in
      if \<not> pid_passes ops st c then st
      else if \<not> reserve_ok c then st
      else submit (write_name (char_array 30 ''T __ip_queue_xmit'') (read_skb c skb reserved)) st)"

definition kprobe_dev_queue_xmit :: "('p, 't) layer_ops \<Rightarrow> ('p, 't) layer_maps \<Rightarrow> layer_ctx \<Rightarrow> ('p, 't) layer_maps" where
  "kprobe_dev_queue_xmit ops st c = (let skb = parm2 c in
      if \<not> pid_passes ops st c then st
      else if \<not> reserve_ok c then st
      else submit (write_name (char_array 19 ''T __dev_queue_xmit'') (read_skb c skb (reserved\<lparr>m_time := Some (ktime c)\<rparr>))) st)"

definition kprobe_eth_type_trans :: "('p, 't) layer_ops \<Rightarrow> ('p, 't) layer_maps \<Rightarrow> layer_ctx \<Rightarrow> ('p, 't) layer_maps" where
  "kprobe_eth_type_trans ops st c = set_time ops 2 (ktime c) st"

definition kprobe_ip_rcv :: "('p, 't) layer_ops \<Rightarrow> ('p, 't) layer_maps \<Rightarrow> layer_ctx \<Rightarrow> ('p, 't) layer_maps" where
  "kprobe_ip_rcv ops st c = (let skb = parm1 c in
      if \<not> pid_passes ops st c then st
      else if \<not> reserve_ok c then st
      else set_time ops 3 (ktime c) (submit (write_name (char_array 30 ''R eth_type_trans'') (read_skb c skb reserved)) st))"

definition kprobe_ip_local_deliver_finish :: "('p, 't) layer_ops \<Rightarrow> ('p, 't) layer_maps \<Rightarrow> layer_ctx \<Rightarrow> ('p, 't) layer_maps" where
  "kprobe_ip_local_deliver_finish ops st c = set_time ops 3 (ktime c) st"

definition kprobe_ip_protocol_deliver_rcu :: "('p, 't) layer_ops \<Rightarrow> ('p, 't) layer_maps \<Rightarrow> layer_ctx \<Rightarrow> ('p, 't) layer_maps" where
  "kprobe_ip_protocol_deliver_rcu ops st c = (let skb = parm2 c in
      if \<not> pid_passes ops st c then st
      else if \<not> reserve_ok c then st
      else submit (write_name (char_array 30 ''R ip_local_deliver_finish'') (read_skb c skb reserved)) st)"

definition kprobe_tcp_rcv_established :: "('p, 't) layer_ops \<Rightarrow> ('p, 't) layer_maps \<Rightarrow> layer_ctx \<Rightarrow> ('p, 't) layer_maps" where
  "kprobe_tcp_rcv_established ops st c = set_time ops 4 (ktime c) st"

definition kprobe_tcp_data_queue :: "('p, 't) layer_ops \<Rightarrow> ('p, 't) layer_maps \<Rightarrow> layer_ctx \<Rightarrow> ('p, 't) layer_maps" where
  "kprobe_tcp_data_queue ops st c = (let skb = parm2 c in
      if \<not> pid_passes ops st c then st
      else if \<not> reserve_ok c then st
      else submit (write_name (char_array 30 ''R tcp_rcv_established'') (read_skb c skb reserved)) st)"

section \<open>Runs\<close>

datatype hook = Tcp_transmit_skb | Ip_queue_xmit | Ip_local_out | Dev_queue_xmit | Eth_type_trans | Ip_rcv |
  Ip_local_deliver_finish | Ip_protocol_deliver_rcu | Tcp_rcv_established | Tcp_data_queue

text \<open>The programs run in any order, each on its own data.\<close>

inductive layer_step :: "('p, 't) layer_ops \<Rightarrow> ('p, 't) layer_maps \<Rightarrow> hook \<times> layer_ctx \<Rightarrow> ('p, 't) layer_maps \<Rightarrow> bool"
  for ops where
  "layer_step ops st (Tcp_transmit_skb, c) (kprobe_tcp_transmit_skb ops st c)"
| "layer_step ops st (Ip_queue_xmit, c) (kprobe_ip_queue_xmit ops st c)"
| "layer_step ops st (Ip_local_out, c) (kprobe_ip_local_out ops st c)"
| "layer_step ops st (Dev_queue_xmit, c) (kprobe_dev_queue_xmit ops st c)"
| "layer_step ops st (Eth_type_trans, c) (kprobe_eth_type_trans ops st c)"
| "layer_step ops st (Ip_rcv, c) (kprobe_ip_rcv ops st c)"
| "layer_step ops st (Ip_local_deliver_finish, c) (kprobe_ip_local_deliver_finish ops st c)"
| "layer_step ops st (Ip_protocol_deliver_rcu, c) (kprobe_ip_protocol_deliver_rcu ops st c)"
| "layer_step ops st (Tcp_rcv_established, c) (kprobe_tcp_rcv_established ops st c)"
| "layer_step ops st (Tcp_data_queue, c) (kprobe_tcp_data_queue ops st c)"

inductive_cases layer_stepE: "layer_step ops st (h, c) st'"

inductive layer_run :: "('p, 't) layer_ops \<Rightarrow> ('p, 't) layer_maps \<Rightarrow> (hook \<times> layer_ctx) list \<Rightarrow> ('p, 't) layer_maps \<Rightarrow> bool"
  for ops st where
  start: "layer_run ops st [] st"
| step: "layer_run ops st hs st' \<Longrightarrow> layer_step ops st' hc st'' \<Longrightarrow> layer_run ops st (hs @ [hc]) st''"

text \<open>The label of a message; the other hooks only note the time.\<close>

fun hook_label :: "hook \<Rightarrow> string option" where
  "hook_label Ip_queue_xmit = Some ''T _tcp_transmit_skb''"
| "hook_label Ip_local_out = Some ''T __ip_queue_xmit''"
| "hook_label Dev_queue_xmit = Some ''T __dev_queue_xmit''"
| "hook_label Ip_rcv = Some ''R eth_type_trans''"
| "hook_label Ip_protocol_deliver_rcu = Some ''R ip_local_deliver_finish''"
| "hook_label Tcp_data_queue = Some ''R tcp_rcv_established''"
| "hook_label _ = None"

text \<open>
  The argument of the probed function through which a reporting probe reads the packet.  In the kernel the packet is the first
  argument of \<^verbatim>\<open>__dev_queue_xmit\<close> and the third one of \<^verbatim>\<open>ip_local_out\<close>, so that these two probes read something else.
\<close>

fun hook_arg :: "hook \<Rightarrow> layer_ctx \<Rightarrow> u64" where
  "hook_arg Ip_rcv c = parm1 c"
| "hook_arg _ c = parm2 c"

text \<open>What the user side can read from a message: the label as a C string, and the fields of what the argument points to.\<close>

definition label_in :: "skb_message \<Rightarrow> string \<Rightarrow> bool" where
  "label_in msg s \<longleftrightarrow> take (length s + 1) (m_name msg) = map Some (map of_char s @ [0])"

definition message_for :: "hook \<times> layer_ctx \<Rightarrow> skb_message \<Rightarrow> bool" where
  "message_for hc msg \<longleftrightarrow> (\<exists>s. hook_label (fst hc) = Some s \<and> label_in msg s) \<and> length (m_name msg) = 30 \<and>
     (let skb = kmem (snd hc) (hook_arg (fst hc) (snd hc))
      in m_len msg = Some (case s_len skb of None \<Rightarrow> 0 | Some x \<Rightarrow> x) \<and> m_data_len msg = Some (case s_data_len skb of None \<Rightarrow> 0 | Some x \<Rightarrow> x) \<and>
         m_mac_header msg = Some (case s_mac_header skb of None \<Rightarrow> 0 | Some x \<Rightarrow> x) \<and>
         m_network_header msg = Some (case s_network_header skb of None \<Rightarrow> 0 | Some x \<Rightarrow> x) \<and>
         m_transport_header msg = Some (case s_transport_header skb of None \<Rightarrow> 0 | Some x \<Rightarrow> x))"

definition due :: "u32 option \<Rightarrow> hook \<times> layer_ctx \<Rightarrow> bool" where
  "due target hc \<longleftrightarrow> hook_label (fst hc) \<noteq> None \<and> reserve_ok (snd hc) \<and>
     (\<exists>t. target = Some t \<and> (t = 0 \<or> t = ucast (drop_bit 32 (pid_tgid (snd hc)))))"

text \<open>Cells of a message that nothing has written.\<close>

definition uninitialised :: "skb_message \<Rightarrow> bool" where
  "uninitialised msg \<longleftrightarrow> m_time msg = None \<or> None \<in> set (m_name msg)"

lemmas layer_defs = kprobe_tcp_transmit_skb_def kprobe_ip_queue_xmit_def kprobe_ip_local_out_def kprobe_dev_queue_xmit_def
  kprobe_eth_type_trans_def kprobe_ip_rcv_def kprobe_ip_local_deliver_finish_def kprobe_ip_protocol_deliver_rcu_def
  kprobe_tcp_rcv_established_def kprobe_tcp_data_queue_def

lemmas message_defs = write_name_def read_skb_def reserved_def char_array_def probe_read_def

lemma pidfor_user_keep [simp]: "pidfor_user (set_time ops k t st) = pidfor_user st" "pidfor_user (submit msg st) = pidfor_user st"
  "events (set_time ops k t st) = events st" "events (submit msg st) = events st @ [msg]"
  by (simp_all add: set_time_def submit_def)

lemma pid_passes_iff:
  "pid_passes ops st c \<longleftrightarrow> (\<exists>t. op_lookup (pid_ops ops) (pidfor_user st) 0 = Some t \<and> (t = 0 \<or> t = ucast (drop_bit 32 (pid_tgid c))))"
  by (auto simp: pid_passes_def Let_def split: option.splits)

lemma le_bytes8_cells: "\<exists>a b c d e f g h. le_bytes8 v = [a, b, c, d, e, f, g, h]"
  by (simp add: le_bytes8_def upt_rec)

lemma name_overwritten: "length bs = 30 \<Longrightarrow> m_name (write_name bs (read_skb c skb (write_name (le_bytes8 v) reserved))) = map Some bs"
  using le_bytes8_cells [of v] by (auto simp: message_defs)

lemma layer_step_events:
  assumes "layer_step ops st hc st'"
  shows "pidfor_user st' = pidfor_user st \<and>
    (if due (op_lookup (pid_ops ops) (pidfor_user st) 0) hc
     then \<exists>msg. events st' = events st @ [msg] \<and> message_for hc msg \<and> uninitialised msg else events st' = events st)"
  using assms
proof cases
  case (2 c)
  have n: "m_name (write_name (char_array 30 ''T _tcp_transmit_skb'') (read_skb c skb (write_name (le_bytes8 v) reserved))) =
      map Some (char_array 30 ''T _tcp_transmit_skb'')" for v skb
    by (rule name_overwritten) (simp add: char_array_def)
  show ?thesis unfolding 2
    by (auto simp: layer_defs due_def pid_passes_iff Let_def message_for_def label_in_def uninitialised_def n)
      (simp_all add: message_defs eval_nat_numeral)
qed (auto simp: layer_defs due_def pid_passes_iff Let_def message_for_def label_in_def uninitialised_def message_defs eval_nat_numeral)

section \<open>Properties\<close>

lemma layer_run_events:
  assumes "layer_run ops st hs st'"
  shows "pidfor_user st' = pidfor_user st \<and> (\<exists>msgs. events st' = events st @ msgs \<and> (\<forall>m \<in> set msgs. uninitialised m) \<and>
    list_all2 message_for (filter (due (op_lookup (pid_ops ops) (pidfor_user st) 0)) hs) msgs)"
  using assms
proof induction
  case (step hs st' hc st'')
  from layer_step_events [OF step.hyps(2)] step.IH show ?case
    by (auto split: if_splits simp: list_all2_appendI)
qed simp

text \<open>
  C36. Whatever order the probes run in, the ring buffer gets exactly one message for each run of a
  reporting probe that passes the process filter and finds room in the ring buffer, and none for the others, in the order of
  the runs.  A message has the label of the probe as a NUL-terminated string and the five fields of the structure that the
  second argument of the probed function points to, or the first one for \<^verbatim>\<open>ip_rcv\<close> (\<open>hook_arg\<close>), with zero for a field that could
  not be read.
\<close>

theorem layer_events_correct:
  assumes "layer_run ops st hs st'"
  shows "\<exists>msgs. events st' = events st @ msgs \<and>
    list_all2 message_for (filter (due (op_lookup (pid_ops ops) (pidfor_user st) 0)) hs) msgs"
  using layer_run_events [OF assms] by blast

definition demo_layer_ops :: "(nat \<Rightarrow> u32, nat \<Rightarrow> u64) layer_ops" where
  "demo_layer_ops = \<lparr>pid_ops = array_ops 1, time_ops = array_ops 6\<rparr>"

definition demo_layer_maps :: "(nat \<Rightarrow> u32, nat \<Rightarrow> u64) layer_maps" where
  "demo_layer_maps = \<lparr>events = [], pidfor_user = (\<lambda>_. 0), current_time = (\<lambda>_. 0)\<rparr>"

definition demo_skb :: sk_buff where
  "demo_skb = \<lparr>s_len = Some 60, s_data_len = Some 0, s_mac_header = None, s_network_header = Some 14, s_transport_header = Some 34\<rparr>"

definition no_skb :: sk_buff where
  "no_skb = \<lparr>s_len = None, s_data_len = None, s_mac_header = None, s_network_header = None, s_transport_header = None\<rparr>"

text \<open>A call of \<^verbatim>\<open>__dev_queue_xmit\<close> with the packet at address 256 as its first argument and no second one.\<close>

definition demo_ctx :: layer_ctx where
  "demo_ctx = \<lparr>pid_tgid = 0x500000005, ktime = 77, parm1 = 256, parm2 = 0, kmem = (\<lambda>a. if a = 256 then demo_skb else no_skb), reserve_ok = True\<rparr>"

lemma demo_run: "layer_run demo_layer_ops demo_layer_maps [(Dev_queue_xmit, demo_ctx)]
    (kprobe_dev_queue_xmit demo_layer_ops demo_layer_maps demo_ctx)"
  using layer_run.step [OF layer_run.start layer_step.intros(4)] by fastforce

lemma demo_run2: "layer_run demo_layer_ops demo_layer_maps [(Dev_queue_xmit, demo_ctx), (Ip_rcv, demo_ctx)]
    (kprobe_ip_rcv demo_layer_ops (kprobe_dev_queue_xmit demo_layer_ops demo_layer_maps demo_ctx) demo_ctx)"
  using layer_run.step [OF demo_run layer_step.intros(6)] by simp

lemma demo_due2: "filter (due (op_lookup (pid_ops demo_layer_ops) (pidfor_user demo_layer_maps) 0)) [(Dev_queue_xmit, demo_ctx), (Ip_rcv, demo_ctx)] =
    [(Dev_queue_xmit, demo_ctx), (Ip_rcv, demo_ctx)]"
  by (simp add: due_def demo_layer_ops_def demo_layer_maps_def array_ops_def demo_ctx_def)

theorem layer_events_correct_witness:
  "\<exists>m1 m2. events (kprobe_ip_rcv demo_layer_ops (kprobe_dev_queue_xmit demo_layer_ops demo_layer_maps demo_ctx) demo_ctx) = [m1, m2] \<and>
     label_in m1 ''T __dev_queue_xmit'' \<and> m_len m1 = Some 0 \<and> label_in m2 ''R eth_type_trans'' \<and> m_len m2 = Some 60"
  using layer_events_correct [OF demo_run2] unfolding demo_due2
  by (auto simp: list_all2_Cons1 message_for_def Let_def demo_ctx_def demo_skb_def no_skb_def demo_layer_maps_def)

text \<open>
  Every message that is sent to user space has bytes that the program has not written: the time
  in the messages of five probes, the end of the name in those of the sixth.  What the reserved
  memory held before is sent to the reader.
\<close>

theorem layer_events_uninitialised:
  assumes "layer_run ops st hs st'" and "events st = []" and "msg \<in> set (events st')"
  shows "m_time msg = None \<or> None \<in> set (m_name msg)"
  using layer_run_events [OF assms(1)] assms(2,3) by (auto simp: uninitialised_def)

theorem layer_events_uninitialised_witness:
  "\<exists>msg. msg \<in> set (events (kprobe_dev_queue_xmit demo_layer_ops demo_layer_maps demo_ctx)) \<and> m_time msg = Some 77 \<and>
     None \<in> set (m_name msg)"
proof -
  have p: "pid_passes demo_layer_ops demo_layer_maps demo_ctx" "reserve_ok demo_ctx"
    by (simp_all add: pid_passes_iff demo_layer_ops_def demo_layer_maps_def array_ops_def demo_ctx_def)
  let ?msg = "write_name (char_array 19 ''T __dev_queue_xmit'') (read_skb demo_ctx (parm2 demo_ctx) (reserved\<lparr>m_time := Some (ktime demo_ctx)\<rparr>))"
  have m: "?msg \<in> set (events (kprobe_dev_queue_xmit demo_layer_ops demo_layer_maps demo_ctx))"
    using p by (simp add: kprobe_dev_queue_xmit_def Let_def)
  have t: "m_time ?msg = Some 77" by (simp add: message_defs demo_ctx_def)
  have "events demo_layer_maps = []" by (simp add: demo_layer_maps_def)
  from layer_events_uninitialised [OF demo_run this m] t m show ?thesis by auto
qed

end
