(* ===== verification/Probes.thy ===== *)
theory Probes
  imports Layer
begin

text \<open>
  The small BPF programs: process starts (\<^verbatim>\<open>libbpfgo/execve\<close>), task switches (\<^verbatim>\<open>libbpfgo/sched_switch\<close>), traps
  (\<^verbatim>\<open>ciliumebpf/interrupt\<close> and \<^verbatim>\<open>ciliumebpf/stack\<close>), soft interrupts (\<^verbatim>\<open>libbpfgo/softirq\<close>), dropped segments
  (\<^verbatim>\<open>libbpfgo/tcpdrop\<close>) and the traffic control filter (\<^verbatim>\<open>libbpf-test/doesnotok/tc_test.bpf.c\<close>).  Each handles one event; what the
  helpers return is given with it.  A ring buffer is the list of its messages.  \<open>None\<close> is an access through the
  null pointer or outside the packet.
\<close>

section \<open>Processes, switches and traps\<close>

record proc_info =
  proc_pid :: int
  proc_comm :: bytes

text \<open>\<open>comm\<close> is the name of the task, which \<^verbatim>\<open>bpf_get_current_comm\<close> pads with zeros to the size of the field.\<close>

definition kprobe__sys_execve :: "u64 \<Rightarrow> bytes \<Rightarrow> bool \<Rightarrow> proc_info list \<Rightarrow> proc_info list" where
  "kprobe__sys_execve pt comm room rb =
     (let tgid = ucast (drop_bit 32 pt) :: u32
      in if \<not> room then rb else rb @ [\<lparr>proc_pid = sint tgid, proc_comm = take 100 (comm @ replicate 100 0)\<rparr>])"

text \<open>The two numbers that \<^verbatim>\<open>bpf_trace_printk\<close> prints.\<close>

definition btf_raw_tracepoint__sched_switch :: "u32 \<Rightarrow> u32 \<Rightarrow> (u32 \<times> u32) list \<Rightarrow> (u32 \<times> u32) list" where
  "btf_raw_tracepoint__sched_switch prev_pid next_pid trace = trace @ [(prev_pid, next_pid)]"

record intr_message =
  im_vector :: u64
  im_pid :: u32
  im_stack_id :: u32

text \<open>\<open>stack_id\<close> is the result of \<^verbatim>\<open>bpf_get_stackid\<close>, negative when it fails.\<close>

definition interrupt_do_error_trap :: "u64 \<Rightarrow> u64 \<Rightarrow> int \<Rightarrow> bool \<Rightarrow> intr_message list \<Rightarrow> intr_message list" where
  "interrupt_do_error_trap trapnr pt stack_id room rb =
     (let pid = ucast (drop_bit 32 pt)
      in if \<not> room then rb else rb @ [\<lparr>im_vector = trapnr, im_pid = pid, im_stack_id = of_int stack_id\<rparr>])"

text \<open>\<open>frames\<close> are the addresses that \<^verbatim>\<open>bpf_get_stack\<close> finds, none when it fails; it fills what is left of the ten with zeros.\<close>

record stack_message =
  sm_vector :: u64
  sm_pid :: u32
  sm_kernelstack :: "u64 list"

definition stack_do_error_trap :: "u64 \<Rightarrow> u64 \<Rightarrow> u64 list \<Rightarrow> bool \<Rightarrow> stack_message list \<Rightarrow> stack_message list" where
  "stack_do_error_trap trapnr pt frames room rb =
     (let pid = ucast (drop_bit 32 pt)
      in if \<not> room then rb
         else rb @ [\<lparr>sm_vector = trapnr, sm_pid = pid, sm_kernelstack = take 10 (frames @ replicate 10 0)\<rparr>])"

section \<open>Soft interrupts\<close>

definition NR_SOFTIRQS :: u64 where "NR_SOFTIRQS = 10"

definition btf_raw_tracepoint__softirq_entry :: "('m, u32, u64) map_ops \<Rightarrow> 'm \<Rightarrow> u64 \<Rightarrow> 'm" where
  "btf_raw_tracepoint__softirq_entry ops start ts = snd (op_update ops start 0 ts BPF_ANY)"

text \<open>
  The numbers printed.  \<^verbatim>\<open>vec_nr\<close> is the argument of the program, which for this kind of program is the address
  of the array of arguments.  \<^verbatim>\<open>delta\<close> is computed and not used.
\<close>

definition btf_raw_tracepoint__softirq_exit :: "('m, u32, u64) map_ops \<Rightarrow> 'm \<Rightarrow> u64 \<Rightarrow> u64 list \<Rightarrow> u64 list" where
  "btf_raw_tracepoint__softirq_exit ops start vec_nr trace =
     (if vec_nr \<ge> NR_SOFTIRQS then trace
      else (case op_lookup ops start 0 of
          None \<Rightarrow> trace
        | Some ts \<Rightarrow> if ts = 0 then trace else trace @ [vec_nr]))"

section \<open>Dropped segments\<close>

record drop_ctx =
  dc_sk :: u64
  dc_skb :: u64
  dc_pid_tgid :: u64
  dc_family :: "u16 option"
  dc_state :: "u8 option"
  dc_head :: "u64 option"
  dc_transport_header :: "u16 option"
  dc_source :: "u16 option"
  dc_dest :: "u16 option"
  dc_stack_id :: int

record ipv4_data_t =
  d_pid :: u32
  d_ip :: u64
  d_saddr :: u32
  d_daddr :: u32
  d_sport :: u16
  d_dport :: u16
  d_state :: u8
  d_tcpflags :: u8
  d_stack_id :: u32

definition kprobe__tcp_drop :: "drop_ctx \<Rightarrow> bool \<Rightarrow> ipv4_data_t list \<Rightarrow> ipv4_data_t list option" where
  "kprobe__tcp_drop c output_ok ipv4_events =
     (if dc_sk c = 0 \<and> dc_skb c = 0 then None
      else
        let pid = ucast (drop_bit 32 (dc_pid_tgid c));
            family = probe_read (dc_family c)
        in if family \<noteq> 2 \<and> family \<noteq> 30 then Some ipv4_events
           else
             let state = probe_read (dc_state c);
                 head = probe_read (dc_head c);
                 tp = probe_read (dc_transport_header c);
                 tcp = head + ucast tp
             in if tcp = 0 then Some ipv4_events
                else
                  let sport = bpf_htons (probe_read (dc_source c));
                      dport = bpf_htons (probe_read (dc_dest c));
                      data4 = \<lparr>d_pid = pid, d_ip = 4, d_saddr = 0, d_daddr = 0, d_sport = sport, d_dport = dport, d_state = state,
                               d_tcpflags = 0, d_stack_id = of_int (dc_stack_id c)\<rparr>
                  in Some (if output_ok then ipv4_events @ [data4] else ipv4_events))"

section \<open>The traffic control filter\<close>

definition TC_ACT_OK :: int where "TC_ACT_OK = 0"
definition TC_ACT_SHOT :: int where "TC_ACT_SHOT = 2"

definition tc_egress :: "bytes \<Rightarrow> int option" where
  "tc_egress pkt =
     (if length pkt < 14 then Some TC_ACT_OK
      else do {
        h_proto \<leftarrow> load16 pkt 12;
        if h_proto \<noteq> bpf_htons 0x0800 then Some TC_ACT_OK
        else if length pkt < 14 + 20 then Some TC_ACT_OK
        else do {
          protocol \<leftarrow> load8 pkt (14 + 9);
          if protocol \<noteq> 6 then Some TC_ACT_OK
          else if length pkt < 14 + 20 + 20 then Some TC_ACT_OK
          else do {
            dest \<leftarrow> load16 pkt (14 + 20 + 2);
            if dest = bpf_htons 80 then Some TC_ACT_SHOT else Some TC_ACT_OK
          }
        }
      })"

definition tc_ingress :: "bytes \<Rightarrow> int" where "tc_ingress pkt = TC_ACT_OK"

section \<open>What they do\<close>

lemma htons_consts: "bpf_htons 0x0800 = 0x0008" "bpf_htons 80 = 0x5000"
  by (simp_all add: bpf_htons_def bpf_swab16_def bpf_mvb_def)

text \<open>
  The filter reads only bytes of the packet and drops exactly the TCP segments to port 80 whose IP header has no
  options and that have a complete TCP header.
\<close>

theorem tc_egress_correct:
  "tc_egress pkt = Some (if 54 \<le> length pkt \<and> pkt ! 12 = 8 \<and> pkt ! 13 = 0 \<and> pkt ! 23 = 6 \<and> pkt ! 36 = 0 \<and> pkt ! 37 = 80
     then TC_ACT_SHOT else TC_ACT_OK)"
  by (auto simp: tc_egress_def load16_def load8_def htons_consts le16_eq_iff TC_ACT_OK_def TC_ACT_SHOT_def)

text \<open>
  The test of the argument is against the number of vectors; an address is never below it, so a program that is
  called with the address of its arguments prints nothing.
\<close>

theorem softirq_exit_silent: "NR_SOFTIRQS \<le> ctx \<Longrightarrow> btf_raw_tracepoint__softirq_exit ops start ctx trace = trace"
  by (simp add: btf_raw_tracepoint__softirq_exit_def)

text \<open>An event of a dropped segment never has addresses, and there is none for a socket of any family but 2 and 30.\<close>

theorem tcp_drop_events:
  assumes "kprobe__tcp_drop c ok evs = Some evs'"
  shows "evs' = evs \<or> (\<exists>d. evs' = evs @ [d] \<and> dc_family c \<in> {Some 2, Some 30} \<and> d_saddr d = 0 \<and> d_daddr d = 0 \<and>
    d_dport d = bpf_htons (probe_read (dc_dest c)) \<and> d_pid d = ucast (drop_bit 32 (dc_pid_tgid c)))"
proof (cases "dc_family c")
  case None
  then show ?thesis using assms by (auto simp: kprobe__tcp_drop_def probe_read_def Let_def split: if_splits)
next
  case (Some f)
  then show ?thesis using assms by (auto simp: kprobe__tcp_drop_def probe_read_def Let_def split: if_splits)
qed

text \<open>The guard joins its tests by \<^verbatim>\<open>&&\<close>: when both pointers are null it reads through one of them.\<close>

theorem tcp_drop_null: "dc_sk c = 0 \<Longrightarrow> dc_skb c = 0 \<Longrightarrow> kprobe__tcp_drop c ok evs = None"
  by (simp add: kprobe__tcp_drop_def)

end
