(* ===== verification/Ringbuf.thy ===== *)
theory Ringbuf
  imports Lno_Prelude C_Lib
begin

text \<open>
  The consumer of BPF ring buffers (\<^verbatim>\<open>libbpf/src/ringbuf.c\<close>): every tool that receives events reads them
  through \<open>ring_buffer__poll\<close>.

  The kernel writes the ring while the consumer reads it.  What the consumer sees at its \<open>t\<close>-th access is a
  parameter \<open>env\<close>, which also depends on the consumer position that is published at that moment, since the
  kernel reuses what lies before it.  The contract of the kernel's ring buffer is the locale
  \<open>ring_producer\<close>; \<open>ring_ref\<close> is a producer that keeps it.  System calls and allocations are given by
  their results.  \<open>None\<close> is an access outside the mapped memory.
\<close>

section \<open>Data\<close>

definition BPF_RINGBUF_BUSY_BIT :: u32 where "BPF_RINGBUF_BUSY_BIT = push_bit 31 1"
definition BPF_RINGBUF_DISCARD_BIT :: u32 where "BPF_RINGBUF_DISCARD_BIT = push_bit 30 1"
definition BPF_RINGBUF_HDR_SZ :: nat where "BPF_RINGBUF_HDR_SZ = 8"
definition BPF_MAP_TYPE_RINGBUF :: nat where "BPF_MAP_TYPE_RINGBUF = 27"
definition INT_MAX :: int where "INT_MAX = 2147483647"

lemmas ring_consts = BPF_RINGBUF_BUSY_BIT_def BPF_RINGBUF_DISCARD_BIT_def BPF_RINGBUF_HDR_SZ_def

text \<open>What is mapped read-only: the producer position and the data, which is mapped twice in a row.\<close>

record ring_view =
  producer_pos :: u64
  ring_data :: bytes

type_synonym ring_env = "nat \<Rightarrow> u64 \<Rightarrow> ring_view"

text \<open>\<open>consumer_pos\<close> is the counter in the shared page; \<open>cons_map\<close> and \<open>prod_map\<close> are the sizes of the two mappings.\<close>

record 'c ring =
  sample_cb :: "'c \<Rightarrow> bytes \<Rightarrow> int \<times> 'c"
  consumer_pos :: u64
  r_mask :: u64
  r_map_fd :: int
  cons_map :: "u64 option"
  prod_map :: "u64 option"

record 'c ring_buffer =
  rings :: "'c ring list"
  page_size :: u64
  epoll_fd :: int

section \<open>Setting up\<close>

text \<open>Results of the system calls and allocations that \<^verbatim>\<open>ring_buffer__add\<close> makes; an error is its \<^verbatim>\<open>errno\<close>.\<close>

record add_sys =
  map_info :: "int + nat \<times> u32"
  rings_ok :: bool
  events_ok :: bool
  mmap_cons :: "int + u64"
  mmap_prod :: "int option"
  epoll_ctl :: "int option"

text \<open>
  Each function returns, after its result, the calls of \<^verbatim>\<open>mmap\<close> that succeeded and the calls of
  \<^verbatim>\<open>munmap\<close>, in order, with the sizes that were passed.
\<close>

datatype area = Consumer_page | Producer_pages

datatype mm_call = Mmap area u64 | Munmap area u64

definition ringbuf_unmap_ring :: "u64 \<Rightarrow> 'c ring \<Rightarrow> 'c ring \<times> mm_call list" where
  "ringbuf_unmap_ring psize r =
     (r\<lparr>cons_map := None, prod_map := None\<rparr>,
      (if cons_map r \<noteq> None then [Munmap Consumer_page psize] else []) @
      (if prod_map r \<noteq> None then [Munmap Producer_pages (psize + 2 * (r_mask r + 1))] else []))"

definition ring_buffer__add ::
    "add_sys \<Rightarrow> 'c ring_buffer \<Rightarrow> int \<Rightarrow> ('c \<Rightarrow> bytes \<Rightarrow> int \<times> 'c) \<Rightarrow> int \<times> 'c ring_buffer \<times> mm_call list" where
  "ring_buffer__add sys rb fd cb =
     (case map_info sys of
        Inl errno \<Rightarrow> (- errno, rb, [])
      | Inr (type, max_entries) \<Rightarrow>
          if type \<noteq> BPF_MAP_TYPE_RINGBUF then (- EINVAL, rb, [])
          else if \<not> rings_ok sys then (- ENOMEM, rb, [])
          else if \<not> events_ok sys then (- ENOMEM, rb, [])
          else
            let r = \<lparr>sample_cb = cb, consumer_pos = 0, r_mask = ucast (max_entries - 1), r_map_fd = fd, cons_map = None, prod_map = None\<rparr>
            in case mmap_cons sys of
                 Inl errno \<Rightarrow> (- errno, rb, [])
               | Inr pos \<Rightarrow>
                   let calls = [Mmap Consumer_page (page_size rb)];
                       r = r\<lparr>consumer_pos := pos, cons_map := Some (page_size rb)\<rparr>
                   in case mmap_prod sys of
                        Some errno \<Rightarrow> (- errno, rb, calls @ snd (ringbuf_unmap_ring (page_size rb) r))
                      | None \<Rightarrow>
                          let mapped = page_size rb + ucast (2 * max_entries);
                              calls = calls @ [Mmap Producer_pages mapped];
                              r = r\<lparr>prod_map := Some mapped\<rparr>
                          in case epoll_ctl sys of
                               Some errno \<Rightarrow> (- errno, rb, calls @ snd (ringbuf_unmap_ring (page_size rb) r))
                             | None \<Rightarrow> (0, rb\<lparr>rings := rings rb @ [r]\<rparr>, calls))"

definition ring_buffer__free :: "'c ring_buffer \<Rightarrow> mm_call list" where
  "ring_buffer__free rb = concat (map (\<lambda>r. snd (ringbuf_unmap_ring (page_size rb) r)) (rings rb))"

text \<open>The result is the buffer, or \<^verbatim>\<open>errno\<close>.\<close>

definition ring_buffer__new ::
    "bool \<Rightarrow> bool \<Rightarrow> u64 \<Rightarrow> int + int \<Rightarrow> add_sys \<Rightarrow> int \<Rightarrow> ('c \<Rightarrow> bytes \<Rightarrow> int \<times> 'c) \<Rightarrow> (int + 'c ring_buffer) \<times> mm_call list" where
  "ring_buffer__new opts_valid calloc_ok psize epoll_create sys fd cb =
     (if \<not> opts_valid then (Inl EINVAL, [])
      else if \<not> calloc_ok then (Inl ENOMEM, [])
      else (case epoll_create of
          Inl errno \<Rightarrow> (Inl errno, [])
        | Inr efd \<Rightarrow>
            (case ring_buffer__add sys \<lparr>rings = [], page_size = psize, epoll_fd = efd\<rparr> fd cb of
               (err, rb, calls) \<Rightarrow> if err \<noteq> 0 then (Inl (- err), calls @ ring_buffer__free rb) else (Inr rb, calls))))"

section \<open>Consuming\<close>

definition roundup_len :: "u32 \<Rightarrow> int" where
  "roundup_len len =
     (let len = push_bit 2 len;
          len = drop_bit 2 len;
          len = len + of_nat BPF_RINGBUF_HDR_SZ
      in to_int (uint ((len + 7) div 8 * 8)))"

text \<open>
  The loops of \<^verbatim>\<open>ringbuf_process_ring\<close>, from the test of the inner one on.  The results are the return
  value, the ring, the context of the callback and the time.
\<close>

partial_function (option) process_loop ::
    "ring_env \<Rightarrow> nat \<Rightarrow> 'c ring \<Rightarrow> u64 \<Rightarrow> u64 \<Rightarrow> bool \<Rightarrow> int \<Rightarrow> 'c \<Rightarrow> (int \<times> 'c ring \<times> 'c \<times> nat) option" where
  "process_loop env t r cons_pos prod_pos got_new_data cnt ctx =
     (if cons_pos < prod_pos then
        let len_ptr = unat (cons_pos AND r_mask r)
        in case load32 (ring_data (env t (consumer_pos r))) len_ptr of
             None \<Rightarrow> None
           | Some len \<Rightarrow>
               if len AND BPF_RINGBUF_BUSY_BIT \<noteq> 0 then Some (cnt, r, ctx, t + 1)
               else
                 let cons_pos = cons_pos + of_int (roundup_len len)
                 in if len AND BPF_RINGBUF_DISCARD_BIT = 0 then
                      (case load_bytes (ring_data (env (t + 1) (consumer_pos r))) (len_ptr + BPF_RINGBUF_HDR_SZ) (unat len) of
                         None \<Rightarrow> None
                       | Some sample \<Rightarrow>
                           (case sample_cb r ctx sample of
                              (err, ctx) \<Rightarrow>
                                if err < 0 then Some (err, r\<lparr>consumer_pos := cons_pos\<rparr>, ctx, t + 2)
                                else process_loop env (t + 2) (r\<lparr>consumer_pos := cons_pos\<rparr>) cons_pos prod_pos True (cnt + 1) ctx))
                    else process_loop env (t + 1) (r\<lparr>consumer_pos := cons_pos\<rparr>) cons_pos prod_pos True cnt ctx
      else if got_new_data then
        process_loop env (t + 1) r cons_pos (producer_pos (env t (consumer_pos r))) False cnt ctx
      else Some (cnt, r, ctx, t))"

definition ringbuf_process_ring :: "ring_env \<Rightarrow> nat \<Rightarrow> 'c ring \<Rightarrow> 'c \<Rightarrow> (int \<times> 'c ring \<times> 'c \<times> nat) option" where
  "ringbuf_process_ring env t r ctx =
     process_loop env (t + 1) r (consumer_pos r) (producer_pos (env t (consumer_pos r))) False 0 ctx"

text \<open>The loops of \<^verbatim>\<open>ring_buffer__consume\<close> and \<^verbatim>\<open>ring_buffer__poll\<close> over the numbers of the rings to read.\<close>

fun consume_loop ::
    "(nat \<Rightarrow> ring_env) \<Rightarrow> nat \<Rightarrow> nat list \<Rightarrow> 'c ring list \<Rightarrow> int \<Rightarrow> 'c \<Rightarrow> (int \<times> 'c ring list \<times> 'c \<times> nat) option" where
  "consume_loop envs t [] rs res ctx = Some (if res > INT_MAX then INT_MAX else res, rs, ctx, t)"
| "consume_loop envs t (i # is) rs res ctx =
     (if i < length rs then do {
        (err, r, ctx, t) \<leftarrow> ringbuf_process_ring (envs i) t (rs ! i) ctx;
        if err < 0 then Some (err, rs[i := r], ctx, t)
        else consume_loop envs t is (rs[i := r]) (res + err) ctx
      } else None)"

definition ring_buffer__consume ::
    "(nat \<Rightarrow> ring_env) \<Rightarrow> nat \<Rightarrow> 'c ring_buffer \<Rightarrow> 'c \<Rightarrow> (int \<times> 'c ring_buffer \<times> 'c \<times> nat) option" where
  "ring_buffer__consume envs t rb ctx =
     map_option (\<lambda>(ret, rs, ctx, t). (ret, rb\<lparr>rings := rs\<rparr>, ctx, t)) (consume_loop envs t [0..<length (rings rb)] (rings rb) 0 ctx)"

text \<open>\<open>ready\<close> is the result of \<^verbatim>\<open>epoll_wait\<close>: an error, or the numbers of the rings that have data.\<close>

definition ring_buffer__poll ::
    "(nat \<Rightarrow> ring_env) \<Rightarrow> nat \<Rightarrow> int + nat list \<Rightarrow> 'c ring_buffer \<Rightarrow> 'c \<Rightarrow> (int \<times> 'c ring_buffer \<times> 'c \<times> nat) option" where
  "ring_buffer__poll envs t ready rb ctx =
     (case ready of
        Inl errno \<Rightarrow> Some (- errno, rb, ctx, t)
      | Inr ids \<Rightarrow> map_option (\<lambda>(ret, rs, ctx, t). (ret, rb\<lparr>rings := rs\<rparr>, ctx, t)) (consume_loop envs t ids (rings rb) 0 ctx))"

section \<open>The contract of the producer\<close>

text \<open>
  A record is its payload and whether it is discarded in the end.  Records lie one behind the other, a header
  of eight bytes first, each rounded up to a multiple of eight.
\<close>

type_synonym ring_rec = "bytes \<times> bool"

definition rec_size :: "ring_rec \<Rightarrow> nat" where
  "rec_size rc = (length (fst rc) + BPF_RINGBUF_HDR_SZ + 7) div 8 * 8"

definition rec_pos :: "nat \<Rightarrow> ring_rec list \<Rightarrow> nat \<Rightarrow> nat" where
  "rec_pos base recs i = base + sum_list (map rec_size (take i recs))"

definition rec_hdr :: "bool \<Rightarrow> ring_rec \<Rightarrow> u32" where
  "rec_hdr committed rc = of_nat (length (fst rc)) OR
     (if committed then if snd rc then BPF_RINGBUF_DISCARD_BIT else 0 else BPF_RINGBUF_BUSY_BIT)"

text \<open>
  What the kernel promises for the records \<open>recs\<close> that are written from position \<open>base\<close> on: at time \<open>t\<close> the first
  \<open>reserved t\<close> of them are reserved and the producer position is behind them; a reserved record is marked
  busy until it is committed, and neither it nor its header changes afterwards while the published
  consumer position is not behind it.
\<close>

locale ring_producer =
  fixes env :: ring_env and msk :: u64 and recs :: "ring_rec list" and base :: nat
    and reserved :: "nat \<Rightarrow> nat" and committed :: "nat \<Rightarrow> nat \<Rightarrow> bool"
  assumes reserved_mono: "t \<le> t' \<Longrightarrow> reserved t \<le> reserved t'"
    and reserved_le: "reserved t \<le> length recs"
    and committed_mono: "t \<le> t' \<Longrightarrow> committed t i \<Longrightarrow> committed t' i"
    and sizes: "rc \<in> set recs \<Longrightarrow> length (fst rc) < 2 ^ 30"
    and no_wrap: "rec_pos base recs (length recs) < 2 ^ 64"
    and prod_ok: "producer_pos (env t c) = of_nat (rec_pos base recs (reserved t))"
    and hdr_ok: "i < reserved t \<Longrightarrow> unat c \<le> rec_pos base recs i \<Longrightarrow>
      load32 (ring_data (env t c)) (unat (of_nat (rec_pos base recs i) AND msk)) = Some (rec_hdr (committed t i) (recs ! i))"
    and payload_ok: "i < reserved t \<Longrightarrow> unat c \<le> rec_pos base recs i \<Longrightarrow> committed t i \<Longrightarrow> \<not> snd (recs ! i) \<Longrightarrow>
      load_bytes (ring_data (env t c)) (unat (of_nat (rec_pos base recs i) AND msk) + BPF_RINGBUF_HDR_SZ) (length (fst (recs ! i))) =
        Some (fst (recs ! i))"

text \<open>The payloads that a consumer has to see, and the callback run on a list of samples.\<close>

definition samples :: "ring_rec list \<Rightarrow> bytes list" where
  "samples rs = map fst (filter (\<lambda>rc. \<not> snd rc) rs)"

fun run_cb :: "('c \<Rightarrow> bytes \<Rightarrow> int \<times> 'c) \<Rightarrow> 'c \<Rightarrow> bytes list \<Rightarrow> 'c option" where
  "run_cb cb ctx [] = Some ctx"
| "run_cb cb ctx (x # xs) = (case cb ctx x of (err, ctx) \<Rightarrow> if err < 0 then None else run_cb cb ctx xs)"

section \<open>Headers and positions\<close>

lemma hdr_take_bit: "drop_bit 2 (push_bit 2 (x :: u32)) = take_bit 30 x"
  by (rule bit_word_eqI) (auto simp: bit_simps)

lemma small_bit: "n < 2 ^ 30 \<Longrightarrow> \<not> bit (of_nat n :: u32) 30" "n < 2 ^ 30 \<Longrightarrow> \<not> bit (of_nat n :: u32) 31"
  by (simp_all add: bit_of_nat_iff bit_nat_def)

lemma rec_hdr_busy:
  assumes "length (fst rc) < 2 ^ 30"
  shows "rec_hdr c rc AND BPF_RINGBUF_BUSY_BIT = 0 \<longleftrightarrow> c"
proof -
  have "rec_hdr c rc AND BPF_RINGBUF_BUSY_BIT = 0 \<longleftrightarrow> \<not> bit (rec_hdr c rc) 31"
    unfolding BPF_RINGBUF_BUSY_BIT_def bit_iff_and_push_bit_not_eq_0 by simp
  then show ?thesis using small_bit [OF assms] by (simp add: rec_hdr_def ring_consts bit_simps)
qed

lemma rec_hdr_discard:
  assumes "length (fst rc) < 2 ^ 30"
  shows "rec_hdr True rc AND BPF_RINGBUF_DISCARD_BIT = 0 \<longleftrightarrow> \<not> snd rc"
proof -
  have "rec_hdr True rc AND BPF_RINGBUF_DISCARD_BIT = 0 \<longleftrightarrow> \<not> bit (rec_hdr True rc) 30"
    unfolding BPF_RINGBUF_DISCARD_BIT_def bit_iff_and_push_bit_not_eq_0 by simp
  then show ?thesis using small_bit [OF assms] by (simp add: rec_hdr_def ring_consts bit_simps)
qed

lemma rec_hdr_len: "length (fst rc) < 2 ^ 30 \<Longrightarrow> \<not> snd rc \<Longrightarrow> unat (rec_hdr True rc) = length (fst rc)"
  by (simp add: rec_hdr_def unat_of_nat take_bit_eq_mod)

lemma rec_hdr_take:
  assumes "length (fst rc) < 2 ^ 30"
  shows "take_bit 30 (rec_hdr True rc) = of_nat (length (fst rc))"
proof -
  have "take_bit 30 (of_nat (length (fst rc)) :: u32) = of_nat (length (fst rc))"
    using assms by (simp add: of_nat_take_bit [symmetric] take_bit_nat_eq_self)
  moreover have "take_bit 30 BPF_RINGBUF_DISCARD_BIT = 0" by (simp add: BPF_RINGBUF_DISCARD_BIT_def)
  ultimately show ?thesis by (simp add: rec_hdr_def take_bit_or)
qed

lemma roundup_len_hdr:
  assumes "length (fst rc) < 2 ^ 30"
  shows "roundup_len (rec_hdr True rc) = int (rec_size rc)"
proof -
  let ?n = "length (fst rc)"
  let ?w = "(of_nat ?n + of_nat BPF_RINGBUF_HDR_SZ + 7) div 8 * 8 :: u32"
  have "unat ?w = rec_size rc"
    using assms by (simp add: rec_size_def BPF_RINGBUF_HDR_SZ_def unat_word_ariths unat_div_distrib unat_of_nat take_bit_eq_mod)
  then have "uint ?w = int (rec_size rc)" by (simp only: uint_nat)
  moreover have "rec_size rc < 2 ^ 31" using assms by (simp add: rec_size_def BPF_RINGBUF_HDR_SZ_def)
  ultimately show ?thesis
    unfolding roundup_len_def hdr_take_bit rec_hdr_take [OF assms] Let_def by (simp add: c_simps)
qed

lemma rec_size_pos: "8 \<le> rec_size rc"
  by (simp add: rec_size_def BPF_RINGBUF_HDR_SZ_def)

lemma rec_pos_Suc: "i < length recs \<Longrightarrow> rec_pos base recs (Suc i) = rec_pos base recs i + rec_size (recs ! i)"
  by (simp add: rec_pos_def take_Suc_conv_app_nth)

lemma rec_pos_mono: "i \<le> j \<Longrightarrow> j \<le> length recs \<Longrightarrow> rec_pos base recs i \<le> rec_pos base recs j"
  by (induction rule: dec_induct) (auto simp: rec_pos_Suc)

lemma rec_pos_less: "i < j \<Longrightarrow> j \<le> length recs \<Longrightarrow> rec_pos base recs i < rec_pos base recs j"
  using rec_pos_mono [of "Suc i" j recs base] rec_pos_Suc [of i recs base] rec_size_pos [of "recs ! i"] by simp


section \<open>The consumer loop\<close>

text \<open>
  What the consumer has done when it returns at record \<open>j\<close>, having started at record \<open>i\<close> at time \<open>t\<close>: the
  callback has seen exactly the samples between them, in their order; the consumer position is at
  \<open>j\<close>; when no callback failed, there was a moment at which nothing more was there to consume; otherwise the
  last sample is the one whose callback failed.
\<close>

definition consumed ::
    "ring_rec list \<Rightarrow> nat \<Rightarrow> (nat \<Rightarrow> nat) \<Rightarrow> (nat \<Rightarrow> nat \<Rightarrow> bool) \<Rightarrow> 'c ring \<Rightarrow> nat \<Rightarrow> nat \<Rightarrow> int \<Rightarrow> 'c \<Rightarrow>
      int \<times> 'c ring \<times> 'c \<times> nat \<Rightarrow> nat \<Rightarrow> bool" where
  "consumed recs base reserved committed r t i cnt ctx res j =
     (case res of (ret, r', ctx', t') \<Rightarrow>
        i \<le> j \<and> j \<le> reserved t' \<and> t < t' \<and> r' = r\<lparr>consumer_pos := of_nat (rec_pos base recs j)\<rparr> \<and>
        (let xs = samples (take (j - i) (drop i recs))
         in if 0 \<le> ret then ret = cnt + int (length xs) \<and> run_cb (sample_cb r) ctx xs = Some ctx' \<and>
              (\<exists>s. t \<le> s \<and> s < t' \<and> (j = reserved s \<or> j < reserved s \<and> \<not> committed s j))
            else \<exists>ys y c. xs = ys @ [y] \<and> run_cb (sample_cb r) ctx ys = Some c \<and> sample_cb r c y = (ret, ctx')))"

lemma take_drop_Cons: "i < j \<Longrightarrow> i < length xs \<Longrightarrow> take (j - i) (drop i xs) = xs ! i # take (j - Suc i) (drop (Suc i) xs)"
  using Suc_diff_Suc [of i j] Cons_nth_drop_Suc [of i xs] take_Suc_Cons [of "j - Suc i" "xs ! i" "drop (Suc i) xs"] by simp

lemma consumed_discard:
  assumes "consumed recs base reserved committed (r\<lparr>consumer_pos := p\<rparr>) t (Suc i) cnt ctx res j" and "i < length recs" and "snd (recs ! i)"
  shows "consumed recs base reserved committed r t i cnt ctx res j"
  using assms take_drop_Cons [of i j recs]
  by (auto simp: consumed_def samples_def Let_def split: prod.splits)

lemma consumed_sample:
  assumes "consumed recs base reserved committed (r\<lparr>consumer_pos := p\<rparr>) t (Suc i) (cnt + 1) ctx' res j" and "i < length recs"
    and "\<not> snd (recs ! i)" and "sample_cb r ctx (fst (recs ! i)) = (err, ctx')" and "0 \<le> err"
  shows "consumed recs base reserved committed r t i cnt ctx res j"
proof -
  obtain ret r' c' t' where res: "res = (ret, r', c', t')" by (metis prod_cases4)
  have x: "samples (take (j - i) (drop i recs)) = fst (recs ! i) # samples (take (j - Suc i) (drop (Suc i) recs))"
    using assms(1-3) take_drop_Cons [of i j recs] by (auto simp: consumed_def samples_def res)
  show ?thesis
  proof (cases "0 \<le> ret")
    case True
    then show ?thesis using assms(1,4,5) unfolding consumed_def res x by (auto simp: Let_def)
  next
    case False
    then obtain ys y c where y: "samples (take (j - Suc i) (drop (Suc i) recs)) = ys @ [y]"
      "run_cb (sample_cb r) ctx' ys = Some c" "sample_cb r c y = (ret, c')"
      using assms(1) by (auto simp: consumed_def res Let_def)
    have "run_cb (sample_cb r) ctx (fst (recs ! i) # ys) = Some c" using y(2) assms(4,5) by simp
    then show ?thesis using assms(1) False y unfolding consumed_def res x
      by (auto simp: Let_def intro!: exI [of _ "fst (recs ! i) # ys"])
  qed
qed

context ring_producer
begin

lemma unat_pos: "i \<le> length recs \<Longrightarrow> unat (of_nat (rec_pos base recs i) :: u64) = rec_pos base recs i"
  using rec_pos_mono [of i "length recs" recs base] no_wrap by (simp add: unat_of_nat take_bit_eq_mod)

lemma rec_less:
  assumes "i \<le> j" and "j \<le> length recs"
  shows "(of_nat (rec_pos base recs i) < (of_nat (rec_pos base recs j) :: u64)) \<longleftrightarrow> i < j"
proof -
  have "i < j \<or> i = j" using assms(1) by linarith
  then show ?thesis
    using assms unat_pos [of i] unat_pos [of j] rec_pos_less [of i j recs base] by (auto simp: word_less_nat_alt)
qed

lemma loop_step:
  assumes "r_mask r = msk" and "consumer_pos r = of_nat (rec_pos base recs i)" and "i < reserved s" and "s < t"
  shows "process_loop env t r (of_nat (rec_pos base recs i)) (of_nat (rec_pos base recs (reserved s))) got cnt ctx =
    (let r' = r\<lparr>consumer_pos := of_nat (rec_pos base recs (Suc i))\<rparr>;
         again = (\<lambda>t. process_loop env t r' (of_nat (rec_pos base recs (Suc i))) (of_nat (rec_pos base recs (reserved s))) True)
     in if \<not> committed t i then Some (cnt, r, ctx, t + 1)
        else if snd (recs ! i) then again (t + 1) cnt ctx
        else case sample_cb r ctx (fst (recs ! i)) of
          (err, ctx') \<Rightarrow> if err < 0 then Some (err, r', ctx', t + 2) else again (t + 2) (cnt + 1) ctx')"
proof -
  let ?rc = "recs ! i"
  have il: "i < length recs" and it: "i < reserved t" "i < reserved (t + 1)"
    using assms(3,4) reserved_le [of s] reserved_mono [of s t] reserved_mono [of s "t + 1"] by auto
  have lt: "of_nat (rec_pos base recs i) < (of_nat (rec_pos base recs (reserved s)) :: u64)"
    using rec_less [of i "reserved s"] reserved_le assms(3) by simp
  have sz: "length (fst ?rc) < 2 ^ 30" using sizes il by simp
  have c: "unat (consumer_pos r) \<le> rec_pos base recs i" using assms(2) unat_pos [of i] il by simp
  have nx: "of_nat (rec_pos base recs i) + of_int (roundup_len (rec_hdr True ?rc)) = (of_nat (rec_pos base recs (Suc i)) :: u64)"
    using roundup_len_hdr [OF sz] rec_pos_Suc [OF il, of base] by simp
  note h = hdr_ok [OF it(1) c] rec_hdr_busy [OF sz] rec_hdr_discard [OF sz]
  show ?thesis
  proof (cases "committed t i \<and> \<not> snd ?rc")
    case True
    then have "committed (t + 1) i" using committed_mono [of t "t + 1" i] by simp
    then show ?thesis
      using True lt h assms(1) nx payload_ok [OF it(2) c] rec_hdr_len [OF sz] by (subst process_loop.simps) (simp add: Let_def)
  next
    case False
    then show ?thesis using lt h assms(1) nx by (subst process_loop.simps) (auto simp: Let_def)
  qed
qed

lemma process_loop_ok:
  assumes "r_mask r = msk" and "consumer_pos r = of_nat (rec_pos base recs i)" and "i \<le> reserved s" and "t0 \<le> s" and "s < t" and "0 \<le> cnt"
  shows "\<exists>res j. process_loop env t r (of_nat (rec_pos base recs i)) (of_nat (rec_pos base recs (reserved s))) got cnt ctx = Some res \<and>
    consumed recs base reserved committed r t0 i cnt ctx res j"
  using assms
proof (induction "2 * (length recs - i) + of_bool got" arbitrary: r i s t got cnt ctx rule: less_induct)
  case less
  note le = reserved_le [of s] and step = loop_step [OF less.prems(1,2) _ less.prems(5), of got cnt ctx]
  consider (more) "i < reserved s" | (again) "i = reserved s" got | (stop) "i = reserved s" "\<not> got" using less.prems(3) by linarith
  then show ?case
  proof cases
    case more
    then have il: "i < length recs" and it: "i < reserved t" using le reserved_mono [of s t] less.prems(5) by auto
    let ?r = "r\<lparr>consumer_pos := of_nat (rec_pos base recs (Suc i))\<rparr>"
    have IH: "\<exists>res j. process_loop env t' ?r (of_nat (rec_pos base recs (Suc i))) (of_nat (rec_pos base recs (reserved s))) True cnt' ctx' = Some res \<and>
        consumed recs base reserved committed ?r t0 (Suc i) cnt' ctx' res j" if "t < t'" "0 \<le> cnt'" for t' cnt' ctx'
      by (rule less.hyps) (use less.prems il more that in auto)
    obtain err ctx' where cb: "sample_cb r ctx (fst (recs ! i)) = (err, ctx')" by fastforce
    consider (busy) "\<not> committed t i" | (drop) "committed t i" "snd (recs ! i)" | (fail) "committed t i" "\<not> snd (recs ! i)" "err < 0"
      | (ok) "committed t i" "\<not> snd (recs ! i)" "0 \<le> err" by linarith
    then show ?thesis
    proof cases
      case busy
      then have "consumed recs base reserved committed r t0 i cnt ctx (cnt, r, ctx, t + 1) i"
        using it reserved_mono [of t "t + 1"] less.prems(2,4,5,6) by (auto simp: consumed_def samples_def intro!: exI [of _ t])
      then show ?thesis using step [OF more] busy by auto
    next
      case drop
      obtain res j where "process_loop env (t + 1) ?r (of_nat (rec_pos base recs (Suc i))) (of_nat (rec_pos base recs (reserved s))) True cnt ctx = Some res"
        and c: "consumed recs base reserved committed ?r t0 (Suc i) cnt ctx res j" using IH [of "t + 1" cnt ctx] less.prems(6) by auto
      then show ?thesis using step [OF more] drop consumed_discard [OF c il drop(2)] by (auto simp: Let_def)
    next
      case fail
      then have "consumed recs base reserved committed r t0 i cnt ctx (err, ?r, ctx', t + 2) (Suc i)"
        using cb it reserved_mono [of t "t + 2"] less.prems(4,5) take_drop_Cons [of i "Suc i" recs] il
        by (auto simp: consumed_def samples_def Let_def intro!: exI [of _ "[]"])
      then show ?thesis using step [OF more] cb fail by auto
    next
      case ok
      obtain res j where "process_loop env (t + 2) ?r (of_nat (rec_pos base recs (Suc i))) (of_nat (rec_pos base recs (reserved s))) True (cnt + 1) ctx' = Some res"
        and c: "consumed recs base reserved committed ?r t0 (Suc i) (cnt + 1) ctx' res j" using IH [of "t + 2" "cnt + 1" ctx'] less.prems(6) by auto
      then show ?thesis using step [OF more] ok cb consumed_sample [OF c il ok(2) cb ok(3)] by (auto simp: Let_def)
    qed
  next
    case again
    have "\<exists>res j. process_loop env (t + 1) r (of_nat (rec_pos base recs i)) (of_nat (rec_pos base recs (reserved t))) False cnt ctx = Some res \<and>
        consumed recs base reserved committed r t0 i cnt ctx res j"
      by (rule less.hyps) (use less.prems again reserved_mono [of s t] in auto)
    then show ?thesis using again prod_ok [of t] by (subst process_loop.simps) simp
  next
    case stop
    then have "consumed recs base reserved committed r t0 i cnt ctx (cnt, r, ctx, t) i"
      using less.prems reserved_mono [of s t] by (auto simp: consumed_def samples_def intro!: exI [of _ s])
    then show ?thesis using stop by (subst process_loop.simps) auto
  qed
qed

end

section \<open>A reference producer\<close>

text \<open>
  A ring of \<open>2 ^ k\<close> bytes, mapped twice, with records that fit into it.  Which records are reserved and committed
  at a time is given, as for the contract.
\<close>

definition rec_bytes :: "bool \<Rightarrow> ring_rec \<Rightarrow> bytes" where
  "rec_bytes committed rc =
     (let h = rec_hdr committed rc
      in [ucast h, ucast (drop_bit 8 h), ucast (drop_bit 16 h), ucast (drop_bit 24 h), 0, 0, 0, 0] @ fst rc @
         replicate (rec_size rc - length (fst rc) - 8) 0)"

definition rec_stream :: "(nat \<Rightarrow> bool) \<Rightarrow> ring_rec list \<Rightarrow> bytes" where
  "rec_stream com recs = concat (map (\<lambda>i. rec_bytes (com i) (recs ! i)) [0..<length recs])"

definition ring_bytes :: "nat \<Rightarrow> nat \<Rightarrow> bytes \<Rightarrow> bytes" where
  "ring_bytes n base str =
     map (\<lambda>j. let d = (j + n - base mod n) mod n in if d < length str then str ! d else 0) [0..<n]"

definition ring_ref :: "nat \<Rightarrow> ring_rec list \<Rightarrow> nat \<Rightarrow> (nat \<Rightarrow> nat) \<Rightarrow> (nat \<Rightarrow> nat \<Rightarrow> bool) \<Rightarrow> ring_env" where
  "ring_ref k recs base reserved committed t c =
     (let p = ring_bytes (2 ^ k) base (rec_stream (committed t) recs)
      in \<lparr>producer_pos = of_nat (rec_pos base recs (reserved t)), ring_data = p @ p\<rparr>)"

lemma length_rec_bytes [simp]: "length (rec_bytes com rc) = rec_size rc"
  by (simp add: rec_bytes_def rec_size_def BPF_RINGBUF_HDR_SZ_def Let_def)

lemma length_rec_stream: "length (rec_stream com recs) = sum_list (map rec_size recs)"
proof -
  have "map (\<lambda>i. rec_size (recs ! i)) [0..<length recs] = map rec_size recs" by (rule nth_equalityI) auto
  then show ?thesis by (simp add: rec_stream_def length_concat comp_def)
qed

lemma rec_stream_at:
  assumes "i < length recs"
  shows "take (rec_size (recs ! i)) (drop (rec_pos 0 recs i) (rec_stream com recs)) = rec_bytes (com i) (recs ! i)"
proof -
  let ?f = "\<lambda>i. rec_bytes (com i) (recs ! i)"
  have "[0..<length recs] = [0..<i] @ i # [Suc i..<length recs]" using assms upt_add_eq_append [of 0 i "length recs - i"] by (simp add: upt_conv_Cons)
  then have s: "rec_stream com recs = concat (map ?f [0..<i]) @ ?f i @ concat (map ?f [Suc i..<length recs])" by (simp add: rec_stream_def)
  have "map rec_size (take i recs) = map (\<lambda>i. rec_size (recs ! i)) [0..<i]" using assms by (intro nth_equalityI) auto
  then have "length (concat (map ?f [0..<i])) = rec_pos 0 recs i" by (simp add: length_concat comp_def rec_pos_def)
  then show ?thesis by (simp add: s)
qed

lemma ring_bytes_nth:
  assumes "0 < n" and "d < n"
  shows "ring_bytes n base str ! ((base + d) mod n) = (if d < length str then str ! d else 0)"
proof -
  let ?b = "base mod n"
  have b: "?b < n" using assms(1) by simp
  have m: "(base + d) mod n = (?b + d) mod n" by (simp add: mod_add_left_eq)
  have "((base + d) mod n + n - ?b) mod n = d"
  proof (cases "?b + d < n")
    case True
    then show ?thesis using m assms(2) by simp
  next
    case False
    have "?b + d - n < n" using b assms(2) by linarith
    then have "(?b + d) mod n = ?b + d - n" using False by (metis le_mod_geq mod_less not_less)
    then show ?thesis using m False assms(2) by simp
  qed
  then show ?thesis using assms(1) by (simp add: ring_bytes_def Let_def)
qed

lemma ring_bytes_read:
  assumes "0 < n" and "d + l \<le> length str" and "length str \<le> n"
  shows "take l (drop ((base + d) mod n) (ring_bytes n base str @ ring_bytes n base str)) = take l (drop d str)"
proof (rule nth_equalityI)
  have b: "(base + d) mod n < n" using assms(1) by simp
  have l: "length (ring_bytes n base str) = n" by (simp add: ring_bytes_def)
  show len: "length (take l (drop ((base + d) mod n) (ring_bytes n base str @ ring_bytes n base str))) = length (take l (drop d str))"
    unfolding length_take length_drop length_append l using b assms(2,3) by linarith
  fix i assume "i < length (take l (drop ((base + d) mod n) (ring_bytes n base str @ ring_bytes n base str)))"
  then have i: "i < l" by simp
  let ?j = "(base + d) mod n + i"
  have "(ring_bytes n base str @ ring_bytes n base str) ! ?j = ring_bytes n base str ! (?j mod n)"
  proof (cases "?j < n")
    case False
    have "?j - n < n" using b i assms by linarith
    then have "?j mod n = ?j - n" using False by (metis le_mod_geq mod_less not_less)
    then show ?thesis using False l by (simp add: nth_append)
  qed (simp add: nth_append l)
  also have "?j mod n = (base + (d + i)) mod n" by (simp add: mod_add_left_eq add.assoc)
  also have "ring_bytes n base str ! \<dots> = str ! (d + i)" using ring_bytes_nth [of n "d + i" base str] assms i by simp
  finally show "take l (drop ((base + d) mod n) (ring_bytes n base str @ ring_bytes n base str)) ! i = take l (drop d str) ! i"
    unfolding nth_take [OF i]
    using nth_drop [of "(base + d) mod n" "ring_bytes n base str @ ring_bytes n base str" i] nth_drop [of d str i] assms(2) l b
    by (simp only: length_append)
qed


lemma unat_and_mask:
  assumes "p < 2 ^ 64"
  shows "unat ((of_nat p :: u64) AND (2 ^ k - 1)) = p mod 2 ^ k"
proof -
  have "(of_nat p :: u64) AND (2 ^ k - 1) = take_bit k (of_nat p)" by (simp add: take_bit_eq_mask mask_eq_exp_minus_1)
  also have "unat \<dots> = take_bit k (unat (of_nat p :: u64))" by (rule unsigned_take_bit_eq)
  finally show ?thesis using assms by (simp add: unat_of_nat take_bit_eq_mod)
qed

lemma ring_ref_producer:
  assumes "\<And>t t'. t \<le> t' \<Longrightarrow> reserved t \<le> reserved t'" and "\<And>t. reserved t \<le> length recs"
    and "\<And>t t' i. t \<le> t' \<Longrightarrow> committed t i \<Longrightarrow> committed t' i" and "\<forall>rc \<in> set recs. length (fst rc) < 2 ^ 30"
    and "rec_pos base recs (length recs) < 2 ^ 64" and "sum_list (map rec_size recs) \<le> 2 ^ k"
  shows "ring_producer (ring_ref k recs base reserved committed) (2 ^ k - 1) recs base reserved committed"
proof
  fix i t c
  assume "i < reserved t"
  then have i: "i < length recs" using assms(2) [of t] by simp
  let ?rc = "recs ! i" and ?d = "rec_pos 0 recs i" and ?str = "rec_stream (committed t) recs"
  let ?m = "ring_data (ring_ref k recs base reserved committed t c)" and ?a = "unat (of_nat (rec_pos base recs i) AND (2 ^ k - 1) :: u64)"
  have p: "rec_pos base recs i = base + ?d" by (simp add: rec_pos_def)
  have "rec_pos base recs i < 2 ^ 64" using rec_pos_mono [of i "length recs" recs base] i assms(5) by simp
  then have a: "?a = (base + ?d) mod 2 ^ k" using unat_and_mask [of "rec_pos base recs i" k] p by simp
  have "?d + rec_size ?rc \<le> length ?str"
    using rec_pos_mono [of "Suc i" "length recs" recs 0] rec_pos_Suc [OF i, of 0] i by (simp add: length_rec_stream rec_pos_def)
  then have r: "take (rec_size ?rc) (drop ?a ?m) = rec_bytes (committed t i) ?rc"
    using ring_bytes_read [of "2 ^ k" ?d "rec_size ?rc" ?str base] rec_stream_at [OF i] assms(6)
    by (simp add: a ring_ref_def Let_def length_rec_stream)
  have len: "?a + rec_size ?rc \<le> length ?m" 
    using arg_cong [OF r, of length] rec_size_pos [of ?rc] by (simp add: min_def split: if_splits)
  have n: "?m ! (?a + j) = rec_bytes (committed t i) ?rc ! j" if "j < rec_size ?rc" for j
    using arg_cong [OF r, of "\<lambda>xs. xs ! j"] that len by simp
  show "load32 ?m ?a = Some (rec_hdr (committed t i) ?rc)"
    using n [of 0] n [of 1] n [of 2] n [of 3] len rec_size_pos [of ?rc] word32_bytes [of "rec_hdr (committed t i) ?rc"]
    by (simp add: load32_def rec_bytes_def Let_def numeral_eq_Suc)
  have f: "length (fst ?rc) + 8 \<le> rec_size ?rc" by (simp add: rec_size_def BPF_RINGBUF_HDR_SZ_def)
  have "take (length (fst ?rc)) (drop (?a + 8) ?m) = take (length (fst ?rc)) (drop 8 (take (rec_size ?rc) (drop ?a ?m)))"
    using f by (simp add: drop_take add.commute)
  also have "\<dots> = fst ?rc" unfolding r by (simp add: rec_bytes_def Let_def)
  finally show "load_bytes ?m (?a + BPF_RINGBUF_HDR_SZ) (length (fst ?rc)) = Some (fst ?rc)"
    using len f by (simp add: load_bytes_def BPF_RINGBUF_HDR_SZ_def)
qed (use assms in \<open>auto simp: ring_ref_def Let_def\<close>)


definition demo_recs :: "ring_rec list" where "demo_recs = [([1, 2, 3], False), ([9], True), ([5, 6], False)]"
definition demo_reserved :: "nat \<Rightarrow> nat" where "demo_reserved t = (if t = 0 then 1 else 3)"
definition demo_committed :: "nat \<Rightarrow> nat \<Rightarrow> bool" where "demo_committed t i \<longleftrightarrow> i < 2 \<or> 5 \<le> t"

interpretation demo_ring: ring_producer "ring_ref 6 demo_recs 40 demo_reserved demo_committed" "2 ^ 6 - 1" demo_recs 40 demo_reserved demo_committed
  by (rule ring_ref_producer)
    (auto simp: demo_recs_def demo_reserved_def demo_committed_def rec_pos_def rec_size_def BPF_RINGBUF_HDR_SZ_def)

section \<open>Properties\<close>

text \<open>
  C25. Under the contract of the kernel's ring buffer, and while the kernel reserves and commits records
  concurrently, \<open>ringbuf_process_ring\<close> reads only mapped memory, returns, and hands every committed
  record that is not discarded to the callback exactly once and in order; it stops at the first busy
  record, when nothing is left, or at a failing callback, whose record counts as consumed.  The published
  position is where it stopped, so the next call goes on there.
\<close>

theorem ringbuf_process_ring_correct:
  assumes "ring_producer env (r_mask r) recs base reserved committed"
    and "consumer_pos r = of_nat (rec_pos base recs i)" and "i \<le> reserved t"
  shows "\<exists>res j. ringbuf_process_ring env t r ctx = Some res \<and> consumed recs base reserved committed r t i 0 ctx res j"
  using ring_producer.process_loop_ok [OF assms(1) refl assms(2,3), of t "t + 1" 0 False ctx] ring_producer.prod_ok [OF assms(1)] assms(2)
  by (simp add: ringbuf_process_ring_def)

definition demo_ring_r :: "bytes list ring" where
  "demo_ring_r = \<lparr>sample_cb = \<lambda>ctx s. (0, ctx @ [s]), consumer_pos = 40, r_mask = 2 ^ 6 - 1, r_map_fd = 3,
     cons_map = Some 4096, prod_map = Some 4224\<rparr>"

theorem ringbuf_process_ring_correct_witness:
  "\<exists>res j. ringbuf_process_ring (ring_ref 6 demo_recs 40 demo_reserved demo_committed) 0 demo_ring_r [] = Some res \<and>
     consumed demo_recs 40 demo_reserved demo_committed demo_ring_r 0 0 0 [] res j"
  by (rule ringbuf_process_ring_correct) (use demo_ring.ring_producer_axioms in \<open>simp_all add: demo_ring_r_def rec_pos_def demo_reserved_def\<close>)

text \<open>
  What is mapped after a sequence of calls.  A mapping goes only with a \<^verbatim>\<open>munmap\<close> of its own area and of
  exactly its size.
\<close>

fun live_after :: "(area \<times> u64) list \<Rightarrow> mm_call list \<Rightarrow> (area \<times> u64) list" where
  "live_after ms [] = ms"
| "live_after ms (Mmap a n # cs) = live_after (ms @ [(a, n)]) cs"
| "live_after ms (Munmap a n # cs) = live_after (remove1 (a, n) ms) cs"

abbreviation live :: "mm_call list \<Rightarrow> (area \<times> u64) list" where
  "live \<equiv> live_after []"

lemma live_after_append [simp]: "live_after ms (cs @ ds) = live_after (live_after ms cs) ds"
  by (induction ms cs rule: live_after.induct) auto

lemma ring_bytes:
  assumes "0 < (n :: u32)"
  shows "unat (ucast (n - 1) :: u64) = unat n - 1"
    and "ucast (2 * n) = (2 * (ucast (n - 1) + 1) :: u64) \<longleftrightarrow> n < 2 ^ 31"
proof -
  let ?m = "ucast (n - 1) :: u64"
  show m: "unat ?m = unat n - 1" using assms by (simp add: unat_ucast_up unat_minus_one word_gt_0)
  have n: "unat n < 2 ^ 32" "0 < unat n" using unat_lt [of n] assms by (simp_all add: word_less_nat_alt)
  then have u: "unat (2 * (?m + 1) :: u64) = 2 * unat n" using m by (simp add: unat_word_ariths)
  have w: "unat (ucast (2 * n) :: u64) = (2 * unat n) mod 2 ^ 32" by (simp add: unat_ucast_up unat_word_ariths)
  have "ucast (2 * n) = (2 * (?m + 1) :: u64) \<longleftrightarrow> 2 * unat n < 2 ^ 32"
    unfolding word_unat_eq_iff u w using mod_less_divisor [of "2 ^ 32" "2 * unat n"] by (metis mod_less zero_less_numeral zero_less_power)
  then show "ucast (2 * n) = (2 * (?m + 1) :: u64) \<longleftrightarrow> n < 2 ^ 31" by (simp add: word_less_nat_alt)
qed

text \<open>
  C40. \<open>ring_buffer__add\<close> succeeds exactly when every allocation and system call does.  It then adds one ring
  with the mask of its size, and exactly two mappings are live: the consumer page, and the producer page with the
  data; the second has the data twice, and unmapping the ring leaves nothing mapped, exactly when the ring is
  smaller than \<open>2 ^ 31\<close> bytes (for \<open>2 ^ 31\<close> bytes the 32-bit product wraps to 0 and only the producer page is
  mapped).  When it fails the buffer is as before, and for a ring below \<open>2 ^ 31\<close> bytes no mapping that it made
  is live.
\<close>

theorem ring_buffer__add_correct:
  assumes "ring_buffer__add sys rb fd cb = (ret, rb', calls)" and "map_info sys = Inr (BPF_MAP_TYPE_RINGBUF, n)" and "0 < n"
    and "mmap_cons sys \<noteq> Inl 0" and "mmap_prod sys \<noteq> Some 0" and "epoll_ctl sys \<noteq> Some 0"
  shows "(ret = 0 \<longleftrightarrow> rings_ok sys \<and> events_ok sys \<and> (\<exists>pos. mmap_cons sys = Inr pos) \<and> mmap_prod sys = None \<and> epoll_ctl sys = None) \<and>
    (if ret = 0
      then \<exists>r size. rb' = rb\<lparr>rings := rings rb @ [r]\<rparr> \<and> sample_cb r = cb \<and> r_map_fd r = fd \<and> mmap_cons sys = Inr (consumer_pos r) \<and>
        unat (r_mask r) = unat n - 1 \<and> live calls = [(Consumer_page, page_size rb), (Producer_pages, size)] \<and>
        (size = page_size rb + 2 * (r_mask r + 1) \<longleftrightarrow> n < 2 ^ 31) \<and>
        (live (calls @ snd (ringbuf_unmap_ring (page_size rb) r)) = [] \<longleftrightarrow> n < 2 ^ 31)
      else rb' = rb \<and> (n < 2 ^ 31 \<longrightarrow> live calls = []))"
proof (cases "rings_ok sys \<and> events_ok sys \<and> (\<exists>pos. mmap_cons sys = Inr pos) \<and> mmap_prod sys = None \<and> epoll_ctl sys = None")
  case True
  then obtain pos where "mmap_cons sys = Inr pos" by blast
  with True show ?thesis
    using assms ring_bytes [OF assms(3)]
    by (intro conjI) (auto simp: ring_buffer__add_def ringbuf_unmap_ring_def Let_def intro!: exI [where x = "\<lparr>sample_cb = cb, consumer_pos = pos, r_mask = ucast (n - 1), r_map_fd = fd, cons_map = Some (page_size rb),
        prod_map = Some (page_size rb + ucast (2 * n))\<rparr>"])
next
  case False
  then show ?thesis
    using assms ring_bytes [OF assms(3)]
    by (auto simp: ring_buffer__add_def ringbuf_unmap_ring_def Let_def errno_defs split: if_splits sum.splits option.splits)
qed

theorem ring_buffer__add_correct_witness:
  "\<exists>calls. ring_buffer__add \<lparr>map_info = Inr (BPF_MAP_TYPE_RINGBUF, 4096), rings_ok = True, events_ok = True, mmap_cons = Inr 0, mmap_prod = None, epoll_ctl = Some 28\<rparr>
      \<lparr>rings = [], page_size = 4096, epoll_fd = 5\<rparr> 3 (\<lambda>c s. (0, c :: nat)) = (- 28, \<lparr>rings = [], page_size = 4096, epoll_fd = 5\<rparr>, calls) \<and>
    set calls \<supseteq> {Mmap Consumer_page 4096, Mmap Producer_pages 12288} \<and> live calls = []"
proof -
  let ?sys = "\<lparr>map_info = Inr (BPF_MAP_TYPE_RINGBUF, 4096), rings_ok = True, events_ok = True, mmap_cons = Inr 0, mmap_prod = None, epoll_ctl = Some 28\<rparr>"
  let ?rb = "\<lparr>rings = [], page_size = 4096, epoll_fd = 5\<rparr>"
  obtain ret rb calls where a: "ring_buffer__add ?sys ?rb 3 (\<lambda>c s. (0, c :: nat)) = (ret, rb, calls)"
    by (metis prod_cases3)
  then have "ret = - 28" "set calls \<supseteq> {Mmap Consumer_page 4096, Mmap Producer_pages 12288}" by (auto simp: ring_buffer__add_def Let_def)
  then show ?thesis using ring_buffer__add_correct [OF a, of 4096] a by auto
qed

end
