(* ===== verification/Nlattr.thy ===== *)
theory Nlattr
  imports Lno_Prelude C_Lib
begin

text \<open>
  Netlink attributes (\<^verbatim>\<open>libbpf/src/nlattr.c\<close> and \<^verbatim>\<open>nlattr.h\<close>), by which XDP programs are attached to and queried from
  an interface.  A message is a byte memory and an attribute its offset in it; \<open>None\<close> is an access
  outside the memory or an overflow of \<^verbatim>\<open>int\<close>.  The mixed comparisons of \<^verbatim>\<open>int\<close> and \<^verbatim>\<open>size_t\<close> are kept.
\<close>

section \<open>Operations\<close>

definition EMSGSIZE :: int where "EMSGSIZE = 90"

definition NLA_HDRLEN :: int where "NLA_HDRLEN = 4"
definition NLMSG_HDRLEN :: int where "NLMSG_HDRLEN = 16"
definition NLA_F_NESTED :: u16 where "NLA_F_NESTED = push_bit 15 1"
definition NLA_TYPE_MASK :: u16 where "NLA_TYPE_MASK = NOT (push_bit 15 1 OR push_bit 14 1)"

text \<open>\<^verbatim>\<open>sizeof(struct libbpf_nla_req)\<close>: the header, the larger member of the union and the buffer.\<close>

definition nla_req_size :: nat where "nla_req_size = 16 + 20 + 128"

definition NLA_ALIGN :: "int \<Rightarrow> int" where "NLA_ALIGN len = (len + 3) AND NOT 3"
definition NLMSG_ALIGN :: "u32 \<Rightarrow> u32" where "NLMSG_ALIGN len = (len + 4 - 1) AND NOT (4 - 1)"

datatype nla_kind = LIBBPF_NLA_UNSPEC | LIBBPF_NLA_U8 | LIBBPF_NLA_U16 | LIBBPF_NLA_U32 | LIBBPF_NLA_U64 |
  LIBBPF_NLA_STRING | LIBBPF_NLA_FLAG | LIBBPF_NLA_MSECS | LIBBPF_NLA_NESTED | Nla_other u16

record libbpf_nla_policy =
  p_type :: nla_kind
  p_minlen :: u16
  p_maxlen :: u16

fun nla_attr_minlen :: "nla_kind \<Rightarrow> u32" where
  "nla_attr_minlen LIBBPF_NLA_U8 = 1"
| "nla_attr_minlen LIBBPF_NLA_U16 = 2"
| "nla_attr_minlen LIBBPF_NLA_U32 = 4"
| "nla_attr_minlen LIBBPF_NLA_U64 = 8"
| "nla_attr_minlen LIBBPF_NLA_STRING = 1"
| "nla_attr_minlen _ = 0"

text \<open>\<^verbatim>\<open>libbpf_nla_len\<close>, \<^verbatim>\<open>libbpf_nla_data\<close>, \<^verbatim>\<open>nla_type\<close>.\<close>

definition libbpf_nla_len :: "bytes \<Rightarrow> nat \<Rightarrow> int option" where
  "libbpf_nla_len m nla = map_option (\<lambda>l. uint l - NLA_HDRLEN) (load16 m nla)"

definition libbpf_nla_data :: "nat \<Rightarrow> nat" where "libbpf_nla_data nla = nla + nat NLA_HDRLEN"

definition nla_type :: "bytes \<Rightarrow> nat \<Rightarrow> int option" where
  "nla_type m nla = map_option (\<lambda>t. uint (t AND NLA_TYPE_MASK)) (load16 m (nla + 2))"

definition nla_next :: "bytes \<Rightarrow> nat \<Rightarrow> int \<Rightarrow> (nat \<times> int) option" where
  "nla_next m nla remaining = do {
     l \<leftarrow> load16 m nla;
     let totlen = NLA_ALIGN (uint l);
     Some (nla + nat totlen, remaining - totlen)
   }"

text \<open>The first comparison is one of \<^verbatim>\<open>size_t\<close>, the last one of \<^verbatim>\<open>int\<close>.\<close>

definition nla_ok :: "bytes \<Rightarrow> nat \<Rightarrow> int \<Rightarrow> bool option" where
  "nla_ok m nla remaining =
     (if size_t remaining \<ge> 4
      then map_option (\<lambda>l. uint l \<ge> 4 \<and> uint l \<le> remaining) (load16 m nla)
      else Some False)"

definition validate_nla :: "bytes \<Rightarrow> nat \<Rightarrow> int \<Rightarrow> libbpf_nla_policy list \<Rightarrow> int option" where
  "validate_nla m nla maxtype policy = do {
     type \<leftarrow> nla_type m nla;
     if type < 0 \<or> type > maxtype then Some 0
     else if nat type < length policy then
       let pt = policy ! nat type
       in case p_type pt of
            Nla_other _ \<Rightarrow> Some 0
          | k \<Rightarrow> do {
              let minlen = (if p_minlen pt \<noteq> 0 then ucast (p_minlen pt)
                            else if k \<noteq> LIBBPF_NLA_UNSPEC then nla_attr_minlen k else 0 :: u32);
              len \<leftarrow> libbpf_nla_len m nla;
              if (of_int len :: u32) < minlen then Some (- 1)
              else if p_maxlen pt \<noteq> 0 \<and> len > uint (p_maxlen pt) then Some (- 1)
              else if k = LIBBPF_NLA_STRING then
                (if libbpf_nla_data nla + nat len = 0 then None
                 else map_option (\<lambda>c. if c \<noteq> 0 then - 1 else 0) (load8 m (libbpf_nla_data nla + nat len - 1)))
              else Some 0
            }
     else None
   }"

lemma and_not_mask: "(x :: int) AND NOT (mask k) = push_bit k (drop_bit k x)"
  by (rule bit_eqI) (auto simp: bit_simps)

lemma NLA_ALIGN_mod: "NLA_ALIGN x = (x + 3) - (x + 3) mod 4"
proof -
  have "(x + 3) AND NOT (3 :: int) = (x + 3) AND NOT (mask 2)" by (simp add: mask_eq_exp_minus_1)
  also have "\<dots> = push_bit 2 (drop_bit 2 (x + 3))" by (rule and_not_mask)
  finally show ?thesis using bits_ident [of 2 "x + 3"] by (simp add: NLA_ALIGN_def take_bit_eq_mod)
qed

lemma nla_ok_next:
  assumes "nla_ok m nla rem = Some True" and "nla_next m nla rem = Some (nla', rem')"
  shows "nla + 2 \<le> length m" "nla + 4 \<le> nla'" "rem' \<le> rem - 4"
  using assms by (auto simp: nla_ok_def nla_next_def load16_def NLA_ALIGN_mod Let_def split: if_splits)

lemma nla_progress:
  assumes "nla_ok m nla rem = Some True" and "nla_next m nla rem = Some (nla', rem')"
  shows "length m - nla' < length m - nla"
  using nla_ok_next [OF assms] by linarith

text \<open>
  The loop of \<^verbatim>\<open>libbpf_nla_parse\<close>; \<open>tb\<close> holds offsets of attributes.  The memory is finite and every round advances, so it ends.
\<close>

function parse_loop ::
    "bytes \<Rightarrow> int \<Rightarrow> libbpf_nla_policy list option \<Rightarrow> nat \<Rightarrow> int \<Rightarrow> nat option list \<Rightarrow> (int \<times> nat option list) option" where
  "parse_loop m maxtype policy nla rem tb =
     (case nla_ok m nla rem of
        None \<Rightarrow> None
      | Some False \<Rightarrow> Some (0, tb)
      | Some True \<Rightarrow>
          (case nla_type m nla of
             None \<Rightarrow> None
           | Some type \<Rightarrow>
               if type > maxtype then
                 (case nla_next m nla rem of None \<Rightarrow> None | Some (nla, rem) \<Rightarrow> parse_loop m maxtype policy nla rem tb)
               else
                 (case (case policy of None \<Rightarrow> Some 0 | Some p \<Rightarrow> validate_nla m nla maxtype p) of
                    None \<Rightarrow> None
                  | Some err \<Rightarrow>
                      if err < 0 then Some (err, tb)
                      else (case nla_next m nla rem of
                          None \<Rightarrow> None
                        | Some (nla', rem) \<Rightarrow> parse_loop m maxtype policy nla' rem (tb[nat type := Some nla])))))"
  by pat_completeness auto

termination
  by (relation "measure (\<lambda>(m, maxtype, policy, nla, rem, tb). length m - nla)") (auto dest: nla_progress)

declare parse_loop.simps [simp del]

definition libbpf_nla_parse ::
    "bytes \<Rightarrow> int \<Rightarrow> nat \<Rightarrow> int \<Rightarrow> libbpf_nla_policy list option \<Rightarrow> (int \<times> nat option list) option" where
  "libbpf_nla_parse m maxtype head len policy = parse_loop m maxtype policy head len (replicate (nat (maxtype + 1)) None)"

definition libbpf_nla_parse_nested ::
    "bytes \<Rightarrow> int \<Rightarrow> nat \<Rightarrow> libbpf_nla_policy list option \<Rightarrow> (int \<times> nat option list) option" where
  "libbpf_nla_parse_nested m maxtype nla policy = do {
     len \<leftarrow> libbpf_nla_len m nla;
     libbpf_nla_parse m maxtype (libbpf_nla_data nla) len policy
   }"

definition req_tail :: "bytes \<Rightarrow> nat option" where
  "req_tail req = map_option (\<lambda>l. unat (NLMSG_ALIGN l)) (load32 req 0)"

text \<open>The result and the request; the size check is one of unsigned numbers.\<close>

definition nlattr_add :: "bytes \<Rightarrow> int \<Rightarrow> bytes option \<Rightarrow> int \<Rightarrow> (int \<times> bytes) option" where
  "nlattr_add req type data len = do {
     nlmsg_len \<leftarrow> load32 req 0;
     hl \<leftarrow> c_int (NLA_HDRLEN + len);
     _ \<leftarrow> c_int (hl + 3);
     if unat (NLMSG_ALIGN nlmsg_len + of_int (NLA_ALIGN hl) :: u32) > nla_req_size then Some (- EMSGSIZE, req)
     else if (data \<noteq> None) \<noteq> (len \<noteq> 0) then Some (- EINVAL, req)
     else do {
       nla \<leftarrow> req_tail req;
       req \<leftarrow> store16 req (nla + 2) (of_int type);
       req \<leftarrow> store16 req nla (of_int hl);
       req \<leftarrow> (case data of
                  None \<Rightarrow> Some req
                | Some d \<Rightarrow> if len < 0 then None else memcpy req (libbpf_nla_data nla) d (nat len));
       nla_len \<leftarrow> load16 req nla;
       req \<leftarrow> store32 req 0 (NLMSG_ALIGN nlmsg_len + of_int (NLA_ALIGN (uint nla_len)));
       Some (0, req)
     }
   }"

definition nlattr_begin_nested :: "bytes \<Rightarrow> int \<Rightarrow> (nat option \<times> bytes) option" where
  "nlattr_begin_nested req type = do {
     tail \<leftarrow> req_tail req;
     (err, req) \<leftarrow> nlattr_add req (type OR uint NLA_F_NESTED) None 0;
     Some (if err \<noteq> 0 then None else Some tail, req)
   }"

definition nlattr_end_nested :: "bytes \<Rightarrow> nat \<Rightarrow> bytes option" where
  "nlattr_end_nested req tail = do {
     t \<leftarrow> req_tail req;
     store16 req tail (of_int (int t - int tail))
   }"

text \<open>
  \<^verbatim>\<open>libbpf_nla_dump_errormsg\<close> for the message at offset 0: the line that is printed, or nothing.  The message of the
  kernel is the offset of a string, or the null pointer.
\<close>

datatype extack = Nothing | Parse_failed | Kernel_message "nat option"

definition NLMSGERR_ATTR_MAX :: int where "NLMSGERR_ATTR_MAX = 3"

definition extack_policy :: "libbpf_nla_policy list" where
  "extack_policy = [\<lparr>p_type = LIBBPF_NLA_UNSPEC, p_minlen = 0, p_maxlen = 0\<rparr>, \<lparr>p_type = LIBBPF_NLA_STRING, p_minlen = 0, p_maxlen = 0\<rparr>,
     \<lparr>p_type = LIBBPF_NLA_U32, p_minlen = 0, p_maxlen = 0\<rparr>, \<lparr>p_type = LIBBPF_NLA_UNSPEC, p_minlen = 0, p_maxlen = 0\<rparr>]"

definition libbpf_nla_dump_errormsg :: "bytes \<Rightarrow> extack option" where
  "libbpf_nla_dump_errormsg m = do {
     nlmsg_len \<leftarrow> load32 m 0;
     nlmsg_flags \<leftarrow> load16 m 6;
     if nlmsg_flags AND 0x200 = 0 then Some Nothing
     else do {
       let err = 16;
       hlen \<leftarrow> (if nlmsg_flags AND 0x100 = 0
                 then do { l \<leftarrow> load32 m (err + 4); c_int (20 + to_int (uint (l - 16))) }
                 else Some 20);
       let alen = to_int (uint (nlmsg_len - of_int hlen));
       if int err + hlen < 0 then None
       else do {
         (ret, tb) \<leftarrow> libbpf_nla_parse m NLMSGERR_ATTR_MAX (nat (int err + hlen)) alen (Some extack_policy);
         if ret \<noteq> 0 then Some Parse_failed
         else Some (Kernel_message (map_option libbpf_nla_data (tb ! 1)))
       }
     }
   }"

section \<open>Parsing stays inside the message\<close>

definition attr_in :: "bytes \<Rightarrow> nat \<Rightarrow> nat \<Rightarrow> nat \<Rightarrow> nat \<Rightarrow> bool" where
  "attr_in m lo hi k off \<longleftrightarrow> lo \<le> off \<and> nla_type m off = Some (int k) \<and>
     (\<exists>l. load16 m off = Some l \<and> 4 \<le> uint l \<and> int off + uint l \<le> int hi)"

definition index_ok :: "bytes \<Rightarrow> nat \<Rightarrow> nat \<Rightarrow> nat option list \<Rightarrow> bool" where
  "index_ok m lo hi tb \<longleftrightarrow> (\<forall>k < length tb. \<forall>off. tb ! k = Some off \<longrightarrow> attr_in m lo hi k off)"

definition policy_ok :: "int \<Rightarrow> libbpf_nla_policy list option \<Rightarrow> bool" where
  "policy_ok maxtype policy \<longleftrightarrow> (case policy of None \<Rightarrow> True | Some p \<Rightarrow> maxtype < int (length p))"

lemma nla_type_nonneg: "nla_type m nla = Some k \<Longrightarrow> 0 \<le> k"
  by (auto simp: nla_type_def)

lemma nla_ok_in:
  assumes "0 \<le> rem" and "rem < 2 ^ 31" and "int nla + rem \<le> int (length m)"
  shows "(rem < 4 \<and> nla_ok m nla rem = Some False) \<or>
    (4 \<le> rem \<and> (\<exists>l. load16 m nla = Some l \<and> nla_ok m nla rem = Some (4 \<le> uint l \<and> uint l \<le> rem)))"
  using assms by (auto simp: nla_ok_def load16_def c_simps)

lemma validate_nla_total:
  assumes "load16 m nla = Some l" and "4 \<le> uint l" and "int nla + uint l \<le> int (length m)" and "maxtype < int (length p)"
  shows "\<exists>err. validate_nla m nla maxtype p = Some err \<and> err \<in> {0, - 1}"
proof -
  have "nla + 4 \<le> length m" using assms(2,3) by linarith
  then obtain k where k: "nla_type m nla = Some k" by (simp add: nla_type_def load16_def)
  have len: "libbpf_nla_len m nla = Some (uint l - 4)" using assms(1) by (simp add: libbpf_nla_len_def NLA_HDRLEN_def)
  let ?pt = "p ! nat k"
  show ?thesis
  proof (cases "k < 0 \<or> k > maxtype")
    case True
    then show ?thesis using k by (auto simp: validate_nla_def)
  next
    case False
    then have kp: "nat k < length p" using assms(4) by linarith
    show ?thesis
      using False k kp len assms(2,3)
      by (auto simp: validate_nla_def Let_def load8_def libbpf_nla_data_def NLA_HDRLEN_def split: nla_kind.splits)
  qed
qed

lemma NLA_ALIGN_le: "x \<le> r \<Longrightarrow> r mod 4 = 0 \<Longrightarrow> NLA_ALIGN x \<le> r"
  unfolding NLA_ALIGN_mod by presburger

lemma NLA_ALIGN_ge: "x \<le> NLA_ALIGN x" "NLA_ALIGN x mod 4 = 0"
  unfolding NLA_ALIGN_mod by presburger+

lemma index_ok_update:
  assumes "index_ok m lo hi tb" and "attr_in m lo hi k off"
  shows "index_ok m lo hi (tb[k := Some off])"
  unfolding index_ok_def
proof (intro allI impI)
  fix j o'
  assume "j < length (tb[k := Some off])" and "tb[k := Some off] ! j = Some o'"
  then show "attr_in m lo hi j o'" using assms by (cases "j = k") (auto simp: index_ok_def)
qed

lemma parse_loop_safe:
  assumes "0 \<le> rem" and "rem < 2 ^ 31" and "rem mod 4 = 0" and "int nla + rem = int hi" and "hi \<le> length m" and "lo \<le> nla"
    and "policy_ok maxtype policy" and "length tb = nat (maxtype + 1)" and "index_ok m lo hi tb"
  shows "\<exists>ret tb'. parse_loop m maxtype policy nla rem tb = Some (ret, tb') \<and> ret \<in> {0, - 1} \<and> length tb' = nat (maxtype + 1) \<and> index_ok m lo hi tb'"
  using assms
proof (induction m maxtype policy nla rem tb rule: parse_loop.induct)
  case (1 m maxtype policy nla rem tb)
  note IH = 1(1,2) and pre = 1(3-)
  consider "nla_ok m nla rem = Some False" | l where "load16 m nla = Some l" "nla_ok m nla rem = Some True" "4 \<le> uint l" "uint l \<le> rem"
    using nla_ok_in [of rem nla m] pre(1,2,4,5) by force
  then show ?case
  proof cases
    case 1
    then show ?thesis using pre(8,9) by (subst parse_loop.simps) auto
  next
    case (2 l)
    let ?n = "NLA_ALIGN (uint l)"
    have n: "4 \<le> ?n" "?n \<le> rem" "?n mod 4 = 0" using NLA_ALIGN_ge [of "uint l"] NLA_ALIGN_le [OF 2(4) pre(3)] 2(3) by auto
    have nx: "nla_next m nla rem = Some (nla + nat ?n, rem - ?n)" using 2(1) by (simp add: nla_next_def Let_def)
    have "nla + 4 \<le> length m" using 2(3,4) pre(4,5) by linarith
    then obtain k where k: "nla_type m nla = Some k" by (simp add: nla_type_def load16_def)
    have go: "0 \<le> rem - ?n" "rem - ?n < 2 ^ 31" "(rem - ?n) mod 4 = 0" "int (nla + nat ?n) + (rem - ?n) = int hi" "lo \<le> nla + nat ?n"
      using n pre(2,3,4,6) by (auto simp: mod_diff_eq [symmetric] simp del: mod_diff_eq)
    show ?thesis
    proof (cases "maxtype < k")
      case True
      then show ?thesis
        using IH(1) [OF 2(2) refl k True nx refl] go pre(5,7,8,9) 2(2) k nx by (subst parse_loop.simps) auto
    next
      case False
      let ?v = "case policy of None \<Rightarrow> Some 0 | Some p \<Rightarrow> validate_nla m nla maxtype p"
      have v: "\<exists>err. ?v = Some err \<and> err \<in> {0, - 1}"
        using validate_nla_total [OF 2(1,3), of maxtype] 2(4) pre(4,5,7) by (cases policy) (auto simp: policy_ok_def)
      then obtain err where e: "?v = Some err" "err \<in> {0, - 1}" by blast
      have k0: "0 \<le> k" by (rule nla_type_nonneg [OF k])
      have a: "attr_in m lo hi (nat k) nla" using 2 k k0 pre(4,6) by (auto simp: attr_in_def)
      show ?thesis
      proof (cases "err < 0")
        case True
        then show ?thesis using e 2(2) k False pre(8,9) by (subst parse_loop.simps) auto
      next
        case F: False
        then show ?thesis
          using IH(2) [OF 2(2) refl k False e(1) F nx refl] go pre(5,7,8) index_ok_update [OF pre(9) a] 2(2) k e False nx
          by (subst parse_loop.simps) auto
      qed
    qed
  qed
qed

text \<open>
  C35. On a stream of attributes whose length is a multiple of four, \<open>libbpf_nla_parse\<close> reads only bytes of the
  stream, whatever they are, returns 0 or \<open>- 1\<close>, and every entry of the index is an attribute of that
  type that lies completely inside the stream.
\<close>

theorem libbpf_nla_parse_safe:
  assumes "head + nat len \<le> length m" and "0 \<le> len" and "len < 2 ^ 31" and "len mod 4 = 0" and "policy_ok maxtype policy"
  shows "\<exists>ret tb. libbpf_nla_parse m maxtype head len policy = Some (ret, tb) \<and> ret \<in> {0, - 1} \<and> length tb = nat (maxtype + 1) \<and>
    (\<forall>k off. k < length tb \<and> tb ! k = Some off \<longrightarrow> attr_in m head (head + nat len) k off)"
proof -
  have "index_ok m head (head + nat len) (replicate (nat (maxtype + 1)) None)" by (simp add: index_ok_def)
  then show ?thesis
    using parse_loop_safe [of len head "head + nat len" m head maxtype policy "replicate (nat (maxtype + 1)) None"] assms
    by (auto simp: libbpf_nla_parse_def index_ok_def)
qed

theorem libbpf_nla_parse_safe_witness:
  "\<exists>ret tb. libbpf_nla_parse [5, 0, 1, 0, 65, 0, 0, 0] 3 0 8 (Some extack_policy) = Some (ret, tb) \<and> length tb = 4"
  using libbpf_nla_parse_safe [of 0 8 "[5, 0, 1, 0, 65, 0, 0, 0]" 3 "Some extack_policy"] by (auto simp: policy_ok_def extack_policy_def)

text \<open>
  Without the padding the loop reads behind the stream: after the last attribute \<^verbatim>\<open>rem\<close> is negative, the test of
  \<^verbatim>\<open>nla_ok\<close> converts it to a large \<^verbatim>\<open>size_t\<close>, and the length of an attribute behind the end is read.
\<close>

theorem libbpf_nla_parse_unaligned:
  assumes "length m = head + n" and "load16 m head = Some (of_nat n)" and "4 \<le> n" and "n < 2 ^ 16" and "n mod 4 \<noteq> 0"
  shows "libbpf_nla_parse m maxtype head (int n) None = None"
proof -
  let ?a = "NLA_ALIGN (int n)"
  have u: "uint (of_nat n :: u16) = int n" using assms(4) by (simp add: unsigned_of_nat take_bit_eq_mod)
  have a: "int n < ?a" "?a < int n + 4" using assms(5) unfolding NLA_ALIGN_mod by presburger+
  obtain k where k: "nla_type m head = Some k" using assms(1,3) by (simp add: nla_type_def load16_def)
  have ok: "nla_ok m head (int n) = Some True" using assms(2-4) u by (simp add: nla_ok_def c_simps)
  have nx: "nla_next m head (int n) = Some (head + nat ?a, int n - ?a)" using assms(2) u by (simp add: nla_next_def Let_def)
  have "4 \<le> size_t (int n - ?a)"
  proof -
    have "(int n - ?a) mod 2 ^ 64 = int n - ?a + 2 ^ 64" using a mod_add_self2 [of "int n - ?a" "2 ^ 64"] mod_pos_pos_trivial [of "int n - ?a + 2 ^ 64" "2 ^ 64"] by simp
    then show ?thesis using a by (simp add: size_t_def)
  qed
  then have "nla_ok m (head + nat ?a) (int n - ?a) = None" using a assms(1) by (simp add: nla_ok_def load16_def)
  then have "parse_loop m maxtype None (head + nat ?a) (int n - ?a) tb = None" for tb by (subst parse_loop.simps) simp
  then show ?thesis unfolding libbpf_nla_parse_def using ok k nx by (subst parse_loop.simps) simp
qed

text \<open>
  \<^verbatim>\<open>libbpf_nla_dump_errormsg\<close> does not subtract the header of the message from the length of the attributes: on a message
  that has none, it reads behind its end.
\<close>

theorem libbpf_nla_dump_errormsg_overrun:
  assumes "length m = 36" and "load32 m 0 = Some 36" and "load16 m 6 = Some 0x300"
  shows "libbpf_nla_dump_errormsg m = None"
proof -
  have "nla_ok m 36 16 = None" using assms(1) by (simp add: nla_ok_def load16_def c_simps)
  then have "libbpf_nla_parse m NLMSGERR_ATTR_MAX 36 16 (Some extack_policy) = None"
    unfolding libbpf_nla_parse_def by (subst parse_loop.simps) simp
  then show ?thesis using assms by (simp add: libbpf_nla_dump_errormsg_def to_int_def)
qed


section \<open>What is added is found\<close>

definition attr_size :: "bytes \<Rightarrow> nat" where "attr_size d = nat (NLA_ALIGN (4 + int (length d)))"

definition attr_at :: "bytes \<Rightarrow> nat \<Rightarrow> nat \<Rightarrow> bytes \<Rightarrow> bool" where
  "attr_at m off ty d \<longleftrightarrow> load16 m off = Some (of_nat (4 + length d)) \<and> load16 m (off + 2) = Some (of_nat ty) \<and>
     load_bytes m (off + 4) (length d) = Some d"

fun attrs_at :: "bytes \<Rightarrow> nat \<Rightarrow> (nat \<times> bytes) list \<Rightarrow> bool" where
  "attrs_at m off [] = True"
| "attrs_at m off ((ty, d) # xs) = (attr_at m off ty d \<and> attrs_at m (off + attr_size d) xs)"

definition attrs_size :: "(nat \<times> bytes) list \<Rightarrow> nat" where "attrs_size xs = sum_list (map (attr_size \<circ> snd) xs)"

lemma attr_size_bounds: "4 + length d \<le> attr_size d" "attr_size d mod 4 = 0" "int (attr_size d) = NLA_ALIGN (4 + int (length d))"
proof -
  show i: "int (attr_size d) = NLA_ALIGN (4 + int (length d))" using NLA_ALIGN_ge(1) [of "4 + int (length d)"] by (simp add: attr_size_def)
  show "4 + length d \<le> attr_size d" using i NLA_ALIGN_ge(1) [of "4 + int (length d)"] by linarith
  show "attr_size d mod 4 = 0" using NLA_ALIGN_ge(2) [of "4 + int (length d)"] unfolding i [symmetric] by presburger
qed

lemma attrs_size_mod: "attrs_size xs mod 4 = 0"
  using attr_size_bounds(2) by (induction xs) (auto simp: attrs_size_def mod_add_eq [symmetric] simp del: mod_add_eq)

lemma and_not_mask_word: "(x :: 'a::len word) AND NOT (mask k) = push_bit k (drop_bit k x)"
  by (rule bit_word_eqI) (auto simp: bit_simps)

lemma uint_small16: "k < 2 ^ 16 \<Longrightarrow> uint (of_nat k :: u16) = int k"
  by (simp add: unsigned_of_nat take_bit_eq_mod)

lemma store32_above: "store32 m a v = Some m' \<Longrightarrow> a + 4 \<le> j \<Longrightarrow> m' ! j = m ! j"
  by (auto simp: store32_def split: if_splits)

lemma NLMSG_ALIGN_id:
  assumes "e mod 4 = 0"
  shows "NLMSG_ALIGN (of_nat e) = of_nat e"
proof -
  have "(e + 3) mod 4 = 3" using assms by presburger
  then have "take_bit 2 (e + 3) = 3" by (simp add: take_bit_eq_mod)
  then have t: "take_bit 2 (of_nat (e + 3) :: u32) = 3" unfolding of_nat_take_bit [symmetric] by simp
  have "(of_nat (e + 3) :: u32) AND NOT (mask 2) = push_bit 2 (drop_bit 2 (of_nat (e + 3)))"
    by (rule and_not_mask_word)
  also have "\<dots> = of_nat (e + 3) - 3" using bits_ident [of 2 "of_nat (e + 3) :: u32"] t by (metis add_diff_cancel_right')
  finally show ?thesis by (simp add: NLMSG_ALIGN_def mask_eq_exp_minus_1 add.commute)
qed

lemma load32_eq_Some: "load32 m a = Some v \<Longrightarrow> a + 4 \<le> length m"
  by (simp add: load32_def split: if_splits)

lemma nlattr_add_ok:
  assumes "length m = nla_req_size" and "load32 m 0 = Some (of_nat e)" and "e mod 4 = 0" and "4 \<le> e" and "e + attr_size d \<le> nla_req_size"
  shows "\<exists>m'. nlattr_add m (int ty) (if d = [] then None else Some d) (int (length d)) = Some (0, m') \<and> length m' = nla_req_size \<and>
    load32 m' 0 = Some (of_nat (e + attr_size d)) \<and> attr_at m' e ty d \<and> (\<forall>j. 4 \<le> j \<and> j < e \<longrightarrow> m' ! j = m ! j)"
proof -
  let ?n = "length d" and ?w = "of_nat (4 + length d) :: u16"
  have b: "4 + ?n \<le> attr_size d" "e + 4 + ?n \<le> length m" "length m = 164" "e \<le> 164" "?n \<le> 160"
    using attr_size_bounds(1) [of d] assms(1,4,5) by (auto simp: nla_req_size_def)
  have al: "NLMSG_ALIGN (of_nat e) = of_nat e" by (rule NLMSG_ALIGN_id [OF assms(3)])
  have s: "of_int (NLA_ALIGN (4 + int ?n)) = (of_nat (attr_size d) :: u32)" using attr_size_bounds(3) [of d] by (metis of_int_of_nat_eq)
  have tail: "req_tail m = Some e" using assms(2) al b by (simp add: req_tail_def unat_of_nat take_bit_eq_mod)
  have le: "unat (of_nat e + of_nat (attr_size d) :: u32) \<le> nla_req_size"
    using assms(5) by (simp add: unat_of_nat take_bit_eq_mod nla_req_size_def flip: of_nat_add)
  let ?m1 = "m[e + 2 := ucast (of_nat ty :: u16), e + 3 := ucast (drop_bit 8 (of_nat ty :: u16))]"
  let ?m2 = "?m1[e := ucast ?w, e + 1 := ucast (drop_bit 8 ?w)]"
  let ?m3 = "take (e + 4) ?m2 @ d @ drop (e + 4 + ?n) ?m2"
  have s1: "store16 m (e + 2) (of_int (int ty)) = Some ?m1" using b by (simp add: store16_def numeral_eq_Suc)
  have s2: "store16 ?m1 e (of_int (4 + int ?n)) = Some ?m2" using b by (simp add: store16_def)
  have "(case (if d = [] then None else Some d) of None \<Rightarrow> Some M
      | Some d' \<Rightarrow> if int ?n < 0 then None else memcpy M (libbpf_nla_data e) d' (nat (int ?n))) =
      Some (take (e + 4) M @ d @ drop (e + 4 + ?n) M)" if "length M = 164" for M
    using b that by (auto simp: memcpy_def libbpf_nla_data_def NLA_HDRLEN_def)
  from this [of ?m2] have s3: "(case (if d = [] then None else Some d) of None \<Rightarrow> Some ?m2
      | Some d' \<Rightarrow> if int ?n < 0 then None else memcpy ?m2 (libbpf_nla_data e) d' (nat (int ?n))) = Some ?m3" using b by simp
  have l3: "length ?m3 = 164" using b by simp
  have lw: "load16 ?m3 e = Some ?w" using b word16_bytes [of ?w] by (simp add: load16_def nth_append nth_list_update)
  obtain m' where s4: "store32 ?m3 0 (of_nat (e + attr_size d)) = Some m'" using l3 by (simp add: store32_def)
  have ge: "m' ! j = ?m3 ! j" if "4 \<le> j" for j using store32_above [OF s4, of j] that by simp
  have l': "length m' = 164" using store32_length [OF s4] l3 by simp
  have h: "c_int (NLA_HDRLEN + int ?n) = Some (4 + int ?n)" "c_int (4 + int ?n + 3) = Some (4 + int ?n + 3)"
    using b by (simp_all add: NLA_HDRLEN_def c_simps)
  have "uint ?w = int (4 + ?n)" by (rule uint_small16) (use b in simp)
  then have uw: "uint ?w = 4 + int ?n" by (simp only: of_nat_add of_nat_numeral)
  have "nlattr_add m (int ty) (if d = [] then None else Some d) (int ?n) = Some (0, m')"
  proof -
    obtain m1 m2 m3 where "store16 m (e + 2) (of_int (int ty)) = Some m1" "store16 m1 e (of_int (4 + int ?n)) = Some m2"
      "(case (if d = [] then None else Some d) of None \<Rightarrow> Some m2
        | Some d' \<Rightarrow> if int ?n < 0 then None else memcpy m2 (libbpf_nla_data e) d' (nat (int ?n))) = Some m3"
      "load16 m3 e = Some ?w" "store32 m3 0 (of_nat e + of_nat (attr_size d)) = Some m'"
      using s1 s2 s3 lw s4 by (auto simp only: of_nat_add)
    then show ?thesis unfolding nlattr_add_def using assms(2) h al s le tail uw by (cases d) auto
  qed
  moreover have "load32 m' 0 = Some (of_nat (e + attr_size d))" by (rule load32_store32 [OF s4])
  moreover have "attr_at m' e ty d"
  proof -
    have "load16 m' e = load16 ?m3 e" using ge [of e] ge [of "e + 1"] assms(4) b l3 l' by (simp add: load16_def)
    moreover have "load16 m' (e + 2) = load16 ?m2 (e + 2)"
      using ge [of "e + 2"] ge [of "e + 3"] assms(4) b l' by (simp add: load16_def nth_append numeral_eq_Suc)
    moreover have "load16 ?m2 (e + 2) = Some (of_nat ty)"
      using b word16_bytes [of "of_nat ty"] by (simp add: load16_def nth_list_update numeral_eq_Suc)
    moreover have "take ?n (drop (e + 4) m') = d"
      by (rule nth_equalityI) (use ge b l' in \<open>auto simp: nth_append\<close>)
    ultimately show ?thesis using lw b l' by (simp add: attr_at_def load_bytes_def)
  qed
  moreover have "m' ! j = m ! j" if "4 \<le> j" "j < e" for j using ge that b by (simp add: nth_append)
  ultimately show ?thesis using l' by (auto simp: nla_req_size_def)
qed

fun add_all :: "bytes \<Rightarrow> (nat \<times> bytes) list \<Rightarrow> (int \<times> bytes) option" where
  "add_all m [] = Some (0, m)"
| "add_all m ((ty, d) # xs) = do {
     (err, m) \<leftarrow> nlattr_add m (int ty) (if d = [] then None else Some d) (int (length d));
     if err \<noteq> 0 then Some (err, m) else add_all m xs
   }"

fun nla_index :: "int \<Rightarrow> nat \<Rightarrow> (nat \<times> bytes) list \<Rightarrow> nat option list \<Rightarrow> nat option list" where
  "nla_index maxtype off [] tb = tb"
| "nla_index maxtype off ((ty, d) # xs) tb =
     nla_index maxtype (off + attr_size d) xs (if maxtype < int ty then tb else tb[ty := Some off])"

lemma attrs_size_simps [simp]: "attrs_size [] = 0" "attrs_size ((ty, d) # xs) = attr_size d + attrs_size xs"
  "attrs_size (xs @ ys) = attrs_size xs + attrs_size ys"
  by (simp_all add: attrs_size_def)

lemma attrs_at_snoc: "attrs_at m off (xs @ [(ty, d)]) \<longleftrightarrow> attrs_at m off xs \<and> attr_at m (off + attrs_size xs) ty d"
  by (induction m off xs rule: attrs_at.induct) (auto simp: add.assoc)

lemma attr_at_cong:
  assumes "length m = length m'" and "\<And>j. off \<le> j \<Longrightarrow> j < off + 4 + length d \<Longrightarrow> m' ! j = m ! j" and "attr_at m off ty d"
  shows "attr_at m' off ty d"
proof -
  have l: "off + 4 + length d \<le> length m" and t: "take (length d) (drop (off + 4) m) = d"
    using assms(3) by (auto simp: attr_at_def load_bytes_def split: if_splits)
  have "load16 m' off = load16 m off" "load16 m' (off + 2) = load16 m (off + 2)"
    by (rule load16_cong; use assms(1,2) in simp)+
  moreover have "take (length d) (drop (off + 4) m') = take (length d) (drop (off + 4) m)"
    by (rule nth_equalityI) (use assms(1,2) l in auto)
  ultimately show ?thesis using assms(1,3) t l by (simp add: attr_at_def load_bytes_def)
qed

lemma attrs_at_cong:
  "length m = length m' \<Longrightarrow> (\<And>j. off \<le> j \<Longrightarrow> j < off + attrs_size xs \<Longrightarrow> m' ! j = m ! j) \<Longrightarrow> attrs_at m off xs \<Longrightarrow> attrs_at m' off xs"
proof (induction m off xs rule: attrs_at.induct)
  case (2 m off ty d xs)
  have "attr_at m' off ty d"
    by (rule attr_at_cong [of m]) (use 2 attr_size_bounds(1) [of d] in auto)
  moreover have "attrs_at m' (off + attr_size d) xs" by (rule "2.IH") (use 2 in auto)
  ultimately show ?case by simp
qed simp

lemma add_all_ok:
  assumes "length m = nla_req_size" and "load32 m 0 = Some (of_nat (h + attrs_size done))" and "h mod 4 = 0" and "4 \<le> h"
    and "attrs_at m h done" and "h + attrs_size done + attrs_size xs \<le> nla_req_size"
  shows "\<exists>m'. add_all m xs = Some (0, m') \<and> length m' = nla_req_size \<and> attrs_at m' h (done @ xs) \<and>
    load32 m' 0 = Some (of_nat (h + attrs_size (done @ xs))) \<and> (\<forall>j. 4 \<le> j \<and> j < h \<longrightarrow> m' ! j = m ! j)"
  using assms
proof (induction xs arbitrary: m "done")
  case (Cons x xs)
  obtain ty d where x: "x = (ty, d)" by fastforce
  have mod: "(h + attrs_size done) mod 4 = 0" using Cons.prems(3) attrs_size_mod [of "done"] by presburger
  obtain m' where m': "nlattr_add m (int ty) (if d = [] then None else Some d) (int (length d)) = Some (0, m')" "length m' = nla_req_size"
    "load32 m' 0 = Some (of_nat (h + attrs_size done + attr_size d))" "attr_at m' (h + attrs_size done) ty d"
    "\<forall>j. 4 \<le> j \<and> j < h + attrs_size done \<longrightarrow> m' ! j = m ! j"
    using nlattr_add_ok [OF Cons.prems(1,2) mod, of d ty] Cons.prems(4,6) x by auto
  have "attrs_at m' h done" by (rule attrs_at_cong [OF _ _ Cons.prems(5)]) (use m' Cons.prems(1,4) in auto)
  then have "attrs_at m' h (done @ [(ty, d)])" using m'(4) by (simp add: attrs_at_snoc)
  then show ?case using Cons.IH [of m' "done @ [(ty, d)]"] m' Cons.prems x by (simp add: add.assoc)
qed simp

lemma attr_at_type: "attr_at m off ty d \<Longrightarrow> ty < 2 ^ 14 \<Longrightarrow> nla_type m off = Some (int ty)"
proof -
  assume a: "attr_at m off ty d" "ty < 2 ^ 14"
  have "NLA_TYPE_MASK = mask 14" by (simp add: NLA_TYPE_MASK_def mask_eq_exp_minus_1)
  then have "of_nat ty AND NLA_TYPE_MASK = (take_bit 14 (of_nat ty) :: u16)" by (simp add: take_bit_eq_mask)
  also have "\<dots> = of_nat ty" using a(2) unfolding of_nat_take_bit [symmetric] by (simp add: take_bit_nat_eq_self)
  finally show ?thesis using a by (simp add: nla_type_def attr_at_def uint_small16)
qed

lemma parse_attrs:
  assumes "attrs_at m off xs" and "\<forall>(ty, d) \<in> set xs. ty < 2 ^ 14" and "attrs_size xs < 2 ^ 16"
  shows "parse_loop m maxtype None off (int (attrs_size xs)) tb = Some (0, nla_index maxtype off xs tb)"
  using assms
proof (induction xs arbitrary: off tb)
  case Nil
  then show ?case by (subst parse_loop.simps) (simp add: nla_ok_def size_t_def)
next
  case (Cons x xs)
  obtain ty d where x: "x = (ty, d)" by fastforce
  have a: "attr_at m off ty d" "attrs_at m (off + attr_size d) xs" "ty < 2 ^ 14" using Cons.prems x by auto
  have z: "4 + length d \<le> attr_size d" "attr_size d + attrs_size xs < 2 ^ 16" using attr_size_bounds(1) [of d] Cons.prems(3) x by auto
  have u: "uint (of_nat (4 + length d) :: u16) = 4 + int (length d)" using uint_small16 [of "4 + length d"] z by simp
  have l: "load16 m off = Some (of_nat (4 + length d))" using a(1) by (simp add: attr_at_def)
  have ok: "nla_ok m off (int (attr_size d + attrs_size xs)) = Some True" using l u z by (simp add: nla_ok_def c_simps)
  have nx: "nla_next m off (int (attr_size d + attrs_size xs)) = Some (off + attr_size d, int (attrs_size xs))"
    using l u attr_size_bounds(3) [of d, symmetric] by (simp add: nla_next_def Let_def)
  have "parse_loop m maxtype None (off + attr_size d) (int (attrs_size xs)) tb' = Some (0, nla_index maxtype (off + attr_size d) xs tb')" for tb'
    by (rule Cons.IH) (use a Cons.prems x z in auto)
  then show ?case unfolding x using ok nx attr_at_type [OF a(1,3)] by (subst parse_loop.simps) simp
qed


lemma nla_index_lookup:
  assumes "attrs_at m off xs" and "int k \<le> maxtype" and "length tb = nat (maxtype + 1)"
  shows "case map_of (rev xs) k of None \<Rightarrow> nla_index maxtype off xs tb ! k = tb ! k
    | Some d \<Rightarrow> \<exists>o'. nla_index maxtype off xs tb ! k = Some o' \<and> attr_at m o' k d"
  using assms
proof (induction xs arbitrary: off tb)
  case (Cons x xs)
  obtain ty d where x: "x = (ty, d)" by fastforce
  let ?tb = "if maxtype < int ty then tb else tb[ty := Some off]"
  have "k < length tb" using Cons.prems by simp
  then show ?case using Cons.IH [of "off + attr_size d" ?tb] Cons.prems x by (auto simp: map_add_def split: option.splits if_splits)
qed simp

lemma nla_index_length: "length (nla_index maxtype off xs tb) = length tb"
  by (induction maxtype off xs tb rule: nla_index.induct) auto

text \<open>
  What \<open>nlattr_add\<close> writes, \<open>libbpf_nla_parse\<close> reads: attributes that fit into a request are all added, and parsing
  the request finds for every type the attribute that was added last, with its data, and nothing for a type that was
  not added.
\<close>

theorem nlattr_roundtrip:
  assumes "length req = nla_req_size" and "load32 req 0 = Some (of_nat h)" and "h mod 4 = 0" and "4 \<le> h"
    and "\<forall>(ty, d) \<in> set xs. ty < 2 ^ 14" and "h + attrs_size xs \<le> nla_req_size"
  shows "\<exists>req' tb. add_all req xs = Some (0, req') \<and> load32 req' 0 = Some (of_nat (h + attrs_size xs)) \<and>
    libbpf_nla_parse req' maxtype h (int (attrs_size xs)) None = Some (0, tb) \<and> length tb = nat (maxtype + 1) \<and>
    (\<forall>k < length tb. case map_of (rev xs) k of None \<Rightarrow> tb ! k = None
       | Some d \<Rightarrow> \<exists>nla. tb ! k = Some nla \<and> libbpf_nla_len req' nla = Some (int (length d)) \<and>
           load_bytes req' (libbpf_nla_data nla) (length d) = Some d)"
proof -
  let ?tb = "nla_index maxtype h xs (replicate (nat (maxtype + 1)) None)"
  obtain r where r: "add_all req xs = Some (0, r)" "attrs_at r h xs" "load32 r 0 = Some (of_nat (h + attrs_size xs))"
    using add_all_ok [of req h "[]" xs] assms by auto
  have p: "libbpf_nla_parse r maxtype h (int (attrs_size xs)) None = Some (0, ?tb)"
    unfolding libbpf_nla_parse_def by (rule parse_attrs) (use r(2) assms(5,6) in \<open>auto simp: nla_req_size_def\<close>)
  have len: "attr_at r nla k d \<Longrightarrow> map_of (rev xs) k = Some d \<Longrightarrow> libbpf_nla_len r nla = Some (int (length d)) \<and>
      load_bytes r (libbpf_nla_data nla) (length d) = Some d" for nla k d
  proof -
    assume a: "attr_at r nla k d" "map_of (rev xs) k = Some d"
    then have "(k, d) \<in> set xs" by (auto dest: map_of_SomeD)
    then have "attr_size d \<le> attrs_size xs" unfolding attrs_size_def by (intro member_le_sum_list) force+
    then have "4 + length d < 2 ^ 16" using attr_size_bounds(1) [of d] assms(6) by (simp add: nla_req_size_def)
    then have "uint (of_nat (4 + length d) :: u16) = 4 + int (length d)" using uint_small16 [of "4 + length d"] by simp
    then show ?thesis using a(1) by (simp add: attr_at_def libbpf_nla_len_def libbpf_nla_data_def NLA_HDRLEN_def)
  qed
  have "case map_of (rev xs) k of None \<Rightarrow> ?tb ! k = None
       | Some d \<Rightarrow> \<exists>nla. ?tb ! k = Some nla \<and> libbpf_nla_len r nla = Some (int (length d)) \<and> load_bytes r (libbpf_nla_data nla) (length d) = Some d"
    if "k < length ?tb" for k
  proof -
    have "int k \<le> maxtype" "k < nat (maxtype + 1)" using that by (simp_all add: nla_index_length)
    then show ?thesis
      using nla_index_lookup [OF r(2), of k maxtype "replicate (nat (maxtype + 1)) None"] len [of _ k] by (fastforce split: option.splits)
  qed
  then show ?thesis using r p by (auto simp: nla_index_length)
qed

text \<open>The request of an interface change: 32 bytes of headers, then the attributes.\<close>

definition demo_req :: bytes where "demo_req = [32] @ replicate 163 0"

theorem nlattr_roundtrip_witness:
  "\<exists>req' tb. add_all demo_req [(1, [7, 0, 0, 0]), (3, [2])] = Some (0, req') \<and>
     libbpf_nla_parse req' 3 32 16 None = Some (0, tb) \<and> length tb = 4 \<and> tb ! 2 = None"
proof -
  have "attr_size [7, 0, 0, 0] = 8" "attr_size [2] = 8" by (simp_all add: attr_size_def NLA_ALIGN_mod)
  then have s: "attrs_size [(1, [7, 0, 0, 0]), (3, [2])] = 16" by simp
  have l: "length demo_req = nla_req_size" "load32 demo_req 0 = Some (of_nat 32)" by (simp_all add: demo_req_def nla_req_size_def load32_def)
  let ?xs = "[(1, [7, 0, 0, 0]), (3, [2])] :: (nat \<times> bytes) list"
  have "32 mod 4 = (0 :: nat)" "4 \<le> (32 :: nat)" "\<forall>(ty, d) \<in> set ?xs. ty < 2 ^ 14" "32 + attrs_size ?xs \<le> nla_req_size"
    unfolding s by (simp_all add: nla_req_size_def)
  from nlattr_roundtrip [OF l this, of 3] obtain req' tb where t: "add_all demo_req ?xs = Some (0, req')"
    "libbpf_nla_parse req' 3 32 (int (attrs_size ?xs)) None = Some (0, tb)" "length tb = nat (3 + 1)"
    "\<forall>k < length tb. case map_of (rev ?xs) k of None \<Rightarrow> tb ! k = None
       | Some d \<Rightarrow> \<exists>nla. tb ! k = Some nla \<and> libbpf_nla_len req' nla = Some (int (length d)) \<and>
           load_bytes req' (libbpf_nla_data nla) (length d) = Some d"
    by (elim exE conjE) (rule that)
  have "tb ! 2 = None" using t(3) t(4) [rule_format, of 2] by simp
  moreover have "libbpf_nla_parse req' 3 32 16 None = Some (0, tb)" using t(2) unfolding s by simp
  ultimately show ?thesis using t(1,3) by auto
qed

end
