(* ===== verification/Nlattr_Decode.thy ===== *)
theory Nlattr_Decode
  imports Nlattr
begin

text \<open>
  A reference decoder of netlink attributes, on the bytes alone: the list of the types and contents.  The parser of
  \<^verbatim>\<open>nlattr.c\<close> finds for every type the last attribute of that type of this list, and the attributes that \<open>nlattr_add\<close>
  writes decode to what was written.
\<close>

section \<open>The decoder\<close>

function dec_attrs :: "bytes \<Rightarrow> (nat \<times> bytes) list" where
  "dec_attrs bs =
     (if length bs < 4 then []
      else let l = unat (the (load16 bs 0)); t = unat (the (load16 bs 2)) mod 2 ^ 14 in
        if l < 4 \<or> length bs < l then [] else (t, take (l - 4) (drop 4 bs)) # dec_attrs (drop ((l + 3) div 4 * 4) bs))"
  by pat_completeness auto

termination
  by (relation "measure length") auto

declare dec_attrs.simps [simp del]

text \<open>The content of the last attribute of a type.\<close>

definition attr_of :: "bytes \<Rightarrow> nat \<Rightarrow> bytes option" where
  "attr_of bs k = map_of (rev (dec_attrs bs)) k"

definition found :: "bytes \<Rightarrow> nat \<Rightarrow> bytes \<Rightarrow> bool" where
  "found m off d \<longleftrightarrow> load16 m off = Some (of_nat (4 + length d)) \<and> 4 + length d < 2 ^ 16 \<and> load_bytes m (off + 4) (length d) = Some d"

lemma load_bytes_sub:
  assumes "load_bytes m off (length bs) = Some bs" and "i + n \<le> length bs"
  shows "load_bytes m (off + i) n = Some (take n (drop i bs))"
proof -
  have b: "bs = take (length bs) (drop off m)" "off + length bs \<le> length m" using assms(1) by (auto simp: load_bytes_def split: if_splits)
  have "take n (drop (off + i) m) = take n (drop i bs)"
    by (subst b(1)) (use assms(2) in \<open>simp add: drop_take add.commute\<close>)
  then show ?thesis using assms(2) b(2) by (simp add: load_bytes_def)
qed

lemma load_bytes_nth:
  assumes "load_bytes m off (length bs) = Some bs"
  shows "off + length bs \<le> length m" and "j < length bs \<Longrightarrow> m ! (off + j) = bs ! j"
proof -
  have b: "bs = take (length bs) (drop off m)" "off + length bs \<le> length m" using assms by (auto simp: load_bytes_def split: if_splits)
  then show "off + length bs \<le> length m" by simp
  show "m ! (off + j) = bs ! j" if "j < length bs" using arg_cong [OF b(1), of "\<lambda>xs. xs ! j"] that b(2) by simp
qed

lemma load16_sub: "load_bytes m off (length bs) = Some bs \<Longrightarrow> i + 2 \<le> length bs \<Longrightarrow> load16 m (off + i) = load16 bs i"
  using load_bytes_nth(1) [of m off bs] load_bytes_nth(2) [of m off bs i] load_bytes_nth(2) [of m off bs "i + 1"]
  by (simp add: load16_def)

lemma load32_sub: "load_bytes m off (length bs) = Some bs \<Longrightarrow> i + 4 \<le> length bs \<Longrightarrow> load32 m (off + i) = load32 bs i"
  using load_bytes_nth(1) [of m off bs] load_bytes_nth(2) [of m off bs i] load_bytes_nth(2) [of m off bs "i + 1"]
    load_bytes_nth(2) [of m off bs "i + 2"] load_bytes_nth(2) [of m off bs "i + 3"]
  by (simp add: load32_def numeral_eq_Suc)

lemma NLA_ALIGN_nat: "NLA_ALIGN (int l) = int ((l + 3) div 4 * 4)"
proof -
  have "(int l + 3) mod 4 = int ((l + 3) mod 4)" by (simp add: zmod_int)
  moreover have "(l + 3) mod 4 \<le> l + 3" by simp
  ultimately have "NLA_ALIGN (int l) = int (l + 3 - (l + 3) mod 4)" by (simp add: NLA_ALIGN_mod)
  then show ?thesis by (simp only: minus_mod_eq_div_mult)
qed

lemma nla_type_mask: "nla_type m off = map_option (\<lambda>t. int (unat t mod 2 ^ 14)) (load16 m (off + 2))"
proof -
  have "NLA_TYPE_MASK = mask 14" by (simp add: NLA_TYPE_MASK_def mask_eq_exp_minus_1)
  then have "t AND NLA_TYPE_MASK = take_bit 14 t" for t :: u16 by (simp add: take_bit_eq_mask)
  then have "unat (t AND NLA_TYPE_MASK) = unat t mod 2 ^ 14" for t :: u16 by (simp only: unsigned_take_bit_eq) (simp only: take_bit_eq_mod)
  then have "uint (t AND NLA_TYPE_MASK) = int (unat t mod 2 ^ 14)" for t :: u16 by (simp only: uint_nat)
  then show ?thesis by (simp add: nla_type_def)
qed

section \<open>The parser computes the decoder's last attributes\<close>

lemma parse_loop_decodes:
  assumes "load_bytes m off (length bs) = Some bs" and "length bs mod 4 = 0" and "length bs < 2 ^ 31" and "length tb = nat (maxtype + 1)"
  shows "\<exists>tb'. parse_loop m maxtype None off (int (length bs)) tb = Some (0, tb') \<and> length tb' = nat (maxtype + 1) \<and>
    (\<forall>k < length tb. case attr_of bs k of None \<Rightarrow> tb' ! k = tb ! k | Some d \<Rightarrow> \<exists>o'. tb' ! k = Some o' \<and> found m o' d)"
  using assms
proof (induction bs arbitrary: off tb rule: dec_attrs.induct)
  case (1 bs)
  let ?lw = "the (load16 bs 0)"
  define l where "l = unat ?lw"
  have un: "unat ?lw = l" and ul: "uint ?lw = int l" unfolding l_def by (rule refl, rule uint_nat)
  note IH = "1.IH" [OF _ refl refl, unfolded un]
  let ?t = "unat (the (load16 bs 2)) mod 2 ^ 14"
  let ?n = "(l + 3) div 4 * 4"
  consider "length bs < 4" | "4 \<le> length bs" "l < 4 \<or> length bs < l" | "4 \<le> length bs" "4 \<le> l" "l \<le> length bs" by linarith
  then show ?case
  proof cases
    case 1
    then have "length bs = 0" "bs = []" using "1.prems"(2) by auto
    then show ?thesis using "1.prems"(4) by (subst parse_loop.simps) (simp add: nla_ok_def size_t_def attr_of_def dec_attrs.simps)
  next
    case 2
    have lo: "load16 m off = Some ?lw" using load16_sub [OF "1.prems"(1), of 0] 2(1) by (simp add: load16_def)
    have "nla_ok m off (int (length bs)) = Some False" using lo ul 2 "1.prems"(3) by (auto simp: nla_ok_def c_simps)
    moreover have "dec_attrs bs = []" using 2 by (subst dec_attrs.simps) (simp add: Let_def un)
    ultimately show ?thesis using "1.prems"(4) by (subst parse_loop.simps) (simp add: attr_of_def)
  next
    case 3
    let ?d = "take (l - 4) (drop 4 bs)"
    let ?bs = "drop ?n bs"
    let ?tb = "if maxtype < int ?t then tb else tb[?t := Some off]"
    have n: "4 \<le> ?n" "?n \<le> length bs" "?n mod 4 = 0" using 3 "1.prems"(2) by presburger+
    have lo: "load16 m off = Some ?lw" using load16_sub [OF "1.prems"(1), of 0] 3(1) by (simp add: load16_def)
    have ok: "nla_ok m off (int (length bs)) = Some True" using lo un ul 3 "1.prems"(3) by (simp add: nla_ok_def c_simps)
    have nx: "nla_next m off (int (length bs)) = Some (off + ?n, int (length ?bs))"
      using lo ul n(2) NLA_ALIGN_nat [of l] by (simp add: nla_next_def Let_def)
    have ty: "nla_type m off = Some (int ?t)"
      using load16_sub [OF "1.prems"(1), of 2] 3(1) by (simp add: nla_type_mask load16_def)
    have f: "found m off ?d"
    proof -
      have d: "length ?d = l - 4" "4 + (l - 4) = l" using 3 by auto
      have "?lw = of_nat l" unfolding l_def by simp
      then show ?thesis
        unfolding found_def d using lo 3 load_bytes_sub [OF "1.prems"(1), of 4 "l - 4"] unat_u16 [of ?lw] un by simp
    qed
    have dec: "dec_attrs bs = (?t, ?d) # dec_attrs ?bs" using 3 by (subst dec_attrs.simps) (simp add: Let_def un)
    have at: "attr_of bs k = (case attr_of ?bs k of None \<Rightarrow> if k = ?t then Some ?d else None | r \<Rightarrow> r)" for k
      by (auto simp: attr_of_def dec map_add_def split: option.splits)
    have c: "\<not> length bs < 4" "\<not> (l < 4 \<or> length bs < l)" using 3 by auto
    have p: "load_bytes m (off + ?n) (length ?bs) = Some ?bs" using load_bytes_sub [OF "1.prems"(1), of ?n "length ?bs"] n(2) by simp
    have q: "length ?bs mod 4 = 0" using "1.prems"(2) n by (auto simp: mod_eq_0_iff_dvd dvd_diff_nat)
    have r: "length ?bs < 2 ^ 31" "length ?tb = nat (maxtype + 1)" using "1.prems"(3,4) by auto
    obtain tb' where t: "parse_loop m maxtype None (off + ?n) (int (length ?bs)) ?tb = Some (0, tb')" "length tb' = nat (maxtype + 1)"
      "\<forall>k < length ?tb. case attr_of ?bs k of None \<Rightarrow> tb' ! k = ?tb ! k | Some d \<Rightarrow> \<exists>o'. tb' ! k = Some o' \<and> found m o' d"
      using IH [OF c p q r] by (elim exE conjE) (rule that)
    have "parse_loop m maxtype None off (int (length bs)) tb = Some (0, tb')"
      using ok ty nx t(1) by (subst parse_loop.simps) (cases "maxtype < int ?t", simp_all)
    moreover have "case attr_of bs k of None \<Rightarrow> tb' ! k = tb ! k | Some d \<Rightarrow> \<exists>o'. tb' ! k = Some o' \<and> found m o' d"
      if k: "k < length tb" for k
      using t(3) [rule_format, of k] k f "1.prems"(4) unfolding at by (auto split: option.splits if_splits)
    ultimately show ?thesis using t(2) by blast
  qed
qed

text \<open>The index of a parse: at every type the last attribute of that type, or nothing.\<close>

definition index_of :: "bytes \<Rightarrow> bytes \<Rightarrow> nat option list \<Rightarrow> bool" where
  "index_of m bs tb \<longleftrightarrow> (\<forall>k < length tb. rel_option (found m) (tb ! k) (attr_of bs k))"

lemma index_ofD: "index_of m bs tb \<Longrightarrow> k < length tb \<Longrightarrow> rel_option (found m) (tb ! k) (attr_of bs k)"
  by (simp add: index_of_def)

lemma parse_decodes:
  assumes "load_bytes m off (length bs) = Some bs" and "length bs mod 4 = 0" and "length bs < 2 ^ 31"
  shows "\<exists>tb. libbpf_nla_parse m maxtype off (int (length bs)) None = Some (0, tb) \<and> length tb = nat (maxtype + 1) \<and> index_of m bs tb"
proof -
  let ?tb = "replicate (nat (maxtype + 1)) None :: nat option list"
  obtain tb where t: "parse_loop m maxtype None off (int (length bs)) ?tb = Some (0, tb)" "length tb = nat (maxtype + 1)"
    "\<forall>k < length ?tb. case attr_of bs k of None \<Rightarrow> tb ! k = ?tb ! k | Some d \<Rightarrow> \<exists>o'. tb ! k = Some o' \<and> found m o' d"
    using parse_loop_decodes [OF assms, where tb = ?tb and maxtype = maxtype, OF length_replicate] by (elim exE conjE) (rule that)
  have "rel_option (found m) (tb ! k) (attr_of bs k)" if "k < length tb" for k
    using t(3) [rule_format, of k] that t(2) by (cases "attr_of bs k") auto
  then show ?thesis using t(1,2) by (simp add: libbpf_nla_parse_def index_of_def)
qed

lemma found_len: "found m off d \<Longrightarrow> libbpf_nla_len m off = Some (int (length d))"
  using uint_small16 [of "4 + length d"] by (simp add: found_def libbpf_nla_len_def NLA_HDRLEN_def)

lemma found_load8: "found m off d \<Longrightarrow> d \<noteq> [] \<Longrightarrow> load8 m (libbpf_nla_data off) = Some (d ! 0)"
  using load_bytes_nth(1) [of m "off + 4" d] load_bytes_nth(2) [of m "off + 4" d 0]
  by (cases d) (auto simp: found_def load8_def libbpf_nla_data_def NLA_HDRLEN_def)

lemma found_load32: "found m off d \<Longrightarrow> 4 \<le> length d \<Longrightarrow> load32 m (libbpf_nla_data off) = load32 d 0"
  using load32_sub [of m "off + 4" d 0] by (simp add: found_def libbpf_nla_data_def NLA_HDRLEN_def)

lemma parse_nested_decodes:
  assumes "found m off bs" and "length bs mod 4 = 0"
  shows "\<exists>tb. libbpf_nla_parse_nested m maxtype off None = Some (0, tb) \<and> length tb = nat (maxtype + 1) \<and> index_of m bs tb"
  using parse_decodes [of m "libbpf_nla_data off" bs maxtype] assms found_len [OF assms(1)]
  by (simp add: libbpf_nla_parse_nested_def found_def libbpf_nla_data_def NLA_HDRLEN_def)

section \<open>What is written decodes to what was written\<close>

lemma dec_attrs_at:
  assumes "load_bytes m off (length bs) = Some bs" and "length bs = attrs_size xs" and "attrs_at m off xs"
    and "\<forall>(ty, d) \<in> set xs. ty < 2 ^ 16" and "attrs_size xs < 2 ^ 16"
  shows "dec_attrs bs = map (\<lambda>(ty, d). (ty mod 2 ^ 14, d)) xs"
  using assms
proof (induction xs arbitrary: off bs)
  case Nil
  then show ?case by (simp add: dec_attrs.simps)
next
  case (Cons x xs)
  obtain ty d where x: "x = (ty, d)" by fastforce
  have a: "attr_at m off ty d" "attrs_at m (off + attr_size d) xs" "ty < 2 ^ 16" using Cons.prems(3,4) x by auto
  have len: "length bs = attr_size d + attrs_size xs" using Cons.prems(2) x by simp
  have z: "4 + length d \<le> attr_size d" by (rule attr_size_bounds(1))
  have n: "attr_size d = (4 + length d + 3) div 4 * 4" using NLA_ALIGN_nat [of "4 + length d"] attr_size_bounds(3) [of d] by simp
  have l0: "load16 bs 0 = Some (of_nat (4 + length d))" using load16_sub [OF Cons.prems(1), of 0] a(1) z len by (simp add: attr_at_def)
  have l2: "load16 bs 2 = Some (of_nat ty)" using load16_sub [OF Cons.prems(1), of 2] a(1) z len by (simp add: attr_at_def)
  have u: "unat (of_nat (4 + length d) :: u16) = 4 + length d" "unat (of_nat ty :: u16) = ty"
    using Cons.prems(5) x z a(3) by (simp_all add: unsigned_of_nat take_bit_nat_eq_self del: of_nat_add)
  have d: "take (length d) (drop 4 bs) = d"
    using load_bytes_sub [OF Cons.prems(1), of 4 "length d"] a(1) z len by (simp add: attr_at_def)
  have "dec_attrs (drop (attr_size d) bs) = map (\<lambda>(ty, d). (ty mod 2 ^ 14, d)) xs"
    by (rule Cons.IH [OF _ _ a(2)])
      (use Cons.prems(4,5) x len load_bytes_sub [OF Cons.prems(1), of "attr_size d" "attrs_size xs"] in auto)
  then have "dec_attrs (drop ((4 + length d + 3) div 4 * 4) bs) = map (\<lambda>(ty, d). (ty mod 2 ^ 14, d)) xs" by (simp only: n)
  then show ?case using z len d
    by (subst dec_attrs.simps) (simp only: Let_def l0 l2 u option.sel x, simp)
qed

section \<open>Nested attributes\<close>

lemma NLMSG_ALIGN_unat: "unat l \<le> 2 ^ 31 \<Longrightarrow> unat (NLMSG_ALIGN l) = (unat l + 3) div 4 * 4"
proof -
  assume l: "unat l \<le> 2 ^ 31"
  have u: "unat (l + 3) = unat l + 3" using l by (simp add: unat_word_ariths)
  have "NLMSG_ALIGN l = (l + 3) AND NOT (mask 2)" by (simp add: NLMSG_ALIGN_def mask_eq_exp_minus_1 add.commute)
  also have "\<dots> = push_bit 2 (drop_bit 2 (l + 3))" by (rule and_not_mask_word)
  finally have "NLMSG_ALIGN l + take_bit 2 (l + 3) = l + 3" using bits_ident [of 2 "l + 3"] by simp
  then have "NLMSG_ALIGN l = l + 3 - take_bit 2 (l + 3)" by (metis add_diff_cancel_right')
  moreover have t: "unat (take_bit 2 (l + 3)) = (unat l + 3) mod 4" by (simp only: unsigned_take_bit_eq u) (simp add: take_bit_eq_mod)
  moreover have "take_bit 2 (l + 3) \<le> l + 3" unfolding word_le_nat_alt t u by simp
  ultimately have "unat (NLMSG_ALIGN l) = unat l + 3 - (unat l + 3) mod 4" using u by (simp add: unat_sub)
  then show ?thesis by (simp add: minus_mod_eq_div_mult)
qed

lemma req_tail_at: "load32 req 0 = Some (of_nat n) \<Longrightarrow> n mod 4 = 0 \<Longrightarrow> n < 2 ^ 31 \<Longrightarrow> req_tail req = Some n"
proof -
  assume a: "load32 req 0 = Some (of_nat n)" "n mod 4 = 0" "n < 2 ^ 31"
  have u: "unat (of_nat n :: u32) = n" by (rule unat_of_nat_u32) (use a(3) in simp)
  have "(n + 3) div 4 * 4 = n" using a(2) by presburger
  then show ?thesis using NLMSG_ALIGN_unat [of "of_nat n"] u a by (simp add: req_tail_def)
qed

lemma nested_type: "ty < 2 ^ 14 \<Longrightarrow> int ty OR uint NLA_F_NESTED = int (2 ^ 15 + ty)"
proof -
  assume a: "ty < 2 ^ 14"
  have f: "uint NLA_F_NESTED = 2 ^ 15" by (simp add: NLA_F_NESTED_def)
  have "\<not> bit (int ty) 15" using a by (simp add: bit_iff_odd)
  then have "bit (int ty AND 2 ^ 15) n = bit 0 n" for n unfolding bit_and_iff bit_exp_iff by (cases "n = 15") simp_all
  then have "int ty AND 2 ^ 15 = 0" by (intro bit_eqI) blast
  then have "int ty + 2 ^ 15 = int ty OR 2 ^ 15" by (rule disjunctive_add_eq_or)
  then show ?thesis unfolding f by simp
qed

text \<open>The nested attribute that is begun, filled and ended.\<close>

lemma nested_ok:
  assumes "length req = nla_req_size" and "load32 req 0 = Some (of_nat h)" and "h mod 4 = 0" and "4 \<le> h" and "ty < 2 ^ 14"
    and "h + 4 + attrs_size xs \<le> nla_req_size" and "\<forall>(ty, d) \<in> set xs. ty < 2 ^ 14"
  shows "\<exists>r1 r2 r3. nlattr_begin_nested req (int ty) = Some (Some h, r1) \<and> add_all r1 xs = Some (0, r2) \<and> nlattr_end_nested r2 h = Some r3 \<and>
    length r3 = nla_req_size \<and> load32 r3 0 = Some (of_nat (h + 4 + attrs_size xs)) \<and>
    (\<exists>b. attr_at r3 h (2 ^ 15 + ty) b \<and> length b = attrs_size xs \<and> dec_attrs b = xs) \<and> (\<forall>j. 4 \<le> j \<and> j < h \<longrightarrow> r3 ! j = req ! j)"
proof -
  have e: "attr_size [] = 4" by (simp add: attr_size_def NLA_ALIGN_mod)
  have h: "h + 4 \<le> 164" "h < 2 ^ 31" using assms(6) by (simp_all add: nla_req_size_def)
  note t = nested_type [OF assms(5)]
  obtain r1 where r1: "nlattr_add req (int (2 ^ 15 + ty)) None 0 = Some (0, r1)" "length r1 = nla_req_size" "load32 r1 0 = Some (of_nat (h + 4))"
    "attr_at r1 h (2 ^ 15 + ty) []" "\<forall>j. 4 \<le> j \<and> j < h \<longrightarrow> r1 ! j = req ! j"
    using nlattr_add_ok [OF assms(1,2,3,4), of "[]" "2 ^ 15 + ty"] e assms(6) by auto
  have b: "nlattr_begin_nested req (int ty) = Some (Some h, r1)"
    using req_tail_at [OF assms(2,3) h(2)] r1(1) unfolding nlattr_begin_nested_def t by simp
  have p: "load32 r1 0 = Some (of_nat (h + 4 + attrs_size []))" "(h + 4) mod 4 = 0" "4 \<le> h + 4" using r1(3) assms(3) by simp_all
  obtain r2 where r2: "add_all r1 xs = Some (0, r2)" "length r2 = nla_req_size" "attrs_at r2 (h + 4) xs"
    "load32 r2 0 = Some (of_nat (h + 4 + attrs_size xs))" "\<forall>j. 4 \<le> j \<and> j < h + 4 \<longrightarrow> r2 ! j = r1 ! j"
    using add_all_ok [OF r1(2) p, of xs] assms(6) by auto
  have m: "(h + 4 + attrs_size xs) mod 4 = 0" using p(2) attrs_size_mod [of xs] by presburger
  have tl: "req_tail r2 = Some (h + 4 + attrs_size xs)" by (rule req_tail_at [OF r2(4) m]) (use assms(6) in \<open>simp add: nla_req_size_def\<close>)
  obtain r3 where r3: "store16 r2 h (of_nat (4 + attrs_size xs)) = Some r3" using r2(2) h by (simp add: store16_def nla_req_size_def)
  have "(of_int (int (h + 4 + attrs_size xs) - int h) :: u16) = of_nat (4 + attrs_size xs)" by simp
  then have en: "nlattr_end_nested r2 h = Some r3" unfolding nlattr_end_nested_def using tl r3 by simp
  have l3: "length r3 = nla_req_size" using store16_length [OF r3] r2(2) by simp
  have nth: "r3 ! j = r2 ! j" if "j \<noteq> h" "j \<noteq> h + 1" for j using r3 that by (auto simp: store16_def split: if_splits)
  have "load32 r3 0 = load32 r2 0" by (rule load32_cong) (use nth l3 r2(2) assms(4) in auto)
  moreover have "load16 r3 (h + 2) = load16 r1 (h + 2)"
    by (rule load16_cong) (use nth l3 r1(2) r2(5) assms(4) in auto)
  moreover have "\<forall>j. 4 \<le> j \<and> j < h \<longrightarrow> r3 ! j = req ! j" using nth r2(5) r1(5) by auto
  moreover have "attr_at r3 h (2 ^ 15 + ty) (take (attrs_size xs) (drop (h + 4) r3)) \<and> dec_attrs (take (attrs_size xs) (drop (h + 4) r3)) = xs"
  proof -
    let ?b = "take (attrs_size xs) (drop (h + 4) r3)"
    have at: "attrs_at r3 (h + 4) xs" by (rule attrs_at_cong [OF _ _ r2(3)]) (use nth l3 r2(2) in auto)
    have lb: "length ?b = attrs_size xs" "load_bytes r3 (h + 4) (length ?b) = Some ?b"
      using l3 assms(6) by (auto simp: load_bytes_def nla_req_size_def min_def)
    have "\<forall>(ty, d) \<in> set xs. ty < 2 ^ 16" using assms(7) by fastforce
    then have "dec_attrs ?b = map (\<lambda>(ty, d). (ty mod 2 ^ 14, d)) xs"
      using dec_attrs_at [OF lb(2,1) at] assms(6) by (simp add: nla_req_size_def)
    also have "\<dots> = xs" using assms(7) by (intro map_idI) auto
    finally show ?thesis using lb load16_store16 [OF r3] \<open>load16 r3 (h + 2) = load16 r1 (h + 2)\<close> r1(4) by (simp add: attr_at_def)
  qed
  moreover have "length (take (attrs_size xs) (drop (h + 4) r3)) = attrs_size xs" using l3 assms(6) by (simp add: nla_req_size_def)
  ultimately show ?thesis using b r2(1,4) en l3 by auto
qed

end
