(* ===== verification/Netlink.thy ===== *)
theory Netlink
  imports Nlattr_Decode
begin

text \<open>
  The netlink client of \<^verbatim>\<open>libbpf/src/netlink.c\<close>: sending a request and receiving the answer, a sequence of
  datagrams with messages.  System calls are given by their results.  A result \<open>Some None\<close> of the receiving
  functions means that they wait for ever, since no more datagram comes; \<open>None\<close> is an access outside the buffer.  The
  bytes of the buffer behind those that were received are arbitrary.
\<close>

section \<open>Operations\<close>

definition LIBBPF_ERRNO__INTERNAL :: int where "LIBBPF_ERRNO__INTERNAL = 4004"
definition LIBBPF_ERRNO__WRNGPID :: int where "LIBBPF_ERRNO__WRNGPID = 4011"
definition LIBBPF_ERRNO__INVSEQ :: int where "LIBBPF_ERRNO__INVSEQ = 4012"
definition LIBBPF_ERRNO__NLPARSE :: int where "LIBBPF_ERRNO__NLPARSE = 4013"

definition NL_CONT :: int where "NL_CONT = 0"
definition NL_NEXT :: int where "NL_NEXT = 1"
definition NL_DONE :: int where "NL_DONE = 2"

definition NLM_F_REQUEST :: u16 where "NLM_F_REQUEST = 1"
definition NLM_F_MULTI :: u16 where "NLM_F_MULTI = 2"
definition NLM_F_ACK :: u16 where "NLM_F_ACK = 4"
definition NLMSG_ERROR :: u16 where "NLMSG_ERROR = 2"
definition NLMSG_DONE :: u16 where "NLMSG_DONE = 3"

text \<open>The results of the calls of \<^verbatim>\<open>recvmsg\<close>, in order: an error number, or the length that is returned and the data.\<close>

datatype recv = Recv_failed int | Received int bytes

record nl_env =
  sock_ret :: "int + int"
  bind_ret :: "int option"
  name_ret :: "int option"
  name_len :: nat
  name_pid :: u32
  time_now :: u32
  send_ret :: "int option"
  recvs :: "recv list"
  junk :: "nat \<Rightarrow> nat \<Rightarrow> u8"

text \<open>
  The last member gives the bytes of the receive buffer that a round of the receive loop does not write.

  The result of opening the socket is either the error or the number of its port.  Whether \<^verbatim>\<open>setsockopt(NETLINK_EXT_ACK)\<close>
  succeeds makes no difference here, since a failure is only reported with \<^verbatim>\<open>pr_warn\<close>: when it succeeds, the acknowledgements of
  the kernel may carry attributes (the flag \<open>0x200\<close>, \<^verbatim>\<open>NLM_F_ACK_TLVS\<close>), which \<^verbatim>\<open>libbpf_nla_dump_errormsg\<close> reads.
\<close>

definition libbpf_netlink_open :: "nl_env \<Rightarrow> int + u32" where
  "libbpf_netlink_open env = (case sock_ret env of
       Inl errno \<Rightarrow> Inl (- errno)
     | Inr sock \<Rightarrow> (case bind_ret env of
           Some errno \<Rightarrow> Inl (- errno)
         | None \<Rightarrow> (case name_ret env of
               Some errno \<Rightarrow> Inl (- errno)
             | None \<Rightarrow> if name_len env \<noteq> 12 then Inl (- LIBBPF_ERRNO__INTERNAL) else Inr (name_pid env))))"

fun netlink_recvmsg :: "recv list \<Rightarrow> (int \<times> bytes \<times> recv list) option" where
  "netlink_recvmsg [] = None"
| "netlink_recvmsg (Recv_failed errno # rs) = (if errno = EINTR \<or> errno = EAGAIN then netlink_recvmsg rs else Some (- errno, [], rs))"
| "netlink_recvmsg (Received len d # rs) = Some (len, d, rs)"

text \<open>The result and \<^verbatim>\<open>iov_len\<close>.\<close>

definition alloc_iov :: "bool \<Rightarrow> nat \<Rightarrow> nat \<Rightarrow> int \<times> nat" where
  "alloc_iov ok iov_len len = (if \<not> ok then (- ENOMEM, iov_len) else (0, len))"

text \<open>\<^verbatim>\<open>len\<close> is an \<^verbatim>\<open>int\<close>.\<close>

definition NLMSG_OK :: "bytes \<Rightarrow> nat \<Rightarrow> int \<Rightarrow> bool option" where
  "NLMSG_OK m nh len = (if to_int len \<ge> 16 then map_option (\<lambda>l. unat l \<ge> 16 \<and> uint l \<le> to_int len) (load32 m nh) else Some False)"

definition NLMSG_NEXT :: "bytes \<Rightarrow> nat \<Rightarrow> int \<Rightarrow> (nat \<times> int) option" where
  "NLMSG_NEXT m nh len = map_option (\<lambda>l. (nh + unat (NLMSG_ALIGN l), to_int (len - uint (NLMSG_ALIGN l)))) (load32 m nh)"

text \<open>How the loop over the messages of a datagram ends: \<open>goto done\<close>, \<open>goto start\<close>, or at the end, with \<^verbatim>\<open>multipart\<close>.\<close>

datatype flow = Ret int | Start | Again bool

type_synonym 's msg_fn = "bytes \<Rightarrow> nat \<Rightarrow> 's \<Rightarrow> (int \<times> 's) option"

text \<open>The body of the loop for one message: \<open>None\<close> in the first component goes on to the next.\<close>

definition handle_msg :: "'s msg_fn option \<Rightarrow> u32 \<Rightarrow> u32 \<Rightarrow> bytes \<Rightarrow> nat \<Rightarrow> bool \<Rightarrow> 's \<Rightarrow> (flow option \<times> bool \<times> 's) option" where
  "handle_msg fn nl_pid seq m nh multipart s = do {
     pid \<leftarrow> load32 m (nh + 12);
     if pid \<noteq> nl_pid then Some (Some (Ret (- LIBBPF_ERRNO__WRNGPID)), multipart, s)
     else do {
       nseq \<leftarrow> load32 m (nh + 8);
       if nseq \<noteq> seq then Some (Some (Ret (- LIBBPF_ERRNO__INVSEQ)), multipart, s)
       else do {
         flags \<leftarrow> load16 m (nh + 6);
         let multipart = (multipart \<or> flags AND NLM_F_MULTI \<noteq> 0);
         type \<leftarrow> load16 m (nh + 4);
         if type = NLMSG_ERROR then do {
           error \<leftarrow> load32 m (nh + 16);
           if error = 0 then Some (None, multipart, s)
           else do {
             _ \<leftarrow> libbpf_nla_dump_errormsg (drop nh m);
             Some (Some (Ret (sint error)), multipart, s)
           }
         }
         else if type = NLMSG_DONE then Some (Some (Ret 0), multipart, s)
         else (case fn of
             None \<Rightarrow> Some (None, multipart, s)
           | Some f \<Rightarrow> do {
               (ret, s) \<leftarrow> f m nh s;
               Some (if ret = NL_CONT then None
                     else if ret = NL_NEXT then Some Start
                     else if ret = NL_DONE then Some (Ret 0)
                     else Some (Ret ret), multipart, s)
             })
       }
     }
   }"

lemma nlmsg_progress:
  assumes "NLMSG_OK m nh len = Some True" and "NLMSG_NEXT m nh len = Some (nh', len')"
  shows "length m - nh' < length m - nh"
proof -
  obtain l where l: "load32 m nh = Some l" "16 \<le> unat l" "uint l \<le> to_int len" "nh' = nh + unat (NLMSG_ALIGN l)"
    using assms by (auto simp: NLMSG_OK_def NLMSG_NEXT_def split: if_splits)
  have "to_int len < 2 ^ 31" by (simp add: to_int_def)
  moreover have "int (unat l) \<le> to_int len" using l(3) by simp
  ultimately have "int (unat l) \<le> int (2 ^ 31)" by simp
  then have "unat l \<le> 2 ^ 31" by (simp only: of_nat_le_iff)
  then have "unat (NLMSG_ALIGN l) \<ge> 16" using NLMSG_ALIGN_unat [of l] l(2) by simp
  then show ?thesis using l(4) load32_eq_Some [OF l(1)] by simp
qed

function nlmsg_loop :: "'s msg_fn option \<Rightarrow> u32 \<Rightarrow> u32 \<Rightarrow> bytes \<Rightarrow> nat \<Rightarrow> int \<Rightarrow> bool \<Rightarrow> 's \<Rightarrow> (flow \<times> 's) option" where
  "nlmsg_loop fn nl_pid seq m nh len multipart s =
     (case NLMSG_OK m nh len of
        None \<Rightarrow> None
      | Some False \<Rightarrow> Some (Again multipart, s)
      | Some True \<Rightarrow>
          (case handle_msg fn nl_pid seq m nh multipart s of
             None \<Rightarrow> None
           | Some (Some f, _, s) \<Rightarrow> Some (f, s)
           | Some (None, multipart, s) \<Rightarrow>
               (case NLMSG_NEXT m nh len of
                  None \<Rightarrow> None
                | Some (nh, len) \<Rightarrow> nlmsg_loop fn nl_pid seq m nh len multipart s)))"
  by pat_completeness auto

termination
  by (relation "measure (\<lambda>(fn, nl_pid, seq, m, nh, len, multipart, s). length m - nh)") (auto dest: nlmsg_progress)

declare nlmsg_loop.simps [simp del]

lemma netlink_recvmsg_shorter: "netlink_recvmsg rs = Some (len, d, rs') \<Longrightarrow> length rs' < length rs"
  by (induction rs rule: netlink_recvmsg.induct) (auto split: if_splits)

text \<open>The buffer of \<open>iov_len\<close> bytes after the data \<open>d\<close> has been received into it.\<close>

definition iov_buf :: "(nat \<Rightarrow> u8) \<Rightarrow> nat \<Rightarrow> bytes \<Rightarrow> bytes" where
  "iov_buf bs iov_len d = take iov_len d @ map bs [length d..<iov_len]"

text \<open>The loop over the datagrams; \<open>n\<close> numbers the rounds and their allocations.\<close>

function recv_loop :: "'s msg_fn option \<Rightarrow> u32 \<Rightarrow> u32 \<Rightarrow> (nat \<Rightarrow> nat \<Rightarrow> u8) \<Rightarrow> (nat \<Rightarrow> bool) \<Rightarrow> nat \<Rightarrow> nat \<Rightarrow> recv list \<Rightarrow> 's \<Rightarrow> (int \<times> 's) option option" where
  "recv_loop fn nl_pid seq bufs ok n iov_len rs s =
     (case netlink_recvmsg rs of
        None \<Rightarrow> Some None
      | Some (len, _, rs) \<Rightarrow>
          if len < 0 then Some (Some (len, s))
          else
            (case (if len > int iov_len then alloc_iov (ok n) iov_len (nat len) else (0, iov_len)) of (ret, iov_len) \<Rightarrow>
              if ret \<noteq> 0 then Some (Some (ret, s))
              else
                (case netlink_recvmsg rs of
                   None \<Rightarrow> Some None
                 | Some (len, d, rs) \<Rightarrow>
                     if len < 0 then Some (Some (len, s))
                     else if len = 0 then Some (Some (0, s))
                     else
                       (case nlmsg_loop fn nl_pid seq (iov_buf (bufs n) iov_len d) 0 len False s of
                          None \<Rightarrow> None
                        | Some (Ret r, s) \<Rightarrow> Some (Some (r, s))
                        | Some (Start, s) \<Rightarrow> recv_loop fn nl_pid seq bufs ok (Suc n) iov_len rs s
                        | Some (Again multipart, s) \<Rightarrow>
                            if multipart then recv_loop fn nl_pid seq bufs ok (Suc n) iov_len rs s else Some (Some (0, s))))))"
  by pat_completeness auto

termination
  by (relation "measure (\<lambda>(fn, nl_pid, seq, bufs, ok, n, iov_len, rs, s). length rs)") (force dest: netlink_recvmsg_shorter)+

declare recv_loop.simps [simp del]

definition libbpf_netlink_recv :: "'s msg_fn option \<Rightarrow> u32 \<Rightarrow> u32 \<Rightarrow> (nat \<Rightarrow> nat \<Rightarrow> u8) \<Rightarrow> (nat \<Rightarrow> bool) \<Rightarrow> recv list \<Rightarrow> 's \<Rightarrow> (int \<times> 's) option option" where
  "libbpf_netlink_recv fn nl_pid seq bufs ok rs s =
     (case alloc_iov (ok 0) 0 4096 of (ret, iov_len) \<Rightarrow>
        if ret \<noteq> 0 then Some (Some (ret, s)) else recv_loop fn nl_pid seq bufs ok 1 iov_len rs s)"

text \<open>The result, the bytes that were sent and the state of the callback.\<close>

definition libbpf_netlink_send_recv :: "nl_env \<Rightarrow> (nat \<Rightarrow> bool) \<Rightarrow> bytes \<Rightarrow> 's msg_fn option \<Rightarrow> 's \<Rightarrow> (int \<times> bytes option \<times> 's) option option" where
  "libbpf_netlink_send_recv env ok req fn s = (case libbpf_netlink_open env of
       Inl err \<Rightarrow> Some (Some (err, None, s))
     | Inr nl_pid \<Rightarrow> do {
         req \<leftarrow> store32 req 12 0;
         req \<leftarrow> store32 req 8 (time_now env);
         nlmsg_len \<leftarrow> load32 req 0;
         msg \<leftarrow> load_bytes req 0 (unat nlmsg_len);
         case send_ret env of
           Some errno \<Rightarrow> Some (Some (- errno, None, s))
         | None \<Rightarrow> map_option (map_option (\<lambda>(ret, s). (ret, Some msg, s)))
             (libbpf_netlink_recv fn nl_pid (time_now env) (junk env) ok (recvs env) s)
       })"


section \<open>Messages\<close>

record nlmsg =
  n_type :: u16
  n_flags :: u16
  n_seq :: u32
  n_pid :: u32
  n_data :: bytes

definition msg_at :: "bytes \<Rightarrow> nat \<Rightarrow> nlmsg \<Rightarrow> bool" where
  "msg_at m off x \<longleftrightarrow> load32 m off = Some (of_nat (16 + length (n_data x))) \<and> load16 m (off + 4) = Some (n_type x) \<and>
     load16 m (off + 6) = Some (n_flags x) \<and> load32 m (off + 8) = Some (n_seq x) \<and> load32 m (off + 12) = Some (n_pid x) \<and>
     load_bytes m (off + 16) (length (n_data x)) = Some (n_data x)"

definition msg_size :: "nlmsg \<Rightarrow> nat" where "msg_size x = (16 + length (n_data x) + 3) div 4 * 4"

fun msgs_at :: "bytes \<Rightarrow> nat \<Rightarrow> nlmsg list \<Rightarrow> bool" where
  "msgs_at m off [] \<longleftrightarrow> off = length m"
| "msgs_at m off (x # xs) \<longleftrightarrow> msg_at m off x \<and> msgs_at m (off + msg_size x) xs"

definition msg_error :: "nlmsg \<Rightarrow> u32" where "msg_error x = the (load32 (n_data x) 0)"

text \<open>
  An extended acknowledgement (flag \<open>0x200\<close>) holds the number, the message that is acknowledged or, when it is capped (flag
  \<open>0x100\<close>), only its header, and then attributes, all in multiples of 4 bytes.
\<close>

definition ext_ack :: "nlmsg \<Rightarrow> bool" where "ext_ack x \<longleftrightarrow> n_type x = NLMSG_ERROR \<and> n_flags x AND 0x200 \<noteq> 0"

definition ext_ack_ok :: "nlmsg \<Rightarrow> bool" where
  "ext_ack_ok x \<longleftrightarrow> length (n_data x) mod 4 = 0 \<and> 20 \<le> length (n_data x) \<and>
     (n_flags x AND 0x100 = 0 \<longrightarrow> (\<exists>l. load32 (n_data x) 4 = Some (of_nat l) \<and> 16 \<le> l \<and> l mod 4 = 0 \<and> 4 + l \<le> length (n_data x)))"

text \<open>
  What is promised of a message: an error has its number and, if it is an extended one, that form, and the messages for the
  callback satisfy what the callback needs.
\<close>

definition msg_ok :: "(nlmsg \<Rightarrow> bool) \<Rightarrow> nlmsg \<Rightarrow> bool" where
  "msg_ok ok x \<longleftrightarrow> (if n_type x = NLMSG_ERROR then 4 \<le> length (n_data x) \<and> (ext_ack x \<longrightarrow> ext_ack_ok x) else n_type x = NLMSG_DONE \<or> ok x)"

definition step_msg :: "(nlmsg \<Rightarrow> 's \<Rightarrow> int \<times> 's) \<Rightarrow> u32 \<Rightarrow> u32 \<Rightarrow> nlmsg \<Rightarrow> bool \<Rightarrow> 's \<Rightarrow> flow option \<times> bool \<times> 's" where
  "step_msg h nl_pid seq x multi s =
     (if n_pid x \<noteq> nl_pid then (Some (Ret (- LIBBPF_ERRNO__WRNGPID)), multi, s)
      else if n_seq x \<noteq> seq then (Some (Ret (- LIBBPF_ERRNO__INVSEQ)), multi, s)
      else let multi = (multi \<or> n_flags x AND NLM_F_MULTI \<noteq> 0) in
        if n_type x = NLMSG_ERROR then (if msg_error x = 0 then None else Some (Ret (sint (msg_error x))), multi, s)
        else if n_type x = NLMSG_DONE then (Some (Ret 0), multi, s)
        else case h x s of (ret, s) \<Rightarrow>
          (if ret = NL_CONT then None else if ret = NL_NEXT then Some Start else if ret = NL_DONE then Some (Ret 0) else Some (Ret ret), multi, s))"

fun run_msgs :: "(nlmsg \<Rightarrow> 's \<Rightarrow> int \<times> 's) \<Rightarrow> u32 \<Rightarrow> u32 \<Rightarrow> nlmsg list \<Rightarrow> bool \<Rightarrow> 's \<Rightarrow> flow \<times> 's" where
  "run_msgs h nl_pid seq [] multi s = (Again multi, s)"
| "run_msgs h nl_pid seq (x # xs) multi s = (case step_msg h nl_pid seq x multi s of
     (Some f, _, s) \<Rightarrow> (f, s) | (None, multi, s) \<Rightarrow> run_msgs h nl_pid seq xs multi s)"

fun run_dgrams :: "(nlmsg \<Rightarrow> 's \<Rightarrow> int \<times> 's) \<Rightarrow> u32 \<Rightarrow> u32 \<Rightarrow> nlmsg list list \<Rightarrow> 's \<Rightarrow> (int \<times> 's) option" where
  "run_dgrams h nl_pid seq [] s = None"
| "run_dgrams h nl_pid seq (xs # xss) s = (case run_msgs h nl_pid seq xs False s of
     (Ret r, s) \<Rightarrow> Some (r, s)
   | (Start, s) \<Rightarrow> run_dgrams h nl_pid seq xss s
   | (Again multi, s) \<Rightarrow> if multi then run_dgrams h nl_pid seq xss s else Some (0, s))"

fun interruption :: "recv \<Rightarrow> bool" where
  "interruption (Recv_failed errno) \<longleftrightarrow> errno = EINTR \<or> errno = EAGAIN"
| "interruption (Received _ _) \<longleftrightarrow> False"

text \<open>How a datagram is received: its length first, then its bytes, each after any number of interruptions.\<close>

definition delivery :: "recv list \<Rightarrow> bytes \<Rightarrow> bool" where
  "delivery rs d \<longleftrightarrow> (\<exists>a p b. rs = a @ Received (int (length d)) p # b @ [Received (int (length d)) d] \<and>
     (\<forall>r \<in> set a. interruption r) \<and> (\<forall>r \<in> set b. interruption r))"

text \<open>
  \<^verbatim>\<open>libbpf_nla_dump_errormsg\<close> reads 16 bytes too many, so that a datagram with an extended acknowledgement must leave them in the
  buffer, which has at least 4096 bytes.
\<close>

definition dgram :: "(nlmsg \<Rightarrow> bool) \<Rightarrow> recv list \<Rightarrow> nlmsg list \<Rightarrow> bool" where
  "dgram ok rs xs \<longleftrightarrow> (\<exists>d. delivery rs d \<and> msgs_at d 0 xs \<and> length d < 2 ^ 31 \<and> ((\<exists>x \<in> set xs. ext_ack x) \<longrightarrow> length d + 16 \<le> 4096)) \<and> (\<forall>x \<in> set xs. msg_ok ok x)"

lemma recvmsg_interrupted: "\<forall>r \<in> set a. interruption r \<Longrightarrow> netlink_recvmsg (a @ rs) = netlink_recvmsg rs"
proof (induction a)
  case (Cons r a)
  then show ?case by (cases r) auto
qed simp

lemma load_bytes_eq_Some: "load_bytes m off n = Some d \<Longrightarrow> off + n \<le> length m \<and> d = take n (drop off m)"
  by (auto simp: load_bytes_def split: if_splits)

lemma msg_at_length: "msg_at m off x \<Longrightarrow> off + 16 + length (n_data x) \<le> length m"
  by (auto simp: msg_at_def dest: load_bytes_eq_Some)

lemma msg_at_word32:
  assumes "msg_at m off x" and "k + 4 \<le> length (n_data x)"
  shows "load32 m (off + 16 + k) = load32 (n_data x) k"
  using load32_sub [of m "off + 16" "n_data x" k] assms by (simp add: msg_at_def)

lemma msg_size_bounds: "16 + length (n_data x) \<le> msg_size x" "16 \<le> msg_size x"
  unfolding msg_size_def by presburger+

lemma msgs_at_length: "msgs_at m off xs \<Longrightarrow> off \<le> length m"
  by (induction m off xs rule: msgs_at.induct) auto

lemma NLMSG_OK_end: "NLMSG_OK m nh 0 = Some False"
  by (simp add: NLMSG_OK_def to_int_def)

lemma NLMSG_steps:
  assumes "msg_at m off x" and "off + msg_size x \<le> n" and "n < 2 ^ 31"
  shows "NLMSG_OK m off (int (n - off)) = Some True"
    and "NLMSG_NEXT m off (int (n - off)) = Some (off + msg_size x, int (n - (off + msg_size x)))"
proof -
  let ?k = "16 + length (n_data x)"
  let ?l = "of_nat ?k :: u32"
  have k: "?k \<le> n - off" "?k < 2 ^ 31" using msg_size_bounds(1) [of x] assms(2,3) by auto
  have u: "unat ?l = ?k" by (rule unat_of_nat_u32) (use k in simp)
  have l: "load32 m off = Some ?l" using assms(1) by (simp add: msg_at_def)
  have t: "to_int (int k) = int k" if "k < 2 ^ 31" for k by (rule to_int_in) (use that in auto)
  have m: "n - off < 2 ^ 31" using assms(3) by simp
  have ui: "uint ?l = int ?k" by (simp only: uint_nat u)
  show "NLMSG_OK m off (int (n - off)) = Some True"
    unfolding NLMSG_OK_def l t [OF m] option.map ui u using k(1) assms(2) msg_size_bounds(2) [of x] by simp
  have a: "unat (NLMSG_ALIGN ?l) = msg_size x" using NLMSG_ALIGN_unat [of ?l] u k(2) by (simp add: msg_size_def)
  then have ai: "uint (NLMSG_ALIGN ?l) = int (msg_size x)" by (simp only: uint_nat)
  have "int (n - off) - int (msg_size x) = int (n - (off + msg_size x))" using assms(2) by simp
  then show "NLMSG_NEXT m off (int (n - off)) = Some (off + msg_size x, int (n - (off + msg_size x)))"
    unfolding NLMSG_NEXT_def l option.map ai a using t [of "n - (off + msg_size x)"] m by simp
qed


text \<open>What is behind the data in the buffer does not matter to its messages.\<close>

lemma load_drop: "off \<le> length m \<Longrightarrow> load32 (drop off m) k = load32 m (off + k)" "off \<le> length m \<Longrightarrow> load16 (drop off m) k = load16 m (off + k)"
  by (auto simp: load32_def load16_def add.assoc)

lemma load_append: "off + 4 \<le> length d \<Longrightarrow> load32 (d @ j) off = load32 d off" "off + 2 \<le> length d \<Longrightarrow> load16 (d @ j) off = load16 d off"
  by (rule load32_cong load16_cong; simp add: nth_append)+

lemma msg_at_append:
  assumes "msg_at d off x"
  shows "msg_at (d @ j) off x"
proof -
  have l: "off + 16 + length (n_data x) \<le> length d" by (rule msg_at_length [OF assms])
  then have "load_bytes (d @ j) (off + 16) (length (n_data x)) = load_bytes d (off + 16) (length (n_data x))" by (simp add: load_bytes_def)
  then show ?thesis using assms l load_append by (simp add: msg_at_def)
qed

lemma iov_buf_whole: "length d \<le> iov_len \<Longrightarrow> iov_buf bs iov_len d = d @ map bs [length d..<iov_len]"
  by (simp add: iov_buf_def)

text \<open>An extended acknowledgement is read inside the buffer, if there are 16 bytes behind it.\<close>

lemma dump_errormsg_total:
  assumes "msg_at m off x" and "n_flags x AND 0x200 \<noteq> 0 \<Longrightarrow> ext_ack_ok x \<and> off + msg_size x + 16 \<le> length m" and "length m < 2 ^ 31"
  shows "\<exists>r. libbpf_nla_dump_errormsg (drop off m) = Some r"
proof -
  let ?n = "16 + length (n_data x)"
  let ?m = "drop off m"
  have len: "off + ?n \<le> length m" using msg_at_length [OF assms(1)] by simp
  then have ld: "load32 ?m k = load32 m (off + k)" "load16 ?m k = load16 m (off + k)" for k using load_drop [of off m] by simp_all
  have l: "load32 ?m 0 = Some (of_nat ?n)" "load16 ?m 6 = Some (n_flags x)" using assms(1) by (simp_all add: msg_at_def ld)
  show ?thesis
  proof (cases "n_flags x AND 0x200 = 0")
    case True
    then show ?thesis using l by (simp add: libbpf_nla_dump_errormsg_def)
  next
    case False
    then have ok: "ext_ack_ok x" "?n + 16 \<le> length ?m" using assms(2) msg_size_bounds(1) [of x] by auto
    have n: "?n < 2 ^ 31" using len assms(3) by simp
    obtain h where h: "20 \<le> h" "h \<le> length (n_data x)" "h mod 4 = 0"
      "(if n_flags x AND 0x100 = 0 then do { l \<leftarrow> load32 ?m (16 + 4); c_int (20 + to_int (uint (l - 16))) } else Some 20) = Some (int h)"
    proof (cases "n_flags x AND 0x100 = 0")
      case True
      then obtain k where k: "load32 (n_data x) 4 = Some (of_nat k)" "16 \<le> k" "k mod 4 = 0" "4 + k \<le> length (n_data x)"
        using ok(1) by (auto simp: ext_ack_ok_def)
      have "(of_nat k - 16 :: u32) = of_nat (k - 16)" using k(2) by (simp add: of_nat_diff)
      then have "uint (of_nat k - 16 :: u32) = int (k - 16)" using unat_of_nat_u32 [of "k - 16"] k(4) n by (simp add: uint_nat)
      then have "c_int (20 + to_int (uint (of_nat k - 16 :: u32))) = Some (int (k + 4))" using k n by (simp add: c_simps)
      moreover have "load32 ?m (16 + 4) = Some (of_nat k)"
        using msg_at_word32 [OF assms(1), of 4] k(1,2,4) ld(1) [of 20] by (simp add: add.assoc)
      ultimately show ?thesis using True k by (intro that [of "k + 4"]) (simp_all add: mod_simps)
    next
      case False
      then show ?thesis using ok(1) by (intro that [of 20]) (simp_all add: ext_ack_ok_def)
    qed
    have "(of_nat ?n :: u32) - of_int (int h) = of_nat (?n - h)" using h(2) by (simp add: of_nat_diff)
    then have al: "to_int (uint ((of_nat ?n :: u32) - of_int (int h))) = int (?n - h)"
      using unat_of_nat_u32 [of "?n - h"] n by (simp add: uint_nat to_int_in)
    have "length (n_data x) mod 4 = 0" using ok(1) by (simp add: ext_ack_ok_def)
    then have md: "int (?n - h) mod 4 = 0" using h(2,3) by presburger
    have pl: "policy_ok NLMSGERR_ATTR_MAX (Some extack_policy)" by (simp add: policy_ok_def extack_policy_def NLMSGERR_ATTR_MAX_def)
    obtain r tb where "libbpf_nla_parse ?m NLMSGERR_ATTR_MAX (nat (int 16 + int h)) (int (?n - h)) (Some extack_policy) = Some (r, tb)"
      using parse_loop_safe [of "int (?n - h)" "nat (int 16 + int h)" "16 + ?n" ?m "nat (int 16 + int h)" NLMSGERR_ATTR_MAX "Some extack_policy"
          "replicate (nat (NLMSGERR_ATTR_MAX + 1)) None"] h(1,2) md n ok(2) pl
      unfolding libbpf_nla_parse_def by (auto simp: index_ok_def)
    then show ?thesis using l False h(4) al by (simp add: libbpf_nla_dump_errormsg_def Let_def)
  qed
qed

text \<open>The request as it is sent: with the port 0, the sequence number and as long as its header says.\<close>

definition stamped :: "bytes \<Rightarrow> u32 \<Rightarrow> bytes \<Rightarrow> bool" where
  "stamped req t msg \<longleftrightarrow> (\<exists>r1 r2 n. store32 req 12 0 = Some r1 \<and> store32 r1 8 t = Some r2 \<and> load32 r2 0 = Some n \<and> msg = take (unat n) r2)"

lemma stamped_facts:
  assumes "stamped req t msg" and "load32 req 0 = Some (of_nat n)" and "16 \<le> n" and "n \<le> length req" and "n < 2 ^ 31"
  shows "length msg = n" and "load32 msg 8 = Some t" and "load32 msg 12 = Some 0" and "j < n \<Longrightarrow> j < 8 \<or> 16 \<le> j \<Longrightarrow> msg ! j = req ! j"
proof -
  obtain r1 r2 k where r: "store32 req 12 0 = Some r1" "store32 r1 8 t = Some r2" "load32 r2 0 = Some k" "msg = take (unat k) r2"
    using assms(1) by (auto simp: stamped_def)
  have nth: "r2 ! j = req ! j" if "j < 8 \<or> 16 \<le> j" for j using r(1,2) that by (auto simp: store32_def split: if_splits)
  have len: "length r2 = length req" "length r1 = length req" using store32_length [OF r(1)] store32_length [OF r(2)] by simp_all
  have "load32 r2 0 = load32 req 0" by (rule load32_cong) (use nth len in auto)
  then have k: "unat k = n" using r(3) assms(2,5) unat_of_nat_u32 [of n] by simp
  show lm: "length msg = n" using r(4) k len assms(4) by simp
  have mth: "msg ! j = r2 ! j" if "j < n" for j using that r(4) k by simp
  show "j < n \<Longrightarrow> j < 8 \<or> 16 \<le> j \<Longrightarrow> msg ! j = req ! j" using mth nth by simp
  have "load32 msg 8 = load32 r2 8" "load32 msg 12 = load32 r2 12" by (rule load32_cong; use mth lm len assms(3,4) in auto)+
  moreover have "load32 r2 12 = load32 r1 12" by (rule load32_cong) (use r(2) len in \<open>auto simp: store32_def split: if_splits\<close>)
  ultimately show "load32 msg 8 = Some t" "load32 msg 12 = Some 0" using load32_store32 [OF r(2)] load32_store32 [OF r(1)] by simp_all
qed

lemma stamped_loads:
  assumes "stamped req t msg" and "load32 req 0 = Some (of_nat n)" and "16 \<le> n" and "n \<le> length req" and "n < 2 ^ 31" and "a + 4 \<le> 8 \<or> 16 \<le> a"
  shows "a + 4 \<le> n \<Longrightarrow> load32 msg a = load32 req a" and "a + 2 \<le> n \<Longrightarrow> load16 msg a = load16 req a"
    and "b = 6 \<Longrightarrow> load16 msg b = load16 req b"
  using stamped_facts(1,4) [OF assms(1-5)] assms(3,4,6) by (auto intro!: load32_cong load16_cong)

text \<open>Sending keeps the attributes: the message decodes to what the request has.\<close>

lemma stamped_attrs:
  assumes "stamped req t msg" and "load32 req 0 = Some (of_nat (h + attrs_size xs))" and "16 \<le> h" and "h + attrs_size xs \<le> length req"
    and "attrs_at req h xs" and "\<forall>(ty, d) \<in> set xs. ty < 2 ^ 16" and "attrs_size xs < 2 ^ 16" and "h < 2 ^ 16"
  shows "dec_attrs (drop h msg) = map (\<lambda>(ty, d). (ty mod 2 ^ 14, d)) xs"
proof -
  have n: "16 \<le> h + attrs_size xs" "h + attrs_size xs < 2 ^ 31" using assms(3,7,8) by simp_all
  note f = stamped_facts [OF assms(1,2) n(1) assms(4) n(2)]
  have "drop h msg = take (attrs_size xs) (drop h req)"
    by (rule nth_equalityI) (use f(1,4) assms(3,4) in auto)
  then have "load_bytes req h (length (drop h msg)) = Some (drop h msg)" using f(1) assms(4) by (simp add: load_bytes_def)
  then show ?thesis by (rule dec_attrs_at [OF _ _ assms(5,6,7)]) (use f(1) in simp)
qed

section \<open>The receive loop refines the run over messages\<close>

text \<open>
  What the receive loop needs of a callback: on a message and a state it expects, it computes a function of that message and
  state, and the state is again one it expects.
\<close>

locale nl_handler =
  fixes fn :: "'s msg_fn option" and h :: "nlmsg \<Rightarrow> 's \<Rightarrow> int \<times> 's" and ok :: "nlmsg \<Rightarrow> bool" and inv :: "'s \<Rightarrow> bool"
  assumes handles: "msg_at m off x \<Longrightarrow> ok x \<Longrightarrow> inv s \<Longrightarrow> (case fn of None \<Rightarrow> Some (NL_CONT, s) | Some f \<Rightarrow> f m off s) = Some (h x s)"
    and keeps: "ok x \<Longrightarrow> inv s \<Longrightarrow> inv (snd (h x s))"
begin

lemma step_keeps: "msg_ok ok x \<Longrightarrow> inv s \<Longrightarrow> step_msg h nl_pid seq x multi s = (f, multi', s') \<Longrightarrow> inv s'"
  using keeps [of x s] by (auto simp: step_msg_def msg_ok_def Let_def split: if_splits prod.splits)

lemma run_keeps: "\<forall>x \<in> set xs. msg_ok ok x \<Longrightarrow> inv s \<Longrightarrow> run_msgs h nl_pid seq xs multi s = (f, s') \<Longrightarrow> inv s'"
proof (induction xs arbitrary: multi s)
  case (Cons x xs)
  obtain g b t where st: "step_msg h nl_pid seq x multi s = (g, b, t)" using prod_cases3 by blast
  have "inv t" by (rule step_keeps [OF _ Cons.prems(2) st]) (use Cons.prems in simp)
  then show ?case using Cons st by (cases g) auto
qed simp

lemma handle_msg_refines:
  assumes "msg_at m off x" and "msg_ok ok x" and "inv s" and "length m < 2 ^ 31" and "ext_ack x \<Longrightarrow> off + msg_size x + 16 \<le> length m"
  shows "handle_msg fn nl_pid seq m off multi s = Some (step_msg h nl_pid seq x multi s)"
proof -
  have l: "load32 m (off + 12) = Some (n_pid x)" "load32 m (off + 8) = Some (n_seq x)" "load16 m (off + 6) = Some (n_flags x)"
    "load16 m (off + 4) = Some (n_type x)"
    using assms(1) by (auto simp: msg_at_def)
  consider (error) "n_type x = NLMSG_ERROR" | (fin) "n_type x = NLMSG_DONE" "n_type x \<noteq> NLMSG_ERROR"
    | (other) "n_type x \<noteq> NLMSG_ERROR" "n_type x \<noteq> NLMSG_DONE" by blast
  then show ?thesis
  proof cases
    case error
    then have e: "4 \<le> length (n_data x)" "ext_ack x \<Longrightarrow> ext_ack_ok x" using assms(2) by (auto simp: msg_ok_def)
    then have w: "load32 m (off + 16) = Some (msg_error x)"
      using msg_at_word32 [OF assms(1), of 0] by (simp add: msg_error_def load32_def)
    obtain r where "libbpf_nla_dump_errormsg (drop off m) = Some r"
      using dump_errormsg_total [OF assms(1) _ assms(4)] e(2) assms(5) error by (auto simp: ext_ack_def)
    then show ?thesis using error l w by (simp add: handle_msg_def step_msg_def Let_def)
  next
    case fin
    then show ?thesis using l by (simp add: handle_msg_def step_msg_def Let_def)
  next
    case other
    obtain r s' where h: "h x s = (r, s')" by fastforce
    have "(case fn of None \<Rightarrow> Some (NL_CONT, s) | Some f \<Rightarrow> f m off s) = Some (r, s')"
      using handles [OF assms(1)] assms(2,3) other h by (simp add: msg_ok_def)
    then show ?thesis using other l h
      by (auto simp: handle_msg_def step_msg_def Let_def NL_CONT_def NL_NEXT_def NL_DONE_def split: option.splits)
  qed
qed

lemma nlmsg_loop_refines:
  assumes "msgs_at d off xs" and "length (d @ j) < 2 ^ 31" and "\<forall>x \<in> set xs. msg_ok ok x" and "inv s"
    and "(\<exists>x \<in> set xs. ext_ack x) \<Longrightarrow> 16 \<le> length j"
  shows "nlmsg_loop fn nl_pid seq (d @ j) off (int (length d - off)) multi s = Some (run_msgs h nl_pid seq xs multi s)"
  using assms
proof (induction d off xs arbitrary: multi s rule: msgs_at.induct)
  case (1 d off)
  then show ?case by (subst nlmsg_loop.simps) (simp add: NLMSG_OK_end)
next
  case (2 d off x xs)
  have a: "msg_at (d @ j) off x" "off + msg_size x \<le> length d" "msg_ok ok x"
    using "2.prems" msgs_at_length [of d "off + msg_size x" xs] msg_at_append [of d off x j] by auto
  have e: "off + msg_size x + 16 \<le> length (d @ j)" if "ext_ack x" using a(2) "2.prems"(5) that by simp
  have "length d < 2 ^ 31" using "2.prems"(2) by simp
  note st = NLMSG_steps [OF a(1,2) this]
  have "nlmsg_loop fn nl_pid seq (d @ j) (off + msg_size x) (int (length d - (off + msg_size x))) multi' s' =
      Some (run_msgs h nl_pid seq xs multi' s')" if "inv s'" for multi' s'
    by (rule "2.IH") (use "2.prems" that in auto)
  then show ?case using step_keeps [OF a(3) "2.prems"(4)]
    by (subst nlmsg_loop.simps) (simp add: st handle_msg_refines [OF a(1,3) "2.prems"(4,2) e] split: prod.splits option.splits)
qed

lemma recv_loop_refines:
  assumes "list_all2 (dgram ok) rss xss" and "run_dgrams h nl_pid seq xss s = Some res" and "inv s" and "4096 \<le> iov_len" and "iov_len < 2 ^ 31"
  shows "recv_loop fn nl_pid seq bufs allocs n iov_len (concat rss @ rs) s = Some (Some res) \<or>
    (\<exists>k s'. \<not> allocs k \<and> recv_loop fn nl_pid seq bufs allocs n iov_len (concat rss @ rs) s = Some (Some (- ENOMEM, s')))"
  using assms
proof (induction rss xss arbitrary: n iov_len s rule: list_all2_induct)
  case (Cons r rss xs xss)
  obtain d a p b where d: "r = a @ Received (int (length d)) p # b @ [Received (int (length d)) d]"
    "\<forall>r \<in> set a. interruption r" "\<forall>r \<in> set b. interruption r" "msgs_at d 0 xs" "length d < 2 ^ 31" "\<forall>x \<in> set xs. msg_ok ok x"
    "(\<exists>x \<in> set xs. ext_ack x) \<longrightarrow> length d + 16 \<le> 4096"
    using Cons.hyps(1) unfolding dgram_def delivery_def by auto
  let ?rest = "concat rss @ rs"
  have r1: "netlink_recvmsg (concat (r # rss) @ rs) = Some (int (length d), p, b @ Received (int (length d)) d # ?rest)"
    using recvmsg_interrupted [OF d(2)] d(1) by simp
  have r2: "netlink_recvmsg (b @ Received (int (length d)) d # ?rest) = Some (int (length d), d, ?rest)"
    using recvmsg_interrupted [OF d(3)] by simp
  show ?case
  proof (cases "int (length d) > int iov_len \<and> \<not> allocs n")
    case True
    then have "recv_loop fn nl_pid seq bufs allocs n iov_len (concat (r # rss) @ rs) s = Some (Some (- ENOMEM, s))"
      by (subst recv_loop.simps) (simp only: r1 option.case prod.case alloc_iov_def ENOMEM_def, simp)
    then show ?thesis using True by auto
  next
    case False
    let ?iov = "if int (length d) > int iov_len then length d else iov_len"
    have al: "(if int (length d) > int iov_len then alloc_iov (allocs n) iov_len (nat (int (length d))) else (0, iov_len)) = (0, ?iov)"
      using False by (simp add: alloc_iov_def)
    have iov: "length d \<le> ?iov" "4096 \<le> ?iov" "?iov < 2 ^ 31" using Cons.prems(3,4) d(5) by auto
    define j where "j = map (bufs n) [length d..<?iov]"
    have buf: "iov_buf (bufs n) ?iov d = d @ j" unfolding j_def by (rule iov_buf_whole [OF iov(1)])
    have j: "length (d @ j) = ?iov" using iov(1) by (simp add: j_def)
    have "16 \<le> length j" if "\<exists>x \<in> set xs. ext_ack x" using d(7) that iov(2) j by auto
    then have nl: "nlmsg_loop fn nl_pid seq (d @ j) 0 (int (length d)) False s = Some (run_msgs h nl_pid seq xs False s)"
      using nlmsg_loop_refines [OF d(4) _ d(6) Cons.prems(2), of j] j iov(3) by simp
    obtain fl s' where run: "run_msgs h nl_pid seq xs False s = (fl, s')" by fastforce
    have eq: "recv_loop fn nl_pid seq bufs allocs n iov_len (concat (r # rss) @ rs) s =
        (if length d = 0 then Some (Some (0, s)) else case fl of Ret v \<Rightarrow> Some (Some (v, s'))
          | Start \<Rightarrow> recv_loop fn nl_pid seq bufs allocs (Suc n) ?iov ?rest s'
          | Again multi \<Rightarrow> if multi then recv_loop fn nl_pid seq bufs allocs (Suc n) ?iov ?rest s' else Some (Some (0, s')))"
      by (subst recv_loop.simps) (simp only: r1 option.case prod.case al r2 buf nl run, simp split: flow.splits)
    have z: "xs = []" if "length d = 0" using that d(4) by (cases xs) (auto dest: msg_at_length)
    show ?thesis
    proof (cases "length d = 0")
      case True
      then show ?thesis using Cons.prems z eq by simp
    next
      case False
      then show ?thesis using Cons.prems Cons.IH [of s' ?iov "Suc n"] run_keeps [OF d(6) Cons.prems(2) run] iov(2,3) unfolding eq by (cases fl) (auto simp: run split: if_splits)
    qed
  qed
qed simp

lemma recv_refines:
  assumes "list_all2 (dgram ok) rss xss" and "run_dgrams h nl_pid seq xss s = Some res" and "inv s"
  shows "libbpf_netlink_recv fn nl_pid seq bufs allocs (concat rss @ rs) s = Some (Some res) \<or>
    (\<exists>k s'. \<not> allocs k \<and> libbpf_netlink_recv fn nl_pid seq bufs allocs (concat rss @ rs) s = Some (Some (- ENOMEM, s')))"
  using recv_loop_refines [OF assms, of 4096 bufs allocs 1 rs]
  by (cases "allocs 0") (auto simp: libbpf_netlink_recv_def alloc_iov_def ENOMEM_def)

lemma send_recv_refines:
  assumes "libbpf_netlink_open env = Inr nl_pid" and "send_ret env = None" and "16 \<le> length req"
    and "load32 req 0 = Some n" and "unat n \<le> length req"
    and "list_all2 (dgram ok) rss xss" and "recvs env = concat rss @ rs"
    and "run_dgrams h nl_pid (time_now env) xss s = Some (r, s')" and "inv s"
  shows "\<exists>k s'' msg. stamped req (time_now env) msg \<and>
      (libbpf_netlink_send_recv env allocs req fn s = Some (Some (r, Some msg, s')) \<or>
       (\<not> allocs k \<and> libbpf_netlink_send_recv env allocs req fn s = Some (Some (- ENOMEM, Some msg, s''))))"
proof -
  obtain r1 where r1: "store32 req 12 0 = Some r1" using assms(3) by (simp add: store32_def)
  then obtain r2 where r2: "store32 r1 8 (time_now env) = Some r2"
    using assms(3) store32_length [OF r1] by (simp add: store32_def)
  have len: "length r2 = length req" using store32_length [OF r1] store32_length [OF r2] by simp
  have l: "load32 r2 0 = Some n"
    using assms(3,4) r1 r2 by (auto simp: store32_def load32_def split: if_splits)
  have "load_bytes r2 0 (unat n) = Some (take (unat n) r2)" using assms(5) len by (simp add: load_bytes_def)
  then have eq: "libbpf_netlink_send_recv env allocs req fn s = map_option (map_option (\<lambda>(ret, s). (ret, Some (take (unat n) r2), s)))
      (libbpf_netlink_recv fn nl_pid (time_now env) (junk env) allocs (recvs env) s)"
    using assms(1,2) r1 r2 l by (simp add: libbpf_netlink_send_recv_def)
  have "stamped req (time_now env) (take (unat n) r2)" using r1 r2 l by (auto simp: stamped_def)
  then show ?thesis using recv_refines [OF assms(6,8,9), of "junk env" allocs rs] unfolding eq assms(7) by auto
qed

end

text \<open>No callback: the messages are only checked.\<close>

interpretation no_callback: nl_handler None "\<lambda>x s. (NL_CONT, s)" "\<lambda>_. True" "\<lambda>_. True"
  by unfold_locales simp_all

section \<open>Answers\<close>

text \<open>An acknowledgement: one datagram with one message, whose number is the result of the request.\<close>

definition ack_msg :: "u32 \<Rightarrow> u32 \<Rightarrow> u32 \<Rightarrow> nlmsg \<Rightarrow> bool" where
  "ack_msg nl_pid seq e x \<longleftrightarrow> n_type x = NLMSG_ERROR \<and> n_pid x = nl_pid \<and> n_seq x = seq \<and>
     n_flags x AND NLM_F_MULTI = 0 \<and> load32 (n_data x) 0 = Some e"

lemma run_ack: "ack_msg nl_pid seq e x \<Longrightarrow> run_dgrams h nl_pid seq [[x]] s = Some (sint e, s)"
  by (simp add: ack_msg_def step_msg_def msg_error_def Let_def)

text \<open>
  A dump: any number of datagrams, none of them empty, with messages of several parts, and the end of the dump last.  The
  callback sees the messages one after the other, however they are distributed over the datagrams, until it gives a result.
\<close>

definition part_msg :: "u32 \<Rightarrow> u32 \<Rightarrow> nlmsg \<Rightarrow> bool" where
  "part_msg nl_pid seq x \<longleftrightarrow> n_pid x = nl_pid \<and> n_seq x = seq \<and> n_flags x AND NLM_F_MULTI \<noteq> 0"

fun dump_fold :: "(nlmsg \<Rightarrow> 's \<Rightarrow> int \<times> 's) \<Rightarrow> nlmsg list \<Rightarrow> 's \<Rightarrow> int \<times> 's" where
  "dump_fold h [] s = (0, s)"
| "dump_fold h (x # xs) s = (case h x s of (ret, s) \<Rightarrow>
     if ret = NL_CONT then dump_fold h xs s else if ret = NL_DONE then (0, s) else (ret, s))"

definition dump :: "u32 \<Rightarrow> u32 \<Rightarrow> nlmsg list \<Rightarrow> nlmsg list list \<Rightarrow> bool" where
  "dump nl_pid seq xs xss \<longleftrightarrow> [] \<notin> set xss \<and> (\<forall>x \<in> set (concat xss). part_msg nl_pid seq x) \<and>
     (\<exists>y. concat xss = xs @ [y] \<and> n_type y = NLMSG_DONE) \<and> (\<forall>x \<in> set xs. n_type x \<noteq> NLMSG_ERROR \<and> n_type x \<noteq> NLMSG_DONE)"

lemma run_msgs_append:
  "run_msgs h nl_pid seq (xs @ ys) multi s = (case run_msgs h nl_pid seq xs multi s of
     (Again multi, s) \<Rightarrow> run_msgs h nl_pid seq ys multi s | r \<Rightarrow> r)"
proof (induction xs arbitrary: multi s)
  case (Cons x xs)
  obtain f b s' where st: "step_msg h nl_pid seq x multi s = (f, b, s')" using prod_cases3 by blast
  have na: "f \<noteq> Some (Again k)" for k using st by (auto simp: step_msg_def Let_def split: if_splits prod.splits)
  show ?case using Cons na by (cases f; cases "the f") (auto simp: st)
qed simp

lemma run_msgs_multi:
  "xs \<noteq> [] \<Longrightarrow> \<forall>x \<in> set xs. part_msg nl_pid seq x \<Longrightarrow> run_msgs h nl_pid seq xs multi s = run_msgs h nl_pid seq xs True s"
  by (cases xs) (auto simp: step_msg_def part_msg_def Let_def split: prod.splits)

lemma run_dgrams_concat:
  assumes "[] \<notin> set xss" and "\<forall>x \<in> set (concat xss). part_msg nl_pid seq x" and "\<forall>x \<in> set (concat xss). \<forall>s. fst (h x s) \<noteq> NL_NEXT"
    and "run_msgs h nl_pid seq (concat xss) True s = (Ret r, s')"
  shows "run_dgrams h nl_pid seq xss s = Some (r, s')"
  using assms
proof (induction xss arbitrary: s)
  case (Cons xs xss)
  have n: "run_msgs h nl_pid seq ys b t \<noteq> (Start, t')" "run_msgs h nl_pid seq ys True t \<noteq> (Again False, t')"
    if "\<forall>x \<in> set ys. part_msg nl_pid seq x \<and> (\<forall>s. fst (h x s) \<noteq> NL_NEXT)" for ys b t t'
    using that
    by (induction ys arbitrary: b t)
      (auto simp: step_msg_def Let_def part_msg_def split: prod.splits if_splits, (metis fst_conv)+)
  have m: "run_msgs h nl_pid seq xs False s = run_msgs h nl_pid seq xs True s"
    by (rule run_msgs_multi) (use Cons.prems in auto)
  obtain f t where f: "run_msgs h nl_pid seq xs True s = (f, t)" by fastforce
  then have "f \<noteq> Start" "f \<noteq> Again False" using n [of xs] Cons.prems(2,3) by auto
  then show ?case using Cons m f by (cases f) (auto simp: run_msgs_append split: if_splits)
qed simp

lemma run_msgs_fold:
  assumes "\<forall>x \<in> set xs. part_msg nl_pid seq x \<and> n_type x \<noteq> NLMSG_ERROR \<and> n_type x \<noteq> NLMSG_DONE \<and> (\<forall>s. fst (h x s) \<noteq> NL_NEXT)"
    and "part_msg nl_pid seq y" and "n_type y = NLMSG_DONE"
  shows "run_msgs h nl_pid seq (xs @ [y]) True s = (case dump_fold h xs s of (r, s) \<Rightarrow> (Ret r, s))"
  using assms(1)
proof (induction xs arbitrary: s)
  case Nil
  then show ?case using assms(2,3) by (simp add: step_msg_def part_msg_def NLMSG_ERROR_def NLMSG_DONE_def)
next
  case (Cons x xs)
  obtain r s' where h: "h x s = (r, s')" by fastforce
  have "r \<noteq> NL_NEXT" using Cons.prems h by (metis fst_conv list.set_intros(1))
  then show ?case using Cons h by (auto simp: step_msg_def part_msg_def Let_def NL_CONT_def NL_DONE_def)
qed

lemma run_dump:
  assumes "dump nl_pid seq xs xss" and "\<And>x s. fst (h x s) \<noteq> NL_NEXT"
  shows "run_dgrams h nl_pid seq xss s = Some (dump_fold h xs s)"
proof -
  obtain y where y: "concat xss = xs @ [y]" "n_type y = NLMSG_DONE" using assms(1) by (auto simp: dump_def)
  have p: "\<forall>x \<in> set (concat xss). part_msg nl_pid seq x" using assms(1) by (simp add: dump_def)
  obtain r s' where d: "dump_fold h xs s = (r, s')" by fastforce
  have "run_msgs h nl_pid seq (concat xss) True s = (Ret r, s')"
    unfolding y(1) using run_msgs_fold [of xs nl_pid seq h y s] assms p y d by (simp add: dump_def)
  then show ?thesis using run_dgrams_concat [of xss nl_pid seq h s r s'] assms p d by (simp add: dump_def)
qed

end
