(* ===== verification/Netlink_Xdp.thy ===== *)
theory Netlink_Xdp
  imports Netlink
begin

text \<open>
  Attaching an XDP program to an interface and querying it (\<^verbatim>\<open>bpf_xdp_attach\<close> to \<^verbatim>\<open>bpf_xdp_query_id\<close> of
  \<^verbatim>\<open>netlink.c\<close>), with the checks of option structures of \<^verbatim>\<open>libbpf_internal.h\<close>.  Numbers of type \<^verbatim>\<open>int\<close> are the words that
  represent them.  \<^verbatim>\<open>libbpf_err\<close> returns its argument; that it sets \<^verbatim>\<open>errno\<close> is not modelled.
\<close>

section \<open>Option structures\<close>

text \<open>The member \<^verbatim>\<open>sz\<close>, and the bytes of the whole structure; a null pointer is \<open>None\<close>.\<close>

record opts =
  o_sz :: u64
  o_mem :: bytes

fun mem_zeroed_loop :: "bytes \<Rightarrow> nat \<Rightarrow> nat \<Rightarrow> bool option" where
  "mem_zeroed_loop m p 0 = Some True"
| "mem_zeroed_loop m p (Suc len) = do { b \<leftarrow> load8 m p; if b \<noteq> 0 then Some False else mem_zeroed_loop m (p + 1) len }"

definition libbpf_is_mem_zeroed :: "bytes \<Rightarrow> nat \<Rightarrow> int \<Rightarrow> bool option" where
  "libbpf_is_mem_zeroed m p len = mem_zeroed_loop m p (nat len)"

definition libbpf_validate_opts :: "bytes \<Rightarrow> nat \<Rightarrow> u64 \<Rightarrow> bool option" where
  "libbpf_validate_opts mem opts_sz user_sz =
     (if user_sz < 8 then Some False else libbpf_is_mem_zeroed mem opts_sz (sint (user_sz - of_nat opts_sz)))"

definition OPTS_VALID :: "opts option \<Rightarrow> nat \<Rightarrow> bool option" where
  "OPTS_VALID opts last_end = (case opts of None \<Rightarrow> Some True | Some p \<Rightarrow> libbpf_validate_opts (o_mem p) last_end (o_sz p))"

definition OPTS_HAS :: "opts option \<Rightarrow> nat \<Rightarrow> bool" where
  "OPTS_HAS opts field_end = (case opts of None \<Rightarrow> False | Some p \<Rightarrow> of_nat field_end \<le> o_sz p)"

definition OPTS_GET :: "opts option \<Rightarrow> nat \<Rightarrow> u32 \<Rightarrow> u32 option" where
  "OPTS_GET opts field fallback = (if OPTS_HAS opts (field + 4) then load32 (o_mem (the opts)) field else Some fallback)"

definition OPTS_SET :: "opts option \<Rightarrow> nat \<Rightarrow> u32 \<Rightarrow> opts option option" where
  "OPTS_SET opts field v = (if OPTS_HAS opts (field + 4)
     then map_option (\<lambda>m. Some ((the opts)\<lparr>o_mem := m\<rparr>)) (store32 (o_mem (the opts)) field v) else Some opts)"

definition OPTS_SET8 :: "opts option \<Rightarrow> nat \<Rightarrow> u8 \<Rightarrow> opts option option" where
  "OPTS_SET8 opts field v = (if OPTS_HAS opts (field + 1)
     then map_option (\<lambda>m. Some ((the opts)\<lparr>o_mem := m\<rparr>)) (store8 (o_mem (the opts)) field v) else Some opts)"

section \<open>Operations\<close>

definition RTM_GETLINK :: u16 where "RTM_GETLINK = 18"
definition RTM_SETLINK :: u16 where "RTM_SETLINK = 19"
definition AF_PACKET :: u8 where "AF_PACKET = 17"
definition NLM_F_DUMP :: u16 where "NLM_F_DUMP = 0x100 OR 0x200"

definition IFLA_XDP :: nat where "IFLA_XDP = 43"
definition IFLA_MAX :: int where "IFLA_MAX = 60"
definition IFLA_XDP_FD :: nat where "IFLA_XDP_FD = 1"
definition IFLA_XDP_ATTACHED :: nat where "IFLA_XDP_ATTACHED = 2"
definition IFLA_XDP_FLAGS :: nat where "IFLA_XDP_FLAGS = 3"
definition IFLA_XDP_PROG_ID :: nat where "IFLA_XDP_PROG_ID = 4"
definition IFLA_XDP_DRV_PROG_ID :: nat where "IFLA_XDP_DRV_PROG_ID = 5"
definition IFLA_XDP_SKB_PROG_ID :: nat where "IFLA_XDP_SKB_PROG_ID = 6"
definition IFLA_XDP_HW_PROG_ID :: nat where "IFLA_XDP_HW_PROG_ID = 7"
definition IFLA_XDP_EXPECTED_FD :: nat where "IFLA_XDP_EXPECTED_FD = 8"
definition IFLA_XDP_MAX :: int where "IFLA_XDP_MAX = 8"

lemmas ifla_defs = IFLA_XDP_def IFLA_MAX_def IFLA_XDP_FD_def IFLA_XDP_ATTACHED_def IFLA_XDP_FLAGS_def IFLA_XDP_PROG_ID_def
  IFLA_XDP_DRV_PROG_ID_def IFLA_XDP_SKB_PROG_ID_def IFLA_XDP_HW_PROG_ID_def IFLA_XDP_EXPECTED_FD_def IFLA_XDP_MAX_def

definition XDP_FLAGS_UPDATE_IF_NOEXIST :: u32 where "XDP_FLAGS_UPDATE_IF_NOEXIST = 1"
definition XDP_FLAGS_SKB_MODE :: u32 where "XDP_FLAGS_SKB_MODE = 2"
definition XDP_FLAGS_DRV_MODE :: u32 where "XDP_FLAGS_DRV_MODE = 4"
definition XDP_FLAGS_HW_MODE :: u32 where "XDP_FLAGS_HW_MODE = 8"
definition XDP_FLAGS_REPLACE :: u32 where "XDP_FLAGS_REPLACE = 16"
definition XDP_FLAGS_MODES :: u32 where "XDP_FLAGS_MODES = XDP_FLAGS_SKB_MODE OR XDP_FLAGS_DRV_MODE OR XDP_FLAGS_HW_MODE"
definition XDP_FLAGS_MASK :: u32 where "XDP_FLAGS_MASK = XDP_FLAGS_UPDATE_IF_NOEXIST OR XDP_FLAGS_MODES OR XDP_FLAGS_REPLACE"

lemmas xdp_flags_defs = XDP_FLAGS_UPDATE_IF_NOEXIST_def XDP_FLAGS_SKB_MODE_def XDP_FLAGS_DRV_MODE_def XDP_FLAGS_HW_MODE_def
  XDP_FLAGS_REPLACE_def XDP_FLAGS_MODES_def XDP_FLAGS_MASK_def

definition XDP_ATTACHED_NONE :: u8 where "XDP_ATTACHED_NONE = 0"
definition XDP_ATTACHED_MULTI :: u8 where "XDP_ATTACHED_MULTI = 4"

text \<open>The request with the headers of a link message: cleared, then length, flags, type, family and index.\<close>

definition link_req :: "u16 \<Rightarrow> u16 \<Rightarrow> u8 \<Rightarrow> u32 \<Rightarrow> bytes option" where
  "link_req type flags family ifindex = do {
     req \<leftarrow> store32 (replicate nla_req_size 0) 0 32;
     req \<leftarrow> store16 req 6 flags;
     req \<leftarrow> store16 req 4 type;
     req \<leftarrow> store8 req 16 family;
     store32 req 20 ifindex
   }"

text \<open>The part of \<^verbatim>\<open>__bpf_set_link_xdp_fd_replace\<close> that builds the request.\<close>

definition xdp_link_req :: "u32 \<Rightarrow> u32 \<Rightarrow> u32 \<Rightarrow> u32 \<Rightarrow> (int \<times> bytes) option" where
  "xdp_link_req ifindex fd old_fd flags = do {
     req \<leftarrow> link_req RTM_SETLINK (NLM_F_REQUEST OR NLM_F_ACK) 0 ifindex;
     (nla, req) \<leftarrow> nlattr_begin_nested req (int IFLA_XDP);
     case nla of
       None \<Rightarrow> Some (- EMSGSIZE, req)
     | Some nla \<Rightarrow> do {
         (ret, req) \<leftarrow> nlattr_add req (int IFLA_XDP_FD) (Some (le_bytes fd)) 4;
         if ret < 0 then Some (ret, req)
         else do {
           (ret, req) \<leftarrow> (if flags \<noteq> 0 then nlattr_add req (int IFLA_XDP_FLAGS) (Some (le_bytes flags)) 4 else Some (0, req));
           if ret < 0 then Some (ret, req)
           else do {
             (ret, req) \<leftarrow> (if flags AND XDP_FLAGS_REPLACE \<noteq> 0
                            then nlattr_add req (int IFLA_XDP_EXPECTED_FD) (Some (le_bytes old_fd)) 4 else Some (0, req));
             if ret < 0 then Some (ret, req)
             else do { req \<leftarrow> nlattr_end_nested req nla; Some (0, req) }
           }
         }
       }
   }"

text \<open>The result and the message that was sent, if one was.\<close>

definition bpf_set_link_xdp_fd_replace :: "nl_env \<Rightarrow> (nat \<Rightarrow> bool) \<Rightarrow> u32 \<Rightarrow> u32 \<Rightarrow> u32 \<Rightarrow> u32 \<Rightarrow> (int \<times> bytes option) option option" where
  "bpf_set_link_xdp_fd_replace env allocs ifindex fd old_fd flags = do {
     (ret, req) \<leftarrow> xdp_link_req ifindex fd old_fd flags;
     if ret < 0 then Some (Some (ret, None))
     else map_option (map_option (\<lambda>(ret, sent, _). (ret, sent))) (libbpf_netlink_send_recv env allocs req None ())
   }"

definition bpf_xdp_attach :: "nl_env \<Rightarrow> (nat \<Rightarrow> bool) \<Rightarrow> u32 \<Rightarrow> u32 \<Rightarrow> u32 \<Rightarrow> opts option \<Rightarrow> (int \<times> bytes option) option option" where
  "bpf_xdp_attach env allocs ifindex prog_fd flags opts = do {
     valid \<leftarrow> OPTS_VALID opts 12;
     if \<not> valid then Some (Some (- EINVAL, None))
     else do {
       old_prog_fd \<leftarrow> OPTS_GET opts 8 0;
       if old_prog_fd \<noteq> 0 then bpf_set_link_xdp_fd_replace env allocs ifindex prog_fd old_prog_fd (flags OR XDP_FLAGS_REPLACE)
       else bpf_set_link_xdp_fd_replace env allocs ifindex prog_fd (- 1) flags
     }
   }"

definition bpf_xdp_detach :: "nl_env \<Rightarrow> (nat \<Rightarrow> bool) \<Rightarrow> u32 \<Rightarrow> u32 \<Rightarrow> opts option \<Rightarrow> (int \<times> bytes option) option option" where
  "bpf_xdp_detach env allocs ifindex flags opts = bpf_xdp_attach env allocs ifindex (- 1) flags opts"

definition bpf_set_link_xdp_fd_opts :: "nl_env \<Rightarrow> (nat \<Rightarrow> bool) \<Rightarrow> u32 \<Rightarrow> u32 \<Rightarrow> u32 \<Rightarrow> opts option \<Rightarrow> (int \<times> bytes option) option option" where
  "bpf_set_link_xdp_fd_opts env allocs ifindex fd flags opts = do {
     valid \<leftarrow> OPTS_VALID opts 12;
     if \<not> valid then Some (Some (- EINVAL, None))
     else if OPTS_HAS opts 12 then do {
       old_fd \<leftarrow> OPTS_GET opts 8 (- 1);
       bpf_set_link_xdp_fd_replace env allocs ifindex fd old_fd (flags OR XDP_FLAGS_REPLACE)
     }
     else bpf_set_link_xdp_fd_replace env allocs ifindex fd (- 1) flags
   }"

definition bpf_set_link_xdp_fd :: "nl_env \<Rightarrow> (nat \<Rightarrow> bool) \<Rightarrow> u32 \<Rightarrow> u32 \<Rightarrow> u32 \<Rightarrow> (int \<times> bytes option) option option" where
  "bpf_set_link_xdp_fd env allocs ifindex fd flags = bpf_set_link_xdp_fd_replace env allocs ifindex fd 0 flags"

definition dump_link_nlmsg :: "(bytes \<Rightarrow> nat \<Rightarrow> nat option list \<Rightarrow> 's \<Rightarrow> (int \<times> 's) option) \<Rightarrow> 's msg_fn" where
  "dump_link_nlmsg fn m nlh s = do {
     let ifi = nlh + 16;
     nlmsg_len \<leftarrow> load32 m nlh;
     let len = to_int (uint nlmsg_len - 32);
     (err, tb) \<leftarrow> libbpf_nla_parse m IFLA_MAX (ifi + 16) len None;
     if err \<noteq> 0 then Some (- LIBBPF_ERRNO__NLPARSE, s) else fn m ifi tb s
   }"

definition libbpf_nla_getattr_u8 :: "bytes \<Rightarrow> nat \<Rightarrow> u8 option" where "libbpf_nla_getattr_u8 m nla = load8 m (libbpf_nla_data nla)"
definition libbpf_nla_getattr_u32 :: "bytes \<Rightarrow> nat \<Rightarrow> u32 option" where "libbpf_nla_getattr_u32 m nla = load32 m (libbpf_nla_data nla)"

record xdp_id_md =
  x_ifindex :: u32
  x_flags :: u32
  x_prog_id :: u32
  x_drv_prog_id :: u32
  x_hw_prog_id :: u32
  x_skb_prog_id :: u32
  x_attach_mode :: u8

text \<open>\<^verbatim>\<open>if (xdp_tb[k]) member = libbpf_nla_getattr_u32(xdp_tb[k])\<close>.\<close>

definition read_id :: "bytes \<Rightarrow> nat option list \<Rightarrow> nat \<Rightarrow> (u32 \<Rightarrow> xdp_id_md \<Rightarrow> xdp_id_md) \<Rightarrow> xdp_id_md \<Rightarrow> xdp_id_md option" where
  "read_id m tb k upd s = (case tb ! k of None \<Rightarrow> Some s | Some nla \<Rightarrow> map_option (\<lambda>v. upd v s) (libbpf_nla_getattr_u32 m nla))"

definition get_xdp_info :: "bytes \<Rightarrow> nat \<Rightarrow> nat option list \<Rightarrow> xdp_id_md \<Rightarrow> (int \<times> xdp_id_md) option" where
  "get_xdp_info m ifinfo tb s = do {
     ifi_index \<leftarrow> load32 m (ifinfo + 4);
     if x_ifindex s \<noteq> 0 \<and> x_ifindex s \<noteq> ifi_index then Some (0, s)
     else case tb ! IFLA_XDP of
       None \<Rightarrow> Some (0, s)
     | Some xdp \<Rightarrow> do {
         (ret, xdp_tb) \<leftarrow> libbpf_nla_parse_nested m IFLA_XDP_MAX xdp None;
         if ret \<noteq> 0 then Some (ret, s)
         else case xdp_tb ! IFLA_XDP_ATTACHED of
           None \<Rightarrow> Some (0, s)
         | Some nla \<Rightarrow> do {
             mode \<leftarrow> libbpf_nla_getattr_u8 m nla;
             let s = s\<lparr>x_attach_mode := mode\<rparr>;
             if mode = XDP_ATTACHED_NONE then Some (0, s)
             else do {
               s \<leftarrow> read_id m xdp_tb IFLA_XDP_PROG_ID (\<lambda>v. x_prog_id_update (\<lambda>_. v)) s;
               s \<leftarrow> read_id m xdp_tb IFLA_XDP_SKB_PROG_ID (\<lambda>v. x_skb_prog_id_update (\<lambda>_. v)) s;
               s \<leftarrow> read_id m xdp_tb IFLA_XDP_DRV_PROG_ID (\<lambda>v. x_drv_prog_id_update (\<lambda>_. v)) s;
               s \<leftarrow> read_id m xdp_tb IFLA_XDP_HW_PROG_ID (\<lambda>v. x_hw_prog_id_update (\<lambda>_. v)) s;
               Some (0, s)
             }
           }
       }
   }"

text \<open>The members that the query sets.\<close>

definition set_all :: "opts option \<Rightarrow> xdp_id_md \<Rightarrow> opts option option" where
  "set_all opts s = do {
     opts \<leftarrow> OPTS_SET opts 8 (x_prog_id s);
     opts \<leftarrow> OPTS_SET opts 12 (x_drv_prog_id s);
     opts \<leftarrow> OPTS_SET opts 16 (x_hw_prog_id s);
     opts \<leftarrow> OPTS_SET opts 20 (x_skb_prog_id s);
     OPTS_SET8 opts 24 (x_attach_mode s)
   }"

text \<open>The result, the message that was sent and the options.\<close>

definition bpf_xdp_query :: "nl_env \<Rightarrow> (nat \<Rightarrow> bool) \<Rightarrow> u32 \<Rightarrow> u32 \<Rightarrow> opts option \<Rightarrow> (int \<times> bytes option \<times> opts option) option option" where
  "bpf_xdp_query env allocs ifindex xdp_flags opts = do {
     req \<leftarrow> link_req RTM_GETLINK (NLM_F_DUMP OR NLM_F_REQUEST) AF_PACKET 0;
     valid \<leftarrow> OPTS_VALID opts 25;
     if \<not> valid then Some (Some (- EINVAL, None, opts))
     else if xdp_flags AND NOT XDP_FLAGS_MASK \<noteq> 0 then Some (Some (- EINVAL, None, opts))
     else do {
       let xdp_flags = xdp_flags AND (XDP_FLAGS_SKB_MODE OR XDP_FLAGS_DRV_MODE OR XDP_FLAGS_HW_MODE);
       if xdp_flags AND (xdp_flags - 1) \<noteq> 0 then Some (Some (- EINVAL, None, opts))
       else do {
         let s = \<lparr>x_ifindex = ifindex, x_flags = xdp_flags, x_prog_id = 0, x_drv_prog_id = 0, x_hw_prog_id = 0, x_skb_prog_id = 0, x_attach_mode = 0\<rparr>;
         r \<leftarrow> libbpf_netlink_send_recv env allocs req (Some (dump_link_nlmsg get_xdp_info)) s;
         case r of
           None \<Rightarrow> Some None
         | Some (err, sent, s) \<Rightarrow>
             if err \<noteq> 0 then Some (Some (err, sent, opts))
             else do {
               opts \<leftarrow> set_all opts s;
               Some (Some (0, sent, opts))
             }
       }
     }
   }"

text \<open>\<^verbatim>\<open>LIBBPF_OPTS(bpf_xdp_query_opts, opts)\<close>: cleared, with its size.\<close>

definition xdp_query_opts :: opts where "xdp_query_opts = \<lparr>o_sz = 32, o_mem = [32] @ replicate 31 0\<rparr>"

text \<open>The result, the message that was sent and the bytes that are written to \<open>info\<close>, of \<open>info_size\<close> bytes.\<close>

definition bpf_get_link_xdp_info :: "nl_env \<Rightarrow> (nat \<Rightarrow> bool) \<Rightarrow> u32 \<Rightarrow> nat \<Rightarrow> u32 \<Rightarrow> (int \<times> bytes option \<times> bytes option) option option" where
  "bpf_get_link_xdp_info env allocs ifindex info_size flags =
     (if info_size = 0 then Some (Some (- EINVAL, None, None))
      else do {
        r \<leftarrow> bpf_xdp_query env allocs ifindex flags (Some xdp_query_opts);
        case r of
          None \<Rightarrow> Some None
        | Some (err, sent, opts) \<Rightarrow>
            if err \<noteq> 0 then Some (Some (err, sent, None))
            else do {
              let n = min info_size 17;
              info \<leftarrow> load_bytes (o_mem (the opts)) 8 n;
              Some (Some (0, sent, Some (info @ replicate (info_size - n) 0)))
            }
      })"

text \<open>The result, the message that was sent and what is written to \<open>prog_id\<close>.\<close>

definition bpf_xdp_query_id :: "nl_env \<Rightarrow> (nat \<Rightarrow> bool) \<Rightarrow> u32 \<Rightarrow> u32 \<Rightarrow> (int \<times> bytes option \<times> u32 option) option option" where
  "bpf_xdp_query_id env allocs ifindex flags = do {
     r \<leftarrow> bpf_xdp_query env allocs ifindex flags (Some xdp_query_opts);
     case r of
       None \<Rightarrow> Some None
     | Some (ret, sent, opts) \<Rightarrow>
         if ret \<noteq> 0 then Some (Some (ret, sent, None))
         else do {
           let flags = flags AND XDP_FLAGS_MODES;
           let m = o_mem (the opts);
           attach_mode \<leftarrow> load8 m 24;
           prog_id \<leftarrow> (if attach_mode \<noteq> XDP_ATTACHED_MULTI \<and> flags = 0 then load32 m 8
             else if flags AND XDP_FLAGS_DRV_MODE \<noteq> 0 then load32 m 12
             else if flags AND XDP_FLAGS_HW_MODE \<noteq> 0 then load32 m 16
             else if flags AND XDP_FLAGS_SKB_MODE \<noteq> 0 then load32 m 20
             else Some 0);
           Some (Some (0, sent, Some prog_id))
         }
   }"

definition bpf_get_link_xdp_id :: "nl_env \<Rightarrow> (nat \<Rightarrow> bool) \<Rightarrow> u32 \<Rightarrow> u32 \<Rightarrow> (int \<times> bytes option \<times> u32 option) option option" where
  "bpf_get_link_xdp_id env allocs ifindex flags = bpf_xdp_query_id env allocs ifindex flags"

section \<open>The callback on a link message\<close>

definition link_index :: "nlmsg \<Rightarrow> u32" where "link_index x = the (load32 (n_data x) 4)"

definition link_xdp :: "nlmsg \<Rightarrow> bytes option" where "link_xdp x = attr_of (drop 16 (n_data x)) IFLA_XDP"

text \<open>What the kernel promises of a message on a link: aligned attributes, and values that are long enough.\<close>

definition has_size :: "nat \<Rightarrow> bytes option \<Rightarrow> bool" where
  "has_size n d = (case d of None \<Rightarrow> True | Some d \<Rightarrow> n \<le> length d)"

definition xdp_ok :: "bytes \<Rightarrow> bool" where
  "xdp_ok b \<longleftrightarrow> length b mod 4 = 0 \<and> has_size 1 (attr_of b IFLA_XDP_ATTACHED) \<and>
     (\<forall>k \<in> {IFLA_XDP_PROG_ID, IFLA_XDP_SKB_PROG_ID, IFLA_XDP_DRV_PROG_ID, IFLA_XDP_HW_PROG_ID}. has_size 4 (attr_of b k))"

definition link_ok :: "nlmsg \<Rightarrow> bool" where
  "link_ok x \<longleftrightarrow> 16 \<le> length (n_data x) \<and> length (n_data x) mod 4 = 0 \<and> length (n_data x) < 2 ^ 31 \<and>
     (case link_xdp x of None \<Rightarrow> True | Some b \<Rightarrow> xdp_ok b)"

definition id_of :: "bytes \<Rightarrow> nat \<Rightarrow> u32 \<Rightarrow> u32" where
  "id_of b k old = (case attr_of b k of None \<Rightarrow> old | Some d \<Rightarrow> the (load32 d 0))"

text \<open>What the attributes of one interface say.\<close>

definition xdp_info :: "bytes \<Rightarrow> xdp_id_md \<Rightarrow> xdp_id_md" where
  "xdp_info b s = (case attr_of b IFLA_XDP_ATTACHED of
       None \<Rightarrow> s
     | Some d \<Rightarrow> if d ! 0 = XDP_ATTACHED_NONE then s\<lparr>x_attach_mode := d ! 0\<rparr>
         else s\<lparr>x_attach_mode := d ! 0, x_prog_id := id_of b IFLA_XDP_PROG_ID (x_prog_id s),
           x_skb_prog_id := id_of b IFLA_XDP_SKB_PROG_ID (x_skb_prog_id s), x_drv_prog_id := id_of b IFLA_XDP_DRV_PROG_ID (x_drv_prog_id s),
           x_hw_prog_id := id_of b IFLA_XDP_HW_PROG_ID (x_hw_prog_id s)\<rparr>)"

definition link_info :: "nlmsg \<Rightarrow> xdp_id_md \<Rightarrow> int \<times> xdp_id_md" where
  "link_info x s = (0, if x_ifindex s \<noteq> 0 \<and> x_ifindex s \<noteq> link_index x then s
     else case link_xdp x of None \<Rightarrow> s | Some b \<Rightarrow> xdp_info b s)"

lemma read_id_spec:
  assumes "index_of m b tb" and "k < length tb" and "has_size 4 (attr_of b k)"
  shows "read_id m tb k upd s = Some (case attr_of b k of None \<Rightarrow> s | Some d \<Rightarrow> upd (the (load32 d 0)) s)"
proof (cases "attr_of b k")
  case None
  then show ?thesis using index_ofD [OF assms(1,2)] by (simp add: read_id_def)
next
  case (Some d)
  then obtain nla where n: "tb ! k = Some nla" "found m nla d" using index_ofD [OF assms(1,2)] by (auto simp: option_rel_Some2)
  have "4 \<le> length d" using assms(3) Some by (simp add: has_size_def)
  then show ?thesis using n Some found_load32 [OF n(2)] by (simp add: read_id_def libbpf_nla_getattr_u32_def load32_def)
qed

lemma get_xdp_info_nested:
  assumes "found m nla b" and "xdp_ok b" and "load32 m (ifinfo + 4) = Some i" and "x_ifindex s = 0 \<or> x_ifindex s = i"
    and "tb ! IFLA_XDP = Some nla"
  shows "get_xdp_info m ifinfo tb s = Some (0, xdp_info b s)"
proof -
  have o: "length b mod 4 = 0" "has_size 1 (attr_of b IFLA_XDP_ATTACHED)" using assms(2) by (auto simp: xdp_ok_def)
  obtain t where t: "libbpf_nla_parse_nested m IFLA_XDP_MAX nla None = Some (0, t)" "length t = 9" "index_of m b t"
    using parse_nested_decodes [OF assms(1) o(1), of IFLA_XDP_MAX] by (auto simp: IFLA_XDP_MAX_def)
  have ids: "read_id m t k upd s' = Some (case attr_of b k of None \<Rightarrow> s' | Some d \<Rightarrow> upd (the (load32 d 0)) s')"
    if "k \<in> {IFLA_XDP_PROG_ID, IFLA_XDP_SKB_PROG_ID, IFLA_XDP_DRV_PROG_ID, IFLA_XDP_HW_PROG_ID}" for k upd s'
    by (rule read_id_spec [OF t(3)]) (use that assms(2) t(2) in \<open>auto simp: xdp_ok_def ifla_defs\<close>)
  have r: "rel_option (found m) (t ! IFLA_XDP_ATTACHED) (attr_of b IFLA_XDP_ATTACHED)"
    by (rule index_ofD [OF t(3)]) (use t(2) in \<open>simp add: ifla_defs\<close>)
  show ?thesis
  proof (cases "attr_of b IFLA_XDP_ATTACHED")
    case None
    then show ?thesis using assms(3-5) t(1) r by (auto simp: get_xdp_info_def xdp_info_def)
  next
    case (Some d)
    then obtain a where a: "t ! IFLA_XDP_ATTACHED = Some a" "found m a d" using r by (auto simp: option_rel_Some2)
    have "libbpf_nla_getattr_u8 m a = Some (d ! 0)"
      using found_load8 [OF a(2)] o(2) Some by (cases d) (auto simp: libbpf_nla_getattr_u8_def has_size_def)
    then show ?thesis using assms(3-5) t(1) a(1) Some
      by (auto simp: get_xdp_info_def xdp_info_def ids id_of_def split: option.splits)
  qed
qed

lemma link_callback:
  assumes "msg_at m off x" and "link_ok x"
  shows "dump_link_nlmsg get_xdp_info m off s = Some (link_info x s)"
proof -
  let ?bs = "drop 16 (n_data x)"
  have o: "16 \<le> length (n_data x)" "length (n_data x) mod 4 = 0" "length (n_data x) < 2 ^ 31" using assms(2) by (auto simp: link_ok_def)
  have b: "load_bytes m (off + 16) (length (n_data x)) = Some (n_data x)" using assms(1) by (simp add: msg_at_def)
  have l: "load32 m off = Some (of_nat (16 + length (n_data x)))" using assms(1) by (simp add: msg_at_def)
  have "uint (of_nat (16 + length (n_data x)) :: u32) = int (16 + length (n_data x))"
    unfolding uint_nat by (subst unat_of_nat_u32) (use o in simp_all)
  then have len: "to_int (uint (of_nat (16 + length (n_data x)) :: u32) - 32) = int (length ?bs)" using o(1,3) by (simp add: c_simps)
  have lb: "load_bytes m (off + 16 + 16) (length ?bs) = Some ?bs" using load_bytes_sub [OF b, of 16 "length ?bs"] o(1) by simp
  have md: "length ?bs mod 4 = 0" "length ?bs < 2 ^ 31" using o by (auto simp: mod_eq_0_iff_dvd dvd_diff_nat)
  obtain tb where t: "libbpf_nla_parse m IFLA_MAX (off + 16 + 16) (int (length ?bs)) None = Some (0, tb)" "length tb = 61" "index_of m ?bs tb"
    using parse_decodes [OF lb md, of IFLA_MAX] by (auto simp: IFLA_MAX_def)
  have ix: "load32 m (off + 16 + 4) = Some (link_index x)"
    using load32_sub [OF b, of 4] o(1) by (simp add: link_index_def load32_def)
  have eq: "dump_link_nlmsg get_xdp_info m off s = get_xdp_info m (off + 16) tb s" using l len t(1) by (simp add: dump_link_nlmsg_def Let_def)
  have r: "rel_option (found m) (tb ! IFLA_XDP) (link_xdp x)"
    unfolding link_xdp_def by (rule index_ofD [OF t(3)]) (use t(2) in \<open>simp add: ifla_defs\<close>)
  show ?thesis
  proof (cases "link_xdp x")
    case None
    then show ?thesis using r ix unfolding eq by (auto simp: get_xdp_info_def link_info_def)
  next
    case (Some b)
    then obtain nla where n: "tb ! IFLA_XDP = Some nla" "found m nla b" using r by (auto simp: option_rel_Some2)
    have "xdp_ok b" using assms(2) Some by (simp add: link_ok_def)
    then show ?thesis using get_xdp_info_nested [OF n(2) _ ix _ n(1), of s] ix Some unfolding eq
      by (cases "x_ifindex s \<noteq> 0 \<and> x_ifindex s \<noteq> link_index x") (auto simp: link_info_def get_xdp_info_def)
  qed
qed

interpretation link_handler: nl_handler "Some (dump_link_nlmsg get_xdp_info)" link_info link_ok "\<lambda>_. True"
  by unfold_locales (simp_all add: link_callback)

section \<open>A query finds the program of the interface\<close>

lemma link_req_ok:
  "\<exists>req. link_req type flags family i = Some req \<and> length req = nla_req_size \<and> load32 req 0 = Some 32 \<and> load16 req 4 = Some type \<and>
     load16 req 6 = Some flags \<and> load32 req 20 = Some i"
proof -
  define z :: bytes where "z = replicate nla_req_size 0"
  have l: "length z = 164" by (simp add: z_def nla_req_size_def)
  have w: "(ucast (32 :: u32) :: u8) = 32" "drop_bit 8 (32 :: u32) = 0" "drop_bit 16 (32 :: u32) = 0" "drop_bit 24 (32 :: u32) = 0"
    by (simp_all add: unsigned_numeral drop_bit_eq_div)
  show ?thesis unfolding link_req_def z_def [symmetric]
    using word16_bytes [of type] word16_bytes [of flags] word32_bytes [of i] word32_bytes [of 32]
    by (simp add: store32_def store16_def store8_def load32_def load16_def l nth_list_update nla_req_size_def)
qed

definition xdp_start :: "u32 \<Rightarrow> u32 \<Rightarrow> xdp_id_md" where
  "xdp_start i flags = \<lparr>x_ifindex = i, x_flags = flags, x_prog_id = 0, x_drv_prog_id = 0, x_hw_prog_id = 0, x_skb_prog_id = 0, x_attach_mode = 0\<rparr>"

definition xdp_view :: "u32 \<Rightarrow> u32 \<Rightarrow> nlmsg \<Rightarrow> xdp_id_md" where
  "xdp_view i flags x = (case link_xdp x of None \<Rightarrow> xdp_start i flags | Some b \<Rightarrow> xdp_info b (xdp_start i flags))"

definition one_mode :: "u32 \<Rightarrow> bool" where
  "one_mode flags \<longleftrightarrow> flags AND NOT XDP_FLAGS_MASK = 0 \<and>
     flags AND XDP_FLAGS_MODES \<in> {0, XDP_FLAGS_SKB_MODE, XDP_FLAGS_DRV_MODE, XDP_FLAGS_HW_MODE}"

definition xdp_choice :: "u32 \<Rightarrow> xdp_id_md \<Rightarrow> u32" where
  "xdp_choice mode s = (if mode = XDP_FLAGS_DRV_MODE then x_drv_prog_id s else if mode = XDP_FLAGS_HW_MODE then x_hw_prog_id s
     else if mode = XDP_FLAGS_SKB_MODE then x_skb_prog_id s else if x_attach_mode s = XDP_ATTACHED_MULTI then 0 else x_prog_id s)"

lemma link_info_other: "x_ifindex s = i \<Longrightarrow> i \<noteq> 0 \<Longrightarrow> link_index x \<noteq> i \<Longrightarrow> link_info x s = (0, s)"
  by (auto simp: link_info_def)

lemma xdp_info_ifindex: "x_ifindex (xdp_info b s) = x_ifindex s"
  by (simp add: xdp_info_def split: option.splits)

lemma link_info_ifindex: "x_ifindex (snd (link_info x s)) = x_ifindex s"
  by (simp add: link_info_def xdp_info_ifindex split: option.splits)

lemma dump_links:
  "x_ifindex s = i \<Longrightarrow> i \<noteq> 0 \<Longrightarrow> dump_fold link_info xs s = dump_fold link_info (filter (\<lambda>x. link_index x = i) xs) s"
proof (induction xs arbitrary: s)
  case (Cons x xs)
  have f: "fst (link_info x s) = 0" by (simp add: link_info_def)
  show ?case
  proof (cases "link_index x = i")
    case True
    then show ?thesis
      using Cons.IH [of "snd (link_info x s)"] Cons.prems f link_info_ifindex [of x s] by (simp add: split_beta NL_CONT_def)
  next
    case False
    then show ?thesis using Cons link_info_other [of s i x] by (simp add: NL_CONT_def)
  qed
qed simp

lemma dump_one_link:
  assumes "i \<noteq> 0" and "filter (\<lambda>x. link_index x = i) xs = [x]"
  shows "dump_fold link_info xs (xdp_start i flags) = (0, xdp_view i flags x)"
proof -
  have "x_ifindex (xdp_start i flags) = i" by (simp add: xdp_start_def)
  moreover have "link_index x = i" using assms(2) by (metis (mono_tags, lifting) filter_eq_ConsD)
  ultimately show ?thesis using dump_links [OF _ assms(1), of "xdp_start i flags" xs] assms(2)
    by (simp add: link_info_def xdp_view_def NL_CONT_def split: option.splits)
qed

lemma link_info_next: "fst (link_info x s) \<noteq> NL_NEXT"
  by (simp add: link_info_def NL_NEXT_def)

lemma query_opts_valid: "OPTS_VALID (Some xdp_query_opts) 25 = Some True"
proof -
  have "sint (32 - of_nat 25 :: u64) = 7" "\<not> (32 :: u64) < 8" by simp_all
  moreover have "mem_zeroed_loop ([32] @ replicate 31 0) 25 7 = Some True" by (simp add: numeral_eq_Suc load8_def)
  ultimately show ?thesis
    unfolding OPTS_VALID_def libbpf_validate_opts_def libbpf_is_mem_zeroed_def xdp_query_opts_def by simp
qed

definition opts_hold :: "opts \<Rightarrow> xdp_id_md \<Rightarrow> bool" where
  "opts_hold p s \<longleftrightarrow> load32 (o_mem p) 8 = Some (x_prog_id s) \<and> load32 (o_mem p) 12 = Some (x_drv_prog_id s) \<and>
     load32 (o_mem p) 16 = Some (x_hw_prog_id s) \<and> load32 (o_mem p) 20 = Some (x_skb_prog_id s) \<and> load8 (o_mem p) 24 = Some (x_attach_mode s)"

lemma set_all_holds:
  assumes "length (o_mem p) = 32" and "o_sz p = 32"
  shows "\<exists>q. set_all (Some p) s = Some (Some q) \<and> opts_hold q s"
proof -
  have e: "(12 :: u64) \<le> 32" "(16 :: u64) \<le> 32" "(20 :: u64) \<le> 32" "(24 :: u64) \<le> 32" "(25 :: u64) \<le> 32" by simp_all
  show ?thesis
    using word32_bytes [of "x_prog_id s"] word32_bytes [of "x_drv_prog_id s"] word32_bytes [of "x_hw_prog_id s"] word32_bytes [of "x_skb_prog_id s"]
    by (simp add: set_all_def OPTS_SET_def OPTS_SET8_def OPTS_HAS_def store32_def store8_def load32_def load8_def opts_hold_def
      assms e nth_list_update)
qed

lemma one_mode_accepted:
  assumes "one_mode flags"
  shows "\<not> flags AND NOT XDP_FLAGS_MASK \<noteq> 0"
    and "(flags AND (XDP_FLAGS_SKB_MODE OR XDP_FLAGS_DRV_MODE OR XDP_FLAGS_HW_MODE)) AND
      ((flags AND (XDP_FLAGS_SKB_MODE OR XDP_FLAGS_DRV_MODE OR XDP_FLAGS_HW_MODE)) - 1) = 0"
  using assms unfolding one_mode_def XDP_FLAGS_MODES_def by (auto simp: XDP_FLAGS_SKB_MODE_def XDP_FLAGS_DRV_MODE_def XDP_FLAGS_HW_MODE_def)

lemma bpf_xdp_query_spec:
  assumes "libbpf_netlink_open env = Inr nl_pid" and "send_ret env = None"
    and "recvs env = concat rss @ rs" and "list_all2 (dgram link_ok) rss xss" and "dump nl_pid (time_now env) xs xss"
    and "i \<noteq> 0" and "filter (\<lambda>x. link_index x = i) xs = [x]" and "one_mode flags"
  shows "\<exists>msg q. (bpf_xdp_query env allocs i flags (Some xdp_query_opts) = Some (Some (0, Some msg, Some q)) \<and>
       opts_hold q (xdp_view i (flags AND XDP_FLAGS_MODES) x)) \<or>
    (\<exists>k. \<not> allocs k) \<and> bpf_xdp_query env allocs i flags (Some xdp_query_opts) = Some (Some (- ENOMEM, Some msg, Some xdp_query_opts))"
proof -
  let ?fl = "flags AND XDP_FLAGS_MODES"
  obtain req where req: "link_req RTM_GETLINK (NLM_F_DUMP OR NLM_F_REQUEST) AF_PACKET 0 = Some req" "length req = nla_req_size" "load32 req 0 = Some 32"
    using link_req_ok by blast
  have run: "run_dgrams link_info nl_pid (time_now env) xss (xdp_start i ?fl) = Some (0, xdp_view i ?fl x)"
    using run_dump [OF assms(5) link_info_next] dump_one_link [OF assms(6,7)] by simp
  have len: "16 \<le> length req" "unat (32 :: u32) \<le> length req" using req(2) by (simp_all add: nla_req_size_def)
  obtain k s' msg where m: "libbpf_netlink_send_recv env allocs req (Some (dump_link_nlmsg get_xdp_info)) (xdp_start i ?fl) =
        Some (Some (0, Some msg, xdp_view i ?fl x)) \<or>
      (\<not> allocs k \<and> libbpf_netlink_send_recv env allocs req (Some (dump_link_nlmsg get_xdp_info)) (xdp_start i ?fl) = Some (Some (- ENOMEM, Some msg, s')))"
    using link_handler.send_recv_refines [OF assms(1,2) len(1) req(3) len(2) assms(4,3) run TrueI] by blast
  have eq: "bpf_xdp_query env allocs i flags (Some xdp_query_opts) =
    (libbpf_netlink_send_recv env allocs req (Some (dump_link_nlmsg get_xdp_info)) (xdp_start i ?fl)) \<bind> (\<lambda>r. case r of None \<Rightarrow> Some None
       | Some (err, sent, s) \<Rightarrow> if err \<noteq> 0 then Some (Some (err, sent, Some xdp_query_opts))
           else set_all (Some xdp_query_opts) s \<bind> (\<lambda>opts. Some (Some (0, sent, opts))))"
    using req(1) query_opts_valid one_mode_accepted [OF assms(8)]
    by (simp add: bpf_xdp_query_def xdp_start_def XDP_FLAGS_MODES_def Let_def)
  have "length (o_mem xdp_query_opts) = 32" "o_sz xdp_query_opts = 32" by (simp_all add: xdp_query_opts_def)
  then obtain q where q: "set_all (Some xdp_query_opts) (xdp_view i ?fl x) = Some (Some q)" "opts_hold q (xdp_view i ?fl x)"
    using set_all_holds by blast
  show ?thesis using m
  proof
    assume "libbpf_netlink_send_recv env allocs req (Some (dump_link_nlmsg get_xdp_info)) (xdp_start i ?fl) = Some (Some (0, Some msg, xdp_view i ?fl x))"
    then show ?thesis using q unfolding eq by auto
  next
    assume "\<not> allocs k \<and> libbpf_netlink_send_recv env allocs req (Some (dump_link_nlmsg get_xdp_info)) (xdp_start i ?fl) = Some (Some (- ENOMEM, Some msg, s'))"
    then show ?thesis unfolding eq by (auto simp: ENOMEM_def)
  qed
qed

text \<open>
  C5. The program of an interface is found: when the kernel answers the request with a dump of the links, in any number of
  datagrams and with any number of interrupted calls between them, and one of the links is the interface, then
  \<open>bpf_xdp_query_id\<close> returns the number that the attributes of this link have for the mode that was asked for (for no mode the
  number of the only program, and 0 when programs are attached in several modes), or \<open>-ENOMEM\<close> when an allocation failed.
\<close>

theorem bpf_xdp_query_id_correct:
  assumes "libbpf_netlink_open env = Inr nl_pid" and "send_ret env = None"
    and "recvs env = concat rss @ rs" and "list_all2 (dgram link_ok) rss xss" and "dump nl_pid (time_now env) xs xss"
    and "i \<noteq> 0" and "filter (\<lambda>x. link_index x = i) xs = [x]" and "one_mode flags"
  shows "\<exists>msg. bpf_xdp_query_id env allocs i flags =
      Some (Some (0, Some msg, Some (xdp_choice (flags AND XDP_FLAGS_MODES) (xdp_view i (flags AND XDP_FLAGS_MODES) x)))) \<or>
    (\<exists>k. \<not> allocs k) \<and> bpf_xdp_query_id env allocs i flags = Some (Some (- ENOMEM, Some msg, None))"
proof -
  let ?fl = "flags AND XDP_FLAGS_MODES"
  obtain msg q where r: "(bpf_xdp_query env allocs i flags (Some xdp_query_opts) = Some (Some (0, Some msg, Some q)) \<and> opts_hold q (xdp_view i ?fl x)) \<or>
    (\<exists>k. \<not> allocs k) \<and> bpf_xdp_query env allocs i flags (Some xdp_query_opts) = Some (Some (- ENOMEM, Some msg, Some xdp_query_opts))"
    using bpf_xdp_query_spec [OF assms] by blast
  then show ?thesis
  proof
    assume a: "bpf_xdp_query env allocs i flags (Some xdp_query_opts) = Some (Some (0, Some msg, Some q)) \<and> opts_hold q (xdp_view i ?fl x)"
    have "?fl \<in> {0, 2, 4, 8}" using assms(8) by (simp add: one_mode_def xdp_flags_defs)
    then have "bpf_xdp_query_id env allocs i flags = Some (Some (0, Some msg, Some (xdp_choice ?fl (xdp_view i ?fl x))))"
      using a by (elim insertE emptyE)
        (simp_all add: bpf_xdp_query_id_def xdp_choice_def opts_hold_def Let_def XDP_FLAGS_DRV_MODE_def XDP_FLAGS_HW_MODE_def XDP_FLAGS_SKB_MODE_def)
    then show ?thesis by blast
  next
    assume "(\<exists>k. \<not> allocs k) \<and> bpf_xdp_query env allocs i flags (Some xdp_query_opts) = Some (Some (- ENOMEM, Some msg, Some xdp_query_opts))"
    then show ?thesis by (auto simp: bpf_xdp_query_id_def ENOMEM_def)
  qed
qed

text \<open>The interface 2 with program 7 in the mode of the driver: its link message and the end of the dump, in one datagram.\<close>

definition demo_xdp :: bytes where "demo_xdp = [5, 0, 2, 0, 1, 0, 0, 0, 8, 0, 4, 0, 7, 0, 0, 0]"

definition demo_link :: nlmsg where
  "demo_link = \<lparr>n_type = 16, n_flags = 2, n_seq = 5, n_pid = 9, n_data = [0, 0, 0, 0, 2, 0, 0, 0, 0, 0, 0, 0, 0, 0, 0, 0] @ [20, 0, 43, 0] @ demo_xdp\<rparr>"

definition demo_done :: nlmsg where "demo_done = \<lparr>n_type = 3, n_flags = 2, n_seq = 5, n_pid = 9, n_data = []\<rparr>"

definition demo_dgram :: bytes where
  "demo_dgram = [52, 0, 0, 0, 16, 0, 2, 0, 5, 0, 0, 0, 9, 0, 0, 0] @ n_data demo_link @ [16, 0, 0, 0, 3, 0, 2, 0, 5, 0, 0, 0, 9, 0, 0, 0]"

definition demo_env :: nl_env where
  "demo_env = \<lparr>sock_ret = Inr 3, bind_ret = None, name_ret = None, name_len = 12, name_pid = 9, time_now = 5, send_ret = None,
     recvs = [Recv_failed EINTR, Received 68 [], Received 68 demo_dgram], junk = \<lambda>_ _. 0\<rparr>"

lemma demo_dec: "dec_attrs demo_xdp = [(2, [1]), (4, [7, 0, 0, 0])]" "dec_attrs (drop 16 (n_data demo_link)) = [(43, demo_xdp)]"
  by (simp_all add: dec_attrs.simps demo_xdp_def demo_link_def load16_def Let_def)

lemma demo_link_xdp: "link_xdp demo_link = Some demo_xdp" "link_index demo_link = 2" "link_ok demo_link"
proof -
  show x: "link_xdp demo_link = Some demo_xdp" by (simp only: link_xdp_def attr_of_def demo_dec) (simp add: IFLA_XDP_def)
  show "link_index demo_link = 2" by (simp add: link_index_def demo_link_def load32_def)
  have "xdp_ok demo_xdp" by (simp add: xdp_ok_def attr_of_def demo_dec ifla_defs has_size_def) (simp add: demo_xdp_def)
  then show "link_ok demo_link" using x by (simp add: link_ok_def) (simp add: demo_link_def demo_xdp_def)
qed

lemma demo_delivered: "dgram link_ok (recvs demo_env) [demo_link, demo_done]"
proof -
  have "msgs_at demo_dgram 0 [demo_link, demo_done]"
    by (simp add: demo_dgram_def demo_link_def demo_done_def demo_xdp_def msg_at_def msg_size_def load32_def load16_def load_bytes_def)
  moreover have "delivery (recvs demo_env) demo_dgram"
    unfolding delivery_def
    by (intro exI [of _ "[Recv_failed EINTR]"] exI [of _ "[]"]) (simp add: demo_env_def demo_dgram_def demo_link_def demo_xdp_def)
  moreover have "length demo_dgram < 2 ^ 31" by (simp add: demo_dgram_def demo_link_def demo_xdp_def)
  moreover have "msg_ok link_ok demo_link" "msg_ok link_ok demo_done"
    using demo_link_xdp(3) by (simp_all add: msg_ok_def demo_link_def demo_done_def NLMSG_ERROR_def NLMSG_DONE_def)
  moreover have "\<not> ext_ack demo_link" "\<not> ext_ack demo_done" by (simp_all add: ext_ack_def demo_link_def demo_done_def NLMSG_ERROR_def)
  ultimately show ?thesis unfolding dgram_def by auto
qed

theorem bpf_xdp_query_id_correct_witness:
  "\<exists>msg. bpf_xdp_query_id demo_env (\<lambda>_. True) 2 0 = Some (Some (0, Some msg, Some 7))"
proof -
  have o: "libbpf_netlink_open demo_env = Inr 9" "send_ret demo_env = None" "recvs demo_env = concat [recvs demo_env] @ []"
    by (simp_all add: libbpf_netlink_open_def demo_env_def)
  have l: "list_all2 (dgram link_ok) [recvs demo_env] [[demo_link, demo_done]]" using demo_delivered by simp
  have d: "dump 9 (time_now demo_env) [demo_link] [[demo_link, demo_done]]"
    by (simp add: dump_def part_msg_def demo_link_def demo_done_def demo_env_def NLM_F_MULTI_def NLMSG_ERROR_def NLMSG_DONE_def)
  have f: "filter (\<lambda>x. link_index x = 2) [demo_link] = [demo_link]" by (simp add: demo_link_xdp)
  have m: "one_mode 0" by (simp add: one_mode_def)
  have "xdp_choice 0 (xdp_view 2 0 demo_link) = 7"
    by (simp add: xdp_view_def demo_link_xdp xdp_info_def attr_of_def demo_dec ifla_defs id_of_def xdp_choice_def xdp_start_def XDP_FLAGS_DRV_MODE_def
      XDP_FLAGS_HW_MODE_def XDP_FLAGS_SKB_MODE_def XDP_ATTACHED_NONE_def XDP_ATTACHED_MULTI_def load32_def)
  then show ?thesis using bpf_xdp_query_id_correct [OF o l d _ f m, of "\<lambda>_. True"] by simp
qed

section \<open>The request of an attachment\<close>

text \<open>What the nested attribute of the request contains.\<close>

definition xdp_attrs :: "u32 \<Rightarrow> u32 \<Rightarrow> u32 \<Rightarrow> (nat \<times> bytes) list" where
  "xdp_attrs fd old_fd flags = [(IFLA_XDP_FD, le_bytes fd)] @ (if flags \<noteq> 0 then [(IFLA_XDP_FLAGS, le_bytes flags)] else []) @
     (if flags AND XDP_FLAGS_REPLACE \<noteq> 0 then [(IFLA_XDP_EXPECTED_FD, le_bytes old_fd)] else [])"

text \<open>The message the kernel receives: its headers, and one nested attribute with these contents.\<close>

definition xdp_message :: "bytes \<Rightarrow> u32 \<Rightarrow> u32 \<Rightarrow> (nat \<times> bytes) list \<Rightarrow> bool" where
  "xdp_message msg seq i xs \<longleftrightarrow> load32 msg 0 = Some (of_nat (length msg)) \<and> load16 msg 4 = Some RTM_SETLINK \<and>
     load16 msg 6 = Some (NLM_F_REQUEST OR NLM_F_ACK) \<and> load32 msg 8 = Some seq \<and> load32 msg 12 = Some 0 \<and> load32 msg 20 = Some i \<and>
     (\<exists>b. dec_attrs (drop 32 msg) = [(IFLA_XDP, b)] \<and> dec_attrs b = xs)"

lemma le_bytes_simps [simp]: "length (le_bytes w) = 4" "le_bytes w \<noteq> []"
  by (simp_all add: le_bytes_def)

lemma attr_size_word: "attr_size (le_bytes w) = 8"
  by (simp add: attr_size_def NLA_ALIGN_mod)

lemma xdp_attrs_size: "attrs_size (xdp_attrs fd old_fd flags) \<le> 24"
  by (simp add: xdp_attrs_def attr_size_word)

lemma xdp_link_req_nested:
  assumes "nlattr_begin_nested req0 (int IFLA_XDP) = Some (Some nla, req1)" and "link_req RTM_SETLINK (NLM_F_REQUEST OR NLM_F_ACK) 0 i = Some req0"
    and "add_all req1 (xdp_attrs fd old_fd flags) = Some (0, req2)" and "nlattr_end_nested req2 nla = Some req3"
  shows "xdp_link_req i fd old_fd flags = Some (0, req3)"
proof -
  have z: "flags AND XDP_FLAGS_REPLACE \<noteq> 0 \<Longrightarrow> flags \<noteq> 0" by auto
  show ?thesis using assms z
    by (cases "flags = 0"; cases "flags AND XDP_FLAGS_REPLACE = 0")
      (auto simp: xdp_link_req_def xdp_attrs_def split: prod.splits if_splits bind_splits option.splits)
qed

lemma xdp_link_req_ok:
  fixes fd old_fd flags :: u32
  defines "xs \<equiv> xdp_attrs fd old_fd flags"
  shows "\<exists>req b. xdp_link_req i fd old_fd flags = Some (0, req) \<and> length req = nla_req_size \<and> load32 req 0 = Some (of_nat (36 + attrs_size xs)) \<and>
    load16 req 4 = Some RTM_SETLINK \<and> load16 req 6 = Some (NLM_F_REQUEST OR NLM_F_ACK) \<and> load32 req 20 = Some i \<and>
    attr_at req 32 (2 ^ 15 + IFLA_XDP) b \<and> length b = attrs_size xs \<and> dec_attrs b = xs"
proof -
  obtain r0 where r0: "link_req RTM_SETLINK (NLM_F_REQUEST OR NLM_F_ACK) 0 i = Some r0" "length r0 = nla_req_size" "load32 r0 0 = Some 32"
    "load16 r0 4 = Some RTM_SETLINK" "load16 r0 6 = Some (NLM_F_REQUEST OR NLM_F_ACK)" "load32 r0 20 = Some i"
    using link_req_ok by blast
  have l: "load32 r0 0 = Some (of_nat 32)" "32 mod 4 = (0 :: nat)" "4 \<le> (32 :: nat)" "IFLA_XDP < 2 ^ 14" using r0(3) by (simp_all add: IFLA_XDP_def)
  have b: "32 + 4 + attrs_size xs \<le> nla_req_size" "\<forall>(ty, d) \<in> set xs. ty < 2 ^ 14"
    using xdp_attrs_size [of fd old_fd flags] by (auto simp: nla_req_size_def xs_def xdp_attrs_def ifla_defs split: if_splits)
  from nested_ok [OF r0(2) l b] obtain r1 r2 r3 b where n: "nlattr_begin_nested r0 (int IFLA_XDP) = Some (Some 32, r1)" "add_all r1 xs = Some (0, r2)"
    "nlattr_end_nested r2 32 = Some r3" "length r3 = nla_req_size" "load32 r3 0 = Some (of_nat (32 + 4 + attrs_size xs))"
    "\<forall>j. 4 \<le> j \<and> j < 32 \<longrightarrow> r3 ! j = r0 ! j" "attr_at r3 32 (2 ^ 15 + IFLA_XDP) b" "length b = attrs_size xs" "dec_attrs b = xs"
    by (elim exE conjE) (rule that)
  have "load16 r3 4 = load16 r0 4" "load16 r3 6 = load16 r0 6" by (rule load16_cong; use n(4,6) r0(2) in auto)+
  moreover have "load32 r3 20 = load32 r0 20" by (rule load32_cong) (use n(4,6) r0(2) in auto)
  moreover have "32 + 4 + attrs_size xs = 36 + attrs_size xs" by simp
  ultimately show ?thesis using xdp_link_req_nested [OF n(1) r0(1) n(2) [unfolded xs_def] n(3)] n(4,5,7-9) r0(4-6) by metis
qed

lemma nested_size: "length b = attrs_size xs \<Longrightarrow> attr_size b = 4 + attrs_size xs"
proof -
  assume a: "length b = attrs_size xs"
  have "(4 + attrs_size xs + 3) div 4 * 4 = 4 + attrs_size xs" using attrs_size_mod [of xs] by presburger
  then show ?thesis using a NLA_ALIGN_nat [of "4 + attrs_size xs"] by (simp add: attr_size_def)
qed

lemma stamped_message:
  assumes "stamped req t msg" and "length req = nla_req_size" and "load32 req 0 = Some (of_nat (36 + attrs_size xs))"
    and "load16 req 4 = Some RTM_SETLINK" and "load16 req 6 = Some (NLM_F_REQUEST OR NLM_F_ACK)" and "load32 req 20 = Some i"
    and "attr_at req 32 (2 ^ 15 + IFLA_XDP) b" and "length b = attrs_size xs" and "dec_attrs b = xs" and "36 + attrs_size xs \<le> nla_req_size"
  shows "xdp_message msg t i xs"
proof -
  let ?n = "36 + attrs_size xs"
  have n: "16 \<le> ?n" "?n \<le> length req" "?n < 2 ^ 31" using assms(2,10) by (simp_all add: nla_req_size_def)
  note f = stamped_facts [OF assms(1,3) n] and l = stamped_loads [OF assms(1,3) n]
  have sz: "attrs_size [(2 ^ 15 + IFLA_XDP, b)] = 4 + attrs_size xs" using nested_size [OF assms(8)] by simp
  have ln: "32 + attrs_size [(2 ^ 15 + IFLA_XDP, b)] = ?n" unfolding sz by simp
  have "dec_attrs (drop 32 msg) = map (\<lambda>(ty, d). (ty mod 2 ^ 14, d)) [(2 ^ 15 + IFLA_XDP, b)]"
    by (rule stamped_attrs [OF assms(1)], unfold ln) (use assms(3,7) n sz assms(2,10) in \<open>auto simp: IFLA_XDP_def nla_req_size_def\<close>)
  then have "dec_attrs (drop 32 msg) = [(IFLA_XDP, b)]" by (simp add: IFLA_XDP_def)
  then show ?thesis unfolding xdp_message_def using f(1-3) l(1) [of 0] l(1) [of 20] l(2) [of 4] l(3) [of 0 6] assms(3-6,9) n(1) by simp
qed

lemma attach_answered:
  assumes "libbpf_netlink_open env = Inr nl_pid" and "send_ret env = None"
    and "recvs env = r @ rs" and "dgram (\<lambda>_. True) r [x]" and "ack_msg nl_pid (time_now env) e x"
  shows "\<exists>msg. xdp_message msg (time_now env) i (xdp_attrs fd old_fd flags) \<and>
    (bpf_set_link_xdp_fd_replace env allocs i fd old_fd flags = Some (Some (sint e, Some msg)) \<or>
     (\<exists>k. \<not> allocs k) \<and> bpf_set_link_xdp_fd_replace env allocs i fd old_fd flags = Some (Some (- ENOMEM, Some msg)))"
proof -
  let ?xs = "xdp_attrs fd old_fd flags"
  obtain req b where req: "xdp_link_req i fd old_fd flags = Some (0, req)" "length req = nla_req_size" "load32 req 0 = Some (of_nat (36 + attrs_size ?xs))"
    "load16 req 4 = Some RTM_SETLINK" "load16 req 6 = Some (NLM_F_REQUEST OR NLM_F_ACK)" "load32 req 20 = Some i"
    "attr_at req 32 (2 ^ 15 + IFLA_XDP) b" "length b = attrs_size ?xs" "dec_attrs b = ?xs"
    using xdp_link_req_ok [of i fd old_fd flags] by (elim exE conjE) (rule that)
  have b: "36 + attrs_size ?xs \<le> nla_req_size" using xdp_attrs_size [of fd old_fd flags] by (simp add: nla_req_size_def)
  have u: "unat (of_nat (36 + attrs_size ?xs) :: u32) = 36 + attrs_size ?xs" by (rule unat_of_nat_u32) (use b in \<open>simp add: nla_req_size_def\<close>)
  have len: "16 \<le> length req" "unat (of_nat (36 + attrs_size ?xs) :: u32) \<le> length req" using b req(2) unfolding u by (simp_all add: nla_req_size_def)
  have d: "list_all2 (dgram (\<lambda>_. True)) [r] [[x]]" "recvs env = concat [r] @ rs" using assms(3,4) by simp_all
  obtain k s' msg where m: "stamped req (time_now env) msg" "libbpf_netlink_send_recv env allocs req None () = Some (Some (sint e, Some msg, ())) \<or>
      (\<not> allocs k \<and> libbpf_netlink_send_recv env allocs req None () = Some (Some (- ENOMEM, Some msg, s')))"
    using no_callback.send_recv_refines [OF assms(1,2) len(1) req(3) len(2) d run_ack [OF assms(5), where s = "()"] TrueI, of allocs] by (elim exE conjE) (rule that)
  have "xdp_message msg (time_now env) i ?xs" by (rule stamped_message [OF m(1) req(2-9) b])
  moreover have eq: "bpf_set_link_xdp_fd_replace env allocs i fd old_fd flags =
      map_option (map_option (\<lambda>(ret, sent, _). (ret, sent))) (libbpf_netlink_send_recv env allocs req None ())"
    using req(1) by (simp add: bpf_set_link_xdp_fd_replace_def)
  ultimately show ?thesis using m(2) unfolding eq by auto
qed

text \<open>
  C14. An attachment asks for what was asked for and reports the answer: the message that \<open>bpf_xdp_attach\<close> sends is a request to
  change the link with the given index, acknowledged, and decodes to the program, to the flags unless they are 0, and to the
  program that is to be replaced, with the flag that says so, when the options give one; the result is the number that the
  acknowledgement of the kernel has, however often the calls that receive it are interrupted, or \<open>-ENOMEM\<close> when an allocation
  failed.  The socket asks for extended acknowledgements, and they are covered: one that is well formed, capped or not, with any
  attributes, of any content, in a datagram of at most 4080 bytes.  The bound is needed because \<^verbatim>\<open>libbpf_nla_dump_errormsg\<close> looks for
  attributes in 16 bytes behind the message, which must still be in the buffer of 4096 bytes.
\<close>

theorem bpf_xdp_attach_correct:
  assumes "libbpf_netlink_open env = Inr nl_pid" and "send_ret env = None"
    and "recvs env = r @ rs" and "dgram (\<lambda>_. True) r [x]" and "ack_msg nl_pid (time_now env) e x"
    and "OPTS_VALID opts 12 = Some True" and "OPTS_GET opts 8 0 = Some old"
  shows "\<exists>msg. xdp_message msg (time_now env) i
      (if old = 0 then (IFLA_XDP_FD, le_bytes fd) # (if flags = 0 then [] else [(IFLA_XDP_FLAGS, le_bytes flags)]) @
         (if flags AND XDP_FLAGS_REPLACE = 0 then [] else [(IFLA_XDP_EXPECTED_FD, le_bytes (- 1))])
       else [(IFLA_XDP_FD, le_bytes fd), (IFLA_XDP_FLAGS, le_bytes (flags OR XDP_FLAGS_REPLACE)), (IFLA_XDP_EXPECTED_FD, le_bytes old)]) \<and>
    (bpf_xdp_attach env allocs i fd flags opts = Some (Some (sint e, Some msg)) \<or>
     (\<exists>k. \<not> allocs k) \<and> bpf_xdp_attach env allocs i fd flags opts = Some (Some (- ENOMEM, Some msg)))"
proof (cases "old = 0")
  case True
  then show ?thesis using attach_answered [OF assms(1-5), of i fd "- 1" flags allocs] assms(6,7)
    by (auto simp: bpf_xdp_attach_def xdp_attrs_def)
next
  case False
  have a: "(flags OR XDP_FLAGS_REPLACE) AND XDP_FLAGS_REPLACE = XDP_FLAGS_REPLACE" by (rule bit_word_eqI) (auto simp: bit_simps)
  have "XDP_FLAGS_REPLACE \<noteq> 0" by (simp add: XDP_FLAGS_REPLACE_def)
  then have "flags OR XDP_FLAGS_REPLACE \<noteq> 0" using a by (metis zero_and_eq)
  then show ?thesis using attach_answered [OF assms(1-5), of i fd old "flags OR XDP_FLAGS_REPLACE" allocs] assms(6,7) False a
    by (auto simp: bpf_xdp_attach_def xdp_attrs_def XDP_FLAGS_REPLACE_def)
qed

text \<open>The kernel refuses the program with number -22: an extended acknowledgement with the request and the text \<open>no\<close>.\<close>

definition demo_ack :: nlmsg where
  "demo_ack = \<lparr>n_type = 2, n_flags = 0x200, n_seq = 5, n_pid = 9,
     n_data = [234, 255, 255, 255] @ [44, 0, 0, 0, 19, 0, 5, 0, 5, 0, 0, 0, 0, 0, 0, 0] @ [0, 0, 0, 0, 2, 0, 0, 0, 0, 0, 0, 0, 0, 0, 0, 0] @
       [12, 0, 43, 128, 8, 0, 1, 0, 4, 0, 0, 0] @ [7, 0, 1, 0, 110, 111, 0, 0]\<rparr>"

definition demo_ack_dgram :: bytes where "demo_ack_dgram = [72, 0, 0, 0, 2, 0, 0, 2, 5, 0, 0, 0, 9, 0, 0, 0] @ n_data demo_ack"

definition demo_ack_env :: nl_env where "demo_ack_env = demo_env\<lparr>recvs := [Received 72 [], Recv_failed EAGAIN, Received 72 demo_ack_dgram]\<rparr>"

theorem bpf_xdp_attach_correct_witness:
  "\<exists>msg. xdp_message msg 5 2 [(IFLA_XDP_FD, le_bytes 4)] \<and> bpf_xdp_attach demo_ack_env (\<lambda>_. True) 2 4 0 None = Some (Some (- 22, Some msg))"
proof -
  let ?r = "recvs demo_ack_env"
  have o: "libbpf_netlink_open demo_ack_env = Inr 9" "send_ret demo_ack_env = None" "?r = ?r @ []"
    by (simp_all add: libbpf_netlink_open_def demo_ack_env_def demo_env_def)
  have t: "time_now demo_ack_env = 5" by (simp add: demo_ack_env_def demo_env_def)
  have a: "ack_msg 9 (time_now demo_ack_env) (- 22) demo_ack"
    by (simp add: ack_msg_def t demo_ack_def NLMSG_ERROR_def NLM_F_MULTI_def load32_def)
  have "msgs_at demo_ack_dgram 0 [demo_ack]"
    by (simp add: demo_ack_dgram_def demo_ack_def msg_at_def msg_size_def load32_def load16_def load_bytes_def)
  moreover have "delivery ?r demo_ack_dgram" unfolding delivery_def
    by (intro exI [of _ "[]"] exI [of _ "[Recv_failed EAGAIN]"]) (simp add: demo_ack_env_def demo_ack_dgram_def demo_ack_def)
  moreover have "ext_ack_ok demo_ack" by (simp add: ext_ack_ok_def demo_ack_def load32_def) (rule exI [of _ 44], simp)
  ultimately have d: "dgram (\<lambda>_. True) ?r [demo_ack]"
    unfolding dgram_def by (auto simp: msg_ok_def demo_ack_dgram_def demo_ack_def)
  have v: "OPTS_VALID None 12 = Some True" "OPTS_GET None 8 0 = Some 0" by (simp_all add: OPTS_VALID_def OPTS_GET_def OPTS_HAS_def)
  have "sint (- 22 :: u32) = - 22" by simp
  then show ?thesis using bpf_xdp_attach_correct [OF o d a v, of 2 4 0 "\<lambda>_. True"] unfolding t by simp
qed

end
