(* ===== verification/Netlink_Tc.thy ===== *)
theory Netlink_Tc
  imports Netlink_Xdp
begin

text \<open>
  The traffic-control part of \<^verbatim>\<open>netlink.c\<close>: creating and destroying the hook of an interface, and attaching, detaching and querying a
  filter program.  \<open>tca_max\<close> is \<^verbatim>\<open>TCA_MAX\<close> of the kernel headers the library is built with, and \<open>get_info\<close> the result of
  \<^verbatim>\<open>bpf_obj_get_info_by_fd\<close>: an error, or the name and the number of the program.
\<close>

section \<open>Operations\<close>

definition EOPNOTSUPP :: int where "EOPNOTSUPP = 95"
definition ENAMETOOLONG :: int where "ENAMETOOLONG = 36"

definition NLM_F_ECHO :: u16 where "NLM_F_ECHO = 8"
definition NLM_F_REPLACE :: u16 where "NLM_F_REPLACE = 0x100"
definition NLM_F_EXCL :: u16 where "NLM_F_EXCL = 0x200"
definition NLM_F_CREATE :: u16 where "NLM_F_CREATE = 0x400"

definition RTM_NEWQDISC :: u16 where "RTM_NEWQDISC = 36"
definition RTM_DELQDISC :: u16 where "RTM_DELQDISC = 37"
definition RTM_NEWTFILTER :: u16 where "RTM_NEWTFILTER = 44"
definition RTM_DELTFILTER :: u16 where "RTM_DELTFILTER = 45"
definition RTM_GETTFILTER :: u16 where "RTM_GETTFILTER = 46"

definition TCA_KIND :: nat where "TCA_KIND = 1"
definition TCA_OPTIONS :: nat where "TCA_OPTIONS = 2"
definition TCA_BPF_FD :: nat where "TCA_BPF_FD = 6"
definition TCA_BPF_NAME :: nat where "TCA_BPF_NAME = 7"
definition TCA_BPF_FLAGS :: nat where "TCA_BPF_FLAGS = 8"
definition TCA_BPF_ID :: nat where "TCA_BPF_ID = 11"
definition TCA_BPF_MAX :: int where "TCA_BPF_MAX = 11"
definition TCA_BPF_FLAG_ACT_DIRECT :: u32 where "TCA_BPF_FLAG_ACT_DIRECT = 1"

lemmas tca_defs = TCA_KIND_def TCA_OPTIONS_def TCA_BPF_FD_def TCA_BPF_NAME_def TCA_BPF_FLAGS_def TCA_BPF_ID_def TCA_BPF_MAX_def

definition TC_H_MAJ :: "u32 \<Rightarrow> u32" where "TC_H_MAJ h = h AND 0xFFFF0000"
definition TC_H_MAKE :: "u32 \<Rightarrow> u32 \<Rightarrow> u32" where "TC_H_MAKE major minor = (major AND 0xFFFF0000) OR (minor AND 0xFFFF)"
definition TC_H_CLSACT :: u32 where "TC_H_CLSACT = 0xFFFFFFF1"
definition TC_H_MIN_INGRESS :: u32 where "TC_H_MIN_INGRESS = 0xFFF2"
definition TC_H_MIN_EGRESS :: u32 where "TC_H_MIN_EGRESS = 0xFFF3"

definition BPF_TC_INGRESS :: u32 where "BPF_TC_INGRESS = 1"
definition BPF_TC_EGRESS :: u32 where "BPF_TC_EGRESS = 2"
definition BPF_TC_CUSTOM :: u32 where "BPF_TC_CUSTOM = 4"
definition BPF_TC_F_REPLACE :: u32 where "BPF_TC_F_REPLACE = 1"
definition ETH_P_ALL :: u16 where "ETH_P_ALL = 3"

lemmas tc_point_defs = BPF_TC_INGRESS_def BPF_TC_EGRESS_def BPF_TC_CUSTOM_def

text \<open>The strings with their terminating 0.\<close>

definition str_clsact :: bytes where "str_clsact = [99, 108, 115, 97, 99, 116, 0]"
definition str_bpf :: bytes where "str_bpf = [98, 112, 102, 0]"

definition clsact_config :: "bytes \<Rightarrow> (int \<times> bytes) option" where
  "clsact_config req = do {
     req \<leftarrow> store32 req 28 TC_H_CLSACT;
     req \<leftarrow> store32 req 24 (TC_H_MAKE TC_H_CLSACT 0);
     nlattr_add req (int TCA_KIND) (Some str_clsact) 7
   }"

text \<open>The only configuration there is is \<^verbatim>\<open>clsact_config\<close>, so that only the error is returned.\<close>

definition attach_point_to_config :: "opts option \<Rightarrow> int option" where
  "attach_point_to_config hook = do {
     ap \<leftarrow> OPTS_GET hook 12 0;
     if ap = BPF_TC_INGRESS \<or> ap = BPF_TC_EGRESS \<or> ap = (BPF_TC_INGRESS OR BPF_TC_EGRESS) then do {
       parent \<leftarrow> OPTS_GET hook 16 0;
       Some (if parent \<noteq> 0 then - EINVAL else 0)
     }
     else if ap = BPF_TC_CUSTOM then Some (- EOPNOTSUPP)
     else Some (- EINVAL)
   }"

definition tc_get_tcm_parent :: "u32 \<Rightarrow> u32 \<Rightarrow> int \<times> u32" where
  "tc_get_tcm_parent attach_point parent =
     (if attach_point = BPF_TC_INGRESS \<or> attach_point = BPF_TC_EGRESS then
        if parent \<noteq> 0 then (- EINVAL, parent)
        else (0, TC_H_MAKE TC_H_CLSACT (if attach_point = BPF_TC_INGRESS then TC_H_MIN_INGRESS else TC_H_MIN_EGRESS))
      else if attach_point = BPF_TC_CUSTOM then if parent = 0 then (- EINVAL, parent) else (0, parent)
      else (- EINVAL, parent))"

text \<open>The request with the headers of a traffic-control message: cleared, then length, flags, type, family and index.\<close>

definition tc_req :: "u16 \<Rightarrow> u16 \<Rightarrow> u32 \<Rightarrow> bytes option" where
  "tc_req type flags ifindex = do {
     req \<leftarrow> store32 (replicate nla_req_size 0) 0 36;
     req \<leftarrow> store16 req 6 flags;
     req \<leftarrow> store16 req 4 type;
     req \<leftarrow> store8 req 16 0;
     store32 req 20 ifindex
   }"

definition send_only :: "nl_env \<Rightarrow> (nat \<Rightarrow> bool) \<Rightarrow> bytes \<Rightarrow> (int \<times> bytes option) option option" where
  "send_only env allocs req = map_option (map_option (\<lambda>(ret, sent, _). (ret, sent))) (libbpf_netlink_send_recv env allocs req None ())"

definition tc_qdisc_modify :: "nl_env \<Rightarrow> (nat \<Rightarrow> bool) \<Rightarrow> opts option \<Rightarrow> u16 \<Rightarrow> u16 \<Rightarrow> (int \<times> bytes option) option option" where
  "tc_qdisc_modify env allocs hook cmd flags = do {
     ret \<leftarrow> attach_point_to_config hook;
     if ret < 0 then Some (Some (ret, None))
     else do {
       ifindex \<leftarrow> OPTS_GET hook 8 0;
       req \<leftarrow> tc_req cmd (NLM_F_REQUEST OR NLM_F_ACK OR flags) ifindex;
       (ret, req) \<leftarrow> clsact_config req;
       if ret < 0 then Some (Some (ret, None)) else send_only env allocs req
     }
   }"

definition tc_qdisc_create_excl :: "nl_env \<Rightarrow> (nat \<Rightarrow> bool) \<Rightarrow> opts option \<Rightarrow> (int \<times> bytes option) option option" where
  "tc_qdisc_create_excl env allocs hook = tc_qdisc_modify env allocs hook RTM_NEWQDISC (NLM_F_CREATE OR NLM_F_EXCL)"

definition tc_qdisc_delete :: "nl_env \<Rightarrow> (nat \<Rightarrow> bool) \<Rightarrow> opts option \<Rightarrow> (int \<times> bytes option) option option" where
  "tc_qdisc_delete env allocs hook = tc_qdisc_modify env allocs hook RTM_DELQDISC 0"

text \<open>\<^verbatim>\<open>!hook || !OPTS_VALID(hook, bpf_tc_hook) || OPTS_GET(hook, ifindex, 0) <= 0\<close>.\<close>

definition hook_invalid :: "opts option \<Rightarrow> bool option" where
  "hook_invalid hook = (if hook = None then Some True else do {
     valid \<leftarrow> OPTS_VALID hook 20;
     if \<not> valid then Some True else map_option (\<lambda>i. sint i \<le> 0) (OPTS_GET hook 8 0)
   })"

definition bpf_tc_hook_create :: "nl_env \<Rightarrow> (nat \<Rightarrow> bool) \<Rightarrow> opts option \<Rightarrow> (int \<times> bytes option) option option" where
  "bpf_tc_hook_create env allocs hook = do {
     bad \<leftarrow> hook_invalid hook;
     if bad then Some (Some (- EINVAL, None)) else tc_qdisc_create_excl env allocs hook
   }"

record tc_hook_fields =
  h_ifindex :: u32
  h_parent :: u32
  h_attach_point :: u32

record tc_opts_fields =
  t_handle :: u32
  t_priority :: u32
  t_prog_fd :: u32
  t_prog_id :: u32
  t_flags :: u32

definition get_hook :: "opts option \<Rightarrow> tc_hook_fields option" where
  "get_hook hook = do {
     ifindex \<leftarrow> OPTS_GET hook 8 0;
     parent \<leftarrow> OPTS_GET hook 16 0;
     attach_point \<leftarrow> OPTS_GET hook 12 0;
     Some \<lparr>h_ifindex = ifindex, h_parent = parent, h_attach_point = attach_point\<rparr>
   }"

definition get_opts :: "opts option \<Rightarrow> tc_opts_fields option" where
  "get_opts opts = do {
     handle \<leftarrow> OPTS_GET opts 20 0;
     priority \<leftarrow> OPTS_GET opts 24 0;
     prog_fd \<leftarrow> OPTS_GET opts 8 0;
     prog_id \<leftarrow> OPTS_GET opts 16 0;
     flags \<leftarrow> OPTS_GET opts 12 0;
     Some \<lparr>t_handle = handle, t_priority = priority, t_prog_fd = prog_fd, t_prog_id = prog_id, t_flags = flags\<rparr>
   }"

definition tcm_info_of :: "u32 \<Rightarrow> u32" where
  "tcm_info_of priority = TC_H_MAKE (push_bit 16 priority) (ucast (bpf_htons ETH_P_ALL))"

definition bpf_tc_detach0 :: "nl_env \<Rightarrow> (nat \<Rightarrow> bool) \<Rightarrow> opts option \<Rightarrow> opts option \<Rightarrow> bool \<Rightarrow> (int \<times> bytes option) option option" where
  "bpf_tc_detach0 env allocs hook opts flush =
     (if hook = None then Some (Some (- EINVAL, None)) else do {
        valid \<leftarrow> OPTS_VALID hook 20;
        if \<not> valid then Some (Some (- EINVAL, None)) else do {
        valid \<leftarrow> OPTS_VALID opts 28;
        if \<not> valid then Some (Some (- EINVAL, None)) else do {
          h \<leftarrow> get_hook hook;
          t \<leftarrow> get_opts opts;
          if sint (h_ifindex h) \<le> 0 \<or> t_flags t \<noteq> 0 \<or> t_prog_fd t \<noteq> 0 \<or> t_prog_id t \<noteq> 0 then Some (Some (- EINVAL, None))
          else if t_priority t > 65535 then Some (Some (- EINVAL, None))
          else if \<not> flush \<and> (t_handle t = 0 \<or> t_priority t = 0) then Some (Some (- EINVAL, None))
          else if flush \<and> (t_handle t \<noteq> 0 \<or> t_priority t \<noteq> 0) then Some (Some (- EINVAL, None))
          else do {
            req \<leftarrow> tc_req RTM_DELTFILTER (NLM_F_REQUEST OR NLM_F_ACK) (h_ifindex h);
            req \<leftarrow> (if flush then Some req else do {
              req \<leftarrow> store32 req 24 (t_handle t);
              store32 req 32 (tcm_info_of (t_priority t))
            });
            case tc_get_tcm_parent (h_attach_point h) (h_parent h) of (ret, parent) \<Rightarrow>
              if ret < 0 then Some (Some (ret, None))
              else do {
                req \<leftarrow> store32 req 28 parent;
                (ret, req) \<leftarrow> (if flush then Some (0, req) else nlattr_add req (int TCA_KIND) (Some str_bpf) 4);
                if ret < 0 then Some (Some (ret, None)) else send_only env allocs req
              }
          }
        }}})"

definition bpf_tc_hook_destroy :: "nl_env \<Rightarrow> (nat \<Rightarrow> bool) \<Rightarrow> opts option \<Rightarrow> (int \<times> bytes option) option option" where
  "bpf_tc_hook_destroy env allocs hook = do {
     bad \<leftarrow> hook_invalid hook;
     if bad then Some (Some (- EINVAL, None))
     else do {
       ap \<leftarrow> OPTS_GET hook 12 0;
       if ap = BPF_TC_INGRESS \<or> ap = BPF_TC_EGRESS then bpf_tc_detach0 env allocs hook None True
       else if ap = (BPF_TC_INGRESS OR BPF_TC_EGRESS) then tc_qdisc_delete env allocs hook
       else if ap = BPF_TC_CUSTOM then Some (Some (- EOPNOTSUPP, None))
       else Some (Some (- EINVAL, None))
     }
   }"

definition bpf_tc_detach :: "nl_env \<Rightarrow> (nat \<Rightarrow> bool) \<Rightarrow> opts option \<Rightarrow> opts option \<Rightarrow> (int \<times> bytes option) option option" where
  "bpf_tc_detach env allocs hook opts = (if opts = None then Some (Some (- EINVAL, None)) else bpf_tc_detach0 env allocs hook opts False)"

record bpf_cb_ctx =
  c_opts :: "opts option"
  c_processed :: bool

definition get_tc_info0 :: "bytes \<Rightarrow> nat \<Rightarrow> nat option list \<Rightarrow> bool \<Rightarrow> bpf_cb_ctx \<Rightarrow> (int \<times> bpf_cb_ctx) option" where
  "get_tc_info0 m tc tb unicast s =
     (if c_opts s = None then Some (- EINVAL, s)
      else if unicast \<and> c_processed s then Some (- EINVAL, s)
      else case tb ! TCA_OPTIONS of
        None \<Rightarrow> Some (NL_CONT, s)
      | Some nla \<Rightarrow> do {
          (_, tbb) \<leftarrow> libbpf_nla_parse_nested m TCA_BPF_MAX nla None;
          case tbb ! TCA_BPF_ID of
            None \<Rightarrow> Some (- EINVAL, s)
          | Some nla \<Rightarrow> do {
              prog_id \<leftarrow> libbpf_nla_getattr_u32 m nla;
              opts \<leftarrow> OPTS_SET (c_opts s) 16 prog_id;
              tcm_handle \<leftarrow> load32 m (tc + 8);
              opts \<leftarrow> OPTS_SET opts 20 tcm_handle;
              tcm_info \<leftarrow> load32 m (tc + 16);
              opts \<leftarrow> OPTS_SET opts 24 (drop_bit 16 (TC_H_MAJ tcm_info));
              Some (if unicast then NL_NEXT else NL_DONE, \<lparr>c_opts = opts, c_processed = True\<rparr>)
            }
        })"

definition get_tc_info :: "int \<Rightarrow> bpf_cb_ctx msg_fn" where
  "get_tc_info tca_max m nh s = do {
     let tc = nh + 16;
     nlmsg_len \<leftarrow> load32 m nh;
     (_, tb) \<leftarrow> libbpf_nla_parse m tca_max (tc + 20) (to_int (uint nlmsg_len - 36)) None;
     case tb ! TCA_KIND of
       None \<Rightarrow> Some (NL_CONT, s)
     | Some _ \<Rightarrow> do {
         flags \<leftarrow> load16 m (nh + 6);
         get_tc_info0 m tc tb (flags AND NLM_F_ECHO \<noteq> 0) s
       }
   }"

fun dec_digits :: "nat \<Rightarrow> bytes" where
  "dec_digits n = (if n < 10 then [of_nat (48 + n)] else dec_digits (n div 10) @ [of_nat (48 + n mod 10)])"

declare dec_digits.simps [simp del]

text \<open>The format \<^verbatim>\<open>"%s:[%u]"\<close>.\<close>

definition prog_label :: "bytes \<Rightarrow> u32 \<Rightarrow> bytes" where
  "prog_label name prog = name @ [58, 91] @ dec_digits (unat prog) @ [93]"

definition tc_add_fd_and_name :: "(u32 \<Rightarrow> int + bytes \<times> u32) \<Rightarrow> bytes \<Rightarrow> u32 \<Rightarrow> (int \<times> bytes) option" where
  "tc_add_fd_and_name get_info req fd = (case get_info fd of
       Inl err \<Rightarrow> Some (err, req)
     | Inr (name, prog) \<Rightarrow> do {
         (ret, req) \<leftarrow> nlattr_add req (int TCA_BPF_FD) (Some (le_bytes fd)) 4;
         if ret < 0 then Some (ret, req)
         else do {
           let label = prog_label name prog;
           if length label \<ge> 256 then Some (- ENAMETOOLONG, req)
           else nlattr_add req (int TCA_BPF_NAME) (Some (label @ [0])) (int (length label) + 1)
         }
       })"

text \<open>The end of \<^verbatim>\<open>bpf_tc_attach\<close> and \<^verbatim>\<open>bpf_tc_query\<close>: the request is sent and the answers are read into the options.\<close>

definition tc_exchange :: "int \<Rightarrow> nl_env \<Rightarrow> (nat \<Rightarrow> bool) \<Rightarrow> bytes \<Rightarrow> opts option \<Rightarrow> (int \<times> bytes option \<times> opts option) option option" where
  "tc_exchange tca_max env allocs req opts = do {
     r \<leftarrow> libbpf_netlink_send_recv env allocs req (Some (get_tc_info tca_max)) \<lparr>c_opts = opts, c_processed = False\<rparr>;
     Some (case r of
         None \<Rightarrow> None
       | Some (ret, sent, s) \<Rightarrow>
           if ret < 0 then Some (ret, sent, c_opts s)
           else if \<not> c_processed s then Some (- ENOENT, sent, c_opts s)
           else Some (ret, sent, c_opts s))
   }"

text \<open>The guards that \<^verbatim>\<open>bpf_tc_attach\<close> and \<^verbatim>\<open>bpf_tc_query\<close> share, with the members of the two structures.\<close>

definition tc_args :: "opts option \<Rightarrow> opts option \<Rightarrow> (tc_hook_fields \<times> tc_opts_fields) option option" where
  "tc_args hook opts =
     (if hook = None \<or> opts = None then Some None else do {
        valid \<leftarrow> OPTS_VALID hook 20;
        if \<not> valid then Some None else do {
        valid \<leftarrow> OPTS_VALID opts 28;
        if \<not> valid then Some None else do {
          h \<leftarrow> get_hook hook;
          t \<leftarrow> get_opts opts;
          Some (Some (h, t))
        }}})"

text \<open>The request of an attachment, from \<^verbatim>\<open>memset\<close> to \<^verbatim>\<open>nlattr_end_nested\<close>.\<close>

definition tc_attach_req :: "(u32 \<Rightarrow> int + bytes \<times> u32) \<Rightarrow> tc_hook_fields \<Rightarrow> tc_opts_fields \<Rightarrow> (int \<times> bytes) option" where
  "tc_attach_req get_info h t = do {
     let flags = (if t_flags t AND BPF_TC_F_REPLACE \<noteq> 0 then NLM_F_REPLACE else NLM_F_EXCL);
     req \<leftarrow> tc_req RTM_NEWTFILTER (NLM_F_REQUEST OR NLM_F_ACK OR NLM_F_CREATE OR NLM_F_ECHO OR flags) (h_ifindex h);
     req \<leftarrow> store32 req 24 (t_handle t);
     req \<leftarrow> store32 req 32 (tcm_info_of (t_priority t));
     case tc_get_tcm_parent (h_attach_point h) (h_parent h) of (ret, parent) \<Rightarrow>
       if ret < 0 then Some (ret, req)
       else do {
         req \<leftarrow> store32 req 28 parent;
         (ret, req) \<leftarrow> nlattr_add req (int TCA_KIND) (Some str_bpf) 4;
         if ret < 0 then Some (ret, req)
         else do {
           (nla, req) \<leftarrow> nlattr_begin_nested req (int TCA_OPTIONS);
           case nla of
             None \<Rightarrow> Some (- EMSGSIZE, req)
           | Some nla \<Rightarrow> do {
               (ret, req) \<leftarrow> tc_add_fd_and_name get_info req (t_prog_fd t);
               if ret < 0 then Some (ret, req)
               else do {
                 (ret, req) \<leftarrow> nlattr_add req (int TCA_BPF_FLAGS) (Some (le_bytes TCA_BPF_FLAG_ACT_DIRECT)) 4;
                 if ret < 0 then Some (ret, req)
                 else do { req \<leftarrow> nlattr_end_nested req nla; Some (0, req) }
               }
             }
         }
       }
   }"

definition bpf_tc_attach :: "int \<Rightarrow> (u32 \<Rightarrow> int + bytes \<times> u32) \<Rightarrow> nl_env \<Rightarrow> (nat \<Rightarrow> bool) \<Rightarrow> opts option \<Rightarrow> opts option \<Rightarrow>
    (int \<times> bytes option \<times> opts option) option option" where
  "bpf_tc_attach tca_max get_info env allocs hook opts = do {
     args \<leftarrow> tc_args hook opts;
     case args of
       None \<Rightarrow> Some (Some (- EINVAL, None, opts))
     | Some (h, t) \<Rightarrow>
         if sint (h_ifindex h) \<le> 0 \<or> t_prog_fd t = 0 \<or> t_prog_id t \<noteq> 0 then Some (Some (- EINVAL, None, opts))
         else if t_priority t > 65535 then Some (Some (- EINVAL, None, opts))
         else if t_flags t AND NOT BPF_TC_F_REPLACE \<noteq> 0 then Some (Some (- EINVAL, None, opts))
         else do {
           (ret, req) \<leftarrow> tc_attach_req get_info h t;
           if ret < 0 then Some (Some (ret, None, opts)) else tc_exchange tca_max env allocs req opts
         }
   }"

text \<open>The request of a query.\<close>

definition tc_query_req :: "tc_hook_fields \<Rightarrow> tc_opts_fields \<Rightarrow> (int \<times> bytes) option" where
  "tc_query_req h t = do {
     req \<leftarrow> tc_req RTM_GETTFILTER NLM_F_REQUEST (h_ifindex h);
     req \<leftarrow> store32 req 24 (t_handle t);
     req \<leftarrow> store32 req 32 (tcm_info_of (t_priority t));
     case tc_get_tcm_parent (h_attach_point h) (h_parent h) of (ret, parent) \<Rightarrow>
       if ret < 0 then Some (ret, req)
       else do {
         req \<leftarrow> store32 req 28 parent;
         nlattr_add req (int TCA_KIND) (Some str_bpf) 4
       }
   }"

definition bpf_tc_query :: "int \<Rightarrow> nl_env \<Rightarrow> (nat \<Rightarrow> bool) \<Rightarrow> opts option \<Rightarrow> opts option \<Rightarrow>
    (int \<times> bytes option \<times> opts option) option option" where
  "bpf_tc_query tca_max env allocs hook opts = do {
     args \<leftarrow> tc_args hook opts;
     case args of
       None \<Rightarrow> Some (Some (- EINVAL, None, opts))
     | Some (h, t) \<Rightarrow>
         if sint (h_ifindex h) \<le> 0 \<or> t_flags t \<noteq> 0 \<or> t_prog_fd t \<noteq> 0 \<or> t_prog_id t \<noteq> 0 \<or> t_handle t = 0 \<or> t_priority t = 0
         then Some (Some (- EINVAL, None, opts))
         else if t_priority t > 65535 then Some (Some (- EINVAL, None, opts))
         else do {
           (ret, req) \<leftarrow> tc_query_req h t;
           if ret < 0 then Some (Some (ret, None, opts)) else tc_exchange tca_max env allocs req opts
         }
   }"

section \<open>The callback on a filter message\<close>

text \<open>A structure of options whose size is the size of its memory at most.\<close>

definition opts_fit :: "opts \<Rightarrow> bool" where "opts_fit p \<longleftrightarrow> unat (o_sz p) \<le> length (o_mem p)"

definition cb_inv :: "bpf_cb_ctx \<Rightarrow> bool" where "cb_inv s \<longleftrightarrow> (\<forall>p. c_opts s = Some p \<longrightarrow> opts_fit p)"

definition tc_attr :: "nlmsg \<Rightarrow> nat \<Rightarrow> bytes option" where "tc_attr x k = attr_of (drop 20 (n_data x)) k"

definition tc_word :: "nlmsg \<Rightarrow> nat \<Rightarrow> u32" where "tc_word x k = the (load32 (n_data x) k)"

definition tc_ok :: "nlmsg \<Rightarrow> bool" where
  "tc_ok x \<longleftrightarrow> 20 \<le> length (n_data x) \<and> length (n_data x) mod 4 = 0 \<and> length (n_data x) < 2 ^ 31 \<and>
     (\<forall>b. tc_attr x TCA_OPTIONS = Some b \<longrightarrow> length b mod 4 = 0 \<and> has_size 4 (attr_of b TCA_BPF_ID))"

definition tc_fill :: "opts option \<Rightarrow> u32 \<Rightarrow> u32 \<Rightarrow> u32 \<Rightarrow> opts option option" where
  "tc_fill opts prog handle info = do {
     opts \<leftarrow> OPTS_SET opts 16 prog;
     opts \<leftarrow> OPTS_SET opts 20 handle;
     OPTS_SET opts 24 (drop_bit 16 (TC_H_MAJ info))
   }"

definition tc_echo :: "nlmsg \<Rightarrow> bool" where "tc_echo x \<longleftrightarrow> n_flags x AND NLM_F_ECHO \<noteq> 0"

definition tc_step :: "nlmsg \<Rightarrow> bpf_cb_ctx \<Rightarrow> int \<times> bpf_cb_ctx" where
  "tc_step x s =
     (if tc_attr x TCA_KIND = None then (NL_CONT, s)
      else if c_opts s = None \<or> (tc_echo x \<and> c_processed s) then (- EINVAL, s)
      else case tc_attr x TCA_OPTIONS of
        None \<Rightarrow> (NL_CONT, s)
      | Some b \<Rightarrow> (case attr_of b TCA_BPF_ID of
            None \<Rightarrow> (- EINVAL, s)
          | Some d \<Rightarrow> (if tc_echo x then NL_NEXT else NL_DONE,
              \<lparr>c_opts = the (tc_fill (c_opts s) (the (load32 d 0)) (tc_word x 8) (tc_word x 16)), c_processed = True\<rparr>)))"

lemma opts_set_fit:
  assumes "opts_fit p" and "a < 1000"
  shows "\<exists>q. OPTS_SET (Some p) a v = Some (Some q) \<and> o_sz q = o_sz p \<and> opts_fit q \<and>
    (of_nat (a + 4) \<le> o_sz p \<longrightarrow> load32 (o_mem q) a = Some v) \<and>
    (\<forall>b. b + 4 \<le> a \<or> a + 4 \<le> b \<longrightarrow> load32 (o_mem q) b = load32 (o_mem p) b)"
proof (cases "of_nat (a + 4) \<le> o_sz p")
  case True
  have "unat (of_nat (a + 4) :: u64) = a + 4" using assms(2) by (simp add: unsigned_of_nat take_bit_nat_eq_self del: of_nat_add)
  then have "a + 4 \<le> length (o_mem p)" using True assms(1) by (simp add: word_le_nat_alt opts_fit_def del: of_nat_add)
  then obtain m where m: "store32 (o_mem p) a v = Some m" by (simp add: store32_def)
  have l: "length m = length (o_mem p)" by (rule store32_length [OF m])
  have n: "m ! j = o_mem p ! j" if "j < a \<or> a + 4 \<le> j" for j using m that by (auto simp: store32_def split: if_splits)
  have "load32 m b = load32 (o_mem p) b" if "b + 4 \<le> a \<or> a + 4 \<le> b" for b by (rule load32_cong) (use l n that in auto)
  then show ?thesis using m True l assms(1) load32_store32 [OF m]
    by (intro exI [of _ "p\<lparr>o_mem := m\<rparr>"]) (simp add: OPTS_SET_def OPTS_HAS_def opts_fit_def del: of_nat_add)
next
  case False
  then show ?thesis using assms(1) by (simp add: OPTS_SET_def OPTS_HAS_def del: of_nat_add)
qed

lemma tc_fill_fit:
  assumes "opts_fit p"
  shows "\<exists>q. tc_fill (Some p) prog handle info = Some (Some q) \<and> opts_fit q \<and>
    (28 \<le> o_sz p \<longrightarrow> load32 (o_mem q) 16 = Some prog \<and> load32 (o_mem q) 20 = Some handle \<and> load32 (o_mem q) 24 = Some (drop_bit 16 (TC_H_MAJ info)))"
proof -
  obtain q1 where q1: "OPTS_SET (Some p) 16 prog = Some (Some q1)" "o_sz q1 = o_sz p" "opts_fit q1" "20 \<le> o_sz p \<longrightarrow> load32 (o_mem q1) 16 = Some prog"
    using opts_set_fit [OF assms, of 16 prog] by auto
  obtain q2 where q2: "OPTS_SET (Some q1) 20 handle = Some (Some q2)" "o_sz q2 = o_sz p" "opts_fit q2" "24 \<le> o_sz p \<longrightarrow> load32 (o_mem q2) 20 = Some handle"
    "load32 (o_mem q2) 16 = load32 (o_mem q1) 16"
    using opts_set_fit [OF q1(3), of 20 handle] q1(2) by auto
  obtain q3 where q3: "OPTS_SET (Some q2) 24 (drop_bit 16 (TC_H_MAJ info)) = Some (Some q3)" "opts_fit q3"
    "28 \<le> o_sz p \<longrightarrow> load32 (o_mem q3) 24 = Some (drop_bit 16 (TC_H_MAJ info))"
    "load32 (o_mem q3) 16 = load32 (o_mem q2) 16" "load32 (o_mem q3) 20 = load32 (o_mem q2) 20"
    using opts_set_fit [OF q2(3), of 24 "drop_bit 16 (TC_H_MAJ info)"] q2(2) by auto
  have "20 \<le> o_sz p \<and> 24 \<le> o_sz p" if "28 \<le> o_sz p" using that by (auto elim: order_trans [rotated])
  then show ?thesis using q1 q2 q3 by (auto simp: tc_fill_def)
qed

lemma get_tc_info0_spec:
  assumes "index_of m bs tb" and "3 \<le> length tb" and "bs = drop 20 (n_data x)" and "tc_ok x" and "cb_inv s" and "tc_attr x TCA_KIND \<noteq> None"
    and "load32 m (tc + 8) = Some (tc_word x 8)" and "load32 m (tc + 16) = Some (tc_word x 16)"
  shows "get_tc_info0 m tc tb (tc_echo x) s = Some (tc_step x s)"
proof -
  have r: "rel_option (found m) (tb ! TCA_OPTIONS) (tc_attr x TCA_OPTIONS)"
    using index_ofD [OF assms(1), of TCA_OPTIONS] assms(2,3) by (simp add: tc_attr_def TCA_OPTIONS_def)
  show ?thesis
  proof (cases "c_opts s = None \<or> (tc_echo x \<and> c_processed s) \<or> tc_attr x TCA_OPTIONS = None")
    case True
    then show ?thesis using r assms(6) by (auto simp: get_tc_info0_def tc_step_def)
  next
    case False
    then obtain p b where p: "c_opts s = Some p" "tc_attr x TCA_OPTIONS = Some b" by auto
    then obtain nla where nla: "tb ! TCA_OPTIONS = Some nla" "found m nla b" using r by (auto simp: option_rel_Some2)
    have b: "length b mod 4 = 0" "has_size 4 (attr_of b TCA_BPF_ID)" using assms(4) p(2) by (auto simp: tc_ok_def)
    obtain t where t: "libbpf_nla_parse_nested m TCA_BPF_MAX nla None = Some (0, t)" "length t = 12" "index_of m b t"
      using parse_nested_decodes [OF nla(2) b(1), of TCA_BPF_MAX] by (auto simp: TCA_BPF_MAX_def)
    have ri: "rel_option (found m) (t ! TCA_BPF_ID) (attr_of b TCA_BPF_ID)" by (rule index_ofD [OF t(3)]) (simp add: t(2) TCA_BPF_ID_def)
    show ?thesis
    proof (cases "attr_of b TCA_BPF_ID")
      case None
      then show ?thesis using False p nla t ri assms(6) by (auto simp: get_tc_info0_def tc_step_def)
    next
      case (Some d)
      then obtain k where k: "t ! TCA_BPF_ID = Some k" "found m k d" using ri by (auto simp: option_rel_Some2)
      have "4 \<le> length d" using b(2) Some by (simp add: has_size_def)
      then have v: "libbpf_nla_getattr_u32 m k = Some (the (load32 d 0))"
        using found_load32 [OF k(2)] by (simp add: libbpf_nla_getattr_u32_def load32_def)
      have "opts_fit p" using assms(5) p(1) by (simp add: cb_inv_def)
      from tc_fill_fit [OF this, of "the (load32 d 0)" "tc_word x 8" "tc_word x 16"]
      obtain q where "tc_fill (Some p) (the (load32 d 0)) (tc_word x 8) (tc_word x 16) = Some (Some q)" by blast
      then show ?thesis using False p nla t k v Some assms(6-8)
        by (auto simp: get_tc_info0_def tc_step_def tc_fill_def bind_eq_Some_conv)
    qed
  qed
qed

lemma tc_callback:
  assumes "msg_at m off x" and "tc_ok x" and "cb_inv s"
  shows "get_tc_info (int n + 2) m off s = Some (tc_step x s)"
proof -
  let ?bs = "drop 20 (n_data x)"
  have o: "20 \<le> length (n_data x)" "length (n_data x) mod 4 = 0" "length (n_data x) < 2 ^ 31" using assms(2) by (auto simp: tc_ok_def)
  have b: "load_bytes m (off + 16) (length (n_data x)) = Some (n_data x)" and fl: "load16 m (off + 6) = Some (n_flags x)"
    and l: "load32 m off = Some (of_nat (16 + length (n_data x)))"
    using assms(1) by (simp_all add: msg_at_def)
  have "uint (of_nat (16 + length (n_data x)) :: u32) = int (16 + length (n_data x))"
    unfolding uint_nat by (subst unat_of_nat_u32) (use o in simp_all)
  then have len: "to_int (uint (of_nat (16 + length (n_data x)) :: u32) - 36) = int (length ?bs)" using o(1,3) by (simp add: c_simps)
  have lb: "load_bytes m (off + 16 + 20) (length ?bs) = Some ?bs" using load_bytes_sub [OF b, of 20 "length ?bs"] o(1) by simp
  have md: "length ?bs mod 4 = 0" "length ?bs < 2 ^ 31" using o by (auto simp: mod_eq_0_iff_dvd)
  obtain tb where t: "libbpf_nla_parse m (int n + 2) (off + 16 + 20) (int (length ?bs)) None = Some (0, tb)" "length tb = n + 3" "index_of m ?bs tb"
    using parse_decodes [OF lb md, of "int n + 2"] by (auto simp: nat_add_distrib)
  have ws: "load32 m (off + 16 + 8) = Some (tc_word x 8)" "load32 m (off + 16 + 16) = Some (tc_word x 16)"
    using load32_sub [OF b, of 8] load32_sub [OF b, of 16] o(1) by (simp_all add: tc_word_def load32_def)
  have r: "rel_option (found m) (tb ! TCA_KIND) (tc_attr x TCA_KIND)"
    unfolding tc_attr_def by (rule index_ofD [OF t(3)]) (use t(2) in \<open>simp add: TCA_KIND_def\<close>)
  have eq: "get_tc_info (int n + 2) m off s = (case tb ! TCA_KIND of None \<Rightarrow> Some (NL_CONT, s) | Some _ \<Rightarrow> get_tc_info0 m (off + 16) tb (tc_echo x) s)"
    using l len t(1) fl by (simp add: get_tc_info_def Let_def tc_echo_def split: option.splits)
  have "get_tc_info0 m (off + 16) tb (tc_echo x) s = Some (tc_step x s)" if "tc_attr x TCA_KIND \<noteq> None"
    by (rule get_tc_info0_spec [OF t(3) _ refl assms(2,3) that ws]) (simp add: t(2))
  then show ?thesis using r unfolding eq by (cases "tc_attr x TCA_KIND") (auto simp: tc_step_def option_rel_Some2)
qed

lemma tc_step_inv: "cb_inv s \<Longrightarrow> cb_inv (snd (tc_step x s))"
proof -
  assume a: "cb_inv s"
  have "opts_fit q" if q: "the (tc_fill (Some p) i h w) = Some q" and p: "c_opts s = Some p" for p q i h w
    using tc_fill_fit [of p i h w] a p q by (auto simp: cb_inv_def)
  then show ?thesis using a by (auto simp: tc_step_def cb_inv_def split: option.splits)
qed

interpretation tc_handler: nl_handler "Some (get_tc_info (int nx + 2))" tc_step tc_ok cb_inv for nx
  by unfold_locales (simp_all add: tc_callback tc_step_inv)

section \<open>The requests\<close>

text \<open>The headers of a request that names a filter.\<close>

definition tc_headers :: "bytes \<Rightarrow> u16 \<Rightarrow> u16 \<Rightarrow> u32 \<Rightarrow> u32 \<Rightarrow> u32 \<Rightarrow> u32 \<Rightarrow> bool" where
  "tc_headers msg type flags ifindex handle parent info \<longleftrightarrow> load16 msg 4 = Some type \<and> load16 msg 6 = Some flags \<and> load32 msg 20 = Some ifindex \<and>
     load32 msg 24 = Some handle \<and> load32 msg 28 = Some parent \<and> load32 msg 32 = Some info"

definition tc_base :: "u16 \<Rightarrow> u16 \<Rightarrow> u32 \<Rightarrow> u32 \<Rightarrow> u32 \<Rightarrow> u32 \<Rightarrow> bytes option" where
  "tc_base type flags ifindex handle parent info = do {
     req \<leftarrow> tc_req type flags ifindex;
     req \<leftarrow> store32 req 24 handle;
     req \<leftarrow> store32 req 32 info;
     store32 req 28 parent
   }"

lemma tc_base_ok:
  "\<exists>req. tc_base type flags i handle parent info = Some req \<and> length req = nla_req_size \<and> load32 req 0 = Some (of_nat 36) \<and>
     tc_headers req type flags i handle parent info"
proof -
  define z :: bytes where "z = replicate nla_req_size 0"
  have l: "length z = 164" by (simp add: z_def nla_req_size_def)
  show ?thesis unfolding tc_base_def tc_req_def z_def [symmetric] tc_headers_def
    using word16_bytes [of type] word16_bytes [of flags] word32_bytes [of i] word32_bytes [of 36] word32_bytes [of handle] word32_bytes [of parent] word32_bytes [of info]
    by (simp add: store32_def store16_def store8_def load32_def load16_def l nth_list_update nla_req_size_def)
qed

lemma tc_headers_cong:
  assumes "tc_headers m type flags i handle parent info" and "36 \<le> length m" and "36 \<le> length m'"
    and "\<And>j. j < 36 \<Longrightarrow> 4 \<le> j \<and> j < 8 \<or> 16 \<le> j \<Longrightarrow> m' ! j = m ! j"
  shows "tc_headers m' type flags i handle parent info"
proof -
  have "load16 m' a = load16 m a" if "a \<in> {4, 6}" for a by (rule load16_cong) (use assms(2-4) that in auto)
  moreover have "load32 m' a = load32 m a" if "a \<in> {20, 24, 28, 32}" for a by (rule load32_cong) (use assms(2-4) that in auto)
  ultimately show ?thesis using assms(1) by (simp add: tc_headers_def)
qed

lemma str_bpf_simps: "length str_bpf = 4" "str_bpf \<noteq> []" "attr_size str_bpf = 8"
  by (simp_all add: str_bpf_def attr_size_def NLA_ALIGN_mod)

lemma tc_kind_added:
  assumes "length req = nla_req_size" and "load32 req 0 = Some (of_nat 36)" and "tc_headers req type flags i handle parent info"
  shows "\<exists>r1. nlattr_add req (int TCA_KIND) (Some str_bpf) 4 = Some (0, r1) \<and> length r1 = nla_req_size \<and> load32 r1 0 = Some (of_nat 44) \<and>
    attr_at r1 36 TCA_KIND str_bpf \<and> tc_headers r1 type flags i handle parent info"
proof -
  obtain r1 where r: "nlattr_add req (int TCA_KIND) (Some str_bpf) 4 = Some (0, r1)" "length r1 = nla_req_size" "load32 r1 0 = Some (of_nat (36 + 8))"
    "attr_at r1 36 TCA_KIND str_bpf" "\<forall>j. 4 \<le> j \<and> j < 36 \<longrightarrow> r1 ! j = req ! j"
    using nlattr_add_ok [OF assms(1,2), of str_bpf TCA_KIND] by (auto simp: str_bpf_simps nla_req_size_def)
  moreover have "tc_headers r1 type flags i handle parent info"
    by (rule tc_headers_cong [OF assms(3)]) (use r assms(1) in \<open>auto simp: nla_req_size_def\<close>)
  ultimately show ?thesis by auto
qed

lemma dec_digits_length: "0 < k \<Longrightarrow> n < 10 ^ k \<Longrightarrow> length (dec_digits n) \<le> k"
proof (induction n arbitrary: k rule: dec_digits.induct)
  case (1 n)
  show ?case
  proof (cases "n < 10")
    case True
    then show ?thesis using "1.prems" by (subst dec_digits.simps) simp
  next
    case False
    then have k: "1 < k" using "1.prems" by (cases "k = 1") auto
    have "n div 10 < 10 ^ (k - 1)" using "1.prems"(2) k by (simp add: less_mult_imp_div_less power_eq_if)
    then have "length (dec_digits (n div 10)) \<le> k - 1" using "1.IH" [OF False, of "k - 1"] k by simp
    then show ?thesis using False k by (subst dec_digits.simps) simp
  qed
qed

text \<open>The attributes of the program to attach.\<close>

definition tc_bpf_attrs :: "u32 \<Rightarrow> bytes \<Rightarrow> u32 \<Rightarrow> (nat \<times> bytes) list" where
  "tc_bpf_attrs fd name prog = [(TCA_BPF_FD, le_bytes fd), (TCA_BPF_NAME, prog_label name prog @ [0]), (TCA_BPF_FLAGS, le_bytes TCA_BPF_FLAG_ACT_DIRECT)]"

lemma prog_label_length: "length name < 16 \<Longrightarrow> length (prog_label name prog) \<le> 28"
  using dec_digits_length [of 10 "unat prog"] unat_u32 [of prog] by (simp add: prog_label_def)

lemma attr_size_le: "attr_size d \<le> length d + 7"
proof -
  have "NLA_ALIGN (4 + int (length d)) \<le> int (length d + 7)" unfolding NLA_ALIGN_mod by simp
  then show ?thesis using attr_size_bounds(3) [of d] by linarith
qed

lemma tc_bpf_attrs_size: "length name < 16 \<Longrightarrow> attrs_size (tc_bpf_attrs fd name prog) \<le> 52"
  using prog_label_length [of name prog] attr_size_le [of "prog_label name prog @ [0]"] by (simp add: tc_bpf_attrs_def attr_size_word)

text \<open>The flags of the request of an attachment: acknowledged, created, echoed, and either replacing or exclusive.\<close>

definition attach_flags :: "tc_opts_fields \<Rightarrow> u16" where
  "attach_flags t = (NLM_F_REQUEST OR NLM_F_ACK OR NLM_F_CREATE OR NLM_F_ECHO OR
     (if t_flags t AND BPF_TC_F_REPLACE \<noteq> 0 then NLM_F_REPLACE else NLM_F_EXCL))"

lemma tc_attach_req_nested:
  assumes "tc_base RTM_NEWTFILTER (attach_flags t) (h_ifindex h) (t_handle t) parent (tcm_info_of (t_priority t)) = Some r0"
    and "tc_get_tcm_parent (h_attach_point h) (h_parent h) = (0, parent)" and "nlattr_add r0 (int TCA_KIND) (Some str_bpf) 4 = Some (0, r1)"
    and "nlattr_begin_nested r1 (int TCA_OPTIONS) = Some (Some nla, r2)" and "get_info (t_prog_fd t) = Inr (name, prog)" and "length name < 16"
    and "add_all r2 (tc_bpf_attrs (t_prog_fd t) name prog) = Some (0, r3)" and "nlattr_end_nested r3 nla = Some r4"
  shows "tc_attach_req get_info h t = Some (0, r4)"
proof -
  have l: "length (prog_label name prog) < 256" "int (Suc (length (prog_label name prog))) = int (length (prog_label name prog)) + 1"
    using prog_label_length [OF assms(6), of prog] by simp_all
  obtain a b where a: "nlattr_add r2 (int TCA_BPF_FD) (Some (le_bytes (t_prog_fd t))) 4 = Some (0, a)"
    "nlattr_add a (int TCA_BPF_NAME) (Some (prog_label name prog @ [0])) (int (length (prog_label name prog)) + 1) = Some (0, b)"
    "nlattr_add b (int TCA_BPF_FLAGS) (Some (le_bytes TCA_BPF_FLAG_ACT_DIRECT)) 4 = Some (0, r3)"
    using assms(7) by (auto simp: tc_bpf_attrs_def bind_eq_Some_conv add.commute split: if_splits)
  then have "tc_add_fd_and_name get_info r2 (t_prog_fd t) = Some (0, b)" using assms(5) l(1) by (simp add: tc_add_fd_and_name_def Let_def)
  then show ?thesis using assms(1-4,8) a(3)
    by (auto simp: tc_attach_req_def attach_flags_def tc_base_def Let_def bind_eq_Some_conv)
qed

text \<open>The message that is sent, in terms of the code: a filter with these headers, and with the attributes \<open>xs\<close> of the program.\<close>

definition tc_attach_sent :: "bytes \<Rightarrow> u32 \<Rightarrow> tc_hook_fields \<Rightarrow> tc_opts_fields \<Rightarrow> u32 \<Rightarrow> (nat \<times> bytes) list \<Rightarrow> bool" where
  "tc_attach_sent msg seq h t parent xs \<longleftrightarrow> load32 msg 0 = Some (of_nat (length msg)) \<and> load32 msg 8 = Some seq \<and> load32 msg 12 = Some 0 \<and>
     tc_headers msg RTM_NEWTFILTER (attach_flags t) (h_ifindex h) (t_handle t) parent (tcm_info_of (t_priority t)) \<and>
     (\<exists>b. dec_attrs (drop 36 msg) = [(TCA_KIND, str_bpf), (TCA_OPTIONS, b)] \<and> dec_attrs b = xs)"

lemma tc_attach_req_ok:
  assumes "tc_get_tcm_parent (h_attach_point h) (h_parent h) = (0, parent)" and "get_info (t_prog_fd t) = Inr (name, prog)" and "length name < 16"
  defines "xs \<equiv> tc_bpf_attrs (t_prog_fd t) name prog"
  shows "\<exists>req. tc_attach_req get_info h t = Some (0, req) \<and> length req = nla_req_size \<and> load32 req 0 = Some (of_nat (48 + attrs_size xs)) \<and>
    48 + attrs_size xs \<le> nla_req_size \<and> (\<forall>seq msg. stamped req seq msg \<longrightarrow> tc_attach_sent msg seq h t parent xs)"
proof -
  let ?hd = "\<lambda>m. tc_headers m RTM_NEWTFILTER (attach_flags t) (h_ifindex h) (t_handle t) parent (tcm_info_of (t_priority t))"
  obtain r0 where r0: "tc_base RTM_NEWTFILTER (attach_flags t) (h_ifindex h) (t_handle t) parent (tcm_info_of (t_priority t)) = Some r0"
    "length r0 = nla_req_size" "load32 r0 0 = Some (of_nat 36)" "?hd r0"
    using tc_base_ok by blast
  obtain r1 where r1: "nlattr_add r0 (int TCA_KIND) (Some str_bpf) 4 = Some (0, r1)" "length r1 = nla_req_size" "load32 r1 0 = Some (of_nat 44)"
    "attr_at r1 36 TCA_KIND str_bpf" "?hd r1"
    using tc_kind_added [OF r0(2-4)] by blast
  have c: "44 mod 4 = (0 :: nat)" "4 \<le> (44 :: nat)" "TCA_OPTIONS < 2 ^ 14" by (simp_all add: TCA_OPTIONS_def)
  have sz: "44 + 4 + attrs_size xs \<le> nla_req_size" "\<forall>(ty, d) \<in> set xs. ty < 2 ^ 14"
    using tc_bpf_attrs_size [OF assms(3), of "t_prog_fd t" prog] by (auto simp: xs_def nla_req_size_def tc_bpf_attrs_def tca_defs)
  from nested_ok [OF r1(2,3) c sz] obtain r2 r3 r4 b where n: "nlattr_begin_nested r1 (int TCA_OPTIONS) = Some (Some 44, r2)" "add_all r2 xs = Some (0, r3)"
    "nlattr_end_nested r3 44 = Some r4" "length r4 = nla_req_size" "load32 r4 0 = Some (of_nat (44 + 4 + attrs_size xs))"
    "\<forall>j. 4 \<le> j \<and> j < 44 \<longrightarrow> r4 ! j = r1 ! j" "attr_at r4 44 (2 ^ 15 + TCA_OPTIONS) b" "length b = attrs_size xs" "dec_attrs b = xs"
    by (elim exE conjE) (rule that)
  have hd: "?hd r4" by (rule tc_headers_cong [OF r1(5)]) (use r1(2) n(4,6) in \<open>auto simp: nla_req_size_def\<close>)
  have "attr_at r4 36 TCA_KIND str_bpf" by (rule attr_at_cong [OF _ _ r1(4)]) (use r1(2) n(4,6) in \<open>auto simp: str_bpf_simps\<close>)
  then have at: "attrs_at r4 36 [(TCA_KIND, str_bpf), (2 ^ 15 + TCA_OPTIONS, b)]" using n(7) by (simp add: str_bpf_simps)
  have as: "36 + attrs_size [(TCA_KIND, str_bpf), (2 ^ 15 + TCA_OPTIONS, b)] = 48 + attrs_size xs" using nested_size [OF n(8)] by (simp add: str_bpf_simps)
  have l0: "load32 r4 0 = Some (of_nat (48 + attrs_size xs))" "16 \<le> 48 + attrs_size xs" "48 + attrs_size xs \<le> length r4" "48 + attrs_size xs < 2 ^ 31"
    using n(4,5) sz(1) by (simp_all add: nla_req_size_def)
  have msg: "tc_attach_sent msg seq h t parent xs" if st: "stamped r4 seq msg" for seq msg
  proof -
    note f = stamped_facts [OF st l0]
    have "dec_attrs (drop 36 msg) = map (\<lambda>(ty, d). (ty mod 2 ^ 14, d)) [(TCA_KIND, str_bpf), (2 ^ 15 + TCA_OPTIONS, b)]"
      by (rule stamped_attrs [OF st _ _ _ at]) (unfold as, use l0 sz(1) as in \<open>auto simp: tca_defs nla_req_size_def\<close>)
    then have "dec_attrs (drop 36 msg) = [(TCA_KIND, str_bpf), (TCA_OPTIONS, b)]" by (simp add: tca_defs)
    moreover have "?hd msg" by (rule tc_headers_cong [OF hd]) (use f(1,4) l0 in auto)
    moreover have "load32 msg 0 = Some (of_nat (length msg))" using stamped_loads(1) [OF st l0, of 0] l0(1) f(1) by simp
    ultimately show ?thesis unfolding tc_attach_sent_def using f(2,3) n(9) by blast
  qed
  have "tc_attach_req get_info h t = Some (0, r4)"
    by (rule tc_attach_req_nested [where get_info = get_info and name = name and prog = prog, OF r0(1) assms(1) r1(1) n(1)]) (use assms(2,3) n(2,3) in \<open>simp_all add: xs_def\<close>)
  then show ?thesis using n(4) l0(1) sz(1) msg by (intro exI [of _ r4]) simp
qed

section \<open>An attachment and its answer\<close>

text \<open>A message on the filter: with the number of its program in the options.\<close>

definition filter_msg :: "u32 \<Rightarrow> u32 \<Rightarrow> u32 \<Rightarrow> nlmsg \<Rightarrow> bool" where
  "filter_msg nl_pid seq prog x \<longleftrightarrow> n_pid x = nl_pid \<and> n_seq x = seq \<and> n_type x \<noteq> NLMSG_ERROR \<and> n_type x \<noteq> NLMSG_DONE \<and>
     tc_attr x TCA_KIND \<noteq> None \<and> (\<exists>b d. tc_attr x TCA_OPTIONS = Some b \<and> attr_of b TCA_BPF_ID = Some d \<and> load32 d 0 = Some prog)"

definition opts_filter :: "opts \<Rightarrow> u32 \<Rightarrow> nlmsg \<Rightarrow> bool" where
  "opts_filter q prog x \<longleftrightarrow> load32 (o_mem q) 16 = Some prog \<and> load32 (o_mem q) 20 = Some (tc_word x 8) \<and>
     load32 (o_mem q) 24 = Some (tc_word x 16 div 65536)"

lemma TC_H_MAJ_shift: "drop_bit 16 (TC_H_MAJ w) = w div 65536"
proof -
  have m: "(0xFFFF0000 :: u32) = push_bit 16 (mask 16)" by (simp add: mask_eq_exp_minus_1)
  have "drop_bit 16 (TC_H_MAJ w) = drop_bit 16 w" unfolding TC_H_MAJ_def m
    by (rule bit_word_eqI) (auto simp: bit_simps dest: bit_imp_le_length)
  then show ?thesis by (simp add: drop_bit_eq_div)
qed

lemma tc_step_filter:
  assumes "filter_msg nl_pid seq prog x" and "opts_fit p" and "28 \<le> o_sz p"
  shows "\<exists>q. tc_step x \<lparr>c_opts = Some p, c_processed = False\<rparr> =
    (if tc_echo x then NL_NEXT else NL_DONE, \<lparr>c_opts = Some q, c_processed = True\<rparr>) \<and> opts_filter q prog x"
proof -
  obtain b d where b: "tc_attr x TCA_OPTIONS = Some b" "attr_of b TCA_BPF_ID = Some d" "load32 d 0 = Some prog" "tc_attr x TCA_KIND \<noteq> None"
    using assms(1) by (auto simp: filter_msg_def)
  obtain q where q: "tc_fill (Some p) prog (tc_word x 8) (tc_word x 16) = Some (Some q)"
    "28 \<le> o_sz p \<longrightarrow> load32 (o_mem q) 16 = Some prog \<and> load32 (o_mem q) 20 = Some (tc_word x 8) \<and> load32 (o_mem q) 24 = Some (drop_bit 16 (TC_H_MAJ (tc_word x 16)))"
    using tc_fill_fit [OF assms(2)] by blast
  then show ?thesis using b assms(3) by (auto simp: tc_step_def opts_filter_def TC_H_MAJ_shift)
qed

text \<open>The echo of the kernel and then the acknowledgement, or the answer to a query alone.\<close>

lemma run_echo:
  assumes "filter_msg nl_pid seq prog x" and "opts_fit p" and "28 \<le> o_sz p" and "tc_echo x" and "ack_msg nl_pid seq e y"
  shows "\<exists>q. run_dgrams tc_step nl_pid seq [[x], [y]] \<lparr>c_opts = Some p, c_processed = False\<rparr> =
    Some (sint e, \<lparr>c_opts = Some q, c_processed = True\<rparr>) \<and> opts_filter q prog x"
proof -
  obtain q where q: "tc_step x \<lparr>c_opts = Some p, c_processed = False\<rparr> = (NL_NEXT, \<lparr>c_opts = Some q, c_processed = True\<rparr>)" "opts_filter q prog x"
    using tc_step_filter [OF assms(1-3)] assms(4) by auto
  then have "run_dgrams tc_step nl_pid seq [[x], [y]] \<lparr>c_opts = Some p, c_processed = False\<rparr> =
      run_dgrams tc_step nl_pid seq [[y]] \<lparr>c_opts = Some q, c_processed = True\<rparr>"
    using assms(1) by (simp add: step_msg_def filter_msg_def Let_def NL_NEXT_def NL_CONT_def NL_DONE_def)
  also have "\<dots> = Some (sint e, \<lparr>c_opts = Some q, c_processed = True\<rparr>)" by (rule run_ack [OF assms(5)])
  finally show ?thesis using q(2) by blast
qed

lemma exchange_answered:
  assumes "2 \<le> tca_max" and "libbpf_netlink_open env = Inr nl_pid" and "send_ret env = None" and "length req = nla_req_size"
    and "load32 req 0 = Some (of_nat n)" and "n \<le> nla_req_size" and "list_all2 (dgram tc_ok) rss xss" and "recvs env = concat rss @ rs"
    and "run_dgrams tc_step nl_pid (time_now env) xss \<lparr>c_opts = Some p, c_processed = False\<rparr> = Some (r, \<lparr>c_opts = Some q, c_processed = True\<rparr>)" and "opts_fit p"
  shows "\<exists>msg. stamped req (time_now env) msg \<and> (tc_exchange tca_max env allocs req (Some p) = Some (Some (r, Some msg, Some q)) \<or>
    (\<exists>k q'. \<not> allocs k \<and> tc_exchange tca_max env allocs req (Some p) = Some (Some (- ENOMEM, Some msg, q'))))"
proof -
  have u: "unat (of_nat n :: u32) = n" by (rule unat_of_nat_u32) (use assms(6) in \<open>simp add: nla_req_size_def\<close>)
  have len: "16 \<le> length req" "unat (of_nat n :: u32) \<le> length req" using assms(4,6) unfolding u by (simp_all add: nla_req_size_def)
  have inv: "cb_inv \<lparr>c_opts = Some p, c_processed = False\<rparr>" using assms(10) by (simp add: cb_inv_def)
  have t: "int (nat (tca_max - 2)) + 2 = tca_max" using assms(1) by simp
  note R = tc_handler.send_recv_refines [OF assms(2,3) len(1) assms(5) len(2) assms(7,8,9) inv, where nx = "nat (tca_max - 2)" and allocs = allocs, unfolded t]
  obtain k s' msg where m: "stamped req (time_now env) msg" "libbpf_netlink_send_recv env allocs req (Some (get_tc_info tca_max)) \<lparr>c_opts = Some p, c_processed = False\<rparr> =
        Some (Some (r, Some msg, \<lparr>c_opts = Some q, c_processed = True\<rparr>)) \<or>
      (\<not> allocs k \<and> libbpf_netlink_send_recv env allocs req (Some (get_tc_info tca_max)) \<lparr>c_opts = Some p, c_processed = False\<rparr> = Some (Some (- ENOMEM, Some msg, s')))"
    using R by (elim exE conjE) (rule that)
  then show ?thesis by (auto simp: tc_exchange_def ENOMEM_def)
qed

text \<open>
  The message the kernel expects, number by number: type 44 (a new filter), the flags request, acknowledge, echo, create and
  either replace or exclusive, the interface, the handle and the parent, the priority above the protocol \<^verbatim>\<open>ETH_P_ALL\<close> in network
  order, and the attributes: the kind, and the descriptor, the label and the direct-action flag of the program.
\<close>

definition tc_attach_message :: "bytes \<Rightarrow> u32 \<Rightarrow> bool \<Rightarrow> u32 \<Rightarrow> u32 \<Rightarrow> u32 \<Rightarrow> u32 \<Rightarrow> u32 \<Rightarrow> bytes \<Rightarrow> bool" where
  "tc_attach_message msg seq replace ifindex handle parent priority fd label \<longleftrightarrow>
     load32 msg 0 = Some (of_nat (length msg)) \<and> load16 msg 4 = Some 44 \<and> load16 msg 6 = Some (if replace then 0x50D else 0x60D) \<and>
     load32 msg 8 = Some seq \<and> load32 msg 12 = Some 0 \<and>
     load32 msg 20 = Some ifindex \<and> load32 msg 24 = Some handle \<and> load32 msg 28 = Some parent \<and>
     load32 msg 32 = Some (of_nat (unat priority * 65536 + 0x300)) \<and>
     (\<exists>b. dec_attrs (drop 36 msg) = [(1, [98, 112, 102, 0]), (2, b)] \<and>
       dec_attrs b = [(6, le_bytes fd), (7, label @ [0]), (8, [1, 0, 0, 0])])"

text \<open>
  The parent of an attach point: the classes \<open>ffff:fff2\<close> and \<open>ffff:fff3\<close> for ingress (1) and egress (2), which the caller must leave
  open, and the parent of the caller for a custom attach point (4).
\<close>

definition point_parent :: "u32 \<Rightarrow> u32 \<Rightarrow> u32 \<Rightarrow> bool" where
  "point_parent point given parent \<longleftrightarrow> point = 1 \<and> given = 0 \<and> parent = 0xFFFFFFF2 \<or> point = 2 \<and> given = 0 \<and> parent = 0xFFFFFFF3 \<or>
     point = 4 \<and> given \<noteq> 0 \<and> parent = given"

lemma tc_get_tcm_parent_point: "point_parent point given parent \<Longrightarrow> tc_get_tcm_parent point given = (0, parent)"
  by (auto simp: point_parent_def tc_get_tcm_parent_def tc_point_defs TC_H_MAKE_def TC_H_CLSACT_def TC_H_MIN_INGRESS_def TC_H_MIN_EGRESS_def)

lemma tcm_info_of_priority: "tcm_info_of priority = of_nat (unat priority * 65536 + 0x300)"
proof -
  have h: "ucast (bpf_htons ETH_P_ALL) = (0x300 :: u32)" by (simp add: bpf_htons_def bpf_swab16_def bpf_mvb_def ETH_P_ALL_def)
  have m: "(0xFFFF0000 :: u32) = push_bit 16 (mask 16)" "(0x300 :: u32) = push_bit 8 (mask 2)" by (simp_all add: mask_eq_exp_minus_1)
  have a: "push_bit 16 priority AND 0xFFFF0000 = push_bit 16 priority" unfolding m(1) by (rule bit_word_eqI) (auto simp: bit_simps)
  have "tcm_info_of priority = push_bit 16 priority OR 0x300" unfolding tcm_info_of_def TC_H_MAKE_def h a by simp
  also have "\<dots> = push_bit 16 priority + 0x300"
    unfolding m(2) by (rule disjunctive_add [symmetric]) (auto simp: bit_simps)
  also have "\<dots> = of_nat (unat priority * 65536 + 0x300)" by (simp add: push_bit_eq_mult)
  finally show ?thesis .
qed

lemma tc_attach_message_sent:
  assumes "tc_attach_sent msg seq h t parent (tc_bpf_attrs (t_prog_fd t) name prog)" and "t_flags t \<in> {0, 1}"
  shows "tc_attach_message msg seq (t_flags t = 1) (h_ifindex h) (t_handle t) parent (t_priority t) (t_prog_fd t) (prog_label name prog)"
proof -
  have "attach_flags t = (if t_flags t = 1 then 0x50D else 0x60D)" using assms(2)
    by (auto simp: attach_flags_def NLM_F_REQUEST_def NLM_F_ACK_def NLM_F_CREATE_def NLM_F_ECHO_def NLM_F_REPLACE_def NLM_F_EXCL_def BPF_TC_F_REPLACE_def)
  moreover have "le_bytes TCA_BPF_FLAG_ACT_DIRECT = [1, 0, 0, 0]" by (simp add: TCA_BPF_FLAG_ACT_DIRECT_def le_bytes_def)
  ultimately show ?thesis using assms(1) tcm_info_of_priority [of "t_priority t"]
    unfolding tc_attach_sent_def tc_attach_message_def tc_headers_def tc_bpf_attrs_def RTM_NEWTFILTER_def tca_defs str_bpf_def by auto
qed

text \<open>
  A structure of the caller: as long as it says, with the members \<open>fs\<close> (offset and value) inside its first \<open>n\<close> bytes, and zeros
  behind them.
\<close>

definition struct_holds :: "opts \<Rightarrow> nat \<Rightarrow> (nat \<times> u32) list \<Rightarrow> bool" where
  "struct_holds p n fs \<longleftrightarrow> o_sz p = of_nat (length (o_mem p)) \<and> n \<le> length (o_mem p) \<and> length (o_mem p) < 2 ^ 31 \<and>
     (\<forall>(a, v) \<in> set fs. a + 4 \<le> n \<and> load32 (o_mem p) a = Some v) \<and> (\<forall>j. n \<le> j \<and> j < length (o_mem p) \<longrightarrow> o_mem p ! j = 0)"

lemma mem_zeroed_ok: "(\<And>j. q \<le> j \<Longrightarrow> j < q + len \<Longrightarrow> m ! j = 0) \<Longrightarrow> q + len \<le> length m \<Longrightarrow> mem_zeroed_loop m q len = Some True"
  by (induction len arbitrary: q) (simp_all add: load8_def)

lemma struct_holds_sz:
  assumes "struct_holds p n fs"
  shows "unat (o_sz p) = length (o_mem p)" and "k \<le> n \<Longrightarrow> of_nat k \<le> o_sz p" and "opts_fit p"
proof -
  show u: "unat (o_sz p) = length (o_mem p)" using assms by (simp add: struct_holds_def unsigned_of_nat take_bit_nat_eq_self)
  then show "opts_fit p" by (simp add: opts_fit_def)
  have "n \<le> length (o_mem p)" "length (o_mem p) < 2 ^ 31" using assms by (simp_all add: struct_holds_def)
  then show "k \<le> n \<Longrightarrow> of_nat k \<le> o_sz p" by (simp add: word_le_nat_alt u unsigned_of_nat take_bit_nat_eq_self)
qed

lemma struct_holds_get: "struct_holds p n fs \<Longrightarrow> (a, v) \<in> set fs \<Longrightarrow> OPTS_GET (Some p) a d = Some v"
  using struct_holds_sz(2) [of p n fs "a + 4"] unfolding OPTS_GET_def OPTS_HAS_def struct_holds_def by (auto simp del: of_nat_add)

lemma struct_holds_valid:
  assumes "struct_holds p n fs" and "8 \<le> n"
  shows "OPTS_VALID (Some p) n = Some True"
proof -
  let ?l = "length (o_mem p)"
  have l: "n \<le> ?l" "?l < 2 ^ 31" and z: "\<forall>j. n \<le> j \<and> j < ?l \<longrightarrow> o_mem p ! j = 0" and o: "o_sz p = of_nat ?l" using assms(1) by (simp_all add: struct_holds_def)
  have "o_sz p - of_nat n = of_nat (?l - n)" using o l(1) by (simp add: of_nat_diff)
  then have "sint (o_sz p - of_nat n) = int (?l - n)" using l(2) by (simp add: sint_uint unsigned_of_nat take_bit_nat_eq_self signed_take_bit_int_eq_self)
  then have "mem_zeroed_loop (o_mem p) n (nat (sint (o_sz p - of_nat n))) = Some True" using z l(1) by (simp add: mem_zeroed_ok)
  moreover have "\<not> o_sz p < 8" using struct_holds_sz(2) [OF assms(1), of 8] assms(2) by (simp add: not_less)
  ultimately show ?thesis by (simp add: OPTS_VALID_def libbpf_validate_opts_def libbpf_is_mem_zeroed_def)
qed

text \<open>\<^verbatim>\<open>struct bpf_tc_hook\<close> and \<^verbatim>\<open>struct bpf_tc_opts\<close>.\<close>

definition hook_struct :: "opts \<Rightarrow> tc_hook_fields \<Rightarrow> bool" where
  "hook_struct p h \<longleftrightarrow> struct_holds p 20 [(8, h_ifindex h), (12, h_attach_point h), (16, h_parent h)]"

definition opts_struct :: "opts \<Rightarrow> tc_opts_fields \<Rightarrow> bool" where
  "opts_struct p t \<longleftrightarrow> struct_holds p 28 [(8, t_prog_fd t), (12, t_flags t), (16, t_prog_id t), (20, t_handle t), (24, t_priority t)]"

lemma structs_args:
  assumes "hook_struct hk h" and "opts_struct p t"
  shows "tc_args (Some hk) (Some p) = Some (Some (h, t))"
proof -
  note H = assms(1) [unfolded hook_struct_def] and T = assms(2) [unfolded opts_struct_def]
  have "get_hook (Some hk) = Some h" unfolding get_hook_def by (simp add: struct_holds_get [OF H])
  moreover have "get_opts (Some p) = Some t" unfolding get_opts_def by (simp add: struct_holds_get [OF T])
  ultimately show ?thesis using struct_holds_valid [OF H] struct_holds_valid [OF T] by (simp add: tc_args_def)
qed

text \<open>
  C10. Attaching a filter program: the caller's structures hold an interface, an attach point that names a parent (ingress,
  egress, or a custom one), a descriptor, a priority of 16 bits and no flag but \<^verbatim>\<open>BPF_TC_F_REPLACE\<close>, and the kernel knows the
  program under a name of less than 16 characters.  Then the message \<open>bpf_tc_attach\<close> sends is, number by number, the one
  \<open>tc_attach_message\<close> describes: type and flags, interface, handle, the parent of the attach point, the priority in the upper half of
  \<^verbatim>\<open>tcm_info\<close> and \<open>htons(ETH_P_ALL)\<close> in the lower, and the attributes with the descriptor, the label \<open>name:[number]\<close> and the flag of the
  program.  When the kernel echoes the filter and then acknowledges the request, each in a datagram, the result is the number of the
  acknowledgement and the options hold the number of the program, the handle and the priority of the echo (or the result is
  \<open>-ENOMEM\<close> after a failed allocation).
\<close>

theorem bpf_tc_attach_correct:
  assumes "2 \<le> tca_max" and "libbpf_netlink_open env = Inr nl_pid" and "send_ret env = None"
    and "hook_struct hk h" and "opts_struct p t" and "0 < sint (h_ifindex h)" and "t_prog_fd t \<noteq> 0" and "t_prog_id t = 0"
    and "t_priority t \<le> 65535" and "t_flags t \<in> {0, 1}"
    and "point_parent (h_attach_point h) (h_parent h) parent" and "get_info (t_prog_fd t) = Inr (name, prog)" and "length name < 16"
    and "recvs env = r1 @ r2 @ rs" and "dgram tc_ok r1 [x]" and "dgram tc_ok r2 [y]"
    and "filter_msg nl_pid (time_now env) prog_id x" and "tc_echo x" and "ack_msg nl_pid (time_now env) e y"
  shows "\<exists>msg. tc_attach_message msg (time_now env) (t_flags t = 1) (h_ifindex h) (t_handle t) parent (t_priority t) (t_prog_fd t)
      (name @ [58, 91] @ dec_digits (unat prog) @ [93]) \<and>
    ((\<exists>q. bpf_tc_attach tca_max get_info env allocs (Some hk) (Some p) = Some (Some (sint e, Some msg, Some q)) \<and> opts_filter q prog_id x) \<or>
     (\<exists>k q. \<not> allocs k \<and> bpf_tc_attach tca_max get_info env allocs (Some hk) (Some p) = Some (Some (- ENOMEM, Some msg, q))))"
proof -
  let ?xs = "tc_bpf_attrs (t_prog_fd t) name prog"
  note T = assms(5) [unfolded opts_struct_def]
  have fit: "opts_fit p" "28 \<le> o_sz p" using struct_holds_sz(3) [OF T] struct_holds_sz(2) [OF T, of 28] by simp_all
  obtain req where req: "tc_attach_req get_info h t = Some (0, req)" "length req = nla_req_size" "load32 req 0 = Some (of_nat (48 + attrs_size ?xs))"
    "48 + attrs_size ?xs \<le> nla_req_size" "\<forall>seq msg. stamped req seq msg \<longrightarrow> tc_attach_sent msg seq h t parent ?xs"
    using tc_attach_req_ok [OF tc_get_tcm_parent_point [OF assms(11)], where get_info = get_info and t = t and name = name and prog = prog] assms(12,13)
    by blast
  obtain q where q: "run_dgrams tc_step nl_pid (time_now env) [[x], [y]] \<lparr>c_opts = Some p, c_processed = False\<rparr> =
      Some (sint e, \<lparr>c_opts = Some q, c_processed = True\<rparr>)" "opts_filter q prog_id x"
    using run_echo [OF assms(17) fit assms(18,19)] by blast
  have l: "list_all2 (dgram tc_ok) [r1, r2] [[x], [y]]" "recvs env = concat [r1, r2] @ rs" using assms(14-16) by simp_all
  have "t_flags t AND NOT BPF_TC_F_REPLACE = 0" using assms(10) by (auto simp: BPF_TC_F_REPLACE_def)
  then have eq: "bpf_tc_attach tca_max get_info env allocs (Some hk) (Some p) = tc_exchange tca_max env allocs req (Some p)"
    using assms(6-8) leD [OF assms(9)] req(1) structs_args [OF assms(4,5)] by (simp add: bpf_tc_attach_def)
  show ?thesis
    using exchange_answered [OF assms(1-3) req(2-4) l q(1) fit(1), of allocs] q(2) req(5) tc_attach_message_sent [OF _ assms(10), of _ "time_now env" h parent name prog]
    unfolding eq prog_label_def by blast
qed

section \<open>A query and its answer\<close>

definition tc_query_message :: "bytes \<Rightarrow> u32 \<Rightarrow> tc_hook_fields \<Rightarrow> tc_opts_fields \<Rightarrow> u32 \<Rightarrow> bool" where
  "tc_query_message msg seq h t parent \<longleftrightarrow> load32 msg 0 = Some (of_nat (length msg)) \<and> load32 msg 8 = Some seq \<and> load32 msg 12 = Some 0 \<and>
     tc_headers msg RTM_GETTFILTER NLM_F_REQUEST (h_ifindex h) (t_handle t) parent (tcm_info_of (t_priority t)) \<and>
     dec_attrs (drop 36 msg) = [(TCA_KIND, str_bpf)]"

lemma tc_query_req_ok:
  assumes "tc_get_tcm_parent (h_attach_point h) (h_parent h) = (0, parent)"
  shows "\<exists>req. tc_query_req h t = Some (0, req) \<and> length req = nla_req_size \<and> load32 req 0 = Some (of_nat 44) \<and>
    (\<forall>seq msg. stamped req seq msg \<longrightarrow> tc_query_message msg seq h t parent)"
proof -
  let ?hd = "\<lambda>m. tc_headers m RTM_GETTFILTER NLM_F_REQUEST (h_ifindex h) (t_handle t) parent (tcm_info_of (t_priority t))"
  obtain r0 where r0: "tc_base RTM_GETTFILTER NLM_F_REQUEST (h_ifindex h) (t_handle t) parent (tcm_info_of (t_priority t)) = Some r0"
    "length r0 = nla_req_size" "load32 r0 0 = Some (of_nat 36)" "?hd r0"
    using tc_base_ok by blast
  obtain r1 where r1: "nlattr_add r0 (int TCA_KIND) (Some str_bpf) 4 = Some (0, r1)" "length r1 = nla_req_size" "load32 r1 0 = Some (of_nat 44)"
    "attr_at r1 36 TCA_KIND str_bpf" "?hd r1"
    using tc_kind_added [OF r0(2-4)] by blast
  have l0: "16 \<le> (44 :: nat)" "44 \<le> length r1" "44 < (2 ^ 31 :: nat)" using r1(2) by (simp_all add: nla_req_size_def)
  have "tc_query_message msg seq h t parent" if st: "stamped r1 seq msg" for seq msg
  proof -
    note f = stamped_facts [OF st r1(3) l0]
    have as: "36 + attrs_size [(TCA_KIND, str_bpf)] = 44" by (simp add: str_bpf_simps)
    have "dec_attrs (drop 36 msg) = map (\<lambda>(ty, d). (ty mod 2 ^ 14, d)) [(TCA_KIND, str_bpf)]"
      by (rule stamped_attrs [OF st]) (unfold as, use r1(3,4) l0(2) in \<open>auto simp: str_bpf_simps TCA_KIND_def\<close>)
    then have "dec_attrs (drop 36 msg) = [(TCA_KIND, str_bpf)]" by (simp add: TCA_KIND_def)
    moreover have "?hd msg" by (rule tc_headers_cong [OF r1(5)]) (use f(1,4) l0 in auto)
    moreover have "load32 msg 0 = Some (of_nat (length msg))" using stamped_loads(1) [OF st r1(3) l0, of 0] r1(3) f(1) by simp
    ultimately show ?thesis unfolding tc_query_message_def using f(2,3) by blast
  qed
  moreover have "tc_query_req h t = Some (0, r1)" using r0(1) r1(1) assms by (auto simp: tc_query_req_def tc_base_def bind_eq_Some_conv)
  ultimately show ?thesis using r1(2,3) by blast
qed

lemma run_answer:
  assumes "filter_msg nl_pid seq prog x" and "opts_fit p" and "28 \<le> o_sz p" and "\<not> tc_echo x"
  shows "\<exists>q. run_dgrams tc_step nl_pid seq [[x]] \<lparr>c_opts = Some p, c_processed = False\<rparr> =
    Some (0, \<lparr>c_opts = Some q, c_processed = True\<rparr>) \<and> opts_filter q prog x"
  using tc_step_filter [OF assms(1-3)] assms(1,4)
  by (auto simp: step_msg_def filter_msg_def Let_def NL_NEXT_def NL_CONT_def NL_DONE_def)

text \<open>
  The same for \<open>bpf_tc_query\<close>, with the message of the kernel on the filter that was asked for.
\<close>

theorem bpf_tc_query_correct:
  assumes "2 \<le> tca_max" and "libbpf_netlink_open env = Inr nl_pid" and "send_ret env = None"
    and "tc_args hook (Some p) = Some (Some (h, t))" and "0 < sint (h_ifindex h)" and "t_flags t = 0" and "t_prog_fd t = 0" and "t_prog_id t = 0"
    and "t_handle t \<noteq> 0" and "t_priority t \<noteq> 0" and "t_priority t \<le> 65535"
    and "tc_get_tcm_parent (h_attach_point h) (h_parent h) = (0, parent)" and "opts_fit p" and "28 \<le> o_sz p"
    and "recvs env = r @ rs" and "dgram tc_ok r [x]" and "filter_msg nl_pid (time_now env) prog_id x" and "\<not> tc_echo x"
  shows "\<exists>msg. tc_query_message msg (time_now env) h t parent \<and>
    ((\<exists>q. bpf_tc_query tca_max env allocs hook (Some p) = Some (Some (0, Some msg, Some q)) \<and> opts_filter q prog_id x) \<or>
     (\<exists>k q. \<not> allocs k \<and> bpf_tc_query tca_max env allocs hook (Some p) = Some (Some (- ENOMEM, Some msg, q))))"
proof -
  obtain req where req: "tc_query_req h t = Some (0, req)" "length req = nla_req_size" "load32 req 0 = Some (of_nat 44)"
    "\<forall>seq msg. stamped req seq msg \<longrightarrow> tc_query_message msg seq h t parent"
    using tc_query_req_ok [OF assms(12)] by blast
  obtain q where q: "run_dgrams tc_step nl_pid (time_now env) [[x]] \<lparr>c_opts = Some p, c_processed = False\<rparr> =
      Some (0, \<lparr>c_opts = Some q, c_processed = True\<rparr>)" "opts_filter q prog_id x"
    using run_answer [OF assms(17,13,14,18)] by blast
  have l: "list_all2 (dgram tc_ok) [r] [[x]]" "recvs env = concat [r] @ rs" "44 \<le> nla_req_size" using assms(15,16) by (simp_all add: nla_req_size_def)
  have eq: "bpf_tc_query tca_max env allocs hook (Some p) = tc_exchange tca_max env allocs req (Some p)"
    using assms(4-10) leD [OF assms(11)] req(1) by (simp add: bpf_tc_query_def)
  show ?thesis
    using exchange_answered [OF assms(1-3) req(2,3) l(3,1,2) q(1) assms(13), of allocs] q(2) req(4) unfolding eq by blast
qed

text \<open>The program 4, with name \<open>x\<close> and number 7, is attached to the ingress of the interface 2; the kernel chooses handle 1 and priority 49152.\<close>

definition demo_hook :: opts where
  "demo_hook = \<lparr>o_sz = 24, o_mem = [24, 0, 0, 0, 0, 0, 0, 0, 2, 0, 0, 0, 1, 0, 0, 0, 0, 0, 0, 0, 0, 0, 0, 0]\<rparr>"

definition demo_tc_opts :: opts where
  "demo_tc_opts = \<lparr>o_sz = 32, o_mem = [32, 0, 0, 0, 0, 0, 0, 0, 4, 0, 0, 0] @ replicate 20 0\<rparr>"

definition demo_h :: tc_hook_fields where "demo_h = \<lparr>h_ifindex = 2, h_parent = 0, h_attach_point = 1\<rparr>"

definition demo_t :: tc_opts_fields where "demo_t = \<lparr>t_handle = 0, t_priority = 0, t_prog_fd = 4, t_prog_id = 0, t_flags = 0\<rparr>"

definition demo_tc_attrs :: bytes where "demo_tc_attrs = [8, 0, 1, 0, 98, 112, 102, 0, 12, 0, 2, 0, 8, 0, 11, 0, 7, 0, 0, 0]"

definition demo_echo :: nlmsg where
  "demo_echo = \<lparr>n_type = 44, n_flags = 8, n_seq = 5, n_pid = 9,
     n_data = [0, 0, 0, 0, 2, 0, 0, 0, 1, 0, 0, 0, 242, 255, 255, 255, 0, 3, 0, 192] @ demo_tc_attrs\<rparr>"

definition demo_tc_ack :: nlmsg where "demo_tc_ack = \<lparr>n_type = 2, n_flags = 0, n_seq = 5, n_pid = 9, n_data = [0, 0, 0, 0]\<rparr>"

definition demo_echo_dgram :: bytes where "demo_echo_dgram = [56, 0, 0, 0, 44, 0, 8, 0, 5, 0, 0, 0, 9, 0, 0, 0] @ n_data demo_echo"

definition demo_tc_ack_dgram :: bytes where "demo_tc_ack_dgram = [20, 0, 0, 0, 2, 0, 0, 0, 5, 0, 0, 0, 9, 0, 0, 0, 0, 0, 0, 0]"

definition demo_echo_recvs :: "recv list" where "demo_echo_recvs = [Received 56 [], Received 56 demo_echo_dgram]"

definition demo_tc_ack_recvs :: "recv list" where "demo_tc_ack_recvs = [Received 20 [], Received 20 demo_tc_ack_dgram]"

definition demo_tc_env :: nl_env where "demo_tc_env = demo_env\<lparr>recvs := demo_echo_recvs @ demo_tc_ack_recvs\<rparr>"

lemma demo_structs: "hook_struct demo_hook demo_h" "opts_struct demo_tc_opts demo_t"
proof -
  show "hook_struct demo_hook demo_h"
    by (simp add: hook_struct_def struct_holds_def demo_hook_def demo_h_def load32_def nth_Cons')
  show "opts_struct demo_tc_opts demo_t"
    by (simp add: opts_struct_def struct_holds_def demo_tc_opts_def demo_t_def load32_def nth_append nth_Cons') auto
qed

lemma demo_echo_attrs: "tc_attr demo_echo TCA_KIND = Some str_bpf" "tc_attr demo_echo TCA_OPTIONS = Some [8, 0, 11, 0, 7, 0, 0, 0]"
  "attr_of [8, 0, 11, 0, 7, 0, 0, 0] TCA_BPF_ID = Some [7, 0, 0, 0]"
  by (simp_all add: tc_attr_def attr_of_def demo_echo_def demo_tc_attrs_def dec_attrs.simps load16_def Let_def tca_defs str_bpf_def)

lemma demo_tc_delivered: "dgram tc_ok demo_echo_recvs [demo_echo]" "dgram tc_ok demo_tc_ack_recvs [demo_tc_ack]"
proof -
  have "msgs_at demo_echo_dgram 0 [demo_echo]"
    by (simp add: demo_echo_dgram_def demo_echo_def demo_tc_attrs_def msg_at_def msg_size_def load32_def load16_def load_bytes_def)
  moreover have "delivery demo_echo_recvs demo_echo_dgram" unfolding delivery_def
    by (intro exI [of _ "[]"]) (simp add: demo_echo_recvs_def demo_echo_dgram_def demo_echo_def demo_tc_attrs_def)
  moreover have "tc_ok demo_echo"
    by (simp add: tc_ok_def demo_echo_attrs has_size_def) (simp add: demo_echo_def demo_tc_attrs_def)
  ultimately show "dgram tc_ok demo_echo_recvs [demo_echo]"
    unfolding dgram_def by (auto simp: msg_ok_def ext_ack_def demo_echo_dgram_def demo_echo_def demo_tc_attrs_def NLMSG_ERROR_def)
  have "msgs_at demo_tc_ack_dgram 0 [demo_tc_ack]"
    by (simp add: demo_tc_ack_dgram_def demo_tc_ack_def msg_at_def msg_size_def load32_def load16_def load_bytes_def)
  moreover have "delivery demo_tc_ack_recvs demo_tc_ack_dgram" unfolding delivery_def
    by (intro exI [of _ "[]"]) (simp add: demo_tc_ack_recvs_def demo_tc_ack_dgram_def)
  ultimately show "dgram tc_ok demo_tc_ack_recvs [demo_tc_ack]"
    unfolding dgram_def by (auto simp: msg_ok_def ext_ack_def demo_tc_ack_dgram_def demo_tc_ack_def NLMSG_ERROR_def)
qed

theorem bpf_tc_attach_correct_witness:
  "\<exists>msg q. bpf_tc_attach 16 (\<lambda>_. Inr ([120], 7)) demo_tc_env (\<lambda>_. True) (Some demo_hook) (Some demo_tc_opts) = Some (Some (0, Some msg, Some q)) \<and>
     load32 msg 28 = Some 0xFFFFFFF2 \<and> load32 msg 32 = Some 0x300 \<and> load32 (o_mem q) 16 = Some 7 \<and> load32 (o_mem q) 20 = Some 1 \<and> load32 (o_mem q) 24 = Some 49152"
proof -
  have o: "libbpf_netlink_open demo_tc_env = Inr 9" "send_ret demo_tc_env = None" and t: "time_now demo_tc_env = 5"
    by (simp_all add: libbpf_netlink_open_def demo_tc_env_def demo_env_def)
  have h: "0 < sint (h_ifindex demo_h)" "t_prog_fd demo_t \<noteq> 0" "t_prog_id demo_t = 0" "t_priority demo_t \<le> 65535" "t_flags demo_t \<in> {0, 1}"
    by (simp_all add: demo_h_def demo_t_def)
  have pa: "point_parent (h_attach_point demo_h) (h_parent demo_h) 0xFFFFFFF2" by (simp add: demo_h_def point_parent_def)
  have g: "(\<lambda>_. Inr ([120], 7)) (t_prog_fd demo_t) = (Inr ([120], 7) :: int + bytes \<times> u32)" "length [120 :: u8] < 16" by simp_all
  have r: "recvs demo_tc_env = demo_echo_recvs @ demo_tc_ack_recvs @ []" by (simp add: demo_tc_env_def)
  have f: "filter_msg 9 (time_now demo_tc_env) 7 demo_echo" unfolding t
    by (simp add: filter_msg_def demo_echo_attrs load32_def) (simp add: demo_echo_def NLMSG_ERROR_def NLMSG_DONE_def)
  have e: "tc_echo demo_echo" by (simp add: tc_echo_def demo_echo_def NLM_F_ECHO_def)
  have a: "ack_msg 9 (time_now demo_tc_env) 0 demo_tc_ack" unfolding t by (simp add: ack_msg_def demo_tc_ack_def NLMSG_ERROR_def load32_def)
  have w: "tc_word demo_echo 8 = 1" "tc_word demo_echo 16 = 0xC0000300" by (simp_all add: tc_word_def demo_echo_def load32_def)
  have "(2 :: int) \<le> 16" by simp
  from bpf_tc_attach_correct [OF this o demo_structs h pa g r demo_tc_delivered f e a, of "\<lambda>_. True"]
  obtain msg q where "bpf_tc_attach 16 (\<lambda>_. Inr ([120], 7)) demo_tc_env (\<lambda>_. True) (Some demo_hook) (Some demo_tc_opts) = Some (Some (sint (0 :: u32), Some msg, Some q))"
    "opts_filter q 7 demo_echo" "load32 msg 28 = Some 0xFFFFFFF2" "load32 msg 32 = Some 0x300"
    by (auto simp: tc_attach_message_def demo_t_def)
  then show ?thesis using w by (auto simp: opts_filter_def)
qed

end
