(* ===== verification/Btf_Types.thy ===== *)
theory Btf_Types
  imports Strset
begin

text \<open>
  The type section of a BTF object (\<^verbatim>\<open>libbpf/src/btf.c\<close>): loading an object from bytes of
  either byte order, the index of its types, and the queries on it.

  The types lie one behind the other in the bytes of the type section; each starts with
  the three words of \<^verbatim>\<open>struct btf_type\<close>, and its kind says what follows.  An object may extend
  a base object, whose types and strings come first.  The fields of \<^verbatim>\<open>struct btf\<close> are split in
  those of the strings (\<open>btf\<close> of \<open>Strset\<close>) and those of the types (\<open>btf_types\<close>), each with
  its chain of base objects.  \<open>None\<close> is an access outside the memory of an object, or through
  a null pointer.
\<close>

section \<open>Layout: linux/btf.h and btf.h\<close>

record btf_header =
  magic :: u16
  version :: u8
  flags :: u8
  hdr_len :: u32
  type_off :: u32
  type_len :: u32
  str_off :: u32
  str_len :: u32

datatype btf_kinds = BTF_KIND_UNKN | BTF_KIND_INT | BTF_KIND_PTR | BTF_KIND_ARRAY | BTF_KIND_STRUCT | BTF_KIND_UNION |
  BTF_KIND_ENUM | BTF_KIND_FWD | BTF_KIND_TYPEDEF | BTF_KIND_VOLATILE | BTF_KIND_CONST | BTF_KIND_RESTRICT |
  BTF_KIND_FUNC | BTF_KIND_FUNC_PROTO | BTF_KIND_VAR | BTF_KIND_DATASEC | BTF_KIND_FLOAT | BTF_KIND_DECL_TAG |
  BTF_KIND_TYPE_TAG | BTF_KIND_ENUM64 | Kind_other nat

definition btf_kind_list :: "btf_kinds list" where
  "btf_kind_list = [BTF_KIND_UNKN, BTF_KIND_INT, BTF_KIND_PTR, BTF_KIND_ARRAY, BTF_KIND_STRUCT, BTF_KIND_UNION,
     BTF_KIND_ENUM, BTF_KIND_FWD, BTF_KIND_TYPEDEF, BTF_KIND_VOLATILE, BTF_KIND_CONST, BTF_KIND_RESTRICT,
     BTF_KIND_FUNC, BTF_KIND_FUNC_PROTO, BTF_KIND_VAR, BTF_KIND_DATASEC, BTF_KIND_FLOAT, BTF_KIND_DECL_TAG,
     BTF_KIND_TYPE_TAG, BTF_KIND_ENUM64]"

definition kind_of_num :: "nat \<Rightarrow> btf_kinds" where
  "kind_of_num k = (if k < length btf_kind_list then btf_kind_list ! k else Kind_other k)"

definition BTF_MAGIC :: u16 where "BTF_MAGIC = 0xeB9F"
definition BTF_VERSION :: u8 where "BTF_VERSION = 1"
definition BTF_MAX_NR_TYPES :: nat where "BTF_MAX_NR_TYPES = 0x7fffffff"

definition BTF_INFO_KIND :: "u32 \<Rightarrow> u32" where "BTF_INFO_KIND info = drop_bit 24 info AND 0x1f"
definition BTF_INFO_VLEN :: "u32 \<Rightarrow> u32" where "BTF_INFO_VLEN info = info AND 0xffff"
definition BTF_INFO_KFLAG :: "u32 \<Rightarrow> u32" where "BTF_INFO_KFLAG info = drop_bit 31 info"

abbreviation bswap_16 :: "u16 \<Rightarrow> u16" where "bswap_16 \<equiv> bpf_swab16"
abbreviation bswap_32 :: "u32 \<Rightarrow> u32" where "bswap_32 \<equiv> bpf_swab32"

text \<open>A pointer to a type: the static \<^verbatim>\<open>btf_void\<close>, all zero, or an offset in a type section.\<close>

datatype type_ptr = Void | At bytes nat

fun t_word :: "type_ptr \<Rightarrow> nat \<Rightarrow> u32 option" where
  "t_word Void k = load32 (replicate 12 0) k"
| "t_word (At m p) k = load32 m (p + k)"

definition t_name_off :: "type_ptr \<Rightarrow> u32 option" where "t_name_off t = t_word t 0"
definition t_info :: "type_ptr \<Rightarrow> u32 option" where "t_info t = t_word t 4"
definition t_size :: "type_ptr \<Rightarrow> u32 option" where "t_size t = t_word t 8"
definition t_type :: "type_ptr \<Rightarrow> u32 option" where "t_type t = t_word t 8"

definition btf_kind :: "type_ptr \<Rightarrow> btf_kinds option" where
  "btf_kind t = map_option (\<lambda>info. kind_of_num (unat (BTF_INFO_KIND info))) (t_info t)"

definition btf_vlen :: "type_ptr \<Rightarrow> nat option" where
  "btf_vlen t = map_option (\<lambda>info. unat (BTF_INFO_VLEN info)) (t_info t)"

definition btf_kflag :: "type_ptr \<Rightarrow> bool option" where
  "btf_kflag t = map_option (\<lambda>info. BTF_INFO_KFLAG info \<noteq> 0) (t_info t)"

definition btf_is_int :: "type_ptr \<Rightarrow> bool option" where
  "btf_is_int t = map_option (\<lambda>k. k = BTF_KIND_INT) (btf_kind t)"

definition btf_is_fwd :: "type_ptr \<Rightarrow> bool option" where
  "btf_is_fwd t = map_option (\<lambda>k. k = BTF_KIND_FWD) (btf_kind t)"

definition btf_is_typedef :: "type_ptr \<Rightarrow> bool option" where
  "btf_is_typedef t = map_option (\<lambda>k. k = BTF_KIND_TYPEDEF) (btf_kind t)"

definition btf_is_var :: "type_ptr \<Rightarrow> bool option" where
  "btf_is_var t = map_option (\<lambda>k. k = BTF_KIND_VAR) (btf_kind t)"

definition btf_is_mod :: "type_ptr \<Rightarrow> bool option" where
  "btf_is_mod t = map_option (\<lambda>kind. kind = BTF_KIND_VOLATILE \<or> kind = BTF_KIND_CONST \<or> kind = BTF_KIND_RESTRICT \<or>
     kind = BTF_KIND_TYPE_TAG) (btf_kind t)"

section \<open>The object\<close>

text \<open>The bytes of a header behind the fields that are known, when \<^verbatim>\<open>hdr_len\<close> says that there are any, are \<open>hdr_more\<close>.\<close>

record btf_sec =
  hdr :: btf_header
  hdr_more :: bytes
  raw_data :: "bytes option"
  raw_data_swapped :: "bytes option"
  raw_size :: u32
  swapped_endian :: bool
  types_data :: bytes
  types_data_cap :: nat
  type_offs :: "u32 list"
  type_offs_cap :: nat
  nr_types :: u32
  start_id :: u32
  ptr_sz :: int

datatype btf_types = Types (types_base: "btf_types option") (types_sec: btf_sec)

record btf_obj =
  ostrs :: btf
  otys :: btf_types

definition btf__type_cnt :: "btf_types \<Rightarrow> u32" where
  "btf__type_cnt b = start_id (types_sec b) + nr_types (types_sec b)"

fun btf_type_by_id :: "btf_types \<Rightarrow> u32 \<Rightarrow> type_ptr option" where
  "btf_type_by_id (Types base s) type_id =
     (if type_id = 0 then Some Void
      else if type_id < start_id s then (case base of None \<Rightarrow> None | Some b \<Rightarrow> btf_type_by_id b type_id)
      else let i = unat (type_id - start_id s)
           in if i < length (type_offs s) then Some (At (types_data s) (unat (type_offs s ! i))) else None)"

text \<open>\<open>Some None\<close> is the null pointer.\<close>

definition btf__type_by_id :: "btf_types \<Rightarrow> u32 \<Rightarrow> type_ptr option option" where
  "btf__type_by_id b type_id =
     (if type_id \<ge> start_id (types_sec b) + nr_types (types_sec b) then Some None
      else map_option Some (btf_type_by_id b type_id))"

section \<open>Loading an object\<close>

subsection \<open>The header\<close>

definition load_hdr :: "bytes \<Rightarrow> btf_header option" where
  "load_hdr m = do {
     magic \<leftarrow> load16 m 0;
     version \<leftarrow> load8 m 2;
     flags \<leftarrow> load8 m 3;
     hdr_len \<leftarrow> load32 m 4;
     type_off \<leftarrow> load32 m 8;
     type_len \<leftarrow> load32 m 12;
     str_off \<leftarrow> load32 m 16;
     str_len \<leftarrow> load32 m 20;
     Some \<lparr>magic = magic, version = version, flags = flags, hdr_len = hdr_len, type_off = type_off,
       type_len = type_len, str_off = str_off, str_len = str_len\<rparr>
   }"

definition bswap_field :: "bytes \<Rightarrow> nat \<Rightarrow> bytes option" where
  "bswap_field m a = do { v \<leftarrow> load32 m a; store32 m a (bswap_32 v) }"

definition btf_bswap_hdr :: "bytes \<Rightarrow> bytes option" where
  "btf_bswap_hdr m = do {
     magic \<leftarrow> load16 m 0;
     m \<leftarrow> store16 m 0 (bswap_16 magic);
     m \<leftarrow> bswap_field m 4;
     m \<leftarrow> bswap_field m 8;
     m \<leftarrow> bswap_field m 12;
     m \<leftarrow> bswap_field m 16;
     bswap_field m 20
   }"

definition ENOTSUP :: int where "ENOTSUP = 95"

text \<open>The checks behind the byte order; the sums are of type \<^verbatim>\<open>long long\<close>.\<close>

definition btf_check_hdr :: "nat \<Rightarrow> btf_header \<Rightarrow> int" where
  "btf_check_hdr rsize h =
     (if rsize < unat (hdr_len h) then - EINVAL
      else
        let meta_left = rsize - unat (hdr_len h)
        in if meta_left < unat (str_off h) + unat (str_len h) then - EINVAL
           else if unat (type_off h) + unat (type_len h) > unat (str_off h) then - EINVAL
           else if type_off h mod 4 \<noteq> 0 then - EINVAL
           else 0)"

text \<open>The result, the raw data with its header in native order, and whether the order was the other one.\<close>

definition btf_parse_hdr :: "bytes \<Rightarrow> (int \<times> bytes \<times> bool) option" where
  "btf_parse_hdr raw =
     (if length raw < 24 then Some (- EINVAL, raw, False)
      else do {
        hdr \<leftarrow> load_hdr raw;
        if magic hdr = bswap_16 BTF_MAGIC then
          if bswap_32 (hdr_len hdr) \<noteq> 24 then Some (- ENOTSUP, raw, True)
          else do {
            raw \<leftarrow> btf_bswap_hdr raw;
            hdr \<leftarrow> load_hdr raw;
            Some (btf_check_hdr (length raw) hdr, raw, True)
          }
        else if magic hdr \<noteq> BTF_MAGIC then Some (- EINVAL, raw, False)
        else Some (btf_check_hdr (length raw) hdr, raw, False)
      })"

subsection \<open>The strings\<close>

definition chars_of :: "bytes \<Rightarrow> string" where
  "chars_of m = map (\<lambda>b. char_of (unat b)) m"

definition btf_parse_str_sec :: "bool \<Rightarrow> btf_header \<Rightarrow> string \<Rightarrow> int option" where
  "btf_parse_str_sec has_base h d =
     (let len = unat (str_len h)
      in if has_base \<and> len = 0 then Some 0
         else if len = 0 \<or> len - 1 > BTF_MAX_STR_OFFSET then Some (- EINVAL)
         else if length d < len then None
         else if d ! (len - 1) \<noteq> NUL then Some (- EINVAL)
         else if \<not> has_base \<and> d ! 0 \<noteq> NUL then Some (- EINVAL)
         else Some 0)"

subsection \<open>The types\<close>

definition btf_type_size :: "type_ptr \<Rightarrow> int option" where
  "btf_type_size t = do {
     vlen \<leftarrow> btf_vlen t;
     kind \<leftarrow> btf_kind t;
     Some (case kind of
         BTF_KIND_FWD \<Rightarrow> 12
       | BTF_KIND_CONST \<Rightarrow> 12
       | BTF_KIND_VOLATILE \<Rightarrow> 12
       | BTF_KIND_RESTRICT \<Rightarrow> 12
       | BTF_KIND_PTR \<Rightarrow> 12
       | BTF_KIND_TYPEDEF \<Rightarrow> 12
       | BTF_KIND_FUNC \<Rightarrow> 12
       | BTF_KIND_FLOAT \<Rightarrow> 12
       | BTF_KIND_TYPE_TAG \<Rightarrow> 12
       | BTF_KIND_INT \<Rightarrow> 12 + 4
       | BTF_KIND_ENUM \<Rightarrow> 12 + int vlen * 8
       | BTF_KIND_ENUM64 \<Rightarrow> 12 + int vlen * 12
       | BTF_KIND_ARRAY \<Rightarrow> 12 + 12
       | BTF_KIND_STRUCT \<Rightarrow> 12 + int vlen * 12
       | BTF_KIND_UNION \<Rightarrow> 12 + int vlen * 12
       | BTF_KIND_FUNC_PROTO \<Rightarrow> 12 + int vlen * 8
       | BTF_KIND_VAR \<Rightarrow> 12 + 4
       | BTF_KIND_DATASEC \<Rightarrow> 12 + int vlen * 12
       | BTF_KIND_DECL_TAG \<Rightarrow> 12 + 4
       | BTF_KIND_UNKN \<Rightarrow> - EINVAL
       | Kind_other k \<Rightarrow> - EINVAL)
   }"

definition btf_bswap_type_base :: "bytes \<Rightarrow> nat \<Rightarrow> bytes option" where
  "btf_bswap_type_base m p = do {
     m \<leftarrow> bswap_field m p;
     m \<leftarrow> bswap_field m (p + 4);
     bswap_field m (p + 8)
   }"

text \<open>The loops over the elements behind a type, of two and of three words.\<close>

fun bswap_pairs :: "bytes \<Rightarrow> nat \<Rightarrow> nat \<Rightarrow> bytes option" where
  "bswap_pairs m p 0 = Some m"
| "bswap_pairs m p (Suc n) = do {
     m \<leftarrow> bswap_field m p;
     m \<leftarrow> bswap_field m (p + 4);
     bswap_pairs m (p + 8) n
   }"

fun bswap_triples :: "bytes \<Rightarrow> nat \<Rightarrow> nat \<Rightarrow> bytes option" where
  "bswap_triples m p 0 = Some m"
| "bswap_triples m p (Suc n) = do {
     m \<leftarrow> bswap_field m p;
     m \<leftarrow> bswap_field m (p + 4);
     m \<leftarrow> bswap_field m (p + 8);
     bswap_triples m (p + 12) n
   }"

definition btf_bswap_type_rest :: "bytes \<Rightarrow> nat \<Rightarrow> (int \<times> bytes) option" where
  "btf_bswap_type_rest m p = do {
     vlen \<leftarrow> btf_vlen (At m p);
     kind \<leftarrow> btf_kind (At m p);
     case kind of
       BTF_KIND_FWD \<Rightarrow> Some (0, m)
     | BTF_KIND_CONST \<Rightarrow> Some (0, m)
     | BTF_KIND_VOLATILE \<Rightarrow> Some (0, m)
     | BTF_KIND_RESTRICT \<Rightarrow> Some (0, m)
     | BTF_KIND_PTR \<Rightarrow> Some (0, m)
     | BTF_KIND_TYPEDEF \<Rightarrow> Some (0, m)
     | BTF_KIND_FUNC \<Rightarrow> Some (0, m)
     | BTF_KIND_FLOAT \<Rightarrow> Some (0, m)
     | BTF_KIND_TYPE_TAG \<Rightarrow> Some (0, m)
     | BTF_KIND_INT \<Rightarrow> map_option (Pair 0) (bswap_field m (p + 12))
     | BTF_KIND_ENUM \<Rightarrow> map_option (Pair 0) (bswap_pairs m (p + 12) vlen)
     | BTF_KIND_ENUM64 \<Rightarrow> map_option (Pair 0) (bswap_triples m (p + 12) vlen)
     | BTF_KIND_ARRAY \<Rightarrow> do {
         m \<leftarrow> bswap_field m (p + 12);
         m \<leftarrow> bswap_field m (p + 16);
         map_option (Pair 0) (bswap_field m (p + 20))
       }
     | BTF_KIND_STRUCT \<Rightarrow> map_option (Pair 0) (bswap_triples m (p + 12) vlen)
     | BTF_KIND_UNION \<Rightarrow> map_option (Pair 0) (bswap_triples m (p + 12) vlen)
     | BTF_KIND_FUNC_PROTO \<Rightarrow> map_option (Pair 0) (bswap_pairs m (p + 12) vlen)
     | BTF_KIND_VAR \<Rightarrow> map_option (Pair 0) (bswap_field m (p + 12))
     | BTF_KIND_DATASEC \<Rightarrow> map_option (Pair 0) (bswap_triples m (p + 12) vlen)
     | BTF_KIND_DECL_TAG \<Rightarrow> map_option (Pair 0) (bswap_field m (p + 12))
     | BTF_KIND_UNKN \<Rightarrow> Some (- EINVAL, m)
     | Kind_other k \<Rightarrow> Some (- EINVAL, m)
   }"

definition btf_add_type_offs_mem :: "bool \<Rightarrow> btf_sec \<Rightarrow> nat \<Rightarrow> btf_sec option" where
  "btf_add_type_offs_mem ok s add_cnt =
     map_option (\<lambda>(offs, cap). s\<lparr>type_offs := offs, type_offs_cap := cap\<rparr>)
       (libbpf_add_mem ok 0 (type_offs s) (type_offs_cap s) 4 (unat (nr_types s)) BTF_MAX_NR_TYPES add_cnt)"

definition btf_add_type_idx_entry :: "bool \<Rightarrow> btf_sec \<Rightarrow> u32 \<Rightarrow> (int \<times> btf_sec) option" where
  "btf_add_type_idx_entry ok s off =
     (case btf_add_type_offs_mem ok s 1 of
        None \<Rightarrow> Some (- ENOMEM, s)
      | Some s \<Rightarrow>
          if unat (nr_types s) < length (type_offs s)
          then Some (0, s\<lparr>type_offs := (type_offs s)[unat (nr_types s) := off]\<rparr>) else None)"

text \<open>
  The loop: \<open>next\<close> is the offset of \<^verbatim>\<open>next_type\<close>, \<open>n\<close> counts the rounds to number the allocations.
  The section is in place in \<open>types_data\<close>.
\<close>

definition swap_base :: "btf_sec \<Rightarrow> nat \<Rightarrow> btf_sec option" where
  "swap_base s p = (if swapped_endian s then map_option (\<lambda>m. s\<lparr>types_data := m\<rparr>) (btf_bswap_type_base (types_data s) p) else Some s)"

definition swap_rest :: "btf_sec \<Rightarrow> nat \<Rightarrow> (int \<times> btf_sec) option" where
  "swap_rest s p = (if swapped_endian s then map_option (\<lambda>(e, m). (e, s\<lparr>types_data := m\<rparr>)) (btf_bswap_type_rest (types_data s) p) else Some (0, s))"

lemma btf_type_size_12: "btf_type_size t = Some n \<Longrightarrow> 0 \<le> n \<Longrightarrow> 12 \<le> n"
  by (auto simp: btf_type_size_def EINVAL_def split: btf_kinds.splits Option.bind_splits)

lemma swap_base_keeps: "swap_base s p = Some s' \<Longrightarrow> \<exists>m. s' = s\<lparr>types_data := m\<rparr>"
  by (auto simp: swap_base_def split: if_splits intro: exI [of _ "types_data s"])

lemma swap_rest_keeps: "swap_rest s p = Some (e, s') \<Longrightarrow> \<exists>m. s' = s\<lparr>types_data := m\<rparr>"
  by (auto simp: swap_rest_def split: if_splits intro: exI [of _ "types_data s"])

lemma btf_add_type_idx_entry_keeps:
  "btf_add_type_idx_entry ok s off = Some (err, s') \<Longrightarrow> \<exists>offs cap. s' = s\<lparr>type_offs := offs, type_offs_cap := cap\<rparr>"
  by (cases s) (auto simp: btf_add_type_idx_entry_def btf_add_type_offs_mem_def split: if_splits option.splits)

function parse_types :: "allocs \<Rightarrow> nat \<Rightarrow> nat \<Rightarrow> btf_sec \<Rightarrow> (int \<times> btf_sec) option" where
  "parse_types ok n nxt s =
     (if nxt + 12 \<le> unat (type_len (hdr s)) then
        case swap_base s nxt of
          None \<Rightarrow> None
        | Some s1 \<Rightarrow> (case btf_type_size (At (types_data s1) nxt) of
            None \<Rightarrow> None
          | Some type_size \<Rightarrow>
              if type_size < 0 then Some (type_size, s1)
              else if nxt + nat type_size > unat (type_len (hdr s)) then Some (- EINVAL, s1)
              else (case swap_rest s1 nxt of
                  None \<Rightarrow> None
                | Some (e, s2) \<Rightarrow>
                    if e \<noteq> 0 then Some (- EINVAL, s2)
                    else (case btf_add_type_idx_entry (ok n) s2 (of_nat nxt) of
                        None \<Rightarrow> None
                      | Some (err, s3) \<Rightarrow>
                          if err \<noteq> 0 then Some (err, s3)
                          else parse_types ok (Suc n) (nxt + nat type_size) (s3\<lparr>nr_types := nr_types s3 + 1\<rparr>))))
      else if nxt \<noteq> unat (type_len (hdr s)) then Some (- EINVAL, s)
      else Some (0, s))"
  by pat_completeness auto

termination
proof (relation "measure (\<lambda>(ok, n, nxt, s). Suc (unat (type_len (hdr s))) - nxt)", goal_cases)
  case (2 ok n nxt s s1 type_size es e s2 fs err s3)
  have "hdr s1 = hdr s" using swap_base_keeps [OF 2(2)] by auto
  moreover have "hdr s2 = hdr s1" using swap_rest_keeps 2 by fastforce
  moreover have "hdr s3 = hdr s2" using btf_add_type_idx_entry_keeps 2 by fastforce
  moreover have "12 \<le> type_size" using btf_type_size_12 2 by force
  ultimately show ?case using 2 by simp
qed simp

declare parse_types.simps [simp del]

definition btf_parse_type_sec :: "allocs \<Rightarrow> btf_sec \<Rightarrow> (int \<times> btf_sec) option" where
  "btf_parse_type_sec ok s = parse_types ok 0 0 s"

text \<open>
  Allocation 0 is the object, 1 the copy of the data, the others are the index.  The sections are
  cut out of the raw data, and the types written back: only a header of 24 bytes, which the type
  section cannot overlap, has types that are swapped.
\<close>

definition btf_new :: "allocs \<Rightarrow> bytes \<Rightarrow> btf_obj option \<Rightarrow> (int + btf_obj) option" where
  "btf_new ok data base =
     (if \<not> ok 0 then Some (Inl (- ENOMEM))
      else if \<not> ok 1 then Some (Inl (- ENOMEM))
      else do {
        (err, raw, swapped) \<leftarrow> btf_parse_hdr data;
        if err \<noteq> 0 then Some (Inl err)
        else do {
          h \<leftarrow> load_hdr raw;
          let types_at = unat (hdr_len h) + unat (type_off h);
          strs \<leftarrow> load_bytes raw (unat (hdr_len h) + unat (str_off h)) (unat (str_len h));
          types \<leftarrow> load_bytes raw types_at (unat (type_len h));
          err \<leftarrow> btf_parse_str_sec (base \<noteq> None) h (chars_of strs);
          if err \<noteq> 0 then Some (Inl err)
          else do {
            let s = \<lparr>hdr = h, hdr_more = take (unat (hdr_len h) - 24) (drop 24 raw), raw_data = None, raw_data_swapped = None, raw_size = of_nat (length data), swapped_endian = swapped,
              types_data = types, types_data_cap = 0, type_offs = [], type_offs_cap = 0, nr_types = 0,
              start_id = (case base of None \<Rightarrow> 1 | Some b \<Rightarrow> btf__type_cnt (otys b)), ptr_sz = 0\<rparr>;
            (err, s) \<leftarrow> btf_parse_type_sec (\<lambda>n. ok (n + 2)) s;
            if err \<noteq> 0 then Some (Inl err)
            else do {
              raw \<leftarrow> memcpy raw types_at (types_data s) (unat (type_len h));
              Some (Inr \<lparr>
                ostrs = Btf (map_option ostrs base) (case base of None \<Rightarrow> 0 | Some b \<Rightarrow> hdr_str_len (ostrs b))
                  (unat (str_len h)) (Inl (chars_of strs)),
                otys = Types (map_option otys base) (s\<lparr>raw_data := Some raw\<rparr>)\<rparr>)
            }
          }
        }
      })"

definition btf__new :: "allocs \<Rightarrow> bytes \<Rightarrow> (int + btf_obj) option" where
  "btf__new ok data = btf_new ok data None"

section \<open>Well-formed objects\<close>

text \<open>\<open>tiled m p offs e\<close>: the types at the offsets \<open>offs\<close> fill the bytes of \<open>m\<close> from \<open>p\<close> to \<open>e\<close>.\<close>

fun tiled :: "bytes \<Rightarrow> nat \<Rightarrow> nat list \<Rightarrow> nat \<Rightarrow> bool" where
  "tiled m p [] e \<longleftrightarrow> p = e"
| "tiled m p (q # qs) e \<longleftrightarrow> q = p \<and>
     (case btf_type_size (At m p) of None \<Rightarrow> False | Some n \<Rightarrow> 0 \<le> n \<and> p + nat n \<le> e \<and> tiled m (p + nat n) qs e)"

definition sec_offs :: "btf_sec \<Rightarrow> nat list" where
  "sec_offs s = map unat (take (unat (nr_types s)) (type_offs s))"

definition sec_ok :: "btf_sec \<Rightarrow> bool" where
  "sec_ok s \<longleftrightarrow> unat (nr_types s) \<le> length (type_offs s) \<and> type_offs_cap s = length (type_offs s) \<and>
     unat (type_len (hdr s)) \<le> length (types_data s) \<and> tiled (types_data s) 0 (sec_offs s) (unat (type_len (hdr s)))"

fun types_ok :: "btf_types \<Rightarrow> bool" where
  "types_ok (Types base s) \<longleftrightarrow> sec_ok s \<and> unat (start_id s) + unat (nr_types s) < 2 ^ 31 \<and>
     (case base of None \<Rightarrow> start_id s = 1 | Some b \<Rightarrow> start_id s = btf__type_cnt b \<and> types_ok b)"

section \<open>Byte order\<close>

text \<open>The reference: swapping consecutive words turns each group of four bytes around.\<close>

fun rev4 :: "bytes \<Rightarrow> bytes" where
  "rev4 (a # b # c # d # m) = d # c # b # a # rev4 m"
| "rev4 m = m"

fun swap_words :: "bytes \<Rightarrow> nat \<Rightarrow> nat \<Rightarrow> bytes option" where
  "swap_words m p 0 = Some m"
| "swap_words m p (Suc n) = do { m \<leftarrow> bswap_field m p; swap_words m (p + 4) n }"

lemma rev4_length [simp]: "length (rev4 m) = length m"
  by (induction m rule: rev4.induct) simp_all

lemma rev4_rev4: "rev4 (rev4 m) = m"
  by (induction m rule: rev4.induct) simp_all

lemma rev4_append: "4 dvd length m \<Longrightarrow> rev4 (m @ m') = rev4 m @ rev4 m'"
proof (induction m rule: rev4.induct)
  case (1 a b c d m)
  have "length (a # b # c # d # m) = length m + 4" by simp
  then have "4 dvd length m" using 1(2) by (metis dvd_add_left_iff dvd_refl)
  then show ?case using 1(1) by simp
qed (use nat_dvd_not_less in auto)

lemma list4:
  assumes "p + 4 \<le> length m"
  obtains a b c d where "m = take p m @ a # b # c # d # drop (p + 4) m"
proof -
  have "m = take p m @ m ! p # m ! (p + 1) # m ! (p + 2) # m ! (p + 3) # drop (p + 4) m"
    using assms by (simp add: Cons_nth_drop_Suc numeral_eq_Suc)
  then show ?thesis using that by blast
qed

lemma le32_bytes:
  fixes w x y z :: u8
  defines "v \<equiv> (ucast w OR push_bit 8 (ucast x) OR push_bit 16 (ucast y) OR push_bit 24 (ucast z) :: u32)"
  shows "ucast v = w" "ucast (drop_bit 8 v) = x" "ucast (drop_bit 16 v) = y" "ucast (drop_bit 24 v) = z"
  unfolding v_def by (rule bit_word_eqI; auto simp: bit_simps dest: bit_imp_le_length)+

lemma bswap_field_at: "bswap_field (xs @ a # b # c # d # ys) (length xs) = Some (xs @ d # c # b # a # ys)"
proof -
  obtain v :: u32 where v: "load32 (xs @ a # b # c # d # ys) (length xs) = Some v"
    "ucast v = a" "ucast (drop_bit 8 v) = b" "ucast (drop_bit 16 v) = c" "ucast (drop_bit 24 v) = d"
  proof (rule that)
    show "load32 (xs @ a # b # c # d # ys) (length xs) =
        Some (ucast a OR push_bit 8 (ucast b) OR push_bit 16 (ucast c) OR push_bit 24 (ucast d))"
      by (simp add: load32_def nth_append)
  qed (rule le32_bytes)+
  show ?thesis
    by (simp add: bswap_field_def v store32_def swab32_byte list_update_append)
qed

lemma swap_words_rev4: "length ys = 4 * n \<Longrightarrow> swap_words (xs @ ys @ zs) (length xs) n = Some (xs @ rev4 ys @ zs)"
proof (induction n arbitrary: xs ys)
  case (Suc n)
  obtain a b c d ys' where ys: "ys = a # b # c # d # ys'" "length ys' = 4 * n"
    using list4 [of 0 ys] Suc.prems by (metis One_nat_def add_diff_cancel_left' append_Nil length_drop le_add1 mult_Suc_right plus_nat.add_0 take_0)
  then show ?case using Suc.IH [of ys' "xs @ [d, c, b, a]"] bswap_field_at [of xs a b c d "ys' @ zs"] by (simp add: numeral_eq_Suc)
qed simp

lemma swap_words_eq:
  assumes "p + 4 * n \<le> length m"
  shows "swap_words m p n = Some (take p m @ rev4 (take (4 * n) (drop p m)) @ drop (p + 4 * n) m)"
  using swap_words_rev4 [of "take (4 * n) (drop p m)" n "take p m" "drop (p + 4 * n) m"] assms
  by (metis (no_types, lifting) add.commute append_take_drop_id drop_drop length_drop length_take min.absorb2 le_diff_conv2 add_leD1)

lemma swap_words_add: "swap_words m p (k + n) = do { m \<leftarrow> swap_words m p k; swap_words m (p + 4 * k) n }"
  by (induction k arbitrary: m p) (simp_all add: Option.bind_assoc add.assoc add.commute)

lemma bswap_pairs_words: "bswap_pairs m p n = swap_words m p (2 * n)"
  by (induction n arbitrary: m p) (simp_all add: Option.bind_assoc numeral_eq_Suc)

lemma bswap_triples_words: "bswap_triples m p n = swap_words m p (3 * n)"
  by (induction n arbitrary: m p) (simp_all add: Option.bind_assoc numeral_eq_Suc)

lemma btf_bswap_type_base_words: "btf_bswap_type_base m p = swap_words m p 3"
  by (simp add: btf_bswap_type_base_def numeral_eq_Suc)

lemma btf_type_size_words:
  assumes "btf_type_size t = Some n" and "0 \<le> n"
  obtains k where "n = 12 + 4 * int k"
proof -
  have "\<exists>k. n = 12 + 4 * int k"
    using assms by (auto simp: btf_type_size_def EINVAL_def split: btf_kinds.splits Option.bind_splits; presburger)
  then show ?thesis using that by blast
qed

lemma btf_bswap_type_rest_words:
  assumes "btf_type_size (At m p) = Some (12 + 4 * int k)"
  shows "btf_bswap_type_rest m p = map_option (Pair 0) (swap_words m (p + 12) k)"
proof -
  obtain vlen kind where "btf_vlen (At m p) = Some vlen" "btf_kind (At m p) = Some kind"
    using assms by (auto simp: btf_type_size_def split: Option.bind_splits)
  moreover have k: "3 * int vlen = int k \<Longrightarrow> k = 3 * vlen" "2 * int vlen = int k \<Longrightarrow> k = 2 * vlen" by simp_all
  ultimately show ?thesis using assms
    by (cases kind; clarsimp simp: btf_type_size_def btf_bswap_type_rest_def bswap_pairs_words bswap_triples_words EINVAL_def
      dest!: k) (simp_all add: numeral_eq_Suc Option.map_conv_bind_option Option.bind_assoc)
qed

lemma btf_type_size_cong: "load32 m (p + 4) = load32 m' (p' + 4) \<Longrightarrow> btf_type_size (At m p) = btf_type_size (At m' p')"
  by (simp add: btf_type_size_def btf_vlen_def btf_kind_def t_info_def)

text \<open>The section when the types below \<open>k\<close> are in native order: \<open>m\<close> is the section as it was loaded.\<close>

definition native :: "bool \<Rightarrow> bytes \<Rightarrow> bytes" where
  "native sw m = (if sw then rev4 m else m)"

definition mixed :: "bool \<Rightarrow> bytes \<Rightarrow> nat \<Rightarrow> bytes" where
  "mixed sw m k = take k (native sw m) @ drop k m"

lemma native_length [simp]: "length (native sw m) = length m"
  by (simp add: native_def)

lemma mixed_length [simp]: "length (mixed sw m k) = length m"
  by (simp add: mixed_def)

lemma mixed_0: "mixed sw m 0 = m"
  by (simp add: mixed_def)

lemma mixed_all: "mixed sw m (length m) = native sw m"
  by (simp add: mixed_def)

lemma rev4_slice:
  assumes "4 dvd a" and "4 dvd b" and "a + b \<le> length m"
  shows "take b (drop a (rev4 m)) = rev4 (take b (drop a m))"
proof -
  have d: "4 dvd length (take a m)" "4 dvd length (take b (drop a m))" using assms by (simp_all add: min.absorb2)
  have "m = take a m @ take b (drop a m) @ drop (a + b) m" by (metis append_take_drop_id drop_drop add.commute)
  then have "rev4 m = rev4 (take a m) @ rev4 (take b (drop a m)) @ rev4 (drop (a + b) m)"
    using d rev4_append by metis
  then show ?thesis using assms(3) by (simp add: min.absorb2)
qed

lemma swap_words_mixed:
  assumes "4 dvd p" and "p + 4 * n \<le> length m"
  shows "swap_words (mixed True m p) p n = Some (mixed True m (p + 4 * n))"
proof -
  have "take (p + 4 * n) (rev4 m) = take p (rev4 m) @ rev4 (take (4 * n) (drop p m))"
    using rev4_slice [of p "4 * n" m] assms by (simp add: take_add)
  moreover have "take p (mixed True m p) = take p (rev4 m)" "drop p (mixed True m p) = drop p m"
    using assms(2) by (simp_all add: mixed_def native_def)
  moreover have "drop (p + 4 * n) (mixed True m p) = drop (p + 4 * n) m"
    by (metis calculation(3) add.commute drop_drop)
  ultimately show ?thesis using assms(2) by (simp add: swap_words_eq) (simp add: mixed_def native_def)
qed

lemma mixed_load: "a + 4 \<le> k \<Longrightarrow> k \<le> length m \<Longrightarrow> load32 (mixed sw m k) a = load32 (native sw m) a"
  by (rule load32_cong) (auto simp: mixed_def nth_append)

lemma swap_base_mixed:
  assumes "types_data s = mixed (swapped_endian s) m p" and "4 dvd p" and "p + 12 \<le> length m"
  shows "swap_base s p = Some (s\<lparr>types_data := mixed (swapped_endian s) m (p + 12)\<rparr>)"
proof (cases "swapped_endian s")
  case True
  then show ?thesis using assms swap_words_mixed [of p 3 m] by (simp add: swap_base_def btf_bswap_type_base_words)
next
  case False
  then have "types_data s = mixed False m (p + 12)" using assms(1) by (simp add: mixed_def native_def)
  then show ?thesis using False by (simp add: swap_base_def)
qed

lemma swap_rest_mixed:
  assumes "types_data s = mixed (swapped_endian s) m (p + 12)" and "4 dvd p" and "p + nat n \<le> length m"
    and "btf_type_size (At (types_data s) p) = Some n" and "0 \<le> n"
  shows "swap_rest s p = Some (0, s\<lparr>types_data := mixed (swapped_endian s) m (p + nat n)\<rparr>)"
proof (cases "swapped_endian s")
  case True
  obtain k where k: "n = 12 + 4 * int k" using btf_type_size_words assms(4,5) by blast
  have "4 dvd p + 12" using assms(2) by simp
  moreover have "p + nat n = p + 12 + 4 * k" using k by simp
  ultimately show ?thesis
    using True assms swap_words_mixed [of "p + 12" k m] btf_bswap_type_rest_words [OF assms(4) [unfolded k]]
    by (simp add: swap_rest_def add.assoc)
next
  case False
  then have "types_data s = mixed False m (p + nat n)" using assms(1) by (simp add: mixed_def native_def)
  then show ?thesis using False by (simp add: swap_rest_def)
qed

section \<open>The index\<close>

lemma libbpf_add_mem_fails:
  assumes "libbpf_add_mem ok zero data cap_cnt elem_sz cur_cnt max_cnt add_cnt = None"
    and "cur_cnt + add_cnt < 2 ^ 64" and "max_cnt * elem_sz < 2 ^ 64"
  shows "\<not> ok \<or> max_cnt < cur_cnt + add_cnt"
proof (rule ccontr)
  assume *: "\<not> ?thesis"
  then obtain n where "reallocarray_fails ok n elem_sz" "n \<le> max_cnt"
    using assms(1,2) by (auto simp: libbpf_add_mem_def Let_def split: if_splits)
  then have "n * elem_sz < 2 ^ 64" using assms(3) by (meson le_less_trans mult_le_mono1)
  then show False using * \<open>reallocarray_fails ok n elem_sz\<close> by (simp add: reallocarray_fails_def)
qed

definition index_room :: "btf_sec \<Rightarrow> bool" where
  "index_room s \<longleftrightarrow> type_offs_cap s = length (type_offs s) \<and> unat (nr_types s) \<le> length (type_offs s) \<and> unat (nr_types s) < BTF_MAX_NR_TYPES"

lemma btf_add_type_idx_entry_cases:
  assumes "index_room s"
  obtains (fail) "btf_add_type_idx_entry ok s off = Some (- ENOMEM, s)" "\<not> ok"
  | (entry) offs where "btf_add_type_idx_entry ok s off = Some (0, s\<lparr>type_offs := offs, type_offs_cap := length offs\<rparr>)"
      "unat (nr_types s) < length offs" "take (Suc (unat (nr_types s))) offs = take (unat (nr_types s)) (type_offs s) @ [off]"
proof -
  let ?n = "unat (nr_types s)"
  let ?mem = "libbpf_add_mem ok 0 (type_offs s) (type_offs_cap s) 4 ?n BTF_MAX_NR_TYPES 1"
  have lt: "?n + 1 < 2 ^ 64" and n: "?n \<le> length (type_offs s)" "?n < BTF_MAX_NR_TYPES" "type_offs_cap s = length (type_offs s)"
    using assms unat_u32 [of "nr_types s"] by (simp_all add: index_room_def)
  show ?thesis
  proof (cases ?mem)
    case None
    then have "\<not> ok" using libbpf_add_mem_fails [OF None lt] n(2) by (simp add: BTF_MAX_NR_TYPES_def)
    then show ?thesis using fail None by (simp add: btf_add_type_idx_entry_def btf_add_type_offs_mem_def)
  next
    case (Some r)
    obtain d c where r: "r = (d, c)" by (cases r)
    obtain j where d: "d = type_offs s @ replicate j 0" "c = length d" "?n + 1 \<le> c"
      using libbpf_add_mem_Some [OF Some [unfolded r] n(3) lt] by auto
    show ?thesis
    proof (rule entry [of "d[?n := off]"])
      show "btf_add_type_idx_entry ok s off = Some (0, s\<lparr>type_offs := d[?n := off], type_offs_cap := length (d[?n := off])\<rparr>)"
        using Some r d by (simp add: btf_add_type_idx_entry_def btf_add_type_offs_mem_def)
      show "take (Suc ?n) (d[?n := off]) = take ?n (type_offs s) @ [off]"
        using d n(1) take_Suc_conv_app_nth [of ?n "d[?n := off]"] by (simp del: take_update_swap)
    qed (use d in simp)
  qed
qed

lemma tiled_le: "tiled m p qs e \<Longrightarrow> p \<le> e"
  by (induction qs arbitrary: p) (auto split: option.splits)

lemma tiled_step:
  "p < e \<Longrightarrow> tiled m p qs e \<longleftrightarrow> (\<exists>n qs'. qs = p # qs' \<and> btf_type_size (At m p) = Some n \<and> 0 \<le> n \<and> tiled m (p + nat n) qs' e)"
  by (cases qs) (auto split: option.splits dest: tiled_le)

lemma tiled_room: "tiled m p qs e \<Longrightarrow> p < e \<Longrightarrow> p + 12 \<le> e"
  by (auto simp: tiled_step dest!: tiled_le btf_type_size_12)

text \<open>
  The loop reads and writes inside the section; it succeeds exactly when types in native order
  fill the section, and then the index has their offsets.
\<close>

definition parsed :: "allocs \<Rightarrow> bytes \<Rightarrow> nat \<Rightarrow> btf_sec \<Rightarrow> (int \<times> btf_sec) option \<Rightarrow> bool" where
  "parsed ok M nxt s r \<longleftrightarrow>
     (\<exists>e s'. r = Some (e, s') \<and> (e = - ENOMEM \<and> (\<exists>i. \<not> ok i) \<or> e = - EINVAL \<and> (\<forall>qs. \<not> tiled M nxt qs (length M)))) \<or>
     (\<exists>qs offs. r = Some (0, s\<lparr>types_data := M, type_offs := offs, type_offs_cap := length offs,
         nr_types := nr_types s + of_nat (length qs)\<rparr>) \<and> tiled M nxt qs (length M) \<and>
       take (unat (nr_types s) + length qs) offs = take (unat (nr_types s)) (type_offs s) @ map of_nat qs \<and>
       unat (nr_types s) + length qs \<le> length offs)"

lemma parsedI:
  assumes "r = Some (0, s\<lparr>types_data := M, type_offs := offs, type_offs_cap := length offs, nr_types := nr_types s + of_nat (length qs)\<rparr>)"
    and "tiled M nxt qs (length M)" and "unat (nr_types s) + length qs \<le> length offs"
    and "take (unat (nr_types s) + length qs) offs = take (unat (nr_types s)) (type_offs s) @ map of_nat qs"
  shows "parsed ok M nxt s r"
  using assms unfolding parsed_def by blast

lemma parsedE:
  assumes "parsed ok M nxt s r"
  obtains (err) e s' where "r = Some (e, s')" "e = - ENOMEM \<and> (\<exists>i. \<not> ok i) \<or> e = - EINVAL \<and> (\<forall>qs. \<not> tiled M nxt qs (length M))"
  | (fine) qs offs where "r = Some (0, s\<lparr>types_data := M, type_offs := offs, type_offs_cap := length offs,
        nr_types := nr_types s + of_nat (length qs)\<rparr>)" "tiled M nxt qs (length M)"
      "take (unat (nr_types s) + length qs) offs = take (unat (nr_types s)) (type_offs s) @ map of_nat qs"
      "unat (nr_types s) + length qs \<le> length offs"
  using assms unfolding parsed_def
proof (elim disjE exE, goal_cases)
  case (1 e s')
  then show ?thesis using err by (elim conjE)
next
  case (2 qs offs)
  then show ?thesis using fine by (elim conjE)
qed

text \<open>One more type in front.\<close>

lemma parsed_step:
  assumes "parsed ok M (nxt + nat k) (s\<lparr>types_data := d, type_offs := offs, type_offs_cap := length offs, nr_types := nr_types s + 1\<rparr>) r"
    and "\<And>qs. tiled M nxt qs (length M) \<longleftrightarrow> (\<exists>qs'. qs = nxt # qs' \<and> tiled M (nxt + nat k) qs' (length M))"
    and "unat (nr_types s + 1) = Suc (unat (nr_types s))"
    and "take (Suc (unat (nr_types s))) offs = take (unat (nr_types s)) (type_offs s) @ [of_nat nxt]"
  shows "parsed ok M nxt s r"
proof -
  show ?thesis using assms(1)
  proof (cases rule: parsedE)
    case (err e s')
    have "\<forall>qs. \<not> tiled M nxt qs (length M)" if "\<forall>qs. \<not> tiled M (nxt + nat k) qs (length M)"
      using that assms(2) by simp
    then show ?thesis unfolding parsed_def by (intro disjI1 exI [of _ e] exI [of _ s']) (use err in auto)
  next
    case (fine qs offs')
    have "tiled M nxt (nxt # qs) (length M)" unfolding assms(2) using fine(2) by blast
    then show ?thesis
      by (rule parsedI [where offs = offs' and qs = "nxt # qs", rotated]) (use fine(1,3,4) assms(3,4) in \<open>simp_all add: add.assoc\<close>)
  qed
qed

lemma parse_types_spec:
  assumes "4 dvd nxt" and "nxt \<le> length m" and "length m = unat (type_len (hdr s))"
    and "types_data s = mixed (swapped_endian s) m nxt" and "index_room s" and "12 * unat (nr_types s) \<le> nxt"
    and "M = native (swapped_endian s) m"
  shows "parsed ok M nxt s (parse_types ok n nxt s)"
  using assms
proof (induction "length m - nxt" arbitrary: nxt n s rule: less_induct)
  case less
  let ?e = "length m" and ?n = "unat (nr_types s)"
  note pre = less.prems
  have lM: "length M = ?e" using pre(7) by simp
  show ?case
  proof (cases "nxt + 12 \<le> ?e")
    case False
    show ?thesis
    proof (cases "nxt = ?e")
      case True
      have "s = s\<lparr>types_data := M, type_offs := type_offs s, type_offs_cap := length (type_offs s), nr_types := nr_types s\<rparr>"
        using pre(5) pre(4) [unfolded True mixed_all, folded pre(7)] by (simp add: index_room_def)
      then show ?thesis using pre(3,5) False True lM
        by (intro parsedI [where offs = "type_offs s" and qs = "[]"]) (simp_all add: parse_types.simps index_room_def)
    next
      case ne: False
      then have "\<not> tiled M nxt qs ?e" for qs using tiled_room [of M nxt qs ?e] False pre(2) by auto
      then show ?thesis using False ne pre(3) lM unfolding parsed_def by (simp add: parse_types.simps [of ok n nxt s])
    qed
  next
    case True
    let ?s1 = "s\<lparr>types_data := mixed (swapped_endian s) m (nxt + 12)\<rparr>"
    have b: "swap_base s nxt = Some ?s1" using swap_base_mixed [OF pre(4,1) True] .
    have sz: "btf_type_size (At (types_data ?s1) nxt) = btf_type_size (At M nxt)"
      using mixed_load [of "nxt + 4" "nxt + 12" m] True by (intro btf_type_size_cong) (simp add: pre(7))
    obtain n1 where n1: "btf_type_size (At M nxt) = Some n1"
      using True by (simp add: btf_type_size_def btf_vlen_def btf_kind_def t_info_def load32_def pre(7))
    have st: "tiled M nxt qs ?e \<longleftrightarrow> (\<exists>qs'. qs = nxt # qs' \<and> 0 \<le> n1 \<and> tiled M (nxt + nat n1) qs' ?e)" for qs
      using tiled_step [of nxt ?e M qs] True n1 by auto
    show ?thesis
    proof (cases "0 \<le> n1 \<and> nxt + nat n1 \<le> ?e")
      case False
      then have no: "\<not> tiled M nxt qs ?e" for qs using st tiled_le by blast
      have "n1 = - EINVAL" if "n1 < 0"
        using that n1 by (auto simp: btf_type_size_def split: btf_kinds.splits Option.bind_splits)
      then have "\<exists>s'. parse_types ok n nxt s = Some (- EINVAL, s')"
        using False True b sz n1 pre(3) by (subst parse_types.simps) auto
      then show ?thesis using no lM unfolding parsed_def by metis
    next
      case fits: True
      let ?s2 = "s\<lparr>types_data := mixed (swapped_endian s) m (nxt + nat n1)\<rparr>"
      have r: "swap_rest ?s1 nxt = Some (0, ?s2)"
        using swap_rest_mixed [of ?s1 m nxt n1] fits pre(1) sz n1 by simp
      have 12: "12 \<le> n1" using btf_type_size_12 n1 fits by blast
      have unf: "parse_types ok n nxt s = (case btf_add_type_idx_entry (ok n) ?s2 (of_nat nxt) of None \<Rightarrow> None
          | Some (err, s3) \<Rightarrow> if err \<noteq> 0 then Some (err, s3)
             else parse_types ok (Suc n) (nxt + nat n1) (s3\<lparr>nr_types := nr_types s3 + 1\<rparr>))"
        using True fits b sz n1 r pre(3) by (subst parse_types.simps) auto
      have room: "index_room ?s2" using pre(5) by (simp add: index_room_def)
      show ?thesis
      proof (rule btf_add_type_idx_entry_cases [OF room, of "ok n" "of_nat nxt"])
        assume "btf_add_type_idx_entry (ok n) ?s2 (of_nat nxt) = Some (- ENOMEM, ?s2)" "\<not> ok n"
        then show ?thesis using unf unfolding parsed_def by (intro disjI1 exI [of _ "- ENOMEM"] exI [of _ ?s2]) (auto simp: ENOMEM_def)
      next
        fix offs
        assume i: "btf_add_type_idx_entry (ok n) ?s2 (of_nat nxt) = Some (0, ?s2\<lparr>type_offs := offs, type_offs_cap := length offs\<rparr>)"
          and lo: "unat (nr_types ?s2) < length offs"
          and tk: "take (Suc (unat (nr_types ?s2))) offs = take (unat (nr_types ?s2)) (type_offs ?s2) @ [of_nat nxt]"
        let ?s3 = "?s2\<lparr>type_offs := offs, type_offs_cap := length offs, nr_types := nr_types s + 1\<rparr>"
        have lt: "?e < 4294967296" using unat_u32 [of "type_len (hdr s)"] pre(3) by simp
        have u: "unat (nr_types s + 1) = Suc ?n" using pre(2,6) lt by (simp add: unat_word_ariths)
        have nr: "12 * Suc ?n \<le> nxt + nat n1" using pre(6) 12 by simp
        then have ir: "index_room ?s3" using lo u fits lt by (simp add: index_room_def BTF_MAX_NR_TYPES_def)
        have e3: "parse_types ok n nxt s = parse_types ok (Suc n) (nxt + nat n1) ?s3" using unf i by simp
        obtain k where "n1 = 12 + 4 * int k" using btf_type_size_words [OF n1] fits by blast
        then have "nat n1 = 4 * (3 + k)" by simp
        then have 4: "4 dvd nxt + nat n1" using pre(1) by simp
        have dec: "?e - (nxt + nat n1) < ?e - nxt" using 12 True by simp
        have "parsed ok M (nxt + nat n1) ?s3 (parse_types ok (Suc n) (nxt + nat n1) ?s3)"
          by (rule less.hyps [OF dec 4 _ _ _ ir]) (use fits pre(3,7) u nr in simp_all)
        moreover have "tiled M nxt qs (length M) \<longleftrightarrow> (\<exists>qs'. qs = nxt # qs' \<and> tiled M (nxt + nat n1) qs' (length M))" for qs
          unfolding lM using st [of qs] fits by blast
        ultimately show ?thesis unfolding e3 by (rule parsed_step) (use u tk in simp_all)
      qed
    qed
  qed
qed

end
