(* ===== verification/Btf_Load.thy ===== *)
theory Btf_Load
  imports Btf_Types
begin

text \<open>
  Loading a BTF object: \<open>btf_new\<close> accepts exactly the images that \<open>valid_image\<close> describes, in
  either byte order, reads and writes only inside its copy of the data, and gives a
  well-formed object (\<open>obj_ok\<close>) with the types of the image.
\<close>

section \<open>Images that load\<close>

text \<open>The strings of an object and of its base objects; every name ends inside the section it starts in.\<close>

fun strs_ok :: "btf \<Rightarrow> bool" where
  "strs_ok (Btf base start len strs) \<longleftrightarrow>
     len \<le> length (btf_strs_data (Btf base start len strs)) \<and>
     (0 < len \<longrightarrow> btf_strs_data (Btf base start len strs) ! (len - 1) = NUL) \<and>
     (case base of None \<Rightarrow> start = 0 \<and> 0 < len | Some b \<Rightarrow> start = hdr_str_len b \<and> strs_ok b)"

text \<open>The two halves of an object belong together.\<close>

fun halves_match :: "btf \<Rightarrow> btf_types \<Rightarrow> bool" where
  "halves_match (Btf sb start len strs) (Types tb s) \<longleftrightarrow> len = unat (str_len (hdr s)) \<and>
     (case (sb, tb) of (None, None) \<Rightarrow> True | (Some b, Some t) \<Rightarrow> halves_match b t | (None, Some t) \<Rightarrow> False | (Some b, None) \<Rightarrow> False)"

definition obj_ok :: "btf_obj \<Rightarrow> bool" where
  "obj_ok b \<longleftrightarrow> strs_ok (ostrs b) \<and> types_ok (otys b) \<and> halves_match (ostrs b) (otys b)"

text \<open>What a file has to be: the header in native order, and the parts it describes.\<close>

definition swap_hdr :: "btf_header \<Rightarrow> btf_header" where
  "swap_hdr h = h\<lparr>magic := bswap_16 (magic h), hdr_len := bswap_32 (hdr_len h), type_off := bswap_32 (type_off h),
     type_len := bswap_32 (type_len h), str_off := bswap_32 (str_off h), str_len := bswap_32 (str_len h)\<rparr>"

definition image_hdr :: "bytes \<Rightarrow> (bool \<times> btf_header) option" where
  "image_hdr data = (case load_hdr data of
       None \<Rightarrow> None
     | Some h \<Rightarrow>
         if magic h = BTF_MAGIC then Some (False, h)
         else if magic h = bswap_16 BTF_MAGIC \<and> hdr_len (swap_hdr h) = 24 then Some (True, swap_hdr h)
         else None)"

definition sections_fit :: "nat \<Rightarrow> btf_header \<Rightarrow> bool" where
  "sections_fit n h \<longleftrightarrow> unat (hdr_len h) + unat (str_off h) + unat (str_len h) \<le> n \<and>
     unat (type_off h) + unat (type_len h) \<le> unat (str_off h) \<and> type_off h mod 4 = 0"

definition image_types :: "bool \<Rightarrow> btf_header \<Rightarrow> bytes \<Rightarrow> bytes" where
  "image_types sw h data = native sw (take (unat (type_len h)) (drop (unat (hdr_len h) + unat (type_off h)) data))"

definition image_strs :: "btf_header \<Rightarrow> bytes \<Rightarrow> string" where
  "image_strs h data = chars_of (take (unat (str_len h)) (drop (unat (hdr_len h) + unat (str_off h)) data))"

definition strs_valid :: "bool \<Rightarrow> string \<Rightarrow> bool" where
  "strs_valid has_base d \<longleftrightarrow> has_base \<and> d = [] \<or>
     d \<noteq> [] \<and> length d \<le> 2 ^ 31 \<and> last d = NUL \<and> (has_base \<or> hd d = NUL)"

definition valid_image :: "bool \<Rightarrow> bytes \<Rightarrow> bool" where
  "valid_image has_base data \<longleftrightarrow> (\<exists>sw h. image_hdr data = Some (sw, h) \<and> sections_fit (length data) h \<and>
     strs_valid has_base (image_strs h data) \<and> (\<exists>qs. tiled (image_types sw h data) 0 qs (unat (type_len h))))"

lemma chars_of_length [simp]: "length (chars_of m) = length m"
  by (simp add: chars_of_def)

lemma btf_check_hdr_iff: "btf_check_hdr n h = (if sections_fit n h then 0 else - EINVAL)"
  by (auto simp: btf_check_hdr_def sections_fit_def Let_def)

lemma btf_parse_str_sec_iff:
  assumes "length d = unat (str_len h)"
  shows "btf_parse_str_sec has_base h d = Some (if strs_valid has_base d then 0 else - EINVAL)"
  using assms by (cases "d = []")
    (auto simp: btf_parse_str_sec_def Let_def strs_valid_def BTF_MAX_STR_OFFSET_def last_conv_nth hd_conv_nth)

lemma load_hdr_Some: "24 \<le> length m \<Longrightarrow> \<exists>h. load_hdr m = Some h"
  by (simp add: load_hdr_def load8_def load16_def load32_def)

lemma load_hdr_None: "length m < 24 \<Longrightarrow> load_hdr m = None"
  by (auto simp: load_hdr_def load32_def split: Option.bind_splits)

definition le16 :: "u8 \<Rightarrow> u8 \<Rightarrow> u16" where
  "le16 a b = ucast a OR push_bit 8 (ucast b)"

definition le32 :: "u8 \<Rightarrow> u8 \<Rightarrow> u8 \<Rightarrow> u8 \<Rightarrow> u32" where
  "le32 a b c d = ucast a OR push_bit 8 (ucast b) OR push_bit 16 (ucast c) OR push_bit 24 (ucast d)"

lemma load16_le16: "load16 m a = (if a + 2 \<le> length m then Some (le16 (m ! a) (m ! (a + 1))) else None)"
  by (simp add: load16_def le16_def)

lemma load32_le32: "load32 m a = (if a + 4 \<le> length m then Some (le32 (m ! a) (m ! (a + 1)) (m ! (a + 2)) (m ! (a + 3))) else None)"
  by (simp add: load32_def le32_def)

lemma swab16_le16: "bpf_swab16 (le16 a b) = le16 b a"
  by (simp add: le16_def swab16_bytes)

lemma swab32_le32: "bpf_swab32 (le32 a b c d) = le32 d c b a"
  using word32_bytes [of "bpf_swab32 (le32 a b c d)"] unfolding swab32_byte le32_def le32_bytes by (rule sym)

lemma btf_bswap_hdr_words:
  "btf_bswap_hdr m = do { magic \<leftarrow> load16 m 0; m \<leftarrow> store16 m 0 (bswap_16 magic); swap_words m 4 5 }"
  by (simp add: btf_bswap_hdr_def numeral_eq_Suc)

lemma btf_bswap_hdr_Some:
  assumes "24 \<le> length m"
  obtains m' where "btf_bswap_hdr m = Some m'" "length m' = length m" "drop 24 m' = drop 24 m"
    "load_hdr m' = map_option swap_hdr (load_hdr m)"
proof -
  define w where "w = take 24 m"
  have "length w = 24" using assms by (simp add: w_def)
  then obtain b0 b1 b2 b3 b4 b5 b6 b7 b8 b9 b10 b11 b12 b13 b14 b15 b16 b17 b18 b19 b20 b21 b22 b23 where
    w: "w = [b0, b1, b2, b3, b4, b5, b6, b7, b8, b9, b10, b11, b12, b13, b14, b15, b16, b17, b18, b19, b20, b21, b22, b23]"
    by (auto simp: eval_nat_numeral length_Suc_conv)
  define z where "z = drop 24 m"
  define v where "v = [b4, b5, b6, b7, b8, b9, b10, b11, b12, b13, b14, b15, b16, b17, b18, b19, b20, b21, b22, b23]"
  have m: "m = w @ z" by (simp add: w_def z_def)
  have s16: "store16 (b0 # b1 # xs) 0 (bpf_swab16 (ucast b0 OR push_bit 8 (ucast b1))) = Some (b1 # b0 # xs)" for xs
  proof -
    obtain v :: u16 where "ucast b1 OR push_bit 8 (ucast b0) = v" "b1 = ucast v" "b0 = ucast (drop_bit 8 v)"
      using le16_eq_iff by blast
    then show ?thesis by (simp add: store16_def swab16_bytes)
  qed
  have "swap_words ([b1, b0, b2, b3] @ v @ z) (length [b1, b0, b2, b3]) 5 = Some ([b1, b0, b2, b3] @ rev4 v @ z)"
    by (rule swap_words_rev4) (simp add: v_def)
  moreover have "length [b1, b0, b2, b3] = 4" by simp
  ultimately have "swap_words (b1 # b0 # b2 # b3 # v @ z) 4 5 = Some ([b1, b0, b2, b3] @ rev4 v @ z)"
    by (simp only: append_Cons append_Nil)
  then have "btf_bswap_hdr m = Some ([b1, b0, b2, b3] @ rev4 v @ z)"
    by (simp add: btf_bswap_hdr_words m w v_def load16_def s16 del: swap_words.simps)
  moreover have "drop 24 ([b1, b0, b2, b3] @ rev4 v @ z) = drop 24 m" unfolding z_def [symmetric] by (simp add: v_def)
  moreover have "length ([b1, b0, b2, b3] @ rev4 v @ z) = length m" by (simp add: m w v_def)
  moreover have "load_hdr ([b1, b0, b2, b3] @ rev4 v @ z) = map_option swap_hdr (load_hdr m)"
    by (simp add: v_def m w load_hdr_def load8_def load16_le16 load32_le32 swap_hdr_def swab16_le16 swab32_le32)
  ultimately show ?thesis using that by blast
qed

lemma magics_differ: "bswap_16 BTF_MAGIC \<noteq> BTF_MAGIC"
  by (simp add: BTF_MAGIC_def bpf_swab16_def bpf_mvb_def)

lemma image_hdr_length: "image_hdr data = Some r \<Longrightarrow> 24 \<le> length data"
  using load_hdr_None [of data] by (cases "24 \<le> length data") (simp_all add: image_hdr_def)

lemma btf_parse_hdr_bad:
  assumes "image_hdr data = None"
  obtains err raw sw where "btf_parse_hdr data = Some (err, raw, sw)" "err = - EINVAL \<or> err = - ENOTSUP"
proof (cases "length data < 24")
  case False
  then obtain h where "load_hdr data = Some h" using load_hdr_Some [of data] by auto
  then show ?thesis using assms False that [of "- ENOTSUP" data True] that [of "- EINVAL" data False]
    by (cases "magic h = BTF_MAGIC"; cases "magic h = bswap_16 BTF_MAGIC"; cases "bswap_32 (hdr_len h) = 24")
      (simp_all add: btf_parse_hdr_def image_hdr_def swap_hdr_def)
qed (use that in \<open>auto simp: btf_parse_hdr_def\<close>)

lemma btf_parse_hdr_good:
  assumes "image_hdr data = Some (sw, h)"
  obtains raw where "btf_parse_hdr data = Some (if sections_fit (length data) h then 0 else - EINVAL, raw, sw)"
    "load_hdr raw = Some h" "length raw = length data" "\<And>k. unat (hdr_len h) \<le> k \<Longrightarrow> drop k raw = drop k data"
    "drop 24 raw = drop 24 data"
proof -
  have len: "24 \<le> length data" using image_hdr_length [OF assms] .
  obtain h0 where h0: "load_hdr data = Some h0" using load_hdr_Some [OF len] by auto
  show ?thesis
  proof (cases "magic h0 = BTF_MAGIC")
    case True
    then have "sw = False" "h = h0" using assms h0 by (simp_all add: image_hdr_def)
    then show ?thesis using that [of data] h0 len True magics_differ by (simp add: btf_parse_hdr_def btf_check_hdr_iff)
  next
    case False
    then have m: "magic h0 = bswap_16 BTF_MAGIC" "bswap_32 (hdr_len h0) = 24" "sw" "h = swap_hdr h0"
      using assms h0 by (auto simp: image_hdr_def swap_hdr_def split: if_splits)
    obtain raw where r: "btf_bswap_hdr data = Some raw" "length raw = length data" "drop 24 raw = drop 24 data"
      "load_hdr raw = map_option swap_hdr (load_hdr data)" using btf_bswap_hdr_Some [OF len] by blast
    have "drop k raw = drop k data" if "unat (hdr_len h) \<le> k" for k
    proof -
      have "24 \<le> k" using that m(2,4) by (simp add: swap_hdr_def)
      then show ?thesis using arg_cong [OF r(3), of "drop (k - 24)"] by simp
    qed
    then show ?thesis using that [of raw] r h0 m len by (simp add: btf_parse_hdr_def btf_check_hdr_iff)
  qed
qed

text \<open>The sections do not depend on the byte order of the header.\<close>

lemma load_sections:
  assumes "sections_fit (length data) h" and "length raw = length data"
    and "\<And>k. unat (hdr_len h) \<le> k \<Longrightarrow> drop k raw = drop k data"
  defines "m \<equiv> take (unat (type_len h)) (drop (unat (hdr_len h) + unat (type_off h)) data)"
  shows "load_bytes raw (unat (hdr_len h) + unat (type_off h)) (unat (type_len h)) = Some m"
    "\<exists>d. load_bytes raw (unat (hdr_len h) + unat (str_off h)) (unat (str_len h)) = Some d \<and> chars_of d = image_strs h data"
    "length m = unat (type_len h)" "length (image_strs h data) = unat (str_len h)"
    "\<And>sw. image_types sw h data = native sw m"
  using assms by (auto simp: load_bytes_def sections_fit_def image_strs_def image_types_def)

section \<open>Loading\<close>

text \<open>The section that loading starts from, and the object that it makes.\<close>

definition new_sec :: "bytes \<Rightarrow> bool \<Rightarrow> btf_header \<Rightarrow> btf_obj option \<Rightarrow> btf_sec" where
  "new_sec data sw h base = \<lparr>hdr = h, hdr_more = take (unat (hdr_len h) - 24) (drop 24 data), raw_data = None, raw_data_swapped = None, raw_size = of_nat (length data), swapped_endian = sw,
     types_data = take (unat (type_len h)) (drop (unat (hdr_len h) + unat (type_off h)) data), types_data_cap = 0,
     type_offs = [], type_offs_cap = 0, nr_types = 0,
     start_id = (case base of None \<Rightarrow> 1 | Some b \<Rightarrow> btf__type_cnt (otys b)), ptr_sz = 0\<rparr>"

definition loads_as :: "bytes \<Rightarrow> bool \<Rightarrow> btf_header \<Rightarrow> btf_obj option \<Rightarrow> btf_obj \<Rightarrow> bool" where
  "loads_as data sw h base b \<longleftrightarrow>
     ostrs b = Btf (map_option ostrs base) (case base of None \<Rightarrow> 0 | Some b \<Rightarrow> hdr_str_len (ostrs b)) (unat (str_len h)) (Inl (image_strs h data)) \<and>
     (\<exists>qs offs raw. otys b = Types (map_option otys base) ((new_sec data sw h base)\<lparr>types_data := image_types sw h data,
         type_offs := offs, type_offs_cap := length offs, nr_types := of_nat (length qs), raw_data := Some raw\<rparr>) \<and>
       tiled (image_types sw h data) 0 qs (unat (type_len h)) \<and> take (length qs) offs = map of_nat qs \<and> length qs \<le> length offs)"

lemma btf_new_cases:
  assumes mem: "ok 0" "ok 1" and hdr: "image_hdr data = Some (sw, h)" and fit: "sections_fit (length data) h"
    and strs: "strs_valid (base \<noteq> None) (image_strs h data)"
  obtains (fail) e where "btf_new ok data base = Some (Inl e)"
      "e = - ENOMEM \<and> (\<exists>i. \<not> ok i) \<or> e = - EINVAL \<and> (\<forall>qs. \<not> tiled (image_types sw h data) 0 qs (unat (type_len h)))"
  | (loaded) b where "btf_new ok data base = Some (Inr b)" "loads_as data sw h base b"
proof -
  obtain raw where raw: "btf_parse_hdr data = Some (0, raw, sw)" "load_hdr raw = Some h" "length raw = length data"
      "\<And>k. unat (hdr_len h) \<le> k \<Longrightarrow> drop k raw = drop k data" "drop 24 raw = drop 24 data"
    by (rule btf_parse_hdr_good [OF hdr]) (use fit in auto)
  note secs = load_sections [OF fit raw(3,4)]
  obtain d where d: "load_bytes raw (unat (hdr_len h) + unat (str_off h)) (unat (str_len h)) = Some d" "chars_of d = image_strs h data"
    using secs(2) by blast
  let ?s = "new_sec data sw h base" and ?at = "unat (hdr_len h) + unat (type_off h)" and ?n = "unat (type_len h)"
  let ?m = "take ?n (drop ?at data)" and ?M = "image_types sw h data"
  have strs0: "btf_parse_str_sec (base \<noteq> None) h (image_strs h data) = Some 0"
    using btf_parse_str_sec_iff [OF secs(4), of "base \<noteq> None"] strs by simp
  have unf: "btf_new ok data base = (case parse_types (\<lambda>n. ok (n + 2)) 0 0 ?s of None \<Rightarrow> None | Some (err, s) \<Rightarrow>
      if err \<noteq> 0 then Some (Inl err) else Option.bind (memcpy raw ?at (types_data s) ?n) (\<lambda>raw. Some (Inr \<lparr>
        ostrs = Btf (map_option ostrs base) (case base of None \<Rightarrow> 0 | Some b \<Rightarrow> hdr_str_len (ostrs b)) (unat (str_len h)) (Inl (image_strs h data)),
        otys = Types (map_option otys base) (s\<lparr>raw_data := Some raw\<rparr>)\<rparr>)))"
    using mem raw(1,2,5) secs(1) d strs0
    by (simp add: btf_new_def btf_parse_type_sec_def new_sec_def Let_def split: option.splits prod.splits)
  have M: "?M = native (swapped_endian ?s) ?m" and lM: "length ?M = ?n" using secs(3,5) by (simp_all add: new_sec_def)
  have "parsed (\<lambda>n. ok (n + 2)) ?M 0 ?s (parse_types (\<lambda>n. ok (n + 2)) 0 0 ?s)"
    by (rule parse_types_spec [OF _ _ _ _ _ _ M]) (use secs(3) in \<open>simp_all add: new_sec_def mixed_0 index_room_def BTF_MAX_NR_TYPES_def\<close>)
  then show ?thesis
  proof (cases rule: parsedE)
    case (err e s')
    then have "e \<noteq> 0" by (auto simp: ENOMEM_def EINVAL_def)
    then show ?thesis using fail [of e] err unf lM by auto
  next
    case (fine qs offs)
    obtain raw' where "memcpy raw ?at ?M ?n = Some raw'" using lM fit raw(3) by (simp add: memcpy_def sections_fit_def)
    then have "btf_new ok data base = Some (Inr \<lparr>
        ostrs = Btf (map_option ostrs base) (case base of None \<Rightarrow> 0 | Some b \<Rightarrow> hdr_str_len (ostrs b)) (unat (str_len h)) (Inl (image_strs h data)),
        otys = Types (map_option otys base) (?s\<lparr>types_data := ?M, type_offs := offs, type_offs_cap := length offs,
          nr_types := of_nat (length qs), raw_data := Some raw'\<rparr>)\<rparr>)" (is "_ = Some (Inr ?b)")
      using unf fine(1) by (simp add: new_sec_def)
    moreover have "loads_as data sw h base ?b" unfolding loads_as_def
      by (intro conjI exI [of _ qs] exI [of _ offs] exI [of _ raw']) (use fine(2-4) lM in \<open>simp_all add: new_sec_def\<close>)
    ultimately show ?thesis by (rule loaded)
  qed
qed

lemma btf_new_refuses:
  assumes mem: "ok 0 \<and> ok 1" and hdr: "image_hdr data = Some (sw, h)"
    and bad: "\<not> (sections_fit (length data) h \<and> strs_valid (base \<noteq> None) (image_strs h data))"
  shows "btf_new ok data base = Some (Inl (- EINVAL))"
proof -
  obtain raw where raw: "btf_parse_hdr data = Some (if sections_fit (length data) h then 0 else - EINVAL, raw, sw)"
      "load_hdr raw = Some h" "length raw = length data" "\<And>k. unat (hdr_len h) \<le> k \<Longrightarrow> drop k raw = drop k data"
    using btf_parse_hdr_good [OF hdr] by blast
  have E: "- EINVAL \<noteq> 0" by (simp add: EINVAL_def)
  show ?thesis
  proof (cases "sections_fit (length data) h")
    case False
    then show ?thesis using mem raw(1) E by (simp add: btf_new_def)
  next
    case True
    note secs = load_sections [OF True raw(3,4)]
    obtain d where d: "load_bytes raw (unat (hdr_len h) + unat (str_off h)) (unat (str_len h)) = Some d" "chars_of d = image_strs h data"
      using secs(2) by blast
    then show ?thesis using mem raw(1,2) secs(1) True bad E btf_parse_str_sec_iff [OF secs(4), of "base \<noteq> None"]
      by (simp add: btf_new_def Let_def)
  qed
qed

lemma tiled_bounds: "tiled m p qs e \<Longrightarrow> p + 12 * length qs \<le> e \<and> (\<forall>q \<in> set qs. p \<le> q \<and> q + 12 \<le> e)"
proof (induction qs arbitrary: p)
  case (Cons q qs)
  then obtain n where n: "btf_type_size (At m p) = Some n" "0 \<le> n" "p + nat n \<le> e" "tiled m (p + nat n) qs e" "q = p"
    by (auto split: option.splits)
  then show ?case using Cons.IH [OF n(4)] btf_type_size_12 [OF n(1,2)] by fastforce
qed simp

definition base_ok :: "btf_obj option \<Rightarrow> bool" where
  "base_ok base \<longleftrightarrow> (case base of None \<Rightarrow> True | Some b \<Rightarrow> obj_ok b \<and> unat (btf__type_cnt (otys b)) < 2 ^ 30)"

lemma btf_strs_data_simps [simp]: "btf_strs_data (Btf base start len (Inl raw)) = raw" "btf_strs_data (Btf base start len (Inr st)) = strs_data st"
  by (simp_all add: btf_strs_data_def)

lemma loads_as_ok:
  assumes l: "loads_as data sw h base b" and base: "base_ok base" and fit: "sections_fit (length data) h"
    and strs: "strs_valid (base \<noteq> None) (image_strs h data)"
  shows "obj_ok b"
proof -
  obtain qs offs raw where o: "otys b = Types (map_option otys base) ((new_sec data sw h base)\<lparr>types_data := image_types sw h data,
        type_offs := offs, type_offs_cap := length offs, nr_types := of_nat (length qs), raw_data := Some raw\<rparr>)"
      and q: "tiled (image_types sw h data) 0 qs (unat (type_len h))" "take (length qs) offs = map of_nat qs" "length qs \<le> length offs"
    using l unfolding loads_as_def by blast
  note secs = load_sections [OF fit refl refl]
  have b: "12 * length qs \<le> unat (type_len h)" "\<And>q. q \<in> set qs \<Longrightarrow> q < 2 ^ 32"
    using tiled_bounds [OF q(1)] unat_u32 [of "type_len h"] by fastforce+
  then have n: "unat (of_nat (length qs) :: u32) = length qs" "length qs < 2 ^ 30"
    using unat_u32 [of "type_len h"] by (simp_all add: unat_of_nat_u32)
  have "map unat (map of_nat qs :: u32 list) = qs" using b(2) by (simp add: map_idI unat_of_nat_u32)
  then have sec: "sec_ok ((new_sec data sw h base)\<lparr>types_data := image_types sw h data,
        type_offs := offs, type_offs_cap := length offs, nr_types := of_nat (length qs), raw_data := Some raw\<rparr>)"
    using q n secs(3,5) by (simp add: sec_ok_def sec_offs_def new_sec_def)
  have "types_ok (otys b)" using sec n base
    by (auto simp: o new_sec_def base_ok_def obj_ok_def split: option.splits)
  moreover have "image_strs h data = [] \<longleftrightarrow> str_len h = 0" using secs(4) by (metis length_0_conv unsigned_0 unat_eq_zero)
  then have "strs_ok (ostrs b)" using l base strs secs(4)
    by (auto simp: loads_as_def base_ok_def obj_ok_def strs_valid_def last_conv_nth unat_gt_0 split: option.splits)
  moreover have "halves_match (ostrs b) (otys b)" using l base
    by (auto simp: loads_as_def new_sec_def base_ok_def obj_ok_def split: option.splits)
  ultimately show ?thesis by (simp add: obj_ok_def)
qed

text \<open>
  C11. Loading a BTF object: whatever bytes it is given, \<open>btf_new\<close> makes no access outside its
  copy of them.  It refuses the data exactly when it is not a valid image, or when
  an allocation fails; the object it returns is well formed, its types are those of the image in
  native byte order and its strings those of the image.
\<close>

theorem btf_new_exact:
  assumes "base_ok base"
  shows "\<exists>r. btf_new ok data base = Some r \<and>
    (case r of
       Inl e \<Rightarrow> e = - ENOMEM \<and> (\<exists>n. \<not> ok n) \<or> (e = - EINVAL \<or> e = - ENOTSUP) \<and> \<not> valid_image (base \<noteq> None) data
     | Inr b \<Rightarrow> valid_image (base \<noteq> None) data \<and> obj_ok b \<and>
         (\<exists>sw h. image_hdr data = Some (sw, h) \<and> types_data (types_sec (otys b)) = image_types sw h data \<and>
           btf_strs (ostrs b) = Inl (image_strs h data)))"
proof (cases "ok 0 \<and> ok 1")
  case False
  then show ?thesis by (auto simp: btf_new_def)
next
  case mem: True
  show ?thesis
  proof (cases "image_hdr data")
    case None
    then have nv: "\<not> valid_image (base \<noteq> None) data" by (simp add: valid_image_def)
    obtain err raw sw where "btf_parse_hdr data = Some (err, raw, sw)" "err = - EINVAL \<or> err = - ENOTSUP"
      using btf_parse_hdr_bad [OF None] by blast
    moreover have "- EINVAL \<noteq> 0" "- ENOTSUP \<noteq> 0" by (simp_all add: EINVAL_def ENOTSUP_def)
    ultimately show ?thesis using mem nv by (auto simp: btf_new_def)
  next
    case (Some r)
    then obtain sw h where h: "image_hdr data = Some (sw, h)" by (cases r) auto
    have nv: "valid_image (base \<noteq> None) data \<longleftrightarrow> sections_fit (length data) h \<and> strs_valid (base \<noteq> None) (image_strs h data) \<and>
        (\<exists>qs. tiled (image_types sw h data) 0 qs (unat (type_len h)))"
      by (simp add: valid_image_def h)
    show ?thesis
    proof (cases "sections_fit (length data) h \<and> strs_valid (base \<noteq> None) (image_strs h data)")
      case False
      have "btf_new ok data base = Some (Inl (- EINVAL))" by (rule btf_new_refuses [OF _ h]) (use mem False in auto)
      then show ?thesis using nv False by auto
    next
      case True
      have m: "ok 0" "ok 1" using mem by simp_all
      show ?thesis
      proof (rule btf_new_cases [OF m h True [THEN conjunct1] True [THEN conjunct2]])
        fix e assume "btf_new ok data base = Some (Inl e)"
          "e = - ENOMEM \<and> (\<exists>i. \<not> ok i) \<or> e = - EINVAL \<and> (\<forall>qs. \<not> tiled (image_types sw h data) 0 qs (unat (type_len h)))"
        then show ?thesis using nv by auto
      next
        fix b assume b: "btf_new ok data base = Some (Inr b)" "loads_as data sw h base b"
        moreover have "obj_ok b" using loads_as_ok [OF b(2) assms] True by blast
        ultimately show ?thesis using nv True h by (auto simp: loads_as_def)
      qed
    qed
  qed
qed

text \<open>An image with one type, \<^verbatim>\<open>int\<close> of 4 bytes, in the order of the host and in the other one.\<close>

definition int_image :: bytes where
  "int_image = [0x9f, 0xeb, 1, 0, 24, 0, 0, 0, 0, 0, 0, 0, 16, 0, 0, 0, 16, 0, 0, 0, 5, 0, 0, 0,
     1, 0, 0, 0, 0, 0, 0, 1, 4, 0, 0, 0, 32, 0, 0, 1, 0, 105, 110, 116, 0]"

definition int_image_swapped :: bytes where
  "int_image_swapped = [0xeb, 0x9f, 1, 0, 0, 0, 0, 24, 0, 0, 0, 0, 0, 0, 0, 16, 0, 0, 0, 16, 0, 0, 0, 5,
     0, 0, 0, 1, 1, 0, 0, 0, 0, 0, 0, 4, 1, 0, 0, 32, 0, 105, 110, 116, 0]"

definition int_hdr :: btf_header where
  "int_hdr = \<lparr>magic = BTF_MAGIC, version = 1, flags = 0, hdr_len = 24, type_off = 0, type_len = 16, str_off = 16, str_len = 5\<rparr>"

lemma int_image_hdr: "image_hdr int_image = Some (False, int_hdr)"
  by (simp add: image_hdr_def load_hdr_def load8_def load16_def load32_def int_image_def BTF_MAGIC_def int_hdr_def)

lemma int_image_swapped_hdr: "image_hdr int_image_swapped = Some (True, int_hdr)"
  by (simp add: image_hdr_def load_hdr_def load8_def load16_def load32_def int_image_swapped_def BTF_MAGIC_def int_hdr_def swap_hdr_def
    bpf_swab16_def bpf_swab32_def bpf_mvb_def)

lemma int_image_types:
  "image_types False int_hdr int_image = [1, 0, 0, 0, 0, 0, 0, 1, 4, 0, 0, 0, 32, 0, 0, 1]"
  "image_types True int_hdr int_image_swapped = [1, 0, 0, 0, 0, 0, 0, 1, 4, 0, 0, 0, 32, 0, 0, 1]"
  by (simp_all add: int_image_swapped_def int_image_def int_hdr_def image_types_def native_def)

lemma int_image_tiled: "tiled [1, 0, 0, 0, 0, 0, 0, 1, 4, 0, 0, 0, 32, 0, 0, 1] 0 [0] 16"
  by (simp add: btf_type_size_def btf_vlen_def btf_kind_def t_info_def load32_def BTF_INFO_VLEN_def BTF_INFO_KIND_def
    kind_of_num_def btf_kind_list_def)

lemma int_image_strs:
  "image_strs int_hdr int_image = [NUL, CHR ''i'', CHR ''n'', CHR ''t'', NUL]"
  "image_strs int_hdr int_image_swapped = [NUL, CHR ''i'', CHR ''n'', CHR ''t'', NUL]"
  by (simp_all add: int_image_def int_image_swapped_def int_hdr_def image_strs_def chars_of_def NUL_def char_of_def bit_0)

lemma int_image_valid: "valid_image False int_image" "valid_image False int_image_swapped"
proof -
  have f: "sections_fit (length int_image) int_hdr" "sections_fit (length int_image_swapped) int_hdr" "unat (type_len int_hdr) = 16"
    by (simp_all add: sections_fit_def int_image_def int_image_swapped_def int_hdr_def)
  have s: "strs_valid False [NUL, CHR ''i'', CHR ''n'', CHR ''t'', NUL]" by (simp add: strs_valid_def)
  show "valid_image False int_image" unfolding valid_image_def
    by (rule exI [of _ False], rule exI [of _ int_hdr]) (use int_image_hdr f s int_image_types int_image_tiled int_image_strs in metis)
  show "valid_image False int_image_swapped" unfolding valid_image_def
    by (rule exI [of _ True], rule exI [of _ int_hdr]) (use int_image_swapped_hdr f s int_image_types int_image_tiled int_image_strs in metis)
qed

theorem btf_new_exact_witness:
  "base_ok None \<and> (\<exists>b. btf_new (\<lambda>n. True) int_image_swapped None = Some (Inr b) \<and> obj_ok b)"
proof
  show b: "base_ok None" by (simp add: base_ok_def)
  obtain r where r: "btf_new (\<lambda>n. True) int_image_swapped None = Some r" and c: "case r of
       Inl e \<Rightarrow> e = - ENOMEM \<and> (\<exists>n :: nat. \<not> True) \<or> (e = - EINVAL \<or> e = - ENOTSUP) \<and> \<not> valid_image False int_image_swapped
     | Inr b \<Rightarrow> obj_ok b"
    using btf_new_exact [OF b, of "\<lambda>n. True" int_image_swapped] by (force split: sum.splits)
  then show "\<exists>b. btf_new (\<lambda>n. True) int_image_swapped None = Some (Inr b) \<and> obj_ok b"
    using int_image_valid(2) by (cases r) auto
qed

end
