(* ===== verification/Btf_Query.thy ===== *)
theory Btf_Query
  imports Btf_Load
begin

text \<open>
  Queries on a BTF object: the pointer size, the size and the alignment of a type, the type behind
  modifiers, and the search by name.  \<open>btf__resolve_size\<close> is related to \<open>shape\<close>, an inductive
  description of what a type is made of; \<open>btf__align_of\<close> recurses without a limit, so its model
  has fuel (\<open>Some None\<close> when it is used up).
\<close>

section \<open>Pointer size and byte order\<close>

definition long_aliases :: "string list" where
  "long_aliases = [''long'', ''long int'', ''int long'', ''unsigned long'', ''long unsigned'', ''unsigned long int'',
     ''unsigned int long'', ''long unsigned int'', ''long int unsigned'', ''int unsigned long'', ''int long unsigned'']"

fun long_size :: "btf_obj \<Rightarrow> u32 list \<Rightarrow> int option" where
  "long_size b [] = Some (- 1)"
| "long_size b (i # is) = do {
     p \<leftarrow> btf__type_by_id (otys b) i;
     t \<leftarrow> p;
     is_int \<leftarrow> btf_is_int t;
     if \<not> is_int then long_size b is
     else do {
       size \<leftarrow> t_size t;
       if size \<noteq> 4 \<and> size \<noteq> 8 then long_size b is
       else do {
         off \<leftarrow> t_name_off t;
         name \<leftarrow> btf__name_by_offset (ostrs b) (unat off);
         case name of
           None \<Rightarrow> long_size b is
         | Some s \<Rightarrow> if list_ex (\<lambda>a. strcmp s a = 0) long_aliases then Some (uint size) else long_size b is
       }
     }
   }"

text \<open>The ids from \<open>k\<close> on; the counter of the loop is an \<^verbatim>\<open>int\<close> here.\<close>

definition ids_from :: "nat \<Rightarrow> u32 \<Rightarrow> u32 list" where
  "ids_from k n = map of_nat [k..<unat n]"

definition determine_ptr_size :: "btf_obj \<Rightarrow> int option" where
  "determine_ptr_size b =
     (case types_base (otys b) of
        Some base \<Rightarrow>
          if ptr_sz (types_sec base) > 0 then Some (ptr_sz (types_sec base))
          else long_size b (if sint (btf__type_cnt (otys b)) < 0 then [] else ids_from 1 (btf__type_cnt (otys b)))
      | None \<Rightarrow> long_size b (if sint (btf__type_cnt (otys b)) < 0 then [] else ids_from 1 (btf__type_cnt (otys b))))"

definition upd_sec :: "(btf_sec \<Rightarrow> btf_sec) \<Rightarrow> btf_obj \<Rightarrow> btf_obj" where
  "upd_sec f b = b\<lparr>otys := Types (types_base (otys b)) (f (types_sec (otys b)))\<rparr>"

definition guess_ptr_sz :: "btf_obj \<Rightarrow> btf_obj option" where
  "guess_ptr_sz b =
     (if ptr_sz (types_sec (otys b)) = 0
      then map_option (\<lambda>n. upd_sec (\<lambda>s. s\<lparr>ptr_sz := n\<rparr>) b) (determine_ptr_size b) else Some b)"

definition btf_ptr_sz :: "btf_obj \<Rightarrow> (int \<times> btf_obj) option" where
  "btf_ptr_sz b = do {
     b \<leftarrow> guess_ptr_sz b;
     Some (if ptr_sz (types_sec (otys b)) < 0 then 8 else ptr_sz (types_sec (otys b)), b)
   }"

definition btf__pointer_size :: "btf_obj \<Rightarrow> (int \<times> btf_obj) option" where
  "btf__pointer_size b = do {
     b \<leftarrow> guess_ptr_sz b;
     Some (if ptr_sz (types_sec (otys b)) < 0 then 0 else ptr_sz (types_sec (otys b)), b)
   }"

definition btf__set_pointer_size :: "btf_obj \<Rightarrow> nat \<Rightarrow> int \<times> btf_obj" where
  "btf__set_pointer_size b n =
     (if n \<noteq> 4 \<and> n \<noteq> 8 then (- EINVAL, b) else (0, upd_sec (\<lambda>s. s\<lparr>ptr_sz := int n\<rparr>) b))"

datatype btf_endianness = BTF_LITTLE_ENDIAN | BTF_BIG_ENDIAN

definition btf__endianness :: "btf_obj \<Rightarrow> btf_endianness" where
  "btf__endianness b = (if swapped_endian (types_sec (otys b)) then BTF_BIG_ENDIAN else BTF_LITTLE_ENDIAN)"

definition btf__set_endianness :: "btf_obj \<Rightarrow> btf_endianness \<Rightarrow> int \<times> btf_obj" where
  "btf__set_endianness b endian =
     (let sw = (False \<noteq> (endian = BTF_BIG_ENDIAN))
      in (0, upd_sec (\<lambda>s. s\<lparr>swapped_endian := sw, raw_data_swapped := (if \<not> sw then None else raw_data_swapped s)\<rparr>) b))"

section \<open>Size\<close>

definition btf_type_is_void :: "type_ptr \<Rightarrow> bool option" where
  "btf_type_is_void t = (if t = Void then Some True else btf_is_fwd t)"

definition btf_type_is_void_or_null :: "type_ptr option \<Rightarrow> bool option" where
  "btf_type_is_void_or_null t = (case t of None \<Rightarrow> Some True | Some t \<Rightarrow> btf_type_is_void t)"

definition MAX_RESOLVE_DEPTH :: nat where "MAX_RESOLVE_DEPTH = 32"

definition UINT32_MAX :: nat where "UINT32_MAX = 0xffffffff"

text \<open>\<^verbatim>\<open>struct btf_array\<close> behind a type.\<close>

definition a_type :: "type_ptr \<Rightarrow> u32 option" where "a_type t = t_word t 12"
definition a_nelems :: "type_ptr \<Rightarrow> u32 option" where "a_nelems t = t_word t 20"

text \<open>The loop: \<open>Inl\<close> is a return from inside, \<open>Inr\<close> the number of elements and the size at the label \<^verbatim>\<open>done\<close>.\<close>

fun resolve_loop :: "nat \<Rightarrow> btf_obj \<Rightarrow> type_ptr option \<Rightarrow> u32 \<Rightarrow> ((int + u32 \<times> int) \<times> btf_obj) option" where
  "resolve_loop 0 b p nelems = Some (Inr (nelems, - 1), b)"
| "resolve_loop (Suc n) b p nelems = do {
     stop \<leftarrow> btf_type_is_void_or_null p;
     if stop then Some (Inr (nelems, - 1), b)
     else do {
       t \<leftarrow> p;
       kind \<leftarrow> btf_kind t;
       if kind \<in> {BTF_KIND_INT, BTF_KIND_STRUCT, BTF_KIND_UNION, BTF_KIND_ENUM, BTF_KIND_ENUM64, BTF_KIND_DATASEC, BTF_KIND_FLOAT}
       then do { size \<leftarrow> t_size t; Some (Inr (nelems, uint size), b) }
       else if kind = BTF_KIND_PTR
       then do { (size, b) \<leftarrow> btf_ptr_sz b; Some (Inr (nelems, size), b) }
       else if kind \<in> {BTF_KIND_TYPEDEF, BTF_KIND_VOLATILE, BTF_KIND_CONST, BTF_KIND_RESTRICT, BTF_KIND_VAR, BTF_KIND_DECL_TAG, BTF_KIND_TYPE_TAG}
       then do {
         type_id \<leftarrow> t_type t;
         p \<leftarrow> btf__type_by_id (otys b) type_id;
         resolve_loop n b p nelems
       }
       else if kind = BTF_KIND_ARRAY
       then do {
         k \<leftarrow> a_nelems t;
         if nelems \<noteq> 0 \<and> unat k > UINT32_MAX div unat nelems then Some (Inl (- E2BIG), b)
         else do {
           type_id \<leftarrow> a_type t;
           p \<leftarrow> btf__type_by_id (otys b) type_id;
           resolve_loop n b p (nelems * k)
         }
       }
       else Some (Inl (- EINVAL), b)
     }
   }"

definition btf__resolve_size :: "btf_obj \<Rightarrow> u32 \<Rightarrow> (int \<times> btf_obj) option" where
  "btf__resolve_size b type_id = do {
     p \<leftarrow> btf__type_by_id (otys b) type_id;
     (r, b) \<leftarrow> resolve_loop MAX_RESOLVE_DEPTH b p 1;
     Some (case r of
         Inl err \<Rightarrow> err
       | Inr (nelems, n) \<Rightarrow>
           if n < 0 then - EINVAL
           else if nelems \<noteq> 0 \<and> n > int (UINT32_MAX div unat nelems) then - E2BIG
           else uint nelems * n, b)
   }"

section \<open>Alignment\<close>

definition m_type :: "type_ptr \<Rightarrow> nat \<Rightarrow> u32 option" where "m_type t i = t_word t (12 + 12 * i + 4)"

text \<open>The loop over the members from number \<open>i\<close> on, \<open>n\<close> of them; \<open>f\<close> is the recursive call.\<close>

fun align_members :: "(btf_obj \<Rightarrow> u32 \<Rightarrow> (int \<times> btf_obj) option option) \<Rightarrow> btf_obj \<Rightarrow> type_ptr \<Rightarrow> nat \<Rightarrow> nat \<Rightarrow> int \<Rightarrow>
    (int \<times> btf_obj) option option" where
  "align_members f b t i 0 max_align = Some (Some (max_align, b))"
| "align_members f b t i (Suc n) max_align = do {
     type_id \<leftarrow> m_type t i;
     r \<leftarrow> f b type_id;
     case r of
       None \<Rightarrow> Some None
     | Some (align, b) \<Rightarrow>
         if align \<le> 0 then Some (Some (align, b))
         else align_members f b t (Suc i) n (max max_align align)
   }"

fun btf__align_of :: "nat \<Rightarrow> btf_obj \<Rightarrow> u32 \<Rightarrow> (int \<times> btf_obj) option option" where
  "btf__align_of 0 b type_id = Some None"
| "btf__align_of (Suc fuel) b type_id = do {
     p \<leftarrow> btf__type_by_id (otys b) type_id;
     t \<leftarrow> p;
     kind \<leftarrow> btf_kind t;
     if kind \<in> {BTF_KIND_INT, BTF_KIND_ENUM, BTF_KIND_ENUM64, BTF_KIND_FLOAT}
     then do { size \<leftarrow> t_size t; (n, b) \<leftarrow> btf_ptr_sz b; Some (Some (to_int (min n (uint size)), b)) }
     else if kind = BTF_KIND_PTR
     then do { (n, b) \<leftarrow> btf_ptr_sz b; Some (Some (to_int n, b)) }
     else if kind \<in> {BTF_KIND_TYPEDEF, BTF_KIND_VOLATILE, BTF_KIND_CONST, BTF_KIND_RESTRICT, BTF_KIND_TYPE_TAG}
     then do { type_id \<leftarrow> t_type t; btf__align_of fuel b type_id }
     else if kind = BTF_KIND_ARRAY
     then do { type_id \<leftarrow> a_type t; btf__align_of fuel b type_id }
     else if kind \<in> {BTF_KIND_STRUCT, BTF_KIND_UNION}
     then do { vlen \<leftarrow> btf_vlen t; align_members (btf__align_of fuel) b t 0 vlen 1 }
     else Some (Some (0, b))
   }"

section \<open>The type behind modifiers, and search by name\<close>

fun resolve_type_loop :: "nat \<Rightarrow> btf_types \<Rightarrow> type_ptr option \<Rightarrow> u32 \<Rightarrow> nat \<Rightarrow> (u32 \<times> type_ptr option \<times> nat) option" where
  "resolve_type_loop 0 b p type_id depth = Some (type_id, p, depth)"
| "resolve_type_loop (Suc n) b p type_id depth = do {
     stop \<leftarrow> btf_type_is_void_or_null p;
     if stop then Some (type_id, p, depth)
     else do {
       t \<leftarrow> p;
       is_mod \<leftarrow> btf_is_mod t;
       is_typedef \<leftarrow> btf_is_typedef t;
       is_var \<leftarrow> btf_is_var t;
       if is_mod \<or> is_typedef \<or> is_var
       then do {
         type_id \<leftarrow> t_type t;
         p \<leftarrow> btf__type_by_id b type_id;
         resolve_type_loop n b p type_id (depth + 1)
       }
       else Some (type_id, p, depth)
     }
   }"

definition btf__resolve_type :: "btf_types \<Rightarrow> u32 \<Rightarrow> int option" where
  "btf__resolve_type b type_id = do {
     p \<leftarrow> btf__type_by_id b type_id;
     (type_id, p, depth) \<leftarrow> resolve_type_loop MAX_RESOLVE_DEPTH b p type_id 0;
     if depth = MAX_RESOLVE_DEPTH then Some (- EINVAL)
     else do {
       stop \<leftarrow> btf_type_is_void_or_null p;
       Some (if stop then - EINVAL else sint type_id)
     }
   }"

fun find_name :: "btf_obj \<Rightarrow> string \<Rightarrow> u32 list \<Rightarrow> int option" where
  "find_name b type_name [] = Some (- ENOENT)"
| "find_name b type_name (i # is) = do {
     p \<leftarrow> btf__type_by_id (otys b) i;
     t \<leftarrow> p;
     off \<leftarrow> t_name_off t;
     name \<leftarrow> btf__name_by_offset (ostrs b) (unat off);
     if (case name of None \<Rightarrow> False | Some s \<Rightarrow> strcmp type_name s = 0) then Some (sint i)
     else find_name b type_name is
   }"

definition btf__find_by_name :: "btf_obj \<Rightarrow> string \<Rightarrow> int option" where
  "btf__find_by_name b type_name =
     (if strcmp type_name ''void'' = 0 then Some 0
      else find_name b type_name (ids_from 1 (btf__type_cnt (otys b))))"

fun find_name_kind :: "btf_obj \<Rightarrow> string \<Rightarrow> btf_kinds \<Rightarrow> u32 list \<Rightarrow> int option" where
  "find_name_kind b type_name kind [] = Some (- ENOENT)"
| "find_name_kind b type_name kind (i # is) = do {
     p \<leftarrow> btf__type_by_id (otys b) i;
     t \<leftarrow> p;
     k \<leftarrow> btf_kind t;
     if k \<noteq> kind then find_name_kind b type_name kind is
     else do {
       off \<leftarrow> t_name_off t;
       name \<leftarrow> btf__name_by_offset (ostrs b) (unat off);
       if (case name of None \<Rightarrow> False | Some s \<Rightarrow> strcmp type_name s = 0) then Some (sint i)
       else find_name_kind b type_name kind is
     }
   }"

definition btf_find_by_name_kind :: "btf_obj \<Rightarrow> nat \<Rightarrow> string \<Rightarrow> btf_kinds \<Rightarrow> int option" where
  "btf_find_by_name_kind b start type_name kind =
     (if kind = BTF_KIND_UNKN \<or> strcmp type_name ''void'' = 0 then Some 0
      else find_name_kind b type_name kind (ids_from start (btf__type_cnt (otys b))))"

definition btf__find_by_name_kind_own :: "btf_obj \<Rightarrow> string \<Rightarrow> btf_kinds \<Rightarrow> int option" where
  "btf__find_by_name_kind_own b type_name kind = btf_find_by_name_kind b (unat (start_id (types_sec (otys b)))) type_name kind"

definition btf__find_by_name_kind :: "btf_obj \<Rightarrow> string \<Rightarrow> btf_kinds \<Rightarrow> int option" where
  "btf__find_by_name_kind b type_name kind = btf_find_by_name_kind b 1 type_name kind"

text \<open>
  \<^verbatim>\<open>btf__get_map_kv_tids\<close>: the types of key and value of a map, from the members of its container;
  \<^verbatim>\<open>snprintf\<close> returns the length of the whole name and writes at most 255 characters of it.
\<close>

definition btf__get_map_kv_tids :: "btf_obj \<Rightarrow> string \<Rightarrow> u32 \<Rightarrow> u32 \<Rightarrow> ((int + u32 \<times> u32) \<times> btf_obj) option" where
  "btf__get_map_kv_tids b map_name expected_key_size expected_value_size =
     (let name = ''____btf_map_'' @ map_name; container_name = take 255 name
      in if length name = 256 then Some (Inl (- EINVAL), b)
         else do {
           container_id \<leftarrow> btf__find_by_name b container_name;
           if container_id < 0 then Some (Inl container_id, b)
           else do {
             p \<leftarrow> btf__type_by_id (otys b) (of_int container_id);
             case p of
               None \<Rightarrow> Some (Inl (- EINVAL), b)
             | Some t \<Rightarrow> do {
                 kind \<leftarrow> btf_kind t;
                 vlen \<leftarrow> btf_vlen t;
                 if kind \<noteq> BTF_KIND_STRUCT \<or> vlen < 2 then Some (Inl (- EINVAL), b)
                 else do {
                   key \<leftarrow> m_type t 0;
                   (key_size, b) \<leftarrow> btf__resolve_size b key;
                   if key_size < 0 then Some (Inl (to_int key_size), b)
                   else if uint expected_key_size \<noteq> key_size then Some (Inl (- EINVAL), b)
                   else do {
                     val \<leftarrow> m_type t 1;
                     (value_size, b) \<leftarrow> btf__resolve_size b val;
                     if value_size < 0 then Some (Inl (to_int value_size), b)
                     else if uint expected_value_size \<noteq> value_size then Some (Inl (- EINVAL), b)
                     else Some (Inr (key, val), b)
                   }
                 }
               }
           }
         })"

section \<open>Types of a well-formed object\<close>

text \<open>The memory behind a pointer holds the whole type.\<close>

definition type_ok :: "type_ptr \<Rightarrow> bool" where
  "type_ok t \<longleftrightarrow> (case t of Void \<Rightarrow> True | At m p \<Rightarrow> (\<exists>n. btf_type_size (At m p) = Some n \<and> 0 \<le> n \<and> p + nat n \<le> length m))"

lemma tiled_nth:
  "tiled m p qs e \<Longrightarrow> i < length qs \<Longrightarrow> \<exists>n. btf_type_size (At m (qs ! i)) = Some n \<and> 0 \<le> n \<and> qs ! i + nat n \<le> e"
  by (induction qs arbitrary: p i) (auto simp: nth_Cons split: option.splits nat.splits)

lemma sec_ok_nth:
  assumes "sec_ok s" and "i < unat (nr_types s)"
  shows "i < length (type_offs s) \<and> type_ok (At (types_data s) (unat (type_offs s ! i)))"
proof -
  have l: "unat (nr_types s) \<le> length (type_offs s)" "unat (type_len (hdr s)) \<le> length (types_data s)"
    and t: "tiled (types_data s) 0 (sec_offs s) (unat (type_len (hdr s)))"
    using assms(1) by (simp_all add: sec_ok_def)
  have "i < length (sec_offs s)" "sec_offs s ! i = unat (type_offs s ! i)" using l assms(2) by (simp_all add: sec_offs_def)
  then show ?thesis using tiled_nth [OF t, of i] l assms(2) by (force simp: type_ok_def)
qed

lemma type_cnt_unat: "types_ok (Types base s) \<Longrightarrow> unat (btf__type_cnt (Types base s)) = unat (start_id s) + unat (nr_types s)"
  by (simp add: btf__type_cnt_def unat_word_ariths)

lemma btf_type_by_id_ok:
  "types_ok b \<Longrightarrow> type_id < btf__type_cnt b \<Longrightarrow>
    \<exists>t. btf_type_by_id b type_id = Some t \<and> type_ok t \<and> (t = Void \<longleftrightarrow> type_id = 0)"
proof (induction b type_id rule: btf_type_by_id.induct)
  case (1 base s type_id)
  consider "type_id = 0" | "type_id \<noteq> 0" "type_id < start_id s" | "type_id \<noteq> 0" "start_id s \<le> type_id" by force
  then show ?case
  proof cases
    case 2
    then obtain b where b: "base = Some b" "start_id s = btf__type_cnt b" "types_ok b"
      using "1.prems"(1) by (auto split: option.splits)
    then show ?thesis using "1.IH" [of b] 2 by auto
  next
    case 3
    let ?i = "type_id - start_id s"
    have "unat ?i < unat (nr_types s)"
      using 3 "1.prems" type_cnt_unat [of base s] by (simp add: unat_sub word_less_nat_alt word_le_nat_alt)
    then show ?thesis using sec_ok_nth [of s "unat ?i"] "1.prems"(1) 3 by auto
  qed (simp add: type_ok_def)
qed

lemma btf__type_by_id_cases:
  assumes "types_ok b"
  obtains (null) "btf__type_by_id b type_id = Some None" "btf__type_cnt b \<le> type_id"
  | (type) t where "btf__type_by_id b type_id = Some (Some t)" "type_ok t" "t = Void \<longleftrightarrow> type_id = 0" "type_id < btf__type_cnt b"
proof (cases "type_id < btf__type_cnt b")
  case True
  then obtain t where "btf_type_by_id b type_id = Some t" "type_ok t" "t = Void \<longleftrightarrow> type_id = 0"
    using btf_type_by_id_ok [OF assms] by blast
  then show ?thesis using type [of t] True by (simp add: btf__type_by_id_def btf__type_cnt_def leD)
next
  case False
  then show ?thesis using null by (simp add: btf__type_by_id_def btf__type_cnt_def)
qed

lemma type_ok_word: "type_ok t \<Longrightarrow> k + 4 \<le> 12 \<Longrightarrow> \<exists>w. t_word t k = Some w"
  by (cases t) (auto simp: type_ok_def load32_def dest!: btf_type_size_12)

lemma type_ok_kind: "type_ok t \<Longrightarrow> \<exists>k. btf_kind t = Some k"
  using type_ok_word [of t 4] by (auto simp: btf_kind_def t_info_def)

lemma type_ok_vlen: "type_ok t \<Longrightarrow> \<exists>n. btf_vlen t = Some n"
  using type_ok_word [of t 4] by (auto simp: btf_vlen_def t_info_def)

lemma type_ok_fields: "type_ok t \<Longrightarrow> (\<exists>w. t_name_off t = Some w) \<and> (\<exists>w. t_size t = Some w) \<and> (\<exists>w. t_type t = Some w)"
  using type_ok_word [of t] by (simp add: t_name_off_def t_size_def t_type_def)

lemma kind_Void: "btf_kind Void = Some BTF_KIND_UNKN"
  by (simp add: btf_kind_def t_info_def load32_def kind_of_num_def btf_kind_list_def BTF_INFO_KIND_def nth_Cons')

lemma type_ok_behind:
  assumes "type_ok t" and "btf_kind t = Some k" and "k \<noteq> BTF_KIND_UNKN"
  obtains m p n where "t = At m p" "btf_type_size t = Some n" "0 \<le> n" "p + nat n \<le> length m"
  using assms by (cases t) (auto simp: kind_Void type_ok_def)

lemma type_ok_array:
  assumes "type_ok t" and "btf_kind t = Some BTF_KIND_ARRAY"
  shows "\<exists>c e. a_nelems t = Some c \<and> a_type t = Some e"
proof -
  obtain m p n where "t = At m p" "btf_type_size t = Some n" "p + nat n \<le> length m"
    by (rule type_ok_behind [OF assms]) simp_all
  moreover have "n = 24" using calculation(2) assms(2) by (auto simp: btf_type_size_def split: Option.bind_splits)
  ultimately show ?thesis by (simp add: a_nelems_def a_type_def load32_def)
qed

lemma type_ok_member:
  assumes "type_ok t" and "btf_kind t = Some k" and "k = BTF_KIND_STRUCT \<or> k = BTF_KIND_UNION" and "btf_vlen t = Some n" and "i < n"
  shows "\<exists>e. m_type t i = Some e"
proof -
  obtain m p l where "t = At m p" "btf_type_size t = Some l" "p + nat l \<le> length m"
    by (rule type_ok_behind [OF assms(1,2)]) (use assms(3) in auto)
  moreover have "l = 12 + int n * 12" using calculation(2) assms(2-4) by (auto simp: btf_type_size_def)
  ultimately show ?thesis using assms(5) by (simp add: m_type_def load32_def)
qed

section \<open>The pointer size\<close>

lemma btf__name_by_offset_total: "strs_ok b \<Longrightarrow> \<exists>r. btf__name_by_offset b off = Some r"
  unfolding btf__name_by_offset_def
  by (induction b off rule: btf__str_by_offset.induct) (auto split: option.splits)

lemma ids_from_less: "i \<in> set (ids_from k n) \<Longrightarrow> i < n \<and> k \<le> unat i"
  using unat_lt [of n] by (auto simp: ids_from_def word_less_nat_alt unat_of_nat_u32)

lemma long_size_total:
  assumes "obj_ok b" and "\<forall>i \<in> set is. i < btf__type_cnt (otys b)"
  shows "\<exists>n. long_size b is = Some n"
  using assms(2)
proof (induction "is")
  case (Cons i "is")
  have ok: "types_ok (otys b)" "strs_ok (ostrs b)" using assms(1) by (simp_all add: obj_ok_def)
  obtain t where t: "btf__type_by_id (otys b) i = Some (Some t)" "type_ok t"
    by (rule btf__type_by_id_cases [OF ok(1), of i]) (use Cons.prems in auto)
  obtain k off n name where "btf_kind t = Some k" "t_size t = Some n" "t_name_off t = Some off" "btf__name_by_offset (ostrs b) (unat off) = Some name"
    using type_ok_kind [OF t(2)] type_ok_fields [OF t(2)] btf__name_by_offset_total [OF ok(2)] by metis
  then show ?case using t Cons by (auto simp: btf_is_int_def split: option.splits)
qed simp

lemma determine_ptr_size_total: "obj_ok b \<Longrightarrow> \<exists>n. determine_ptr_size b = Some n"
  using long_size_total [of b] ids_from_less by (auto simp: determine_ptr_size_def split: option.splits)

lemma btf_ptr_sz_total:
  assumes "obj_ok b"
  shows "\<exists>n b'. btf_ptr_sz b = Some (n, b') \<and> 0 \<le> n"
  using determine_ptr_size_total [OF assms] by (auto simp: btf_ptr_sz_def guess_ptr_sz_def)

section \<open>The size of a type\<close>

abbreviation sized_kinds :: "btf_kinds set" where
  "sized_kinds \<equiv> {BTF_KIND_INT, BTF_KIND_STRUCT, BTF_KIND_UNION, BTF_KIND_ENUM, BTF_KIND_ENUM64, BTF_KIND_DATASEC, BTF_KIND_FLOAT}"

abbreviation ref_kinds :: "btf_kinds set" where
  "ref_kinds \<equiv> {BTF_KIND_TYPEDEF, BTF_KIND_VOLATILE, BTF_KIND_CONST, BTF_KIND_RESTRICT, BTF_KIND_VAR, BTF_KIND_DECL_TAG, BTF_KIND_TYPE_TAG}"

text \<open>
  \<open>shape b i n ds s\<close>: behind \<open>n\<close> references and arrays, of dimensions \<open>ds\<close>, the type \<open>i\<close>
  is made of elements of \<open>s\<close> bytes.
\<close>

inductive shape :: "btf_obj \<Rightarrow> u32 \<Rightarrow> nat \<Rightarrow> nat list \<Rightarrow> int \<Rightarrow> bool" for b where
  sized: "btf__type_by_id (otys b) i = Some (Some t) \<Longrightarrow> btf_kind t = Some k \<Longrightarrow> k \<in> sized_kinds \<Longrightarrow>
    t_size t = Some n \<Longrightarrow> shape b i 0 [] (uint n)"
| ptr: "btf__type_by_id (otys b) i = Some (Some t) \<Longrightarrow> btf_kind t = Some BTF_KIND_PTR \<Longrightarrow>
    btf_ptr_sz b = Some (n, b') \<Longrightarrow> shape b i 0 [] n"
| ref: "btf__type_by_id (otys b) i = Some (Some t) \<Longrightarrow> btf_kind t = Some k \<Longrightarrow> k \<in> ref_kinds \<Longrightarrow>
    t_type t = Some j \<Longrightarrow> shape b j n ds s \<Longrightarrow> shape b i (Suc n) ds s"
| array: "btf__type_by_id (otys b) i = Some (Some t) \<Longrightarrow> btf_kind t = Some BTF_KIND_ARRAY \<Longrightarrow>
    a_nelems t = Some c \<Longrightarrow> a_type t = Some j \<Longrightarrow> shape b j n ds s \<Longrightarrow> shape b i (Suc n) (unat c # ds) s"

text \<open>The product of the dimensions, taken from the left, or the whole size does not fit.\<close>

definition dims_overflow :: "nat \<Rightarrow> nat list \<Rightarrow> bool" where
  "dims_overflow c ds \<longleftrightarrow> (\<exists>k \<le> length ds. UINT32_MAX < c * prod_list (take k ds))"

definition size_overflow :: "nat list \<Rightarrow> int \<Rightarrow> bool" where
  "size_overflow ds s \<longleftrightarrow> dims_overflow 1 ds \<or> int UINT32_MAX < int (prod_list ds) * s"

lemma dims_overflow_Nil: "dims_overflow c [] \<longleftrightarrow> UINT32_MAX < c"
  by (simp add: dims_overflow_def)

lemma dims_overflow_Cons: "c \<le> UINT32_MAX \<Longrightarrow> dims_overflow c (d # ds) \<longleftrightarrow> dims_overflow (c * d) ds"
proof
  assume "dims_overflow c (d # ds)" "c \<le> UINT32_MAX"
  then obtain k where k: "k \<le> Suc (length ds)" "UINT32_MAX < c * prod_list (take k (d # ds))" by (auto simp: dims_overflow_def)
  with \<open>c \<le> UINT32_MAX\<close> obtain j where "k = Suc j" by (cases k) auto
  then show "dims_overflow (c * d) ds" using k by (auto simp: dims_overflow_def mult.assoc)
next
  assume "dims_overflow (c * d) ds"
  then obtain k where "k \<le> length ds" "UINT32_MAX < c * d * prod_list (take k ds)" by (auto simp: dims_overflow_def)
  then show "dims_overflow c (d # ds)" unfolding dims_overflow_def by (intro exI [of _ "Suc k"]) (simp add: mult.assoc)
qed

lemma dims_overflow_big: "UINT32_MAX < c \<Longrightarrow> dims_overflow c ds"
  by (auto simp: dims_overflow_def intro: exI [of _ 0])

text \<open>The check of the code before it multiplies.\<close>

lemma mult_check: "c \<noteq> 0 \<and> UINT32_MAX div unat c < k \<longleftrightarrow> UINT32_MAX < unat (c :: u32) * k"
  by (cases "c = 0") (simp_all add: div_less_iff_less_mult unat_gt_0 mult.commute)

lemma unat_u32_max: "unat (c :: u32) \<le> UINT32_MAX"
  using unat_u32 [of c] by (simp add: UINT32_MAX_def)

lemma unat_mult_u32: "unat c * unat k \<le> UINT32_MAX \<Longrightarrow> unat (c * k :: u32) = unat c * unat k"
  by (simp add: unat_word_ariths UINT32_MAX_def)

lemma shape_not_void:
  assumes "btf_kind t = Some k" and "k \<in> sized_kinds \<union> ref_kinds \<union> {BTF_KIND_PTR, BTF_KIND_ARRAY}"
  shows "btf_type_is_void_or_null (Some t) = Some False"
  using assms kind_Void by (auto simp: btf_type_is_void_or_null_def btf_type_is_void_def btf_is_fwd_def)

definition ptr_guessed :: "btf_obj \<Rightarrow> btf_obj \<Rightarrow> bool" where
  "ptr_guessed b b' \<longleftrightarrow> (\<exists>n. b' = upd_sec (\<lambda>s. s\<lparr>ptr_sz := n\<rparr>) b)"

lemma upd_sec_same: "upd_sec (\<lambda>s. s\<lparr>ptr_sz := ptr_sz (types_sec (otys b))\<rparr>) b = b"
  by (simp add: upd_sec_def)

lemma ptr_guessed_refl [simp]: "ptr_guessed b b"
  unfolding ptr_guessed_def using upd_sec_same [of b] by metis

lemma btf_ptr_sz_guessed: "btf_ptr_sz b = Some (n, b') \<Longrightarrow> ptr_guessed b b'"
  unfolding btf_ptr_sz_def guess_ptr_sz_def
  by (auto split: if_splits Option.bind_splits) (auto simp: ptr_guessed_def)

lemma resolve_loop_shape:
  assumes "shape b i n ds s" and "n < N" and "btf__type_by_id (otys b) i = Some p"
  shows "\<exists>b'. ptr_guessed b b' \<and> resolve_loop N b p c = Some (if dims_overflow (unat c) ds then Inl (- E2BIG)
    else Inr (c * of_nat (prod_list ds), s), b')"
  using assms
proof (induction arbitrary: N p c rule: shape.induct)
  case (sized i t k n)
  then obtain M where "N = Suc M" by (cases N) auto
  then show ?case using sized shape_not_void [of t k] unat_u32_max [of c]
    by (intro exI [of _ b]) (auto simp: dims_overflow_Nil)
next
  case (ptr i t n b')
  then obtain M where "N = Suc M" by (cases N) auto
  then show ?case using ptr shape_not_void [of t BTF_KIND_PTR] unat_u32_max [of c] btf_ptr_sz_guessed [OF ptr(3)]
    by (intro exI [of _ b']) (auto simp: dims_overflow_Nil)
next
  case (ref i t k j n ds s)
  then obtain M where N: "N = Suc M" "n < M" by (cases N) auto
  obtain q where q: "btf__type_by_id (otys b) j = Some q" using ref(5) by (auto elim: shape.cases)
  have "resolve_loop N b p c = resolve_loop M b q c"
    using ref N q shape_not_void [of t k] by auto
  then show ?case using ref.IH [OF N(2) q] by simp
next
  case (array i t d j n ds s)
  then obtain M where N: "N = Suc M" "n < M" by (cases N) auto
  obtain q where q: "btf__type_by_id (otys b) j = Some q" using array(5) by (auto elim: shape.cases)
  have e: "resolve_loop N b p c = (if UINT32_MAX < unat c * unat d then Some (Inl (- E2BIG), b) else resolve_loop M b q (c * d))"
    using array(1-4,8) N q shape_not_void [of t BTF_KIND_ARRAY] unfolding mult_check [symmetric] by auto
  show ?case
  proof (cases "UINT32_MAX < unat c * unat d")
    case True
    then have "dims_overflow (unat c) (unat d # ds)" using dims_overflow_Cons [OF unat_u32_max] dims_overflow_big by blast
    then show ?thesis using e True by (intro exI [of _ b]) simp
  next
    case False
    then have "unat (c * d) = unat c * unat d" using unat_mult_u32 by simp
    then obtain b' where "ptr_guessed b b'" "resolve_loop M b q (c * d) = Some (if dims_overflow (unat c) (unat d # ds) then Inl (- E2BIG)
        else Inr (c * d * of_nat (prod_list ds), s), b')"
      using array.IH [OF N(2) q, of "c * d"] dims_overflow_Cons [OF unat_u32_max, of c "unat d" ds] by auto
    then show ?thesis using e False by (intro exI [of _ b']) (simp add: mult.assoc)
  qed
qed

lemma resolve_loop_no_shape:
  assumes ok: "obj_ok b" and "\<And>n ds s. shape b i n ds s \<Longrightarrow> \<not> n < N" and "btf__type_by_id (otys b) i = Some p"
  shows "\<exists>r. resolve_loop N b p c = Some (r, b) \<and> (r = Inl (- EINVAL) \<or> r = Inl (- E2BIG) \<or> (\<exists>c'. r = Inr (c', - 1)))"
  using assms(2,3)
proof (induction N arbitrary: i p c)
  case (Suc N)
  have types: "types_ok (otys b)" using ok by (simp add: obj_ok_def)
  have IH: "\<exists>r. resolve_loop N b q c = Some (r, b) \<and> (r = Inl (- EINVAL) \<or> r = Inl (- E2BIG) \<or> (\<exists>c'. r = Inr (c', - 1)))"
    if "btf__type_by_id (otys b) j = Some q" "\<And>n ds s. shape b j n ds s \<Longrightarrow> \<exists>ds'. shape b i (Suc n) ds' s" for j q c
    using Suc.IH [OF _ that(1)] that(2) Suc.prems(1) by (metis Suc_mono)
  show ?case
  proof (cases p)
    case None
    then show ?thesis by (simp add: btf_type_is_void_or_null_def)
  next
    case (Some t)
    then have t: "btf__type_by_id (otys b) i = Some (Some t)" "type_ok t"
      using Suc.prems(2) btf__type_by_id_cases [OF types, of i] by auto
    obtain k n j where k: "btf_kind t = Some k" "t_size t = Some n" "t_type t = Some j"
      using type_ok_kind [OF t(2)] type_ok_fields [OF t(2)] by metis
    have "\<exists>st. btf_type_is_void_or_null p = Some st"
      using k(1) by (auto simp: Some btf_type_is_void_or_null_def btf_type_is_void_def btf_is_fwd_def)
    then obtain st where st: "btf_type_is_void_or_null p = Some st" by blast
    have ns: "k \<notin> sized_kinds" "k \<noteq> BTF_KIND_PTR"
      using shape.sized [OF t(1) k(1) _ k(2)] shape.ptr [OF t(1)] k(1) btf_ptr_sz_total [OF ok] Suc.prems(1) by blast+
    consider "st" | "\<not> st" "k \<in> ref_kinds" | "\<not> st" "k = BTF_KIND_ARRAY" | "\<not> st" "k \<notin> ref_kinds" "k \<noteq> BTF_KIND_ARRAY" by blast
    then show ?thesis
    proof cases
      case 1
      then show ?thesis using st by simp
    next
      case 2
      obtain q where q: "btf__type_by_id (otys b) j = Some q" using btf__type_by_id_cases [OF types, of j] by metis
      have "resolve_loop (Suc N) b p c = resolve_loop N b q c" using 2 st k ns q Some by auto
      then show ?thesis using IH [OF q] shape.ref [OF t(1) k(1) 2(2) k(3)] by metis
    next
      case 3
      obtain d j where a: "a_nelems t = Some d" "a_type t = Some j" using type_ok_array [OF t(2)] k(1) 3 by auto
      obtain q where q: "btf__type_by_id (otys b) j = Some q" using btf__type_by_id_cases [OF types, of j] by metis
      have e: "resolve_loop (Suc N) b p c = (if UINT32_MAX < unat c * unat d then Some (Inl (- E2BIG), b) else resolve_loop N b q (c * d))"
        using 3 st k a q Some unfolding mult_check [symmetric] by auto
      have "\<exists>r. resolve_loop N b q (c * d) = Some (r, b) \<and> (r = Inl (- EINVAL) \<or> r = Inl (- E2BIG) \<or> (\<exists>c'. r = Inr (c', - 1)))"
        by (rule IH [OF q]) (use shape.array [OF t(1) _ a] k(1) 3 in blast)
      then show ?thesis unfolding e by simp
    next
      case 4
      then show ?thesis using st k ns Some by auto
    qed
  qed
qed simp

lemma shape_nonneg: "obj_ok b \<Longrightarrow> shape b i n ds s \<Longrightarrow> 0 \<le> s"
  by (erule shape.induct) (use btf_ptr_sz_total in fastforce)+

lemma btf__resolve_size_eq:
  assumes ok: "obj_ok b" and sh: "shape b i n ds s" and n: "n < 32" and p: "btf__type_by_id (otys b) i = Some p"
  shows "\<exists>b'. ptr_guessed b b' \<and> btf__resolve_size b i = Some (if size_overflow ds s then - E2BIG else int (prod_list ds) * s, b')"
proof -
  obtain b' where b': "ptr_guessed b b'" "resolve_loop 32 b p 1 = Some (if dims_overflow 1 ds then Inl (- E2BIG) else Inr (of_nat (prod_list ds), s), b')"
    using resolve_loop_shape [OF sh n p, of 1] by auto
  show ?thesis
  proof (cases "dims_overflow 1 ds")
    case True
    then show ?thesis using b' p by (auto simp: btf__resolve_size_def MAX_RESOLVE_DEPTH_def size_overflow_def)
  next
    case False
    then have "prod_list ds \<le> UINT32_MAX" by (auto simp: dims_overflow_def not_less)
    then have u: "unat (of_nat (prod_list ds) :: u32) = prod_list ds" by (intro unat_of_nat_u32) (simp add: UINT32_MAX_def)
    have s: "s = int (nat s)" using shape_nonneg [OF ok sh] by simp
    have "(of_nat (prod_list ds) :: u32) \<noteq> 0 \<and> UINT32_MAX div prod_list ds < nat s \<longleftrightarrow> UINT32_MAX < prod_list ds * nat s"
      using mult_check [of "of_nat (prod_list ds)" "nat s"] by (simp only: u)
    then have "(of_nat (prod_list ds) :: u32) \<noteq> 0 \<and> int (UINT32_MAX div prod_list ds) < s \<longleftrightarrow> int UINT32_MAX < int (prod_list ds) * s"
      using s by (metis of_nat_less_iff of_nat_mult)
    moreover have "uint (of_nat (prod_list ds) :: u32) = int (prod_list ds)" using u by (metis uint_nat)
    ultimately show ?thesis using b' p False shape_nonneg [OF ok sh] u
      by (auto simp: btf__resolve_size_def MAX_RESOLVE_DEPTH_def size_overflow_def)
  qed
qed

text \<open>
  C15. The size of a type: on a well-formed object \<open>btf__resolve_size\<close> reads only inside it, and
  computes the size that the type has (\<open>shape\<close>), the product of the array dimensions and of
  the size of the element, when it is found behind fewer than 32 references and arrays; a product
  that does not fit 32 bits gives E2BIG.  Any other type gives an error.  The object
  changes at most in the pointer size that it caches.
\<close>

theorem btf__resolve_size_shape:
  assumes "obj_ok b"
  shows "\<exists>r b'. btf__resolve_size b i = Some (r, b') \<and> ptr_guessed b b' \<and>
    (\<forall>n ds s. shape b i n ds s \<and> n < 32 \<longrightarrow> r = (if size_overflow ds s then - E2BIG else int (prod_list ds) * s)) \<and>
    ((\<nexists>n ds s. shape b i n ds s \<and> n < 32) \<longrightarrow> r = - EINVAL \<or> r = - E2BIG)"
proof -
  obtain p where p: "btf__type_by_id (otys b) i = Some p"
    using assms btf__type_by_id_cases [of "otys b" i] by (metis obj_ok_def)
  show ?thesis
  proof (cases "\<exists>n ds s. shape b i n ds s \<and> n < 32")
    case True
    then obtain n ds s where sh: "shape b i n ds s" "n < 32" by blast
    then obtain r b' where r: "ptr_guessed b b'" "btf__resolve_size b i = Some (r, b')"
      using btf__resolve_size_eq [OF assms _ _ p] by blast
    moreover have "r = (if size_overflow ds s then - E2BIG else int (prod_list ds) * s)" if "shape b i n ds s \<and> n < 32" for n ds s
      using btf__resolve_size_eq [OF assms that [THEN conjunct1] that [THEN conjunct2] p] r(2) by auto
    ultimately show ?thesis by (intro exI [of _ r] exI [of _ b']) (use True in blast)
  next
    case False
    then obtain r where "resolve_loop 32 b p 1 = Some (r, b)" "r = Inl (- EINVAL) \<or> r = Inl (- E2BIG) \<or> (\<exists>c'. r = Inr (c', - 1))"
      using resolve_loop_no_shape [OF assms _ p, of 32 1] by blast
    then show ?thesis using False p by (auto simp: btf__resolve_size_def MAX_RESOLVE_DEPTH_def)
  qed
qed

section \<open>Search by name\<close>

text \<open>The name of a type, when it has one.\<close>

definition name_of :: "btf_obj \<Rightarrow> u32 \<Rightarrow> string option" where
  "name_of b i = do {
     p \<leftarrow> btf__type_by_id (otys b) i;
     t \<leftarrow> p;
     off \<leftarrow> t_name_off t;
     name \<leftarrow> btf__name_by_offset (ostrs b) (unat off);
     name
   }"

definition matches :: "btf_obj \<Rightarrow> string \<Rightarrow> btf_kinds \<Rightarrow> u32 \<Rightarrow> bool" where
  "matches b s k i \<longleftrightarrow> name_of b i = Some s \<and> (\<exists>t. btf__type_by_id (otys b) i = Some (Some t) \<and> btf_kind t = Some k)"

definition first_id :: "(u32 \<Rightarrow> bool) \<Rightarrow> u32 list \<Rightarrow> int" where
  "first_id P is = (case find P is of None \<Rightarrow> - ENOENT | Some i \<Rightarrow> sint i)"

lemma find_name_first:
  assumes ok: "obj_ok b" and "\<forall>i \<in> set is. i < btf__type_cnt (otys b)"
  shows "find_name b s is = Some (first_id (\<lambda>i. name_of b i = Some s) is)"
  using assms(2)
proof (induction "is")
  case (Cons i "is")
  have ok': "types_ok (otys b)" "strs_ok (ostrs b)" using ok by (simp_all add: obj_ok_def)
  obtain t where t: "btf__type_by_id (otys b) i = Some (Some t)" "type_ok t"
    by (rule btf__type_by_id_cases [OF ok'(1), of i]) (use Cons.prems in auto)
  obtain off name where "t_name_off t = Some off" "btf__name_by_offset (ostrs b) (unat off) = Some name"
    using type_ok_fields [OF t(2)] btf__name_by_offset_total [OF ok'(2)] by metis
  then show ?case using t Cons by (auto simp: first_id_def name_of_def split: option.splits)
qed (simp add: first_id_def)

lemma find_name_kind_first:
  assumes ok: "obj_ok b" and "\<forall>i \<in> set is. i < btf__type_cnt (otys b)"
  shows "find_name_kind b s k is = Some (first_id (matches b s k) is)"
  using assms(2)
proof (induction "is")
  case (Cons i "is")
  have ok': "types_ok (otys b)" "strs_ok (ostrs b)" using ok by (simp_all add: obj_ok_def)
  obtain t where t: "btf__type_by_id (otys b) i = Some (Some t)" "type_ok t"
    by (rule btf__type_by_id_cases [OF ok'(1), of i]) (use Cons.prems in auto)
  obtain off name l where "t_name_off t = Some off" "btf__name_by_offset (ostrs b) (unat off) = Some name" "btf_kind t = Some l"
    using type_ok_fields [OF t(2)] type_ok_kind [OF t(2)] btf__name_by_offset_total [OF ok'(2)] by metis
  then show ?case using t Cons by (auto simp: first_id_def name_of_def matches_def split: option.splits)
qed (simp add: first_id_def)

lemma find_ids_from:
  assumes "find P (ids_from k n) = Some i"
  shows "P i \<and> k \<le> unat i \<and> i < n \<and> (\<forall>j. k \<le> unat j \<and> j < i \<longrightarrow> \<not> P j)"
proof -
  obtain q where q: "q < length (ids_from k n)" "i = ids_from k n ! q" "P i" "\<forall>r < q. \<not> P (ids_from k n ! r)"
    using assms unfolding find_Some_iff by metis
  have l: "length (ids_from k n) = unat n - k" "\<And>r. r < unat n - k \<Longrightarrow> ids_from k n ! r = of_nat (k + r)"
    by (auto simp: ids_from_def)
  have un: "unat (of_nat (k + r) :: u32) = k + r" if "r < unat n - k" for r
    using that unat_lt [of n] by (intro unat_of_nat_u32) simp
  have "\<not> P j" if j: "k \<le> unat j" "j < i" for j
  proof -
    have "unat j < k + q" using j(2) q(1,2) l un [of q] by (simp add: word_less_nat_alt)
    then have "ids_from k n ! (unat j - k) = j" "unat j - k < q" using j(1) q(1) l by auto
    then show ?thesis using q(4) by metis
  qed
  then show ?thesis using q ids_from_less [of i k n] nth_mem [OF q(1)] by auto
qed

lemma not_find_ids_from:
  assumes "find P (ids_from k n) = None" and "k \<le> unat i" and "i < n"
  shows "\<not> P i"
proof -
  have "i \<in> set (ids_from k n)" using assms(2,3)
    by (auto simp: ids_from_def word_less_nat_alt image_iff intro!: bexI [of _ "unat i"])
  then show ?thesis using assms(1) by (simp add: find_None_iff)
qed

text \<open>
  C16. Search by name and kind: on a well-formed object \<open>btf__find_by_name_kind\<close> gives the first type
  with the name and the kind, ENOENT when there is none, and reads only inside the object;
  the name \<^verbatim>\<open>void\<close> and the kind 0 give the id 0.
\<close>

theorem btf__find_by_name_kind_least:
  assumes "obj_ok b"
  shows "\<exists>r. btf__find_by_name_kind b s k = Some r \<and>
    (if k = BTF_KIND_UNKN \<or> s = ''void'' then r = 0
     else if \<exists>i. i \<noteq> 0 \<and> matches b s k i then \<exists>i. r = sint i \<and> i \<noteq> 0 \<and> matches b s k i \<and> (\<forall>j. j \<noteq> 0 \<and> j < i \<longrightarrow> \<not> matches b s k j)
     else r = - ENOENT)"
proof (cases "k = BTF_KIND_UNKN \<or> s = ''void''")
  case True
  then show ?thesis by (auto simp: btf__find_by_name_kind_def btf_find_by_name_kind_def)
next
  case False
  let ?n = "btf__type_cnt (otys b)"
  have "btf__find_by_name_kind b s k = Some (first_id (matches b s k) (ids_from 1 ?n))"
    using False find_name_kind_first [OF assms(1), of "ids_from 1 ?n" s k] ids_from_less unfolding matches_def
    by (auto simp: btf__find_by_name_kind_def btf_find_by_name_kind_def)
  moreover have m: "i < ?n" if "matches b s k i" for i
    using that by (auto simp: matches_def btf__type_by_id_def btf__type_cnt_def split: if_splits)
  have nz: "1 \<le> unat i \<longleftrightarrow> i \<noteq> 0" for i :: u32 by (simp add: Suc_le_eq unat_gt_0)
  ultimately show ?thesis
  proof (cases "find (matches b s k) (ids_from 1 ?n)")
    case None
    then have "\<nexists>i. i \<noteq> 0 \<and> matches b s k i" using not_find_ids_from [of "matches b s k" 1 ?n] m nz by blast
    then show ?thesis using False None \<open>btf__find_by_name_kind b s k = _\<close> by (auto simp: first_id_def)
  next
    case (Some i)
    then show ?thesis using False find_ids_from [OF Some] nz \<open>btf__find_by_name_kind b s k = _\<close> by (auto simp: first_id_def)
  qed
qed

section \<open>Alignment\<close>

abbreviation min_kinds :: "btf_kinds set" where "min_kinds \<equiv> {BTF_KIND_INT, BTF_KIND_ENUM, BTF_KIND_ENUM64, BTF_KIND_FLOAT}"

abbreviation mod_kinds :: "btf_kinds set" where
  "mod_kinds \<equiv> {BTF_KIND_TYPEDEF, BTF_KIND_VOLATILE, BTF_KIND_CONST, BTF_KIND_RESTRICT, BTF_KIND_TYPE_TAG}"

abbreviation comp_kinds :: "btf_kinds set" where "comp_kinds \<equiv> {BTF_KIND_STRUCT, BTF_KIND_UNION}"

text \<open>
  \<open>aligned b w i a\<close>: in an object with pointers of \<open>w\<close> bytes the type \<open>i\<close> has the alignment \<open>a\<close>.  A scalar has the smaller one of its
  size and \<open>w\<close>, a pointer \<open>w\<close>, a typedef, a modifier and an array that of the type behind it, and a structure the largest of its
  members, at least 1.  The alignment 0 means that there is none: of the other kinds, and of a structure with a member without one.
\<close>

inductive aligned :: "btf_obj \<Rightarrow> int \<Rightarrow> u32 \<Rightarrow> int \<Rightarrow> bool" for b w where
  scalar: "btf__type_by_id (otys b) i = Some (Some t) \<Longrightarrow> btf_kind t = Some k \<Longrightarrow> k \<in> min_kinds \<Longrightarrow>
    t_size t = Some n \<Longrightarrow> aligned b w i (min w (uint n))"
| pointer: "btf__type_by_id (otys b) i = Some (Some t) \<Longrightarrow> btf_kind t = Some BTF_KIND_PTR \<Longrightarrow> aligned b w i w"
| behind: "btf__type_by_id (otys b) i = Some (Some t) \<Longrightarrow> btf_kind t = Some k \<Longrightarrow> k \<in> mod_kinds \<Longrightarrow>
    t_type t = Some j \<Longrightarrow> aligned b w j a \<Longrightarrow> aligned b w i a"
| element: "btf__type_by_id (otys b) i = Some (Some t) \<Longrightarrow> btf_kind t = Some BTF_KIND_ARRAY \<Longrightarrow>
    a_type t = Some j \<Longrightarrow> aligned b w j a \<Longrightarrow> aligned b w i a"
| members: "btf__type_by_id (otys b) i = Some (Some t) \<Longrightarrow> btf_kind t = Some k \<Longrightarrow> k \<in> comp_kinds \<Longrightarrow> btf_vlen t = Some m \<Longrightarrow>
    (\<And>l. l < m \<Longrightarrow> 0 < al l \<and> (\<exists>j. m_type t l = Some j \<and> aligned b w j (al l))) \<Longrightarrow> aligned b w i (Max (insert 1 (al ` {..<m})))"
| no_member: "btf__type_by_id (otys b) i = Some (Some t) \<Longrightarrow> btf_kind t = Some k \<Longrightarrow> k \<in> comp_kinds \<Longrightarrow> btf_vlen t = Some m \<Longrightarrow>
    p < m \<Longrightarrow> (\<And>l. l < p \<Longrightarrow> 0 < al l \<and> (\<exists>j. m_type t l = Some j \<and> aligned b w j (al l))) \<Longrightarrow>
    m_type t p = Some j' \<Longrightarrow> aligned b w j' 0 \<Longrightarrow> aligned b w i 0"
| none: "btf__type_by_id (otys b) i = Some (Some t) \<Longrightarrow> btf_kind t = Some k \<Longrightarrow>
    k \<notin> insert BTF_KIND_PTR (insert BTF_KIND_ARRAY (min_kinds \<union> mod_kinds \<union> comp_kinds)) \<Longrightarrow> aligned b w i 0"

text \<open>The object keeps the pointer size it has guessed: \<open>b0\<close> is the object afterwards.\<close>

definition pointers :: "btf_obj \<Rightarrow> int \<Rightarrow> btf_obj \<Rightarrow> bool" where
  "pointers b w b0 \<longleftrightarrow> w \<in> {4, 8} \<and> btf_ptr_sz b = Some (w, b0)"

lemma long_size_pos: "long_size b is = Some n \<Longrightarrow> n \<in> {- 1, 4, 8}"
proof (induction "is")
  case (Cons i "is")
  then show ?case by (auto split: Option.bind_splits option.splits if_splits)
qed simp

lemma btf_ptr_sz_stable:
  assumes "btf_ptr_sz b = Some (w, b0)"
  shows "btf_ptr_sz b0 = Some (w, b0)"
proof -
  have g: "guess_ptr_sz b = Some b0" "w = (if ptr_sz (types_sec (otys b0)) < 0 then 8 else ptr_sz (types_sec (otys b0)))"
    using assms by (auto simp: btf_ptr_sz_def split: Option.bind_splits)
  have "ptr_sz (types_sec (otys b0)) \<noteq> 0"
  proof (cases "ptr_sz (types_sec (otys b)) = 0")
    case True
    then obtain n where n: "determine_ptr_size b = Some n" "b0 = upd_sec (\<lambda>s. s\<lparr>ptr_sz := n\<rparr>) b" using g(1) by (auto simp: guess_ptr_sz_def)
    have "n \<noteq> 0" using n(1) long_size_pos [of b _ 0]
      by (cases "types_base (otys b)") (auto simp: determine_ptr_size_def split: if_splits)
    then show ?thesis using n(2) by (simp add: upd_sec_def)
  next
    case False
    then show ?thesis using g(1) by (simp add: guess_ptr_sz_def)
  qed
  then show ?thesis using g(2) by (simp add: btf_ptr_sz_def guess_ptr_sz_def)
qed

lemma ptr_guessed_trans: "ptr_guessed b b' \<Longrightarrow> ptr_guessed b' b'' \<Longrightarrow> ptr_guessed b b''"
  by (auto simp: ptr_guessed_def upd_sec_def)

lemma btf__type_by_id_guessed: "ptr_guessed b b' \<Longrightarrow> btf__type_by_id (otys b') i = btf__type_by_id (otys b) i"
  by (cases "otys b") (auto simp: ptr_guessed_def upd_sec_def btf__type_by_id_def Let_def)

lemma obj_ok_guessed: "ptr_guessed b b' \<Longrightarrow> obj_ok b' = obj_ok b"
proof -
  have "sec_ok (s\<lparr>ptr_sz := n\<rparr>) = sec_ok s" for s n by (simp add: sec_ok_def sec_offs_def)
  then have "types_ok (Types base (s\<lparr>ptr_sz := n\<rparr>)) = types_ok (Types base s)"
    "halves_match strs (Types base (s\<lparr>ptr_sz := n\<rparr>)) = halves_match strs (Types base s)" for base s n strs
    by (cases base; cases strs; simp)+
  moreover assume "ptr_guessed b b'"
  ultimately show ?thesis by (cases "otys b") (auto simp: ptr_guessed_def upd_sec_def obj_ok_def simp del: types_ok.simps halves_match.simps)
qed

lemma common_bound:
  assumes "\<forall>l < (n :: nat). \<exists>N :: nat. \<forall>f \<ge> N. P l f"
  shows "\<exists>N. \<forall>f \<ge> N. \<forall>l < n. P l f"
proof -
  obtain g where g: "\<forall>l < n. \<forall>f \<ge> g l. P l f" using assms by metis
  have "g l \<le> Max (g ` {..<n})" if "l < n" for l using that by simp
  then show ?thesis using g by (meson order_trans)
qed

text \<open>
  The calls on \<open>b\<close> and on \<open>b0\<close> are the same.  \<open>gives f i a\<close>: the call returns \<open>a\<close> on both.
\<close>

definition gives :: "btf_obj \<Rightarrow> btf_obj \<Rightarrow> nat \<Rightarrow> u32 \<Rightarrow> int \<Rightarrow> bool" where
  "gives b b0 f i a \<longleftrightarrow> (\<forall>b1 \<in> {b, b0}. \<exists>b2 \<in> {b, b0}. btf__align_of f b1 i = Some (Some (a, b2)))"

lemma pointersD:
  assumes "pointers b w b0" and "b1 \<in> {b, b0}"
  shows "btf_ptr_sz b1 = Some (w, b0)" and "btf__type_by_id (otys b1) i = btf__type_by_id (otys b) i" and "to_int w = w" and "to_int (min w (uint (n :: u32))) = min w (uint n)"
proof -
  have p: "btf_ptr_sz b = Some (w, b0)" "w \<in> {4, 8}" using assms(1) by (simp_all add: pointers_def)
  show "btf_ptr_sz b1 = Some (w, b0)" using assms(2) p btf_ptr_sz_stable [OF p(1)] by auto
  show "btf__type_by_id (otys b1) i = btf__type_by_id (otys b) i" using assms(2) btf__type_by_id_guessed [OF btf_ptr_sz_guessed [OF p(1)]] by auto
  show "to_int w = w" using p(2) by (auto simp: c_simps)
  have tv: "to_int v = v" if "0 \<le> v" "v \<le> 8" for v by (rule to_int_in) (use that in simp_all)
  have "0 \<le> min w (uint n)" "min w (uint n) \<le> 8" using p(2) by auto
  then show "to_int (min w (uint n)) = min w (uint n)" using tv by blast
qed

lemma gives_from:
  assumes "\<And>f. f \<ge> N \<Longrightarrow> gives b b0 (Suc f) i a"
  shows "\<exists>N. \<forall>f \<ge> N. gives b b0 f i a"
proof (intro exI allI impI)
  fix f
  assume "f \<ge> Suc N"
  then show "gives b b0 f i a" using assms by (cases f) auto
qed

lemma gives_step:
  assumes "pointers b w b0" and "btf__type_by_id (otys b) i = Some (Some t)"
    and "\<And>b1. b1 \<in> {b, b0} \<Longrightarrow> btf_ptr_sz b1 = Some (w, b0) \<Longrightarrow> btf__type_by_id (otys b1) i = Some (Some t) \<Longrightarrow>
      \<exists>b2 \<in> {b, b0}. btf__align_of (Suc f) b1 i = Some (Some (a, b2))"
  shows "gives b b0 (Suc f) i a"
  unfolding gives_def using assms(3) pointersD(1,2) [OF assms(1)] assms(2) by metis

lemma Max_insert_max: "finite S \<Longrightarrow> Max (insert a (insert c S)) = Max (insert (max a c) S)" for a :: int
  by (cases "S = {}") (simp_all add: max.assoc)

lemma align_members_gives:
  assumes "\<And>l. i \<le> l \<Longrightarrow> l < i + n \<Longrightarrow> 0 < al l \<and> (\<exists>j. m_type t l = Some j \<and> gives b b0 f j (al l))" and "b1 \<in> {b, b0}"
  shows "\<exists>b2 \<in> {b, b0}. align_members (btf__align_of f) b1 t i n a = Some (Some (Max (insert a (al ` {i..<i + n})), b2))"
  using assms
proof (induction n arbitrary: i a b1)
  case (Suc n)
  obtain j b2 where j: "m_type t i = Some j" "b2 \<in> {b, b0}" "btf__align_of f b1 j = Some (Some (al i, b2))" "0 < al i"
    using Suc.prems(1) [of i] Suc.prems(2) by (auto simp: gives_def)
  obtain b3 where b3: "b3 \<in> {b, b0}"
    "align_members (btf__align_of f) b2 t (Suc i) n (max a (al i)) = Some (Some (Max (insert (max a (al i)) (al ` {Suc i..<Suc i + n})), b3))"
    using Suc.IH [OF _ j(2), of "Suc i" "max a (al i)"] Suc.prems(1) by auto
  have "{i..<i + Suc n} = insert i {Suc i..<Suc i + n}" by auto
  then have "Max (insert a (al ` {i..<i + Suc n})) = Max (insert (max a (al i)) (al ` {Suc i..<Suc i + n}))"
    by (simp only: image_insert Max_insert_max finite_imageI finite_atLeastLessThan)
  then show ?case using j b3 by auto
qed auto

lemma align_members_stops:
  assumes "p < n" and "\<And>l. i \<le> l \<Longrightarrow> l < i + p \<Longrightarrow> 0 < al l \<and> (\<exists>j. m_type t l = Some j \<and> gives b b0 f j (al l))" and "b1 \<in> {b, b0}"
    and "m_type t (i + p) = Some j'" and "gives b b0 f j' 0"
  shows "\<exists>b2 \<in> {b, b0}. align_members (btf__align_of f) b1 t i n a = Some (Some (0, b2))"
  using assms
proof (induction p arbitrary: i a b1 n)
  case 0
  then obtain m where "n = Suc m" by (cases n) auto
  then show ?case using 0 by (auto simp: gives_def)
next
  case (Suc p)
  obtain m where m: "n = Suc m" "p < m" using Suc.prems(1) by (cases n) auto
  obtain j b2 where j: "m_type t i = Some j" "b2 \<in> {b, b0}" "btf__align_of f b1 j = Some (Some (al i, b2))" "0 < al i"
    using Suc.prems(2) [of i] Suc.prems(3) by (auto simp: gives_def)
  have "\<exists>b3 \<in> {b, b0}. align_members (btf__align_of f) b2 t (Suc i) m (max a (al i)) = Some (Some (0, b3))"
    by (rule Suc.IH [OF m(2) _ j(2)]) (use Suc.prems in auto)
  then show ?case using m(1) j by auto
qed

lemma aligned_gives:
  assumes "aligned b w i a" and P: "pointers b w b0"
  shows "\<exists>N. \<forall>f \<ge> N. gives b b0 f i a"
  using assms(1)
proof induction
  case (scalar i t k n)
  have "gives b b0 (Suc f) i (min w (uint n))" for f
    by (rule gives_step [OF P scalar(1)]) (use scalar pointersD(4) [OF P, of b n] in auto)
  then show ?case by (rule gives_from [of 0])
next
  case (pointer i t)
  have "gives b b0 (Suc f) i w" for f
    by (rule gives_step [OF P pointer(1)]) (use pointer pointersD(3) [OF P, of b] in auto)
  then show ?case by (rule gives_from [of 0])
next
  case (behind i t k j a)
  then obtain N where N: "\<forall>f \<ge> N. gives b b0 f j a" by blast
  have "gives b b0 (Suc f) i a" if "f \<ge> N" for f
    by (rule gives_step [OF P behind(1)]) (use N that behind(2-4) in \<open>auto simp: gives_def\<close>)
  then show ?case by (rule gives_from)
next
  case (element i t j a)
  then obtain N where N: "\<forall>f \<ge> N. gives b b0 f j a" by blast
  have "gives b b0 (Suc f) i a" if "f \<ge> N" for f
    by (rule gives_step [OF P element(1)]) (use N that element(2,3) in \<open>auto simp: gives_def\<close>)
  then show ?case by (rule gives_from)
next
  case (members i t k m al)
  have "\<forall>l < m. \<exists>N. \<forall>f \<ge> N. 0 < al l \<and> (\<exists>j. m_type t l = Some j \<and> gives b b0 f j (al l))" using members(5) by blast
  then obtain N where N: "\<forall>f \<ge> N. \<forall>l < m. 0 < al l \<and> (\<exists>j. m_type t l = Some j \<and> gives b b0 f j (al l))"
    using common_bound [of m "\<lambda>l f. 0 < al l \<and> (\<exists>j. m_type t l = Some j \<and> gives b b0 f j (al l))"] by blast
  have "gives b b0 (Suc f) i (Max (insert 1 (al ` {..<m})))" if "f \<ge> N" for f
    by (rule gives_step [OF P members(1)])
      (use align_members_gives [of 0 m al t b b0 f _ 1] N that members(2-4) in \<open>auto simp: lessThan_atLeast0\<close>)
  then show ?case by (rule gives_from)
next
  case (no_member i t k m p al j')
  have "\<forall>l < p. \<exists>N. \<forall>f \<ge> N. 0 < al l \<and> (\<exists>j. m_type t l = Some j \<and> gives b b0 f j (al l))" using no_member.IH(1) by blast
  then obtain N where N: "\<forall>f \<ge> N. \<forall>l < p. 0 < al l \<and> (\<exists>j. m_type t l = Some j \<and> gives b b0 f j (al l))"
    using common_bound [of p "\<lambda>l f. 0 < al l \<and> (\<exists>j. m_type t l = Some j \<and> gives b b0 f j (al l))"] by blast
  obtain M where M: "\<forall>f \<ge> M. gives b b0 f j' 0" using no_member.IH(2) by blast
  have "gives b b0 (Suc f) i 0" if "f \<ge> max N M" for f
    by (rule gives_step [OF P no_member(1)])
      (use align_members_stops [of p m 0 al t b b0 f _ j' 1] N M that no_member.hyps(2-6) in auto)
  then show ?case by (rule gives_from)
next
  case (none i t k)
  have "gives b b0 (Suc f) i 0" for f by (rule gives_step [OF P none(1)]) (use none in auto)
  then show ?case by (rule gives_from [of 0])
qed

text \<open>Conversely, what is returned is the alignment.\<close>

lemma align_members_sound:
  assumes "\<forall>b1 \<in> {b, b0}. \<forall>i r b2. btf__align_of f b1 i = Some (Some (r, b2)) \<longrightarrow> aligned b w i r \<and> 0 \<le> r \<and> b2 \<in> {b, b0}"
    and "b1 \<in> {b, b0}" and "align_members (btf__align_of f) b1 t i n a = Some (Some (r, b2))"
  shows "b2 \<in> {b, b0} \<and> (\<exists>al. (\<forall>l. i \<le> l \<and> l < i + n \<longrightarrow> 0 < al l \<and> (\<exists>j. m_type t l = Some j \<and> aligned b w j (al l))) \<and> r = Max (insert a (al ` {i..<i + n})) \<or>
    r = 0 \<and> (\<exists>p < n. (\<forall>l. i \<le> l \<and> l < i + p \<longrightarrow> 0 < al l \<and> (\<exists>j. m_type t l = Some j \<and> aligned b w j (al l))) \<and>
      (\<exists>j. m_type t (i + p) = Some j \<and> aligned b w j 0)))"
  using assms(2,3)
proof (induction n arbitrary: i a b1)
  case (Suc n)
  obtain j x where j: "m_type t i = Some j" "btf__align_of f b1 j = Some x" using Suc.prems(2) by (auto split: Option.bind_splits)
  then obtain c b3 where c: "x = Some (c, b3)" using Suc.prems(2) by (auto split: option.splits)
  have s: "aligned b w j c" "0 \<le> c" "b3 \<in> {b, b0}" using assms(1) Suc.prems(1) j(2) c by blast+
  show ?case
  proof (cases "c \<le> 0")
    case True
    then have "r = 0" "b2 = b3" "c = 0" using Suc.prems(2) j c s(2) by auto
    then show ?thesis using s j(1) by (intro conjI exI [of _ "\<lambda>_. 0"] disjI2 exI [of _ "0 :: nat"]) auto
  next
    case False
    then have "align_members (btf__align_of f) b3 t (Suc i) n (max a c) = Some (Some (r, b2))" using Suc.prems(2) j c by simp
    from Suc.IH [OF s(3) this] obtain al where b2: "b2 \<in> {b, b0}" and al: "(\<forall>l. Suc i \<le> l \<and> l < Suc i + n \<longrightarrow> 0 < al l \<and> (\<exists>j. m_type t l = Some j \<and> aligned b w j (al l))) \<and>
        r = Max (insert (max a c) (al ` {Suc i..<Suc i + n})) \<or>
      r = 0 \<and> (\<exists>p < n. (\<forall>l. Suc i \<le> l \<and> l < Suc i + p \<longrightarrow> 0 < al l \<and> (\<exists>j. m_type t l = Some j \<and> aligned b w j (al l))) \<and>
        (\<exists>j. m_type t (Suc i + p) = Some j \<and> aligned b w j 0))" by blast
    define al' where "al' = al(i := c)"
    have al': "0 < al' l \<and> (\<exists>j. m_type t l = Some j \<and> aligned b w j (al' l))"
      if "\<forall>l. Suc i \<le> l \<and> l < Suc i + q \<longrightarrow> 0 < al l \<and> (\<exists>j. m_type t l = Some j \<and> aligned b w j (al l))" "i \<le> l" "l < Suc i + q" for l q
      using that s(1) j(1) False by (cases "l = i") (auto simp: al'_def)
    have "{i..<i + Suc n} = insert i {Suc i..<Suc i + n}" by auto
    then have "al' ` {i..<i + Suc n} = insert c (al ` {Suc i..<Suc i + n})" by (auto simp: al'_def)
    then have mx: "Max (insert a (al' ` {i..<i + Suc n})) = Max (insert (max a c) (al ` {Suc i..<Suc i + n}))"
      by (simp only: Max_insert_max finite_imageI finite_atLeastLessThan)
    from al show ?thesis
    proof
      assume h: "(\<forall>l. Suc i \<le> l \<and> l < Suc i + n \<longrightarrow> 0 < al l \<and> (\<exists>j. m_type t l = Some j \<and> aligned b w j (al l))) \<and> r = Max (insert (max a c) (al ` {Suc i..<Suc i + n}))"
      then show ?thesis using b2 mx al' [of n] by (intro conjI exI [of _ al'] disjI1) auto
    next
      assume "r = 0 \<and> (\<exists>p < n. (\<forall>l. Suc i \<le> l \<and> l < Suc i + p \<longrightarrow> 0 < al l \<and> (\<exists>j. m_type t l = Some j \<and> aligned b w j (al l))) \<and>
        (\<exists>j. m_type t (Suc i + p) = Some j \<and> aligned b w j 0))"
      then obtain p where p: "r = 0" "p < n" "\<forall>l. Suc i \<le> l \<and> l < Suc i + p \<longrightarrow> 0 < al l \<and> (\<exists>j. m_type t l = Some j \<and> aligned b w j (al l))"
        "\<exists>j. m_type t (Suc i + p) = Some j \<and> aligned b w j 0" by blast
      then show ?thesis using b2 al' [OF p(3)] by (intro conjI exI [of _ al'] disjI2 exI [of _ "Suc p"]) auto
    qed
  qed
qed auto

lemma align_of_sound:
  assumes P: "pointers b w b0" and "b1 \<in> {b, b0}" and "btf__align_of f b1 i = Some (Some (r, b2))"
  shows "aligned b w i r \<and> 0 \<le> r \<and> b2 \<in> {b, b0}"
  using assms(2,3)
proof (induction f arbitrary: b1 i r b2)
  case (Suc f)
  obtain p where p: "btf__type_by_id (otys b1) i = Some p" using Suc.prems(2) by (auto split: Option.bind_splits)
  then obtain t where t: "p = Some t" using Suc.prems(2) by (cases p) auto
  then obtain k where k: "btf_kind t = Some k" using Suc.prems(2) p by (auto split: Option.bind_splits)
  have ty: "btf__type_by_id (otys b) i = Some (Some t)" using pointersD(2) [OF P Suc.prems(1), of i] p t by simp
  have w: "w \<in> {4, 8}" using P by (simp add: pointers_def)
  note ps = pointersD(1) [OF P Suc.prems(1)] and run = Suc.prems(2) [unfolded btf__align_of.simps p t Option.bind_lunit k]
  consider (scalar) "k \<in> min_kinds" | (pointer) "k = BTF_KIND_PTR" | (behind) "k \<in> mod_kinds" | (element) "k = BTF_KIND_ARRAY"
    | (comp) "k \<in> comp_kinds" | (none) "k \<notin> insert BTF_KIND_PTR (insert BTF_KIND_ARRAY (min_kinds \<union> mod_kinds \<union> comp_kinds))" by blast
  then show ?case
  proof cases
    case scalar
    then obtain n where n: "t_size t = Some n" "r = to_int (min w (uint n))" "b2 = b0" using run ps by (auto split: Option.bind_splits)
    then have "r = min w (uint n)" using pointersD(4) [OF P, of b n] by simp
    then show ?thesis using aligned.scalar [OF ty k scalar n(1)] n(3) w by auto
  next
    case pointer
    then have "r = w" "b2 = b0" using run ps pointersD(3) [OF P, of b] by auto
    then show ?thesis using aligned.pointer [OF ty] k pointer w by auto
  next
    case behind
    then obtain j where j: "t_type t = Some j" "btf__align_of f b1 j = Some (Some (r, b2))" using run by (auto split: Option.bind_splits)
    then show ?thesis using Suc.IH [OF Suc.prems(1) j(2)] aligned.behind [OF ty k behind j(1)] by blast
  next
    case element
    then obtain j where j: "a_type t = Some j" "btf__align_of f b1 j = Some (Some (r, b2))" using run by (auto split: Option.bind_splits)
    then show ?thesis using Suc.IH [OF Suc.prems(1) j(2)] aligned.element [OF ty _ j(1)] k element by blast
  next
    case comp
    then obtain m where m: "btf_vlen t = Some m" "align_members (btf__align_of f) b1 t 0 m 1 = Some (Some (r, b2))" using run by (auto split: Option.bind_splits)
    have "\<forall>b1 \<in> {b, b0}. \<forall>i r b2. btf__align_of f b1 i = Some (Some (r, b2)) \<longrightarrow> aligned b w i r \<and> 0 \<le> r \<and> b2 \<in> {b, b0}" using Suc.IH by blast
    from align_members_sound [of b b0 f w b1 t 0 m 1 r b2, OF this Suc.prems(1) m(2)]
    obtain al where b2: "b2 \<in> {b, b0}" and al: "(\<forall>l < m. 0 < al l \<and> (\<exists>j. m_type t l = Some j \<and> aligned b w j (al l))) \<and> r = Max (insert 1 (al ` {..<m})) \<or>
      r = 0 \<and> (\<exists>p < m. (\<forall>l < p. 0 < al l \<and> (\<exists>j. m_type t l = Some j \<and> aligned b w j (al l))) \<and> (\<exists>j. m_type t p = Some j \<and> aligned b w j 0))"
      by (auto simp: lessThan_atLeast0)
    have "0 \<le> Max (insert 1 (al ` {..<m}))" by (rule order_trans [OF _ Max_ge [of _ 1]]) auto
    then show ?thesis using al b2 aligned.members [OF ty k comp m(1), of al] aligned.no_member [OF ty k comp m(1)] by blast
  next
    case none
    then have "r = 0" "b2 = b1" using run by auto
    then show ?thesis using aligned.none [OF ty k none] Suc.prems(1) by simp
  qed
qed simp

text \<open>
  C18. Alignment: on any object whose pointers are found to have 4 or 8 bytes, \<open>btf__align_of\<close> returns a number exactly when
  it is the alignment of the type (\<open>aligned\<close>), with enough fuel and then with any more: for scalars the smaller one of size and
  pointer size, for structures the largest of the members, and 0 for what has none.  An id without a type has no alignment, and
  neither has a type that contains itself: the function follows a null pointer there, or recurses without end.  Nothing but the
  pointer size that is kept in the object changes.
\<close>

theorem btf__align_of_aligned:
  assumes "pointers b w b0"
  shows "(\<exists>N. \<forall>f \<ge> N. \<exists>b' \<in> {b, b0}. btf__align_of f b i = Some (Some (a, b'))) \<longleftrightarrow> aligned b w i a"
proof
  assume "\<exists>N. \<forall>f \<ge> N. \<exists>b' \<in> {b, b0}. btf__align_of f b i = Some (Some (a, b'))"
  then show "aligned b w i a" using align_of_sound [OF assms, of b] by blast
next
  assume "aligned b w i a"
  then show "\<exists>N. \<forall>f \<ge> N. \<exists>b' \<in> {b, b0}. btf__align_of f b i = Some (Some (a, b'))"
    using aligned_gives [OF _ assms, of i a] unfolding gives_def by blast
qed

text \<open>An id without a type is a null pointer access, a typedef of itself a recursion without end.\<close>

lemma btf__align_of_null: "btf__type_cnt (otys b) \<le> i \<Longrightarrow> btf__align_of (Suc f) b i = None"
  by (simp add: btf__type_by_id_def btf__type_cnt_def)

lemma btf__align_of_self:
  assumes "btf__type_by_id (otys b) i = Some (Some t)" and "btf_kind t = Some BTF_KIND_TYPEDEF" and "t_type t = Some i"
  shows "btf__align_of f b i = Some None"
  by (induction f) (simp_all add: assms)

section \<open>An object\<close>

text \<open>\<^verbatim>\<open>int\<close> of 4 bytes (id 1), \<^verbatim>\<open>int [3]\<close> (id 2) and a typedef \<^verbatim>\<open>arr\<close> of it (id 3).\<close>

definition arr_obj :: btf_obj where
  "arr_obj = \<lparr>ostrs = Btf None 0 9 (Inl (NUL # ''int'' @ NUL # ''arr'' @ [NUL])),
     otys = Types None \<lparr>hdr = \<lparr>magic = BTF_MAGIC, version = 1, flags = 0, hdr_len = 24, type_off = 0, type_len = 52, str_off = 52, str_len = 9\<rparr>, hdr_more = [],
       raw_data = None, raw_data_swapped = None, raw_size = 85, swapped_endian = False,
       types_data = [1, 0, 0, 0, 0, 0, 0, 1, 4, 0, 0, 0, 32, 0, 0, 1,
         0, 0, 0, 0, 0, 0, 0, 3, 0, 0, 0, 0, 1, 0, 0, 0, 1, 0, 0, 0, 3, 0, 0, 0,
         5, 0, 0, 0, 0, 0, 0, 8, 2, 0, 0, 0],
       types_data_cap = 0, type_offs = [0, 16, 40], type_offs_cap = 3, nr_types = 3, start_id = 1, ptr_sz = 0\<rparr>\<rparr>"

abbreviation arr_type :: "nat \<Rightarrow> type_ptr" where "arr_type k \<equiv> At (types_data (types_sec (otys arr_obj))) k"

lemma arr_types:
  "btf__type_by_id (otys arr_obj) 1 = Some (Some (arr_type 0))"
  "btf__type_by_id (otys arr_obj) 2 = Some (Some (arr_type 16))"
  "btf__type_by_id (otys arr_obj) 3 = Some (Some (arr_type 40))"
  by (simp_all add: arr_obj_def btf__type_by_id_def Let_def word_le_nat_alt)

lemma arr_kinds:
  "btf_kind (arr_type 0) = Some BTF_KIND_INT" "btf_kind (arr_type 16) = Some BTF_KIND_ARRAY" "btf_kind (arr_type 40) = Some BTF_KIND_TYPEDEF"
  by (simp_all add: arr_obj_def btf_kind_def t_info_def load32_def BTF_INFO_KIND_def kind_of_num_def btf_kind_list_def)

lemma arr_fields:
  "t_size (arr_type 0) = Some 4" "a_nelems (arr_type 16) = Some 3" "a_type (arr_type 16) = Some 1" "t_type (arr_type 40) = Some 2"
  by (simp_all add: arr_obj_def t_size_def a_nelems_def a_type_def t_type_def load32_def)

lemma arr_obj_ok: "obj_ok arr_obj"
proof -
  have "btf_type_size (arr_type 0) = Some 16" "btf_type_size (arr_type 16) = Some 24" "btf_type_size (arr_type 40) = Some 12"
    using arr_kinds by (simp_all add: btf_type_size_def btf_vlen_def arr_obj_def t_info_def load32_def)
  then show ?thesis by (simp add: obj_ok_def arr_obj_def sec_ok_def sec_offs_def)
qed

theorem btf__resolve_size_shape_witness: "obj_ok arr_obj \<and> (\<exists>b'. btf__resolve_size arr_obj 3 = Some (12, b'))"
proof
  have "shape arr_obj 1 0 [] (uint (4 :: u32))" using shape.sized [OF arr_types(1) arr_kinds(1) _ arr_fields(1)] by simp
  then have "shape arr_obj 2 1 [3] 4" using shape.array [OF arr_types(2) arr_kinds(2) arr_fields(2,3)] by fastforce
  then have "shape arr_obj 3 2 [3] 4" using shape.ref [OF arr_types(3) arr_kinds(3) _ arr_fields(4)] by (simp add: numeral_eq_Suc)
  moreover have "\<not> size_overflow [3] 4"
    by (auto simp: size_overflow_def dims_overflow_Cons dims_overflow_Nil UINT32_MAX_def)
  ultimately show "\<exists>b'. btf__resolve_size arr_obj 3 = Some (12, b')"
    using btf__resolve_size_shape [OF arr_obj_ok, of 3] by fastforce
qed (rule arr_obj_ok)

lemma arr_name: "name_of arr_obj 1 = Some ''int''"
proof -
  have "t_name_off (arr_type 0) = Some 1" by (simp add: arr_obj_def t_name_off_def load32_def)
  moreover have "btf__name_by_offset (ostrs arr_obj) 1 = Some (Some ''int'')"
    by (simp add: arr_obj_def btf__name_by_offset_def str_at_def NUL_def)
  ultimately show ?thesis by (simp add: name_of_def arr_types)
qed

theorem btf__find_by_name_kind_least_witness: "obj_ok arr_obj \<and> btf__find_by_name_kind arr_obj ''int'' BTF_KIND_INT = Some 1"
proof
  have m: "matches arr_obj ''int'' BTF_KIND_INT 1" by (simp add: matches_def arr_name arr_types arr_kinds)
  then have "\<exists>i. i \<noteq> 0 \<and> matches arr_obj ''int'' BTF_KIND_INT i" by (intro exI [of _ 1]) simp
  then obtain i where "btf__find_by_name_kind arr_obj ''int'' BTF_KIND_INT = Some (sint i)" "i \<noteq> 0"
    "\<forall>j. j \<noteq> 0 \<and> j < i \<longrightarrow> \<not> matches arr_obj ''int'' BTF_KIND_INT j"
    using btf__find_by_name_kind_least [OF arr_obj_ok, of "''int''" BTF_KIND_INT] by auto
  moreover have "i = 1" using calculation(2,3) m by (metis linorder_neqE word_less_1 zero_neq_one)
  ultimately show "btf__find_by_name_kind arr_obj ''int'' BTF_KIND_INT = Some 1" by simp
qed (rule arr_obj_ok)

theorem btf__align_of_aligned_witness:
  "\<exists>b0 N. pointers arr_obj 8 b0 \<and> (\<forall>f \<ge> N. \<exists>b' \<in> {arr_obj, b0}. btf__align_of f arr_obj 3 = Some (Some (4, b')))"
proof -
  have "ids_from 1 4 = [1, 2, 3]" by (simp add: ids_from_def upt_rec)
  moreover have "btf__type_cnt (otys arr_obj) = 4" "types_base (otys arr_obj) = None" "ptr_sz (types_sec (otys arr_obj)) = 0" by (simp_all add: arr_obj_def btf__type_cnt_def)
  moreover have "long_size arr_obj [1, 2, 3] = Some (- 1)"
  proof -
    have "t_name_off (arr_type 0) = Some 1" by (simp add: arr_obj_def t_name_off_def load32_def)
    moreover have "btf__name_by_offset (ostrs arr_obj) 1 = Some (Some ''int'')"
      by (simp add: arr_obj_def btf__name_by_offset_def str_at_def NUL_def)
    moreover have "\<not> list_ex (\<lambda>a. strcmp ''int'' a = 0) long_aliases" by (simp add: long_aliases_def)
    ultimately show ?thesis using arr_types arr_kinds arr_fields by (simp add: btf_is_int_def)
  qed
  ultimately have p: "pointers arr_obj 8 (upd_sec (\<lambda>s. s\<lparr>ptr_sz := - 1\<rparr>) arr_obj)"
    by (simp add: pointers_def btf_ptr_sz_def guess_ptr_sz_def determine_ptr_size_def upd_sec_def)
  have "aligned arr_obj 8 1 4" using aligned.scalar [OF arr_types(1) arr_kinds(1) _ arr_fields(1), of 8] by simp
  then have "aligned arr_obj 8 3 4"
    using aligned.behind [OF arr_types(3) arr_kinds(3) _ arr_fields(4)] aligned.element [OF arr_types(2) arr_kinds(2) arr_fields(3)] by blast
  then show ?thesis using p btf__align_of_aligned [OF p, of 3 4] by blast
qed

end
