(* ===== verification/Btf_Build.thy ===== *)
theory Btf_Build
  imports Btf_Query
begin

text \<open>
  Building a BTF object: the operations of \<^verbatim>\<open>libbpf/src/btf.c\<close> that append types, and the elements of
  the type that was added last.  All of them make the object modifiable, reserve memory behind the
  types, add the name to the strings, write the words of the type or element and then
  count it; they are instances of \<open>append_type\<close> and \<open>append_elem\<close>.

  The abstract view of an object is the list of the bytes of its types (\<open>abs_types\<close>): appending
  a type appends to this list, appending an element changes its last entry.
\<close>

section \<open>Modifiable objects\<close>

definition kind_num :: "btf_kinds \<Rightarrow> nat" where
  "kind_num k = (case k of
       BTF_KIND_UNKN \<Rightarrow> 0 | BTF_KIND_INT \<Rightarrow> 1 | BTF_KIND_PTR \<Rightarrow> 2 | BTF_KIND_ARRAY \<Rightarrow> 3 | BTF_KIND_STRUCT \<Rightarrow> 4
     | BTF_KIND_UNION \<Rightarrow> 5 | BTF_KIND_ENUM \<Rightarrow> 6 | BTF_KIND_FWD \<Rightarrow> 7 | BTF_KIND_TYPEDEF \<Rightarrow> 8 | BTF_KIND_VOLATILE \<Rightarrow> 9
     | BTF_KIND_CONST \<Rightarrow> 10 | BTF_KIND_RESTRICT \<Rightarrow> 11 | BTF_KIND_FUNC \<Rightarrow> 12 | BTF_KIND_FUNC_PROTO \<Rightarrow> 13 | BTF_KIND_VAR \<Rightarrow> 14
     | BTF_KIND_DATASEC \<Rightarrow> 15 | BTF_KIND_FLOAT \<Rightarrow> 16 | BTF_KIND_DECL_TAG \<Rightarrow> 17 | BTF_KIND_TYPE_TAG \<Rightarrow> 18 | BTF_KIND_ENUM64 \<Rightarrow> 19
     | Kind_other n \<Rightarrow> n)"

definition btf_type_info :: "btf_kinds \<Rightarrow> nat \<Rightarrow> bool \<Rightarrow> u32" where
  "btf_type_info kind vlen kflag = push_bit 31 (of_bool kflag) OR push_bit 24 (of_nat (kind_num kind)) OR of_nat vlen"

definition own_sec :: "btf_obj \<Rightarrow> btf_sec" where "own_sec b = types_sec (otys b)"

definition btf_invalidate_raw_data :: "btf_sec \<Rightarrow> btf_sec" where
  "btf_invalidate_raw_data s = s\<lparr>raw_data := None, raw_data_swapped := None\<rparr>"

text \<open>
  \<^verbatim>\<open>btf_ensure_modifiable\<close> with the types: the first time, header and types get memory of their own.
  The copy of the header has \<^verbatim>\<open>hdr_len\<close> bytes; the code goes on to read all 24 bytes of it.
\<close>

definition obj_ensure_modifiable :: "allocs \<Rightarrow> btf_obj \<Rightarrow> (int \<times> btf_obj) option" where
  "obj_ensure_modifiable ok b = do {
     (err, strs) \<leftarrow> btf_ensure_modifiable ok (ostrs b);
     let fresh = \<not> btf_is_modifiable (ostrs b);
     let b = b\<lparr>ostrs := strs\<rparr>;
     if err \<noteq> 0 then Some (err, b)
     else if \<not> fresh then Some (0, upd_sec btf_invalidate_raw_data b)
     else if unat (hdr_len (hdr (own_sec b))) < 24 then None
     else do {
       types \<leftarrow> load_bytes (types_data (own_sec b)) 0 (unat (type_len (hdr (own_sec b))));
       Some (0, upd_sec (\<lambda>s. btf_invalidate_raw_data (s\<lparr>types_data := types, types_data_cap := unat (type_len (hdr s))\<rparr>)) b)
     }
   }"

text \<open>\<^verbatim>\<open>btf__add_str\<close> on an object that is modifiable already.\<close>

definition add_name :: "allocs \<Rightarrow> btf_obj \<Rightarrow> string \<Rightarrow> (int \<times> btf_obj) option" where
  "add_name ok b name = do {
     (off, strs) \<leftarrow> btf__add_str ok (ostrs b) name;
     Some (off, upd_sec (\<lambda>s. s\<lparr>hdr := (hdr s)\<lparr>str_len := of_nat (hdr_str_len strs)\<rparr>\<rparr>) (b\<lparr>ostrs := strs\<rparr>))
   }"

definition btf_add_type_mem :: "bool \<Rightarrow> btf_obj \<Rightarrow> nat \<Rightarrow> btf_obj option" where
  "btf_add_type_mem ok b add_sz =
     map_option (\<lambda>(d, cap). upd_sec (\<lambda>s. s\<lparr>types_data := d, types_data_cap := cap\<rparr>) b)
       (libbpf_add_mem ok 0 (types_data (own_sec b)) (types_data_cap (own_sec b)) 1 (unat (type_len (hdr (own_sec b)))) UINT32_MAX add_sz)"

definition btf_commit_type :: "bool \<Rightarrow> btf_obj \<Rightarrow> nat \<Rightarrow> (int \<times> btf_obj) option" where
  "btf_commit_type ok b data_sz = do {
     (err, s) \<leftarrow> btf_add_type_idx_entry ok (own_sec b) (type_len (hdr (own_sec b)));
     if err \<noteq> 0 then Some (err, upd_sec (\<lambda>_. s) b)
     else
       let s = s\<lparr>hdr := (hdr s)\<lparr>type_len := type_len (hdr s) + of_nat data_sz, str_off := str_off (hdr s) + of_nat data_sz\<rparr>,
         nr_types := nr_types s + 1\<rparr>
       in Some (sint (start_id s + nr_types s - 1), upd_sec (\<lambda>_. s) b)
   }"

text \<open>Assignments to consecutive words of the types.\<close>

fun store_words :: "bytes \<Rightarrow> nat \<Rightarrow> u32 list \<Rightarrow> bytes option" where
  "store_words m a [] = Some m"
| "store_words m a (w # ws) = do { m \<leftarrow> store32 m a w; store_words m (a + 4) ws }"

definition write_types :: "btf_obj \<Rightarrow> nat \<Rightarrow> u32 list \<Rightarrow> btf_obj option" where
  "write_types b a ws = map_option (\<lambda>m. upd_sec (\<lambda>s. s\<lparr>types_data := m\<rparr>) b) (store_words (types_data (own_sec b)) a ws)"

text \<open>The allocations of the four parts of an operation.\<close>

definition part :: "nat \<Rightarrow> allocs \<Rightarrow> allocs" where "part k ok = (\<lambda>n. ok (4 * n + k))"

text \<open>A name that is null or empty has offset 0.\<close>

definition add_opt_name :: "allocs \<Rightarrow> btf_obj \<Rightarrow> string option \<Rightarrow> (int \<times> btf_obj) option" where
  "add_opt_name ok b name = (case name of None \<Rightarrow> Some (0, b) | Some s \<Rightarrow> if s = [] then Some (0, b) else add_name ok b s)"

text \<open>The parts that \<open>append_type\<close> and \<open>append_elem\<close> share: an object with room for \<open>n\<close> more bytes, and the name.\<close>

definition prepare :: "allocs \<Rightarrow> btf_obj \<Rightarrow> string option \<Rightarrow> nat \<Rightarrow> (int \<times> btf_obj) option" where
  "prepare ok b name n = do {
     (err, b) \<leftarrow> obj_ensure_modifiable (part 0 ok) b;
     if err \<noteq> 0 then Some (- ENOMEM, b)
     else (case btf_add_type_mem (part 1 ok 0) b n of
         None \<Rightarrow> Some (- ENOMEM, b)
       | Some b \<Rightarrow> add_opt_name (part 2 ok) b name)
   }"

text \<open>\<open>words\<close> gives the words of the type, with the offset of its name.\<close>

definition append_type :: "allocs \<Rightarrow> btf_obj \<Rightarrow> string option \<Rightarrow> (u32 \<Rightarrow> u32 list) \<Rightarrow> (int \<times> btf_obj) option" where
  "append_type ok b name words = do {
     (name_off, b) \<leftarrow> prepare ok b name (4 * length (words 0));
     if name_off < 0 then Some (name_off, b)
     else do {
       b \<leftarrow> write_types b (unat (type_len (hdr (own_sec b)))) (words (of_int name_off));
       btf_commit_type (part 3 ok 0) b (4 * length (words 0))
     }
   }"

section \<open>Types\<close>

definition no_name :: "string option \<Rightarrow> bool" where
  "no_name name \<longleftrightarrow> (case name of None \<Rightarrow> True | Some s \<Rightarrow> s = [])"

definition validate_type_id :: "int \<Rightarrow> int" where
  "validate_type_id i = (if i < 0 \<or> i > int BTF_MAX_NR_TYPES then - EINVAL else 0)"

definition btf__add_int :: "allocs \<Rightarrow> btf_obj \<Rightarrow> string option \<Rightarrow> u64 \<Rightarrow> u32 \<Rightarrow> (int \<times> btf_obj) option" where
  "btf__add_int ok b name byte_sz encoding =
     (if no_name name then Some (- EINVAL, b)
      else if byte_sz = 0 \<or> byte_sz AND (byte_sz - 1) \<noteq> 0 \<or> byte_sz > 16 then Some (- EINVAL, b)
      else if encoding AND NOT (push_bit 0 1 OR push_bit 1 1 OR push_bit 2 1) \<noteq> 0 then Some (- EINVAL, b)
      else append_type ok b name (\<lambda>name_off. [name_off, btf_type_info BTF_KIND_INT 0 False, ucast byte_sz,
        push_bit 24 encoding OR ucast (byte_sz * 8)]))"

definition btf__add_float :: "allocs \<Rightarrow> btf_obj \<Rightarrow> string option \<Rightarrow> u64 \<Rightarrow> (int \<times> btf_obj) option" where
  "btf__add_float ok b name byte_sz =
     (if no_name name then Some (- EINVAL, b)
      else if byte_sz \<noteq> 2 \<and> byte_sz \<noteq> 4 \<and> byte_sz \<noteq> 8 \<and> byte_sz \<noteq> 12 \<and> byte_sz \<noteq> 16 then Some (- EINVAL, b)
      else append_type ok b name (\<lambda>name_off. [name_off, btf_type_info BTF_KIND_FLOAT 0 False, ucast byte_sz]))"

definition btf_add_ref_kind :: "allocs \<Rightarrow> btf_obj \<Rightarrow> btf_kinds \<Rightarrow> string option \<Rightarrow> int \<Rightarrow> (int \<times> btf_obj) option" where
  "btf_add_ref_kind ok b kind name ref_type_id =
     (if validate_type_id ref_type_id \<noteq> 0 then Some (- EINVAL, b)
      else append_type ok b name (\<lambda>name_off. [name_off, btf_type_info kind 0 False, of_int ref_type_id]))"

definition btf__add_ptr :: "allocs \<Rightarrow> btf_obj \<Rightarrow> int \<Rightarrow> (int \<times> btf_obj) option" where
  "btf__add_ptr ok b ref_type_id = btf_add_ref_kind ok b BTF_KIND_PTR None ref_type_id"

definition btf__add_array :: "allocs \<Rightarrow> btf_obj \<Rightarrow> int \<Rightarrow> int \<Rightarrow> u32 \<Rightarrow> (int \<times> btf_obj) option" where
  "btf__add_array ok b index_type_id elem_type_id nr_elems =
     (if validate_type_id index_type_id \<noteq> 0 \<or> validate_type_id elem_type_id \<noteq> 0 then Some (- EINVAL, b)
      else append_type ok b None (\<lambda>_. [0, btf_type_info BTF_KIND_ARRAY 0 False, 0,
        of_int elem_type_id, of_int index_type_id, nr_elems]))"

definition btf_add_composite :: "allocs \<Rightarrow> btf_obj \<Rightarrow> btf_kinds \<Rightarrow> string option \<Rightarrow> u32 \<Rightarrow> (int \<times> btf_obj) option" where
  "btf_add_composite ok b kind name bytes_sz =
     append_type ok b name (\<lambda>name_off. [name_off, btf_type_info kind 0 False, bytes_sz])"

definition btf__add_struct :: "allocs \<Rightarrow> btf_obj \<Rightarrow> string option \<Rightarrow> u32 \<Rightarrow> (int \<times> btf_obj) option" where
  "btf__add_struct ok b name byte_sz = btf_add_composite ok b BTF_KIND_STRUCT name byte_sz"

definition btf__add_union :: "allocs \<Rightarrow> btf_obj \<Rightarrow> string option \<Rightarrow> u32 \<Rightarrow> (int \<times> btf_obj) option" where
  "btf__add_union ok b name byte_sz = btf_add_composite ok b BTF_KIND_UNION name byte_sz"

definition btf_add_enum_common :: "allocs \<Rightarrow> btf_obj \<Rightarrow> string option \<Rightarrow> u32 \<Rightarrow> bool \<Rightarrow> btf_kinds \<Rightarrow> (int \<times> btf_obj) option" where
  "btf_add_enum_common ok b name byte_sz is_signed kind =
     (if byte_sz = 0 \<or> byte_sz AND (byte_sz - 1) \<noteq> 0 \<or> byte_sz > 8 then Some (- EINVAL, b)
      else append_type ok b name (\<lambda>name_off. [name_off, btf_type_info kind 0 is_signed, byte_sz]))"

definition btf__add_enum :: "allocs \<Rightarrow> btf_obj \<Rightarrow> string option \<Rightarrow> u32 \<Rightarrow> (int \<times> btf_obj) option" where
  "btf__add_enum ok b name byte_sz = btf_add_enum_common ok b name byte_sz False BTF_KIND_ENUM"

definition btf__add_enum64 :: "allocs \<Rightarrow> btf_obj \<Rightarrow> string option \<Rightarrow> u32 \<Rightarrow> bool \<Rightarrow> (int \<times> btf_obj) option" where
  "btf__add_enum64 ok b name byte_sz is_signed = btf_add_enum_common ok b name byte_sz is_signed BTF_KIND_ENUM64"

text \<open>An assignment to the word \<^verbatim>\<open>info\<close> of a type of this object.\<close>

definition set_info :: "btf_obj \<Rightarrow> u32 \<Rightarrow> u32 \<Rightarrow> btf_obj option" where
  "set_info b type_id info =
     (let s = own_sec b; i = unat (type_id - start_id s)
      in if start_id s \<le> type_id \<and> i < length (type_offs s) then write_types b (unat (type_offs s ! i) + 4) [info] else None)"

text \<open>The values of \<^verbatim>\<open>enum btf_fwd_kind\<close>, and any other number a caller may pass.\<close>

datatype btf_fwd_kind = BTF_FWD_STRUCT | BTF_FWD_UNION | BTF_FWD_ENUM | Fwd_other u32

definition btf__add_fwd :: "allocs \<Rightarrow> btf_obj \<Rightarrow> string option \<Rightarrow> btf_fwd_kind \<Rightarrow> (int \<times> btf_obj) option" where
  "btf__add_fwd ok b name fwd_kind =
     (if no_name name then Some (- EINVAL, b)
      else if fwd_kind = BTF_FWD_STRUCT \<or> fwd_kind = BTF_FWD_UNION then do {
        (i, b) \<leftarrow> btf_add_ref_kind ok b BTF_KIND_FWD name 0;
        if i \<le> 0 then Some (i, b)
        else do {
          b \<leftarrow> set_info b (of_int i) (btf_type_info BTF_KIND_FWD 0 (fwd_kind = BTF_FWD_UNION));
          Some (i, b)
        }
      }
      else if fwd_kind = BTF_FWD_ENUM then btf__add_enum ok b name 4
      else Some (- EINVAL, b))"

definition btf__add_typedef :: "allocs \<Rightarrow> btf_obj \<Rightarrow> string option \<Rightarrow> int \<Rightarrow> (int \<times> btf_obj) option" where
  "btf__add_typedef ok b name ref_type_id =
     (if no_name name then Some (- EINVAL, b) else btf_add_ref_kind ok b BTF_KIND_TYPEDEF name ref_type_id)"

definition btf__add_volatile :: "allocs \<Rightarrow> btf_obj \<Rightarrow> int \<Rightarrow> (int \<times> btf_obj) option" where
  "btf__add_volatile ok b ref_type_id = btf_add_ref_kind ok b BTF_KIND_VOLATILE None ref_type_id"

definition btf__add_const :: "allocs \<Rightarrow> btf_obj \<Rightarrow> int \<Rightarrow> (int \<times> btf_obj) option" where
  "btf__add_const ok b ref_type_id = btf_add_ref_kind ok b BTF_KIND_CONST None ref_type_id"

definition btf__add_restrict :: "allocs \<Rightarrow> btf_obj \<Rightarrow> int \<Rightarrow> (int \<times> btf_obj) option" where
  "btf__add_restrict ok b ref_type_id = btf_add_ref_kind ok b BTF_KIND_RESTRICT None ref_type_id"

definition btf__add_type_tag :: "allocs \<Rightarrow> btf_obj \<Rightarrow> string option \<Rightarrow> int \<Rightarrow> (int \<times> btf_obj) option" where
  "btf__add_type_tag ok b val ref_type_id =
     (if no_name val then Some (- EINVAL, b) else btf_add_ref_kind ok b BTF_KIND_TYPE_TAG val ref_type_id)"

definition btf__add_func :: "allocs \<Rightarrow> btf_obj \<Rightarrow> string option \<Rightarrow> nat \<Rightarrow> int \<Rightarrow> (int \<times> btf_obj) option" where
  "btf__add_func ok b name linkage proto_type_id =
     (if no_name name then Some (- EINVAL, b)
      else if linkage \<noteq> 0 \<and> linkage \<noteq> 1 \<and> linkage \<noteq> 2 then Some (- EINVAL, b)
      else do {
        (i, b) \<leftarrow> btf_add_ref_kind ok b BTF_KIND_FUNC name proto_type_id;
        if i > 0 then do {
          b \<leftarrow> set_info b (of_int i) (btf_type_info BTF_KIND_FUNC linkage False);
          Some (i, b)
        }
        else Some (i, b)
      })"

definition btf__add_func_proto :: "allocs \<Rightarrow> btf_obj \<Rightarrow> int \<Rightarrow> (int \<times> btf_obj) option" where
  "btf__add_func_proto ok b ret_type_id =
     (if validate_type_id ret_type_id \<noteq> 0 then Some (- EINVAL, b)
      else append_type ok b None (\<lambda>_. [0, btf_type_info BTF_KIND_FUNC_PROTO 0 False, of_int ret_type_id]))"

definition btf__add_var :: "allocs \<Rightarrow> btf_obj \<Rightarrow> string option \<Rightarrow> nat \<Rightarrow> int \<Rightarrow> (int \<times> btf_obj) option" where
  "btf__add_var ok b name linkage type_id =
     (if no_name name then Some (- EINVAL, b)
      else if linkage \<noteq> 0 \<and> linkage \<noteq> 1 \<and> linkage \<noteq> 2 then Some (- EINVAL, b)
      else if validate_type_id type_id \<noteq> 0 then Some (- EINVAL, b)
      else append_type ok b name (\<lambda>name_off. [name_off, btf_type_info BTF_KIND_VAR 0 False, of_int type_id, of_nat linkage]))"

definition btf__add_datasec :: "allocs \<Rightarrow> btf_obj \<Rightarrow> string option \<Rightarrow> u32 \<Rightarrow> (int \<times> btf_obj) option" where
  "btf__add_datasec ok b name byte_sz =
     (if no_name name then Some (- EINVAL, b)
      else append_type ok b name (\<lambda>name_off. [name_off, btf_type_info BTF_KIND_DATASEC 0 False, byte_sz]))"

definition btf__add_decl_tag :: "allocs \<Rightarrow> btf_obj \<Rightarrow> string option \<Rightarrow> int \<Rightarrow> int \<Rightarrow> (int \<times> btf_obj) option" where
  "btf__add_decl_tag ok b val ref_type_id component_idx =
     (if no_name val \<or> component_idx < - 1 then Some (- EINVAL, b)
      else if validate_type_id ref_type_id \<noteq> 0 then Some (- EINVAL, b)
      else append_type ok b val (\<lambda>value_off. [value_off, btf_type_info BTF_KIND_DECL_TAG 0 False, of_int ref_type_id, of_int component_idx]))"

section \<open>Elements of the last type\<close>

definition btf_last_type :: "btf_obj \<Rightarrow> type_ptr option" where
  "btf_last_type b = btf_type_by_id (otys b) (btf__type_cnt (otys b) - 1)"

text \<open>
  The last type must have one of \<open>kinds\<close>; \<open>chk\<close> are the checks of the arguments, made with the
  kind.  \<open>new_info\<close> gives the word \<^verbatim>\<open>info\<close> of the type from its kind, \<^verbatim>\<open>vlen\<close> and \<^verbatim>\<open>kflag\<close>.
\<close>

definition append_elem :: "allocs \<Rightarrow> btf_obj \<Rightarrow> btf_kinds set \<Rightarrow> (btf_kinds \<Rightarrow> int) \<Rightarrow> string option \<Rightarrow> (u32 \<Rightarrow> u32 list) \<Rightarrow>
    (btf_kinds \<Rightarrow> nat \<Rightarrow> bool \<Rightarrow> u32) \<Rightarrow> (int \<times> btf_obj) option" where
  "append_elem ok b kinds chk name words new_info =
     (if nr_types (own_sec b) = 0 then Some (- EINVAL, b)
      else do {
        t \<leftarrow> btf_last_type b;
        kind \<leftarrow> btf_kind t;
        if kind \<notin> kinds then Some (- EINVAL, b)
        else if chk kind \<noteq> 0 then Some (chk kind, b)
        else do {
          (name_off, b) \<leftarrow> prepare ok b name (4 * length (words 0));
          if name_off < 0 then Some (name_off, b)
          else do {
            b \<leftarrow> write_types b (unat (type_len (hdr (own_sec b)))) (words (of_int name_off));
            t \<leftarrow> btf_last_type b;
            kind \<leftarrow> btf_kind t;
            vlen \<leftarrow> btf_vlen t;
            kflag \<leftarrow> btf_kflag t;
            b \<leftarrow> set_info b (btf__type_cnt (otys b) - 1) (new_info kind vlen kflag);
            Some (0, upd_sec (\<lambda>s. s\<lparr>hdr := (hdr s)\<lparr>type_len := type_len (hdr s) + of_nat (4 * length (words 0)),
              str_off := str_off (hdr s) + of_nat (4 * length (words 0))\<rparr>\<rparr>) b)
          }
        }
      })"

definition inc_vlen :: "btf_kinds \<Rightarrow> nat \<Rightarrow> bool \<Rightarrow> u32" where
  "inc_vlen kind vlen kflag = btf_type_info kind (vlen + 1) kflag"

definition field_chk :: "int \<Rightarrow> u32 \<Rightarrow> u32 \<Rightarrow> btf_kinds \<Rightarrow> int" where
  "field_chk type_id bit_offset bit_size kind =
     (let is_bitfield = (bit_size \<noteq> 0 \<or> bit_offset mod 8 \<noteq> 0)
      in if validate_type_id type_id \<noteq> 0 then - EINVAL
         else if is_bitfield \<and> (bit_size = 0 \<or> bit_size > 255 \<or> bit_offset > 0xffffff) then - EINVAL
         else if kind = BTF_KIND_UNION \<and> bit_offset \<noteq> 0 then - EINVAL
         else 0)"

definition btf__add_field :: "allocs \<Rightarrow> btf_obj \<Rightarrow> string option \<Rightarrow> int \<Rightarrow> u32 \<Rightarrow> u32 \<Rightarrow> (int \<times> btf_obj) option" where
  "btf__add_field ok b name type_id bit_offset bit_size =
     append_elem ok b {BTF_KIND_STRUCT, BTF_KIND_UNION} (field_chk type_id bit_offset bit_size) name
       (\<lambda>name_off. [name_off, of_int type_id, bit_offset OR push_bit 24 bit_size])
       (\<lambda>kind vlen kflag. btf_type_info kind (vlen + 1) ((bit_size \<noteq> 0 \<or> bit_offset mod 8 \<noteq> 0) \<or> kflag))"

definition enum_value_chk :: "string option \<Rightarrow> int \<Rightarrow> btf_kinds \<Rightarrow> int" where
  "enum_value_chk name val kind =
     (if no_name name then - EINVAL else if val < - (2 ^ 31) \<or> val > 2 ^ 32 - 1 then - E2BIG else 0)"

text \<open>A negative value sets the flag in a second assignment, with the \<^verbatim>\<open>vlen\<close> that is read back, of 16 bits.\<close>

definition btf__add_enum_value :: "allocs \<Rightarrow> btf_obj \<Rightarrow> string option \<Rightarrow> int \<Rightarrow> (int \<times> btf_obj) option" where
  "btf__add_enum_value ok b name val =
     append_elem ok b {BTF_KIND_ENUM} (enum_value_chk name val) name (\<lambda>name_off. [name_off, of_int val])
       (\<lambda>kind vlen kflag. if val < 0 then btf_type_info kind ((vlen + 1) mod 2 ^ 16) True else inc_vlen kind vlen kflag)"

definition btf__add_enum64_value :: "allocs \<Rightarrow> btf_obj \<Rightarrow> string option \<Rightarrow> u64 \<Rightarrow> (int \<times> btf_obj) option" where
  "btf__add_enum64_value ok b name val =
     append_elem ok b {BTF_KIND_ENUM64} (\<lambda>_. if no_name name then - EINVAL else 0) name
       (\<lambda>name_off. [name_off, ucast val, ucast (drop_bit 32 val)]) inc_vlen"

definition btf__add_func_param :: "allocs \<Rightarrow> btf_obj \<Rightarrow> string option \<Rightarrow> int \<Rightarrow> (int \<times> btf_obj) option" where
  "btf__add_func_param ok b name type_id =
     (if validate_type_id type_id \<noteq> 0 then Some (- EINVAL, b)
      else append_elem ok b {BTF_KIND_FUNC_PROTO} (\<lambda>_. 0) name (\<lambda>name_off. [name_off, of_int type_id]) inc_vlen)"

definition btf__add_datasec_var_info :: "allocs \<Rightarrow> btf_obj \<Rightarrow> int \<Rightarrow> u32 \<Rightarrow> u32 \<Rightarrow> (int \<times> btf_obj) option" where
  "btf__add_datasec_var_info ok b var_type_id offset byte_sz =
     append_elem ok b {BTF_KIND_DATASEC} (\<lambda>_. if validate_type_id var_type_id \<noteq> 0 then - EINVAL else 0) None
       (\<lambda>_. [of_int var_type_id, offset, byte_sz]) inc_vlen"

section \<open>Words of a type\<close>

definition words_bytes :: "u32 list \<Rightarrow> bytes" where
  "words_bytes ws = concat (map le_bytes ws)"

lemma words_bytes_simps [simp]: "words_bytes [] = []" "words_bytes (w # ws) = le_bytes w @ words_bytes ws"
  by (simp_all add: words_bytes_def)

lemma words_bytes_append: "words_bytes (us @ vs) = words_bytes us @ words_bytes vs"
  by (induction us) simp_all

lemma le_bytes_length [simp]: "length (le_bytes w) = 4"
  by (simp add: le_bytes_def)

lemma words_bytes_length [simp]: "length (words_bytes ws) = 4 * length ws"
  by (induction ws) simp_all

lemma store32_at: "store32 (xs @ a # b # c # d # ys) (length xs) w = Some (xs @ le_bytes w @ ys)"
  by (simp add: store32_def le_bytes_def list_update_append)

lemma store32_eq: "a + 4 \<le> length m \<Longrightarrow> store32 m a w = Some (take a m @ le_bytes w @ drop (a + 4) m)"
  by (rule list4 [of a m], assumption) (metis store32_at add_leD1 length_take min.absorb2)

lemma load32_at: "load32 (xs @ le_bytes w @ ys) (length xs) = Some w"
  by (simp add: load32_def le_bytes_def nth_append word32_bytes)

lemma store_words_eq:
  "a + 4 * length ws \<le> length m \<Longrightarrow> store_words m a ws = Some (take a m @ words_bytes ws @ drop (a + 4 * length ws) m)"
proof (induction ws arbitrary: m a)
  case (Cons w ws)
  have "store32 m a w = Some (take a m @ le_bytes w @ drop (a + 4) m)" using Cons.prems by (intro store32_eq) simp
  moreover have "take (a + 4) (take a m @ le_bytes w @ drop (a + 4) m) = take a m @ le_bytes w"
    "drop (a + 4 + 4 * length ws) (take a m @ le_bytes w @ drop (a + 4) m) = drop (a + 4 * length (w # ws)) m"
    using Cons.prems by (simp_all add: algebra_simps)
  ultimately show ?case using Cons.IH [of "a + 4" "take a m @ le_bytes w @ drop (a + 4) m"] Cons.prems by simp
qed simp

lemma load32_words: "i < length ws \<Longrightarrow> load32 (xs @ words_bytes ws @ ys) (length xs + 4 * i) = Some (ws ! i)"
proof (induction ws arbitrary: xs i)
  case (Cons w ws)
  show ?case
  proof (cases i)
    case 0
    then show ?thesis using load32_at [of xs w "words_bytes ws @ ys"] by simp
  next
    case (Suc j)
    then show ?thesis using Cons.IH [of j "xs @ le_bytes w"] Cons.prems by (simp add: algebra_simps)
  qed
qed simp

text \<open>The size of a type is determined by its word \<^verbatim>\<open>info\<close>.\<close>

definition info_kind :: "u32 \<Rightarrow> btf_kinds" where "info_kind info = kind_of_num (unat (BTF_INFO_KIND info))"

definition info_size :: "u32 \<Rightarrow> int" where
  "info_size info = the (btf_type_size (At (words_bytes [0, info, 0]) 0))"

lemma btf_type_size_info: "btf_type_size (At m p) = map_option info_size (load32 m (p + 4))"
proof (cases "load32 m (p + 4)")
  case None
  then show ?thesis by (simp add: btf_type_size_def btf_vlen_def t_info_def)
next
  case (Some info)
  have "load32 (words_bytes [0, info, 0]) (0 + 4) = Some info" using load32_words [of 1 "[0, info, 0]" "[]" "[]"] by simp
  then have e: "btf_type_size (At m p) = btf_type_size (At (words_bytes [0, info, 0]) 0)"
    using Some btf_type_size_cong [of m p "words_bytes [0, info, 0]" 0] by simp
  obtain n where "btf_type_size (At m p) = Some n" using Some by (simp add: btf_type_size_def btf_vlen_def btf_kind_def t_info_def)
  then show ?thesis using Some e by (simp add: info_size_def)
qed

lemma kind_num_of: "kind_of_num (kind_num k) = k" if "\<forall>n. k \<noteq> Kind_other n"
  using that by (cases k) (simp_all add: kind_of_num_def kind_num_def btf_kind_list_def)

lemma kind_num_less: "\<forall>n. k \<noteq> Kind_other n \<Longrightarrow> kind_num k < 20"
  by (cases k) (simp_all add: kind_num_def)

lemma bit_small: "n < 2 ^ k \<Longrightarrow> bit (of_nat n :: u32) j \<Longrightarrow> j < k"
proof -
  assume "n < 2 ^ k" "bit (of_nat n :: u32) j"
  then have "bit (take_bit k (of_nat n :: u32)) j" by (simp only: of_nat_take_bit [symmetric] take_bit_nat_eq_self)
  then show ?thesis by (simp add: bit_take_bit_iff)
qed

lemma info_parts:
  assumes "kind_num k < 32" and "vlen < 2 ^ 16"
  shows "BTF_INFO_KIND (btf_type_info k vlen f) = of_nat (kind_num k)" "BTF_INFO_VLEN (btf_type_info k vlen f) = of_nat vlen"
    "BTF_INFO_KFLAG (btf_type_info k vlen f) = of_bool f"
proof -
  define K V where "K = (of_nat (kind_num k) :: u32)" and "V = (of_nat vlen :: u32)"
  have K: "bit K j \<Longrightarrow> j < 5" and V: "bit V j \<Longrightarrow> j < 16" for j
    using bit_small [of "kind_num k" 5 j] bit_small [of vlen 16 j] assms by (simp_all add: K_def V_def)
  have m: "x AND 0x1f = take_bit 5 x" "x AND 0xffff = take_bit 16 x" for x :: u32
    by (simp_all add: take_bit_eq_mask mask_eq_exp_minus_1)
  have i: "btf_type_info k vlen f = push_bit 31 (of_bool f) OR push_bit 24 K OR V" by (simp add: btf_type_info_def K_def V_def)
  show "BTF_INFO_KIND (btf_type_info k vlen f) = K" unfolding i BTF_INFO_KIND_def m
    by (rule bit_word_eqI) (auto simp: bit_simps dest: K V)
  show "BTF_INFO_VLEN (btf_type_info k vlen f) = V" unfolding i BTF_INFO_VLEN_def m
    by (rule bit_word_eqI) (auto simp: bit_simps dest: K V)
  show "BTF_INFO_KFLAG (btf_type_info k vlen f) = of_bool f" unfolding i BTF_INFO_KFLAG_def
    by (rule bit_word_eqI) (auto simp: bit_simps dest: K V)
qed

lemma info_kind_eq:
  assumes "\<forall>n. k \<noteq> Kind_other n" and "vlen < 2 ^ 16"
  shows "info_kind (btf_type_info k vlen f) = k" "unat (BTF_INFO_VLEN (btf_type_info k vlen f)) = vlen"
  using info_parts [of k vlen f] kind_num_less [OF assms(1)] kind_num_of [OF assms(1)] assms(2)
  by (simp_all add: info_kind_def unat_of_nat_u32)

section \<open>Invariant and abstract view\<close>

definition tile :: "bytes \<Rightarrow> nat \<Rightarrow> bytes" where
  "tile m q = take (nat (the (btf_type_size (At m q)))) (drop q m)"

definition abs_types :: "btf_obj \<Rightarrow> bytes list" where
  "abs_types b = map (tile (types_data (own_sec b))) (sec_offs (own_sec b))"

definition cap_ok :: "btf_sec \<Rightarrow> bool" where
  "cap_ok s \<longleftrightarrow> types_data_cap s = length (types_data s) \<and> length (types_data s) \<le> UINT32_MAX"

definition hdr_ok :: "btf_header \<Rightarrow> bool" where
  "hdr_ok h \<longleftrightarrow> magic h = BTF_MAGIC \<and> hdr_len h = 24 \<and> type_off h = 0 \<and> str_off h = type_len h"

definition built_ok :: "btf_obj \<Rightarrow> bool" where
  "built_ok b \<longleftrightarrow> types_base (otys b) = None \<and> start_id (own_sec b) = 1 \<and> sec_ok (own_sec b) \<and> hdr_ok (hdr (own_sec b)) \<and>
     hdr_more (own_sec b) = [] \<and> btf_ok (ostrs b) \<and> hdr_str_len (ostrs b) = unat (str_len (hdr (own_sec b))) \<and>
     (btf_is_modifiable (ostrs b) \<longrightarrow> cap_ok (own_sec b))"

text \<open>The types are the same, and every name keeps its offset.\<close>

definition same_types :: "btf_sec \<Rightarrow> btf_sec \<Rightarrow> bool" where
  "same_types s s' \<longleftrightarrow> nr_types s' = nr_types s \<and> take (unat (nr_types s)) (type_offs s') = take (unat (nr_types s)) (type_offs s) \<and>
     length (type_offs s) \<le> length (type_offs s') \<and> (type_offs_cap s = length (type_offs s) \<longrightarrow> type_offs_cap s' = length (type_offs s')) \<and>
     type_len (hdr s') = type_len (hdr s) \<and>
     take (unat (type_len (hdr s))) (types_data s') = take (unat (type_len (hdr s))) (types_data s)"

definition keeps_names :: "btf_obj \<Rightarrow> btf_obj \<Rightarrow> bool" where
  "keeps_names b b' \<longleftrightarrow> (\<forall>k t. btf_knows (ostrs b) k t \<longrightarrow> btf_knows (ostrs b') k t)"

lemma same_types_refl [simp]: "same_types s s"
  by (simp add: same_types_def)

lemma same_types_trans: "same_types s s' \<Longrightarrow> same_types s' s'' \<Longrightarrow> same_types s s''"
  by (auto simp: same_types_def)

lemma keeps_names_refl [simp]: "keeps_names b b"
  by (simp add: keeps_names_def)

lemma keeps_names_trans: "keeps_names b b' \<Longrightarrow> keeps_names b' b'' \<Longrightarrow> keeps_names b b''"
  by (auto simp: keeps_names_def)

lemma own_sec_upd [simp]: "own_sec (upd_sec f b) = f (own_sec b)" "ostrs (upd_sec f b) = ostrs b" "types_base (otys (upd_sec f b)) = types_base (otys b)"
  by (simp_all add: own_sec_def upd_sec_def)

lemma own_sec_ostrs [simp]: "own_sec (b\<lparr>ostrs := st\<rparr>) = own_sec b"
  by (simp add: own_sec_def)

lemma take_nth_eq: "take e m' = take e m \<Longrightarrow> j < e \<Longrightarrow> m' ! j = m ! j"
  by (metis nth_take)

lemma load32_frame:
  assumes "take e m' = take e m" and "a + 4 \<le> e" and "e \<le> length m"
  shows "load32 m' a = load32 m a"
proof -
  have "length (take e m') = e" using assms(1,3) by simp
  then have "e \<le> length m'" by simp
  then show ?thesis using assms take_nth_eq [OF assms(1)] by (intro load32_cong) auto
qed

lemma tiled_frame:
  assumes "tiled m p qs e" and "take e m' = take e m" and "e \<le> length m"
  shows "tiled m' p qs e" "\<forall>q \<in> set qs. tile m' q = tile m q"
proof -
  have "tiled m' p qs e \<and> (\<forall>q \<in> set qs. tile m' q = tile m q)"
    using assms(1)
  proof (induction qs arbitrary: p)
    case (Cons q qs)
    then obtain n where n: "btf_type_size (At m p) = Some n" "0 \<le> n" "p + nat n \<le> e" "tiled m (p + nat n) qs e" "q = p"
      by (auto split: option.splits)
    have "load32 m' (p + 4) = load32 m (p + 4)"
      using load32_frame [OF assms(2) _ assms(3), of "p + 4"] btf_type_size_12 [OF n(1,2)] n(3) by simp
    then have e: "btf_type_size (At m' p) = Some n" using n(1) by (simp add: btf_type_size_info)
    have "take (nat n) (drop p m') = take (nat n) (drop p m)"
      using arg_cong [OF assms(2), of "\<lambda>x. take (nat n) (drop p x)"] n(3) by (simp add: drop_take min.absorb2)
    then show ?case using Cons.IH [OF n(4)] n e by (simp add: tile_def)
  qed simp
  then show "tiled m' p qs e" "\<forall>q \<in> set qs. tile m' q = tile m q" by simp_all
qed

lemma tiled_snoc: "tiled m p qs e \<Longrightarrow> btf_type_size (At m e) = Some n \<Longrightarrow> 0 \<le> n \<Longrightarrow> tiled m p (qs @ [e]) (e + nat n)"
  by (induction qs arbitrary: p) (auto split: option.splits)

lemma same_types_sec_ok:
  assumes "same_types s s'" and "sec_ok s"
  shows "sec_ok s'" "sec_offs s' = sec_offs s" "map (tile (types_data s')) (sec_offs s') = map (tile (types_data s)) (sec_offs s)"
proof -
  let ?e = "unat (type_len (hdr s))"
  have t: "tiled (types_data s) 0 (sec_offs s) ?e" and l: "?e \<le> length (types_data s)" using assms(2) by (simp_all add: sec_ok_def)
  have f: "take ?e (types_data s') = take ?e (types_data s)" using assms(1) by (simp add: same_types_def)
  show o: "sec_offs s' = sec_offs s" using assms(1) by (simp add: same_types_def sec_offs_def)
  have "length (take ?e (types_data s')) = ?e" using f l by simp
  then have "?e \<le> length (types_data s')" by simp
  then show "sec_ok s'" using tiled_frame(1) [OF t f l] o assms by (simp add: sec_ok_def same_types_def)
  show "map (tile (types_data s')) (sec_offs s') = map (tile (types_data s)) (sec_offs s)"
    using tiled_frame(2) [OF t f l] o by simp
qed

lemma same_types_abs: "same_types (own_sec b) (own_sec b') \<Longrightarrow> sec_ok (own_sec b) \<Longrightarrow> abs_types b' = abs_types b"
  using same_types_sec_ok(3) by (simp add: abs_types_def)

lemma btf_ok_len: "btf_ok s \<Longrightarrow> hdr_str_len s < 2 ^ 31 \<and> 0 < hdr_str_len s"
proof (cases "btf_strs s")
  case (Inr st)
  assume "btf_ok s"
  then have "strset_ok st" "known st 0 []" "hdr_str_len s = strs_data_len st" using Inr by (simp_all add: btf_ok_def)
  then show ?thesis using known_less [of st 0 "[]"] by (auto simp: strset_ok_def)
qed (simp add: btf_ok_def)

text \<open>Another section and other strings, with what the invariant needs of them.\<close>

lemma built_okI:
  assumes "built_ok b" and "same_types (own_sec b) (own_sec b')" and "types_base (otys b') = None"
    and "start_id (own_sec b') = 1" "hdr_more (own_sec b') = []" "hdr_ok (hdr (own_sec b'))"
    and "btf_ok (ostrs b')" "hdr_str_len (ostrs b') = unat (str_len (hdr (own_sec b')))" "cap_ok (own_sec b')"
  shows "built_ok b'"
  using assms same_types_sec_ok(1) [OF assms(2)] by (auto simp: built_ok_def)

section \<open>The parts of an operation\<close>

text \<open>\<open>evolves b b'\<close>: an object that is ready for a new type, with the types of \<open>b\<close> and its names.\<close>

definition evolves :: "btf_obj \<Rightarrow> btf_obj \<Rightarrow> bool" where
  "evolves b b' \<longleftrightarrow> built_ok b' \<and> cap_ok (own_sec b') \<and> same_types (own_sec b) (own_sec b') \<and> keeps_names b b'"

lemma evolves_trans: "evolves b b' \<Longrightarrow> evolves b' b'' \<Longrightarrow> evolves b b''"
  using same_types_trans keeps_names_trans by (auto simp: evolves_def)

lemma obj_ensure_modifiable_cases:
  assumes "built_ok b"
  obtains (fail) err where "obj_ensure_modifiable al b = Some (err, b)" "err \<noteq> 0" "\<exists>n. \<not> al n"
  | (ready) b' where "obj_ensure_modifiable al b = Some (0, b')" "evolves b b'" "hdr_str_len (ostrs b') = hdr_str_len (ostrs b)"
proof -
  have ok: "btf_ok (ostrs b)" "hdr_ok (hdr (own_sec b))" "hdr_str_len (ostrs b) = unat (str_len (hdr (own_sec b)))"
    "unat (type_len (hdr (own_sec b))) \<le> length (types_data (own_sec b))" "btf_is_modifiable (ostrs b) \<Longrightarrow> cap_ok (own_sec b)"
    using assms by (simp_all add: built_ok_def sec_ok_def)
  show ?thesis
  proof (rule btf_ensure_modifiable_cases [OF ok(1), of al])
    fix err assume e: "btf_ensure_modifiable al (ostrs b) = Some (err, ostrs b)" "err \<noteq> 0" "\<exists>n. \<not> al n"
    then show ?thesis using fail [of err] by (simp add: obj_ensure_modifiable_def)
  next
    fix st bs assume m: "btf_ensure_modifiable al (ostrs b) = Some (0, bs)" "btf_strs bs = Inr st" "btf_ok bs"
      "\<And>k s. btf_knows (ostrs b) k s \<Longrightarrow> known st k s" "strs_data_len st = hdr_str_len (ostrs b)"
    have kn: "keeps_names b (b\<lparr>ostrs := bs\<rparr>)" using m(2,4) by (simp add: keeps_names_def btf_knows_def)
    have len: "hdr_str_len bs = unat (str_len (hdr (own_sec b)))" using m(2,3,5) ok(3) by (simp add: btf_ok_def)
    let ?n = "unat (type_len (hdr (own_sec b)))"
    define s where "s = (if btf_is_modifiable (ostrs b) then btf_invalidate_raw_data (own_sec b)
      else btf_invalidate_raw_data ((own_sec b)\<lparr>types_data := take ?n (types_data (own_sec b)), types_data_cap := ?n\<rparr>))"
    define b' where "b' = upd_sec (\<lambda>_. s) (b\<lparr>ostrs := bs\<rparr>)"
    have o: "own_sec b' = s" "ostrs b' = bs" by (simp_all add: b'_def)
    have "obj_ensure_modifiable al b = Some (0, b')" using m(1) ok(2,4)
      by (auto simp: obj_ensure_modifiable_def b'_def s_def load_bytes_def hdr_ok_def upd_sec_def own_sec_def Let_def)
    moreover have "same_types (own_sec b) s" using ok(4) by (simp add: s_def same_types_def btf_invalidate_raw_data_def)
    moreover have "cap_ok s" using ok(4,5) unat_u32_max [of "type_len (hdr (own_sec b))"]
      by (simp add: s_def cap_ok_def btf_invalidate_raw_data_def)
    moreover have "built_ok b'"
      by (rule built_okI [OF assms]) (use calculation o assms m(3) len in
        \<open>simp_all add: b'_def built_ok_def s_def btf_invalidate_raw_data_def\<close>)
    ultimately show ?thesis using ready [of b'] kn o len ok(3) by (simp add: evolves_def keeps_names_def)
  qed
qed

lemma btf_add_type_mem_cases:
  assumes b: "built_ok b" "cap_ok (own_sec b)" and n: "n < 2 ^ 32"
  obtains (null) "btf_add_type_mem ok b n = None" "\<not> ok \<or> UINT32_MAX < unat (type_len (hdr (own_sec b))) + n"
  | (room) b' where "btf_add_type_mem ok b n = Some b'" "evolves b b'" "ostrs b' = ostrs b"
      "unat (type_len (hdr (own_sec b))) + n \<le> length (types_data (own_sec b'))"
proof -
  let ?s = "own_sec b" and ?e = "unat (type_len (hdr (own_sec b)))"
  let ?mem = "libbpf_add_mem ok 0 (types_data ?s) (types_data_cap ?s) 1 ?e UINT32_MAX n"
  have cap: "types_data_cap ?s = length (types_data ?s)" "length (types_data ?s) \<le> UINT32_MAX" and e: "?e \<le> length (types_data ?s)"
    using b by (simp_all add: cap_ok_def built_ok_def sec_ok_def)
  have lt: "?e + n < 2 ^ 64" using n unat_u32 [of "type_len (hdr ?s)"] by simp
  show ?thesis
  proof (cases ?mem)
    case None
    then show ?thesis using null libbpf_add_mem_fails [OF None lt] by (simp add: btf_add_type_mem_def UINT32_MAX_def)
  next
    case (Some r)
    obtain d c where r: "r = (d, c)" by (cases r)
    obtain j where d: "d = types_data ?s @ replicate j 0" "c = length d" "?e + n \<le> c" "c \<le> UINT32_MAX \<or> c = length (types_data ?s)"
      using libbpf_add_mem_Some [OF Some [unfolded r] cap(1) lt] cap(1) by auto
    let ?b = "upd_sec (\<lambda>s. s\<lparr>types_data := d, types_data_cap := c\<rparr>) b"
    have st: "same_types ?s (own_sec ?b)" "cap_ok (own_sec ?b)" using d e cap by (auto simp: same_types_def cap_ok_def)
    have "built_ok ?b" by (rule built_okI [OF b(1) st(1)]) (use st b(1) in \<open>simp_all add: built_ok_def\<close>)
    then show ?thesis using room [of ?b] Some r d(2,3) st by (simp add: btf_add_type_mem_def evolves_def keeps_names_def)
  qed
qed

lemma add_name_cases:
  assumes b: "built_ok b" "cap_ok (own_sec b)" and s: "c_string s"
  obtains (fail) off b' where "add_name al b s = Some (off, b')" "off < 0" "evolves b b'" "type_offs (own_sec b') = type_offs (own_sec b)"
      "(\<exists>n. \<not> al n) \<or> BTF_MAX_STR_OFFSET < hdr_str_len (ostrs b) + length s + 1"
  | (named) k b' where "add_name al b s = Some (int k, b')" "k < 2 ^ 31" "evolves b b'" "btf_knows (ostrs b') k s"
      "types_data (own_sec b') = types_data (own_sec b)" "type_offs (own_sec b') = type_offs (own_sec b)"
      "hdr_str_len (ostrs b') \<le> hdr_str_len (ostrs b) + length s + 1"
proof -
  have ok: "btf_ok (ostrs b)" using b(1) by (simp add: built_ok_def)
  obtain off bs where a: "btf__add_str al (ostrs b) s = Some (off, bs)" "btf_ok bs" "\<forall>k t. btf_knows (ostrs b) k t \<longrightarrow> btf_knows bs k t"
      "hdr_str_len bs \<le> hdr_str_len (ostrs b) + length s + 1"
      "if off < 0 then (\<exists>n. \<not> al n) \<or> BTF_MAX_STR_OFFSET < hdr_str_len (ostrs b) + length s + 1 else btf_knows bs (nat off) s"
    using btf__add_str_ok [OF ok s, of al] by (elim exE conjE) (rule that)
  let ?b = "upd_sec (\<lambda>s. s\<lparr>hdr := (hdr s)\<lparr>str_len := of_nat (hdr_str_len bs)\<rparr>\<rparr>) (b\<lparr>ostrs := bs\<rparr>)"
  have e: "add_name al b s = Some (off, ?b)" using a(1) by (simp add: add_name_def)
  have st: "same_types (own_sec b) (own_sec ?b)" "cap_ok (own_sec ?b)" using b(2) by (simp_all add: same_types_def cap_ok_def)
  have "unat (of_nat (hdr_str_len bs) :: u32) = hdr_str_len bs" using btf_ok_len [OF a(2)] by (intro unat_of_nat_u32) simp
  then have "built_ok ?b" using a(2) by (intro built_okI [OF b(1) st(1)]) (use st b(1) in \<open>simp_all add: built_ok_def hdr_ok_def\<close>)
  then have ev: "evolves b ?b" using st a(3) by (simp add: evolves_def keeps_names_def)
  show ?thesis
  proof (cases "off < 0")
    case True
    then show ?thesis using fail [OF e True ev] a(5) by simp
  next
    case False
    then have kn: "btf_knows bs (nat off) s" using a(5) by simp
    have "nat off < 2 ^ 31" using kn a(2) known_less by (auto simp: btf_ok_def btf_knows_def split: sum.splits)
    then show ?thesis using named [of "nat off" ?b] e False ev kn a(4) by simp
  qed
qed

lemma add_opt_name_cases:
  assumes b: "built_ok b" "cap_ok (own_sec b)" and name: "\<And>s. name = Some s \<Longrightarrow> c_string s"
  obtains (fail) off b' where "add_opt_name al b name = Some (off, b')" "off < 0" "evolves b b'"
      "(\<exists>n. \<not> al n) \<or> BTF_MAX_STR_OFFSET < hdr_str_len (ostrs b) + length (the name) + 1"
  | (named) k b' where "add_opt_name al b name = Some (int k, b')" "k < 2 ^ 31" "evolves b b'" "btf_knows (ostrs b') k (case name of None \<Rightarrow> [] | Some s \<Rightarrow> s)"
      "types_data (own_sec b') = types_data (own_sec b)" "no_name name \<Longrightarrow> k = 0"
proof (cases "no_name name")
  case True
  have "btf_knows (ostrs b) 0 []" using b(1) by (auto simp: built_ok_def btf_ok_def btf_knows_def split: sum.splits)
  then show ?thesis using named [of 0 b] True b by (auto simp: add_opt_name_def no_name_def evolves_def split: option.splits)
next
  case False
  then obtain s where s: "name = Some s" "s \<noteq> []" by (auto simp: no_name_def split: option.splits)
  then have e: "add_opt_name al b name = add_name al b s" by (simp add: add_opt_name_def)
  show ?thesis by (rule add_name_cases [OF b name [OF s(1)], where al = al]) (use fail named e s in \<open>auto simp: no_name_def\<close>)
qed

section \<open>Appending a type\<close>

definition type_words :: "(u32 \<Rightarrow> u32 list) \<Rightarrow> u32 \<Rightarrow> bool" where
  "type_words words info \<longleftrightarrow> (\<forall>w. info_size info = 4 * int (length (words w)) \<and> words w ! 1 = info)"

lemma info_size_bounds: "info_size info < 2 ^ 20" "0 \<le> info_size info \<Longrightarrow> 12 \<le> info_size info"
proof -
  have s: "btf_type_size (At (words_bytes [0, info, 0]) 0) = Some (info_size info)"
    unfolding btf_type_size_info using load32_words [of 1 "[0, info, 0]" "[]" "[]"] by simp
  then obtain v where v: "btf_vlen (At (words_bytes [0, info, 0]) 0) = Some v" by (auto simp: btf_type_size_def split: Option.bind_splits)
  have "v < 65536" using v unat_and_FFFF by (auto simp: btf_vlen_def BTF_INFO_VLEN_def)
  then show "info_size info < 2 ^ 20" using s v
    by (auto simp: btf_type_size_def EINVAL_def split: btf_kinds.splits Option.bind_splits)
  show "0 \<le> info_size info \<Longrightarrow> 12 \<le> info_size info" using btf_type_size_12 [OF s] .
qed

lemma type_words_length:
  assumes "type_words words info"
  shows "length (words w) = length (words 0)" "3 \<le> length (words 0)" "4 * length (words 0) < 2 ^ 20"
proof -
  have i: "info_size info = 4 * int (length (words w))" for w using assms by (simp add: type_words_def)
  show "length (words w) = length (words 0)" using i [of w] i [of 0] by simp
  show "3 \<le> length (words 0)" "4 * length (words 0) < 2 ^ 20" using info_size_bounds [of info] i [of 0] by simp_all
qed

lemma sec_ok_room: "sec_ok s \<Longrightarrow> index_room s"
  using tiled_bounds [of "types_data s" 0 "sec_offs s" "unat (type_len (hdr s))"] unat_u32 [of "type_len (hdr s)"]
  by (auto simp: sec_ok_def index_room_def sec_offs_def BTF_MAX_NR_TYPES_def)

lemma same_types_written:
  assumes "sec_ok s"
  shows "same_types s (s\<lparr>types_data := take (unat (type_len (hdr s))) (types_data s) @ x\<rparr>)"
  using assms by (simp add: same_types_def sec_ok_def)

text \<open>A section with one more type.\<close>

lemma sec_append:
  assumes ok: "sec_ok s" and ws: "4 * length ws = nat (info_size info)" "ws ! 1 = info" "3 \<le> length ws"
    and d: "types_data s' = take (unat (type_len (hdr s))) (types_data s) @ words_bytes ws @ z"
    and h: "unat (type_len (hdr s')) = unat (type_len (hdr s)) + 4 * length ws" "unat (nr_types s') = Suc (unat (nr_types s))"
    and offs: "take (Suc (unat (nr_types s))) (type_offs s') = take (unat (nr_types s)) (type_offs s) @ [type_len (hdr s)]"
      "unat (nr_types s) < length (type_offs s')" "type_offs_cap s' = length (type_offs s')"
  shows "sec_ok s'" "map (tile (types_data s')) (sec_offs s') = map (tile (types_data s)) (sec_offs s) @ [words_bytes ws]"
proof -
  let ?e = "unat (type_len (hdr s))"
  have t: "tiled (types_data s) 0 (sec_offs s) ?e" and l: "?e \<le> length (types_data s)" using ok by (simp_all add: sec_ok_def)
  have f: "take ?e (types_data s') = take ?e (types_data s)" using d l by simp
  have o: "sec_offs s' = sec_offs s @ [?e]" using offs(1) h(2) by (simp add: sec_offs_def)
  have ld: "load32 (types_data s') (?e + 4) = Some info"
    using load32_words [of 1 ws "take ?e (types_data s)" z] ws d l by simp
  have n: "0 \<le> info_size info" using ws(1,3) by simp
  have sz: "btf_type_size (At (types_data s') ?e) = Some (info_size info)" using ld by (simp add: btf_type_size_info)
  have "tiled (types_data s') 0 (sec_offs s') (unat (type_len (hdr s')))"
    unfolding o h(1) ws(1) by (rule tiled_snoc [OF tiled_frame(1) [OF t f l] sz n])
  moreover have "unat (type_len (hdr s')) \<le> length (types_data s')" using d h(1) l by simp
  ultimately show "sec_ok s'" using offs h(2) by (simp add: sec_ok_def)
  have "tile (types_data s') ?e = words_bytes ws" using sz d l ws(1) by (simp add: tile_def)
  then show "map (tile (types_data s')) (sec_offs s') = map (tile (types_data s)) (sec_offs s) @ [words_bytes ws]"
    using o tiled_frame(2) [OF t f l] by simp
qed

lemma sint_small: "unat (x :: u32) < 2 ^ 31 \<Longrightarrow> sint x = int (unat x)"
proof -
  assume "unat x < 2 ^ 31"
  then have "int (unat x) < int (2 ^ 31)" by (simp only: of_nat_less_iff)
  then have "uint x < 2 ^ 31" by simp
  moreover have "- (2 ^ 31) \<le> uint x" by (rule order_trans [of _ 0]) simp_all
  ultimately have "sint x = uint x" using signed_take_bit_int_eq_self [of 31 "uint x"] by (simp add: sint_uint)
  then show ?thesis by simp
qed

lemma btf_commit_type_cases:
  assumes b: "built_ok b" "cap_ok (own_sec b)" and ws: "4 * length ws = nat (info_size info)" "ws ! 1 = info" "3 \<le> length ws"
    and d: "types_data (own_sec b) = x @ words_bytes ws @ z" "length x = unat (type_len (hdr (own_sec b)))"
  obtains (fail) "btf_commit_type ok b (4 * length ws) = Some (- ENOMEM, b)" "\<not> ok"
  | (added) b' where "btf_commit_type ok b (4 * length ws) = Some (int (unat (nr_types (own_sec b))) + 1, b')" "built_ok b'"
      "abs_types b' = abs_types b @ [words_bytes ws]" "ostrs b' = ostrs b" "cap_ok (own_sec b')" "nr_types (own_sec b') = nr_types (own_sec b) + 1"
proof -
  let ?s = "own_sec b" and ?n = "4 * length ws"
  have sec: "sec_ok ?s" "start_id ?s = 1" "types_base (otys b) = None" using b(1) by (simp_all add: built_ok_def)
  have nr: "Suc (unat (nr_types ?s)) < 2 ^ 31" using sec_ok_room [OF sec(1)] by (simp add: index_room_def BTF_MAX_NR_TYPES_def)
  show ?thesis
  proof (rule btf_add_type_idx_entry_cases [OF sec_ok_room [OF sec(1)], of ok "type_len (hdr ?s)"])
    assume a: "btf_add_type_idx_entry ok ?s (type_len (hdr ?s)) = Some (- ENOMEM, ?s)" "\<not> ok"
    have "upd_sec (\<lambda>_. ?s) b = b" by (simp add: upd_sec_def own_sec_def)
    then show ?thesis using fail a by (simp add: btf_commit_type_def ENOMEM_def)
  next
    fix offs assume a: "btf_add_type_idx_entry ok ?s (type_len (hdr ?s)) = Some (0, ?s\<lparr>type_offs := offs, type_offs_cap := length offs\<rparr>)"
      "unat (nr_types ?s) < length offs" "take (Suc (unat (nr_types ?s))) offs = take (unat (nr_types ?s)) (type_offs ?s) @ [type_len (hdr ?s)]"
    define s' where "s' = ?s\<lparr>type_offs := offs, type_offs_cap := length offs,
      hdr := (hdr ?s)\<lparr>type_len := type_len (hdr ?s) + of_nat ?n, str_off := str_off (hdr ?s) + of_nat ?n\<rparr>, nr_types := nr_types ?s + 1\<rparr>"
    have r: "btf_commit_type ok b ?n = Some (sint (1 + nr_types s' - 1), upd_sec (\<lambda>_. s') b)"
      using a(1) sec(2) by (simp add: btf_commit_type_def s'_def Let_def)
    have u: "unat (nr_types ?s + 1) = Suc (unat (nr_types ?s))" using nr by (simp add: unat_word_ariths)
    have len: "unat (type_len (hdr ?s)) + ?n \<le> UINT32_MAX"
      using b(2) d by (simp add: cap_ok_def)
    then have un: "unat (of_nat ?n :: u32) = ?n" by (intro unat_of_nat_u32) (simp add: UINT32_MAX_def)
    then have e: "unat (type_len (hdr s')) = unat (type_len (hdr ?s)) + ?n"
      using len by (simp add: s'_def unat_word_ariths UINT32_MAX_def)
    have tk: "types_data s' = take (unat (type_len (hdr ?s))) (types_data ?s) @ words_bytes ws @ z" using d by (simp add: s'_def)
    have ap: "sec_ok s'" "map (tile (types_data s')) (sec_offs s') = map (tile (types_data ?s)) (sec_offs ?s) @ [words_bytes ws]"
      by (rule sec_append [OF sec(1) ws tk e]; use a u in \<open>simp add: s'_def\<close>)+
    have "sint (1 + nr_types ?s) = int (unat (nr_types ?s)) + 1"
      using u nr sint_small [of "nr_types ?s + 1"] by (simp add: add.commute)
    then show ?thesis using added [of "upd_sec (\<lambda>_. s') b"] r ap b sec
      by (simp add: s'_def built_ok_def hdr_ok_def cap_ok_def abs_types_def)
  qed
qed

text \<open>What stands behind a failure: an allocation, or one of the limits of the format.\<close>

definition out_of_room :: "allocs \<Rightarrow> btf_obj \<Rightarrow> string option \<Rightarrow> nat \<Rightarrow> bool" where
  "out_of_room ok b name n \<longleftrightarrow> (\<exists>i. \<not> ok i) \<or> UINT32_MAX < unat (type_len (hdr (own_sec b))) + n \<or>
     BTF_MAX_STR_OFFSET < hdr_str_len (ostrs b) + length (the name) + 1"

lemma evolves_facts:
  assumes "evolves b b'" and "built_ok b"
  shows "built_ok b'" "cap_ok (own_sec b')" "keeps_names b b'" "abs_types b' = abs_types b"
    "type_len (hdr (own_sec b')) = type_len (hdr (own_sec b))" "nr_types (own_sec b') = nr_types (own_sec b)"
proof -
  have s: "same_types (own_sec b) (own_sec b')" "sec_ok (own_sec b)" using assms by (simp_all add: evolves_def built_ok_def)
  show "built_ok b'" "cap_ok (own_sec b')" "keeps_names b b'" using assms(1) by (simp_all add: evolves_def)
  show "type_len (hdr (own_sec b')) = type_len (hdr (own_sec b))" "nr_types (own_sec b') = nr_types (own_sec b)"
    using s(1) by (simp_all add: same_types_def)
  show "abs_types b' = abs_types b" by (rule same_types_abs [OF s])
qed

lemma prepare_cases:
  assumes b: "built_ok b" and n: "n < 2 ^ 32" and name: "\<And>s. name = Some s \<Longrightarrow> c_string s"
  obtains (fail) e b' where "prepare ok b name n = Some (e, b')" "e < 0" "built_ok b'" "abs_types b' = abs_types b" "keeps_names b b'"
      "out_of_room ok b name n"
  | (ready) k b' where "prepare ok b name n = Some (int k, b')" "k < 2 ^ 31" "evolves b b'"
      "unat (type_len (hdr (own_sec b'))) + n \<le> length (types_data (own_sec b'))"
      "btf_knows (ostrs b') k (case name of None \<Rightarrow> [] | Some s \<Rightarrow> s)" "no_name name \<Longrightarrow> k = 0"
proof (rule obj_ensure_modifiable_cases [OF b, of "part 0 ok"])
  fix err assume "obj_ensure_modifiable (part 0 ok) b = Some (err, b)" "err \<noteq> 0" "\<exists>n. \<not> part 0 ok n"
  then show ?thesis using fail [of "- ENOMEM" b] b by (auto simp: prepare_def out_of_room_def part_def ENOMEM_def)
next
  fix b1 assume 1: "obj_ensure_modifiable (part 0 ok) b = Some (0, b1)" "evolves b b1" "hdr_str_len (ostrs b1) = hdr_str_len (ostrs b)"
  note f1 = evolves_facts [OF 1(2) b]
  show ?thesis
  proof (rule btf_add_type_mem_cases [OF f1(1,2) n, of "part 1 ok 0"])
    assume "btf_add_type_mem (part 1 ok 0) b1 n = None" "\<not> part 1 ok 0 \<or> UINT32_MAX < unat (type_len (hdr (own_sec b1))) + n"
    then show ?thesis using fail [of "- ENOMEM" b1] 1 f1 by (auto simp: prepare_def out_of_room_def part_def ENOMEM_def)
  next
    fix b2 assume 2: "btf_add_type_mem (part 1 ok 0) b1 n = Some b2" "evolves b1 b2" "ostrs b2 = ostrs b1"
      "unat (type_len (hdr (own_sec b1))) + n \<le> length (types_data (own_sec b2))"
    note f2 = evolves_facts [OF 2(2) f1(1)]
    have e: "prepare ok b name n = add_opt_name (part 2 ok) b2 name" using 1(1) 2(1) by (simp add: prepare_def)
    have ev: "evolves b b2" using evolves_trans [OF 1(2) 2(2)] .
    show ?thesis
    proof (rule add_opt_name_cases [OF f2(1,2) name, where al = "part 2 ok"])
      fix off b3 assume 3: "add_opt_name (part 2 ok) b2 name = Some (off, b3)" "off < 0" "evolves b2 b3"
        "(\<exists>n. \<not> part 2 ok n) \<or> BTF_MAX_STR_OFFSET < hdr_str_len (ostrs b2) + length (the name) + 1"
      note f3 = evolves_facts [OF evolves_trans [OF ev 3(3)] b]
      show ?thesis using fail [of off b3] 3 e f3 1(3) 2(3) by (auto simp: out_of_room_def part_def)
    next
      fix k b3 assume 3: "add_opt_name (part 2 ok) b2 name = Some (int k, b3)" "k < 2 ^ 31" "evolves b2 b3"
        "btf_knows (ostrs b3) k (case name of None \<Rightarrow> [] | Some s \<Rightarrow> s)" "types_data (own_sec b3) = types_data (own_sec b2)" "no_name name \<Longrightarrow> k = 0"
      note f3 = evolves_facts [OF evolves_trans [OF ev 3(3)] b]
      show ?thesis by (rule ready [of k b3])
        (use 3 e evolves_trans [OF ev 3(3)] f3(5) f1(5) 2(4) in simp_all)
    qed
  qed
qed

text \<open>Writing behind the types.\<close>

lemma write_types_behind:
  assumes ev: "evolves b b1" and b: "built_ok b" and room: "unat (type_len (hdr (own_sec b1))) + 4 * length ws \<le> length (types_data (own_sec b1))"
  obtains b2 x z where "write_types b1 (unat (type_len (hdr (own_sec b1)))) ws = Some b2" "evolves b b2" "ostrs b2 = ostrs b1"
    "types_data (own_sec b2) = x @ words_bytes ws @ z" "length x = unat (type_len (hdr (own_sec b2)))"
    "own_sec b2 = (own_sec b1)\<lparr>types_data := x @ words_bytes ws @ z\<rparr>"
proof -
  let ?s = "own_sec b1" and ?e = "unat (type_len (hdr (own_sec b1)))"
  define x z where "x = take ?e (types_data ?s)" and "z = drop (?e + 4 * length ws) (types_data ?s)"
  let ?b2 = "upd_sec (\<lambda>s. s\<lparr>types_data := x @ words_bytes ws @ z\<rparr>) b1"
  note f = evolves_facts [OF ev b]
  have w: "write_types b1 ?e ws = Some ?b2" using store_words_eq [OF room] by (simp add: write_types_def x_def z_def)
  have l: "length x = ?e" "length (x @ words_bytes ws @ z) = length (types_data ?s)" using room by (simp_all add: x_def z_def)
  have st: "same_types ?s (own_sec ?b2)" "cap_ok (own_sec ?b2)" using f(2) l by (simp_all add: same_types_def cap_ok_def x_def)
  have "built_ok ?b2" by (rule built_okI [OF f(1) st(1)]) (use st f(1) in \<open>simp_all add: built_ok_def\<close>)
  then have "evolves b1 ?b2" using st by (simp add: evolves_def keeps_names_def)
  then show ?thesis using that [OF w evolves_trans [OF ev]] l by simp
qed

lemma append_type_cases:
  assumes b: "built_ok b" and ws: "type_words words info" and name: "\<And>s. name = Some s \<Longrightarrow> c_string s"
  obtains (fail) e b' where "append_type ok b name words = Some (e, b')" "e < 0" "built_ok b'" "abs_types b' = abs_types b" "keeps_names b b'"
      "out_of_room ok b name (4 * length (words 0))"
  | (added) k b' where "append_type ok b name words = Some (int (unat (nr_types (own_sec b))) + 1, b')" "built_ok b'"
      "abs_types b' = abs_types b @ [words_bytes (words (of_nat k))]" "keeps_names b b'"
      "btf_knows (ostrs b') k (case name of None \<Rightarrow> [] | Some s \<Rightarrow> s)" "k < 2 ^ 31" "no_name name \<Longrightarrow> k = 0"
      "cap_ok (own_sec b')" "nr_types (own_sec b') = nr_types (own_sec b) + 1"
proof -
  let ?n = "4 * length (words 0)"
  have n: "?n < 2 ^ 32" and w: "\<And>w. length (words w) = length (words 0)" "3 \<le> length (words 0)" using type_words_length [OF ws] by simp_all
  show ?thesis
  proof (rule prepare_cases [OF b n name, where ok = ok])
    fix e b' assume "prepare ok b name ?n = Some (e, b')" "e < 0" "built_ok b'" "abs_types b' = abs_types b" "keeps_names b b'" "out_of_room ok b name ?n"
    then show ?thesis using fail [of e b'] by (simp add: append_type_def)
  next
    fix k b1 assume 1: "prepare ok b name ?n = Some (int k, b1)" "k < 2 ^ 31" "evolves b b1"
      "unat (type_len (hdr (own_sec b1))) + ?n \<le> length (types_data (own_sec b1))"
      "btf_knows (ostrs b1) k (case name of None \<Rightarrow> [] | Some s \<Rightarrow> s)" "no_name name \<Longrightarrow> k = 0"
    let ?ws = "words (of_nat k)"
    note w1 = w(1) [of "of_nat k"]
    have room: "unat (type_len (hdr (own_sec b1))) + 4 * length ?ws \<le> length (types_data (own_sec b1))" using 1(4) w1 by simp
    obtain b2 x z where 2: "write_types b1 (unat (type_len (hdr (own_sec b1)))) ?ws = Some b2" "evolves b b2" "ostrs b2 = ostrs b1"
      "types_data (own_sec b2) = x @ words_bytes ?ws @ z" "length x = unat (type_len (hdr (own_sec b2)))"
      by (rule write_types_behind [OF 1(3) b room])
    note f = evolves_facts [OF 2(2) b]
    have e: "append_type ok b name words = btf_commit_type (part 3 ok 0) b2 (4 * length ?ws)"
      using 1(1) 2(1) w1 by (simp add: append_type_def)
    have "info_size info = 4 * int (length ?ws)" "?ws ! 1 = info" using ws unfolding type_words_def by blast+
    then have i: "4 * length ?ws = nat (info_size info)" "?ws ! 1 = info" "3 \<le> length ?ws" using w(2) w1 by simp_all
    show ?thesis
    proof (rule btf_commit_type_cases [OF f(1,2) i 2(4,5), where ok = "part 3 ok 0"])
      assume "btf_commit_type (part 3 ok 0) b2 (4 * length ?ws) = Some (- ENOMEM, b2)" "\<not> part 3 ok 0"
      then show ?thesis using fail [of "- ENOMEM" b2] e f by (auto simp: out_of_room_def part_def ENOMEM_def)
    next
      fix b3 assume 3: "btf_commit_type (part 3 ok 0) b2 (4 * length ?ws) = Some (int (unat (nr_types (own_sec b2))) + 1, b3)" "built_ok b3"
        "abs_types b3 = abs_types b2 @ [words_bytes ?ws]" "ostrs b3 = ostrs b2" "cap_ok (own_sec b3)" "nr_types (own_sec b3) = nr_types (own_sec b2) + 1"
      show ?thesis by (rule added [of b3 k]) (use 3 e f 1 2(3) in \<open>simp_all add: keeps_names_def\<close>)
    qed
  qed
qed

section \<open>Appending an element\<close>

text \<open>The size of a type from its kind and \<^verbatim>\<open>vlen\<close>.\<close>

definition kind_size :: "btf_kinds \<Rightarrow> nat \<Rightarrow> int" where
  "kind_size k v = (if k \<in> {BTF_KIND_STRUCT, BTF_KIND_UNION, BTF_KIND_DATASEC, BTF_KIND_ENUM64} then 12 + int v * 12
     else if k \<in> {BTF_KIND_ENUM, BTF_KIND_FUNC_PROTO} then 12 + int v * 8
     else if k \<in> {BTF_KIND_INT, BTF_KIND_VAR, BTF_KIND_DECL_TAG} then 16
     else if k = BTF_KIND_ARRAY then 24
     else if k \<in> {BTF_KIND_FWD, BTF_KIND_CONST, BTF_KIND_VOLATILE, BTF_KIND_RESTRICT, BTF_KIND_PTR, BTF_KIND_TYPEDEF,
         BTF_KIND_FUNC, BTF_KIND_FLOAT, BTF_KIND_TYPE_TAG} then 12
     else - EINVAL)"

lemma info_size_kind: "info_size info = kind_size (info_kind info) (unat (BTF_INFO_VLEN info))"
proof -
  let ?t = "At (words_bytes [0, info, 0]) 0"
  have "load32 (words_bytes [0, info, 0]) (0 + 4) = Some info" using load32_words [of 1 "[0, info, 0]" "[]" "[]"] by simp
  then have "btf_kind ?t = Some (info_kind info)" "btf_vlen ?t = Some (unat (BTF_INFO_VLEN info))"
    by (simp_all add: btf_kind_def btf_vlen_def t_info_def info_kind_def)
  then show ?thesis by (cases "info_kind info") (simp_all add: info_size_def btf_type_size_def kind_size_def)
qed

lemma info_size_eq: "\<forall>n. k \<noteq> Kind_other n \<Longrightarrow> vlen < 2 ^ 16 \<Longrightarrow> info_size (btf_type_info k vlen f) = kind_size k vlen"
  using info_kind_eq by (simp add: info_size_kind)

lemma tiled_snocD:
  "tiled m p (qs @ [q]) e \<Longrightarrow> tiled m p qs q \<and> (\<exists>n. btf_type_size (At m q) = Some n \<and> 0 \<le> n \<and> q + nat n = e)"
  by (induction qs arbitrary: p) (auto split: option.splits dest: tiled_le)

definition set_info_bytes :: "bytes \<Rightarrow> u32 \<Rightarrow> bytes" where
  "set_info_bytes t info = take 4 t @ le_bytes info @ drop 8 t"

text \<open>A section whose last type has grown.\<close>

lemma sec_extend:
  assumes ok: "sec_ok s" and q: "sec_offs s = qs @ [q]"
    and sz: "btf_type_size (At (types_data s) q) = Some n" "info_size info = n + 4 * int (length ws)"
    and m1: "m1 = take (unat (type_len (hdr s))) (types_data s) @ words_bytes ws @ z"
    and m2: "store32 m1 (q + 4) info = Some (types_data s')"
    and h: "unat (type_len (hdr s')) = unat (type_len (hdr s)) + 4 * length ws" "nr_types s' = nr_types s"
      "type_offs s' = type_offs s" "type_offs_cap s' = type_offs_cap s"
  shows "sec_ok s'" "map (tile (types_data s')) (sec_offs s') =
    map (tile (types_data s)) qs @ [set_info_bytes (tile (types_data s) q) info @ words_bytes ws]"
proof -
  let ?e = "unat (type_len (hdr s))" and ?m = "types_data s" and ?m2 = "types_data s'"
  have t: "tiled ?m 0 (qs @ [q]) ?e" and l: "?e \<le> length ?m" using ok q by (simp_all add: sec_ok_def)
  have tq: "tiled ?m 0 qs q" and n: "0 \<le> n" "q + nat n = ?e" using tiled_snocD [OF t] sz(1) by auto
  have 12: "12 \<le> n" using btf_type_size_12 [OF sz(1) n(1)] .
  have l1: "length m1 = ?e + 4 * length ws + length z" using m1 l by simp
  have m2': "?m2 = take (q + 4) m1 @ le_bytes info @ drop (q + 8) m1"
    using m2 store32_eq [of "q + 4" m1 info] l1 n 12 by (simp add: add.commute)
  have f: "take q ?m2 = take q ?m" using m2' m1 n l l1 12 by simp
  have lq: "q \<le> length ?m" using n l by simp
  have ld: "load32 ?m2 (q + 4) = Some info"
    using load32_at [of "take (q + 4) m1" info "drop (q + 8) m1"] m2' l1 n 12 by simp
  then have s2: "btf_type_size (At ?m2 q) = Some (n + 4 * int (length ws))" using sz(2) by (simp add: btf_type_size_info)
  have "nat (n + 4 * int (length ws)) = nat n + 4 * length ws" using n(1) by (simp add: nat_add_distrib)
  then have e2: "q + nat (n + 4 * int (length ws)) = unat (type_len (hdr s'))" using n h(1) by simp
  have "tiled ?m2 0 (qs @ [q]) (unat (type_len (hdr s')))"
    using tiled_snoc [OF tiled_frame(1) [OF tq f lq] s2] n(1) e2 by simp
  moreover have "sec_offs s' = qs @ [q]" using h q by (simp add: sec_offs_def)
  moreover have "length ?m2 = length m1" using m2' l1 n 12 by simp
  ultimately show "sec_ok s'" using ok h l1 by (simp add: sec_ok_def)
  have d1: "drop (q + 8) m1 = drop 8 (tile ?m q) @ words_bytes ws @ z"
  proof -
    have "?e - (q + 8) = nat n - 8" using n by simp
    then show ?thesis using m1 n l 12 sz(1) by (simp add: tile_def drop_take add.commute)
  qed
  have "drop q ?m2 = take 4 (drop q m1) @ le_bytes info @ drop (q + 8) m1" using m2' l1 n 12 by (simp add: drop_take)
  moreover have "take 4 (drop q m1) = take 4 (tile ?m q)" using m1 n l 12 sz(1) by (simp add: tile_def drop_take)
  ultimately have "drop q ?m2 = set_info_bytes (tile ?m q) info @ words_bytes ws @ z" using d1 by (simp add: set_info_bytes_def)
  moreover have "length (set_info_bytes (tile ?m q) info) = nat n" using n l 12 sz(1) by (simp add: set_info_bytes_def tile_def)
  ultimately have "tile ?m2 q = set_info_bytes (tile ?m q) info @ words_bytes ws"
    using s2 n(1) by (simp add: tile_def [of ?m2] nat_add_distrib)
  then show "map (tile ?m2) (sec_offs s') = map (tile ?m) qs @ [set_info_bytes (tile ?m q) info @ words_bytes ws]"
    using h q tiled_frame(2) [OF tq f lq] by (simp add: sec_offs_def)
qed

lemma last_type_at:
  assumes "built_ok b" and "nr_types (own_sec b) \<noteq> 0"
  obtains qs q where "sec_offs (own_sec b) = qs @ [q]" "btf_last_type b = Some (At (types_data (own_sec b)) q)"
    "\<And>i. set_info b (btf__type_cnt (otys b) - 1) i = write_types b (q + 4) [i]"
proof -
  let ?s = "own_sec b" and ?n = "unat (nr_types (own_sec b))"
  have s: "start_id ?s = 1" "?n \<le> length (type_offs ?s)" and o: "otys b = Types None ?s"
    using assms(1) by (cases "otys b", simp_all add: built_ok_def sec_ok_def own_sec_def)+
  have n: "0 < ?n" using assms(2) by (simp add: unat_gt_0)
  have c: "btf__type_cnt (otys b) - 1 = nr_types ?s" using s(1) by (simp add: btf__type_cnt_def own_sec_def)
  have ge: "1 \<le> nr_types ?s" "unat (nr_types ?s - 1) = ?n - 1" using n by (simp_all add: word_le_nat_alt unat_sub)
  define q where "q = unat (type_offs ?s ! (?n - 1))"
  obtain k where k: "?n = Suc k" using n by (cases ?n) auto
  have "sec_offs ?s = map unat (take k (type_offs ?s)) @ [q]"
    using s(2) k by (simp add: sec_offs_def q_def take_Suc_conv_app_nth)
  moreover have "btf_last_type b = Some (At (types_data ?s) q)"
    unfolding btf_last_type_def c using s ge n assms(2) by (subst o) (simp add: q_def Let_def)
  moreover have "set_info b (btf__type_cnt (otys b) - 1) i = write_types b (q + 4) [i]" for i
    unfolding c using s ge n k by (simp add: set_info_def q_def Let_def)
  ultimately show ?thesis by (rule that)
qed

lemma type_at_fields:
  assumes "load32 m (q + 4) = Some info"
  shows "btf_kind (At m q) = Some (info_kind info)" "btf_vlen (At m q) = Some (unat (BTF_INFO_VLEN info))"
    "btf_kflag (At m q) = Some (BTF_INFO_KFLAG info \<noteq> 0)" "btf_type_size (At m q) = Some (info_size info)"
  using assms by (simp_all add: btf_kind_def btf_vlen_def btf_kflag_def t_info_def info_kind_def btf_type_size_info)

lemma grow_last:
  assumes b: "built_ok b" "cap_ok (own_sec b)" and q: "sec_offs (own_sec b) = qs @ [q]"
    and d: "types_data (own_sec b) = x @ words_bytes ws @ z" "length x = unat (type_len (hdr (own_sec b)))"
    and ld: "load32 (types_data (own_sec b)) (q + 4) = Some info" and sz: "info_size info' = info_size info + 4 * int (length ws)"
    and n: "unat (of_nat (4 * length ws) :: u32) = 4 * length ws"
  obtains b' where "write_types b (q + 4) [info'] = Some b'"
    "built_ok (upd_sec (\<lambda>s. s\<lparr>hdr := (hdr s)\<lparr>type_len := type_len (hdr s) + of_nat (4 * length ws), str_off := str_off (hdr s) + of_nat (4 * length ws)\<rparr>\<rparr>) b')"
    "abs_types (upd_sec (\<lambda>s. s\<lparr>hdr := (hdr s)\<lparr>type_len := type_len (hdr s) + of_nat (4 * length ws), str_off := str_off (hdr s) + of_nat (4 * length ws)\<rparr>\<rparr>) b') =
      butlast (abs_types b) @ [set_info_bytes (last (abs_types b)) info' @ words_bytes ws]"
    "ostrs b' = ostrs b"
proof -
  let ?s = "own_sec b" and ?n = "of_nat (4 * length ws) :: u32"
  have ok: "sec_ok ?s" using b(1) by (simp add: built_ok_def)
  have "q + 8 \<le> length (types_data ?s)" using ld by (simp add: load32_def split: if_splits)
  then obtain m where m: "store32 (types_data ?s) (q + 4) info' = Some m" by (simp add: store32_def)
  let ?b = "upd_sec (\<lambda>s. s\<lparr>types_data := m\<rparr>) b"
  have w: "write_types b (q + 4) [info'] = Some ?b" using m by (simp add: write_types_def)
  let ?b' = "upd_sec (\<lambda>s. s\<lparr>hdr := (hdr s)\<lparr>type_len := type_len (hdr s) + ?n, str_off := str_off (hdr s) + ?n\<rparr>\<rparr>) ?b"
  have len: "unat (type_len (hdr ?s)) + 4 * length ws \<le> UINT32_MAX" using b(2) d by (simp add: cap_ok_def)
  then have e: "unat (type_len (hdr (own_sec ?b'))) = unat (type_len (hdr ?s)) + 4 * length ws"
    using n by (simp add: unat_word_ariths UINT32_MAX_def)
  have m1: "types_data ?s = take (unat (type_len (hdr ?s))) (types_data ?s) @ words_bytes ws @ z" using d by simp
  note ex = sec_extend [OF ok q type_at_fields(4) [OF ld] sz m1, of "own_sec ?b'"]
  have "sec_ok (own_sec ?b')" by (rule ex(1)) (use m e in simp_all)
  moreover have "map (tile (types_data (own_sec ?b'))) (sec_offs (own_sec ?b')) =
      map (tile (types_data ?s)) qs @ [set_info_bytes (tile (types_data ?s) q) info' @ words_bytes ws]" by (rule ex(2)) (use m e in simp_all)
  moreover have "length m = length (types_data ?s)" using m by (rule mem_len)
  ultimately show ?thesis using that [OF w] b q by (simp add: built_ok_def hdr_ok_def cap_ok_def abs_types_def butlast_append)
qed

lemma append_elem_cases:
  assumes b: "built_ok b" "nr_types (own_sec b) \<noteq> 0" and name: "\<And>s. name = Some s \<Longrightarrow> c_string s"
    and t: "btf_last_type b = Some t" "t_info t = Some info" "info_kind info \<in> kinds" "chk (info_kind info) = 0"
    and ws: "\<And>w. length (words w) = L" "4 * L < 2 ^ 20"
    and new: "info' = new_info (info_kind info) (unat (BTF_INFO_VLEN info)) (BTF_INFO_KFLAG info \<noteq> 0)" "info_size info' = info_size info + 4 * int L"
  obtains (fail) e b' where "append_elem ok b kinds chk name words new_info = Some (e, b')" "e < 0" "built_ok b'" "abs_types b' = abs_types b"
      "keeps_names b b'" "out_of_room ok b name (4 * L)"
  | (added) k b' where "append_elem ok b kinds chk name words new_info = Some (0, b')" "built_ok b'" "keeps_names b b'"
      "abs_types b' = butlast (abs_types b) @ [set_info_bytes (last (abs_types b)) info' @ words_bytes (words (of_nat k))]"
      "btf_knows (ostrs b') k (case name of None \<Rightarrow> [] | Some s \<Rightarrow> s)" "k < 2 ^ 31" "no_name name \<Longrightarrow> k = 0"
proof -
  obtain qs q where q: "sec_offs (own_sec b) = qs @ [q]" "t = At (types_data (own_sec b)) q" "sec_ok (own_sec b)"
    using last_type_at [OF b] t(1) b(1) by (metis option.inject built_ok_def)
  have ld: "load32 (types_data (own_sec b)) (q + 4) = Some info" using t(2) q(2) by (simp add: t_info_def)
  note tf = type_at_fields [OF ld]
  have n: "4 * L < 2 ^ 32" using ws(2) by simp
  show ?thesis
  proof (rule prepare_cases [OF b(1) n name, where ok = ok])
    fix e b' assume "prepare ok b name (4 * L) = Some (e, b')" "e < 0" "built_ok b'" "abs_types b' = abs_types b" "keeps_names b b'" "out_of_room ok b name (4 * L)"
    then show ?thesis using fail [of e b'] b(2) t q tf ws(1) by (simp add: append_elem_def)
  next
    fix k b1 assume 1: "prepare ok b name (4 * L) = Some (int k, b1)" "k < 2 ^ 31" "evolves b b1"
      "unat (type_len (hdr (own_sec b1))) + 4 * L \<le> length (types_data (own_sec b1))"
      "btf_knows (ostrs b1) k (case name of None \<Rightarrow> [] | Some s \<Rightarrow> s)" "no_name name \<Longrightarrow> k = 0"
    let ?ws = "words (of_nat k)"
    have room: "unat (type_len (hdr (own_sec b1))) + 4 * length ?ws \<le> length (types_data (own_sec b1))" using 1(4) ws(1) by simp
    obtain b2 x z where 2: "write_types b1 (unat (type_len (hdr (own_sec b1)))) ?ws = Some b2" "evolves b b2" "ostrs b2 = ostrs b1"
      "types_data (own_sec b2) = x @ words_bytes ?ws @ z" "length x = unat (type_len (hdr (own_sec b2)))"
      by (rule write_types_behind [OF 1(3) b(1) room])
    note f = evolves_facts [OF 2(2) b(1)]
    have st: "same_types (own_sec b) (own_sec b2)" using 2(2) by (simp add: evolves_def)
    have q2: "sec_offs (own_sec b2) = qs @ [q]" using same_types_sec_ok(2) [OF st q(3)] q(1) by simp
    have "nr_types (own_sec b2) \<noteq> 0" using b(2) f(6) by simp
    then obtain qs' q' where "sec_offs (own_sec b2) = qs' @ [q']" and l: "btf_last_type b2 = Some (At (types_data (own_sec b2)) q')"
        "\<And>i. set_info b2 (btf__type_cnt (otys b2) - 1) i = write_types b2 (q' + 4) [i]"
      using last_type_at [OF f(1)] by metis
    then have "q' = q" using q2 by simp
    have inn: "q + 8 \<le> unat (type_len (hdr (own_sec b)))" "unat (type_len (hdr (own_sec b))) \<le> length (types_data (own_sec b))"
      using tiled_bounds [of "types_data (own_sec b)" 0 "qs @ [q]" "unat (type_len (hdr (own_sec b)))"] q by (simp_all add: sec_ok_def)
    have ld2: "load32 (types_data (own_sec b2)) (q + 4) = Some info"
      using load32_frame [OF _ _ inn(2), of _ "q + 4"] inn ld st by (simp add: same_types_def)
    note tf2 = type_at_fields [OF ld2]
    have u: "unat (of_nat (4 * length ?ws) :: u32) = 4 * length ?ws" using ws by (intro unat_of_nat_u32) simp
    have sz: "info_size info' = info_size info + 4 * int (length ?ws)" using new(2) ws(1) by simp
    obtain b3 where 3: "write_types b2 (q + 4) [info'] = Some b3"
      "built_ok (upd_sec (\<lambda>s. s\<lparr>hdr := (hdr s)\<lparr>type_len := type_len (hdr s) + of_nat (4 * length ?ws), str_off := str_off (hdr s) + of_nat (4 * length ?ws)\<rparr>\<rparr>) b3)"
      "abs_types (upd_sec (\<lambda>s. s\<lparr>hdr := (hdr s)\<lparr>type_len := type_len (hdr s) + of_nat (4 * length ?ws), str_off := str_off (hdr s) + of_nat (4 * length ?ws)\<rparr>\<rparr>) b3) =
        butlast (abs_types b2) @ [set_info_bytes (last (abs_types b2)) info' @ words_bytes ?ws]" "ostrs b3 = ostrs b2"
      by (rule grow_last [OF f(1,2) q2 2(4,5) ld2 sz u])
    show ?thesis
    proof (rule added [where k = k])
      show "append_elem ok b kinds chk name words new_info = Some (0, upd_sec (\<lambda>s. s\<lparr>hdr := (hdr s)\<lparr>type_len := type_len (hdr s) + of_nat (4 * length ?ws),
          str_off := str_off (hdr s) + of_nat (4 * length ?ws)\<rparr>\<rparr>) b3)"
        using b(2) t q(2) tf ws(1) 1(1) 2(1) l \<open>q' = q\<close> tf2 3(1) new(1) by (simp add: append_elem_def)
    qed (use 1 2(3) 3 f in \<open>simp_all add: keeps_names_def\<close>)
  qed
qed

end
