(* ===== verification/Btf_Object.thy ===== *)
theory Btf_Object
  imports Btf_Build
begin

text \<open>
  BTF objects over their life: a new empty object, any sequence of additions to it (\<open>buildable\<close>),
  and the lookup of what was added.
\<close>

section \<open>A new object\<close>

definition le16_bytes :: "u16 \<Rightarrow> bytes" where "le16_bytes w = [ucast w, ucast (drop_bit 8 w)]"

definition hdr_bytes :: "btf_header \<Rightarrow> bytes" where
  "hdr_bytes h = le16_bytes (magic h) @ [version h, flags h] @
     words_bytes [hdr_len h, type_off h, type_len h, str_off h, str_len h]"

definition obj_new_empty :: "bool \<times> bool \<Rightarrow> btf_obj option \<Rightarrow> btf_obj option" where
  "obj_new_empty ok base = do {
     strs \<leftarrow> btf_new_empty ok (map_option ostrs base);
     let h = \<lparr>magic = BTF_MAGIC, version = BTF_VERSION, flags = 0, hdr_len = 24, type_off = 0, type_len = 0, str_off = 0,
       str_len = (if base \<noteq> None then 0 else 1)\<rparr>;
     let raw = hdr_bytes h @ (if base \<noteq> None then [] else [0]);
     Some \<lparr>ostrs = strs, otys = Types (map_option otys base)
       \<lparr>hdr = h, hdr_more = [], raw_data = Some raw, raw_data_swapped = None, raw_size = of_nat (length raw), swapped_endian = False,
         types_data = [], types_data_cap = 0, type_offs = [], type_offs_cap = 0, nr_types = 0,
         start_id = (case base of None \<Rightarrow> 1 | Some b \<Rightarrow> btf__type_cnt (otys b)), ptr_sz = 8\<rparr>\<rparr>
   }"

lemma obj_new_empty_built: "obj_new_empty ok None = Some b \<Longrightarrow> built_ok b \<and> abs_types b = []"
  by (auto simp: obj_new_empty_def btf_new_empty_def built_ok_def own_sec_def sec_ok_def sec_offs_def hdr_ok_def btf_ok_def
    btf_is_modifiable_def abs_types_def Let_def split: if_splits)

lemma built_obj_ok:
  assumes "built_ok b"
  shows "obj_ok b"
proof -
  obtain s where o: "otys b = Types None s" and s: "s = own_sec b" using assms by (cases "otys b") (simp add: built_ok_def own_sec_def)
  obtain base start len strs where st: "ostrs b = Btf base start len strs" by (cases "ostrs b")
  have ok: "btf_ok (ostrs b)" "sec_ok s" "start_id s = 1" "len = unat (str_len (hdr s))" using assms s st by (auto simp: built_ok_def)
  have "Suc (unat (nr_types s)) < 2 ^ 31" using sec_ok_room [OF ok(2)] by (simp add: index_room_def BTF_MAX_NR_TYPES_def)
  then have "types_ok (otys b)" using o ok by simp
  moreover have "strs_ok (ostrs b)"
    using ok(1) btf_ok_len [OF ok(1)] st by (cases strs) (auto simp: btf_ok_def strset_ok_def)
  moreover have "halves_match (ostrs b) (otys b)" using ok(1,4) o st by (simp add: btf_ok_def)
  ultimately show ?thesis by (simp add: obj_ok_def)
qed

section \<open>Lookup of what was added\<close>

lemma tile_words:
  assumes "tile m q = words_bytes ws" and "btf_type_size (At m q) = Some n" "0 \<le> n" "q + nat n \<le> length m" and "j < length ws"
  shows "load32 m (q + 4 * j) = Some (ws ! j)"
proof -
  have l: "nat n = 4 * length ws" using arg_cong [OF assms(1), of length] assms(2-4) by (simp add: tile_def)
  have "m = take q m @ words_bytes ws @ drop (q + nat n) m"
    using assms(1,2) by (simp add: tile_def) (metis append_take_drop_id drop_drop add.commute)
  then show ?thesis using load32_words [OF assms(5), of "take q m" "drop (q + nat n) m"] assms(4) by simp
qed

lemma type_by_id_abs:
  assumes "built_ok b" and "i < length (abs_types b)" and "abs_types b ! i = words_bytes ws"
  obtains t where "btf__type_by_id (otys b) (of_nat (Suc i)) = Some (Some t)" "\<And>j. j < length ws \<Longrightarrow> t_word t (4 * j) = Some (ws ! j)"
proof -
  obtain s where o: "otys b = Types None s" and s: "s = own_sec b" using assms(1) by (cases "otys b") (simp add: built_ok_def own_sec_def)
  have ok: "sec_ok s" "start_id s = 1" using assms(1) s by (simp_all add: built_ok_def)
  have nr: "unat (nr_types s) \<le> length (type_offs s)" using ok(1) by (simp add: sec_ok_def)
  have i: "i < unat (nr_types s)" "sec_offs s ! i = unat (type_offs s ! i)"
    using assms(2) s nr by (simp_all add: abs_types_def sec_offs_def)
  have lt: "unat (nr_types s) < 2 ^ 31 - 1" using sec_ok_room [OF ok(1)] by (simp add: index_room_def BTF_MAX_NR_TYPES_def)
  have u: "unat (of_nat (Suc i) :: u32) = Suc i" using i(1) lt by (intro unat_of_nat_u32) simp
  have u1: "unat (of_nat (Suc i) - 1 :: u32) = i" using i(1) lt by (simp add: unat_of_nat_u32)
  let ?q = "unat (type_offs s ! i)"
  have ne: "\<not> of_nat (Suc i) \<ge> start_id s + nr_types s" "of_nat (Suc i) \<noteq> (0 :: u32)" "\<not> of_nat (Suc i) < start_id s"
    using u ok(2) i(1) lt by (simp_all add: word_le_nat_alt word_less_nat_alt unat_word_ariths del: of_nat_Suc) (metis unsigned_0 Suc_neq_Zero)
  have "btf__type_by_id (otys b) (of_nat (Suc i)) = Some (Some (At (types_data s) ?q))"
    using o ne ok(2) u1 i(1) nr by (simp add: btf__type_by_id_def Let_def del: of_nat_Suc)
  moreover have "t_word (At (types_data s) ?q) (4 * j) = Some (ws ! j)" if "j < length ws" for j
  proof -
    obtain n where "btf_type_size (At (types_data s) ?q) = Some n" "0 \<le> n" "?q + nat n \<le> length (types_data s)"
      using sec_ok_nth [OF ok(1) i(1)] by (auto simp: type_ok_def)
    moreover have "tile (types_data s) ?q = words_bytes ws" using assms(2,3) s i(2) by (simp add: abs_types_def)
    ultimately show ?thesis using tile_words that by simp
  qed
  ultimately show ?thesis by (rule that)
qed

section \<open>Sequences of additions\<close>

datatype btf_op =
    Add_int "string option" u64 u32
  | Add_float "string option" u64
  | Add_ptr int
  | Add_array int int u32
  | Add_struct "string option" u32
  | Add_union "string option" u32
  | Add_field "string option" int u32 u32
  | Add_enum "string option" u32
  | Add_enum_value "string option" int
  | Add_enum64 "string option" u32 bool
  | Add_enum64_value "string option" u64
  | Add_fwd "string option" btf_fwd_kind
  | Add_typedef "string option" int
  | Add_volatile int
  | Add_const int
  | Add_restrict int
  | Add_type_tag "string option" int
  | Add_func "string option" nat int
  | Add_func_proto int
  | Add_func_param "string option" int
  | Add_var "string option" nat int
  | Add_datasec "string option" u32
  | Add_datasec_var_info int u32 u32
  | Add_decl_tag "string option" int int

fun run_op :: "allocs \<Rightarrow> btf_obj \<Rightarrow> btf_op \<Rightarrow> (int \<times> btf_obj) option" where
  "run_op al b (Add_int name n enc) = btf__add_int al b name n enc"
| "run_op al b (Add_float name n) = btf__add_float al b name n"
| "run_op al b (Add_ptr i) = btf__add_ptr al b i"
| "run_op al b (Add_array i e n) = btf__add_array al b i e n"
| "run_op al b (Add_struct name n) = btf__add_struct al b name n"
| "run_op al b (Add_union name n) = btf__add_union al b name n"
| "run_op al b (Add_field name i off n) = btf__add_field al b name i off n"
| "run_op al b (Add_enum name n) = btf__add_enum al b name n"
| "run_op al b (Add_enum_value name v) = btf__add_enum_value al b name v"
| "run_op al b (Add_enum64 name n sg) = btf__add_enum64 al b name n sg"
| "run_op al b (Add_enum64_value name v) = btf__add_enum64_value al b name v"
| "run_op al b (Add_fwd name k) = btf__add_fwd al b name k"
| "run_op al b (Add_typedef name i) = btf__add_typedef al b name i"
| "run_op al b (Add_volatile i) = btf__add_volatile al b i"
| "run_op al b (Add_const i) = btf__add_const al b i"
| "run_op al b (Add_restrict i) = btf__add_restrict al b i"
| "run_op al b (Add_type_tag name i) = btf__add_type_tag al b name i"
| "run_op al b (Add_func name l i) = btf__add_func al b name l i"
| "run_op al b (Add_func_proto i) = btf__add_func_proto al b i"
| "run_op al b (Add_func_param name i) = btf__add_func_param al b name i"
| "run_op al b (Add_var name l i) = btf__add_var al b name l i"
| "run_op al b (Add_datasec name n) = btf__add_datasec al b name n"
| "run_op al b (Add_datasec_var_info i off n) = btf__add_datasec_var_info al b i off n"
| "run_op al b (Add_decl_tag name i c) = btf__add_decl_tag al b name i c"

fun op_name :: "btf_op \<Rightarrow> string option" where
  "op_name (Add_int name n enc) = name"
| "op_name (Add_float name n) = name"
| "op_name (Add_struct name n) = name"
| "op_name (Add_union name n) = name"
| "op_name (Add_field name i off n) = name"
| "op_name (Add_enum name n) = name"
| "op_name (Add_enum_value name v) = name"
| "op_name (Add_enum64 name n sg) = name"
| "op_name (Add_enum64_value name v) = name"
| "op_name (Add_fwd name k) = name"
| "op_name (Add_typedef name i) = name"
| "op_name (Add_type_tag name i) = name"
| "op_name (Add_func name l i) = name"
| "op_name (Add_func_param name i) = name"
| "op_name (Add_var name l i) = name"
| "op_name (Add_datasec name n) = name"
| "op_name (Add_decl_tag name i c) = name"
| "op_name _ = None"

fun is_elem_op :: "btf_op \<Rightarrow> bool" where
  "is_elem_op (Add_field name i off n) \<longleftrightarrow> True"
| "is_elem_op (Add_enum_value name v) \<longleftrightarrow> True"
| "is_elem_op (Add_enum64_value name v) \<longleftrightarrow> True"
| "is_elem_op (Add_func_param name i) \<longleftrightarrow> True"
| "is_elem_op (Add_datasec_var_info i off n) \<longleftrightarrow> True"
| "is_elem_op _ \<longleftrightarrow> False"

text \<open>What the caller owes: names are C strings, and a type has at most 65535 elements.\<close>

definition room_for_elem :: "btf_obj \<Rightarrow> bool" where
  "room_for_elem b \<longleftrightarrow> (\<forall>t v. btf_last_type b = Some t \<and> btf_vlen t = Some v \<longrightarrow> v + 1 < 2 ^ 16)"

definition op_ok :: "btf_obj \<Rightarrow> btf_op \<Rightarrow> bool" where
  "op_ok b oper \<longleftrightarrow> (\<forall>s. op_name oper = Some s \<longrightarrow> c_string s) \<and> (is_elem_op oper \<longrightarrow> room_for_elem b)"

inductive buildable :: "btf_obj \<Rightarrow> bool" where
  new: "obj_new_empty ok None = Some b \<Longrightarrow> buildable b"
| op: "buildable b \<Longrightarrow> op_ok b oper \<Longrightarrow> run_op al b oper = Some (r, b') \<Longrightarrow> buildable b'"

text \<open>\<open>keeps_built\<close>: the operation makes no invalid access and keeps the invariant.\<close>

definition keeps_built :: "(int \<times> btf_obj) option \<Rightarrow> bool" where
  "keeps_built r \<longleftrightarrow> (\<exists>i b. r = Some (i, b) \<and> built_ok b)"

lemma keeps_built_Some [simp]: "keeps_built (Some (i, b)) \<longleftrightarrow> built_ok b"
  by (simp add: keeps_built_def)

lemma append_type_keeps:
  assumes "built_ok b" and "\<And>s. name = Some s \<Longrightarrow> c_string s" and "type_words words info"
  shows "keeps_built (append_type al b name words)"
  by (rule append_type_cases [OF assms(1,3,2), where ok = al]) (auto simp: keeps_built_def)

lemma type_wordsI:
  assumes "\<forall>n. k \<noteq> Kind_other n" and "vlen < 2 ^ 16"
    and "\<And>w. kind_size k vlen = 4 * int (length (words w)) \<and> words w ! 1 = btf_type_info k vlen f"
  shows "type_words words (btf_type_info k vlen f)"
  using assms(3) by (simp add: type_words_def info_size_eq [OF assms(1,2)])

lemma append_elem_keeps:
  assumes b: "built_ok b" and name: "\<And>s. name = Some s \<Longrightarrow> c_string s" and room: "room_for_elem b"
    and ws: "\<And>w. length (words w) = L" "4 * L < 2 ^ 20"
    and new: "\<And>k v f. k \<in> kinds \<Longrightarrow> v + 1 < 2 ^ 16 \<Longrightarrow> \<exists>f'. new_info k v f = btf_type_info k (v + 1) f'"
    and kinds: "\<And>k v. k \<in> kinds \<Longrightarrow> (\<forall>n. k \<noteq> Kind_other n) \<and> kind_size k (v + 1) = kind_size k v + 4 * int L"
  shows "keeps_built (append_elem al b kinds chk name words new_info)"
proof (cases "nr_types (own_sec b) = 0")
  case True
  then show ?thesis using b by (simp add: append_elem_def)
next
  case nz: False
  obtain qs q where q: "sec_offs (own_sec b) = qs @ [q]" "btf_last_type b = Some (At (types_data (own_sec b)) q)"
    using last_type_at [OF b nz] by metis
  have sec: "sec_ok (own_sec b)" using b by (simp add: built_ok_def)
  obtain n where "btf_type_size (At (types_data (own_sec b)) q) = Some n"
    using sec q(1) tiled_snocD [of "types_data (own_sec b)" 0 qs q] by (auto simp: sec_ok_def)
  then obtain info where info: "load32 (types_data (own_sec b)) (q + 4) = Some info" by (auto simp: btf_type_size_info)
  note tf = type_at_fields [OF info]
  let ?k = "info_kind info" and ?v = "unat (BTF_INFO_VLEN info)" and ?f = "BTF_INFO_KFLAG info \<noteq> 0"
  show ?thesis
  proof (cases "?k \<in> kinds \<and> chk ?k = 0")
    case False
    then show ?thesis using nz q tf b by (auto simp: append_elem_def)
  next
    case True
    have v: "?v + 1 < 2 ^ 16" using room q(2) tf(2) unfolding room_for_elem_def by blast
    obtain f' where f': "new_info ?k ?v ?f = btf_type_info ?k (?v + 1) f'" using new True v by blast
    have "info_size (btf_type_info ?k (?v + 1) f') = kind_size ?k (?v + 1)" using kinds True v by (intro info_size_eq) blast+
    then have sz: "info_size (btf_type_info ?k (?v + 1) f') = info_size info + 4 * int L" using kinds True by (simp add: info_size_kind [of info])
    have ti: "t_info (At (types_data (own_sec b)) q) = Some info" using info by (simp add: t_info_def)
    have c: "?k \<in> kinds" "chk ?k = 0" using True by simp_all
    show ?thesis
      by (rule append_elem_cases [where ok = al and b = b and name = name and t = "At (types_data (own_sec b)) q" and info = info and kinds = kinds and
          chk = chk and words = words and L = L and new_info = new_info, OF b nz name q(2) ti c ws refl])
        (use sz f' in \<open>auto simp: keeps_built_def\<close>)
  qed
qed

text \<open>Changing \<^verbatim>\<open>info\<close> of the type that was added last.\<close>

lemma set_info_keeps:
  assumes b: "built_ok b" "cap_ok (own_sec b)" and a: "abs_types b = ts @ [words_bytes ws]" "1 < length ws"
    and i: "info_size info = info_size (ws ! 1)" and r: "of_int i = btf__type_cnt (otys b) - 1"
  shows "keeps_built (do { b \<leftarrow> set_info b (of_int i) info; Some (i, b) })"
proof -
  let ?s = "own_sec b"
  have sec: "sec_ok ?s" using b(1) by (simp add: built_ok_def)
  have nz: "nr_types ?s \<noteq> 0" using a(1) by (auto simp: abs_types_def sec_offs_def)
  obtain qs q where q: "sec_offs ?s = qs @ [q]" "\<And>i. set_info b (btf__type_cnt (otys b) - 1) i = write_types b (q + 4) [i]"
    using last_type_at [OF b(1) nz] by metis
  obtain n where n: "btf_type_size (At (types_data ?s) q) = Some n" "0 \<le> n" "q + nat n = unat (type_len (hdr ?s))"
    using sec q(1) tiled_snocD [of "types_data ?s" 0 qs q] by (auto simp: sec_ok_def)
  have "tile (types_data ?s) q = words_bytes ws" using a(1) q(1) by (simp add: abs_types_def)
  then have ld: "load32 (types_data ?s) (q + 4) = Some (ws ! 1)"
    using tile_words [OF _ n(1,2), of ws 1] n(3) sec a(2) by (simp add: sec_ok_def)
  obtain b' where b': "write_types b (q + 4) [info] = Some b'"
    "built_ok (upd_sec (\<lambda>s. s\<lparr>hdr := (hdr s)\<lparr>type_len := type_len (hdr s) + of_nat (4 * length []), str_off := str_off (hdr s) + of_nat (4 * length [])\<rparr>\<rparr>) b')"
    by (rule grow_last [OF b q(1), where ws = "[]" and x = "take (unat (type_len (hdr ?s))) (types_data ?s)" and
        z = "drop (unat (type_len (hdr ?s))) (types_data ?s)" and info = "ws ! 1" and info' = info]) (use ld i sec in \<open>auto simp: sec_ok_def\<close>)
  have "upd_sec (\<lambda>s. s\<lparr>hdr := (hdr s)\<lparr>type_len := type_len (hdr s) + of_nat (4 * length []), str_off := str_off (hdr s) + of_nat (4 * length [])\<rparr>\<rparr>) b' = b'"
    by (simp add: upd_sec_def)
  then show ?thesis using b' q(2) r by simp
qed

lemma append_then_info:
  assumes "built_ok b" and "\<And>s. name = Some s \<Longrightarrow> c_string s" and "type_words words info" and "info_size info' = info_size info"
    and r: "append_type al b name words = Some (i, b1)" "0 < i"
  shows "keeps_built (do { b \<leftarrow> set_info b1 (of_int i) info'; Some (i, b) })"
proof (rule append_type_cases [OF assms(1,3,2), where ok = al])
  fix e b' assume "append_type al b name words = Some (e, b')" "e < 0"
  then show ?thesis using r by simp
next
  fix k b' assume a: "append_type al b name words = Some (int (unat (nr_types (own_sec b))) + 1, b')" "built_ok b'"
    "abs_types b' = abs_types b @ [words_bytes (words (of_nat k))]" "cap_ok (own_sec b')" "nr_types (own_sec b') = nr_types (own_sec b) + 1"
  have e: "b1 = b'" "i = int (unat (nr_types (own_sec b))) + 1" using r a(1) by simp_all
  have w: "info_size info = 4 * int (length (words (of_nat k)))" "words (of_nat k) ! 1 = info" using assms(3) unfolding type_words_def by blast+
  have "1 < length (words (of_nat k))" using info_size_bounds(2) [of info] w(1) by linarith
  moreover have "of_int i = btf__type_cnt (otys b') - 1" using e(2) a(2,5) by (simp add: btf__type_cnt_def built_ok_def own_sec_def)
  ultimately show ?thesis unfolding e(1) using set_info_keeps [OF a(2,4,3)] assms(4) w(2) by simp
qed

text \<open>The two families of operations.\<close>

lemma simple_type_keeps:
  assumes "built_ok b" and "\<And>s. name = Some s \<Longrightarrow> c_string s"
    and "\<forall>n. k \<noteq> Kind_other n" and "\<And>w. kind_size k 0 = 4 * int (length (words w)) \<and> words w ! 1 = btf_type_info k 0 f"
  shows "keeps_built (append_type al b name words)"
  using append_type_keeps [OF assms(1,2) type_wordsI [OF assms(3) _ assms(4)]] by simp

abbreviation plain_kinds :: "btf_kinds set" where
  "plain_kinds \<equiv> {BTF_KIND_FWD, BTF_KIND_CONST, BTF_KIND_VOLATILE, BTF_KIND_RESTRICT, BTF_KIND_PTR, BTF_KIND_TYPEDEF,
     BTF_KIND_FUNC, BTF_KIND_FLOAT, BTF_KIND_TYPE_TAG}"

lemma plain_kind: "k \<in> plain_kinds \<Longrightarrow> (\<forall>n. k \<noteq> Kind_other n) \<and> kind_size k v = 12"
  by (auto simp: kind_size_def)

lemma ref_kind_keeps:
  assumes "built_ok b" and "\<forall>s. name = Some s \<longrightarrow> c_string s" and "k \<in> plain_kinds"
  shows "keeps_built (btf_add_ref_kind al b k name i)"
proof -
  have "keeps_built (append_type al b name (\<lambda>name_off. [name_off, btf_type_info k 0 False, of_int i]))"
    by (rule simple_type_keeps [where k = k and f = False]) (use assms plain_kind [OF assms(3), of 0] in auto)
  then show ?thesis using assms(1) by (simp add: btf_add_ref_kind_def)
qed

lemma ref_kind_then_info:
  assumes b: "built_ok b" and name: "\<forall>s. name = Some s \<longrightarrow> c_string s" and k: "k \<in> plain_kinds" and v: "vlen < 2 ^ 16"
  shows "keeps_built (do { (i, b) \<leftarrow> btf_add_ref_kind al b k name j;
    if i \<le> 0 then Some (i, b) else do { b \<leftarrow> set_info b (of_int i) (btf_type_info k vlen f); Some (i, b) } })"
proof -
  let ?ws = "\<lambda>name_off. [name_off, btf_type_info k 0 False, of_int j]"
  have nm: "\<And>s. name = Some s \<Longrightarrow> c_string s" using name by simp
  obtain i b1 where r: "btf_add_ref_kind al b k name j = Some (i, b1)" "built_ok b1"
    using ref_kind_keeps [OF b name k, of al j] by (auto simp: keeps_built_def)
  have tw: "type_words ?ws (btf_type_info k 0 False)" by (rule type_wordsI) (use plain_kind [OF k, of 0] in auto)
  have sz: "info_size (btf_type_info k vlen f) = info_size (btf_type_info k 0 False)"
    using info_size_eq [of k vlen f] info_size_eq [of k 0 False] v plain_kind [OF k] by simp
  show ?thesis
  proof (cases "i \<le> 0")
    case False
    then have "append_type al b name ?ws = Some (i, b1)" using r(1) by (simp add: btf_add_ref_kind_def EINVAL_def split: if_splits)
    then show ?thesis using append_then_info [OF b nm tw sz] r(1) False by simp
  qed (use r in simp)
qed

text \<open>Every operation, one by one.\<close>

named_theorems keeps_ops

lemma type_op_keeps:
  assumes "built_ok b" and "\<forall>s. name = Some s \<longrightarrow> c_string s" and "\<forall>n. k \<noteq> Kind_other n"
    and "kind_size k 0 = 4 * int (Suc (Suc L))" and "\<And>w. length (rest w) = L"
  shows "keeps_built (append_type al b name (\<lambda>w. nm w # btf_type_info k 0 f # rest w))"
  by (rule simple_type_keeps [where k = k and f = f]) (use assms in auto)

lemma btf__add_int_keeps [keeps_ops]: "built_ok b \<Longrightarrow> \<forall>s. name = Some s \<longrightarrow> c_string s \<Longrightarrow> keeps_built (btf__add_int al b name n enc)"
  using type_op_keeps [of b name BTF_KIND_INT 2] by (simp add: btf__add_int_def kind_size_def)

lemma btf__add_float_keeps [keeps_ops]: "built_ok b \<Longrightarrow> \<forall>s. name = Some s \<longrightarrow> c_string s \<Longrightarrow> keeps_built (btf__add_float al b name n)"
  using type_op_keeps [of b name BTF_KIND_FLOAT 1] by (simp add: btf__add_float_def kind_size_def)

lemma btf__add_array_keeps [keeps_ops]: "built_ok b \<Longrightarrow> keeps_built (btf__add_array al b i e n)"
  using type_op_keeps [of b None BTF_KIND_ARRAY 4] by (simp add: btf__add_array_def kind_size_def)

lemma btf__add_composite_keeps [keeps_ops]:
  "built_ok b \<Longrightarrow> \<forall>s. name = Some s \<longrightarrow> c_string s \<Longrightarrow> keeps_built (btf__add_struct al b name n)"
  "built_ok b \<Longrightarrow> \<forall>s. name = Some s \<longrightarrow> c_string s \<Longrightarrow> keeps_built (btf__add_union al b name n)"
  using type_op_keeps [of b name BTF_KIND_STRUCT 1] type_op_keeps [of b name BTF_KIND_UNION 1]
  by (simp_all add: btf__add_struct_def btf__add_union_def btf_add_composite_def kind_size_def)

lemma btf__add_enum_keeps [keeps_ops]:
  "built_ok b \<Longrightarrow> \<forall>s. name = Some s \<longrightarrow> c_string s \<Longrightarrow> keeps_built (btf__add_enum al b name n)"
  "built_ok b \<Longrightarrow> \<forall>s. name = Some s \<longrightarrow> c_string s \<Longrightarrow> keeps_built (btf__add_enum64 al b name n sg)"
  using type_op_keeps [of b name BTF_KIND_ENUM 1] type_op_keeps [of b name BTF_KIND_ENUM64 1]
  by (simp_all add: btf__add_enum_def btf__add_enum64_def btf_add_enum_common_def kind_size_def)

lemma btf__add_ref_keeps [keeps_ops]:
  "built_ok b \<Longrightarrow> keeps_built (btf__add_ptr al b i)"
  "built_ok b \<Longrightarrow> keeps_built (btf__add_volatile al b i)"
  "built_ok b \<Longrightarrow> keeps_built (btf__add_const al b i)"
  "built_ok b \<Longrightarrow> keeps_built (btf__add_restrict al b i)"
  "built_ok b \<Longrightarrow> \<forall>s. name = Some s \<longrightarrow> c_string s \<Longrightarrow> keeps_built (btf__add_typedef al b name i)"
  "built_ok b \<Longrightarrow> \<forall>s. name = Some s \<longrightarrow> c_string s \<Longrightarrow> keeps_built (btf__add_type_tag al b name i)"
  using ref_kind_keeps [of b None] ref_kind_keeps [of b name]
  by (simp_all add: btf__add_ptr_def btf__add_volatile_def btf__add_const_def btf__add_restrict_def btf__add_typedef_def btf__add_type_tag_def)

lemma btf__add_fwd_keeps [keeps_ops]: "built_ok b \<Longrightarrow> \<forall>s. name = Some s \<longrightarrow> c_string s \<Longrightarrow> keeps_built (btf__add_fwd al b name k)"
  using ref_kind_then_info [of b name BTF_KIND_FWD 0 al 0] btf__add_enum_keeps(1) by (simp add: btf__add_fwd_def)

lemma btf__add_func_keeps [keeps_ops]: "built_ok b \<Longrightarrow> \<forall>s. name = Some s \<longrightarrow> c_string s \<Longrightarrow> keeps_built (btf__add_func al b name l i)"
proof -
  have sw: "(if 0 < j then x else y) = (if j \<le> 0 then y else x)" for j :: int and x y :: "(int \<times> btf_obj) option" by simp
  assume "built_ok b" "\<forall>s. name = Some s \<longrightarrow> c_string s"
  then show ?thesis using ref_kind_then_info [of b name BTF_KIND_FUNC l al i] by (auto simp: btf__add_func_def sw)
qed

lemma btf__add_func_proto_keeps [keeps_ops]: "built_ok b \<Longrightarrow> keeps_built (btf__add_func_proto al b i)"
  using type_op_keeps [of b None BTF_KIND_FUNC_PROTO 1] by (simp add: btf__add_func_proto_def kind_size_def)

lemma btf__add_var_keeps [keeps_ops]: "built_ok b \<Longrightarrow> \<forall>s. name = Some s \<longrightarrow> c_string s \<Longrightarrow> keeps_built (btf__add_var al b name l i)"
  using type_op_keeps [of b name BTF_KIND_VAR 2] by (simp add: btf__add_var_def kind_size_def)

lemma btf__add_datasec_keeps [keeps_ops]: "built_ok b \<Longrightarrow> \<forall>s. name = Some s \<longrightarrow> c_string s \<Longrightarrow> keeps_built (btf__add_datasec al b name n)"
  using type_op_keeps [of b name BTF_KIND_DATASEC 1] by (simp add: btf__add_datasec_def kind_size_def)

lemma btf__add_decl_tag_keeps [keeps_ops]: "built_ok b \<Longrightarrow> \<forall>s. name = Some s \<longrightarrow> c_string s \<Longrightarrow> keeps_built (btf__add_decl_tag al b name i c)"
  using type_op_keeps [of b name BTF_KIND_DECL_TAG 2] by (simp add: btf__add_decl_tag_def kind_size_def)

lemma btf__add_field_keeps [keeps_ops]:
  "built_ok b \<Longrightarrow> \<forall>s. name = Some s \<longrightarrow> c_string s \<Longrightarrow> room_for_elem b \<Longrightarrow> keeps_built (btf__add_field al b name i off n)"
  unfolding btf__add_field_def by (rule append_elem_keeps [where L = 3]) (auto simp: kind_size_def)

lemma btf__add_enum_value_keeps [keeps_ops]:
  "built_ok b \<Longrightarrow> \<forall>s. name = Some s \<longrightarrow> c_string s \<Longrightarrow> room_for_elem b \<Longrightarrow> keeps_built (btf__add_enum_value al b name v)"
  unfolding btf__add_enum_value_def by (rule append_elem_keeps [where L = 2]) (auto simp: kind_size_def inc_vlen_def)

lemma btf__add_enum64_value_keeps [keeps_ops]:
  "built_ok b \<Longrightarrow> \<forall>s. name = Some s \<longrightarrow> c_string s \<Longrightarrow> room_for_elem b \<Longrightarrow> keeps_built (btf__add_enum64_value al b name w)"
  unfolding btf__add_enum64_value_def by (rule append_elem_keeps [where L = 3]) (auto simp: kind_size_def inc_vlen_def)

lemma btf__add_func_param_keeps [keeps_ops]:
  "built_ok b \<Longrightarrow> \<forall>s. name = Some s \<longrightarrow> c_string s \<Longrightarrow> room_for_elem b \<Longrightarrow> keeps_built (btf__add_func_param al b name i)"
proof -
  assume b: "built_ok b" "\<forall>s. name = Some s \<longrightarrow> c_string s" "room_for_elem b"
  have "keeps_built (append_elem al b {BTF_KIND_FUNC_PROTO} (\<lambda>_. 0) name (\<lambda>name_off. [name_off, of_int i]) inc_vlen)"
    by (rule append_elem_keeps [where L = 2]) (use b in \<open>auto simp: kind_size_def inc_vlen_def\<close>)
  then show ?thesis using b(1) by (simp add: btf__add_func_param_def)
qed

lemma btf__add_datasec_var_info_keeps [keeps_ops]:
  "built_ok b \<Longrightarrow> room_for_elem b \<Longrightarrow> keeps_built (btf__add_datasec_var_info al b i off n)"
  unfolding btf__add_datasec_var_info_def by (rule append_elem_keeps [where L = 3]) (auto simp: kind_size_def inc_vlen_def)

lemma run_op_keeps:
  assumes "built_ok b" and "op_ok b oper"
  shows "keeps_built (run_op al b oper)"
  using assms by (cases oper) (simp_all add: op_ok_def keeps_ops)

lemma buildable_built: "buildable b \<Longrightarrow> built_ok b"
proof (induction rule: buildable.induct)
  case (op b oper al r b')
  then show ?case using run_op_keeps [OF op.IH op.hyps(2), of al] by (simp add: keeps_built_def)
qed (use obj_new_empty_built in blast)

text \<open>
  C9. Building a BTF object: however types and elements are added to a new object, with whatever
  allocation failures, as long as names are C strings and no type gets more than 65535 elements, no
  operation makes an access outside the memory of the object, and the object stays well formed,
  which is what the queries rely on.
\<close>

theorem buildable_well_formed:
  assumes "buildable b"
  shows "obj_ok b \<and> (\<forall>oper al. op_ok b oper \<longrightarrow> (\<exists>r b'. run_op al b oper = Some (r, b')))"
  using buildable_built [OF assms] built_obj_ok run_op_keeps unfolding keeps_built_def by blast

definition new_obj :: btf_obj where "new_obj = the (obj_new_empty (True, True) None)"

lemma new_obj_new: "obj_new_empty (True, True) None = Some new_obj"
  by (simp add: new_obj_def obj_new_empty_def btf_new_empty_def Let_def)

lemma new_obj_buildable: "buildable new_obj"
  by (rule buildable.new [OF new_obj_new])

theorem buildable_well_formed_witness:
  "\<exists>r b'. run_op (\<lambda>_. True) new_obj (Add_int (Some ''int'') 4 1) = Some (r, b')"
proof -
  have "op_ok new_obj (Add_int (Some ''int'') 4 1)" by (simp add: op_ok_def c_string_def is_cstr_def NUL_def)
  then show ?thesis using buildable_well_formed [OF new_obj_buildable] by blast
qed

end
