(* ===== verification/Btf_Elems.thy ===== *)
theory Btf_Elems
  imports Btf_Object
begin

text \<open>
  Types with elements: members of a struct or union, values of an enumeration, parameters of a
  prototype, variables of a data section.  The contract of an operation that adds one element to the last
  type is the locale \<open>elem_adder\<close>; what a sequence of calls adds is proved there once and holds for
  the five operations of \<^verbatim>\<open>libbpf/src/btf.c\<close> by interpretation.
\<close>

section \<open>Members as they are read\<close>

definition m_name_off :: "type_ptr \<Rightarrow> nat \<Rightarrow> u32 option" where "m_name_off t i = t_word t (12 + 12 * i)"
definition m_offset :: "type_ptr \<Rightarrow> nat \<Rightarrow> u32 option" where "m_offset t i = t_word t (12 + 12 * i + 8)"

definition BTF_MEMBER_BITFIELD_SIZE :: "u32 \<Rightarrow> u32" where "BTF_MEMBER_BITFIELD_SIZE val = drop_bit 24 val"
definition BTF_MEMBER_BIT_OFFSET :: "u32 \<Rightarrow> u32" where "BTF_MEMBER_BIT_OFFSET val = val AND 0xffffff"

definition btf_member_bit_offset :: "type_ptr \<Rightarrow> nat \<Rightarrow> u32 option" where
  "btf_member_bit_offset t member_idx = do {
     kflag \<leftarrow> btf_kflag t;
     offset \<leftarrow> m_offset t member_idx;
     Some (if kflag then BTF_MEMBER_BIT_OFFSET offset else offset)
   }"

definition btf_member_bitfield_size :: "type_ptr \<Rightarrow> nat \<Rightarrow> u32 option" where
  "btf_member_bitfield_size t member_idx = do {
     kflag \<leftarrow> btf_kflag t;
     offset \<leftarrow> m_offset t member_idx;
     Some (if kflag then BTF_MEMBER_BITFIELD_SIZE offset else 0)
   }"

section \<open>Sequences of elements\<close>

text \<open>Calls one after the other until one fails; \<open>als n\<close> are the allocations of the \<open>n\<close>-th call.\<close>

fun add_elems :: "(allocs \<Rightarrow> btf_obj \<Rightarrow> 'e \<Rightarrow> (int \<times> btf_obj) option) \<Rightarrow> (nat \<Rightarrow> allocs) \<Rightarrow> btf_obj \<Rightarrow> 'e list \<Rightarrow>
    (int \<times> btf_obj) option" where
  "add_elems add als b [] = Some (0, b)"
| "add_elems add als b (e # es) = do {
     (err, b) \<leftarrow> add (als 0) b e;
     if err \<noteq> 0 then Some (err, b) else add_elems add (\<lambda>n. als (Suc n)) b es
   }"

text \<open>
  What one call does to an object whose last type has the words \<open>ws\<close>: it fails for lack of room and changes no type,
  or the last type has the words \<open>ws'\<close> and those of the element, with the offset of its name.
\<close>

definition elem_added :: "allocs \<Rightarrow> btf_obj \<Rightarrow> string option \<Rightarrow> (u32 \<Rightarrow> u32 list) \<Rightarrow> bytes list \<Rightarrow> u32 list \<Rightarrow>
    (int \<times> btf_obj) option \<Rightarrow> bool" where
  "elem_added ok b name words ts ws' r \<longleftrightarrow> (\<exists>err b'. r = Some (err, b') \<and> built_ok b' \<and> keeps_names b b' \<and>
     (if err \<noteq> 0 then err < 0 \<and> abs_types b' = abs_types b \<and> out_of_room ok b name (4 * length (words 0))
      else \<exists>k < 2 ^ 31. btf_knows (ostrs b') k (case name of None \<Rightarrow> [] | Some s \<Rightarrow> s) \<and>
        abs_types b' = ts @ [words_bytes (ws' @ words (of_nat k))]))"

lemma set_info_words: "set_info_bytes (words_bytes (w # info # ws)) info' = words_bytes (w # info' # ws)"
  by (simp add: set_info_bytes_def)

lemma last_type_info:
  assumes b: "built_ok b" and a: "abs_types b = ts @ [words_bytes (w # info # ws)]"
  obtains t where "nr_types (own_sec b) \<noteq> 0" "btf_last_type b = Some t" "t_info t = Some info"
proof -
  let ?s = "own_sec b"
  have sec: "sec_ok ?s" using b by (simp add: built_ok_def)
  have nz: "nr_types ?s \<noteq> 0" using a by (auto simp: abs_types_def sec_offs_def)
  obtain qs q where q: "sec_offs ?s = qs @ [q]" "btf_last_type b = Some (At (types_data ?s) q)"
    using last_type_at [OF b nz] by metis
  obtain n where n: "btf_type_size (At (types_data ?s) q) = Some n" "0 \<le> n" "q + nat n = unat (type_len (hdr ?s))"
    using sec q(1) tiled_snocD [of "types_data ?s" 0 qs q] by (auto simp: sec_ok_def)
  have "tile (types_data ?s) q = words_bytes (w # info # ws)" using a q(1) by (simp add: abs_types_def)
  then have "load32 (types_data ?s) (q + 4) = Some info"
    using tile_words [OF _ n(1,2), of "w # info # ws" 1] n(3) sec by (simp add: sec_ok_def)
  then show ?thesis using that nz q(2) by (simp add: t_info_def)
qed

lemma append_elem_added:
  assumes b: "built_ok b" and a: "abs_types b = ts @ [words_bytes (w # btf_type_info k v f # ws)]" and v: "v + 1 < 2 ^ 16"
    and k: "k \<in> kinds" "chk k = 0" "\<forall>n. k \<noteq> Kind_other n" and name: "\<forall>s. name = Some s \<longrightarrow> c_string s"
    and words: "\<And>w. length (words w) = L" "4 * L < 2 ^ 20" "kind_size k (v + 1) = kind_size k v + 4 * int L"
    and new: "new_info k v f = btf_type_info k (v + 1) f'"
  shows "elem_added ok b name words ts (w # btf_type_info k (v + 1) f' # ws) (append_elem ok b kinds chk name words new_info)"
proof -
  let ?i = "btf_type_info k v f" and ?i' = "btf_type_info k (v + 1) f'"
  obtain t where t: "nr_types (own_sec b) \<noteq> 0" "btf_last_type b = Some t" "t_info t = Some ?i" by (rule last_type_info [OF b a])
  have ik: "info_kind ?i = k" "unat (BTF_INFO_VLEN ?i) = v" "(BTF_INFO_KFLAG ?i \<noteq> 0) = f"
    using info_kind_eq [OF k(3), of v f] info_parts(3) [of k v f] kind_num_less [OF k(3)] v by auto
  have i': "?i' = new_info (info_kind ?i) (unat (BTF_INFO_VLEN ?i)) (BTF_INFO_KFLAG ?i \<noteq> 0)" using ik new by simp
  have sz: "info_size ?i' = info_size ?i + 4 * int L"
    using info_size_eq [OF k(3), of "v + 1" f'] info_size_eq [OF k(3), of v f] words(3) v by simp
  have nm: "\<And>s. name = Some s \<Longrightarrow> c_string s" using name by simp
  have kk: "info_kind ?i \<in> kinds" "chk (info_kind ?i) = 0" using ik k by simp_all
  show ?thesis
  proof (rule append_elem_cases [where ok = ok and info' = ?i' and b = b and name = name and t = t and info = ?i and kinds = kinds and
        chk = chk and words = words and L = L and new_info = new_info, OF b t(1) nm t(2,3) kk words(1,2) i' sz])
    fix e b' assume "append_elem ok b kinds chk name words new_info = Some (e, b')" "e < 0" "built_ok b'" "abs_types b' = abs_types b"
      "keeps_names b b'" "out_of_room ok b name (4 * L)"
    then show ?thesis using words(1) [of 0] by (simp add: elem_added_def)
  next
    fix n b' assume *: "append_elem ok b kinds chk name words new_info = Some (0, b')" "built_ok b'" "keeps_names b b'"
      "abs_types b' = butlast (abs_types b) @ [set_info_bytes (last (abs_types b)) ?i' @ words_bytes (words (of_nat n))]"
      "btf_knows (ostrs b') n (case name of None \<Rightarrow> [] | Some s \<Rightarrow> s)" "n < 2 ^ 31"
    have "abs_types b' = ts @ [words_bytes ((w # ?i' # ws) @ words (of_nat n))]"
      using *(4) by (simp only: a butlast_snoc last_snoc set_info_words words_bytes_append)
    then show ?thesis using * unfolding elem_added_def by auto
  qed
qed

section \<open>The contract\<close>

text \<open>Names of the elements, as they are known to the object.\<close>

definition named :: "btf_obj \<Rightarrow> ('e \<Rightarrow> string option) \<Rightarrow> 'e list \<Rightarrow> nat list \<Rightarrow> bool" where
  "named b nm es ks \<longleftrightarrow> list_all2 (\<lambda>e k. k < 2 ^ 31 \<and> btf_knows (ostrs b) k (case nm e of None \<Rightarrow> [] | Some s \<Rightarrow> s)) es ks"

definition all_words :: "('e \<Rightarrow> u32 \<Rightarrow> u32 list) \<Rightarrow> 'e list \<Rightarrow> nat list \<Rightarrow> u32 list" where
  "all_words words es ks = concat (map2 (\<lambda>e k. words e (of_nat k)) es ks)"

locale elem_adder =
  fixes add :: "allocs \<Rightarrow> btf_obj \<Rightarrow> 'e \<Rightarrow> (int \<times> btf_obj) option"
    and kind :: btf_kinds and elem_ok :: "'e \<Rightarrow> bool" and elem_name :: "'e \<Rightarrow> string option"
    and elem_words :: "'e \<Rightarrow> u32 \<Rightarrow> u32 list" and flag :: "'e \<Rightarrow> bool \<Rightarrow> bool"
  assumes add_elem: "\<And>ok b ts w v f ws e. built_ok b \<Longrightarrow> abs_types b = ts @ [words_bytes (w # btf_type_info kind v f # ws)] \<Longrightarrow>
      v + 1 < 2 ^ 16 \<Longrightarrow> elem_ok e \<Longrightarrow>
      elem_added ok b (elem_name e) (elem_words e) ts (w # btf_type_info kind (v + 1) (flag e f) # ws) (add ok b e)"
begin

text \<open>A sequence of calls adds all the elements, or stops where the room is exhausted.\<close>

lemma add_elems_spec:
  assumes "built_ok b" and "abs_types b = ts @ [words_bytes (w # btf_type_info kind v f # ws)]"
    and "v + length es < 2 ^ 16" and "\<forall>e \<in> set es. elem_ok e"
  shows "\<exists>err b'. add_elems add als b es = Some (err, b') \<and> built_ok b' \<and> keeps_names b b' \<and>
    (if err \<noteq> 0 then err < 0 \<and> (\<exists>j < length es. \<exists>b1. add_elems add als b (take j es) = Some (0, b1) \<and>
        out_of_room (als j) b1 (elem_name (es ! j)) (4 * length (elem_words (es ! j) 0)))
     else \<exists>ks. named b' elem_name es ks \<and>
       abs_types b' = ts @ [words_bytes (w # btf_type_info kind (v + length es) (fold flag es f) # ws @ all_words elem_words es ks)])"
  using assms
proof (induction es arbitrary: b v f ws als)
  case Nil
  then show ?case by (auto simp: named_def all_words_def)
next
  case (Cons e es)
  obtain err b1 where r: "add (als 0) b e = Some (err, b1)" "built_ok b1" "keeps_names b b1"
    "if err \<noteq> 0 then err < 0 \<and> abs_types b1 = abs_types b \<and> out_of_room (als 0) b (elem_name e) (4 * length (elem_words e 0))
      else \<exists>k < 2 ^ 31. btf_knows (ostrs b1) k (case elem_name e of None \<Rightarrow> [] | Some s \<Rightarrow> s) \<and>
        abs_types b1 = ts @ [words_bytes ((w # btf_type_info kind (v + 1) (flag e f) # ws) @ elem_words e (of_nat k))]"
    using add_elem [of b ts w v f ws e "als 0"] Cons.prems unfolding elem_added_def by auto
  show ?case
  proof (cases "err = 0")
    case False
    then show ?thesis using r by (intro exI [of _ err] exI [of _ b1]) (auto intro!: exI [of _ 0])
  next
    case True
    then obtain k where k: "k < 2 ^ 31" "btf_knows (ostrs b1) k (case elem_name e of None \<Rightarrow> [] | Some s \<Rightarrow> s)"
      "abs_types b1 = ts @ [words_bytes (w # btf_type_info kind (v + 1) (flag e f) # ws @ elem_words e (of_nat k))]" using r(4) by auto
    obtain err' b' where i: "add_elems add (\<lambda>n. als (Suc n)) b1 es = Some (err', b')" "built_ok b'" "keeps_names b1 b'"
      "if err' \<noteq> 0 then err' < 0 \<and> (\<exists>j < length es. \<exists>b2. add_elems add (\<lambda>n. als (Suc n)) b1 (take j es) = Some (0, b2) \<and>
          out_of_room (als (Suc j)) b2 (elem_name (es ! j)) (4 * length (elem_words (es ! j) 0)))
       else \<exists>ks. named b' elem_name es ks \<and> abs_types b' = ts @ [words_bytes (w # btf_type_info kind (v + 1 + length es)
         (fold flag es (flag e f)) # (ws @ elem_words e (of_nat k)) @ all_words elem_words es ks)]"
      using Cons.IH [OF r(2) k(3), of "\<lambda>n. als (Suc n)"] Cons.prems(3,4) by auto
    have a: "add_elems add als b (e # es) = Some (err', b')" using r(1) True i(1) by simp
    show ?thesis
    proof (cases "err' = 0")
      case False
      then obtain j b2 where "j < length es" "add_elems add (\<lambda>n. als (Suc n)) b1 (take j es) = Some (0, b2)"
        "out_of_room (als (Suc j)) b2 (elem_name (es ! j)) (4 * length (elem_words (es ! j) 0))" "err' < 0" using i(4) by auto
      then have "\<exists>j < length (e # es). \<exists>b2. add_elems add als b (take j (e # es)) = Some (0, b2) \<and>
          out_of_room (als j) b2 (elem_name ((e # es) ! j)) (4 * length (elem_words ((e # es) ! j) 0))"
        using r(1) True by (intro exI [of _ "Suc j"] conjI exI [of _ b2]) simp_all
      then show ?thesis using a i(2) keeps_names_trans [OF r(3) i(3)] False \<open>err' < 0\<close> by auto
    next
      case True
      then obtain ks where "named b' elem_name es ks" "abs_types b' = ts @ [words_bytes (w # btf_type_info kind (v + 1 + length es)
         (fold flag es (flag e f)) # (ws @ elem_words e (of_nat k)) @ all_words elem_words es ks)]" using i(4) by auto
      then have "named b' elem_name (e # es) (k # ks)" "abs_types b' = ts @ [words_bytes (w # btf_type_info kind (v + length (e # es))
         (fold flag (e # es) f) # ws @ all_words elem_words (e # es) (k # ks))]"
        using k(1,2) i(3) by (simp_all add: named_def keeps_names_def all_words_def)
      then show ?thesis using a i(2) keeps_names_trans [OF r(3) i(3)] True by auto
    qed
  qed
qed

end

section \<open>The operations of the code\<close>

record field = f_name :: "string option"
  f_type :: int
  f_off :: u32
  f_bits :: u32

definition add_field :: "allocs \<Rightarrow> btf_obj \<Rightarrow> field \<Rightarrow> (int \<times> btf_obj) option" where
  "add_field ok b f = btf__add_field ok b (f_name f) (f_type f) (f_off f) (f_bits f)"

definition opt_c_string :: "string option \<Rightarrow> bool" where
  "opt_c_string name \<longleftrightarrow> (case name of None \<Rightarrow> True | Some s \<Rightarrow> c_string s)"

definition field_ok :: "btf_kinds \<Rightarrow> field \<Rightarrow> bool" where
  "field_ok kind f \<longleftrightarrow> opt_c_string (f_name f) \<and> field_chk (f_type f) (f_off f) (f_bits f) kind = 0"

definition is_bitfield :: "field \<Rightarrow> bool" where
  "is_bitfield f \<longleftrightarrow> f_bits f \<noteq> 0 \<or> f_off f mod 8 \<noteq> 0"

definition field_words :: "field \<Rightarrow> u32 \<Rightarrow> u32 list" where
  "field_words f name_off = [name_off, of_int (f_type f), f_off f OR push_bit 24 (f_bits f)]"

lemma opt_c_stringD: "opt_c_string name \<Longrightarrow> \<forall>s. name = Some s \<longrightarrow> c_string s"
  by (simp add: opt_c_string_def split: option.splits)

lemma add_field_added:
  assumes "k = BTF_KIND_STRUCT \<or> k = BTF_KIND_UNION" and "built_ok b" "abs_types b = ts @ [words_bytes (w # btf_type_info k v f # ws)]"
    and "v + 1 < 2 ^ 16" "field_ok k e"
  shows "elem_added ok b (f_name e) (field_words e) ts (w # btf_type_info k (v + 1) (is_bitfield e \<or> f) # ws) (add_field ok b e)"
  unfolding add_field_def btf__add_field_def field_words_def
  by (rule append_elem_added [where L = 3])
    (use assms in \<open>auto simp: field_ok_def is_bitfield_def kind_size_def dest: opt_c_stringD\<close>)

interpretation struct_fields: elem_adder add_field BTF_KIND_STRUCT "field_ok BTF_KIND_STRUCT" f_name field_words "\<lambda>e f. is_bitfield e \<or> f"
  by unfold_locales (rule add_field_added, simp_all)

interpretation union_fields: elem_adder add_field BTF_KIND_UNION "field_ok BTF_KIND_UNION" f_name field_words "\<lambda>e f. is_bitfield e \<or> f"
  by unfold_locales (rule add_field_added, simp_all)

interpretation enum_values: elem_adder "\<lambda>ok b (name, val). btf__add_enum_value ok b name val" BTF_KIND_ENUM
  "\<lambda>(name, val). opt_c_string name \<and> enum_value_chk name val BTF_KIND_ENUM = 0" fst "\<lambda>(name, val) name_off. [name_off, of_int val]"
  "\<lambda>(name, val) f. val < 0 \<or> f"
proof (unfold_locales, clarify)
  fix ok b ts w v f ws name and val :: int
  assume "built_ok b" "abs_types b = ts @ [words_bytes (w # btf_type_info BTF_KIND_ENUM v f # ws)]" "v + 1 < 2 ^ 16" "opt_c_string name"
    "enum_value_chk name val BTF_KIND_ENUM = 0"
  then show "elem_added ok b (fst (name, val)) (\<lambda>name_off. [name_off, of_int val]) ts
      (w # btf_type_info BTF_KIND_ENUM (v + 1) (val < 0 \<or> f) # ws) (btf__add_enum_value ok b name val)"
    unfolding btf__add_enum_value_def fst_conv
    by (intro append_elem_added [where L = 2]) (auto simp: kind_size_def inc_vlen_def dest: opt_c_stringD)
qed

interpretation enum64_values: elem_adder "\<lambda>ok b (name, val). btf__add_enum64_value ok b name val" BTF_KIND_ENUM64
  "\<lambda>(name, val). opt_c_string name \<and> \<not> no_name name" fst "\<lambda>(name, val) name_off. [name_off, ucast val, ucast (drop_bit 32 val)]" "\<lambda>e f. f"
proof (unfold_locales, clarify)
  fix ok b ts w v f ws name and val :: u64
  assume "built_ok b" "abs_types b = ts @ [words_bytes (w # btf_type_info BTF_KIND_ENUM64 v f # ws)]" "v + 1 < 2 ^ 16" "opt_c_string name" "\<not> no_name name"
  then show "elem_added ok b (fst (name, val)) (\<lambda>name_off. [name_off, ucast val, ucast (drop_bit 32 val)]) ts
      (w # btf_type_info BTF_KIND_ENUM64 (v + 1) f # ws) (btf__add_enum64_value ok b name val)"
    unfolding btf__add_enum64_value_def fst_conv
    by (intro append_elem_added [where L = 3]) (auto simp: kind_size_def inc_vlen_def dest: opt_c_stringD)
qed

interpretation func_params: elem_adder "\<lambda>ok b (name, i). btf__add_func_param ok b name i" BTF_KIND_FUNC_PROTO
  "\<lambda>(name, i). opt_c_string name \<and> validate_type_id i = 0" fst "\<lambda>(name, i) name_off. [name_off, of_int i]" "\<lambda>e f. f"
proof (unfold_locales, clarify)
  fix ok b ts w v f ws name and i :: int
  assume *: "built_ok b" "abs_types b = ts @ [words_bytes (w # btf_type_info BTF_KIND_FUNC_PROTO v f # ws)]" "v + 1 < 2 ^ 16" "opt_c_string name"
    and i: "validate_type_id i = 0"
  have "elem_added ok b name (\<lambda>name_off. [name_off, of_int i]) ts (w # btf_type_info BTF_KIND_FUNC_PROTO (v + 1) f # ws)
      (append_elem ok b {BTF_KIND_FUNC_PROTO} (\<lambda>_. 0) name (\<lambda>name_off. [name_off, of_int i]) inc_vlen)"
    by (intro append_elem_added [where L = 2]) (use * in \<open>auto simp: kind_size_def inc_vlen_def dest: opt_c_stringD\<close>)
  then show "elem_added ok b (fst (name, i)) (\<lambda>name_off. [name_off, of_int i]) ts (w # btf_type_info BTF_KIND_FUNC_PROTO (v + 1) f # ws)
      (btf__add_func_param ok b name i)" using i by (simp add: btf__add_func_param_def)
qed

interpretation datasec_vars: elem_adder "\<lambda>ok b (i, off, n). btf__add_datasec_var_info ok b i off n" BTF_KIND_DATASEC
  "\<lambda>(i, off, n). validate_type_id i = 0" "\<lambda>_. None" "\<lambda>(i, off, n) _. [of_int i, off, n]" "\<lambda>e f. f"
proof (unfold_locales, clarify)
  fix ok b ts w v f ws and i :: int and off n :: u32
  assume "built_ok b" "abs_types b = ts @ [words_bytes (w # btf_type_info BTF_KIND_DATASEC v f # ws)]" "v + 1 < 2 ^ 16" "validate_type_id i = 0"
  then show "elem_added ok b None (\<lambda>_. [of_int i, off, n]) ts (w # btf_type_info BTF_KIND_DATASEC (v + 1) f # ws)
      (btf__add_datasec_var_info ok b i off n)"
    unfolding btf__add_datasec_var_info_def
    by (intro append_elem_added [where L = 3]) (auto simp: kind_size_def inc_vlen_def)
qed

section \<open>Reading the elements back\<close>

lemma all_words_nth:
  assumes "\<And>e w. length (words e w) = L" and "length ks = length es" "j < length es" "i < L"
  shows "L * j + i < length (all_words words es ks)" "all_words words es ks ! (L * j + i) = words (es ! j) (of_nat (ks ! j)) ! i"
proof -
  have len: "length (all_words words es ks) = L * length es" if "length ks = length es" for es :: "'a list" and ks
    using that by (induction es ks rule: list_induct2') (simp_all add: all_words_def assms(1))
  have "L * j + L \<le> L * length es" using mult_le_mono2 [of "Suc j" "length es" L] assms(3) by simp
  then show "L * j + i < length (all_words words es ks)" using len [OF assms(2)] assms(4) by simp
  show "all_words words es ks ! (L * j + i) = words (es ! j) (of_nat (ks ! j)) ! i"
    using assms(2,3)
  proof (induction j arbitrary: es ks)
    case 0
    then show ?case using assms(1,4) by (cases es; cases ks) (simp_all add: all_words_def nth_append)
  next
    case (Suc j)
    obtain e es' k ks' where "es = e # es'" "ks = k # ks'" using Suc.prems by (cases es; cases ks) simp_all
    then show ?case using Suc.IH [of ks' es'] Suc.prems assms(1) by (simp add: all_words_def nth_append)
  qed
qed

lemma fold_flag: "fold (\<lambda>e f. P e \<or> f) es f \<longleftrightarrow> (\<exists>e \<in> set es. P e) \<or> f"
  by (induction es arbitrary: f) auto

lemma field_word_parts:
  assumes "bits \<le> 255"
  shows "off \<le> 0xffffff \<Longrightarrow> BTF_MEMBER_BIT_OFFSET (off OR push_bit 24 bits) = off"
    "off \<le> 0xffffff \<Longrightarrow> BTF_MEMBER_BITFIELD_SIZE (off OR push_bit 24 bits) = bits"
proof -
  have m: "(0xffffff :: u32) = mask 24" by (simp add: mask_eq_exp_minus_1)
  assume o: "off \<le> 0xffffff"
  then have "unat off < 2 ^ 24" "unat bits < 2 ^ 8" using assms by (simp_all add: word_le_nat_alt)
  then have b: "bit off n \<Longrightarrow> n < 24" "bit bits n \<Longrightarrow> n < 8" for n using bit_small [of "unat off" 24 n] bit_small [of "unat bits" 8 n] by simp_all
  show "BTF_MEMBER_BIT_OFFSET (off OR push_bit 24 bits) = off" unfolding BTF_MEMBER_BIT_OFFSET_def m
    by (rule bit_word_eqI) (auto simp: bit_simps dest: b)
  show "BTF_MEMBER_BITFIELD_SIZE (off OR push_bit 24 bits) = bits" unfolding BTF_MEMBER_BITFIELD_SIZE_def
    by (rule bit_word_eqI) (auto simp: bit_simps dest: b)
qed

text \<open>What a reader of the object sees of a struct.\<close>

definition str_of :: "string option \<Rightarrow> string" where "str_of name = (case name of None \<Rightarrow> [] | Some s \<Rightarrow> s)"

definition member_name :: "btf_obj \<Rightarrow> type_ptr \<Rightarrow> nat \<Rightarrow> string option" where
  "member_name b t j = do { off \<leftarrow> m_name_off t j; name \<leftarrow> btf__name_by_offset (ostrs b) (unat off); name }"

definition reads_member :: "btf_obj \<Rightarrow> type_ptr \<Rightarrow> nat \<Rightarrow> field \<Rightarrow> bool" where
  "reads_member b t j f \<longleftrightarrow> member_name b t j = Some (str_of (f_name f)) \<and> m_type t j = Some (of_int (f_type f)) \<and>
     btf_member_bit_offset t j = Some (f_off f) \<and> btf_member_bitfield_size t j = Some (f_bits f)"

definition reads_struct :: "btf_obj \<Rightarrow> u32 \<Rightarrow> string option \<Rightarrow> u32 \<Rightarrow> field list \<Rightarrow> bool" where
  "reads_struct b i name n fs \<longleftrightarrow> (\<exists>t. btf__type_by_id (otys b) i = Some (Some t) \<and> btf_kind t = Some BTF_KIND_STRUCT \<and>
     t_size t = Some n \<and> name_of b i = Some (str_of name) \<and> btf_vlen t = Some (length fs) \<and>
     (\<forall>j < length fs. reads_member b t j (fs ! j)))"

text \<open>With a bit-field in the struct, all offsets have only 24 bits.\<close>

definition offs_fit :: "field list \<Rightarrow> bool" where
  "offs_fit fs \<longleftrightarrow> (\<exists>f \<in> set fs. is_bitfield f) \<longrightarrow> (\<forall>f \<in> set fs. f_off f \<le> 0xffffff)"

lemma known_name:
  assumes "built_ok b" and "k < 2 ^ 31" and "btf_knows (ostrs b) k (case name of None \<Rightarrow> [] | Some s \<Rightarrow> s)"
  shows "btf__name_by_offset (ostrs b) (unat (of_nat k :: u32)) = Some (Some (str_of name))"
  using assms btf_knows_name [of "ostrs b" k] by (simp add: unat_of_nat_u32 built_ok_def str_of_def)

lemma field_bits_ok: "field_ok k f \<Longrightarrow> f_bits f \<le> 255 \<and> (\<not> is_bitfield f \<longrightarrow> f_bits f = 0)"
  by (auto simp: field_ok_def field_chk_def is_bitfield_def Let_def EINVAL_def not_less split: if_splits)

lemma reads_memberI:
  assumes b: "built_ok b" and f: "field_ok k f" "k0 < 2 ^ 31" "btf_knows (ostrs b) k0 (case f_name f of None \<Rightarrow> [] | Some s \<Rightarrow> s)"
    and kf: "btf_kflag t = Some kflag" "is_bitfield f \<Longrightarrow> kflag" "kflag \<Longrightarrow> f_off f \<le> 0xffffff"
    and w: "\<And>i. i < 3 \<Longrightarrow> t_word t (12 + 12 * j + 4 * i) = Some (field_words f (of_nat k0) ! i)"
  shows "reads_member b t j f"
proof -
  have "t_word t (12 + 12 * j) = Some (of_nat k0)" "t_word t (12 + 12 * j + 4) = Some (of_int (f_type f))"
    "t_word t (12 + 12 * j + 8) = Some (f_off f OR push_bit 24 (f_bits f))"
    using w [of 0] w [of 1] w [of 2] by (simp_all add: field_words_def)
  moreover note known_name [OF b f(2,3)] kf(1)
  moreover have "f_bits f \<le> 255" "\<not> is_bitfield f \<longrightarrow> f_bits f = 0" using field_bits_ok [OF f(1)] by simp_all
  moreover from this have "kflag \<Longrightarrow> BTF_MEMBER_BIT_OFFSET (f_off f OR push_bit 24 (f_bits f)) = f_off f \<and>
      BTF_MEMBER_BITFIELD_SIZE (f_off f OR push_bit 24 (f_bits f)) = f_bits f" using field_word_parts [of "f_bits f" "f_off f"] kf(3) by simp
  ultimately show ?thesis using kf(2)
    by (cases kflag) (auto simp: reads_member_def member_name_def m_name_off_def m_type_def m_offset_def btf_member_bit_offset_def
      btf_member_bitfield_size_def)
qed

lemma reads_structI:
  assumes b: "built_ok b" and len: "length fs < 2 ^ 16" and ok: "\<forall>f \<in> set fs. field_ok BTF_KIND_STRUCT f" "offs_fit fs"
    and a: "abs_types b = ts @ [words_bytes (of_nat k # btf_type_info BTF_KIND_STRUCT (length fs) (fold (\<lambda>e f. is_bitfield e \<or> f) fs False) #
      [n] @ all_words field_words fs ks)]"
    and k: "k < 2 ^ 31" "btf_knows (ostrs b) k (case name of None \<Rightarrow> [] | Some s \<Rightarrow> s)" and ks: "named b f_name fs ks"
  shows "reads_struct b (of_nat (Suc (length ts))) name n fs"
proof -
  let ?kf = "\<exists>f \<in> set fs. is_bitfield f" and ?all = "all_words field_words fs ks"
  let ?info = "btf_type_info BTF_KIND_STRUCT (length fs) ?kf"
  let ?ws = "of_nat k # ?info # n # ?all"
  have a': "length ts < length (abs_types b)" "abs_types b ! length ts = words_bytes ?ws" using a by (simp_all add: fold_flag)
  obtain t where t: "btf__type_by_id (otys b) (of_nat (Suc (length ts))) = Some (Some t)" "\<And>j. j < length ?ws \<Longrightarrow> t_word t (4 * j) = Some (?ws ! j)"
    by (rule type_by_id_abs [OF b a'], rule that, assumption)
  have ti: "t_info t = Some ?info" using t(2) [of 1] by (simp add: t_info_def)
  have kf: "btf_kflag t = Some ?kf" using ti info_parts(3) [of BTF_KIND_STRUCT "length fs" ?kf] len by (simp add: btf_kflag_def kind_num_def)
  have lks: "length ks = length fs" using ks by (simp add: named_def list_all2_lengthD)
  have "reads_member b t j (fs ! j)" if j: "j < length fs" for j
  proof (rule reads_memberI [OF b, of BTF_KIND_STRUCT _ "ks ! j", OF _ _ _ kf])
    show "field_ok BTF_KIND_STRUCT (fs ! j)" "is_bitfield (fs ! j) \<Longrightarrow> ?kf" "?kf \<Longrightarrow> f_off (fs ! j) \<le> 0xffffff"
      using ok j by (auto simp: offs_fit_def)
    show "ks ! j < 2 ^ 31" "btf_knows (ostrs b) (ks ! j) (case f_name (fs ! j) of None \<Rightarrow> [] | Some s \<Rightarrow> s)"
      using ks j by (simp_all add: named_def list_all2_conv_all_nth)
    fix i :: nat assume i: "i < 3"
    have "length (field_words e w) = 3" for e w by (simp add: field_words_def)
    note nth = all_words_nth [of field_words 3, OF this lks j i]
    have "4 * (3 * j + i + 3) = 12 + 12 * j + 4 * i" by simp
    then show "t_word t (12 + 12 * j + 4 * i) = Some (field_words (fs ! j) (of_nat (ks ! j)) ! i)"
      using t(2) [of "3 * j + i + 3"] nth by (simp add: nth_Cons' ac_simps)
  qed
  moreover have "btf_kind t = Some BTF_KIND_STRUCT" "btf_vlen t = Some (length fs)"
    using ti info_kind_eq [of BTF_KIND_STRUCT "length fs" ?kf] len by (simp_all add: btf_kind_def btf_vlen_def info_kind_def)
  moreover have "t_size t = Some n" "t_name_off t = Some (of_nat k)" using t(2) [of 2] t(2) [of 0] by (simp_all add: t_size_def t_name_off_def)
  ultimately show ?thesis using t(1) known_name [OF b k] by (simp add: reads_struct_def name_of_def)
qed

text \<open>
  C12. A struct reads back as it was declared: \<^verbatim>\<open>btf__add_struct\<close> and one \<^verbatim>\<open>btf__add_field\<close> per member, with
  valid arguments and at most 65535 members, fail only where the room is exhausted; otherwise the id
  that was returned gives a struct of that name and size, whose members have the names, types, bit offsets and bit-field
  sizes of the calls, in their order, and the types that were there before are unchanged.  The offsets
  must have 24 bits when there is a bit-field among the members.
\<close>

theorem struct_roundtrip:
  assumes "buildable b" and "opt_c_string name" and "length fs < 2 ^ 16" and "\<forall>f \<in> set fs. field_ok BTF_KIND_STRUCT f" and "offs_fit fs"
  shows "\<exists>i b1. btf__add_struct al b name n = Some (i, b1) \<and>
    (if i < 0 then out_of_room al b name 12
     else \<exists>err b2. add_elems add_field als b1 fs = Some (err, b2) \<and>
       (if err \<noteq> 0 then err < 0 \<and> (\<exists>j < length fs. \<exists>b3. add_elems add_field als b1 (take j fs) = Some (0, b3) \<and>
          out_of_room (als j) b3 (f_name (fs ! j)) 12)
        else reads_struct b2 (of_int i) name n fs \<and> take (length (abs_types b)) (abs_types b2) = abs_types b))"
proof -
  let ?words = "\<lambda>name_off. [name_off, btf_type_info BTF_KIND_STRUCT 0 False, n]"
  have b: "built_ok b" by (rule buildable_built [OF assms(1)])
  have def: "btf__add_struct al b name n = append_type al b name ?words" by (simp add: btf__add_struct_def btf_add_composite_def)
  have tw: "type_words ?words (btf_type_info BTF_KIND_STRUCT 0 False)"
    by (rule type_wordsI) (simp_all add: kind_size_def)
  have nm: "\<And>s. name = Some s \<Longrightarrow> c_string s" using assms(2) opt_c_stringD by blast
  have nr: "length (abs_types b) = unat (nr_types (own_sec b))"
    using b by (simp add: abs_types_def sec_offs_def built_ok_def sec_ok_def)
  show ?thesis
  proof (rule append_type_cases [OF b tw nm, where ok = al])
    fix k b1 assume 1: "append_type al b name ?words = Some (int (unat (nr_types (own_sec b))) + 1, b1)" "built_ok b1"
      "abs_types b1 = abs_types b @ [words_bytes (?words (of_nat k))]" "k < 2 ^ 31"
      "btf_knows (ostrs b1) k (case name of None \<Rightarrow> [] | Some s \<Rightarrow> s)"
    obtain err b2 where 2: "add_elems add_field als b1 fs = Some (err, b2)" "built_ok b2" "keeps_names b1 b2"
      "if err \<noteq> 0 then err < 0 \<and> (\<exists>j < length fs. \<exists>b3. add_elems add_field als b1 (take j fs) = Some (0, b3) \<and>
          out_of_room (als j) b3 (f_name (fs ! j)) (4 * length (field_words (fs ! j) 0)))
       else \<exists>ks. named b2 f_name fs ks \<and> abs_types b2 = abs_types b @ [words_bytes (of_nat k #
         btf_type_info BTF_KIND_STRUCT (length fs) (fold (\<lambda>e f. is_bitfield e \<or> f) fs False) # [n] @ all_words field_words fs ks)]"
      using struct_fields.add_elems_spec [OF 1(2,3), of fs als, unfolded add_0, OF assms(3,4)] by (elim exE conjE)
    have "reads_struct b2 (of_int (int (unat (nr_types (own_sec b))) + 1)) name n fs \<and> take (length (abs_types b)) (abs_types b2) = abs_types b"
      if z: "err = 0"
    proof -
      obtain ks where ks: "named b2 f_name fs ks" "abs_types b2 = abs_types b @ [words_bytes (of_nat k #
         btf_type_info BTF_KIND_STRUCT (length fs) (fold (\<lambda>e f. is_bitfield e \<or> f) fs False) # [n] @ all_words field_words fs ks)]"
        using 2(4) unfolding z by (simp only: simp_thms if_False) blast
      have "btf_knows (ostrs b2) k (case name of None \<Rightarrow> [] | Some s \<Rightarrow> s)" using 1(5) 2(3) by (simp add: keeps_names_def)
      from reads_structI [OF 2(2) assms(3,4,5) ks(2) 1(4) this ks(1)] show ?thesis using ks(2) nr by (simp add: ac_simps)
    qed
    moreover have "4 * length (field_words f 0) = 12" for f by (simp add: field_words_def)
    moreover have "\<not> int (unat (nr_types (own_sec b))) + 1 < 0" by linarith
    ultimately show ?thesis using 1(1) 2(1,4) def by (cases "err = 0") auto
  qed (use def in auto)
qed

definition two_fields :: "field list" where
  "two_fields = [\<lparr>f_name = Some ''a'', f_type = 1, f_off = 0, f_bits = 0\<rparr>, \<lparr>f_name = None, f_type = 1, f_off = 32, f_bits = 5\<rparr>]"

theorem struct_roundtrip_witness:
  "\<exists>i b1. btf__add_struct (\<lambda>_. True) new_obj (Some ''s'') 8 = Some (i, b1) \<and> \<not> i < 0 \<and>
    (\<exists>err b2. add_elems add_field (\<lambda>_ _. True) b1 two_fields = Some (err, b2) \<and> (err = 0 \<longrightarrow> reads_struct b2 (of_int i) (Some ''s'') 8 two_fields))"
proof -
  have "\<not> out_of_room (\<lambda>_. True) new_obj (Some ''s'') 12"
    by (simp add: out_of_room_def new_obj_def obj_new_empty_def btf_new_empty_def Let_def own_sec_def UINT32_MAX_def BTF_MAX_STR_OFFSET_def)
  moreover have "\<forall>f \<in> set two_fields. field_ok BTF_KIND_STRUCT f" "offs_fit two_fields"
    by (simp_all add: two_fields_def field_ok_def field_chk_def opt_c_string_def c_string_def is_cstr_def NUL_def validate_type_id_def BTF_MAX_NR_TYPES_def
      offs_fit_def)
  moreover have "opt_c_string (Some ''s'')" "length two_fields < 2 ^ 16" by (simp_all add: opt_c_string_def c_string_def is_cstr_def NUL_def two_fields_def)
  ultimately show ?thesis
    using struct_roundtrip [OF new_obj_buildable, of "Some ''s''" two_fields "\<lambda>_. True" 8 "\<lambda>_ _. True"] by (auto split: if_splits)
qed

text \<open>
  Two limits that the operations do not check.  The 65536th element of a type sets its count to 0; and a
  bit-field makes the high bits of the offset of every other member unreadable.
\<close>

lemma vlen_overflow: "BTF_INFO_VLEN (btf_type_info BTF_KIND_STRUCT 65536 False) = 0"
  by (simp add: BTF_INFO_VLEN_def btf_type_info_def kind_num_def)

lemma bitfield_hides_offset:
  "field_chk 1 0x1000000 0 BTF_KIND_STRUCT = 0 \<and> BTF_MEMBER_BIT_OFFSET (0x1000000 OR push_bit 24 0) = 0"
  by (simp add: field_chk_def validate_type_id_def BTF_MAX_NR_TYPES_def BTF_MEMBER_BIT_OFFSET_def)

end
