(* ===== verification/Btf_Raw.thy ===== *)
theory Btf_Raw
  imports Btf_Elems
begin

text \<open>
  The raw data of a BTF object, \<^verbatim>\<open>btf__raw_data\<close> of \<^verbatim>\<open>libbpf/src/btf.c\<close>: the image of the object in the byte order
  that was chosen, built on demand and kept until the object changes.  Loading an image gives the types and
  the names of the object back.
\<close>

section \<open>Writing the image\<close>

definition bytes_of :: "string \<Rightarrow> bytes" where
  "bytes_of s = map (\<lambda>c. of_nat (of_char c)) s"

text \<open>The loop over the index; \<open>p\<close> is where the types start in the buffer.\<close>

fun swap_types :: "bytes \<Rightarrow> nat \<Rightarrow> u32 list \<Rightarrow> (int \<times> bytes) option" where
  "swap_types m p [] = Some (0, m)"
| "swap_types m p (off # offs) = do {
     (err, m) \<leftarrow> btf_bswap_type_rest m (p + unat off);
     if err \<noteq> 0 then Some (err, m)
     else do {
       m \<leftarrow> btf_bswap_type_base m (p + unat off);
       swap_types m p offs
     }
   }"

text \<open>\<open>Some None\<close> is the null pointer; otherwise the data and \<^verbatim>\<open>*size\<close>.\<close>

definition btf_get_raw_data :: "bool \<Rightarrow> btf_obj \<Rightarrow> bool \<Rightarrow> (bytes \<times> u32) option option" where
  "btf_get_raw_data ok b swap_endian =
     (let s = own_sec b; h = hdr s
      in case if swap_endian then raw_data_swapped s else raw_data s of
        Some data \<Rightarrow> Some (Some (data, raw_size s))
      | None \<Rightarrow>
          let data_sz = hdr_len h + type_len h + str_len h
          in if \<not> ok then Some None
             else do {
               m \<leftarrow> memcpy (replicate (unat data_sz) 0) 0 (hdr_bytes h @ hdr_more s) (unat (hdr_len h));
               m \<leftarrow> if swap_endian then btf_bswap_hdr m else Some m;
               let p = unat (hdr_len h);
               m \<leftarrow> memcpy m p (types_data s) (unat (type_len h));
               (err, m) \<leftarrow> if \<not> swap_endian then Some (0, m)
                 else if unat (nr_types s) \<le> length (type_offs s) then swap_types m p (take (unat (nr_types s)) (type_offs s)) else None;
               if err \<noteq> 0 then Some None
               else do {
                 m \<leftarrow> memcpy m (p + unat (type_len h)) (bytes_of (btf_strs_data (ostrs b))) (unat (str_len h));
                 Some (Some (m, data_sz))
               }
             })"

definition btf__raw_data :: "bool \<Rightarrow> btf_obj \<Rightarrow> ((bytes \<times> u32) option \<times> btf_obj) option" where
  "btf__raw_data ok b = do {
     r \<leftarrow> btf_get_raw_data ok b (swapped_endian (own_sec b));
     case r of
       None \<Rightarrow> Some (None, b)
     | Some (data, data_sz) \<Rightarrow> Some (Some (data, data_sz), upd_sec (\<lambda>s. if swapped_endian s
         then s\<lparr>raw_size := data_sz, raw_data_swapped := Some data\<rparr> else s\<lparr>raw_size := data_sz, raw_data := Some data\<rparr>) b)
   }"

section \<open>The image\<close>

definition own_types :: "btf_obj \<Rightarrow> bytes" where
  "own_types b = take (unat (type_len (hdr (own_sec b)))) (types_data (own_sec b))"

definition own_strs :: "btf_obj \<Rightarrow> string" where
  "own_strs b = take (unat (str_len (hdr (own_sec b)))) (btf_strs_data (ostrs b))"

definition obj_image :: "bool \<Rightarrow> btf_obj \<Rightarrow> bytes" where
  "obj_image sw b = hdr_bytes (if sw then swap_hdr (hdr (own_sec b)) else hdr (own_sec b)) @ native sw (own_types b) @ bytes_of (own_strs b)"

lemma hdr_bytes_length [simp]: "length (hdr_bytes h) = 24"
  by (simp add: hdr_bytes_def le16_bytes_def)

lemma bytes_of_length [simp]: "length (bytes_of s) = length s"
  by (simp add: bytes_of_def)

lemma chars_of_bytes_of [simp]: "chars_of (bytes_of s) = s"
proof -
  have "unat (of_nat (of_char c) :: u8) = of_char c" for c
    by (simp add: unsigned_of_nat take_bit_nat_eq_self of_char_def)
  then show ?thesis by (simp add: chars_of_def bytes_of_def comp_def)
qed

lemma bytes_of_take: "take n (bytes_of s) = bytes_of (take n s)"
  by (simp add: bytes_of_def take_map)

text \<open>Header bytes and header fields.\<close>

lemma load16_hdr: "load16 (le16_bytes w @ xs) 0 = Some w"
  by (simp add: load16_def le16_bytes_def word16_bytes)

lemma load_hdr_bytes: "load_hdr (hdr_bytes h @ xs) = Some h"
proof -
  let ?ws = "[hdr_len h, type_off h, type_len h, str_off h, str_len h]"
  let ?x = "le16_bytes (magic h) @ [version h, flags h]"
  have "length ?x = 4" by (simp add: le16_bytes_def)
  then have "load32 (hdr_bytes h @ xs) (4 + 4 * i) = Some (?ws ! i)" if "i < 5" for i
    using load32_words [of i ?ws ?x xs] that by (simp add: hdr_bytes_def)
  note this [of 0] this [of 1] this [of 2] this [of 3] this [of 4]
  moreover have "load16 (hdr_bytes h @ xs) 0 = Some (magic h)" using load16_hdr by (simp add: hdr_bytes_def)
  moreover have "load8 (hdr_bytes h @ xs) 2 = Some (version h)" "load8 (hdr_bytes h @ xs) 3 = Some (flags h)"
    by (simp_all add: load8_def hdr_bytes_def le16_bytes_def)
  ultimately show ?thesis by (simp add: load_hdr_def)
qed

lemma load_hdr_inj:
  assumes "load_hdr m = Some h"
  shows "m = hdr_bytes h @ drop 24 m"
proof -
  have "24 \<le> length m" using assms load_hdr_None [of m] by (cases "length m < 24") auto
  define w where "w = take 24 m"
  have "length w = 24" using \<open>24 \<le> length m\<close> by (simp add: w_def)
  then obtain b0 b1 b2 b3 b4 b5 b6 b7 b8 b9 b10 b11 b12 b13 b14 b15 b16 b17 b18 b19 b20 b21 b22 b23 where
    w: "w = [b0, b1, b2, b3, b4, b5, b6, b7, b8, b9, b10, b11, b12, b13, b14, b15, b16, b17, b18, b19, b20, b21, b22, b23]"
    by (auto simp: eval_nat_numeral length_Suc_conv)
  define z where "z = drop 24 m"
  have m: "m = w @ z" by (simp add: w_def z_def)
  have 2: "[a, b] = le16_bytes (le16 a b)" for a b
    using le16_eq_iff [of a b "le16 a b"] by (simp add: le16_def le16_bytes_def)
  have 4: "[a, b, c, d] = le_bytes (le32 a b c d)" for a b c d
    unfolding le32_def le_bytes_def le32_bytes by simp
  have "h = \<lparr>magic = le16 b0 b1, version = b2, flags = b3, hdr_len = le32 b4 b5 b6 b7, type_off = le32 b8 b9 b10 b11,
      type_len = le32 b12 b13 b14 b15, str_off = le32 b16 b17 b18 b19, str_len = le32 b20 b21 b22 b23\<rparr>"
    using assms by (subst (asm) m) (simp add: w load_hdr_def load8_def load16_le16 load32_le32)
  then have "hdr_bytes h = w" unfolding w by (simp add: hdr_bytes_def 2 [symmetric] 4 [symmetric])
  then show ?thesis using m z_def by simp
qed

lemma btf_bswap_hdr_bytes: "btf_bswap_hdr (hdr_bytes h @ xs) = Some (hdr_bytes (swap_hdr h) @ xs)"
proof -
  obtain m where m: "btf_bswap_hdr (hdr_bytes h @ xs) = Some m" "drop 24 m = drop 24 (hdr_bytes h @ xs)"
    "load_hdr m = map_option swap_hdr (load_hdr (hdr_bytes h @ xs))"
    using btf_bswap_hdr_Some [of "hdr_bytes h @ xs"] by (metis add_leE hdr_bytes_length le_add1 length_append)
  then show ?thesis using load_hdr_inj [of m "swap_hdr h"] by (simp add: load_hdr_bytes)
qed

text \<open>The loop turns every word of the types around, each type after its size has been read.\<close>

lemma swap_type_at:
  assumes "btf_type_size (At (xs @ B @ R @ zs) (length xs)) = Some (12 + 4 * int k)" and "length B = 12" "length R = 4 * k"
  shows "btf_bswap_type_rest (xs @ B @ R @ zs) (length xs) = Some (0, xs @ B @ rev4 R @ zs)"
    "btf_bswap_type_base (xs @ B @ rev4 R @ zs) (length xs) = Some (xs @ rev4 B @ rev4 R @ zs)"
proof -
  have "swap_words ((xs @ B) @ R @ zs) (length (xs @ B)) k = Some ((xs @ B) @ rev4 R @ zs)" by (rule swap_words_rev4 [OF assms(3)])
  then show "btf_bswap_type_rest (xs @ B @ R @ zs) (length xs) = Some (0, xs @ B @ rev4 R @ zs)"
    using btf_bswap_type_rest_words [OF assms(1)] assms(2) by simp
  have "length B = 4 * 3" using assms(2) by simp
  then show "btf_bswap_type_base (xs @ B @ rev4 R @ zs) (length xs) = Some (xs @ rev4 B @ rev4 R @ zs)"
    using swap_words_rev4 [of B 3 xs "rev4 R @ zs"] by (simp add: btf_bswap_type_base_words)
qed

lemma swap_types_tiled:
  assumes "tiled M p qs (length M)" and "length xs = a + p" and "\<forall>q \<in> set qs. q < 2 ^ 32"
  shows "swap_types (xs @ drop p M @ zs) a (map of_nat qs) = Some (0, xs @ rev4 (drop p M) @ zs)"
  using assms
proof (induction qs arbitrary: p xs)
  case (Cons q qs)
  then obtain n where n: "btf_type_size (At M p) = Some n" "0 \<le> n" "p + nat n \<le> length M" "tiled M (p + nat n) qs (length M)" "q = p"
    by (auto split: option.splits)
  obtain k where k: "n = 12 + 4 * int k" using btf_type_size_words [OF n(1,2)] by blast
  have len: "p + 12 + 4 * k \<le> length M" "nat n = 12 + 4 * k" using n(3) k by simp_all
  define B R where "B = take 12 (drop p M)" and "R = take (4 * k) (drop (p + 12) M)"
  have BR: "length B = 12" "length R = 4 * k" using len by (simp_all add: B_def R_def)
  have "R @ drop (p + nat n) M = drop (p + 12) M" unfolding R_def len(2)
    using append_take_drop_id [of "4 * k" "drop (p + 12) M"] by (simp add: ac_simps)
  moreover have "B @ drop (p + 12) M = drop p M" unfolding B_def using append_take_drop_id [of 12 "drop p M"] by (simp add: ac_simps)
  ultimately have d: "drop p M = B @ R @ drop (p + nat n) M" by simp
  have "load32 (xs @ drop p M @ zs) (length xs + 4) = load32 M (p + 4)"
    using len by (auto simp: load32_def nth_append add.commute)
  then have "btf_type_size (At (xs @ B @ R @ (drop (p + nat n) M @ zs)) (length xs)) = Some (12 + 4 * int k)"
    using n(1) k d by (simp add: btf_type_size_info)
  note sw = swap_type_at [OF this BR]
  have "swap_types ((xs @ rev4 B @ rev4 R) @ drop (p + nat n) M @ zs) a (map of_nat qs) =
      Some (0, (xs @ rev4 B @ rev4 R) @ rev4 (drop (p + nat n) M) @ zs)"
    by (rule Cons.IH) (use n(4) Cons.prems BR len in simp_all)
  moreover have "unat (of_nat q :: u32) = p" using Cons.prems(3) n(5) by (simp add: unat_of_nat_u32)
  moreover have "rev4 (drop p M) = rev4 B @ rev4 R @ rev4 (drop (p + nat n) M)" using BR unfolding d by (simp add: rev4_append)
  ultimately show ?case using sw Cons.prems(2) by (simp add: d)
qed simp

section \<open>Building the image\<close>

text \<open>The size is computed in 32 bits.\<close>

definition image_fits :: "btf_obj \<Rightarrow> bool" where
  "image_fits b \<longleftrightarrow> 24 + unat (type_len (hdr (own_sec b))) + unat (str_len (hdr (own_sec b))) < 2 ^ 32"

lemma built_strs:
  assumes "built_ok b"
  shows "unat (str_len (hdr (own_sec b))) \<le> length (btf_strs_data (ostrs b))" "0 < unat (str_len (hdr (own_sec b)))"
    "btf_strs_data (ostrs b) ! (unat (str_len (hdr (own_sec b))) - 1) = NUL" "btf_strs_data (ostrs b) ! 0 = NUL"
    "unat (str_len (hdr (own_sec b))) < 2 ^ 31"
proof -
  have ok: "btf_ok (ostrs b)" and len: "hdr_str_len (ostrs b) = unat (str_len (hdr (own_sec b)))" using assms by (simp_all add: built_ok_def)
  show pos: "0 < unat (str_len (hdr (own_sec b)))" "unat (str_len (hdr (own_sec b))) < 2 ^ 31" using btf_ok_len [OF ok] len by simp_all
  have "strs_ok (ostrs b)" using built_obj_ok [OF assms] by (simp add: obj_ok_def)
  then show l: "unat (str_len (hdr (own_sec b))) \<le> length (btf_strs_data (ostrs b))"
    "btf_strs_data (ostrs b) ! (unat (str_len (hdr (own_sec b))) - 1) = NUL"
    using len pos by (cases "ostrs b"; simp)+
  show "btf_strs_data (ostrs b) ! 0 = NUL"
  proof (cases "btf_strs (ostrs b)")
    case (Inr st)
    then have "strset_ok st" "known st 0 []" using ok by (simp_all add: btf_ok_def)
    then have "str_at (strs_data st) 0 = []" using known_less by blast
    then show ?thesis using Inr l(1) pos(1) by (cases "strs_data st") (auto simp: str_at_def btf_strs_data_def split: if_splits)
  qed (use ok in \<open>simp add: btf_ok_def btf_strs_data_def\<close>)
qed

lemma own_lengths:
  assumes "built_ok b"
  shows "length (own_types b) = unat (type_len (hdr (own_sec b)))" "length (own_strs b) = unat (str_len (hdr (own_sec b)))"
    "length (obj_image sw b) = 24 + unat (type_len (hdr (own_sec b))) + unat (str_len (hdr (own_sec b)))"
  using assms built_strs(1) [OF assms] by (simp_all add: own_types_def own_strs_def obj_image_def built_ok_def sec_ok_def)

lemma memcpy_at: "length src = n \<Longrightarrow> memcpy (x @ y) (length x) (src @ r) n = (if n \<le> length y then Some (x @ src @ drop n y) else None)"
  by (simp add: memcpy_def)

lemma swap_own_types:
  assumes "built_ok b"
  shows "swap_types (x @ own_types b @ z) (length x) (take (unat (nr_types (own_sec b))) (type_offs (own_sec b))) =
    Some (0, x @ rev4 (own_types b) @ z)"
proof -
  let ?s = "own_sec b" and ?e = "unat (type_len (hdr (own_sec b)))"
  have t: "tiled (types_data ?s) 0 (sec_offs ?s) ?e" "?e \<le> length (types_data ?s)" using assms by (simp_all add: built_ok_def sec_ok_def)
  have "tiled (own_types b) 0 (sec_offs ?s) (length (own_types b))"
    using tiled_frame(1) [OF t(1), of "own_types b"] t(2) own_lengths(1) [OF assms] by (simp add: own_types_def)
  moreover have "map of_nat (sec_offs ?s) = take (unat (nr_types ?s)) (type_offs ?s)" by (simp add: sec_offs_def comp_def)
  moreover have "\<forall>q \<in> set (sec_offs ?s). q < 2 ^ 32" by (auto simp: sec_offs_def intro: unat_u32)
  ultimately show ?thesis using swap_types_tiled [of "own_types b" 0 "sec_offs ?s" x "length x" z] by simp
qed

lemma btf_get_raw_data_new:
  assumes b: "built_ok b" and f: "image_fits b" and nc: "(if sw then raw_data_swapped (own_sec b) else raw_data (own_sec b)) = None"
  shows "btf_get_raw_data True b sw = Some (Some (obj_image sw b, of_nat (length (obj_image sw b))))"
proof -
  let ?s = "own_sec b"
  let ?h = "hdr ?s"
  let ?tl = "unat (type_len ?h)" and ?sl = "unat (str_len ?h)"
  have h: "hdr_len ?h = 24" "hdr_more ?s = []" using b by (simp_all add: built_ok_def hdr_ok_def)
  have nr: "unat (nr_types ?s) \<le> length (type_offs ?s)" using b by (simp add: built_ok_def sec_ok_def)
  have sz: "24 + type_len ?h + str_len ?h = of_nat (24 + ?tl + ?sl)" by simp
  then have n: "unat (24 + type_len ?h + str_len ?h) = 24 + ?tl + ?sl" using f unat_of_nat_u32 [of "24 + ?tl + ?sl"] by (simp add: image_fits_def)
  define H where "H = hdr_bytes (if sw then swap_hdr ?h else ?h)"
  define z :: "bytes" where "z = replicate (?tl + ?sl) 0"
  have lH: "length H = 24" and lz: "length z = ?tl + ?sl" by (simp_all add: H_def z_def)
  have "replicate (24 + ?tl + ?sl) 0 = replicate 24 0 @ z" unfolding z_def by (metis replicate_add add.assoc)
  then have m1: "memcpy (replicate (24 + ?tl + ?sl) 0) 0 (hdr_bytes ?h @ []) 24 = Some (hdr_bytes ?h @ z)" by (simp add: memcpy_def)
  have m2: "(if sw then btf_bswap_hdr (hdr_bytes ?h @ z) else Some (hdr_bytes ?h @ z)) = Some (H @ z)"
    by (simp add: H_def btf_bswap_hdr_bytes)
  have td: "types_data ?s = own_types b @ drop ?tl (types_data ?s)" by (simp add: own_types_def)
  have m3: "memcpy (H @ z) 24 (types_data ?s) ?tl = Some (H @ own_types b @ drop ?tl z)"
    using memcpy_at [OF own_lengths(1) [OF b], of H z "drop ?tl (types_data ?s)"] lH lz td by simp
  have m4: "(if \<not> sw then Some (0, H @ own_types b @ drop ?tl z) else if unat (nr_types ?s) \<le> length (type_offs ?s)
      then swap_types (H @ own_types b @ drop ?tl z) 24 (take (unat (nr_types ?s)) (type_offs ?s)) else None) =
      Some (0, H @ native sw (own_types b) @ drop ?tl z)"
    using swap_own_types [OF b, of H "drop ?tl z"] nr lH by (simp add: native_def)
  define S where "S = bytes_of (own_strs b)"
  obtain r where bs: "bytes_of (btf_strs_data (ostrs b)) = S @ r"
    by (metis S_def append_take_drop_id bytes_of_take own_strs_def)
  have lS: "length S = ?sl" using own_lengths(2) [OF b] by (simp add: S_def)
  have m5: "memcpy (H @ native sw (own_types b) @ drop ?tl z) (24 + ?tl) (bytes_of (btf_strs_data (ostrs b))) ?sl = Some (obj_image sw b)"
    using memcpy_at [OF lS, of "H @ native sw (own_types b)" "drop ?tl z" r] own_lengths(1) [OF b] lH lz
    by (simp add: bs obj_image_def H_def [symmetric] S_def [symmetric])
  have u: "unat (24 :: u32) = 24" by simp
  show ?thesis
    by (simp only: btf_get_raw_data_def Let_def nc h u n option.case if_True if_False simp_thms m1 m2 m3 m4 m5 bind.simps prod.case
      own_lengths(3) [OF b] sz [symmetric])
qed

section \<open>Loading the image\<close>

lemma swap_hdr_swap_hdr [simp]: "swap_hdr (swap_hdr h) = h"
  by (simp add: swap_hdr_def swab16_swab16 swab32_swab32)

lemma image_parts:
  assumes "built_ok b"
  defines "h \<equiv> hdr (own_sec b)"
  shows "image_hdr (obj_image sw b) = Some (sw, h)" "sections_fit (length (obj_image sw b)) h"
    "image_types sw h (obj_image sw b) = own_types b" "image_strs h (obj_image sw b) = own_strs b"
proof -
  have h: "magic h = BTF_MAGIC" "hdr_len h = 24" "type_off h = 0" "str_off h = type_len h" using assms by (simp_all add: built_ok_def hdr_ok_def)
  note len = own_lengths [OF assms(1), folded h_def]
  show "image_hdr (obj_image sw b) = Some (sw, h)"
    using h magics_differ by (cases sw) (simp_all add: image_hdr_def obj_image_def load_hdr_bytes h_def [symmetric], simp_all add: swap_hdr_def)
  show "sections_fit (length (obj_image sw b)) h" using h len by (simp add: sections_fit_def)
  show "image_types sw h (obj_image sw b) = own_types b"
    using h len by (simp add: image_types_def obj_image_def native_def rev4_rev4)
  show "image_strs h (obj_image sw b) = own_strs b"
    using h len by (simp add: image_strs_def obj_image_def)
qed

lemma tiled_unique: "tiled m p qs e \<Longrightarrow> tiled m p qs' e \<Longrightarrow> qs' = qs"
proof (induction qs arbitrary: p qs')
  case (Cons q qs)
  then obtain n where n: "btf_type_size (At m p) = Some n" "0 \<le> n" "tiled m (p + nat n) qs e" "q = p" "p + nat n \<le> e" by (auto split: option.splits)
  have "p < e" using n btf_type_size_12 [OF n(1,2)] by linarith
  then obtain qs'' where "qs' = p # qs''" "tiled m (p + nat n) qs'' e" using Cons.prems(2) tiled_step [of p e m qs'] n(1) by auto
  then show ?case using Cons.IH [OF n(3)] n(4) by simp
next
  case Nil
  then show ?case using tiled_bounds [of m p qs' e] by simp
qed

lemma own_types_tiled:
  assumes "built_ok b"
  shows "tiled (own_types b) 0 (sec_offs (own_sec b)) (unat (type_len (hdr (own_sec b))))" "map (tile (own_types b)) (sec_offs (own_sec b)) = abs_types b"
proof -
  have t: "tiled (types_data (own_sec b)) 0 (sec_offs (own_sec b)) (unat (type_len (hdr (own_sec b))))"
    "unat (type_len (hdr (own_sec b))) \<le> length (types_data (own_sec b))" using assms by (simp_all add: built_ok_def sec_ok_def)
  have "take (unat (type_len (hdr (own_sec b)))) (own_types b) = take (unat (type_len (hdr (own_sec b)))) (types_data (own_sec b))"
    by (simp add: own_types_def)
  from tiled_frame [OF t(1) this t(2)] show "tiled (own_types b) 0 (sec_offs (own_sec b)) (unat (type_len (hdr (own_sec b))))"
    "map (tile (own_types b)) (sec_offs (own_sec b)) = abs_types b" by (simp_all add: abs_types_def)
qed

text \<open>The object of an image has the types and the names.\<close>

definition same_content :: "btf_obj \<Rightarrow> btf_obj \<Rightarrow> bool" where
  "same_content b b' \<longleftrightarrow> abs_types b' = abs_types b \<and> (\<forall>k. btf__name_by_offset (ostrs b') k = btf__name_by_offset (ostrs b) k)"

lemma loaded_content:
  assumes b: "built_ok b" and l: "loads_as (obj_image sw b) sw (hdr (own_sec b)) None b'"
  shows "same_content b b'" "swapped_endian (own_sec b') = sw"
proof -
  let ?s = "own_sec b" and ?I = "obj_image sw b"
  note parts = image_parts [OF b, of sw]
  obtain qs offs raw where o: "otys b' = Types None ((new_sec ?I sw (hdr ?s) None)\<lparr>types_data := own_types b,
        type_offs := offs, type_offs_cap := length offs, nr_types := of_nat (length qs), raw_data := Some raw\<rparr>)"
      and q: "tiled (own_types b) 0 qs (unat (type_len (hdr ?s)))" "take (length qs) offs = map of_nat qs" "length qs \<le> length offs"
    using l unfolding loads_as_def parts by auto
  show "swapped_endian (own_sec b') = sw" by (simp add: own_sec_def o new_sec_def)
  have qs: "qs = sec_offs ?s" by (rule tiled_unique [OF own_types_tiled(1) [OF b] q(1)])
  have b2: "12 * length qs \<le> unat (type_len (hdr ?s))" "\<And>q. q \<in> set qs \<Longrightarrow> q < 2 ^ 32"
    using tiled_bounds [OF q(1)] unat_u32 [of "type_len (hdr ?s)"] by fastforce+
  then have "unat (of_nat (length qs) :: u32) = length qs" using unat_u32 [of "type_len (hdr ?s)"] by (simp add: unat_of_nat_u32)
  moreover have "map unat (map of_nat qs :: u32 list) = qs" using b2(2) by (simp add: map_idI unat_of_nat_u32)
  ultimately have "sec_offs (own_sec b') = qs" using q(2) by (simp add: own_sec_def o new_sec_def sec_offs_def)
  then have abs: "abs_types b' = abs_types b" using own_types_tiled(2) [OF b] qs by (simp add: abs_types_def) (simp add: own_sec_def o new_sec_def)
  have st: "ostrs b' = Btf None 0 (unat (str_len (hdr ?s))) (Inl (own_strs b))" using l parts(4) by (simp add: loads_as_def)
  have ok: "base_btf (ostrs b) = None" "start_str_off (ostrs b) = 0" "hdr_str_len (ostrs b) = unat (str_len (hdr ?s))" using b by (simp_all add: built_ok_def btf_ok_def)
  have "str_at (own_strs b) k = str_at (btf_strs_data (ostrs b)) k" if "k < unat (str_len (hdr ?s))" for k
    by (rule str_at_cong [of "unat (str_len (hdr ?s))"]) (use that built_strs [OF b] in \<open>simp_all add: own_strs_def\<close>)
  then have "btf__name_by_offset (ostrs b') k = btf__name_by_offset (ostrs b) k" for k
    using ok st by (cases "ostrs b") (simp add: btf__name_by_offset_def)
  then show "same_content b b'" using abs by (simp add: same_content_def)
qed

lemma load_image:
  assumes b: "built_ok b"
  obtains (fail) "btf__new ok (obj_image sw b) = Some (Inl (- ENOMEM))" "\<exists>i. \<not> ok i"
  | (loaded) b' where "btf__new ok (obj_image sw b) = Some (Inr b')" "same_content b b'" "swapped_endian (own_sec b') = sw"
proof (cases "ok 0 \<and> ok 1")
  case False
  then have "btf__new ok (obj_image sw b) = Some (Inl (- ENOMEM))" by (auto simp: btf__new_def btf_new_def)
  then show ?thesis using fail False by blast
next
  case True
  note parts = image_parts [OF b, of sw]
  have ne: "own_strs b \<noteq> []" "length (own_strs b) \<le> 2 ^ 31"
    using built_strs(2,5) [OF b] own_lengths(2) [OF b] by auto
  moreover have "last (own_strs b) = NUL" "hd (own_strs b) = NUL"
    using ne built_strs [OF b] own_lengths(2) [OF b] by (simp_all add: last_conv_nth hd_conv_nth) (simp_all add: own_strs_def)
  ultimately have sv: "strs_valid ((None :: btf_obj option) \<noteq> None) (image_strs (hdr (own_sec b)) (obj_image sw b))"
    by (simp add: parts(4) strs_valid_def)
  have m: "ok 0" "ok 1" using True by simp_all
  show ?thesis
  proof (rule btf_new_cases [OF m parts(1,2) sv])
    fix e assume "btf_new ok (obj_image sw b) None = Some (Inl e)"
      "e = - ENOMEM \<and> (\<exists>i. \<not> ok i) \<or> e = - EINVAL \<and>
        (\<forall>qs. \<not> tiled (image_types sw (hdr (own_sec b)) (obj_image sw b)) 0 qs (unat (type_len (hdr (own_sec b)))))"
    then show ?thesis using fail own_types_tiled(1) [OF b] parts(3) by (auto simp: btf__new_def)
  next
    fix b' assume "btf_new ok (obj_image sw b) None = Some (Inr b')" "loads_as (obj_image sw b) sw (hdr (own_sec b)) None b'"
    then show ?thesis using loaded loaded_content [OF b] by (simp add: btf__new_def)
  qed
qed

section \<open>The kept image\<close>

definition raws :: "btf_obj \<Rightarrow> bytes option \<times> bytes option" where
  "raws b = (raw_data (own_sec b), raw_data_swapped (own_sec b))"

definition cache_ok :: "btf_obj \<Rightarrow> bool" where
  "cache_ok b \<longleftrightarrow> (\<forall>d. raw_data (own_sec b) = Some d \<longrightarrow> d = obj_image False b \<and> raw_size (own_sec b) = of_nat (length d)) \<and>
     (\<forall>d. raw_data_swapped (own_sec b) = Some d \<longrightarrow> d = obj_image True b \<and> raw_size (own_sec b) = of_nat (length d))"

text \<open>An operation that changes the object drops the images.\<close>

definition settled :: "btf_obj \<Rightarrow> (int \<times> btf_obj) option \<Rightarrow> bool" where
  "settled b r \<longleftrightarrow> (\<forall>e b'. r = Some (e, b') \<longrightarrow> b' = b \<or> raws b' = (None, None))"

lemma settled_simps [simp]: "settled b None" "settled b (Some (e, b))" "raws b' = (None, None) \<Longrightarrow> settled b (Some (e, b'))"
  by (auto simp: settled_def)

lemma raws_write: "write_types b a ws = Some b' \<Longrightarrow> raws b' = raws b"
  by (auto simp: write_types_def raws_def)

lemma raws_set_info: "set_info b i info = Some b' \<Longrightarrow> raws b' = raws b"
  by (auto simp: set_info_def Let_def raws_write split: if_splits)

lemma raws_mem: "btf_add_type_mem ok b n = Some b' \<Longrightarrow> raws b' = raws b"
  by (auto simp: btf_add_type_mem_def raws_def)

lemma raws_name: "add_opt_name ok b name = Some (off, b') \<Longrightarrow> raws b' = raws b"
  by (auto simp: add_opt_name_def add_name_def raws_def split: option.splits if_splits Option.bind_splits)

lemma raws_commit: "btf_commit_type ok b n = Some (i, b') \<Longrightarrow> raws b' = raws b"
  by (auto simp: btf_commit_type_def raws_def Let_def split: if_splits Option.bind_splits dest!: btf_add_type_idx_entry_keeps)

lemma raws_modifiable:
  assumes "built_ok b" and "obj_ensure_modifiable ok b = Some (err, b')"
  shows "if err \<noteq> 0 then b' = b else raws b' = (None, None)"
proof (cases "err = 0")
  case True
  then show ?thesis using assms(2)
    by (auto simp: obj_ensure_modifiable_def raws_def btf_invalidate_raw_data_def Let_def split: if_splits Option.bind_splits)
next
  case False
  then show ?thesis using assms(2) by (auto intro: obj_ensure_modifiable_cases [OF assms(1), of ok])
qed

lemma prepare_raws:
  assumes "built_ok b" and "prepare ok b name n = Some (off, b')"
  shows "off < 0 \<and> b' = b \<or> raws b' = (None, None)"
proof -
  obtain err b1 where m: "obj_ensure_modifiable (part 0 ok) b = Some (err, b1)"
    "(if err \<noteq> 0 then Some (- ENOMEM, b1) else (case btf_add_type_mem (part 1 ok 0) b1 n of None \<Rightarrow> Some (- ENOMEM, b1)
      | Some b \<Rightarrow> add_opt_name (part 2 ok) b name)) = Some (off, b')"
    using assms(2) by (auto simp: prepare_def split: Option.bind_splits)
  then show ?thesis using raws_modifiable [OF assms(1) m(1)]
    by (auto simp: ENOMEM_def split: if_splits option.splits dest!: raws_mem raws_name)
qed

lemma append_type_raws:
  assumes "built_ok b" and "append_type ok b name words = Some (i, b')"
  shows "i < 0 \<and> b' = b \<or> raws b' = (None, None)"
  using prepare_raws [OF assms(1), of ok name "4 * length (words 0)"] assms(2)
  by (auto simp: append_type_def split: Option.bind_splits if_splits dest!: raws_write raws_commit)

lemma append_type_settled: "built_ok b \<Longrightarrow> settled b (append_type ok b name words)"
  using append_type_raws unfolding settled_def by blast

lemma raws_upd_hdr:
  "(\<And>s. raw_data (f s) = raw_data s) \<Longrightarrow> (\<And>s. raw_data_swapped (f s) = raw_data_swapped s) \<Longrightarrow> raws (upd_sec f b) = raws b"
  by (simp add: raws_def)

lemma append_elem_settled:
  assumes "built_ok b"
  shows "settled b (append_elem ok b kinds chk name words new_info)"
  using prepare_raws [OF assms, of ok name "4 * length (words 0)"]
  by (auto simp: append_elem_def settled_def raws_upd_hdr split: Option.bind_splits if_splits dest!: raws_write raws_set_info)

lemma ref_kind_settled: "built_ok b \<Longrightarrow> settled b (btf_add_ref_kind ok b k name j)"
  by (simp add: btf_add_ref_kind_def append_type_settled)

lemma ref_kind_raws: "built_ok b \<Longrightarrow> btf_add_ref_kind ok b k name j = Some (i, b') \<Longrightarrow> 0 < i \<Longrightarrow> raws b' = (None, None)"
  using append_type_raws [of b ok name _ i b'] by (fastforce simp: btf_add_ref_kind_def EINVAL_def split: if_splits)

lemma settled_refl: "settled b r \<Longrightarrow> r = Some (e, b') \<Longrightarrow> b' = b \<or> raws b' = (None, None)"
  by (simp add: settled_def)

lemma info_settled:
  assumes b: "built_ok b"
  shows "settled b (do { (i, b) \<leftarrow> btf_add_ref_kind ok b k name j; if i \<le> 0 then Some (i, b) else do { b \<leftarrow> set_info b (of_int i) info; Some (i, b) } })"
    "settled b (do { (i, b) \<leftarrow> btf_add_ref_kind ok b k name j; if i > 0 then do { b \<leftarrow> set_info b (of_int i) info; Some (i, b) } else Some (i, b) })"
proof -
  have "raws b2 = (None, None)" if "btf_add_ref_kind ok b k name j = Some (i, b1)" "0 < i" "set_info b1 (of_int i) info = Some b2" for i b1 b2
    using ref_kind_raws [OF b that(1,2)] raws_set_info [OF that(3)] by simp
  moreover note settled_refl [OF ref_kind_settled [OF b], of ok k name j]
  ultimately show "settled b (do { (i, b) \<leftarrow> btf_add_ref_kind ok b k name j; if i \<le> 0 then Some (i, b) else do { b \<leftarrow> set_info b (of_int i) info; Some (i, b) } })"
    "settled b (do { (i, b) \<leftarrow> btf_add_ref_kind ok b k name j; if i > 0 then do { b \<leftarrow> set_info b (of_int i) info; Some (i, b) } else Some (i, b) })"
    by (fastforce simp: settled_def split: Option.bind_splits if_splits)+
qed

lemma btf__add_fwd_settled: "built_ok b \<Longrightarrow> settled b (btf__add_fwd ok b name k)"
  using info_settled(1) [of b ok BTF_KIND_FWD name 0] by (simp add: btf__add_fwd_def btf__add_enum_def btf_add_enum_common_def append_type_settled)

lemma btf__add_func_settled: "built_ok b \<Longrightarrow> settled b (btf__add_func ok b name l i)"
  using info_settled(2) [of b ok BTF_KIND_FUNC name i] by (simp add: btf__add_func_def)

lemmas op_defs = btf__add_int_def btf__add_float_def btf__add_ptr_def btf__add_array_def btf__add_struct_def btf__add_union_def
  btf_add_composite_def btf__add_field_def btf__add_enum_def btf__add_enum64_def btf_add_enum_common_def btf__add_enum_value_def btf__add_enum64_value_def
  btf__add_typedef_def btf__add_volatile_def btf__add_const_def btf__add_restrict_def btf__add_type_tag_def btf__add_func_proto_def
  btf__add_func_param_def btf__add_var_def btf__add_datasec_def btf__add_datasec_var_info_def btf__add_decl_tag_def

lemma run_op_settled:
  assumes "built_ok b"
  shows "settled b (run_op al b oper)"
  using assms
  by (cases oper) (simp_all add: op_defs append_type_settled append_elem_settled ref_kind_settled btf__add_fwd_settled btf__add_func_settled)

lemma run_op_cache:
  assumes "built_ok b" "cache_ok b" and "run_op al b oper = Some (r, b')"
  shows "cache_ok b'"
  using settled_refl [OF run_op_settled [OF assms(1)] assms(3)] assms(2) by (auto simp: raws_def cache_ok_def)

section \<open>The life of an object\<close>

inductive btf_life :: "btf_obj \<Rightarrow> bool" where
  new: "obj_new_empty ok None = Some b \<Longrightarrow> btf_life b"
| op: "btf_life b \<Longrightarrow> op_ok b oper \<Longrightarrow> run_op al b oper = Some (r, b') \<Longrightarrow> btf_life b'"
| raw: "btf_life b \<Longrightarrow> image_fits b \<Longrightarrow> btf__raw_data ok b = Some (d, b') \<Longrightarrow> btf_life b'"
| endian: "btf_life b \<Longrightarrow> btf__set_endianness b e = (r, b') \<Longrightarrow> btf_life b'"

lemma image_cong:
  assumes "hdr (own_sec b') = hdr (own_sec b)" "types_data (own_sec b') = types_data (own_sec b)" "ostrs b' = ostrs b"
  shows "obj_image sw b' = obj_image sw b"
  using assms by (simp add: obj_image_def own_types_def own_strs_def)

lemma built_ok_upd:
  assumes "built_ok b" and "\<And>s. hdr (f s) = hdr s \<and> hdr_more (f s) = hdr_more s \<and> types_data (f s) = types_data s \<and> types_data_cap (f s) = types_data_cap s \<and>
    type_offs (f s) = type_offs s \<and> type_offs_cap (f s) = type_offs_cap s \<and> nr_types (f s) = nr_types s \<and> start_id (f s) = start_id s"
  shows "built_ok (upd_sec f b)" "obj_image sw (upd_sec f b) = obj_image sw b"
  using assms by (simp_all add: built_ok_def sec_ok_def sec_offs_def cap_ok_def obj_image_def own_types_def own_strs_def)

lemma btf_get_raw_data_spec:
  assumes "built_ok b" "cache_ok b" "image_fits b"
  shows "btf_get_raw_data ok b sw = Some (if ok \<or> (if sw then raw_data_swapped (own_sec b) else raw_data (own_sec b)) \<noteq> None
    then Some (obj_image sw b, of_nat (length (obj_image sw b))) else None)"
proof (cases "if sw then raw_data_swapped (own_sec b) else raw_data (own_sec b)")
  case None
  then show ?thesis using btf_get_raw_data_new [OF assms(1,3) None] by (cases ok) (simp_all add: btf_get_raw_data_def Let_def)
next
  case (Some d)
  then have "d = obj_image sw b \<and> raw_size (own_sec b) = of_nat (length d)" using assms(2) by (cases sw) (simp_all add: cache_ok_def)
  then show ?thesis using Some by (simp add: btf_get_raw_data_def Let_def)
qed

lemma btf__raw_data_spec:
  assumes "built_ok b" "cache_ok b" "image_fits b"
  obtains (fail) "btf__raw_data ok b = Some (None, b)" "\<not> ok"
  | (data) b' where "btf__raw_data ok b = Some (Some (obj_image (swapped_endian (own_sec b)) b, of_nat (length (obj_image (swapped_endian (own_sec b)) b))), b')"
      "built_ok b'" "cache_ok b'" "same_content b b'"
proof -
  let ?sw = "swapped_endian (own_sec b)"
  let ?I = "obj_image ?sw b"
  define f where "f = (\<lambda>s :: btf_sec. if swapped_endian s then s\<lparr>raw_size := of_nat (length ?I), raw_data_swapped := Some ?I\<rparr>
    else s\<lparr>raw_size := of_nat (length ?I), raw_data := Some ?I\<rparr>)"
  have fk: "hdr (f s) = hdr s \<and> hdr_more (f s) = hdr_more s \<and> types_data (f s) = types_data s \<and> types_data_cap (f s) = types_data_cap s \<and>
    type_offs (f s) = type_offs s \<and> type_offs_cap (f s) = type_offs_cap s \<and> nr_types (f s) = nr_types s \<and> start_id (f s) = start_id s" for s
    by (simp add: f_def)
  note u = built_ok_upd [OF assms(1) fk]
  have len: "length (obj_image True b) = length (obj_image False b)" using own_lengths(3) [OF assms(1)] by simp
  have c: "cache_ok (upd_sec f b)" using assms(2) len unfolding cache_ok_def u(2) own_sec_upd by (auto simp: f_def)
  have s: "same_content b (upd_sec f b)" using fk [of "own_sec b"] by (simp add: same_content_def abs_types_def sec_offs_def)
  show ?thesis
  proof (cases "ok \<or> (if ?sw then raw_data_swapped (own_sec b) else raw_data (own_sec b)) \<noteq> None")
    case True
    then show ?thesis using data [of "upd_sec f b"] u(1) c s btf_get_raw_data_spec [OF assms, of ok ?sw] by (simp add: btf__raw_data_def f_def)
  next
    case False
    then show ?thesis using fail btf_get_raw_data_spec [OF assms, of ok ?sw] by (simp add: btf__raw_data_def)
  qed
qed

lemma btf_life_ok: "btf_life b \<Longrightarrow> built_ok b \<and> cache_ok b"
proof (induction rule: btf_life.induct)
  case (new ok b)
  then have "cache_ok b"
    by (auto simp: obj_new_empty_def btf_new_empty_def Let_def cache_ok_def own_sec_def obj_image_def own_types_def own_strs_def native_def
      bytes_of_def NUL_def btf_strs_data_def split: if_splits)
  then show ?case using obj_new_empty_built [OF new] by simp
next
  case (op b oper al r b')
  then show ?case using run_op_keeps [of b oper al] run_op_cache [of b al oper r b'] by (simp add: keeps_built_def)
next
  case (raw b ok d b')
  have ok: "built_ok b" "cache_ok b" using raw.IH by simp_all
  show ?case by (rule btf__raw_data_spec [OF ok raw.hyps(2), of ok]) (use raw.hyps(3) ok in simp_all)
next
  case (endian b e r b')
  define f where "f = (\<lambda>s :: btf_sec. s\<lparr>swapped_endian := (e = BTF_BIG_ENDIAN), raw_data_swapped := (if e \<noteq> BTF_BIG_ENDIAN then None else raw_data_swapped s)\<rparr>)"
  have b': "b' = upd_sec f b" using endian(2) by (auto simp: btf__set_endianness_def f_def Let_def)
  have u: "built_ok (upd_sec f b)" "\<And>sw. obj_image sw (upd_sec f b) = obj_image sw b" using built_ok_upd [of b f] endian(3) by (simp_all add: f_def)
  show ?case using endian(3) u(1) unfolding b' cache_ok_def u(2) own_sec_upd by (auto simp: f_def)
qed

text \<open>
  C24. The image of an object loads as the object.  Take an object that \<^verbatim>\<open>btf__new_empty\<close> has made, without a base, and that
  operations have filled since, at any point of this life (\<open>btf_life\<close>), in either byte order, whose types and strings fit into
  32-bit lengths together (\<open>image_fits\<close>).  Then \<^verbatim>\<open>btf__raw_data\<close> gives, unless memory is exhausted, an image from which
  \<^verbatim>\<open>btf__new\<close> makes an object with the same types under the same ids and the same names under the same offsets, in the byte order
  that was chosen.  Objects that were loaded, or that have a base, are not covered.
\<close>

theorem raw_data_roundtrip:
  assumes "btf_life b" and "image_fits b"
  shows "\<exists>r b1. btf__raw_data ok b = Some (r, b1) \<and>
    (case r of
       None \<Rightarrow> \<not> ok
     | Some (data, n) \<Rightarrow> n = of_nat (length data) \<and> same_content b b1 \<and>
         (\<exists>l. btf__new al data = Some l \<and>
           (case l of
              Inl e \<Rightarrow> e = - ENOMEM \<and> (\<exists>i. \<not> al i)
            | Inr b2 \<Rightarrow> same_content b b2 \<and> btf__endianness b2 = btf__endianness b)))"
proof -
  have ok: "built_ok b" "cache_ok b" using btf_life_ok [OF assms(1)] by simp_all
  let ?sw = "swapped_endian (own_sec b)"
  show ?thesis
  proof (rule btf__raw_data_spec [OF ok assms(2), of ok])
    fix b1 assume 1: "btf__raw_data ok b = Some (Some (obj_image ?sw b, of_nat (length (obj_image ?sw b))), b1)" "same_content b b1"
    show ?thesis
    proof (rule load_image [OF ok(1), where sw = ?sw and ok = al])
      fix b2 assume "btf__new al (obj_image ?sw b) = Some (Inr b2)" "same_content b b2" "swapped_endian (own_sec b2) = ?sw"
      then show ?thesis using 1 by (simp add: btf__endianness_def own_sec_def)
    qed (use 1 in simp)
  qed simp
qed

definition new_obj_big :: btf_obj where "new_obj_big = snd (btf__set_endianness new_obj BTF_BIG_ENDIAN)"

theorem raw_data_roundtrip_witness:
  "\<exists>data n b1 b2. btf__raw_data True new_obj_big = Some (Some (data, n), b1) \<and> btf__new (\<lambda>_. True) data = Some (Inr b2) \<and>
    same_content new_obj_big b2 \<and> btf__endianness b2 = BTF_BIG_ENDIAN"
proof -
  have life: "btf_life new_obj_big" unfolding new_obj_big_def
    by (rule btf_life.endian [OF btf_life.new [OF new_obj_new], of BTF_BIG_ENDIAN]) (simp add: btf__set_endianness_def Let_def)
  have fits: "image_fits new_obj_big" and big: "btf__endianness new_obj_big = BTF_BIG_ENDIAN"
    by (simp_all add: image_fits_def btf__endianness_def new_obj_big_def btf__set_endianness_def Let_def new_obj_def obj_new_empty_def btf_new_empty_def
      upd_sec_def own_sec_def)
  obtain r b1 where r: "btf__raw_data True new_obj_big = Some (r, b1)"
    and c: "case r of None \<Rightarrow> \<not> True | Some (data, n) \<Rightarrow> n = of_nat (length data) \<and> same_content new_obj_big b1 \<and>
      (\<exists>l. btf__new (\<lambda>_. True) data = Some l \<and> (case l of Inl e \<Rightarrow> e = - ENOMEM \<and> (\<exists>i :: nat. \<not> True)
        | Inr b2 \<Rightarrow> same_content new_obj_big b2 \<and> btf__endianness b2 = btf__endianness new_obj_big))"
    using raw_data_roundtrip [OF life fits, of True "\<lambda>_. True"] by (elim exE conjE)
  then obtain data n where d: "r = Some (data, n)" by (cases r) auto
  with c obtain l where l: "btf__new (\<lambda>_. True) data = Some l" "case l of Inl e \<Rightarrow> e = - ENOMEM \<and> (\<exists>i :: nat. \<not> True)
      | Inr b2 \<Rightarrow> same_content new_obj_big b2 \<and> btf__endianness b2 = btf__endianness new_obj_big" by auto
  then show ?thesis using r d big by (cases l) auto
qed

end
