(* ===== verification/Btf_Copy.thy ===== *)
theory Btf_Copy
  imports Btf_Object
begin

text \<open>
  Copying types between BTF objects (\<^verbatim>\<open>libbpf/src/btf.c\<close>): \<^verbatim>\<open>btf__add_type\<close> copies one type,
  \<^verbatim>\<open>btf__add_btf\<close> all types of an object.  A copy has the words of its original, with the names
  replaced by their offsets in the destination and, for \<^verbatim>\<open>btf__add_btf\<close>, the type ids shifted
  by the number of types that were there before.

  The source is an object of its own, different from the destination.  The visits of the words of
  the types are at different addresses, which number their allocations: \<open>oks a\<close> for the visit of
  address \<open>a\<close>.
\<close>

section \<open>Visiting the names and the type ids of a type\<close>

type_synonym 'c visit_fn = "nat \<Rightarrow> 'c \<Rightarrow> (int \<times> 'c) option"

fun visit_each :: "('a \<Rightarrow> 'c \<Rightarrow> (int \<times> 'c) option) \<Rightarrow> 'a list \<Rightarrow> 'c \<Rightarrow> (int \<times> 'c) option" where
  "visit_each visit [] c = Some (0, c)"
| "visit_each visit (a # as) c = do {
     (err, c) \<leftarrow> visit a c;
     if err \<noteq> 0 then Some (err, c) else visit_each visit as c
   }"

text \<open>
  \<open>mem\<close> reads the bytes of the types from the context of the visits, \<open>p\<close> is the offset of the type.
  \<open>fields p start step n\<close> are the addresses of one field of \<open>n\<close> elements behind it.
\<close>

definition fields :: "nat \<Rightarrow> nat \<Rightarrow> nat \<Rightarrow> nat \<Rightarrow> nat list" where
  "fields p start step n = map (\<lambda>i. p + start + step * i) [0..<n]"

definition btf_type_visit_type_ids :: "('c \<Rightarrow> bytes) \<Rightarrow> nat \<Rightarrow> 'c visit_fn \<Rightarrow> 'c \<Rightarrow> (int \<times> 'c) option" where
  "btf_type_visit_type_ids mem p visit c = do {
     kind \<leftarrow> btf_kind (At (mem c) p);
     n \<leftarrow> btf_vlen (At (mem c) p);
     case kind of
       BTF_KIND_INT \<Rightarrow> Some (0, c)
     | BTF_KIND_FLOAT \<Rightarrow> Some (0, c)
     | BTF_KIND_ENUM \<Rightarrow> Some (0, c)
     | BTF_KIND_ENUM64 \<Rightarrow> Some (0, c)
     | BTF_KIND_FWD \<Rightarrow> visit (p + 8) c
     | BTF_KIND_CONST \<Rightarrow> visit (p + 8) c
     | BTF_KIND_VOLATILE \<Rightarrow> visit (p + 8) c
     | BTF_KIND_RESTRICT \<Rightarrow> visit (p + 8) c
     | BTF_KIND_PTR \<Rightarrow> visit (p + 8) c
     | BTF_KIND_TYPEDEF \<Rightarrow> visit (p + 8) c
     | BTF_KIND_FUNC \<Rightarrow> visit (p + 8) c
     | BTF_KIND_VAR \<Rightarrow> visit (p + 8) c
     | BTF_KIND_DECL_TAG \<Rightarrow> visit (p + 8) c
     | BTF_KIND_TYPE_TAG \<Rightarrow> visit (p + 8) c
     | BTF_KIND_ARRAY \<Rightarrow> visit_each visit [p + 12, p + 16] c
     | BTF_KIND_STRUCT \<Rightarrow> visit_each visit (fields p 16 12 n) c
     | BTF_KIND_UNION \<Rightarrow> visit_each visit (fields p 16 12 n) c
     | BTF_KIND_FUNC_PROTO \<Rightarrow> do {
         (err, c) \<leftarrow> visit (p + 8) c;
         if err \<noteq> 0 then Some (err, c) else visit_each visit (fields p 16 8 n) c
       }
     | BTF_KIND_DATASEC \<Rightarrow> visit_each visit (fields p 12 12 n) c
     | BTF_KIND_UNKN \<Rightarrow> Some (- EINVAL, c)
     | Kind_other k \<Rightarrow> Some (- EINVAL, c)
   }"

definition btf_type_visit_str_offs :: "('c \<Rightarrow> bytes) \<Rightarrow> nat \<Rightarrow> 'c visit_fn \<Rightarrow> 'c \<Rightarrow> (int \<times> 'c) option" where
  "btf_type_visit_str_offs mem p visit c = do {
     (err, c) \<leftarrow> visit p c;
     if err \<noteq> 0 then Some (err, c)
     else do {
       kind \<leftarrow> btf_kind (At (mem c) p);
       n \<leftarrow> btf_vlen (At (mem c) p);
       case kind of
         BTF_KIND_STRUCT \<Rightarrow> visit_each visit (fields p 12 12 n) c
       | BTF_KIND_UNION \<Rightarrow> visit_each visit (fields p 12 12 n) c
       | BTF_KIND_ENUM \<Rightarrow> visit_each visit (fields p 12 8 n) c
       | BTF_KIND_ENUM64 \<Rightarrow> visit_each visit (fields p 12 12 n) c
       | BTF_KIND_FUNC_PROTO \<Rightarrow> visit_each visit (fields p 12 8 n) c
       | _ \<Rightarrow> Some (0, c)
     }
   }"

section \<open>Copying\<close>

text \<open>
  \<^verbatim>\<open>struct btf_pipe\<close>: the destination and the map of string offsets, the source is an argument.
  A name outside the strings of the source is the null pointer, which \<^verbatim>\<open>btf__add_str\<close> reads.
\<close>

type_synonym btf_pipe = "btf_obj \<times> (nat, nat) hashmap option"

definition btf_dedup_identity_hash_fn :: "nat \<Rightarrow> u64" where "btf_dedup_identity_hash_fn key = of_nat key"
definition btf_dedup_equal_fn :: "nat \<Rightarrow> nat \<Rightarrow> bool" where "btf_dedup_equal_fn k1 k2 \<longleftrightarrow> k1 = k2"

definition str_off_find :: "(nat, nat) hashmap option \<Rightarrow> u32 \<Rightarrow> nat option option" where
  "str_off_find str_off_map key = (case str_off_map of None \<Rightarrow> Some None
     | Some m \<Rightarrow> hashmap__find btf_dedup_identity_hash_fn btf_dedup_equal_fn m (unat key))"

definition str_off_append :: "bool \<times> bool \<Rightarrow> (nat, nat) hashmap option \<Rightarrow> u32 \<Rightarrow> int \<Rightarrow> (int \<times> (nat, nat) hashmap option) option" where
  "str_off_append ok str_off_map key off = (case str_off_map of None \<Rightarrow> Some (0, None)
     | Some m \<Rightarrow> map_option (\<lambda>(err, old, m). (err, Some m))
         (hashmap__insert btf_dedup_identity_hash_fn btf_dedup_equal_fn ok m (unat key) (nat off) HASHMAP_APPEND))"

definition btf_rewrite_str :: "(nat \<Rightarrow> allocs) \<Rightarrow> btf_obj \<Rightarrow> btf_pipe visit_fn" where
  "btf_rewrite_str oks src a p = do {
     let (dst, str_off_map) = p;
     str_off \<leftarrow> load32 (types_data (own_sec dst)) a;
     if str_off = 0 then Some (0, p)
     else do {
       found \<leftarrow> str_off_find str_off_map str_off;
       case found of
         Some mapped_off \<Rightarrow> do { dst \<leftarrow> write_types dst a [of_nat mapped_off]; Some (0, (dst, str_off_map)) }
       | None \<Rightarrow> do {
           name \<leftarrow> btf__str_by_offset (ostrs src) (unat str_off);
           s \<leftarrow> name;
           (off, dst) \<leftarrow> add_name (part 0 (oks a)) dst s;
           if off < 0 then Some (off, (dst, str_off_map))
           else do {
             (err, str_off_map) \<leftarrow> str_off_append (part 1 (oks a) 0, part 1 (oks a) 1) str_off_map str_off off;
             if err \<noteq> 0 then Some (err, (dst, str_off_map))
             else do { dst \<leftarrow> write_types dst a [of_int off]; Some (0, (dst, str_off_map)) }
           }
         }
     }
   }"

definition pipe_mem :: "btf_pipe \<Rightarrow> bytes" where "pipe_mem p = types_data (own_sec (fst p))"

text \<open>\<^verbatim>\<open>memcpy\<close> to the types, and the bytes behind a pointer to a type.\<close>

definition copy_types :: "btf_obj \<Rightarrow> nat \<Rightarrow> bytes \<Rightarrow> nat \<Rightarrow> btf_obj option" where
  "copy_types b a from n = map_option (\<lambda>m. upd_sec (\<lambda>s. s\<lparr>types_data := m\<rparr>) b) (memcpy (types_data (own_sec b)) a from n)"

fun type_mem :: "type_ptr \<Rightarrow> bytes" where
  "type_mem Void = replicate 12 0"
| "type_mem (At m p) = drop p m"

definition btf__add_type :: "allocs \<Rightarrow> (nat \<Rightarrow> allocs) \<Rightarrow> btf_obj \<Rightarrow> btf_obj \<Rightarrow> type_ptr \<Rightarrow> (int \<times> btf_obj) option" where
  "btf__add_type ok oks b src src_type = do {
     n \<leftarrow> btf_type_size src_type;
     if n < 0 then Some (n, b)
     else do {
       (err, b) \<leftarrow> obj_ensure_modifiable (part 0 ok) b;
       if err \<noteq> 0 then Some (- ENOMEM, b)
       else (case btf_add_type_mem (part 1 ok 0) b (nat n) of
           None \<Rightarrow> Some (- ENOMEM, b)
         | Some b \<Rightarrow> do {
             let t = unat (type_len (hdr (own_sec b)));
             b \<leftarrow> copy_types b t (type_mem src_type) (nat n);
             (err, (b, _)) \<leftarrow> btf_type_visit_str_offs pipe_mem t (btf_rewrite_str oks src) (b, None);
             if err \<noteq> 0 then Some (err, b) else btf_commit_type (part 2 ok 0) b (nat n)
           })
     }
   }"

definition btf_rewrite_type_ids :: "btf_obj visit_fn" where
  "btf_rewrite_type_ids a btf = do {
     type_id \<leftarrow> load32 (types_data (own_sec btf)) a;
     if type_id = 0 then Some (0, btf)
     else do {
       btf \<leftarrow> write_types btf a [type_id + (start_id (own_sec btf) + nr_types (own_sec btf) - 1)];
       Some (0, btf)
     }
   }"

text \<open>The loop of \<^verbatim>\<open>btf__add_btf\<close>: \<open>i\<close> is the index of \<^verbatim>\<open>off\<close>, \<open>t\<close> the offset of the type, \<open>n\<close> counts the rounds left.\<close>

definition set_type_off :: "nat \<Rightarrow> nat \<Rightarrow> btf_obj \<Rightarrow> btf_obj option" where
  "set_type_off i t b = (if i < length (type_offs (own_sec b))
     then Some (upd_sec (\<lambda>s. s\<lparr>type_offs := (type_offs s)[i := of_nat t]\<rparr>) b) else None)"

fun add_btf_types :: "(nat \<Rightarrow> allocs) \<Rightarrow> btf_obj \<Rightarrow> nat \<Rightarrow> nat \<Rightarrow> nat \<Rightarrow> btf_pipe \<Rightarrow> (int \<times> btf_pipe) option" where
  "add_btf_types oks src i t 0 p = Some (0, p)"
| "add_btf_types oks src i t (Suc n) p = do {
     n_bytes \<leftarrow> btf_type_size (At (pipe_mem p) t);
     if n_bytes < 0 then Some (n_bytes, p)
     else do {
       b \<leftarrow> set_type_off i t (fst p);
       (err, p) \<leftarrow> btf_type_visit_str_offs pipe_mem t (btf_rewrite_str oks src) (b, snd p);
       if err \<noteq> 0 then Some (err, p)
       else do {
         (err, b) \<leftarrow> btf_type_visit_type_ids (\<lambda>b. types_data (own_sec b)) t btf_rewrite_type_ids (fst p);
         if err \<noteq> 0 then Some (err, (b, snd p)) else add_btf_types oks src (i + 1) (t + nat n_bytes) n (b, snd p)
       }
     }
   }"

text \<open>
  Undoing a copy.  The strings of a modifiable object are in its set of strings, and \<^verbatim>\<open>strs_data\<close> is
  null: clearing the strings that were added is a write through a null pointer.
\<close>

definition add_btf_undo :: "btf_obj \<Rightarrow> u32 \<Rightarrow> nat \<Rightarrow> btf_obj option" where
  "add_btf_undo b old_strs_len data_sz = do {
     b \<leftarrow> copy_types b (unat (type_len (hdr (own_sec b)))) (replicate data_sz 0) data_sz;
     if str_len (hdr (own_sec b)) \<noteq> old_strs_len then None else Some b
   }"

text \<open>Making \<open>cnt\<close> types of \<open>data_sz\<close> bytes visible.\<close>

definition add_btf_visible :: "u32 \<Rightarrow> u32 \<Rightarrow> btf_obj \<Rightarrow> btf_obj" where
  "add_btf_visible data_sz cnt b = upd_sec (\<lambda>s. s\<lparr>hdr := (hdr s)\<lparr>type_len := type_len (hdr s) + data_sz, str_off := str_off (hdr s) + data_sz\<rparr>,
     nr_types := nr_types s + cnt\<rparr>) b"

definition size_of_int :: "u32 \<Rightarrow> nat" where "size_of_int x = unat (scast x :: u64)"

definition btf__add_btf :: "allocs \<Rightarrow> (nat \<Rightarrow> allocs) \<Rightarrow> btf_obj \<Rightarrow> btf_obj \<Rightarrow> (int \<times> btf_obj) option" where
  "btf__add_btf ok oks b src =
     (if types_base (otys src) \<noteq> None then Some (- ENOTSUP, b)
      else do {
        (err, b) \<leftarrow> obj_ensure_modifiable (part 0 ok) b;
        if err \<noteq> 0 then Some (- ENOMEM, b)
        else do {
          let old_strs_len = str_len (hdr (own_sec b));
          let data_sz = type_len (hdr (own_sec src));
          let cnt = btf__type_cnt (otys src) - 1;
          case btf_add_type_mem (part 1 ok 0) b (size_of_int data_sz) of
            None \<Rightarrow> Some (- ENOMEM, b)
          | Some b \<Rightarrow>
              (case btf_add_type_offs_mem (part 1 ok 1) (own_sec b) (size_of_int cnt) of
                 None \<Rightarrow> Some (- ENOMEM, b)
               | Some s \<Rightarrow>
                   let b = upd_sec (\<lambda>_. s) b in
                   if \<not> part 1 ok 2 then Some (- ENOMEM, b)
                   else do {
                     let t = unat (type_len (hdr (own_sec b)));
                     b \<leftarrow> copy_types b t (types_data (own_sec src)) (size_of_int data_sz);
                     (err, (b, _)) \<leftarrow> add_btf_types oks src (unat (nr_types (own_sec b))) t (nat (sint cnt)) (b, Some hashmap__init);
                     if err \<noteq> 0 then map_option (Pair err) (add_btf_undo b old_strs_len (size_of_int data_sz))
                     else
                       let b = add_btf_visible data_sz cnt b
                       in Some (sint (start_id (own_sec b) + nr_types (own_sec b) - cnt), b)
                   })
        }
      })"


section \<open>The words of a copy\<close>

text \<open>The indices of the words of a type that are offsets of names, and of those that are type ids.\<close>

definition str_words :: "btf_kinds \<Rightarrow> nat \<Rightarrow> nat list" where
  "str_words k v = 0 # (if k \<in> {BTF_KIND_STRUCT, BTF_KIND_UNION, BTF_KIND_ENUM64} then map (\<lambda>i. 3 + 3 * i) [0..<v]
     else if k \<in> {BTF_KIND_ENUM, BTF_KIND_FUNC_PROTO} then map (\<lambda>i. 3 + 2 * i) [0..<v] else [])"

definition id_words :: "btf_kinds \<Rightarrow> nat \<Rightarrow> nat list" where
  "id_words k v = (if k \<in> {BTF_KIND_FWD, BTF_KIND_CONST, BTF_KIND_VOLATILE, BTF_KIND_RESTRICT, BTF_KIND_PTR, BTF_KIND_TYPEDEF,
       BTF_KIND_FUNC, BTF_KIND_VAR, BTF_KIND_DECL_TAG, BTF_KIND_TYPE_TAG} then [2]
     else if k = BTF_KIND_ARRAY then [3, 4]
     else if k \<in> {BTF_KIND_STRUCT, BTF_KIND_UNION} then map (\<lambda>i. 4 + 3 * i) [0..<v]
     else if k = BTF_KIND_FUNC_PROTO then 2 # map (\<lambda>i. 4 + 2 * i) [0..<v]
     else if k = BTF_KIND_DATASEC then map (\<lambda>i. 3 + 3 * i) [0..<v]
     else [])"

definition str_idx :: "u32 \<Rightarrow> nat list" where "str_idx info = str_words (info_kind info) (unat (BTF_INFO_VLEN info))"
definition id_idx :: "u32 \<Rightarrow> nat list" where "id_idx info = id_words (info_kind info) (unat (BTF_INFO_VLEN info))"

lemma idx_distinct: "distinct (str_idx info)" "distinct (id_idx info)" "Suc 0 \<notin> set (str_idx info)"
  by (auto simp: str_idx_def id_idx_def str_words_def id_words_def distinct_map inj_on_def)

lemma idx_disjoint: "set (str_idx info) \<inter> set (id_idx info) = {}" "Suc 0 \<notin> set (id_idx info)"
proof -
  have "3 + 3 * i \<noteq> 4 + 3 * j" "3 + 2 * i \<noteq> 4 + 2 * j" for i j :: nat by presburger+
  then show "set (str_idx info) \<inter> set (id_idx info) = {}" by (auto simp: str_idx_def id_idx_def str_words_def id_words_def)
  show "Suc 0 \<notin> set (id_idx info)" by (auto simp: id_idx_def id_words_def)
qed

lemma words_less: "0 \<le> kind_size k v \<Longrightarrow> j \<in> set (str_words k v) \<union> set (id_words k v) \<Longrightarrow> 4 * int j < kind_size k v"
  by (cases k) (auto simp: str_words_def id_words_def kind_size_def EINVAL_def)

lemma idx_less: "0 \<le> info_size info \<Longrightarrow> j \<in> set (str_idx info) \<union> set (id_idx info) \<Longrightarrow> 4 * int j < info_size info"
  unfolding info_size_kind str_idx_def id_idx_def by (rule words_less)

lemma visit_each_one: "visit_each visit [a] c = visit a c"
  by (cases "visit a c") auto

lemma visit_str_offs_words:
  assumes "\<And>c'. visit p c = Some (0, c') \<Longrightarrow> load32 (mem c') (p + 4) = Some info"
  shows "btf_type_visit_str_offs mem p visit c = visit_each visit (map (\<lambda>j. p + 4 * j) (str_idx info)) c"
proof (cases "visit p c")
  case (Some r)
  obtain err c' where r: "r = (err, c')" by (cases r)
  show ?thesis
  proof (cases "err = 0")
    case True
    then have "load32 (mem c') (p + 4) = Some info" using assms Some r by simp
    note f = type_at_fields [OF this]
    show ?thesis using Some r True f
      by (cases "info_kind info") (simp_all add: btf_type_visit_str_offs_def str_idx_def str_words_def fields_def comp_def algebra_simps)
  qed (use Some r in \<open>simp add: btf_type_visit_str_offs_def str_idx_def str_words_def\<close>)
qed (simp add: btf_type_visit_str_offs_def str_idx_def str_words_def)

lemma fields_words:
  "fields p 12 12 n = map (\<lambda>j. p + 4 * j) (map (\<lambda>i. 3 + 3 * i) [0..<n])" "fields p 12 8 n = map (\<lambda>j. p + 4 * j) (map (\<lambda>i. 3 + 2 * i) [0..<n])"
  "fields p 16 12 n = map (\<lambda>j. p + 4 * j) (map (\<lambda>i. 4 + 3 * i) [0..<n])" "fields p 16 8 n = map (\<lambda>j. p + 4 * j) (map (\<lambda>i. 4 + 2 * i) [0..<n])"
  by (simp_all add: fields_def comp_def algebra_simps)

lemma visit_type_ids_words:
  assumes "load32 (mem c) (p + 4) = Some info" and "0 \<le> info_size info"
  shows "btf_type_visit_type_ids mem p visit c = visit_each visit (map (\<lambda>j. p + 4 * j) (id_idx info)) c"
  using type_at_fields(1,2) [OF assms(1)] assms(2) visit_each_one [of visit "p + 8" c]
  unfolding btf_type_visit_type_ids_def fields_words info_size_kind
  by (cases "info_kind info") (simp_all add: id_idx_def id_words_def kind_size_def EINVAL_def del: map_map)

text \<open>Assigning to one of the words that lie in memory.\<close>

declare words_bytes_append [simp]

lemma store32_word:
  assumes "j < length ws"
  shows "store32 (x @ words_bytes ws @ z) (length x + 4 * j) v = Some (x @ words_bytes (ws[j := v]) @ z)"
proof -
  define ws1 ws2 where "ws1 = take j ws" and "ws2 = drop (Suc j) ws"
  have ws: "ws = ws1 @ ws ! j # ws2" "length ws1 = j" using assms by (simp_all add: ws1_def ws2_def id_take_nth_drop [symmetric])
  have u: "ws[j := v] = ws1 @ v # ws2" using ws by (metis list_update_length)
  let ?x = "x @ words_bytes ws1"
  have "store32 (?x @ le_bytes (ws ! j) @ words_bytes ws2 @ z) (length ?x) v = Some (?x @ le_bytes v @ words_bytes ws2 @ z)"
    by (subst store32_eq) simp_all
  then show ?thesis unfolding u by (subst ws(1)) (simp add: ws(2))
qed


section \<open>Rewriting a name\<close>

text \<open>\<open>fills b b'\<close>: of the types and their index only what lies behind the types of \<open>b\<close> has changed.\<close>

definition fills :: "btf_obj \<Rightarrow> btf_obj \<Rightarrow> bool" where
  "fills b b' \<longleftrightarrow> evolves b b' \<and> type_offs (own_sec b') = type_offs (own_sec b)"

lemma fills_trans: "fills b b' \<Longrightarrow> fills b' b'' \<Longrightarrow> fills b b''"
  using evolves_trans by (auto simp: fills_def)

lemma fills_refl: "built_ok b \<Longrightarrow> cap_ok (own_sec b) \<Longrightarrow> fills b b"
  by (simp add: fills_def evolves_def)

text \<open>The words \<open>ws\<close> lie behind the types, at the address \<open>length x\<close>.\<close>

definition behind :: "btf_obj \<Rightarrow> bytes \<Rightarrow> u32 list \<Rightarrow> bytes \<Rightarrow> bool" where
  "behind b x ws z \<longleftrightarrow> built_ok b \<and> cap_ok (own_sec b) \<and> types_data (own_sec b) = x @ words_bytes ws @ z \<and>
     unat (type_len (hdr (own_sec b))) \<le> length x"

lemma behind_fills: "behind b x ws z \<Longrightarrow> fills b b' \<Longrightarrow> types_data (own_sec b') = x @ words_bytes vs @ z \<Longrightarrow> behind b' x vs z"
  using evolves_facts [of b b'] by (simp add: behind_def fills_def)

lemma write_word:
  assumes "behind b x ws z" and "j < length ws"
  obtains b' where "write_types b (length x + 4 * j) [v] = Some b'" "fills b b'" "behind b' x (ws[j := v]) z" "ostrs b' = ostrs b"
proof -
  let ?d = "x @ words_bytes (ws[j := v]) @ z" and ?e = "unat (type_len (hdr (own_sec b)))"
  let ?b = "upd_sec (\<lambda>s. s\<lparr>types_data := ?d\<rparr>) b"
  have a: "built_ok b" "cap_ok (own_sec b)" "types_data (own_sec b) = x @ words_bytes ws @ z" "?e \<le> length x"
    using assms(1) by (simp_all add: behind_def)
  have w: "write_types b (length x + 4 * j) [v] = Some ?b" using a(3) store32_word [OF assms(2)] by (simp add: write_types_def)
  have st: "same_types (own_sec b) (own_sec ?b)" "cap_ok (own_sec ?b)" using a by (simp_all add: same_types_def cap_ok_def)
  have "built_ok ?b" by (rule built_okI [OF a(1) st(1)]) (use st a(1) in \<open>simp_all add: built_ok_def\<close>)
  then have f: "fills b ?b" using st by (simp add: fills_def evolves_def keeps_names_def)
  show ?thesis using that [OF w f] behind_fills [OF assms(1) f, of "ws[j := v]"] by simp
qed

lemma read_word: "behind b x ws z \<Longrightarrow> j < length ws \<Longrightarrow> load32 (types_data (own_sec b)) (length x + 4 * j) = Some (ws ! j)"
  using load32_words by (simp add: behind_def)

interpretation offs: hashmap_fns btf_dedup_identity_hash_fn btf_dedup_equal_fn
  by unfold_locales (auto simp: btf_dedup_equal_fn_def)

text \<open>The names of a source whose offset is in range, and what it means that a word names the same.\<close>

definition src_name :: "btf_obj \<Rightarrow> u32 \<Rightarrow> string option" where
  "src_name src w = (if w = 0 then None else Option.bind (btf__str_by_offset (ostrs src) (unat w)) (\<lambda>name. name))"

definition name_size :: "btf_obj \<Rightarrow> u32 \<Rightarrow> nat" where
  "name_size src w = (case src_name src w of None \<Rightarrow> 0 | Some s \<Rightarrow> length s + 1)"

definition name_ok :: "btf_obj \<Rightarrow> u32 \<Rightarrow> bool" where
  "name_ok src w \<longleftrightarrow> w \<noteq> 0 \<longrightarrow> (\<exists>s. src_name src w = Some s \<and> c_string s)"

definition same_name :: "btf_obj \<Rightarrow> btf_obj \<Rightarrow> u32 \<Rightarrow> u32 \<Rightarrow> bool" where
  "same_name src b w w' \<longleftrightarrow> (if w = 0 then w' = 0 else \<exists>s. src_name src w = Some s \<and> btf_knows (ostrs b) (unat w') s)"

lemma same_name_mono: "same_name src b w w' \<Longrightarrow> keeps_names b b' \<Longrightarrow> same_name src b' w w'"
  by (auto simp: same_name_def keeps_names_def split: if_splits)

text \<open>The map of string offsets has only right entries.\<close>

definition entry_ok :: "btf_obj \<Rightarrow> btf_obj \<Rightarrow> nat \<times> nat \<Rightarrow> bool" where
  "entry_ok src b e \<longleftrightarrow> (\<exists>w. fst e = unat w \<and> snd e < 2 ^ 31 \<and> w \<noteq> 0 \<and> same_name src b w (of_nat (snd e)))"

definition map_ok :: "btf_obj \<Rightarrow> btf_pipe \<Rightarrow> bool" where
  "map_ok src p \<longleftrightarrow> (\<forall>m. snd p = Some m \<longrightarrow> offs.inv m \<and> (\<forall>e \<in> set (entries m). entry_ok src (fst p) e))"

lemma map_ok_mono: "map_ok src (b, h) \<Longrightarrow> keeps_names b b' \<Longrightarrow> map_ok src (b', h)"
  using same_name_mono by (fastforce simp: map_ok_def entry_ok_def)

lemma map_ok_sz:
  assumes "map_ok src (b, Some m)"
  shows "sz m < 2 ^ 60"
proof -
  have i: "offs.inv m" "\<forall>e \<in> set (entries m). entry_ok src b e" using assms by (simp_all add: map_ok_def)
  have "count (mset (map fst (entries m))) k \<le> 1" for k
  proof -
    have "count (mset (map fst es)) k = size (offs.sel k (mset es))" for es :: "(nat \<times> nat) list"
      unfolding offs.sel_def by (induction es) (simp_all add: btf_dedup_equal_fn_def)
    then show ?thesis using i(1) by (simp add: offs.inv_def offs.uniq_def)
  qed
  then have "count (mset (map fst (entries m))) k = (if k \<in> set (map fst (entries m)) then 1 else 0)" for k
    by (metis One_nat_def count_eq_zero_iff le_Suc_eq le_zero_eq set_mset_mset)
  then have "distinct (map fst (entries m))" unfolding distinct_count_atmost_1 by blast
  then have "length (entries m) = card (fst ` set (entries m))" using distinct_card by fastforce
  also have "\<dots> \<le> card {..<(2 :: nat) ^ 32}"
    using i(2) unat_u32 by (intro card_mono) (auto simp: entry_ok_def)
  finally show ?thesis using i(1) by (simp add: offs.inv_def hashmap_ok_def)
qed


text \<open>One visit: the word becomes the offset of its name in the destination, and is left alone when resources run out.\<close>

definition short :: "(nat \<Rightarrow> allocs) \<Rightarrow> btf_obj \<Rightarrow> nat \<Rightarrow> bool" where
  "short oks b n \<longleftrightarrow> (\<exists>a i. \<not> oks a i) \<or> BTF_MAX_STR_OFFSET < hdr_str_len (ostrs b) + n"

lemma map_lookup:
  assumes "map_ok src (b, Some m)"
  shows "hashmap__find btf_dedup_identity_hash_fn btf_dedup_equal_fn m (unat w) = Some (offs.lookup m (unat w))"
    "offs.lookup m (unat w) = Some k \<Longrightarrow> w \<noteq> 0 \<and> k < 2 ^ 31 \<and> same_name src b w (of_nat k)"
proof -
  have i: "offs.inv m" "\<forall>e \<in> set (entries m). entry_ok src b e" using assms by (simp_all add: map_ok_def)
  show "hashmap__find btf_dedup_identity_hash_fn btf_dedup_equal_fn m (unat w) = Some (offs.lookup m (unat w))" by (rule offs.find_lookup [OF i(1)])
  assume "offs.lookup m (unat w) = Some k"
  then obtain e where e: "find (\<lambda>e. btf_dedup_equal_fn (fst e) (unat w)) (entries m) = Some e" "snd e = k" by (auto simp: offs.lookup_def)
  then have "e \<in> set (entries m)" "fst e = unat w" by (auto simp: find_Some_iff btf_dedup_equal_fn_def)
  with e(2) have "entry_ok src b (unat w, k)" using i(2) by (metis prod.collapse)
  then obtain w' where "unat w = unat w'" "k < 2 ^ 31" "w' \<noteq> 0" "same_name src b w' (of_nat k)" by (auto simp: entry_ok_def)
  moreover from this(1) have "w = w'" by (simp add: word_unat_eq_iff)
  ultimately show "w \<noteq> 0 \<and> k < 2 ^ 31 \<and> same_name src b w (of_nat k)" by simp
qed

lemma map_append:
  assumes h: "map_ok src (b, Some m)" and new: "offs.lookup m (unat w) = None" and e: "entry_ok src b (unat w, k)"
  obtains err m' where "hashmap__insert btf_dedup_identity_hash_fn btf_dedup_equal_fn ok m (unat w) k HASHMAP_APPEND = Some (err, None, m')"
    "map_ok src (b, Some m')" "err = 0 \<or> err = - ENOMEM \<and> ok \<noteq> (True, True)"
proof -
  have i: "offs.inv m" using h by (simp add: map_ok_def)
  have "offs.sel (unat w) (mset (entries m)) = {#}"
    using new unfolding offs.sel_empty_iff by (auto simp: offs.lookup_def find_None_iff)
  then obtain err m' where n: "hashmap_insert_new btf_dedup_identity_hash_fn ok m (unat w) k = Some (err, None, m')" "offs.inv m'"
    "err = 0 \<or> err = - ENOMEM \<and> ok \<noteq> (True, True)"
    "mset (entries m') = (if err = 0 then add_mset (unat w, k) (mset (entries m)) else mset (entries m))"
    using offs.insert_new [OF i map_ok_sz [OF h], where ok = ok and v = k] by blast
  have "set (entries m') \<subseteq> insert (unat w, k) (set (entries m))"
    using arg_cong [OF n(4), of set_mset] by (auto split: if_splits)
  then have "map_ok src (b, Some m')" using h e n(2) by (auto simp: map_ok_def)
  then show ?thesis using that n by (simp add: hashmap__insert_def)
qed

lemma append_map_cases:
  assumes h: "map_ok src (b, h)" and new: "\<And>m. h = Some m \<Longrightarrow> offs.lookup m (unat w) = None" and e: "entry_ok src b (unat w, k)"
  obtains err h' where "str_off_append ok h w (int k) = Some (err, h')"
    "map_ok src (b, h')" "err = 0 \<or> err = - ENOMEM \<and> ok \<noteq> (True, True)"
proof (cases h)
  case None
  then show ?thesis using that [of 0 None] h by (simp add: str_off_append_def)
next
  case (Some m)
  obtain err m' where "hashmap__insert btf_dedup_identity_hash_fn btf_dedup_equal_fn ok m (unat w) k HASHMAP_APPEND = Some (err, None, m')"
    "map_ok src (b, Some m')" "err = 0 \<or> err = - ENOMEM \<and> ok \<noteq> (True, True)"
    by (rule map_append [OF h [unfolded Some] new [OF Some] e])
  then show ?thesis using that [of err "Some m'"] Some by (simp add: str_off_append_def)
qed


text \<open>A name that is not in the map yet.\<close>

lemma rewrite_new:
  assumes "load32 (types_data (own_sec b)) a = Some w" and "map_ok src (b, h)" and "w \<noteq> 0" and "\<And>m. h = Some m \<Longrightarrow> offs.lookup m (unat w) = None"
    and "src_name src w = Some s"
  shows "btf_rewrite_str oks src a (b, h) = do {
      (off, dst) \<leftarrow> add_name (part 0 (oks a)) b s;
      if off < 0 then Some (off, (dst, h))
      else do {
        (err, str_off_map) \<leftarrow> str_off_append (part 1 (oks a) 0, part 1 (oks a) 1) h w off;
        if err \<noteq> 0 then Some (err, (dst, str_off_map))
        else do { dst \<leftarrow> write_types dst a [of_int off]; Some (0, (dst, str_off_map)) }
      }
    }"
proof -
  have "btf__str_by_offset (ostrs src) (unat w) = Some (Some s)"
    using assms(3,5) by (auto simp: src_name_def split: Option.bind_splits)
  moreover have "str_off_find h w = Some None" using assms(2,4) map_lookup(1) [of src b _ w] by (cases h) (simp_all add: str_off_find_def)
  ultimately show ?thesis using assms(1,3) by (simp add: btf_rewrite_str_def)
qed

lemma rewrite_new_cases:
  assumes a: "behind b x ws z" "j < length ws" and h: "map_ok src (b, h)" and s: "src_name src (ws ! j) = Some s" "c_string s"
    and new: "ws ! j \<noteq> 0" "\<And>m. h = Some m \<Longrightarrow> offs.lookup m (unat (ws ! j)) = None"
  obtains (fail) err b' h' where "btf_rewrite_str oks src (length x + 4 * j) (b, h) = Some (err, (b', h'))" "err < 0" "fills b b'"
      "short oks b (length s + 1)"
  | (copied) k b' h' where "btf_rewrite_str oks src (length x + 4 * j) (b, h) = Some (0, (b', h'))" "fills b b'"
      "behind b' x (ws[j := of_nat k]) z" "map_ok src (b', h')" "k < 2 ^ 31" "btf_knows (ostrs b') k s"
      "hdr_str_len (ostrs b') \<le> hdr_str_len (ostrs b) + length s + 1"
proof -
  let ?a = "length x + 4 * j" and ?w = "ws ! j"
  have ok: "built_ok b" "cap_ok (own_sec b)" using a(1) by (simp_all add: behind_def)
  note e = rewrite_new [OF read_word [OF a] h new s(1), of oks]
  show ?thesis
  proof (rule add_name_cases [OF ok s(2), where al = "part 0 (oks ?a)"])
    fix off b' assume f: "add_name (part 0 (oks ?a)) b s = Some (off, b')" "off < 0" "evolves b b'" "type_offs (own_sec b') = type_offs (own_sec b)"
      "(\<exists>n. \<not> part 0 (oks ?a) n) \<or> BTF_MAX_STR_OFFSET < hdr_str_len (ostrs b) + length s + 1"
    then have "short oks b (length s + 1)" by (auto simp: short_def part_def)
    then show ?thesis using fail [of off b' h] f e by (simp add: fills_def)
  next
    fix k b1 assume 1: "add_name (part 0 (oks ?a)) b s = Some (int k, b1)" "k < 2 ^ 31" "evolves b b1" "btf_knows (ostrs b1) k s"
      "types_data (own_sec b1) = types_data (own_sec b)" "type_offs (own_sec b1) = type_offs (own_sec b)"
      "hdr_str_len (ostrs b1) \<le> hdr_str_len (ostrs b) + length s + 1"
    have f1: "fills b b1" "keeps_names b b1" using 1 by (simp_all add: fills_def evolves_def)
    have b1: "behind b1 x ws z" using behind_fills [OF a(1) f1(1)] 1(5) a(1) by (simp add: behind_def)
    have u: "unat (of_nat k :: u32) = k" using 1(2) by (intro unat_of_nat_u32) simp
    have en: "entry_ok src b1 (unat ?w, k)" using new(1) s(1) 1(2,4) u by (auto simp: entry_ok_def same_name_def)
    obtain err h' where m: "str_off_append (part 1 (oks ?a) 0, part 1 (oks ?a) 1) h ?w (int k) = Some (err, h')"
      "map_ok src (b1, h')" "err = 0 \<or> err = - ENOMEM \<and> (part 1 (oks ?a) 0, part 1 (oks ?a) 1) \<noteq> (True, True)"
      by (rule append_map_cases [OF map_ok_mono [OF h f1(2)] new(2) en])
    show ?thesis
    proof (cases "err = 0")
      case False
      then have "short oks b (length s + 1)" using m(3) by (auto simp: short_def part_def)
      then show ?thesis using fail [of err b1 h'] e 1(1) m(1,3) False f1(1) by (simp add: ENOMEM_def)
    next
      case True
      obtain b' where b': "write_types b1 ?a [of_nat k] = Some b'" "fills b1 b'" "behind b' x (ws[j := of_nat k]) z" "ostrs b' = ostrs b1"
        by (rule write_word [OF b1 a(2)])
      have kn: "keeps_names b1 b'" using b'(4) by (simp add: keeps_names_def)
      show ?thesis using copied [of b' h' k] e 1 m b' True fills_trans [OF f1(1) b'(2)] map_ok_mono [OF m(2) kn] by simp
    qed
  qed
qed

lemma rewrite_str_cases:
  assumes a: "behind b x ws z" "j < length ws" and h: "map_ok src (b, h)" and w: "name_ok src (ws ! j)"
  obtains (fail) err b' h' where "btf_rewrite_str oks src (length x + 4 * j) (b, h) = Some (err, (b', h'))" "err < 0" "fills b b'"
      "short oks b (name_size src (ws ! j))"
  | (copied) v b' h' where "btf_rewrite_str oks src (length x + 4 * j) (b, h) = Some (0, (b', h'))" "fills b b'"
      "behind b' x (ws[j := v]) z" "map_ok src (b', h')" "same_name src b' (ws ! j) v"
      "hdr_str_len (ostrs b') \<le> hdr_str_len (ostrs b) + name_size src (ws ! j)"
proof -
  let ?a = "length x + 4 * j" and ?w = "ws ! j"
  note ld = read_word [OF a]
  consider (zero) "?w = 0" | (found) m k where "h = Some m" "offs.lookup m (unat ?w) = Some k"
    | (new) "?w \<noteq> 0" "\<And>m. h = Some m \<Longrightarrow> offs.lookup m (unat ?w) = None" by (metis not_None_eq)
  then show ?thesis
  proof cases
    case zero
    then have u: "ws[j := 0] = ws" by (metis list_update_id)
    have "fills b b" using a(1) fills_refl by (simp add: behind_def)
    then show ?thesis using copied [of b h 0] u zero a(1) h ld by (simp add: btf_rewrite_str_def same_name_def)
  next
    case found
    note m = map_lookup [OF h [unfolded found(1)], of ?w]
    obtain b' where b': "write_types b ?a [of_nat k] = Some b'" "fills b b'" "behind b' x (ws[j := of_nat k]) z" "ostrs b' = ostrs b"
      by (rule write_word [OF a])
    have kn: "keeps_names b b'" using b'(4) by (simp add: keeps_names_def)
    show ?thesis by (rule copied [of b' h "of_nat k"])
      (use b' m found ld same_name_mono [OF _ kn] map_ok_mono [OF h kn] in \<open>simp_all add: btf_rewrite_str_def str_off_find_def\<close>)
  next
    case new
    then obtain s where s: "src_name src ?w = Some s" "c_string s" using w by (auto simp: name_ok_def)
    have n: "name_size src ?w = length s + 1" using s(1) by (simp add: name_size_def)
    show ?thesis
    proof (rule rewrite_new_cases [OF a h s new, where oks = oks])
      fix err b' h' assume "btf_rewrite_str oks src ?a (b, h) = Some (err, (b', h'))" "err < 0" "fills b b'" "short oks b (length s + 1)"
      then show ?thesis using fail n by simp
    next
      fix k b' h' assume k: "btf_rewrite_str oks src ?a (b, h) = Some (0, (b', h'))" "fills b b'"
        "behind b' x (ws[j := of_nat k]) z" "map_ok src (b', h')" "k < 2 ^ 31" "btf_knows (ostrs b') k s"
        "hdr_str_len (ostrs b') \<le> hdr_str_len (ostrs b) + length s + 1"
      have "unat (of_nat k :: u32) = k" using k(5) by (intro unat_of_nat_u32) simp
      then have "same_name src b' ?w (of_nat k)" using new(1) s(1) k(6) by (simp add: same_name_def)
      then show ?thesis using copied [of b' h' "of_nat k"] k n by simp
    qed
  qed
qed


section \<open>Copying the words of a type\<close>

text \<open>\<open>renames\<close>: the words at the indices \<open>js\<close> name the same, the others are equal.\<close>

definition renames :: "btf_obj \<Rightarrow> btf_obj \<Rightarrow> nat list \<Rightarrow> u32 list \<Rightarrow> u32 list \<Rightarrow> bool" where
  "renames src b js ws ws' \<longleftrightarrow> length ws' = length ws \<and>
     (\<forall>j < length ws. if j \<in> set js then same_name src b (ws ! j) (ws' ! j) else ws' ! j = ws ! j)"

definition names_size :: "btf_obj \<Rightarrow> nat list \<Rightarrow> u32 list \<Rightarrow> nat" where
  "names_size src js ws = sum_list (map (\<lambda>j. name_size src (ws ! j)) js)"

lemma renames_mono: "renames src b js ws ws' \<Longrightarrow> keeps_names b b' \<Longrightarrow> renames src b' js ws ws'"
  using same_name_mono by (fastforce simp: renames_def)

lemma nth_update_other: "i \<in> set js \<Longrightarrow> j \<notin> set js \<Longrightarrow> ws[j := v] ! i = ws ! i"
  by (metis nth_list_update_neq)

lemma names_size_update: "j \<notin> set js \<Longrightarrow> names_size src js (ws[j := v]) = names_size src js ws"
  unfolding names_size_def by (intro arg_cong [of _ _ sum_list] map_cong) (simp_all add: nth_update_other)

lemma renames_step:
  assumes "renames src b js (ws[j := v]) ws'" and "j < length ws" "j \<notin> set js" and "same_name src b (ws ! j) v"
  shows "renames src b (j # js) ws ws'"
  using assms nth_update_other [OF _ assms(3), of _ ws v] by (auto simp: renames_def nth_list_update)

lemma fills_facts: "fills b b' \<Longrightarrow> keeps_names b b' \<and> evolves b b'"
  by (simp add: fills_def evolves_def)

lemma rewrite_names:
  assumes "behind b x ws z" and "map_ok src (b, h)" and "distinct js" and "\<forall>j \<in> set js. j < length ws \<and> name_ok src (ws ! j)"
  shows "\<exists>err b' h'. visit_each (btf_rewrite_str oks src) (map (\<lambda>j. length x + 4 * j) js) (b, h) = Some (err, (b', h')) \<and> fills b b' \<and>
    (if err = 0 then (\<exists>ws'. behind b' x ws' z \<and> renames src b' js ws ws') \<and> map_ok src (b', h') \<and>
        hdr_str_len (ostrs b') \<le> hdr_str_len (ostrs b) + names_size src js ws
     else err < 0 \<and> short oks b (names_size src js ws))"
  using assms
proof (induction js arbitrary: b h ws)
  case Nil
  then show ?case using fills_refl by (auto simp: behind_def renames_def)
next
  case (Cons j js)
  have j: "j < length ws" "name_ok src (ws ! j)" "j \<notin> set js" "distinct js" using Cons.prems(3,4) by simp_all
  have n: "names_size src (j # js) ws = name_size src (ws ! j) + names_size src js ws" by (simp add: names_size_def)
  show ?case
  proof (rule rewrite_str_cases [OF Cons.prems(1) j(1) Cons.prems(2) j(2), where oks = oks])
    fix err b' h' assume "btf_rewrite_str oks src (length x + 4 * j) (b, h) = Some (err, (b', h'))" "err < 0" "fills b b'"
      "short oks b (name_size src (ws ! j))"
    then show ?thesis using n by (auto simp: short_def)
  next
    fix v b1 h1 assume 1: "btf_rewrite_str oks src (length x + 4 * j) (b, h) = Some (0, (b1, h1))" "fills b b1"
      "behind b1 x (ws[j := v]) z" "map_ok src (b1, h1)" "same_name src b1 (ws ! j) v"
      "hdr_str_len (ostrs b1) \<le> hdr_str_len (ostrs b) + name_size src (ws ! j)"
    have "\<forall>i \<in> set js. i < length (ws[j := v]) \<and> name_ok src (ws[j := v] ! i)" using Cons.prems(4) nth_update_other [OF _ j(3), of _ ws v] by auto
    then obtain err b' h' where 2: "visit_each (btf_rewrite_str oks src) (map (\<lambda>j. length x + 4 * j) js) (b1, h1) = Some (err, (b', h'))" "fills b1 b'"
      "if err = 0 then (\<exists>ws'. behind b' x ws' z \<and> renames src b' js (ws[j := v]) ws') \<and> map_ok src (b', h') \<and>
          hdr_str_len (ostrs b') \<le> hdr_str_len (ostrs b1) + names_size src js (ws[j := v])
       else err < 0 \<and> short oks b1 (names_size src js (ws[j := v]))"
      using Cons.IH [OF 1(3,4) j(4)] by blast
    have e: "visit_each (btf_rewrite_str oks src) (map (\<lambda>j. length x + 4 * j) (j # js)) (b, h) = Some (err, (b', h'))" using 1(1) 2(1) by simp
    have f: "fills b b'" "keeps_names b1 b'" using fills_trans [OF 1(2) 2(2)] fills_facts [OF 2(2)] by simp_all
    note s = same_name_mono [OF 1(5) f(2)]
    show ?thesis
    proof (cases "err = 0")
      case True
      then obtain ws' where "behind b' x ws' z" "renames src b' js (ws[j := v]) ws'" using 2(3) by auto
      then show ?thesis using e f(1) True 2(3) renames_step [OF _ j(1,3) s] n 1(6) names_size_update [OF j(3)] by fastforce
    next
      case False
      then have "short oks b (names_size src (j # js) ws)" using 2(3) n 1(6) names_size_update [OF j(3)] by (auto simp: short_def)
      then show ?thesis using e f(1) False 2(3) by auto
    qed
  qed
qed

text \<open>Shifting the type ids.\<close>

definition shifts :: "u32 \<Rightarrow> nat list \<Rightarrow> u32 list \<Rightarrow> u32 list \<Rightarrow> bool" where
  "shifts d js ws ws' \<longleftrightarrow> length ws' = length ws \<and>
     (\<forall>j < length ws. ws' ! j = (if j \<in> set js \<and> ws ! j \<noteq> 0 then ws ! j + d else ws ! j))"

lemma rewrite_type_id:
  assumes "behind b x ws z" and "j < length ws"
  obtains b' where "btf_rewrite_type_ids (length x + 4 * j) b = Some (0, b')" "fills b b'" "ostrs b' = ostrs b"
    "behind b' x (ws[j := (if ws ! j = 0 then 0 else ws ! j + nr_types (own_sec b))]) z"
proof (cases "ws ! j = 0")
  case True
  then have "ws[j := 0] = ws" by (metis list_update_id)
  then show ?thesis using that [of b] True assms(1) read_word [OF assms] fills_refl by (simp add: btf_rewrite_type_ids_def behind_def)
next
  case False
  obtain b' where "write_types b (length x + 4 * j) [ws ! j + nr_types (own_sec b)] = Some b'" "fills b b'"
      "behind b' x (ws[j := ws ! j + nr_types (own_sec b)]) z" "ostrs b' = ostrs b"
    by (rule write_word [OF assms])
  moreover have "start_id (own_sec b) = 1" using assms(1) by (simp add: behind_def built_ok_def)
  ultimately show ?thesis using that [of b'] False read_word [OF assms] by (simp add: btf_rewrite_type_ids_def)
qed

lemma rewrite_ids:
  assumes "behind b x ws z" and "distinct js" and "\<forall>j \<in> set js. j < length ws"
  shows "\<exists>b' ws'. visit_each btf_rewrite_type_ids (map (\<lambda>j. length x + 4 * j) js) b = Some (0, b') \<and> fills b b' \<and> ostrs b' = ostrs b \<and>
    behind b' x ws' z \<and> shifts (nr_types (own_sec b)) js ws ws'"
  using assms
proof (induction js arbitrary: b ws)
  case Nil
  then show ?case using fills_refl by (auto simp: behind_def shifts_def)
next
  case (Cons j js)
  let ?v = "if ws ! j = 0 then 0 else ws ! j + nr_types (own_sec b)"
  have j: "j < length ws" "j \<notin> set js" "distinct js" using Cons.prems by simp_all
  obtain b1 where 1: "btf_rewrite_type_ids (length x + 4 * j) b = Some (0, b1)" "fills b b1" "ostrs b1 = ostrs b" "behind b1 x (ws[j := ?v]) z"
    by (rule rewrite_type_id [OF Cons.prems(1) j(1)])
  have nr: "nr_types (own_sec b1) = nr_types (own_sec b)"
    using evolves_facts(6) [of b b1] 1(2) Cons.prems(1) by (simp add: fills_def behind_def)
  have "\<forall>i \<in> set js. i < length (ws[j := ?v])" using Cons.prems(3) by simp
  from Cons.IH [OF 1(4) j(3) this] obtain b' ws' where 2: "visit_each btf_rewrite_type_ids (map (\<lambda>j. length x + 4 * j) js) b1 = Some (0, b')"
    "fills b1 b'" "ostrs b' = ostrs b1" "behind b' x ws' z" "shifts (nr_types (own_sec b1)) js (ws[j := ?v]) ws'" by blast
  have "shifts (nr_types (own_sec b)) (j # js) ws ws'" using 2(5) j(1,2) unfolding nr by (auto simp: shifts_def nth_list_update)
  then show ?case using 1 2(1-4) fills_trans [OF 1(2) 2(2)] by auto
qed


text \<open>The words in the bytes of a type.\<close>

fun bytes_words :: "bytes \<Rightarrow> u32 list" where
  "bytes_words (a # b # c # d # m) = le32 a b c d # bytes_words m"
| "bytes_words _ = []"

lemma le_bytes_le32: "le_bytes (le32 a b c d) = [a, b, c, d]"
  unfolding le32_def le_bytes_def le32_bytes by simp

lemma words_bytes_words: "4 dvd length m \<Longrightarrow> words_bytes (bytes_words m) = m"
proof (induction m rule: bytes_words.induct)
  case (1 a b c d m)
  then have "4 dvd length m" by simp presburger
  then show ?case using 1 by (simp add: le_bytes_le32)
qed (simp_all, presburger+)

lemma bytes_words_bytes [simp]: "bytes_words (words_bytes ws) = ws"
  by (induction ws) (simp_all add: le_bytes_def le32_def word32_bytes)

definition type_shape :: "u32 list \<Rightarrow> bool" where
  "type_shape ws \<longleftrightarrow> info_size (ws ! 1) = 4 * int (length ws)"

definition names_ok :: "btf_obj \<Rightarrow> u32 list \<Rightarrow> bool" where
  "names_ok src ws \<longleftrightarrow> (\<forall>j \<in> set (str_idx (ws ! 1)). name_ok src (ws ! j))"

lemma type_shape_length: "type_shape ws \<Longrightarrow> 3 \<le> length ws"
  using info_size_bounds(2) [of "ws ! 1"] by (simp add: type_shape_def)

lemma type_shape_idx: "type_shape ws \<Longrightarrow> j \<in> set (str_idx (ws ! 1)) \<union> set (id_idx (ws ! 1)) \<Longrightarrow> j < length ws"
  using idx_less [of "ws ! 1" j] by (simp add: type_shape_def)

lemma tile_shape:
  assumes "btf_type_size (At m p) = Some n" "0 \<le> n" "p + nat n \<le> length m"
  shows "type_shape (bytes_words (tile m p))" "words_bytes (bytes_words (tile m p)) = tile m p" "4 * length (bytes_words (tile m p)) = nat n"
proof -
  let ?ws = "bytes_words (tile m p)"
  have l: "length (tile m p) = nat n" using assms by (simp add: tile_def)
  obtain info where info: "load32 m (p + 4) = Some info" "n = info_size info" using assms(1) by (auto simp: btf_type_size_info)
  have "4 dvd n" unfolding info(2) info_size_kind using assms(2) info(2) info_size_kind [of info]
    by (auto simp: kind_size_def EINVAL_def split: if_splits)
  then have "4 dvd nat n" using assms(2) by (auto simp: nat_mult_distrib elim!: dvdE)
  then show w: "words_bytes ?ws = tile m p" using l by (intro words_bytes_words) simp
  then have lw: "4 * length ?ws = nat n" using l words_bytes_length [of ?ws] by simp
  then show "4 * length ?ws = nat n" .
  have "1 < length ?ws" using btf_type_size_12 [OF assms(1,2)] lw by linarith
  then have "load32 m (p + 4) = Some (?ws ! 1)" using tile_words [OF w [symmetric] assms, of 1] by simp
  then show "type_shape ?ws" using info lw assms(2) by (simp add: type_shape_def)
qed

lemma visit_names:
  assumes b: "behind b x ws z" and h: "map_ok src (b, h)" and ws: "type_shape ws" "names_ok src ws"
  shows "\<exists>err b' h'. btf_type_visit_str_offs pipe_mem (length x) (btf_rewrite_str oks src) (b, h) = Some (err, (b', h')) \<and> fills b b' \<and>
    (if err = 0 then (\<exists>ws'. behind b' x ws' z \<and> renames src b' (str_idx (ws ! 1)) ws ws') \<and> map_ok src (b', h') \<and>
        hdr_str_len (ostrs b') \<le> hdr_str_len (ostrs b) + names_size src (str_idx (ws ! 1)) ws
     else err < 0 \<and> short oks b (names_size src (str_idx (ws ! 1)) ws))"
proof -
  let ?js = "str_idx (ws ! 1)"
  have l: "0 < length ws" "1 < length ws" using type_shape_length [OF ws(1)] by linarith+
  have w0: "name_ok src (ws ! 0)" using ws(2) by (simp add: names_ok_def str_idx_def str_words_def)
  have "load32 (pipe_mem c) (length x + 4) = Some (ws ! 1)" if "btf_rewrite_str oks src (length x) (b, h) = Some (0, c)" for c
  proof (rule rewrite_str_cases [OF b l(1) h w0, where oks = oks])
    fix v b' h' assume "btf_rewrite_str oks src (length x + 4 * 0) (b, h) = Some (0, (b', h'))" "behind b' x (ws[0 := v]) z"
    then show ?thesis using that read_word [of b' x "ws[0 := v]" z 1] l by (simp add: pipe_mem_def)
  qed (use that in simp)
  then have "btf_type_visit_str_offs pipe_mem (length x) (btf_rewrite_str oks src) (b, h) =
      visit_each (btf_rewrite_str oks src) (map (\<lambda>j. length x + 4 * j) ?js) (b, h)"
    by (rule visit_str_offs_words)
  moreover have "\<forall>j \<in> set ?js. j < length ws \<and> name_ok src (ws ! j)" using type_shape_idx [OF ws(1)] ws(2) by (simp add: names_ok_def)
  ultimately show ?thesis using rewrite_names [OF b h idx_distinct(1), of "ws ! 1" oks] by metis
qed

lemma copy_behind:
  assumes b: "built_ok b" "cap_ok (own_sec b)" and n: "take n m = words_bytes ws" "n \<le> length m"
    and room: "unat (type_len (hdr (own_sec b))) + n \<le> length (types_data (own_sec b))"
  obtains b' x z where "copy_types b (unat (type_len (hdr (own_sec b)))) m n = Some b'" "fills b b'" "ostrs b' = ostrs b"
    "behind b' x ws z" "length x = unat (type_len (hdr (own_sec b)))"
proof -
  let ?e = "unat (type_len (hdr (own_sec b)))"
  have l: "n = 4 * length ws" using arg_cong [OF n(1), of length] n(2) by simp
  have ev: "evolves b b" using b by (simp add: evolves_def)
  have r: "?e + 4 * length ws \<le> length (types_data (own_sec b))" using room l by simp
  have e: "copy_types b ?e m n = write_types b ?e ws"
    using store_words_eq [OF r] n room l by (simp add: copy_types_def write_types_def memcpy_def)
  obtain b' x z where b': "write_types b ?e ws = Some b'" "evolves b b'" "ostrs b' = ostrs b"
    "types_data (own_sec b') = x @ words_bytes ws @ z" "length x = unat (type_len (hdr (own_sec b')))"
    "own_sec b' = (own_sec b)\<lparr>types_data := x @ words_bytes ws @ z\<rparr>"
    by (rule write_types_behind [OF ev b(1) r])
  have f: "fills b b'" using b'(2,6) by (simp add: fills_def)
  have "behind b' x ws z" using b' evolves_facts(1,2) [OF b'(2) b(1)] by (simp add: behind_def)
  then show ?thesis using that [OF _ f b'(3)] e b'(1,5,6) by simp
qed


section \<open>Copying one type\<close>

lemma renames_shape:
  assumes "renames src b (str_idx (ws ! 1)) ws ws'" and "type_shape ws"
  shows "ws' ! 1 = ws ! 1" "type_shape ws'" "length ws' = length ws"
proof -
  have "1 < length ws" using type_shape_length [OF assms(2)] by linarith
  then show "ws' ! 1 = ws ! 1" using assms(1) idx_distinct(3) by (auto simp: renames_def)
  then show "type_shape ws'" "length ws' = length ws" using assms by (simp_all add: type_shape_def renames_def)
qed

text \<open>Memory for \<open>n\<close> more bytes of types, filled with the words \<open>ws\<close>.\<close>

definition no_room :: "allocs \<Rightarrow> (nat \<Rightarrow> allocs) \<Rightarrow> btf_obj \<Rightarrow> nat \<Rightarrow> nat \<Rightarrow> bool" where
  "no_room ok oks b n names \<longleftrightarrow> (\<exists>i. \<not> ok i) \<or> UINT32_MAX < unat (type_len (hdr (own_sec b))) + n \<or> short oks b names"

lemma add_mem_cases:
  assumes b: "built_ok b" and n: "n < 2 ^ 32"
  obtains (unmodifiable) err where "obj_ensure_modifiable (part 0 ok) b = Some (err, b)" "err \<noteq> 0" "no_room ok oks b n names"
  | (null) b1 where "obj_ensure_modifiable (part 0 ok) b = Some (0, b1)" "evolves b b1" "btf_add_type_mem (part 1 ok 0) b1 n = None" "no_room ok oks b n names"
  | (room) b1 b2 where "obj_ensure_modifiable (part 0 ok) b = Some (0, b1)" "btf_add_type_mem (part 1 ok 0) b1 n = Some b2" "evolves b b2"
      "evolves b b1" "unat (type_len (hdr (own_sec b2))) + n \<le> length (types_data (own_sec b2))" "hdr_str_len (ostrs b2) = hdr_str_len (ostrs b)"
proof (rule obj_ensure_modifiable_cases [OF b, of "part 0 ok"])
  fix err assume "obj_ensure_modifiable (part 0 ok) b = Some (err, b)" "err \<noteq> 0" "\<exists>n. \<not> part 0 ok n"
  then show ?thesis using unmodifiable [of err] by (auto simp: no_room_def part_def)
next
  fix b1 assume 1: "obj_ensure_modifiable (part 0 ok) b = Some (0, b1)" "evolves b b1" "hdr_str_len (ostrs b1) = hdr_str_len (ostrs b)"
  note f1 = evolves_facts [OF 1(2) b]
  show ?thesis
  proof (rule btf_add_type_mem_cases [OF f1(1,2) n, of "part 1 ok 0"])
    assume "btf_add_type_mem (part 1 ok 0) b1 n = None" "\<not> part 1 ok 0 \<or> UINT32_MAX < unat (type_len (hdr (own_sec b1))) + n"
    then show ?thesis using null [of b1] 1 f1(5) by (auto simp: no_room_def part_def)
  next
    fix b2 assume 2: "btf_add_type_mem (part 1 ok 0) b1 n = Some b2" "evolves b1 b2" "ostrs b2 = ostrs b1"
      "unat (type_len (hdr (own_sec b1))) + n \<le> length (types_data (own_sec b2))"
    show ?thesis using room [OF 1(1) 2(1) evolves_trans [OF 1(2) 2(2)] 1(2)] 2(3,4) 1(3) evolves_facts(5) [OF 2(2) f1(1)] by simp
  qed
qed

lemma copy_rename:
  assumes b: "built_ok b" "cap_ok (own_sec b)" and n: "take n m = words_bytes ws" "n \<le> length m"
    and room: "unat (type_len (hdr (own_sec b))) + n \<le> length (types_data (own_sec b))" and ws: "type_shape ws" "names_ok src ws"
  obtains b1 b2 h x z err where "copy_types b (unat (type_len (hdr (own_sec b)))) m n = Some b1" "length x = unat (type_len (hdr (own_sec b)))"
    "btf_type_visit_str_offs pipe_mem (unat (type_len (hdr (own_sec b)))) (btf_rewrite_str oks src) (b1, None) = Some (err, (b2, h))" "fills b b2"
    "if err = 0 then \<exists>ws'. behind b2 x ws' z \<and> renames src b2 (str_idx (ws ! 1)) ws ws' else err < 0 \<and> short oks b (names_size src (str_idx (ws ! 1)) ws)"
proof -
  obtain b1 x z where 1: "copy_types b (unat (type_len (hdr (own_sec b)))) m n = Some b1" "fills b b1" "ostrs b1 = ostrs b"
    "behind b1 x ws z" "length x = unat (type_len (hdr (own_sec b)))" by (rule copy_behind [OF b n room])
  have h: "map_ok src (b1, None)" by (simp add: map_ok_def)
  obtain err b2 h' where 2: "btf_type_visit_str_offs pipe_mem (length x) (btf_rewrite_str oks src) (b1, None) = Some (err, (b2, h'))" "fills b1 b2"
    "if err = 0 then (\<exists>ws'. behind b2 x ws' z \<and> renames src b2 (str_idx (ws ! 1)) ws ws') \<and> map_ok src (b2, h') \<and>
        hdr_str_len (ostrs b2) \<le> hdr_str_len (ostrs b1) + names_size src (str_idx (ws ! 1)) ws
     else err < 0 \<and> short oks b1 (names_size src (str_idx (ws ! 1)) ws)"
    using visit_names [OF 1(4) h ws, of oks] by blast
  show ?thesis by (rule that [OF 1(1,5) 2(1) [unfolded 1(5)] fills_trans [OF 1(2) 2(2)]]) (use 2(3) 1(3) in \<open>auto simp: short_def split: if_splits\<close>)
qed

lemma add_type_cases:
  assumes b: "built_ok b" and t: "btf_type_size (At m p) = Some n" "0 \<le> n" "p + nat n \<le> length m"
    and ws: "ws = bytes_words (tile m p)" "names_ok src ws"
  obtains (fail) e b' where "btf__add_type ok oks b src (At m p) = Some (e, b')" "e < 0" "built_ok b'" "abs_types b' = abs_types b" "keeps_names b b'"
      "no_room ok oks b (4 * length ws) (names_size src (str_idx (ws ! 1)) ws)"
  | (added) ws' b' where "btf__add_type ok oks b src (At m p) = Some (int (unat (nr_types (own_sec b))) + 1, b')" "built_ok b'"
      "abs_types b' = abs_types b @ [words_bytes ws']" "keeps_names b b'" "renames src b' (str_idx (ws ! 1)) ws ws'"
proof -
  let ?nm = "names_size src (str_idx (ws ! 1)) ws" and ?T = "btf__add_type ok oks b src (At m p)"
  note sh = tile_shape [OF t, folded ws(1)]
  have n: "nat n < 2 ^ 32" using sh(1,3) info_size_bounds(1) [of "ws ! 1"] by (simp add: type_shape_def)
  have src: "take (nat n) (drop p m) = words_bytes ws" "nat n \<le> length (drop p m)" using sh(2) t by (simp_all add: tile_def)
  show ?thesis
  proof (rule add_mem_cases [OF b n, where ok = ok and oks = oks and names = ?nm])
    fix err assume "obj_ensure_modifiable (part 0 ok) b = Some (err, b)" "err \<noteq> 0" "no_room ok oks b (nat n) ?nm"
    then show ?thesis using fail [of "- ENOMEM" b] b t(1,2) sh(3) by (simp add: btf__add_type_def ENOMEM_def)
  next
    fix b1 assume 1: "obj_ensure_modifiable (part 0 ok) b = Some (0, b1)" "evolves b b1" "btf_add_type_mem (part 1 ok 0) b1 (nat n) = None"
      "no_room ok oks b (nat n) ?nm"
    then show ?thesis using fail [of "- ENOMEM" b1] t(1,2) sh(3) evolves_facts [OF 1(2) b] by (simp add: btf__add_type_def ENOMEM_def)
  next
    fix b1 b2 assume 2: "obj_ensure_modifiable (part 0 ok) b = Some (0, b1)" "btf_add_type_mem (part 1 ok 0) b1 (nat n) = Some b2" "evolves b b2"
      "unat (type_len (hdr (own_sec b2))) + nat n \<le> length (types_data (own_sec b2))" "hdr_str_len (ostrs b2) = hdr_str_len (ostrs b)"
    note f2 = evolves_facts [OF 2(3) b]
    obtain b3 b4 h x z err where 3: "copy_types b2 (unat (type_len (hdr (own_sec b2)))) (drop p m) (nat n) = Some b3" "length x = unat (type_len (hdr (own_sec b2)))"
      "btf_type_visit_str_offs pipe_mem (unat (type_len (hdr (own_sec b2)))) (btf_rewrite_str oks src) (b3, None) = Some (err, (b4, h))" "fills b2 b4"
      "if err = 0 then \<exists>ws'. behind b4 x ws' z \<and> renames src b4 (str_idx (ws ! 1)) ws ws' else err < 0 \<and> short oks b2 ?nm"
      by (rule copy_rename [OF f2(1,2) src 2(4) sh(1) ws(2), where oks = oks])
    have e: "?T = (if err \<noteq> 0 then Some (err, b4) else btf_commit_type (part 2 ok 0) b4 (nat n))"
      using t(1,2) 2(1,2) 3(1,3) by (simp add: btf__add_type_def Let_def)
    have ev: "evolves b b4" using 2(3) 3(4) evolves_trans by (auto simp: fills_def)
    note f4 = evolves_facts [OF ev b]
    show ?thesis
    proof (cases "err = 0")
      case False
      then show ?thesis using fail [of err b4] e f4 3(5) 2(5) by (simp add: no_room_def short_def)
    next
      case True
      then obtain ws' where w: "behind b4 x ws' z" "renames src b4 (str_idx (ws ! 1)) ws ws'" using 3(5) by auto
      note rs = renames_shape [OF w(2) sh(1)]
      have c: "4 * length ws' = nat (info_size (ws' ! 1))" "3 \<le> length ws'" using rs(2) type_shape_length by (simp_all add: type_shape_def)
      have d: "types_data (own_sec b4) = x @ words_bytes ws' @ z" "length x = unat (type_len (hdr (own_sec b4)))"
        using w(1) 3(2) f4(5) f2(5) by (simp_all add: behind_def)
      have e4: "?T = btf_commit_type (part 2 ok 0) b4 (4 * length ws')" using e True rs(3) sh(3) by simp
      show ?thesis
      proof (rule btf_commit_type_cases [OF f4(1,2) c(1) refl c(2) d, where ok = "part 2 ok 0"])
        assume "btf_commit_type (part 2 ok 0) b4 (4 * length ws') = Some (- ENOMEM, b4)" "\<not> part 2 ok 0"
        then show ?thesis using fail [of "- ENOMEM" b4] e4 f4 by (auto simp: no_room_def part_def ENOMEM_def)
      next
        fix b5 assume 5: "btf_commit_type (part 2 ok 0) b4 (4 * length ws') = Some (int (unat (nr_types (own_sec b4))) + 1, b5)" "built_ok b5"
          "abs_types b5 = abs_types b4 @ [words_bytes ws']" "ostrs b5 = ostrs b4"
        have "keeps_names b4 b5" using 5(4) by (simp add: keeps_names_def)
        then show ?thesis using added [of b5 ws'] 5 e4 f4 keeps_names_trans [OF f4(3)] renames_mono [OF w(2)] by simp
      qed
    qed
  qed
qed


section \<open>Copying all types of an object\<close>

text \<open>A copy of a type: names are the same, type ids other than 0 are shifted, everything else is equal.\<close>

definition copy_of :: "btf_obj \<Rightarrow> btf_obj \<Rightarrow> u32 \<Rightarrow> u32 list \<Rightarrow> u32 list \<Rightarrow> bool" where
  "copy_of src b d ws ws' \<longleftrightarrow> length ws' = length ws \<and>
     (\<forall>j < length ws. if j \<in> set (str_idx (ws ! 1)) then same_name src b (ws ! j) (ws' ! j)
        else ws' ! j = (if j \<in> set (id_idx (ws ! 1)) \<and> ws ! j \<noteq> 0 then ws ! j + d else ws ! j))"

definition type_names :: "btf_obj \<Rightarrow> u32 list \<Rightarrow> nat" where
  "type_names src ws = names_size src (str_idx (ws ! 1)) ws"

lemma copy_of_mono: "copy_of src b d ws ws' \<Longrightarrow> keeps_names b b' \<Longrightarrow> copy_of src b' d ws ws'"
  using same_name_mono by (fastforce simp: copy_of_def)

lemma copy_of_shape: "copy_of src b d ws ws' \<Longrightarrow> type_shape ws \<Longrightarrow> type_shape ws' \<and> length ws' = length ws"
  using type_shape_length [of ws] idx_distinct(3) [of "ws ! 1"] idx_disjoint(2) [of "ws ! 1"] by (auto simp: copy_of_def type_shape_def)

lemma renames_shifts:
  assumes "renames src b (str_idx (ws ! 1)) ws vs" and "shifts d (id_idx (ws ! 1)) vs ws'"
  shows "copy_of src b d ws ws'"
  using assms idx_disjoint(1) [of "ws ! 1"] by (auto simp: renames_def shifts_def copy_of_def)

lemma behind_append: "behind b x (ws @ vs) z \<longleftrightarrow> behind b x ws (words_bytes vs @ z)"
  by (simp add: behind_def)

lemma behind_shift: "behind b x (ws @ vs) z \<Longrightarrow> behind b (x @ words_bytes ws) vs z"
  by (simp add: behind_def)

lemma set_type_off_ok:
  assumes "behind b x ws z" and "unat (nr_types (own_sec b)) \<le> i" "i < length (type_offs (own_sec b))"
  obtains b' where "set_type_off i t b = Some b'" "evolves b b'" "behind b' x ws z" "ostrs b' = ostrs b"
    "type_offs (own_sec b') = (type_offs (own_sec b))[i := of_nat t]"
proof -
  let ?b = "upd_sec (\<lambda>s. s\<lparr>type_offs := (type_offs s)[i := of_nat t]\<rparr>) b"
  have b: "built_ok b" "cap_ok (own_sec b)" using assms(1) by (simp_all add: behind_def)
  have st: "same_types (own_sec b) (own_sec ?b)" "cap_ok (own_sec ?b)" using b assms(2) by (simp_all add: same_types_def cap_ok_def)
  have ok: "built_ok ?b" by (rule built_okI [OF b(1) st(1)]) (use st b(1) in \<open>simp_all add: built_ok_def\<close>)
  show ?thesis by (rule that [of ?b]) (use assms ok st in \<open>simp_all add: set_type_off_def evolves_def keeps_names_def behind_def\<close>)
qed

text \<open>One round of the loop.\<close>

lemma add_btf_type_ok:
  assumes b: "behind b x ws z" and h: "map_ok src (b, h)" and ws: "type_shape ws" "names_ok src ws"
    and i: "unat (nr_types (own_sec b)) \<le> i" "i < length (type_offs (own_sec b))" and room: "\<not> short oks b (type_names src ws)"
  shows "\<exists>b' h' ws'. add_btf_types oks src i (length x) (Suc n) (b, h) = add_btf_types oks src (i + 1) (length x + 4 * length ws) n (b', h') \<and>
    evolves b b' \<and> behind b' x ws' z \<and> map_ok src (b', h') \<and> copy_of src b' (nr_types (own_sec b)) ws ws' \<and>
    type_offs (own_sec b') = (type_offs (own_sec b))[i := of_nat (length x)] \<and> hdr_str_len (ostrs b') \<le> hdr_str_len (ostrs b) + type_names src ws"
proof -
  let ?js = "str_idx (ws ! 1)"
  have ld: "load32 (types_data (own_sec b)) (length x + 4) = Some (ws ! 1)"
    using read_word [OF b, of 1] type_shape_length [OF ws(1)] by simp
  have sz: "btf_type_size (At (pipe_mem (b, h)) (length x)) = Some (4 * int (length ws))"
    using type_at_fields(4) [OF ld] ws(1) by (simp add: pipe_mem_def type_shape_def)
  obtain b1 where 1: "set_type_off i (length x) b = Some b1" "evolves b b1" "behind b1 x ws z" "ostrs b1 = ostrs b"
    "type_offs (own_sec b1) = (type_offs (own_sec b))[i := of_nat (length x)]" by (rule set_type_off_ok [OF b i])
  have h1: "map_ok src (b1, h)" using map_ok_mono [OF h] 1(4) by (simp add: keeps_names_def)
  have r1: "\<not> short oks b1 (names_size src ?js ws)" using room 1(4) by (simp add: short_def type_names_def)
  obtain b2 h2 vs where 2: "btf_type_visit_str_offs pipe_mem (length x) (btf_rewrite_str oks src) (b1, h) = Some (0, (b2, h2))" "fills b1 b2"
    "behind b2 x vs z" "renames src b2 ?js ws vs" "map_ok src (b2, h2)" "hdr_str_len (ostrs b2) \<le> hdr_str_len (ostrs b1) + names_size src ?js ws"
    using visit_names [OF 1(3) h1 ws, of oks] r1 by (auto split: if_splits)
  note vs = renames_shape [OF 2(4) ws(1)]
  have ld2: "load32 (types_data (own_sec b2)) (length x + 4) = Some (ws ! 1)"
    using read_word [OF 2(3), of 1] type_shape_length [OF vs(2)] vs(1) by simp
  have "\<forall>j \<in> set (id_idx (ws ! 1)). j < length vs" using type_shape_idx [OF ws(1)] vs(3) by simp
  then obtain b3 ws' where 3: "visit_each btf_rewrite_type_ids (map (\<lambda>j. length x + 4 * j) (id_idx (ws ! 1))) b2 = Some (0, b3)" "fills b2 b3"
    "ostrs b3 = ostrs b2" "behind b3 x ws' z" "shifts (nr_types (own_sec b2)) (id_idx (ws ! 1)) vs ws'"
    using rewrite_ids [OF 2(3) idx_distinct(2), of "ws ! 1"] by blast
  have v: "btf_type_visit_type_ids (\<lambda>b. types_data (own_sec b)) (length x) btf_rewrite_type_ids b2 = Some (0, b3)"
    using visit_type_ids_words [where mem = "\<lambda>b. types_data (own_sec b)", OF ld2] 3(1) ws(1) by (simp add: type_shape_def)
  have f: "evolves b b2" "evolves b b3" "keeps_names b2 b3"
    using evolves_trans [OF 1(2)] fills_trans [OF 2(2) 3(2)] 2(2) 3(2) by (simp_all add: fills_def evolves_def [of b2])
  have nr: "nr_types (own_sec b2) = nr_types (own_sec b)" using evolves_facts(6) [OF f(1)] b by (simp add: behind_def)
  have "copy_of src b3 (nr_types (own_sec b)) ws ws'" using copy_of_mono [OF renames_shifts [OF 2(4) 3(5)] f(3)] nr by simp
  moreover have "type_offs (own_sec b3) = (type_offs (own_sec b))[i := of_nat (length x)]" using 1(5) 2(2) 3(2) by (simp add: fills_def)
  moreover have "add_btf_types oks src i (length x) (Suc n) (b, h) = add_btf_types oks src (i + 1) (length x + 4 * length ws) n (b3, h2)"
    using sz 1(1) 2(1) v by (simp add: nat_mult_distrib)
  ultimately show ?thesis using f(2) 3(3,4) map_ok_mono [OF 2(5) f(3)] 2(6) 1(4) unfolding type_names_def by metis
qed

text \<open>The offsets of types that lie one behind the other.\<close>

fun offs_of :: "nat \<Rightarrow> u32 list list \<Rightarrow> nat list" where
  "offs_of p [] = []"
| "offs_of p (ws # wss) = p # offs_of (p + 4 * length ws) wss"

lemma offs_of_length [simp]: "length (offs_of p wss) = length wss"
  by (induction wss arbitrary: p) simp_all

lemma take_update_drop: "i < length xs \<Longrightarrow> take (Suc i) (xs[i := v]) = take i xs @ [v]" "drop (Suc i) (xs[i := v]) = drop (Suc i) xs"
  by (simp_all add: take_Suc_conv_app_nth)


lemma add_btf_types_ok:
  assumes "behind b x (concat wss) z" and "map_ok src (b, h)" and "\<forall>ws \<in> set wss. type_shape ws \<and> names_ok src ws"
    and "unat (nr_types (own_sec b)) \<le> i" "i + length wss \<le> length (type_offs (own_sec b))"
    and "\<not> short oks b (sum_list (map (type_names src) wss))"
  shows "\<exists>b' h' wss'. add_btf_types oks src i (length x) (length wss) (b, h) = Some (0, (b', h')) \<and> evolves b b' \<and>
    behind b' x (concat wss') z \<and> list_all2 (copy_of src b' (nr_types (own_sec b))) wss wss' \<and>
    type_offs (own_sec b') = take i (type_offs (own_sec b)) @ map of_nat (offs_of (length x) wss) @ drop (i + length wss) (type_offs (own_sec b))"
  using assms
proof (induction wss arbitrary: b h x i)
  case Nil
  then have "evolves b b" by (simp add: behind_def evolves_def)
  then show ?case using Nil.prems(1) by auto
next
  case (Cons ws wss)
  let ?nr = "nr_types (own_sec b)"
  have ws: "type_shape ws" "names_ok src ws" "\<forall>ws \<in> set wss. type_shape ws \<and> names_ok src ws" using Cons.prems(3) by simp_all
  have b: "behind b x ws (words_bytes (concat wss) @ z)" using Cons.prems(1) behind_append by simp
  have i: "i < length (type_offs (own_sec b))" using Cons.prems(5) by simp
  have room: "\<not> short oks b (type_names src ws)" using Cons.prems(6) by (auto simp: short_def)
  obtain b1 h1 ws' where 1: "add_btf_types oks src i (length x) (Suc (length wss)) (b, h) = add_btf_types oks src (i + 1) (length x + 4 * length ws) (length wss) (b1, h1)"
    "evolves b b1" "behind b1 x ws' (words_bytes (concat wss) @ z)" "map_ok src (b1, h1)" "copy_of src b1 ?nr ws ws'"
    "type_offs (own_sec b1) = (type_offs (own_sec b))[i := of_nat (length x)]" "hdr_str_len (ostrs b1) \<le> hdr_str_len (ostrs b) + type_names src ws"
    using add_btf_type_ok [OF b Cons.prems(2) ws(1,2) Cons.prems(4) i room, of "length wss"] by blast
  have bb: "built_ok b" using b by (simp add: behind_def)
  note f1 = evolves_facts [OF 1(2) bb]
  have l: "length (x @ words_bytes ws') = length x + 4 * length ws" using copy_of_shape [OF 1(5) ws(1)] by simp
  have b1: "behind b1 (x @ words_bytes ws') (concat wss) z" using 1(3) behind_shift [of b1 x ws' "concat wss" z] behind_append by simp
  have r1: "\<not> short oks b1 (sum_list (map (type_names src) wss))" using Cons.prems(6) 1(7) by (auto simp: short_def)
  have i1: "unat (nr_types (own_sec b1)) \<le> i + 1" "i + 1 + length wss \<le> length (type_offs (own_sec b1))"
    using Cons.prems(4,5) f1(6) 1(6) by simp_all
  from Cons.IH [OF b1 1(4) ws(3) i1 r1] obtain b' h' wss' where
    2: "add_btf_types oks src (i + 1) (length (x @ words_bytes ws')) (length wss) (b1, h1) = Some (0, (b', h'))" "evolves b1 b'"
      "behind b' (x @ words_bytes ws') (concat wss') z" "list_all2 (copy_of src b' (nr_types (own_sec b1))) wss wss'"
      "type_offs (own_sec b') = take (i + 1) (type_offs (own_sec b1)) @ map of_nat (offs_of (length (x @ words_bytes ws')) wss) @
        drop (i + 1 + length wss) (type_offs (own_sec b1))"
    by blast
  note f2 = evolves_facts [OF evolves_trans [OF 1(2) 2(2)] bb]
  have "keeps_names b1 b'" using 2(2) by (simp add: evolves_def)
  then have "list_all2 (copy_of src b' ?nr) (ws # wss) (ws' # wss')" using copy_of_mono [OF 1(5)] 2(4) f1(6) by simp
  moreover have "behind b' x (concat (ws' # wss')) z" using 2(3) f2(5) b by (simp add: behind_def)
  moreover have "type_offs (own_sec b') = take i (type_offs (own_sec b)) @ map of_nat (offs_of (length x) (ws # wss)) @ drop (i + length (ws # wss)) (type_offs (own_sec b))"
    unfolding 2(5) 1(6) l using take_update_drop(1) [OF i] by simp
  moreover have "add_btf_types oks src i (length x) (length (ws # wss)) (b, h) = Some (0, (b', h'))" using 1(1) 2(1) l by simp
  ultimately show ?case using evolves_trans [OF 1(2) 2(2)] by blast
qed

text \<open>Types that lie one behind the other tile the memory, and the other way around.\<close>

lemma offs_of_tiled:
  assumes "\<forall>ws \<in> set wss. type_shape ws"
  shows "tiled (x @ words_bytes (concat wss) @ z) (length x) (offs_of (length x) wss) (length x + 4 * length (concat wss))"
    "map (tile (x @ words_bytes (concat wss) @ z)) (offs_of (length x) wss) = map words_bytes wss"
proof -
  have "tiled (x @ words_bytes (concat wss) @ z) (length x) (offs_of (length x) wss) (length x + 4 * length (concat wss)) \<and>
    map (tile (x @ words_bytes (concat wss) @ z)) (offs_of (length x) wss) = map words_bytes wss"
    using assms
  proof (induction wss arbitrary: x)
    case (Cons ws wss)
    have ws: "type_shape ws" using Cons.prems by simp
    let ?m = "x @ words_bytes ws @ words_bytes (concat wss) @ z"
    have "load32 ?m (length x + 4 * 1) = Some (ws ! 1)" using type_shape_length [OF ws] by (intro load32_words) simp
    then have sz: "btf_type_size (At ?m (length x)) = Some (4 * int (length ws))"
      using ws by (simp add: btf_type_size_info type_shape_def)
    have "tile ?m (length x) = words_bytes ws" using sz by (simp add: tile_def nat_mult_distrib)
    then show ?case using Cons.IH [of "x @ words_bytes ws"] Cons.prems sz by (simp add: nat_mult_distrib algebra_simps)
  qed simp
  then show "tiled (x @ words_bytes (concat wss) @ z) (length x) (offs_of (length x) wss) (length x + 4 * length (concat wss))"
    "map (tile (x @ words_bytes (concat wss) @ z)) (offs_of (length x) wss) = map words_bytes wss" by simp_all
qed

lemma tiled_append: "tiled m p qs q \<Longrightarrow> tiled m q qs' e \<Longrightarrow> q \<le> e \<Longrightarrow> tiled m p (qs @ qs') e"
  by (induction qs arbitrary: p) (auto split: option.splits)

lemma tiled_words:
  assumes "tiled m p qs e" and "e \<le> length m"
  shows "(\<forall>ws \<in> set (map (\<lambda>q. bytes_words (tile m q)) qs). type_shape ws) \<and>
    take (e - p) (drop p m) = words_bytes (concat (map (\<lambda>q. bytes_words (tile m q)) qs)) \<and>
    map (tile m) qs = map words_bytes (map (\<lambda>q. bytes_words (tile m q)) qs)"
  using assms(1)
proof (induction qs arbitrary: p)
  case (Cons q qs)
  then obtain n where n: "btf_type_size (At m p) = Some n" "0 \<le> n" "p + nat n \<le> e" "tiled m (p + nat n) qs e" "q = p"
    by (auto split: option.splits)
  have l: "p + nat n \<le> length m" using n(3) assms(2) by simp
  note sh = tile_shape [OF n(1,2) l]
  have "e - p = nat n + (e - (p + nat n))" using n(3) by simp
  then have "take (e - p) (drop p m) = take (nat n) (drop p m) @ take (e - (p + nat n)) (drop (p + nat n) m)"
    by (simp only: take_add drop_drop add.commute [of p])
  then show ?case using Cons.IH [OF n(4)] n(1,5) sh by (simp add: tile_def)
qed simp


lemma copies_shape:
  assumes "list_all2 (copy_of src b d) wss wss'" and "\<forall>ws \<in> set wss. type_shape ws"
  shows "(\<forall>ws \<in> set wss'. type_shape ws) \<and> length (concat wss') = length (concat wss) \<and> offs_of p wss' = offs_of p wss"
  using assms by (induction arbitrary: p rule: list_all2_induct) (auto dest: copy_of_shape)

lemma offs_of_less: "q \<in> set (offs_of p wss) \<Longrightarrow> p \<le> q \<and> q \<le> p + 4 * length (concat wss)"
  by (induction wss arbitrary: p) fastforce+

text \<open>Making the copied types visible.\<close>

lemma add_btf_commit:
  assumes b: "behind b x (concat wss) z" and x: "length x = unat (type_len (hdr (own_sec b)))" and wss: "\<forall>ws \<in> set wss. type_shape ws"
    and o: "take (unat (nr_types (own_sec b)) + length wss) (type_offs (own_sec b)) =
        take (unat (nr_types (own_sec b))) (type_offs (own_sec b)) @ map of_nat (offs_of (length x) wss)"
      "unat (nr_types (own_sec b)) + length wss \<le> length (type_offs (own_sec b))"
    and d: "unat d = 4 * length (concat wss)" "unat n = length wss"
    and v: "b' = add_btf_visible d n b"
  shows "built_ok b'" "abs_types b' = abs_types b @ map words_bytes wss"
    "sint (start_id (own_sec b') + nr_types (own_sec b') - n) = int (unat (nr_types (own_sec b))) + 1"
proof -
  note b' = v [unfolded add_btf_visible_def]
  let ?s = "own_sec b" and ?s' = "own_sec b'"
  let ?m = "x @ words_bytes (concat wss) @ z"
  have ok: "built_ok b" "cap_ok ?s" "types_data ?s = ?m" "sec_ok ?s" "start_id ?s = 1" using b by (simp_all add: behind_def built_ok_def)
  have len: "length x + 4 * length (concat wss) \<le> UINT32_MAX" using ok(2,3) by (simp add: cap_ok_def)
  have e: "unat (type_len (hdr ?s')) = length x + 4 * length (concat wss)" using len x d(1) b' by (simp add: unat_word_ariths UINT32_MAX_def)
  note nt = offs_of_tiled [OF wss, of x z]
  have t: "tiled ?m 0 (sec_offs ?s) (length x)" using ok(3,4) x by (simp add: sec_ok_def)
  have t': "tiled ?m 0 (sec_offs ?s @ offs_of (length x) wss) (length x + 4 * length (concat wss))" by (rule tiled_append [OF t nt(1)]) simp
  have nr: "12 * (unat (nr_types ?s) + length wss) \<le> UINT32_MAX"
    using tiled_bounds [OF t'] len ok(4) by (simp add: sec_ok_def sec_offs_def)
  have un: "unat (nr_types ?s') = unat (nr_types ?s) + length wss" using nr d(2) b' by (simp add: unat_word_ariths UINT32_MAX_def)
  have "unat (of_nat q :: u32) = q" if "q \<in> set (offs_of (length x) wss)" for q
    using offs_of_less [OF that] len by (intro unat_of_nat_u32) (simp add: UINT32_MAX_def)
  then have so: "sec_offs ?s' = sec_offs ?s @ offs_of (length x) wss" using o un b' by (simp add: sec_offs_def map_idI)
  have "sec_ok ?s'" unfolding sec_ok_def so using e t' un o(2) ok(3,4) b' by (simp add: sec_ok_def)
  then show "built_ok b'" using ok(1,2) b' by (simp add: built_ok_def hdr_ok_def cap_ok_def)
  have "types_data ?s' = ?m" using b' ok(3) by simp
  then show "abs_types b' = abs_types b @ map words_bytes wss" unfolding abs_types_def so using nt(2) ok(3) by simp
  have "start_id ?s' + nr_types ?s' - n = nr_types ?s + 1" using b' ok(5) by simp
  then show "sint (start_id ?s' + nr_types ?s' - n) = int (unat (nr_types ?s)) + 1"
    using sint_small [of "nr_types ?s + 1"] nr by (simp add: unat_word_ariths UINT32_MAX_def)
qed

lemma size_of_int_small: "unat x < 2 ^ 31 \<Longrightarrow> size_of_int x = unat x"
proof -
  assume "unat x < 2 ^ 31"
  then have "(scast x :: u64) = of_nat (unat x)" using sint_small [of x] by (metis of_int_of_nat_eq scast_eq)
  then show ?thesis using unat_u32 [of x] by (simp add: size_of_int_def unsigned_ucast_eq take_bit_nat_eq_self)
qed

lemma add_offs_mem:
  assumes b: "built_ok b" "cap_ok (own_sec b)" and n: "unat (nr_types (own_sec b)) + n \<le> BTF_MAX_NR_TYPES" and ok: ok
  obtains s where "btf_add_type_offs_mem ok (own_sec b) n = Some s" "evolves b (upd_sec (\<lambda>_. s) b)"
    "unat (nr_types s) + n \<le> length (type_offs s)" "types_data s = types_data (own_sec b)"
proof -
  let ?s = "own_sec b" and ?n = "unat (nr_types (own_sec b))"
  let ?mem = "libbpf_add_mem ok 0 (type_offs ?s) (type_offs_cap ?s) 4 ?n BTF_MAX_NR_TYPES n"
  have lt: "?n + n < 2 ^ 64" and c: "?n \<le> length (type_offs ?s)" "type_offs_cap ?s = length (type_offs ?s)"
    using n b(1) by (simp_all add: BTF_MAX_NR_TYPES_def built_ok_def sec_ok_def)
  have "?mem \<noteq> None"
  proof
    assume "?mem = None"
    then have "\<not> ok \<or> BTF_MAX_NR_TYPES < ?n + n" by (rule libbpf_add_mem_fails [OF _ lt]) (simp add: BTF_MAX_NR_TYPES_def)
    then show False using n ok by simp
  qed
  then obtain d cp where r: "?mem = Some (d, cp)" by fast
  obtain j where d: "d = type_offs ?s @ replicate j 0" "cp = length d" "?n + n \<le> cp" using libbpf_add_mem_Some [OF r c(2) lt] by auto
  let ?t = "?s\<lparr>type_offs := d, type_offs_cap := cp\<rparr>" and ?b = "upd_sec (\<lambda>_. (own_sec b)\<lparr>type_offs := d, type_offs_cap := cp\<rparr>) b"
  have st: "same_types ?s ?t" "cap_ok ?t" using d b(2) c(1) by (simp_all add: same_types_def cap_ok_def)
  have "built_ok ?b" by (rule built_okI [OF b(1)]) (use st b(1) in \<open>simp_all add: built_ok_def\<close>)
  then have "evolves b ?b" using st by (simp add: evolves_def keeps_names_def)
  then show ?thesis using that [of ?t] r d(2,3) by (simp add: btf_add_type_offs_mem_def)
qed


definition btf_words :: "btf_obj \<Rightarrow> u32 list list" where "btf_words b = map bytes_words (abs_types b)"

text \<open>
  The types of the source: their words, where all words that are offsets of names are in range.
  Without this the code reads the string at a null pointer.
\<close>

definition names_valid :: "btf_obj \<Rightarrow> bool" where
  "names_valid src \<longleftrightarrow> (\<forall>ws \<in> set (btf_words src). \<forall>j \<in> set (str_idx (ws ! 1)). unat (ws ! j) < hdr_str_len (ostrs src))"

lemma str_at_bounded:
  assumes "k < len" "len \<le> length d" "d ! (len - 1) = NUL"
  shows "is_cstr (str_at d k) \<and> length (str_at d k) < len"
proof -
  have n: "drop k d ! (len - 1 - k) = NUL" "len - 1 - k < length (drop k d)" using assms by simp_all
  have "length (takeWhile (\<lambda>c. c \<noteq> NUL) (drop k d)) \<le> len - 1 - k"
    using n by (metis (mono_tags, lifting) leI nth_mem set_takeWhileD takeWhile_nth)
  then show ?thesis using assms(1) set_takeWhileD by (fastforce simp: str_at_def is_cstr_def)
qed

lemma obj_names_ok:
  assumes "obj_ok src" "types_base (otys src) = None" "unat w < hdr_str_len (ostrs src)"
  shows "name_ok src w"
proof -
  obtain base start len strs where st: "ostrs src = Btf base start len strs" by (cases "ostrs src")
  obtain s where ty: "otys src = Types None s" using assms(2) by (cases "otys src") simp
  have m: "base = None" "len = unat (str_len (hdr s))" using assms(1) st ty by (auto simp: obj_ok_def split: option.splits)
  let ?d = "btf_strs_data (ostrs src)"
  have d: "len \<le> length ?d" "0 < len \<longrightarrow> ?d ! (len - 1) = NUL" "start = 0" using assms(1) st m(1) by (auto simp: obj_ok_def)
  have k: "unat w < len" using assms(3) st by simp
  have "c_string (str_at ?d (unat w))"
    using str_at_bounded [OF k d(1)] d(2) k unat_u32 [of "str_len (hdr s)"] m(2) by (simp add: c_string_def)
  moreover have "btf__str_by_offset (ostrs src) (unat w) = Some (Some (str_at ?d (unat w)))" using st d(3) k by simp
  ultimately show ?thesis by (simp add: name_ok_def src_name_def)
qed

lemma src_words:
  assumes "obj_ok src" "types_base (otys src) = None"
  shows "\<forall>ws \<in> set (btf_words src). type_shape ws" "length (btf_words src) = unat (nr_types (own_sec src))"
    "take (unat (type_len (hdr (own_sec src)))) (types_data (own_sec src)) = words_bytes (concat (btf_words src))"
    "unat (type_len (hdr (own_sec src))) \<le> length (types_data (own_sec src))" "unat (type_len (hdr (own_sec src))) = 4 * length (concat (btf_words src))"
    "btf__type_cnt (otys src) - 1 = nr_types (own_sec src)"
proof -
  let ?s = "own_sec src"
  have ty: "otys src = Types None ?s" using assms(2) by (cases "otys src") (simp add: own_sec_def)
  have ok: "types_ok (otys src)" using assms(1) by (simp add: obj_ok_def)
  have s: "sec_ok ?s" "start_id ?s = 1" using ok by (subst (asm) ty, simp)+
  have w: "btf_words src = map (\<lambda>q. bytes_words (tile (types_data ?s) q)) (sec_offs ?s)" by (simp add: btf_words_def abs_types_def)
  have t: "tiled (types_data ?s) 0 (sec_offs ?s) (unat (type_len (hdr ?s)))" and l: "unat (type_len (hdr ?s)) \<le> length (types_data ?s)"
    using s(1) by (simp_all add: sec_ok_def)
  note tw = tiled_words [OF t l, folded w]
  show "\<forall>ws \<in> set (btf_words src). type_shape ws" using tw by blast
  show "length (btf_words src) = unat (nr_types ?s)" using s(1) by (simp add: w sec_offs_def sec_ok_def)
  show b: "take (unat (type_len (hdr ?s))) (types_data ?s) = words_bytes (concat (btf_words src))" using tw by simp
  show "unat (type_len (hdr ?s)) \<le> length (types_data ?s)" by (rule l)
  show "unat (type_len (hdr ?s)) = 4 * length (concat (btf_words src))" using arg_cong [OF b, of length] l by simp
  show "btf__type_cnt (otys src) - 1 = nr_types ?s" by (subst ty) (simp add: btf__type_cnt_def s(2))
qed


text \<open>What the caller of \<^verbatim>\<open>btf__add_btf\<close> needs for it to succeed: memory, and the limits of the format.\<close>

definition add_btf_room :: "allocs \<Rightarrow> (nat \<Rightarrow> allocs) \<Rightarrow> btf_obj \<Rightarrow> btf_obj \<Rightarrow> bool" where
  "add_btf_room ok oks b src \<longleftrightarrow> (\<forall>i. ok i) \<and> (\<forall>a i. oks a i) \<and>
     unat (type_len (hdr (own_sec b))) + unat (type_len (hdr (own_sec src))) \<le> UINT32_MAX \<and> unat (type_len (hdr (own_sec src))) < 2 ^ 31 \<and>
     hdr_str_len (ostrs b) + sum_list (map (type_names src) (btf_words src)) \<le> BTF_MAX_STR_OFFSET"

lemma add_btf_prepared:
  assumes b: "built_ok b" and src: "obj_ok src" "types_base (otys src) = None" and room: "add_btf_room ok oks b src"
  obtains b1 b2 s b3 x z where "obj_ensure_modifiable (part 0 ok) b = Some (0, b1)"
    "btf_add_type_mem (part 1 ok 0) b1 (unat (type_len (hdr (own_sec src)))) = Some b2"
    "btf_add_type_offs_mem (part 1 ok 1) (own_sec b2) (unat (nr_types (own_sec src))) = Some s"
    "copy_types (upd_sec (\<lambda>_. s) b2) (unat (type_len (hdr s))) (types_data (own_sec src)) (unat (type_len (hdr (own_sec src)))) = Some b3"
    "evolves b b3" "behind b3 x (concat (btf_words src)) z" "length x = unat (type_len (hdr s))" "hdr_str_len (ostrs b3) = hdr_str_len (ostrs b)"
    "unat (nr_types (own_sec b3)) + unat (nr_types (own_sec src)) \<le> length (type_offs (own_sec b3))" "type_len (hdr s) = type_len (hdr (own_sec b))"
proof -
  let ?d = "unat (type_len (hdr (own_sec src)))" and ?n = "unat (nr_types (own_sec src))"
  note sw = src_words [OF src]
  have nr: "\<not> no_room ok oks b ?d 0"
    using room by (auto simp: add_btf_room_def no_room_def short_def)
  have lt: "?d < 2 ^ 32" using unat_u32 by simp
  obtain b1 b2 where 1: "obj_ensure_modifiable (part 0 ok) b = Some (0, b1)" "btf_add_type_mem (part 1 ok 0) b1 ?d = Some b2" "evolves b b2"
      "unat (type_len (hdr (own_sec b2))) + ?d \<le> length (types_data (own_sec b2))" "hdr_str_len (ostrs b2) = hdr_str_len (ostrs b)"
    by (rule add_mem_cases [OF b lt, where ok = ok and oks = oks and names = 0]) (use nr in auto)
  note f = evolves_facts [OF 1(3) b]
  have "12 * unat (nr_types (own_sec b2)) \<le> unat (type_len (hdr (own_sec b2)))"
    using f(1) tiled_bounds [of "types_data (own_sec b2)" 0 "sec_offs (own_sec b2)" "unat (type_len (hdr (own_sec b2)))"]
    by (simp add: built_ok_def sec_ok_def sec_offs_def)
  moreover have "12 * ?n \<le> ?d"
    using tiled_bounds [OF offs_of_tiled(1) [OF sw(1), of "[]" "[]"]] sw(2,5) by simp
  ultimately have n: "unat (nr_types (own_sec b2)) + ?n \<le> BTF_MAX_NR_TYPES"
    using f(5) room by (simp add: add_btf_room_def BTF_MAX_NR_TYPES_def UINT32_MAX_def)
  have "part 1 ok 1" using room by (simp add: add_btf_room_def part_def)
  then obtain s where 2: "btf_add_type_offs_mem (part 1 ok 1) (own_sec b2) ?n = Some s" "evolves b2 (upd_sec (\<lambda>_. s) b2)"
    "unat (nr_types s) + ?n \<le> length (type_offs s)" "types_data s = types_data (own_sec b2)" by (rule add_offs_mem [OF f(1,2) n])
  let ?b = "upd_sec (\<lambda>_. s) b2"
  note f2 = evolves_facts [OF 2(2) f(1)]
  have r: "unat (type_len (hdr (own_sec ?b))) + ?d \<le> length (types_data (own_sec ?b))" using 1(4) 2(4) f2(5) by simp
  obtain b3 x z where 3: "copy_types ?b (unat (type_len (hdr (own_sec ?b)))) (types_data (own_sec src)) ?d = Some b3" "fills ?b b3" "ostrs b3 = ostrs ?b"
    "behind b3 x (concat (btf_words src)) z" "length x = unat (type_len (hdr (own_sec ?b)))" by (rule copy_behind [OF f2(1,2) sw(3,4) r])
  have ev: "evolves b b3" using evolves_trans [OF evolves_trans [OF 1(3) 2(2)]] 3(2) by (simp add: fills_def)
  have "nr_types (own_sec b3) = nr_types s" using evolves_facts(6) [of ?b b3] 3(2) f2(1) by (simp add: fills_def)
  then show ?thesis using that [OF 1(1,2) 2(1) _ ev 3(4)] 3 2(3) 1(5) f(5) f2(5) by (simp add: fills_def)
qed

lemma init_map_ok: "map_ok src (b, Some hashmap__init)"
proof -
  have e: "entries hashmap__init = ([] :: (nat \<times> nat) list)" by (simp add: entries_def hashmap__init_def)
  show ?thesis by (simp add: map_ok_def offs.inv_def hashmap_ok_init offs.uniq_def e)
qed

text \<open>The loop, and what it has copied made visible.\<close>

lemma add_btf_copied:
  assumes b: "behind b x (concat wss) z" "length x = unat (type_len (hdr (own_sec b)))" and ws: "\<forall>ws \<in> set wss. type_shape ws \<and> names_ok src ws"
    and i: "unat (nr_types (own_sec b)) + length wss \<le> length (type_offs (own_sec b))" and sh: "\<not> short oks b (sum_list (map (type_names src) wss))"
    and d: "unat d = 4 * length (concat wss)" "unat n = length wss"
  obtains b1 h wss' b' where "add_btf_types oks src (unat (nr_types (own_sec b))) (length x) (length wss) (b, Some hashmap__init) = Some (0, (b1, h))"
    "b' = add_btf_visible d n b1" "built_ok b'" "abs_types b' = abs_types b @ map words_bytes wss'" "keeps_names b b'"
    "sint (start_id (own_sec b') + nr_types (own_sec b') - n) = int (unat (nr_types (own_sec b))) + 1"
    "list_all2 (copy_of src b' (nr_types (own_sec b))) wss wss'"
proof -
  let ?nr = "unat (nr_types (own_sec b))"
  obtain b1 h wss' where 1: "add_btf_types oks src ?nr (length x) (length wss) (b, Some hashmap__init) = Some (0, (b1, h))" "evolves b b1"
    "behind b1 x (concat wss') z" "list_all2 (copy_of src b1 (nr_types (own_sec b))) wss wss'"
    "type_offs (own_sec b1) = take ?nr (type_offs (own_sec b)) @ map of_nat (offs_of (length x) wss) @ drop (?nr + length wss) (type_offs (own_sec b))"
    using add_btf_types_ok [OF b(1) init_map_ok ws le_refl i sh] by blast
  have bb: "built_ok b" using b(1) by (simp add: behind_def)
  note f = evolves_facts [OF 1(2) bb]
  have cs: "\<forall>ws \<in> set wss'. type_shape ws" "length (concat wss') = length (concat wss)" "offs_of (length x) wss' = offs_of (length x) wss"
    using copies_shape [OF 1(4)] ws by blast+
  have l: "length wss' = length wss" using list_all2_lengthD [OF 1(4)] by simp
  define b' where "b' = add_btf_visible d n b1"
  have cm: "built_ok b'" "abs_types b' = abs_types b1 @ map words_bytes wss'"
    "sint (start_id (own_sec b') + nr_types (own_sec b') - n) = int (unat (nr_types (own_sec b1))) + 1"
    by (rule add_btf_commit [OF 1(3) _ cs(1) _ _ _ _ b'_def]; use cs l b(2) f(5,6) i d 1(5) in simp)+
  have kn: "keeps_names b1 b'" by (simp add: b'_def add_btf_visible_def keeps_names_def)
  have "list_all2 (copy_of src b' (nr_types (own_sec b))) wss wss'" using 1(4) copy_of_mono [OF _ kn] by (rule list_all2_mono)
  then show ?thesis using that [OF 1(1) b'_def cm(1)] cm(2,3) f(4,6) keeps_names_trans [OF f(3) kn] by simp
qed

lemma add_btf_ok:
  assumes b: "built_ok b" and src: "obj_ok src" "types_base (otys src) = None" "names_valid src" and room: "add_btf_room ok oks b src"
  shows "\<exists>b' wss. btf__add_btf ok oks b src = Some (int (unat (nr_types (own_sec b))) + 1, b') \<and> built_ok b' \<and> keeps_names b b' \<and>
    abs_types b' = abs_types b @ map words_bytes wss \<and> list_all2 (copy_of src b' (nr_types (own_sec b))) (btf_words src) wss"
proof -
  let ?d = "type_len (hdr (own_sec src))" and ?n = "nr_types (own_sec src)" and ?W = "btf_words src"
  note sw = src_words [OF src(1,2)]
  obtain b1 b2 s b3 x z where 1: "obj_ensure_modifiable (part 0 ok) b = Some (0, b1)" "btf_add_type_mem (part 1 ok 0) b1 (unat ?d) = Some b2"
    "btf_add_type_offs_mem (part 1 ok 1) (own_sec b2) (unat ?n) = Some s"
    "copy_types (upd_sec (\<lambda>_. s) b2) (unat (type_len (hdr s))) (types_data (own_sec src)) (unat ?d) = Some b3"
    "evolves b b3" "behind b3 x (concat ?W) z" "length x = unat (type_len (hdr s))" "hdr_str_len (ostrs b3) = hdr_str_len (ostrs b)"
    "unat (nr_types (own_sec b3)) + unat ?n \<le> length (type_offs (own_sec b3))" "type_len (hdr s) = type_len (hdr (own_sec b))"
    by (rule add_btf_prepared [OF b src(1,2) room])
  note f = evolves_facts [OF 1(5) b]
  have ws: "\<forall>ws \<in> set ?W. type_shape ws \<and> names_ok src ws"
    using sw(1) obj_names_ok [OF src(1,2)] src(3) by (simp add: names_valid_def names_ok_def)
  have sh: "\<not> short oks b3 (sum_list (map (type_names src) ?W))" using room 1(8) by (simp add: add_btf_room_def short_def)
  have i: "length x = unat (type_len (hdr (own_sec b3)))" "unat (nr_types (own_sec b3)) + length ?W \<le> length (type_offs (own_sec b3))"
    using 1(7,9,10) f(5) sw(2) by simp_all
  obtain b4 h wss b' where 2: "add_btf_types oks src (unat (nr_types (own_sec b3))) (length x) (length ?W) (b3, Some hashmap__init) = Some (0, (b4, h))"
    "b' = add_btf_visible ?d ?n b4" "built_ok b'" "abs_types b' = abs_types b3 @ map words_bytes wss" "keeps_names b3 b'"
    "sint (start_id (own_sec b') + nr_types (own_sec b') - ?n) = int (unat (nr_types (own_sec b3))) + 1"
    "list_all2 (copy_of src b' (nr_types (own_sec b3))) ?W wss"
    by (rule add_btf_copied [OF 1(6) i(1) ws i(2) sh sw(5) sw(2) [symmetric]])
  have sm: "size_of_int ?d = unat ?d" "unat ?d < 2 ^ 31" using room size_of_int_small by (simp_all add: add_btf_room_def)
  have n31: "unat ?n < 2 ^ 31" using tiled_bounds [OF offs_of_tiled(1) [OF sw(1), of "[]" "[]"]] sw(2,5) sm(2) by simp
  have sn: "size_of_int ?n = unat ?n" "nat (sint ?n) = length ?W" using size_of_int_small [OF n31] sint_small [OF n31] sw(2) by simp_all
  have l: "add_btf_types oks src (unat (nr_types (own_sec b3))) (unat (type_len (hdr s))) (nat (sint ?n)) (b3, Some hashmap__init) = Some (0, (b4, h))"
    using 2(1) 1(7) sn(2) by simp
  have "part 1 ok 2" using room by (simp add: add_btf_room_def part_def)
  then have "btf__add_btf ok oks b src = Some (int (unat (nr_types (own_sec b))) + 1, b')"
    using 2(2,6) f(6) src(2) 1(1-4) l sw(6) sm(1) sn(1) by (simp add: btf__add_btf_def Let_def)
  then show ?thesis using 2(3,4,7) f(4,6) keeps_names_trans [OF f(3) 2(5)] by (intro exI [of _ b'] exI [of _ wss]) simp
qed


section \<open>What the copies are\<close>

text \<open>
  \<open>type_copy src b d ws ws'\<close>: the words \<open>ws'\<close> of a type of \<open>b\<close> are those of a type of \<open>src\<close>, its names
  read the same in \<open>b\<close>, and its type ids are \<open>d\<close> higher.
\<close>

definition type_copy :: "btf_obj \<Rightarrow> btf_obj \<Rightarrow> u32 \<Rightarrow> u32 list \<Rightarrow> u32 list \<Rightarrow> bool" where
  "type_copy src b d ws ws' \<longleftrightarrow> length ws' = length ws \<and>
     (\<forall>j < length ws.
        if j \<in> set (str_idx (ws ! 1)) \<and> ws ! j \<noteq> 0
        then btf__name_by_offset (ostrs b) (unat (ws' ! j)) = btf__name_by_offset (ostrs src) (unat (ws ! j))
        else ws' ! j = (if j \<in> set (id_idx (ws ! 1)) \<and> ws ! j \<noteq> 0 then ws ! j + d else ws ! j))"

lemma same_name_reads:
  assumes "same_name src b w w'" "w \<noteq> 0" "btf_ok (ostrs b)"
  shows "btf__name_by_offset (ostrs b) (unat w') = btf__name_by_offset (ostrs src) (unat w)"
proof -
  obtain s where s: "src_name src w = Some s" "btf_knows (ostrs b) (unat w') s" using assms(1,2) by (auto simp: same_name_def)
  then have "btf__str_by_offset (ostrs src) (unat w) = Some (Some s)"
    using assms(2) by (auto simp: src_name_def split: Option.bind_splits)
  then show ?thesis using btf_knows_name [OF assms(3) s(2)] by (simp add: btf__name_by_offset_def)
qed

lemma copy_of_type_copy:
  assumes "copy_of src b d ws ws'" and "btf_ok (ostrs b)"
  shows "type_copy src b d ws ws'"
  unfolding type_copy_def
proof (intro conjI allI impI)
  show "length ws' = length ws" using assms(1) by (simp add: copy_of_def)
  fix j assume j: "j < length ws"
  then have c: "if j \<in> set (str_idx (ws ! 1)) then same_name src b (ws ! j) (ws' ! j)
      else ws' ! j = (if j \<in> set (id_idx (ws ! 1)) \<and> ws ! j \<noteq> 0 then ws ! j + d else ws ! j)" using assms(1) by (simp add: copy_of_def)
  show "if j \<in> set (str_idx (ws ! 1)) \<and> ws ! j \<noteq> 0
      then btf__name_by_offset (ostrs b) (unat (ws' ! j)) = btf__name_by_offset (ostrs src) (unat (ws ! j))
      else ws' ! j = (if j \<in> set (id_idx (ws ! 1)) \<and> ws ! j \<noteq> 0 then ws ! j + d else ws ! j)"
  proof (cases "j \<in> set (str_idx (ws ! 1))")
    case True
    then have "same_name src b (ws ! j) (ws' ! j)" using c by simp
    moreover from this have "ws ! j = 0 \<Longrightarrow> ws' ! j = 0" by (simp add: same_name_def)
    ultimately show ?thesis using True same_name_reads [OF _ _ assms(2)] by simp
  qed (use c in simp)
qed

text \<open>
  \<^verbatim>\<open>btf__add_type\<close>: either the type is appended as a copy with the same names, or the object keeps
  its types and an allocation failed or a limit of the format was reached.
\<close>

theorem btf__add_type_correct:
  assumes b: "buildable b" and src: "obj_ok src" "types_base (otys src) = None"
    and t: "btf_type_size (At m p) = Some n" "0 \<le> n" "p + nat n \<le> length m"
    and names: "\<forall>j \<in> set (str_idx (bytes_words (tile m p) ! 1)). unat (bytes_words (tile m p) ! j) < hdr_str_len (ostrs src)"
  shows "\<exists>r b'. btf__add_type ok oks b src (At m p) = Some (r, b') \<and> obj_ok b' \<and>
    (if r < 0 then btf_words b' = btf_words b \<and> no_room ok oks b (nat n) (type_names src (bytes_words (tile m p)))
     else r = int (unat (nr_types (own_sec b))) + 1 \<and>
       (\<exists>ws. btf_words b' = btf_words b @ [ws] \<and> type_copy src b' 0 (bytes_words (tile m p)) ws))"
proof -
  let ?ws = "bytes_words (tile m p)"
  have bb: "built_ok b" by (rule buildable_built [OF b])
  have nm: "names_ok src ?ws" using obj_names_ok [OF src] names by (simp add: names_ok_def)
  note sh = tile_shape [OF t]
  show ?thesis
  proof (rule add_type_cases [OF bb t refl nm, where ok = ok and oks = oks])
    fix e b' assume "btf__add_type ok oks b src (At m p) = Some (e, b')" "e < 0" "built_ok b'" "abs_types b' = abs_types b" "keeps_names b b'"
      "no_room ok oks b (4 * length ?ws) (names_size src (str_idx (?ws ! 1)) ?ws)"
    then show ?thesis using built_obj_ok sh(3) by (auto simp: btf_words_def type_names_def)
  next
    fix ws' b' assume a: "btf__add_type ok oks b src (At m p) = Some (int (unat (nr_types (own_sec b))) + 1, b')" "built_ok b'"
      "abs_types b' = abs_types b @ [words_bytes ws']" "keeps_names b b'" "renames src b' (str_idx (?ws ! 1)) ?ws ws'"
    have "copy_of src b' 0 ?ws ws'" using a(5) idx_disjoint(1) [of "?ws ! 1"] by (auto simp: copy_of_def renames_def)
    then have "type_copy src b' 0 ?ws ws'" using copy_of_type_copy a(2) by (simp add: built_ok_def)
    moreover have "\<not> uint (nr_types (own_sec b)) + 1 < 0" using uint_ge_0 [of "nr_types (own_sec b)"] by linarith
    ultimately show ?thesis using a(1-3) built_obj_ok by (simp add: btf_words_def)
  qed
qed

text \<open>
  C31. Merging BTF objects: when memory suffices and the limits of the format are kept,
  \<^verbatim>\<open>btf__add_btf\<close> appends to an object that was built before exactly one copy of every type
  of the other object, in order, and returns the id of the first copy.  The names of a copy
  and of its elements read the same as those of the original, the type ids of a copy are
  higher by the number of types that were there before (0, the type void, stays 0), and
  everything else is equal.  The object stays well formed, and its own types and names are
  unchanged.
\<close>

theorem btf__add_btf_correct:
  assumes "buildable b" and "obj_ok src" "types_base (otys src) = None" "names_valid src" and "add_btf_room ok oks b src"
  shows "\<exists>b' wss. btf__add_btf ok oks b src = Some (int (unat (nr_types (own_sec b))) + 1, b') \<and> obj_ok b' \<and> btf_words b' = btf_words b @ wss \<and>
    list_all2 (type_copy src b' (nr_types (own_sec b))) (btf_words src) wss \<and>
    (\<forall>k s. btf_knows (ostrs b) k s \<longrightarrow> btf__name_by_offset (ostrs b') k = Some (Some s))"
proof -
  obtain b' wss where a: "btf__add_btf ok oks b src = Some (int (unat (nr_types (own_sec b))) + 1, b')" "built_ok b'" "keeps_names b b'"
    "abs_types b' = abs_types b @ map words_bytes wss" "list_all2 (copy_of src b' (nr_types (own_sec b))) (btf_words src) wss"
    using add_btf_ok [OF buildable_built [OF assms(1)] assms(2-5)] by blast
  have ok: "btf_ok (ostrs b')" using a(2) by (simp add: built_ok_def)
  have "list_all2 (type_copy src b' (nr_types (own_sec b))) (btf_words src) wss" using a(5) copy_of_type_copy [OF _ ok] by (rule list_all2_mono)
  moreover have "btf_words b' = btf_words b @ wss" using a(4) by (simp add: btf_words_def comp_def)
  moreover have "\<forall>k s. btf_knows (ostrs b) k s \<longrightarrow> btf__name_by_offset (ostrs b') k = Some (Some s)"
    using a(3) btf_knows_name [OF ok] by (simp add: keeps_names_def)
  ultimately show ?thesis using a(1) built_obj_ok [OF a(2)] by blast
qed

text \<open>An object with the type \<^verbatim>\<open>int\<close>, as it is loaded from \<open>int_image\<close>.\<close>

definition int_obj :: btf_obj where
  "int_obj = \<lparr>ostrs = Btf None 0 5 (Inl [NUL, CHR ''i'', CHR ''n'', CHR ''t'', NUL]),
     otys = Types None \<lparr>hdr = int_hdr, hdr_more = [], raw_data = Some int_image, raw_data_swapped = None, raw_size = 45, swapped_endian = False,
       types_data = [1, 0, 0, 0, 0, 0, 0, 1, 4, 0, 0, 0, 32, 0, 0, 1], types_data_cap = 0, type_offs = [0], type_offs_cap = 1,
       nr_types = 1, start_id = 1, ptr_sz = 8\<rparr>\<rparr>"

lemma int_obj_ok: "obj_ok int_obj" "types_base (otys int_obj) = None"
  using int_image_tiled by (simp_all add: obj_ok_def int_obj_def int_hdr_def btf_strs_data_def sec_ok_def sec_offs_def)

lemma int_obj_words: "btf_words int_obj = [[1, 0x1000000, 4, 0x1000020]]"
  by (simp add: btf_words_def abs_types_def own_sec_def int_obj_def sec_offs_def tile_def btf_type_size_def btf_vlen_def btf_kind_def t_info_def load32_def
    BTF_INFO_VLEN_def BTF_INFO_KIND_def kind_of_num_def btf_kind_list_def le32_def)

lemma int_obj_idx: "str_idx 0x1000000 = [0]" "id_idx 0x1000000 = []"
  by (simp_all add: str_idx_def str_words_def id_idx_def id_words_def info_kind_def BTF_INFO_KIND_def kind_of_num_def btf_kind_list_def)

lemma int_obj_parts: "ostrs int_obj = Btf None 0 5 (Inl [NUL, CHR ''i'', CHR ''n'', CHR ''t'', NUL])" "hdr (own_sec int_obj) = int_hdr"
  by (simp_all add: int_obj_def own_sec_def)

lemma new_obj_parts: "unat (type_len (hdr (own_sec new_obj))) = 0" "hdr_str_len (ostrs new_obj) = 1" "nr_types (own_sec new_obj) = 0" "btf_words new_obj = []"
  by (simp_all add: new_obj_def obj_new_empty_def btf_new_empty_def Let_def own_sec_def btf_words_def abs_types_def sec_offs_def)

lemma int_obj_name: "btf__str_by_offset (ostrs int_obj) 1 = Some (Some ''int'')"
  by (simp add: int_obj_parts btf_strs_data_def str_at_def NUL_def)

lemma int_obj_room: "names_valid int_obj" "add_btf_room (\<lambda>_. True) (\<lambda>_ _. True) new_obj int_obj"
proof -
  have "type_names int_obj [1, 0x1000000, 4, 0x1000020] = 4"
    using int_obj_name by (simp add: type_names_def names_size_def name_size_def src_name_def int_obj_idx)
  then show "add_btf_room (\<lambda>_. True) (\<lambda>_ _. True) new_obj int_obj"
    by (simp add: add_btf_room_def int_obj_words new_obj_parts int_obj_parts(2) int_hdr_def UINT32_MAX_def BTF_MAX_STR_OFFSET_def)
  show "names_valid int_obj" by (simp add: names_valid_def int_obj_words int_obj_idx int_obj_parts(1))
qed

theorem btf__add_btf_correct_witness:
  "\<exists>b' ws. btf__add_btf (\<lambda>_. True) (\<lambda>_ _. True) new_obj int_obj = Some (1, b') \<and> obj_ok b' \<and> btf_words b' = [ws] \<and>
     tl ws = [0x1000000, 4, 0x1000020] \<and> btf__name_by_offset (ostrs b') (unat (hd ws)) = Some (Some ''int'')"
proof -
  obtain b' wss where a: "btf__add_btf (\<lambda>_. True) (\<lambda>_ _. True) new_obj int_obj = Some (int (unat (nr_types (own_sec new_obj))) + 1, b')" "obj_ok b'"
    "btf_words b' = btf_words new_obj @ wss" "list_all2 (type_copy int_obj b' (nr_types (own_sec new_obj))) (btf_words int_obj) wss"
    using btf__add_btf_correct [OF new_obj_buildable int_obj_ok int_obj_room] by blast
  obtain ws where ws: "wss = [ws]" "type_copy int_obj b' 0 [1, 0x1000000, 4, 0x1000020] ws"
    using a(4) by (auto simp: int_obj_words new_obj_parts list_all2_Cons1)
  then have l: "length ws = 4" by (simp add: type_copy_def)
  then obtain w0 w1 w2 w3 where w: "ws = [w0, w1, w2, w3]" by (auto simp: length_Suc_conv eval_nat_numeral)
  have "[w1, w2, w3] = [0x1000000, 4, 0x1000020]" "btf__name_by_offset (ostrs b') (unat w0) = Some (Some ''int'')"
    using ws(2) int_obj_name by (auto simp: w type_copy_def int_obj_idx eval_nat_numeral All_less_Suc btf__name_by_offset_def)
  then show ?thesis using a(1-3) ws(1) w by (simp add: new_obj_parts)
qed

end
