(* ===== verification/Btf_Ext.thy ===== *)
theory Btf_Ext
  imports Btf_Copy
begin

text \<open>
  The extension data of a BTF object (\<^verbatim>\<open>struct btf_ext\<close> in \<^verbatim>\<open>libbpf/src/btf.c\<close> and
  \<^verbatim>\<open>libbpf_internal.h\<close>): function information, line information and relocations of the sections of an
  ELF file.  Each of these parts is a record size, followed by one block per ELF section, which has
  the name of the section, the number of its records and the records.

  The data is one block of bytes, pointers into it are offsets; \<open>None\<close> is an access outside the
  block or through a null pointer.  A part that is not there has length 0.  The size of the data is the
  length of the block, of type \<^verbatim>\<open>__u32\<close>; \<^verbatim>\<open>sec_idxs\<close>, which only the loader of programs sets, is left out.
\<close>

section \<open>The data\<close>

text \<open>The fields of \<^verbatim>\<open>struct btf_ext_header\<close>, which lies at the start of the data.\<close>

definition eh_magic :: "bytes \<Rightarrow> u16 option" where "eh_magic m = load16 m 0"
definition eh_version :: "bytes \<Rightarrow> u8 option" where "eh_version m = load8 m 2"
definition eh_flags :: "bytes \<Rightarrow> u8 option" where "eh_flags m = load8 m 3"
definition eh_hdr_len :: "bytes \<Rightarrow> u32 option" where "eh_hdr_len m = load32 m 4"
definition eh_func_info_off :: "bytes \<Rightarrow> u32 option" where "eh_func_info_off m = load32 m 8"
definition eh_func_info_len :: "bytes \<Rightarrow> u32 option" where "eh_func_info_len m = load32 m 12"
definition eh_line_info_off :: "bytes \<Rightarrow> u32 option" where "eh_line_info_off m = load32 m 16"
definition eh_line_info_len :: "bytes \<Rightarrow> u32 option" where "eh_line_info_len m = load32 m 20"
definition eh_core_relo_off :: "bytes \<Rightarrow> u32 option" where "eh_core_relo_off m = load32 m 24"
definition eh_core_relo_len :: "bytes \<Rightarrow> u32 option" where "eh_core_relo_len m = load32 m 28"

record btf_ext_info =
  ei_info :: nat
  ei_rec_size :: u32
  ei_len :: u32
  ei_sec_cnt :: int

definition no_info :: btf_ext_info where "no_info = \<lparr>ei_info = 0, ei_rec_size = 0, ei_len = 0, ei_sec_cnt = 0\<rparr>"

record btf_ext =
  ext_data :: bytes
  func_info :: btf_ext_info
  line_info :: btf_ext_info
  core_relo_info :: btf_ext_info
  ext_data_size :: u32

section \<open>Loading\<close>

record btf_ext_sec_setup_param =
  param_off :: u32
  param_len :: u32
  min_rec_size :: nat

text \<open>
  The loop over the blocks, at offset \<open>p\<close> with \<open>info_left\<close> bytes left.  The sum of type \<^verbatim>\<open>__u64\<close> does
  not overflow.
\<close>

function setup_loop :: "bytes \<Rightarrow> u32 \<Rightarrow> nat \<Rightarrow> nat \<Rightarrow> nat \<Rightarrow> (int \<times> nat) option" where
  "setup_loop m record_size p info_left sec_cnt =
     (if info_left = 0 then Some (0, sec_cnt)
      else if info_left < 8 then Some (- EINVAL, sec_cnt)
      else (case load32 m (p + 4) of
          None \<Rightarrow> None
        | Some num_records \<Rightarrow>
            if num_records = 0 then Some (- EINVAL, sec_cnt)
            else
              let total_record_size = 8 + unat num_records * unat record_size
              in if info_left < total_record_size then Some (- EINVAL, sec_cnt)
                 else setup_loop m record_size (p + total_record_size) (info_left - total_record_size) (sec_cnt + 1)))"
  by pat_completeness auto
termination by (relation "measure (\<lambda>(m, r, p, left, c). left)") auto

definition btf_ext_setup_info :: "bytes \<Rightarrow> btf_ext_sec_setup_param \<Rightarrow> btf_ext_info \<Rightarrow> (int \<times> btf_ext_info) option" where
  "btf_ext_setup_info m ext_sec ext_info =
     (if param_len ext_sec = 0 then Some (0, ext_info)
      else if param_off ext_sec AND 0x03 \<noteq> 0 then Some (- EINVAL, ext_info)
      else do {
        hdr_len \<leftarrow> eh_hdr_len m;
        let inf = unat hdr_len + unat (param_off ext_sec);
        if length m < inf + unat (param_len ext_sec) then Some (- EINVAL, ext_info)
        else if unat (param_len ext_sec) < 4 then Some (- EINVAL, ext_info)
        else do {
          record_size \<leftarrow> load32 m inf;
          if unat record_size < min_rec_size ext_sec \<or> record_size AND 0x03 \<noteq> 0 then Some (- EINVAL, ext_info)
          else if unat (param_len ext_sec) - 4 = 0 then Some (- EINVAL, ext_info)
          else do {
            (err, sec_cnt) \<leftarrow> setup_loop m record_size (inf + 4) (unat (param_len ext_sec) - 4) 0;
            if err \<noteq> 0 then Some (err, ext_info)
            else Some (0, ext_info\<lparr>ei_len := param_len ext_sec - 4, ei_rec_size := record_size, ei_info := inf + 4,
              ei_sec_cnt := to_int (int sec_cnt)\<rparr>)
          }
        }
      })"

definition btf_ext_setup_func_info :: "btf_ext \<Rightarrow> (int \<times> btf_ext) option" where
  "btf_ext_setup_func_info x = do {
     off \<leftarrow> eh_func_info_off (ext_data x);
     len \<leftarrow> eh_func_info_len (ext_data x);
     (err, i) \<leftarrow> btf_ext_setup_info (ext_data x) \<lparr>param_off = off, param_len = len, min_rec_size = 8\<rparr> (func_info x);
     Some (err, x\<lparr>func_info := i\<rparr>)
   }"

definition btf_ext_setup_line_info :: "btf_ext \<Rightarrow> (int \<times> btf_ext) option" where
  "btf_ext_setup_line_info x = do {
     off \<leftarrow> eh_line_info_off (ext_data x);
     len \<leftarrow> eh_line_info_len (ext_data x);
     (err, i) \<leftarrow> btf_ext_setup_info (ext_data x) \<lparr>param_off = off, param_len = len, min_rec_size = 16\<rparr> (line_info x);
     Some (err, x\<lparr>line_info := i\<rparr>)
   }"

definition btf_ext_setup_core_relos :: "btf_ext \<Rightarrow> (int \<times> btf_ext) option" where
  "btf_ext_setup_core_relos x = do {
     off \<leftarrow> eh_core_relo_off (ext_data x);
     len \<leftarrow> eh_core_relo_len (ext_data x);
     (err, i) \<leftarrow> btf_ext_setup_info (ext_data x) \<lparr>param_off = off, param_len = len, min_rec_size = 16\<rparr> (core_relo_info x);
     Some (err, x\<lparr>core_relo_info := i\<rparr>)
   }"

definition btf_ext_parse_hdr :: "bytes \<Rightarrow> int option" where
  "btf_ext_parse_hdr m =
     (if length m < 8 then Some (- EINVAL)
      else do {
        hdr_len \<leftarrow> eh_hdr_len m;
        if length m < unat hdr_len then Some (- EINVAL)
        else do {
          magic \<leftarrow> eh_magic m;
          version \<leftarrow> eh_version m;
          flags \<leftarrow> eh_flags m;
          if magic = bswap_16 BTF_MAGIC then Some (- ENOTSUP)
          else if magic \<noteq> BTF_MAGIC then Some (- EINVAL)
          else if version \<noteq> BTF_VERSION then Some (- ENOTSUP)
          else if flags \<noteq> 0 then Some (- ENOTSUP)
          else if length m = unat hdr_len then Some (- EINVAL)
          else Some 0
        }
      })"

text \<open>The three parts, of which the last one is optional.  \<open>Inl\<close> is the error pointer, with the object released.\<close>

definition btf_ext_setup :: "u32 \<Rightarrow> btf_ext \<Rightarrow> (int + btf_ext) option" where
  "btf_ext_setup hl x = do {
     (err, x) \<leftarrow> btf_ext_setup_func_info x;
     if err \<noteq> 0 then Some (Inl err)
     else do {
       (err, x) \<leftarrow> btf_ext_setup_line_info x;
       if err \<noteq> 0 then Some (Inl err)
       else if unat hl < 32 then Some (Inr x)
       else do {
         (err, x) \<leftarrow> btf_ext_setup_core_relos x;
         if err \<noteq> 0 then Some (Inl err) else Some (Inr x)
       }
     }
   }"

definition btf_ext__new :: "bool \<times> bool \<Rightarrow> bytes \<Rightarrow> (int + btf_ext) option" where
  "btf_ext__new ok data =
     (if \<not> fst ok \<or> \<not> snd ok then Some (Inl (- ENOMEM))
      else do {
        let x = \<lparr>ext_data = data, func_info = no_info, line_info = no_info, core_relo_info = no_info, ext_data_size = of_nat (length data)\<rparr>;
        err \<leftarrow> btf_ext_parse_hdr data;
        if err \<noteq> 0 then Some (Inl err)
        else do {
          hdr_len \<leftarrow> eh_hdr_len data;
          if unat hdr_len < 24 then Some (Inl (- EINVAL)) else btf_ext_setup hdr_len x
        }
      })"

definition btf_ext__get_raw_data :: "btf_ext \<Rightarrow> u32 \<times> bytes" where
  "btf_ext__get_raw_data x = (ext_data_size x, ext_data x)"

definition btf_ext__func_info_rec_size :: "btf_ext \<Rightarrow> u32" where "btf_ext__func_info_rec_size x = ei_rec_size (func_info x)"
definition btf_ext__line_info_rec_size :: "btf_ext \<Rightarrow> u32" where "btf_ext__line_info_rec_size x = ei_rec_size (line_info x)"

section \<open>Relocation\<close>

text \<open>
  \<^verbatim>\<open>realloc\<close>: the bytes of the block, behind them whatever \<open>junk\<close> gives.  The lengths of type
  \<^verbatim>\<open>__u32\<close> wrap around, the offsets do not.
\<close>

definition realloc_to :: "bool \<Rightarrow> (nat \<Rightarrow> u8) \<Rightarrow> bytes \<Rightarrow> nat \<Rightarrow> bytes option" where
  "realloc_to ok junk old n = (if \<not> ok then None else Some (take n old @ map junk [length old..<n]))"

fun adjust_insns :: "bytes \<Rightarrow> nat \<Rightarrow> u32 \<Rightarrow> u32 \<Rightarrow> nat \<Rightarrow> nat \<Rightarrow> bytes option" where
  "adjust_insns d existing_len record_size insns_cnt i 0 = Some d"
| "adjust_insns d existing_len record_size insns_cnt i (Suc n) = do {
     let a = existing_len + unat (of_nat i * record_size);
     insn_off \<leftarrow> load32 d a;
     d \<leftarrow> store32 d a (insn_off div 8 + insns_cnt);
     adjust_insns d existing_len record_size insns_cnt (i + 1) n
   }"

text \<open>The loop of \<^verbatim>\<open>btf_ext_reloc_info\<close>: \<open>p\<close> is the offset of the block, \<open>buf\<close> and \<open>cnt\<close> are the records collected so far.\<close>

partial_function (option) reloc_loop ::
    "bool \<Rightarrow> (nat \<Rightarrow> u8) \<Rightarrow> btf \<Rightarrow> bytes \<Rightarrow> u32 \<Rightarrow> string \<Rightarrow> u32 \<Rightarrow> bytes \<Rightarrow> u32 \<Rightarrow> nat \<Rightarrow> u64 \<Rightarrow> (int \<times> bytes \<times> u32) option" where
  "reloc_loop ok junk btf m record_size sec_name insns_cnt buf cnt p remain_len =
     (if remain_len = 0 then Some (- ENOENT, buf, cnt)
      else do {
        num_info \<leftarrow> load32 m (p + 4);
        sec_name_off \<leftarrow> load32 m p;
        let records_len = num_info * record_size;
        name \<leftarrow> btf__name_by_offset btf (unat sec_name_off);
        info_sec_name \<leftarrow> name;
        if info_sec_name \<noteq> sec_name
        then reloc_loop ok junk btf m record_size sec_name insns_cnt buf cnt (p + 8 + unat records_len) (remain_len - ucast (8 + records_len))
        else
          let existing_len = cnt * record_size
          in case realloc_to ok junk buf (unat (existing_len + records_len)) of
               None \<Rightarrow> Some (- ENOMEM, buf, cnt)
             | Some data \<Rightarrow> do {
                 data \<leftarrow> memcpy data (unat existing_len) (drop (p + 8) m) (unat records_len);
                 data \<leftarrow> adjust_insns data (unat existing_len) record_size insns_cnt 0 (unat num_info);
                 Some (0, data, cnt + num_info)
               }
      })"

definition btf_ext_reloc_info ::
    "bool \<Rightarrow> (nat \<Rightarrow> u8) \<Rightarrow> btf \<Rightarrow> bytes \<Rightarrow> btf_ext_info \<Rightarrow> string \<Rightarrow> u32 \<Rightarrow> bytes \<Rightarrow> u32 \<Rightarrow> (int \<times> bytes \<times> u32) option" where
  "btf_ext_reloc_info ok junk btf m ext_info sec_name insns_cnt buf cnt =
     reloc_loop ok junk btf m (ei_rec_size ext_info) sec_name insns_cnt buf cnt (ei_info ext_info) (ucast (ei_len ext_info))"

definition btf_ext__reloc_func_info ::
    "bool \<Rightarrow> (nat \<Rightarrow> u8) \<Rightarrow> btf \<Rightarrow> btf_ext \<Rightarrow> string \<Rightarrow> u32 \<Rightarrow> bytes \<Rightarrow> u32 \<Rightarrow> (int \<times> bytes \<times> u32) option" where
  "btf_ext__reloc_func_info ok junk btf x = btf_ext_reloc_info ok junk btf (ext_data x) (func_info x)"

definition btf_ext__reloc_line_info ::
    "bool \<Rightarrow> (nat \<Rightarrow> u8) \<Rightarrow> btf \<Rightarrow> btf_ext \<Rightarrow> string \<Rightarrow> u32 \<Rightarrow> bytes \<Rightarrow> u32 \<Rightarrow> (int \<times> bytes \<times> u32) option" where
  "btf_ext__reloc_line_info ok junk btf x = btf_ext_reloc_info ok junk btf (ext_data x) (line_info x)"

section \<open>Visiting\<close>

text \<open>
  The loops \<^verbatim>\<open>for_each_btf_ext_rec\<close> and \<^verbatim>\<open>for_each_btf_ext_sec\<close>.  \<open>mem\<close> reads the data from the context of the
  visits, which may change it; the number of records is read again in every round.  A body returns
  a stopping value, or 0 to go on.
\<close>

function for_each_btf_ext_rec :: "('c \<Rightarrow> bytes) \<Rightarrow> u32 \<Rightarrow> nat \<Rightarrow> 'c visit_fn \<Rightarrow> nat \<Rightarrow> 'c \<Rightarrow> (int \<times> 'c) option" where
  "for_each_btf_ext_rec mem rec_size sec body i c =
     (case load32 (mem c) (sec + 4) of
        None \<Rightarrow> None
      | Some num_info \<Rightarrow>
          if i < unat num_info
          then (case body (sec + 8 + unat rec_size * i) c of
              None \<Rightarrow> None
            | Some (err, c) \<Rightarrow> if err \<noteq> 0 then Some (err, c) else for_each_btf_ext_rec mem rec_size sec body (i + 1) c)
          else Some (0, c))"
  by pat_completeness auto
termination
proof (relation "measure (\<lambda>(mem, r, sec, body, i, c). 2 ^ 32 - i)", goal_cases)
  case (2 mem rec_size sec body i c num_info)
  then show ?case using unat_u32 [of num_info] by simp
qed simp

function for_each_btf_ext_sec :: "('c \<Rightarrow> bytes) \<Rightarrow> u32 \<Rightarrow> nat \<Rightarrow> 'c visit_fn \<Rightarrow> nat \<Rightarrow> 'c \<Rightarrow> (int \<times> 'c) option" where
  "for_each_btf_ext_sec mem rec_size e body sec c =
     (if sec < e
      then (case body sec c of
          None \<Rightarrow> None
        | Some (err, c) \<Rightarrow>
            if err \<noteq> 0 then Some (err, c)
            else (case load32 (mem c) (sec + 4) of
                None \<Rightarrow> None
              | Some num_info \<Rightarrow> for_each_btf_ext_sec mem rec_size e body (sec + 8 + unat (rec_size * num_info)) c))
      else Some (0, c))"
  by pat_completeness auto
termination by (relation "measure (\<lambda>(mem, r, e, body, sec, c). e - sec)") auto

declare setup_loop.simps [simp del] for_each_btf_ext_rec.simps [simp del] for_each_btf_ext_sec.simps [simp del]

definition for_part :: "('c \<Rightarrow> bytes) \<Rightarrow> btf_ext_info \<Rightarrow> 'c visit_fn \<Rightarrow> 'c \<Rightarrow> (int \<times> 'c) option" where
  "for_part mem seg body = for_each_btf_ext_sec mem (ei_rec_size seg) (ei_info seg + unat (ei_len seg)) body (ei_info seg)"

definition stop_if_neg :: "'c visit_fn \<Rightarrow> 'c visit_fn" where
  "stop_if_neg visit a c = map_option (\<lambda>(err, c). (if err < 0 then err else 0, c)) (visit a c)"

definition btf_ext_visit_type_ids :: "('c \<Rightarrow> bytes) \<Rightarrow> btf_ext \<Rightarrow> 'c visit_fn \<Rightarrow> 'c \<Rightarrow> (int \<times> 'c) option" where
  "btf_ext_visit_type_ids mem x visit c = do {
     (err, c) \<leftarrow> for_part mem (func_info x)
       (\<lambda>sec. for_each_btf_ext_rec mem (ei_rec_size (func_info x)) sec (\<lambda>r. stop_if_neg visit (r + 4)) 0) c;
     if err \<noteq> 0 then Some (err, c)
     else for_part mem (core_relo_info x)
       (\<lambda>sec. for_each_btf_ext_rec mem (ei_rec_size (core_relo_info x)) sec (\<lambda>r. stop_if_neg visit (r + 4)) 0) c
   }"

definition btf_ext_visit_str_offs :: "('c \<Rightarrow> bytes) \<Rightarrow> btf_ext \<Rightarrow> 'c visit_fn \<Rightarrow> 'c \<Rightarrow> (int \<times> 'c) option" where
  "btf_ext_visit_str_offs mem x visit c = do {
     (err, c) \<leftarrow> for_part mem (func_info x) visit c;
     if err \<noteq> 0 then Some (err, c)
     else do {
       (err, c) \<leftarrow> for_part mem (line_info x) (\<lambda>sec c. do {
         (err, c) \<leftarrow> visit sec c;
         if err \<noteq> 0 then Some (err, c)
         else for_each_btf_ext_rec mem (ei_rec_size (line_info x)) sec (\<lambda>r. visit_each visit [r + 4, r + 8]) 0 c
       }) c;
       if err \<noteq> 0 then Some (err, c)
       else for_part mem (core_relo_info x) (\<lambda>sec c. do {
         (err, c) \<leftarrow> visit sec c;
         if err \<noteq> 0 then Some (err, c)
         else for_each_btf_ext_rec mem (ei_rec_size (core_relo_info x)) sec (\<lambda>r. visit (r + 8)) 0 c
       }) c
     }
   }"

section \<open>The format\<close>

text \<open>A block: the offset of the name of the section, and the records.\<close>

type_synonym ext_sec = "u32 \<times> bytes list"

definition sec_bytes :: "ext_sec \<Rightarrow> bytes" where
  "sec_bytes s = le_bytes (fst s) @ le_bytes (of_nat (length (snd s))) @ concat (snd s)"

definition sec_valid :: "nat \<Rightarrow> ext_sec \<Rightarrow> bool" where
  "sec_valid k s \<longleftrightarrow> snd s \<noteq> [] \<and> length (snd s) < 2 ^ 32 \<and> (\<forall>r \<in> set (snd s). length r = k)"

definition secs_bytes :: "ext_sec list \<Rightarrow> bytes" where
  "secs_bytes secs = concat (map sec_bytes secs)"

definition secs_valid :: "nat \<Rightarrow> ext_sec list \<Rightarrow> bool" where
  "secs_valid k secs \<longleftrightarrow> (\<forall>s \<in> set secs. sec_valid k s)"

lemma secs_bytes_simps [simp]: "secs_bytes [] = []" "secs_bytes (s # secs) = sec_bytes s @ secs_bytes secs"
  by (simp_all add: secs_bytes_def)

lemma secs_valid_simps [simp]: "secs_valid k []" "secs_valid k (s # secs) \<longleftrightarrow> sec_valid k s \<and> secs_valid k secs"
  by (simp_all add: secs_valid_def)

lemma length_concat_const: "\<forall>r \<in> set rs. length r = k \<Longrightarrow> length (concat rs) = length rs * k"
  by (induction rs) simp_all

lemma sec_bytes_length: "sec_valid k s \<Longrightarrow> length (sec_bytes s) = 8 + length (snd s) * k"
  by (simp add: sec_bytes_def sec_valid_def length_concat_const)

lemma chunks: "length bs = n * k \<Longrightarrow> \<exists>rs. length rs = n \<and> (\<forall>r \<in> set rs. length r = k) \<and> concat rs = bs"
proof (induction n arbitrary: bs)
  case (Suc n)
  then have "length (drop k bs) = n * k" by simp
  then obtain rs where rs: "length rs = n" "\<forall>r \<in> set rs. length r = k" "concat rs = drop k bs" using Suc.IH by blast
  then show ?case using Suc.prems by (intro exI [of _ "take k bs # rs"]) simp
qed simp

lemma sec_at:
  assumes "take left (drop p m) = sec_bytes s @ z" and "p + left \<le> length m" and "sec_valid k s"
  shows "load32 m p = Some (fst s)" "load32 m (p + 4) = Some (of_nat (length (snd s)))"
    "8 + length (snd s) * k \<le> left" "take (left - (8 + length (snd s) * k)) (drop (p + (8 + length (snd s) * k)) m) = z"
proof -
  let ?n = "8 + length (snd s) * k"
  have "m = take p m @ take left (drop p m) @ drop left (drop p m)" by (simp only: append_take_drop_id)
  then have m: "m = take p m @ le_bytes (fst s) @ le_bytes (of_nat (length (snd s))) @ concat (snd s) @ z @ drop left (drop p m)"
    unfolding assms(1) sec_bytes_def append.assoc .
  have p: "length (take p m) = p" using assms(2) by simp
  show "load32 m p = Some (fst s)" using load32_at [of "take p m" "fst s"] m p by metis
  show "load32 m (p + 4) = Some (of_nat (length (snd s)))"
    using load32_at [of "take p m @ le_bytes (fst s)" "of_nat (length (snd s))"] m p by (metis append.assoc le_bytes_length length_append)
  have l: "left = ?n + length z" using arg_cong [OF assms(1), of length] assms(2) sec_bytes_length [OF assms(3)] by simp
  then show "?n \<le> left" by simp
  have "drop ?n (take left (drop p m)) = z" using assms(1) sec_bytes_length [OF assms(3)] by simp
  then show "take (left - ?n) (drop (p + ?n) m) = z" by (simp add: drop_take add.commute)
qed

lemma take4:
  assumes "load32 m a = Some v"
  shows "take 4 (drop a m) = le_bytes v"
proof -
  have a: "a + 4 \<le> length m" "v = le32 (m ! a) (m ! (a + 1)) (m ! (a + 2)) (m ! (a + 3))"
    using assms by (simp_all add: load32_le32 split: if_splits)
  then have "take 4 (drop a m) = [m ! a, m ! (a + 1), m ! (a + 2), m ! (a + 3)]"
    by (intro nth_equalityI) (auto simp: nth_Cons' less_Suc_eq numeral_eq_Suc)
  then show ?thesis using a(2) by (simp add: le_bytes_le32)
qed

lemma sec_decode:
  assumes "load32 m (p + 4) = Some n" "n \<noteq> 0" "8 + unat n * k \<le> left" "p + left \<le> length m"
  shows "\<exists>s. sec_valid k s \<and> length (snd s) = unat n \<and> take left (drop p m) = sec_bytes s @ take (left - (8 + unat n * k)) (drop (p + (8 + unat n * k)) m)"
proof -
  define bs where "bs = take (unat n * k) (drop (p + 8) m)"
  have "length bs = unat n * k" using assms(3,4) by (simp add: bs_def)
  then obtain rs where rs: "length rs = unat n" "\<forall>r \<in> set rs. length r = k" "concat rs = bs" using chunks by blast
  obtain w where w: "load32 m p = Some w" using assms(3,4) by (simp add: load32_def)
  let ?n = "8 + unat n * k"
  have "take left (drop p m) = take 4 (drop p m) @ take 4 (drop (p + 4) m) @ bs @ take (left - ?n) (drop (p + ?n) m)"
  proof -
    have e: "left = 4 + (4 + (unat n * k + (left - ?n)))" using assms(3) by simp
    have t8: "take 8 (drop p m) = take 4 (drop p m) @ take 4 (drop (p + 4) m)" using take_add [of 4 4 "drop p m"] by (simp add: add.commute)
    show ?thesis by (subst e) (simp only: take_add drop_drop bs_def add.assoc [symmetric] add.commute [of _ p] numeral_plus_numeral, simp add: t8 add.commute add.left_commute)
  qed
  moreover have "sec_valid k (w, rs)" using rs assms(2) unat_u32 [of n] by (auto simp: sec_valid_def unat_eq_0)
  ultimately show ?thesis using take4 [OF w] take4 [OF assms(1)] rs by (intro exI [of _ "(w, rs)"]) (simp add: sec_bytes_def)
qed

section \<open>Loading accepts exactly the format\<close>

text \<open>The blocks \<open>secs\<close>, with records of \<open>k\<close> bytes, are the \<open>left\<close> bytes from \<open>p\<close> on.\<close>

definition has_secs :: "bytes \<Rightarrow> nat \<Rightarrow> nat \<Rightarrow> nat \<Rightarrow> ext_sec list \<Rightarrow> bool" where
  "has_secs m k p left secs \<longleftrightarrow> p + left \<le> length m \<and> secs_valid k secs \<and> take left (drop p m) = secs_bytes secs"

lemma has_secs_length:
  assumes "has_secs m k p left secs"
  shows "length (secs_bytes secs) = left"
proof -
  have "secs_bytes secs = take left (drop p m)" "p + left \<le> length m" using assms by (simp_all add: has_secs_def)
  then show ?thesis by simp
qed

lemma has_secs_Nil: "has_secs m k p left [] \<longleftrightarrow> left = 0 \<and> p \<le> length m"
  by (auto simp: has_secs_def)

lemma has_secs_Cons:
  assumes "has_secs m k p left (s # secs)"
  shows "load32 m p = Some (fst s)" "load32 m (p + 4) = Some (of_nat (length (snd s)))" "sec_valid k s" "8 + length (snd s) * k \<le> left"
    "has_secs m k (p + (8 + length (snd s) * k)) (left - (8 + length (snd s) * k)) secs"
    "unat (of_nat (length (snd s)) :: u32) = length (snd s)"
proof -
  have a: "take left (drop p m) = sec_bytes s @ secs_bytes secs" "p + left \<le> length m" "sec_valid k s" "secs_valid k secs"
    using assms by (simp_all add: has_secs_def)
  note at = sec_at [OF a(1-3)]
  show "load32 m p = Some (fst s)" "load32 m (p + 4) = Some (of_nat (length (snd s)))" "sec_valid k s" "8 + length (snd s) * k \<le> left"
    using at a(3) by simp_all
  show "has_secs m k (p + (8 + length (snd s) * k)) (left - (8 + length (snd s) * k)) secs"
    using at(3,4) a by (simp add: has_secs_def)
  show "unat (of_nat (length (snd s)) :: u32) = length (snd s)" using a(3) by (intro unat_of_nat_u32) (simp add: sec_valid_def)
qed

lemma has_secs_step:
  assumes "load32 m (p + 4) = Some n" "n \<noteq> 0" "8 + unat n * k \<le> left" "p + left \<le> length m"
    and "has_secs m k (p + (8 + unat n * k)) (left - (8 + unat n * k)) secs"
  obtains s where "has_secs m k p left (s # secs)"
  using sec_decode [OF assms(1-4)] assms(4,5) that by (auto simp: has_secs_def)

lemma setup_loop_secs: "has_secs m (unat rs) p left secs \<Longrightarrow> setup_loop m rs p left c = Some (0, c + length secs)"
proof (induction secs arbitrary: p left c)
  case (Cons s secs)
  note h = has_secs_Cons [OF Cons.prems]
  have "(of_nat (length (snd s)) :: u32) \<noteq> 0" using h(3,6) by (metis length_0_conv sec_valid_def unsigned_0)
  then have "setup_loop m rs p left c = setup_loop m rs (p + (8 + length (snd s) * unat rs)) (left - (8 + length (snd s) * unat rs)) (c + 1)"
    using h(2,4,6) by (subst setup_loop.simps) (simp add: Let_def)
  then show ?case using Cons.IH [OF h(5)] by simp
qed (simp add: has_secs_Nil setup_loop.simps)

lemma setup_loop_cases:
  assumes "p + left \<le> length m"
  shows "(\<exists>secs. has_secs m (unat rs) p left secs) \<or> (\<exists>n. setup_loop m rs p left c = Some (- EINVAL, n))"
  using assms
proof (induction m rs p left c rule: setup_loop.induct)
  case (1 m rs p left c)
  consider (e) "left = 0" | (short) "left \<noteq> 0" "left < 8" | (ge) "8 \<le> left" by linarith
  then show ?case
  proof cases
    case e
    then show ?thesis using has_secs_Nil [of m "unat rs" p left] 1(2) by auto
  next
    case ge
    then obtain n where n: "load32 m (p + 4) = Some n" using 1(2) by (simp add: load32_def)
    let ?t = "8 + unat n * unat rs"
    show ?thesis
    proof (cases "n = 0 \<or> left < ?t")
      case False
      then have nz: "n \<noteq> 0" "?t \<le> left" by simp_all
      have d: "setup_loop m rs p left c = setup_loop m rs (p + ?t) (left - ?t) (c + 1)" using ge n False by (subst setup_loop.simps) (simp add: Let_def)
      have l: "p + ?t + (left - ?t) \<le> length m" using 1(2) nz(2) by simp
      have "(\<exists>secs. has_secs m (unat rs) (p + ?t) (left - ?t) secs) \<or> (\<exists>k. setup_loop m rs (p + ?t) (left - ?t) (c + 1) = Some (- EINVAL, k))"
        using 1(1) [OF _ _ n nz(1) refl _ l] ge False by (simp add: not_less)
      then show ?thesis unfolding d using has_secs_step [OF n nz 1(2)] by blast
    qed (use ge n in \<open>auto simp: Let_def setup_loop.simps\<close>)
  qed (simp add: setup_loop.simps)
qed

text \<open>What a part has to be, from its offset and length in the header, and the description of it that loading gives.\<close>

definition part_valid :: "bytes \<Rightarrow> nat \<Rightarrow> nat \<Rightarrow> u32 \<Rightarrow> u32 \<Rightarrow> bool" where
  "part_valid m hl least off len \<longleftrightarrow> len = 0 \<or>
     4 dvd unat off \<and> hl + unat off + unat len \<le> length m \<and>
     (\<exists>rs secs. least \<le> unat rs \<and> 4 dvd unat rs \<and> secs \<noteq> [] \<and> secs_valid (unat rs) secs \<and>
        take (unat len) (drop (hl + unat off) m) = le_bytes rs @ secs_bytes secs)"

definition info_has :: "bytes \<Rightarrow> nat \<Rightarrow> btf_ext_info \<Rightarrow> ext_sec list \<Rightarrow> bool" where
  "info_has m least i secs \<longleftrightarrow> (if secs = [] then i = no_info
     else least \<le> unat (ei_rec_size i) \<and> has_secs m (unat (ei_rec_size i)) (ei_info i) (unat (ei_len i)) secs \<and> ei_sec_cnt i = to_int (int (length secs)))"

text \<open>
  What is recorded of a part that the header puts at \<open>off\<close> behind the header, with length \<open>len\<close>: nothing when it is empty, else where
  its blocks are, their length, the record size, which is the first word of the part, and their number.
\<close>

definition part_recorded :: "bytes \<Rightarrow> nat \<Rightarrow> u32 \<Rightarrow> u32 \<Rightarrow> btf_ext_info \<Rightarrow> ext_sec list \<Rightarrow> bool" where
  "part_recorded m hl off len i secs \<longleftrightarrow>
     (if len = 0 then i = no_info \<and> secs = []
      else ei_info i = hl + unat off + 4 \<and> unat (ei_len i) + 4 = unat len \<and> load32 m (hl + unat off) = Some (ei_rec_size i) \<and>
        ei_sec_cnt i = int (length secs) \<and> secs \<noteq> [] \<and> secs_valid (unat (ei_rec_size i)) secs \<and>
        take (unat len - 4) (drop (hl + unat off + 4) m) = secs_bytes secs)"

lemma and_3: "(x :: u32) AND 3 = 0 \<longleftrightarrow> 4 dvd unat x"
proof -
  have "x AND 3 = take_bit 2 x" by (simp add: take_bit_eq_mask mask_eq_exp_minus_1)
  then have "unat (x AND 3) = unat x mod 4" by (simp add: take_bit_eq_mod unat_mod_distrib)
  then show ?thesis by (metis dvd_eq_mod_eq_0 unat_eq_0)
qed

lemma le_bytes_inj: "le_bytes v = le_bytes w \<longleftrightarrow> v = w"
  by (metis append_Nil2 bytes_words_bytes list.inject words_bytes_simps)

lemma part_bytes:
  assumes "load32 m a = Some r" "4 \<le> len" "a + len \<le> length m"
  shows "(\<exists>rs secs. least \<le> unat rs \<and> 4 dvd unat rs \<and> secs \<noteq> [] \<and> secs_valid (unat rs) secs \<and> take len (drop a m) = le_bytes rs @ secs_bytes secs) \<longleftrightarrow>
    least \<le> unat r \<and> 4 dvd unat r \<and> (\<exists>secs. secs \<noteq> [] \<and> has_secs m (unat r) (a + 4) (len - 4) secs)"
proof -
  have "take len (drop a m) = take 4 (drop a m) @ take (len - 4) (drop (a + 4) m)"
    using take_add [of 4 "len - 4" "drop a m"] assms(2) by (simp add: add.commute)
  then have t: "take len (drop a m) = le_bytes r @ take (len - 4) (drop (a + 4) m)" using take4 [OF assms(1)] by simp
  have "take len (drop a m) = le_bytes rs @ secs_bytes secs \<longleftrightarrow> rs = r \<and> take (len - 4) (drop (a + 4) m) = secs_bytes secs" for rs secs
    unfolding t using le_bytes_inj by auto
  then show ?thesis using assms(2,3) by (auto simp: has_secs_def)
qed

lemma secs_bytes_nonempty: "secs \<noteq> [] \<Longrightarrow> 8 \<le> length (secs_bytes secs)"
  by (cases secs) (simp_all add: sec_bytes_def)

text \<open>\<open>setup_ok\<close>: the result of setting up a part, against its format.\<close>

definition setup_ok :: "bytes \<Rightarrow> nat \<Rightarrow> nat \<Rightarrow> u32 \<Rightarrow> u32 \<Rightarrow> (int \<times> btf_ext_info) option \<Rightarrow> bool" where
  "setup_ok m hl least off len r \<longleftrightarrow> (\<exists>err i. r = Some (err, i) \<and>
     (if err = 0 then part_valid m hl least off len \<and> (\<exists>secs. info_has m least i secs \<and> part_recorded m hl off len i secs)
      else err = - EINVAL \<and> \<not> part_valid m hl least off len))"

lemma setup_ok_refused: "\<not> part_valid m hl least off len \<Longrightarrow> setup_ok m hl least off len (Some (- EINVAL, i))"
  by (simp add: setup_ok_def EINVAL_def)

lemma length_secs_bytes: "8 * length secs \<le> length (secs_bytes secs)"
  by (induction secs) (simp_all add: sec_bytes_def)

lemma setup_info_fits:
  assumes h: "eh_hdr_len m = Some h"
    and ok: "len \<noteq> 0" "4 dvd unat off" "unat h + unat off + unat len \<le> length m" "4 \<le> unat len"
  shows "setup_ok m (unat h) least off len (btf_ext_setup_info m \<lparr>param_off = off, param_len = len, min_rec_size = least\<rparr> no_info)"
proof -
  let ?a = "unat h + unat off" and ?l = "unat len - 4"
  let ?V = "part_valid m (unat h) least off len" and ?S = "btf_ext_setup_info m \<lparr>param_off = off, param_len = len, min_rec_size = least\<rparr> no_info"
  obtain r where r: "load32 m ?a = Some r" using ok(3,4) by (simp add: load32_def)
  have V: "?V \<longleftrightarrow> least \<le> unat r \<and> 4 dvd unat r \<and> (\<exists>secs. secs \<noteq> [] \<and> has_secs m (unat r) (?a + 4) ?l secs)"
    using part_bytes [OF r ok(4), of least] ok(1-3) by (simp add: part_valid_def)
  have S: "?S = (if unat r < least \<or> \<not> 4 dvd unat r \<or> ?l = 0 then Some (- EINVAL, no_info)
      else do {
        (err, sec_cnt) \<leftarrow> setup_loop m r (?a + 4) ?l 0;
        if err \<noteq> 0 then Some (err, no_info)
        else Some (0, no_info\<lparr>ei_len := len - 4, ei_rec_size := r, ei_info := ?a + 4, ei_sec_cnt := to_int (int sec_cnt)\<rparr>)
      })"
    unfolding btf_ext_setup_info_def btf_ext_sec_setup_param.select_convs using h ok r by (simp add: and_3 Let_def)
  have l: "?a + 4 + ?l \<le> length m" using ok(3,4) by simp
  consider (bad) "unat r < least \<or> \<not> 4 dvd unat r \<or> ?l = 0"
    | (fail) n where "setup_loop m r (?a + 4) ?l 0 = Some (- EINVAL, n)" "\<not> (unat r < least \<or> \<not> 4 dvd unat r \<or> ?l = 0)"
    | (good) secs where "has_secs m (unat r) (?a + 4) ?l secs" "least \<le> unat r" "4 dvd unat r" "?l \<noteq> 0"
    using setup_loop_cases [OF l, of r 0] by (meson not_le)
  then show ?thesis
  proof cases
    case bad
    have "?l \<noteq> 0" if "has_secs m (unat r) (?a + 4) ?l secs" "secs \<noteq> []" for secs
      using has_secs_length [OF that(1)] secs_bytes_nonempty [OF that(2)] by linarith
    then have "\<not> ?V" unfolding V using bad by auto
    then show ?thesis using S bad setup_ok_refused by simp
  next
    case fail
    then have "\<not> has_secs m (unat r) (?a + 4) ?l secs" for secs
      using setup_loop_secs [of m r _ _ secs 0] by (auto simp: EINVAL_def)
    then show ?thesis using S fail V setup_ok_refused by (simp add: EINVAL_def)
  next
    case good
    then have ne: "secs \<noteq> []" by (auto simp: has_secs_Nil)
    let ?i = "no_info\<lparr>ei_len := len - 4, ei_rec_size := r, ei_info := ?a + 4, ei_sec_cnt := to_int (int (length secs))\<rparr>"
    have "?S = Some (0, ?i)" using S good setup_loop_secs [OF good(1), of 0] by simp
    moreover have "unat (len - 4) = ?l" using ok(4) by (simp add: unat_sub word_le_nat_alt)
    then have "info_has m least ?i secs" "unat (ei_len ?i) + 4 = unat len" using good ne ok(4) by (simp_all add: info_has_def)
    moreover have "part_recorded m (unat h) off len ?i secs"
    proof -
      have "8 * length secs < 4294967296" using length_secs_bytes [of secs] has_secs_length [OF good(1)] unat_u32 [of len] by linarith
      then have "to_int (int (length secs)) = int (length secs)" by (intro to_int_in) simp_all
      then show ?thesis using calculation(3) r good(1) ok(1) ne unfolding part_recorded_def has_secs_def by simp
    qed
    ultimately show ?thesis using V good ne by (auto simp: setup_ok_def)
  qed
qed

lemma setup_info_spec:
  assumes h: "eh_hdr_len m = Some h"
  shows "setup_ok m (unat h) least off len (btf_ext_setup_info m \<lparr>param_off = off, param_len = len, min_rec_size = least\<rparr> no_info)"
proof -
  let ?a = "unat h + unat off" and ?V = "part_valid m (unat h) least off len"
  consider (z) "len = 0" | (al) "len \<noteq> 0" "\<not> 4 dvd unat off" | (out) "len \<noteq> 0" "4 dvd unat off" "length m < ?a + unat len"
    | (short) "len \<noteq> 0" "4 dvd unat off" "?a + unat len \<le> length m" "unat len < 4"
    | (fit) "len \<noteq> 0" "4 dvd unat off" "?a + unat len \<le> length m" "4 \<le> unat len" by (meson not_le)
  then show ?thesis
  proof cases
    case z
    then show ?thesis by (simp add: btf_ext_setup_info_def part_valid_def info_has_def part_recorded_def setup_ok_def exI [of _ "[]"])
  next
    case al
    then have "\<not> ?V" by (simp add: part_valid_def)
    then show ?thesis using al setup_ok_refused by (simp add: btf_ext_setup_info_def and_3)
  next
    case out
    then have "\<not> ?V" by (simp add: part_valid_def)
    then show ?thesis using out h setup_ok_refused by (simp add: btf_ext_setup_info_def and_3)
  next
    case short
    have "\<not> ?V"
    proof
      assume "?V"
      then obtain rs secs where "take (unat len) (drop ?a m) = le_bytes rs @ secs_bytes secs" using short(1) by (auto simp: part_valid_def)
      then have "length (take (unat len) (drop ?a m)) = 4 + length (secs_bytes secs)" by simp
      then show False using short(4) by simp
    qed
    then show ?thesis using h short setup_ok_refused by (simp add: btf_ext_setup_info_def and_3)
  qed (use setup_info_fits [OF h] in blast)
qed

text \<open>Data that loads.\<close>

definition ext_hdr_valid :: "bytes \<Rightarrow> u32 \<Rightarrow> bool" where
  "ext_hdr_valid m h \<longleftrightarrow> eh_hdr_len m = Some h \<and> unat h < length m \<and> 24 \<le> unat h \<and>
     eh_magic m = Some BTF_MAGIC \<and> eh_version m = Some BTF_VERSION \<and> eh_flags m = Some 0"

definition ext_parts_valid :: "bytes \<Rightarrow> nat \<Rightarrow> bool" where
  "ext_parts_valid m hl \<longleftrightarrow>
     part_valid m hl 8 (the (eh_func_info_off m)) (the (eh_func_info_len m)) \<and>
     part_valid m hl 16 (the (eh_line_info_off m)) (the (eh_line_info_len m)) \<and>
     (32 \<le> hl \<longrightarrow> part_valid m hl 16 (the (eh_core_relo_off m)) (the (eh_core_relo_len m)))"

definition ext_valid :: "bytes \<Rightarrow> bool" where
  "ext_valid m \<longleftrightarrow> (\<exists>h. ext_hdr_valid m h \<and> ext_parts_valid m (unat h))"

text \<open>The object, with the blocks of its three parts.\<close>

definition ext_has :: "btf_ext \<Rightarrow> ext_sec list \<Rightarrow> ext_sec list \<Rightarrow> ext_sec list \<Rightarrow> bool" where
  "ext_has x fs ls cs \<longleftrightarrow> info_has (ext_data x) 8 (func_info x) fs \<and> info_has (ext_data x) 16 (line_info x) ls \<and>
     info_has (ext_data x) 16 (core_relo_info x) cs"

text \<open>
  The object describes the parts that the words of the header give: function information at 8 and 12, line information at 16 and 20,
  and relocations at 24 and 28 if the header has these words.
\<close>

definition ext_describes :: "btf_ext \<Rightarrow> bytes \<Rightarrow> nat \<Rightarrow> ext_sec list \<Rightarrow> ext_sec list \<Rightarrow> ext_sec list \<Rightarrow> bool" where
  "ext_describes x m hl fs ls cs \<longleftrightarrow> (\<exists>fo fl lo ll. load32 m 8 = Some fo \<and> load32 m 12 = Some fl \<and> load32 m 16 = Some lo \<and> load32 m 20 = Some ll \<and>
     part_recorded m hl fo fl (func_info x) fs \<and> part_recorded m hl lo ll (line_info x) ls) \<and>
     (if hl < 32 then core_relo_info x = no_info \<and> cs = []
      else \<exists>co cl. load32 m 24 = Some co \<and> load32 m 28 = Some cl \<and> part_recorded m hl co cl (core_relo_info x) cs)"

lemmas eh_words = eh_func_info_off_def eh_func_info_len_def eh_line_info_off_def eh_line_info_len_def eh_core_relo_off_def eh_core_relo_len_def

lemma parse_hdr_cases:
  obtains (ok) h where "btf_ext_parse_hdr m = Some 0" "eh_hdr_len m = Some h" "unat h < length m"
      "eh_magic m = Some BTF_MAGIC" "eh_version m = Some BTF_VERSION" "eh_flags m = Some 0"
  | (bad) e where "btf_ext_parse_hdr m = Some e" "e = - EINVAL \<or> e = - ENOTSUP" "\<And>h. \<not> ext_hdr_valid m h"
proof (cases "length m < 8")
  case True
  then have "eh_hdr_len m = None" by (simp add: eh_hdr_len_def load32_def)
  then show ?thesis using bad [of "- EINVAL"] True by (simp add: btf_ext_parse_hdr_def ext_hdr_valid_def)
next
  case False
  obtain h g v f where l: "eh_hdr_len m = Some h" "eh_magic m = Some g" "eh_version m = Some v" "eh_flags m = Some f"
    using False by (simp add: eh_hdr_len_def eh_magic_def eh_version_def eh_flags_def load32_def load16_def load8_def)
  show ?thesis
  proof (cases "unat h < length m \<and> g = BTF_MAGIC \<and> v = BTF_VERSION \<and> f = 0")
    case True
    have "BTF_MAGIC \<noteq> bswap_16 BTF_MAGIC" by (simp add: BTF_MAGIC_def bpf_swab16_def bpf_mvb_def)
    then show ?thesis using ok [of h] l True False by (simp add: btf_ext_parse_hdr_def)
  next
    case b: False
    then have "\<not> ext_hdr_valid m h'" for h' using l by (auto simp: ext_hdr_valid_def)
    moreover have "btf_ext_parse_hdr m \<in> {Some (- EINVAL), Some (- ENOTSUP)}" using l False b by (auto simp: btf_ext_parse_hdr_def)
    ultimately show ?thesis using bad by blast
  qed
qed

lemma hdr_fields:
  assumes "24 \<le> length m"
  obtains fo fl lo ll where "eh_func_info_off m = Some fo" "eh_func_info_len m = Some fl" "eh_line_info_off m = Some lo" "eh_line_info_len m = Some ll"
  using assms by (simp add: eh_func_info_off_def eh_func_info_len_def eh_line_info_off_def eh_line_info_len_def load32_def)

lemma setup_parts:
  assumes h: "eh_hdr_len (ext_data x) = Some h" "24 \<le> unat h" "unat h < length (ext_data x)"
    and x: "func_info x = no_info" "line_info x = no_info" "core_relo_info x = no_info"
  shows "\<exists>r. btf_ext_setup h x = Some r \<and> (case r of Inl e \<Rightarrow> e = - EINVAL \<and> \<not> ext_parts_valid (ext_data x) (unat h)
      | Inr x' \<Rightarrow> ext_parts_valid (ext_data x) (unat h) \<and> ext_data x' = ext_data x \<and> ext_data_size x' = ext_data_size x \<and>
          (\<exists>fs ls cs. ext_has x' fs ls cs \<and> ext_describes x' (ext_data x) (unat h) fs ls cs))"
proof -
  let ?m = "ext_data x"
  obtain fo fl lo ll where l: "eh_func_info_off ?m = Some fo" "eh_func_info_len ?m = Some fl" "eh_line_info_off ?m = Some lo" "eh_line_info_len ?m = Some ll"
    by (rule hdr_fields [of ?m]) (use h in linarith)
  obtain e1 i1 where 1: "btf_ext_setup_info ?m \<lparr>param_off = fo, param_len = fl, min_rec_size = 8\<rparr> no_info = Some (e1, i1)"
    "if e1 = 0 then part_valid ?m (unat h) 8 fo fl \<and> (\<exists>secs. info_has ?m 8 i1 secs \<and> part_recorded ?m (unat h) fo fl i1 secs) else e1 = - EINVAL \<and> \<not> part_valid ?m (unat h) 8 fo fl"
    using setup_info_spec [OF h(1), of 8 fo fl] unfolding setup_ok_def by blast
  obtain e2 i2 where 2: "btf_ext_setup_info ?m \<lparr>param_off = lo, param_len = ll, min_rec_size = 16\<rparr> no_info = Some (e2, i2)"
    "if e2 = 0 then part_valid ?m (unat h) 16 lo ll \<and> (\<exists>secs. info_has ?m 16 i2 secs \<and> part_recorded ?m (unat h) lo ll i2 secs) else e2 = - EINVAL \<and> \<not> part_valid ?m (unat h) 16 lo ll"
    using setup_info_spec [OF h(1), of 16 lo ll] unfolding setup_ok_def by blast
  have n: "info_has ?m 16 no_info []" by (simp add: info_has_def)
  have f: "btf_ext_setup_func_info x = Some (e1, x\<lparr>func_info := i1\<rparr>)" using l 1(1) x by (simp add: btf_ext_setup_func_info_def)
  have g: "btf_ext_setup_line_info (x\<lparr>func_info := i1\<rparr>) = Some (e2, x\<lparr>func_info := i1, line_info := i2\<rparr>)"
    using l 2(1) x by (simp add: btf_ext_setup_line_info_def)
  let ?x = "x\<lparr>func_info := i1, line_info := i2\<rparr>"
  consider (e1) "e1 \<noteq> 0" | (e2) "e1 = 0" "e2 \<noteq> 0" | (two) "e1 = 0" "e2 = 0" "unat h < 32" | (three) "e1 = 0 \<and> e2 = 0 \<and> 32 \<le> unat h" by linarith
  then show ?thesis
  proof cases
    case e1
    then have "\<not> ext_parts_valid ?m (unat h)" "e1 = - EINVAL" using 1(2) l by (simp_all add: ext_parts_valid_def)
    then show ?thesis using e1 f by (simp add: btf_ext_setup_def)
  next
    case e2
    then have "\<not> ext_parts_valid ?m (unat h)" "e2 = - EINVAL" using 2(2) l by (simp_all add: ext_parts_valid_def)
    then show ?thesis using e2 f g by (simp add: btf_ext_setup_def)
  next
    case two
    have "ext_parts_valid ?m (unat h)" using two 1(2) 2(2) l by (simp add: ext_parts_valid_def)
    moreover obtain fs ls where "info_has ?m 8 i1 fs" "part_recorded ?m (unat h) fo fl i1 fs" "info_has ?m 16 i2 ls" "part_recorded ?m (unat h) lo ll i2 ls"
      using two 1(2) 2(2) by auto
    then have "ext_has ?x fs ls [] \<and> ext_describes ?x ?m (unat h) fs ls []" using two(3) n x(3) l by (simp add: ext_has_def ext_describes_def eh_words)
    then have "\<exists>fs ls cs. ext_has ?x fs ls cs \<and> ext_describes ?x ?m (unat h) fs ls cs" by blast
    ultimately show ?thesis using two f g by (simp add: btf_ext_setup_def)
  next
    case three
    note True = three
    obtain co cl where c: "eh_core_relo_off ?m = Some co" "eh_core_relo_len ?m = Some cl"
      using h True by (simp add: eh_core_relo_off_def eh_core_relo_len_def load32_def)
    obtain e3 i3 where 3: "btf_ext_setup_info ?m \<lparr>param_off = co, param_len = cl, min_rec_size = 16\<rparr> no_info = Some (e3, i3)"
      "if e3 = 0 then part_valid ?m (unat h) 16 co cl \<and> (\<exists>secs. info_has ?m 16 i3 secs \<and> part_recorded ?m (unat h) co cl i3 secs) else e3 = - EINVAL \<and> \<not> part_valid ?m (unat h) 16 co cl"
      using setup_info_spec [OF h(1), of 16 co cl] unfolding setup_ok_def by blast
    have k: "btf_ext_setup_core_relos ?x = Some (e3, ?x\<lparr>core_relo_info := i3\<rparr>)" using c 3(1) x by (simp add: btf_ext_setup_core_relos_def)
    show ?thesis
    proof (cases "e3 = 0")
      case e3: True
      obtain fs ls cs where "info_has ?m 8 i1 fs" "part_recorded ?m (unat h) fo fl i1 fs" "info_has ?m 16 i2 ls" "part_recorded ?m (unat h) lo ll i2 ls"
        "info_has ?m 16 i3 cs" "part_recorded ?m (unat h) co cl i3 cs"
        using 1(2) 2(2) 3(2) True e3 by auto
      then have "ext_has (?x\<lparr>core_relo_info := i3\<rparr>) fs ls cs \<and> ext_describes (?x\<lparr>core_relo_info := i3\<rparr>) ?m (unat h) fs ls cs"
        using True l c by (simp add: ext_has_def ext_describes_def eh_words)
      then have "\<exists>fs ls cs. ext_has (?x\<lparr>core_relo_info := i3\<rparr>) fs ls cs \<and> ext_describes (?x\<lparr>core_relo_info := i3\<rparr>) ?m (unat h) fs ls cs" by blast
      moreover have "ext_parts_valid ?m (unat h)" using 1(2) 2(2) 3(2) True e3 l c by (simp add: ext_parts_valid_def)
      ultimately show ?thesis using f g k True e3 by (simp add: btf_ext_setup_def)
    next
      case e3: False
      then have "\<not> ext_parts_valid ?m (unat h)" using 3(2) c True by (simp add: ext_parts_valid_def)
      then show ?thesis using f g k True e3 3(2) by (simp add: btf_ext_setup_def)
    qed
  qed
qed

text \<open>
  C28. Loading extension data: whatever bytes it is given, \<^verbatim>\<open>btf_ext__new\<close> reads only inside its copy
  of them, and unless an allocation fails it accepts them exactly when the header is right and each
  part is empty or a record size followed by blocks that fill it completely, each with at least
  one record.  The object that it gives describes these parts: it has the data and its size, and for each part that the
  header gives with a length other than 0 the place behind the record size, the length that is left, the record size and the
  number of the blocks which the bytes there are; nothing for the others.
\<close>

theorem btf_ext__new_exact:
  "\<exists>r. btf_ext__new ok data = Some r \<and>
    (case r of
       Inl e \<Rightarrow> e = - ENOMEM \<and> ok \<noteq> (True, True) \<or> (e = - EINVAL \<or> e = - ENOTSUP) \<and> \<not> ext_valid data
     | Inr x \<Rightarrow> ok = (True, True) \<and> ext_valid data \<and> ext_data x = data \<and> ext_data_size x = of_nat (length data) \<and>
         (\<exists>h fs ls cs. load32 data 4 = Some h \<and> ext_describes x data (unat h) fs ls cs))"
proof (cases "ok = (True, True)")
  case True
  let ?x = "\<lparr>ext_data = data, func_info = no_info, line_info = no_info, core_relo_info = no_info, ext_data_size = of_nat (length data)\<rparr>"
  show ?thesis
  proof (rule parse_hdr_cases [of data])
    fix h assume h: "btf_ext_parse_hdr data = Some 0" "eh_hdr_len data = Some h" "unat h < length data"
      "eh_magic data = Some BTF_MAGIC" "eh_version data = Some BTF_VERSION" "eh_flags data = Some 0"
    show ?thesis
    proof (cases "unat h < 24")
      case sh: True
      then have "\<not> ext_valid data" using h(2) by (auto simp: ext_valid_def ext_hdr_valid_def)
      then show ?thesis using True h sh by (simp add: btf_ext__new_def)
    next
      case False
      then have v: "ext_valid data \<longleftrightarrow> ext_parts_valid data (unat h)" using h by (auto simp: ext_valid_def ext_hdr_valid_def)
      have e: "btf_ext__new ok data = btf_ext_setup h ?x" using h(1,2) True False by (simp add: btf_ext__new_def Let_def)
      have "eh_hdr_len (ext_data ?x) = Some h" "24 \<le> unat h" "unat h < length (ext_data ?x)" using h(2,3) False by simp_all
      then obtain r where r: "btf_ext_setup h ?x = Some r" "case r of Inl e \<Rightarrow> e = - EINVAL \<and> \<not> ext_parts_valid (ext_data ?x) (unat h)
          | Inr x' \<Rightarrow> ext_parts_valid (ext_data ?x) (unat h) \<and> ext_data x' = ext_data ?x \<and> ext_data_size x' = ext_data_size ?x \<and>
            (\<exists>fs ls cs. ext_has x' fs ls cs \<and> ext_describes x' (ext_data ?x) (unat h) fs ls cs)"
        using setup_parts [of ?x h] by (simp only: btf_ext.select_convs simp_thms) blast
      then show ?thesis using e v True h(2) [unfolded eh_hdr_len_def] by (cases r) auto
    qed
  next
    fix e assume "btf_ext_parse_hdr data = Some e" "e = - EINVAL \<or> e = - ENOTSUP" "\<And>h. \<not> ext_hdr_valid data h"
    then show ?thesis using True by (auto simp: btf_ext__new_def ext_valid_def EINVAL_def ENOTSUP_def)
  qed
qed (cases ok, auto simp: btf_ext__new_def)

section \<open>Relocation of the records of a section\<close>

definition shift_insn :: "u32 \<Rightarrow> bytes \<Rightarrow> bytes" where
  "shift_insn insns_cnt r = le_bytes (the (load32 r 0) div 8 + insns_cnt) @ drop 4 r"

lemma unat_mult_small: "i * unat k < 2 ^ 32 \<Longrightarrow> unat (of_nat i * k :: u32) = i * unat k"
  by (simp add: unat_word_ariths unsigned_of_nat take_bit_eq_mod mod_mult_left_eq)

lemma adjust_insns_ok:
  assumes "\<forall>r \<in> set rs. length r = unat k" "4 \<le> unat k" "length pre = e + i * unat k" "(i + length rs) * unat k < 2 ^ 32"
  shows "adjust_insns (pre @ concat rs @ z) e k insns_cnt i (length rs) = Some (pre @ concat (map (shift_insn insns_cnt) rs) @ z)"
  using assms
proof (induction rs arbitrary: pre i)
  case (Cons r rs)
  obtain w where w: "load32 r 0 = Some w" using Cons.prems(1,2) by (simp add: load32_def)
  have r: "r = le_bytes w @ drop 4 r" using take4 [OF w] append_take_drop_id [of 4 r] by simp
  have "i * unat k < 2 ^ 32" using Cons.prems(4) by (simp add: algebra_simps)
  then have a: "e + unat (of_nat i * k) = length pre" using unat_mult_small Cons.prems(3) by simp
  let ?d = "pre @ concat (r # rs) @ z" and ?v = "w div 8 + insns_cnt"
  have d: "?d = pre @ le_bytes w @ drop 4 r @ concat rs @ z" by (subst r) simp
  have ld: "load32 ?d (length pre) = Some w" unfolding d by (rule load32_at)
  have st: "store32 ?d (length pre) ?v = Some (pre @ le_bytes ?v @ drop 4 r @ concat rs @ z)" unfolding d by (subst store32_eq) simp_all
  have sh: "shift_insn insns_cnt r = le_bytes ?v @ drop 4 r" using w by (simp add: shift_insn_def)
  have l: "length (pre @ shift_insn insns_cnt r) = e + (i + 1) * unat k" using Cons.prems(1-3) sh by simp
  have p: "\<forall>r \<in> set rs. length r = unat k" "(i + 1 + length rs) * unat k < 2 ^ 32" using Cons.prems(1,4) by simp_all
  have "adjust_insns ?d e k insns_cnt i (length (r # rs)) = adjust_insns ((pre @ shift_insn insns_cnt r) @ concat rs @ z) e k insns_cnt (i + 1) (length rs)"
    using a ld st sh by simp
  also have "\<dots> = Some (pre @ concat (map (shift_insn insns_cnt) (r # rs)) @ z)" using Cons.IH [OF p(1) Cons.prems(2) l p(2)] by simp
  finally show ?case .
qed simp

definition sec_named :: "btf \<Rightarrow> string \<Rightarrow> ext_sec \<Rightarrow> bool" where
  "sec_named btf name s \<longleftrightarrow> btf__name_by_offset btf (unat (fst s)) = Some (Some name)"

text \<open>The records of the first block of that name are appended, with their instruction offsets moved.\<close>

definition reloc_spec :: "bool \<Rightarrow> btf \<Rightarrow> ext_sec list \<Rightarrow> string \<Rightarrow> u32 \<Rightarrow> bytes \<Rightarrow> u32 \<Rightarrow> int \<times> bytes \<times> u32" where
  "reloc_spec ok btf secs name insns_cnt buf cnt = (case find (sec_named btf name) secs of
       None \<Rightarrow> (- ENOENT, buf, cnt)
     | Some s \<Rightarrow> if ok then (0, buf @ concat (map (shift_insn insns_cnt) (snd s)), cnt + of_nat (length (snd s))) else (- ENOMEM, buf, cnt))"

lemma reloc_found:
  assumes h: "has_secs m (unat k) p left (s # secs)" and k: "4 \<le> unat k" and s: "sec_named btf name s"
    and buf: "length buf = unat cnt * unat k" "(unat cnt + length (snd s)) * unat k < 2 ^ 32" and left: "left < 2 ^ 32"
  shows "reloc_loop ok junk btf m k name insns_cnt buf cnt p (of_nat left) = Some (reloc_spec ok btf (s # secs) name insns_cnt buf cnt)"
proof -
  note a = has_secs_Cons [OF h]
  let ?n = "length (snd s)"
  have v: "\<forall>r \<in> set (snd s). length r = unat k" using a(3) by (simp add: sec_valid_def)
  have "?n * unat k < 2 ^ 32" "unat cnt * unat k < 2 ^ 32" using buf(2) by (simp_all add: algebra_simps)
  then have u: "unat (of_nat ?n * k) = ?n * unat k" "unat (cnt * k) = unat cnt * unat k" using unat_mult_small [of ?n k] unat_mult_small [of "unat cnt" k] by simp_all
  then have u2: "unat (cnt * k + of_nat ?n * k) = unat cnt * unat k + ?n * unat k" using unat_add_lem [of "cnt * k" "of_nat ?n * k"] buf(2) by (simp add: distrib_right)
  have nz: "(of_nat left :: u64) \<noteq> 0" using a(4) left by (simp add: word_unat_eq_iff unsigned_of_nat take_bit_nat_eq_self)
  have bs: "take (?n * unat k) (drop (p + 8) m) = concat (snd s)" "?n * unat k \<le> length (drop (p + 8) m)"
  proof -
    have "take left (drop p m) = sec_bytes s @ secs_bytes secs" "p + left \<le> length m" using h by (simp_all add: has_secs_def)
    then have "take (?n * unat k) (drop 8 (take left (drop p m))) = concat (snd s)" "p + left \<le> length m"
      using length_concat_const [OF v] by (simp_all add: sec_bytes_def)
    then show "take (?n * unat k) (drop (p + 8) m) = concat (snd s)" "?n * unat k \<le> length (drop (p + 8) m)"
      using a(4) by (simp_all add: drop_take add.commute)
  qed
  show ?thesis
  proof (cases ok)
    case False
    then show ?thesis using nz a(1,2) s by (subst reloc_loop.simps) (simp add: sec_named_def reloc_spec_def realloc_to_def)
  next
    case True
    let ?d = "take (unat cnt * unat k + ?n * unat k) buf @ map junk [length buf..<unat cnt * unat k + ?n * unat k]"
    have mc: "memcpy ?d (unat cnt * unat k) (drop (p + 8) m) (?n * unat k) = Some (buf @ concat (snd s) @ [])"
      using bs buf(1) by (simp add: memcpy_def)
    have ad: "adjust_insns (buf @ concat (snd s) @ []) (unat cnt * unat k) k insns_cnt 0 ?n = Some (buf @ concat (map (shift_insn insns_cnt) (snd s)) @ [])"
      by (rule adjust_insns_ok [OF v k]) (use buf in \<open>simp_all add: algebra_simps\<close>)
    show ?thesis using True nz a(1,2,6) s u u2 mc ad by (subst reloc_loop.simps) (simp add: sec_named_def reloc_spec_def realloc_to_def Let_def)
  qed
qed

lemma reloc_other:
  assumes h: "has_secs m (unat k) p left (s # secs)" and left: "left < 2 ^ 32"
    and nm: "btf__name_by_offset btf (unat (fst s)) = Some (Some other)" "other \<noteq> name"
  shows "reloc_loop ok junk btf m k name insns_cnt buf cnt p (of_nat left) =
    reloc_loop ok junk btf m k name insns_cnt buf cnt (p + (8 + length (snd s) * unat k)) (of_nat (left - (8 + length (snd s) * unat k)))"
proof -
  note a = has_secs_Cons [OF h]
  let ?n = "length (snd s)" and ?t = "8 + length (snd s) * unat k"
  have u: "unat (of_nat ?n * k) = ?n * unat k" using unat_mult_small [of ?n k] a(4) left by simp
  have "unat (8 + of_nat ?n * k) = ?t" using u a(4) left by (simp add: unat_word_ariths)
  then have "(ucast (8 + of_nat ?n * k) :: u64) = of_nat ?t" by (metis of_nat_unat)
  then have r: "(of_nat left :: u64) - ucast (8 + of_nat ?n * k) = of_nat (left - ?t)" using a(4) by (simp add: of_nat_diff)
  have nz: "(of_nat left :: u64) \<noteq> 0" using a(4) left by (simp add: word_unat_eq_iff unsigned_of_nat take_bit_nat_eq_self)
  show ?thesis using nz a(1,2) nm r u by (subst reloc_loop.simps) (simp add: Let_def add.assoc)
qed

lemma reloc_loop_secs:
  assumes "has_secs m (unat k) p left secs" and "4 \<le> unat k" and "left < 2 ^ 32" and "\<forall>s \<in> set secs. \<exists>n. sec_named btf n s"
    and "length buf = unat cnt * unat k" and "\<forall>s \<in> set secs. sec_named btf name s \<longrightarrow> (unat cnt + length (snd s)) * unat k < 2 ^ 32"
  shows "reloc_loop ok junk btf m k name insns_cnt buf cnt p (of_nat left) = Some (reloc_spec ok btf secs name insns_cnt buf cnt)"
  using assms
proof (induction secs arbitrary: p left)
  case Nil
  then show ?case by (subst reloc_loop.simps) (simp add: has_secs_Nil reloc_spec_def)
next
  case (Cons s secs)
  note h = has_secs_Cons [OF Cons.prems(1)]
  show ?case
  proof (cases "sec_named btf name s")
    case True
    then show ?thesis using reloc_found [OF Cons.prems(1,2) True Cons.prems(5)] Cons.prems(3,6) by simp
  next
    case False
    obtain other where o: "btf__name_by_offset btf (unat (fst s)) = Some (Some other)" using Cons.prems(4) by (auto simp: sec_named_def)
    then have "other \<noteq> name" using False by (auto simp: sec_named_def)
    note r = reloc_other [OF Cons.prems(1,3) o this, of ok junk insns_cnt buf cnt]
    have "reloc_spec ok btf (s # secs) name insns_cnt buf cnt = reloc_spec ok btf secs name insns_cnt buf cnt" using False by (simp add: reloc_spec_def)
    then show ?thesis unfolding r using Cons.IH [OF h(5) Cons.prems(2)] Cons.prems(3-6) by simp
  qed
qed

text \<open>
  C22. Relocating function or line information: on a part of loaded extension data,
  \<^verbatim>\<open>btf_ext_reloc_info\<close> appends to the records collected so far exactly the records of the first block
  whose section has the name, with the instruction offset of each record turned from bytes
  into instructions and moved by the number of instructions before; without such a block it
  fails and leaves them as they are.  The names of the blocks have to be in the strings of the
  object, and the records have to fit in 32 bits of length.
\<close>

theorem btf_ext_reloc_info_correct:
  assumes "info_has m least i secs" "8 \<le> least" and "\<forall>s \<in> set secs. \<exists>n. sec_named btf n s"
    and "length buf = unat cnt * unat (ei_rec_size i)"
    and "\<forall>s \<in> set secs. sec_named btf name s \<longrightarrow> (unat cnt + length (snd s)) * unat (ei_rec_size i) < 2 ^ 32"
  shows "btf_ext_reloc_info ok junk btf m i name insns_cnt buf cnt = Some (reloc_spec ok btf secs name insns_cnt buf cnt)"
proof (cases "secs = []")
  case True
  then show ?thesis using assms(1) by (simp add: info_has_def btf_ext_reloc_info_def no_info_def) (subst reloc_loop.simps, simp add: reloc_spec_def)
next
  case False
  then have h: "has_secs m (unat (ei_rec_size i)) (ei_info i) (unat (ei_len i)) secs" "4 \<le> unat (ei_rec_size i)"
    using assms(1,2) by (simp_all add: info_has_def)
  have "unat (ei_len i) < 2 ^ 32" using unat_u32 by simp
  from reloc_loop_secs [OF h this assms(3-5)] show ?thesis by (simp add: btf_ext_reloc_info_def)
qed

definition demo_ext_sec :: ext_sec where "demo_ext_sec = (1, [[16, 0, 0, 0, 7, 0, 0, 0]])"

definition demo_ext_info :: btf_ext_info where
  "demo_ext_info = \<lparr>ei_info = 4, ei_rec_size = 8, ei_len = 16, ei_sec_cnt = 1\<rparr>"

theorem btf_ext_reloc_info_correct_witness:
  "btf_ext_reloc_info True (\<lambda>_. 0) (ostrs int_obj) (le_bytes 8 @ sec_bytes demo_ext_sec) demo_ext_info ''int'' 5 [] 0 =
     Some (0, [7, 0, 0, 0, 7, 0, 0, 0], 1)"
proof -
  have n: "sec_named (ostrs int_obj) ''int'' demo_ext_sec"
    using int_obj_name by (simp add: sec_named_def demo_ext_sec_def btf__name_by_offset_def)
  have "length (sec_bytes demo_ext_sec) = 16" by (simp add: sec_bytes_def demo_ext_sec_def)
  then have h: "has_secs (le_bytes 8 @ sec_bytes demo_ext_sec) 8 4 16 [demo_ext_sec]"
    by (simp add: has_secs_def sec_valid_def) (simp add: demo_ext_sec_def)
  have "info_has (le_bytes 8 @ sec_bytes demo_ext_sec) 8 demo_ext_info [demo_ext_sec]"
    using h by (simp add: info_has_def demo_ext_info_def to_int_small [of 1, simplified])
  from btf_ext_reloc_info_correct [OF this, of "ostrs int_obj" "[]" 0 "''int''" True "\<lambda>_. 0" 5] n
  have "btf_ext_reloc_info True (\<lambda>_. 0) (ostrs int_obj) (le_bytes 8 @ sec_bytes demo_ext_sec) demo_ext_info ''int'' 5 [] 0 =
    Some (reloc_spec True (ostrs int_obj) [demo_ext_sec] ''int'' 5 [] 0)" by (auto simp: demo_ext_info_def demo_ext_sec_def)
  moreover have "reloc_spec True (ostrs int_obj) [demo_ext_sec] ''int'' 5 [] 0 = (0, [7, 0, 0, 0, 7, 0, 0, 0], 1)"
    using n by (simp add: reloc_spec_def shift_insn_def demo_ext_sec_def load32_def le_bytes_def)
  ultimately show ?thesis by simp
qed

section \<open>What is visited\<close>

text \<open>
  The blocks by offset and number of records, the addresses of a field of the records of a part,
  and those of the names in it.
\<close>

fun secs_at :: "nat \<Rightarrow> nat \<Rightarrow> ext_sec list \<Rightarrow> (nat \<times> nat) list" where
  "secs_at k p [] = []"
| "secs_at k p (s # secs) = (p, length (snd s)) # secs_at k (p + (8 + length (snd s) * k)) secs"

definition recs_of :: "nat \<Rightarrow> nat \<times> nat \<Rightarrow> nat list" where
  "recs_of k s = map (\<lambda>i. fst s + 8 + k * i) [0..<snd s]"

definition part_at :: "btf_ext_info \<Rightarrow> ext_sec list \<Rightarrow> (nat \<times> nat) list" where
  "part_at i secs = secs_at (unat (ei_rec_size i)) (ei_info i) secs"

definition part_recs :: "btf_ext_info \<Rightarrow> ext_sec list \<Rightarrow> nat list" where
  "part_recs i secs = concat (map (recs_of (unat (ei_rec_size i))) (part_at i secs))"

lemma visit_each_append:
  "visit_each v (xs @ ys) c = do { (err, c) \<leftarrow> visit_each v xs c; if err \<noteq> 0 then Some (err, c) else visit_each v ys c }"
proof (induction xs arbitrary: c)
  case (Cons a xs)
  show ?case by (cases "v a c") (use Cons.IH in auto)
qed simp

lemma visit_each_concat: "visit_each (\<lambda>x. visit_each v (f x)) xs c = visit_each v (concat (map f xs)) c"
proof (induction xs arbitrary: c)
  case (Cons x xs)
  show ?case by (cases "visit_each v (f x) c") (use Cons.IH in \<open>auto simp: visit_each_append\<close>)
qed simp

lemma visit_each_map: "visit_each (\<lambda>x. v (f x)) xs c = visit_each v (map f xs) c"
proof (induction xs arbitrary: c)
  case (Cons x xs)
  show ?case by (cases "v (f x) c") (use Cons.IH in auto)
qed simp

text \<open>The numbers of records are what they were (\<open>P\<close>) as long as the visits keep them.\<close>

lemma for_rec_visits:
  assumes "P c" and "\<And>c. P c \<Longrightarrow> load32 (mem c) (sec + 4) = Some num"
    and "\<And>a c c'. P c \<Longrightarrow> body a c = Some (0, c') \<Longrightarrow> P c'"
  shows "for_each_btf_ext_rec mem k sec body i c = visit_each body (map (\<lambda>i. sec + 8 + unat k * i) [i..<unat num]) c"
  using assms(1)
proof (induction "unat num - i" arbitrary: i c)
  case 0
  then show ?case using assms(2) [OF 0(2)] by (subst for_each_btf_ext_rec.simps) simp
next
  case (Suc n)
  then have i: "[i..<unat num] = i # [i + 1..<unat num]" "n = unat num - (i + 1)" using upt_conv_Cons [of i "unat num"] by simp_all
  have lt: "i < unat num" using Suc.hyps(2) by linarith
  show ?case
  proof (cases "body (sec + 8 + unat k * i) c")
    case None
    then show ?thesis using i assms(2) [OF Suc.prems] lt by (subst for_each_btf_ext_rec.simps) simp
  next
    case (Some r)
    obtain e c' where r: "r = (e, c')" by (cases r)
    have "for_each_btf_ext_rec mem k sec body (i + 1) c' = visit_each body (map (\<lambda>i. sec + 8 + unat k * i) [i + 1..<unat num]) c'" if "e = 0"
      using Suc.hyps(1) [OF i(2), of c'] assms(3) [OF Suc.prems] Some r that by simp
    then show ?thesis using i(1) Some r assms(2) [OF Suc.prems] lt by (subst for_each_btf_ext_rec.simps) simp
  qed
qed

lemma for_sec_visits:
  assumes "P c" and "\<And>c s. P c \<Longrightarrow> s \<in> set (secs_at (unat k) p secs) \<Longrightarrow> load32 (mem c) (fst s + 4) = Some (of_nat (snd s))"
    and "\<And>a c c'. P c \<Longrightarrow> body a c = Some (0, c') \<Longrightarrow> P c'"
    and "secs_valid (unat k) secs" "length (secs_bytes secs) = left" "left < 2 ^ 32"
  shows "for_each_btf_ext_sec mem k (p + left) body p c = visit_each body (map fst (secs_at (unat k) p secs)) c"
  using assms(1,2,4-6)
proof (induction secs arbitrary: p c left)
  case Nil
  then show ?case by (subst for_each_btf_ext_sec.simps) simp
next
  case (Cons s secs)
  let ?t = "8 + length (snd s) * unat k"
  have v: "sec_valid (unat k) s" "secs_valid (unat k) secs" using Cons.prems(3) by simp_all
  have l: "left = ?t + length (secs_bytes secs)" using Cons.prems(4) sec_bytes_length [OF v(1)] by simp
  have u: "unat (k * of_nat (length (snd s))) = length (snd s) * unat k"
    using unat_mult_small [of "length (snd s)" k] l Cons.prems(5) by (simp add: mult.commute)
  show ?case
  proof (cases "body p c")
    case None
    then show ?thesis using l by (subst for_each_btf_ext_sec.simps) simp
  next
    case (Some r)
    obtain e c' where r: "r = (e, c')" by (cases r)
    have pe: "p + left = p + ?t + length (secs_bytes secs)" using l by simp
    have "for_each_btf_ext_sec mem k (p + left) body p c = visit_each body (map fst (secs_at (unat k) (p + ?t) secs)) c'" if "e = 0"
    proof -
      have P: "P c'" using assms(3) [OF Cons.prems(1)] Some r that by simp
      then have "load32 (mem c') (p + 4) = Some (of_nat (length (snd s)))" using Cons.prems(2) [OF P, of "(p, length (snd s))"] by simp
      then have "for_each_btf_ext_sec mem k (p + left) body p c = for_each_btf_ext_sec mem k (p + left) body (p + ?t) c'"
        using Some r that l u by (subst for_each_btf_ext_sec.simps) (simp add: add.assoc)
      also have "\<dots> = visit_each body (map fst (secs_at (unat k) (p + ?t) secs)) c'"
        unfolding pe by (rule Cons.IH [OF P _ v(2) refl]) (use Cons.prems(2,5) l in auto)
      finally show ?thesis .
    qed
    moreover have "for_each_btf_ext_sec mem k (p + left) body p c = Some (e, c')" if "e \<noteq> 0"
      using Some r l that by (subst for_each_btf_ext_sec.simps) simp
    ultimately show ?thesis using Some r by (cases "e = 0") simp_all
  qed
qed

text \<open>A visit that succeeds keeps \<open>P\<close>.\<close>

definition keeps :: "('c \<Rightarrow> bool) \<Rightarrow> ('a \<Rightarrow> 'c \<Rightarrow> (int \<times> 'c) option) \<Rightarrow> bool" where
  "keeps P v \<longleftrightarrow> (\<forall>a c c'. P c \<longrightarrow> v a c = Some (0, c') \<longrightarrow> P c')"

lemma keepsD: "keeps P v \<Longrightarrow> P c \<Longrightarrow> v a c = Some (0, c') \<Longrightarrow> P c'"
  by (auto simp: keeps_def)

lemma keeps_visit_each: "keeps P v \<Longrightarrow> keeps P (\<lambda>x. visit_each v (f x))"
proof -
  assume k: "keeps P v"
  have "P c \<Longrightarrow> visit_each v xs c = Some (0, c') \<Longrightarrow> P c'" for xs c c'
    by (induction xs arbitrary: c) (auto split: Option.bind_splits if_splits dest: keepsD [OF k])
  then show ?thesis by (auto simp: keeps_def)
qed

lemma for_rec_keeps: "keeps P v \<Longrightarrow> P c \<Longrightarrow> for_each_btf_ext_rec mem k sec v i c = Some (0, c') \<Longrightarrow> P c'"
proof (induction mem k sec v i c rule: for_each_btf_ext_rec.induct)
  case (1 mem k sec v i c)
  obtain num where num: "load32 (mem c) (sec + 4) = Some num" using 1(4) by (subst (asm) for_each_btf_ext_rec.simps) (auto split: option.splits)
  show ?case
  proof (cases "i < unat num")
    case True
    obtain c1 where c1: "v (sec + 8 + unat k * i) c = Some (0, c1)" "for_each_btf_ext_rec mem k sec v (i + 1) c1 = Some (0, c')"
      using 1(4) num True by (subst (asm) for_each_btf_ext_rec.simps) (auto split: option.splits if_splits)
    show ?thesis by (rule 1(1) [OF num True c1(1) refl _ 1(2) keepsD [OF 1(2,3) c1(1)] c1(2)]) simp
  next
    case False
    then have "c' = c" using 1(4) num by (subst (asm) for_each_btf_ext_rec.simps) simp
    then show ?thesis using 1(3) by simp
  qed
qed

lemma keeps_rec: "keeps P v \<Longrightarrow> keeps P (\<lambda>sec. for_each_btf_ext_rec mem k sec v i)"
  unfolding keeps_def [of P "\<lambda>sec. for_each_btf_ext_rec mem k sec v i"] by (intro allI impI) (rule for_rec_keeps)

lemma keeps_then:
  assumes "keeps P v" "keeps P w"
  shows "keeps P (\<lambda>a c. do { (err, c) \<leftarrow> v a c; if err \<noteq> 0 then Some (err, c) else w a c })"
  unfolding keeps_def
proof (intro allI impI)
  fix a c c' assume P: "P c" and r: "(do { (err, c) \<leftarrow> v a c; if err \<noteq> 0 then Some (err, c) else w a c }) = Some (0, c')"
  then obtain err c1 where 1: "v a c = Some (err, c1)" by (cases "v a c") auto
  then have "err = 0" "w a c1 = Some (0, c')" using r by (auto split: if_splits)
  then show "P c'" using keepsD [OF assms(2) keepsD [OF assms(1) P]] 1 by blast
qed

lemma visit_each_cong:
  assumes "keeps P v" and "\<And>a c. a \<in> set xs \<Longrightarrow> P c \<Longrightarrow> v a c = w a c" and "P c"
  shows "visit_each v xs c = visit_each w xs c"
  using assms(2,3)
proof (induction xs arbitrary: c)
  case (Cons a xs)
  have e: "v a c = w a c" using Cons.prems by simp
  show ?case
  proof (cases "v a c")
    case (Some r)
    obtain err c' where r: "r = (err, c')" by (cases r)
    have "err = 0 \<Longrightarrow> P c'" using keepsD [OF assms(1) Cons.prems(2)] Some r by simp
    moreover have "w a c = Some (err, c')" using e Some r by simp
    ultimately show ?thesis using Cons.IH [of c'] Cons.prems(1) Some r by (cases "err = 0") simp_all
  qed (use e in simp)
qed simp

definition heads_ok :: "bytes \<Rightarrow> (nat \<times> nat) list \<Rightarrow> bool" where
  "heads_ok m ss \<longleftrightarrow> (\<forall>s \<in> set ss. load32 m (fst s + 4) = Some (of_nat (snd s)))"

lemma secs_at_less: "secs_valid k secs \<Longrightarrow> s \<in> set (secs_at k p secs) \<Longrightarrow> snd s < 2 ^ 32"
  by (induction secs arbitrary: p) (auto simp: sec_valid_def)

lemma part_visits:
  assumes i: "info_has m least i secs" and P: "P c" "\<And>c. P c \<Longrightarrow> heads_ok (mem c) (part_at i secs)" and k: "keeps P body"
  shows "for_part mem i body c = visit_each body (map fst (part_at i secs)) c"
proof (cases "secs = []")
  case True
  then show ?thesis using i by (simp add: for_part_def part_at_def info_has_def no_info_def for_each_btf_ext_sec.simps)
next
  case False
  then have h: "has_secs m (unat (ei_rec_size i)) (ei_info i) (unat (ei_len i)) secs" using i by (simp add: info_has_def)
  then have v: "secs_valid (unat (ei_rec_size i)) secs" by (simp add: has_secs_def)
  have l: "unat (ei_len i) < 2 ^ 32" using unat_u32 by simp
  show ?thesis unfolding for_part_def part_at_def
    by (rule for_sec_visits [where P = P, OF P(1) _ _ v has_secs_length [OF h] l]) (use P(2) keepsD [OF k] in \<open>auto simp: heads_ok_def part_at_def\<close>)
qed

lemma rec_visits:
  assumes i: "info_has m least i secs" and P: "P c" "\<And>c. P c \<Longrightarrow> heads_ok (mem c) (part_at i secs)" and k: "keeps P v" and s: "s \<in> set (part_at i secs)"
  shows "for_each_btf_ext_rec mem (ei_rec_size i) (fst s) v 0 c = visit_each v (recs_of (unat (ei_rec_size i)) s) c"
proof -
  have "secs_valid (unat (ei_rec_size i)) secs" using i by (auto simp: info_has_def has_secs_def split: if_splits)
  then have "unat (of_nat (snd s) :: u32) = snd s" using secs_at_less s by (intro unat_of_nat_u32) (auto simp: part_at_def)
  moreover have "for_each_btf_ext_rec mem (ei_rec_size i) (fst s) v 0 c =
      visit_each v (map (\<lambda>j. fst s + 8 + unat (ei_rec_size i) * j) [0..<unat (of_nat (snd s) :: u32)]) c"
    by (rule for_rec_visits [where P = P]) (use P s keepsD [OF k] in \<open>auto simp: heads_ok_def\<close>)
  ultimately show ?thesis by (simp add: recs_of_def)
qed

lemma part_recs_visits:
  assumes i: "info_has m least i secs" and P: "P c" "\<And>c. P c \<Longrightarrow> heads_ok (mem c) (part_at i secs)" and k: "keeps P v"
  shows "for_part mem i (\<lambda>sec. for_each_btf_ext_rec mem (ei_rec_size i) sec v 0) c = visit_each v (part_recs i secs) c"
proof -
  let ?b = "\<lambda>sec. for_each_btf_ext_rec mem (ei_rec_size i) sec v 0"
  have "for_part mem i ?b c = visit_each ?b (map fst (part_at i secs)) c" by (rule part_visits [where P = P, OF i P keeps_rec [OF k]])
  also have "\<dots> = visit_each (\<lambda>s. ?b (fst s)) (part_at i secs) c" by (rule visit_each_map [symmetric])
  also have "\<dots> = visit_each (\<lambda>s. visit_each v (recs_of (unat (ei_rec_size i)) s)) (part_at i secs) c"
  proof (rule visit_each_cong [where P = P])
    show "keeps P (\<lambda>s. ?b (fst s))" using keeps_rec [OF k, of mem "ei_rec_size i" 0] by (simp add: keeps_def)
    show "?b (fst s) d = visit_each v (recs_of (unat (ei_rec_size i)) s) d" if "s \<in> set (part_at i secs)" "P d" for s d
      by (rule rec_visits [where P = P, OF i that(2) P(2) k that(1)])
  qed (rule P(1))
  finally show ?thesis by (simp add: visit_each_concat part_recs_def)
qed

text \<open>Blocks of which the name is visited, and then fields \<open>flds\<close> of every record.\<close>

definition named_fields :: "btf_ext_info \<Rightarrow> (nat \<Rightarrow> nat list) \<Rightarrow> nat \<times> nat \<Rightarrow> nat list" where
  "named_fields i flds s = fst s # concat (map flds (recs_of (unat (ei_rec_size i)) s))"

lemma part_names_visits:
  assumes i: "info_has m least i secs" and P: "P c" "\<And>c. P c \<Longrightarrow> heads_ok (mem c) (part_at i secs)" and k: "keeps P visit"
    and body: "body = (\<lambda>sec c. do { (err, c) \<leftarrow> visit sec c; if err \<noteq> 0 then Some (err, c)
      else for_each_btf_ext_rec mem (ei_rec_size i) sec (\<lambda>r. visit_each visit (flds r)) 0 c })"
  shows "for_part mem i body c = visit_each visit (concat (map (named_fields i flds) (part_at i secs))) c"
proof -
  let ?v = "\<lambda>r. visit_each visit (flds r)"
  have kv: "keeps P ?v" by (rule keeps_visit_each [OF k])
  have kb: "keeps P body" unfolding body by (rule keeps_then [OF k keeps_rec [OF kv]])
  have "for_part mem i body c = visit_each body (map fst (part_at i secs)) c" by (rule part_visits [where P = P, OF i P kb])
  also have "\<dots> = visit_each (\<lambda>s. body (fst s)) (part_at i secs) c" by (rule visit_each_map [symmetric])
  also have "\<dots> = visit_each (\<lambda>s. visit_each visit (named_fields i flds s)) (part_at i secs) c"
  proof (rule visit_each_cong [where P = P])
    show "keeps P (\<lambda>s. body (fst s))" using kb by (simp add: keeps_def)
    fix s d assume s: "s \<in> set (part_at i secs)" and d: "P d"
    show "body (fst s) d = visit_each visit (named_fields i flds s) d"
    proof (cases "visit (fst s) d")
      case (Some r)
      obtain err d' where r: "r = (err, d')" by (cases r)
      have "for_each_btf_ext_rec mem (ei_rec_size i) (fst s) ?v 0 d' = visit_each visit (concat (map flds (recs_of (unat (ei_rec_size i)) s))) d'" if "err = 0"
        using rec_visits [where P = P, OF i keepsD [OF k d] P(2) kv s] Some r that by (simp add: visit_each_concat)
      then show ?thesis using Some r by (cases "err = 0") (simp_all add: body named_fields_def)
    qed (simp add: body named_fields_def)
  qed (rule P(1))
  finally show ?thesis by (simp add: visit_each_concat)
qed

lemma then_visits:
  assumes "X = visit_each v as c" and "\<And>c'. visit_each v as c = Some (0, c') \<Longrightarrow> Y c' = visit_each v bs c'"
  shows "(do { (err, c) \<leftarrow> X; if err \<noteq> 0 then Some (err, c) else Y c }) = visit_each v (as @ bs) c"
proof (cases "visit_each v as c")
  case (Some r)
  obtain err c' where r: "r = (err, c')" by (cases r)
  then show ?thesis using assms Some by (cases "err = 0") (simp_all add: visit_each_append)
qed (use assms(1) in \<open>simp add: visit_each_append\<close>)

text \<open>
  Every type id and every offset of a name in the extension data is visited once, in the order of
  the data, as long as no visit changes the number of records of a block.  That the parts of
  the data do not overlap is not checked when it is loaded.
\<close>

theorem btf_ext_visit_type_ids_all:
  assumes x: "ext_has x fs ls cs" and P: "P c" "\<And>c. P c \<Longrightarrow> heads_ok (mem c) (part_at (func_info x) fs @ part_at (core_relo_info x) cs)"
    and k: "keeps P (stop_if_neg visit)"
  shows "btf_ext_visit_type_ids mem x visit c =
    visit_each (stop_if_neg visit) (map (\<lambda>r. r + 4) (part_recs (func_info x) fs @ part_recs (core_relo_info x) cs)) c"
proof -
  let ?v = "\<lambda>r. stop_if_neg visit (r + 4)"
  have kv: "keeps P ?v" using k by (auto simp: keeps_def)
  have i: "info_has (ext_data x) 8 (func_info x) fs" "info_has (ext_data x) 16 (core_relo_info x) cs" using x by (simp_all add: ext_has_def)
  have h: "P c \<Longrightarrow> heads_ok (mem c) (part_at (func_info x) fs)" "P c \<Longrightarrow> heads_ok (mem c) (part_at (core_relo_info x) cs)" for c
    using P(2) by (auto simp: heads_ok_def)
  have "btf_ext_visit_type_ids mem x visit c = visit_each ?v (part_recs (func_info x) fs @ part_recs (core_relo_info x) cs) c"
    unfolding btf_ext_visit_type_ids_def
  proof (rule then_visits [OF part_recs_visits [where P = P, OF i(1) P(1) h(1) kv]])
    fix c' assume c': "visit_each ?v (part_recs (func_info x) fs) c = Some (0, c')"
    have "P c'" by (rule keepsD [OF keeps_visit_each [OF kv, of "\<lambda>x. x"] P(1) c'])
    then show "for_part mem (core_relo_info x) (\<lambda>sec. for_each_btf_ext_rec mem (ei_rec_size (core_relo_info x)) sec ?v 0) c' =
        visit_each ?v (part_recs (core_relo_info x) cs) c'" by (rule part_recs_visits [where P = P, OF i(2) _ h(2) kv])
  qed
  also have "\<dots> = visit_each (stop_if_neg visit) (map (\<lambda>r. r + 4) (part_recs (func_info x) fs @ part_recs (core_relo_info x) cs)) c"
    by (rule visit_each_map)
  finally show ?thesis .
qed

theorem btf_ext_visit_str_offs_all:
  assumes x: "ext_has x fs ls cs" and k: "keeps P visit"
    and P: "P c" "\<And>c. P c \<Longrightarrow> heads_ok (mem c) (part_at (func_info x) fs @ part_at (line_info x) ls @ part_at (core_relo_info x) cs)"
  shows "btf_ext_visit_str_offs mem x visit c =
    visit_each visit (map fst (part_at (func_info x) fs) @ concat (map (named_fields (line_info x) (\<lambda>r. [r + 4, r + 8])) (part_at (line_info x) ls)) @
      concat (map (named_fields (core_relo_info x) (\<lambda>r. [r + 8])) (part_at (core_relo_info x) cs))) c"
proof -
  have i: "info_has (ext_data x) 8 (func_info x) fs" "info_has (ext_data x) 16 (line_info x) ls" "info_has (ext_data x) 16 (core_relo_info x) cs"
    using x by (simp_all add: ext_has_def)
  have h: "P c \<Longrightarrow> heads_ok (mem c) (part_at (func_info x) fs)" "P c \<Longrightarrow> heads_ok (mem c) (part_at (line_info x) ls)"
    "P c \<Longrightarrow> heads_ok (mem c) (part_at (core_relo_info x) cs)" for c using P(2) by (auto simp: heads_ok_def)
  have one: "(\<lambda>r. visit (r + 8)) = (\<lambda>r. visit_each visit [r + 8])" by (rule ext, rule ext) (simp only: visit_each_one)
  have kp: "P d \<Longrightarrow> visit_each visit as d = Some (0, d') \<Longrightarrow> P d'" for as d d' using keepsD [OF keeps_visit_each [OF k, of "\<lambda>x. x"]] by blast
  show ?thesis unfolding btf_ext_visit_str_offs_def one
  proof (rule then_visits)
    show "for_part mem (func_info x) visit c = visit_each visit (map fst (part_at (func_info x) fs)) c" by (rule part_visits [where P = P, OF i(1) P(1) h(1) k])
  next
    fix c1 assume "visit_each visit (map fst (part_at (func_info x) fs)) c = Some (0, c1)"
    then have c1: "P c1" by (rule kp [OF P(1)])
    have 1: "for_part mem (line_info x) (\<lambda>sec c. do { (err, c) \<leftarrow> visit sec c; if err \<noteq> 0 then Some (err, c)
        else for_each_btf_ext_rec mem (ei_rec_size (line_info x)) sec (\<lambda>r. visit_each visit [r + 4, r + 8]) 0 c }) c1 =
      visit_each visit (concat (map (named_fields (line_info x) (\<lambda>r. [r + 4, r + 8])) (part_at (line_info x) ls))) c1"
      by (rule part_names_visits [where P = P, OF i(2) c1 h(2) k refl])
    have 2: "for_part mem (core_relo_info x) (\<lambda>sec c. do { (err, c) \<leftarrow> visit sec c; if err \<noteq> 0 then Some (err, c)
        else for_each_btf_ext_rec mem (ei_rec_size (core_relo_info x)) sec (\<lambda>r. visit_each visit [r + 8]) 0 c }) c2 =
      visit_each visit (concat (map (named_fields (core_relo_info x) (\<lambda>r. [r + 8])) (part_at (core_relo_info x) cs))) c2"
      if "visit_each visit (concat (map (named_fields (line_info x) (\<lambda>r. [r + 4, r + 8])) (part_at (line_info x) ls))) c1 = Some (0, c2)" for c2
      by (rule part_names_visits [where P = P, OF i(3) kp [OF c1 that] h(3) k refl])
    show "(do { (err, c) \<leftarrow> for_part mem (line_info x) (\<lambda>sec c. do { (err, c) \<leftarrow> visit sec c; if err \<noteq> 0 then Some (err, c)
          else for_each_btf_ext_rec mem (ei_rec_size (line_info x)) sec (\<lambda>r. visit_each visit [r + 4, r + 8]) 0 c }) c1;
        if err \<noteq> 0 then Some (err, c)
        else for_part mem (core_relo_info x) (\<lambda>sec c. do { (err, c) \<leftarrow> visit sec c; if err \<noteq> 0 then Some (err, c)
          else for_each_btf_ext_rec mem (ei_rec_size (core_relo_info x)) sec (\<lambda>r. visit_each visit [r + 8]) 0 c }) c }) =
      visit_each visit (concat (map (named_fields (line_info x) (\<lambda>r. [r + 4, r + 8])) (part_at (line_info x) ls)) @
        concat (map (named_fields (core_relo_info x) (\<lambda>r. [r + 8])) (part_at (core_relo_info x) cs))) c1"
      by (rule then_visits [OF 1 2])
  qed
qed

end
