(* ===== verification/Spec2Isabelle.thy ===== *)
theory Spec2Isabelle
  imports Dns_Ctl Ksyms Hist Tcprtt Tcpconnect_Tool Sys_Files Syms Map_Helpers Probes Ringbuf Netlink_Tc Btf_Raw Btf_Ext
begin

text \<open>
  A verification library for lno, a set of eBPF programs that observe and serve network traffic, with
  the user-space tools that load and read them.  Paths are relative to \<^verbatim>\<open>src/plugin/\<close>; \<^verbatim>\<open>libbpf\<close> is
  \<^verbatim>\<open>libbpf-test/libbpf/src\<close>.

  \<^bold>\<open>Parts of the program and how they interact.\<close>
  BPF programs run in the kernel, on a packet or on an event, and keep what they learn in BPF maps, ring
  buffers and perf buffers; user-space tools set the filters of a program before it is loaded, read the maps
  and buffers and print them.  The DNS cache answers queries at the network driver from a map that a
  control program fills.  tcprtt and tcpconnect consist each of a BPF program and a tool.  The layer
  programs follow packets through the stack.  The tools share \<^verbatim>\<open>trace_helpers.c\<close> (symbols of the kernel and of
  processes, histograms, partitions, feature probes) and \<^verbatim>\<open>map_helpers.c\<close>; the symbol tables keep their names
  in the BTF string sections of libbpf, which rest on a string set, which rests on a hash table; BTF objects join
  the strings with a section of types.

  \<^bold>\<open>Foundations.\<close>
  \<^item> \<open>Lno_Prelude\<close>: C integers as words, byte memories with checked loads and stores, the byte-order macros of
    \<^verbatim>\<open>ciliumebpf/headers/bpf_endian.h\<close>, collections of simplification rules.
  \<^item> \<open>C_Lib\<close>: \<^verbatim>\<open>int\<close> arithmetic that fails on overflow, blocks of memory with uninitialised cells, \<^verbatim>\<open>realloc\<close>,
    growing arrays, \<^verbatim>\<open>strcmp\<close>, \<^verbatim>\<open>strtol\<close>, binary search, \<^verbatim>\<open>fgets\<close>.
  \<^item> \<open>Bpf_Maps\<close>: maps are kernel code and so a parameter, a record of operations, with the documented laws as
    the locales \<open>bpf_map\<close>, \<open>bpf_hash\<close>, \<open>bpf_iter\<close>, \<open>bpf_room\<close> and \<open>bpf_array\<close>, all interpreted on reference maps;
    \<open>bpf_map_lookup_or_try_init\<close> is the helper of the BPF programs.

  \<^bold>\<open>The DNS cache.\<close>
  \<^item> \<open>Dns_Cache\<close> models every function of \<^verbatim>\<open>ciliumebpf/dnsExpress/dnsExpress.c\<close> on the bytes of the packet.
    \<open>Dns_Checksum\<close> proves the IP checksum against RFC 1071.  \<open>Dns_Reply\<close> shows that no run reads or writes out
    of bounds (C1), that a hit is answered with the specified reply (C2), that nothing else is transmitted (C3),
    what happens to passed packets (C4), and the two building blocks, the parsed query and the checksum (C6).
  \<^item> \<open>Dns_Ctl\<close> models \<^verbatim>\<open>libbpf-test/okk/dnscache.c\<close> and composes it with the XDP program: what is added is
    answered (C38), what is removed is passed on (C39).  A name is a list of labels, with its dotted form for the control program and
    its form on the wire in the packet; the conversion between them is not in the repository and a parameter.

  \<^bold>\<open>trace_helpers.c.\<close>
  \<^item> \<open>Ksyms\<close>: the kernel symbol table, loading (C7), the lookup by address (C8) and by name.
  \<^item> \<open>Syms\<close>: the symbol tables of processes; loading the mappings (C33), the lookup against a specification over
    mappings and files with symbols loaded on demand (C29), the translation of addresses (C30) and where it fails, a
    use of freed memory (C32), the cache.
  \<^item> \<open>Hist\<close>: the histogram printers, the rows and the overflow of the bars.
  \<^item> \<open>Sys_Files\<close>: partitions (C23) and feature probes on the text of the files they read.

  \<^bold>\<open>Tools and BPF programs.\<close>
  \<^item> \<open>Tcprtt\<close>: \<^verbatim>\<open>libbpf-test/tcprtt.bpf.c\<close> and \<^verbatim>\<open>tcprtt.c\<close>; slots, the map as the exact histogram of the events
    (C13), printing and clearing, options, the polling loop (C17) and \<^verbatim>\<open>main\<close>.  Events may come between any two
    system calls of the tool: a parameter gives those before each of them.
    C19 below joins the BPF program with the printer.
  \<^item> \<open>Tcpconnect\<close>: \<^verbatim>\<open>libbpf-test/okk/tcpconnect.bpf.c\<close> as an interleaving of the steps of threads, the events (C20) and
    counts (C21); the options of \<^verbatim>\<open>tcpconnect.c\<close> against the filter.
    \<open>Tcpconnect_Tool\<close> adds the output and \<^verbatim>\<open>main\<close>, and relates the printed lines to the connections through a perf buffer
    that has a ring per CPU and may lose events (C37).
  \<^item> \<open>Map_Helpers\<close>: \<^verbatim>\<open>libbpf-test/map_helpers.c\<close>, dumping a map (C34), with failing system calls, and the missing return behind
    a successful batch.  The batch call of the kernel is the locale \<open>bpf_batch\<close>.
  \<^item> \<open>Layer\<close>: \<^verbatim>\<open>ciliumebpf/layer/layer.c\<close> as a step relation over argument registers and kernel memory, the messages (C36) and their
    unwritten parts.
  \<^item> \<open>Probes\<close>: the programs of one event under \<^verbatim>\<open>libbpfgo\<close>, \<^verbatim>\<open>ciliumebpf/interrupt\<close>, \<^verbatim>\<open>ciliumebpf/stack\<close> and the filter of
    \<^verbatim>\<open>libbpf-test/doesnotok/tc_test.bpf.c\<close>.

  \<^bold>\<open>libbpf.\<close>
  \<^item> \<open>Hashmap\<close>: \<^verbatim>\<open>hashmap.c\<close>, with the invariant of the table, its abstraction to a map and every operation refined.
  \<^item> \<open>Strset\<close>: \<^verbatim>\<open>strset.c\<close> and the string section of \<^verbatim>\<open>btf.c\<close>; insertion (C26), the string set (C27), round trip
    of names.
  \<^item> The type section of \<^verbatim>\<open>btf.c\<close>, on the bytes of the object, with the strings above.  \<open>Btf_Types\<close>: the object, its index and
    the parser.  \<open>Btf_Load\<close>: \<open>btf_new\<close> accepts exactly the valid images, in either byte order (C11).
    \<open>Btf_Query\<close>: sizes against the shape of a type (C15), search by name (C16), alignment against an inductive definition (C18)
    and two inputs on which it fails.  \<open>Btf_Build\<close>: every operation that adds a type or an element, as instances of \<open>append_type\<close> and
    \<open>append_elem\<close>, refined to lists of types (\<open>abs_types\<close>).  \<open>Btf_Object\<close>: any sequence of them keeps the object well formed (C9).
    \<open>Btf_Elems\<close>: the contract of adding an element (locale \<open>elem_adder\<close>, interpreted on the five operations of the code),
    and structs read back as declared (C12).  \<open>Btf_Raw\<close>: the image of an object with its cache, which loads as the object (C24).
    \<open>Btf_Copy\<close>: copying one type or all types of another object, with names and type ids rewritten (C31).
    \<open>Btf_Ext\<close>: the extension data of an object; loading accepts exactly the data of the right form (C28), moving the records of a section
    to a program (C22), visiting the type ids and names in them.
  \<^item> \<open>Ringbuf\<close>: \<^verbatim>\<open>ringbuf.c\<close>, the consumer of ring buffers against a kernel that writes meanwhile (C25), setting up a ring, with the
    mappings that are live after each outcome (C40).  The contract of the kernel is the locale \<open>ring_producer\<close>.
  \<^item> \<open>Nlattr\<close>: \<^verbatim>\<open>nlattr.c\<close> and \<^verbatim>\<open>nlattr.h\<close>, the round trip of netlink attributes, memory safety of the parser (C35) and
    two reads out of bounds.  \<open>Nlattr_Decode\<close>: a reference decoder of attributes, which the parser agrees with.
  \<^item> \<open>Netlink\<close>: \<^verbatim>\<open>netlink.c\<close>, the exchange of a request and its answers, refined to a run over messages for every callback
    that keeps the contract \<open>nl_handler\<close>.  The socket asks for extended
    acknowledgements, and the text in them is read from the buffer as the code does it.  \<open>Netlink_Xdp\<close>: attaching XDP programs (C14) and querying them (C5).
    \<open>Netlink_Tc\<close>: hooks and filters of traffic control; attaching a filter (C10), querying it.

  \<^bold>\<open>Conventions.\<close>
  A result \<open>None\<close> of an operation is an undefined behaviour of C: an access outside an object, a signed
  overflow, a division by zero, a use of freed memory; error returns are ordinary results.  Allocations
  succeed or fail as a parameter says.  Loops are structural recursions, recursions with a measure, or
  \<^theory_text>\<open>partial_function (option)\<close> where they depend on a map; for the latter (\<open>print_loop\<close>, \<open>clear_loop\<close>,
  \<open>batch_loop\<close>, \<open>list_loop\<close>, \<open>process_loop\<close>, \<open>reloc_loop\<close>) it is proved that they return.  Fuel is used only for \<open>btf__align_of\<close>,
  which need not return; C18 shows that enough fuel gives the alignment exactly when the type has one.  The bounds in the theorems are those
  of the code: 255 octets of a name, 27 slots of a histogram, a packet with a full DNS header; the
  bound on the number of events in C19 is where the product of \<open>print_stars\<close> does not wrap.

  \<^bold>\<open>Not modelled.\<close>
  The Go programs that load the BPF objects; the rest of libbpf (deduplication of BTF, loading,
  relocation, linking, system calls), a vendored library; generated headers; \<^verbatim>\<open>http_filter\<close>, \<^verbatim>\<open>netfilter\<close> and \<^verbatim>\<open>doesnotok/brc.bpf.c\<close>, which do
  not compile; the kernel-module and fork demonstrations, which are not part of the plugins; the text that \<^verbatim>\<open>printf\<close> makes of its arguments; functions that
  only release memory.  The ring buffer consumer and the programs that write messages are each
  related to the records of the buffer, not composed.
\<close>

section \<open>From an event to a printed row\<close>

lemma hist_of_max:
  assumes "v \<in> set (slots (hist_of t es))"
  shows "unat v \<le> length es"
proof -
  have len: "length (slots (hist_of t es)) = MAX_SLOTS"
    by (rule slots_hist_of(1) [of 0]) (simp add: MAX_SLOTS_def)
  with assms(1) obtain s where s: "s < MAX_SLOTS" "v = slots (hist_of t es) ! s" by (metis in_set_conv_nth)
  let ?n = "length (filter (\<lambda>sk. slot_of (srtt_of t sk) = s) es)"
  have "unat v = ?n mod 2 ^ 32" using s slots_hist_of(2) [OF s(1), of t es] by (simp add: unat_of_nat take_bit_eq_mod)
  also have "\<dots> \<le> ?n" by (rule mod_less_eq_dividend)
  also have "\<dots> \<le> length es" by (rule length_filter_le)
  finally show ?thesis .
qed

text \<open>
  C19. What the user reads is what happened: in the histogram that is printed for a
  group of events, every event with a value below \<open>2^26\<close> is counted in a row whose
  printed range contains its value, and the number shown in that row is the number of
  events of that slot.
\<close>

theorem printed_row_of_event:
  assumes "sk \<in> set es" and "length es * 40 < 2 ^ 32" and "unat (srtt_of t sk) < 2 ^ 26"
  shows "\<exists>hd rows i. print_log2_hist (slots (hist_of t es)) MAX_SLOTS = Some (Some (hd, rows)) \<and> i < length rows \<and>
    row_low (rows ! i) \<le> ucast (srtt_of t sk) \<and> ucast (srtt_of t sk) \<le> row_high (rows ! i) \<and>
    unat (row_val (rows ! i)) = length (filter (\<lambda>e. slot_of (srtt_of t e) = slot_of (srtt_of t sk)) es)"
proof -
  let ?h = "slots (hist_of t es)" and ?v = "srtt_of t sk"
  let ?s = "slot_of ?v"
  have s: "?s < 26" using slot_of_spec(1,2) [of ?v] assms(3) by linarith
  then have sM: "?s < MAX_SLOTS" by (simp add: MAX_SLOTS_def)
  have len: "length ?h = MAX_SLOTS" by (rule slots_hist_of(1) [OF sM])
  define n where "n = length (filter (\<lambda>e. slot_of (srtt_of t e) = ?s) es)"
  have n: "0 < n" "n \<le> length es" using assms(1) unfolding n_def by (auto simp: filter_empty_conv)
  have hs: "unat (?h ! ?s) = n"
    using slots_hist_of(2) [OF sM, of t es] n(2) assms(2) by (simp add: n_def [symmetric] unat_of_nat take_bit_eq_mod)
  let ?m = "fold max (take MAX_SLOTS ?h) 0"
  have "?m = Max (set (0 # ?h))" using len by (simp add: Max.set_eq_fold [symmetric])
  then have "?m = 0 \<or> ?m \<in> set ?h" by (metis Max_in finite_set list.set_intros(1) empty_iff set_ConsD)
  then have "unat ?m \<le> length es" using hist_of_max [of ?m t es] by auto
  then have m: "unat ?m * 40 < 2 ^ 32" using assms(2) by linarith
  have nz: "?h ! ?s \<noteq> 0" using hs n(1) by auto
  moreover have "?h ! ?s \<in> set (take MAX_SLOTS ?h)" using len sM by simp
  ultimately obtain rows where r: "print_log2_hist ?h MAX_SLOTS = Some (Some ((5, 19), rows))"
    "int (length rows) = last_used (take MAX_SLOTS ?h) + 1" "\<forall>j < length rows. log2_row_ok ?h ?m 40 j (rows ! j)"
    using print_log2_hist_spec [of MAX_SLOTS ?h] len m by (auto simp: MAX_SLOTS_def)
  have "?s < length rows"
    using last_used_after [of ?h ?s] nz r(2) len sM by force
  moreover from this have "log2_row_ok ?h ?m 40 ?s (rows ! ?s)" using r(3) by blast
  moreover have "unat (ucast ?v :: u64) = unat ?v" by (rule unat_ucast_up) simp
  moreover have "unat ?v < 2 ^ (?s + 1)" "0 < ?s \<longrightarrow> 2 ^ ?s \<le> unat ?v" using slot_of_spec(3,4) [of ?v] s by auto
  ultimately show ?thesis using r(1) hs n_def
    by (intro exI [of _ "(5, 19)"] exI [of _ rows] exI [of _ ?s])
      (auto simp: log2_row_ok_def word_le_nat_alt)
qed

theorem printed_row_of_event_witness:
  "\<exists>hd rows i. print_log2_hist (slots (hist_of (rodata_of env_init) [sample_sock])) MAX_SLOTS = Some (Some (hd, rows)) \<and>
    i < length rows \<and> row_low (rows ! i) \<le> 200 \<and> 200 \<le> row_high (rows ! i)"
proof -
  have "srtt_of (rodata_of env_init) sample_sock = 200"
    by (simp add: srtt_of_def rodata_of_def env_init_def sample_sock_def)
  then show ?thesis
    using printed_row_of_event [of sample_sock "[sample_sock]" "rodata_of env_init"] by auto
qed

end
